(* ===== verification/Prelude.thy ===== *)
theory Prelude
  imports Main "HOL-Library.Multiset"
begin

text \<open>
  Shared vocabulary of the development: the exceptions the code raises, the result type of
  a fallible operation with its sequencing operator, the model of \<open>std::sort\<close>, and the
  generic lemmas on lists and intervals that more than one component needs.
\<close>

named_theorems examples \<open>definitions of the objects of an example, unfolded together when a witness evaluates them\<close>

section \<open>Exceptions and results\<close>

text \<open>
  The code reports failure by throwing: \<open>IE_ASSERT\<close>, \<open>THROW_IE_EXCEPTION\<close> and
  \<open>VPU_THROW_EXCEPTION\<close> with a message, and \<open>std::map::at\<close> on a missing key. An
  operation that may throw returns a sum, with the exception on the left. \<open>OutOfFuel\<close> is
  no exception of the code: it marks a recursion over a cyclic object graph that was cut off.
\<close>

datatype ie_exception = AssertFailed | Thrown string | OutOfRange | OutOfFuel

type_synonym 'a result = "ie_exception + 'a"

definition bindE :: "'a result \<Rightarrow> ('a \<Rightarrow> 'b result) \<Rightarrow> 'b result" where
  "bindE r f = (case r of Inl e \<Rightarrow> Inl e | Inr x \<Rightarrow> f x)"

definition ie_assert :: "bool \<Rightarrow> unit result" where
  "ie_assert b = (if b then Inr () else Inl AssertFailed)"

lemma bindE_simps [simp]:
  "bindE (Inl e) f = Inl e"
  "bindE (Inr x) f = f x"
  by (simp_all add: bindE_def)

lemma ie_assert_simps [simp]:
  "ie_assert True = Inr ()"
  "ie_assert False = Inl AssertFailed"
  by (simp_all add: ie_assert_def)

lemma bindE_assoc: "bindE (bindE r f) g = bindE r (\<lambda>x. bindE (f x) g)"
  by (cases r) auto

lemma bindE_eq_Inr [simp]: "(bindE r f = Inr y) = (\<exists>x. r = Inr x \<and> f x = Inr y)"
  by (cases r) auto

lemma ie_assert_eq_Inr [simp]: "(ie_assert b = Inr u) = b"
  by (cases b) auto

lemma ie_assert_Inl [simp]: "(ie_assert b = Inl e) = (\<not> b \<and> e = AssertFailed)"
  by (cases b) auto

lemma option_eqI: "(\<And>d. x = Some d \<longleftrightarrow> y = Some d) \<Longrightarrow> x = y"
  by (cases x; cases y) auto

lemma takeWhile_before: "x \<in> set xs \<Longrightarrow> length (takeWhile (\<lambda>y. y \<noteq> x) xs) < length xs"
  by (induction xs) auto

lemma case_InrE:
  assumes "case r of Inl _ \<Rightarrow> False | Inr y \<Rightarrow> P y"
  obtains y where "r = Inr y" "P y"
  using assms by (cases r) auto

text \<open>A \<open>for\<close> loop over a container whose body may throw, and the rules for its invariants.\<close>

fun foldE :: "('a \<Rightarrow> 's \<Rightarrow> 's result) \<Rightarrow> 'a list \<Rightarrow> 's \<Rightarrow> 's result" where
  "foldE f [] s = Inr s"
| "foldE f (x # xs) s = bindE (f x s) (foldE f xs)"

lemma foldE_append [simp]: "foldE f (xs @ ys) s = bindE (foldE f xs s) (foldE f ys)"
  by (induction xs arbitrary: s) (auto simp: bindE_def split: sum.split)

lemma foldE_inv:
  assumes "foldE f xs s = Inr s'" "P s" "\<And>x s s'. x \<in> set xs \<Longrightarrow> P s \<Longrightarrow> f x s = Inr s' \<Longrightarrow> P s'"
  shows "P s'"
  using assms by (induction xs arbitrary: s) auto

lemma foldE_total:
  assumes "P s" "\<And>x s. x \<in> set xs \<Longrightarrow> P s \<Longrightarrow> \<exists>s'. f x s = Inr s' \<and> P s'"
  shows "\<exists>s'. foldE f xs s = Inr s' \<and> P s'"
  using assms by (induction xs arbitrary: s) fastforce+

text \<open>A loop of checks.\<close>

lemma foldE_unit: "(\<And>x. x \<in> set xs \<Longrightarrow> f x () = Inr ()) \<Longrightarrow> foldE f xs () = Inr ()"
  by (induction xs) auto

text \<open>A loop that collects the results of its body.\<close>

fun mapE :: "('a \<Rightarrow> 'b result) \<Rightarrow> 'a list \<Rightarrow> 'b list result" where
  "mapE f [] = Inr []"
| "mapE f (x # xs) = bindE (f x) (\<lambda>y. bindE (mapE f xs) (\<lambda>ys. Inr (y # ys)))"

lemma mapE_Inr: "(\<And>x. x \<in> set xs \<Longrightarrow> f x = Inr (g x)) \<Longrightarrow> mapE f xs = Inr (map g xs)"
  by (induction xs) auto

lemma mapE_InrD: "mapE f xs = Inr ys \<Longrightarrow> length ys = length xs \<and> (\<forall>i < length xs. f (xs ! i) = Inr (ys ! i))"
  by (induction xs arbitrary: ys) (auto simp: nth_Cons split: nat.split)

section \<open>Vectors\<close>

text \<open>Reading and writing an element. An index outside the vector is undefined in the code and fails here.\<close>

definition vec_at :: "'a list \<Rightarrow> int \<Rightarrow> 'a result" where
  "vec_at xs i = (if 0 \<le> i \<and> i < int (length xs) then Inr (xs ! nat i) else Inl OutOfRange)"

definition vec_set :: "'a list \<Rightarrow> int \<Rightarrow> 'a \<Rightarrow> 'a list result" where
  "vec_set xs i v = (if 0 \<le> i \<and> i < int (length xs) then Inr (xs[nat i := v]) else Inl OutOfRange)"

lemma vec_at_nth: "i < length xs \<Longrightarrow> vec_at xs (int i) = Inr (xs ! i)"
  by (simp add: vec_at_def)

lemma vec_set_nth: "i < length xs \<Longrightarrow> vec_set xs (int i) v = Inr (xs[i := v])"
  by (simp add: vec_set_def)

text \<open>A series of writes, and what it leaves behind when no position gets two different values.\<close>

definition write_pairs :: "(nat \<times> 'a) list \<Rightarrow> 'a list \<Rightarrow> 'a list result" where
  "write_pairs = foldE (\<lambda>(i, v) out. vec_set out (int i) v)"

lemma write_pairs_simps [simp]:
  "write_pairs [] out = Inr out"
  "write_pairs ((i, v) # ps) out = bindE (vec_set out (int i) v) (write_pairs ps)"
  "write_pairs (ps @ qs) out = bindE (write_pairs ps out) (write_pairs qs)"
  by (simp_all add: write_pairs_def)

lemma write_pairs_concat: "foldE (\<lambda>x. write_pairs (f x)) xs out = write_pairs (concat (map f xs)) out"
  by (induction xs arbitrary: out) (auto simp: bindE_def split: sum.split)

lemma write_pairs_values:
  assumes "\<forall>(i, v) \<in> set ps. i < length out" "\<forall>(i, v) \<in> set ps. \<forall>(j, w) \<in> set ps. i = j \<longrightarrow> v = w"
  shows "\<exists>out'. write_pairs ps out = Inr out' \<and> length out' = length out \<and> (\<forall>(i, v) \<in> set ps. out' ! i = v) \<and>
    (\<forall>i. i \<notin> fst ` set ps \<longrightarrow> out' ! i = out ! i)"
  using assms
proof (induction ps rule: rev_induct)
  case (snoc p ps)
  obtain i v where p: "p = (i, v)" by force
  obtain out' where out': "write_pairs ps out = Inr out'" "length out' = length out" "\<forall>(i, v) \<in> set ps. out' ! i = v"
    "\<forall>i. i \<notin> fst ` set ps \<longrightarrow> out' ! i = out ! i"
    using snoc.IH snoc.prems by fastforce
  have i: "i < length out" "\<forall>(j, w) \<in> set ps. j = i \<longrightarrow> w = v" using snoc.prems unfolding p by force+
  have "write_pairs (ps @ [p]) out = Inr (out'[i := v])" using out'(1,2) i(1) by (simp add: p vec_set_nth)
  moreover have "\<forall>(j, w) \<in> set (ps @ [p]). out'[i := v] ! j = w"
    using out'(2,3) i unfolding p by (auto simp: nth_list_update)
  moreover have "\<forall>j. j \<notin> fst ` set (ps @ [p]) \<longrightarrow> out'[i := v] ! j = out ! j"
    using out'(4) unfolding p by auto
  ultimately show ?case using out'(2) by (intro exI[of _ "out'[i := v]"]) simp
qed simp

section \<open>Decimal text\<close>

text \<open>\<open>std::to_string\<close> of integers.\<close>

fun nat_string :: "nat \<Rightarrow> string" where
  "nat_string n = (if n < 10 then [char_of (48 + n)] else nat_string (n div 10) @ [char_of (48 + n mod 10)])"

declare nat_string.simps [simp del]

definition int_string :: "int \<Rightarrow> string" where
  "int_string i = (if i < 0 then CHR ''-'' # nat_string (nat (- i)) else nat_string (nat i))"

section \<open>std::sort\<close>

text \<open>
  \<open>std::sort\<close> permutes a range into an order of a strict weak ordering and leaves the
  order of equivalent elements open. The model is insertion sort, one such permutation; the
  lemmas below are all that the components use of it.
\<close>

fun sort_insert :: "('a \<Rightarrow> 'a \<Rightarrow> bool) \<Rightarrow> 'a \<Rightarrow> 'a list \<Rightarrow> 'a list" where
  "sort_insert lt x [] = [x]"
| "sort_insert lt x (y # ys) = (if lt y x then y # sort_insert lt x ys else x # y # ys)"

definition std_sort :: "('a \<Rightarrow> 'a \<Rightarrow> bool) \<Rightarrow> 'a list \<Rightarrow> 'a list" where
  "std_sort lt xs = foldr (sort_insert lt) xs []"

definition strict_weak_order :: "('a \<Rightarrow> 'a \<Rightarrow> bool) \<Rightarrow> bool" where
  "strict_weak_order lt \<longleftrightarrow>
     (\<forall>x y. lt x y \<longrightarrow> \<not> lt y x) \<and> (\<forall>x y z. \<not> lt x y \<longrightarrow> \<not> lt y z \<longrightarrow> \<not> lt x z)"

lemma mset_sort_insert [simp]: "mset (sort_insert lt x ys) = add_mset x (mset ys)"
  by (induction ys) auto

lemma mset_std_sort [simp]: "mset (std_sort lt xs) = mset xs"
  by (induction xs) (auto simp: std_sort_def)

lemma set_sort_insert [simp]: "set (sort_insert lt x ys) = insert x (set ys)"
  by (induction ys) auto

lemma set_std_sort [simp]: "set (std_sort lt xs) = set xs"
  by (metis mset_std_sort set_mset_mset)

lemma length_std_sort [simp]: "length (std_sort lt xs) = length xs"
  by (metis mset_std_sort size_mset)

lemma distinct_std_sort [simp]: "distinct (std_sort lt xs) = distinct xs"
  by (metis distinct_count_atmost_1 mset_std_sort set_std_sort)

lemma distinct_map_std_sort [simp]: "distinct (map f (std_sort lt xs)) = distinct (map f xs)"
  by (metis distinct_count_atmost_1 mset_map mset_std_sort set_map set_std_sort)

lemma sorted_sort_insert:
  assumes "strict_weak_order lt" "sorted_wrt (\<lambda>a b. \<not> lt b a) ys"
  shows "sorted_wrt (\<lambda>a b. \<not> lt b a) (sort_insert lt x ys)"
  using assms(2)
proof (induction ys)
  case (Cons y ys)
  have asym: "lt a b \<Longrightarrow> \<not> lt b a" and ntrans: "\<not> lt a b \<Longrightarrow> \<not> lt b c \<Longrightarrow> \<not> lt a c" for a b c
    using assms(1) unfolding strict_weak_order_def by blast+
  from Cons show ?case by (auto dest: asym ntrans)
qed simp

lemma sorted_std_sort:
  "strict_weak_order lt \<Longrightarrow> sorted_wrt (\<lambda>a b. \<not> lt b a) (std_sort lt xs)"
  by (induction xs) (auto simp: std_sort_def sorted_sort_insert)

section \<open>Half-open intervals of integers\<close>

text \<open>Memory is handed out as half-open intervals \<open>[offset, offset + size)\<close>.\<close>

definition disjoint_ivl :: "int \<Rightarrow> int \<Rightarrow> int \<Rightarrow> int \<Rightarrow> bool" where
  "disjoint_ivl a n b m \<longleftrightarrow> a + n \<le> b \<or> b + m \<le> a"

lemma disjoint_ivl_sym: "disjoint_ivl a n b m = disjoint_ivl b m a n"
  by (auto simp: disjoint_ivl_def)

lemma disjoint_ivl_Int:
  "disjoint_ivl a n b m \<Longrightarrow> {a..<a + n} \<inter> {b..<b + m} = {}"
  by (auto simp: disjoint_ivl_def)

text \<open>Pairwise disjoint intervals inside \<open>[0, M)\<close> have a total length of at most \<open>M\<close>.\<close>

lemma disjoint_total_length:
  fixes xs :: "(int \<times> int) list"
  assumes "sorted_wrt (\<lambda>(a, n) (b, m). disjoint_ivl a n b m) xs"
    and "\<forall>(a, n) \<in> set xs. 0 \<le> a \<and> 0 \<le> n \<and> a + n \<le> M" and "0 \<le> M"
  shows "(\<Sum>(a, n) \<leftarrow> xs. n) \<le> M"
proof -
  have "(\<Sum>(a, n) \<leftarrow> xs. n) = int (card (\<Union>(a, n) \<in> set xs. {a..<a + n}))"
    using assms(1,2)
  proof (induction xs)
    case (Cons x xs)
    obtain a n where x: "x = (a, n)" by force
    have "{a..<a + n} \<inter> (\<Union>(b, m) \<in> set xs. {b..<b + m}) = {}"
      using Cons.prems(1) x by (fastforce dest: disjoint_ivl_Int)
    then have "card (\<Union>(b, m) \<in> set (x # xs). {b..<b + m}) =
        card {a..<a + n} + card (\<Union>(b, m) \<in> set xs. {b..<b + m})"
      using x by (simp add: card_Un_disjoint split_beta)
    with Cons x show ?case by auto
  qed simp
  also have "\<dots> \<le> int (card {0..<M})"
  proof -
    have "(\<Union>(a, n) \<in> set xs. {a..<a + n}) \<subseteq> {0..<M}"
      using assms(2) by fastforce
    then have "card (\<Union>(a, n) \<in> set xs. {a..<a + n}) \<le> card {0..<M}"
      by (intro card_mono) auto
    then show ?thesis by (simp only: of_nat_le_iff)
  qed
  finally show ?thesis using assms(3) by simp
qed

end
