(* ===== verification/Layouts.thy ===== *)
theory Layouts
  imports Prelude
begin

text \<open>
  Tensor layouts of the inference engine (\<open>src/src/inference_engine/ie_layouts.cpp\<close> and
  \<open>src/include/ie_layouts.h\<close>): \<open>BlockingDesc\<close> (blocked dimensions, order, strides, padding)
  and \<open>TensorDesc\<close>, with the translation of positions to offsets. \<open>size_t\<close> is a natural
  number with the wrap-around written out (\<open>size_t\<close> below); indexing a vector out of range and
  dividing by a zero dimension are undefined in the code and unspecified here.
\<close>

section \<open>Data\<close>

type_synonym SizeVector = "nat list"

definition size_t :: "nat \<Rightarrow> nat" where "size_t n = n mod 2 ^ 64"

datatype Layout = L_ANY | L_NCHW | L_NHWC | L_NCDHW | L_NDHWC | L_OIHW | L_SCALAR | L_C | L_CHW
  | L_HW | L_NC | L_CN | L_BLOCKED

datatype Precision = P_UNSPECIFIED | P_MIXED | P_FP32 | P_FP16 | P_Q78 | P_I16 | P_U8 | P_I8 | P_U16
  | P_I32 | P_I64 | P_BIN | P_CUSTOM

record BlockingDesc =
  bd_blockedDims :: SizeVector
  bd_strides :: SizeVector
  bd_order :: SizeVector
  bd_offsetPaddingToData :: SizeVector
  bd_offsetPadding :: nat

record TensorDesc =
  td_layout :: Layout
  td_dims :: SizeVector
  td_precision :: Precision
  td_blockingDesc :: BlockingDesc

definition bd_empty :: BlockingDesc where
  "bd_empty = \<lparr>bd_blockedDims = [], bd_strides = [], bd_order = [], bd_offsetPaddingToData = [],
     bd_offsetPadding = 0\<rparr>"

section \<open>BlockingDesc\<close>

text \<open>The loop over \<open>i = 2 .. n\<close> of \<open>fillDesc\<close>, with the number of rounds left.\<close>

fun fill_loop :: "nat \<Rightarrow> nat \<Rightarrow> SizeVector \<Rightarrow> SizeVector \<times> SizeVector \<Rightarrow> SizeVector \<times> SizeVector" where
  "fill_loop 0 i blocked_dims (strides, paddings) = (strides, paddings)"
| "fill_loop (Suc n) i blocked_dims (strides, paddings) =
     fill_loop n (Suc i) blocked_dims
       (strides[length strides - i := size_t (strides ! (length strides - (i - 1)) *
          blocked_dims ! (length blocked_dims - (i - 1)))],
        paddings[length paddings - i := 0])"

definition fillDesc :: "SizeVector \<Rightarrow> SizeVector \<Rightarrow> BlockingDesc \<Rightarrow> BlockingDesc result" where
  "fillDesc blocked_dims order d =
     (if length order \<noteq> length blocked_dims then
        Inl (Thrown ''Cannot fill descriptor. Size of dimensions and order vector don't match.'')
      else if blocked_dims = [] \<or> order = [] then
        Inl (Thrown ''Cannot fill descriptor. Dimensions and order vector are empty.'')
      else
        let n = length order;
            (strides, paddings) = fill_loop (n - 1) 2 blocked_dims
              ((replicate n 0)[n - 1 := 1], (replicate n 0)[n - 1 := 0])
        in Inr (d\<lparr>bd_order := order, bd_blockedDims := blocked_dims, bd_offsetPadding := 0,
             bd_offsetPaddingToData := paddings, bd_strides := strides\<rparr>))"

definition mk_BlockingDesc :: "SizeVector \<Rightarrow> SizeVector \<Rightarrow> BlockingDesc result" where
  "mk_BlockingDesc block_dims order =
     (if block_dims = [] \<or> order = [] then Inr (bd_empty\<lparr>bd_order := order\<rparr>)
      else fillDesc block_dims order (bd_empty\<lparr>bd_order := order\<rparr>))"

definition mk_BlockingDesc_offset :: "SizeVector \<Rightarrow> SizeVector \<Rightarrow> nat \<Rightarrow> BlockingDesc result" where
  "mk_BlockingDesc_offset blocked_dims order offset =
     bindE (mk_BlockingDesc blocked_dims order) (\<lambda>d. Inr (d\<lparr>bd_offsetPadding := offset\<rparr>))"

definition mk_BlockingDesc_padded :: "SizeVector \<Rightarrow> SizeVector \<Rightarrow> nat \<Rightarrow> SizeVector \<Rightarrow> BlockingDesc result" where
  "mk_BlockingDesc_padded blocked_dims order offset dimOffsets =
     bindE (mk_BlockingDesc blocked_dims order) (\<lambda>d.
     let d = d\<lparr>bd_offsetPadding := offset\<rparr> in
     if length blocked_dims \<noteq> length dimOffsets then
       Inl (Thrown ''Offsets are not initialized for all dimensions.'')
     else Inr (d\<lparr>bd_offsetPaddingToData := dimOffsets\<rparr>))"

definition mk_BlockingDesc_strided ::
  "SizeVector \<Rightarrow> SizeVector \<Rightarrow> nat \<Rightarrow> SizeVector \<Rightarrow> SizeVector \<Rightarrow> BlockingDesc result"
where
  "mk_BlockingDesc_strided blocked_dims order offset dimOffsets strides =
     bindE (mk_BlockingDesc blocked_dims order) (\<lambda>d.
     let d = d\<lparr>bd_offsetPadding := offset\<rparr> in
     if length blocked_dims \<noteq> length strides then
       Inl (Thrown ''Strides are not initialized for all dimensions.'')
     else let d = d\<lparr>bd_strides := strides\<rparr> in
     if length blocked_dims \<noteq> length dimOffsets then
       Inl (Thrown ''Offsets are not initialized for all dimensions.'')
     else Inr (d\<lparr>bd_offsetPaddingToData := dimOffsets\<rparr>))"

text \<open>
  \<open>BlockingDesc(dims, layout)\<close>: the expected rank and the order of each layout; \<open>None\<close> for the
  layouts that leave the descriptor empty.
\<close>

definition checkDims :: "nat \<Rightarrow> nat \<Rightarrow> unit result" where
  "checkDims r_size e_size = (if r_size \<noteq> e_size then Inl (Thrown ''Dims and format are inconsistent.'') else Inr ())"

definition BlockingDesc_layout :: "SizeVector \<Rightarrow> Layout \<Rightarrow> BlockingDesc result" where
  "BlockingDesc_layout dims layout =
     (if dims = [] then Inr bd_empty
      else case layout of
        L_SCALAR \<Rightarrow> Inr bd_empty
      | L_ANY \<Rightarrow> Inr bd_empty
      | L_C \<Rightarrow> bindE (checkDims (length dims) 1) (\<lambda>_. fillDesc dims [0] bd_empty)
      | L_OIHW \<Rightarrow> bindE (checkDims (length dims) 4) (\<lambda>_. fillDesc dims [0, 1, 2, 3] bd_empty)
      | L_NCHW \<Rightarrow> bindE (checkDims (length dims) 4) (\<lambda>_. fillDesc dims [0, 1, 2, 3] bd_empty)
      | L_NCDHW \<Rightarrow> bindE (checkDims (length dims) 5) (\<lambda>_. fillDesc dims [0, 1, 2, 3, 4] bd_empty)
      | L_NHWC \<Rightarrow> bindE (checkDims (length dims) 4) (\<lambda>_.
          fillDesc [dims ! 0, dims ! 2, dims ! 3, dims ! 1] [0, 2, 3, 1] bd_empty)
      | L_NDHWC \<Rightarrow> bindE (checkDims (length dims) 5) (\<lambda>_.
          fillDesc [dims ! 0, dims ! 2, dims ! 3, dims ! 4, dims ! 1] [0, 2, 3, 4, 1] bd_empty)
      | L_CHW \<Rightarrow> bindE (checkDims (length dims) 3) (\<lambda>_. fillDesc dims [0, 1, 2] bd_empty)
      | L_CN \<Rightarrow> bindE (checkDims (length dims) 2) (\<lambda>_. fillDesc [dims ! 1, dims ! 0] [1, 0] bd_empty)
      | L_NC \<Rightarrow> bindE (checkDims (length dims) 2) (\<lambda>_. fillDesc dims [0, 1] bd_empty)
      | L_HW \<Rightarrow> bindE (checkDims (length dims) 2) (\<lambda>_. fillDesc dims [0, 1] bd_empty)
      | L_BLOCKED \<Rightarrow> fillDesc dims [0..<length dims] bd_empty)"

definition bd_eq :: "BlockingDesc \<Rightarrow> BlockingDesc \<Rightarrow> bool" where
  "bd_eq a b \<longleftrightarrow> bd_blockedDims a = bd_blockedDims b \<and> bd_strides a = bd_strides b \<and>
     bd_offsetPaddingToData a = bd_offsetPaddingToData b \<and> bd_order a = bd_order b \<and>
     bd_offsetPadding a = bd_offsetPadding b"

section \<open>TensorDesc\<close>

definition mk_TensorDesc :: "Precision \<Rightarrow> SizeVector \<Rightarrow> Layout \<Rightarrow> TensorDesc result" where
  "mk_TensorDesc precision dims layout =
     bindE (BlockingDesc_layout dims layout) (\<lambda>b.
     Inr \<lparr>td_layout = layout, td_dims = dims, td_precision = precision, td_blockingDesc = b\<rparr>)"

definition mk_TensorDesc_nodims :: "Precision \<Rightarrow> Layout \<Rightarrow> TensorDesc result" where
  "mk_TensorDesc_nodims precision layout =
     bindE (BlockingDesc_layout [] L_ANY) (\<lambda>b.
     Inr \<lparr>td_layout = layout, td_dims = [], td_precision = precision, td_blockingDesc = b\<rparr>)"

text \<open>The layout the constructor from a blocking descriptor detects.\<close>

definition detect_layout :: "SizeVector \<Rightarrow> BlockingDesc \<Rightarrow> Layout" where
  "detect_layout dims b =
     (let order = bd_order b; n = length dims in
      if n \<noteq> length (bd_blockedDims b) then L_BLOCKED
      else if n = 1 then L_C
      else if n = 2 then (if order ! 0 = 0 \<and> order ! 1 = 1 then L_NC else L_CN)
      else if n = 3 then (if order ! 0 = 0 \<and> order ! 1 = 1 \<and> order ! 2 = 2 then L_CHW else L_BLOCKED)
      else if n = 4 then
        (if order ! 0 = 0 \<and> order ! 1 = 1 \<and> order ! 2 = 2 \<and> order ! 3 = 3 then L_NCHW
         else if order ! 0 = 0 \<and> order ! 1 = 2 \<and> order ! 2 = 3 \<and> order ! 3 = 1 then L_NHWC else L_BLOCKED)
      else if n = 5 then
        (if order ! 0 = 0 \<and> order ! 1 = 1 \<and> order ! 2 = 2 \<and> order ! 3 = 3 \<and> order ! 4 = 4 then L_NCDHW
         else if order ! 0 = 0 \<and> order ! 1 = 2 \<and> order ! 2 = 3 \<and> order ! 3 = 4 \<and> order ! 4 = 1 then L_NDHWC
         else L_BLOCKED)
      else L_BLOCKED)"

definition mk_TensorDesc_block :: "Precision \<Rightarrow> SizeVector \<Rightarrow> BlockingDesc \<Rightarrow> TensorDesc result" where
  "mk_TensorDesc_block precision dims b =
     (let td = \<lparr>td_layout = L_SCALAR, td_dims = dims, td_precision = precision, td_blockingDesc = b\<rparr> in
      if length dims = 0 \<or> length (bd_blockedDims b) = 0 then Inr td
      else if length dims \<noteq> fold max (bd_order b) 0 + 1 then
        Inl (Thrown ''Cannot create TensorDesc! Blocked dims are inconsistent with original dims.'')
      else Inr (td\<lparr>td_layout := detect_layout dims b\<rparr>))"

definition TensorDesc_default :: TensorDesc where
  "TensorDesc_default = \<lparr>td_layout = L_ANY, td_dims = [], td_precision = P_UNSPECIFIED, td_blockingDesc = bd_empty\<rparr>"

definition setDims :: "SizeVector \<Rightarrow> TensorDesc \<Rightarrow> TensorDesc result" where
  "setDims dims td =
     bindE (if td_layout td = L_BLOCKED then
              let newDims = bd_blockedDims (td_blockingDesc td);
                  newOrder = bd_order (td_blockingDesc td);
                  newDims = (if newDims = [] then dims else newDims);
                  newOrder = (if newOrder = [] then [0..<length newDims] else newOrder)
              in mk_BlockingDesc newDims newOrder
            else if td_layout td = L_SCALAR \<and> (length dims > 1 \<or> (length dims = 1 \<and> dims ! 0 \<noteq> 1)) then
              Inl (Thrown ''Cannot set dimensions for SCALAR layout!'')
            else BlockingDesc_layout dims (td_layout td)) (\<lambda>b.
     let td = td\<lparr>td_blockingDesc := b\<rparr> in
     Inr (if td_layout td \<noteq> L_SCALAR then td\<lparr>td_dims := dims\<rparr> else td))"

definition layout_consistent :: "Layout \<Rightarrow> SizeVector \<Rightarrow> bool" where
  "layout_consistent l dims = (case l of
       L_SCALAR \<Rightarrow> dims = []
     | L_C \<Rightarrow> length dims = 1
     | L_BLOCKED \<Rightarrow> True
     | L_ANY \<Rightarrow> True
     | L_NCDHW \<Rightarrow> length dims = 5
     | L_NDHWC \<Rightarrow> length dims = 5
     | L_OIHW \<Rightarrow> length dims = 4
     | L_NCHW \<Rightarrow> length dims = 4
     | L_NHWC \<Rightarrow> length dims = 4
     | L_CHW \<Rightarrow> length dims = 3
     | L_CN \<Rightarrow> length dims = 2
     | L_NC \<Rightarrow> length dims = 2
     | L_HW \<Rightarrow> length dims = 2)"

definition setLayout :: "Layout \<Rightarrow> TensorDesc \<Rightarrow> TensorDesc result" where
  "setLayout l td =
     (if \<not> layout_consistent l (td_dims td) then Inl (Thrown ''Size of dims and format are inconsistent.'')
      else Inr (td\<lparr>td_layout := l\<rparr>))"

definition td_eq :: "TensorDesc \<Rightarrow> TensorDesc \<Rightarrow> bool" where
  "td_eq a b \<longleftrightarrow> bd_eq (td_blockingDesc a) (td_blockingDesc b) \<and> td_precision a = td_precision b \<and>
     td_layout a = td_layout b \<and> td_dims a = td_dims b"

definition getLayoutByDims :: "SizeVector \<Rightarrow> Layout" where
  "getLayoutByDims dims =
     (if length dims = 0 then L_SCALAR
      else if length dims = 1 then L_C
      else if length dims = 2 then L_NC
      else if length dims = 3 then L_CHW
      else if length dims = 4 then L_NCHW
      else if length dims = 5 then L_NCDHW
      else L_BLOCKED)"

text \<open>
  \<open>offset(v)\<close>: the first loop runs over the blocked dimensions from the last one down and
  splits each coordinate; \<open>shift_loop k\<close> has the indices below \<open>k\<close> still to do.
\<close>

fun shift_loop :: "nat \<Rightarrow> SizeVector \<Rightarrow> SizeVector \<Rightarrow> SizeVector \<Rightarrow> SizeVector \<Rightarrow> SizeVector" where
  "shift_loop 0 order blockedDims off_v blockedShift = blockedShift"
| "shift_loop (Suc k) order blockedDims off_v blockedShift =
     shift_loop k order blockedDims
       (off_v[order ! k := off_v ! (order ! k) div blockedDims ! k])
       (blockedShift[k := off_v ! (order ! k) mod blockedDims ! k])"

fun offset_loop :: "nat \<Rightarrow> nat \<Rightarrow> SizeVector \<Rightarrow> SizeVector \<Rightarrow> SizeVector \<Rightarrow> nat \<Rightarrow> nat" where
  "offset_loop 0 d blockedShift paddings strides offset = offset"
| "offset_loop (Suc n) d blockedShift paddings strides offset =
     (let p = size_t (blockedShift ! d + paddings ! d)
      in offset_loop n (Suc d) blockedShift paddings strides (size_t (offset + p * strides ! d)))"

definition td_offset :: "TensorDesc \<Rightarrow> SizeVector \<Rightarrow> nat result" where
  "td_offset td v =
     (let b = td_blockingDesc td; n = length (bd_order b) in
      if td_layout td = L_ANY then Inl (Thrown ''Cannot calculate offset for any format!'')
      else if td_layout td = L_SCALAR then Inr (bd_offsetPadding b)
      else if length (bd_blockedDims b) \<noteq> n \<or> length (bd_strides b) \<noteq> n then
        Inl (Thrown ''Cannot calculate offset. Incorrect primitive descriptor!'')
      else
        let blockedShift = shift_loop n (bd_order b) (bd_blockedDims b) v (replicate n 0)
        in Inr (offset_loop n 0 blockedShift (bd_offsetPaddingToData b) (bd_strides b) (bd_offsetPadding b)))"

text \<open>\<open>offset(l)\<close>: the position of the \<open>l\<close>-th element, last dimension fastest.\<close>

fun position_loop :: "nat \<Rightarrow> SizeVector \<Rightarrow> nat \<Rightarrow> SizeVector \<Rightarrow> SizeVector" where
  "position_loop 0 dims l pos = pos"
| "position_loop (Suc d) dims l pos = position_loop d dims (l div dims ! d) (pos[d := l mod dims ! d])"

definition td_offset_linear :: "TensorDesc \<Rightarrow> nat \<Rightarrow> nat result" where
  "td_offset_linear td l =
     td_offset td (position_loop (length (td_dims td)) (td_dims td) l (replicate (length (td_dims td)) 0))"

definition td_reshape :: "SizeVector \<Rightarrow> Layout \<Rightarrow> TensorDesc \<Rightarrow> TensorDesc result" where
  "td_reshape dims layout td =
     (if list_ex (\<lambda>p. p \<noteq> 0) (bd_offsetPaddingToData (td_blockingDesc td)) then
        Inl (Thrown ''Cannot reshape a non-packaged blob!'')
      else if layout \<noteq> L_ANY then
        bindE (BlockingDesc_layout dims layout) (\<lambda>b.
        Inr (td\<lparr>td_blockingDesc := b, td_layout := layout, td_dims := dims\<rparr>))
      else
        bindE (BlockingDesc_layout dims (td_layout td)) (\<lambda>b.
        Inr (td\<lparr>td_blockingDesc := b, td_dims := dims\<rparr>)))"

definition td_reshape_block :: "SizeVector \<Rightarrow> BlockingDesc \<Rightarrow> TensorDesc \<Rightarrow> TensorDesc" where
  "td_reshape_block dims blockDesc td =
     td\<lparr>td_blockingDesc := blockDesc, td_dims := dims, td_layout := L_BLOCKED\<rparr>"

section \<open>LayoutOffsetCounter\<close>

definition DIM_POSITIONS :: "Layout \<rightharpoonup> SizeVector" where
  "DIM_POSITIONS = [L_NCHW \<mapsto> [0, 1, 2, 3], L_NHWC \<mapsto> [2, 0, 1, 3]]"

record LayoutOffsetCounter =
  loc_layout :: Layout
  loc_dims :: SizeVector
  loc_muls :: SizeVector

fun muls_loop :: "nat \<Rightarrow> nat \<Rightarrow> SizeVector \<Rightarrow> SizeVector \<Rightarrow> nat \<Rightarrow> SizeVector \<Rightarrow> SizeVector" where
  "muls_loop 0 i positions dims mul muls = muls"
| "muls_loop (Suc n) i positions dims mul muls =
     (let index = positions ! i
      in muls_loop n (Suc i) positions dims (size_t (mul * dims ! index)) (muls[index := mul]))"

definition mk_LayoutOffsetCounter :: "Layout \<Rightarrow> SizeVector \<Rightarrow> LayoutOffsetCounter result" where
  "mk_LayoutOffsetCounter layout dims =
     (let muls = replicate (length dims) (2 ^ 64 - 1) in
      bindE (if dims = [] then Inr muls
             else case DIM_POSITIONS layout of
               None \<Rightarrow> Inl OutOfRange
             | Some positions \<Rightarrow> Inr (muls_loop (length dims) 0 positions dims 1 muls)) (\<lambda>muls.
      Inr \<lparr>loc_layout = layout, loc_dims = dims, loc_muls = muls\<rparr>))"

fun counter_loop :: "nat \<Rightarrow> nat \<Rightarrow> SizeVector \<Rightarrow> SizeVector \<Rightarrow> nat \<Rightarrow> nat" where
  "counter_loop 0 i pos muls res = res"
| "counter_loop (Suc n) i pos muls res = counter_loop n (Suc i) pos muls (size_t (res + pos ! i * muls ! i))"

definition loc_Offset :: "LayoutOffsetCounter \<Rightarrow> SizeVector \<Rightarrow> nat" where
  "loc_Offset c pos = counter_loop (length (loc_dims c)) 0 pos (loc_muls c) 0"

section \<open>Strides\<close>

text \<open>Row-major strides: the products of the later dimensions.\<close>

definition suffix_products :: "nat list \<Rightarrow> nat list" where
  "suffix_products bs = map (\<lambda>i. prod_list (drop (Suc i) bs)) [0..<length bs]"

lemma prod_list_pos: "\<forall>b \<in> set bs. 0 < b \<Longrightarrow> 0 < prod_list (bs :: nat list)"
  by (induction bs) auto

lemma prod_drop_le: "\<forall>b \<in> set bs. 0 < b \<Longrightarrow> prod_list (drop i bs) \<le> prod_list (bs :: nat list)"
proof -
  assume pos: "\<forall>b \<in> set bs. 0 < b"
  have "prod_list bs = prod_list (take i bs) * prod_list (drop i bs)"
    by (metis append_take_drop_id prod_list.append)
  moreover have "0 < prod_list (take i bs)" using pos by (intro prod_list_pos) (auto dest: in_set_takeD)
  ultimately show ?thesis by simp
qed

lemma prod_drop_step: "i < length bs \<Longrightarrow> prod_list (drop i bs) = bs ! i * prod_list (drop (Suc i) bs)" for bs :: "nat list"
  by (metis Cons_nth_drop_Suc prod_list.Cons)

text \<open>After the rounds up to \<open>i\<close>, the last \<open>i - 1\<close> strides are final.\<close>

lemma fill_loop_strides:
  assumes "n + i = Suc (length bs)" "2 \<le> i" "length strides = length bs" "length paddings = length bs"
    and "\<forall>b \<in> set bs. 0 < b" "prod_list bs < 2 ^ 64"
    and "\<forall>j < length bs. length bs - (i - 1) \<le> j \<longrightarrow> strides ! j = prod_list (drop (Suc j) bs) \<and> paddings ! j = 0"
  shows "fill_loop n i bs (strides, paddings) = (suffix_products bs, replicate (length bs) 0)"
  using assms
proof (induction n arbitrary: i strides paddings)
  case 0
  then have "strides = suffix_products bs" "paddings = replicate (length bs) 0"
    by (auto intro!: nth_equalityI simp: suffix_products_def)
  then show ?case by simp
next
  case (Suc n)
  let ?k = "length bs - i"
  have k: "?k < length bs" "length bs - (i - 1) = Suc ?k" "Suc ?k < length bs" using Suc.prems by auto
  have "strides ! Suc ?k * bs ! Suc ?k = prod_list (drop (Suc ?k) bs)"
    using Suc.prems(7) k prod_drop_step [of "Suc ?k" bs] by (simp add: mult.commute)
  moreover have "prod_list (drop (Suc ?k) bs) < 2 ^ 64"
    using prod_drop_le [OF Suc.prems(5), of "Suc ?k"] Suc.prems(6) by linarith
  ultimately have new: "size_t (strides ! Suc ?k * bs ! Suc ?k) = prod_list (drop (Suc ?k) bs)"
    by (simp add: size_t_def)
  have "fill_loop n (Suc i) bs (strides[?k := prod_list (drop (Suc ?k) bs)], paddings[?k := 0]) =
      (suffix_products bs, replicate (length bs) 0)"
  proof (rule Suc.IH)
    show "\<forall>j < length bs. length bs - (Suc i - 1) \<le> j \<longrightarrow>
        strides[?k := prod_list (drop (Suc ?k) bs)] ! j = prod_list (drop (Suc j) bs) \<and> paddings[?k := 0] ! j = 0"
      using Suc.prems(3,4,7) k by (auto simp: nth_list_update)
  qed (use Suc.prems in auto)
  then show ?case using Suc.prems(3,4) k new by simp
qed

lemma fillDesc_Inr:
  assumes "length order = length bs" "bs \<noteq> []" "\<forall>b \<in> set bs. 0 < b" "prod_list bs < 2 ^ 64"
  shows "fillDesc bs order d = Inr (d\<lparr>bd_order := order, bd_blockedDims := bs, bd_offsetPadding := 0,
    bd_offsetPaddingToData := replicate (length bs) 0, bd_strides := suffix_products bs\<rparr>)"
proof -
  let ?n = "length bs"
  have "fill_loop (?n - 1) 2 bs ((replicate ?n 0)[?n - 1 := 1], (replicate ?n 0)[?n - 1 := 0]) =
      (suffix_products bs, replicate ?n 0)"
    using assms by (intro fill_loop_strides) (auto simp: nth_list_update)
  moreover have "order \<noteq> []" using assms by auto
  ultimately show ?thesis using assms by (simp add: fillDesc_def Let_def)
qed

section \<open>Mixed radix numbers\<close>

fun radix :: "nat list \<Rightarrow> nat list \<Rightarrow> nat" where
  "radix (s # ss) (b # bs) = s * prod_list bs + radix ss bs"
| "radix _ _ = 0"

definition digits_ok :: "nat list \<Rightarrow> nat list \<Rightarrow> bool" where
  "digits_ok ss bs \<longleftrightarrow> list_all2 (<) ss bs"

lemma radix_bound: "digits_ok ss bs \<Longrightarrow> radix ss bs < prod_list bs"
  unfolding digits_ok_def
proof (induction ss bs rule: list_all2_induct)
  case (Cons s ss b bs)
  then have "(s + 1) * prod_list bs \<le> b * prod_list bs" by (intro mult_right_mono) auto
  with Cons.IH show ?case by simp
qed simp

lemma radix_inject: "digits_ok ss bs \<Longrightarrow> digits_ok ts bs \<Longrightarrow> radix ss bs = radix ts bs \<Longrightarrow> ss = ts"
proof (induction bs arbitrary: ss ts)
  case Nil
  then show ?case by (simp add: digits_ok_def)
next
  case (Cons b bs)
  obtain s ss' t ts' where eq: "ss = s # ss'" "ts = t # ts'"
    using Cons.prems(1,2) by (metis digits_ok_def list_all2_Cons2)
  with Cons.prems have ok: "digits_ok ss' bs" "digits_ok ts' bs" by (auto simp: digits_ok_def)
  let ?P = "prod_list bs"
  note r = radix_bound [OF ok(1)] radix_bound [OF ok(2)]
  have e: "s * ?P + radix ss' bs = t * ?P + radix ts' bs" using Cons.prems(3) eq by simp
  from arg_cong [where f = "\<lambda>x. x div ?P", OF e] r have "s = t" by simp
  with e have "radix ss' bs = radix ts' bs" by simp
  with Cons.IH [OF ok] \<open>s = t\<close> eq show ?case by simp
qed

text \<open>The second loop of \<open>offset(v)\<close> computes the mixed radix number; no sum wraps around.\<close>

lemma offset_loop_radix:
  assumes "digits_ok (drop d ss) (drop d bs)" "length ss = length bs" "n + d = length bs"
    and "acc + radix (drop d ss) (drop d bs) < 2 ^ 64" "\<forall>b \<in> set bs. 0 < b"
  shows "offset_loop n d ss (replicate (length bs) 0) (suffix_products bs) acc = acc + radix (drop d ss) (drop d bs)"
  using assms
proof (induction n arbitrary: d acc)
  case 0
  then show ?case by simp
next
  case (Suc n)
  then have d: "d < length bs" "d < length ss" by auto
  have drops: "drop d ss = ss ! d # drop (Suc d) ss" "drop d bs = bs ! d # drop (Suc d) bs"
    using d by (simp_all add: Cons_nth_drop_Suc)
  let ?P = "prod_list (drop (Suc d) bs)"
  have r: "radix (drop d ss) (drop d bs) = ss ! d * ?P + radix (drop (Suc d) ss) (drop (Suc d) bs)"
    by (simp add: drops)
  have P: "0 < ?P" using Suc.prems(5) by (intro prod_list_pos) (auto dest: in_set_dropD)
  then have "ss ! d \<le> ss ! d * ?P" by simp
  then have small: "ss ! d < 2 ^ 64" "acc + ss ! d * ?P < 2 ^ 64" using Suc.prems(4) r by linarith+
  have ok: "digits_ok (drop (Suc d) ss) (drop (Suc d) bs)"
    using Suc.prems(1) unfolding digits_ok_def drops by simp
  have "offset_loop n (Suc d) ss (replicate (length bs) 0) (suffix_products bs) (acc + ss ! d * ?P) =
      acc + ss ! d * ?P + radix (drop (Suc d) ss) (drop (Suc d) bs)"
    using Suc.prems ok r by (intro Suc.IH) auto
  moreover have "size_t (ss ! d + replicate (length bs) 0 ! d) = ss ! d" using d small by (simp add: size_t_def)
  moreover have "size_t (acc + ss ! d * suffix_products bs ! d) = acc + ss ! d * ?P"
    using d small by (simp add: size_t_def suffix_products_def)
  ultimately show ?case using r by (simp only: offset_loop.simps Let_def)
qed

section \<open>Splitting a position\<close>

lemma shift_loop_above: "k \<le> j \<Longrightarrow> shift_loop k order bs v sh ! j = sh ! j"
  by (induction k order bs v sh rule: shift_loop.induct) auto

lemma shift_loop_length [simp]: "length (shift_loop k order bs v sh) = length sh"
  by (induction k order bs v sh rule: shift_loop.induct) auto

lemma shift_loop_digits:
  "k \<le> length sh \<Longrightarrow> \<forall>j < k. 0 < bs ! j \<Longrightarrow> \<forall>j < k. shift_loop k order bs v sh ! j < bs ! j"
proof (induction k order bs v sh rule: shift_loop.induct)
  case (2 k order bs v sh)
  then have "\<forall>j < k. shift_loop (Suc k) order bs v sh ! j < bs ! j" by simp
  moreover have "shift_loop (Suc k) order bs v sh ! k < bs ! k"
    using 2 by (simp add: shift_loop_above)
  ultimately show ?case using less_Suc_eq by auto
qed simp

text \<open>What a coordinate may be: the product of the blocks it is split into.\<close>

definition coord_bound :: "nat \<Rightarrow> SizeVector \<Rightarrow> SizeVector \<Rightarrow> nat \<Rightarrow> nat" where
  "coord_bound k order bs i = (\<Prod>j \<leftarrow> filter (\<lambda>j. order ! j = i) [0..<k]. bs ! j)"

definition position_ok :: "SizeVector \<Rightarrow> SizeVector \<Rightarrow> SizeVector \<Rightarrow> bool" where
  "position_ok order bs v \<longleftrightarrow> (\<forall>i < length v. v ! i < coord_bound (length order) order bs i)"

lemma coord_bound_Suc:
  "coord_bound (Suc k) order bs i = coord_bound k order bs i * (if order ! k = i then bs ! k else 1)"
  by (simp add: coord_bound_def)

lemma shift_loop_inject:
  assumes "length v = length w" "\<forall>j < k. order ! j < length v \<and> 0 < bs ! j"
    and "\<forall>i < length v. v ! i < coord_bound k order bs i \<and> w ! i < coord_bound k order bs i"
    and "k \<le> length sh" "length sh = length sh'"
    and "\<forall>j < k. shift_loop k order bs v sh ! j = shift_loop k order bs w sh' ! j"
  shows "v = w"
  using assms
proof (induction k arbitrary: v w sh sh')
  case 0
  then show ?case by (auto intro!: nth_equalityI simp: coord_bound_def)
next
  case (Suc k)
  let ?o = "order ! k" and ?b = "bs ! k"
  let ?v = "v[?o := v ! ?o div ?b]" and ?w = "w[?o := w ! ?o div ?b]"
  have o: "?o < length v" "0 < ?b" using Suc.prems(2) by auto
  have "?v = ?w"
  proof (rule Suc.IH)
    show "\<forall>i < length ?v. ?v ! i < coord_bound k order bs i \<and> ?w ! i < coord_bound k order bs i"
    proof (intro allI impI)
      fix i assume i: "i < length ?v"
      then have "v ! i < coord_bound (Suc k) order bs i" "w ! i < coord_bound (Suc k) order bs i"
        using Suc.prems(3) by auto
      then show "?v ! i < coord_bound k order bs i \<and> ?w ! i < coord_bound k order bs i"
        using i o Suc.prems(1) by (cases "i = ?o") (auto simp: coord_bound_Suc less_mult_imp_div_less)
    qed
    show "\<forall>j < k. shift_loop k order bs ?v (sh[k := v ! ?o mod ?b]) ! j =
        shift_loop k order bs ?w (sh'[k := w ! ?o mod ?b]) ! j"
      using Suc.prems(6) by simp
  qed (use Suc.prems in auto)
  moreover have "v ! ?o mod ?b = w ! ?o mod ?b"
    using Suc.prems(4,5) Suc.prems(6) [rule_format, of k] by (simp add: shift_loop_above)
  moreover have "v ! ?o div ?b = w ! ?o div ?b"
    using \<open>?v = ?w\<close> o Suc.prems(1) by (metis nth_list_update_eq)
  ultimately have "v ! ?o = w ! ?o" by (metis div_mult_mod_eq)
  with \<open>?v = ?w\<close> show ?case by (metis list_update_id list_update_overwrite)
qed

section \<open>Packed descriptors\<close>

text \<open>What \<open>fillDesc\<close> builds: row-major strides and no padding.\<close>

definition packed :: "BlockingDesc \<Rightarrow> bool" where
  "packed b \<longleftrightarrow> bd_blockedDims b \<noteq> [] \<and> length (bd_order b) = length (bd_blockedDims b) \<and>
     (\<forall>n \<in> set (bd_blockedDims b). 0 < n) \<and> prod_list (bd_blockedDims b) < 2 ^ 64 \<and>
     bd_strides b = suffix_products (bd_blockedDims b) \<and>
     bd_offsetPaddingToData b = replicate (length (bd_blockedDims b)) 0 \<and> bd_offsetPadding b = 0"

lemma fillDesc_packed:
  assumes "length order = length bs" "bs \<noteq> []" "\<forall>b \<in> set bs. 0 < b" "prod_list bs < 2 ^ 64"
  shows "\<exists>b. fillDesc bs order d = Inr b \<and> packed b \<and> bd_order b = order \<and> bd_blockedDims b = bs"
  using fillDesc_Inr [OF assms, of d] assms by (auto simp: packed_def)

lemma td_offset_radix:
  fixes v :: SizeVector
  assumes "packed b" "td_blockingDesc td = b" "td_layout td \<noteq> L_ANY" "td_layout td \<noteq> L_SCALAR"
  defines "ss \<equiv> shift_loop (length (bd_order b)) (bd_order b) (bd_blockedDims b) v (replicate (length (bd_order b)) 0)"
  shows "td_offset td v = Inr (radix ss (bd_blockedDims b)) \<and> digits_ok ss (bd_blockedDims b)"
proof -
  let ?bs = "bd_blockedDims b"
  have p: "length (bd_order b) = length ?bs" "\<forall>n \<in> set ?bs. 0 < n" "prod_list ?bs < 2 ^ 64"
    "bd_strides b = suffix_products ?bs" "bd_offsetPaddingToData b = replicate (length ?bs) 0" "bd_offsetPadding b = 0"
    using assms(1) by (simp_all add: packed_def)
  have "\<forall>j < length ?bs. ss ! j < ?bs ! j"
    using shift_loop_digits [of "length ?bs" "replicate (length ?bs) 0" ?bs "bd_order b" v] p by (simp add: ss_def)
  then have ok: "digits_ok ss ?bs" using p(1) by (simp add: digits_ok_def list_all2_conv_all_nth ss_def)
  have "offset_loop (length ?bs) 0 ss (replicate (length ?bs) 0) (suffix_products ?bs) 0 = 0 + radix (drop 0 ss) (drop 0 ?bs)"
    using ok p radix_bound [OF ok] by (intro offset_loop_radix) (auto simp: ss_def)
  then show ?thesis
    using ok assms(2-4) p by (simp add: td_offset_def ss_def suffix_products_def Let_def)
qed

section \<open>Plain layouts\<close>

lemma radix_snoc: "length ss = length bs \<Longrightarrow> radix (ss @ [s]) (bs @ [b]) = radix ss bs * b + s"
  by (induction ss bs rule: list_induct2) (simp_all add: algebra_simps)

lemma position_loop_above: "d \<le> j \<Longrightarrow> position_loop d dims l pos ! j = pos ! j"
  by (induction d dims l pos rule: position_loop.induct) auto

lemma position_loop_length [simp]: "length (position_loop d dims l pos) = length pos"
  by (induction d dims l pos rule: position_loop.induct) auto

lemma position_loop_radix:
  "d \<le> length dims \<Longrightarrow> length pos = length dims \<Longrightarrow> l < prod_list (take d dims) \<Longrightarrow>
    radix (take d (position_loop d dims l pos)) (take d dims) = l \<and>
    (\<forall>j < d. position_loop d dims l pos ! j < dims ! j)"
proof (induction d dims l pos rule: position_loop.induct)
  case (1 dims l pos)
  then show ?case by simp
next
  case (2 d dims l pos)
  let ?p = "position_loop d dims (l div dims ! d) (pos[d := l mod dims ! d])"
  have d: "d < length dims" using 2 by simp
  have P: "l < prod_list (take d dims) * dims ! d" using "2.prems"(3) d by (simp add: take_Suc_conv_app_nth)
  then have pos: "0 < dims ! d" by (cases "dims ! d") auto
  have lt: "l div dims ! d < prod_list (take d dims)" using P by (simp add: less_mult_imp_div_less)
  have IH: "radix (take d ?p) (take d dims) = l div dims ! d" "\<forall>j < d. ?p ! j < dims ! j"
    using "2.IH" "2.prems" lt by auto
  have at: "?p ! d = l mod dims ! d" using 2 d by (simp add: position_loop_above)
  have "take (Suc d) ?p = take d ?p @ [?p ! d]" "take (Suc d) dims = take d dims @ [dims ! d]"
    using d 2 by (simp_all add: take_Suc_conv_app_nth)
  then have "radix (take (Suc d) ?p) (take (Suc d) dims) = l"
    using IH(1) at d 2 by (simp add: radix_snoc div_mult_mod_eq)
  moreover have "\<forall>j < Suc d. ?p ! j < dims ! j" using IH(2) at pos by (auto simp: less_Suc_eq)
  ultimately show ?case by simp
qed

lemma shift_loop_plain:
  "k \<le> length v \<Longrightarrow> length sh = length v \<Longrightarrow> order = [0..<length v] \<Longrightarrow> \<forall>j < k. v ! j < bs ! j \<Longrightarrow>
    \<forall>j < k. shift_loop k order bs v sh ! j = v ! j"
proof (induction k order bs v sh rule: shift_loop.induct)
  case (2 k order bs v sh)
  then have k: "order ! k = k" "k < length v" by simp_all
  let ?v = "v[k := v ! k div bs ! k]"
  have "\<forall>j < k. shift_loop k order bs ?v (sh[k := v ! k mod bs ! k]) ! j = ?v ! j"
    using 2 k by (intro "2.IH" [unfolded k]) auto
  moreover have "shift_loop k order bs ?v (sh[k := v ! k mod bs ! k]) ! k = v ! k"
    using 2 k by (simp add: shift_loop_above)
  ultimately show ?case using k by (auto simp: less_Suc_eq)
qed simp

lemma short_lists:
  "length xs = Suc 0 \<longleftrightarrow> (\<exists>a. xs = [a])" "length xs = 2 \<longleftrightarrow> (\<exists>a b. xs = [a, b])"
  "length xs = 3 \<longleftrightarrow> (\<exists>a b c. xs = [a, b, c])" "length xs = 4 \<longleftrightarrow> (\<exists>a b c d. xs = [a, b, c, d])"
  "length xs = 5 \<longleftrightarrow> (\<exists>a b c d e. xs = [a, b, c, d, e])"
  by (auto simp: eval_nat_numeral length_Suc_conv)

text \<open>The layouts the constructor from a descriptor can recognise.\<close>

definition recognised :: "Layout \<Rightarrow> bool" where
  "recognised l \<longleftrightarrow> l \<in> {L_C, L_NC, L_CN, L_CHW, L_NCHW, L_NHWC, L_NCDHW, L_NDHWC}"

lemma fillDesc_fields:
  "length order = length bs \<Longrightarrow> bs \<noteq> [] \<Longrightarrow> \<exists>b. fillDesc bs order d = Inr b \<and> bd_order b = order \<and> bd_blockedDims b = bs"
  by (auto simp: fillDesc_def Let_def split: prod.split)

lemma BlockingDesc_layout_fields:
  assumes "recognised l" "layout_consistent l dims"
  shows "\<exists>b. BlockingDesc_layout dims l = Inr b \<and> detect_layout dims b = l \<and>
    length (bd_blockedDims b) = length dims \<and> fold max (bd_order b) 0 + 1 = length dims \<and> dims \<noteq> []"
proof -
  have f: "\<exists>b. fillDesc bs order bd_empty = Inr b \<and> bd_order b = order \<and> bd_blockedDims b = bs"
    if "length order = length bs" "bs \<noteq> []" for bs order using fillDesc_fields [OF that] .
  show ?thesis
  proof (cases l)
    case L_C
    with assms obtain a where "dims = [a]" by (auto simp: layout_consistent_def short_lists)
    with f [of "[0]" dims] L_C show ?thesis by (auto simp: BlockingDesc_layout_def checkDims_def detect_layout_def)
  next
    case L_NC
    with assms obtain a b where "dims = [a, b]" by (auto simp: layout_consistent_def short_lists)
    with f [of "[0, 1]" dims] L_NC show ?thesis by (auto simp: BlockingDesc_layout_def checkDims_def detect_layout_def)
  next
    case L_CN
    with assms obtain a b where "dims = [a, b]" by (auto simp: layout_consistent_def short_lists)
    with f [of "[1, 0]" "[b, a]"] L_CN show ?thesis by (auto simp: BlockingDesc_layout_def checkDims_def detect_layout_def)
  next
    case L_CHW
    with assms obtain a b c where "dims = [a, b, c]" by (auto simp: layout_consistent_def short_lists)
    with f [of "[0, 1, 2]" dims] L_CHW show ?thesis by (auto simp: BlockingDesc_layout_def checkDims_def detect_layout_def)
  next
    case L_NCHW
    with assms obtain a b c d where "dims = [a, b, c, d]" by (auto simp: layout_consistent_def short_lists)
    with f [of "[0, 1, 2, 3]" dims] L_NCHW show ?thesis by (auto simp: BlockingDesc_layout_def checkDims_def detect_layout_def)
  next
    case L_NHWC
    with assms obtain a b c d where "dims = [a, b, c, d]" by (auto simp: layout_consistent_def short_lists)
    with f [of "[0, 2, 3, 1]" "[a, c, d, b]"] L_NHWC show ?thesis
      by (auto simp: BlockingDesc_layout_def checkDims_def detect_layout_def eval_nat_numeral)
  next
    case L_NCDHW
    with assms obtain a b c d e where "dims = [a, b, c, d, e]" by (auto simp: layout_consistent_def short_lists)
    with f [of "[0, 1, 2, 3, 4]" dims] L_NCDHW show ?thesis by (auto simp: BlockingDesc_layout_def checkDims_def detect_layout_def)
  next
    case L_NDHWC
    with assms obtain a b c d e where "dims = [a, b, c, d, e]" by (auto simp: layout_consistent_def short_lists)
    with f [of "[0, 2, 3, 4, 1]" "[a, c, d, e, b]"] L_NDHWC show ?thesis
      by (auto simp: BlockingDesc_layout_def checkDims_def detect_layout_def eval_nat_numeral)
  qed (use assms in \<open>auto simp: recognised_def\<close>)
qed

section \<open>Properties\<close>

text \<open>
  C10. In a packed blocked layout (any order, any blocking, what the \<open>BlockingDesc\<close> constructors
  build) different positions have different offsets, and every offset lies inside the
  \<open>prod_list blockedDims\<close> elements of the buffer; nothing wraps around.
\<close>

theorem offset_injective:
  assumes "packed (td_blockingDesc td)" "td_layout td \<noteq> L_ANY" "td_layout td \<noteq> L_SCALAR"
    and "\<forall>i \<in> set (bd_order (td_blockingDesc td)). i < length v" "length v = length w"
    and "position_ok (bd_order (td_blockingDesc td)) (bd_blockedDims (td_blockingDesc td)) v"
    and "position_ok (bd_order (td_blockingDesc td)) (bd_blockedDims (td_blockingDesc td)) w"
  shows "\<exists>m n. td_offset td v = Inr m \<and> td_offset td w = Inr n \<and> (m = n \<longleftrightarrow> v = w) \<and>
    m < prod_list (bd_blockedDims (td_blockingDesc td))"
proof -
  let ?b = "td_blockingDesc td"
  let ?order = "bd_order ?b" and ?bs = "bd_blockedDims ?b"
  let ?s = "\<lambda>v. shift_loop (length ?order) ?order ?bs v (replicate (length ?order) 0)"
  note ov = td_offset_radix [OF assms(1) refl assms(2,3), of v] and ow = td_offset_radix [OF assms(1) refl assms(2,3), of w]
  have p: "length ?order = length ?bs" "\<forall>n \<in> set ?bs. 0 < n" using assms(1) by (simp_all add: packed_def)
  have "v = w" if "radix (?s v) ?bs = radix (?s w) ?bs"
  proof (rule shift_loop_inject [of _ _ "length ?order" ?order ?bs])
    have "?s v = ?s w" using radix_inject that ov ow by blast
    then show "\<forall>j < length ?order. ?s v ! j = ?s w ! j" by simp
  qed (use assms(4-7) p in \<open>auto simp: position_ok_def\<close>)
  then show ?thesis using ov ow radix_bound [of "?s v" ?bs] by auto
qed

theorem offset_injective_witness:
  "\<exists>td m. mk_TensorDesc_block P_FP32 [2, 8, 3] (projr (mk_BlockingDesc [2, 2, 3, 4] [0, 1, 2, 1])) = Inr td \<and>
    td_offset td [1, 7, 2] = Inr m \<and> m < 48 \<and> td_offset td [1, 6, 2] \<noteq> Inr m"
proof -
  obtain b where b: "fillDesc [2, 2, 3, 4] [0, 1, 2, 1] (bd_empty\<lparr>bd_order := [0, 1, 2, 1]\<rparr>) = Inr b" "packed b"
      "bd_order b = [0, 1, 2, 1]" "bd_blockedDims b = [2, 2, 3, 4]"
    using fillDesc_packed [of "[0, 1, 2, 1]" "[2, 2, 3, 4]"] by auto
  let ?td = "\<lparr>td_layout = L_BLOCKED, td_dims = [2, 8, 3], td_precision = P_FP32, td_blockingDesc = b\<rparr>"
  have td: "mk_TensorDesc_block P_FP32 [2, 8, 3] (projr (mk_BlockingDesc [2, 2, 3, 4] [0, 1, 2, 1])) = Inr ?td"
    using b by (simp add: mk_BlockingDesc_def mk_TensorDesc_block_def detect_layout_def)
  have pos: "position_ok [0, 1, 2, 1] [2, 2, 3, 4] [1, 7, 2]" "position_ok [0, 1, 2, 1] [2, 2, 3, 4] [1, 6, 2]"
    by code_simp+
  from offset_injective [of ?td "[1, 7, 2]" "[1, 6, 2]"] b pos td show ?thesis by auto
qed

text \<open>
  For a layout whose order is the identity (C, NC, CHW, NCHW, NCDHW, BLOCKED without blocks)
  the offset of the \<open>l\<close>-th element is \<open>l\<close>: such a tensor is one dense array.
\<close>

theorem plain_offset_is_linear:
  assumes "packed (td_blockingDesc td)" "td_layout td \<noteq> L_ANY" "td_layout td \<noteq> L_SCALAR"
    and "bd_blockedDims (td_blockingDesc td) = td_dims td"
    and "bd_order (td_blockingDesc td) = [0..<length (td_dims td)]" "l < prod_list (td_dims td)"
  shows "td_offset_linear td l = Inr l"
proof -
  let ?n = "length (td_dims td)" and ?dims = "td_dims td"
  let ?p = "position_loop ?n ?dims l (replicate ?n 0)"
  have p: "radix ?p ?dims = l" "\<forall>j < ?n. ?p ! j < ?dims ! j"
    using position_loop_radix [of ?n ?dims "replicate ?n 0" l] assms(6) by simp_all
  let ?s = "shift_loop ?n [0..<?n] ?dims ?p (replicate ?n 0)"
  have "?s = ?p"
    using shift_loop_plain [of ?n ?p "replicate ?n 0" "[0..<?n]" ?dims] p(2) by (intro nth_equalityI) auto
  with td_offset_radix [OF assms(1) refl assms(2,3), of ?p] p(1) assms(4,5) show ?thesis
    by (simp add: td_offset_linear_def)
qed

theorem plain_offset_is_linear_witness:
  "\<exists>td. mk_TensorDesc P_U8 [2, 3, 4, 5] L_NCHW = Inr td \<and> td_offset_linear td 77 = Inr 77"
proof -
  obtain b where b: "fillDesc [2, 3, 4, 5] [0, 1, 2, 3] bd_empty = Inr b" "packed b"
      "bd_order b = [0, 1, 2, 3]" "bd_blockedDims b = [2, 3, 4, 5]"
    using fillDesc_packed [of "[0, 1, 2, 3]" "[2, 3, 4, 5]"] by auto
  let ?td = "\<lparr>td_layout = L_NCHW, td_dims = [2, 3, 4, 5], td_precision = P_U8, td_blockingDesc = b\<rparr>"
  have "mk_TensorDesc P_U8 [2, 3, 4, 5] L_NCHW = Inr ?td"
    using b(1) by (simp add: mk_TensorDesc_def BlockingDesc_layout_def checkDims_def)
  moreover have "[0, 1, 2, 3] = [0..<length [2, 3, 4, 5 :: nat]]" by (simp add: upt_rec)
  ultimately show ?thesis using plain_offset_is_linear [of ?td 77] b by auto
qed

text \<open>
  C11. Detecting the layout inverts building it: a tensor descriptor made from dimensions and one
  of the layouts C, NC, CN, CHW, NCHW, NHWC, NCDHW, NDHWC of the right rank equals the one made
  from the same dimensions and its blocking descriptor.
\<close>

theorem layout_detection_round_trip:
  assumes "recognised l" "layout_consistent l dims"
  shows "\<exists>td. mk_TensorDesc precision dims l = Inr td \<and>
    mk_TensorDesc_block precision dims (td_blockingDesc td) = Inr td"
proof -
  obtain b where b: "BlockingDesc_layout dims l = Inr b" "detect_layout dims b = l"
    "length (bd_blockedDims b) = length dims" "fold max (bd_order b) 0 + 1 = length dims" "dims \<noteq> []"
    using BlockingDesc_layout_fields [OF assms] by blast
  then have "bd_blockedDims b \<noteq> []" by auto
  with b show ?thesis by (simp add: mk_TensorDesc_def mk_TensorDesc_block_def Let_def)
qed

theorem layout_detection_round_trip_witness:
  "\<exists>td. mk_TensorDesc P_FP16 [1, 3, 224, 224] L_NHWC = Inr td \<and>
    mk_TensorDesc_block P_FP16 [1, 3, 224, 224] (td_blockingDesc td) = Inr td"
  by (rule layout_detection_round_trip) (simp_all add: recognised_def layout_consistent_def)

end
