(* ===== verification/BlobCopy.thy ===== *)
theory BlobCopy
  imports Layouts
begin

text \<open>
  Copying a blob into another layout (\<open>src/src/inference_engine/blob_transform.cpp\<close>), as it is compiled without \<open>HAVE_SSE\<close>; with it,
  kernels of vector instructions (not modelled) take over for three channels of U8 or FP32 in
  dense rows. Source and destination are different buffers. The
  loops over batch, channels, depth, rows and columns with their running pointers, which are positions in the buffers.
  Sizes and pointers are unbounded numbers, elements are values of any type. An access outside a buffer is undefined in the
  code and fails with \<open>OutOfRange\<close>.
\<close>

section \<open>The copy\<close>

record 'a Blob =
  bl_desc :: TensorDesc
  bl_buffer :: "'a list option"

definition stride_at :: "TensorDesc \<Rightarrow> nat \<Rightarrow> nat result" where
  "stride_at td k = vec_at (bd_strides (td_blockingDesc td)) (int k)"

text \<open>The strides of N, C, H and W, and of N, C, D, H and W.\<close>

definition strides_4d :: "TensorDesc \<Rightarrow> SizeVector result" where
  "strides_4d td = mapE (stride_at td) (if td_layout td = L_NHWC then [0, 3, 1, 2] else [0, 1, 2, 3])"

definition strides_5d :: "TensorDesc \<Rightarrow> SizeVector result" where
  "strides_5d td = mapE (stride_at td) (if td_layout td = L_NDHWC then [0, 4, 1, 2, 3] else [0, 1, 2, 3, 4])"

definition copy_elem :: "'a list \<Rightarrow> nat \<Rightarrow> nat \<Rightarrow> 'a list \<Rightarrow> 'a list result" where
  "copy_elem src sp dp dst = bindE (vec_at src (int sp)) (\<lambda>x. vec_set dst (int dp) x)"

text \<open>The innermost loop; the destination pointer is carried on from row to row.\<close>

fun copy_run :: "nat \<Rightarrow> 'a list \<Rightarrow> nat \<Rightarrow> nat \<Rightarrow> nat \<Rightarrow> nat \<times> 'a list \<Rightarrow> (nat \<times> 'a list) result" where
  "copy_run 0 src sp ss ds st = Inr st"
| "copy_run (Suc n) src sp ss ds (dp, dst) =
     bindE (copy_elem src sp dp dst) (\<lambda>dst. copy_run n src (sp + ss) ss ds (dp + ds, dst))"

definition copy_plane :: "nat \<Rightarrow> nat \<Rightarrow> 'a list \<Rightarrow> nat \<Rightarrow> nat \<Rightarrow> nat \<Rightarrow> nat \<Rightarrow> nat \<Rightarrow> 'a list \<Rightarrow> 'a list result" where
  "copy_plane H W src sp H_src_stride ss dp ds dst =
     bindE (foldE (\<lambda>h. copy_run W src (sp + h * H_src_stride) ss ds) [0..<H] (dp, dst)) (\<lambda>(_, dst). Inr dst)"

text \<open>
  Four dimensions. The offset of the destination is added to the pointer of the source, as the code has it.
\<close>

definition blob_copy_4d :: "'a list \<Rightarrow> TensorDesc \<Rightarrow> TensorDesc \<Rightarrow> 'a list \<Rightarrow> 'a list result" where
  "blob_copy_4d src src_desc dst_desc dst =
     (let dims = td_dims src_desc; N = dims ! 0; C = dims ! 1; H = dims ! 2; W = dims ! 3;
          src_ptr = bd_offsetPadding (td_blockingDesc src_desc) + bd_offsetPadding (td_blockingDesc dst_desc) in
      bindE (strides_4d src_desc) (\<lambda>s.
      bindE (strides_4d dst_desc) (\<lambda>d.
      if td_layout src_desc = L_NHWC \<and> td_layout dst_desc = L_NCHW then
        foldE (\<lambda>n. foldE (\<lambda>c. copy_plane H W src (src_ptr + n * s ! 0 + c * s ! 1) (s ! 2) (s ! 3) (n * d ! 0 + c * d ! 1) 1)
          [0..<C]) [0..<N] dst
      else if td_layout src_desc = L_NCHW \<and> td_layout dst_desc = L_NHWC then
        foldE (\<lambda>n. foldE (\<lambda>c. copy_plane H W src (src_ptr + n * s ! 0 + c * s ! 1) (s ! 2) 1 (n * d ! 0 + c) (d ! 3))
          [0..<C]) [0..<N] dst
      else foldE (\<lambda>i. copy_elem src (src_ptr + i) i) [0..<N * C * H * W] dst)))"

text \<open>Five dimensions.\<close>

definition blob_copy_5d :: "'a list \<Rightarrow> TensorDesc \<Rightarrow> TensorDesc \<Rightarrow> 'a list \<Rightarrow> 'a list result" where
  "blob_copy_5d src src_desc dst_desc dst =
     (let dims = td_dims src_desc; N = dims ! 0; C = dims ! 1; D = dims ! 2; H = dims ! 3; W = dims ! 4;
          src_ptr = bd_offsetPadding (td_blockingDesc src_desc); dst_ptr = bd_offsetPadding (td_blockingDesc dst_desc) in
      bindE (strides_5d src_desc) (\<lambda>s.
      bindE (strides_5d dst_desc) (\<lambda>t.
      if td_layout src_desc \<noteq> td_layout dst_desc then
        foldE (\<lambda>n. foldE (\<lambda>c. foldE (\<lambda>d. foldE (\<lambda>h. foldE (\<lambda>w.
            copy_elem src (src_ptr + (n * s ! 0 + c * s ! 1 + d * s ! 2 + h * s ! 3 + w * s ! 4))
              (dst_ptr + (n * t ! 0 + c * t ! 1 + d * t ! 2 + h * t ! 3 + w * t ! 4)))
          [0..<W]) [0..<H]) [0..<D]) [0..<C]) [0..<N] dst
      else foldE (\<lambda>i. copy_elem src (src_ptr + i) (dst_ptr + i)) [0..<N * C * D * H * W] dst)))"

definition copied_precisions :: "Precision list" where
  "copied_precisions = [P_FP32, P_I32, P_FP16, P_U16, P_I16, P_U8, P_I8]"

definition blob_copy :: "'a Blob \<Rightarrow> 'a Blob \<Rightarrow> 'a Blob result" where
  "blob_copy src dst =
     (case (bl_buffer src, bl_buffer dst) of
        (None, _) \<Rightarrow> Inl (Thrown ''Cannot copy blob data. Source is not allocated.'')
      | (_, None) \<Rightarrow> Inl (Thrown ''Cannot copy blob data. Destination is not allocated.'')
      | (Some s, Some d) \<Rightarrow>
          if td_precision (bl_desc src) \<noteq> td_precision (bl_desc dst)
          then Inl (Thrown ''Unimplemented blob transformation from precision '')
          else if td_dims (bl_desc src) \<noteq> td_dims (bl_desc dst)
          then Inl (Thrown ''Unimplemented blob transformation from different shapes '')
          else if length (td_dims (bl_desc src)) \<notin> {4, 5}
          then Inl (Thrown ''Unimplemented blob transformation. Only 4d or 5d supported.'')
          else if td_precision (bl_desc src) \<notin> set copied_precisions
          then Inl (Thrown ''Unsupported blob transformation for precision '')
          else bindE ((if length (td_dims (bl_desc src)) = 4 then blob_copy_4d else blob_copy_5d) s (bl_desc src) (bl_desc dst) d)
            (\<lambda>out. Inr (dst\<lparr>bl_buffer := Some out\<rparr>)))"

section \<open>Loops as series of writes\<close>

lemma copy_elem_write: "sp < length src \<Longrightarrow> copy_elem src sp dp = write_pairs [(dp, src ! sp)]"
  by (rule ext) (simp add: copy_elem_def vec_at_nth bindE_def split: sum.split)

lemma foldE_writes:
  assumes "\<And>x. x \<in> set xs \<Longrightarrow> f x = write_pairs (g x)"
  shows "foldE f xs = write_pairs (concat (map g xs))"
proof
  fix out
  show "foldE f xs out = write_pairs (concat (map g xs)) out"
    using assms by (induction xs arbitrary: out) (auto simp: bindE_def split: sum.split)
qed

lemma copy_run_writes:
  assumes "\<forall>w < n. sp + w * ss < length src"
  shows "copy_run n src sp ss ds (dp, dst) =
    bindE (write_pairs (map (\<lambda>w. (dp + w * ds, src ! (sp + w * ss))) [0..<n]) dst) (\<lambda>dst. Inr (dp + n * ds, dst))"
  using assms
proof (induction n arbitrary: sp dp dst)
  case (Suc n)
  have "\<forall>w < n. sp + ss + w * ss < length src" using Suc.prems by (auto simp: algebra_simps dest: spec[of _ "Suc _"])
  note IH = Suc.IH[OF this]
  have "[0..<Suc n] = 0 # map Suc [0..<n]" by (simp add: upt_conv_Cons map_Suc_upt del: upt_Suc)
  moreover have "sp < length src" using Suc.prems by force
  ultimately show ?case
    by (simp add: copy_elem_write IH comp_def algebra_simps bindE_def split: sum.split del: upt_Suc)
qed simp

lemma copy_plane_writes:
  assumes "\<forall>h < H. \<forall>w < W. sp + h * hs + w * ss < length src"
  shows "copy_plane H W src sp hs ss dp ds =
    write_pairs (concat (map (\<lambda>h. map (\<lambda>w. (dp + (h * W + w) * ds, src ! (sp + h * hs + w * ss))) [0..<W]) [0..<H]))"
proof
  fix dst
  let ?row = "\<lambda>h. map (\<lambda>w. (dp + (h * W + w) * ds, src ! (sp + h * hs + w * ss))) [0..<W]"
  have "foldE (\<lambda>h. copy_run W src (sp + h * hs) ss ds) [0..<m] (dp, dst) =
      bindE (write_pairs (concat (map ?row [0..<m])) dst) (\<lambda>dst. Inr (dp + m * W * ds, dst))" if "m \<le> H" for m
    using that
  proof (induction m)
    case (Suc m)
    then have "\<forall>w < W. sp + m * hs + w * ss < length src" using assms by auto
    then have run: "copy_run W src (sp + m * hs) ss ds (dp + m * W * ds, out) =
        bindE (write_pairs (?row m) out) (\<lambda>dst. Inr (dp + Suc m * W * ds, dst))" for out
      by (subst copy_run_writes) (simp_all add: algebra_simps)
    have "foldE (\<lambda>h. copy_run W src (sp + h * hs) ss ds) [0..<Suc m] (dp, dst) =
        bindE (write_pairs (concat (map ?row [0..<m])) dst) (\<lambda>out.
          bindE (write_pairs (?row m) out) (\<lambda>dst. Inr (dp + Suc m * W * ds, dst)))"
      using Suc by (simp add: bindE_assoc run del: mult_Suc)
    then show ?case by (simp add: bindE_assoc del: mult_Suc)
  qed simp
  from this[of H] show "copy_plane H W src sp hs ss dp ds dst = write_pairs (concat (map ?row [0..<H])) dst"
    by (simp add: copy_plane_def bindE_def split: sum.split)
qed

section \<open>Offsets of the four layouts\<close>

definition inside :: "SizeVector \<Rightarrow> SizeVector \<Rightarrow> bool" where
  "inside dims pos \<longleftrightarrow> digits_ok pos dims"

lemma inside_4 [simp]: "inside [N, C, H, W] [n, c, h, w] \<longleftrightarrow> n < N \<and> c < C \<and> h < H \<and> w < W"
  by (simp add: inside_def digits_ok_def)

lemma inside_5 [simp]: "inside [N, C, D, H, W] [n, c, d, h, w] \<longleftrightarrow> n < N \<and> c < C \<and> d < D \<and> h < H \<and> w < W"
  by (simp add: inside_def digits_ok_def)

text \<open>The place of an element: its coordinates and the dimensions in the order of the layout.\<close>

definition layout_digits :: "Layout \<Rightarrow> 'a list \<Rightarrow> 'a list" where
  "layout_digits l v =
     (if l = L_NHWC then [v ! 0, v ! 2, v ! 3, v ! 1] else if l = L_NDHWC then [v ! 0, v ! 2, v ! 3, v ! 4, v ! 1] else v)"

definition place :: "Layout \<Rightarrow> SizeVector \<Rightarrow> SizeVector \<Rightarrow> nat" where
  "place l dims pos = radix (layout_digits l pos) (layout_digits l dims)"

definition copied_layouts :: "nat \<Rightarrow> Layout set" where
  "copied_layouts n = (if n = 4 then {L_NCHW, L_NHWC} else if n = 5 then {L_NCDHW, L_NDHWC} else {})"

lemma layout_cases:
  assumes "l \<in> copied_layouts (length dims)"
  obtains N C H W where "dims = [N, C, H, W]" "l = L_NCHW \<or> l = L_NHWC"
  | N C D H W where "dims = [N, C, D, H, W]" "l = L_NCDHW \<or> l = L_NDHWC"
  using assms by (auto simp: copied_layouts_def short_lists split: if_splits)

lemma digits_inside:
  assumes "l \<in> copied_layouts (length dims)" "inside dims pos"
  shows "digits_ok (layout_digits l pos) (layout_digits l dims)"
proof -
  have "length pos = length dims" using assms(2) by (auto simp: inside_def digits_ok_def list_all2_lengthD)
  with assms show ?thesis
    by (cases rule: layout_cases[OF assms(1)])
      (auto simp: layout_digits_def short_lists inside_def digits_ok_def length_Suc_conv eval_nat_numeral)
qed

lemma place_inject:
  assumes "l \<in> copied_layouts (length dims)" "inside dims p" "inside dims q" "place l dims p = place l dims q"
  shows "p = q"
proof -
  have "length p = length dims" "length q = length dims" using assms(2,3) by (auto simp: inside_def digits_ok_def list_all2_lengthD)
  moreover have "layout_digits l p = layout_digits l q"
    using radix_inject digits_inside[OF assms(1)] assms(2-4) unfolding place_def by blast
  ultimately show ?thesis
    by (cases rule: layout_cases[OF assms(1)]) (auto simp: layout_digits_def length_Suc_conv)
qed

lemma place_bound:
  assumes "l \<in> copied_layouts (length dims)" "inside dims p"
  shows "place l dims p < prod_list dims"
proof -
  have "prod_list (layout_digits l dims) = prod_list dims"
    by (cases rule: layout_cases[OF assms(1)]) (auto simp: layout_digits_def)
  then show ?thesis using radix_bound[OF digits_inside[OF assms]] by (simp add: place_def)
qed

lemma layout_desc:
  assumes "l \<in> copied_layouts (length dims)" "\<forall>d \<in> set dims. 0 < d" "prod_list dims < 2 ^ 64" "mk_TensorDesc prec dims l = Inr td"
  shows "td_layout td = l \<and> td_dims td = dims \<and> td_precision td = prec \<and> packed (td_blockingDesc td) \<and>
    bd_blockedDims (td_blockingDesc td) = layout_digits l dims \<and>
    bd_order (td_blockingDesc td) = layout_digits l [0..<length dims]"
proof -
  have fill: "fillDesc bs order bd_empty = Inr b \<Longrightarrow> length order = length bs \<Longrightarrow> bs \<noteq> [] \<Longrightarrow> \<forall>b \<in> set bs. 0 < b \<Longrightarrow>
      prod_list bs < 2 ^ 64 \<Longrightarrow> packed b \<and> bd_order b = order \<and> bd_blockedDims b = bs" for bs order b
    using fillDesc_packed[of order bs bd_empty] by auto
  show ?thesis
  proof (cases rule: layout_cases[OF assms(1)])
    case (1 N C H W)
    then show ?thesis
      using assms(2-4) by (auto simp: mk_TensorDesc_def BlockingDesc_layout_def checkDims_def layout_digits_def upt_rec
          mult.commute mult.left_commute dest!: fill)
  next
    case (2 N C D H W)
    then show ?thesis
      using assms(2-4) by (auto simp: mk_TensorDesc_def BlockingDesc_layout_def checkDims_def layout_digits_def upt_rec
          mult.commute mult.left_commute dest!: fill)
  qed
qed

lemma layout_offset:
  assumes "l \<in> copied_layouts (length dims)" "\<forall>d \<in> set dims. 0 < d" "prod_list dims < 2 ^ 64" "mk_TensorDesc prec dims l = Inr td"
    and "inside dims pos"
  shows "td_offset td pos = Inr (place l dims pos)"
proof -
  note desc = layout_desc[OF assms(1-4)]
  let ?b = "td_blockingDesc td"
  have l: "td_layout td \<noteq> L_ANY" "td_layout td \<noteq> L_SCALAR" using desc assms(1) by (auto simp: copied_layouts_def split: if_splits)
  have pos: "length pos = length dims" using assms(5) by (auto simp: inside_def digits_ok_def list_all2_lengthD)
  have "shift_loop (length (bd_order ?b)) (bd_order ?b) (bd_blockedDims ?b) pos (replicate (length (bd_order ?b)) 0) =
      layout_digits l pos"
  proof (cases rule: layout_cases[OF assms(1)])
    case (1 N C H W)
    then obtain n c h w where "pos = [n, c, h, w]" using pos by (auto simp: length_Suc_conv)
    then show ?thesis using 1 desc assms(5) by (auto simp: layout_digits_def eval_nat_numeral upt_rec)
  next
    case (2 N C D H W)
    then obtain n c d h w where "pos = [n, c, d, h, w]" using pos by (auto simp: length_Suc_conv)
    then show ?thesis using 2 desc assms(5) by (auto simp: layout_digits_def eval_nat_numeral upt_rec)
  qed
  then show ?thesis using td_offset_radix[of ?b td pos] desc l by (simp add: place_def)
qed

section \<open>The copy moves every element\<close>

lemma writes_move:
  assumes "set ps = (\<lambda>p. (B p, src ! A p)) ` P" "inj_on B P" "\<forall>p \<in> P. B p < length dst"
  shows "\<exists>out. write_pairs ps dst = Inr out \<and> length out = length dst \<and> (\<forall>p \<in> P. out ! B p = src ! A p)"
proof -
  have "\<forall>(i, v) \<in> set ps. i < length dst" using assms(1,3) by auto
  moreover have "\<forall>(i, v) \<in> set ps. \<forall>(j, w) \<in> set ps. i = j \<longrightarrow> v = w"
    using assms(1,2) by (auto dest: inj_onD)
  ultimately obtain out where "write_pairs ps dst = Inr out" "length out = length dst" "\<forall>(i, v) \<in> set ps. out ! i = v"
    using write_pairs_values by blast
  then show ?thesis using assms(1) by (intro exI[of _ out]) auto
qed

lemma linear_copy:
  assumes "m \<le> length src" "length dst = m"
  shows "\<exists>out. foldE (\<lambda>i. copy_elem src (0 + i) (0 + i)) [0..<m] dst = Inr out \<and> length out = m \<and> (\<forall>i < m. out ! i = src ! i)"
proof -
  have "foldE (\<lambda>i. copy_elem src (0 + i) (0 + i)) [0..<m] = write_pairs (concat (map (\<lambda>i. [(i, src ! i)]) [0..<m]))"
    by (rule foldE_writes) (use assms in \<open>simp add: copy_elem_write\<close>)
  moreover have "set (concat (map (\<lambda>i. [(i, src ! i)]) [0..<m])) = (\<lambda>i. (i, src ! i)) ` {..<m}" by auto
  from writes_move[OF this, of dst] assms(2)
  obtain out where "write_pairs (concat (map (\<lambda>i. [(i, src ! i)]) [0..<m])) dst = Inr out" "length out = m" "\<forall>i \<in> {..<m}. out ! i = src ! i"
    by auto
  ultimately show ?thesis by auto
qed

definition moved :: "Layout \<Rightarrow> Layout \<Rightarrow> SizeVector \<Rightarrow> 'a list \<Rightarrow> 'a list \<Rightarrow> bool" where
  "moved l l' dims src out \<longleftrightarrow>
     length out = prod_list dims \<and> (\<forall>pos. inside dims pos \<longrightarrow> out ! place l' dims pos = src ! place l dims pos)"

lemma copy_writes_moved:
  assumes "set ps = (\<lambda>pos. (place l' dims pos, src ! place l dims pos)) ` Collect (inside dims)"
    and "l' \<in> copied_layouts (length dims)" "length dst = prod_list dims"
  shows "\<exists>out. write_pairs ps dst = Inr out \<and> moved l l' dims src out"
proof -
  have "inj_on (place l' dims) (Collect (inside dims))" using place_inject[OF assms(2)] by (auto intro: inj_onI)
  moreover have "\<forall>p \<in> Collect (inside dims). place l' dims p < length dst" using place_bound[OF assms(2)] assms(3) by auto
  ultimately obtain out where "write_pairs ps dst = Inr out" "length out = length dst"
    "\<forall>p \<in> Collect (inside dims). out ! place l' dims p = src ! place l dims p"
    using writes_move[OF assms(1)] by blast
  then show ?thesis using assms(3) by (auto simp: moved_def)
qed

lemma inside_positions:
  "Collect (inside [N, C, H, W]) = {[n, c, h, w] | n c h w. n < N \<and> c < C \<and> h < H \<and> w < W}"
  "Collect (inside [N, C, D, H, W]) = {[n, c, d, h, w] | n c d h w. n < N \<and> c < C \<and> d < D \<and> h < H \<and> w < W}"
  by (auto simp: inside_def digits_ok_def list_all2_Cons2)

lemma plane_loops_writes:
  assumes "\<forall>n < N. \<forall>c < C. \<forall>h < H. \<forall>w < W. A n c + h * hs + w * ss < length src"
  shows "foldE (\<lambda>n. foldE (\<lambda>c. copy_plane H W src (A n c) hs ss (B n c) ds) [0..<C]) [0..<N] =
    write_pairs (concat (map (\<lambda>n. concat (map (\<lambda>c. concat (map (\<lambda>h. map (\<lambda>w.
      (B n c + (h * W + w) * ds, src ! (A n c + h * hs + w * ss))) [0..<W]) [0..<H])) [0..<C])) [0..<N]))"
  by (intro foldE_writes copy_plane_writes) (use assms in auto)

lemma packed_strides:
  assumes "l \<in> copied_layouts (length dims)" "\<forall>d \<in> set dims. 0 < d" "prod_list dims < 2 ^ 64" "mk_TensorDesc prec dims l = Inr td"
  shows "bd_strides (td_blockingDesc td) = suffix_products (layout_digits l dims)" "bd_offsetPadding (td_blockingDesc td) = 0"
  using layout_desc[OF assms] by (auto simp: packed_def)

lemma copy_4d_moves:
  fixes src dst :: "'a list"
  assumes "\<forall>d \<in> set dims. 0 < d" "prod_list dims < 2 ^ 64" "dims = [N, C, H, W]"
    and l: "l \<in> copied_layouts 4" "l' \<in> copied_layouts 4"
    and desc: "mk_TensorDesc prec dims l = Inr sd" "mk_TensorDesc prec dims l' = Inr dd"
    and len: "length src = prod_list dims" "length dst = prod_list dims"
  shows "\<exists>out. blob_copy_4d src sd dd dst = Inr out \<and> moved l l' dims src out"
proof -
  have n: "length dims = 4" using assms(3) by simp
  have L: "l \<in> copied_layouts (length dims)" "l' \<in> copied_layouts (length dims)" using l n by auto
  note d = layout_desc[OF L(1) assms(1,2) desc(1)] layout_desc[OF L(2) assms(1,2) desc(2)]
  note st = packed_strides[OF L(1) assms(1,2) desc(1)] packed_strides[OF L(2) assms(1,2) desc(2)]
  have strides: "strides_4d td = Inr (if k = L_NHWC then [H * W * C, 1, W * C, C] else [C * H * W, H * W, W, 1])"
    if "bd_strides (td_blockingDesc td) = suffix_products (layout_digits k dims)" "td_layout td = k" "k = L_NCHW \<or> k = L_NHWC" for td k
    using that by (auto simp: strides_4d_def stride_at_def assms(3) layout_digits_def suffix_products_def vec_at_def upt_rec mult.assoc)
  have bound: "place l dims [n, c, h, w] < length src" if "n < N" "c < C" "h < H" "w < W" for n c h w
    using place_bound[OF L(1), of "[n, c, h, w]"] that len(1) by (simp add: assms(3))
  consider "l = l'" | "l = L_NHWC" "l' = L_NCHW" | "l = L_NCHW" "l' = L_NHWC"
    using l by (auto simp: copied_layouts_def)
  then show ?thesis
  proof cases
    case 1
    have "\<exists>out. foldE (\<lambda>i. copy_elem src (0 + i) (0 + i)) [0..<prod_list dims] dst = Inr out \<and> length out = prod_list dims \<and>
        (\<forall>i < prod_list dims. out ! i = src ! i)"
      by (rule linear_copy) (use len in auto)
    then obtain out where "foldE (\<lambda>i. copy_elem src i i) [0..<N * C * H * W] dst = Inr out" "length out = prod_list dims"
      "\<forall>i < prod_list dims. out ! i = src ! i"
      by (auto simp: assms(3) mult.assoc)
    moreover have "blob_copy_4d src sd dd dst = foldE (\<lambda>i. copy_elem src i i) [0..<N * C * H * W] dst"
      using 1 d st l strides[of sd l] strides[of dd l']
      by (auto simp: blob_copy_4d_def assms(3) copied_layouts_def Let_def)
    ultimately show ?thesis using place_bound[OF L(2)] 1 by (auto simp: moved_def)
  next
    case 2
    let ?ps = "concat (map (\<lambda>n. concat (map (\<lambda>c. concat (map (\<lambda>h. map (\<lambda>w.
      (n * (C * H * W) + c * (H * W) + (h * W + w) * 1, src ! (0 + n * (H * W * C) + c * 1 + h * (W * C) + w * C))) [0..<W]) [0..<H])) [0..<C])) [0..<N])"
    have A: "0 + n * (H * W * C) + c * 1 + h * (W * C) + w * C = place l dims [n, c, h, w]" for n c h w
      by (simp add: 2 assms(3) place_def layout_digits_def algebra_simps)
    have B: "n * (C * H * W) + c * (H * W) + (h * W + w) * 1 = place l' dims [n, c, h, w]" for n c h w
      by (simp add: 2 assms(3) place_def layout_digits_def algebra_simps)
    have loops: "foldE (\<lambda>n. foldE (\<lambda>c. copy_plane H W src (0 + n * (H * W * C) + c * 1) (W * C) C (n * (C * H * W) + c * (H * W)) 1) [0..<C]) [0..<N] = write_pairs ?ps"
      by (rule plane_loops_writes) (intro allI impI, simp only: A, rule bound)
    have run: "blob_copy_4d src sd dd dst = write_pairs ?ps dst"
    proof -
      have "strides_4d sd = Inr [H * W * C, 1, W * C, C]" "strides_4d dd = Inr [C * H * W, H * W, W, 1]"
        using strides[OF st(1)] strides[OF st(3)] d 2 by auto
      moreover have "td_layout sd = L_NHWC" "td_layout dd = L_NCHW" "td_dims sd = [N, C, H, W]" using d 2 assms(3) by auto
      ultimately show ?thesis unfolding loops[symmetric] by (simp add: blob_copy_4d_def st)
    qed
    have set: "set ?ps = (\<lambda>pos. (place l' dims pos, src ! place l dims pos)) ` Collect (inside dims)"
      unfolding A B assms(3) inside_positions by force
    show ?thesis unfolding run by (rule copy_writes_moved[OF set L(2) len(2)])
  next
    case 3
    let ?ps = "concat (map (\<lambda>n. concat (map (\<lambda>c. concat (map (\<lambda>h. map (\<lambda>w.
      (n * (H * W * C) + c + (h * W + w) * C, src ! (0 + n * (C * H * W) + c * (H * W) + h * W + w * 1))) [0..<W]) [0..<H])) [0..<C])) [0..<N])"
    have A: "0 + n * (C * H * W) + c * (H * W) + h * W + w * 1 = place l dims [n, c, h, w]" for n c h w
      by (simp add: 3 assms(3) place_def layout_digits_def algebra_simps)
    have B: "n * (H * W * C) + c + (h * W + w) * C = place l' dims [n, c, h, w]" for n c h w
      by (simp add: 3 assms(3) place_def layout_digits_def algebra_simps)
    have loops: "foldE (\<lambda>n. foldE (\<lambda>c. copy_plane H W src (0 + n * (C * H * W) + c * (H * W)) W 1 (n * (H * W * C) + c) C) [0..<C]) [0..<N] = write_pairs ?ps"
      by (rule plane_loops_writes) (intro allI impI, simp only: A, rule bound)
    have run: "blob_copy_4d src sd dd dst = write_pairs ?ps dst"
    proof -
      have "strides_4d sd = Inr [C * H * W, H * W, W, 1]" "strides_4d dd = Inr [H * W * C, 1, W * C, C]"
        using strides[OF st(1)] strides[OF st(3)] d 3 by auto
      moreover have "td_layout sd = L_NCHW" "td_layout dd = L_NHWC" "td_dims sd = [N, C, H, W]" using d 3 assms(3) by auto
      ultimately show ?thesis unfolding loops[symmetric] by (simp add: blob_copy_4d_def st)
    qed
    have set: "set ?ps = (\<lambda>pos. (place l' dims pos, src ! place l dims pos)) ` Collect (inside dims)"
      unfolding A B assms(3) inside_positions by force
    show ?thesis unfolding run by (rule copy_writes_moved[OF set L(2) len(2)])
  qed
qed

lemma elem_loops_writes:
  assumes "\<forall>n < N. \<forall>c < C. \<forall>d < D. \<forall>h < H. \<forall>w < W. A n c d h w < length src"
  shows "foldE (\<lambda>n. foldE (\<lambda>c. foldE (\<lambda>d. foldE (\<lambda>h. foldE (\<lambda>w. copy_elem src (A n c d h w) (B n c d h w))
      [0..<W]) [0..<H]) [0..<D]) [0..<C]) [0..<N] =
    write_pairs (concat (map (\<lambda>n. concat (map (\<lambda>c. concat (map (\<lambda>d. concat (map (\<lambda>h. concat (map (\<lambda>w.
      [(B n c d h w, src ! A n c d h w)]) [0..<W])) [0..<H])) [0..<D])) [0..<C])) [0..<N]))"
  by (intro foldE_writes copy_elem_write) (use assms in auto)

lemma copy_5d_moves:
  fixes src dst :: "'a list"
  assumes "\<forall>d \<in> set dims. 0 < d" "prod_list dims < 2 ^ 64" "dims = [N, C, D, H, W]"
    and l: "l \<in> copied_layouts 5" "l' \<in> copied_layouts 5"
    and desc: "mk_TensorDesc prec dims l = Inr sd" "mk_TensorDesc prec dims l' = Inr dd"
    and len: "length src = prod_list dims" "length dst = prod_list dims"
  shows "\<exists>out. blob_copy_5d src sd dd dst = Inr out \<and> moved l l' dims src out"
proof -
  have n: "length dims = 5" using assms(3) by simp
  have L: "l \<in> copied_layouts (length dims)" "l' \<in> copied_layouts (length dims)" using l n by auto
  note d = layout_desc[OF L(1) assms(1,2) desc(1)] layout_desc[OF L(2) assms(1,2) desc(2)]
  note st = packed_strides[OF L(1) assms(1,2) desc(1)] packed_strides[OF L(2) assms(1,2) desc(2)]
  define str where "str = (\<lambda>k. if k = L_NDHWC then [D * H * W * C, 1, H * W * C, W * C, C] else [C * D * H * W, D * H * W, H * W, W, 1])"
  have strides: "strides_5d td = Inr (str k)"
    if "bd_strides (td_blockingDesc td) = suffix_products (layout_digits k dims)" "td_layout td = k" "k \<in> copied_layouts 5" for td k
    using that by (auto simp: str_def strides_5d_def stride_at_def assms(3) layout_digits_def suffix_products_def vec_at_def upt_rec
        copied_layouts_def mult.assoc)
  note run_strides = strides[OF st(1) _ l(1)] strides[OF st(3) _ l(2)]
  have addr: "0 + (n * str k ! 0 + c * str k ! 1 + d * str k ! 2 + h * str k ! 3 + w * str k ! 4) = place k dims [n, c, d, h, w]"
    if "k \<in> copied_layouts 5" for k n c d h w
    using that by (auto simp: copied_layouts_def str_def assms(3) place_def layout_digits_def algebra_simps)
  have bound: "place l dims [n, c, d, h, w] < length src" if "n < N" "c < C" "d < D" "h < H" "w < W" for n c d h w
    using place_bound[OF L(1), of "[n, c, d, h, w]"] that len(1) by (simp add: assms(3))
  show ?thesis
  proof (cases "l = l'")
    case True
    have "\<exists>out. foldE (\<lambda>i. copy_elem src (0 + i) (0 + i)) [0..<prod_list dims] dst = Inr out \<and> length out = prod_list dims \<and>
        (\<forall>i < prod_list dims. out ! i = src ! i)"
      by (rule linear_copy) (use len in auto)
    then obtain out where "foldE (\<lambda>i. copy_elem src (0 + i) (0 + i)) [0..<N * C * D * H * W] dst = Inr out" "length out = prod_list dims"
      "\<forall>i < prod_list dims. out ! i = src ! i"
      by (auto simp: assms(3) mult.assoc)
    moreover have "blob_copy_5d src sd dd dst = foldE (\<lambda>i. copy_elem src (0 + i) (0 + i)) [0..<N * C * D * H * W] dst"
      using True d run_strides st assms(3) by (simp add: blob_copy_5d_def)
    ultimately show ?thesis using place_bound[OF L(2)] True by (auto simp: moved_def)
  next
    case False
    let ?A = "\<lambda>k n c d h w. 0 + (n * str k ! 0 + c * str k ! 1 + d * str k ! 2 + h * str k ! 3 + w * str k ! 4)"
    let ?ps = "concat (map (\<lambda>n. concat (map (\<lambda>c. concat (map (\<lambda>d. concat (map (\<lambda>h. concat (map (\<lambda>w.
      [(?A l' n c d h w, src ! ?A l n c d h w)]) [0..<W])) [0..<H])) [0..<D])) [0..<C])) [0..<N])"
    have loops: "foldE (\<lambda>n. foldE (\<lambda>c. foldE (\<lambda>d. foldE (\<lambda>h. foldE (\<lambda>w. copy_elem src (?A l n c d h w) (?A l' n c d h w))
      [0..<W]) [0..<H]) [0..<D]) [0..<C]) [0..<N] = write_pairs ?ps"
      by (rule elem_loops_writes) (intro allI impI, simp only: addr[OF l(1)], rule bound)
    have run: "blob_copy_5d src sd dd dst = write_pairs ?ps dst"
    proof -
      have "strides_5d sd = Inr (str l)" "strides_5d dd = Inr (str l')" using run_strides d by auto
      moreover have "td_layout sd \<noteq> td_layout dd" "td_dims sd = [N, C, D, H, W]" using d False assms(3) by auto
      ultimately show ?thesis unfolding loops[symmetric] by (simp add: blob_copy_5d_def st)
    qed
    have set: "set ?ps = (\<lambda>pos. (place l' dims pos, src ! place l dims pos)) ` Collect (inside dims)"
      unfolding addr[OF l(1)] addr[OF l(2)] assms(3) inside_positions by force
    show ?thesis unfolding run by (rule copy_writes_moved[OF set L(2) len(2)])
  qed
qed

text \<open>
  C35. Copying between dense blobs of the same shape and precision converts the layout: for four dimensions in NCHW or NHWC and five
  in NCDHW or NDHWC, in any combination, the copy succeeds, and the element at every position of the destination, at the
  offset its descriptor computes, is the element of the source at the same position, at the offset of the source's descriptor.

  The conditions: both descriptors are those the constructor of \<open>TensorDesc\<close> makes for the layout, so there are no paddings; the
  sizes are positive with less than \<open>2^31\<close> elements; the precision is one the copy supports; the two buffers hold just the
  elements and do not overlap; and the code is compiled without the vector kernels, which \<open>HAVE_SSE\<close> adds for three channels.
\<close>

theorem blob_copy_converts_layout:
  fixes s d :: "'a list"
  assumes "l \<in> copied_layouts (length dims)" "l' \<in> copied_layouts (length dims)" "precision \<in> set copied_precisions"
    and "\<forall>n \<in> set dims. 0 < n" "prod_list dims < 2 ^ 31"
    and "mk_TensorDesc precision dims l = Inr src_desc" "mk_TensorDesc precision dims l' = Inr dst_desc"
    and "length s = prod_list dims" "length d = prod_list dims"
  shows "\<exists>out. blob_copy \<lparr>bl_desc = src_desc, bl_buffer = Some s\<rparr> \<lparr>bl_desc = dst_desc, bl_buffer = Some d\<rparr> =
      Inr \<lparr>bl_desc = dst_desc, bl_buffer = Some out\<rparr> \<and> length out = prod_list dims \<and>
    (\<forall>pos. inside dims pos \<longrightarrow> (\<exists>a b. td_offset src_desc pos = Inr a \<and> td_offset dst_desc pos = Inr b \<and> out ! b = s ! a))"
proof -
  have less: "prod_list dims < 2 ^ 64" using assms(5) by simp
  note desc = layout_desc[OF assms(1,4) less assms(6)] layout_desc[OF assms(2,4) less assms(7)]
  have "\<exists>out. (if length dims = 4 then blob_copy_4d else blob_copy_5d) s src_desc dst_desc d = Inr out \<and> moved l l' dims s out"
  proof (cases rule: layout_cases[OF assms(1)])
    case (1 N C H W)
    then have len: "length dims = 4" by simp
    show ?thesis using copy_4d_moves[OF assms(4) less 1(1) assms(1,2)[unfolded len] assms(6-9)] len by simp
  next
    case (2 N C D H W)
    then have len: "length dims = 5" by simp
    show ?thesis using copy_5d_moves[OF assms(4) less 2(1) assms(1,2)[unfolded len] assms(6-9)] len by simp
  qed
  then obtain out where out: "(if length dims = 4 then blob_copy_4d else blob_copy_5d) s src_desc dst_desc d = Inr out"
    "moved l l' dims s out"
    by auto
  have "length dims \<in> {4, 5}" using assms(1) by (auto simp: copied_layouts_def split: if_splits)
  then have "blob_copy \<lparr>bl_desc = src_desc, bl_buffer = Some s\<rparr> \<lparr>bl_desc = dst_desc, bl_buffer = Some d\<rparr> =
      Inr \<lparr>bl_desc = dst_desc, bl_buffer = Some out\<rparr>"
    using desc assms(3) out(1) by (auto simp: blob_copy_def)
  moreover have "td_offset src_desc pos = Inr (place l dims pos)" "td_offset dst_desc pos = Inr (place l' dims pos)"
    if "inside dims pos" for pos
    using layout_offset[OF assms(1,4) less assms(6) that] layout_offset[OF assms(2,4) less assms(7) that] by auto
  ultimately show ?thesis using out(2) by (auto simp: moved_def)
qed

theorem blob_copy_converts_layout_witness:
  "\<exists>sd dd out. mk_TensorDesc P_U8 [1, 2, 2, 2] L_NHWC = Inr sd \<and> mk_TensorDesc P_U8 [1, 2, 2, 2] L_NCHW = Inr dd \<and>
    blob_copy \<lparr>bl_desc = sd, bl_buffer = Some [0..<8]\<rparr> \<lparr>bl_desc = dd, bl_buffer = Some (replicate 8 0)\<rparr> =
      Inr \<lparr>bl_desc = dd, bl_buffer = Some out\<rparr> \<and> length out = 8"
proof -
  obtain sd dd where td: "mk_TensorDesc P_U8 [1, 2, 2, 2] L_NHWC = Inr sd" "mk_TensorDesc P_U8 [1, 2, 2, 2] L_NCHW = Inr dd"
    by (auto simp: mk_TensorDesc_def BlockingDesc_layout_def checkDims_def fillDesc_def)
  from blob_copy_converts_layout[OF _ _ _ _ _ td, of "[0..<8]" "replicate 8 0"]
  show ?thesis using td by (fastforce simp: copied_layouts_def copied_precisions_def)
qed

end
