(* ===== verification/LayerParams.thy ===== *)
theory LayerParams
  imports Prelude
begin

text \<open>
  Parameters of a layer (\<open>CNNLayer\<close> in \<open>src/include/ie_layers.h\<close>): texts by name, as the IR has them, and the
  functions that read numbers from them. \<open>std::stoi\<close>, \<open>std::getline\<close> and the stream extraction of a bool are written
  out for the C locale. A number for a float is only checked here, its value is not used.
\<close>

section \<open>Reading numbers from text\<close>

type_synonym params = "(string \<times> string) list"

definition is_space :: "char \<Rightarrow> bool" where
  "is_space c \<longleftrightarrow> (of_char c :: nat) = 32 \<or> 9 \<le> (of_char c :: nat) \<and> (of_char c :: nat) \<le> 13"

definition is_digit :: "char \<Rightarrow> bool" where
  "is_digit c \<longleftrightarrow> 48 \<le> (of_char c :: nat) \<and> (of_char c :: nat) \<le> 57"

definition read_digits :: "string \<Rightarrow> nat" where
  "read_digits s = fold (\<lambda>c n. 10 * n + (of_char c - 48)) s 0"

definition read_sign :: "string \<Rightarrow> bool \<times> string" where
  "read_sign s =
     (case s of [] \<Rightarrow> (False, [])
      | c # cs \<Rightarrow> if c = CHR ''-'' then (True, cs) else if c = CHR ''+'' then (False, cs) else (False, s))"

text \<open>None where \<open>std::stoi\<close> throws: no digits, or a value that is no \<open>int\<close>. What follows the digits is ignored.\<close>

definition stoi :: "string \<Rightarrow> int option" where
  "stoi s =
     (let (neg, s) = read_sign (dropWhile is_space s);
          ds = takeWhile is_digit s;
          v = (if neg then - int (read_digits ds) else int (read_digits ds))
      in if ds = [] \<or> v < - (2 ^ 31) \<or> 2 ^ 31 \<le> v then None else Some v)"

text \<open>The pieces that \<open>getline(stream, str, ',')\<close> delivers; no empty piece is left after the last comma.\<close>

function getlines :: "string \<Rightarrow> string list" where
  "getlines s =
     (if s = [] then [] else takeWhile (\<lambda>c. c \<noteq> CHR '','') s # getlines (drop 1 (dropWhile (\<lambda>c. c \<noteq> CHR '','') s)))"
  by pat_completeness auto
termination
proof (relation "measure length")
  fix s :: string assume "s \<noteq> []"
  have "length (dropWhile (\<lambda>c. c \<noteq> CHR '','') s) \<le> length s" by (rule length_dropWhile_le)
  with \<open>s \<noteq> []\<close> show "(drop 1 (dropWhile (\<lambda>c. c \<noteq> CHR '','') s), s) \<in> measure length"
    by (cases s) (auto simp: le_imp_less_Suc)
qed simp

declare getlines.simps [simp del]

section \<open>The accessors\<close>

definition cannot_parse :: "'a result" where
  "cannot_parse = Inl (Thrown ''Cannot parse parameter '')"

definition GetParamAsString_or :: "params \<Rightarrow> string \<Rightarrow> string \<Rightarrow> string" where
  "GetParamAsString_or ps param def = (case map_of ps param of None \<Rightarrow> def | Some v \<Rightarrow> if v = [] then def else v)"

definition GetParamAsString :: "params \<Rightarrow> string \<Rightarrow> string result" where
  "GetParamAsString ps param =
     (case map_of ps param of None \<Rightarrow> Inl (Thrown ''No such parameter name '') | Some v \<Rightarrow> Inr v)"

definition parse_int :: "string \<Rightarrow> int result" where
  "parse_int s = (case stoi s of None \<Rightarrow> cannot_parse | Some v \<Rightarrow> Inr v)"

definition parse_uint :: "string \<Rightarrow> nat result" where
  "parse_uint s = (case stoi s of None \<Rightarrow> cannot_parse | Some v \<Rightarrow> if v < 0 then cannot_parse else Inr (nat v))"

definition GetParamAsInt_or :: "params \<Rightarrow> string \<Rightarrow> int \<Rightarrow> int result" where
  "GetParamAsInt_or ps param def = parse_int (GetParamAsString_or ps param (int_string def))"

definition GetParamAsInt :: "params \<Rightarrow> string \<Rightarrow> int result" where
  "GetParamAsInt ps param = bindE (GetParamAsString ps param) parse_int"

definition GetParamAsUInt_or :: "params \<Rightarrow> string \<Rightarrow> nat \<Rightarrow> nat result" where
  "GetParamAsUInt_or ps param def = parse_uint (GetParamAsString_or ps param (nat_string def))"

definition GetParamAsUInt :: "params \<Rightarrow> string \<Rightarrow> nat result" where
  "GetParamAsUInt ps param = bindE (GetParamAsString ps param) parse_uint"

definition GetParamAsInts_or :: "params \<Rightarrow> string \<Rightarrow> int list \<Rightarrow> int list result" where
  "GetParamAsInts_or ps param def =
     (let vals = GetParamAsString_or ps param '''' in if vals = [] then Inr def else mapE parse_int (getlines vals))"

definition GetParamAsInts :: "params \<Rightarrow> string \<Rightarrow> int list result" where
  "GetParamAsInts ps param = bindE (GetParamAsString ps param) (\<lambda>vals. mapE parse_int (getlines vals))"

definition GetParamAsUInts_or :: "params \<Rightarrow> string \<Rightarrow> nat list \<Rightarrow> nat list result" where
  "GetParamAsUInts_or ps param def =
     (let vals = GetParamAsString_or ps param '''' in if vals = [] then Inr def else mapE parse_uint (getlines vals))"

definition GetParamAsUInts :: "params \<Rightarrow> string \<Rightarrow> nat list result" where
  "GetParamAsUInts ps param = bindE (GetParamAsString ps param) (\<lambda>vals. mapE parse_uint (getlines vals))"

definition to_lower :: "char \<Rightarrow> char" where
  "to_lower c = (if 65 \<le> (of_char c :: nat) \<and> (of_char c :: nat) \<le> 90 then char_of ((of_char c :: nat) + 32) else c)"

definition has_prefix :: "string \<Rightarrow> string \<Rightarrow> bool" where
  "has_prefix p s = (take (length p) s = p)"

definition GetParamAsBool_or :: "params \<Rightarrow> string \<Rightarrow> bool \<Rightarrow> bool result" where
  "GetParamAsBool_or ps param def =
     (let val = GetParamAsString_or ps param (nat_string (of_bool def));
          lower = dropWhile is_space (map to_lower val)
      in if has_prefix ''true'' lower then Inr True
      else if has_prefix ''false'' lower then Inr False
      else bindE (GetParamAsInt_or ps param (of_bool def)) (\<lambda>v. Inr (v \<noteq> 0)))"

definition CheckParamPresence :: "params \<Rightarrow> string \<Rightarrow> bool" where
  "CheckParamPresence ps param \<longleftrightarrow> map_of ps param \<noteq> None"

text \<open>Whether \<open>ie_parse_float\<close> accepts a text: the extraction of a float must reach its end.\<close>

definition skip_digits :: "string \<Rightarrow> string" where "skip_digits s = dropWhile is_digit s"

definition float_text :: "string \<Rightarrow> bool" where
  "float_text s \<longleftrightarrow> s = ''-inf'' \<or> s = ''inf'' \<or>
     (let s0 = snd (read_sign (dropWhile is_space s));
          s1 = skip_digits s0;
          s2 = (if has_prefix ''.'' s1 then skip_digits (tl s1) else s1);
          mantissa = (\<exists>c \<in> set (take (length s0 - length s2) s0). is_digit c);
          s3 = (if mantissa \<and> (has_prefix ''e'' s2 \<or> has_prefix ''E'' s2) then skip_digits (snd (read_sign (tl s2))) else s2)
      in s3 = [])"

definition check_float :: "params \<Rightarrow> string \<Rightarrow> string \<Rightarrow> unit result" where
  "check_float ps param def = (if float_text (GetParamAsString_or ps param def) then Inr () else cannot_parse)"

definition check_floats :: "params \<Rightarrow> string \<Rightarrow> unit result" where
  "check_floats ps param =
     foldE (\<lambda>str _. if float_text str then Inr () else cannot_parse) (getlines (GetParamAsString_or ps param '''')) ()"

section \<open>Text and back\<close>

text \<open>Numbers separated by commas, as the code writes them.\<close>

definition append_number :: "nat \<Rightarrow> string \<Rightarrow> string" where
  "append_number n s = (if s = [] then s else s @ '','') @ nat_string n"

lemma of_char_digit: "n < 10 \<Longrightarrow> (of_char (char_of (48 + n :: nat) :: char) :: nat) = 48 + n"
  by (simp add: of_char_of)

lemma nat_string_digits: "nat_string n \<noteq> [] \<and> (\<forall>c \<in> set (nat_string n). is_digit c) \<and> read_digits (nat_string n) = n"
proof (induction n rule: nat_string.induct)
  case (1 n)
  have one: "is_digit (char_of (48 + d)) \<and> (of_char (char_of (48 + d :: nat) :: char) :: nat) - 48 = d" if "d < 10" for d :: nat
    using of_char_digit [OF that] that by (simp add: is_digit_def)
  show ?case
  proof (cases "n < 10")
    case True
    then show ?thesis using one [of n] by (subst (1 2 3) nat_string.simps) (simp add: read_digits_def)
  next
    case False
    note IH = 1 [OF False]
    have "read_digits (nat_string n) = 10 * read_digits (nat_string (n div 10)) + n mod 10"
      using one [of "n mod 10"] False by (subst nat_string.simps) (simp add: read_digits_def)
    then show ?thesis using IH one [of "n mod 10"] False by (subst (1 2) nat_string.simps) simp
  qed
qed

lemma digit_plain: "is_digit c \<Longrightarrow> \<not> is_space c \<and> c \<noteq> CHR '','' \<and> c \<noteq> CHR ''-'' \<and> c \<noteq> CHR ''+''"
  by (auto simp: is_digit_def is_space_def)

lemma stoi_nat_string:
  assumes "n < 2 ^ 31"
  shows "stoi (nat_string n) = Some (int n)"
proof -
  obtain c cs where s: "nat_string n = c # cs" using nat_string_digits [of n] by (cases "nat_string n") auto
  have "is_digit c" using nat_string_digits [of n] s by simp
  note p = digit_plain [OF this]
  have t: "takeWhile is_digit (nat_string n) = nat_string n" using nat_string_digits [of n] by (simp add: takeWhile_eq_all_conv)
  have "dropWhile is_space (nat_string n) = nat_string n" "read_sign (nat_string n) = (False, nat_string n)"
    using s p by (auto simp: read_sign_def)
  then show ?thesis using nat_string_digits [of n] assms by (simp add: stoi_def Let_def t)
qed

lemma parse_int_string:
  assumes "- (2 ^ 31) \<le> i" "i < 2 ^ 31"
  shows "parse_int (int_string i) = Inr i"
proof (cases "i < 0")
  case False
  then show ?thesis using stoi_nat_string [of "nat i"] assms by (simp add: parse_int_def int_string_def)
next
  case True
  let ?s = "nat_string (nat (- i))"
  have t: "takeWhile is_digit ?s = ?s" using nat_string_digits [of "nat (- i)"] by (simp add: takeWhile_eq_all_conv)
  have "stoi (CHR ''-'' # ?s) = Some i"
    using nat_string_digits [of "nat (- i)"] assms True by (simp add: stoi_def read_sign_def is_space_def Let_def t)
  then show ?thesis using True by (simp add: parse_int_def int_string_def)
qed

lemma int_string_no_comma: "int_string i \<noteq> [] \<and> (\<forall>c \<in> set (int_string i). c \<noteq> CHR '','')"
  using nat_string_digits [of "nat i"] nat_string_digits [of "nat (- i)"] digit_plain by (auto simp: int_string_def)

fun comma_join :: "string list \<Rightarrow> string" where
  "comma_join [] = []"
| "comma_join [x] = x"
| "comma_join (x # xs) = x @ CHR '','' # comma_join xs"

definition pieces_ok :: "string list \<Rightarrow> bool" where
  "pieces_ok xs \<longleftrightarrow> (\<forall>x \<in> set xs. x \<noteq> [] \<and> CHR '','' \<notin> set x)"

lemma comma_join_empty: "pieces_ok xs \<Longrightarrow> comma_join xs = [] \<longleftrightarrow> xs = []"
  by (cases xs rule: comma_join.cases) (auto simp: pieces_ok_def)

lemma comma_join_snoc: "xs \<noteq> [] \<Longrightarrow> comma_join (xs @ [y]) = comma_join xs @ CHR '','' # y"
proof (induction xs rule: comma_join.induct)
  case (3 x x' xs)
  then show ?case by simp
qed auto

lemma getlines_join: "pieces_ok xs \<Longrightarrow> getlines (comma_join xs) = xs"
proof (induction xs rule: comma_join.induct)
  case 1
  then show ?case by (subst getlines.simps) simp
next
  case (2 x)
  have t: "takeWhile (\<lambda>c. c \<noteq> CHR '','') x = x" "dropWhile (\<lambda>c. c \<noteq> CHR '','') x = []"
    using 2 by (auto simp: pieces_ok_def takeWhile_eq_all_conv)
  have "getlines [] = []" by (subst getlines.simps) simp
  then show ?case using 2 by (subst getlines.simps) (simp add: pieces_ok_def t)
next
  case (3 x x' xs)
  let ?rest = "comma_join (x' # xs)"
  have x: "\<And>c. c \<in> set x \<Longrightarrow> c \<noteq> CHR '',''" using 3(2) by (auto simp: pieces_ok_def)
  then have "takeWhile (\<lambda>c. c \<noteq> CHR '','') (x @ CHR '','' # ?rest) = x"
    "dropWhile (\<lambda>c. c \<noteq> CHR '','') (x @ CHR '','' # ?rest) = CHR '','' # ?rest"
    by (simp_all add: takeWhile_append dropWhile_append2)
  moreover have "getlines ?rest = x' # xs" using 3 by (simp add: pieces_ok_def)
  ultimately show ?case by (subst getlines.simps) simp
qed

lemma numbers_ok: "pieces_ok (map nat_string ns)"
  using nat_string_digits digit_plain by (fastforce simp: pieces_ok_def)

lemma append_numbers: "fold append_number ns [] = comma_join (map nat_string ns)"
proof (induction ns rule: rev_induct)
  case (snoc n ns)
  then show ?case
    using comma_join_empty [OF numbers_ok, of ns] comma_join_snoc [of "map nat_string ns"]
    by (cases "ns = []") (auto simp: append_number_def)
qed simp

lemma map_string_ints: "\<forall>n \<in> set ns. n < 2 ^ 31 \<Longrightarrow> mapE parse_int (map nat_string ns) = Inr (map int ns)"
  by (induction ns) (auto simp: parse_int_def stoi_nat_string)

text \<open>
  A list of numbers written to a parameter, separated by commas, is read back as it was, when each is an
  \<open>int\<close> (\<open>SplitValidator\<close> writes the sizes of the outputs this way, \<open>GetParamAsInts\<close> reads them).
\<close>

theorem numbers_read_back:
  assumes "ns \<noteq> []" "\<forall>n \<in> set ns. n < 2 ^ 31"
  shows "GetParamAsInts_or ((param, fold append_number ns []) # ps) param def = Inr (map int ns)"
proof -
  have "fold append_number ns [] \<noteq> []"
    using assms(1) comma_join_empty [OF numbers_ok, of ns] by (simp add: append_numbers)
  then show ?thesis
    using map_string_ints [OF assms(2)]
    by (simp add: GetParamAsInts_or_def GetParamAsString_or_def append_numbers getlines_join [OF numbers_ok])
qed

theorem numbers_read_back_witness:
  "GetParamAsInts_or [(''out_sizes'', fold append_number [12, 300, 7] [])] ''out_sizes'' [] = Inr [12, 300, 7]"
  using numbers_read_back [of "[12, 300, 7]" "''out_sizes''" "[]" "[]"] by simp

end
