(* ===== verification/ShapeInfer.thy ===== *)
theory ShapeInfer
  imports LayerParams Layouts
begin

text \<open>
  Shape inference of layers (\<open>shape_infer/built-in\<close> of \<open>src/src/inference_engine\<close>) with the validators it calls
  (\<open>ie_layer_validators.cpp\<close>): \<open>Split\<close>, \<open>Concat\<close>, \<open>Reshape\<close>, \<open>Gemm\<close>, \<open>Squeeze\<close> and \<open>Unsqueeze\<close>. The common part
  (\<open>BuiltInShapeInferImpl::validate\<close>) runs the parser of the parameters and the checks on a fresh layer. An access
  outside a vector, a null buffer and a division by zero are undefined in the code; here they fail with \<open>OutOfRange\<close>.
\<close>

section \<open>Inputs\<close>

text \<open>
  A blob of indices: its dimensions, its precision and its elements from the offset of its descriptor on, cast to \<open>int\<close>;
  no elements when the buffer is null.
\<close>

record IndexBlob =
  ib_dims :: SizeVector
  ib_precision :: Precision
  ib_data :: "int list option"

definition to_size :: "int \<Rightarrow> nat" where "to_size i = nat (i mod 2 ^ 64)"

definition checkNumOfInput :: "SizeVector list \<Rightarrow> nat list \<Rightarrow> unit result" where
  "checkNumOfInput inShapes expected =
     (if length inShapes \<in> set expected then Inr () else Inl (Thrown ''Number of inputs is not equal to expected ones''))"

section \<open>Split\<close>

text \<open>The parser writes the sizes of the outputs, when the layer has any, to the parameter \<open>out_sizes\<close>.\<close>

definition Split_parseParams :: "SizeVector list \<Rightarrow> params \<Rightarrow> (nat \<times> params) result" where
  "Split_parseParams outData ps =
     bindE (GetParamAsUInt_or ps ''axis'' 1) (\<lambda>axis.
     bindE (foldE (\<lambda>dims out_sizes.
         if length dims \<le> axis then Inl (Thrown ''Internal error - dimensions are empty'')
         else Inr (append_number (dims ! axis) out_sizes)) outData []) (\<lambda>out_sizes.
     Inr (axis, if out_sizes = [] then ps else (''out_sizes'', out_sizes) # ps)))"

definition Split_checkParams :: "params \<Rightarrow> unit result" where
  "Split_checkParams ps =
     bindE (GetParamAsInts_or ps ''out_sizes'' []) (\<lambda>out_sizes.
     if out_sizes = [] then Inl (Thrown ''Value of out_sizes attribute is empty'') else Inr ())"

definition sum_sizes :: "int list \<Rightarrow> nat" where
  "sum_sizes xs = fold (\<lambda>x s. to_size (int s + x)) xs 0"

definition Split_checkShapes :: "nat \<Rightarrow> params \<Rightarrow> SizeVector list \<Rightarrow> unit result" where
  "Split_checkShapes axis ps inShapes =
     bindE (checkNumOfInput inShapes [1]) (\<lambda>_.
     bindE (GetParamAsInts_or ps ''out_sizes'' []) (\<lambda>out_sizes.
     if inShapes = [] \<or> length (inShapes ! 0) \<le> axis then Inl (Thrown ''Layer has incorrect input shapes!'')
     else if sum_sizes out_sizes \<noteq> inShapes ! 0 ! axis
     then Inl (Thrown ''The sum of the dimensions on the axis is not equal out_sizes: '') else Inr ()))"

definition Split_infer :: "params \<Rightarrow> SizeVector list \<Rightarrow> SizeVector list result" where
  "Split_infer ps inShapes =
     bindE (Split_parseParams [] ps) (\<lambda>(axis, ps).
     bindE (Split_checkParams ps) (\<lambda>_.
     bindE (Split_checkShapes axis ps inShapes) (\<lambda>_.
     bindE (GetParamAsInts_or ps ''out_sizes'' []) (\<lambda>out_sizes.
     if out_sizes = [] then Inl (Thrown ''Value of out_sizes attribute is empty'')
     else bindE (vec_at (inShapes ! 0) (int axis)) (\<lambda>dim.
     if sum_sizes out_sizes \<noteq> dim then Inl (Thrown ''The sum of the dimensions on the axis is not equal out_sizes: '')
     else Inr (map (\<lambda>size. (inShapes ! 0)[axis := to_size size]) out_sizes))))))"

section \<open>Concat\<close>

definition Concat_checkShapes :: "nat \<Rightarrow> SizeVector list \<Rightarrow> unit result" where
  "Concat_checkShapes axis inShapes =
     (case inShapes of
        [] \<Rightarrow> Inl (Thrown ''Inputs are empty'')
      | firstShape # rest \<Rightarrow>
          if axis \<ge> length firstShape then Inl (Thrown ''Concat axis should be less the number of current input dimensions '')
          else foldE (\<lambda>shape _.
            if length shape \<noteq> length firstShape
            then Inl (Thrown ''Invalid inputs for Concat layer: number of dimensions must match: '')
            else if take axis firstShape \<noteq> take axis shape \<or> drop (axis + 1) firstShape \<noteq> drop (axis + 1) shape
            then Inl (Thrown ''Invalid inputs for Concat layer: dimensions should match in all positions except axis '')
            else Inr ()) rest ())"

definition Concat_infer :: "params \<Rightarrow> SizeVector list \<Rightarrow> SizeVector list result" where
  "Concat_infer ps inShapes =
     bindE (GetParamAsUInt_or ps ''axis'' 1) (\<lambda>axis.
     bindE (Concat_checkShapes axis inShapes) (\<lambda>_.
     bindE (foldE (\<lambda>inShape sum.
         if axis \<ge> length inShape then Inl (Thrown ''Axis can't be more then number of input shapes'')
         else Inr (size_t (sum + inShape ! axis))) inShapes 0) (\<lambda>sum.
     Inr [(inShapes ! 0)[axis := sum]])))"

section \<open>Reshape\<close>

record ReshapeLayer =
  rl_shape :: "int list"
  rl_axis :: int
  rl_num_axes :: int

definition Reshape_parseParams :: "string \<Rightarrow> params \<Rightarrow> ReshapeLayer result" where
  "Reshape_parseParams type ps =
     (if ps = [] then Inr \<lparr>rl_shape = [], rl_axis = 0, rl_num_axes = -1\<rparr>
      else if type = ''Flatten'' then
        bindE (GetParamAsInt_or ps ''end_axis'' (-1)) (\<lambda>num_axes.
        bindE (GetParamAsInt_or ps ''axis'' 0) (\<lambda>axis.
        Inr \<lparr>rl_shape = [], rl_axis = axis, rl_num_axes = num_axes\<rparr>))
      else bindE (GetParamAsInts_or ps ''dim'' []) (\<lambda>shape. Inr \<lparr>rl_shape = shape, rl_axis = 0, rl_num_axes = -1\<rparr>))"

definition Reshape_checkParams :: "ReshapeLayer \<Rightarrow> unit result" where
  "Reshape_checkParams layer =
     bindE (foldE (\<lambda>dim num.
       if dim < -1 then Inl (Thrown ''Invalid value of Reshape mask (dim attribute):'')
       else Inr (if dim = -1 then num + 1 else num)) (rl_shape layer) (0 :: nat)) (\<lambda>num.
     if num > 1 then Inl (Thrown ''Invalid Reshape mask (dim attribute): at most one dimension can be `-1`'') else Inr ())"

definition reshape_mask :: "ReshapeLayer \<Rightarrow> IndexBlob list \<Rightarrow> int list result" where
  "reshape_mask layer inBlobs =
     (if length inBlobs = 2 then
        if ib_precision (inBlobs ! 1) \<in> {P_FP32, P_I32, P_FP16} then
          (case ib_data (inBlobs ! 1) of None \<Rightarrow> Inl (Thrown ''Second input must have allocated data'') | Some d \<Rightarrow> Inr d)
        else Inl (Thrown ''Second input has unsupported precision'')
      else Inr (rl_shape layer))"

definition total_size :: "SizeVector \<Rightarrow> nat" where
  "total_size dims = fold (\<lambda>d p. size_t (p * d)) dims 1"

definition reshape_known :: "SizeVector \<Rightarrow> int list \<Rightarrow> nat result" where
  "reshape_known inputShape dim_mask =
     foldE (\<lambda>(i, m) res.
       if m = 0 then bindE (vec_at inputShape (int i)) (\<lambda>d. Inr (size_t (res * d)))
       else if m \<noteq> -1 then Inr (to_size (int res * m)) else Inr res) (zip [0..<length dim_mask] dim_mask) 1"

definition reshape_out :: "SizeVector \<Rightarrow> int list \<Rightarrow> nat \<Rightarrow> SizeVector result" where
  "reshape_out inputShape dim_mask newDim =
     mapE (\<lambda>(i, m). if m = 0 then vec_at inputShape (int i) else Inr (if m = -1 then newDim else to_size m))
       (zip [0..<length dim_mask] dim_mask)"

definition reshape_to :: "SizeVector \<Rightarrow> int list \<Rightarrow> SizeVector result" where
  "reshape_to inputShape dim_mask =
     (if dim_mask = [] then Inr [total_size inputShape]
      else bindE (reshape_known inputShape dim_mask) (\<lambda>res.
        if res = 0 then Inl OutOfRange
        else bindE (reshape_out inputShape dim_mask (total_size inputShape div res)) (\<lambda>outShape.
          if total_size inputShape \<noteq> total_size outShape
          then Inl (Thrown ''Invalid reshape mask (dim attribute): number of elements mismatch'') else Inr outShape)))"

definition Reshape_infer :: "string \<Rightarrow> params \<Rightarrow> IndexBlob list \<Rightarrow> SizeVector list result" where
  "Reshape_infer type ps inBlobs =
     bindE (Reshape_parseParams type ps) (\<lambda>layer.
     bindE (Reshape_checkParams layer) (\<lambda>_.
     bindE (reshape_mask layer inBlobs) (\<lambda>dim_mask.
     bindE (vec_at inBlobs 0) (\<lambda>input.
     bindE (reshape_to (ib_dims input) dim_mask) (\<lambda>outShape. Inr [outShape])))))"

section \<open>Gemm\<close>

definition Gemm_parseParams :: "params \<Rightarrow> (bool \<times> bool) result" where
  "Gemm_parseParams ps =
     bindE (check_float ps ''alpha'' ''1'') (\<lambda>_.
     bindE (check_float ps ''beta'' ''1'') (\<lambda>_.
     bindE (GetParamAsBool_or ps ''transpose_a'' False) (\<lambda>transpose_a.
     bindE (GetParamAsBool_or ps ''transpose_b'' False) (\<lambda>transpose_b.
     Inr (transpose_a, transpose_b)))))"

definition Gemm_checkShapes :: "bool \<Rightarrow> bool \<Rightarrow> SizeVector list \<Rightarrow> unit result" where
  "Gemm_checkShapes transpose_a transpose_b inShapes =
     bindE (checkNumOfInput inShapes [2, 3]) (\<lambda>_.
     let dims0 = inShapes ! 0; dims1 = inShapes ! 1 in
     if length dims0 < 2 \<or> length dims1 < 2 then Inl (Thrown ''Gemm input shapes must have at least 2 dimensions'')
     else
       let (xAxis0, yAxis0) = (if transpose_a then (length dims0 - 2, length dims0 - 1) else (length dims0 - 1, length dims0 - 2));
           (xAxis1, yAxis1) = (if transpose_b then (length dims1 - 2, length dims1 - 1) else (length dims1 - 1, length dims1 - 2))
       in if dims0 ! xAxis0 \<noteq> dims1 ! yAxis1
       then Inl (Thrown ''Gemm input0 x dimension must be equal to input1 y dimension '')
       else if length inShapes = 3 then
         let dims2 = inShapes ! 2 in
         if length dims2 < 2 then Inl (Thrown ''Gemm input shapes must have at least 2 dimensions'')
         else if dims2 ! (length dims2 - 1) \<noteq> dims1 ! xAxis1
         then Inl (Thrown ''Gemm input2 x dimension must be equal to input1 x dimension '')
         else if dims2 ! (length dims2 - 2) \<noteq> dims0 ! yAxis0
         then Inl (Thrown ''Gemm input2 y dimension must be equal to input0 y dimension '')
         else Inr ()
       else Inr ())"

definition gemm_batch_dim :: "SizeVector list \<Rightarrow> nat \<Rightarrow> nat result" where
  "gemm_batch_dim inShapes idx =
     bindE (vec_at (inShapes ! 0) (int idx)) (\<lambda>d0.
     bindE (vec_at (inShapes ! 1) (int idx)) (\<lambda>d1.
     let max_dim = (if d0 > d1 then d0 else d1) in
     if length inShapes = 3 then bindE (vec_at (inShapes ! 2) (int idx)) (\<lambda>d2. Inr (if max_dim > d2 then max_dim else d2))
     else Inr max_dim))"

definition Gemm_infer :: "params \<Rightarrow> SizeVector list \<Rightarrow> SizeVector list result" where
  "Gemm_infer ps inShapes =
     bindE (Gemm_parseParams ps) (\<lambda>(transpose_a, transpose_b).
     bindE (Gemm_checkShapes transpose_a transpose_b inShapes) (\<lambda>_.
     let dims0 = inShapes ! 0; dims1 = inShapes ! 1 in
     bindE (mapE (gemm_batch_dim inShapes) [0..<length dims0 - 2]) (\<lambda>shapes.
     let xAxis = (if transpose_a then length dims0 - 2 else length dims0 - 1);
         yAxis = (if transpose_b then length dims1 - 1 else length dims1 - 2)
     in bindE (vec_at dims0 (int yAxis)) (\<lambda>d0.
        bindE (vec_at dims1 (int xAxis)) (\<lambda>d1. Inr [shapes @ [d0, d1]])))))"

section \<open>Squeeze and Unsqueeze\<close>

definition Squeeze_checkShapes :: "SizeVector list \<Rightarrow> unit result" where
  "Squeeze_checkShapes inShapes =
     (if length inShapes \<noteq> 2 then Inl (Thrown '' Squeeze can take 2 inputs, but actually it has: '')
      else if length (inShapes ! 1) \<noteq> 1 then Inl (Thrown '' Incorrect number of 'indices_to_squeeze' input dimensions!'')
      else Inr ())"

definition squeeze_axis :: "SizeVector \<Rightarrow> int \<Rightarrow> int" where
  "squeeze_axis data_dims x = (if x < 0 then x + int (length data_dims) else x)"

definition squeeze_indices :: "SizeVector \<Rightarrow> int list \<Rightarrow> SizeVector result" where
  "squeeze_indices data_dims idx_data =
     bindE (foldE (\<lambda>x _.
       let axis = squeeze_axis data_dims x in
       if to_size axis > length data_dims then Inl (Thrown ''Index to squeeze exceeds data tensor dimension'')
       else bindE (vec_at data_dims axis) (\<lambda>d.
         if d \<noteq> 1 then Inl (Thrown ''Index to squeeze of data tensor dimension is not 1'') else Inr ())) idx_data ()) (\<lambda>_.
     Inr (map (\<lambda>j. data_dims ! j)
       (filter (\<lambda>j. \<not> list_ex (\<lambda>x. j = to_size (squeeze_axis data_dims x)) idx_data) [0..<length data_dims])))"

definition Squeeze_infer :: "IndexBlob list \<Rightarrow> SizeVector list result" where
  "Squeeze_infer inBlobs =
     bindE (Squeeze_checkShapes (map ib_dims inBlobs)) (\<lambda>_.
     let idx = inBlobs ! 1; data_dims = ib_dims (inBlobs ! 0) in
     if length (ib_dims idx) > 1 then Inl (Thrown '' Index vector should be 1 dimension'')
     else if length data_dims \<le> ib_dims idx ! 0 \<and> \<not> (length data_dims = 1 \<and> ib_dims idx ! 0 = 1)
     then Inl (Thrown '' Incompatible number of data dimensions and indexes vector length!'')
     else if ib_precision idx \<notin> {P_FP32, P_FP16, P_I32}
     then Inl (Thrown ''Incorrect 'indices_to_squeeze' input precision. Only FP32, FP16 and I32 are supported!'')
     else case ib_data idx of None \<Rightarrow> Inl OutOfRange
       | Some idx_data \<Rightarrow> bindE (squeeze_indices data_dims idx_data) (\<lambda>outShape. Inr [outShape]))"

definition Unsqueeze_checkShapes :: "SizeVector list \<Rightarrow> unit result" where
  "Unsqueeze_checkShapes inShapes =
     (if length inShapes \<noteq> 2 then Inl (Thrown '' Unsqueeze can take 2 inputs, but actually it has: '')
      else if length (inShapes ! 1) \<noteq> 1 then Inl (Thrown '' Incorrect number of 'indices_to_set' input dimensions!'')
      else Inr ())"

text \<open>The loop over the positions of the output, with the indices and the dimensions not used yet.\<close>

fun unsqueeze_loop :: "nat \<Rightarrow> nat \<Rightarrow> int list \<Rightarrow> SizeVector \<Rightarrow> SizeVector result" where
  "unsqueeze_loop 0 i idx dims = Inr []"
| "unsqueeze_loop (Suc n) i idx dims =
     (if idx \<noteq> [] \<and> i = to_size (hd idx) then bindE (unsqueeze_loop n (i + 1) (tl idx) dims) (\<lambda>s. Inr (1 # s))
      else case dims of [] \<Rightarrow> Inl OutOfRange | d # dims \<Rightarrow> bindE (unsqueeze_loop n (i + 1) idx dims) (\<lambda>s. Inr (d # s)))"

definition unsqueeze_indices :: "SizeVector \<Rightarrow> int list \<Rightarrow> SizeVector result" where
  "unsqueeze_indices data_dims idx_data =
     (let max_axis = size_t (fold (\<lambda>x m. max m (to_size x)) idx_data (length data_dims) + 1) in
      if length idx_data + length data_dims < max_axis
      then Inl (Thrown ''Indices_to_set for unsqueeze layer is out of tensor dimension'')
      else unsqueeze_loop (length idx_data + length data_dims) 0 idx_data data_dims)"

definition Unsqueeze_infer :: "IndexBlob list \<Rightarrow> SizeVector list result" where
  "Unsqueeze_infer inBlobs =
     bindE (Unsqueeze_checkShapes (map ib_dims inBlobs)) (\<lambda>_.
     let idx = inBlobs ! 1; data_dims = ib_dims (inBlobs ! 0) in
     if length (ib_dims idx) > 1 then Inl (Thrown '' Index vector should be 1 dimension'')
     else if ib_precision idx \<notin> {P_FP32, P_FP16, P_I32}
     then Inl (Thrown ''Incorrect 'indices_to_set' input precision. Only FP32, FP16 and I32 are supported!'')
     else case ib_data idx of None \<Rightarrow> Inr [data_dims]
       | Some idx_data \<Rightarrow> bindE (unsqueeze_indices data_dims idx_data) (\<lambda>outShape. Inr [outShape]))"

end
