(* ===== verification/ShapeAxes.thy ===== *)
theory ShapeAxes
  imports ShapeInfer
begin

text \<open>
  Shape inference of the layers that work on single axes: \<open>DepthToSpace\<close>, \<open>SpaceToDepth\<close>, \<open>Permute\<close>, \<open>Reduce\<close>,
  \<open>Gather\<close>, \<open>Flatten\<close>, \<open>Tile\<close>, \<open>OneHot\<close>, \<open>Crop\<close>, \<open>Pad\<close> and \<open>Eltwise\<close>, each with its validator. As in
  \<open>ShapeInfer\<close>, what is undefined in the code fails with \<open>OutOfRange\<close>. Names of layers are left out of messages.
\<close>

section \<open>DepthToSpace and SpaceToDepth\<close>

definition DepthToSpace_checkShapes :: "nat \<Rightarrow> SizeVector list \<Rightarrow> unit result" where
  "DepthToSpace_checkShapes block_size inShapes =
     (if length inShapes \<noteq> 1 then Inl (Thrown '' DepthToSpace can take only 1 input, but actually it has: '')
      else if length (inShapes ! 0) < 3 then Inl (Thrown '' Incorrect number of input dimensions!'')
      else if block_size = 0 then Inl (Thrown '' Incorrect block_size parameter is zero!'')
      else if block_size * block_size mod 2 ^ 32 = 0 then Inl OutOfRange
      else if inShapes ! 0 ! (length (inShapes ! 0) - 3) mod (block_size * block_size mod 2 ^ 32) \<noteq> 0
      then Inl (Thrown '' block_size parameter is incompatible with input tensor Color dimension size!'') else Inr ())"

definition DepthToSpace_infer :: "params \<Rightarrow> SizeVector list \<Rightarrow> SizeVector list result" where
  "DepthToSpace_infer ps inShapes =
     bindE (GetParamAsUInt_or ps ''block_size'' 1) (\<lambda>block_size.
     bindE (DepthToSpace_checkShapes block_size inShapes) (\<lambda>_.
     let inShape = inShapes ! 0; n = length inShape in
     Inr [inShape[n - 1 := size_t (inShape ! (n - 1) * block_size), n - 2 := size_t (inShape ! (n - 2) * block_size),
       n - 3 := inShape ! (n - 3) div block_size div block_size]]))"

definition SpaceToDepth_checkShapes :: "nat \<Rightarrow> SizeVector list \<Rightarrow> unit result" where
  "SpaceToDepth_checkShapes block_size inShapes =
     (if length inShapes \<noteq> 1 then Inl (Thrown '' SpaceToDepth can take only 1 input, but actually it has: '')
      else if length (inShapes ! 0) < 2 then Inl (Thrown '' Incorrect number of input dimensions!'')
      else if block_size = 0 then Inl (Thrown '' Incorrect block_size parameter is zero!'')
      else if inShapes ! 0 ! (length (inShapes ! 0) - 1) mod block_size \<noteq> 0
      then Inl (Thrown '' block_size parameter is incompatible with input tensor With dimension size!'')
      else if inShapes ! 0 ! (length (inShapes ! 0) - 2) mod block_size \<noteq> 0
      then Inl (Thrown '' block_size parameter is incompatible with input tensor Height dimension size!'') else Inr ())"

definition SpaceToDepth_infer :: "params \<Rightarrow> SizeVector list \<Rightarrow> SizeVector list result" where
  "SpaceToDepth_infer ps inShapes =
     bindE (GetParamAsUInt_or ps ''block_size'' 1) (\<lambda>block_size.
     bindE (SpaceToDepth_checkShapes block_size inShapes) (\<lambda>_.
     let inShape = inShapes ! 0; n = length inShape in
     if n < 3 then Inl OutOfRange
     else Inr [inShape[n - 1 := inShape ! (n - 1) div block_size, n - 2 := inShape ! (n - 2) div block_size,
       n - 3 := size_t (size_t (inShape ! (n - 3) * block_size) * block_size)]]))"

section \<open>Permute\<close>

definition Permute_infer :: "params \<Rightarrow> SizeVector list \<Rightarrow> SizeVector list result" where
  "Permute_infer ps inShapes =
     bindE (GetParamAsUInts ps ''order'') (\<lambda>_.
     bindE (checkNumOfInput inShapes [1]) (\<lambda>_.
     bindE (GetParamAsInts ps ''order'') (\<lambda>layerOrder.
     bindE (mapE (\<lambda>i. bindE (vec_at (map to_size layerOrder) (int i)) (\<lambda>ord. vec_at (inShapes ! 0) (int ord)))
       [0..<length (inShapes ! 0)]) (\<lambda>outShape.
     Inr [outShape]))))"

section \<open>Reduce\<close>

definition Reduce_checkShapes :: "SizeVector list \<Rightarrow> unit result" where
  "Reduce_checkShapes inShapes =
     (if length inShapes > 2 then Inl (Thrown '' Reduce can take up to 2 inputs, but actually it has: '') else Inr ())"

definition reduce_axes :: "SizeVector \<Rightarrow> int list \<Rightarrow> nat list result" where
  "reduce_axes data_dims idx_data =
     mapE (\<lambda>x. let axis = (if x < 0 then x + int (length data_dims) else x) in
       if to_size axis > length data_dims then Inl (Thrown '' Index to reduce exceeds data tensor dimension'')
       else Inr (to_size axis)) idx_data"

definition reduce_dims :: "bool \<Rightarrow> nat list \<Rightarrow> SizeVector \<Rightarrow> SizeVector" where
  "reduce_dims keep_dims axes src_dims =
     concat (map (\<lambda>i. if i \<in> set axes then if keep_dims then [1] else [] else [src_dims ! i]) [0..<length src_dims])"

definition Reduce_infer :: "params \<Rightarrow> IndexBlob list \<Rightarrow> SizeVector list result" where
  "Reduce_infer ps inBlobs =
     bindE (GetParamAsBool_or ps ''keep_dims'' True) (\<lambda>keep_dims.
     bindE (Reduce_checkShapes (map ib_dims inBlobs)) (\<lambda>_.
     if length inBlobs < 2 then Inl OutOfRange
     else let idx = inBlobs ! 1; data_dims = ib_dims (inBlobs ! 0) in
       if length (ib_dims idx) > 1 then Inl (Thrown '' Index vector should be 1 dimension'')
       else if ib_precision idx \<noteq> P_I32
       then Inl (Thrown '' Incorrect 'axes_to_reduction' input precision. Only I32 is supported!'')
       else if ib_dims idx = [] then Inl OutOfRange
       else case ib_data idx of None \<Rightarrow> Inl OutOfRange
         | Some idx_data \<Rightarrow> bindE (reduce_axes data_dims idx_data) (\<lambda>axes.
             Inr [reduce_dims keep_dims axes data_dims])))"

section \<open>Gather\<close>

definition Gather_checkShapes :: "int \<Rightarrow> SizeVector list \<Rightarrow> unit result" where
  "Gather_checkShapes axis inShapes =
     (if length inShapes \<noteq> 2 then Inl (Thrown '' Gather can take only 2 inputs, but actually it has: '')
      else if axis > 0 \<and> int (length (inShapes ! 0)) < 1 + axis \<or> axis < 0 \<and> int (length (inShapes ! 0)) + axis < 0
      then Inl (Thrown '' Incorrect input dictionary dimensions '') else Inr ())"

text \<open>Each of the three loops that fill the output is given as the pairs of a position written and the value.\<close>

definition Gather_infer :: "params \<Rightarrow> SizeVector list \<Rightarrow> SizeVector list result" where
  "Gather_infer ps inShapes =
     bindE (GetParamAsInt_or ps ''axis'' 0) (\<lambda>axis.
     bindE (Gather_checkShapes axis inShapes) (\<lambda>_.
     let dictionary = inShapes ! 0; indexes = inShapes ! 1;
         axis = nat (if axis < 0 then axis + int (length dictionary) else axis) in
     if length dictionary + length indexes = 0 then Inl (Thrown ''vector::_M_default_append'')
     else bindE (mapE (\<lambda>i. bindE (vec_at dictionary (int i)) (\<lambda>v. Inr (i, v))) [0..<axis]) (\<lambda>before.
       bindE (write_pairs before (replicate (length dictionary + length indexes - 1) 0)) (\<lambda>out.
       bindE (write_pairs (map (\<lambda>i. (i + axis, indexes ! i)) [0..<length indexes]) out) (\<lambda>out.
       bindE (write_pairs (map (\<lambda>i. (i + length indexes - 1, dictionary ! i)) [axis + 1..<length dictionary]) out) (\<lambda>out.
       Inr [out]))))))"

section \<open>Flatten\<close>

text \<open>A loop that multiplies the dimensions it copies; the last component is the output so far.\<close>

definition flatten_copy :: "SizeVector \<Rightarrow> nat list \<Rightarrow> nat \<times> SizeVector \<Rightarrow> (nat \<times> SizeVector) result" where
  "flatten_copy inputShape =
     foldE (\<lambda>i (notFlatten, outShape). bindE (vec_at inputShape (int i)) (\<lambda>d. Inr (size_t (notFlatten * d), outShape @ [d])))"

definition flatten_to :: "SizeVector \<Rightarrow> int \<Rightarrow> int \<Rightarrow> SizeVector result" where
  "flatten_to inputShape axis numAxes =
     (if numAxes = -1 \<and> axis = 0 then Inr [total_size inputShape]
      else bindE (flatten_copy inputShape (if axis > 0 then [0..<nat axis] else []) (1, [])) (\<lambda>(notFlatten, outShape).
        bindE (flatten_copy inputShape (if numAxes > 0 then [nat numAxes + 1..<length inputShape] else [])
          (notFlatten, outShape @ [1])) (\<lambda>(notFlatten, outShape).
        if notFlatten = 0 then Inl OutOfRange else vec_set outShape axis (total_size inputShape div notFlatten))))"

definition Flatten_infer :: "params \<Rightarrow> SizeVector list \<Rightarrow> SizeVector list result" where
  "Flatten_infer ps inShapes =
     bindE (Reshape_parseParams ''Flatten'' ps) (\<lambda>layer.
     bindE (Reshape_checkParams layer) (\<lambda>_.
     bindE (vec_at inShapes 0) (\<lambda>inputShape.
     bindE (flatten_to inputShape (rl_axis layer) (rl_num_axes layer)) (\<lambda>outShape. Inr [outShape]))))"

section \<open>Tile and OneHot\<close>

definition Tile_checkParams :: "params \<Rightarrow> unit result" where
  "Tile_checkParams ps =
     bindE (GetParamAsInt_or ps ''axis'' (-1)) (\<lambda>axis.
     bindE (GetParamAsInt_or ps ''tiles'' (-1)) (\<lambda>tiles.
     if axis < 0 \<and> tiles < 0 then Inl (Thrown ''The value of Tile layer parameters is invalid'') else Inr ()))"

definition Tile_infer :: "params \<Rightarrow> SizeVector list \<Rightarrow> SizeVector list result" where
  "Tile_infer ps inShapes =
     bindE (GetParamAsInt_or ps ''axis'' (-1)) (\<lambda>axis.
     bindE (GetParamAsInt_or ps ''tiles'' (-1)) (\<lambda>tiles.
     bindE (Tile_checkParams ps) (\<lambda>_.
     bindE (checkNumOfInput inShapes [1]) (\<lambda>_.
     bindE (vec_at (inShapes ! 0) axis) (\<lambda>d.
     bindE (vec_set (inShapes ! 0) axis (to_size (int d * tiles))) (\<lambda>outShape. Inr [outShape]))))))"

definition OneHot_parseParams :: "params \<Rightarrow> (nat \<times> int) result" where
  "OneHot_parseParams ps =
     (if CheckParamPresence ps ''depth'' then
        bindE (GetParamAsUInt ps ''depth'') (\<lambda>depth.
        bindE (check_float ps ''on_value'' ''1'') (\<lambda>_.
        bindE (check_float ps ''off_value'' ''0'') (\<lambda>_.
        bindE (GetParamAsInt_or ps ''axis'' (-1)) (\<lambda>axis. Inr (depth, axis)))))
      else Inl (Thrown ''The required depth parameter of OneHot layer is missing''))"

definition OneHot_infer :: "params \<Rightarrow> SizeVector list \<Rightarrow> SizeVector list result" where
  "OneHot_infer ps inShapes =
     bindE (OneHot_parseParams ps) (\<lambda>(depth, axis).
     bindE (checkNumOfInput inShapes [1]) (\<lambda>_.
     let inShape = inShapes ! 0; actual_axis = (if axis = -1 then length inShape else to_size axis) in
     bindE (mapE (\<lambda>idx. if idx < actual_axis then vec_at inShape (int idx) else if idx = actual_axis then Inr depth
         else vec_at inShape (int idx - 1)) [0..<length inShape + 1]) (\<lambda>outShape.
     Inr [outShape])))"

section \<open>Crop\<close>

record CropLayer =
  cl_axis :: "int list"
  cl_dim :: "int list"
  cl_offset :: "int list"

text \<open>\<open>getArray\<close> lets the exception of \<open>std::stoi\<close> through.\<close>

definition getArray :: "string \<Rightarrow> int list result" where
  "getArray param = mapE (\<lambda>str. case stoi str of None \<Rightarrow> Inl (Thrown ''stoi'') | Some val \<Rightarrow> Inr val) (getlines param)"

definition array_if_present :: "params \<Rightarrow> string \<Rightarrow> int list result" where
  "array_if_present ps param =
     (if CheckParamPresence ps param then bindE (GetParamAsString ps param) getArray else Inr [])"

definition Crop_parseParams :: "params \<Rightarrow> CropLayer result" where
  "Crop_parseParams ps =
     bindE (bindE (GetParamAsString ps ''axis'') getArray) (\<lambda>axis.
     bindE (array_if_present ps ''offset'') (\<lambda>offset.
     bindE (array_if_present ps ''dim'') (\<lambda>dim.
     bindE (array_if_present ps ''crop_begin'') (\<lambda>crop_begin.
     Inr \<lparr>cl_axis = axis, cl_dim = dim, cl_offset = offset @ crop_begin\<rparr>))))"

definition Crop_checkParams :: "CropLayer \<Rightarrow> unit result" where
  "Crop_checkParams layer =
     (if length (cl_axis layer) \<noteq> length (cl_offset layer)
      then Inl (Thrown ''Incorrect format of the Crop layer: number of axis doesn't match number of offset - ('') else Inr ())"

definition crop_check :: "params \<Rightarrow> CropLayer \<Rightarrow> SizeVector list \<Rightarrow> nat \<Rightarrow> unit result" where
  "crop_check ps layer inShapes i =
     (let axis = cl_axis layer ! i; offset = cl_offset layer ! i; firstShape = inShapes ! 0 in
      if length firstShape \<le> to_size axis
      then Inl (Thrown ''Crop axis should be less the number of dimensions of first input ('')
      else if length inShapes = 2 then
        if CheckParamPresence ps ''crop_begin''
        then Inl (Thrown ''Incorrect format of the Crop layer: `crop_begin` and `crop_end` attributes are valid for single input only'')
        else if length (inShapes ! 1) \<le> to_size axis
        then Inl (Thrown ''Crop axis should be less the number of dimensions of second input ('')
        else if firstShape ! nat axis < to_size (offset + int (inShapes ! 1 ! nat axis))
        then Inl (Thrown ''Incorrect crop data! Offset('') else Inr ()
      else if cl_dim layer \<noteq> [] then
        bindE (vec_at (cl_dim layer) (int i)) (\<lambda>dim.
        if firstShape ! nat axis < to_size (offset + dim) then Inl (Thrown ''Incorrect crop data! Offset('') else Inr ())
      else Inr ())"

definition Crop_checkShapes :: "params \<Rightarrow> CropLayer \<Rightarrow> SizeVector list \<Rightarrow> unit result" where
  "Crop_checkShapes ps layer inShapes =
     bindE (checkNumOfInput inShapes [1, 2]) (\<lambda>_.
     foldE (\<lambda>i _. crop_check ps layer inShapes i) [0..<length (cl_axis layer)] ())"

definition Crop_infer :: "params \<Rightarrow> SizeVector list \<Rightarrow> SizeVector list result" where
  "Crop_infer ps inShapes =
     bindE (Crop_parseParams ps) (\<lambda>layer.
     bindE (Crop_checkParams layer) (\<lambda>_.
     bindE (Crop_checkShapes ps layer inShapes) (\<lambda>_.
     if length inShapes = 2 then
       bindE (foldE (\<lambda>axis out. bindE (vec_at (inShapes ! 1) axis) (vec_set out axis)) (cl_axis layer) (inShapes ! 0)) (\<lambda>out.
       Inr [out])
     else
       let isDim = CheckParamPresence ps ''dim'' in
       bindE (if isDim then Inr [] else GetParamAsInts ps ''crop_end'') (\<lambda>crop_end.
       bindE (foldE (\<lambda>i out.
           let axis = cl_axis layer ! i in
           bindE (if isDim then vec_at (cl_dim layer) (int i)
             else bindE (vec_at (inShapes ! 0) axis) (\<lambda>d. bindE (vec_at crop_end (int i)) (\<lambda>e.
               Inr (int d - cl_offset layer ! i - e)))) (\<lambda>size.
           vec_set out axis (to_size size))) [0..<length (cl_axis layer)] (inShapes ! 0)) (\<lambda>out.
       Inr [out])))))"

section \<open>Pad\<close>

datatype PadMode = Constant | Edge | Reflect | Symmetric

record PadLayer =
  pl_begin :: "nat list"
  pl_end :: "nat list"
  pl_mode :: PadMode

definition MAX_DIMS_NUMBER :: nat where "MAX_DIMS_NUMBER = 12"

text \<open>The vectors are filled from the first axis on, so they are lists of at most \<open>MAX_DIMS_NUMBER\<close> entries.\<close>

definition property_vector :: "nat list \<Rightarrow> nat list result" where
  "property_vector vals =
     foldE (\<lambda>v pv. if length pv < MAX_DIMS_NUMBER then Inr (pv @ [v])
       else Inl (Thrown ''Layer Property insertion at(axis) should be in [0,'')) vals []"

definition pad_mode :: "string \<Rightarrow> PadMode result" where
  "pad_mode mode =
     (if mode = ''constant'' then Inr Constant else if mode = ''edge'' then Inr Edge
      else if mode = ''reflect'' then Inr Reflect else if mode = ''symmetric'' then Inr Symmetric
      else Inl (Thrown '' Unsupported pad mode operation: ''))"

definition Pad_parseParams :: "params \<Rightarrow> PadLayer result" where
  "Pad_parseParams ps =
     bindE (GetParamAsUInts ps ''pads_begin'') (\<lambda>pads_begin.
     bindE (GetParamAsUInts ps ''pads_end'') (\<lambda>pads_end.
     bindE (property_vector pads_begin) (\<lambda>pads_begin.
     bindE (property_vector pads_end) (\<lambda>pads_end.
     bindE (check_float ps ''pad_value'' ''0'') (\<lambda>_.
     bindE (pad_mode (GetParamAsString_or ps ''pad_mode'' ''constant'')) (\<lambda>mode.
     Inr \<lparr>pl_begin = pads_begin, pl_end = pads_end, pl_mode = mode\<rparr>))))))"

definition Pad_checkShapes :: "PadLayer \<Rightarrow> SizeVector list \<Rightarrow> unit result" where
  "Pad_checkShapes layer inShapes =
     bindE (checkNumOfInput inShapes [1]) (\<lambda>_.
     let inShape = inShapes ! 0 in
     if length inShape \<noteq> length (pl_begin layer) \<or> length inShape \<noteq> length (pl_end layer)
     then Inl (Thrown '' Dimensions count mismatch in layer '')
     else if pl_mode layer = Symmetric \<or> pl_mode layer = Reflect then
       foldE (\<lambda>i _. if inShape ! i < pl_begin layer ! i \<or> inShape ! i < pl_end layer ! i
         then Inl (Thrown '' Pad can't be grater than input shape in symmetric and reflect modes.'') else Inr ())
         [0..<length inShape] ()
     else Inr ())"

definition Pad_infer :: "params \<Rightarrow> SizeVector list \<Rightarrow> SizeVector list result" where
  "Pad_infer ps inShapes =
     bindE (Pad_parseParams ps) (\<lambda>layer.
     bindE (Pad_checkShapes layer inShapes) (\<lambda>_.
     Inr [map (\<lambda>i. size_t (inShapes ! 0 ! i + (pl_begin layer ! i + pl_end layer ! i) mod 2 ^ 32)) [0..<length (inShapes ! 0)]]))"

section \<open>Eltwise\<close>

datatype EltwiseOperation = Sum | Prod | Max | Sub | Min | Div | Squared_diff | Floor_mod | Pow | Equal | Not_equal
  | Less | Less_equal | Greater | Greater_equal | Logical_AND | Logical_OR | Logical_XOR | Logical_NOT | Mean

definition eltwise_operations :: "(string \<times> EltwiseOperation) list" where
  "eltwise_operations =
     [(''sum'', Sum), ('''', Sum), (''mul'', Prod), (''prod'', Prod), (''max'', Max), (''sub'', Sub), (''div'', Div), (''min'', Min),
      (''squared_diff'', Squared_diff), (''equal'', Equal), (''not_equal'', Not_equal), (''less'', Less),
      (''less_equal'', Less_equal), (''greater'', Greater), (''greater_equal'', Greater_equal), (''logical_not'', Logical_NOT),
      (''logical_and'', Logical_AND), (''logical_or'', Logical_OR), (''logical_xor'', Logical_XOR), (''floor_mod'', Floor_mod),
      (''pow'', Pow), (''mean'', Mean)]"

definition Eltwise_parseParams :: "params \<Rightarrow> EltwiseOperation result" where
  "Eltwise_parseParams ps =
     (case map_of eltwise_operations (GetParamAsString_or ps ''operation'' ''sum'') of
        None \<Rightarrow> Inl (Thrown ''Unsupported element wise operation: '')
      | Some op \<Rightarrow> bindE (check_floats ps ''coeff'') (\<lambda>_. Inr op))"

text \<open>\<open>std::vector\<close> compares by the lexicographic order, and so \<open>std::max\<close> of two vectors does.\<close>

fun vec_less :: "SizeVector \<Rightarrow> SizeVector \<Rightarrow> bool" where
  "vec_less [] ys = (ys \<noteq> [])"
| "vec_less (x # xs) [] = False"
| "vec_less (x # xs) (y # ys) = (x < y \<or> x = y \<and> vec_less xs ys)"

definition vec_max :: "SizeVector \<Rightarrow> SizeVector \<Rightarrow> SizeVector" where
  "vec_max a b = (if vec_less a b then b else a)"

definition eltwise_dims :: "SizeVector \<Rightarrow> SizeVector \<Rightarrow> SizeVector" where
  "eltwise_dims a b =
     map (\<lambda>ind. if ind < length a \<and> ind < length b then max (a ! ind) (b ! ind) else if ind \<ge> length a then b ! ind else a ! ind)
       [0..<length (vec_max a b)]"

definition Eltwise_infer :: "params \<Rightarrow> SizeVector list \<Rightarrow> SizeVector list result" where
  "Eltwise_infer ps inShapes =
     bindE (Eltwise_parseParams ps) (\<lambda>_.
     if inShapes = [] then Inl (Thrown ''Number of inputs of Eltwise layer is zero'')
     else if length inShapes = 1 then Inr [inShapes ! 0]
     else Inr [eltwise_dims (inShapes ! 0) (inShapes ! 1)])"

end
