(* ===== verification/ShapeProps.thy ===== *)
theory ShapeProps
  imports ShapeInfer
begin

text \<open>
  What shape inference gives: parts of a split add up to the whole, a reshape keeps the number of elements, squeezing
  undoes unsqueezing, and the shape of a matrix product.
\<close>

section \<open>Split and Concat\<close>

lemma sum_sizes_less: "xs \<noteq> [] \<Longrightarrow> sum_sizes xs < 2 ^ 64"
  by (cases xs rule: rev_cases) (auto simp: sum_sizes_def to_size_def)

lemma concat_sum:
  assumes "axis < length shape"
  shows "foldE (\<lambda>inShape sum. if axis \<ge> length inShape then Inl err else Inr (size_t (sum + inShape ! axis)))
     (map (\<lambda>size. shape[axis := to_size size]) xs) s = Inr (fold (\<lambda>x s. to_size (int s + x)) xs s)"
proof -
  have "size_t (s + to_size x) = to_size (int s + x)" for s x
  proof -
    have "int (size_t (s + to_size x)) = (int s + x mod 2 ^ 64) mod 2 ^ 64"
      by (simp add: size_t_def to_size_def zmod_int)
    also have "\<dots> = int (to_size (int s + x))" by (simp add: to_size_def mod_simps)
    finally show ?thesis by simp
  qed
  then show ?thesis using assms by (induction xs arbitrary: s) auto
qed

lemma concat_checks_parts:
  assumes "axis < length shape" "xs \<noteq> []"
  shows "Concat_checkShapes axis (map (\<lambda>size. shape[axis := to_size size]) xs) = Inr ()"
proof -
  obtain y ys where xs: "xs = y # ys" using assms(2) by (cases xs) auto
  have "foldE (\<lambda>s' _. if length s' \<noteq> length (shape[axis := to_size y]) then Inl e1
      else if take axis (shape[axis := to_size y]) \<noteq> take axis s' \<or> drop (axis + 1) (shape[axis := to_size y]) \<noteq> drop (axis + 1) s'
      then Inl e2 else Inr ()) (map (\<lambda>size. shape[axis := to_size size]) ys) () = Inr ()" for e1 e2 :: ie_exception
    by (induction ys) auto
  then show ?thesis using assms(1) unfolding xs by (simp add: Concat_checkShapes_def)
qed

text \<open>
  C28. Concatenating what a split layer yields gives back its input: whenever the inference for \<open>Split\<close> succeeds, the
  inference for \<open>Concat\<close> with the same parameters accepts the parts and returns the shape that was split.
\<close>

theorem concat_inverts_split:
  assumes "Split_infer ps [shape] = Inr outs"
  shows "Concat_infer ps outs = Inr [shape]"
proof -
  obtain axis out_sizes where a: "GetParamAsUInt_or ps ''axis'' 1 = Inr axis" "out_sizes \<noteq> []" "axis < length shape"
    "sum_sizes out_sizes = shape ! axis" "outs = map (\<lambda>size. shape[axis := to_size size]) out_sizes"
    using assms by (auto simp: Split_infer_def Split_parseParams_def Split_checkParams_def Split_checkShapes_def
        checkNumOfInput_def vec_at_def split: if_splits)
  then show ?thesis
    using concat_checks_parts [OF a(3,2)] concat_sum [OF a(3), of _ out_sizes 0] nth_map [of 0 out_sizes]
    by (simp add: Concat_infer_def sum_sizes_def)
qed

theorem concat_inverts_split_witness:
  "Concat_infer [(''axis'', ''2''), (''out_sizes'', ''3,5'')] [[1, 4, 3], [1, 4, 5]] = Inr [[1, 4, 8]]"
proof -
  have "Split_infer [(''axis'', ''2''), (''out_sizes'', ''3,5'')] [[1, 4, 8]] = Inr [[1, 4, 3], [1, 4, 5]]"
    by code_simp
  then show ?thesis by (rule concat_inverts_split)
qed

lemma sum_small: "\<forall>n \<in> set ns. n < 2 ^ 31 \<Longrightarrow> s + sum_list ns < 2 ^ 64 \<Longrightarrow> fold (\<lambda>x s. to_size (int s + x)) (map int ns) s = s + sum_list ns"
proof (induction ns arbitrary: s)
  case (Cons n ns)
  have "to_size (int s + int n) = s + n" using Cons.prems(2) by (simp add: to_size_def flip: of_nat_add)
  then show ?case using Cons.IH [of "s + n"] Cons.prems by (simp add: add.assoc)
qed simp

lemma foldE_append_number:
  assumes "\<forall>dims \<in> set outs. axis < length dims"
  shows "foldE (\<lambda>dims s. if length dims \<le> axis then Inl err else Inr (append_number (dims ! axis) s)) outs s =
    Inr (fold append_number (map (\<lambda>dims. dims ! axis) outs) s)"
  using assms by (induction outs arbitrary: s) auto

text \<open>
  A split layer that was validated infers its own outputs again: the parser writes the sizes of the outputs to the
  parameters as text, and the inference reads the text back and cuts the input into just these parts, when they add up to
  the input and their sizes are \<open>int\<close>s.
\<close>

theorem validated_split_infers_outputs:
  assumes "GetParamAsUInt_or ps ''axis'' 1 = Inr axis" "axis < length shape" "ns \<noteq> []" "\<forall>n \<in> set ns. n < 2 ^ 31"
    and "sum_list ns = shape ! axis" "shape ! axis < 2 ^ 64"
  shows "\<exists>ps'. Split_parseParams (map (\<lambda>n. shape[axis := n]) ns) ps = Inr (axis, ps') \<and>
    Split_infer ps' [shape] = Inr (map (\<lambda>n. shape[axis := n]) ns)"
proof -
  let ?outs = "map (\<lambda>n. shape[axis := n]) ns" and ?text = "fold append_number ns []"
  let ?ps = "(''out_sizes'', ?text) # ps"
  have nonempty: "?text \<noteq> []" using assms(3) comma_join_empty [OF numbers_ok, of ns] by (simp add: append_numbers)
  have "map (\<lambda>dims. dims ! axis) ?outs = ns" using assms(2) by (simp add: comp_def)
  then have parse: "Split_parseParams ?outs ps = Inr (axis, ?ps)"
    using assms(1,2) foldE_append_number [of ?outs axis _ "[]"] nonempty by (simp add: Split_parseParams_def del: fold_simps)
  have "GetParamAsInts_or ?ps ''out_sizes'' [] = Inr (map int ns)"
    using map_string_ints [OF assms(4)] nonempty
    by (simp add: GetParamAsInts_or_def GetParamAsString_or_def append_numbers getlines_join [OF numbers_ok])
  moreover have "GetParamAsUInt_or ?ps ''axis'' 1 = Inr axis"
    using assms(1) by (simp add: GetParamAsUInt_or_def GetParamAsString_or_def)
  moreover have "sum_sizes (map int ns) = shape ! axis" using sum_small [OF assms(4), of 0] assms(5,6) by (simp add: sum_sizes_def)
  moreover have "map (\<lambda>size. shape[axis := to_size size]) (map int ns) = ?outs"
    using assms(4) by (auto simp: to_size_def)
  ultimately have "Split_infer ?ps [shape] = Inr ?outs"
    using assms(2,3) by (simp add: Split_infer_def Split_parseParams_def Split_checkParams_def Split_checkShapes_def checkNumOfInput_def vec_at_def)
  with parse show ?thesis by blast
qed

theorem validated_split_infers_outputs_witness:
  "\<exists>ps'. Split_parseParams [[1, 3, 7], [1, 5, 7]] [] = Inr (1, ps') \<and> Split_infer ps' [[1, 8, 7]] = Inr [[1, 3, 7], [1, 5, 7]]"
proof -
  have "GetParamAsUInt_or [] ''axis'' 1 = Inr 1" by code_simp
  from validated_split_infers_outputs [OF this, of "[1, 8, 7]" "[3, 5]"] show ?thesis by simp
qed

section \<open>Reshape\<close>

definition mask_dim :: "SizeVector \<Rightarrow> nat \<times> int \<Rightarrow> nat" where
  "mask_dim dims im = (if snd im = 0 then dims ! fst im else nat (snd im))"

text \<open>A mask that the code reads within bounds: 0 copies a dimension there is, at most one entry is left open.\<close>

definition mask_ok :: "SizeVector \<Rightarrow> int list \<Rightarrow> bool" where
  "mask_ok dims ms \<longleftrightarrow> length (filter (\<lambda>m. m = -1) ms) \<le> 1 \<and> (\<forall>(i, m) \<in> set (zip [0..<length ms] ms). -1 \<le> m \<and> m < 2 ^ 31 \<and> (m = 0 \<longrightarrow> i < length dims))"

definition known_size :: "SizeVector \<Rightarrow> int list \<Rightarrow> nat" where
  "known_size dims ms = prod_list (map (mask_dim dims) (filter (\<lambda>im. snd im \<noteq> -1) (zip [0..<length ms] ms)))"

definition reshaped :: "SizeVector \<Rightarrow> int list \<Rightarrow> nat \<Rightarrow> SizeVector" where
  "reshaped dims ms new = map (\<lambda>im. if snd im = -1 then new else mask_dim dims im) (zip [0..<length ms] ms)"

lemma total_size_mod: "total_size dims = size_t (prod_list dims)"
proof -
  have "p < 2 ^ 64 \<Longrightarrow> fold (\<lambda>d p. size_t (p * d)) dims p = size_t (p * prod_list dims)" for p
  proof (induction dims arbitrary: p)
    case (Cons d dims)
    then show ?case by (simp add: size_t_def mod_simps mult.assoc)
  qed (simp add: size_t_def)
  from this [of 1] show ?thesis by (simp add: total_size_def)
qed

lemma to_size_mult: "0 \<le> m \<Longrightarrow> to_size (int r * m) = size_t (r * nat m)"
  by (cases m) (simp_all add: to_size_def size_t_def nat_mod_distrib flip: of_nat_mult)

lemma reshape_known_mod:
  assumes "\<forall>(i, m) \<in> set ims. -1 \<le> m \<and> (m = 0 \<longrightarrow> i < length dims)" "r < 2 ^ 64"
  shows "foldE (\<lambda>(i, m) res.
       if m = 0 then bindE (vec_at dims (int i)) (\<lambda>d. Inr (size_t (res * d)))
       else if m \<noteq> -1 then Inr (to_size (int res * m)) else Inr res) ims r =
    Inr (size_t (r * prod_list (map (mask_dim dims) (filter (\<lambda>im. snd im \<noteq> -1) ims))))"
  using assms
proof (induction ims arbitrary: r)
  case (Cons im ims)
  obtain i m where im: "im = (i, m)" by force
  have less: "size_t x < 2 ^ 64" for x by (simp add: size_t_def)
  have mod: "size_t (size_t x * y) = size_t (x * y)" for x y by (simp add: size_t_def mod_simps)
  consider "m = 0" "i < length dims" | "m = -1" | "0 < m" using Cons.prems(1) im by fastforce
  then show ?case
  proof cases
    case 1
    then show ?thesis using Cons.IH [OF _ less] Cons.prems(1) im by (simp add: vec_at_def mod mask_dim_def mult.assoc)
  next
    case 2
    then show ?thesis using Cons im by simp
  next
    case 3
    then show ?thesis using Cons.IH [OF _ less] Cons.prems(1) im by (simp add: to_size_mult mod mask_dim_def mult.assoc)
  qed
qed (simp add: size_t_def)

lemma reshape_out_ok:
  assumes "mask_ok dims ms"
  shows "reshape_out dims ms new = Inr (reshaped dims ms new)"
  unfolding reshape_out_def reshaped_def
proof (rule mapE_Inr)
  fix im assume "im \<in> set (zip [0..<length ms] ms)"
  then have "-1 \<le> snd im \<and> snd im < 2 ^ 31 \<and> (snd im = 0 \<longrightarrow> fst im < length dims)" using assms unfolding mask_ok_def by fastforce
  then show "(case im of (i, m) \<Rightarrow> if m = 0 then vec_at dims (int i) else Inr (if m = -1 then new else to_size m)) =
      Inr (if snd im = -1 then new else mask_dim dims im)"
    by (cases im) (auto simp: mask_dim_def vec_at_def to_size_def)
qed

lemma reshaped_size:
  assumes "mask_ok dims ms"
  shows "prod_list (reshaped dims ms new) = known_size dims ms * (if -1 \<in> set ms then new else 1)"
proof -
  have "prod_list (map (\<lambda>im. if snd im = -1 then new else mask_dim dims im) ims) =
      prod_list (map (mask_dim dims) (filter (\<lambda>im. snd im \<noteq> -1) ims)) * new ^ length (filter (\<lambda>im. snd im = -1) ims)" for ims
    by (induction ims) (auto simp: algebra_simps)
  moreover have "length (filter (\<lambda>im. snd im = -1) (zip [0..<length ms] ms)) = length (filter (\<lambda>m. m = -1) ms)"
    by (metis (no_types, lifting) comp_apply filter_cong filter_map length_map length_upt map_snd_zip minus_nat.diff_0)
  moreover have "length (filter (\<lambda>m. m = -1) ms) = (if -1 \<in> set ms then 1 else 0)"
    using assms filter_empty_conv [of "\<lambda>m. m = -1" ms] unfolding mask_ok_def by (auto simp: le_Suc_eq)
  ultimately show ?thesis by (simp add: reshaped_def known_size_def)
qed

lemma Reshape_checkParams_ok:
  assumes "mask_ok dims ms"
  shows "Reshape_checkParams \<lparr>rl_shape = ms, rl_axis = a, rl_num_axes = n\<rparr> = Inr ()"
proof -
  have "\<forall>m \<in> set ms. -1 \<le> m" using assms unfolding mask_ok_def by (fastforce simp: in_set_zip in_set_conv_nth)
  then have "foldE (\<lambda>dim num. if dim < -1 then Inl err else Inr (if dim = -1 then num + 1 else num)) ms k =
      Inr (k + length (filter (\<lambda>m. m = -1) ms))" for err and k :: nat
    by (induction ms arbitrary: k) auto
  then show ?thesis using assms by (simp add: Reshape_checkParams_def mask_ok_def)
qed

text \<open>
  C29. \<open>Reshape\<close> by a mask of its parameters accepts a shape just when the number of elements works out: with an open
  entry the sizes that are known must divide it, and the quotient is filled in; without one they must multiply to it.
  Otherwise it throws. (The mask has at most one open entry and copies only axes the input has, the known sizes are not zero and
  the products stay below \<open>2^64\<close>.)
\<close>

theorem reshape_keeps_elements:
  assumes "ps \<noteq> []" "type \<noteq> ''Flatten''" "GetParamAsInts_or ps ''dim'' [] = Inr ms" "ms \<noteq> []"
    and m: "mask_ok (ib_dims b) ms" and less: "prod_list (ib_dims b) < 2 ^ 64" "0 < known_size (ib_dims b) ms" "known_size (ib_dims b) ms < 2 ^ 64"
  shows "Reshape_infer type ps [b] =
    (if (if -1 \<in> set ms then known_size (ib_dims b) ms dvd prod_list (ib_dims b) else known_size (ib_dims b) ms = prod_list (ib_dims b))
     then Inr [reshaped (ib_dims b) ms (prod_list (ib_dims b) div known_size (ib_dims b) ms)]
     else Inl (Thrown ''Invalid reshape mask (dim attribute): number of elements mismatch''))"
proof -
  let ?dims = "ib_dims b"
  let ?T = "prod_list ?dims" and ?K = "known_size ?dims ms"
  have T: "total_size ?dims = ?T" using less(1) by (simp add: total_size_mod size_t_def)
  have "\<forall>(i, m) \<in> set (zip [0..<length ms] ms). -1 \<le> m \<and> (m = 0 \<longrightarrow> i < length ?dims)" using m unfolding mask_ok_def by blast
  from reshape_known_mod [OF this, of 1] have K: "reshape_known ?dims ms = Inr ?K"
    using less(3) by (simp add: reshape_known_def known_size_def size_t_def)
  have "?K * (?T div ?K) < 2 ^ 64" using times_div_less_eq_dividend less(1) by (rule le_less_trans)
  then have "total_size (reshaped ?dims ms (?T div ?K)) = ?K * (if -1 \<in> set ms then ?T div ?K else 1)"
    using less reshaped_size [OF m] by (simp add: total_size_mod size_t_def)
  moreover have "?T = ?K * (?T div ?K) \<longleftrightarrow> ?K dvd ?T" by (metis dvd_mult_div_cancel dvd_triv_left)
  ultimately have "reshape_to ?dims ms =
      (if (if -1 \<in> set ms then ?K dvd ?T else ?K = ?T) then Inr (reshaped ?dims ms (?T div ?K))
       else Inl (Thrown ''Invalid reshape mask (dim attribute): number of elements mismatch''))"
    using assms(4) K less(2) reshape_out_ok [OF m] by (simp add: reshape_to_def T)
  then show ?thesis
    using assms(1-3) Reshape_checkParams_ok [OF m]
    by (simp add: Reshape_infer_def Reshape_parseParams_def reshape_mask_def vec_at_def)
qed

theorem reshape_keeps_elements_witness:
  "Reshape_infer ''Reshape'' [(''dim'', ''0,-1,4'')] [\<lparr>ib_dims = [2, 6, 8], ib_precision = P_FP32, ib_data = None\<rparr>] = Inr [[2, 12, 4]]"
proof -
  let ?b = "\<lparr>ib_dims = [2, 6, 8], ib_precision = P_FP32, ib_data = None\<rparr>"
  have "GetParamAsInts_or [(''dim'', ''0,-1,4'')] ''dim'' [] = Inr [0, -1, 4]" by code_simp
  moreover have "mask_ok (ib_dims ?b) [0, -1, 4]" by (simp add: mask_ok_def upt_rec)
  moreover have "known_size (ib_dims ?b) [0, -1, 4] = 8" "reshaped (ib_dims ?b) [0, -1, 4] 12 = [2, 12, 4]"
    by (simp_all add: known_size_def reshaped_def mask_dim_def upt_rec)
  ultimately show ?thesis
    using reshape_keeps_elements [of "[(''dim'', ''0,-1,4'')]" "''Reshape''" "[0, -1, 4]" ?b] by simp
qed

section \<open>Gemm\<close>

lemma gemm_batch:
  assumes "length b0 = length b1"
  shows "mapE (gemm_batch_dim [b0 @ c0, b1 @ c1]) [0..<length b0] = Inr (map2 max b0 b1)"
proof -
  have "mapE (gemm_batch_dim [b0 @ c0, b1 @ c1]) [0..<length b0] = Inr (map (\<lambda>i. max (b0 ! i) (b1 ! i)) [0..<length b0])"
    using assms by (intro mapE_Inr) (auto simp: gemm_batch_dim_def vec_at_def nth_append max_def)
  also have "map (\<lambda>i. max (b0 ! i) (b1 ! i)) [0..<length b0] = map2 max b0 b1"
    using assms by (intro nth_equalityI) auto
  finally show ?thesis .
qed

text \<open>
  C30. The shape of a matrix product: for operands of the same rank whose inner sizes agree, the batch is the larger of
  the two in every dimension, and the matrix has the rows of the first and the columns of the second operand when both or
  neither are transposed. When exactly one is transposed, the matrix inferred is square with the inner size on both sides,
  since the axes of the two operands are taken from each other's flags.
\<close>

theorem gemm_infers_shape:
  assumes "Gemm_parseParams ps = Inr (ta, tb)" "length b0 = length b1"
    and "(if ta then y0 else x0) = inner" "(if tb then x1 else y1) = inner"
  shows "Gemm_infer ps [b0 @ [y0, x0], b1 @ [y1, x1]] =
    Inr [map2 max b0 b1 @ (if ta = tb then [if ta then x0 else y0, if tb then y1 else x1] else [inner, inner])]"
proof -
  have "Gemm_checkShapes ta tb [b0 @ [y0, x0], b1 @ [y1, x1]] = Inr ()"
    using assms(2-4) by (cases ta; cases tb; simp add: Gemm_checkShapes_def checkNumOfInput_def nth_append Let_def)
  moreover have "vec_at (b0 @ [y0, x0]) (int (if tb then Suc (length b1) else length b1)) = Inr (if tb then x0 else y0)"
    "vec_at (b1 @ [y1, x1]) (int (if ta then length b0 else Suc (length b0))) = Inr (if ta then y1 else x1)"
    using assms(2) by (auto simp: vec_at_def nth_append)
  ultimately show ?thesis
    using assms gemm_batch [OF assms(2), of "[y0, x0]" "[y1, x1]"] by (auto simp: Gemm_infer_def Let_def)
qed

theorem gemm_infers_shape_witness:
  "Gemm_infer [(''transpose_a'', ''true'')] [[4, 3, 7], [2, 3, 5]] = Inr [[4, 3, 3]]"
proof -
  have "Gemm_parseParams [(''transpose_a'', ''true'')] = Inr (True, False)" by code_simp
  from gemm_infers_shape [OF this, of "[4]" "[2]" 3 7 3 5 3] show ?thesis by simp
qed

section \<open>Squeeze and Unsqueeze\<close>

lemma unsqueeze_loop_ok:
  assumes "sorted_wrt (<) idx" "\<forall>x \<in> set idx. int i \<le> x \<and> x < int (i + n)" "n = length idx + length dims" "i + n < 2 ^ 64"
  shows "\<exists>s. unsqueeze_loop n i idx dims = Inr s \<and> length s = n \<and> (\<forall>j < n. int (i + j) \<in> set idx \<longrightarrow> s ! j = 1) \<and>
    map (\<lambda>j. s ! j) (filter (\<lambda>j. int (i + j) \<notin> set idx) [0..<n]) = dims"
  using assms
proof (induction n arbitrary: i idx dims)
  case (Suc n)
  have upt: "[0..<Suc n] = 0 # map Suc [0..<n]" by (simp add: upt_conv_Cons map_Suc_upt)
  have to_size: "to_size x = nat x" if "x \<in> set idx" for x
    using Suc.prems(2,4) that by (fastforce simp: to_size_def)
  show ?case
  proof (cases "idx \<noteq> [] \<and> i = to_size (hd idx)")
    case True
    then obtain x xs where x: "idx = x # xs" by (cases idx) auto
    have "int i \<le> x" "nat x = i" using True to_size [of x] Suc.prems(2) unfolding x by auto
    then have xi: "x = int i" by simp
    have "\<forall>y \<in> set xs. int (i + 1) \<le> y \<and> y < int (i + 1 + n)" using Suc.prems(1,2) unfolding x xi by auto
    then obtain s where s: "unsqueeze_loop n (i + 1) xs dims = Inr s" "length s = n"
      "\<forall>j < n. int (i + 1 + j) \<in> set xs \<longrightarrow> s ! j = 1" "map (\<lambda>j. s ! j) (filter (\<lambda>j. int (i + 1 + j) \<notin> set xs) [0..<n]) = dims"
      using Suc.IH [of xs "i + 1" dims] Suc.prems unfolding x by auto
    have "unsqueeze_loop (Suc n) i idx dims = Inr (1 # s)" using True s(1) unfolding x by simp
    moreover have "\<forall>j < Suc n. int (i + j) \<in> set idx \<longrightarrow> (1 # s) ! j = 1"
      using s(3) unfolding x xi by (auto simp: nth_Cons add.left_commute split: nat.split)
    moreover have "map (\<lambda>j. (1 # s) ! j) (filter (\<lambda>j. int (i + j) \<notin> set idx) [0..<Suc n]) = dims"
      using s(4) unfolding upt x xi by (simp add: filter_map comp_def add.left_commute)
    ultimately show ?thesis using s(2) by (intro exI [of _ "1 # s"]) simp
  next
    case False
    have above: "\<forall>y \<in> set idx. int (i + 1) \<le> y \<and> y < int (i + 1 + n)"
    proof
      fix y assume y: "y \<in> set idx"
      then obtain x xs where x: "idx = x # xs" by (cases idx) auto
      have "int i \<le> x" "nat x \<noteq> i" using Suc.prems(2) False to_size [of x] unfolding x by auto
      then have "int i < x" by auto
      then show "int (i + 1) \<le> y \<and> y < int (i + 1 + n)" using y Suc.prems(1,2) unfolding x by auto
    qed
    have "length idx = card (set idx)" using Suc.prems(1) by (simp add: distinct_card strict_sorted_iff)
    also have "\<dots> \<le> card {int (i + 1)..<int (i + 1 + n)}" using above by (intro card_mono) auto
    finally obtain d ds where dims: "dims = d # ds" using Suc.prems(3) by (cases dims) auto
    obtain s where s: "unsqueeze_loop n (i + 1) idx ds = Inr s" "length s = n"
      "\<forall>j < n. int (i + 1 + j) \<in> set idx \<longrightarrow> s ! j = 1" "map (\<lambda>j. s ! j) (filter (\<lambda>j. int (i + 1 + j) \<notin> set idx) [0..<n]) = ds"
      using Suc.IH [of idx "i + 1" ds] Suc.prems above unfolding dims by auto
    have "unsqueeze_loop (Suc n) i idx dims = Inr (d # s)" using False s(1) unfolding dims by auto
    moreover have i: "int i \<notin> set idx" using above by auto
    have "\<forall>j < Suc n. int (i + j) \<in> set idx \<longrightarrow> (d # s) ! j = 1"
      using s(3) i by (auto simp: nth_Cons add.left_commute split: nat.split)
    moreover have "map (\<lambda>j. (d # s) ! j) (filter (\<lambda>j. int (i + j) \<notin> set idx) [0..<Suc n]) = dims"
      using s(4) i unfolding upt dims by (simp add: filter_map comp_def add.left_commute)
    ultimately show ?thesis using s(2) by (intro exI [of _ "d # s"]) simp
  qed
qed auto

lemma to_size_nat: "0 \<le> i \<Longrightarrow> i < 2 ^ 64 \<Longrightarrow> to_size i = nat i"
  by (simp add: to_size_def)

text \<open>Indices of axes, counted from the end when they are negative.\<close>

definition in_rank :: "nat \<Rightarrow> int list \<Rightarrow> bool" where
  "in_rank n idx \<longleftrightarrow> (\<forall>x \<in> set idx. - int n \<le> x \<and> x < int n)"

definition axis_of :: "nat \<Rightarrow> int \<Rightarrow> nat" where
  "axis_of n x = nat (if x < 0 then x + int n else x)"

lemma squeeze_indices_ones:
  assumes "in_rank (length dims) idx" "length dims < 2 ^ 31" "\<forall>x \<in> set idx. dims ! axis_of (length dims) x = 1"
  shows "squeeze_indices dims idx =
    Inr (map (\<lambda>j. dims ! j) (filter (\<lambda>j. j \<notin> axis_of (length dims) ` set idx) [0..<length dims]))"
proof -
  have ax: "to_size (squeeze_axis dims x) = axis_of (length dims) x \<and> 0 \<le> squeeze_axis dims x \<and>
      squeeze_axis dims x < int (length dims) \<and> nat (squeeze_axis dims x) = axis_of (length dims) x" if "x \<in> set idx" for x
  proof -
    have "- int (length dims) \<le> x" "x < int (length dims)" using assms(1) that by (auto simp: in_rank_def)
    then show ?thesis using assms(2) by (auto simp: squeeze_axis_def axis_of_def to_size_nat)
  qed
  have "foldE (\<lambda>x _. let axis = squeeze_axis dims x in
       if to_size axis > length dims then Inl (Thrown ''Index to squeeze exceeds data tensor dimension'')
       else bindE (vec_at dims axis) (\<lambda>d.
         if d \<noteq> 1 then Inl (Thrown ''Index to squeeze of data tensor dimension is not 1'') else Inr ())) idx () = Inr ()"
    by (rule foldE_unit) (use ax assms(3) in \<open>force simp: Let_def vec_at_def\<close>)
  moreover have "list_ex (\<lambda>x. j = to_size (squeeze_axis dims x)) idx \<longleftrightarrow> j \<in> axis_of (length dims) ` set idx" for j
    using ax by (auto simp: list_ex_iff)
  ultimately show ?thesis by (simp add: squeeze_indices_def)
qed

lemma squeeze_indices_ok:
  assumes "\<forall>x \<in> set idx. 0 \<le> x \<and> x < int (length s) \<and> s ! nat x = 1" "length s < 2 ^ 31"
  shows "squeeze_indices s idx = Inr (map (\<lambda>j. s ! j) (filter (\<lambda>j. int j \<notin> set idx) [0..<length s]))"
proof -
  have "axis_of (length s) x = nat x" if "x \<in> set idx" for x using assms(1) that by (fastforce simp: axis_of_def)
  moreover from this have "j \<in> axis_of (length s) ` set idx \<longleftrightarrow> int j \<in> set idx" for j
    using assms(1) by (force simp: image_iff)
  moreover have "in_rank (length s) idx" using assms(1) by (fastforce simp: in_rank_def)
  ultimately show ?thesis using squeeze_indices_ones[of s idx] assms by simp
qed

lemma max_axis: "\<forall>x \<in> set idx. to_size x \<le> b \<Longrightarrow> m \<le> b \<Longrightarrow> fold (\<lambda>x m. max m (to_size x)) idx m \<le> b"
  by (induction idx arbitrary: m) auto

text \<open>
  C31. \<open>Squeeze\<close> undoes \<open>Unsqueeze\<close>: for indices in ascending order within the rank of the result, \<open>Unsqueeze\<close> succeeds with a
  shape of that rank, and squeezing it by the same indices gives back the dimensions it started from.
\<close>

theorem squeeze_undoes_unsqueeze:
  assumes "sorted_wrt (<) idx" "\<forall>x \<in> set idx. 0 \<le> x \<and> x < int (length idx + length (ib_dims b))" "idx \<noteq> []" "ib_dims b \<noteq> []"
    and "length idx + length (ib_dims b) < 2 ^ 31" "p \<in> {P_FP32, P_FP16, P_I32}"
    and ib: "ib = \<lparr>ib_dims = [length idx], ib_precision = p, ib_data = Some idx\<rparr>"
  shows "\<exists>s. Unsqueeze_infer [b, ib] = Inr [s] \<and> length s = length idx + length (ib_dims b) \<and>
    Squeeze_infer [b\<lparr>ib_dims := s\<rparr>, ib] = Inr [ib_dims b]"
proof -
  let ?n = "length idx + length (ib_dims b)"
  obtain s where s: "unsqueeze_loop ?n 0 idx (ib_dims b) = Inr s" "length s = ?n"
    "\<forall>j < ?n. int j \<in> set idx \<longrightarrow> s ! j = 1" "map (\<lambda>j. s ! j) (filter (\<lambda>j. int j \<notin> set idx) [0..<?n]) = ib_dims b"
    using unsqueeze_loop_ok [OF assms(1), of 0 ?n "ib_dims b"] assms(2,5) by auto
  have "\<forall>x \<in> set idx. to_size x \<le> ?n - 1" using assms(2,5) by (fastforce simp: to_size_def)
  moreover have "length (ib_dims b) \<le> ?n - 1" using assms(3) by (cases idx) auto
  ultimately have "fold (\<lambda>x m. max m (to_size x)) idx (length (ib_dims b)) \<le> ?n - 1" by (rule max_axis)
  then have "size_t (fold (\<lambda>x m. max m (to_size x)) idx (length (ib_dims b)) + 1) \<le> ?n"
    using assms(3,5) by (cases idx) (auto simp: size_t_def)
  then have "unsqueeze_indices (ib_dims b) idx = Inr s" using s(1) by (simp add: unsqueeze_indices_def Let_def)
  then have "Unsqueeze_infer [b, ib] = Inr [s]"
    using assms(6) by (simp add: Unsqueeze_infer_def Unsqueeze_checkShapes_def ib Let_def)
  moreover have "\<forall>x \<in> set idx. 0 \<le> x \<and> x < int (length s) \<and> s ! nat x = 1" using assms(2) s(2,3) by fastforce
  then have "squeeze_indices s idx = Inr (ib_dims b)" using squeeze_indices_ok [of idx s] s(2,4) assms(5) by simp
  then have "Squeeze_infer [b\<lparr>ib_dims := s\<rparr>, ib] = Inr [ib_dims b]"
    using assms(4,6) s(2) by (simp add: Squeeze_infer_def Squeeze_checkShapes_def ib Let_def)
  ultimately show ?thesis using s(2) by blast
qed

theorem squeeze_undoes_unsqueeze_witness:
  "\<exists>s. Unsqueeze_infer [\<lparr>ib_dims = [6, 8], ib_precision = P_FP32, ib_data = None\<rparr>,
       \<lparr>ib_dims = [2], ib_precision = P_I32, ib_data = Some [0, 3]\<rparr>] = Inr [s] \<and> length s = 4"
proof -
  let ?b = "\<lparr>ib_dims = [6, 8], ib_precision = P_FP32, ib_data = None\<rparr>" and ?ib = "\<lparr>ib_dims = [2], ib_precision = P_I32, ib_data = Some [0, 3 :: int]\<rparr>"
  have "\<exists>s. Unsqueeze_infer [?b, ?ib] = Inr [s] \<and> length s = length [0, 3 :: int] + length (ib_dims ?b) \<and>
      Squeeze_infer [?b\<lparr>ib_dims := s\<rparr>, ?ib] = Inr [ib_dims ?b]"
    by (rule squeeze_undoes_unsqueeze [where p = P_I32]) simp_all
  then show ?thesis by (elim exE conjE) (rule exI, rule conjI, assumption, simp)
qed

end
