(* ===== verification/ShapeAxesProps.thy ===== *)
theory ShapeAxesProps
  imports ShapeAxes ShapeProps
begin

text \<open>
  Properties of the shape inference of \<open>ShapeAxes\<close>: pairs of layers that undo each other, layers that can be put
  together from others, and the in-place loops against plain descriptions of their result.
\<close>

section \<open>Shared facts\<close>

lemma concat_map_single: "concat (map (\<lambda>i. if P i then if keep then [c] else [] else [f i]) xs) =
    (if keep then map (\<lambda>i. if P i then c else f i) xs else map f (filter (\<lambda>i. \<not> P i) xs))"
  by (induction xs) auto

section \<open>Blocks of space and depth\<close>

text \<open>
  \<open>DepthToSpace\<close> undoes \<open>SpaceToDepth\<close>: what the one infers from an accepted shape is accepted by the other with the
  same block, and gives back the shape, when the sizes are 64-bit numbers and the channels do not overflow.
\<close>

theorem depth_to_space_undoes_space_to_depth:
  assumes "SpaceToDepth_infer ps [shape] = Inr [out]" "GetParamAsUInt_or ps ''block_size'' 1 = Inr b"
    and "\<forall>d \<in> set shape. d < 2 ^ 64" "b * b < 2 ^ 32" "shape ! (length shape - 3) * b * b < 2 ^ 64"
  shows "DepthToSpace_infer ps [out] = Inr [shape]"
proof -
  let ?n = "length shape"
  have s: "3 \<le> ?n" "b \<noteq> 0" "b dvd shape ! (?n - 1)" "b dvd shape ! (?n - 2)"
    "out = shape[?n - 1 := shape ! (?n - 1) div b, ?n - 2 := shape ! (?n - 2) div b,
       ?n - 3 := size_t (size_t (shape ! (?n - 3) * b) * b)]"
    using assms(1,2) by (auto simp: SpaceToDepth_infer_def SpaceToDepth_checkShapes_def Let_def split: if_splits)
  have "shape ! (?n - 3) * b \<le> shape ! (?n - 3) * b * b" using s(2) by simp
  then have "shape ! (?n - 3) * b < 2 ^ 64" using assms(5) by (rule le_less_trans)
  then have "size_t (shape ! (?n - 3) * b) = shape ! (?n - 3) * b" by (simp add: size_t_def)
  then have c: "size_t (size_t (shape ! (?n - 3) * b) * b) = shape ! (?n - 3) * (b * b)"
    using assms(5) by (simp only: size_t_def mod_less mult.assoc)
  have idx: "?n - 1 \<noteq> ?n - 2" "?n - 1 \<noteq> ?n - 3" "?n - 2 \<noteq> ?n - 3" using s(1) by auto
  have o: "length out = ?n" "out ! (?n - 1) = shape ! (?n - 1) div b" "out ! (?n - 2) = shape ! (?n - 2) div b"
    "out ! (?n - 3) = shape ! (?n - 3) * (b * b)"
    using s(1) idx unfolding s(5) c by auto
  have less: "shape ! (?n - 1) < 2 ^ 64" "shape ! (?n - 2) < 2 ^ 64" using assms(3) s(1) by auto
  have "out[?n - 1 := shape ! (?n - 1), ?n - 2 := shape ! (?n - 2), ?n - 3 := shape ! (?n - 3)] = shape"
    using s(1) idx unfolding s(5) by (intro nth_equalityI) (auto simp: nth_list_update)
  then show ?thesis
    using s(1,2,3,4) o less assms(2,4)
    by (simp add: DepthToSpace_infer_def DepthToSpace_checkShapes_def Let_def size_t_def div_mult2_eq[symmetric])
qed

section \<open>Reduction\<close>

lemma reduce_axes_in_rank:
  assumes "in_rank (length dims) idx" "length dims < 2 ^ 31"
  shows "reduce_axes dims idx = Inr (map (axis_of (length dims)) idx)"
  unfolding reduce_axes_def
proof (rule mapE_Inr)
  fix x assume "x \<in> set idx"
  then have "- int (length dims) \<le> x" "x < int (length dims)" using assms(1) by (auto simp: in_rank_def)
  then show "(let axis = (if x < 0 then x + int (length dims) else x) in
       if to_size axis > length dims then Inl (Thrown '' Index to reduce exceeds data tensor dimension'')
       else Inr (to_size axis)) = Inr (axis_of (length dims) x)"
    using assms(2) by (auto simp: axis_of_def to_size_nat Let_def)
qed

text \<open>
  C32. A reduction can be done in two steps: reducing with \<open>keep_dims\<close> and squeezing the reduced axes gives the shape that
  reducing without \<open>keep_dims\<close> infers at once, for every list of axes that is shorter than the rank and names axes within the rank,
  negative ones and repeated ones included. (The rank is below \<open>2^31\<close>. With as many axes as there are dimensions the second step
  fails: Squeeze throws when the list of axes is not shorter than the shape.)
\<close>

theorem reduce_is_keep_then_squeeze:
  assumes "GetParamAsBool_or ps ''keep_dims'' True = Inr True" "GetParamAsBool_or ps' ''keep_dims'' True = Inr False"
    and "\<forall>x \<in> set idx. - int (length (ib_dims b)) \<le> x \<and> x < int (length (ib_dims b))" "length (ib_dims b) < 2 ^ 31"
    and "length idx < length (ib_dims b)"
    and ib: "ib = \<lparr>ib_dims = [length idx], ib_precision = P_I32, ib_data = Some idx\<rparr>"
  shows "\<exists>kept. Reduce_infer ps [b, ib] = Inr [kept] \<and> length kept = length (ib_dims b) \<and>
    Reduce_infer ps' [b, ib] = Squeeze_infer [b\<lparr>ib_dims := kept\<rparr>, ib]"
proof -
  let ?dims = "ib_dims b" and ?axes = "map (axis_of (length (ib_dims b))) idx"
  let ?kept = "reduce_dims True ?axes ?dims"
  have rank: "in_rank (length ?dims) idx" using assms(3) by (simp add: in_rank_def)
  note axes = reduce_axes_in_rank[OF rank assms(4)]
  have kept: "?kept = map (\<lambda>i. if i \<in> set ?axes then 1 else ?dims ! i) [0..<length ?dims]"
    by (simp add: reduce_dims_def concat_map_single)
  then have len: "length ?kept = length ?dims" by simp
  have inside: "axis_of (length ?dims) x < length ?dims" if "x \<in> set idx" for x
    using rank that by (auto simp: in_rank_def axis_of_def)
  have "squeeze_indices ?kept idx =
      Inr (map (\<lambda>j. ?kept ! j) (filter (\<lambda>j. j \<notin> axis_of (length ?dims) ` set idx) [0..<length ?dims]))"
    using squeeze_indices_ones[of ?kept idx] rank assms(4) inside unfolding len by (simp add: kept)
  also have "map (\<lambda>j. ?kept ! j) (filter (\<lambda>j. j \<notin> axis_of (length ?dims) ` set idx) [0..<length ?dims]) =
      reduce_dims False ?axes ?dims"
    by (auto simp: kept reduce_dims_def concat_map_single)
  finally have "Squeeze_infer [b\<lparr>ib_dims := ?kept\<rparr>, ib] = Inr [reduce_dims False ?axes ?dims]"
    using assms(5) by (simp add: ib Squeeze_infer_def Squeeze_checkShapes_def Let_def len)
  moreover have "Reduce_infer ps [b, ib] = Inr [?kept]" "Reduce_infer ps' [b, ib] = Inr [reduce_dims False ?axes ?dims]"
    using assms(1,2) axes by (simp_all add: Reduce_infer_def Reduce_checkShapes_def ib Let_def)
  ultimately show ?thesis using len by auto
qed

theorem reduce_is_keep_then_squeeze_witness:
  "\<exists>kept. Reduce_infer [(''keep_dims'', ''True'')] [\<lparr>ib_dims = [6, 8, 4], ib_precision = P_FP32, ib_data = None\<rparr>,
       \<lparr>ib_dims = [2], ib_precision = P_I32, ib_data = Some [-1, 0]\<rparr>] = Inr [kept] \<and> length kept = 3"
proof -
  let ?b = "\<lparr>ib_dims = [6, 8, 4], ib_precision = P_FP32, ib_data = None\<rparr>"
  let ?ib = "\<lparr>ib_dims = [2], ib_precision = P_I32, ib_data = Some [-1, 0 :: int]\<rparr>"
  have bools: "GetParamAsBool_or [(''keep_dims'', ''True'')] ''keep_dims'' True = Inr True"
    "GetParamAsBool_or [(''keep_dims'', ''false'')] ''keep_dims'' True = Inr False"
    by code_simp+
  have "\<exists>kept. Reduce_infer [(''keep_dims'', ''True'')] [?b, ?ib] = Inr [kept] \<and> length kept = length (ib_dims ?b) \<and>
      Reduce_infer [(''keep_dims'', ''false'')] [?b, ?ib] = Squeeze_infer [?b\<lparr>ib_dims := kept\<rparr>, ?ib]"
    by (rule reduce_is_keep_then_squeeze[where idx = "[-1, 0]", OF bools]) simp_all
  then show ?thesis by (elim exE conjE) (rule exI, rule conjI, assumption, simp)
qed

section \<open>Crop and Pad\<close>

lemma property_vector_Inr: "property_vector vals = Inr pv \<Longrightarrow> pv = vals \<and> length vals \<le> MAX_DIMS_NUMBER"
proof -
  have "foldE (\<lambda>v pv. if length pv < MAX_DIMS_NUMBER then Inr (pv @ [v]) else Inl e) vals acc = Inr pv \<Longrightarrow>
      length acc \<le> MAX_DIMS_NUMBER \<Longrightarrow> pv = acc @ vals \<and> length (acc @ vals) \<le> MAX_DIMS_NUMBER" for acc e
  proof (induction vals arbitrary: acc)
    case (Cons v vals)
    then show ?case using Cons.IH[of "acc @ [v]"] by (auto split: if_splits)
  qed simp
  from this[of _ "[]"] show "property_vector vals = Inr pv \<Longrightarrow> ?thesis" by (auto simp: property_vector_def)
qed

text \<open>A text that is a list of unsigned numbers is the same list of numbers when it is read by the other accessors.\<close>

lemma stoi_less: "stoi s = Some v \<Longrightarrow> v < 2 ^ 31"
  by (auto simp: stoi_def Let_def split: prod.splits if_splits)

lemma parse_uint_stoi: "parse_uint s = Inr n \<Longrightarrow> stoi s = Some (int n) \<and> n < 2 ^ 31"
  using stoi_less[of s] by (auto simp: parse_uint_def cannot_parse_def split: option.splits if_splits)

lemma mapE_uints:
  assumes "mapE parse_uint xs = Inr ns"
  shows "mapE parse_int xs = Inr (map int ns)"
    and "mapE (\<lambda>str. case stoi str of None \<Rightarrow> Inl e | Some val \<Rightarrow> Inr val) xs = Inr (map int ns)"
    and "\<forall>n \<in> set ns. n < 2 ^ 31"
  using assms by (induction xs arbitrary: ns) (auto simp: parse_int_def dest!: parse_uint_stoi)

lemma uints_read_alike:
  assumes "GetParamAsUInts ps a = Inr ns" "map_of ps' a' = map_of ps a"
  shows "GetParamAsInts ps' a' = Inr (map int ns)" "array_if_present ps' a' = Inr (map int ns)" "\<forall>n \<in> set ns. n < 2 ^ 31"
  using assms mapE_uints by (auto simp: GetParamAsUInts_def GetParamAsInts_def GetParamAsString_def array_if_present_def
      CheckParamPresence_def getArray_def split: option.splits)

lemma append_numbers_read: "\<forall>n \<in> set ns. n < 2 ^ 31 \<Longrightarrow> getArray (fold append_number ns []) = Inr (map int ns)"
  unfolding append_numbers getArray_def getlines_join[OF numbers_ok]
  by (induction ns) (auto simp: stoi_nat_string)

text \<open>
  C33. \<open>Crop\<close> undoes \<open>Pad\<close>: when the inference for \<open>Pad\<close> accepts a shape, in any mode, cropping all axes of the padded
  shape with the texts of \<open>pads_begin\<close> and \<open>pads_end\<close> as \<open>crop_begin\<close> and \<open>crop_end\<close> is accepted and gives the shape back,
  as long as the padded sizes are 64-bit numbers.
\<close>

theorem crop_undoes_pad:
  assumes "Pad_infer ps [shape] = Inr [out]" "\<forall>d \<in> set shape. d + 2 ^ 32 \<le> 2 ^ 64"
    and "map_of crop ''axis'' = Some (fold append_number [0..<length shape] [])"
    and "map_of crop ''crop_begin'' = map_of ps ''pads_begin''" "map_of crop ''crop_end'' = map_of ps ''pads_end''"
    and "map_of crop ''offset'' = None" "map_of crop ''dim'' = None"
  shows "Crop_infer crop [out] = Inr [shape]"
proof -
  let ?n = "length shape"
  obtain bs es mode where layer: "Pad_parseParams ps = Inr \<lparr>pl_begin = bs, pl_end = es, pl_mode = mode\<rparr>"
    and shapes: "Pad_checkShapes \<lparr>pl_begin = bs, pl_end = es, pl_mode = mode\<rparr> [shape] = Inr ()"
    and out: "out = map (\<lambda>i. size_t (shape ! i + (bs ! i + es ! i) mod 2 ^ 32)) [0..<?n]"
    using assms(1) by (auto simp: Pad_infer_def) (metis PadLayer.cases PadLayer.select_convs(1,2))
  have pads: "GetParamAsUInts ps ''pads_begin'' = Inr bs" "GetParamAsUInts ps ''pads_end'' = Inr es" "length bs \<le> 12"
    using layer by (auto simp: Pad_parseParams_def MAX_DIMS_NUMBER_def dest!: property_vector_Inr)
  have len: "length bs = ?n" "length es = ?n"
    using shapes by (auto simp: Pad_checkShapes_def Let_def split: if_splits)
  note b = uints_read_alike[OF pads(1) assms(4)] and e = uints_read_alike[OF pads(2) assms(5)]
  have axes: "bindE (GetParamAsString crop ''axis'') getArray = Inr (map int [0..<?n])"
    using append_numbers_read[of "[0..<?n]"] len(1) pads(3) by (simp add: GetParamAsString_def assms(3))
  let ?layer = "\<lparr>cl_axis = map int [0..<?n], cl_dim = [], cl_offset = map int bs\<rparr>"
  have crop: "Crop_parseParams crop = Inr ?layer"
    using axes b(2) by (simp add: Crop_parseParams_def array_if_present_def CheckParamPresence_def assms(6,7))
  have o: "length out = ?n" "\<And>i. i < ?n \<Longrightarrow> out ! i = shape ! i + bs ! i + es ! i \<and> shape ! i < 2 ^ 64"
  proof -
    fix i assume i: "i < ?n"
    then have "bs ! i < 2 ^ 31" "es ! i < 2 ^ 31" "shape ! i + 2 ^ 32 \<le> 2 ^ 64" using b(3) e(3) len assms(2) by auto
    then show "out ! i = shape ! i + bs ! i + es ! i \<and> shape ! i < 2 ^ 64" using i by (simp add: out size_t_def)
  qed (simp add: out)
  have "crop_check crop ?layer [out] i = Inr ()" if "i < ?n" for i
    using that len(1) pads(3) by (simp add: crop_check_def to_size_nat o(1))
  then have checks: "Crop_checkShapes crop ?layer [out] = Inr ()"
    by (auto simp: Crop_checkShapes_def checkNumOfInput_def intro!: foldE_unit)
  have "foldE (\<lambda>i acc. let axis = cl_axis ?layer ! i in
      bindE (bindE (vec_at out axis) (\<lambda>d. bindE (vec_at (map int es) (int i)) (\<lambda>e. Inr (int d - cl_offset ?layer ! i - e))))
        (\<lambda>size. vec_set acc axis (to_size size))) [0..<m] out = Inr (take m shape @ drop m out)" if "m \<le> ?n" for m
    using that
  proof (induction m)
    case (Suc m)
    then have m: "m < ?n" by simp
    have "take (Suc m) shape @ drop (Suc m) out = (take m shape @ drop m out)[m := shape ! m]"
      using m o(1) by (simp add: take_Suc_conv_app_nth list_update_append Cons_nth_drop_Suc[symmetric])
    then show ?case
      using Suc m o(2)[OF m] len o(1) by (simp add: Let_def vec_at_def vec_set_def to_size_nat)
  qed simp
  from this[of ?n] show ?thesis
    using e(1) o(1) by (simp add: Crop_infer_def crop Crop_checkParams_def len checks CheckParamPresence_def assms(7) Let_def)
qed

theorem crop_undoes_pad_witness:
  "Crop_infer [(''axis'', ''0,1''), (''crop_begin'', ''0,3''), (''crop_end'', ''1,2'')] [[5, 10]] = Inr [[4, 5]]"
proof -
  let ?ps = "[(''pads_begin'', ''0,3''), (''pads_end'', ''1,2''), (''pad_mode'', ''edge'')]"
  have "GetParamAsUInts ?ps ''pads_begin'' = Inr [0, 3]" "GetParamAsUInts ?ps ''pads_end'' = Inr [1, 2]"
    "check_float ?ps ''pad_value'' ''0'' = Inr ()" "GetParamAsString_or ?ps ''pad_mode'' ''constant'' = ''edge''"
    by code_simp+
  then have "Pad_infer ?ps [[4, 5]] = Inr [[5, 10]]"
    by (simp add: Pad_infer_def Pad_parseParams_def property_vector_def MAX_DIMS_NUMBER_def pad_mode_def Pad_checkShapes_def
        checkNumOfInput_def size_t_def upt_rec)
  moreover have "fold append_number [0, 1] [] = ''0,1''" by code_simp
  ultimately show ?thesis
    using crop_undoes_pad[of ?ps "[4, 5]" "[5, 10]"
        "[(''axis'', ''0,1''), (''crop_begin'', ''0,3''), (''crop_end'', ''1,2'')]"]
    by (simp add: upt_rec)
qed

section \<open>Eltwise\<close>

text \<open>The dimensions of both operands, the larger one where both have one.\<close>

fun broadcast_dims :: "SizeVector \<Rightarrow> SizeVector \<Rightarrow> SizeVector" where
  "broadcast_dims [] b = b"
| "broadcast_dims a [] = a"
| "broadcast_dims (x # a) (y # b) = max x y # broadcast_dims a b"

lemma broadcast_nth:
  "length (broadcast_dims a b) = max (length a) (length b) \<and>
   (\<forall>i < max (length a) (length b). broadcast_dims a b ! i =
     (if i < length a \<and> i < length b then max (a ! i) (b ! i) else if i \<ge> length a then b ! i else a ! i))"
proof (induction a b rule: broadcast_dims.induct)
  case (3 x a y b)
  then show ?case by (auto simp: nth_Cons split: nat.split)
qed auto

lemma eltwise_dims_take: "eltwise_dims a b = take (length (vec_max a b)) (broadcast_dims a b)"
proof -
  have "length (vec_max a b) \<le> max (length a) (length b)" by (simp add: vec_max_def)
  then show ?thesis
    using broadcast_nth[of a b] by (intro nth_equalityI) (auto simp: eltwise_dims_def)
qed

text \<open>
  C34. \<open>Eltwise\<close> of two operands of the same rank infers the larger size in every dimension. For different ranks the code
  means to broadcast, but it takes the length of the result from the lexicographic maximum of the two shapes: the result
  is the broadcast shape just when the longer operand is that maximum, and otherwise its dimensions past the rank of the shorter
  operand are lost.
\<close>

theorem eltwise_infers_shape:
  assumes "Eltwise_parseParams ps = Inr op"
  shows "Eltwise_infer ps (a # b # rest) =
    Inr [if length a < length b \<and> \<not> vec_less a b \<or> length b < length a \<and> vec_less a b
      then map2 max a b else broadcast_dims a b]"
proof -
  have "take (min (length a) (length b)) (broadcast_dims a b) = map2 max a b"
    using broadcast_nth[of a b] by (intro nth_equalityI) auto
  moreover have "length (broadcast_dims a b) = max (length a) (length b)" using broadcast_nth by blast
  ultimately show ?thesis
    using assms by (auto simp: Eltwise_infer_def eltwise_dims_take vec_max_def min_def split: if_splits)
qed

theorem eltwise_infers_shape_witness:
  "Eltwise_infer [(''operation'', ''mul'')] [[5], [2, 3]] = Inr [[5]] \<and> Eltwise_infer [] [[2], [5, 3]] = Inr [[5, 3]]"
proof -
  have "Eltwise_parseParams [(''operation'', ''mul'')] = Inr Prod" "Eltwise_parseParams [] = Inr Sum" by code_simp+
  from eltwise_infers_shape[OF this(1), of "[5]" "[2, 3]" "[]"] eltwise_infers_shape[OF this(2), of "[2]" "[5, 3]" "[]"]
  show ?thesis by simp
qed

section \<open>Gather\<close>

lemma write_pairs_block:
  assumes "length xs + k \<le> length out"
  shows "write_pairs (map (\<lambda>i. (i + k, xs ! i)) [0..<length xs]) out = Inr (take k out @ xs @ drop (k + length xs) out)"
  using assms
proof (induction xs rule: rev_induct)
  case (snoc x xs)
  have "map (\<lambda>i. (i + k, (xs @ [x]) ! i)) [0..<length (xs @ [x])] = map (\<lambda>i. (i + k, xs ! i)) [0..<length xs] @ [(length xs + k, x)]"
    by (simp add: nth_append)
  then have "write_pairs (map (\<lambda>i. (i + k, (xs @ [x]) ! i)) [0..<length (xs @ [x])]) out =
      bindE (write_pairs (map (\<lambda>i. (i + k, xs ! i)) [0..<length xs]) out) (write_pairs [(length xs + k, x)])"
    by (simp only: write_pairs_def foldE_append)
  also have "\<dots> = write_pairs [(length xs + k, x)] (take k out @ xs @ drop (k + length xs) out)"
    using snoc by simp
  also have "drop (k + length xs) out = out ! (k + length xs) # drop (k + length xs + 1) out"
    using snoc.prems by (simp add: Cons_nth_drop_Suc)
  finally show ?case
    using snoc.prems by (simp add: write_pairs_def vec_set_def nat_int_add list_update_append)
qed (simp add: write_pairs_def)

text \<open>
  The loops of \<open>Gather\<close> put the shape of the indexes in the place of the axis of the dictionary that is looked up.
\<close>

theorem gather_infers_shape:
  assumes "GetParamAsInt_or ps ''axis'' 0 = Inr axis" "- int (length dict) \<le> axis" "axis < int (length dict)"
  shows "Gather_infer ps [dict, indexes] =
    Inr [take (axis_of (length dict) axis) dict @ indexes @ drop (axis_of (length dict) axis + 1) dict]"
proof -
  let ?a = "axis_of (length dict) axis"
  have a: "?a < length dict" using assms(2,3) by (auto simp: axis_of_def)
  have axis: "nat (if axis < 0 then axis + int (length dict) else axis) = ?a" by (simp add: axis_of_def)
  let ?n = "length dict + length indexes - 1"
  define pre where "pre = take ?a dict"
  define post where "post = drop (?a + 1) dict"
  have len: "length pre = ?a" "length pre + length indexes + length post = ?n"
    using a by (auto simp: pre_def post_def)
  have "mapE (\<lambda>i. bindE (vec_at dict (int i)) (\<lambda>v. Inr (i, v))) [0..<?a] = Inr (map (\<lambda>i. (i + 0, pre ! i)) [0..<length pre])"
    using a by (subst mapE_Inr[where g = "\<lambda>i. (i, dict ! i)"]) (auto simp: vec_at_nth len pre_def)
  moreover have "write_pairs (map (\<lambda>i. (i + 0, pre ! i)) [0..<length pre]) (replicate ?n 0) = Inr (pre @ replicate (?n - ?a) 0)"
    using write_pairs_block[of pre 0 "replicate ?n 0"] len by simp
  moreover have "write_pairs (map (\<lambda>i. (i + ?a, indexes ! i)) [0..<length indexes]) (pre @ replicate (?n - ?a) 0) =
      Inr (pre @ indexes @ replicate (length post) 0)"
    using write_pairs_block[of indexes ?a "pre @ replicate (?n - ?a) 0"] len by simp
  moreover have "map (\<lambda>i. (i + length indexes - 1, dict ! i)) [?a + 1..<length dict] =
      map (\<lambda>i. (i + (?a + length indexes), post ! i)) [0..<length post]"
    using a by (intro nth_equalityI) (auto simp: post_def)
  moreover have "write_pairs (map (\<lambda>i. (i + (?a + length indexes), post ! i)) [0..<length post]) (pre @ indexes @ replicate (length post) 0) =
      Inr (pre @ indexes @ post)"
    using write_pairs_block[of post "?a + length indexes" "pre @ indexes @ replicate (length post) 0"] len by simp
  moreover have "Gather_checkShapes axis [dict, indexes] = Inr ()" "length dict + length indexes \<noteq> 0"
    using assms(2,3) by (auto simp: Gather_checkShapes_def)
  ultimately have "Gather_infer ps [dict, indexes] = Inr [pre @ indexes @ post]"
    using assms(1) by (simp add: Gather_infer_def axis Let_def)
  then show ?thesis by (simp add: pre_def post_def)
qed

section \<open>Permute, OneHot and Tile\<close>

text \<open>Permuting by an order and then by its inverse gives the shape back.\<close>

theorem permute_by_inverse:
  assumes "GetParamAsUInts ps ''order'' = Inr p" "GetParamAsUInts ps' ''order'' = Inr q" "length p = length shape" "length q = length shape"
    and "\<forall>i < length shape. q ! i < length shape \<and> p ! (q ! i) = i"
  shows "\<exists>out. Permute_infer ps [shape] = Inr [out] \<and> Permute_infer ps' [out] = Inr [shape]"
proof -
  have perm: "Permute_infer qs [dims] = Inr [map (\<lambda>i. dims ! (r ! i)) [0..<length dims]]"
    if "GetParamAsUInts qs ''order'' = Inr r" "length r = length dims" "\<forall>i < length dims. r ! i < length dims" for qs r dims
  proof -
    have r: "GetParamAsInts qs ''order'' = Inr (map int r)" "\<forall>n \<in> set r. n < 2 ^ 31"
      using uints_read_alike[OF that(1) refl] by auto
    then have "map to_size (map int r) = r" by (auto intro!: map_idI simp: to_size_nat)
    moreover have "mapE (\<lambda>i. bindE (vec_at r (int i)) (\<lambda>ord. vec_at dims (int ord))) [0..<length dims] =
        Inr (map (\<lambda>i. dims ! (r ! i)) [0..<length dims])"
      by (rule mapE_Inr) (use that(2,3) in \<open>auto simp: vec_at_nth\<close>)
    ultimately show ?thesis
      using r that(1) by (simp add: Permute_infer_def checkNumOfInput_def)
  qed
  have "inj_on (\<lambda>i. q ! i) {..<length shape}" using assms(5) by (metis inj_onI lessThan_iff)
  then have "(\<lambda>i. q ! i) ` {..<length shape} = {..<length shape}"
    using assms(5) by (intro endo_inj_surj) auto
  then have "\<forall>i < length shape. p ! i < length shape"
    using assms(5) by (metis (no_types, lifting) imageE lessThan_iff)
  then have out: "Permute_infer ps [shape] = Inr [map (\<lambda>i. shape ! (p ! i)) [0..<length shape]]"
    using perm assms(1,3) by simp
  moreover have "Permute_infer ps' [map (\<lambda>i. shape ! (p ! i)) [0..<length shape]] = Inr [shape]"
    using assms(2,4,5) by (subst perm[where r = q]) (auto intro: nth_equalityI)
  ultimately show ?thesis by blast
qed

text \<open>Tiling an axis is concatenating as many copies.\<close>

theorem tile_is_concat:
  assumes "GetParamAsInt_or ps ''axis'' (-1) = Inr (int axis)" "GetParamAsInt_or ps ''tiles'' (-1) = Inr (int (Suc t))"
    and "GetParamAsUInt_or ps' ''axis'' 1 = Inr axis" "axis < length shape"
  shows "Tile_infer ps [shape] = Concat_infer ps' (replicate (Suc t) shape)"
proof -
  have "foldE (\<lambda>inShape sum. if axis \<ge> length inShape then Inl e else Inr (size_t (sum + inShape ! axis)))
      (replicate k shape) s = Inr (if k = 0 then s else size_t (s + k * shape ! axis))" for k s e
    using assms(4) by (induction k arbitrary: s) (auto simp: size_t_def mod_simps add.assoc)
  from this[of "Thrown ''Axis can't be more then number of input shapes''" "Suc t" 0]
  have sum: "foldE (\<lambda>inShape sum. if axis \<ge> length inShape then Inl (Thrown ''Axis can't be more then number of input shapes'')
      else Inr (size_t (sum + inShape ! axis))) (replicate (Suc t) shape) 0 = Inr (size_t (Suc t * shape ! axis))"
    by (simp del: replicate.simps)
  have "Concat_checkShapes axis (replicate (Suc t) shape) = Inr ()"
    using assms(4) by (auto simp: Concat_checkShapes_def intro!: foldE_unit)
  moreover have "replicate (Suc t) shape ! 0 = shape" by simp
  ultimately have "Concat_infer ps' (replicate (Suc t) shape) = Inr [shape[axis := size_t (Suc t * shape ! axis)]]"
    using assms(3) sum unfolding Concat_infer_def by (simp del: replicate.simps)
  moreover have "to_size (int (shape ! axis) * int (Suc t)) = size_t (Suc t * shape ! axis)"
    by (simp only: to_size_def size_t_def of_nat_mult[symmetric] mult.commute) (metis nat_int of_nat_numeral of_nat_power zmod_int)
  ultimately show ?thesis
    using assms by (simp add: Tile_infer_def Tile_checkParams_def checkNumOfInput_def vec_at_def vec_set_def)
qed

text \<open>Reducing the axis that \<open>OneHot\<close> inserts gives back the shape, also for the axis -1, which means the last to both.\<close>

theorem reduce_undoes_one_hot:
  assumes "OneHot_parseParams ps = Inr (depth, axis)" "-1 \<le> axis" "axis \<le> int (length dims)" "length dims + 1 < 2 ^ 31"
    and "GetParamAsBool_or ps' ''keep_dims'' True = Inr False"
  shows "\<exists>out. OneHot_infer ps [dims] = Inr [out] \<and> length out = length dims + 1 \<and>
    Reduce_infer ps' [\<lparr>ib_dims = out, ib_precision = P_FP32, ib_data = None\<rparr>,
      \<lparr>ib_dims = [1], ib_precision = P_I32, ib_data = Some [axis]\<rparr>] = Inr [dims]"
proof -
  let ?n = "length dims"
  let ?a = "axis_of (?n + 1) axis"
  have a: "?a \<le> ?n" "(if axis = -1 then ?n else to_size axis) = ?a"
    using assms(2,3,4) by (auto simp: axis_of_def to_size_nat)
  define out where "out = map (\<lambda>i. if i < ?a then dims ! i else if i = ?a then depth else dims ! (i - 1)) [0..<?n + 1]"
  have "mapE (\<lambda>idx. if idx < ?a then vec_at dims (int idx) else if idx = ?a then Inr depth else vec_at dims (int idx - 1)) [0..<?n + 1] =
      Inr out"
    unfolding out_def by (rule mapE_Inr) (use a(1) in \<open>auto simp: vec_at_def nat_diff_distrib\<close>)
  then have "OneHot_infer ps [dims] = Inr [out]"
    unfolding OneHot_infer_def assms(1) bindE_simps prod.case checkNumOfInput_def Let_def nth_Cons_0 a(2) by simp
  moreover have len: "length out = ?n + 1" by (simp add: out_def)
  have "in_rank (length out) [axis]" using assms(2,3) by (simp add: in_rank_def len)
  from reduce_axes_in_rank[OF this] have "reduce_axes out [axis] = Inr [?a]" using assms(4) by (simp add: len)
  moreover have without: "filter (\<lambda>i. i \<notin> set [?a]) [0..<length out] = [0..<?a] @ [?a + 1..<?n + 1]"
  proof -
    have "[0..<?n + 1] = [0..<?a] @ [?a..<?n + 1]" using a(1) upt_add_eq_append[of 0 ?a "?n + 1 - ?a"] by simp
    moreover have "[?a..<?n + 1] = ?a # [?a + 1..<?n + 1]" using a(1) by (simp add: upt_conv_Cons)
    ultimately show ?thesis unfolding len by simp
  qed
  have red: "reduce_dims False [?a] out = map (\<lambda>i. out ! i) ([0..<?a] @ [?a + 1..<?n + 1])"
    unfolding reduce_dims_def concat_map_single without by simp
  have "map (\<lambda>i. out ! i) ([0..<?a] @ [?a + 1..<?n + 1]) = take ?a dims @ drop ?a dims"
  proof -
    have "out ! i = (if i < ?a then dims ! i else if i = ?a then depth else dims ! (i - 1))" if "i < ?n + 1" for i
      using that by (simp add: out_def del: upt_Suc)
    then have "map (\<lambda>i. out ! i) [0..<?a] = take ?a dims" "map (\<lambda>i. out ! i) [?a + 1..<?n + 1] = drop ?a dims"
      using a(1) by (auto intro!: nth_equalityI simp del: upt_Suc)
    then show ?thesis by simp
  qed
  then have "reduce_dims False [?a] out = dims" unfolding red by simp
  ultimately show ?thesis
    using assms(5) len by (simp add: Reduce_infer_def Reduce_checkShapes_def Let_def)
qed

section \<open>Flatten\<close>

lemma flatten_copy_prod:
  assumes "\<forall>i \<in> set is. i < length dims" "p < 2 ^ 64"
  shows "flatten_copy dims is (p, out) = Inr (size_t (p * prod_list (map (\<lambda>i. dims ! i) is)), out @ map (\<lambda>i. dims ! i) is)"
  using assms
proof (induction "is" arbitrary: p out)
  case Nil
  then show ?case by (simp add: flatten_copy_def size_t_def)
next
  case (Cons i "is")
  have "size_t (p * dims ! i) < 2 ^ 64" by (simp add: size_t_def)
  from Cons.IH[OF _ this] Cons.prems show ?case
    by (simp add: flatten_copy_def vec_at_def size_t_def mod_simps mult.assoc)
qed

text \<open>
  \<open>Flatten\<close> multiplies the dimensions from \<open>axis\<close> up to \<open>end_axis\<close>, or to the last one for -1, and keeps the others.
\<close>

theorem flatten_infers_shape:
  assumes "axis < length dims" "last_axis < length dims" "axis \<le> last_axis" "0 < prod_list dims" "prod_list dims < 2 ^ 64"
    and "numAxes = int last_axis \<and> 0 < last_axis \<or> numAxes = -1 \<and> last_axis = length dims - 1"
  shows "flatten_to dims (int axis) numAxes =
    Inr (take axis dims @ [prod_list (take (last_axis + 1 - axis) (drop axis dims))] @ drop (last_axis + 1) dims)"
proof -
  let ?pre = "take axis dims" and ?mid = "take (last_axis + 1 - axis) (drop axis dims)" and ?post = "drop (last_axis + 1) dims"
  have dims: "dims = ?pre @ ?mid @ ?post" using assms(1-3) by (metis append_take_drop_id drop_drop le_add_diff_inverse2 trans_le_add1)
  then have prod: "prod_list dims = prod_list ?mid * (prod_list ?pre * prod_list ?post)"
    by (metis prod_list.append mult.left_commute)
  have pos: "0 < prod_list ?mid" "0 < prod_list ?pre * prod_list ?post" using assms(4) by (auto simp: prod)
  then have "prod_list ?pre * prod_list ?post \<le> prod_list dims" by (simp add: prod)
  then have less: "prod_list ?pre * prod_list ?post < 2 ^ 64" using assms(5) by simp
  have total: "total_size dims = prod_list dims" using assms(5) by (simp add: total_size_mod size_t_def)
  have copies: "map (\<lambda>i. dims ! i) [0..<axis] = ?pre" "map (\<lambda>i. dims ! i) [last_axis + 1..<length dims] = ?post"
    using assms(1,2) by (auto intro: nth_equalityI)
  show ?thesis
  proof (cases "numAxes = -1 \<and> axis = 0")
    case True
    then show ?thesis using assms(2,6) by (simp add: flatten_to_def total)
  next
    case False
    have "flatten_copy dims [0..<axis] (1, []) = Inr (size_t (prod_list ?pre), ?pre)"
      using flatten_copy_prod[of "[0..<axis]" dims 1 "[]"] assms(1) copies(1) by simp
    moreover have "flatten_copy dims [last_axis + 1..<length dims] (size_t (prod_list ?pre), ?pre @ [1]) =
        Inr (prod_list ?pre * prod_list ?post, ?pre @ [1] @ ?post)"
      using flatten_copy_prod[of "[last_axis + 1..<length dims]" dims "size_t (prod_list ?pre)" "?pre @ [1]"] less copies(2)
      by (simp add: size_t_def mod_simps)
    moreover have "(if int axis > 0 then [0..<nat (int axis)] else []) = [0..<axis]" by simp
    moreover have "(if numAxes > 0 then [nat numAxes + 1..<length dims] else []) = [last_axis + 1..<length dims]"
      using assms(2,6) by auto
    moreover have "vec_set (?pre @ [1] @ ?post) (int axis) (prod_list ?mid) = Inr (?pre @ [prod_list ?mid] @ ?post)"
      using assms(1) by (simp add: vec_set_def list_update_append)
    moreover have "prod_list dims div (prod_list ?pre * prod_list ?post) = prod_list ?mid"
      using pos(2) unfolding prod by (rule nonzero_mult_div_cancel_right[OF gr_implies_not0])
    ultimately show ?thesis
      using False pos(2) unfolding flatten_to_def by (simp only: bindE_simps prod.case total of_nat_0_less_iff simp_thms if_False) auto
  qed
qed

end
