(* ===== verification/HeteroSplit.thy ===== *)
theory HeteroSplit
  imports Prelude
begin

text \<open>
  Splitting a network over devices (\<open>src/src/hetero_plugin/hetero_graph_splitter.cpp\<close>, with \<open>getAffinities\<close> of
  \<open>hetero_executable_network.cpp\<close>): layers are numbers, \<open>aff\<close> gives the device a layer is assigned to, a set of layers is a list
  without repetitions. The connected groups come from the ADE library (\<open>ade::selectSubgraphs\<close>,
  \<open>SubgraphSelfReferenceChecker\<close>), which is not in the repository: the parameters \<open>select\<close> and \<open>cyclic\<close>. Assertions, which
  a release build leaves out, are not modelled.
\<close>

section \<open>Subgraphs of one device\<close>

definition getAffinities :: "(nat \<Rightarrow> string) \<Rightarrow> nat list \<Rightarrow> string list" where
  "getAffinities aff layers =
     fold (\<lambda>layer ret. if aff layer \<in> set ret then ret else ret @ [aff layer]) layers []"

text \<open>The subgraph to take out next. A larger one than the first sets \<open>index = 1\<close>, as the code has it.\<close>

definition selectSubgraph :: "nat list list \<Rightarrow> nat" where
  "selectSubgraph subgraphs =
     fst (fold (\<lambda>i (index, maxSize).
       let size = length (subgraphs ! i) in if size > maxSize then (1, size) else (index, maxSize))
       [1..<length subgraphs] (0, length (subgraphs ! 0)))"

text \<open>
  A call of \<open>ade::selectSubgraphs\<close>: the nodes to start from, whether an edge between two nodes may be merged,
  and whether a choice of accepted and rejected nodes is kept.
\<close>

type_synonym selector = "nat list \<Rightarrow> (nat \<Rightarrow> nat \<Rightarrow> bool) \<Rightarrow> (nat list \<Rightarrow> nat list \<Rightarrow> bool) \<Rightarrow> nat list list"

definition splitGraph_select ::
  "selector \<Rightarrow> (nat list \<Rightarrow> nat list \<Rightarrow> bool) \<Rightarrow> (nat \<Rightarrow> string) \<Rightarrow> nat list \<Rightarrow> string \<Rightarrow> nat list list"
where
  "splitGraph_select select cyclic aff avail device =
     select (filter (\<lambda>node. aff node = device) avail)
       (\<lambda>srcNode dstNode. dstNode \<in> set avail \<and> aff srcNode = aff dstNode)
       (\<lambda>acceptedNodes rejectedNodes. \<not> cyclic acceptedNodes rejectedNodes)"

text \<open>
  The loop ends when no node is left, so it may run forever: None. Reading the device of a checker past the last one is
  undefined in the code; here it fails. The check for unassigned nodes comes after that read and is never met.
\<close>

partial_function (option) split_loop ::
  "selector \<Rightarrow> (nat list \<Rightarrow> nat list \<Rightarrow> bool) \<Rightarrow> string list \<Rightarrow> (nat \<Rightarrow> string) \<Rightarrow> nat list \<Rightarrow> nat \<Rightarrow> nat list list \<Rightarrow>
     nat list list result option"
where
  "split_loop select cyclic plugins aff avail currentChecker finalSubgraphs =
     (if avail = [] then Some (Inr finalSubgraphs)
      else if currentChecker \<ge> length plugins then Some (Inl OutOfRange)
      else
        let subgraphs = splitGraph_select select cyclic aff avail (plugins ! currentChecker) in
        if subgraphs \<noteq> [] then
          let selected = subgraphs ! selectSubgraph subgraphs in
          split_loop select cyclic plugins aff (filter (\<lambda>node. node \<notin> set selected) avail) currentChecker
            (finalSubgraphs @ [selected])
        else split_loop select cyclic plugins aff avail (currentChecker + 1) finalSubgraphs)"

definition splitGraph ::
  "selector \<Rightarrow> (nat list \<Rightarrow> nat list \<Rightarrow> bool) \<Rightarrow> string list \<Rightarrow> (nat \<Rightarrow> string) \<Rightarrow> nat list \<Rightarrow> nat list list result option"
where
  "splitGraph select cyclic plugins aff layers = split_loop select cyclic plugins aff layers 0 []"

section \<open>Order of the subgraphs\<close>

text \<open>\<open>creators\<close> gives the layers that create the inputs of a layer, where there is one.\<close>

definition first_other :: "nat list list \<Rightarrow> nat \<Rightarrow> nat \<Rightarrow> nat option" where
  "first_other subgraphs i prevLayer =
     (case filter (\<lambda>j. i \<noteq> j \<and> prevLayer \<in> set (subgraphs ! j)) [0..<length subgraphs] of [] \<Rightarrow> None | j # _ \<Rightarrow> Some j)"

definition add_dependency :: "nat list list \<Rightarrow> nat \<Rightarrow> nat option \<Rightarrow> nat list \<Rightarrow> nat list" where
  "add_dependency subgraphs i prev dependsOn =
     (case prev of None \<Rightarrow> dependsOn
      | Some prevLayer \<Rightarrow> (case first_other subgraphs i prevLayer of None \<Rightarrow> dependsOn
          | Some j \<Rightarrow> if j \<in> set dependsOn then dependsOn else dependsOn @ [j]))"

definition dependsOn :: "(nat \<Rightarrow> nat option list) \<Rightarrow> nat list list \<Rightarrow> nat \<Rightarrow> nat list" where
  "dependsOn creators subgraphs i =
     fold (\<lambda>layer. fold (add_dependency subgraphs i) (creators layer)) (subgraphs ! i) []"

text \<open>The recursion does not come back from a circle of dependencies; it is cut off when it is deeper than there are subgraphs.\<close>

fun topoVisitSubgraph :: "nat \<Rightarrow> (nat \<Rightarrow> nat list) \<Rightarrow> nat \<Rightarrow> (nat \<rightharpoonup> nat) \<times> nat \<Rightarrow> ((nat \<rightharpoonup> nat) \<times> nat) result" where
  "topoVisitSubgraph 0 deps i st = Inl OutOfFuel"
| "topoVisitSubgraph (Suc n) deps i st =
     (if fst st i \<noteq> None then Inr st
      else bindE (foldE (topoVisitSubgraph n deps) (deps i) st) (\<lambda>(topo, topoIndex). Inr (topo(i \<mapsto> topoIndex), topoIndex + 1)))"

definition sortSubgraphs :: "(nat \<Rightarrow> nat option list) \<Rightarrow> nat list list \<Rightarrow> nat list list result" where
  "sortSubgraphs creators subgraphs =
     bindE (foldE (topoVisitSubgraph (Suc (length subgraphs)) (dependsOn creators subgraphs)) [0..<length subgraphs]
       (Map.empty, 0)) (\<lambda>(topo, _).
     Inr (fold (\<lambda>i ret. ret[the (topo i) := subgraphs ! i]) [0..<length subgraphs] (replicate (length subgraphs) [])))"

section \<open>The split covers the network\<close>

lemma getAffinities_set: "set (getAffinities aff layers) = aff ` set layers"
proof -
  have "set (fold (\<lambda>layer ret. if aff layer \<in> set ret then ret else ret @ [aff layer]) layers ret) = aff ` set layers \<union> set ret" for ret
    by (induction layers arbitrary: ret) auto
  then show ?thesis by (simp add: getAffinities_def)
qed

lemma selectSubgraph_in_range:
  assumes "subgraphs \<noteq> []"
  shows "selectSubgraph subgraphs < length subgraphs"
proof -
  let ?f = "\<lambda>i (index, maxSize). let size = length (subgraphs ! i) in if size > maxSize then (1, size) else (index, maxSize)"
  have "fst (fold ?f is acc) < length subgraphs"
    if "fst acc < length subgraphs" "is \<noteq> [] \<longrightarrow> 1 < length subgraphs" for "is" acc
    using that by (induction "is" arbitrary: acc) (auto simp: Let_def split: prod.splits)
  from this[of "(0, length (subgraphs ! 0))" "[1..<length subgraphs]"] show ?thesis
    using assms unfolding selectSubgraph_def by auto
qed

text \<open>
  What the splitter relies on for the result of a selection, in soundness only: a subgraph is not empty, which the splitter
  asserts, it is a set, and it has been grown from the start nodes over edges that may be merged. Whether the library finds a
  subgraph at all is not assumed.
\<close>

inductive grown :: "nat list \<Rightarrow> (nat \<Rightarrow> nat \<Rightarrow> bool) \<Rightarrow> nat \<Rightarrow> bool" for roots merge where
  grown_root: "n \<in> set roots \<Longrightarrow> grown roots merge n"
| grown_edge: "grown roots merge m \<Longrightarrow> merge m n \<Longrightarrow> grown roots merge n"

definition selector_law :: "selector \<Rightarrow> bool" where
  "selector_law select \<longleftrightarrow>
     (\<forall>roots merge keep. \<forall>s \<in> set (select roots merge keep). s \<noteq> [] \<and> distinct s \<and> (\<forall>n \<in> set s. grown roots merge n))"

lemma grown_affinity:
  assumes "grown (filter (\<lambda>node. aff node = device) avail) (\<lambda>a b. b \<in> set avail \<and> aff a = aff b) n"
  shows "n \<in> set avail \<and> aff n = device"
  using assms by (induction rule: grown.induct) auto

lemma splitGraph_select_law:
  assumes "selector_law select" "s \<in> set (splitGraph_select select cyclic aff avail device)"
  shows "s \<noteq> [] \<and> distinct s \<and> (\<forall>n \<in> set s. n \<in> set avail \<and> aff n = device)"
proof -
  note law = assms(1)[unfolded selector_law_def, THEN spec, THEN spec, THEN spec, THEN bspec,
    OF assms(2)[unfolded splitGraph_select_def]]
  then have "\<forall>n \<in> set s. n \<in> set avail \<and> aff n = device"
    by (intro ballI) (rule grown_affinity, blast)
  with law show ?thesis by blast
qed

definition split_of :: "string list \<Rightarrow> (nat \<Rightarrow> string) \<Rightarrow> nat set \<Rightarrow> nat list list \<Rightarrow> bool" where
  "split_of plugins aff layers parts \<longleftrightarrow>
     distinct (concat parts) \<and> set (concat parts) = layers \<and>
     (\<forall>s \<in> set parts. s \<noteq> [] \<and> (\<exists>device \<in> set plugins. \<forall>n \<in> set s. aff n = device))"

lemma split_of_Cons:
  assumes "split_of plugins aff (layers - set s) parts" "s \<noteq> []" "distinct s" "set s \<subseteq> layers"
    "device \<in> set plugins" "\<forall>n \<in> set s. aff n = device"
  shows "split_of plugins aff layers (s # parts)"
  using assms unfolding split_of_def by auto

text \<open>
  Why the loop may read past the devices: the library has found no subgraph for one of them although layers assigned to it,
  \<open>avail\<close> among others, were still to be placed.
\<close>

definition passed_over :: "selector \<Rightarrow> (nat list \<Rightarrow> nat list \<Rightarrow> bool) \<Rightarrow> string list \<Rightarrow> (nat \<Rightarrow> string) \<Rightarrow> nat set \<Rightarrow> bool" where
  "passed_over select cyclic plugins aff layers \<longleftrightarrow>
     (\<exists>avail. set avail \<subseteq> layers \<and> (\<exists>n \<in> set avail. aff n \<in> set plugins \<and> splitGraph_select select cyclic aff avail (aff n) = []))"

lemma split_loop_splits:
  assumes law: "selector_law select"
    and "distinct avail" "set avail \<subseteq> layers" "\<forall>n \<in> set avail. aff n \<in> set plugins"
    and "\<forall>n \<in> set avail. aff n \<in> set (drop cur plugins) \<or> passed_over select cyclic plugins aff layers"
  shows "(\<exists>new. split_loop select cyclic plugins aff avail cur fin = Some (Inr (fin @ new)) \<and> split_of plugins aff (set avail) new) \<or>
    split_loop select cyclic plugins aff avail cur fin = Some (Inl OutOfRange) \<and> passed_over select cyclic plugins aff layers"
  using assms(2-)
proof (induction "length avail + (length plugins - cur)" arbitrary: avail cur fin rule: less_induct)
  case less
  show ?case
  proof (cases "avail = [] \<or> cur \<ge> length plugins")
    case True
    have "passed_over select cyclic plugins aff layers" if "avail \<noteq> []" "cur \<ge> length plugins"
      using that less.prems(4) by (cases avail) auto
    then show ?thesis using True by (auto simp: split_loop.simps split_of_def)
  next
    case False
    then have nonempty: "avail \<noteq> []" and cur: "cur < length plugins" by auto
    let ?sub = "splitGraph_select select cyclic aff avail (plugins ! cur)"
    show ?thesis
    proof (cases "?sub = []")
      case True
      have "aff n \<in> set (drop (cur + 1) plugins) \<or> passed_over select cyclic plugins aff layers" if n: "n \<in> set avail" for n
      proof (cases "aff n = plugins ! cur")
        case here: True
        then have "splitGraph_select select cyclic aff avail (aff n) = []" using True by simp
        then show ?thesis using less.prems(2,3) n unfolding passed_over_def by blast
      next
        case False
        then show ?thesis using less.prems(4) n cur by (auto simp: Cons_nth_drop_Suc[symmetric])
      qed
      then have later: "\<forall>n \<in> set avail. aff n \<in> set (drop (cur + 1) plugins) \<or> passed_over select cyclic plugins aff layers"
        by blast
      have "split_loop select cyclic plugins aff avail cur fin = split_loop select cyclic plugins aff avail (cur + 1) fin"
        using True nonempty cur by (subst split_loop.simps) simp
      moreover have "length avail + (length plugins - (cur + 1)) < length avail + (length plugins - cur)" using cur by simp
      ultimately show ?thesis using less.hyps[OF _ less.prems(1,2,3) later, of fin] by simp
    next
      case False
      define s where "s = ?sub ! selectSubgraph ?sub"
      define rest where "rest = filter (\<lambda>n. n \<notin> set s) avail"
      have "s \<in> set ?sub" unfolding s_def using selectSubgraph_in_range[OF False] by simp
      from splitGraph_select_law[OF law this]
      have s: "s \<noteq> []" "distinct s" "\<forall>n \<in> set s. n \<in> set avail \<and> aff n = plugins ! cur" by auto
      have "hd s \<in> set avail \<and> \<not> hd s \<notin> set s" using s by (simp add: hd_in_set)
      then have "length rest < length avail" unfolding rest_def by (blast intro: length_filter_less)
      then have shorter: "length rest + (length plugins - cur) < length avail + (length plugins - cur)" by simp
      have step: "split_loop select cyclic plugins aff avail cur fin = split_loop select cyclic plugins aff rest cur (fin @ [s])"
        using False nonempty cur by (subst split_loop.simps) (simp add: s_def rest_def Let_def)
      have split: "split_of plugins aff (set avail) (s # new)" if "split_of plugins aff (set rest) new" for new
      proof (rule split_of_Cons[OF _ s(1,2)])
        show "split_of plugins aff (set avail - set s) new"
          using that by (simp add: rest_def set_diff_eq)
        show "set s \<subseteq> set avail" "\<forall>n \<in> set s. aff n = plugins ! cur" using s(3) by auto
        show "plugins ! cur \<in> set plugins" using cur by simp
      qed
      have "distinct rest" "set rest \<subseteq> layers" "\<forall>n \<in> set rest. aff n \<in> set plugins"
        "\<forall>n \<in> set rest. aff n \<in> set (drop cur plugins) \<or> passed_over select cyclic plugins aff layers"
        using less.prems by (auto simp: rest_def)
      from less.hyps[OF shorter this, of "fin @ [s]"] split show ?thesis
        unfolding step by (metis append.assoc append_Cons append_Nil)
    qed
  qed
qed

text \<open>
  Splitting a network by the devices its layers are assigned to always ends, whatever the library selects as long as a
  subgraph is a non-empty set grown from its start nodes. The subgraphs are a partition of the layers: no layer is in two of them or twice
  in one, none is missing, none of them is empty, and all layers of a subgraph are assigned to the same device, one of the
  devices collected from the network. The only other end is the read past the last device, and then the library has found
  no subgraph for a device that still had layers.
\<close>

theorem affinity_split_partitions:
  assumes "selector_law select" "distinct layers"
  shows "(\<exists>subgraphs. splitGraph select cyclic (getAffinities aff layers) aff layers = Some (Inr subgraphs) \<and>
      distinct (concat subgraphs) \<and> set (concat subgraphs) = set layers \<and>
      (\<forall>s \<in> set subgraphs. s \<noteq> [] \<and> (\<exists>device \<in> set (getAffinities aff layers). \<forall>n \<in> set s. aff n = device))) \<or>
    splitGraph select cyclic (getAffinities aff layers) aff layers = Some (Inl OutOfRange) \<and>
    (\<exists>avail. set avail \<subseteq> set layers \<and> (\<exists>n \<in> set avail. splitGraph_select select cyclic aff avail (aff n) = []))"
proof -
  have "\<forall>n \<in> set layers. aff n \<in> set (getAffinities aff layers)" by (simp add: getAffinities_set)
  from split_loop_splits[OF assms(1,2) subset_refl this, of 0 cyclic "[]"] this
  have "(\<exists>new. splitGraph select cyclic (getAffinities aff layers) aff layers = Some (Inr new) \<and>
      split_of (getAffinities aff layers) aff (set layers) new) \<or>
    splitGraph select cyclic (getAffinities aff layers) aff layers = Some (Inl OutOfRange) \<and>
    passed_over select cyclic (getAffinities aff layers) aff (set layers)"
    by (simp add: splitGraph_def)
  then show ?thesis unfolding split_of_def passed_over_def by blast
qed

text \<open>A selection with the law: each start node is a subgraph of its own.\<close>

definition ex_selector :: selector where [examples]:
  "ex_selector roots merge keep = map (\<lambda>n. [n]) (remdups roots)"

lemma ex_selector_law: "selector_law ex_selector"
  by (auto simp: selector_law_def ex_selector_def intro: grown_root)

section \<open>The order respects the data flow\<close>

definition topo_ok :: "nat \<Rightarrow> (nat \<Rightarrow> nat list) \<Rightarrow> (nat \<rightharpoonup> nat) \<times> nat \<Rightarrow> bool" where
  "topo_ok N deps st \<longleftrightarrow> dom (fst st) \<subseteq> {..<N} \<and> bij_betw (the \<circ> fst st) (dom (fst st)) {..<snd st} \<and>
     (\<forall>i \<in> dom (fst st). \<forall>j \<in> set (deps i). j \<in> dom (fst st) \<and> the (fst st j) < the (fst st i))"

text \<open>A visit numbers more subgraphs, of a rank for which \<open>new\<close> holds, and keeps the numbers that are there.\<close>

definition topo_more :: "(nat \<Rightarrow> bool) \<Rightarrow> (nat \<rightharpoonup> nat) \<times> nat \<Rightarrow> (nat \<rightharpoonup> nat) \<times> nat \<Rightarrow> bool" where
  "topo_more new st st' \<longleftrightarrow> fst st \<subseteq>\<^sub>m fst st' \<and> (\<forall>k \<in> dom (fst st') - dom (fst st). new k)"

lemma topo_more_refl: "topo_more new st st" by (simp add: topo_more_def)

lemma topo_more_trans: "topo_more new st st' \<Longrightarrow> topo_more new st' st'' \<Longrightarrow> topo_more new st st''"
  unfolding topo_more_def by (blast intro: map_le_trans)

lemma topo_more_mono: "topo_more new st st' \<Longrightarrow> (\<And>k. new k \<Longrightarrow> new' k) \<Longrightarrow> topo_more new' st st'"
  unfolding topo_more_def by blast

lemma topo_more_dom: "topo_more new st st' \<Longrightarrow> dom (fst st) \<subseteq> dom (fst st')"
  unfolding topo_more_def by (blast dest: map_le_implies_dom_le)

lemma topo_fold:
  assumes visit: "\<And>j st. j \<in> set ds \<Longrightarrow> topo_ok N deps st \<Longrightarrow>
      \<exists>st'. f j st = Inr st' \<and> topo_ok N deps st' \<and> topo_more new st st' \<and> j \<in> dom (fst st')"
    and ok: "topo_ok N deps st"
  shows "\<exists>st'. foldE f ds st = Inr st' \<and> topo_ok N deps st' \<and> topo_more new st st' \<and> set ds \<subseteq> dom (fst st')"
  using assms
proof (induction ds arbitrary: st)
  case Nil
  then show ?case by (simp add: topo_more_refl)
next
  case (Cons j ds)
  obtain st1 where st1: "f j st = Inr st1" "topo_ok N deps st1" "topo_more new st st1" "j \<in> dom (fst st1)"
    using Cons.prems(1)[OF _ Cons.prems(2), of j] by (metis list.set_intros(1))
  obtain st2 where st2: "foldE f ds st1 = Inr st2" "topo_ok N deps st2" "topo_more new st1 st2" "set ds \<subseteq> dom (fst st2)"
    using Cons.IH[OF Cons.prems(1) st1(2)] by auto
  show ?case
    using st1 st2 topo_more_trans[OF st1(3) st2(3)] topo_more_dom[OF st2(3)] by auto
qed

lemma topo_ok_number:
  assumes "topo_ok N deps (topo, n)" "i < N" "i \<notin> dom topo" "set (deps i) \<subseteq> dom topo"
  shows "topo_ok N deps (topo(i \<mapsto> n), n + 1)"
proof -
  note ok = assms(1)[unfolded topo_ok_def, simplified]
  have "bij_betw (the \<circ> topo(i \<mapsto> n)) (dom topo) {..<n} = bij_betw (the \<circ> topo) (dom topo) {..<n}"
    using assms(3) by (intro bij_betw_cong) (auto simp: domIff)
  then have "bij_betw (the \<circ> topo(i \<mapsto> n)) (dom topo \<union> {i}) ({..<n} \<union> {n})"
    using ok by (intro bij_betw_combine) (auto simp: bij_betw_def)
  moreover have lt: "the (topo j) < n" if "j \<in> dom topo" for j
    using ok that by (force simp: bij_betw_def)
  moreover have "j \<noteq> i" if "j \<in> set (deps k)" "k \<in> insert i (dom topo)" for j k
    using that assms(3,4) ok by blast
  ultimately show ?thesis
    using ok assms(2,3,4) unfolding topo_ok_def by (auto simp: lessThan_Suc insert_commute subset_iff)
qed

lemma topo_more_number:
  assumes "topo_more (\<lambda>k. rank k < (rank i :: nat)) st (topo, m)" "fst st i = None"
  shows "topo_more (\<lambda>k. rank k \<le> rank i) st (topo(i \<mapsto> m), m + 1)"
proof -
  note more = assms(1)[unfolded topo_more_def, simplified]
  have "fst st k = (topo(i \<mapsto> m)) k" if "k \<in> dom (fst st)" for k
  proof -
    have "k \<noteq> i" using that assms(2) by (auto simp: domIff)
    then show ?thesis using that conjunct1[OF more] by (simp add: map_le_def)
  qed
  moreover have "rank k \<le> rank i" if "k \<in> dom (topo(i \<mapsto> m)) - dom (fst st)" for k
    using that conjunct2[OF more, THEN bspec, of k] by (cases "k = i") auto
  ultimately show ?thesis unfolding topo_more_def map_le_def by simp
qed

lemma topoVisit_ok:
  assumes deps: "\<forall>i < N. \<forall>j \<in> set (deps i). j < N \<and> (rank j :: nat) < rank i"
  shows "card {k. k < N \<and> rank k < rank i} < n \<Longrightarrow> i < N \<Longrightarrow> topo_ok N deps st \<Longrightarrow>
    \<exists>st'. topoVisitSubgraph n deps i st = Inr st' \<and> topo_ok N deps st' \<and> topo_more (\<lambda>k. rank k \<le> rank i) st st' \<and> i \<in> dom (fst st')"
proof (induction n arbitrary: i st)
  case 0
  then show ?case by simp
next
  case (Suc n)
  show ?case
  proof (cases "fst st i = None")
    case False
    then show ?thesis using Suc.prems(3) by (auto simp: topo_more_refl)
  next
    case True
    have visit: "\<exists>st'. topoVisitSubgraph n deps j st = Inr st' \<and> topo_ok N deps st' \<and> topo_more (\<lambda>k. rank k < rank i) st st' \<and>
        j \<in> dom (fst st')" if j: "j \<in> set (deps i)" and st: "topo_ok N deps st" for j st
    proof -
      have rank: "j < N" "rank j < rank i" using deps Suc.prems(2) j by auto
      have "{k. k < N \<and> rank k < rank j} \<subset> {k. k < N \<and> rank k < rank i}" using rank by auto
      then have "card {k. k < N \<and> rank k < rank j} < card {k. k < N \<and> rank k < rank i}"
        by (intro psubset_card_mono) auto
      then have "card {k. k < N \<and> rank k < rank j} < n" using Suc.prems(1) by simp
      from Suc.IH[OF this rank(1) st] show ?thesis using rank(2) by (auto elim!: topo_more_mono)
    qed
    obtain topo m where st': "foldE (topoVisitSubgraph n deps) (deps i) st = Inr (topo, m)" "topo_ok N deps (topo, m)"
      "topo_more (\<lambda>k. rank k < rank i) st (topo, m)" "set (deps i) \<subseteq> dom topo"
      using topo_fold[OF visit Suc.prems(3), where ds = "deps i"] by auto
    have "i \<notin> dom topo" using st'(3) True by (fastforce simp: topo_more_def)
    then show ?thesis
      using st' True topo_ok_number[OF st'(2) Suc.prems(2)] topo_more_number[where rank = rank, OF st'(3) True] by simp
  qed
qed

lemma dependsOn_iff:
  "j \<in> set (dependsOn creators subgraphs i) \<longleftrightarrow>
     (\<exists>layer \<in> set (subgraphs ! i). \<exists>p. Some p \<in> set (creators layer) \<and> first_other subgraphs i p = Some j)"
proof -
  have inner: "set (fold (add_dependency subgraphs i) ps acc) =
      set acc \<union> {j. \<exists>p. Some p \<in> set ps \<and> first_other subgraphs i p = Some j}" for ps acc
    by (induction ps arbitrary: acc) (auto simp: add_dependency_def split: option.splits)
  have "set (fold (\<lambda>layer. fold (add_dependency subgraphs i) (creators layer)) ls acc) =
      set acc \<union> {j. \<exists>layer \<in> set ls. \<exists>p. Some p \<in> set (creators layer) \<and> first_other subgraphs i p = Some j}" for ls acc
    by (induction ls arbitrary: acc) (auto simp: inner)
  then show ?thesis by (simp add: dependsOn_def)
qed

lemma first_other_Some:
  assumes "first_other subgraphs i p = Some j"
  shows "j < length subgraphs \<and> i \<noteq> j \<and> p \<in> set (subgraphs ! j)"
proof -
  obtain js where js: "filter (\<lambda>j. i \<noteq> j \<and> p \<in> set (subgraphs ! j)) [0..<length subgraphs] = j # js"
    using assms unfolding first_other_def by (auto split: list.splits)
  have "j \<in> set (filter (\<lambda>j. i \<noteq> j \<and> p \<in> set (subgraphs ! j)) [0..<length subgraphs])"
    by (simp only: js list.set_intros)
  then show ?thesis by simp
qed

lemma distinct_concat_nth:
  assumes "distinct (concat xss)" "i < length xss" "j < length xss" "x \<in> set (xss ! i)" "x \<in> set (xss ! j)"
  shows "i = j"
  using assms
proof (induction xss arbitrary: i j)
  case (Cons xs xss)
  then show ?case by (cases i; cases j) (auto simp: disjoint_iff dest: nth_mem)
qed simp

lemma first_other_disjoint:
  assumes "distinct (concat subgraphs)" "j < length subgraphs" "i \<noteq> j" "p \<in> set (subgraphs ! j)"
  shows "first_other subgraphs i p = Some j"
proof (cases "first_other subgraphs i p")
  case None
  have "j \<in> set (filter (\<lambda>j. i \<noteq> j \<and> p \<in> set (subgraphs ! j)) [0..<length subgraphs])" using assms by simp
  then show ?thesis using None unfolding first_other_def by (cases "filter (\<lambda>j. i \<noteq> j \<and> p \<in> set (subgraphs ! j)) [0..<length subgraphs]") auto
next
  case (Some k)
  from distinct_concat_nth[OF assms(1,2) _ assms(4), of k] first_other_Some[OF Some] Some show ?thesis by simp
qed

lemma fold_place:
  assumes "inj_on pos (set is)" "\<forall>i \<in> set is. pos i < length ret" "distinct is"
  shows "i \<in> set is \<Longrightarrow> fold (\<lambda>i ret. ret[pos i := xs ! i]) is ret ! pos i = xs ! i"
    and "length (fold (\<lambda>i ret. ret[pos i := xs ! i]) is ret) = length ret"
    and "k \<notin> pos ` set is \<Longrightarrow> fold (\<lambda>i ret. ret[pos i := xs ! i]) is ret ! k = ret ! k"
proof -
  have "length (fold (\<lambda>i ret. ret[pos i := xs ! i]) is ret) = length ret \<and>
    (\<forall>k. k \<notin> pos ` set is \<longrightarrow> fold (\<lambda>i ret. ret[pos i := xs ! i]) is ret ! k = ret ! k) \<and>
    (\<forall>i \<in> set is. fold (\<lambda>i ret. ret[pos i := xs ! i]) is ret ! pos i = xs ! i)"
    using assms
  proof (induction "is" arbitrary: ret)
    case (Cons a "is")
    have "pos a \<notin> pos ` set is" using Cons.prems by auto
    then show ?case using Cons.IH[of "ret[pos a := xs ! a]"] Cons.prems by auto
  qed simp
  then show "i \<in> set is \<Longrightarrow> fold (\<lambda>i ret. ret[pos i := xs ! i]) is ret ! pos i = xs ! i"
    "length (fold (\<lambda>i ret. ret[pos i := xs ! i]) is ret) = length ret"
    "k \<notin> pos ` set is \<Longrightarrow> fold (\<lambda>i ret. ret[pos i := xs ! i]) is ret ! k = ret ! k"
    by blast+
qed

text \<open>A layer of the subgraph at \<open>j\<close> creates an input of a layer of the subgraph at \<open>i\<close>.\<close>

definition feeds :: "(nat \<Rightarrow> nat option list) \<Rightarrow> nat list list \<Rightarrow> nat \<Rightarrow> nat \<Rightarrow> bool" where
  "feeds creators subgraphs j i \<longleftrightarrow> i < length subgraphs \<and> j < length subgraphs \<and> i \<noteq> j \<and>
     (\<exists>layer \<in> set (subgraphs ! i). \<exists>p \<in> set (subgraphs ! j). Some p \<in> set (creators layer))"

lemma dependsOn_feeds:
  assumes "distinct (concat subgraphs)" "i < length subgraphs"
  shows "j \<in> set (dependsOn creators subgraphs i) \<longleftrightarrow> feeds creators subgraphs j i"
proof
  assume "j \<in> set (dependsOn creators subgraphs i)"
  then show "feeds creators subgraphs j i"
    using assms(2) by (auto simp: dependsOn_iff feeds_def dest!: first_other_Some)
next
  assume "feeds creators subgraphs j i"
  then show "j \<in> set (dependsOn creators subgraphs i)"
    using first_other_disjoint[OF assms(1), of j i] unfolding feeds_def dependsOn_iff by blast
qed

text \<open>
  C36. When the subgraphs are disjoint and no circle of them feeds itself, \<open>sortSubgraphs\<close> comes back with the same subgraphs in an
  order in which every subgraph stands after all those that create an input of one of its layers.
\<close>

theorem sorted_subgraphs_follow_data:
  assumes "distinct (concat subgraphs)"
    and "\<forall>i j. feeds creators subgraphs j i \<longrightarrow> (rank j :: nat) < rank i"
  shows "\<exists>ret pos. sortSubgraphs creators subgraphs = Inr ret \<and> length ret = length subgraphs \<and>
    bij_betw pos {..<length subgraphs} {..<length subgraphs} \<and>
    (\<forall>i < length subgraphs. ret ! pos i = subgraphs ! i) \<and>
    (\<forall>i j. feeds creators subgraphs j i \<longrightarrow> pos j < pos i)"
proof -
  let ?N = "length subgraphs" and ?deps = "dependsOn creators subgraphs"
  have deps: "\<forall>i < ?N. \<forall>j \<in> set (?deps i). j < ?N \<and> rank j < rank i"
    using assms(2) dependsOn_feeds[OF assms(1)] by (auto simp: feeds_def)
  have visit: "\<exists>st'. topoVisitSubgraph (Suc ?N) ?deps i st = Inr st' \<and> topo_ok ?N ?deps st' \<and> topo_more (\<lambda>_. True) st st' \<and>
      i \<in> dom (fst st')" if i: "i \<in> set [0..<?N]" and st: "topo_ok ?N ?deps st" for i st
  proof -
    have "card {k. k < ?N \<and> rank k < rank i} \<le> card {..<?N}" by (intro card_mono) auto
    then have card: "card {k. k < ?N \<and> rank k < rank i} < Suc ?N" by simp
    have "i < ?N" using i by simp
    from topoVisit_ok[where N = ?N and deps = ?deps and rank = rank, OF deps card this st]
    show ?thesis by (elim exE conjE) (intro exI conjI, assumption+, erule topo_more_mono, simp)
  qed
  obtain topo n where run: "foldE (topoVisitSubgraph (Suc ?N) ?deps) [0..<?N] (Map.empty, 0) = Inr (topo, n)"
    "topo_ok ?N ?deps (topo, n)" "{..<?N} \<subseteq> dom topo"
  proof -
    have "topo_ok ?N ?deps (Map.empty, 0)" by (simp add: topo_ok_def bij_betw_def)
    from topo_fold[OF visit this] obtain st where "foldE (topoVisitSubgraph (Suc ?N) ?deps) [0..<?N] (Map.empty, 0) = Inr st"
      "topo_ok ?N ?deps st" "set [0..<?N] \<subseteq> dom (fst st)"
      by blast
    then show thesis by (intro that[of "fst st" "snd st"]) (simp_all add: atLeast0LessThan del: topoVisitSubgraph.simps)
  qed
  define pos where "pos = (\<lambda>i. the (topo i))"
  note ok = run(2)[unfolded topo_ok_def, simplified]
  have dom: "dom topo = {..<?N}" using run(3) ok by blast
  then have bij: "bij_betw pos {..<?N} {..<n}" using ok unfolding pos_def o_def by simp
  then have n: "n = ?N" using bij_betw_same_card[OF bij] by simp
  have place: "inj_on pos (set [0..<?N])" "\<forall>i \<in> set [0..<?N]. pos i < length (replicate ?N [])" "distinct [0..<?N]"
    using bij n by (auto simp: bij_betw_def atLeast0LessThan)
  have "sortSubgraphs creators subgraphs =
      Inr (fold (\<lambda>i ret. ret[pos i := subgraphs ! i]) [0..<?N] (replicate ?N []))"
    by (simp add: sortSubgraphs_def run(1) pos_def del: topoVisitSubgraph.simps)
  moreover have "pos j < pos i" if "feeds creators subgraphs j i" for i j
  proof -
    have "i \<in> dom topo" "j \<in> set (?deps i)"
      using that dependsOn_feeds[OF assms(1)] dom by (auto simp: feeds_def)
    then show ?thesis using ok unfolding pos_def by blast
  qed
  ultimately show ?thesis
    using bij n fold_place(1)[OF place, where xs = subgraphs] fold_place(2)[OF place, where xs = subgraphs]
    by (intro exI[of _ "fold (\<lambda>i ret. ret[pos i := subgraphs ! i]) [0..<?N] (replicate ?N [])"] exI[of _ pos] conjI) simp_all
qed

text \<open>Two devices: layer 0 feeds layer 1, which feeds layer 2; the part with layer 1 is found first.\<close>

definition ex_creators :: "nat \<Rightarrow> nat option list" where [examples]:
  "ex_creators layer = (if layer = 0 then [] else [Some (layer - 1)])"

theorem sorted_subgraphs_follow_data_witness:
  "\<exists>ret pos. sortSubgraphs ex_creators [[1], [0], [2]] = Inr ret \<and> ret ! pos 1 = [0] \<and> pos 1 < (pos 0 :: nat) \<and> pos 0 < pos (2 :: nat)"
proof -
  have "\<forall>i j. feeds ex_creators [[1], [0], [2]] j i \<longrightarrow> [1, 0, 2 :: nat] ! j < [1, 0, 2] ! i"
    by (auto simp: examples feeds_def less_Suc_eq numeral_3_eq_3 split: if_splits)
  from sorted_subgraphs_follow_data[OF _ this]
  obtain ret pos where r: "sortSubgraphs ex_creators [[1], [0], [2]] = Inr ret"
    "\<forall>i < length [[1], [0], [2 :: nat]]. ret ! pos i = [[1], [0], [2]] ! i"
    "\<forall>i j. feeds ex_creators [[1], [0], [2]] j i \<longrightarrow> pos j < (pos i :: nat)"
    by auto
  have "pos 1 < pos 0" using r(3) by (simp add: examples feeds_def)
  moreover have "pos 0 < pos 2" using r(3)[rule_format, of 0 2] by (simp add: examples feeds_def)
  moreover have "ret ! pos 1 = [0]" using r(2)[rule_format, of 1] by simp
  ultimately show ?thesis using r(1) by blast
qed

end
