(* ===== verification/MemorySolver.thy ===== *)
theory MemorySolver
  imports Prelude
begin

text \<open>
  The CPU plugin's memory solver (\<open>src/src/mkldnn_plugin/mkldnn_memory_solver.cpp\<close>): it
  packs boxes (a lifetime in execution steps and a size) into one buffer so that boxes that
  live at the same time do not overlap in memory. \<open>int\<close> and \<open>int64_t\<close> are read as
  mathematical integers: the sums formed here overflow only past \<open>2^63\<close>, which is
  undefined behaviour in the code.
\<close>

section \<open>State and constructor\<close>

record Box =
  box_start :: int
  box_finish :: int
  box_size :: int
  box_id :: int

record MemorySolver =
  ms_boxes :: "Box list"
  ms_offsets :: "int \<rightharpoonup> int"
  ms_top_depth :: int
  ms_depth :: int
  ms_time_duration :: int

text \<open>The largest time stamp, and \<open>finish = -1\<close> ("till the end") replaced by it.\<close>

definition max_ts :: "Box list \<Rightarrow> int" where
  "max_ts boxes = fold (\<lambda>box m. max (max m (box_start box)) (box_finish box)) boxes 0"

definition resolve_finish :: "Box list \<Rightarrow> Box list" where
  "resolve_finish boxes =
     map (\<lambda>box. if box_finish box = -1 then box\<lparr>box_finish := max_ts boxes\<rparr> else box) boxes"

definition box_before :: "Box \<Rightarrow> Box \<Rightarrow> bool" where
  "box_before l r \<longleftrightarrow> box_start l < box_start r \<or>
     (box_start l = box_start r \<and> box_finish l < box_finish r)"

text \<open>\<open>std::vector<bool> ts_exist(max_ts+1)\<close>: which time stamps start a box.\<close>

definition mark_starts :: "Box list \<Rightarrow> int \<Rightarrow> bool list" where
  "mark_starts boxes mts =
     fold (\<lambda>b ex. ex[nat (box_start b) := True]) boxes (replicate (nat (mts + 1)) False)"

text \<open>\<open>while (ts < lim) if (!ts_exist[ts++]) rm++;\<close>\<close>

function skip_ts :: "bool list \<Rightarrow> int \<Rightarrow> int \<Rightarrow> int \<Rightarrow> int \<times> int" where
  "skip_ts ex lim ts rm =
     (if ts < lim then skip_ts ex lim (ts + 1) (if ex ! nat ts then rm else rm + 1) else (ts, rm))"
  by pat_completeness auto
termination
  by (relation "measure (\<lambda>(ex, lim, ts, rm). nat (lim - ts))") auto

declare skip_ts.simps [simp del]

text \<open>
  The loop that removes the time stamps no box starts at. Its state is
  \<open>(rm_ts_s, ts_s, rm_ts_f, ts_f)\<close>.
\<close>

fun compress_boxes ::
  "bool list \<Rightarrow> Box list \<Rightarrow> int \<times> int \<times> int \<times> int \<Rightarrow> Box list \<times> int \<times> int \<times> int \<times> int"
where
  "compress_boxes ex [] st = ([], st)"
| "compress_boxes ex (b # bs) (rm_s, ts_s, rm_f, ts_f) =
     (let (ts_s, rm_s) = skip_ts ex (box_start b) ts_s rm_s;
          (ts_f, rm_f) = (if ts_f > box_finish b + 1 then (ts_s, rm_s) else (ts_f, rm_f));
          (ts_f, rm_f) = skip_ts ex (box_finish b + 1) ts_f rm_f;
          b' = b\<lparr>box_start := box_start b - rm_s, box_finish := box_finish b - rm_f\<rparr>;
          (bs', st) = compress_boxes ex bs (rm_s, ts_s, rm_f, ts_f)
      in (b' # bs', st))"

definition mk_MemorySolver :: "Box list \<Rightarrow> MemorySolver" where
  "mk_MemorySolver boxes =
     (let mts = max_ts boxes;
          sorted_boxes = std_sort box_before (resolve_finish boxes);
          (bs, rm_s, ts_s, rm_f, ts_f) =
            compress_boxes (mark_starts sorted_boxes mts) sorted_boxes (0, 0, 0, 0)
      in \<lparr>ms_boxes = bs, ms_offsets = Map.empty, ms_top_depth = -1, ms_depth = -1,
          ms_time_duration = ts_f - rm_f\<rparr>)"

section \<open>Depth\<close>

text \<open>
  \<open>calcDepth\<close> sweeps over the boxes with the current depth, the current number of boxes and
  the map \<open>release_at\<close> from a time to the boxes that end just before it.
\<close>

fun calc_depth_loop ::
  "Box list \<Rightarrow> int \<Rightarrow> int \<Rightarrow> (int \<Rightarrow> Box list) \<Rightarrow> int \<Rightarrow> int \<Rightarrow> (int \<times> int) result"
where
  "calc_depth_loop [] top_depth depth release_at max_top max_depth = Inr (max_top, max_depth)"
| "calc_depth_loop (b # bs) top_depth depth release_at max_top max_depth =
     (let time = box_start b;
          release_at = release_at(box_finish b + 1 := release_at (box_finish b + 1) @ [b]);
          depth = depth + box_size b - (\<Sum>r \<leftarrow> release_at time. box_size r);
          top_depth = top_depth + 1 - int (length (release_at time));
          release_at = release_at(time := [])
      in bindE (ie_assert (top_depth > 0)) (\<lambda>_.
           calc_depth_loop bs top_depth depth release_at (max max_top top_depth) (max max_depth depth)))"

definition calcDepth :: "MemorySolver \<Rightarrow> MemorySolver result" where
  "calcDepth s =
     bindE (calc_depth_loop (ms_boxes s) 0 0 (\<lambda>_. []) (ms_top_depth s) (ms_depth s))
       (\<lambda>(t, d). Inr (s\<lparr>ms_top_depth := t, ms_depth := d\<rparr>))"

definition maxDepth :: "MemorySolver \<Rightarrow> (int \<times> MemorySolver) result" where
  "maxDepth s = bindE (if ms_depth s = -1 then calcDepth s else Inr s)
     (\<lambda>s. Inr (ms_depth s, s))"

definition maxTopDepth :: "MemorySolver \<Rightarrow> (int \<times> MemorySolver) result" where
  "maxTopDepth s = bindE (if ms_top_depth s = -1 then calcDepth s else Inr s)
     (\<lambda>s. Inr (ms_top_depth s, s))"

section \<open>Placement\<close>

definition popupTogetherWith :: "Box \<Rightarrow> Box \<Rightarrow> Box \<times> bool" where
  "popupTogetherWith box_new box_old =
     (if box_id box_new + box_size box_new > box_id box_old \<and>
         box_id box_old + box_size box_old > box_id box_new
      then (box_new\<lparr>box_id := box_id box_old + box_size box_old\<rparr>, True)
      else (box_new, False))"

text \<open>One round of the \<open>do\<close> loop: the inner \<open>for\<close> over a slot, the outer over the slots.\<close>

fun popup_slot :: "Box list \<Rightarrow> Box \<times> bool \<Rightarrow> Box \<times> bool" where
  "popup_slot [] st = st"
| "popup_slot (old # olds) (box, popped_up) =
     (let (box', p) = popupTogetherWith box old in popup_slot olds (box', popped_up \<or> p))"

definition popup_round :: "Box list list \<Rightarrow> Box \<Rightarrow> Box \<times> bool" where
  "popup_round slots box =
     fold (\<lambda>i st. popup_slot (slots ! nat i) st) [box_start box..box_finish box] (box, False)"

definition box_top :: "Box \<Rightarrow> int" where
  "box_top b = box_id b + box_size b"

definition mem_disjoint :: "Box \<Rightarrow> Box \<Rightarrow> bool" where
  "mem_disjoint a b \<longleftrightarrow> disjoint_ivl (box_id a) (box_size a) (box_id b) (box_size b)"

definition same_extent :: "Box \<Rightarrow> Box \<Rightarrow> bool" where
  "same_extent b b' \<longleftrightarrow> box_start b' = box_start b \<and> box_finish b' = box_finish b \<and>
     box_size b' = box_size b"

text \<open>
  A round either changes nothing, and then the new box is clear of every box it looked at, or
  it lifts the new box to the top of one of them.
\<close>

lemma popup_slot_append: "popup_slot (xs @ ys) st = popup_slot ys (popup_slot xs st)"
  by (induction xs st rule: popup_slot.induct) (auto split: prod.split)

lemma popup_slot_cases:
  "popup_slot olds (box, p) = (box', p') \<Longrightarrow>
     (box' = box \<and> p' = p \<and> (\<forall>old \<in> set olds. mem_disjoint box old)) \<or>
     (p' \<and> box_id box < box_id box' \<and> same_extent box box' \<and>
       (\<exists>old \<in> set olds. box_id box' = box_top old))"
proof (induction olds "(box, p)" arbitrary: box p rule: popup_slot.induct)
  case (2 old olds box p)
  obtain b1 p1 where b1: "popupTogetherWith box old = (b1, p1)" by force
  from "2.prems" b1 have "popup_slot olds (b1, p \<or> p1) = (box', p')" by simp
  from "2.hyps" [OF b1 [symmetric] refl this] b1 show ?case
    by (auto simp: popupTogetherWith_def mem_disjoint_def disjoint_ivl_def box_top_def
        same_extent_def split: if_splits)
qed auto

definition slots_content :: "Box list list \<Rightarrow> int \<Rightarrow> int \<Rightarrow> Box list" where
  "slots_content slots s f = concat (map (\<lambda>i. slots ! nat i) [s..f])"

lemma popup_round_content:
  "popup_round slots box = popup_slot (slots_content slots (box_start box) (box_finish box)) (box, False)"
proof -
  have "fold (\<lambda>i st. popup_slot (slots ! nat i) st) is st = popup_slot (concat (map (\<lambda>i. slots ! nat i) is)) st"
    for "is" :: "int list" and st
    by (induction "is" arbitrary: st) (auto simp: popup_slot_append)
  then show ?thesis by (simp add: popup_round_def slots_content_def)
qed

lemma popup_round_False:
  "popup_round slots box = (box', False) \<Longrightarrow>
     box' = box \<and> (\<forall>old \<in> set (slots_content slots (box_start box) (box_finish box)). mem_disjoint box old)"
  by (drule popup_slot_cases [OF trans [OF popup_round_content [symmetric]]]) auto

lemma popup_round_True:
  "popup_round slots box = (box', True) \<Longrightarrow>
     box_id box < box_id box' \<and> same_extent box box' \<and>
     (\<exists>old \<in> set (slots_content slots (box_start box) (box_finish box)). box_id box' = box_top old)"
  by (drule popup_slot_cases [OF trans [OF popup_round_content [symmetric]]]) auto

text \<open>The \<open>do .. while (popped_up)\<close> loop ends: each round passes the top of a stored box.\<close>

function popup_loop :: "Box list list \<Rightarrow> Box \<Rightarrow> Box" where
  "popup_loop slots box =
     (let (box', popped_up) = popup_round slots box
      in if popped_up then popup_loop slots box' else box')"
  by pat_completeness auto
termination
proof (relation "measure (\<lambda>(slots, box).
    card {old \<in> set (slots_content slots (box_start box) (box_finish box)). box_id box < box_top old})")
  fix slots box x box' popped_up
  assume x: "x = popup_round slots box" "(box', popped_up) = x" popped_up
  let ?live = "set (slots_content slots (box_start box) (box_finish box))"
  from x have r: "popup_round slots box = (box', True)" by simp
  note up = popup_round_True [OF r]
  then have "box_start box' = box_start box" "box_finish box' = box_finish box"
    by (simp_all add: same_extent_def)
  moreover have "{old \<in> ?live. box_id box' < box_top old} \<subset> {old \<in> ?live. box_id box < box_top old}"
    using up by auto
  then have "card {old \<in> ?live. box_id box' < box_top old} < card {old \<in> ?live. box_id box < box_top old}"
    by (intro psubset_card_mono) auto
  ultimately show "((slots, box'), slots, box) \<in> measure (\<lambda>(slots, box).
      card {old \<in> set (slots_content slots (box_start box) (box_finish box)). box_id box < box_top old})"
    by simp
qed simp

declare popup_loop.simps [simp del]

text \<open>The loop over the boxes, biggest first.\<close>

fun place_boxes ::
  "Box list \<Rightarrow> Box list list \<Rightarrow> int \<Rightarrow> (int \<rightharpoonup> int) \<Rightarrow> Box list \<times> int \<times> (int \<rightharpoonup> int)"
where
  "place_boxes [] time_slots min_required offsets = ([], min_required, offsets)"
| "place_boxes (b # bs) time_slots min_required offsets =
     (let box = popup_loop time_slots (b\<lparr>box_id := 0\<rparr>);
          time_slots = fold (\<lambda>i sl. sl[nat i := sl ! nat i @ [box]]) [box_start box..box_finish box] time_slots;
          (bs', m, offs) = place_boxes bs time_slots (max min_required (box_id box + box_size box))
            (offsets(box_id b \<mapsto> box_id box))
      in (box # bs', m, offs))"

definition solve :: "MemorySolver \<Rightarrow> (int \<times> MemorySolver) result" where
  "solve s =
     bindE (maxTopDepth s) (\<lambda>(_, s).
       let (bs, m, offs) = place_boxes (std_sort (\<lambda>l r. box_size l > box_size r) (ms_boxes s))
             (replicate (nat (ms_time_duration s)) []) 0 (ms_offsets s)
       in Inr (m, s\<lparr>ms_boxes := bs, ms_offsets := offs\<rparr>))"

definition getOffset :: "MemorySolver \<Rightarrow> int \<Rightarrow> int result" where
  "getOffset s i = (case ms_offsets s i of
     None \<Rightarrow> Inl (Thrown ''There are no box for provided ID'') | Some off \<Rightarrow> Inr off)"

section \<open>Placement: live boxes never overlap in memory\<close>

definition covers :: "Box \<Rightarrow> int \<Rightarrow> bool" where
  "covers b i \<longleftrightarrow> box_start b \<le> i \<and> i \<le> box_finish b"

definition live_together :: "Box \<Rightarrow> Box \<Rightarrow> bool" where
  "live_together a b \<longleftrightarrow> box_start a \<le> box_finish b \<and> box_start b \<le> box_finish a"

lemma live_together_covers:
  "box_start a \<le> box_finish a \<Longrightarrow> box_start b \<le> box_finish b \<Longrightarrow>
     live_together a b \<longleftrightarrow> (\<exists>i. covers a i \<and> covers b i)"
  unfolding live_together_def covers_def
  by (auto intro: exI [of _ "max (box_start a) (box_start b)"])

lemma mem_disjoint_sym: "mem_disjoint a b = mem_disjoint b a"
  by (simp add: mem_disjoint_def disjoint_ivl_sym)

lemma popup_loop_frame:
  "same_extent b (popup_loop slots b) \<and> box_id b \<le> box_id (popup_loop slots b)"
proof (induction slots b rule: popup_loop.induct)
  case (1 slots box)
  obtain box' p where r: "popup_round slots box = (box', p)" by force
  show ?case
  proof (cases p)
    case True
    with r have "box_id box < box_id box'" "same_extent box box'"
      by (auto dest: popup_round_True)
    with "1.IH" [OF r [symmetric] refl True] r True show ?thesis
      by (simp add: popup_loop.simps [of slots box] same_extent_def)
  next
    case False
    with r popup_round_False [of slots box box'] show ?thesis
      by (simp add: popup_loop.simps [of slots box] same_extent_def)
  qed
qed

lemma popup_loop_disjoint:
  "old \<in> set (slots_content slots (box_start b) (box_finish b)) \<Longrightarrow>
     mem_disjoint (popup_loop slots b) old"
proof (induction slots b rule: popup_loop.induct)
  case (1 slots box)
  obtain box' p where r: "popup_round slots box = (box', p)" by force
  show ?case
  proof (cases p)
    case True
    with r have "same_extent box box'" by (auto dest: popup_round_True)
    with "1.IH" [OF r [symmetric] refl True] "1.prems" r True show ?thesis
      by (simp add: popup_loop.simps [of slots box] same_extent_def)
  next
    case False
    with r "1.prems" popup_round_False [of slots box box'] show ?thesis
      by (simp add: popup_loop.simps [of slots box])
  qed
qed

text \<open>The time slots always list exactly the placed boxes that cover them.\<close>

definition slots_of :: "nat \<Rightarrow> Box list \<Rightarrow> Box list list" where
  "slots_of n ps = map (\<lambda>i. filter (\<lambda>b. covers b (int i)) ps) [0..<n]"

lemma slots_of_Nil: "slots_of n [] = replicate n []"
  by (simp add: slots_of_def map_replicate_const)

lemma fold_push_slots:
  assumes "0 \<le> s" "f < int n" "length slots = n"
  shows "fold (\<lambda>i sl. sl[nat i := sl ! nat i @ [b]]) [s..f] slots =
    map (\<lambda>i. if s \<le> int i \<and> int i \<le> f then slots ! i @ [b] else slots ! i) [0..<n]"
  using assms
proof (induction "nat (f - s + 1)" arbitrary: s slots)
  case 0
  then have "map (\<lambda>i. if s \<le> int i \<and> int i \<le> f then slots ! i @ [b] else slots ! i) [0..<n] =
      map ((!) slots) [0..<n]"
    by (intro map_cong) auto
  also have "\<dots> = slots" using 0 map_nth [of slots] by simp
  finally show ?case using 0 by simp
next
  case (Suc k)
  then have sf: "[s..f] = s # [s + 1..f]" by (simp add: upto_rec1)
  let ?slots = "slots[nat s := slots ! nat s @ [b]]"
  have "fold (\<lambda>i sl. sl[nat i := sl ! nat i @ [b]]) [s + 1..f] ?slots =
      map (\<lambda>i. if s + 1 \<le> int i \<and> int i \<le> f then ?slots ! i @ [b] else ?slots ! i) [0..<n]"
    by (rule Suc.hyps(1)) (use Suc in auto)
  also have "\<dots> = map (\<lambda>i. if s \<le> int i \<and> int i \<le> f then slots ! i @ [b] else slots ! i) [0..<n]"
    using Suc by (auto simp: nth_list_update)
  finally show ?case by (simp add: sf)
qed

lemma slots_of_snoc:
  assumes "0 \<le> box_start b" "box_finish b < int n"
  shows "fold (\<lambda>i sl. sl[nat i := sl ! nat i @ [b]]) [box_start b..box_finish b] (slots_of n ps) =
    slots_of n (ps @ [b])"
  using fold_push_slots [OF assms, of "slots_of n ps"]
  by (auto simp: slots_of_def covers_def)

lemma set_slots_content:
  assumes "0 \<le> s" "f < int n"
  shows "set (slots_content (slots_of n ps) s f) = {p \<in> set ps. \<exists>i. s \<le> i \<and> i \<le> f \<and> covers p i}"
proof -
  have "slots_of n ps ! nat i = filter (\<lambda>b. covers b i) ps" if "s \<le> i" "i \<le> f" for i
    using that assms by (simp add: slots_of_def nat_less_iff)
  then show ?thesis unfolding slots_content_def by auto
qed

definition placed_ok :: "Box list \<Rightarrow> bool" where
  "placed_ok ps \<longleftrightarrow> sorted_wrt (\<lambda>a b. live_together a b \<longrightarrow> mem_disjoint a b) ps"

definition fits_slots :: "nat \<Rightarrow> Box \<Rightarrow> bool" where
  "fits_slots n b \<longleftrightarrow> 0 \<le> box_start b \<and> box_start b \<le> box_finish b \<and> box_finish b < int n"

lemma popup_loop_moved:
  fixes b :: Box
  shows
  "same_extent b (popup_loop slots (b\<lparr>box_id := 0\<rparr>))"
  "0 \<le> box_id (popup_loop slots (b\<lparr>box_id := 0\<rparr>))"
  using popup_loop_frame [of "b\<lparr>box_id := 0\<rparr>" slots] by (simp_all add: same_extent_def)

lemma popup_loop_placed:
  assumes "placed_ok ps" "\<forall>p \<in> set ps. fits_slots n p" "fits_slots n b"
  shows "placed_ok (ps @ [popup_loop (slots_of n ps) (b\<lparr>box_id := 0\<rparr>)])"
proof -
  let ?b = "popup_loop (slots_of n ps) (b\<lparr>box_id := 0\<rparr>)"
  have se: "box_start ?b = box_start b" "box_finish ?b = box_finish b"
    using popup_loop_moved(1) [of b "slots_of n ps"] by (simp_all add: same_extent_def)
  have "mem_disjoint p ?b" if p: "p \<in> set ps" "live_together p ?b" for p
  proof -
    have "\<exists>i. covers p i \<and> covers ?b i"
      using p assms(2,3) se live_together_covers [of p ?b] by (auto simp: fits_slots_def)
    then have "p \<in> set (slots_content (slots_of n ps) (box_start b) (box_finish b))"
      using p assms(3) se by (auto simp: set_slots_content fits_slots_def covers_def)
    then have "mem_disjoint ?b p"
      using popup_loop_disjoint [of p "slots_of n ps" "b\<lparr>box_id := 0\<rparr>"] by simp
    then show ?thesis by (simp add: mem_disjoint_sym)
  qed
  with assms(1) show ?thesis by (auto simp: placed_ok_def sorted_wrt_append)
qed

lemma place_boxes_ok:
  assumes "place_boxes bs (slots_of n ps) m offs = (bs', m', offs')"
    and "placed_ok ps" "\<forall>p \<in> set ps. fits_slots n p" "\<forall>b \<in> set bs. fits_slots n b"
    and "distinct (map box_id bs)"
  shows "placed_ok (ps @ bs') \<and> m \<le> m' \<and>
    (\<forall>i. i \<notin> box_id ` set bs \<longrightarrow> offs' i = offs i) \<and>
    list_all2 (\<lambda>b b'. same_extent b b' \<and> 0 \<le> box_id b' \<and> box_id b' + box_size b' \<le> m' \<and> offs' (box_id b) = Some (box_id b')) bs bs'"
  using assms
proof (induction bs arbitrary: ps m offs bs' m' offs')
  case (Cons b bs)
  define b1 where "b1 = popup_loop (slots_of n ps) (b\<lparr>box_id := 0\<rparr>)"
  have mv: "same_extent b b1" "0 \<le> box_id b1"
    unfolding b1_def by (rule popup_loop_moved)+
  then have fit: "fits_slots n b1"
    using Cons.prems(4) by (simp add: fits_slots_def same_extent_def)
  have slots: "fold (\<lambda>i sl. sl[nat i := sl ! nat i @ [b1]]) [box_start b1..box_finish b1] (slots_of n ps) =
      slots_of n (ps @ [b1])"
    using fit by (intro slots_of_snoc) (auto simp: fits_slots_def)
  obtain bs1 m1 offs1 where r: "place_boxes bs (slots_of n (ps @ [b1]))
      (max m (box_id b1 + box_size b1)) (offs(box_id b \<mapsto> box_id b1)) = (bs1, m1, offs1)"
    by (metis prod_cases3)
  have res: "bs' = b1 # bs1" "m' = m1" "offs' = offs1"
    using Cons.prems(1) by (simp_all add: b1_def [symmetric] slots r Let_def)
  have "placed_ok (ps @ [b1])"
    using Cons.prems unfolding b1_def by (intro popup_loop_placed) auto
  from Cons.IH [OF r this] Cons.prems(3-5) fit res mv show ?case
    by auto
qed simp

section \<open>Removing the unused time stamps\<close>

text \<open>\<open>rank E t\<close>: how many time stamps of \<open>E\<close> lie in \<open>[0, t)\<close>.\<close>

definition rank :: "int set \<Rightarrow> int \<Rightarrow> int" where
  "rank E t = int (card (E \<inter> {0..<t}))"

lemma rank_0 [simp]: "rank E 0 = 0"
  by (simp add: rank_def)

lemma rank_nonneg [simp]: "0 \<le> rank E t"
  by (simp add: rank_def)

lemma rank_Suc: "0 \<le> t \<Longrightarrow> rank E (t + 1) = rank E t + (if t \<in> E then 1 else 0)"
proof -
  assume "0 \<le> t"
  then have "E \<inter> {0..<t + 1} = (if t \<in> E then insert t (E \<inter> {0..<t}) else E \<inter> {0..<t})"
    by (auto simp: order_le_less)
  then show ?thesis by (simp add: rank_def)
qed

lemma rank_mono: "s \<le> t \<Longrightarrow> rank E s \<le> rank E t"
  unfolding rank_def by (intro of_nat_mono card_mono) auto

lemma rank_less_iff: "s \<in> E \<Longrightarrow> 0 \<le> s \<Longrightarrow> rank E s < rank E t \<longleftrightarrow> s < t"
  using rank_mono [of "s + 1" t E] rank_mono [of t s E] rank_Suc [of s E] by (cases "s < t") auto

lemma rank_total: "E \<subseteq> {0..<t} \<Longrightarrow> rank E t = int (card E)"
  by (simp add: rank_def Int_absorb2)

text \<open>Every number below a rank is the rank of a time stamp of \<open>E\<close>.\<close>

lemma rank_surj:
  assumes "0 \<le> r" "r < rank E t"
  shows "\<exists>e \<in> E. 0 \<le> e \<and> e < t \<and> rank E e = r"
proof -
  have "r < rank E (int n) \<Longrightarrow> \<exists>e \<in> E. 0 \<le> e \<and> e < int n \<and> rank E e = r" for n
  proof (induction n)
    case (Suc n)
    show ?case
    proof (cases "r < rank E (int n)")
      case True
      with Suc.IH show ?thesis by force
    next
      case False
      with Suc.prems rank_Suc [of "int n" E] have "int n \<in> E" "rank E (int n) = r"
        by (auto simp: add.commute split: if_splits)
      then show ?thesis by (intro bexI [of _ "int n"]) auto
    qed
  qed (use assms in simp)
  from this [of "nat t"] assms(2) show ?thesis
    by (cases "0 \<le> t") (auto simp: rank_def)
qed

lemma skip_ts_rank:
  assumes "0 \<le> ts" "\<forall>i. 0 \<le> i \<and> i < lim \<longrightarrow> ex ! nat i = (i \<in> E)"
  shows "skip_ts ex lim ts (ts - rank E ts) = (max ts lim, max ts lim - rank E (max ts lim))"
  using assms
proof (induction "nat (lim - ts)" arbitrary: ts)
  case 0
  then show ?case by (simp add: skip_ts.simps [of ex lim ts])
next
  case (Suc k)
  then have "ts < lim" and "ex ! nat ts = (ts \<in> E)" by auto
  moreover have "ts + 1 - rank E (ts + 1) = (if ts \<in> E then ts - rank E ts else ts - rank E ts + 1)"
    using rank_Suc [OF Suc.prems(1), of E] by simp
  ultimately have "skip_ts ex lim ts (ts - rank E ts) = skip_ts ex lim (ts + 1) (ts + 1 - rank E (ts + 1))"
    by (subst skip_ts.simps) simp
  with Suc.hyps(1) [of "ts + 1"] Suc.hyps(2) Suc.prems \<open>ts < lim\<close> show ?case by (simp add: max_def)
qed

lemma mark_starts_nth:
  assumes "\<forall>b \<in> set bs. 0 \<le> box_start b \<and> box_start b \<le> mts" "0 \<le> i" "i \<le> mts"
  shows "mark_starts bs mts ! nat i = (i \<in> box_start ` set bs)"
proof -
  have "length ex = nat (mts + 1) \<Longrightarrow>
      fold (\<lambda>b ex. ex[nat (box_start b) := True]) bs ex ! nat i = (ex ! nat i \<or> i \<in> box_start ` set bs)" for ex
    using assms
    by (induction bs arbitrary: ex) (auto simp: nth_list_update)
  from this [of "replicate (nat (mts + 1)) False"] assms(2,3) show ?thesis
    by (simp add: mark_starts_def)
qed

definition compressed_to :: "int set \<Rightarrow> Box \<Rightarrow> Box \<Rightarrow> bool" where
  "compressed_to E b b' \<longleftrightarrow> box_start b' = rank E (box_start b) \<and>
     box_finish b' = rank E (box_finish b + 1) - 1 \<and> box_size b' = box_size b \<and> box_id b' = box_id b"

lemma compress_boxes_rank:
  assumes "compress_boxes ex bs (ts_s - rank E ts_s, ts_s, ts_f - rank E ts_f, ts_f) = (bs', rs', s', rf', f')"
    and "\<forall>i. 0 \<le> i \<and> i \<le> mts \<longrightarrow> ex ! nat i = (i \<in> E)"
    and "\<forall>b \<in> set bs. ts_s \<le> box_start b \<and> box_start b \<le> box_finish b \<and> box_finish b \<le> mts"
    and "sorted_wrt (\<lambda>a b. box_start a \<le> box_start b) bs" "0 \<le> ts_s" "0 \<le> ts_f"
  shows "list_all2 (compressed_to E) bs bs' \<and>
    f' - rf' = (if bs = [] then rank E ts_f else rank E (box_finish (last bs) + 1))"
  using assms
proof (induction bs arbitrary: ts_s ts_f bs')
  case (Cons b bs)
  let ?s = "box_start b" and ?f = "box_finish b + 1"
  have s: "skip_ts ex ?s ts_s (ts_s - rank E ts_s) = (?s, ?s - rank E ?s)"
    using Cons.prems by (subst skip_ts_rank) auto
  obtain f0 where f0: "(if ts_f > ?f then (?s, ?s - rank E ?s) else (ts_f, ts_f - rank E ts_f)) =
      (f0, f0 - rank E f0)" "0 \<le> f0" "f0 \<le> ?f"
    using Cons.prems by (cases "ts_f > ?f") auto
  have f: "skip_ts ex ?f f0 (f0 - rank E f0) = (?f, ?f - rank E ?f)"
    using Cons.prems f0 by (subst skip_ts_rank) auto
  obtain bs1 st1 where r: "compress_boxes ex bs (?s - rank E ?s, ?s, ?f - rank E ?f, ?f) = (bs1, st1)"
    by (metis surj_pair)
  have eqs: "bs' = b\<lparr>box_start := ?s - (?s - rank E ?s), box_finish := box_finish b - (?f - rank E ?f)\<rparr> # bs1"
    "st1 = (rs', s', rf', f')"
    using Cons.prems(1) r by (simp_all add: s f0 f Let_def)
  have "list_all2 (compressed_to E) bs bs1 \<and>
      f' - rf' = (if bs = [] then rank E ?f else rank E (box_finish (last bs) + 1))"
    by (rule Cons.IH [OF r [unfolded eqs(2)] Cons.prems(2)]) (use Cons.prems in auto)
  moreover have "compressed_to E b (hd bs')"
    by (simp add: eqs(1) compressed_to_def)
  ultimately show ?case by (simp add: eqs(1))
qed simp

definition valid_boxes :: "Box list \<Rightarrow> bool" where
  "valid_boxes boxes \<longleftrightarrow> distinct (map box_id boxes) \<and>
     (\<forall>b \<in> set boxes. 0 \<le> box_start b \<and> (box_finish b = -1 \<or> box_start b \<le> box_finish b))"

lemma max_ts_ge:
  "b \<in> set boxes \<Longrightarrow> box_start b \<le> max_ts boxes \<and> box_finish b \<le> max_ts boxes"
proof -
  have "m \<le> fold (\<lambda>box m. max (max m (box_start box)) (box_finish box)) boxes m \<and>
      (\<forall>b \<in> set boxes. box_start b \<le> fold (\<lambda>box m. max (max m (box_start box)) (box_finish box)) boxes m \<and>
        box_finish b \<le> fold (\<lambda>box m. max (max m (box_start box)) (box_finish box)) boxes m)" for m
  proof (induction boxes arbitrary: m)
    case (Cons b boxes)
    show ?case using Cons [of "max (max m (box_start b)) (box_finish b)"] by auto
  qed simp
  then show "b \<in> set boxes \<Longrightarrow> ?thesis" by (simp add: max_ts_def)
qed

definition lifetimes_ok :: "int \<Rightarrow> Box list \<Rightarrow> bool" where
  "lifetimes_ok mts bs \<longleftrightarrow>
     (\<forall>b \<in> set bs. 0 \<le> box_start b \<and> box_start b \<le> box_finish b \<and> box_finish b \<le> mts)"

lemma resolve_finish_ok:
  assumes "valid_boxes boxes"
  shows "lifetimes_ok (max_ts boxes) (resolve_finish boxes)"
    and "map box_id (resolve_finish boxes) = map box_id boxes"
    and "map box_size (resolve_finish boxes) = map box_size boxes"
  using assms max_ts_ge [of _ boxes]
  by (auto simp: resolve_finish_def valid_boxes_def lifetimes_ok_def)

lemma box_before_swo: "strict_weak_order box_before"
  unfolding strict_weak_order_def box_before_def by auto

lemma sorted_starts:
  "sorted_wrt (\<lambda>a b. box_start a \<le> box_start b) (std_sort box_before bs)"
  by (rule sorted_wrt_mono_rel [OF _ sorted_std_sort [OF box_before_swo]])
    (auto simp: box_before_def)

text \<open>
  What the constructor leaves behind: the boxes sorted by start, every time stamp replaced by
  its rank among the starts, and the duration the number of distinct starts.
\<close>

lemma mk_MemorySolver_boxes:
  fixes boxes :: "Box list"
  assumes "valid_boxes boxes"
  defines "bs \<equiv> std_sort box_before (resolve_finish boxes)"
    and "E \<equiv> box_start ` set (resolve_finish boxes)"
  shows "list_all2 (compressed_to E) bs (ms_boxes (mk_MemorySolver boxes))"
    and "ms_time_duration (mk_MemorySolver boxes) = int (card E)"
    and "ms_offsets (mk_MemorySolver boxes) = Map.empty"
    and "ms_top_depth (mk_MemorySolver boxes) = -1" and "ms_depth (mk_MemorySolver boxes) = -1"
proof -
  let ?mts = "max_ts boxes"
  have ok: "lifetimes_ok ?mts bs"
    using resolve_finish_ok(1) [OF assms(1)] by (simp add: bs_def lifetimes_ok_def)
  obtain cs rs s rf f where r: "compress_boxes (mark_starts bs ?mts) bs (0, 0, 0, 0) = (cs, rs, s, rf, f)"
    by (metis prod_cases5)
  have mark: "\<forall>i. 0 \<le> i \<and> i \<le> ?mts \<longrightarrow> mark_starts bs ?mts ! nat i = (i \<in> E)"
  proof (intro allI impI)
    fix i assume i: "0 \<le> i \<and> i \<le> ?mts"
    have "\<forall>b \<in> set bs. 0 \<le> box_start b \<and> box_start b \<le> ?mts"
      using ok by (fastforce simp: lifetimes_ok_def)
    from mark_starts_nth [OF this] i show "mark_starts bs ?mts ! nat i = (i \<in> E)"
      by (simp add: bs_def E_def)
  qed
  have c: "list_all2 (compressed_to E) bs cs \<and>
      f - rf = (if bs = [] then rank E 0 else rank E (box_finish (last bs) + 1))"
    by (rule compress_boxes_rank [where ts_s = 0 and ts_f = 0, OF _ mark])
      (use r ok sorted_starts in \<open>auto simp: lifetimes_ok_def bs_def\<close>)
  have mk: "mk_MemorySolver boxes = \<lparr>ms_boxes = cs, ms_offsets = Map.empty, ms_top_depth = -1,
      ms_depth = -1, ms_time_duration = f - rf\<rparr>"
    using r by (simp add: mk_MemorySolver_def bs_def)
  have "f - rf = int (card E)"
  proof (cases "bs = []")
    case True
    then have "set (resolve_finish boxes) = {}" unfolding bs_def by (metis set_empty set_std_sort)
    with True c show ?thesis by (simp add: E_def)
  next
    case False
    have "box_start b \<le> box_start (last bs)" if "b \<in> set bs" for b
      using that False sorted_starts [of "resolve_finish boxes"]
      by (cases bs rule: rev_cases) (auto simp: bs_def [symmetric] sorted_wrt_append)
    moreover have "last bs \<in> set bs" using False by simp
    ultimately have "E \<subseteq> {0..<box_finish (last bs) + 1}"
      using ok by (fastforce simp: E_def bs_def lifetimes_ok_def)
    with False c rank_total show ?thesis by simp
  qed
  with c mk show "list_all2 (compressed_to E) bs (ms_boxes (mk_MemorySolver boxes))"
    "ms_time_duration (mk_MemorySolver boxes) = int (card E)"
    "ms_offsets (mk_MemorySolver boxes) = Map.empty"
    "ms_top_depth (mk_MemorySolver boxes) = -1" "ms_depth (mk_MemorySolver boxes) = -1"
    by simp_all
qed

lemma compressed_live_together:
  assumes "compressed_to E a a'" "compressed_to E b b'" "box_start a \<in> E" "box_start b \<in> E"
    "0 \<le> box_start a" "0 \<le> box_start b"
  shows "live_together a' b' = live_together a b"
  using assms rank_less_iff [of "box_start a" E "box_finish b + 1"]
    rank_less_iff [of "box_start b" E "box_finish a + 1"]
  by (auto simp: live_together_def compressed_to_def)

section \<open>The depth sweep\<close>

definition live_sum :: "(Box \<Rightarrow> int) \<Rightarrow> Box list \<Rightarrow> int \<Rightarrow> int" where
  "live_sum w bs t = (\<Sum>b \<leftarrow> filter (\<lambda>b. covers b t) bs. w b)"

text \<open>What is still held when the sweep has passed the boxes \<open>ps\<close> and stands at time \<open>t\<close>.\<close>

definition held :: "(Box \<Rightarrow> int) \<Rightarrow> Box list \<Rightarrow> int \<Rightarrow> int" where
  "held w ps t = (\<Sum>b \<leftarrow> filter (\<lambda>b. t \<le> box_finish b) ps. w b)"

definition sweep_ok :: "int \<Rightarrow> Box list \<Rightarrow> bool" where
  "sweep_ok t bs \<longleftrightarrow> sorted_wrt (\<lambda>a b. box_start a \<le> box_start b) bs \<and>
     (\<forall>b \<in> set bs. t \<le> box_start b \<and> box_start b \<le> box_finish b) \<and>
     (\<forall>b \<in> set bs. \<forall>u. t < u \<and> u < box_start b \<longrightarrow> u \<in> box_start ` set bs)"

text \<open>The values the sweep takes its maximum over: one per box.\<close>

fun sweep_values :: "(Box \<Rightarrow> int) \<Rightarrow> Box list \<Rightarrow> Box list \<Rightarrow> int list" where
  "sweep_values w ps [] = []"
| "sweep_values w ps (b # bs) = held w (ps @ [b]) (box_start b) # sweep_values w (ps @ [b]) bs"

lemma held_Suc: "held w ps t = held w ps (t + 1) + (\<Sum>b \<leftarrow> filter (\<lambda>b. box_finish b = t) ps. w b)"
  unfolding held_def by (induction ps) auto

lemma held_snoc: "t \<le> box_finish b \<Longrightarrow> held w (ps @ [b]) t = held w ps t + w b"
  by (simp add: held_def)

lemma sweep_okD:
  assumes "sweep_ok t (b # bs)"
  shows "box_start b = t \<or> box_start b = t + 1" "box_start b \<le> box_finish b"
    "sweep_ok (box_start b) bs"
proof -
  have "\<not> t + 1 < box_start b"
  proof
    assume "t + 1 < box_start b"
    then have "t + 1 \<in> box_start ` set (b # bs)" using assms unfolding sweep_ok_def by force
    then obtain c where "c \<in> set (b # bs)" "box_start c = t + 1" by (metis imageE)
    moreover have "box_start b \<le> box_start c" using assms calculation(1) by (auto simp: sweep_ok_def)
    ultimately show False using \<open>t + 1 < box_start b\<close> by simp
  qed
  with assms show "box_start b = t \<or> box_start b = t + 1" by (fastforce simp: sweep_ok_def)
  from assms show "box_start b \<le> box_finish b" by (simp add: sweep_ok_def)
  show "sweep_ok (box_start b) bs"
    unfolding sweep_ok_def
  proof (intro conjI ballI allI impI)
    fix c u assume c: "c \<in> set bs" "box_start b < u \<and> u < box_start c"
    have "t \<le> box_start b" using assms by (simp add: sweep_ok_def)
    moreover have "t < u \<Longrightarrow> u < box_start c \<Longrightarrow> u \<in> box_start ` set (b # bs)"
      using assms c(1) by (simp add: sweep_ok_def)
    ultimately have "u \<in> box_start ` set (b # bs)" using c(2) by linarith
    with c(2) show "u \<in> box_start ` set bs" by auto
  qed (use assms in \<open>auto simp: sweep_ok_def\<close>)
qed

lemma calc_depth_loop_sweep:
  assumes "sweep_ok t bs" "\<forall>u. rel u = (if u \<le> t then [] else filter (\<lambda>b. box_finish b + 1 = u) ps)"
    and "\<forall>b \<in> set ps. box_start b \<le> box_finish b"
  shows "calc_depth_loop bs (held (\<lambda>_. 1) ps t) (held box_size ps t) rel mt md =
    Inr (fold max (sweep_values (\<lambda>_. 1) ps bs) mt, fold max (sweep_values box_size ps bs) md)"
  using assms
proof (induction bs arbitrary: t ps rel mt md)
  case (Cons b bs)
  let ?s = "box_start b" and ?f = "box_finish b + 1"
  note ok = sweep_okD [OF Cons.prems(1)]
  define rel1 where "rel1 = rel(?f := rel ?f @ [b])"
  have at_s: "rel1 ?s = (if ?s = t then [] else filter (\<lambda>b. box_finish b = t) ps)"
    using ok(1,2) Cons.prems(2) by (auto simp: rel1_def)
  have step: "held w ps t + w b - (\<Sum>r \<leftarrow> rel1 ?s. w r) = held w (ps @ [b]) ?s" for w
    using ok(1) held_Suc [of w ps t] by (auto simp: at_s held_snoc ok(2))
  from step [of "\<lambda>_. 1"] have top: "held (\<lambda>_. 1) ps t + 1 - int (length (rel1 ?s)) = held (\<lambda>_. 1) (ps @ [b]) ?s"
    by (simp add: sum_list_triv)
  have pos: "0 < held (\<lambda>_. 1) (ps @ [b]) ?s"
    using ok(2) by (simp add: held_def sum_list_triv)
  with top have pos': "int (length (rel1 ?s)) \<le> held (\<lambda>_. 1) ps t" by simp
  have "calc_depth_loop bs (held (\<lambda>_. 1) (ps @ [b]) ?s) (held box_size (ps @ [b]) ?s) (rel1(?s := []))
      (max mt (held (\<lambda>_. 1) (ps @ [b]) ?s)) (max md (held box_size (ps @ [b]) ?s)) =
    Inr (fold max (sweep_values (\<lambda>_. 1) (ps @ [b]) bs) (max mt (held (\<lambda>_. 1) (ps @ [b]) ?s)),
      fold max (sweep_values box_size (ps @ [b]) bs) (max md (held box_size (ps @ [b]) ?s)))"
    by (rule Cons.IH [OF ok(3)]) (use Cons.prems(2,3) ok(1,2) in \<open>auto simp: rel1_def\<close>)
  with pos' show ?case
    by (simp add: Let_def rel1_def [symmetric] step top max.commute)
qed simp

text \<open>The maximum of the sweep is the peak over all times, for non-negative weights.\<close>

lemma held_le_live_sum:
  assumes "\<forall>b \<in> set (ps @ bs). 0 \<le> w b" "\<forall>b \<in> set ps. box_start b \<le> t"
  shows "held w ps t \<le> live_sum w (ps @ bs) t"
proof -
  have "filter (\<lambda>b. covers b t) ps = filter (\<lambda>b. t \<le> box_finish b) ps"
    using assms(2) by (auto intro!: filter_cong simp: covers_def)
  moreover have "0 \<le> live_sum w bs t" using assms(1) by (auto simp: live_sum_def intro!: sum_list_nonneg)
  ultimately show ?thesis by (simp add: live_sum_def held_def)
qed

lemma sum_list_filter_mono:
  fixes w :: "'a \<Rightarrow> int"
  assumes "\<forall>x \<in> set xs. 0 \<le> w x" "\<forall>x \<in> set xs. P x \<longrightarrow> Q x"
  shows "sum_list (map w (filter P xs)) \<le> sum_list (map w (filter Q xs))"
  using assms by (induction xs) auto

lemma sweep_values_le:
  assumes "v \<in> set (sweep_values w ps bs)" "\<forall>b \<in> set (ps @ bs). 0 \<le> w b"
    "sorted_wrt (\<lambda>a b. box_start a \<le> box_start b) (ps @ bs)"
  shows "\<exists>t. v \<le> live_sum w (ps @ bs) t"
  using assms
proof (induction bs arbitrary: ps)
  case (Cons b bs)
  show ?case
  proof (cases "v = held w (ps @ [b]) (box_start b)")
    case True
    have "held w (ps @ [b]) (box_start b) \<le> live_sum w ((ps @ [b]) @ bs) (box_start b)"
      by (rule held_le_live_sum) (use Cons.prems in \<open>auto simp: sorted_wrt_append\<close>)
    with True show ?thesis by auto
  next
    case False
    with Cons.prems Cons.IH [of "ps @ [b]"] show ?thesis by simp
  qed
qed simp

lemma live_sum_le_sweep:
  assumes "\<forall>b \<in> set (ps @ bs). 0 \<le> w b" "sorted_wrt (\<lambda>a b. box_start a \<le> box_start b) (ps @ bs)"
    "bs \<noteq> []" "box_start (hd bs) \<le> t"
  shows "\<exists>v \<in> set (sweep_values w ps bs). live_sum w (ps @ bs) t \<le> v"
  using assms
proof (induction bs arbitrary: ps)
  case (Cons b bs)
  show ?case
  proof (cases "bs \<noteq> [] \<and> box_start (hd bs) \<le> t")
    case True
    with Cons.prems Cons.IH [of "ps @ [b]"] show ?thesis by auto
  next
    case False
    have "live_sum w bs t = 0"
    proof -
      have "\<not> covers c t" if "c \<in> set bs" for c
        using False that Cons.prems(2)
        by (cases bs) (auto simp: sorted_wrt_append covers_def)
      then show ?thesis by (simp add: live_sum_def filter_empty_conv)
    qed
    then have "live_sum w (ps @ b # bs) t = live_sum w (ps @ [b]) t"
      by (simp add: live_sum_def)
    also have "\<dots> \<le> held w (ps @ [b]) (box_start b)"
      unfolding live_sum_def held_def
      by (rule sum_list_filter_mono) (use Cons.prems in \<open>auto simp: covers_def\<close>)
    finally show ?thesis by auto
  qed
qed simp

definition is_peak :: "(Box \<Rightarrow> int) \<Rightarrow> Box list \<Rightarrow> int \<Rightarrow> bool" where
  "is_peak w bs d \<longleftrightarrow> (\<forall>t. live_sum w bs t \<le> d) \<and> (\<exists>t. live_sum w bs t = d)"

lemma fold_max_ge: "fold max xs (m::int) \<ge> m \<and> (\<forall>x \<in> set xs. x \<le> fold max xs m)"
proof (induction xs arbitrary: m)
  case (Cons x xs)
  from Cons [of "max x m"] show ?case by simp
qed simp

lemma fold_max_in: "fold max xs (m::int) = m \<or> fold max xs m \<in> set xs"
proof (induction xs arbitrary: m)
  case (Cons x xs)
  from Cons [of "max x m"] show ?case by (auto simp: max_def)
qed simp

lemma sweep_peak:
  assumes "\<forall>b \<in> set bs. 0 \<le> w b" "sorted_wrt (\<lambda>a b. box_start a \<le> box_start b) bs" "bs \<noteq> []"
  shows "is_peak w bs (fold max (sweep_values w [] bs) (-1))"
proof -
  let ?d = "fold max (sweep_values w [] bs) (-1)"
  have upper: "live_sum w bs t \<le> ?d" for t
  proof (cases "box_start (hd bs) \<le> t")
    case True
    with live_sum_le_sweep [of "[]" bs w t] assms fold_max_ge [of "-1" "sweep_values w [] bs"]
    show ?thesis by force
  next
    case False
    then have "\<not> covers b t" if "b \<in> set bs" for b
      using that assms(2) by (cases bs) (auto simp: covers_def)
    then have z: "live_sum w bs t = 0" by (simp add: live_sum_def filter_empty_conv)
    obtain b bs' where "bs = b # bs'" using assms(3) by (cases bs) auto
    then have "held w [b] (box_start b) \<in> set (sweep_values w [] bs)" "0 \<le> held w [b] (box_start b)"
      using assms(1) by (auto simp: held_def)
    with z fold_max_ge [of "-1" "sweep_values w [] bs"] show ?thesis by force
  qed
  have "0 \<le> live_sum w bs 0"
    using assms(1) by (auto simp: live_sum_def intro!: sum_list_nonneg)
  with upper [of 0] have "?d \<noteq> -1" by linarith
  then have "?d \<in> set (sweep_values w [] bs)"
    using fold_max_in [of "sweep_values w [] bs" "-1"] by simp
  with sweep_values_le [of ?d w "[]" bs] assms obtain t where "?d \<le> live_sum w bs t" by auto
  with upper [of t] have "live_sum w bs t = ?d" by simp
  with upper show ?thesis unfolding is_peak_def by blast
qed

section \<open>The constructed solver is fit for the sweep and the placement\<close>

lemma compressed_ok:
  fixes boxes :: "Box list"
  assumes "valid_boxes boxes"
  defines "s0 \<equiv> mk_MemorySolver boxes"
  shows "sorted_wrt (\<lambda>a b. box_start a \<le> box_start b) (ms_boxes s0)"
    and "\<forall>b \<in> set (ms_boxes s0). fits_slots (nat (ms_time_duration s0)) b"
    and "sweep_ok (-1) (ms_boxes s0)"
    and "distinct (map box_id (ms_boxes s0))"
    and "map box_size (ms_boxes s0) = map box_size (std_sort box_before (resolve_finish boxes))"
proof -
  let ?bs = "std_sort box_before (resolve_finish boxes)"
  let ?cs = "ms_boxes s0"
  define E where "E = box_start ` set (resolve_finish boxes)"
  have rel: "list_all2 (compressed_to E) ?bs ?cs" and dur: "ms_time_duration s0 = int (card E)"
    unfolding s0_def E_def using mk_MemorySolver_boxes [OF assms(1)] by blast+
  have life: "0 \<le> box_start b" "box_start b \<le> box_finish b" "box_start b \<in> E" if "b \<in> set ?bs" for b
    using resolve_finish_ok(1) [OF assms(1)] that by (auto simp: lifetimes_ok_def E_def)
  have orig: "\<exists>b \<in> set ?bs. compressed_to E b c" if "c \<in> set ?cs" for c
    using rel that by (metis list_all2_conv_all_nth in_set_conv_nth)
  have len: "length ?bs = length ?cs" using rel by (rule list_all2_lengthD)
  show sorted: "sorted_wrt (\<lambda>a b. box_start a \<le> box_start b) ?cs"
    using sorted_starts [of "resolve_finish boxes"] rel
    by (auto simp: sorted_wrt_iff_nth_less list_all2_conv_all_nth compressed_to_def intro!: rank_mono)
  have ids: "map box_id ?cs = map box_id ?bs" and "map box_size ?cs = map box_size ?bs"
    using rel len by (auto simp: list_all2_conv_all_nth compressed_to_def intro!: nth_equalityI)
  then show "map box_size ?cs = map box_size ?bs" by simp
  show "distinct (map box_id ?cs)"
    using assms(1) resolve_finish_ok(2) [OF assms(1)] by (simp only: ids distinct_map_std_sort valid_boxes_def)
  have E: "finite E" "E \<subseteq> {0..}" using life by (auto simp: E_def)
  have fits: "fits_slots (card E) c" if c: "c \<in> set ?cs" for c
  proof -
    obtain b where b: "b \<in> set ?bs" "compressed_to E b c" using orig [OF c] by blast
    have "rank E (box_start b) < rank E (box_finish b + 1)"
      using life [OF b(1)] by (simp add: rank_less_iff)
    moreover have "rank E (box_finish b + 1) \<le> int (card E)"
      unfolding rank_def using E(1) by (intro of_nat_mono card_mono) auto
    ultimately show ?thesis using b(2) by (simp add: fits_slots_def compressed_to_def)
  qed
  then show "\<forall>b \<in> set ?cs. fits_slots (nat (ms_time_duration s0)) b" by (simp add: dur)
  have "u \<in> box_start ` set ?cs" if c: "c \<in> set ?cs" and u: "-1 < u" "u < box_start c" for c u
  proof -
    obtain b where b: "b \<in> set ?bs" "compressed_to E b c" using orig [OF c] by blast
    with u obtain e where e: "e \<in> E" "rank E e = u"
      using rank_surj [of u E "box_start b"] by (auto simp: compressed_to_def)
    then obtain a where "a \<in> set ?bs" "box_start a = e" by (auto simp: E_def)
    then obtain i where "i < length ?bs" "?bs ! i = a" by (metis in_set_conv_nth)
    with rel e \<open>box_start a = e\<close> have "box_start (?cs ! i) = u" "?cs ! i \<in> set ?cs"
      by (auto simp: list_all2_conv_all_nth compressed_to_def)
    then show ?thesis by force
  qed
  with sorted fits show "sweep_ok (-1) ?cs"
    unfolding sweep_ok_def fits_slots_def by fastforce
qed

lemma calcDepth_peak:
  fixes boxes :: "Box list"
  assumes "valid_boxes boxes"
  defines "s0 \<equiv> mk_MemorySolver boxes"
  shows "\<exists>t d. calcDepth s0 = Inr (s0\<lparr>ms_top_depth := t, ms_depth := d\<rparr>) \<and>
    (boxes \<noteq> [] \<longrightarrow> (\<forall>b \<in> set boxes. 0 \<le> box_size b) \<longrightarrow> is_peak box_size (ms_boxes s0) d)"
proof -
  let ?cs = "ms_boxes s0"
  note ok = compressed_ok [OF assms(1), folded s0_def]
  note mk = mk_MemorySolver_boxes [OF assms(1), folded s0_def]
  have "calc_depth_loop ?cs (held (\<lambda>_. 1) [] (-1)) (held box_size [] (-1)) (\<lambda>_. []) (-1) (-1) =
      Inr (fold max (sweep_values (\<lambda>_. 1) [] ?cs) (-1), fold max (sweep_values box_size [] ?cs) (-1))"
    by (rule calc_depth_loop_sweep [OF ok(3)]) auto
  then have r: "calc_depth_loop ?cs 0 0 (\<lambda>_. []) (-1) (-1) =
      Inr (fold max (sweep_values (\<lambda>_. 1) [] ?cs) (-1), fold max (sweep_values box_size [] ?cs) (-1))"
    by (simp add: held_def)
  have sizes: "box_size ` set ?cs = box_size ` set boxes"
    using ok(5) resolve_finish_ok(3) [OF assms(1)] by (metis list.set_map set_std_sort)
  have "is_peak box_size ?cs (fold max (sweep_values box_size [] ?cs) (-1))"
    if "boxes \<noteq> []" "\<forall>b \<in> set boxes. 0 \<le> box_size b"
  proof (rule sweep_peak [OF _ ok(1)])
    have "box_size c \<in> box_size ` set boxes" if "c \<in> set ?cs" for c
      using that sizes by blast
    with that(2) show "\<forall>b \<in> set ?cs. 0 \<le> box_size b" by fastforce
    show "?cs \<noteq> []" using that(1) sizes by auto
  qed
  with r mk show ?thesis by (auto simp: calcDepth_def)
qed

text \<open>Compression keeps the load of every moment: the peaks over both time scales agree.\<close>

lemma live_sum_mset:
  assumes "mset xs = mset ys"
  shows "live_sum w xs t = live_sum w ys t"
proof -
  have "mset (map w (filter (\<lambda>b. covers b t) xs)) = mset (map w (filter (\<lambda>b. covers b t) ys))"
    using assms by simp
  then show ?thesis unfolding live_sum_def by (metis sum_mset_sum_list)
qed

lemma live_sum_rel:
  assumes "list_all2 R bs cs" "\<forall>b c. R b c \<longrightarrow> w b = w c \<and> (P b \<longrightarrow> covers c u)"
    "\<forall>c \<in> set cs. 0 \<le> w c"
  shows "sum_list (map w (filter P bs)) \<le> live_sum w cs u"
  using assms unfolding live_sum_def by (induction rule: list_all2_induct) auto

lemma is_peak_compressed:
  assumes rel: "list_all2 (compressed_to E) bs cs" and peak: "is_peak box_size cs d"
    and pos: "\<forall>c \<in> set cs. 0 \<le> box_size c"
    and bs: "\<forall>b \<in> set bs. 0 \<le> box_start b \<and> box_start b \<le> box_finish b \<and> box_start b \<in> E"
  shows "is_peak box_size bs d"
proof -
  let ?R = "\<lambda>b c. compressed_to E b c \<and> b \<in> set bs"
  have R: "list_all2 ?R bs cs" using rel by (auto simp: list_all2_conv_all_nth)
  have upper: "live_sum box_size bs t \<le> d" for t
  proof -
    have "live_sum box_size bs t \<le> live_sum box_size cs (rank E (t + 1) - 1)"
      unfolding live_sum_def [of _ bs]
    proof (rule live_sum_rel [OF R _ pos], intro allI impI conjI)
      fix b c assume bc: "?R b c"
      then show "box_size b = box_size c" by (simp add: compressed_to_def)
      assume "covers b t"
      with bc bs rank_less_iff [of "box_start b" E "t + 1"] rank_mono [of "t + 1" "box_finish b + 1" E]
      show "covers c (rank E (t + 1) - 1)" by (auto simp: covers_def compressed_to_def)
    qed
    with peak show ?thesis unfolding is_peak_def by (meson order_trans)
  qed
  obtain u where u: "live_sum box_size cs u = d" using peak by (auto simp: is_peak_def)
  have "\<exists>t. live_sum box_size bs t = d"
  proof (cases "\<exists>e \<in> E. 0 \<le> e \<and> rank E e = u")
    case True
    then obtain e where e: "e \<in> E" "0 \<le> e" "rank E e = u" by blast
    have cov: "covers b e = covers c u" if "?R b c" for b c
      using that bs e rank_less_iff [of "box_start b" E "e + 1"] rank_less_iff [of e E "box_finish b + 1"]
        rank_Suc [of e E] rank_less_iff [of e E "box_start b"]
      by (auto simp: covers_def compressed_to_def)
    have "list_all2 (\<lambda>b c. covers b e = covers c u \<and> box_size b = box_size c) bs cs"
      using R by (rule list_all2_mono) (use cov in \<open>auto simp: compressed_to_def\<close>)
    then have "live_sum box_size bs e = live_sum box_size cs u"
      unfolding live_sum_def by (induction rule: list_all2_induct) auto
    with u show ?thesis by blast
  next
    case False
    have "\<not> covers c u" if "c \<in> set cs" for c
    proof
      assume "covers c u"
      obtain b where b: "b \<in> set bs" "compressed_to E b c"
        using rel \<open>c \<in> set cs\<close> by (metis list_all2_conv_all_nth in_set_conv_nth)
      with \<open>covers c u\<close> have "0 \<le> u" "u < rank E (box_finish b + 1)"
        using order_trans [OF rank_nonneg] by (auto simp: covers_def compressed_to_def)
      with rank_surj [of u E] False show False by blast
    qed
    then have "d = 0" using u by (auto simp: live_sum_def filter_empty_conv)
    moreover have "\<not> covers b (-1)" if "b \<in> set bs" for b using that bs by (auto simp: covers_def)
    then have "live_sum box_size bs (-1) = 0" by (simp add: live_sum_def filter_empty_conv)
    ultimately show ?thesis by blast
  qed
  with upper show ?thesis by (simp add: is_peak_def)
qed

section \<open>Bounds of a placement\<close>

lemma popup_loop_top:
  "box_id (popup_loop slots b) = box_id b \<or>
   (\<exists>old \<in> set (slots_content slots (box_start b) (box_finish b)). box_id (popup_loop slots b) = box_top old)"
proof (induction slots b rule: popup_loop.induct)
  case (1 slots box)
  obtain box' p where r: "popup_round slots box = (box', p)" by force
  show ?case
  proof (cases p)
    case True
    with r have "same_extent box box'" "\<exists>old \<in> set (slots_content slots (box_start box) (box_finish box)).
        box_id box' = box_top old"
      by (auto dest: popup_round_True)
    with "1.IH" [OF r [symmetric] refl True] r True show ?thesis
      by (auto simp: popup_loop.simps [of slots box] same_extent_def)
  next
    case False
    with r popup_round_False [of slots box box'] show ?thesis
      by (simp add: popup_loop.simps [of slots box])
  qed
qed

text \<open>No box ever reaches past the sum of the sizes placed so far.\<close>

lemma place_boxes_upper:
  assumes "place_boxes bs (slots_of n ps) m offs = (bs', m', offs')"
    and "\<forall>p \<in> set ps. fits_slots n p \<and> box_top p \<le> tot" "tot \<le> M"
    and "m \<le> tot" "0 \<le> tot" "\<forall>b \<in> set bs. fits_slots n b \<and> 0 \<le> box_size b"
    and "M = tot + (\<Sum>b \<leftarrow> bs. box_size b)"
  shows "m' \<le> M"
  using assms
proof (induction bs arbitrary: ps m offs bs' m' offs' tot)
  case (Cons b bs)
  define b1 where "b1 = popup_loop (slots_of n ps) (b\<lparr>box_id := 0\<rparr>)"
  have mv: "same_extent b b1" "0 \<le> box_id b1"
    unfolding b1_def by (rule popup_loop_moved)+
  have fit: "fits_slots n b1" using Cons.prems(6) mv by (simp add: fits_slots_def same_extent_def)
  have "box_id b1 \<le> tot"
    using popup_loop_top [of "slots_of n ps" "b\<lparr>box_id := 0\<rparr>"] Cons.prems(2,5,6)
    by (auto simp: b1_def [symmetric] set_slots_content fits_slots_def)
  then have top: "box_top b1 \<le> tot + box_size b" using mv by (simp add: box_top_def same_extent_def)
  have slots: "fold (\<lambda>i sl. sl[nat i := sl ! nat i @ [b1]]) [box_start b1..box_finish b1] (slots_of n ps) =
      slots_of n (ps @ [b1])"
    using fit by (intro slots_of_snoc) (auto simp: fits_slots_def)
  obtain bs1 m1 offs1 where r: "place_boxes bs (slots_of n (ps @ [b1]))
      (max m (box_id b1 + box_size b1)) (offs(box_id b \<mapsto> box_id b1)) = (bs1, m1, offs1)"
    by (metis prod_cases3)
  have "m' = m1"
    using Cons.prems(1) by (simp add: b1_def [symmetric] slots r Let_def)
  moreover have "m1 \<le> M"
  proof (rule Cons.IH [OF r, where tot = "tot + box_size b"])
    show "\<forall>p \<in> set (ps @ [b1]). fits_slots n p \<and> box_top p \<le> tot + box_size b"
      using Cons.prems(2,6) fit top by fastforce
    show "max m (box_id b1 + box_size b1) \<le> tot + box_size b"
      using Cons.prems(4,6) top by (simp add: box_top_def)
    have "0 \<le> (\<Sum>b \<leftarrow> bs. box_size b)" using Cons.prems(6) by (auto intro!: sum_list_nonneg)
    then show "tot + box_size b \<le> M" using Cons.prems(7) by simp
  qed (use Cons.prems in auto)
  ultimately show ?case by simp
qed simp

text \<open>The boxes alive at one moment are pairwise disjoint in \<open>[0, m)\<close>, so they fit in it.\<close>

lemma placed_live_sum_le:
  assumes "placed_ok ps" "\<forall>p \<in> set ps. 0 \<le> box_id p \<and> 0 \<le> box_size p \<and> box_top p \<le> m" "0 \<le> m"
  shows "live_sum box_size ps t \<le> m"
proof -
  let ?live = "filter (\<lambda>b. covers b t) ps"
  have "sorted_wrt (\<lambda>a b. live_together a b \<longrightarrow> mem_disjoint a b) ?live"
    using assms(1) unfolding placed_ok_def by (rule sorted_wrt_filter)
  then have "sorted_wrt (\<lambda>x y. disjoint_ivl (box_id x) (box_size x) (box_id y) (box_size y)) ?live"
    by (rule sorted_wrt_mono_rel [rotated]) (auto simp: live_together_def covers_def mem_disjoint_def)
  then have "(\<Sum>(a, n) \<leftarrow> map (\<lambda>b. (box_id b, box_size b)) ?live. n) \<le> m"
    using assms(2,3)
    by (intro disjoint_total_length) (auto simp: sorted_wrt_map box_top_def)
  then show ?thesis by (simp add: live_sum_def comp_def)
qed

section \<open>The solver as a whole\<close>

lemma solve_result:
  fixes boxes :: "Box list"
  assumes "valid_boxes boxes"
  defines "s0 \<equiv> mk_MemorySolver boxes"
  obtains t d bs m offs where
    "maxDepth s0 = Inr (d, s0\<lparr>ms_top_depth := t, ms_depth := d\<rparr>)"
    "place_boxes (std_sort (\<lambda>l r. box_size l > box_size r) (ms_boxes s0))
       (slots_of (nat (ms_time_duration s0)) []) 0 Map.empty = (bs, m, offs)"
    "solve s0 = Inr (m, s0\<lparr>ms_top_depth := t, ms_depth := d, ms_boxes := bs, ms_offsets := offs\<rparr>)"
    "boxes \<noteq> [] \<longrightarrow> (\<forall>b \<in> set boxes. 0 \<le> box_size b) \<longrightarrow> is_peak box_size (ms_boxes s0) d"
proof -
  note mk = mk_MemorySolver_boxes [OF assms(1), folded s0_def]
  obtain t d where c: "calcDepth s0 = Inr (s0\<lparr>ms_top_depth := t, ms_depth := d\<rparr>)"
    "boxes \<noteq> [] \<longrightarrow> (\<forall>b \<in> set boxes. 0 \<le> box_size b) \<longrightarrow> is_peak box_size (ms_boxes s0) d"
    using calcDepth_peak [OF assms(1), folded s0_def] by blast
  obtain bs m offs where p: "place_boxes (std_sort (\<lambda>l r. box_size l > box_size r) (ms_boxes s0))
      (slots_of (nat (ms_time_duration s0)) []) 0 Map.empty = (bs, m, offs)"
    by (metis prod_cases3)
  have "maxDepth s0 = Inr (d, s0\<lparr>ms_top_depth := t, ms_depth := d\<rparr>)"
    using c(1) mk(5) by (simp add: maxDepth_def)
  moreover have "solve s0 = Inr (m, s0\<lparr>ms_top_depth := t, ms_depth := d, ms_boxes := bs, ms_offsets := offs\<rparr>)"
    using c(1) mk(3,4) p by (simp add: solve_def maxTopDepth_def slots_of_Nil)
  ultimately show ?thesis using that p c(2) by blast
qed

lemma placed_boxes:
  fixes boxes :: "Box list"
  assumes "valid_boxes boxes"
  defines "s0 \<equiv> mk_MemorySolver boxes"
  assumes "place_boxes (std_sort (\<lambda>l r. box_size l > box_size r) (ms_boxes s0))
       (slots_of (nat (ms_time_duration s0)) []) 0 Map.empty = (bs, m, offs)"
  shows "placed_ok bs" and "0 \<le> m"
    and "\<forall>i. i \<notin> box_id ` set boxes \<longrightarrow> offs i = None"
    and "list_all2 (\<lambda>b b'. same_extent b b' \<and> 0 \<le> box_id b' \<and> box_id b' + box_size b' \<le> m \<and>
           offs (box_id b) = Some (box_id b')) (std_sort (\<lambda>l r. box_size l > box_size r) (ms_boxes s0)) bs"
proof -
  note ok = compressed_ok [OF assms(1), folded s0_def]
  let ?E = "box_start ` set (resolve_finish boxes)"
  have "list_all2 (compressed_to ?E) (std_sort box_before (resolve_finish boxes)) (ms_boxes s0)"
    unfolding s0_def by (rule mk_MemorySolver_boxes(1) [OF assms(1)])
  then have "map box_id (ms_boxes s0) = map box_id (std_sort box_before (resolve_finish boxes))"
    by (auto simp: list_all2_conv_all_nth compressed_to_def intro!: nth_equalityI)
  then have ids: "box_id ` set (ms_boxes s0) = box_id ` set boxes"
    using resolve_finish_ok(2) [OF assms(1)] by (metis list.set_map set_std_sort)
  have "placed_ok ([] @ bs) \<and> 0 \<le> m \<and>
    (\<forall>i. i \<notin> box_id ` set (std_sort (\<lambda>l r. box_size l > box_size r) (ms_boxes s0)) \<longrightarrow> offs i = None) \<and>
    list_all2 (\<lambda>b b'. same_extent b b' \<and> 0 \<le> box_id b' \<and> box_id b' + box_size b' \<le> m \<and>
      offs (box_id b) = Some (box_id b')) (std_sort (\<lambda>l r. box_size l > box_size r) (ms_boxes s0)) bs"
    using place_boxes_ok [OF assms(3)] ok by (simp add: placed_ok_def)
  with ids show "placed_ok bs" "0 \<le> m" "\<forall>i. i \<notin> box_id ` set boxes \<longrightarrow> offs i = None"
    "list_all2 (\<lambda>b b'. same_extent b b' \<and> 0 \<le> box_id b' \<and> box_id b' + box_size b' \<le> m \<and>
       offs (box_id b) = Some (box_id b')) (std_sort (\<lambda>l r. box_size l > box_size r) (ms_boxes s0)) bs"
    by simp_all
qed

text \<open>Where a box of the caller ends up: position \<open>i\<close> of the placed list.\<close>

lemma box_position:
  fixes boxes :: "Box list"
  assumes "valid_boxes boxes"
  defines "s0 \<equiv> mk_MemorySolver boxes" and "E \<equiv> box_start ` set (resolve_finish boxes)"
  defines "xs \<equiv> std_sort (\<lambda>l r. box_size l > box_size r) (ms_boxes s0)"
  assumes "list_all2 (\<lambda>b b'. same_extent b b' \<and> 0 \<le> box_id b' \<and> box_id b' + box_size b' \<le> m \<and>
           offs (box_id b) = Some (box_id b')) xs bs"
    and "a \<in> set (resolve_finish boxes)"
  obtains i where "i < length bs" "compressed_to E a (xs ! i)" "same_extent (xs ! i) (bs ! i)"
    "offs (box_id a) = Some (box_id (bs ! i))" "0 \<le> box_id (bs ! i)"
    "box_id (bs ! i) + box_size a \<le> m" "box_size (bs ! i) = box_size a"
proof -
  have "list_all2 (compressed_to E) (std_sort box_before (resolve_finish boxes)) (ms_boxes s0)"
    unfolding s0_def E_def by (rule mk_MemorySolver_boxes(1) [OF assms(1)])
  moreover have "a \<in> set (std_sort box_before (resolve_finish boxes))" using assms(6) by simp
  ultimately obtain c where "c \<in> set (ms_boxes s0)" "compressed_to E a c"
    by (metis list_all2_conv_all_nth in_set_conv_nth)
  moreover from this(1) obtain i where "i < length xs" "xs ! i = c"
    unfolding xs_def by (metis in_set_conv_nth set_std_sort)
  ultimately show ?thesis
    using assms(5) that [of i] by (auto simp: list_all2_conv_all_nth compressed_to_def same_extent_def)
qed

lemma placed_ok_nth:
  "placed_ok ps \<Longrightarrow> i < length ps \<Longrightarrow> j < length ps \<Longrightarrow> i \<noteq> j \<Longrightarrow>
     live_together (ps ! i) (ps ! j) \<Longrightarrow> mem_disjoint (ps ! i) (ps ! j)"
proof (induction i j rule: linorder_wlog)
  case (sym i j)
  then show ?case by (auto simp: mem_disjoint_sym [of "ps ! i"] live_together_def)
qed (auto simp: placed_ok_def sorted_wrt_iff_nth_less)

lemma getOffset_Inr [simp]: "getOffset s i = Inr off \<longleftrightarrow> ms_offsets s i = Some off"
  by (simp add: getOffset_def split: option.split)

lemma getOffset_Inl [simp]:
  "getOffset s i = Inl e \<longleftrightarrow> ms_offsets s i = None \<and> e = Thrown ''There are no box for provided ID''"
  by (auto simp: getOffset_def split: option.split)

lemma offsets_disjoint:
  fixes boxes :: "Box list"
  assumes "valid_boxes boxes"
  defines "s0 \<equiv> mk_MemorySolver boxes"
  assumes place: "place_boxes (std_sort (\<lambda>l r. box_size l > box_size r) (ms_boxes s0))
       (slots_of (nat (ms_time_duration s0)) []) 0 Map.empty = (bs, m, offs)"
    and ab: "a \<in> set (resolve_finish boxes)" "b \<in> set (resolve_finish boxes)"
      "box_id a \<noteq> box_id b" "live_together a b"
  shows "\<exists>off off'. offs (box_id a) = Some off \<and> offs (box_id b) = Some off' \<and>
    disjoint_ivl off (box_size a) off' (box_size b)"
proof -
  let ?E = "box_start ` set (resolve_finish boxes)"
  let ?xs = "std_sort (\<lambda>l r. box_size l > box_size r) (ms_boxes s0)"
  note placed = placed_boxes [OF assms(1) place [unfolded s0_def], folded s0_def]
  obtain i where i: "i < length bs" "compressed_to ?E a (?xs ! i)" "same_extent (?xs ! i) (bs ! i)"
    "offs (box_id a) = Some (box_id (bs ! i))" "box_size (bs ! i) = box_size a"
    by (rule box_position [OF assms(1) placed(4) [unfolded s0_def] ab(1), folded s0_def])
  obtain j where j: "j < length bs" "compressed_to ?E b (?xs ! j)" "same_extent (?xs ! j) (bs ! j)"
    "offs (box_id b) = Some (box_id (bs ! j))" "box_size (bs ! j) = box_size b"
    by (rule box_position [OF assms(1) placed(4) [unfolded s0_def] ab(2), folded s0_def])
  have life: "0 \<le> box_start c" "box_start c \<in> ?E" if "c \<in> set (resolve_finish boxes)" for c
    using that resolve_finish_ok(1) [OF assms(1)] by (auto simp: lifetimes_ok_def)
  have "i \<noteq> j" using i(2) j(2) ab(3) by (auto simp: compressed_to_def)
  moreover have "live_together (bs ! i) (bs ! j)"
    using compressed_live_together [OF i(2) j(2)] ab(4) life [OF ab(1)] life [OF ab(2)] i(3) j(3)
    by (simp add: live_together_def same_extent_def)
  ultimately have "mem_disjoint (bs ! i) (bs ! j)" by (rule placed_ok_nth [OF placed(1) i(1) j(1)])
  with i(4,5) j(4,5) show ?thesis by (simp add: mem_disjoint_def)
qed

section \<open>What a client relies on\<close>

lemma solve_boxes:
  assumes "valid_boxes boxes"
  shows "\<exists>m s. solve (mk_MemorySolver boxes) = Inr (m, s) \<and>
    (\<forall>i. i \<notin> box_id ` set boxes \<longrightarrow> getOffset s i = Inl (Thrown ''There are no box for provided ID'')) \<and>
    (\<forall>a \<in> set (resolve_finish boxes). \<exists>off. getOffset s (box_id a) = Inr off \<and>
       0 \<le> off \<and> off + box_size a \<le> m \<and>
       (\<forall>b \<in> set (resolve_finish boxes). box_id a \<noteq> box_id b \<longrightarrow> live_together a b \<longrightarrow>
          (\<exists>off'. getOffset s (box_id b) = Inr off' \<and> disjoint_ivl off (box_size a) off' (box_size b))))"
proof -
  obtain t d bs m offs where
    place: "place_boxes (std_sort (\<lambda>l r. box_size l > box_size r) (ms_boxes (mk_MemorySolver boxes)))
       (slots_of (nat (ms_time_duration (mk_MemorySolver boxes))) []) 0 Map.empty = (bs, m, offs)"
    and solve: "solve (mk_MemorySolver boxes) = Inr (m, (mk_MemorySolver boxes)
      \<lparr>ms_top_depth := t, ms_depth := d, ms_boxes := bs, ms_offsets := offs\<rparr>)"
    by (rule solve_result [OF assms])
  note placed = placed_boxes [OF assms place]
  have "\<exists>off. offs (box_id a) = Some off \<and> 0 \<le> off \<and> off + box_size a \<le> m"
    if "a \<in> set (resolve_finish boxes)" for a
    by (rule box_position [OF assms placed(4) that]) auto
  with offsets_disjoint [OF assms place] solve placed(3) show ?thesis
    by simp (metis option.inject)
qed

text \<open>
  The contract of the solver for its client, which numbers its boxes: each number has an offset, and
  the places of boxes that live together are apart.
\<close>

locale box_solver =
  fixes solver :: "Box list \<Rightarrow> (int \<times> 's) result"
    and offset :: "'s \<Rightarrow> int \<Rightarrow> int result"
  assumes placed: "valid_boxes boxes \<Longrightarrow> \<exists>m s. solver boxes = Inr (m, s) \<and>
    (\<forall>i. i \<notin> box_id ` set boxes \<longrightarrow> offset s i = Inl (Thrown ''There are no box for provided ID'')) \<and>
    (\<forall>a \<in> set (resolve_finish boxes). \<exists>off. offset s (box_id a) = Inr off \<and>
       0 \<le> off \<and> off + box_size a \<le> m \<and>
       (\<forall>b \<in> set (resolve_finish boxes). box_id a \<noteq> box_id b \<longrightarrow> live_together a b \<longrightarrow>
          (\<exists>off'. offset s (box_id b) = Inr off' \<and> disjoint_ivl off (box_size a) off' (box_size b))))"
begin

lemma numbered_boxes:
  assumes valid: "valid_boxes boxes" and ids: "map box_id boxes = map int [0..<length boxes]"
  obtains m s off where "solver boxes = Inr (m, s)"
    "\<And>i. i < length boxes \<Longrightarrow> offset s (int i) = Inr (off i) \<and> 0 \<le> off i \<and> off i + box_size (boxes ! i) \<le> m"
    "\<And>i j. i < length boxes \<Longrightarrow> j < length boxes \<Longrightarrow> i \<noteq> j \<Longrightarrow> live_together (resolve_finish boxes ! i) (resolve_finish boxes ! j) \<Longrightarrow>
      disjoint_ivl (off i) (box_size (boxes ! i)) (off j) (box_size (boxes ! j))"
proof -
  obtain m s where s: "solver boxes = Inr (m, s)"
    and all: "\<forall>a \<in> set (resolve_finish boxes). \<exists>off. offset s (box_id a) = Inr off \<and> 0 \<le> off \<and> off + box_size a \<le> m \<and>
       (\<forall>b \<in> set (resolve_finish boxes). box_id a \<noteq> box_id b \<longrightarrow> live_together a b \<longrightarrow>
          (\<exists>off'. offset s (box_id b) = Inr off' \<and> disjoint_ivl off (box_size a) off' (box_size b)))"
    using placed [OF valid] by blast
  let ?r = "\<lambda>i. resolve_finish boxes ! i"
  have mem: "?r i \<in> set (resolve_finish boxes)" if "i < length boxes" for i using that by (simp add: resolve_finish_def)
  have fields: "box_id (?r i) = int i" "box_size (?r i) = box_size (boxes ! i)" if "i < length boxes" for i
  proof -
    have "box_id (boxes ! i) = int i" using arg_cong [OF ids, of "\<lambda>xs. xs ! i"] that by simp
    then show "box_id (?r i) = int i" "box_size (?r i) = box_size (boxes ! i)" using that by (simp_all add: resolve_finish_def)
  qed
  define off where "off i = projr (offset s (int i))" for i
  show thesis
  proof (rule that [OF s])
    show off: "offset s (int i) = Inr (off i) \<and> 0 \<le> off i \<and> off i + box_size (boxes ! i) \<le> m" if "i < length boxes" for i
      using all mem [OF that] fields [OF that] by (auto simp: off_def)
    show "disjoint_ivl (off i) (box_size (boxes ! i)) (off j) (box_size (boxes ! j))"
      if i: "i < length boxes" and j: "j < length boxes" and ij: "i \<noteq> j" "live_together (?r i) (?r j)" for i j
    proof -
      have "box_id (?r i) \<noteq> box_id (?r j)" using fields(1) i j ij(1) by simp
      then obtain a b where "offset s (box_id (?r i)) = Inr a" "offset s (box_id (?r j)) = Inr b"
        "disjoint_ivl a (box_size (?r i)) b (box_size (?r j))"
        using all mem [OF i] mem [OF j] ij(2) by blast
      then show ?thesis using fields i j by (simp add: off_def)
    qed
  qed
qed

end

interpretation mem_solver: box_solver "\<lambda>boxes. solve (mk_MemorySolver boxes)" getOffset
  by unfold_locales (rule solve_boxes)

section \<open>Properties\<close>

text \<open>
  C1. For boxes with distinct ids and proper lifetimes, \<open>solve\<close> returns (it neither throws
  nor diverges), every box gets a non-negative offset with its end inside the returned buffer
  size, no other id gets one, and two boxes whose lifetimes intersect never overlap in memory.
\<close>

theorem solve_places_boxes:
  assumes "valid_boxes boxes"
  shows "\<exists>m s. solve (mk_MemorySolver boxes) = Inr (m, s) \<and>
    (\<forall>i. i \<notin> box_id ` set boxes \<longrightarrow> getOffset s i = Inl (Thrown ''There are no box for provided ID'')) \<and>
    (\<forall>a \<in> set (resolve_finish boxes). \<exists>off. getOffset s (box_id a) = Inr off \<and>
       0 \<le> off \<and> off + box_size a \<le> m \<and>
       (\<forall>b \<in> set (resolve_finish boxes). box_id a \<noteq> box_id b \<longrightarrow> live_together a b \<longrightarrow>
          (\<exists>off'. getOffset s (box_id b) = Inr off' \<and> disjoint_ivl off (box_size a) off' (box_size b))))"
  using assms by (rule solve_boxes)

theorem solve_places_boxes_witness:
  "\<exists>m s. solve (mk_MemorySolver [\<lparr>box_start = 0, box_finish = 5, box_size = 4, box_id = 7\<rparr>,
       \<lparr>box_start = 2, box_finish = -1, box_size = 6, box_id = 8\<rparr>]) = Inr (m, s)"
  using solve_places_boxes [of "[\<lparr>box_start = 0, box_finish = 5, box_size = 4, box_id = 7\<rparr>,
       \<lparr>box_start = 2, box_finish = -1, box_size = 6, box_id = 8\<rparr>]"]
  by (auto simp: valid_boxes_def)

lemma resolve_finish_live:
  assumes "valid_boxes boxes" "b \<in> set (std_sort box_before (resolve_finish boxes))"
  shows "0 \<le> box_start b \<and> box_start b \<le> box_finish b \<and> box_start b \<in> box_start ` set (resolve_finish boxes)"
  using assms(2) resolve_finish_ok(1) [OF assms(1)] by (auto simp: lifetimes_ok_def)

lemma compressed_sizes:
  assumes "valid_boxes boxes" "\<forall>b \<in> set boxes. 0 \<le> box_size b"
  shows "\<forall>c \<in> set (ms_boxes (mk_MemorySolver boxes)). 0 \<le> box_size c"
    and "(\<Sum>c \<leftarrow> ms_boxes (mk_MemorySolver boxes). box_size c) = (\<Sum>b \<leftarrow> boxes. box_size b)"
proof -
  have "mset (map box_size (ms_boxes (mk_MemorySolver boxes))) = mset (map box_size (resolve_finish boxes))"
    by (simp only: compressed_ok(5) [OF assms(1)] mset_map mset_std_sort)
  then have m: "mset (map box_size (ms_boxes (mk_MemorySolver boxes))) = mset (map box_size boxes)"
    by (simp only: resolve_finish_ok(3) [OF assms(1)])
  then show "(\<Sum>c \<leftarrow> ms_boxes (mk_MemorySolver boxes). box_size c) = (\<Sum>b \<leftarrow> boxes. box_size b)"
    by (metis sum_mset_sum_list)
  have "box_size ` set (ms_boxes (mk_MemorySolver boxes)) = box_size ` set boxes"
    using m by (metis list.set_map set_mset_mset)
  with assms(2) show "\<forall>c \<in> set (ms_boxes (mk_MemorySolver boxes)). 0 \<le> box_size c"
    by (metis imageE image_eqI)
qed

text \<open>
  C2. \<open>maxDepth\<close> is exact: it is the largest sum of the sizes of the boxes alive at one
  moment of the caller's own time scale.
\<close>

theorem maxDepth_is_peak:
  assumes "valid_boxes boxes" "boxes \<noteq> []" "\<forall>b \<in> set boxes. 0 \<le> box_size b"
  shows "\<exists>d s. maxDepth (mk_MemorySolver boxes) = Inr (d, s) \<and>
    (\<forall>t. live_sum box_size (resolve_finish boxes) t \<le> d) \<and>
    (\<exists>t. live_sum box_size (resolve_finish boxes) t = d)"
proof -
  obtain t d where md: "maxDepth (mk_MemorySolver boxes) =
      Inr (d, (mk_MemorySolver boxes)\<lparr>ms_top_depth := t, ms_depth := d\<rparr>)"
    and peak: "is_peak box_size (ms_boxes (mk_MemorySolver boxes)) d"
    by (rule solve_result [OF assms(1)]) (use assms(2,3) in blast)
  have "is_peak box_size (std_sort box_before (resolve_finish boxes)) d"
    by (rule is_peak_compressed [OF mk_MemorySolver_boxes(1) [OF assms(1)] peak compressed_sizes(1) [OF assms(1,3)]])
      (use resolve_finish_live [OF assms(1)] in blast)
  then have "is_peak box_size (resolve_finish boxes) d"
    by (simp add: is_peak_def live_sum_mset [OF mset_std_sort])
  with md show ?thesis unfolding is_peak_def by blast
qed

theorem maxDepth_is_peak_witness:
  "\<exists>d s. maxDepth (mk_MemorySolver [\<lparr>box_start = 0, box_finish = 1, box_size = 4, box_id = 0\<rparr>]) = Inr (d, s)"
  using maxDepth_is_peak [of "[\<lparr>box_start = 0, box_finish = 1, box_size = 4, box_id = 0\<rparr>]"]
  by (auto simp: valid_boxes_def)

text \<open>
  The buffer size that \<open>solve\<close> returns lies between the peak load, which no placement can
  beat, and the sum of all sizes, which no reuse at all would take.
\<close>

theorem solve_between_depth_and_total:
  assumes "valid_boxes boxes" "boxes \<noteq> []" "\<forall>b \<in> set boxes. 0 \<le> box_size b"
  shows "\<exists>m s d s'. solve (mk_MemorySolver boxes) = Inr (m, s) \<and>
    maxDepth (mk_MemorySolver boxes) = Inr (d, s') \<and> d \<le> m \<and> m \<le> (\<Sum>b \<leftarrow> boxes. box_size b)"
proof -
  let ?s0 = "mk_MemorySolver boxes"
  let ?xs = "std_sort (\<lambda>l r. box_size l > box_size r) (ms_boxes ?s0)"
  obtain t d bs m offs where md: "maxDepth ?s0 = Inr (d, ?s0\<lparr>ms_top_depth := t, ms_depth := d\<rparr>)"
    and place: "place_boxes ?xs (slots_of (nat (ms_time_duration ?s0)) []) 0 Map.empty = (bs, m, offs)"
    and solve: "solve ?s0 = Inr (m, ?s0\<lparr>ms_top_depth := t, ms_depth := d, ms_boxes := bs, ms_offsets := offs\<rparr>)"
    and peak: "is_peak box_size (ms_boxes ?s0) d"
    by (rule solve_result [OF assms(1)]) (use assms(2,3) in blast)
  note placed = placed_boxes [OF assms(1) place]
  note pos = compressed_sizes(1) [OF assms(1,3)]
  have "mset (map box_size ?xs) = mset (map box_size (ms_boxes ?s0))" by simp
  then have "(\<Sum>b \<leftarrow> ?xs. box_size b) = (\<Sum>b \<leftarrow> ms_boxes ?s0. box_size b)" by (metis sum_mset_sum_list)
  then have tot: "(\<Sum>b \<leftarrow> ?xs. box_size b) = (\<Sum>b \<leftarrow> boxes. box_size b)"
    by (simp only: compressed_sizes(2) [OF assms(1,3)])
  have "0 \<le> (\<Sum>b \<leftarrow> boxes. box_size b)" using assms(3) by (auto intro!: sum_list_nonneg)
  then have "m \<le> (\<Sum>b \<leftarrow> boxes. box_size b)"
    by (intro place_boxes_upper [OF place, where tot = 0])
      (use pos compressed_ok(2) [OF assms(1)] tot in auto)
  moreover have "live_sum box_size (ms_boxes ?s0) u \<le> m" for u
  proof -
    have "list_all2 (\<lambda>b c. covers b u = covers c u \<and> box_size b = box_size c) ?xs bs"
      by (rule list_all2_mono [OF placed(4)]) (auto simp: same_extent_def covers_def)
    then have "live_sum box_size ?xs u = live_sum box_size bs u"
      unfolding live_sum_def by (induction rule: list_all2_induct) auto
    also have "\<dots> \<le> m"
      using placed(4) pos by (intro placed_live_sum_le placed(1,2))
        (auto simp: list_all2_conv_all_nth in_set_conv_nth same_extent_def box_top_def,
         metis in_set_conv_nth set_std_sort length_std_sort)
    finally show ?thesis by (simp add: live_sum_mset [OF mset_std_sort])
  qed
  ultimately show ?thesis using md solve peak unfolding is_peak_def by blast
qed

theorem solve_between_depth_and_total_witness:
  "\<exists>m s. solve (mk_MemorySolver [\<lparr>box_start = 0, box_finish = 1, box_size = 4, box_id = 0\<rparr>]) = Inr (m, s)"
  using solve_between_depth_and_total [of "[\<lparr>box_start = 0, box_finish = 1, box_size = 4, box_id = 0\<rparr>]"]
  by (auto simp: valid_boxes_def)

text \<open>
  The constructor's compression of the time scale loses nothing and wastes nothing: up to
  the order of the boxes, every start becomes its rank among the starts and every finish the
  rank of the last start not after it, the duration is the number of distinct starts, and the
  result is sorted by start.
\<close>

theorem constructor_compresses_time:
  assumes "valid_boxes boxes"
  shows "(\<exists>bs. mset bs = mset (resolve_finish boxes) \<and>
      list_all2 (compressed_to (box_start ` set (resolve_finish boxes))) bs (ms_boxes (mk_MemorySolver boxes))) \<and>
    sorted_wrt (\<lambda>a b. box_start a \<le> box_start b) (ms_boxes (mk_MemorySolver boxes)) \<and>
    (\<forall>b \<in> set (ms_boxes (mk_MemorySolver boxes)).
      0 \<le> box_start b \<and> box_start b \<le> box_finish b \<and> box_finish b < ms_time_duration (mk_MemorySolver boxes)) \<and>
    ms_time_duration (mk_MemorySolver boxes) = int (card (box_start ` set (resolve_finish boxes)))"
proof -
  have "\<exists>bs. mset bs = mset (resolve_finish boxes) \<and>
      list_all2 (compressed_to (box_start ` set (resolve_finish boxes))) bs (ms_boxes (mk_MemorySolver boxes))"
    using mk_MemorySolver_boxes(1) [OF assms] mset_std_sort by blast
  moreover have "sorted_wrt (\<lambda>a b. box_start a \<le> box_start b) (ms_boxes (mk_MemorySolver boxes))"
    by (rule compressed_ok(1) [OF assms])
  moreover have dur: "ms_time_duration (mk_MemorySolver boxes) = int (card (box_start ` set (resolve_finish boxes)))"
    by (rule mk_MemorySolver_boxes(2) [OF assms])
  moreover have "\<forall>b \<in> set (ms_boxes (mk_MemorySolver boxes)).
      0 \<le> box_start b \<and> box_start b \<le> box_finish b \<and> box_finish b < ms_time_duration (mk_MemorySolver boxes)"
    using compressed_ok(2) [OF assms] by (simp add: fits_slots_def dur)
  ultimately show ?thesis using dur by simp
qed

theorem constructor_compresses_time_witness:
  "ms_time_duration (mk_MemorySolver [\<lparr>box_start = 3, box_finish = 9, box_size = 4, box_id = 0\<rparr>]) = 1"
  using constructor_compresses_time [of "[\<lparr>box_start = 3, box_finish = 9, box_size = 4, box_id = 0\<rparr>]"]
  by (simp add: valid_boxes_def resolve_finish_def)

end
