(* ===== verification/VpuNumeric.thy ===== *)
theory VpuNumeric
  imports Prelude "HOL-Library.Word"
begin

text \<open>
  The integer helpers of the VPU plugin (\<open>src/src/vpu/common/include/vpu/utils/numeric.hpp\<close>).
  They are templates over the integer type; the components here use them on \<open>int\<close>, read as
  a mathematical integer (whose bitwise operations are those of two's complement).
\<close>

unbundle bit_operations_syntax

definition isPowerOfTwo :: "int \<Rightarrow> bool" where
  "isPowerOfTwo val \<longleftrightarrow> val > 0 \<and> val AND (val - 1) = 0"

definition alignVal :: "int \<Rightarrow> int \<Rightarrow> int result" where
  "alignVal val align =
     bindE (ie_assert (isPowerOfTwo align)) (\<lambda>_. Inr ((val + (align - 1)) AND NOT (align - 1)))"

text \<open>C++ division truncates towards zero.\<close>

definition cpp_div :: "int \<Rightarrow> int \<Rightarrow> int" where
  "cpp_div a b = (if (a < 0) = (b < 0) then \<bar>a\<bar> div \<bar>b\<bar> else - (\<bar>a\<bar> div \<bar>b\<bar>))"

definition cpp_mod :: "int \<Rightarrow> int \<Rightarrow> int" where
  "cpp_mod a b = a - cpp_div a b * b"

definition divUp :: "int \<Rightarrow> int \<Rightarrow> int result" where
  "divUp a b = bindE (ie_assert (b > 0)) (\<lambda>_. Inr (cpp_div (a + b - 1) b))"

lemma isPowerOfTwo_exp: "isPowerOfTwo (2 ^ k)"
  by (simp add: isPowerOfTwo_def flip: mask_eq_exp_minus_1) (simp flip: take_bit_eq_mask)

text \<open>Clearing the low bits of \<open>val + 2 ^ k - 1\<close> rounds up to the next multiple of \<open>2 ^ k\<close>.\<close>

lemma alignVal_exp: "alignVal val (2 ^ k) = Inr ((val + 2 ^ k - 1) div 2 ^ k * 2 ^ k)"
proof -
  have "x AND NOT (2 ^ k - 1) = x div 2 ^ k * 2 ^ k" for x :: int
  proof -
    have "x AND NOT (mask k) = push_bit k (drop_bit k x)"
      by (rule bit_eqI) (auto simp: bit_simps)
    then show ?thesis by (simp add: mask_eq_exp_minus_1 push_bit_eq_mult drop_bit_eq_div)
  qed
  then show ?thesis by (simp add: alignVal_def isPowerOfTwo_exp algebra_simps)
qed

definition is_aligned_up :: "int \<Rightarrow> int \<Rightarrow> int \<Rightarrow> bool" where
  "is_aligned_up a val r \<longleftrightarrow> a dvd r \<and> val \<le> r \<and> r < val + a"

lemma round_up_bounds:
  fixes a b :: int
  assumes "0 < b"
  shows "a \<le> (a + b - 1) div b * b \<and> (a + b - 1) div b * b < a + b"
proof -
  have "(a + b - 1) div b * b = a + b - 1 - (a + b - 1) mod b" by (simp add: minus_mod_eq_div_mult)
  moreover have "(a + b - 1) mod b < b" "0 \<le> (a + b - 1) mod b" using assms by auto
  ultimately show ?thesis by linarith
qed

lemma alignVal_up: "alignVal val (2 ^ k) = Inr r \<Longrightarrow> is_aligned_up (2 ^ k) val r"
  using round_up_bounds [of "2 ^ k" val] by (auto simp: alignVal_exp is_aligned_up_def)

lemma alignVal_pos: "0 < val \<Longrightarrow> alignVal val (2 ^ k) = Inr r \<Longrightarrow> 0 < r"
  by (drule alignVal_up) (simp add: is_aligned_up_def)

lemma cpp_div_nonneg: "0 \<le> a \<Longrightarrow> 0 \<le> b \<Longrightarrow> cpp_div a b = a div b"
  by (cases "b = 0") (auto simp: cpp_div_def)

lemma cpp_mod_nonneg: "0 \<le> a \<Longrightarrow> 0 \<le> b \<Longrightarrow> cpp_mod a b = a mod b"
  by (simp add: cpp_mod_def cpp_div_nonneg minus_div_mult_eq_mod)

lemma divUp_ceiling:
  "0 \<le> a \<Longrightarrow> 0 < b \<Longrightarrow> \<exists>q. divUp a b = Inr q \<and> a \<le> q * b \<and> q * b < a + b"
  using round_up_bounds [of b a] by (simp add: divUp_def cpp_div_nonneg)

end
