(* ===== verification/VpuDims.thy ===== *)
theory VpuDims
  imports VpuNumeric
begin

text \<open>
  Dimensions of VPU data objects: \<open>Dim\<close>, the container \<open>DimValues_\<close> and the packed layout
  \<open>DimsOrder\<close> (\<open>vpu/model/data_desc.hpp\<close> and \<open>src/src/vpu/graph_transformer/src/model/data_desc.cpp\<close>).
  A \<open>Dim\<close> is its \<open>int\<close> value (the code casts between the two and uses values past the named
  ones). \<open>DimValues\<close> is shown to implement a finite map that iterates in ascending order,
  and a layout code to encode the list of its dimensions from minor to major.
\<close>

section \<open>Dim and DimValues\<close>

type_synonym Dim = int

definition MAX_DIMS_64 :: nat where "MAX_DIMS_64 = 15"

definition Dim_Invalid :: Dim where "Dim_Invalid = -1"
definition Dim_W :: Dim where "Dim_W = 0"
definition Dim_H :: Dim where "Dim_H = 1"
definition Dim_C :: Dim where "Dim_C = 2"
definition Dim_N :: Dim where "Dim_N = 3"
definition Dim_D :: Dim where "Dim_D = 4"

record DimValues =
  dv_values :: "(Dim \<times> int) list"
  dv_flags :: "bool list"
  dv_size :: nat

definition dv_empty :: DimValues where
  "dv_empty = \<lparr>dv_values = replicate MAX_DIMS_64 (0, 0), dv_flags = replicate MAX_DIMS_64 False, dv_size = 0\<rparr>"

definition dim_ok :: "Dim \<Rightarrow> bool" where
  "dim_ok d \<longleftrightarrow> 0 \<le> d \<and> d < int MAX_DIMS_64"

text \<open>The constructor from an initializer list.\<close>

fun dv_init :: "(Dim \<times> int) list \<Rightarrow> DimValues \<Rightarrow> DimValues result" where
  "dv_init [] v = Inr v"
| "dv_init ((d, x) # ps) v =
     bindE (ie_assert (dim_ok d)) (\<lambda>_.
     bindE (ie_assert (\<not> dv_flags v ! nat d)) (\<lambda>_.
     dv_init ps (v\<lparr>dv_values := (dv_values v)[nat d := (d, x)], dv_flags := (dv_flags v)[nat d := True]\<rparr>)))"

definition dv_of_list :: "(Dim \<times> int) list \<Rightarrow> DimValues result" where
  "dv_of_list ps = bindE (dv_init ps dv_empty) (\<lambda>v. Inr (v\<lparr>dv_size := length ps\<rparr>))"

definition dv_is_empty :: "DimValues \<Rightarrow> bool" where
  "dv_is_empty v \<longleftrightarrow> dv_size v = 0"

definition dv_clear :: "DimValues \<Rightarrow> DimValues" where
  "dv_clear v = v\<lparr>dv_flags := replicate MAX_DIMS_64 False, dv_size := 0\<rparr>"

definition dv_erase :: "Dim \<Rightarrow> DimValues \<Rightarrow> DimValues result" where
  "dv_erase d v = bindE (ie_assert (dim_ok d)) (\<lambda>_.
     if dv_flags v ! nat d then
       bindE (ie_assert (dv_size v > 0)) (\<lambda>_.
         Inr (v\<lparr>dv_flags := (dv_flags v)[nat d := False], dv_size := dv_size v - 1\<rparr>))
     else Inr v)"

definition dv_has :: "DimValues \<Rightarrow> Dim \<Rightarrow> bool result" where
  "dv_has v d = bindE (ie_assert (dim_ok d)) (\<lambda>_. Inr (dv_flags v ! nat d))"

text \<open>\<open>operator[]\<close> and \<open>get\<close>.\<close>

definition dv_at :: "DimValues \<Rightarrow> Dim \<Rightarrow> int result" where
  "dv_at v d = bindE (ie_assert (dim_ok d)) (\<lambda>_.
     bindE (ie_assert (dv_flags v ! nat d)) (\<lambda>_. Inr (snd (dv_values v ! nat d))))"

definition dv_get :: "DimValues \<Rightarrow> Dim \<Rightarrow> int \<Rightarrow> int result" where
  "dv_get v d def = bindE (ie_assert (dim_ok d)) (\<lambda>_.
     Inr (if dv_flags v ! nat d then snd (dv_values v ! nat d) else def))"

definition dv_set :: "Dim \<Rightarrow> int \<Rightarrow> DimValues \<Rightarrow> DimValues result" where
  "dv_set d x v = bindE (ie_assert (dim_ok d)) (\<lambda>_.
     let v = (if dv_flags v ! nat d then v
              else v\<lparr>dv_flags := (dv_flags v)[nat d := True], dv_size := Suc (dv_size v)\<rparr>)
     in Inr (v\<lparr>dv_values := (dv_values v)[nat d := (d, x)]\<rparr>))"

definition dv_toVector :: "DimValues \<Rightarrow> int \<Rightarrow> int list" where
  "dv_toVector v emptyValue =
     map (\<lambda>i. if dv_flags v ! i then snd (dv_values v ! i) else emptyValue) [0..<MAX_DIMS_64]"

definition dv_eq :: "DimValues \<Rightarrow> DimValues \<Rightarrow> bool" where
  "dv_eq v w \<longleftrightarrow> list_all (\<lambda>i. dv_flags v ! i = dv_flags w ! i \<and>
     (dv_flags v ! i \<longrightarrow> snd (dv_values v ! i) = snd (dv_values w ! i))) [0..<MAX_DIMS_64]"

text \<open>
  The iterator: \<open>advance\<close> skips clear flags and turns the end position into \<open>-1\<close>;
  \<open>dv_iterate\<close> is the loop from \<open>begin()\<close> to \<open>end()\<close>.
\<close>

function skip_clear :: "bool list \<Rightarrow> int \<Rightarrow> int" where
  "skip_clear flags curInd =
     (if 0 \<le> curInd \<and> curInd < int MAX_DIMS_64 \<and> \<not> flags ! nat curInd
      then skip_clear flags (curInd + 1) else curInd)"
  by pat_completeness auto
termination
  by (relation "measure (\<lambda>(flags, i). nat (int MAX_DIMS_64 - i))") auto

declare skip_clear.simps [simp del]

definition iter_advance :: "bool list \<Rightarrow> int \<Rightarrow> int" where
  "iter_advance flags curInd =
     (let i = skip_clear flags curInd in if i = int MAX_DIMS_64 then -1 else i)"

lemma skip_clear_ge: "i \<le> skip_clear flags i"
  by (induction flags i rule: skip_clear.induct) (subst skip_clear.simps, auto)

lemma skip_clear_le: "i \<le> int MAX_DIMS_64 \<Longrightarrow> skip_clear flags i \<le> int MAX_DIMS_64"
  by (induction flags i rule: skip_clear.induct) (subst skip_clear.simps, auto)

function iter_loop :: "DimValues \<Rightarrow> int \<Rightarrow> (Dim \<times> int) list result" where
  "iter_loop v cur =
     (if cur = Dim_Invalid then Inr []
      else if dim_ok cur \<and> dv_flags v ! nat cur then
        bindE (iter_loop v (iter_advance (dv_flags v) (cur + 1))) (\<lambda>rest.
          Inr (dv_values v ! nat cur # rest))
      else Inl AssertFailed)"
  by pat_completeness auto
termination
proof (relation "measure (\<lambda>(v, cur). if 0 \<le> cur \<and> cur \<le> int MAX_DIMS_64 then nat (int MAX_DIMS_64 + 1 - cur) else 0)")
  fix v :: DimValues and cur :: int
  assume "cur \<noteq> Dim_Invalid" "dim_ok cur \<and> dv_flags v ! nat cur"
  with skip_clear_ge [of "cur + 1" "dv_flags v"]
  show "((v, iter_advance (dv_flags v) (cur + 1)), v, cur) \<in>
      measure (\<lambda>(v, cur). if 0 \<le> cur \<and> cur \<le> int MAX_DIMS_64 then nat (int MAX_DIMS_64 + 1 - cur) else 0)"
    by (auto simp: iter_advance_def Let_def dim_ok_def)
qed simp

declare iter_loop.simps [simp del]

definition dv_iterate :: "DimValues \<Rightarrow> (Dim \<times> int) list result" where
  "dv_iterate v = iter_loop v (iter_advance (dv_flags v) Dim_W)"

section \<open>DimValues as a finite map\<close>

definition dv_ok :: "DimValues \<Rightarrow> bool" where
  "dv_ok v \<longleftrightarrow> length (dv_values v) = MAX_DIMS_64 \<and> length (dv_flags v) = MAX_DIMS_64 \<and>
     dv_size v = length (filter id (dv_flags v)) \<and>
     (\<forall>i < MAX_DIMS_64. dv_flags v ! i \<longrightarrow> fst (dv_values v ! i) = int i)"

definition dv_map :: "DimValues \<Rightarrow> Dim \<rightharpoonup> int" where
  "dv_map v d = (if dim_ok d \<and> dv_flags v ! nat d then Some (snd (dv_values v ! nat d)) else None)"

lemma dv_empty_ok [simp]: "dv_ok dv_empty" "dv_map dv_empty = Map.empty"
  by (simp_all add: dv_ok_def dv_empty_def dv_map_def fun_eq_iff dim_ok_def)

lemma dim_okD: "dim_ok d \<Longrightarrow> nat d < MAX_DIMS_64 \<and> 0 \<le> d"
  by (auto simp: dim_ok_def)

lemma count_set_True:
  "i < length bs \<Longrightarrow> \<not> bs ! i \<Longrightarrow> length (filter id (bs[i := True])) = Suc (length (filter id bs))"
  by (induction bs arbitrary: i) (auto split: nat.splits)

lemma count_set_False:
  "i < length bs \<Longrightarrow> bs ! i \<Longrightarrow> Suc (length (filter id (bs[i := False]))) = length (filter id bs)"
  by (induction bs arbitrary: i) (auto split: nat.splits)

lemma dv_set_ok:
  assumes "dv_ok v" "dim_ok d"
  shows "\<exists>v'. dv_set d x v = Inr v' \<and> dv_ok v' \<and> dv_map v' = (dv_map v)(d \<mapsto> x)"
proof -
  note d = dim_okD [OF assms(2)]
  let ?v = "if dv_flags v ! nat d then v
            else v\<lparr>dv_flags := (dv_flags v)[nat d := True], dv_size := Suc (dv_size v)\<rparr>"
  let ?v' = "?v\<lparr>dv_values := (dv_values ?v)[nat d := (d, x)]\<rparr>"
  have len: "length (dv_values v) = MAX_DIMS_64" "length (dv_flags v) = MAX_DIMS_64"
    using assms(1) by (auto simp: dv_ok_def)
  have "dv_set d x v = Inr ?v'" using assms(2) by (simp add: dv_set_def Let_def)
  moreover have "dv_ok ?v'"
    using assms(1) d count_set_True [of "nat d" "dv_flags v"]
    by (auto simp: dv_ok_def nth_list_update)
  moreover have "dv_map ?v' d' = ((dv_map v)(d \<mapsto> x)) d'" for d'
    using d len by (auto simp: dv_map_def nth_list_update dim_ok_def)
  ultimately show ?thesis by (intro exI [of _ ?v']) (simp add: fun_eq_iff)
qed

lemma dv_erase_ok:
  assumes "dv_ok v" "dim_ok d"
  shows "\<exists>v'. dv_erase d v = Inr v' \<and> dv_ok v' \<and> dv_map v' = (dv_map v)(d := None)"
proof (cases "dv_flags v ! nat d")
  case True
  note d = dim_okD [OF assms(2)]
  have len: "length (dv_values v) = MAX_DIMS_64" "length (dv_flags v) = MAX_DIMS_64"
    using assms(1) by (auto simp: dv_ok_def)
  let ?v = "v\<lparr>dv_flags := (dv_flags v)[nat d := False], dv_size := dv_size v - 1\<rparr>"
  have c: "Suc (length (filter id ((dv_flags v)[nat d := False]))) = dv_size v"
    using count_set_False [of "nat d" "dv_flags v"] True d assms(1) by (simp add: dv_ok_def)
  then have "dv_erase d v = Inr ?v" using assms(2) True by (auto simp: dv_erase_def)
  moreover have "dv_ok ?v" using assms(1) d c by (auto simp: dv_ok_def nth_list_update)
  moreover have "dv_map ?v d' = ((dv_map v)(d := None)) d'" for d'
    using d len by (auto simp: dv_map_def nth_list_update dim_ok_def)
  ultimately show ?thesis by (intro exI [of _ ?v]) (simp add: fun_eq_iff)
next
  case False
  with assms show ?thesis by (auto simp: dv_erase_def dv_map_def fun_eq_iff)
qed

lemma dv_at_eq: "dv_at v d = (case dv_map v d of Some x \<Rightarrow> Inr x | None \<Rightarrow> Inl AssertFailed)"
  by (cases "dim_ok d"; cases "dv_flags v ! nat d") (simp_all add: dv_at_def dv_map_def)

lemma dv_has_eq: "dim_ok d \<Longrightarrow> dv_has v d = Inr (d \<in> dom (dv_map v))"
  by (simp add: dv_has_def dv_map_def dom_def)

lemma dv_get_eq: "dim_ok d \<Longrightarrow> dv_get v d x = Inr (case dv_map v d of Some y \<Rightarrow> y | None \<Rightarrow> x)"
  by (simp add: dv_get_def dv_map_def)

lemma dv_map_dim_ok: "dv_map v d = Some x \<Longrightarrow> dim_ok d"
  by (simp add: dv_map_def split: if_splits)

lemma dv_eq_map: "dv_eq v w \<longleftrightarrow> dv_map v = dv_map w"
proof -
  have "(dv_map v (int i) = dv_map w (int i)) = (dv_flags v ! i = dv_flags w ! i \<and>
      (dv_flags v ! i \<longrightarrow> snd (dv_values v ! i) = snd (dv_values w ! i)))" if "i < MAX_DIMS_64" for i
    using that by (auto simp: dv_map_def dim_ok_def)
  then have "dv_eq v w \<longleftrightarrow> (\<forall>i < MAX_DIMS_64. dv_map v (int i) = dv_map w (int i))"
    by (auto simp: dv_eq_def list_all_iff)
  also have "\<dots> \<longleftrightarrow> dv_map v = dv_map w"
  proof
    assume all: "\<forall>i < MAX_DIMS_64. dv_map v (int i) = dv_map w (int i)"
    have "dv_map v d = dv_map w d" for d
    proof (cases "dim_ok d")
      case True
      with all dim_okD [OF True] show ?thesis by (metis int_nat_eq)
    qed (simp add: dv_map_def)
    then show "dv_map v = dv_map w" by (rule ext)
  qed simp
  finally show ?thesis .
qed

text \<open>What the iteration visits: the set entries, in ascending order.\<close>

definition dv_entries :: "DimValues \<Rightarrow> (Dim \<times> int) list" where
  "dv_entries v = map (\<lambda>i. (int i, snd (dv_values v ! i))) (filter (\<lambda>i. dv_flags v ! i) [0..<MAX_DIMS_64])"

lemma skip_clear_next:
  "k \<le> MAX_DIMS_64 \<Longrightarrow> skip_clear flags (int k) =
     int (case filter (\<lambda>i. flags ! i) [k..<MAX_DIMS_64] of [] \<Rightarrow> MAX_DIMS_64 | i # _ \<Rightarrow> i)"
proof (induction "MAX_DIMS_64 - k" arbitrary: k)
  case 0
  then show ?case by (subst skip_clear.simps) simp
next
  case (Suc n)
  then have lt: "k < MAX_DIMS_64" by simp
  then have "skip_clear flags (int (Suc k)) =
      int (case filter (\<lambda>i. flags ! i) [Suc k..<MAX_DIMS_64] of [] \<Rightarrow> MAX_DIMS_64 | i # _ \<Rightarrow> i)"
    using Suc by (intro Suc.hyps(1)) auto
  with lt show ?case
    by (subst skip_clear.simps) (simp add: upt_conv_Cons [OF lt] add.commute)
qed

lemma iter_loop_from:
  assumes ok: "dv_ok v" and "k \<le> MAX_DIMS_64"
  shows "iter_loop v (iter_advance (dv_flags v) (int k)) =
    Inr (map (\<lambda>i. (int i, snd (dv_values v ! i))) (filter (\<lambda>i. dv_flags v ! i) [k..<MAX_DIMS_64]))"
  using assms(2)
proof (induction "MAX_DIMS_64 - k" arbitrary: k rule: less_induct)
  case less
  note next_k = skip_clear_next [OF less.prems, of "dv_flags v"]
  show ?case
  proof (cases "filter (\<lambda>i. dv_flags v ! i) [k..<MAX_DIMS_64]")
    case Nil
    with next_k show ?thesis
      by (simp add: iter_advance_def Dim_Invalid_def) (subst iter_loop.simps, simp add: Dim_Invalid_def)
  next
    case (Cons i ks)
    then have "i \<in> set (filter (\<lambda>i. dv_flags v ! i) [k..<MAX_DIMS_64])" by simp
    then have i: "dv_flags v ! i" "k \<le> i" "i < MAX_DIMS_64" by auto
    have split: "[k..<MAX_DIMS_64] = [k..<i] @ i # [Suc i..<MAX_DIMS_64]"
      using i by (metis append_Cons append_Nil le_add_diff_inverse less_imp_le_nat upt_add_eq_append upt_conv_Cons)
    have "filter (\<lambda>i. dv_flags v ! i) [k..<i] = []"
    proof (rule ccontr)
      assume "filter (\<lambda>i. dv_flags v ! i) [k..<i] \<noteq> []"
      then obtain j js where j: "filter (\<lambda>i. dv_flags v ! i) [k..<i] = j # js" by (cases "filter (\<lambda>i. dv_flags v ! i) [k..<i]") auto
      then have "j \<in> set (filter (\<lambda>i. dv_flags v ! i) [k..<i])" by simp
      then have "j < i" by simp
      moreover have "j = i" using Cons j by (simp add: split)
      ultimately show False by simp
    qed
    then have tail: "ks = filter (\<lambda>i. dv_flags v ! i) [Suc i..<MAX_DIMS_64]"
      using Cons i by (simp add: split)
    have adv: "iter_advance (dv_flags v) (int k) = int i"
      using next_k Cons i by (simp add: iter_advance_def)
    have "iter_loop v (iter_advance (dv_flags v) (int (Suc i))) =
        Inr (map (\<lambda>i. (int i, snd (dv_values v ! i))) ks)"
      unfolding tail using i less.prems by (intro less.hyps) auto
    moreover have "dv_values v ! i = (int i, snd (dv_values v ! i))"
      using ok i by (metis dv_ok_def prod.collapse)
    ultimately show ?thesis
      using i by (simp add: adv Cons) (subst iter_loop.simps, simp add: Dim_Invalid_def dim_ok_def add.commute)
  qed
qed

lemma dv_iterate_entries: "dv_ok v \<Longrightarrow> dv_iterate v = Inr (dv_entries v)"
  using iter_loop_from [of v 0] by (simp add: dv_iterate_def dv_entries_def Dim_W_def)

lemma dv_entries_map: "dv_ok v \<Longrightarrow> map_of (dv_entries v) = dv_map v"
proof -
  assume ok: "dv_ok v"
  have "distinct (map fst (dv_entries v))" by (simp add: dv_entries_def o_def distinct_map)
  moreover have "(d, x) \<in> set (dv_entries v) \<longleftrightarrow> dv_map v d = Some x" for d x
  proof -
    have "dim_ok d \<longleftrightarrow> (\<exists>i < MAX_DIMS_64. d = int i)"
      by (auto simp: dim_ok_def intro: exI [of _ "nat d"])
    then show ?thesis by (auto simp: dv_entries_def dv_map_def)
  qed
  ultimately show ?thesis by (intro ext option_eqI) simp
qed

lemma dv_entries_sorted: "sorted_wrt (<) (map fst (dv_entries v))"
  by (simp add: dv_entries_def o_def sorted_wrt_map) (simp add: sorted_wrt_filter)

lemma dv_size_entries: "dv_ok v \<Longrightarrow> dv_size v = length (dv_entries v)"
proof -
  assume ok: "dv_ok v"
  have "length (filter id bs) = length (filter (\<lambda>i. bs ! i) [0..<length bs])" for bs :: "bool list"
    by (metis (no_types, lifting) length_filter_map id_apply map_nth comp_apply filter_cong)
  with ok show ?thesis by (simp add: dv_ok_def dv_entries_def)
qed

section \<open>The container as an interface\<close>

text \<open>
  What the code relies on in a container of dimension values: a set value is found again and
  nothing else changes, and an iteration visits every entry once, in ascending order.
\<close>

locale dim_container =
  fixes ok :: "'v \<Rightarrow> bool" and look :: "'v \<Rightarrow> Dim \<rightharpoonup> int"
    and put :: "Dim \<Rightarrow> int \<Rightarrow> 'v \<Rightarrow> 'v result" and drop_dim :: "Dim \<Rightarrow> 'v \<Rightarrow> 'v result"
    and iterate :: "'v \<Rightarrow> (Dim \<times> int) list result"
  assumes put_law: "ok v \<Longrightarrow> dim_ok d \<Longrightarrow> \<exists>v'. put d x v = Inr v' \<and> ok v' \<and> look v' = (look v)(d \<mapsto> x)"
    and drop_law: "ok v \<Longrightarrow> dim_ok d \<Longrightarrow> \<exists>v'. drop_dim d v = Inr v' \<and> ok v' \<and> look v' = (look v)(d := None)"
    and iterate_law: "ok v \<Longrightarrow> \<exists>es. iterate v = Inr es \<and> sorted_wrt (<) (map fst es) \<and> map_of es = look v"
begin

fun put_all :: "(Dim \<times> int) list \<Rightarrow> 'v \<Rightarrow> 'v result" where
  "put_all [] v = Inr v"
| "put_all ((d, x) # ps) v = bindE (put d x v) (put_all ps)"

lemma put_all_ok:
  "ok v \<Longrightarrow> \<forall>(d, x) \<in> set ps. dim_ok d \<Longrightarrow>
    \<exists>v'. put_all ps v = Inr v' \<and> ok v' \<and> look v' = look v ++ map_of (rev ps)"
proof (induction ps arbitrary: v)
  case (Cons p ps)
  obtain d x where p: "p = (d, x)" by force
  with put_law [OF Cons.prems(1), of d x] Cons.prems(2) obtain v1
    where v1: "put d x v = Inr v1" "ok v1" "look v1 = (look v)(d \<mapsto> x)" by auto
  from Cons.IH [OF v1(2)] Cons.prems(2) obtain v'
    where "put_all ps v1 = Inr v'" "ok v'" "look v' = look v1 ++ map_of (rev ps)" by auto
  with v1 p show ?case by simp
qed simp

lemma put_after_drop:
  assumes "ok v" "dim_ok d" "look v d = Some x"
  shows "\<exists>v1 v2. drop_dim d v = Inr v1 \<and> put d x v1 = Inr v2 \<and> look v2 = look v"
proof -
  from drop_law [OF assms(1,2)] obtain v1
    where v1: "drop_dim d v = Inr v1" "ok v1" "look v1 = (look v)(d := None)" by blast
  with put_law [OF v1(2) assms(2), of x] assms(3) show ?thesis by (auto simp: fun_eq_iff)
qed

lemma iterate_determined:
  assumes "ok v" "ok w" "look v = look w"
  shows "iterate v = iterate w"
proof -
  obtain es fs where es: "iterate v = Inr es" "sorted_wrt (<) (map fst es)" "map_of es = look v"
    and fs: "iterate w = Inr fs" "sorted_wrt (<) (map fst fs)" "map_of fs = look w"
    using iterate_law [OF assms(1)] iterate_law [OF assms(2)] by blast
  have d: "distinct (map fst es)" "distinct (map fst fs)"
    using es(2) fs(2) by (simp_all add: strict_sorted_iff)
  have "map_of es = map_of fs" using es fs assms(3) by simp
  then have set: "set es = set fs" using d map_of_inject_set by blast
  then have "map fst es = map fst fs"
    using es(2) fs(2) by (metis set_map strict_sorted_equal)
  moreover have "xs = map (\<lambda>k. (k, the (map_of xs k))) (map fst xs)" if "distinct (map fst xs)"
    for xs :: "(Dim \<times> int) list"
  proof (rule nth_equalityI)
    fix i assume i: "i < length xs"
    then have "map_of xs (fst (xs ! i)) = Some (snd (xs ! i))"
      using that by (simp add: map_of_eq_Some_iff)
    with i show "xs ! i = map (\<lambda>k. (k, the (map_of xs k))) (map fst xs) ! i" by simp
  qed simp
  ultimately have "es = fs" using d \<open>map_of es = map_of fs\<close> by metis
  with es fs show ?thesis by simp
qed

end

interpretation dims: dim_container dv_ok dv_map dv_set dv_erase dv_iterate
proof
  fix v assume ok: "dv_ok v"
  then show "\<exists>es. dv_iterate v = Inr es \<and> sorted_wrt (<) (map fst es) \<and> map_of es = dv_map v"
    by (simp add: dv_iterate_entries dv_entries_sorted dv_entries_map)
qed (simp_all add: dv_set_ok dv_erase_ok)

end
