(* ===== verification/VpuOrder.thy ===== *)
theory VpuOrder
  imports VpuDims
begin

text \<open>
  \<open>DimsOrder\<close>: a layout packed into 64 bits, one hexadecimal digit per dimension from the
  minor one up, digit \<open>dim + 1\<close> (\<open>src/src/vpu/graph_transformer/src/model/data_desc.cpp\<close>). The
  lemmas show that every accessor reads the same list of dimensions, that packing a
  permutation and reading it back is the identity, and what \<open>moveDim\<close> does to the list.
\<close>

section \<open>Codes\<close>

datatype DimsOrder = DimsOrder (od_code: "64 word")

definition ORDER_MASK :: "64 word" where
  "ORDER_MASK = drop_bit (64 div 4 - MAX_DIMS_64) (- 1)"

definition maskOrder :: "64 word \<Rightarrow> nat \<Rightarrow> 64 word" where
  "maskOrder fullOrder sz =
     (let mask = NOT ORDER_MASK OR NOT (push_bit (sz * 4) (- 1)) in fullOrder AND mask)"

definition order_C :: DimsOrder where "order_C = DimsOrder 0x3"
definition order_NC :: DimsOrder where "order_NC = DimsOrder 0x43"
definition order_CHW :: DimsOrder where "order_CHW = DimsOrder 0x321"
definition order_HWC :: DimsOrder where "order_HWC = DimsOrder 0x213"
definition order_HCW :: DimsOrder where "order_HCW = DimsOrder 0x231"
definition order_NCHW :: DimsOrder where "order_NCHW = DimsOrder 0x4321"
definition order_NHWC :: DimsOrder where "order_NHWC = DimsOrder 0x4213"
definition order_NHCW :: DimsOrder where "order_NHCW = DimsOrder 0x4231"
definition order_NCDHW :: DimsOrder where "order_NCDHW = DimsOrder 0x43521"
definition order_NDHWC :: DimsOrder where "order_NDHWC = DimsOrder 0x45213"

text \<open>
  \<open>isOrderCodeValid\<close>: the first loop collects the used dimensions (\<open>None\<close> is its early
  \<open>return false\<close>), the second one only breaks.
\<close>

fun used_scan :: "nat \<Rightarrow> 64 word \<Rightarrow> int list \<Rightarrow> nat \<Rightarrow> nat option" where
  "used_scan 0 orderCopy usedDims len = Some len"
| "used_scan (Suc n) orderCopy usedDims len =
     (let digit = uint (orderCopy AND 0xF) in
      if digit = 0 then Some len
      else let digit = digit - 1 in
        if digit \<in> set usedDims then None
        else used_scan n (drop_bit 4 orderCopy) (digit # usedDims) (len + 1))"

fun upper_scan :: "nat \<Rightarrow> 64 word \<Rightarrow> bool" where
  "upper_scan 0 orderCopy = True"
| "upper_scan (Suc n) orderCopy =
     (if orderCopy AND 0xF \<noteq> 0 then True else upper_scan n (drop_bit 4 orderCopy))"

definition isOrderCodeValid :: "64 word \<Rightarrow> bool" where
  "isOrderCodeValid order =
     (if order = 0 then False
      else case used_scan MAX_DIMS_64 order [] 0 of
        None \<Rightarrow> False
      | Some len \<Rightarrow> upper_scan (MAX_DIMS_64 - len) (drop_bit (4 * len) order))"

definition order_fromCode :: "64 word \<Rightarrow> DimsOrder result" where
  "order_fromCode code = bindE (ie_assert (isOrderCodeValid code)) (\<lambda>_. Inr (DimsOrder code))"

definition FULL_ORDER_DEFAULT :: "64 word" where
  "FULL_ORDER_DEFAULT = maskOrder 0x0fedcba987654321 MAX_DIMS_64"

definition order_fromNumDims :: "int \<Rightarrow> DimsOrder result" where
  "order_fromNumDims n =
     (if n = 1 then Inr order_C else if n = 2 then Inr order_NC
      else if n = 3 then Inr order_CHW else if n = 4 then Inr order_NCHW
      else if n = 5 then Inr order_NCDHW
      else order_fromCode (maskOrder FULL_ORDER_DEFAULT (nat n)))"

fun perm_code :: "Dim list \<Rightarrow> nat \<Rightarrow> 64 word \<Rightarrow> 64 word" where
  "perm_code [] sh code = code"
| "perm_code (d # ds) sh code =
     perm_code ds (sh + 4) (code + push_bit sh ((word_of_int d + 1) AND 0xF))"

definition order_fromPermutation :: "Dim list \<Rightarrow> DimsOrder result" where
  "order_fromPermutation perm = order_fromCode (perm_code perm 0 0)"

section \<open>Accessors\<close>

fun numDims_loop :: "nat \<Rightarrow> 64 word \<Rightarrow> int \<Rightarrow> int" where
  "numDims_loop 0 code out = out"
| "numDims_loop (Suc n) code out =
     (let digit = code AND 0xF in
      if digit = 0 then out else numDims_loop n (drop_bit 4 code) (out + 1))"

definition order_numDims :: "DimsOrder \<Rightarrow> int" where
  "order_numDims order = numDims_loop MAX_DIMS_64 (od_code order) 0"

fun hasDim_loop :: "nat \<Rightarrow> 64 word \<Rightarrow> int \<Rightarrow> bool" where
  "hasDim_loop 0 code dimDigit = False"
| "hasDim_loop (Suc n) code dimDigit =
     (let digit = code AND 0xF in
      if digit = 0 then False
      else if digit = word_of_int dimDigit then True
      else hasDim_loop n (drop_bit 4 code) dimDigit)"

definition order_hasDim :: "DimsOrder \<Rightarrow> Dim \<Rightarrow> bool" where
  "order_hasDim order d = hasDim_loop MAX_DIMS_64 (od_code order) (d + 1)"

fun dimInd_loop :: "nat \<Rightarrow> 64 word \<Rightarrow> int \<Rightarrow> int \<Rightarrow> int result" where
  "dimInd_loop 0 code dimDigit i = Inl (Thrown ''Dim is not available in layout'')"
| "dimInd_loop (Suc n) code dimDigit i =
     (let digit = code AND 0xF in
      if digit = 0 then Inl (Thrown ''Dim is not available in layout'')
      else if digit = word_of_int dimDigit then Inr i
      else dimInd_loop n (drop_bit 4 code) dimDigit (i + 1))"

definition order_dimInd :: "DimsOrder \<Rightarrow> Dim \<Rightarrow> int result" where
  "order_dimInd order d = dimInd_loop MAX_DIMS_64 (od_code order) (d + 1) 0"

fun perm_loop :: "nat \<Rightarrow> 64 word \<Rightarrow> Dim list" where
  "perm_loop 0 code = []"
| "perm_loop (Suc n) code =
     (let digit = code AND 0xF in
      if digit = 0 then [] else (uint digit - 1) # perm_loop n (drop_bit 4 code))"

definition order_toPermutation :: "DimsOrder \<Rightarrow> Dim list" where
  "order_toPermutation order = perm_loop MAX_DIMS_64 (od_code order)"

fun indices_loop :: "nat \<Rightarrow> 64 word \<Rightarrow> int \<Rightarrow> DimValues \<Rightarrow> DimValues result" where
  "indices_loop 0 code i out = Inr out"
| "indices_loop (Suc n) code i out =
     (let digit = code AND 0xF in
      if digit = 0 then Inr out
      else bindE (dv_set (uint digit - 1) i out) (indices_loop n (drop_bit 4 code) (i + 1)))"

definition order_toIndices :: "DimsOrder \<Rightarrow> DimValues result" where
  "order_toIndices order = indices_loop MAX_DIMS_64 (od_code order) 0 dv_empty"

text \<open>
  \<open>moveDim\<close>. The loop steps \<open>i\<close> from the old to the new position; its step is the sign of
  \<open>newPos - i\<close>, which does not change on the way.
\<close>

function move_loop :: "Dim list \<Rightarrow> int \<Rightarrow> int \<Rightarrow> Dim list" where
  "move_loop perm i newPos =
     (if i = newPos then perm
      else let step = (if i > newPos then -1 else 1)
        in move_loop (perm[nat i := perm ! nat (i + step)]) (i + step) newPos)"
  by pat_completeness auto
termination
  by (relation "measure (\<lambda>(perm, i, newPos). nat \<bar>newPos - i\<bar>)") (auto split: if_splits)

declare move_loop.simps [simp del]

definition order_moveDim :: "Dim \<Rightarrow> int \<Rightarrow> DimsOrder \<Rightarrow> DimsOrder result" where
  "order_moveDim d newPos order =
     bindE (ie_assert (newPos \<ge> 0 \<and> newPos < order_numDims order)) (\<lambda>_.
     bindE (order_dimInd order d) (\<lambda>oldPos.
     if oldPos = newPos then Inr order
     else let perm = order_toPermutation order in
       bindE (ie_assert (newPos < int (length perm))) (\<lambda>_.
       bindE (order_fromPermutation ((move_loop perm oldPos newPos)[nat newPos := d])) (\<lambda>o'.
       Inr (DimsOrder (od_code o'))))))"

definition isOrdersCompatible :: "DimsOrder \<Rightarrow> DimsOrder \<Rightarrow> bool" where
  "isOrdersCompatible order1 order2 \<longleftrightarrow>
     sort (order_toPermutation order1) = sort (order_toPermutation order2)"

definition dimToIeInd :: "Dim \<Rightarrow> int \<Rightarrow> int result" where
  "dimToIeInd d n =
     bindE (ie_assert (1 \<le> n \<and> n \<le> 8)) (\<lambda>_.
     bindE (order_fromNumDims n) (\<lambda>dimsOrder.
     bindE (order_dimInd dimsOrder d) (\<lambda>dimInd.
     Inr ((n - 1) - dimInd))))"

text \<open>\<open>printTo\<close>: the leading zero digits are skipped; an unnamed digit is printed as a number.\<close>

definition dim_name :: "nat \<Rightarrow> string" where
  "dim_name n = (if n = 1 then ''W'' else if n = 2 then ''H'' else if n = 3 then ''C''
     else if n = 4 then ''N'' else if n = 5 then ''D''
     else if n < 10 then [char_of (48 + n)] else [CHR ''1'', char_of (48 + n - 10)])"

definition code_digit :: "64 word \<Rightarrow> nat \<Rightarrow> nat" where
  "code_digit code i = unat (drop_bit (i * 4) code AND 0xF)"

fun print_top :: "64 word \<Rightarrow> nat \<Rightarrow> nat" where
  "print_top code 0 = 0"
| "print_top code (Suc i) = (if code_digit code i \<noteq> 0 then Suc i else print_top code i)"

definition order_print :: "DimsOrder \<Rightarrow> string" where
  "order_print order =
     (let code = od_code order
      in concat (map (\<lambda>i. dim_name (code_digit code i)) (rev [0..<print_top code MAX_DIMS_64])))"

section \<open>Codes and digit lists\<close>

fun num_of :: "Dim list \<Rightarrow> nat" where
  "num_of [] = 0"
| "num_of (d # ds) = nat (d + 1) + 16 * num_of ds"

lemma num_of_bound: "\<forall>d \<in> set ds. dim_ok d \<Longrightarrow> num_of ds < 16 ^ length ds"
proof (induction ds)
  case (Cons d ds)
  then have "num_of ds + 1 \<le> 16 ^ length ds" "nat (d + 1) \<le> 15"
    by (auto simp: dim_ok_def MAX_DIMS_64_def)
  then have "nat (d + 1) + 16 * num_of ds < 16 * 16 ^ length ds" by linarith
  then show ?case by simp
qed simp

lemma low_digit: "uint ((w :: 64 word) AND 0xF) = uint w mod 16"
proof -
  have "w AND 0xF = take_bit 4 w" by (simp add: take_bit_eq_mask mask_eq_exp_minus_1)
  then have "uint (w AND 0xF) = take_bit 4 (uint w)" by (simp only: unsigned_take_bit_eq)
  then show ?thesis by (simp add: take_bit_eq_mod)
qed

lemma low_digit_nat: "m < 2 ^ 64 \<Longrightarrow> uint ((word_of_nat m :: 64 word) AND 0xF) = int (m mod 16)"
  by (simp add: low_digit unsigned_of_nat take_bit_nat_eq_self zmod_int)

lemma shift_digit_nat: "m < 2 ^ 64 \<Longrightarrow> drop_bit 4 (word_of_nat m :: 64 word) = word_of_nat (m div 16)"
proof (rule word_uint_eqI)
  assume "m < 2 ^ 64"
  then have u: "uint (word_of_nat m :: 64 word) = int m" "uint (word_of_nat (m div 16) :: 64 word) = int (m div 16)"
    and t: "take_bit 64 (int m) = int m"
    by (simp_all add: unsigned_of_nat take_bit_nat_eq_self take_bit_int_eq_self)
  have "uint (drop_bit 4 (word_of_nat m :: 64 word)) = drop_bit 4 (int m)"
    by (simp only: unsigned_drop_bit_eq u) (simp add: t)
  then show "uint (drop_bit 4 (word_of_nat m :: 64 word)) = uint (word_of_nat (m div 16) :: 64 word)"
    by (simp only: u) (simp add: drop_bit_eq_div zdiv_int)
qed

text \<open>The one recursion behind every accessor: the digits up to the first zero one.\<close>

lemma perm_loop_num_of:
  "length ds \<le> n \<Longrightarrow> n \<le> 15 \<Longrightarrow> \<forall>d \<in> set ds. dim_ok d \<Longrightarrow> perm_loop n (word_of_nat (num_of ds)) = ds"
proof (induction ds arbitrary: n)
  case Nil
  then show ?case by (cases n) auto
next
  case (Cons d ds)
  then obtain n' where n: "n = Suc n'" by (cases n) auto
  let ?m = "num_of (d # ds)"
  have d: "0 \<le> d" "d \<le> 14" using Cons.prems by (auto simp: dim_ok_def MAX_DIMS_64_def)
  have "?m < 16 ^ length (d # ds)" using num_of_bound Cons.prems by blast
  also have "\<dots> \<le> 16 ^ 15" using Cons.prems by (intro power_increasing) auto
  finally have m: "?m < 2 ^ 64" by simp
  have dig: "uint ((word_of_nat ?m :: 64 word) AND 0xF) = d + 1"
    using low_digit_nat [OF m] d by simp
  have sh: "drop_bit 4 (word_of_nat ?m :: 64 word) = word_of_nat (num_of ds)"
    using shift_digit_nat [OF m] d by simp
  have nz: "(word_of_nat ?m :: 64 word) AND 0xF \<noteq> 0" using dig d by (metis add_pos_nonneg le_less not_less uint_0_eq zero_less_one add.commute zle_add1_eq_le)
  show ?case
    using Cons.IH [of n'] Cons.prems dig nz by (simp only: n perm_loop.simps Let_def sh if_False) simp
qed

lemma perm_code_num_of:
  "\<forall>d \<in> set ds. dim_ok d \<Longrightarrow> perm_code ds sh code = code + push_bit sh (word_of_nat (num_of ds))"
proof (induction ds arbitrary: sh code)
  case (Cons d ds)
  have d: "0 \<le> d" "d \<le> 14" using Cons.prems by (auto simp: dim_ok_def MAX_DIMS_64_def)
  have "((word_of_int d :: 64 word) + 1) = word_of_nat (nat (d + 1))" using d by (simp add: of_nat_nat)
  moreover have "(word_of_nat (nat (d + 1)) :: 64 word) AND 0xF = word_of_nat (nat (d + 1))"
  proof (rule word_uint_eqI)
    have lt: "nat (d + 1) < 2 ^ 64" and m: "nat (d + 1) mod 16 = nat (d + 1)" using d by simp_all
    have "uint (word_of_nat (nat (d + 1)) :: 64 word) = int (nat (d + 1))"
      using lt by (simp only: unsigned_of_nat) (simp add: take_bit_nat_eq_self)
    with low_digit_nat [OF lt]
    show "uint ((word_of_nat (nat (d + 1)) :: 64 word) AND 0xF) = uint (word_of_nat (nat (d + 1)) :: 64 word)"
      by (simp only: m)
  qed
  ultimately show ?case
    using Cons by (simp add: push_bit_eq_mult power_add algebra_simps)
qed simp

text \<open>A code is canonical when it encodes a list of distinct dimensions.\<close>

definition order_ok :: "DimsOrder \<Rightarrow> bool" where
  "order_ok order \<longleftrightarrow> (\<exists>ds. ds \<noteq> [] \<and> distinct ds \<and> length ds \<le> MAX_DIMS_64 \<and> (\<forall>d \<in> set ds. dim_ok d) \<and>
     od_code order = word_of_nat (num_of ds))"

lemma perm_loop_dims: "n \<le> MAX_DIMS_64 \<Longrightarrow> length (perm_loop n code) \<le> n \<and> (\<forall>d \<in> set (perm_loop n code). dim_ok d)"
proof (induction n code rule: perm_loop.induct)
  case (2 n code)
  have "uint (code AND 0xF) < 16" using low_digit [of code] by simp
  moreover have "code AND 0xF \<noteq> 0 \<Longrightarrow> 0 < uint (code AND 0xF)"
    by (metis le_less uint_ge_0 unsigned_eq_0_iff)
  ultimately show ?case using 2 by (auto simp: Let_def dim_ok_def MAX_DIMS_64_def)
qed simp

lemma uint_dim_digit: "dim_ok d \<Longrightarrow> uint (word_of_int (d + 1) :: 64 word) = d + 1"
  by (simp only: dim_ok_def MAX_DIMS_64_def unsigned_of_int) (simp add: take_bit_int_eq_self)

lemma numDims_loop_perm: "numDims_loop n code out = out + int (length (perm_loop n code))"
  by (induction n code out rule: numDims_loop.induct) (auto simp: Let_def)

lemma hasDim_loop_perm: "dim_ok d \<Longrightarrow> hasDim_loop n code (d + 1) = (d \<in> set (perm_loop n code))"
proof (induction n code "d + 1" rule: hasDim_loop.induct)
  case (2 n code)
  have "uint (word_of_int (d + 1) :: 64 word) = d + 1" by (rule uint_dim_digit) (use 2 in auto)
  then have "(code AND 0xF = word_of_int (d + 1)) = (uint (code AND 0xF) - 1 = d)"
    by (metis add_diff_cancel_right' diff_add_cancel word_eq_iff_unsigned)
  with 2 show ?case by (auto simp: Let_def)
qed simp

text \<open>The position of an element, as the loop counts it.\<close>

fun index_of :: "'a \<Rightarrow> 'a list \<Rightarrow> int \<Rightarrow> int option" where
  "index_of x [] i = None"
| "index_of x (y # ys) i = (if x = y then Some i else index_of x ys (i + 1))"

lemma dimInd_loop_perm:
  "dim_ok d \<Longrightarrow> dimInd_loop n code (d + 1) i = (case index_of d (perm_loop n code) i of
     Some j \<Rightarrow> Inr j | None \<Rightarrow> Inl (Thrown ''Dim is not available in layout''))"
proof (induction n code "d + 1" i rule: dimInd_loop.induct)
  case (2 n code i)
  have "uint (word_of_int (d + 1) :: 64 word) = d + 1" by (rule uint_dim_digit) (use 2 in auto)
  then have "(code AND 0xF = word_of_int (d + 1)) = (d = uint (code AND 0xF) - 1)"
    by (metis add_diff_cancel_right' diff_add_cancel word_eq_iff_unsigned)
  with 2 show ?case by (auto simp: Let_def)
qed simp

lemma index_of_Some: "index_of x ys i = Some j \<Longrightarrow> i \<le> j \<and> nat (j - i) < length ys \<and> ys ! nat (j - i) = x"
proof (induction ys arbitrary: i)
  case (Cons y ys)
  show ?case
  proof (cases "x = y")
    case False
    with Cons have "i + 1 \<le> j" "nat (j - (i + 1)) < length ys" "ys ! nat (j - (i + 1)) = x" by auto
    moreover from this have "nat (j - i) = Suc (nat (j - (i + 1)))" by simp
    ultimately show ?thesis by simp
  qed (use Cons in auto)
qed simp

lemma index_of_None: "index_of x ys i = None \<longleftrightarrow> x \<notin> set ys"
  by (induction ys arbitrary: i) auto

lemma used_scan_perm:
  "used_scan n code used len =
     (if distinct (perm_loop n code) \<and> set used \<inter> set (perm_loop n code) = {}
      then Some (len + length (perm_loop n code)) else None)"
proof (induction n code used len rule: used_scan.induct)
  case (2 n code used len)
  have "(uint (code AND 0xF) = 0) = (code AND 0xF = 0)" by (simp add: unsigned_eq_0_iff)
  with 2 show ?case by (auto simp: Let_def)
qed simp

lemma upper_scan_True: "upper_scan n code"
  by (induction n code rule: upper_scan.induct) auto

section \<open>What the accessors return\<close>

lemma order_numDims_perm: "order_numDims order = int (length (order_toPermutation order))"
  by (simp add: order_numDims_def order_toPermutation_def numDims_loop_perm)

lemma order_hasDim_perm: "dim_ok d \<Longrightarrow> order_hasDim order d = (d \<in> set (order_toPermutation order))"
  by (simp add: order_hasDim_def order_toPermutation_def hasDim_loop_perm)

lemma order_dimInd_perm: "dim_ok d \<Longrightarrow> order_dimInd order d = (case index_of d (order_toPermutation order) 0 of
    Some j \<Rightarrow> Inr j | None \<Rightarrow> Inl (Thrown ''Dim is not available in layout''))"
  by (simp add: order_dimInd_def order_toPermutation_def dimInd_loop_perm)

lemma order_perm_dims: "length (order_toPermutation order) \<le> MAX_DIMS_64 \<and> (\<forall>d \<in> set (order_toPermutation order). dim_ok d)"
  unfolding order_toPermutation_def by (rule perm_loop_dims) simp

lemma isOrderCodeValid_iff:
  "isOrderCodeValid code \<longleftrightarrow> code \<noteq> 0 \<and> distinct (order_toPermutation (DimsOrder code))"
  by (simp add: isOrderCodeValid_def used_scan_perm upper_scan_True order_toPermutation_def)

text \<open>The positions the accessors report are positions of the permutation.\<close>

lemma order_dimInd_Inr:
  assumes "distinct (order_toPermutation order)" "dim_ok d"
  shows "order_dimInd order d = Inr j \<longleftrightarrow>
    0 \<le> j \<and> j < int (length (order_toPermutation order)) \<and> order_toPermutation order ! nat j = d"
proof
  assume "order_dimInd order d = Inr j"
  then have "index_of d (order_toPermutation order) 0 = Some j"
    using order_dimInd_perm [OF assms(2)] by (auto split: option.splits)
  from index_of_Some [OF this]
  show "0 \<le> j \<and> j < int (length (order_toPermutation order)) \<and> order_toPermutation order ! nat j = d" by auto
next
  assume j: "0 \<le> j \<and> j < int (length (order_toPermutation order)) \<and> order_toPermutation order ! nat j = d"
  then have "d \<in> set (order_toPermutation order)" by (metis nat_less_iff nth_mem)
  then obtain k where k: "index_of d (order_toPermutation order) 0 = Some k"
    using index_of_None by (metis option.exhaust)
  from index_of_Some [OF this] have k': "0 \<le> k" "nat k < length (order_toPermutation order)"
    "order_toPermutation order ! nat k = d" by auto
  have "nat j < length (order_toPermutation order)" using j by (metis nat_less_iff)
  with j k' assms(1) have "nat j = nat k" by (metis nth_eq_iff_index_eq)
  with j k'(1) have "k = j" by linarith
  with k order_dimInd_perm [OF assms(2)] show "order_dimInd order d = Inr j" by simp
qed

text \<open>\<open>fromPermutation\<close> accepts a list of distinct dimensions and \<open>toPermutation\<close> reads it back.\<close>

lemma order_round_trip:
  assumes "ds \<noteq> []" "distinct ds" "length ds \<le> MAX_DIMS_64" "\<forall>d \<in> set ds. dim_ok d"
  shows "\<exists>order. order_fromPermutation ds = Inr order \<and> order_ok order \<and> order_toPermutation order = ds"
proof -
  let ?code = "word_of_nat (num_of ds) :: 64 word"
  have code: "perm_code ds 0 0 = ?code" using perm_code_num_of [OF assms(4)] by simp
  have p: "perm_loop MAX_DIMS_64 ?code = ds" using assms by (intro perm_loop_num_of) (simp_all add: MAX_DIMS_64_def)
  have "?code \<noteq> 0"
  proof
    assume "?code = 0"
    with p assms(1) show False by (simp add: MAX_DIMS_64_def eval_nat_numeral)
  qed
  with p assms(2) have "isOrderCodeValid ?code" by (simp add: isOrderCodeValid_iff order_toPermutation_def)
  then have "order_fromPermutation ds = Inr (DimsOrder ?code)"
    by (simp add: order_fromPermutation_def order_fromCode_def code)
  moreover have "order_ok (DimsOrder ?code)" using assms by (auto simp: order_ok_def)
  ultimately show ?thesis using p by (auto simp: order_toPermutation_def)
qed

lemma order_okD:
  assumes "order_ok order"
  shows "order_toPermutation order \<noteq> [] \<and> distinct (order_toPermutation order) \<and>
    order_fromPermutation (order_toPermutation order) = Inr order"
proof -
  obtain ds where ds: "ds \<noteq> []" "distinct ds" "length ds \<le> MAX_DIMS_64" "\<forall>d \<in> set ds. dim_ok d"
    "od_code order = word_of_nat (num_of ds)" using assms by (auto simp: order_ok_def)
  obtain o' where o': "order_fromPermutation ds = Inr o'" "order_toPermutation o' = ds"
    using order_round_trip [OF ds(1-4)] by blast
  have "perm_code ds 0 0 = od_code order" using perm_code_num_of [OF ds(4)] ds(5) by simp
  then have "o' = order"
    using o'(1) by (cases order) (auto simp: order_fromPermutation_def order_fromCode_def)
  with o' ds show ?thesis by simp
qed

section \<open>moveDim\<close>

text \<open>
  The loop shifts the elements between the two positions by one; with the moved element put
  into the gap this is: take the element out and insert it at the new position.
\<close>

lemma move_loop_nth:
  assumes "0 \<le> i" "i < int (length xs)" "0 \<le> q" "q < int (length xs)"
  shows "length (move_loop xs i q) = length xs \<and> (\<forall>k < length xs. int k \<noteq> q \<longrightarrow>
    move_loop xs i q ! k = (if i \<le> int k \<and> int k < q then xs ! (k + 1)
      else if q < int k \<and> int k \<le> i then xs ! (k - 1) else xs ! k))"
  using assms
proof (induction xs i q rule: move_loop.induct)
  case (1 xs i q)
  show ?case
  proof (cases "i = q")
    case True
    then show ?thesis by (subst (1 2) move_loop.simps) auto
  next
    case False
    let ?step = "if i > q then -1 else 1 :: int"
    let ?xs = "xs[nat i := xs ! nat (i + ?step)]"
    have IH: "length (move_loop ?xs (i + ?step) q) = length ?xs \<and> (\<forall>k < length ?xs. int k \<noteq> q \<longrightarrow>
      move_loop ?xs (i + ?step) q ! k = (if i + ?step \<le> int k \<and> int k < q then ?xs ! (k + 1)
        else if q < int k \<and> int k \<le> i + ?step then ?xs ! (k - 1) else ?xs ! k))"
      using "1.IH" [OF False refl] "1.prems" False by auto
    have eq: "move_loop xs i q = move_loop ?xs (i + ?step) q"
      using False by (subst move_loop.simps) (simp add: Let_def)
    show ?thesis
    proof (intro conjI allI impI)
      show "length (move_loop xs i q) = length xs" using IH eq by simp
    next
      fix k assume k: "k < length xs" "int k \<noteq> q"
      have at: "?xs ! l = (if int l = i then xs ! nat (i + ?step) else xs ! l)" if "l < length xs" for l
      proof -
        have "(nat i = l) = (int l = i)" using "1.prems" by auto
        with that show ?thesis by (simp add: nth_list_update)
      qed
      show "move_loop xs i q ! k = (if i \<le> int k \<and> int k < q then xs ! (k + 1)
        else if q < int k \<and> int k \<le> i then xs ! (k - 1) else xs ! k)"
      proof (cases "i < q")
        case True
        then have "k + 1 < length xs" if "int k < q" using that "1.prems" by linarith
        moreover have "nat (i + 1) = k + 1" if "int k = i" using that by linarith
        ultimately show ?thesis
          using IH k True at [of k] at [of "k + 1"] unfolding eq by auto
      next
        case gt: False
        have "nat (i - 1) = k - 1" if "int k = i" using that by linarith
        moreover have "int (k - 1) \<noteq> i" if "int k \<le> i - 1" using that by linarith
        ultimately show ?thesis
          using IH k gt False at [of k] at [of "k - 1"] unfolding eq by auto
      qed
    qed
  qed
qed

definition move_elem :: "nat \<Rightarrow> nat \<Rightarrow> 'a list \<Rightarrow> 'a list" where
  "move_elem p q xs = (let ys = take p xs @ drop (Suc p) xs in take q ys @ (xs ! p) # drop q ys)"

lemma nth_insert: "q \<le> length ys \<Longrightarrow> k \<le> length ys \<Longrightarrow>
    (take q ys @ x # drop q ys) ! k = (if k < q then ys ! k else if k = q then x else ys ! (k - 1))"
  by (auto simp: nth_append nth_Cons')

lemma nth_delete: "p < length xs \<Longrightarrow> k < length xs - 1 \<Longrightarrow>
    (take p xs @ drop (Suc p) xs) ! k = (if k < p then xs ! k else xs ! (k + 1))"
  by (auto simp: nth_append)

lemma move_elem_eq:
  assumes "p < length xs" "q < length xs"
  shows "(move_loop xs (int p) (int q))[q := xs ! p] = move_elem p q xs"
proof (rule nth_equalityI)
  have m: "length (move_loop xs (int p) (int q)) = length xs"
    "k < length xs \<Longrightarrow> k \<noteq> q \<Longrightarrow> move_loop xs (int p) (int q) ! k =
      (if p \<le> k \<and> k < q then xs ! (k + 1) else if q < k \<and> k \<le> p then xs ! (k - 1) else xs ! k)" for k
    using move_loop_nth [of "int p" xs "int q"] assms by auto
  show "length ((move_loop xs (int p) (int q))[q := xs ! p]) = length (move_elem p q xs)"
    using m assms by (simp add: move_elem_def Let_def)
  fix k assume "k < length ((move_loop xs (int p) (int q))[q := xs ! p])"
  then have k: "k < length xs" using m assms by simp
  let ?ys = "take p xs @ drop (Suc p) xs"
  have len: "length ?ys = length xs - 1" using assms by simp
  have e: "move_elem p q xs ! k = (if k < q then ?ys ! k else if k = q then xs ! p else ?ys ! (k - 1))"
    unfolding move_elem_def Let_def using assms k len by (intro nth_insert) linarith+
  show "(move_loop xs (int p) (int q))[q := xs ! p] ! k = move_elem p q xs ! k"
  proof (cases "k = q")
    case True
    then show ?thesis unfolding e using m assms by simp
  next
    case False
    then have l: "(move_loop xs (int p) (int q))[q := xs ! p] ! k = move_loop xs (int p) (int q) ! k" by simp
    show ?thesis
    proof (cases "k < q")
      case True
      then show ?thesis unfolding e l using m(2) [OF k False] assms nth_delete [of p xs k] by simp
    next
      case nk: False
      with False have "0 < k" "k - 1 < length xs - 1" using k by auto
      with nk False show ?thesis
        unfolding e l using m(2) [OF k False] assms nth_delete [of p xs "k - 1"] by auto
    qed
  qed
qed

lemma mset_move_elem:
  assumes "p < length xs"
  shows "mset (move_elem p q xs) = mset xs"
proof -
  let ?ys = "take p xs @ drop (Suc p) xs"
  have "mset (move_elem p q xs) = add_mset (xs ! p) (mset (take q ?ys @ drop q ?ys))"
    by (simp add: move_elem_def Let_def)
  also have "\<dots> = add_mset (xs ! p) (mset ?ys)" by (simp only: append_take_drop_id)
  also have "\<dots> = mset (take p xs @ xs ! p # drop (Suc p) xs)" by simp
  also have "\<dots> = mset xs" using assms by (simp add: id_take_nth_drop [symmetric])
  finally show ?thesis .
qed

lemma move_elem_nth: "p < length xs \<Longrightarrow> q < length xs \<Longrightarrow> move_elem p q xs ! q = xs ! p"
  unfolding move_elem_def Let_def by (subst nth_insert) auto

lemma move_elem_back:
  assumes "p < length xs" "q < length xs"
  shows "move_elem q p (move_elem p q xs) = xs"
proof -
  let ?ys = "take p xs @ drop (Suc p) xs"
  define A where "A = take q ?ys"
  define B where "B = drop q ?ys"
  have "length A = q" using assms by (auto simp: A_def)
  moreover have "move_elem p q xs = A @ xs ! p # B" by (simp only: move_elem_def Let_def A_def B_def)
  ultimately have "take q (move_elem p q xs) @ drop (Suc q) (move_elem p q xs) = A @ B" by simp
  also have "A @ B = ?ys" by (simp only: A_def B_def append_take_drop_id)
  finally have "take q (move_elem p q xs) @ drop (Suc q) (move_elem p q xs) = ?ys" .
  then have "move_elem q p (move_elem p q xs) = take p ?ys @ xs ! p # drop p ?ys"
    using move_elem_nth [OF assms] by (simp only: move_elem_def [of q p] Let_def)
  then show ?thesis using assms by (simp add: id_take_nth_drop [symmetric])
qed

lemma order_moveDim_result:
  assumes ok: "order_ok order" and d: "p < length (order_toPermutation order)" "order_toPermutation order ! p = d"
    and q: "q < length (order_toPermutation order)"
  shows "\<exists>order'. order_moveDim d (int q) order = Inr order' \<and> order_ok order' \<and>
    order_toPermutation order' = move_elem p q (order_toPermutation order)"
proof -
  let ?perm = "order_toPermutation order"
  note pd = order_okD [OF ok] order_perm_dims [of order]
  have dim: "dim_ok d" using pd d by (metis nth_mem)
  have ind: "order_dimInd order d = Inr (int p)" using order_dimInd_Inr [OF _ dim] pd d by simp
  show ?thesis
  proof (cases "p = q")
    case True
    have "move_elem p q ?perm = ?perm"
      using True d(1) by (simp add: move_elem_def Let_def min_def id_take_nth_drop [symmetric])
    with True ind q ok show ?thesis by (auto simp: order_moveDim_def order_numDims_perm)
  next
    case False
    let ?new = "move_elem p q ?perm"
    have m: "mset ?new = mset ?perm" by (rule mset_move_elem [OF d(1)])
    have "?new \<noteq> []" by (simp add: move_elem_def Let_def)
    moreover have "distinct ?new" using m pd by (metis mset_eq_imp_distinct_iff)
    moreover have "length ?new \<le> MAX_DIMS_64" using mset_eq_length [OF m] pd by simp
    moreover have "\<forall>d \<in> set ?new. dim_ok d" using mset_eq_setD [OF m] pd by simp
    ultimately have "?new \<noteq> []" "distinct ?new" "length ?new \<le> MAX_DIMS_64" "\<forall>d \<in> set ?new. dim_ok d"
      by blast+
    from order_round_trip [OF this] obtain order'
      where o': "order_fromPermutation ?new = Inr order'" "order_ok order'" "order_toPermutation order' = ?new" by blast
    have "(move_loop ?perm (int p) (int q))[q := d] = ?new" using move_elem_eq [OF d(1) q] d(2) by simp
    then have "order_moveDim d (int q) order = Inr order'"
      using False ind q o'(1) by (cases order') (simp add: order_moveDim_def order_numDims_perm)
    with o' show ?thesis by blast
  qed
qed

lemma isOrdersCompatible_iff:
  "isOrdersCompatible o1 o2 \<longleftrightarrow> mset (order_toPermutation o1) = mset (order_toPermutation o2)"
  by (metis isOrdersCompatible_def mset_sort properties_for_sort sorted_sort)

lemma indices_loop_perm:
  "dv_ok out \<Longrightarrow> distinct (perm_loop n code) \<Longrightarrow> n \<le> MAX_DIMS_64 \<Longrightarrow>
    \<exists>out'. indices_loop n code i out = Inr out' \<and> dv_ok out' \<and>
      dv_map out' = dv_map out ++ (\<lambda>d. index_of d (perm_loop n code) i)"
proof (induction n code i out rule: indices_loop.induct)
  case (2 n code i out)
  show ?case
  proof (cases "code AND 0xF = 0")
    case True
    with 2 show ?thesis by (auto simp: Let_def map_add_def)
  next
    case False
    let ?d = "uint (code AND 0xF) - 1"
    have "?d \<in> set (perm_loop (Suc n) code)" using False by simp
    with perm_loop_dims [OF "2.prems"(3), of code] have "dim_ok ?d" by blast
    from dims.put_law [OF "2.prems"(1) this, of i] obtain o1
      where o1: "dv_set ?d i out = Inr o1" "dv_ok o1" "dv_map o1 = (dv_map out)(?d \<mapsto> i)" by blast
    have notin: "?d \<notin> set (perm_loop n (drop_bit 4 code))" and dist: "distinct (perm_loop n (drop_bit 4 code))"
      using "2.prems"(2) False by (auto simp: Let_def)
    from "2.IH" [OF refl False o1(2) dist] "2.prems"(3) obtain out'
      where "indices_loop n (drop_bit 4 code) (i + 1) o1 = Inr out'" "dv_ok out'"
        "dv_map out' = dv_map o1 ++ (\<lambda>d. index_of d (perm_loop n (drop_bit 4 code)) (i + 1))" by auto
    then show ?thesis
      using False o1 index_of_None [of ?d "perm_loop n (drop_bit 4 code)" "i + 1"] notin
      by (auto simp: Let_def fun_eq_iff map_add_def split: option.splits)
  qed
qed (auto simp: map_add_def)

section \<open>The layout interface\<close>

text \<open>
  What the descriptors rely on in a layout: it is a list of distinct dimensions, made from any
  such list, whose length, members and positions the accessors report.
\<close>

locale dims_order =
  fixes ok :: "'o \<Rightarrow> bool" and perm :: "'o \<Rightarrow> Dim list" and from_perm :: "Dim list \<Rightarrow> 'o result"
    and num :: "'o \<Rightarrow> int" and has :: "'o \<Rightarrow> Dim \<Rightarrow> bool" and ind :: "'o \<Rightarrow> Dim \<Rightarrow> int result"
    and move :: "Dim \<Rightarrow> int \<Rightarrow> 'o \<Rightarrow> 'o result"
  assumes perm_law: "ok c \<Longrightarrow> perm c \<noteq> [] \<and> distinct (perm c) \<and> (\<forall>d \<in> set (perm c). dim_ok d) \<and>
      length (perm c) \<le> MAX_DIMS_64"
    and from_law: "ds \<noteq> [] \<Longrightarrow> distinct ds \<Longrightarrow> length ds \<le> MAX_DIMS_64 \<Longrightarrow> \<forall>d \<in> set ds. dim_ok d \<Longrightarrow>
      \<exists>c. from_perm ds = Inr c \<and> ok c \<and> perm c = ds"
    and back_law: "ok c \<Longrightarrow> from_perm (perm c) = Inr c"
    and num_law: "num c = int (length (perm c))"
    and has_law: "dim_ok d \<Longrightarrow> has c d = (d \<in> set (perm c))"
    and ind_law: "ok c \<Longrightarrow> dim_ok d \<Longrightarrow> ind c d = Inr j \<longleftrightarrow> 0 \<le> j \<and> j < num c \<and> perm c ! nat j = d"
    and move_law: "ok c \<Longrightarrow> p < length (perm c) \<Longrightarrow> q < length (perm c) \<Longrightarrow>
      \<exists>c'. move (perm c ! p) (int q) c = Inr c' \<and> ok c' \<and> perm c' = move_elem p q (perm c)"
begin

lemma perm_inject: "ok c \<Longrightarrow> ok c' \<Longrightarrow> perm c = perm c' \<Longrightarrow> c = c'"
  by (metis back_law sum.inject(2))

lemma ind_perm: "ok c \<Longrightarrow> p < length (perm c) \<Longrightarrow> ind c (perm c ! p) = Inr (int p)"
  using ind_law [of c "perm c ! p" "int p"] perm_law [of c] by (simp add: num_law)

lemma ind_defined: "ok c \<Longrightarrow> dim_ok d \<Longrightarrow> has c d \<longleftrightarrow> (\<exists>j. ind c d = Inr j)"
proof
  assume "ok c" "dim_ok d" "has c d"
  then obtain p where "p < length (perm c)" "perm c ! p = d" by (auto simp: has_law in_set_conv_nth)
  with ind_perm [OF \<open>ok c\<close>] show "\<exists>j. ind c d = Inr j" by blast
next
  assume a: "ok c" "dim_ok d" "\<exists>j. ind c d = Inr j"
  then obtain j where "0 \<le> j" "j < num c" "perm c ! nat j = d" using ind_law [OF a(1,2)] by blast
  then have "nat j < length (perm c)" by (simp add: num_law)
  with \<open>perm c ! nat j = d\<close> a(2) show "has c d" by (metis has_law nth_mem)
qed

text \<open>Moving a dimension keeps the dimensions, puts it at its new index, and moving it back undoes it.\<close>

lemma move_keeps:
  assumes "ok c" "p < length (perm c)" "q < length (perm c)"
  shows "\<exists>c'. move (perm c ! p) (int q) c = Inr c' \<and> ok c' \<and> mset (perm c') = mset (perm c) \<and>
    ind c' (perm c ! p) = Inr (int q) \<and> move (perm c ! p) (int p) c' = Inr c"
proof -
  obtain c' where c': "move (perm c ! p) (int q) c = Inr c'" "ok c'" "perm c' = move_elem p q (perm c)"
    using move_law [OF assms] by blast
  have len: "length (perm c') = length (perm c)" and ms: "mset (perm c') = mset (perm c)"
    using c'(3) mset_move_elem [OF assms(2), of q] by (metis mset_eq_length)+
  have at: "perm c' ! q = perm c ! p" using c'(3) move_elem_nth [OF assms(2,3)] by simp
  with ind_perm [OF c'(2), of q] len assms(3) have ind: "ind c' (perm c ! p) = Inr (int q)" by simp
  obtain c'' where c'': "move (perm c' ! q) (int p) c' = Inr c''" "ok c''" "perm c'' = move_elem q p (perm c')"
    using move_law [OF c'(2), of q p] len assms by auto
  have "perm c'' = perm c" using c''(3) c'(3) move_elem_back [OF assms(2,3)] by simp
  then have "c'' = c" using perm_inject c''(2) assms(1) by blast
  with c' c'' ind ms at show ?thesis by auto
qed

end

interpretation orders: dims_order order_ok order_toPermutation order_fromPermutation
  order_numDims order_hasDim order_dimInd order_moveDim
proof
  fix c d j
  assume "order_ok c" "dim_ok d"
  then show "order_dimInd c d = Inr j \<longleftrightarrow> 0 \<le> j \<and> j < order_numDims c \<and> order_toPermutation c ! nat j = d"
    using order_dimInd_Inr order_okD by (simp add: order_numDims_perm)
qed (simp_all add: order_okD order_perm_dims order_round_trip order_numDims_perm order_hasDim_perm
    order_moveDim_result)

section \<open>Properties\<close>

text \<open>
  C8. Packing a list of at most 15 distinct dimensions with \<open>fromPermutation\<close> never asserts, and
  every accessor reads the list back: \<open>toPermutation\<close> the list, \<open>numDims\<close> its length, \<open>dimInd\<close> and
  \<open>toIndices\<close> the position of each dimension.
\<close>

theorem fromPermutation_round_trip:
  assumes "ds \<noteq> []" "distinct ds" "length ds \<le> MAX_DIMS_64" "\<forall>d \<in> set ds. dim_ok d"
  shows "\<exists>order ixs. order_fromPermutation ds = Inr order \<and> order_toPermutation order = ds \<and>
    order_numDims order = int (length ds) \<and> order_toIndices order = Inr ixs \<and>
    (\<forall>p < length ds. order_dimInd order (ds ! p) = Inr (int p) \<and> dv_at ixs (ds ! p) = Inr (int p)) \<and>
    (\<forall>d. dim_ok d \<longrightarrow> order_hasDim order d = (d \<in> set ds))"
proof -
  obtain order where o: "order_fromPermutation ds = Inr order" "order_ok order" "order_toPermutation order = ds"
    using orders.from_law [OF assms] by blast
  from indices_loop_perm [of dv_empty MAX_DIMS_64 "od_code order" 0] o(3) assms(2)
  obtain ixs where ixs: "order_toIndices order = Inr ixs"
    "dv_map ixs = (\<lambda>d. index_of d ds 0)"
    by (auto simp: order_toIndices_def order_toPermutation_def)
  have ind: "order_dimInd order (ds ! p) = Inr (int p)" if "p < length ds" for p
    using orders.ind_perm [OF o(2), of p] o(3) that by simp
  moreover have "dv_at ixs (ds ! p) = Inr (int p)" if p: "p < length ds" for p
  proof -
    have "dim_ok (ds ! p)" using assms(4) p by simp
    with ind [OF p] order_dimInd_perm [OF this, of order] o(3) ixs(2)
    show ?thesis by (auto simp: dv_at_eq split: option.splits)
  qed
  ultimately show ?thesis using o ixs by (auto simp: orders.num_law orders.has_law)
qed

theorem fromPermutation_round_trip_witness:
  "order_fromPermutation [2, 0, 1] = Inr (DimsOrder 0x213) \<and> order_toPermutation (DimsOrder 0x213) = [2, 0, 1]"
proof -
  have "order_fromPermutation [2, 0, 1] = Inr (DimsOrder 0x213)" by code_simp
  with fromPermutation_round_trip [of "[2, 0, 1]"] show ?thesis
    by (auto simp: MAX_DIMS_64_def dim_ok_def)
qed

text \<open>
  \<open>moveDim\<close> on a well-formed layout and a valid index takes the dimension out of the
  permutation and inserts it at the new index; the set of dimensions stays the same (so the new
  layout is compatible with the old one), and moving the dimension back restores the layout.
\<close>

theorem moveDim_moves:
  assumes "order_ok order" "p < length (order_toPermutation order)" "q < length (order_toPermutation order)"
  defines "d \<equiv> order_toPermutation order ! p"
  shows "\<exists>order'. order_moveDim d (int q) order = Inr order' \<and>
    order_toPermutation order' = move_elem p q (order_toPermutation order) \<and>
    isOrdersCompatible order order' \<and> order_dimInd order' d = Inr (int q) \<and>
    order_moveDim d (int p) order' = Inr order"
  using orders.move_law [OF assms(1-3)] orders.move_keeps [OF assms(1-3)]
  unfolding d_def by (auto simp: isOrdersCompatible_iff)

theorem moveDim_moves_witness:
  "order_moveDim Dim_C 0 order_NCHW = Inr order_NHWC \<and> order_moveDim Dim_C 2 order_NHWC = Inr order_NCHW"
proof -
  have ok: "order_ok order_NCHW"
    unfolding order_ok_def by (rule exI [of _ "[0, 1, 2, 3]"])
      (simp add: MAX_DIMS_64_def dim_ok_def order_NCHW_def)
  have p: "order_toPermutation order_NCHW = [0, 1, 2, 3]" "order_moveDim 2 0 order_NCHW = Inr order_NHWC"
    by code_simp+
  from moveDim_moves [OF ok, of 2 0] show ?thesis by (simp add: p Dim_C_def)
qed

text \<open>
  C9. Which codes \<open>fromCode\<close> accepts: exactly the non-zero ones whose digits below the first
  zero digit are pairwise different. Digits above a zero one are never rejected, although the
  code's comment says they should be: \<open>0x103\<close> is accepted as the layout C, and \<open>0x30\<close> as a
  layout without dimensions.
\<close>

theorem fromCode_accepts:
  "(\<exists>order. order_fromCode code = Inr order) = (code \<noteq> 0 \<and> distinct (order_toPermutation (DimsOrder code))) \<and>
   order_fromCode 0x103 = Inr (DimsOrder 0x103) \<and> order_toPermutation (DimsOrder 0x103) = order_toPermutation order_C \<and>
   order_fromCode 0x30 = Inr (DimsOrder 0x30) \<and> order_numDims (DimsOrder 0x30) = 0"
proof -
  have "(\<exists>order. order_fromCode code = Inr order) = (code \<noteq> 0 \<and> distinct (order_toPermutation (DimsOrder code)))"
    by (simp add: order_fromCode_def isOrderCodeValid_iff)
  moreover have "order_fromCode 0x103 = Inr (DimsOrder 0x103)"
    "order_toPermutation (DimsOrder 0x103) = order_toPermutation order_C"
    "order_fromCode 0x30 = Inr (DimsOrder 0x30)" "order_numDims (DimsOrder 0x30) = 0" by code_simp+
  ultimately show ?thesis by blast
qed

end
