(* ===== verification/VpuDesc.thy ===== *)
theory VpuDesc
  imports VpuOrder
begin

text \<open>
  \<open>DataDesc\<close> (type, layout, dimensions) and \<open>StridesRequirement\<close>, with the computation and
  the check of strides (\<open>vpu/model/data_desc.hpp\<close>,
  \<open>src/src/vpu/graph_transformer/src/model/data_desc.cpp\<close>). The lemmas show that computed
  strides satisfy the requirements they were computed from, and that under them two elements
  of a tensor never share a byte and the tensor fits into its total byte size. Sizes, strides
  and offsets are unbounded integers here; the code computes them in 32-bit \<open>int\<close>, so that everything is
  about tensors of less than 2 GB.
\<close>

section \<open>Descriptors\<close>

datatype DataType = DT_FP16 | DT_U8 | DT_S32 | DT_FP32 | DT_I8

record DataDesc =
  dd_type :: DataType
  dd_dimsOrder :: DimsOrder
  dd_dims :: DimValues

definition elemSize :: "DataDesc \<Rightarrow> int" where
  "elemSize desc = (case dd_type desc of DT_U8 \<Rightarrow> 1 | DT_I8 \<Rightarrow> 1 | DT_FP16 \<Rightarrow> 2 | DT_FP32 \<Rightarrow> 4 | DT_S32 \<Rightarrow> 4)"

text \<open>The constructors from a list of sizes in memory order and from a container.\<close>

fun set_all :: "(Dim \<times> int) list \<Rightarrow> DimValues \<Rightarrow> DimValues result" where
  "set_all [] v = Inr v"
| "set_all ((d, x) # ps) v = bindE (dv_set d x v) (set_all ps)"

definition mk_DataDesc :: "DataType \<Rightarrow> DimsOrder \<Rightarrow> int list \<Rightarrow> DataDesc result" where
  "mk_DataDesc ty order dims =
     (let perm = order_toPermutation order in
      bindE (ie_assert (length dims = length perm)) (\<lambda>_.
      bindE (set_all (zip perm dims) dv_empty) (\<lambda>v.
      Inr \<lparr>dd_type = ty, dd_dimsOrder = order, dd_dims = v\<rparr>)))"

definition mk_DataDesc_dims :: "int list \<Rightarrow> DataDesc result" where
  "mk_DataDesc_dims dims =
     bindE (order_fromNumDims (int (length dims))) (\<lambda>order. mk_DataDesc DT_FP16 order dims)"

fun has_all_dims :: "DimsOrder \<Rightarrow> (Dim \<times> int) list \<Rightarrow> unit result" where
  "has_all_dims order [] = Inr ()"
| "has_all_dims order ((d, x) # ps) =
     bindE (ie_assert (order_hasDim order d)) (\<lambda>_. has_all_dims order ps)"

definition mk_DataDesc_values :: "DataType \<Rightarrow> DimsOrder \<Rightarrow> DimValues \<Rightarrow> DataDesc result" where
  "mk_DataDesc_values ty order dims =
     bindE (ie_assert (order_numDims order = int (dv_size dims))) (\<lambda>_.
     bindE (dv_iterate dims) (\<lambda>es.
     bindE (has_all_dims order es) (\<lambda>_.
     Inr \<lparr>dd_type = ty, dd_dimsOrder = order, dd_dims = dims\<rparr>)))"

definition desc_numDims :: "DataDesc \<Rightarrow> int" where
  "desc_numDims desc = order_numDims (dd_dimsOrder desc)"

definition desc_dim :: "DataDesc \<Rightarrow> Dim \<Rightarrow> int result" where
  "desc_dim desc d = dv_at (dd_dims desc) d"

definition desc_dim_or :: "DataDesc \<Rightarrow> Dim \<Rightarrow> int \<Rightarrow> int result" where
  "desc_dim_or desc d defVal =
     bindE (dv_has (dd_dims desc) d) (\<lambda>b. if b then dv_at (dd_dims desc) d else Inr defVal)"

definition desc_setDim :: "Dim \<Rightarrow> int \<Rightarrow> DataDesc \<Rightarrow> DataDesc result" where
  "desc_setDim d val desc =
     bindE (ie_assert (order_hasDim (dd_dimsOrder desc) d)) (\<lambda>_.
     bindE (dv_set d val (dd_dims desc)) (\<lambda>v. Inr (desc\<lparr>dd_dims := v\<rparr>)))"

fun mul_dims :: "DimValues \<Rightarrow> Dim list \<Rightarrow> int \<Rightarrow> int result" where
  "mul_dims dims [] tot = Inr tot"
| "mul_dims dims (d # ds) tot = bindE (dv_at dims d) (\<lambda>x. mul_dims dims ds (tot * x))"

definition totalDimSize :: "DataDesc \<Rightarrow> int result" where
  "totalDimSize desc = mul_dims (dd_dims desc) (order_toPermutation (dd_dimsOrder desc)) 1"

definition desc_moveDim :: "Dim \<Rightarrow> int \<Rightarrow> DataDesc \<Rightarrow> DataDesc result" where
  "desc_moveDim d newPos desc =
     bindE (order_moveDim d newPos (dd_dimsOrder desc)) (\<lambda>order. Inr (desc\<lparr>dd_dimsOrder := order\<rparr>))"

definition desc_reorder :: "DimsOrder \<Rightarrow> DataDesc \<Rightarrow> DataDesc result" where
  "desc_reorder order desc =
     bindE (ie_assert (isOrdersCompatible (dd_dimsOrder desc) order)) (\<lambda>_.
     Inr (desc\<lparr>dd_dimsOrder := order\<rparr>))"

section \<open>Stride requirements\<close>

datatype DimStride = AnyStride | Compact | Aligned | Fixed

definition STRIDE_ALIGNMENT :: int where "STRIDE_ALIGNMENT = 16"

record StridesRequirement =
  sr_map :: "DimStride list"
  sr_fixedStrides :: DimValues

definition strides_default :: StridesRequirement where
  "strides_default = \<lparr>sr_map = (replicate MAX_DIMS_64 AnyStride)[0 := Compact], sr_fixedStrides = dv_empty\<rparr>"

definition index_ok :: "int \<Rightarrow> bool" where
  "index_ok i \<longleftrightarrow> 0 \<le> i \<and> i < int MAX_DIMS_64"

definition strides_add :: "int \<Rightarrow> DimStride \<Rightarrow> StridesRequirement \<Rightarrow> StridesRequirement result" where
  "strides_add index stride reqs =
     bindE (ie_assert (index_ok index)) (\<lambda>_. Inr (reqs\<lparr>sr_map := (sr_map reqs)[nat index := stride]\<rparr>))"

definition strides_remove :: "int \<Rightarrow> StridesRequirement \<Rightarrow> StridesRequirement result" where
  "strides_remove index reqs =
     bindE (ie_assert (index_ok index)) (\<lambda>_. Inr (reqs\<lparr>sr_map := (sr_map reqs)[nat index := AnyStride]\<rparr>))"

definition strides_get :: "StridesRequirement \<Rightarrow> int \<Rightarrow> DimStride result" where
  "strides_get reqs index = bindE (ie_assert (index_ok index)) (\<lambda>_. Inr (sr_map reqs ! nat index))"

definition strides_empty :: "StridesRequirement result" where
  "strides_empty = strides_add 0 AnyStride strides_default"

fun add_from :: "nat \<Rightarrow> DimStride \<Rightarrow> StridesRequirement \<Rightarrow> StridesRequirement result" where
  "add_from 0 stride reqs = Inr reqs"
| "add_from (Suc n) stride reqs =
     bindE (strides_add (int (MAX_DIMS_64 - Suc n)) stride reqs) (add_from n stride)"

definition strides_compact :: "StridesRequirement result" where
  "strides_compact = add_from MAX_DIMS_64 Compact strides_default"

text \<open>\<open>StridesRequirement::fixed\<close>; \<open>strides\<close> is indexed by the IE index of the dimension.\<close>

fun set_fixed :: "int list \<Rightarrow> DataDesc \<Rightarrow> Dim list \<Rightarrow> StridesRequirement \<Rightarrow> StridesRequirement result" where
  "set_fixed strides desc [] reqs = Inr reqs"
| "set_fixed strides desc (d # ds) reqs =
     (let dimsOrder = dd_dimsOrder desc; perm = order_toPermutation dimsOrder in
      bindE (dimToIeInd d (int (dv_size (dd_dims desc)))) (\<lambda>ieInd.
      bindE (ie_assert (order_hasDim dimsOrder d)) (\<lambda>_.
      bindE (order_dimInd dimsOrder d) (\<lambda>idx.
      bindE (if idx = 0 then Inr (elemSize desc)
             else bindE (dv_at (sr_fixedStrides reqs) (perm ! nat (idx - 1))) (\<lambda>s.
                  bindE (dv_at (dd_dims desc) (perm ! nat (idx - 1))) (\<lambda>n. Inr (s * n)))) (\<lambda>minStrideVal.
      bindE (ie_assert (strides ! nat ieInd \<ge> minStrideVal)) (\<lambda>_.
      bindE (dv_set d (strides ! nat ieInd) (sr_fixedStrides reqs)) (\<lambda>v.
      set_fixed strides desc ds (reqs\<lparr>sr_fixedStrides := v\<rparr>))))))))"

definition strides_fixed :: "int list \<Rightarrow> DataDesc \<Rightarrow> StridesRequirement result" where
  "strides_fixed strides desc =
     bindE (set_fixed strides desc (order_toPermutation (dd_dimsOrder desc)) strides_default)
       (add_from MAX_DIMS_64 Fixed)"

definition applyStrideRequirement :: "int \<Rightarrow> int \<Rightarrow> StridesRequirement \<Rightarrow> int result" where
  "applyStrideRequirement origStride index reqs =
     bindE (strides_get reqs index) (\<lambda>req.
       if req = AnyStride \<or> req = Compact then Inr origStride
       else if req = Aligned then alignVal origStride STRIDE_ALIGNMENT
       else Inl (Thrown ''Unknown stride requirement''))"

text \<open>The loop over \<open>i\<close> carries \<open>perm[i - 1]\<close>.\<close>

fun calc_strides_loop :: "DataDesc \<Rightarrow> StridesRequirement \<Rightarrow> Dim \<Rightarrow> Dim list \<Rightarrow> int \<Rightarrow> DimValues \<Rightarrow> DimValues result" where
  "calc_strides_loop desc reqs prev [] i strides = Inr strides"
| "calc_strides_loop desc reqs prev (d # ds) i strides =
     bindE (dv_at strides prev) (\<lambda>s.
     bindE (desc_dim desc prev) (\<lambda>n.
     bindE (dv_set d (s * n) strides) (\<lambda>strides.
     bindE (dv_at strides d) (\<lambda>s.
     bindE (applyStrideRequirement s i reqs) (\<lambda>s.
     bindE (dv_set d s strides) (calc_strides_loop desc reqs d ds (i + 1)))))))"

definition calcStrides :: "DataDesc \<Rightarrow> StridesRequirement \<Rightarrow> DimValues result" where
  "calcStrides desc reqs =
     (case order_toPermutation (dd_dimsOrder desc) of
        [] \<Rightarrow> Inl AssertFailed
      | d # ds \<Rightarrow>
          let strides = sr_fixedStrides reqs in
          if dv_is_empty strides then
            bindE (dv_set d (elemSize desc) strides) (\<lambda>strides.
            bindE (dv_at strides d) (\<lambda>s.
            bindE (applyStrideRequirement s 0 reqs) (\<lambda>s.
            bindE (dv_set d s strides) (calc_strides_loop desc reqs d ds 1))))
          else Inr strides)"

definition checkStride :: "DimValues \<Rightarrow> DataDesc \<Rightarrow> int \<Rightarrow> StridesRequirement \<Rightarrow> bool result" where
  "checkStride strides desc ind reqs =
     bindE (strides_get reqs ind) (\<lambda>req.
     if req = AnyStride then Inr True
     else let perm = order_toPermutation (dd_dimsOrder desc) in
       bindE (ie_assert (perm \<noteq> [])) (\<lambda>_.
       bindE (dv_at strides (perm ! nat ind)) (\<lambda>strideVal.
       case req of
         Compact \<Rightarrow>
           if ind = 0 then Inr (strideVal = elemSize desc)
           else bindE (dv_at strides (perm ! nat (ind - 1))) (\<lambda>s.
                bindE (desc_dim desc (perm ! nat (ind - 1))) (\<lambda>n. Inr (strideVal = s * n)))
       | Aligned \<Rightarrow> Inr (cpp_mod strideVal STRIDE_ALIGNMENT = 0)
       | Fixed \<Rightarrow> bindE (dv_at (sr_fixedStrides reqs) (perm ! nat ind)) (\<lambda>s. Inr (strideVal = s))
       | AnyStride \<Rightarrow> Inl (Thrown ''Unsupported stride requirement''))))"

fun check_strides_loop :: "DataDesc \<Rightarrow> DimValues \<Rightarrow> StridesRequirement \<Rightarrow> nat \<Rightarrow> int \<Rightarrow> bool result" where
  "check_strides_loop desc strides reqs 0 i = Inr True"
| "check_strides_loop desc strides reqs (Suc n) i =
     bindE (checkStride strides desc i reqs) (\<lambda>b.
       if \<not> b then Inr False else check_strides_loop desc strides reqs n (i + 1))"

definition checkStrides :: "DataDesc \<Rightarrow> DimValues \<Rightarrow> StridesRequirement \<Rightarrow> bool result" where
  "checkStrides desc strides reqs =
     (let perm = order_toPermutation (dd_dimsOrder desc) in
      bindE (ie_assert (perm \<noteq> [])) (\<lambda>_. check_strides_loop desc strides reqs (length perm) 0))"

definition calcTotalByteSize :: "DataDesc \<Rightarrow> DimValues \<Rightarrow> int result" where
  "calcTotalByteSize desc strides =
     (let perm = order_toPermutation (dd_dimsOrder desc) in
      bindE (dv_at strides (last perm)) (\<lambda>s. bindE (desc_dim desc (last perm)) (\<lambda>n. Inr (s * n))))"

section \<open>Well-formed descriptors\<close>

definition desc_ok :: "DataDesc \<Rightarrow> bool" where
  "desc_ok desc \<longleftrightarrow> order_ok (dd_dimsOrder desc) \<and> dv_ok (dd_dims desc) \<and>
     dom (dv_map (dd_dims desc)) = set (order_toPermutation (dd_dimsOrder desc)) \<and>
     (\<forall>d n. dv_map (dd_dims desc) d = Some n \<longrightarrow> 0 < n)"

definition dim_size :: "DataDesc \<Rightarrow> Dim \<Rightarrow> int" where
  "dim_size desc d = (case dv_map (dd_dims desc) d of Some n \<Rightarrow> n | None \<Rightarrow> 0)"

text \<open>Requirements that compute: no fixed strides.\<close>

definition reqs_ok :: "StridesRequirement \<Rightarrow> bool" where
  "reqs_ok reqs \<longleftrightarrow> length (sr_map reqs) = MAX_DIMS_64 \<and> Fixed \<notin> set (sr_map reqs) \<and>
     dv_ok (sr_fixedStrides reqs) \<and> dv_map (sr_fixedStrides reqs) = Map.empty"

lemma desc_ok_dim:
  "desc_ok desc \<Longrightarrow> d \<in> set (order_toPermutation (dd_dimsOrder desc)) \<Longrightarrow>
    desc_dim desc d = Inr (dim_size desc d) \<and> 0 < dim_size desc d"
  by (force simp: desc_ok_def desc_dim_def dv_at_eq dim_size_def)

lemma desc_ok_perm:
  assumes "desc_ok desc"
  shows "order_toPermutation (dd_dimsOrder desc) \<noteq> []" "distinct (order_toPermutation (dd_dimsOrder desc))"
    "\<forall>d \<in> set (order_toPermutation (dd_dimsOrder desc)). dim_ok d"
    "length (order_toPermutation (dd_dimsOrder desc)) \<le> MAX_DIMS_64"
  using assms orders.perm_law [of "dd_dimsOrder desc"] by (simp_all add: desc_ok_def)

lemma elemSize_pos: "0 < elemSize desc"
  by (simp add: elemSize_def split: DataType.split)

lemma desc_ok_compatible:
  assumes "desc_ok desc" "order_ok order"
  shows "isOrdersCompatible (dd_dimsOrder desc) order \<longleftrightarrow>
    set (order_toPermutation order) = set (order_toPermutation (dd_dimsOrder desc))"
  using assms orders.perm_law [of order] desc_ok_perm(2) [OF assms(1)]
  by (auto simp: isOrdersCompatible_iff set_eq_iff_mset_eq_distinct [symmetric] dest: mset_eq_setD)

section \<open>Computed strides\<close>

definition stride_of :: "DimValues \<Rightarrow> Dim \<Rightarrow> int" where
  "stride_of strides d = (case dv_map strides d of Some s \<Rightarrow> s | None \<Rightarrow> 0)"

lemma applyStrideRequirement_ok:
  assumes "reqs_ok reqs" "index_ok i" "0 < s"
  shows "\<exists>s'. applyStrideRequirement s i reqs = Inr s' \<and> s \<le> s' \<and>
    (sr_map reqs ! nat i = Compact \<longrightarrow> s' = s) \<and> (sr_map reqs ! nat i = Aligned \<longrightarrow> 16 dvd s')"
proof -
  have i: "nat i < length (sr_map reqs)" using assms by (simp add: reqs_ok_def index_ok_def nat_less_iff)
  then have "sr_map reqs ! nat i \<noteq> Fixed" using assms(1) by (metis nth_mem reqs_ok_def)
  moreover obtain r where "alignVal s 16 = Inr r" using alignVal_exp [of s 4] by simp
  moreover from this have "is_aligned_up 16 s r" using alignVal_up [of s 4 r] by simp
  ultimately show ?thesis
    using assms(2) by (cases "sr_map reqs ! nat i")
      (auto simp: applyStrideRequirement_def strides_get_def STRIDE_ALIGNMENT_def is_aligned_up_def)
qed

lemma applyStrideRequirement_ge:
  "reqs_ok reqs \<Longrightarrow> 0 < s \<Longrightarrow> applyStrideRequirement s i reqs = Inr s' \<Longrightarrow> s \<le> s'"
  using applyStrideRequirement_ok [of reqs i s]
  by (cases "index_ok i") (auto simp: applyStrideRequirement_def strides_get_def)

text \<open>Every stride is the previous one times the previous size, after its requirement is applied.\<close>

lemma calc_strides_loop_ok:
  assumes "desc_ok desc" "reqs_ok reqs"
    and "dv_ok strides" "dv_map strides prev = Some s" "0 < s" "0 \<le> i" "i + int (length ds) \<le> int MAX_DIMS_64"
    and "distinct (prev # ds)" "set (prev # ds) \<subseteq> set (order_toPermutation (dd_dimsOrder desc))"
  shows "\<exists>strides'. calc_strides_loop desc reqs prev ds i strides = Inr strides' \<and> dv_ok strides' \<and>
    (\<forall>d. d \<notin> set ds \<longrightarrow> dv_map strides' d = dv_map strides d) \<and> set ds \<subseteq> dom (dv_map strides') \<and>
    (\<forall>k < length ds. applyStrideRequirement
       (stride_of strides' ((prev # ds) ! k) * dim_size desc ((prev # ds) ! k)) (i + int k) reqs =
       Inr (stride_of strides' (ds ! k)))"
  using assms(3-)
proof (induction ds arbitrary: prev s i strides)
  case Nil
  then show ?case by auto
next
  case (Cons d ds)
  have prev: "desc_dim desc prev = Inr (dim_size desc prev)" "0 < dim_size desc prev"
    using desc_ok_dim [OF assms(1), of prev] Cons.prems(7) by auto
  have dok: "dim_ok d" using Cons.prems(7) desc_ok_perm(3) [OF assms(1)] by auto
  let ?s0 = "s * dim_size desc prev"
  have pos: "0 < ?s0" using Cons.prems(3) prev(2) by simp
  have iok: "index_ok i" using Cons.prems(4,5) by (simp add: index_ok_def)
  from applyStrideRequirement_ok [OF assms(2) iok pos] obtain s1
    where s1: "applyStrideRequirement ?s0 i reqs = Inr s1" "?s0 \<le> s1" by blast
  from dims.put_law [OF Cons.prems(1) dok, of ?s0] obtain v0
    where v0: "dv_set d ?s0 strides = Inr v0" "dv_ok v0" "dv_map v0 = (dv_map strides)(d \<mapsto> ?s0)" by blast
  from dims.put_law [OF v0(2) dok, of s1] obtain v1
    where v1: "dv_set d s1 v0 = Inr v1" "dv_ok v1" "dv_map v1 = (dv_map v0)(d \<mapsto> s1)" by blast
  have step: "calc_strides_loop desc reqs prev (d # ds) i strides = calc_strides_loop desc reqs d ds (i + 1) v1"
    using Cons.prems(2) prev(1) v0(1,3) s1(1) v1(1) by (simp add: dv_at_eq)
  have "dv_map v1 d = Some s1" "0 < s1" using v1(3) pos s1(2) by auto
  from Cons.IH [OF v1(2) this, of "i + 1"] Cons.prems(4-7) obtain w
    where w: "calc_strides_loop desc reqs d ds (i + 1) v1 = Inr w" "dv_ok w"
      "\<forall>e. e \<notin> set ds \<longrightarrow> dv_map w e = dv_map v1 e" "set ds \<subseteq> dom (dv_map w)"
      "\<forall>k < length ds. applyStrideRequirement (stride_of w ((d # ds) ! k) * dim_size desc ((d # ds) ! k)) (i + 1 + int k) reqs =
         Inr (stride_of w (ds ! k))" by auto
  have wd: "dv_map w d = Some s1" "dv_map w prev = Some s"
    using w(3) Cons.prems(2,6) v1(3) v0(3) by auto
  have "applyStrideRequirement (stride_of w ((prev # d # ds) ! k) * dim_size desc ((prev # d # ds) ! k)) (i + int k) reqs =
      Inr (stride_of w ((d # ds) ! k))" if "k < length (d # ds)" for k
  proof (cases k)
    case 0
    with wd s1 show ?thesis by (simp add: stride_of_def)
  next
    case (Suc k')
    with that w(5) have "applyStrideRequirement (stride_of w ((d # ds) ! k') * dim_size desc ((d # ds) ! k')) (i + 1 + int k') reqs =
         Inr (stride_of w (ds ! k'))" by simp
    moreover have "i + 1 + int k' = i + int k" using Suc by simp
    ultimately show ?thesis using Suc by simp
  qed
  moreover have "\<forall>e. e \<notin> set (d # ds) \<longrightarrow> dv_map w e = dv_map strides e"
    using w(3) v1(3) v0(3) by auto
  ultimately show ?case using step w wd by (intro exI [of _ w]) auto
qed

lemma calcStrides_ok:
  assumes d: "desc_ok desc" and r: "reqs_ok reqs"
  defines "perm \<equiv> order_toPermutation (dd_dimsOrder desc)"
  shows "\<exists>strides. calcStrides desc reqs = Inr strides \<and> dv_ok strides \<and> dom (dv_map strides) = set perm \<and>
    applyStrideRequirement (elemSize desc) 0 reqs = Inr (stride_of strides (perm ! 0)) \<and>
    (\<forall>k. Suc k < length perm \<longrightarrow> applyStrideRequirement (stride_of strides (perm ! k) * dim_size desc (perm ! k)) (int (Suc k)) reqs =
       Inr (stride_of strides (perm ! Suc k)))"
proof -
  note p = desc_ok_perm [OF d, folded perm_def]
  obtain d0 ds where perm: "perm = d0 # ds" using p(1) by (cases perm) auto
  have empty: "dv_ok (sr_fixedStrides reqs)" "dv_map (sr_fixedStrides reqs) = Map.empty"
    using r by (simp_all add: reqs_ok_def)
  have none: "dv_is_empty (sr_fixedStrides reqs)"
  proof -
    have "dv_entries (sr_fixedStrides reqs) = []"
      using dv_entries_map [OF empty(1)] empty(2) by (metis list.set_cases map_of_eq_None_iff
        map_of_eq_empty_iff)
    then show ?thesis using dv_size_entries [OF empty(1)] by (simp add: dv_is_empty_def)
  qed
  have d0: "dim_ok d0" using p(3) perm by simp
  from applyStrideRequirement_ok [OF r _ elemSize_pos] obtain s1
    where s1: "applyStrideRequirement (elemSize desc) 0 reqs = Inr s1" "elemSize desc \<le> s1"
    by (metis index_ok_def MAX_DIMS_64_def of_nat_0_less_iff order_refl zero_less_numeral)
  from dims.put_law [OF empty(1) d0, of "elemSize desc"] obtain v0
    where v0: "dv_set d0 (elemSize desc) (sr_fixedStrides reqs) = Inr v0" "dv_ok v0" "dv_map v0 = [d0 \<mapsto> elemSize desc]"
    using empty(2) by auto
  from dims.put_law [OF v0(2) d0, of s1] obtain v1
    where v1: "dv_set d0 s1 v0 = Inr v1" "dv_ok v1" "dv_map v1 = [d0 \<mapsto> s1]" using v0(3) by auto
  have "dv_map v1 d0 = Some s1" "0 < s1" using v1(3) s1(2) elemSize_pos [of desc] by auto
  from calc_strides_loop_ok [OF d r v1(2) this, of 1 ds] p perm
  obtain w where w: "calc_strides_loop desc reqs d0 ds 1 v1 = Inr w" "dv_ok w"
      "\<forall>e. e \<notin> set ds \<longrightarrow> dv_map w e = dv_map v1 e" "set ds \<subseteq> dom (dv_map w)"
      "\<forall>k < length ds. applyStrideRequirement (stride_of w ((d0 # ds) ! k) * dim_size desc ((d0 # ds) ! k)) (1 + int k) reqs =
         Inr (stride_of w (ds ! k))"
    by (auto simp: perm_def)
  have "calcStrides desc reqs = Inr w"
    using none v0 v1 s1 w(1) perm by (simp add: calcStrides_def perm_def Let_def dv_at_eq)
  moreover have wd: "dv_map w d0 = Some s1" using w(3) v1(3) p(2) perm by auto
  moreover have "dom (dv_map w) = set perm"
    using w(3,4) v1(3) wd perm by (auto simp: dom_def split: if_splits)
  ultimately show ?thesis
    using s1 w(2,5) perm by (intro exI [of _ w]) (auto simp: stride_of_def [of w d0])
qed

lemma check_strides_loop_True:
  "(\<And>j. i \<le> j \<Longrightarrow> j < i + int n \<Longrightarrow> checkStride strides desc j reqs = Inr True) \<Longrightarrow>
    check_strides_loop desc strides reqs n i = Inr True"
proof (induction n arbitrary: i)
  case (Suc n)
  then show ?case by simp
qed simp

text \<open>The strides grow at least as fast as the sizes require.\<close>

fun strides_grow :: "(Dim \<Rightarrow> int) \<Rightarrow> (Dim \<Rightarrow> int) \<Rightarrow> int \<Rightarrow> Dim list \<Rightarrow> bool" where
  "strides_grow S N lim [] = True"
| "strides_grow S N lim (d # ds) \<longleftrightarrow> lim \<le> S d \<and> strides_grow S N (S d * N d) ds"

lemma strides_grow_nth:
  "perm \<noteq> [] \<Longrightarrow> lim \<le> S (perm ! 0) \<Longrightarrow> (\<And>k. Suc k < length perm \<Longrightarrow> S (perm ! k) * N (perm ! k) \<le> S (perm ! Suc k)) \<Longrightarrow>
    strides_grow S N lim perm"
proof (induction perm arbitrary: lim)
  case (Cons d ds)
  show ?case
  proof (cases ds)
    case Nil
    with Cons.prems show ?thesis by simp
  next
    case (Cons e es)
    have "strides_grow S N (S d * N d) ds"
    proof (rule Cons.IH)
      show "S d * N d \<le> S (ds ! 0)" using Cons.prems(3) [of 0] Cons by simp
      show "S (ds ! k) * N (ds ! k) \<le> S (ds ! Suc k)" if "Suc k < length ds" for k
        using Cons.prems(3) [of "Suc k"] that by simp
    qed (use Cons in simp)
    with Cons.prems show ?thesis by simp
  qed
qed simp

text \<open>The address of an element, and how much of the buffer the dimensions below one span.\<close>

definition address :: "(Dim \<Rightarrow> int) \<Rightarrow> (Dim \<Rightarrow> int) \<Rightarrow> Dim list \<Rightarrow> int" where
  "address S c perm = (\<Sum>d \<leftarrow> perm. c d * S d)"

definition in_bounds :: "(Dim \<Rightarrow> int) \<Rightarrow> (Dim \<Rightarrow> int) \<Rightarrow> Dim list \<Rightarrow> bool" where
  "in_bounds N c perm \<longleftrightarrow> (\<forall>d \<in> set perm. 0 \<le> c d \<and> c d < N d)"

lemma address_bounds:
  assumes "strides_grow S N lim perm" "perm \<noteq> []" "in_bounds N c perm" "e \<le> lim" "0 < e"
    "0 \<le> low" "low + e \<le> lim"
  shows "0 \<le> low + address S c perm \<and> low + address S c perm + e \<le> S (last perm) * N (last perm)"
  using assms
proof (induction perm arbitrary: lim low)
  case (Cons d ds)
  have c: "0 \<le> c d" "c d + 1 \<le> N d" and S: "lim \<le> S d" "0 < S d" using Cons.prems by (auto simp: in_bounds_def)
  have "0 \<le> c d * S d" using c S by simp
  moreover have "(c d + 1) * S d \<le> N d * S d" using c(2) S(2) by (intro mult_right_mono) auto
  ultimately have low: "0 \<le> low + c d * S d" "low + c d * S d + e \<le> S d * N d"
    using Cons.prems(6,7) S by (auto simp: algebra_simps)
  show ?case
  proof (cases "ds = []")
    case True
    with low show ?thesis by (simp add: address_def)
  next
    case False
    have "strides_grow S N (S d * N d) ds" "in_bounds N c ds" using Cons.prems by (auto simp: in_bounds_def)
    from Cons.IH [OF this(1) False this(2) _ Cons.prems(5) low] low Cons.prems(5) False show ?thesis
      by (simp add: address_def add.assoc)
  qed
qed simp

lemma address_apart:
  assumes "strides_grow S N lim perm" "in_bounds N c perm" "in_bounds N c' perm" "e \<le> lim" "0 < e"
    "0 \<le> low" "low + e \<le> lim" "0 \<le> low'" "low' + e \<le> lim"
    "e \<le> \<bar>low - low'\<bar> \<or> (low = low' \<and> (\<exists>d \<in> set perm. c d \<noteq> c' d))"
  shows "e \<le> \<bar>(low + address S c perm) - (low' + address S c' perm)\<bar>"
  using assms
proof (induction perm arbitrary: lim low low')
  case Nil
  then show ?case by (simp add: address_def)
next
  case (Cons d ds)
  have c: "0 \<le> c d" "c d + 1 \<le> N d" "0 \<le> c' d" "c' d + 1 \<le> N d" and S: "lim \<le> S d" "0 < S d"
    using Cons.prems by (auto simp: in_bounds_def)
  have nn: "0 \<le> c d * S d" "0 \<le> c' d * S d" using c S by simp_all
  have up: "(c d + 1) * S d \<le> N d * S d" "(c' d + 1) * S d \<le> N d * S d"
    using c S(2) by (auto intro!: mult_right_mono)
  have low: "0 \<le> low + c d * S d" "low + c d * S d + e \<le> S d * N d"
    "0 \<le> low' + c' d * S d" "low' + c' d * S d + e \<le> S d * N d"
    using Cons.prems(6-9) S nn up by (auto simp: algebra_simps)
  have sep: "e \<le> \<bar>(low + c d * S d) - (low' + c' d * S d)\<bar> \<or>
      (low + c d * S d = low' + c' d * S d \<and> (\<exists>d \<in> set ds. c d \<noteq> c' d))"
  proof (cases "c d = c' d")
    case True
    then show ?thesis using Cons.prems(10) by auto
  next
    case False
    have "S d \<le> \<bar>c d - c' d\<bar> * S d" using False S(2) by (simp add: mult_le_cancel_right1)
    also have "\<dots> = \<bar>c d * S d - c' d * S d\<bar>" using S(2) by (simp add: abs_mult flip: left_diff_distrib)
    finally show ?thesis using Cons.prems(6-9) S(1) by linarith
  qed
  have "strides_grow S N (S d * N d) ds" "in_bounds N c ds" "in_bounds N c' ds"
    using Cons.prems by (auto simp: in_bounds_def)
  from Cons.IH [OF this _ Cons.prems(5) low sep] low Cons.prems(5) show ?case
    by (simp add: address_def add.assoc)
qed

lemma calcStrides_pos:
  assumes d: "desc_ok desc" and r: "reqs_ok reqs" and c: "calcStrides desc reqs = Inr strides"
    and k: "k < length (order_toPermutation (dd_dimsOrder desc))"
  shows "0 < stride_of strides (order_toPermutation (dd_dimsOrder desc) ! k)"
  using k
proof (induction k)
  case 0
  have "applyStrideRequirement (elemSize desc) 0 reqs = Inr (stride_of strides (order_toPermutation (dd_dimsOrder desc) ! 0))"
    using calcStrides_ok [OF d r] c by auto
  from applyStrideRequirement_ge [OF r elemSize_pos this] show ?case using elemSize_pos [of desc] by simp
next
  case (Suc k)
  let ?perm = "order_toPermutation (dd_dimsOrder desc)"
  have pos: "0 < stride_of strides (?perm ! k) * dim_size desc (?perm ! k)"
    using Suc desc_ok_dim [OF d, of "?perm ! k"] by simp
  have "applyStrideRequirement (stride_of strides (?perm ! k) * dim_size desc (?perm ! k)) (int (Suc k)) reqs =
      Inr (stride_of strides (?perm ! Suc k))"
    using calcStrides_ok [OF d r] c Suc.prems by auto
  from applyStrideRequirement_ge [OF r pos this] pos show ?case by simp
qed

lemma calcStrides_grow:
  assumes d: "desc_ok desc" and r: "reqs_ok reqs" and c: "calcStrides desc reqs = Inr strides"
  shows "strides_grow (stride_of strides) (dim_size desc) (elemSize desc) (order_toPermutation (dd_dimsOrder desc))"
proof -
  let ?perm = "order_toPermutation (dd_dimsOrder desc)"
  have s: "applyStrideRequirement (elemSize desc) 0 reqs = Inr (stride_of strides (?perm ! 0))"
    "\<And>k. Suc k < length ?perm \<Longrightarrow> applyStrideRequirement (stride_of strides (?perm ! k) * dim_size desc (?perm ! k)) (int (Suc k)) reqs =
       Inr (stride_of strides (?perm ! Suc k))"
    using calcStrides_ok [OF d r] c by auto
  have "stride_of strides (?perm ! k) * dim_size desc (?perm ! k) \<le> stride_of strides (?perm ! Suc k)"
    if k: "Suc k < length ?perm" for k
  proof (rule applyStrideRequirement_ge [OF r _ s(2) [OF k]])
    show "0 < stride_of strides (?perm ! k) * dim_size desc (?perm ! k)"
      using k calcStrides_pos [OF d r c, of k] desc_ok_dim [OF d, of "?perm ! k"] by simp
  qed
  with applyStrideRequirement_ge [OF r elemSize_pos s(1)] desc_ok_perm(1) [OF d] show ?thesis
    by (intro strides_grow_nth) auto
qed

lemma calcTotalByteSize_eq:
  assumes "desc_ok desc" "dom (dv_map strides) = set (order_toPermutation (dd_dimsOrder desc))"
  shows "calcTotalByteSize desc strides = Inr (stride_of strides (last (order_toPermutation (dd_dimsOrder desc))) *
      dim_size desc (last (order_toPermutation (dd_dimsOrder desc))))"
proof -
  have "last (order_toPermutation (dd_dimsOrder desc)) \<in> set (order_toPermutation (dd_dimsOrder desc))"
    using desc_ok_perm(1) [OF assms(1)] by simp
  moreover from this obtain s where "dv_map strides (last (order_toPermutation (dd_dimsOrder desc))) = Some s"
    using assms(2) by blast
  ultimately show ?thesis
    using desc_ok_dim [OF assms(1)] by (simp add: calcTotalByteSize_def Let_def dv_at_eq stride_of_def)
qed

section \<open>Constructed descriptors\<close>

lemma set_all_put_all: "set_all ps v = dims.put_all ps v"
  by (induction ps v rule: set_all.induct) (auto intro: arg_cong [where f = "bindE _"])

lemma mk_DataDesc_ok:
  assumes o: "order_ok order" and len: "length sizes = length (order_toPermutation order)" and pos: "\<forall>n \<in> set sizes. 0 < n"
  shows "\<exists>desc. mk_DataDesc ty order sizes = Inr desc \<and> desc_ok desc \<and> dd_type desc = ty \<and> dd_dimsOrder desc = order \<and>
    (\<forall>k < length sizes. dim_size desc (order_toPermutation order ! k) = sizes ! k)"
proof -
  let ?perm = "order_toPermutation order"
  have p: "distinct ?perm" "\<forall>d \<in> set ?perm. dim_ok d" using orders.perm_law [OF o] by auto
  have "\<forall>(d, x) \<in> set (zip ?perm sizes). dim_ok d" using p(2) by (auto dest: set_zip_leftD)
  from dims.put_all_ok [OF dv_empty_ok(1) this] obtain v
    where v: "set_all (zip ?perm sizes) dv_empty = Inr v" "dv_ok v" "dv_map v = map_of (rev (zip ?perm sizes))"
    by (auto simp: set_all_put_all)
  have m: "dv_map v = map_of (zip ?perm sizes)"
    unfolding v(3) using p(1) len by (subst map_of_inject_set) (simp_all add: rev_map [symmetric])
  have at: "dv_map v (?perm ! k) = Some (sizes ! k)" if "k < length sizes" for k
    using that len p(1) m by (simp add: map_of_zip_nth)
  have "dom (dv_map v) = set ?perm" using m len by simp
  moreover have "0 < n" if "dv_map v d = Some n" for d n
    using that pos m by (auto dest!: map_of_SomeD set_zip_rightD)
  ultimately show ?thesis
    using v(1,2) o len at by (auto simp: mk_DataDesc_def desc_ok_def dim_size_def)
qed

lemma mul_dims_prod:
  "\<forall>d \<in> set ds. dv_map v d \<noteq> None \<Longrightarrow> mul_dims v ds t = Inr (t * (\<Prod>d \<leftarrow> ds. the (dv_map v d)))"
  by (induction ds arbitrary: t) (auto simp: dv_at_eq mult.assoc)

section \<open>Properties\<close>

text \<open>
  C6. The strides \<open>calcStrides\<close> computes for a well-formed descriptor (every dimension of its
  layout has a positive size) and any requirements without fixed strides exist, and
  \<open>checkStrides\<close> accepts them for these requirements: compact ones are exactly the previous
  stride times the previous size, aligned ones multiples of 16. (The 32-bit \<open>int\<close> of the code is an unbounded
  integer here: the tensor is smaller than 2 GB.)
\<close>

theorem calcStrides_satisfies_reqs:
  assumes d: "desc_ok desc" and r: "reqs_ok reqs"
  shows "\<exists>strides. calcStrides desc reqs = Inr strides \<and> checkStrides desc strides reqs = Inr True"
proof -
  let ?perm = "order_toPermutation (dd_dimsOrder desc)"
  note p = desc_ok_perm [OF d]
  obtain strides where s: "calcStrides desc reqs = Inr strides" "dom (dv_map strides) = set ?perm"
      "applyStrideRequirement (elemSize desc) 0 reqs = Inr (stride_of strides (?perm ! 0))"
      "\<And>k. Suc k < length ?perm \<Longrightarrow> applyStrideRequirement (stride_of strides (?perm ! k) * dim_size desc (?perm ! k)) (int (Suc k)) reqs =
         Inr (stride_of strides (?perm ! Suc k))"
    using calcStrides_ok [OF d r] by blast
  have at: "dv_at strides (?perm ! k) = Inr (stride_of strides (?perm ! k))" if "k < length ?perm" for k
    using s(2) that by (metis domD dv_at_eq nth_mem option.simps(5) stride_of_def)
  note pos = calcStrides_pos [OF d r s(1)]
  have "checkStride strides desc j reqs = Inr True" if j: "0 \<le> j" "j < int (length ?perm)" for j
  proof -
    obtain k where k: "j = int k" "k < length ?perm" using j by (metis nat_eq_iff2 nonneg_int_cases of_nat_less_iff)
    then have iok: "index_ok j" using p(4) by (simp add: index_ok_def)
    have nf: "sr_map reqs ! k \<noteq> Fixed"
      using r k p(4) by (metis reqs_ok_def nth_mem order_less_le_trans)
    obtain s0 where s0: "applyStrideRequirement s0 j reqs = Inr (stride_of strides (?perm ! k))" "0 < s0"
        "s0 = (if k = 0 then elemSize desc else stride_of strides (?perm ! (k - 1)) * dim_size desc (?perm ! (k - 1)))"
      using s(3) s(4) [of "k - 1"] k elemSize_pos pos [of "k - 1"] desc_ok_dim [OF d, of "?perm ! (k - 1)"]
      by (cases k) auto
    from applyStrideRequirement_ok [OF r iok s0(2)] s0(1)
    have ap: "sr_map reqs ! k = Compact \<longrightarrow> stride_of strides (?perm ! k) = s0"
      "sr_map reqs ! k = Aligned \<longrightarrow> 16 dvd stride_of strides (?perm ! k)" using k(1) by auto
    have prev: "k \<noteq> 0 \<Longrightarrow> dv_at strides (?perm ! (k - 1)) = Inr (stride_of strides (?perm ! (k - 1)))"
      "k \<noteq> 0 \<Longrightarrow> desc_dim desc (?perm ! (k - 1)) = Inr (dim_size desc (?perm ! (k - 1)))"
      using at [of "k - 1"] desc_ok_dim [OF d, of "?perm ! (k - 1)"] k by auto
    have "nat (j - 1) = k - 1" using k by simp
    then show ?thesis
      using iok at [OF k(2)] p(1) nf ap s0(3) prev pos [OF k(2)] k
      by (cases "sr_map reqs ! k")
        (auto simp: checkStride_def strides_get_def Let_def STRIDE_ALIGNMENT_def cpp_mod_nonneg)
  qed
  then have "check_strides_loop desc strides reqs (length ?perm) 0 = Inr True"
    by (intro check_strides_loop_True) auto
  with s(1) p(1) show ?thesis by (auto simp: checkStrides_def Let_def)
qed

theorem calcStrides_satisfies_reqs_witness:
  "\<exists>desc reqs strides. mk_DataDesc DT_FP16 order_NCHW [5, 4, 3, 2] = Inr desc \<and>
    strides_add 1 Aligned strides_default = Inr reqs \<and> calcStrides desc reqs = Inr strides \<and>
    checkStrides desc strides reqs = Inr True \<and> stride_of strides Dim_H = 16"
proof -
  have o: "order_ok order_NCHW"
    unfolding order_ok_def by (rule exI [of _ "[0, 1, 2, 3]"]) (simp add: MAX_DIMS_64_def dim_ok_def order_NCHW_def)
  have p: "order_toPermutation order_NCHW = [0, 1, 2, 3]" by code_simp
  obtain desc where d: "mk_DataDesc DT_FP16 order_NCHW [5, 4, 3, 2] = Inr desc" "desc_ok desc"
    using mk_DataDesc_ok [OF o, of "[5, 4, 3, 2]" DT_FP16] p by auto
  let ?reqs = "\<lparr>sr_map = (replicate 15 AnyStride)[0 := Compact, 1 := Aligned], sr_fixedStrides = dv_empty\<rparr>"
  have r: "strides_add 1 Aligned strides_default = Inr ?reqs" "reqs_ok ?reqs"
    by (simp_all add: strides_add_def strides_default_def index_ok_def MAX_DIMS_64_def reqs_ok_def eval_nat_numeral)
  obtain strides where s: "calcStrides desc ?reqs = Inr strides" "checkStrides desc strides ?reqs = Inr True"
    using calcStrides_satisfies_reqs [OF d(2) r(2)] by blast
  have "(case mk_DataDesc DT_FP16 order_NCHW [5, 4, 3, 2] of Inr desc \<Rightarrow>
      (case strides_add 1 Aligned strides_default of Inr r \<Rightarrow>
        (case calcStrides desc r of Inr strides \<Rightarrow> stride_of strides Dim_H | Inl e \<Rightarrow> 0) | Inl e \<Rightarrow> 0) | Inl e \<Rightarrow> 0) = 16"
    by code_simp
  with d r s show ?thesis by auto
qed

text \<open>
  C7. With computed strides the tensor's elements are laid out without overlap: the addresses
  of two different elements are at least one element size apart, and every element lies
  inside the \<open>calcTotalByteSize\<close> bytes of the buffer. (The 32-bit \<open>int\<close> of the code is an unbounded integer here: the
  tensor is smaller than 2 GB.)
\<close>

theorem calcStrides_no_overlap:
  assumes "desc_ok desc" "reqs_ok reqs" "calcStrides desc reqs = Inr strides"
    and "in_bounds (dim_size desc) c perm" "in_bounds (dim_size desc) c' perm"
    and "perm = order_toPermutation (dd_dimsOrder desc)" "\<exists>d \<in> set perm. c d \<noteq> c' d"
  shows "\<exists>bytes. calcTotalByteSize desc strides = Inr bytes \<and>
    elemSize desc \<le> \<bar>address (stride_of strides) c perm - address (stride_of strides) c' perm\<bar> \<and>
    0 \<le> address (stride_of strides) c perm \<and> address (stride_of strides) c perm + elemSize desc \<le> bytes"
proof -
  note g = calcStrides_grow [OF assms(1-3), folded assms(6)] and p = desc_ok_perm [OF assms(1), folded assms(6)]
  have dom: "dom (dv_map strides) = set perm" using calcStrides_ok [OF assms(1,2)] assms(3,6) by auto
  have "elemSize desc \<le> \<bar>(0 + address (stride_of strides) c perm) - (0 + address (stride_of strides) c' perm)\<bar>"
    using elemSize_pos [of desc] assms(7) by (intro address_apart [OF g assms(4,5)]) auto
  moreover have "0 \<le> 0 + address (stride_of strides) c perm \<and>
      0 + address (stride_of strides) c perm + elemSize desc \<le> stride_of strides (last perm) * dim_size desc (last perm)"
    using elemSize_pos [of desc] by (intro address_bounds [OF g p(1) assms(4)]) auto
  ultimately show ?thesis using calcTotalByteSize_eq [OF assms(1)] dom assms(6) by simp
qed

theorem calcStrides_no_overlap_witness:
  "\<exists>desc strides. mk_DataDesc DT_FP16 order_NCHW [5, 4, 3, 2] = Inr desc \<and>
    calcStrides desc (strides_default\<lparr>sr_map := replicate 15 Compact\<rparr>) = Inr strides \<and>
    elemSize desc \<le> \<bar>address (stride_of strides) (\<lambda>d. 1) [0, 1, 2, 3] - address (stride_of strides) (\<lambda>d. 0) [0, 1, 2, 3]\<bar>"
proof -
  have o: "order_ok order_NCHW"
    unfolding order_ok_def by (rule exI [of _ "[0, 1, 2, 3]"]) (simp add: MAX_DIMS_64_def dim_ok_def order_NCHW_def)
  have p: "order_toPermutation order_NCHW = [0, 1, 2, 3]" by code_simp
  obtain desc where d: "mk_DataDesc DT_FP16 order_NCHW [5, 4, 3, 2] = Inr desc" "desc_ok desc"
      "dd_dimsOrder desc = order_NCHW"
      "\<forall>k < length [5, 4, 3, 2 :: int]. dim_size desc (order_toPermutation order_NCHW ! k) = [5, 4, 3, 2] ! k"
    using mk_DataDesc_ok [OF o, of "[5, 4, 3, 2]" DT_FP16] p by auto
  have n: "dim_size desc 0 = 5" "dim_size desc 1 = 4" "dim_size desc 2 = 3" "dim_size desc 3 = 2"
    using d(4) [THEN spec, of 0] d(4) [THEN spec, of 1] d(4) [THEN spec, of 2] d(4) [THEN spec, of 3]
    by (simp_all add: p)
  let ?reqs = "strides_default\<lparr>sr_map := replicate 15 Compact\<rparr>"
  have r: "reqs_ok ?reqs" by (simp add: reqs_ok_def strides_default_def MAX_DIMS_64_def)
  obtain strides where s: "calcStrides desc ?reqs = Inr strides" using calcStrides_ok [OF d(2) r] by blast
  have b: "in_bounds (dim_size desc) (\<lambda>d. 1) [0, 1, 2, 3]" "in_bounds (dim_size desc) (\<lambda>d. 0) [0, 1, 2, 3]"
    using n by (simp_all add: in_bounds_def)
  from calcStrides_no_overlap [OF d(2) r s b] d(1,3) s p show ?thesis by auto
qed

end
