(* ===== verification/VpuPool.thy ===== *)
theory VpuPool
  imports VpuNumeric
begin

text \<open>
  The memory pools of the VPU allocator: \<open>allocator::MemoryPool\<close> and its chunks
  (\<open>vpu/allocator/structs.hpp\<close>) with \<open>allocateMem\<close>, \<open>freeMem\<close>, \<open>addNewChunk\<close> and
  \<open>checkMemPool\<close> of \<open>src/src/vpu/graph_transformer/src/allocator.cpp\<close>. A
  \<open>MemChunk*\<close> is a chunk number; a new chunk gets a fresh one, as a new list node gets an
  address no live node has. The two pools and the source of fresh numbers form \<open>Pools\<close>.
\<close>

section \<open>Data\<close>

datatype MemoryType = DDR | CMX

definition DDR_MAX_SIZE :: int where "DDR_MAX_SIZE = 512 * 1024 * 1024"
definition CMX_SLICE_SIZE :: int where "CMX_SLICE_SIZE = 128 * 1024"
definition DATA_ALIGNMENT :: int where "DATA_ALIGNMENT = 64"

record MemChunk =
  mc_memType :: MemoryType
  mc_pointer :: int
  mc_offset :: int
  mc_size :: int
  mc_inUse :: int

record FreeMemory =
  fm_offset :: int
  fm_size :: int

record MemoryPool =
  curMemOffset :: int
  memUsed :: int
  allocatedChunks :: "(nat \<times> MemChunk) list"
  freePool :: "FreeMemory list"

definition pool_clear :: MemoryPool where
  "pool_clear = \<lparr>curMemOffset = 0, memUsed = 0, allocatedChunks = [], freePool = []\<rparr>"

record Pools =
  ddrPool :: MemoryPool
  cmxPool :: MemoryPool
  nextChunk :: nat

fun get_pool :: "MemoryType \<Rightarrow> Pools \<Rightarrow> MemoryPool" where
  "get_pool DDR ps = ddrPool ps"
| "get_pool CMX ps = cmxPool ps"

fun set_pool :: "MemoryType \<Rightarrow> MemoryPool \<Rightarrow> Pools \<Rightarrow> Pools" where
  "set_pool DDR p ps = ps\<lparr>ddrPool := p\<rparr>"
| "set_pool CMX p ps = ps\<lparr>cmxPool := p\<rparr>"

section \<open>Allocation\<close>

definition addNewChunk :: "nat \<Rightarrow> MemChunk \<Rightarrow> MemoryPool \<Rightarrow> MemoryPool" where
  "addNewChunk cid c pool = pool\<lparr>allocatedChunks := allocatedChunks pool @ [(cid, c)]\<rparr>"

text \<open>
  The best-fit search. \<open>memPoolIt->size < minMemSizeToUse\<close> compares an \<open>int\<close> with a
  \<open>size_t\<close>, so the left side is converted modulo \<open>2^64\<close>.
\<close>

definition as_size_t :: "int \<Rightarrow> int" where
  "as_size_t i = i mod 2 ^ 64"

fun best_fit :: "FreeMemory list \<Rightarrow> int \<Rightarrow> nat \<Rightarrow> int \<times> nat option \<Rightarrow> nat option" where
  "best_fit [] sz i (minMemSizeToUse, minMemIt) = minMemIt"
| "best_fit (f # fs) sz i (minMemSizeToUse, minMemIt) =
     best_fit fs sz (Suc i)
       (if fm_size f \<ge> sz \<and> as_size_t (fm_size f) < minMemSizeToUse
        then (as_size_t (fm_size f), Some i) else (minMemSizeToUse, minMemIt))"

definition checkMemPool ::
  "int \<Rightarrow> nat \<Rightarrow> MemoryPool \<Rightarrow> MemoryType \<Rightarrow> int \<Rightarrow> int \<Rightarrow> (MemChunk \<times> MemoryPool) option result"
where
  "checkMemPool maxCmxSize cid pool memType sz inUse =
     (case best_fit (freePool pool) sz 0 (2 ^ 64 - 1, None) of
        None \<Rightarrow> Inr None
      | Some i \<Rightarrow>
          let f = freePool pool ! i;
              offset = fm_offset f + fm_size f - sz
          in bindE (if memType = DDR then Inr offset
                    else bindE (ie_assert (offset + sz \<le> maxCmxSize)) (\<lambda>_. Inr (maxCmxSize - offset - sz)))
             (\<lambda>pointer.
               let c = \<lparr>mc_memType = memType, mc_pointer = pointer, mc_offset = offset,
                        mc_size = sz, mc_inUse = inUse\<rparr>;
                   rest = fm_size f - sz;
                   fp = (if rest = 0 then take i (freePool pool) @ drop (Suc i) (freePool pool)
                         else (freePool pool)[i := f\<lparr>fm_size := rest\<rparr>])
               in Inr (Some (c, (addNewChunk cid c pool)\<lparr>freePool := fp\<rparr>))))"

definition freeSpace :: "int \<Rightarrow> int \<Rightarrow> MemoryPool \<Rightarrow> MemoryType \<Rightarrow> int result" where
  "freeSpace maxCmxSize lockedSHAVEs pool memType =
     (if memType = CMX then
        let shavesCMX = lockedSHAVEs * CMX_SLICE_SIZE
        in bindE (ie_assert (curMemOffset pool + shavesCMX \<le> maxCmxSize))
             (\<lambda>_. Inr (maxCmxSize - (curMemOffset pool + shavesCMX)))
      else bindE (ie_assert (curMemOffset pool \<le> DDR_MAX_SIZE))
             (\<lambda>_. Inr (DDR_MAX_SIZE - curMemOffset pool)))"

definition touch_memUsed :: "MemChunk \<Rightarrow> MemoryPool \<Rightarrow> MemoryPool" where
  "touch_memUsed c pool = pool\<lparr>memUsed := max (memUsed pool) (mc_offset c + mc_size c)\<rparr>"

text \<open>\<open>allocateMem\<close>: the number of the chunk, or \<open>None\<close> for the null pointer.\<close>

definition allocateMem ::
  "int \<Rightarrow> int \<Rightarrow> MemoryType \<Rightarrow> int \<Rightarrow> int \<Rightarrow> Pools \<Rightarrow> (nat option \<times> Pools) result"
where
  "allocateMem maxCmxSize lockedSHAVEs memType sz inUse ps =
     (let pool = get_pool memType ps; cid = nextChunk ps in
      bindE (checkMemPool maxCmxSize cid pool memType sz inUse) (\<lambda>found.
        case found of
          Some (c, pool') \<Rightarrow>
            Inr (Some cid, (set_pool memType (touch_memUsed c pool') ps)\<lparr>nextChunk := Suc cid\<rparr>)
        | None \<Rightarrow>
            bindE (freeSpace maxCmxSize lockedSHAVEs pool memType) (\<lambda>space.
              if sz > space then Inr (None, ps)
              else bindE (if memType = CMX
                    then bindE (ie_assert (curMemOffset pool + sz \<le> maxCmxSize))
                           (\<lambda>_. Inr (maxCmxSize - (curMemOffset pool + sz)))
                    else Inr (curMemOffset pool))
              (\<lambda>pointer.
                let c = \<lparr>mc_memType = memType, mc_pointer = pointer, mc_offset = curMemOffset pool,
                         mc_size = sz, mc_inUse = inUse\<rparr>;
                    pool' = addNewChunk cid c pool;
                    pool' = pool'\<lparr>curMemOffset := curMemOffset pool' + sz\<rparr>
                in Inr (Some cid, (set_pool memType (touch_memUsed c pool') ps)\<lparr>nextChunk := Suc cid\<rparr>)))))"

section \<open>Release\<close>

text \<open>One scan of the free list for a block adjacent to \<open>newMem\<close>; a merge removes it.\<close>

fun merge_scan ::
  "FreeMemory \<Rightarrow> FreeMemory list \<Rightarrow> FreeMemory list \<Rightarrow> (FreeMemory \<times> FreeMemory list) option result"
where
  "merge_scan newMem seen [] = Inr None"
| "merge_scan newMem seen (f # fs) =
     bindE (ie_assert (fm_offset newMem \<noteq> fm_offset f)) (\<lambda>_.
       if fm_offset newMem + fm_size newMem = fm_offset f
       then Inr (Some (newMem\<lparr>fm_size := fm_size newMem + fm_size f\<rparr>, seen @ fs))
       else if fm_offset f + fm_size f = fm_offset newMem
       then Inr (Some (newMem\<lparr>fm_offset := fm_offset f, fm_size := fm_size newMem + fm_size f\<rparr>, seen @ fs))
       else merge_scan newMem (seen @ [f]) fs)"

lemma merge_scan_shorter:
  "merge_scan newMem seen fs = Inr (Some (newMem', fs')) \<Longrightarrow> length fs' < length (seen @ fs)"
  by (induction newMem seen fs rule: merge_scan.induct) (auto split: if_splits)

text \<open>The \<open>while (true)\<close> loop: every round but the last shortens the free list.\<close>

function merge_free :: "FreeMemory \<Rightarrow> FreeMemory list \<Rightarrow> (FreeMemory \<times> FreeMemory list) result" where
  "merge_free newMem fp =
     (case merge_scan newMem [] fp of
        Inl e \<Rightarrow> Inl e
      | Inr None \<Rightarrow> Inr (newMem, fp)
      | Inr (Some (newMem', fp')) \<Rightarrow> merge_free newMem' fp')"
  by pat_completeness auto
termination
  by (relation "measure (\<lambda>(newMem, fp). length fp)") (auto dest: merge_scan_shorter)

declare merge_free.simps [simp del]

definition find_chunk :: "Pools \<Rightarrow> nat \<Rightarrow> MemChunk option" where
  "find_chunk ps cid =
     (case map_of (allocatedChunks (ddrPool ps)) cid of
        Some c \<Rightarrow> Some c | None \<Rightarrow> map_of (allocatedChunks (cmxPool ps)) cid)"

definition freeMem :: "nat \<Rightarrow> Pools \<Rightarrow> Pools result" where
  "freeMem cid ps =
     (case find_chunk ps cid of
        None \<Rightarrow> Inl AssertFailed
      | Some c \<Rightarrow>
          let pool = get_pool (mc_memType c) ps in
          bindE (merge_free \<lparr>fm_offset = mc_offset c, fm_size = mc_size c\<rparr> (freePool pool)) (\<lambda>(newMem, fp).
            let pool = (if fm_offset newMem + fm_size newMem = curMemOffset pool
                        then pool\<lparr>curMemOffset := fm_offset newMem, freePool := fp\<rparr>
                        else pool\<lparr>freePool := fp @ [newMem]\<rparr>)
            in bindE (ie_assert (cid \<in> fst ` set (allocatedChunks pool))) (\<lambda>_.
                 Inr (set_pool (mc_memType c)
                   (pool\<lparr>allocatedChunks := filter (\<lambda>(i, _). i \<noteq> cid) (allocatedChunks pool)\<rparr>) ps))))"

text \<open>\<open>--chunk->inUse\<close>.\<close>

definition set_inUse :: "nat \<Rightarrow> int \<Rightarrow> MemoryPool \<Rightarrow> MemoryPool" where
  "set_inUse cid n pool = pool\<lparr>allocatedChunks :=
     map (\<lambda>(i, c). (i, if i = cid then c\<lparr>mc_inUse := n\<rparr> else c)) (allocatedChunks pool)\<rparr>"

definition update_inUse :: "nat \<Rightarrow> int \<Rightarrow> Pools \<Rightarrow> Pools" where
  "update_inUse cid n ps = ps\<lparr>ddrPool := set_inUse cid n (ddrPool ps), cmxPool := set_inUse cid n (cmxPool ps)\<rparr>"

section \<open>Tilings\<close>

text \<open>\<open>cover bs x\<close>: how many of the blocks (offset, size) contain the address \<open>x\<close>.\<close>

definition cover :: "(int \<times> int) list \<Rightarrow> int \<Rightarrow> nat" where
  "cover bs x = length (filter (\<lambda>(a, n). a \<le> x \<and> x < a + n) bs)"

lemma cover_simps [simp]:
  "cover [] x = 0"
  "cover ((a, n) # bs) x = (if a \<le> x \<and> x < a + n then 1 else 0) + cover bs x"
  "cover (as @ bs) x = cover as x + cover bs x"
  by (simp_all add: cover_def)

lemma cover_pos: "(a, n) \<in> set bs \<Longrightarrow> a \<le> x \<Longrightarrow> x < a + n \<Longrightarrow> 0 < cover bs x"
  by (induction bs) (auto simp: cover_def)

definition chunk_block :: "nat \<times> MemChunk \<Rightarrow> int \<times> int" where
  "chunk_block = (\<lambda>(i, c). (mc_offset c, mc_size c))"

definition free_block :: "FreeMemory \<Rightarrow> int \<times> int" where
  "free_block f = (fm_offset f, fm_size f)"

text \<open>
  The blocks tile \<open>[0, cur)\<close> when every address in it lies in exactly one of them and no
  other address lies in any.
\<close>

definition tiles :: "(int \<times> int) list \<Rightarrow> int \<Rightarrow> bool" where
  "tiles bs cur \<longleftrightarrow> (\<forall>x. cover bs x = (if 0 \<le> x \<and> x < cur then 1 else 0)) \<and> (\<forall>(a, n) \<in> set bs. 0 < n)"

lemma tiles_block:
  assumes "tiles bs cur" "(a, n) \<in> set bs"
  shows "0 < n \<and> 0 \<le> a \<and> a + n \<le> cur"
proof -
  have "0 < n" using assms by (auto simp: tiles_def)
  with cover_pos [OF assms(2), of a] cover_pos [OF assms(2), of "a + n - 1"] assms(1)
  show ?thesis by (auto simp: tiles_def split: if_splits)
qed

lemma tiles_mset: "tiles as cur \<Longrightarrow> mset as = mset bs \<Longrightarrow> tiles bs cur"
  unfolding tiles_def cover_def
  by (metis (no_types, lifting) mset_eq_setD mset_filter size_mset)

lemma tiles_disjoint:
  assumes "tiles (as @ (a, n) # bs) cur" "(b, m) \<in> set (as @ bs)"
  shows "disjoint_ivl a n b m"
proof (rule ccontr)
  assume "\<not> disjoint_ivl a n b m"
  moreover have "0 < n" "0 < m" using assms by (auto simp: tiles_def)
  ultimately have "a \<le> max a b" "max a b < a + n" "b \<le> max a b" "max a b < b + m"
    by (auto simp: disjoint_ivl_def)
  moreover from this(3,4) have "0 < cover (as @ bs) (max a b)"
    using cover_pos [OF assms(2)] by blast
  ultimately have "2 \<le> cover (as @ (a, n) # bs) (max a b)" by (auto simp: Suc_le_eq)
  moreover have "cover (as @ (a, n) # bs) (max a b) \<le> 1"
    using assms(1) unfolding tiles_def by (metis le_refl zero_le)
  ultimately show False by linarith
qed

text \<open>Free blocks are coalesced: none touches another one, none touches the end of the pool.\<close>

definition coalesced :: "FreeMemory list \<Rightarrow> int \<Rightarrow> bool" where
  "coalesced fp cur \<longleftrightarrow> (\<forall>f \<in> set fp. fm_offset f + fm_size f \<noteq> cur \<and>
     (\<forall>g \<in> set fp. fm_offset f + fm_size f \<noteq> fm_offset g))"

lemma coalesced_subset: "coalesced fp cur \<Longrightarrow> set fp' \<subseteq> set fp \<Longrightarrow> coalesced fp' cur"
  by (auto simp: coalesced_def)

text \<open>Nothing is allocated only if the pool is empty: no block of it is left anywhere.\<close>

lemma tiles_all_free:
  assumes "tiles (map free_block fp) cur" "coalesced fp cur" "0 \<le> cur"
  shows "cur = 0 \<and> fp = []"
proof -
  have "cur = 0"
  proof (rule ccontr)
    assume "cur \<noteq> 0"
    with assms(1,3) have "cover (map free_block fp) (cur - 1) \<noteq> 0" by (simp add: tiles_def)
    then obtain f where f: "f \<in> set fp" "fm_offset f \<le> cur - 1" "cur - 1 < fm_offset f + fm_size f"
      by (auto simp: cover_def free_block_def filter_empty_conv)
    moreover have "fm_offset f + fm_size f \<le> cur"
      using tiles_block [OF assms(1), of "fm_offset f" "fm_size f"] f(1) by (force simp: free_block_def)
    ultimately show False using assms(2) by (fastforce simp: coalesced_def)
  qed
  moreover have "fp = []"
  proof (cases fp)
    case (Cons f fs)
    with \<open>cur = 0\<close> tiles_block [OF assms(1), of "fm_offset f" "fm_size f"] show ?thesis
      by (auto simp: free_block_def)
  qed simp
  ultimately show ?thesis by simp
qed

section \<open>Merging a freed block\<close>

definition apart :: "FreeMemory \<Rightarrow> FreeMemory list \<Rightarrow> bool" where
  "apart nm fs \<longleftrightarrow> (\<forall>f \<in> set fs. fm_offset nm + fm_size nm \<noteq> fm_offset f \<and>
     fm_offset f + fm_size f \<noteq> fm_offset nm)"

lemma merge_scan_result:
  assumes "\<forall>x. cover (free_block nm # map free_block (seen @ fs)) x \<le> 1"
    and "\<forall>f \<in> set (nm # seen @ fs). 0 < fm_size f" "apart nm seen"
  shows "(merge_scan nm seen fs = Inr None \<and> apart nm (seen @ fs)) \<or>
    (\<exists>nm' fs'. merge_scan nm seen fs = Inr (Some (nm', fs')) \<and> 0 < fm_size nm' \<and>
       set fs' \<subseteq> set (seen @ fs) \<and>
       (\<forall>x. cover (free_block nm' # map free_block fs') x = cover (free_block nm # map free_block (seen @ fs)) x))"
  using assms
proof (induction nm seen fs rule: merge_scan.induct)
  case (2 nm seen f fs)
  have ne: "fm_offset nm \<noteq> fm_offset f"
  proof
    assume "fm_offset nm = fm_offset f"
    with "2.prems"(2) spec [OF "2.prems"(1), of "fm_offset f"] show False by (auto simp: free_block_def)
  qed
  consider "fm_offset nm + fm_size nm = fm_offset f" | "fm_offset f + fm_size f = fm_offset nm"
    | "fm_offset nm + fm_size nm \<noteq> fm_offset f" "fm_offset f + fm_size f \<noteq> fm_offset nm" by blast
  then show ?case
  proof cases
    case 3
    then have "apart nm (seen @ [f])" using "2.prems"(3) by (auto simp: apart_def)
    with "2.IH" 3 ne "2.prems" show ?thesis by (auto simp: add.assoc add.commute)
  qed (use "2.prems"(2) ne in \<open>auto simp: free_block_def\<close>)
qed simp

lemma merge_free_result:
  assumes "\<forall>x. cover (free_block nm # map free_block fs) x \<le> 1" "\<forall>f \<in> set (nm # fs). 0 < fm_size f"
  shows "\<exists>nm' fs'. merge_free nm fs = Inr (nm', fs') \<and> 0 < fm_size nm' \<and> set fs' \<subseteq> set fs \<and> apart nm' fs' \<and>
    (\<forall>x. cover (free_block nm' # map free_block fs') x = cover (free_block nm # map free_block fs) x)"
  using assms
proof (induction nm fs rule: merge_free.induct)
  case (1 nm fs)
  from merge_scan_result [of nm "[]" fs] "1.prems"
  consider "merge_scan nm [] fs = Inr None" "apart nm fs"
    | nm1 fs1 where "merge_scan nm [] fs = Inr (Some (nm1, fs1))" "0 < fm_size nm1" "set fs1 \<subseteq> set fs"
      "\<forall>x. cover (free_block nm1 # map free_block fs1) x = cover (free_block nm # map free_block fs) x"
    by (auto simp: apart_def)
  then show ?case
  proof cases
    case 1
    with "1.prems" show ?thesis by (simp add: merge_free.simps [of nm fs])
  next
    case (2 nm1 fs1)
    have "\<exists>nm' fs'. merge_free nm1 fs1 = Inr (nm', fs') \<and> 0 < fm_size nm' \<and> set fs' \<subseteq> set fs1 \<and> apart nm' fs' \<and>
      (\<forall>x. cover (free_block nm' # map free_block fs') x = cover (free_block nm1 # map free_block fs1) x)"
      by (rule "1.IH" [OF 2(1) refl refl]) (use 2 "1.prems" in auto)
    with 2 show ?thesis by (auto simp: merge_free.simps [of nm fs])
  qed
qed

section \<open>The pool invariant\<close>

definition pool_blocks :: "MemoryPool \<Rightarrow> (int \<times> int) list" where
  "pool_blocks p = map chunk_block (allocatedChunks p) @ map free_block (freePool p)"

definition chunk_ok :: "MemoryType \<Rightarrow> int \<Rightarrow> MemChunk \<Rightarrow> bool" where
  "chunk_ok mt limit c \<longleftrightarrow> mc_memType c = mt \<and>
     mc_pointer c = (if mt = DDR then mc_offset c else limit - mc_offset c - mc_size c)"

definition pool_inv :: "MemoryType \<Rightarrow> int \<Rightarrow> MemoryPool \<Rightarrow> bool" where
  "pool_inv mt limit p \<longleftrightarrow> 0 \<le> curMemOffset p \<and> curMemOffset p \<le> memUsed p \<and> memUsed p \<le> limit \<and>
     tiles (pool_blocks p) (curMemOffset p) \<and> coalesced (freePool p) (curMemOffset p) \<and>
     distinct (map fst (allocatedChunks p)) \<and> (\<forall>(i, c) \<in> set (allocatedChunks p). chunk_ok mt limit c)"

lemma pool_inv_clear: "0 \<le> limit \<Longrightarrow> pool_inv mt limit pool_clear"
  by (simp add: pool_inv_def pool_clear_def pool_blocks_def tiles_def coalesced_def)

lemma pool_inv_free_block:
  assumes "pool_inv mt limit p" "f \<in> set (freePool p)"
  shows "0 < fm_size f \<and> 0 \<le> fm_offset f \<and> fm_offset f + fm_size f \<le> curMemOffset p"
  using assms tiles_block [of "pool_blocks p" "curMemOffset p" "fm_offset f" "fm_size f"]
  by (force simp: pool_inv_def pool_blocks_def free_block_def)

lemma pool_inv_chunk:
  assumes "pool_inv mt limit p" "(i, c) \<in> set (allocatedChunks p)"
  shows "0 < mc_size c \<and> 0 \<le> mc_offset c \<and> mc_offset c + mc_size c \<le> curMemOffset p"
  using assms tiles_block [of "pool_blocks p" "curMemOffset p" "mc_offset c" "mc_size c"]
  by (force simp: pool_inv_def pool_blocks_def chunk_block_def)

section \<open>Best fit\<close>

definition best_so_far :: "FreeMemory list \<Rightarrow> int \<Rightarrow> int \<times> nat option \<Rightarrow> bool" where
  "best_so_far pre sz st \<longleftrightarrow>
     (snd st = None \<and> fst st = 2 ^ 64 - 1 \<and> (\<forall>f \<in> set pre. fm_size f < sz)) \<or>
     (\<exists>j < length pre. snd st = Some j \<and> fst st = fm_size (pre ! j) \<and> sz \<le> fst st \<and>
        (\<forall>f \<in> set pre. sz \<le> fm_size f \<longrightarrow> fst st \<le> fm_size f))"

lemma best_so_far_step:
  assumes "best_so_far pre sz (m, it)" "0 \<le> fm_size f" "fm_size f < 2 ^ 64 - 1"
  shows "best_so_far (pre @ [f]) sz
    (if fm_size f \<ge> sz \<and> as_size_t (fm_size f) < m then (as_size_t (fm_size f), Some (length pre)) else (m, it))"
proof -
  have [simp]: "as_size_t (fm_size f) = fm_size f" using assms(2,3) by (simp add: as_size_t_def)
  show ?thesis
  proof (cases "it")
    case None
    with assms have "m = 2 ^ 64 - 1" "\<forall>g \<in> set pre. fm_size g < sz" by (auto simp: best_so_far_def)
    with None assms(3) show ?thesis by (auto simp: best_so_far_def)
  next
    case (Some j)
    with assms have j: "j < length pre" "m = fm_size (pre ! j)" "sz \<le> m"
      "\<forall>g \<in> set pre. sz \<le> fm_size g \<longrightarrow> m \<le> fm_size g" by (auto simp: best_so_far_def)
    then have "\<forall>g \<in> set pre. fm_size f < m \<longrightarrow> sz \<le> fm_size g \<longrightarrow> fm_size f \<le> fm_size g" by force
    with j Some show ?thesis by (auto simp: best_so_far_def nth_append)
  qed
qed

lemma best_fit_best:
  assumes "best_so_far pre sz st" "\<forall>f \<in> set fs. 0 \<le> fm_size f \<and> fm_size f < 2 ^ 64 - 1"
  shows "\<exists>m. best_so_far (pre @ fs) sz (m, best_fit fs sz (length pre) st)"
  using assms
proof (induction fs arbitrary: pre st)
  case Nil
  then show ?case by (cases st) auto
next
  case (Cons f fs)
  obtain m it where st: "st = (m, it)" by force
  from Cons.IH [OF best_so_far_step [OF Cons.prems(1) [unfolded st], of f]] Cons.prems(2)
  show ?case by (simp add: st)
qed

lemma best_fit_cases:
  assumes "\<forall>f \<in> set fp. 0 \<le> fm_size f \<and> fm_size f < 2 ^ 64 - 1"
  shows "(best_fit fp sz 0 (2 ^ 64 - 1, None) = None \<and> (\<forall>f \<in> set fp. fm_size f < sz)) \<or>
    (\<exists>pre f post. fp = pre @ f # post \<and> best_fit fp sz 0 (2 ^ 64 - 1, None) = Some (length pre) \<and>
       sz \<le> fm_size f \<and> (\<forall>g \<in> set fp. sz \<le> fm_size g \<longrightarrow> fm_size f \<le> fm_size g))"
proof -
  have "best_so_far [] sz (2 ^ 64 - 1, None)" by (simp add: best_so_far_def)
  from best_fit_best [OF this assms] obtain m
    where "best_so_far fp sz (m, best_fit fp sz 0 (2 ^ 64 - 1, None))" by auto
  then consider "best_fit fp sz 0 (2 ^ 64 - 1, None) = None" "\<forall>f \<in> set fp. fm_size f < sz"
    | j where "j < length fp" "best_fit fp sz 0 (2 ^ 64 - 1, None) = Some j" "sz \<le> fm_size (fp ! j)"
      "\<forall>g \<in> set fp. sz \<le> fm_size g \<longrightarrow> fm_size (fp ! j) \<le> fm_size g"
    by (auto simp: best_so_far_def)
  then show ?thesis
  proof cases
    case 2
    then have "fp = take j fp @ fp ! j # drop (Suc j) fp" "j = length (take j fp)"
      by (simp_all add: id_take_nth_drop)
    with 2 show ?thesis by metis
  qed simp
qed

section \<open>Allocation keeps the invariant\<close>

definition chunk_for :: "MemoryType \<Rightarrow> int \<Rightarrow> int \<Rightarrow> int \<Rightarrow> int \<Rightarrow> MemChunk" where
  "chunk_for mt limit off sz inUse = \<lparr>mc_memType = mt,
     mc_pointer = (if mt = DDR then off else limit - off - sz), mc_offset = off, mc_size = sz, mc_inUse = inUse\<rparr>"

lemma chunk_for_sel [simp]:
  "mc_offset (chunk_for mt limit off sz n) = off" "mc_size (chunk_for mt limit off sz n) = sz"
  "mc_inUse (chunk_for mt limit off sz n) = n" "chunk_ok mt limit (chunk_for mt limit off sz n)"
  by (simp_all add: chunk_for_def chunk_ok_def)

lemma MemoryPool_upd_sel [simp]:
  "allocatedChunks (touch_memUsed c p) = allocatedChunks p" "freePool (touch_memUsed c p) = freePool p"
  "curMemOffset (touch_memUsed c p) = curMemOffset p"
  "memUsed (touch_memUsed c p) = max (memUsed p) (mc_offset c + mc_size c)"
  "allocatedChunks (addNewChunk i c p) = allocatedChunks p @ [(i, c)]" "freePool (addNewChunk i c p) = freePool p"
  "curMemOffset (addNewChunk i c p) = curMemOffset p" "memUsed (addNewChunk i c p) = memUsed p"
  by (simp_all add: touch_memUsed_def addNewChunk_def)

text \<open>A chunk cut from the tail of a free block.\<close>

lemma pool_inv_reuse:
  assumes inv: "pool_inv mt limit p" and fp: "freePool p = pre @ f # post"
    and sz: "0 < sz" "sz \<le> fm_size f" and new: "cid \<notin> fst ` set (allocatedChunks p)"
  defines "off \<equiv> fm_offset f + fm_size f - sz"
  defines "fp' \<equiv> (if fm_size f - sz = 0 then pre @ post else pre @ f\<lparr>fm_size := fm_size f - sz\<rparr> # post)"
  shows "pool_inv mt limit (touch_memUsed (chunk_for mt limit off sz n)
    ((addNewChunk cid (chunk_for mt limit off sz n) p)\<lparr>freePool := fp'\<rparr>))"
proof -
  have f: "0 \<le> fm_offset f" "fm_offset f + fm_size f \<le> curMemOffset p"
    using pool_inv_free_block [OF inv, of f] fp by auto
  have t: "tiles (pool_blocks p) (curMemOffset p)" and coal: "coalesced (freePool p) (curMemOffset p)"
    using inv by (auto simp: pool_inv_def)
  have t': "tiles (map chunk_block (allocatedChunks p @ [(cid, chunk_for mt limit off sz n)]) @ map free_block fp')
      (curMemOffset p)"
    using t sz unfolding tiles_def
    by (auto simp: pool_blocks_def fp fp'_def off_def chunk_block_def free_block_def split: if_splits)
  have dis: "disjoint_ivl (fm_offset f) (fm_size f) (fm_offset g) (fm_size g) \<and> 0 < fm_size g"
    if "g \<in> set (pre @ post)" for g
    using tiles_disjoint [of "map chunk_block (allocatedChunks p) @ map free_block pre" "fm_offset f" "fm_size f"
        "map free_block post" "curMemOffset p" "fm_offset g" "fm_size g"] t that
      pool_inv_free_block [OF inv, of g]
    by (auto simp: pool_blocks_def fp free_block_def)
  have keep: "coalesced (pre @ post) (curMemOffset p)"
    using coal by (rule coalesced_subset) (auto simp: fp)
  have "coalesced fp' (curMemOffset p)"
  proof (cases "fm_size f = sz")
    case True
    with keep show ?thesis by (simp add: fp'_def)
  next
    case False
    have "fm_offset f + (fm_size f - sz) \<noteq> fm_offset g" if "g \<in> set (pre @ post)" for g
      using dis [OF that] sz False by (auto simp: disjoint_ivl_def)
    moreover have "fm_offset g + fm_size g \<noteq> fm_offset f" if "g \<in> set (pre @ post)" for g
      using coal that by (auto simp: coalesced_def fp)
    ultimately show ?thesis
      using keep f sz False by (auto simp: coalesced_def fp'_def)
  qed
  with t' inv f sz new show ?thesis
    by (auto simp: pool_inv_def pool_blocks_def off_def)
qed

text \<open>A chunk appended at the end of the pool.\<close>

lemma pool_inv_extend:
  fixes n :: int
  assumes inv: "pool_inv mt limit p" and sz: "0 < sz" "curMemOffset p + sz \<le> limit"
    and new: "cid \<notin> fst ` set (allocatedChunks p)"
  defines "c \<equiv> chunk_for mt limit (curMemOffset p) sz n"
  shows "pool_inv mt limit (touch_memUsed c ((addNewChunk cid c p)\<lparr>curMemOffset := curMemOffset p + sz\<rparr>))"
proof -
  have "tiles (map chunk_block (allocatedChunks p @ [(cid, c)]) @ map free_block (freePool p)) (curMemOffset p + sz)"
  proof -
    have "cover (map chunk_block (allocatedChunks p @ [(cid, c)]) @ map free_block (freePool p)) x =
        (if 0 \<le> x \<and> x < curMemOffset p + sz then 1 else 0)" for x
    proof -
      have "cover (pool_blocks p) x = (if 0 \<le> x \<and> x < curMemOffset p then 1 else 0)" "0 \<le> curMemOffset p"
        using inv by (simp_all add: pool_inv_def tiles_def)
      moreover have "cover (map chunk_block (allocatedChunks p @ [(cid, c)]) @ map free_block (freePool p)) x =
          cover (pool_blocks p) x + (if curMemOffset p \<le> x \<and> x < curMemOffset p + sz then 1 else 0)"
        by (simp add: pool_blocks_def chunk_block_def c_def)
      ultimately show ?thesis using sz by auto
    qed
    with inv sz show ?thesis
      by (auto simp: pool_inv_def tiles_def pool_blocks_def chunk_block_def c_def)
  qed
  moreover have "coalesced (freePool p) (curMemOffset p + sz)"
    using pool_inv_free_block [OF inv] inv sz by (fastforce simp: pool_inv_def coalesced_def)
  ultimately show ?thesis
    using inv sz new by (auto simp: pool_inv_def pool_blocks_def c_def)
qed

text \<open>The block that \<open>merge_free\<close> leaves is either the new end of the pool or a new free block.\<close>

lemma pool_inv_release:
  assumes inv: "pool_inv mt limit p" and c: "(cid, c) \<in> set (allocatedChunks p)"
  obtains nm fp where "merge_free \<lparr>fm_offset = mc_offset c, fm_size = mc_size c\<rparr> (freePool p) = Inr (nm, fp)"
    "0 < fm_size nm" "pool_inv mt limit ((if fm_offset nm + fm_size nm = curMemOffset p
        then p\<lparr>curMemOffset := fm_offset nm, freePool := fp\<rparr> else p\<lparr>freePool := fp @ [nm]\<rparr>)
      \<lparr>allocatedChunks := filter (\<lambda>(i, _). i \<noteq> cid) (allocatedChunks p)\<rparr>)"
proof -
  let ?nm = "\<lparr>fm_offset = mc_offset c, fm_size = mc_size c\<rparr>" and ?cur = "curMemOffset p"
  let ?chunks = "filter (\<lambda>(i, _). i \<noteq> cid) (allocatedChunks p)"
  obtain as bs where split: "allocatedChunks p = as @ (cid, c) # bs" using c by (meson split_list)
  moreover have "distinct (map fst (allocatedChunks p))" using inv by (simp add: pool_inv_def)
  ultimately have "cid \<notin> fst ` set as" "cid \<notin> fst ` set bs" by auto
  then have "filter (\<lambda>(i, _). i \<noteq> cid) as = as" "filter (\<lambda>(i, _). i \<noteq> cid) bs = bs"
    by (force simp: filter_id_conv)+
  then have "?chunks = as @ bs" by (simp add: split)
  then have same: "cover (map chunk_block ?chunks) x + cover (free_block ?nm # map free_block (freePool p)) x =
      cover (pool_blocks p) x" for x
    by (simp add: pool_blocks_def split chunk_block_def free_block_def)
  have t: "tiles (pool_blocks p) ?cur" using inv by (simp add: pool_inv_def)
  have "cover (free_block ?nm # map free_block (freePool p)) x \<le> 1" for x
    using same [of x] t by (auto simp: tiles_def split: if_splits)
  moreover have "\<forall>f \<in> set (?nm # freePool p). 0 < fm_size f"
    using pool_inv_free_block [OF inv] pool_inv_chunk [OF inv c] by auto
  ultimately obtain nm fp where m: "merge_free ?nm (freePool p) = Inr (nm, fp)" "0 < fm_size nm"
    "set fp \<subseteq> set (freePool p)" "apart nm fp"
    "\<forall>x. cover (free_block nm # map free_block fp) x = cover (free_block ?nm # map free_block (freePool p)) x"
    using merge_free_result [of ?nm "freePool p"] by blast
  have t': "tiles (map chunk_block ?chunks @ free_block nm # map free_block fp) ?cur"
  proof -
    have "cover (map chunk_block ?chunks @ free_block nm # map free_block fp) x = cover (pool_blocks p) x" for x
      using same [of x] m(5) by (simp del: cover_simps(2))
    moreover have "0 < n" if "(a, n) \<in> set (map chunk_block ?chunks @ free_block nm # map free_block fp)" for a n
      using that m(2) subsetD [OF m(3)] pool_inv_free_block [OF inv] pool_inv_chunk [OF inv]
      by (auto simp: chunk_block_def free_block_def)
    ultimately show ?thesis
      using t unfolding tiles_def by (metis (mono_tags, lifting) case_prodI2)
  qed
  have coal: "coalesced fp ?cur"
    using inv m(3) by (auto simp: pool_inv_def intro: coalesced_subset)
  have nm: "0 \<le> fm_offset nm" "fm_offset nm + fm_size nm \<le> ?cur"
    using tiles_block [OF t', of "fm_offset nm" "fm_size nm"] by (simp_all add: free_block_def)
  have rest: "distinct (map fst ?chunks)" "\<forall>(i, c) \<in> set ?chunks. chunk_ok mt limit c"
    using inv by (auto simp: pool_inv_def distinct_map_filter)
  show ?thesis
  proof (rule that [OF m(1,2)])
    show "pool_inv mt limit ((if fm_offset nm + fm_size nm = ?cur
        then p\<lparr>curMemOffset := fm_offset nm, freePool := fp\<rparr> else p\<lparr>freePool := fp @ [nm]\<rparr>)
      \<lparr>allocatedChunks := ?chunks\<rparr>)"
    proof (cases "fm_offset nm + fm_size nm = ?cur")
      case True
      have "tiles (map chunk_block ?chunks @ map free_block fp) (fm_offset nm)"
      proof -
        let ?bs = "map chunk_block ?chunks @ map free_block fp"
        have "cover ?bs x + (if fm_offset nm \<le> x \<and> x < ?cur then 1 else 0) =
            (if 0 \<le> x \<and> x < ?cur then 1 else 0)" for x
          using t' True unfolding tiles_def by (simp add: free_block_def add.commute add.left_commute)
        then have "cover ?bs x = (if 0 \<le> x \<and> x < fm_offset nm then 1 else 0)" for x
          using nm m(2) True by (smt (verit) add_cancel_left_left add_cancel_right_right)
        with t' show ?thesis by (auto simp: tiles_def)
      qed
      moreover have "coalesced fp (fm_offset nm)"
        using coal m(4) by (auto simp: coalesced_def apart_def)
      ultimately show ?thesis
        using True inv nm m(2) rest by (auto simp: pool_inv_def pool_blocks_def)
    next
      case False
      have "tiles (map chunk_block ?chunks @ map free_block (fp @ [nm])) ?cur"
        by (rule tiles_mset [OF t']) simp
      moreover have "coalesced (fp @ [nm]) ?cur"
        using coal m(2,4) False by (auto simp: coalesced_def apart_def)
      ultimately show ?thesis
        using False inv rest by (auto simp: pool_inv_def pool_blocks_def)
    qed
  qed
qed

section \<open>Both pools\<close>

text \<open>
  \<open>pools_ok L k ps\<close>: the pools are well-formed for a CMX of \<open>L\<close> bytes of which \<open>k\<close> slices
  are locked by SHAVEs.
\<close>

definition chunk_ids :: "MemoryPool \<Rightarrow> nat set" where
  "chunk_ids p = fst ` set (allocatedChunks p)"

definition pool_limit :: "int \<Rightarrow> MemoryType \<Rightarrow> int" where
  "pool_limit L mt = (if mt = DDR then DDR_MAX_SIZE else L)"

definition pools_ok :: "int \<Rightarrow> int \<Rightarrow> Pools \<Rightarrow> bool" where
  "pools_ok L k ps \<longleftrightarrow> (\<forall>mt. pool_inv mt (pool_limit L mt) (get_pool mt ps)) \<and>
     (\<forall>mt mt'. mt \<noteq> mt' \<longrightarrow> chunk_ids (get_pool mt ps) \<inter> chunk_ids (get_pool mt' ps) = {}) \<and>
     (\<forall>mt. \<forall>i \<in> chunk_ids (get_pool mt ps). i < nextChunk ps) \<and>
     0 \<le> k \<and> curMemOffset (get_pool CMX ps) + k * CMX_SLICE_SIZE \<le> L \<and> L < 2 ^ 64 - 1"

definition initialPools :: Pools where
  "initialPools = \<lparr>ddrPool = pool_clear, cmxPool = pool_clear, nextChunk = 0\<rparr>"

lemma pools_ok_initial: "0 \<le> k \<Longrightarrow> k * CMX_SLICE_SIZE \<le> L \<Longrightarrow> L < 2 ^ 64 - 1 \<Longrightarrow> pools_ok L k initialPools"
proof -
  assume k: "0 \<le> k" "k * CMX_SLICE_SIZE \<le> L" "L < 2 ^ 64 - 1"
  then have "0 \<le> L" by (simp add: CMX_SLICE_SIZE_def)
  then have "pool_inv mt (pool_limit L mt) (get_pool mt initialPools)" for mt
    by (cases mt) (auto simp: initialPools_def pool_limit_def DDR_MAX_SIZE_def intro!: pool_inv_clear)
  moreover have "chunk_ids (get_pool mt initialPools) = {}" for mt
    by (cases mt) (simp_all add: initialPools_def chunk_ids_def pool_clear_def)
  ultimately show ?thesis
    using k unfolding pools_ok_def by (metis Int_empty_left all_not_in_conv add_0 get_pool.simps(2)
      initialPools_def Pools.select_convs(2) pool_clear_def MemoryPool.select_convs(1))
qed

lemma get_set_pool [simp]: "get_pool mt (set_pool mt' p ps) = (if mt = mt' then p else get_pool mt ps)"
  by (cases mt; cases mt') auto

lemma set_pool_next [simp]: "nextChunk (set_pool mt p ps) = nextChunk ps"
  by (cases mt) auto

lemma get_pool_next [simp]: "get_pool mt (ps\<lparr>nextChunk := n\<rparr>) = get_pool mt ps"
  by (cases mt) auto

text \<open>\<open>live\<close> chunks: those \<open>find_chunk\<close> returns, each in the pool of its memory type.\<close>

lemma map_of_chunks:
  "pools_ok L k ps \<Longrightarrow> map_of (allocatedChunks (get_pool mt ps)) i = Some c \<longleftrightarrow>
     (i, c) \<in> set (allocatedChunks (get_pool mt ps))"
  by (simp add: pools_ok_def pool_inv_def)

lemma pool_chunk_type:
  "pools_ok L k ps \<Longrightarrow> (i, c) \<in> set (allocatedChunks (get_pool mt ps)) \<Longrightarrow> mc_memType c = mt"
  by (auto simp: pools_ok_def pool_inv_def chunk_ok_def)

lemma find_chunk_iff:
  assumes ok: "pools_ok L k ps"
  shows "find_chunk ps i = Some c \<longleftrightarrow> (i, c) \<in> set (allocatedChunks (get_pool (mc_memType c) ps))"
proof -
  have dis: "i \<in> chunk_ids (get_pool DDR ps) \<Longrightarrow> i \<notin> chunk_ids (get_pool CMX ps)"
    using ok unfolding pools_ok_def by (metis MemoryType.distinct(1) disjoint_iff)
  have m: "map_of (allocatedChunks (get_pool mt ps)) i = Some c \<longleftrightarrow>
      (i, c) \<in> set (allocatedChunks (get_pool mt ps))" for mt c
    using map_of_chunks [OF ok] by blast
  show ?thesis
  proof (cases "map_of (allocatedChunks (get_pool DDR ps)) i")
    case None
    then have "i \<notin> chunk_ids (get_pool DDR ps)" by (simp add: map_of_eq_None_iff chunk_ids_def)
    then have no: "(i, c) \<notin> set (allocatedChunks (get_pool DDR ps))" by (force simp: chunk_ids_def)
    have "find_chunk ps i = map_of (allocatedChunks (get_pool CMX ps)) i"
      using None by (simp add: find_chunk_def)
    then have "find_chunk ps i = Some c \<longleftrightarrow> (i, c) \<in> set (allocatedChunks (get_pool CMX ps))"
      using m [of CMX] by simp
    with no show ?thesis using pool_chunk_type [OF ok, of i c CMX] by (cases "mc_memType c") auto
  next
    case (Some c')
    then have c': "(i, c') \<in> set (allocatedChunks (get_pool DDR ps))" using m [of DDR c'] by simp
    then have "i \<in> chunk_ids (get_pool DDR ps)" by (force simp: chunk_ids_def)
    from dis [OF this] have no: "(i, c) \<notin> set (allocatedChunks (get_pool CMX ps))"
      by (force simp: chunk_ids_def)
    have "find_chunk ps i = Some c'" using Some by (simp add: find_chunk_def)
    then have "find_chunk ps i = Some c \<longleftrightarrow> (i, c) \<in> set (allocatedChunks (get_pool DDR ps))"
      using m [of DDR c] Some by auto
    with no show ?thesis using pool_chunk_type [OF ok, of i c DDR] by (cases "mc_memType c") auto
  qed
qed

lemma pool_chunks_disjoint:
  assumes "pool_inv mt L p" "(i, c) \<in> set (allocatedChunks p)" "(j, d) \<in> set (allocatedChunks p)" "i \<noteq> j"
  shows "disjoint_ivl (mc_offset c) (mc_size c) (mc_offset d) (mc_size d)"
proof -
  obtain as bs where split: "allocatedChunks p = as @ (i, c) # bs" using assms(2) by (meson split_list)
  then have "(j, d) \<in> set (as @ bs)" using assms(3,4) by auto
  then have "(mc_offset d, mc_size d) \<in> set (map chunk_block as @ map chunk_block bs)"
    by (force simp: chunk_block_def)
  then have "(mc_offset d, mc_size d) \<in> set (map chunk_block as @ map chunk_block bs @ map free_block (freePool p))"
    by auto
  moreover have "tiles (map chunk_block as @ (mc_offset c, mc_size c) #
      map chunk_block bs @ map free_block (freePool p)) (curMemOffset p)"
    using assms(1) by (simp add: pool_inv_def pool_blocks_def split chunk_block_def)
  ultimately show ?thesis by (rule tiles_disjoint [rotated])
qed

lemma pools_ok_update:
  assumes ok: "pools_ok L k ps" and p: "pool_inv mt (pool_limit L mt) p"
    and ids: "chunk_ids p \<subseteq> chunk_ids (get_pool mt ps) \<union> {nextChunk ps ..< N}" "nextChunk ps \<le> N"
    and cur: "mt = CMX \<Longrightarrow> curMemOffset p + k * CMX_SLICE_SIZE \<le> L"
  shows "pools_ok L k ((set_pool mt p ps)\<lparr>nextChunk := N\<rparr>)"
proof -
  have lt: "i \<in> chunk_ids (get_pool m ps) \<Longrightarrow> i < nextChunk ps" for i m using ok by (auto simp: pools_ok_def)
  have dis: "m \<noteq> m' \<Longrightarrow> chunk_ids (get_pool m ps) \<inter> chunk_ids (get_pool m' ps) = {}" for m m'
    using ok by (simp add: pools_ok_def)
  have "chunk_ids p \<inter> chunk_ids (get_pool m ps) = {}" if "m \<noteq> mt" for m
    using ids lt [of _ m] dis [OF that] by fastforce
  moreover have "i < N" if "i \<in> chunk_ids p" for i using that ids lt [of i mt] by fastforce
  moreover have "i < N" if "i \<in> chunk_ids (get_pool m ps)" for i m using lt [OF that] ids(2) by simp
  ultimately show ?thesis
    using ok p cur dis by (auto simp: pools_ok_def Int_commute)
qed

text \<open>What is still free at the end of the pool, as \<open>allocateMem\<close> computes it.\<close>

definition space_left :: "int \<Rightarrow> int \<Rightarrow> MemoryType \<Rightarrow> Pools \<Rightarrow> int" where
  "space_left L k mt ps = pool_limit L mt - curMemOffset (get_pool mt ps) - (if mt = CMX then k * CMX_SLICE_SIZE else 0)"

definition fits_free :: "MemoryType \<Rightarrow> int \<Rightarrow> Pools \<Rightarrow> bool" where
  "fits_free mt sz ps \<longleftrightarrow> (\<exists>f \<in> set (freePool (get_pool mt ps)). sz \<le> fm_size f)"

lemma freeSpace_space_left:
  "pools_ok L k ps \<Longrightarrow> freeSpace L k (get_pool mt ps) mt = Inr (space_left L k mt ps)"
  by (cases mt) (auto simp: freeSpace_def space_left_def pools_ok_def pool_limit_def pool_inv_def ie_assert_def
    dest!: spec [of _ DDR])

lemma chunk_for_DDR: "chunk_for DDR limit off sz n = \<lparr>mc_memType = DDR, mc_pointer = off, mc_offset = off, mc_size = sz, mc_inUse = n\<rparr>"
  and chunk_for_CMX: "chunk_for CMX limit off sz n = \<lparr>mc_memType = CMX, mc_pointer = limit - off - sz, mc_offset = off, mc_size = sz, mc_inUse = n\<rparr>"
  by (simp_all add: chunk_for_def)

text \<open>The new pool of a successful allocation of a chunk at \<open>off\<close>.\<close>

lemma allocateMem_cases:
  assumes ok: "pools_ok L k ps" and sz: "0 < sz"
  obtains "allocateMem L k mt sz n ps = Inr (None, ps)" "\<not> fits_free mt sz ps" "space_left L k mt ps < sz"
  | p' off where "fits_free mt sz ps \<or> sz \<le> space_left L k mt ps"
    "allocateMem L k mt sz n ps = Inr (Some (nextChunk ps), (set_pool mt p' ps)\<lparr>nextChunk := Suc (nextChunk ps)\<rparr>)"
    "pool_inv mt (pool_limit L mt) p'"
    "allocatedChunks p' = allocatedChunks (get_pool mt ps) @ [(nextChunk ps, chunk_for mt (pool_limit L mt) off sz n)]"
    "mt = CMX \<Longrightarrow> curMemOffset p' + k * CMX_SLICE_SIZE \<le> L"
proof -
  let ?p = "get_pool mt ps" and ?cid = "nextChunk ps" and ?lim = "pool_limit L mt"
  have inv: "pool_inv mt ?lim ?p" and L: "L < 2 ^ 64 - 1" and k: "0 \<le> k"
    and cur: "curMemOffset (get_pool CMX ps) + k * CMX_SLICE_SIZE \<le> L"
    and fresh: "?cid \<notin> fst ` set (allocatedChunks ?p)"
    using ok unfolding pools_ok_def chunk_ids_def by blast+
  have "\<forall>f \<in> set (freePool ?p). 0 \<le> fm_size f \<and> fm_size f < 2 ^ 64 - 1"
    using pool_inv_free_block [OF inv] inv L
    by (force simp: pool_inv_def pool_limit_def DDR_MAX_SIZE_def split: if_splits)
  from best_fit_cases [OF this, of sz]
  consider "best_fit (freePool ?p) sz 0 (2 ^ 64 - 1, None) = None" "\<forall>f \<in> set (freePool ?p). fm_size f < sz"
    | pre f post where "freePool ?p = pre @ f # post" "sz \<le> fm_size f"
      "best_fit (freePool ?p) sz 0 (2 ^ 64 - 1, None) = Some (length pre)" by metis
  then show ?thesis
  proof cases
    case 1
    then have nofit: "\<not> fits_free mt sz ps" by (auto simp: fits_free_def)
    note cm = 1(1) freeSpace_space_left [OF ok, of mt]
    show ?thesis
    proof (cases "space_left L k mt ps < sz")
      case True
      with cm nofit show ?thesis by (intro that(1)) (simp_all add: allocateMem_def checkMemPool_def Let_def)
    next
      case False
      let ?c = "chunk_for mt ?lim (curMemOffset ?p) sz n"
      have le: "curMemOffset ?p + sz \<le> ?lim" "mt = CMX \<Longrightarrow> curMemOffset ?p + sz + k * CMX_SLICE_SIZE \<le> L"
        using False k by (auto simp: space_left_def pool_limit_def CMX_SLICE_SIZE_def split: if_splits)
      show ?thesis
      proof (rule that(2))
        show "allocateMem L k mt sz n ps = Inr (Some ?cid, (set_pool mt
            (touch_memUsed ?c ((addNewChunk ?cid ?c ?p)\<lparr>curMemOffset := curMemOffset ?p + sz\<rparr>)) ps)\<lparr>nextChunk := Suc ?cid\<rparr>)"
          using cm False le
          by (cases mt) (simp_all add: allocateMem_def checkMemPool_def Let_def chunk_for_DDR chunk_for_CMX pool_limit_def algebra_simps)
      qed (use False le pool_inv_extend [OF inv sz le(1) fresh, of n] in auto)
    qed
  next
    case 2
    let ?off = "fm_offset f + fm_size f - sz"
    let ?c = "chunk_for mt ?lim ?off sz n"
    let ?fp = "if fm_size f - sz = 0 then pre @ post else pre @ f\<lparr>fm_size := fm_size f - sz\<rparr> # post"
    have le: "?off + sz \<le> ?lim"
      using pool_inv_free_block [OF inv, of f] 2(1) inv by (auto simp: pool_inv_def)
    show ?thesis
    proof (rule that(2))
      show "fits_free mt sz ps \<or> sz \<le> space_left L k mt ps" using 2 by (auto simp: fits_free_def)
      show "allocateMem L k mt sz n ps = Inr (Some ?cid, (set_pool mt
          (touch_memUsed ?c ((addNewChunk ?cid ?c ?p)\<lparr>freePool := ?fp\<rparr>)) ps)\<lparr>nextChunk := Suc ?cid\<rparr>)"
        using 2 le
        by (cases mt) (simp_all add: allocateMem_def checkMemPool_def Let_def chunk_for_DDR chunk_for_CMX pool_limit_def)
      show "pool_inv mt ?lim (touch_memUsed ?c ((addNewChunk ?cid ?c ?p)\<lparr>freePool := ?fp\<rparr>))"
        by (rule pool_inv_reuse [OF inv 2(1) sz 2(2) fresh])
    qed (use cur in auto)
  qed
qed

text \<open>The contract of \<open>allocateMem\<close>: it fails only when no free block and not the rest of the pool is large enough.\<close>

lemma allocateMem_ok:
  assumes ok: "pools_ok L k ps" and sz: "0 < sz"
  shows "(allocateMem L k mt sz n ps = Inr (None, ps) \<and> \<not> fits_free mt sz ps \<and> space_left L k mt ps < sz) \<or>
    (\<exists>ps' c. allocateMem L k mt sz n ps = Inr (Some (nextChunk ps), ps') \<and> pools_ok L k ps' \<and>
       (fits_free mt sz ps \<or> sz \<le> space_left L k mt ps) \<and>
       find_chunk ps (nextChunk ps) = None \<and> find_chunk ps' = (find_chunk ps)(nextChunk ps \<mapsto> c) \<and>
       mc_memType c = mt \<and> mc_size c = sz \<and> mc_inUse c = n)"
  using ok sz
proof (cases rule: allocateMem_cases [where mt = mt and n = n])
  case (2 p' off)
  let ?c = "chunk_for mt (pool_limit L mt) off sz n"
  let ?ps' = "(set_pool mt p' ps)\<lparr>nextChunk := Suc (nextChunk ps)\<rparr>"
  have ok': "pools_ok L k ?ps'"
    by (rule pools_ok_update [OF ok 2(3)]) (use 2 in \<open>auto simp: chunk_ids_def\<close>)
  have fresh: "(nextChunk ps, d) \<notin> set (allocatedChunks (get_pool m ps))" for m d
    using ok by (force simp: pools_ok_def chunk_ids_def)
  then have none: "find_chunk ps (nextChunk ps) = None"
    using find_chunk_iff [OF ok] by (metis not_Some_eq)
  have "find_chunk ?ps' i = Some d \<longleftrightarrow> ((find_chunk ps)(nextChunk ps \<mapsto> ?c)) i = Some d" for i d
  proof -
    have "mc_memType ?c = mt" by (simp add: chunk_for_def)
    then have "find_chunk ?ps' i = Some d \<longleftrightarrow>
        (i, d) \<in> set (allocatedChunks (get_pool (mc_memType d) ps)) \<or> (i = nextChunk ps \<and> d = ?c)"
      using find_chunk_iff [OF ok', of i d] 2(4) by auto
    then show ?thesis using find_chunk_iff [OF ok, of i d] none fresh by auto
  qed
  then have "find_chunk ?ps' = (find_chunk ps)(nextChunk ps \<mapsto> ?c)"
    by (intro ext option_eqI) blast
  moreover have "mc_memType ?c = mt" by (simp add: chunk_for_def)
  ultimately show ?thesis
    using 2(1,2) ok' none by (intro disjI2 exI [of _ ?ps'] exI [of _ ?c]) simp
qed auto

text \<open>The contract of \<open>freeMem\<close>: on a live chunk it never asserts, and removes just that chunk.\<close>

lemma freeMem_ok:
  assumes ok: "pools_ok L k ps" and c: "find_chunk ps cid = Some c"
  shows "\<exists>ps'. freeMem cid ps = Inr ps' \<and> pools_ok L k ps' \<and> find_chunk ps' = (find_chunk ps)(cid := None) \<and>
    nextChunk ps' = nextChunk ps"
proof -
  let ?mt = "mc_memType c"
  let ?p = "get_pool ?mt ps"
  have inv: "pool_inv ?mt (pool_limit L ?mt) ?p" using ok by (simp add: pools_ok_def)
  have mem: "(cid, c) \<in> set (allocatedChunks ?p)" using c find_chunk_iff [OF ok] by simp
  obtain nm fp where m: "merge_free \<lparr>fm_offset = mc_offset c, fm_size = mc_size c\<rparr> (freePool ?p) = Inr (nm, fp)"
    and pos: "0 < fm_size nm" and inv': "pool_inv ?mt (pool_limit L ?mt) ((if fm_offset nm + fm_size nm = curMemOffset ?p
        then ?p\<lparr>curMemOffset := fm_offset nm, freePool := fp\<rparr> else ?p\<lparr>freePool := fp @ [nm]\<rparr>)
      \<lparr>allocatedChunks := filter (\<lambda>(i, _). i \<noteq> cid) (allocatedChunks ?p)\<rparr>)"
      (is "pool_inv _ _ ?q")
    by (rule pool_inv_release [OF inv mem])
  let ?ps' = "set_pool ?mt ?q ps"
  have chunks: "allocatedChunks ?q = filter (\<lambda>(i, _). i \<noteq> cid) (allocatedChunks ?p)" by simp
  have "freeMem cid ps = Inr ?ps'"
    using c m mem by (force simp: freeMem_def Let_def)
  moreover have "pools_ok L k (?ps'\<lparr>nextChunk := nextChunk ps\<rparr>)"
  proof (rule pools_ok_update [OF ok inv'])
    show "curMemOffset ?q + k * CMX_SLICE_SIZE \<le> L" if "?mt = CMX"
    proof -
      have "curMemOffset ?q \<le> curMemOffset ?p"
        using pos by auto
      then show ?thesis using ok that by (auto simp: pools_ok_def)
    qed
  qed (auto simp: chunk_ids_def)
  moreover have "?ps'\<lparr>nextChunk := nextChunk ps\<rparr> = ?ps'" by (cases ?mt) auto
  ultimately have r: "freeMem cid ps = Inr ?ps'" "pools_ok L k ?ps'" by simp_all
  have "find_chunk ?ps' i = Some d \<longleftrightarrow> ((find_chunk ps)(cid := None)) i = Some d" for i d
  proof (cases "mc_memType d = ?mt")
    case True
    then show ?thesis
      using find_chunk_iff [OF r(2), of i d] find_chunk_iff [OF ok, of i d] chunks by auto
  next
    case False
    have "(cid, d) \<notin> set (allocatedChunks (get_pool (mc_memType d) ps))"
      using False mem ok unfolding pools_ok_def chunk_ids_def by (metis disjoint_iff fst_conv image_eqI)
    with False show ?thesis
      using find_chunk_iff [OF r(2), of i d] find_chunk_iff [OF ok, of i d] by auto
  qed
  then have "find_chunk ?ps' = (find_chunk ps)(cid := None)"
    by (intro ext option_eqI) blast
  with r show ?thesis by auto
qed

section \<open>The interface the allocator's clients use\<close>

text \<open>
  What a client of the pools relies on: a handle \<open>alloc\<close> returns is fresh and live until it
  is released, its chunk has the requested type, size and use count, live chunks of one memory
  type never overlap, and \<open>release\<close> of a live handle always succeeds.
\<close>

locale mem_pools =
  fixes inv :: "'s \<Rightarrow> bool"
    and alloc :: "MemoryType \<Rightarrow> int \<Rightarrow> int \<Rightarrow> 's \<Rightarrow> (nat option \<times> 's) result"
    and release :: "nat \<Rightarrow> 's \<Rightarrow> 's result"
    and look :: "'s \<Rightarrow> nat \<Rightarrow> MemChunk option"
  assumes alloc_law: "inv s \<Longrightarrow> 0 < sz \<Longrightarrow>
      (alloc mt sz n s = Inr (None, s)) \<or>
      (\<exists>h s' c. alloc mt sz n s = Inr (Some h, s') \<and> inv s' \<and> look s h = None \<and>
         look s' = (look s)(h \<mapsto> c) \<and> mc_memType c = mt \<and> mc_size c = sz \<and> mc_inUse c = n)"
    and release_law: "inv s \<Longrightarrow> look s h = Some c \<Longrightarrow>
      \<exists>s'. release h s = Inr s' \<and> inv s' \<and> look s' = (look s)(h := None)"
    and apart_law: "inv s \<Longrightarrow> look s h = Some c \<Longrightarrow> look s h' = Some c' \<Longrightarrow> h \<noteq> h' \<Longrightarrow>
      mc_memType c = mc_memType c' \<Longrightarrow> disjoint_ivl (mc_offset c) (mc_size c) (mc_offset c') (mc_size c')"
    and size_law: "inv s \<Longrightarrow> look s h = Some c \<Longrightarrow> 0 < mc_size c"
begin

lemma alloc_never_throws: "inv s \<Longrightarrow> 0 < sz \<Longrightarrow> \<exists>r s'. alloc mt sz n s = Inr (r, s') \<and> inv s'"
  using alloc_law [of s sz mt n] by blast

lemma alloc_None: "inv s \<Longrightarrow> 0 < sz \<Longrightarrow> alloc mt sz n s = Inr (None, s') \<Longrightarrow> s' = s"
  using alloc_law [of s sz mt n] by auto

lemma alloc_Some:
  assumes "inv s" "0 < sz" "alloc mt sz n s = Inr (Some h, s')"
  obtains c where "inv s'" "look s h = None" "look s' = (look s)(h \<mapsto> c)" "mc_memType c = mt"
    "mc_size c = sz" "mc_inUse c = n"
  using alloc_law [OF assms(1,2), of mt n] assms(3) by auto

text \<open>A released chunk and the one allocated in its place: what \<open>MoveFromCMX\<close> does.\<close>

definition move :: "nat \<Rightarrow> MemoryType \<Rightarrow> 's \<Rightarrow> (nat option \<times> 's) result" where
  "move h mt s = (case look s h of None \<Rightarrow> Inl AssertFailed
     | Some c \<Rightarrow> bindE (release h s) (\<lambda>s'. alloc mt (mc_size c) (mc_inUse c) s'))"

lemma move_ok:
  assumes "inv s" "look s h = Some c"
  shows "\<exists>s1 r s2. release h s = Inr s1 \<and> alloc mt (mc_size c) (mc_inUse c) s1 = Inr (r, s2) \<and>
    move h mt s = Inr (r, s2) \<and> inv s2 \<and>
    (case r of None \<Rightarrow> look s2 = (look s)(h := None)
     | Some h' \<Rightarrow> \<exists>c'. look s2 = ((look s)(h := None))(h' \<mapsto> c') \<and> mc_size c' = mc_size c \<and>
         mc_inUse c' = mc_inUse c \<and> mc_memType c' = mt)"
proof -
  obtain s1 where s1: "release h s = Inr s1" "inv s1" "look s1 = (look s)(h := None)"
    using release_law [OF assms] by blast
  from alloc_law [OF s1(2) size_law [OF assms], of mt "mc_inUse c"] s1 assms(2) show ?thesis
    by (auto simp: move_def)
qed

text \<open>Releasing a set of handles one after the other.\<close>

fun release_all :: "nat list \<Rightarrow> 's \<Rightarrow> 's result" where
  "release_all [] s = Inr s"
| "release_all (h # hs) s = bindE (release h s) (release_all hs)"

lemma release_all_ok:
  assumes "inv s" "distinct hs" "set hs \<subseteq> dom (look s)"
  shows "\<exists>s'. release_all hs s = Inr s' \<and> inv s' \<and> look s' = look s |` (- set hs)"
  using assms
proof (induction hs arbitrary: s)
  case Nil
  then show ?case by (simp add: restrict_map_def)
next
  case (Cons h hs)
  then obtain c where "look s h = Some c" by auto
  with release_law [OF Cons.prems(1)] obtain s1
    where s1: "release h s = Inr s1" "inv s1" "look s1 = (look s)(h := None)" by blast
  have "set hs \<subseteq> dom (look s1)" using Cons.prems s1(3) by auto
  with Cons.IH [OF s1(2)] Cons.prems(2) obtain s'
    where "release_all hs s1 = Inr s'" "inv s'" "look s' = look s1 |` (- set hs)" by auto
  moreover from this(3) s1(3) have "look s' = look s |` (- set (h # hs))"
    by (auto simp: restrict_map_def fun_eq_iff)
  ultimately show ?case using s1(1) by auto
qed

end

interpretation pools: mem_pools "pools_ok L k" "allocateMem L k" freeMem find_chunk
proof
  fix s mt and sz n :: int
  assume "pools_ok L k s" "0 < sz"
  from allocateMem_ok [OF this, of mt n]
  show "allocateMem L k mt sz n s = Inr (None, s) \<or>
      (\<exists>h s' c. allocateMem L k mt sz n s = Inr (Some h, s') \<and> pools_ok L k s' \<and> find_chunk s h = None \<and>
         find_chunk s' = (find_chunk s)(h \<mapsto> c) \<and> mc_memType c = mt \<and> mc_size c = sz \<and> mc_inUse c = n)"
    by blast
next
  fix s h c
  assume "pools_ok L k s" "find_chunk s h = Some c"
  from freeMem_ok [OF this]
  show "\<exists>s'. freeMem h s = Inr s' \<and> pools_ok L k s' \<and> find_chunk s' = (find_chunk s)(h := None)" by blast
next
  fix s h c h' c'
  assume ok: "pools_ok L k s" and "find_chunk s h = Some c" "find_chunk s h' = Some c'"
    and "h \<noteq> h'" "mc_memType c = mc_memType c'"
  moreover have "pool_inv mt (pool_limit L mt) (get_pool mt s)" for mt using ok by (simp add: pools_ok_def)
  ultimately show "disjoint_ivl (mc_offset c) (mc_size c) (mc_offset c') (mc_size c')"
    unfolding find_chunk_iff [OF ok] by (metis pool_chunks_disjoint)
next
  fix s h c
  assume ok: "pools_ok L k s" and "find_chunk s h = Some c"
  then show "0 < mc_size c"
    using pool_inv_chunk [of "mc_memType c" "pool_limit L (mc_memType c)" _ h c]
    by (auto simp: find_chunk_iff [OF ok] pools_ok_def)
qed

text \<open>With every chunk released, both pools are as \<open>selfCheck\<close> wants them: empty free lists, offset 0.\<close>

definition pool_clean :: "MemoryPool \<Rightarrow> bool" where
  "pool_clean p \<longleftrightarrow> freePool p = [] \<and> \<not> curMemOffset p > 0"

lemma no_chunks_clean:
  assumes ok: "pools_ok L k ps" and "find_chunk ps = Map.empty"
  shows "pool_clean (get_pool mt ps)"
proof -
  have inv: "pool_inv mt (pool_limit L mt) (get_pool mt ps)" using ok by (simp add: pools_ok_def)
  have "allocatedChunks (get_pool mt ps) = []"
  proof (rule ccontr)
    assume "allocatedChunks (get_pool mt ps) \<noteq> []"
    then obtain i c where "(i, c) \<in> set (allocatedChunks (get_pool mt ps))"
      by (metis list.set_intros(1) neq_Nil_conv surj_pair)
    with pool_chunk_type [OF ok this] find_chunk_iff [OF ok] assms(2) show False by (metis option.distinct(1))
  qed
  with inv tiles_all_free [of "freePool (get_pool mt ps)" "curMemOffset (get_pool mt ps)"]
  show ?thesis by (auto simp: pool_inv_def pool_blocks_def pool_clean_def)
qed

section \<open>Use counts\<close>

lemma set_inUse_blocks:
  "map chunk_block (allocatedChunks (set_inUse cid n p)) = map chunk_block (allocatedChunks p)"
  "map fst (allocatedChunks (set_inUse cid n p)) = map fst (allocatedChunks p)"
  "freePool (set_inUse cid n p) = freePool p" "curMemOffset (set_inUse cid n p) = curMemOffset p"
  "memUsed (set_inUse cid n p) = memUsed p"
  by (auto simp: set_inUse_def chunk_block_def)

lemma set_inUse_mem:
  "(i, c) \<in> set (allocatedChunks (set_inUse cid n p)) \<longleftrightarrow>
     (\<exists>c0. (i, c0) \<in> set (allocatedChunks p) \<and> c = (if i = cid then c0\<lparr>mc_inUse := n\<rparr> else c0))"
  by (force simp: set_inUse_def)

lemma set_inUse_inv: "pool_inv mt lim p \<Longrightarrow> pool_inv mt lim (set_inUse cid n p)"
proof -
  assume inv: "pool_inv mt lim p"
  have "chunk_ok mt lim c" if c: "(i, c) \<in> set (allocatedChunks (set_inUse cid n p))" for i c
  proof -
    obtain c0 where "(i, c0) \<in> set (allocatedChunks p)" "c = (if i = cid then c0\<lparr>mc_inUse := n\<rparr> else c0)"
      using c set_inUse_mem by blast
    moreover from this(1) inv have "chunk_ok mt lim c0" by (auto simp: pool_inv_def)
    ultimately show ?thesis by (simp add: chunk_ok_def)
  qed
  with inv show ?thesis by (auto simp: pool_inv_def pool_blocks_def set_inUse_blocks)
qed

lemma update_inUse_pool: "get_pool mt (update_inUse cid n ps) = set_inUse cid n (get_pool mt ps)"
  by (cases mt) (simp_all add: update_inUse_def)

lemma chunk_ids_set_inUse [simp]: "chunk_ids (set_inUse cid n p) = chunk_ids p"
  unfolding chunk_ids_def by (metis set_inUse_blocks(2) set_map)

lemma update_inUse_ok:
  assumes ok: "pools_ok L k ps" and c: "find_chunk ps cid = Some c"
  shows "pools_ok L k (update_inUse cid n ps) \<and>
    find_chunk (update_inUse cid n ps) = (find_chunk ps)(cid \<mapsto> c\<lparr>mc_inUse := n\<rparr>)"
proof -
  let ?ps = "update_inUse cid n ps"
  have next_eq: "nextChunk ?ps = nextChunk ps" by (simp add: update_inUse_def)
  have ok': "pools_ok L k ?ps"
    unfolding pools_ok_def update_inUse_pool next_eq chunk_ids_set_inUse set_inUse_blocks(4)
    using ok unfolding pools_ok_def by (intro conjI allI set_inUse_inv) blast+
  have "find_chunk ?ps i = Some e \<longleftrightarrow> ((find_chunk ps)(cid \<mapsto> c\<lparr>mc_inUse := n\<rparr>)) i = Some e" for i e
  proof -
    have "find_chunk ?ps i = Some e \<longleftrightarrow>
        (\<exists>c0. (i, c0) \<in> set (allocatedChunks (get_pool (mc_memType e) ps)) \<and> e = (if i = cid then c0\<lparr>mc_inUse := n\<rparr> else c0))"
      by (simp add: find_chunk_iff [OF ok'] update_inUse_pool set_inUse_mem)
    also have "\<dots> \<longleftrightarrow> (\<exists>c0. find_chunk ps i = Some c0 \<and> e = (if i = cid then c0\<lparr>mc_inUse := n\<rparr> else c0))"
      by (auto simp: find_chunk_iff [OF ok])
    also have "\<dots> \<longleftrightarrow> ((find_chunk ps)(cid \<mapsto> c\<lparr>mc_inUse := n\<rparr>)) i = Some e"
      using c by (cases "i = cid") auto
    finally show ?thesis .
  qed
  then have "find_chunk ?ps = (find_chunk ps)(cid \<mapsto> c\<lparr>mc_inUse := n\<rparr>)" by (intro ext option_eqI)
  with ok' show ?thesis by (rule conjI)
qed

lemma pools_ok_locked:
  "pools_ok L k ps \<Longrightarrow> 0 \<le> k' \<Longrightarrow> curMemOffset (cmxPool ps) + k' * CMX_SLICE_SIZE \<le> L \<Longrightarrow> pools_ok L k' ps"
  by (simp add: pools_ok_def)

lemma find_chunk_bounds:
  assumes ok: "pools_ok L k ps" and c: "find_chunk ps cid = Some c"
  shows "0 \<le> mc_offset c \<and> 0 < mc_size c \<and>
    (if mc_memType c = DDR then mc_pointer c = mc_offset c \<and> mc_offset c + mc_size c \<le> DDR_MAX_SIZE
     else mc_pointer c = L - mc_offset c - mc_size c \<and> k * CMX_SLICE_SIZE \<le> mc_pointer c)"
proof -
  let ?p = "get_pool (mc_memType c) ps"
  have inv: "pool_inv (mc_memType c) (pool_limit L (mc_memType c)) ?p" using ok by (simp add: pools_ok_def)
  have mem: "(cid, c) \<in> set (allocatedChunks ?p)" using c find_chunk_iff [OF ok] by simp
  note b = pool_inv_chunk [OF inv mem]
  have "chunk_ok (mc_memType c) (pool_limit L (mc_memType c)) c" using inv mem by (auto simp: pool_inv_def)
  then show ?thesis
    using b inv ok by (cases "mc_memType c") (auto simp: chunk_ok_def pool_limit_def pool_inv_def pools_ok_def)
qed

lemma pools_ok_clear:
  "0 \<le> L \<Longrightarrow> L < 2 ^ 64 - 1 \<Longrightarrow> pools_ok L 0 \<lparr>ddrPool = pool_clear, cmxPool = pool_clear, nextChunk = n\<rparr> \<and>
    find_chunk \<lparr>ddrPool = pool_clear, cmxPool = pool_clear, nextChunk = n\<rparr> = Map.empty"
proof -
  assume L: "0 \<le> L" "L < 2 ^ 64 - 1"
  let ?ps = "\<lparr>ddrPool = pool_clear, cmxPool = pool_clear, nextChunk = n\<rparr>"
  have p: "get_pool mt ?ps = pool_clear" for mt by (cases mt) simp_all
  have "pool_inv mt (pool_limit L mt) pool_clear" for mt
    using L by (intro pool_inv_clear) (simp add: pool_limit_def DDR_MAX_SIZE_def)
  moreover have "chunk_ids pool_clear = {}" "curMemOffset pool_clear = 0"
    by (simp_all add: chunk_ids_def pool_clear_def)
  ultimately have "pools_ok L 0 ?ps" using L by (simp only: pools_ok_def p) simp
  moreover have "find_chunk ?ps = Map.empty" by (simp add: find_chunk_def pool_clear_def fun_eq_iff)
  ultimately show ?thesis by simp
qed

section \<open>Properties\<close>

text \<open>
  \<open>allocateMem\<close> on well-formed pools never asserts. It gives up, changing nothing, exactly
  when no free block is large enough and the request exceeds what is left at the end of the pool
  (for CMX: below the slices of the locked SHAVEs). Otherwise it adds one fresh chunk of the
  requested type, size and use count, keeps every other chunk and keeps the pools well-formed.
\<close>

theorem allocateMem_contract:
  assumes "pools_ok L k ps" "0 < sz"
  shows "if fits_free mt sz ps \<or> sz \<le> space_left L k mt ps
    then \<exists>ps' c. allocateMem L k mt sz n ps = Inr (Some (nextChunk ps), ps') \<and> pools_ok L k ps' \<and>
       find_chunk ps (nextChunk ps) = None \<and> find_chunk ps' = (find_chunk ps)(nextChunk ps \<mapsto> c) \<and>
       mc_memType c = mt \<and> mc_size c = sz \<and> mc_inUse c = n
    else allocateMem L k mt sz n ps = Inr (None, ps)"
  using allocateMem_ok [OF assms, of mt n] by auto

theorem allocateMem_contract_witness:
  "pools_ok 262144 1 initialPools \<and> \<not> fits_free CMX 131073 initialPools \<and>
   allocateMem 262144 1 CMX 131073 1 initialPools = Inr (None, initialPools) \<and>
   (\<exists>ps'. allocateMem 262144 1 CMX 131072 1 initialPools = Inr (Some 0, ps'))"
proof -
  have ok: "pools_ok 262144 1 initialPools" by (rule pools_ok_initial) (simp_all add: CMX_SLICE_SIZE_def)
  have s: "space_left 262144 1 CMX initialPools = 131072"
    by (simp add: space_left_def pool_limit_def initialPools_def pool_clear_def CMX_SLICE_SIZE_def)
  have f: "\<not> fits_free CMX 131073 initialPools"
    by (simp add: fits_free_def initialPools_def pool_clear_def)
  have "nextChunk initialPools = 0" by (simp add: initialPools_def)
  with allocateMem_contract [OF ok, of 131073 CMX 1] allocateMem_contract [OF ok, of 131072 CMX 1] s f ok
  show ?thesis by auto
qed

text \<open>Releasing a list of chunks, as the stages do one after the other.\<close>

fun freeMems :: "nat list \<Rightarrow> Pools \<Rightarrow> Pools result" where
  "freeMems [] ps = Inr ps"
| "freeMems (cid # cids) ps = bindE (freeMem cid ps) (freeMems cids)"

lemma freeMems_release_all: "freeMems cids ps = pools.release_all cids ps"
  by (induction cids arbitrary: ps) (auto intro: arg_cong [where f = "bindE _"])

text \<open>
  C5. No order of releases fragments the pools for good: releasing all live chunks, in any
  order, succeeds and leaves both pools empty, with no free block and offset 0 (what
  \<open>selfCheck\<close> looks for).
\<close>

theorem free_in_any_order_empties_pools:
  assumes "pools_ok L k ps" "distinct cids" "set cids = dom (find_chunk ps)"
  shows "\<exists>ps'. freeMems cids ps = Inr ps' \<and> pools_ok L k ps' \<and> find_chunk ps' = Map.empty \<and>
    pool_clean (ddrPool ps') \<and> pool_clean (cmxPool ps')"
proof -
  obtain ps' where r: "freeMems cids ps = Inr ps'" "pools_ok L k ps'" "find_chunk ps' = find_chunk ps |` (- set cids)"
    using pools.release_all_ok [OF assms(1,2)] assms(3) by (auto simp: freeMems_release_all)
  have e: "find_chunk ps' = Map.empty"
    unfolding r(3) assms(3) by (simp add: restrict_map_def fun_eq_iff domIff)
  with r no_chunks_clean [OF r(2) e, of DDR] no_chunks_clean [OF r(2) e, of CMX] show ?thesis by auto
qed

text \<open>Three chunks, released middle first.\<close>

definition ex_pools :: Pools where
  "ex_pools = snd (projr (allocateMem 262144 0 DDR 192 1 (snd (projr (allocateMem 262144 0 DDR 128 1
     (snd (projr (allocateMem 262144 0 DDR 64 1 initialPools))))))))"

theorem free_in_any_order_empties_pools_witness:
  "\<exists>ps'. freeMems [1, 0, 2] ex_pools = Inr ps' \<and> pool_clean (ddrPool ps') \<and> pool_clean (cmxPool ps')"
proof -
  have i: "pools_ok 262144 0 initialPools" by (rule pools_ok_initial) simp_all
  have step: "\<exists>ps' c. allocateMem 262144 0 DDR sz 1 ps = Inr (Some (nextChunk ps), ps') \<and> pools_ok 262144 0 ps' \<and>
      find_chunk ps' = (find_chunk ps)(nextChunk ps \<mapsto> c)"
    if "pools_ok 262144 0 ps" "0 < sz" "sz \<le> space_left 262144 0 DDR ps" for ps and sz :: int
    using allocateMem_ok [OF that(1,2), of DDR 1] that(3) by auto
  let ?p1 = "snd (projr (allocateMem 262144 0 DDR 64 1 initialPools))"
  let ?p2 = "snd (projr (allocateMem 262144 0 DDR 128 1 ?p1))"
  have e: "space_left 262144 0 DDR initialPools = 536870912" "space_left 262144 0 DDR ?p1 = 536870848"
    "space_left 262144 0 DDR ?p2 = 536870720" "nextChunk initialPools = 0" "nextChunk ?p1 = 1" "nextChunk ?p2 = 2"
    by code_simp+
  have f: "find_chunk initialPools = Map.empty"
    by (simp add: find_chunk_def initialPools_def pool_clear_def fun_eq_iff)
  from step [OF i, of 64] e f obtain c1 where p1: "pools_ok 262144 0 ?p1" "find_chunk ?p1 = [0 \<mapsto> c1]" by auto
  from step [OF p1(1), of 128] e p1(2) obtain c2 where p2: "pools_ok 262144 0 ?p2" "find_chunk ?p2 = [0 \<mapsto> c1, 1 \<mapsto> c2]" by auto
  from step [OF p2(1), of 192] e p2(2) obtain c3 where p3: "pools_ok 262144 0 ex_pools" "find_chunk ex_pools = [0 \<mapsto> c1, 1 \<mapsto> c2, 2 \<mapsto> c3]"
    unfolding ex_pools_def by auto
  have "set [1, 0, 2] = dom (find_chunk ex_pools)" unfolding p3(2) by auto
  from free_in_any_order_empties_pools [OF p3(1) _ this] show ?thesis by auto
qed

end
