(* ===== verification/VpuGraph.thy ===== *)
theory VpuGraph
  imports VpuDesc VpuPool
begin

text \<open>
  The part of the VPU model graph the allocator works on: data nodes with their shared-memory
  edges and stages (\<open>vpu/model/data.hpp\<close>, \<open>vpu/model/edges.hpp\<close>, \<open>src/model/data.cpp\<close> and
  \<open>src/model/stage.cpp\<close> of \<open>src/src/vpu/graph_transformer\<close>). A \<open>Handle\<close> is the number of its
  node. The parent edges of data nodes form a forest; a walk over it takes fuel, and more fuel
  than there are data nodes is never used up (\<open>strides_of_fuel\<close>).
\<close>

section \<open>Nodes and edges\<close>

datatype DataUsage = DU_Input | DU_Output | DU_Const | DU_Intermediate | DU_Temp | DU_Fake
datatype DataLocation = Loc_None | Loc_Input | Loc_Output | Loc_Blob | Loc_BSS | Loc_CMX
datatype SharedDataMode = ROI | Reshape
datatype StageCategory = SC_SHAVE | SC_HW | SC_DMA | SC_Special
datatype StageSHAVEsRequirements = NotNeeded | OnlyOne | TwoOrOne | CanBeLimited | NeedMax

record SharedAllocation =
  sa_parent :: nat
  sa_child :: nat
  sa_mode :: SharedDataMode
  sa_offset :: DimValues

record DataNode =
  dn_usage :: DataUsage
  dn_desc :: DataDesc
  dn_requiredStrides :: StridesRequirement
  dn_producerEdge :: "(nat \<times> int) option"
  dn_numConsumers :: int
  dn_parentDataEdge :: "SharedAllocation option"
  dn_childDataEdges :: "SharedAllocation list"
  dn_hasContent :: bool
  dn_unbatched :: bool
  dn_memReqs :: MemoryType
  dn_location :: DataLocation
  dn_memoryOffset :: int
  dn_ioBufferOffset :: "int option"

record Stage =
  sg_category :: StageCategory
  sg_reqs :: StageSHAVEsRequirements
  sg_prev :: "nat list"
  sg_next :: "nat list"
  sg_inputs :: "nat list"
  sg_outputs :: "nat list"
  sg_tempBuffers :: "nat list"
  sg_parentStage :: "nat option"
  sg_injected :: "nat list"
  sg_numSHAVEs :: int

record Graph =
  g_data :: "nat \<Rightarrow> DataNode"
  g_stage :: "nat \<Rightarrow> Stage"
  g_datas :: "nat list"
  g_stages :: "nat list"
  g_numCMXSlices :: int
  g_numSHAVEs :: int

definition upd_data :: "nat \<Rightarrow> (DataNode \<Rightarrow> DataNode) \<Rightarrow> Graph \<Rightarrow> Graph" where
  "upd_data d f g = g\<lparr>g_data := (g_data g)(d := f (g_data g d))\<rparr>"

definition upd_stage :: "nat \<Rightarrow> (Stage \<Rightarrow> Stage) \<Rightarrow> Graph \<Rightarrow> Graph" where
  "upd_stage s f g = g\<lparr>g_stage := (g_stage g)(s := f (g_stage g s))\<rparr>"

definition walk_fuel :: "Graph \<Rightarrow> nat" where
  "walk_fuel g = Suc (length (g_datas g))"

section \<open>Reading a data node\<close>

fun top_parent :: "nat \<Rightarrow> Graph \<Rightarrow> nat \<Rightarrow> nat result" where
  "top_parent 0 g d = Inl OutOfFuel"
| "top_parent (Suc n) g d =
     (case dn_parentDataEdge (g_data g d) of None \<Rightarrow> Inr d | Some e \<Rightarrow> top_parent n g (sa_parent e))"

definition getTopParentData :: "Graph \<Rightarrow> nat \<Rightarrow> nat result" where
  "getTopParentData g d = top_parent (walk_fuel g) g d"

fun strides_of :: "nat \<Rightarrow> Graph \<Rightarrow> nat \<Rightarrow> DimValues result" where
  "strides_of 0 g d = Inl OutOfFuel"
| "strides_of (Suc n) g d =
     (case dn_parentDataEdge (g_data g d) of
        Some e \<Rightarrow> if sa_mode e = ROI then strides_of n g (sa_parent e)
                 else calcStrides (dn_desc (g_data g d)) (dn_requiredStrides (g_data g d))
      | None \<Rightarrow> calcStrides (dn_desc (g_data g d)) (dn_requiredStrides (g_data g d)))"

definition data_strides :: "Graph \<Rightarrow> nat \<Rightarrow> DimValues result" where
  "data_strides g d = strides_of (walk_fuel g) g d"

definition totalByteSize :: "Graph \<Rightarrow> nat \<Rightarrow> int result" where
  "totalByteSize g d =
     bindE (ie_assert (dn_parentDataEdge (g_data g d) = None)) (\<lambda>_.
     bindE (data_strides g d) (calcTotalByteSize (dn_desc (g_data g d))))"

fun elem_offset_loop :: "DataDesc \<Rightarrow> DimValues \<Rightarrow> (Dim \<times> int) list \<Rightarrow> int \<Rightarrow> int result" where
  "elem_offset_loop desc strides [] res = Inr res"
| "elem_offset_loop desc strides ((d, x) # ps) res =
     bindE (ie_assert (order_hasDim (dd_dimsOrder desc) d)) (\<lambda>_.
     bindE (desc_dim desc d) (\<lambda>n.
     bindE (ie_assert (x < n)) (\<lambda>_.
     bindE (dv_at strides d) (\<lambda>s. elem_offset_loop desc strides ps (res + x * s)))))"

definition elemOffset :: "Graph \<Rightarrow> nat \<Rightarrow> DimValues \<Rightarrow> int result" where
  "elemOffset g d coord =
     bindE (data_strides g d) (\<lambda>strides.
     bindE (dv_iterate coord) (\<lambda>ps. elem_offset_loop (dn_desc (g_data g d)) strides ps 0))"

definition lastElemOffset :: "Graph \<Rightarrow> nat \<Rightarrow> int result" where
  "lastElemOffset g d =
     bindE (dv_iterate (dd_dims (dn_desc (g_data g d)))) (\<lambda>ps.
     bindE (set_all (map (\<lambda>(e, n). (e, n - 1)) ps) dv_empty) (elemOffset g d))"

definition data_checkStrides :: "Graph \<Rightarrow> nat \<Rightarrow> StridesRequirement \<Rightarrow> bool result" where
  "data_checkStrides g d reqs =
     bindE (data_strides g d) (\<lambda>strides. checkStrides (dn_desc (g_data g d)) strides reqs)"

section \<open>Updating a data node\<close>

fun merge_reqs_loop :: "StridesRequirement \<Rightarrow> StridesRequirement \<Rightarrow> nat \<Rightarrow> int \<Rightarrow> StridesRequirement \<Rightarrow> StridesRequirement result" where
  "merge_reqs_loop prevReqs newReqs 0 i merged = Inr merged"
| "merge_reqs_loop prevReqs newReqs (Suc n) i merged =
     bindE (strides_get prevReqs i) (\<lambda>prevReq.
     bindE (strides_get newReqs i) (\<lambda>newReq.
     bindE (if prevReq = AnyStride \<and> newReq = AnyStride then Inr merged
            else if prevReq \<noteq> AnyStride then strides_add i prevReq merged
            else strides_add i newReq merged)
       (merge_reqs_loop prevReqs newReqs n (i + 1))))"

definition updateRequiredStrides :: "nat \<Rightarrow> StridesRequirement \<Rightarrow> Graph \<Rightarrow> Graph result" where
  "updateRequiredStrides d newReqs g =
     (let node = g_data g d; prevReqs = dn_requiredStrides node in
      bindE (ie_assert (dn_parentDataEdge node = None)) (\<lambda>_.
      bindE (ie_assert (dn_childDataEdges node = [])) (\<lambda>_.
      let fixedRequirements = (if dv_is_empty (sr_fixedStrides prevReqs) then newReqs else prevReqs) in
      bindE (if \<not> dv_is_empty (sr_fixedStrides fixedRequirements) then Inr fixedRequirements
             else merge_reqs_loop prevReqs newReqs (nat (desc_numDims (dn_desc node))) 0 strides_default) (\<lambda>mergedReqs.
      let g' = upd_data d (\<lambda>n. n\<lparr>dn_requiredStrides := mergedReqs\<rparr>) g in
      bindE (data_checkStrides g' d prevReqs) (\<lambda>b1.
      bindE (ie_assert b1) (\<lambda>_.
      bindE (data_checkStrides g' d newReqs) (\<lambda>b2.
      bindE (ie_assert b2) (\<lambda>_. Inr g'))))))))"

definition clearAllocation :: "nat \<Rightarrow> Graph \<Rightarrow> Graph" where
  "clearAllocation d = upd_data d (\<lambda>n. n\<lparr>dn_location := Loc_None, dn_memoryOffset := 0, dn_ioBufferOffset := None\<rparr>)"

definition setMemReqs :: "nat \<Rightarrow> MemoryType \<Rightarrow> Graph \<Rightarrow> Graph result" where
  "setMemReqs d mem g =
     bindE (if mem \<noteq> DDR then ie_assert (dn_usage (g_data g d) = DU_Intermediate) else Inr ())
       (\<lambda>_. Inr (upd_data d (\<lambda>n. n\<lparr>dn_memReqs := mem\<rparr>) g))"

definition setIOInfo :: "nat \<Rightarrow> DataLocation \<Rightarrow> int \<Rightarrow> Graph \<Rightarrow> Graph result" where
  "setIOInfo d location ioBufferOffset g =
     (let usage = dn_usage (g_data g d) in
      bindE (ie_assert (usage = DU_Input \<or> usage = DU_Output)) (\<lambda>_.
      bindE (if usage = DU_Input then ie_assert (location = Loc_Input)
             else if usage = DU_Output then ie_assert (location = Loc_Output) else Inr ()) (\<lambda>_.
      Inr (upd_data d (\<lambda>n. n\<lparr>dn_location := location, dn_memoryOffset := 0,
                            dn_ioBufferOffset := Some ioBufferOffset\<rparr>) g))))"

definition setAllocationInfo :: "nat \<Rightarrow> DataLocation \<Rightarrow> int \<Rightarrow> Graph \<Rightarrow> Graph result" where
  "setAllocationInfo d location memoryOffset g =
     (let usage = dn_usage (g_data g d) in
      bindE (ie_assert (usage = DU_Const \<or> usage = DU_Intermediate \<or> usage = DU_Temp)) (\<lambda>_.
      bindE (if usage = DU_Const then ie_assert (location = Loc_Blob)
             else if usage = DU_Temp then ie_assert (location = Loc_BSS) else Inr ()) (\<lambda>_.
      Inr (upd_data d (\<lambda>n. n\<lparr>dn_location := location, dn_memoryOffset := memoryOffset\<rparr>) g))))"

text \<open>
  \<open>loopOverData\<close> with an operation that always answers \<open>NextChild\<close>, the only use the allocator
  makes of it: the node, then its children in order, each followed by its own children.
\<close>

fun loop_edges :: "nat \<Rightarrow> (nat \<Rightarrow> 's \<Rightarrow> 's result) \<Rightarrow> Graph \<Rightarrow> SharedAllocation list \<Rightarrow> 's \<Rightarrow> 's result" where
  "loop_edges n f g [] s = Inr s"
| "loop_edges 0 f g (e # es) s = Inl OutOfFuel"
| "loop_edges (Suc n) f g (e # es) s =
     bindE (f (sa_child e) s) (\<lambda>s.
     bindE (loop_edges n f g (dn_childDataEdges (g_data g (sa_child e))) s) (\<lambda>s.
     loop_edges (Suc n) f g es s))"

definition loopOverData :: "Graph \<Rightarrow> nat \<Rightarrow> (nat \<Rightarrow> 's \<Rightarrow> 's result) \<Rightarrow> 's \<Rightarrow> 's result" where
  "loopOverData g d f s =
     bindE (f d s) (\<lambda>s. loop_edges (walk_fuel g) f g (dn_childDataEdges (g_data g d)) s)"

section \<open>Stages\<close>

definition setNumSHAVEs :: "nat \<Rightarrow> int \<Rightarrow> Graph \<Rightarrow> Graph result" where
  "setNumSHAVEs s n g =
     bindE (case sg_parentStage (g_stage g s) of
              None \<Rightarrow> ie_assert (n \<le> g_numSHAVEs g)
            | Some p \<Rightarrow> ie_assert (n = sg_numSHAVEs (g_stage g p))) (\<lambda>_.
     Inr (fold (\<lambda>c. upd_stage c (\<lambda>st. st\<lparr>sg_numSHAVEs := n\<rparr>)) (sg_injected (g_stage g s))
            (upd_stage s (\<lambda>st. st\<lparr>sg_numSHAVEs := n\<rparr>) g)))"

section \<open>Fuel\<close>

text \<open>
  A graph is a forest when a rank below the number of data nodes decreases from every node to
  its parent and from no child to another than its own parent edge.
\<close>

definition data_forest :: "Graph \<Rightarrow> (nat \<Rightarrow> nat) \<Rightarrow> bool" where
  "data_forest g rank \<longleftrightarrow> (\<forall>d. rank d \<le> length (g_datas g)) \<and>
     (\<forall>d e. dn_parentDataEdge (g_data g d) = Some e \<longrightarrow> sa_child e = d \<and> rank (sa_parent e) < rank d) \<and>
     (\<forall>d. \<forall>e \<in> set (dn_childDataEdges (g_data g d)). sa_parent e = d \<and>
        dn_parentDataEdge (g_data g (sa_child e)) = Some e)"

lemma top_parent_fuel:
  assumes "data_forest g rank" "rank d < n"
  shows "\<exists>p. top_parent n g d = Inr p \<and> dn_parentDataEdge (g_data g p) = None"
  using assms(2)
proof (induction n arbitrary: d)
  case (Suc n)
  then show ?case using assms(1) by (fastforce simp: data_forest_def split: option.splits)
qed simp

lemma strides_of_fuel:
  assumes "data_forest g rank" "rank d < n" "rank d < m"
  shows "strides_of n g d = strides_of m g d"
  using assms(2,3)
proof (induction n arbitrary: d m)
  case (Suc n)
  then obtain m' where m: "m = Suc m'" by (cases m) auto
  show ?case
  proof (cases "dn_parentDataEdge (g_data g d)")
    case (Some e)
    with assms(1) have "rank (sa_parent e) < rank d" by (auto simp: data_forest_def)
    with Suc.IH [of "sa_parent e" m'] Suc.prems Some m show ?thesis by simp
  qed (simp add: m)
qed simp

section \<open>What allocation leaves alone\<close>

text \<open>\<open>shape\<close> hides the fields that say where a node is placed.\<close>

definition shape :: "DataNode \<Rightarrow> DataNode" where
  "shape n = n\<lparr>dn_memReqs := DDR, dn_location := Loc_None, dn_memoryOffset := 0, dn_ioBufferOffset := None\<rparr>"

definition same_structure :: "Graph \<Rightarrow> Graph \<Rightarrow> bool" where
  "same_structure g g' \<longleftrightarrow> (\<forall>d. shape (g_data g d) = shape (g_data g' d)) \<and> g_datas g = g_datas g' \<and>
     g_numCMXSlices g = g_numCMXSlices g' \<and> g_numSHAVEs g = g_numSHAVEs g'"

lemma shape_fields:
  assumes "shape m = shape n"
  shows "dn_usage m = dn_usage n" "dn_desc m = dn_desc n" "dn_requiredStrides m = dn_requiredStrides n"
    "dn_parentDataEdge m = dn_parentDataEdge n" "dn_childDataEdges m = dn_childDataEdges n"
    "dn_numConsumers m = dn_numConsumers n"
proof -
  have "dn_usage (shape x) = dn_usage x" "dn_desc (shape x) = dn_desc x"
    "dn_requiredStrides (shape x) = dn_requiredStrides x" "dn_parentDataEdge (shape x) = dn_parentDataEdge x"
    "dn_childDataEdges (shape x) = dn_childDataEdges x" "dn_numConsumers (shape x) = dn_numConsumers x" for x
    by (simp_all add: shape_def)
  with assms show "dn_usage m = dn_usage n" "dn_desc m = dn_desc n" "dn_requiredStrides m = dn_requiredStrides n"
    "dn_parentDataEdge m = dn_parentDataEdge n" "dn_childDataEdges m = dn_childDataEdges n"
    "dn_numConsumers m = dn_numConsumers n" by metis+
qed

lemma same_structure_refl [simp]: "same_structure g g"
  by (simp add: same_structure_def)

lemma same_structure_trans: "same_structure g g' \<Longrightarrow> same_structure g' g'' \<Longrightarrow> same_structure g g''"
  by (simp add: same_structure_def)

lemma same_structure_fields:
  assumes "same_structure g g'"
  shows "dn_usage (g_data g' d) = dn_usage (g_data g d)" "dn_desc (g_data g' d) = dn_desc (g_data g d)"
    "dn_requiredStrides (g_data g' d) = dn_requiredStrides (g_data g d)"
    "dn_parentDataEdge (g_data g' d) = dn_parentDataEdge (g_data g d)"
    "dn_childDataEdges (g_data g' d) = dn_childDataEdges (g_data g d)"
    "dn_numConsumers (g_data g' d) = dn_numConsumers (g_data g d)" "walk_fuel g' = walk_fuel g"
    "g_numCMXSlices g' = g_numCMXSlices g" "g_numSHAVEs g' = g_numSHAVEs g"
  using assms shape_fields [of "g_data g' d" "g_data g d"] by (simp_all add: same_structure_def walk_fuel_def)

lemma same_structure_strides:
  assumes "same_structure g g'"
  shows "strides_of n g' d = strides_of n g d"
proof (induction n arbitrary: d)
  case (Suc n)
  then show ?case by (auto simp: same_structure_fields [OF assms] split: option.split)
qed simp

lemma same_structure_size: "same_structure g g' \<Longrightarrow> totalByteSize g' d = totalByteSize g d"
  by (simp add: totalByteSize_def data_strides_def same_structure_fields same_structure_strides)

lemma same_structure_upd:
  "(\<And>n. shape (f n) = shape n) \<Longrightarrow> same_structure g (upd_data d f g)"
  by (simp add: same_structure_def upd_data_def)

lemma setAllocationInfo_Inr:
  assumes "setAllocationInfo d loc off g = Inr g'"
  shows "same_structure g g' \<and> (\<forall>d'. d' \<noteq> d \<longrightarrow> g_data g' d' = g_data g d') \<and>
    dn_location (g_data g' d) = loc \<and> dn_memoryOffset (g_data g' d) = off \<and>
    dn_memReqs (g_data g' d) = dn_memReqs (g_data g d)"
proof -
  have "g' = upd_data d (\<lambda>n. n\<lparr>dn_location := loc, dn_memoryOffset := off\<rparr>) g"
    using assms by (auto simp: setAllocationInfo_def Let_def)
  then show ?thesis
    using same_structure_upd [of "\<lambda>n. n\<lparr>dn_location := loc, dn_memoryOffset := off\<rparr>" g d]
    by (simp add: upd_data_def shape_def)
qed

lemma setIOInfo_Inr:
  assumes "setIOInfo d loc off g = Inr g'"
  shows "same_structure g g' \<and> (\<forall>d'. d' \<noteq> d \<longrightarrow> g_data g' d' = g_data g d')"
proof -
  have "g' = upd_data d (\<lambda>n. n\<lparr>dn_location := loc, dn_memoryOffset := 0, dn_ioBufferOffset := Some off\<rparr>) g"
    using assms by (auto simp: setIOInfo_def Let_def)
  then show ?thesis
    using same_structure_upd [of "\<lambda>n. n\<lparr>dn_location := loc, dn_memoryOffset := 0, dn_ioBufferOffset := Some off\<rparr>" g d]
    by (simp add: upd_data_def shape_def)
qed

text \<open>Edges agree on both ends, and every descriptor is well-formed.\<close>

definition graph_ok :: "Graph \<Rightarrow> bool" where
  "graph_ok g \<longleftrightarrow> (\<forall>d. desc_ok (dn_desc (g_data g d)) \<and> reqs_ok (dn_requiredStrides (g_data g d)) \<and>
     (\<forall>e \<in> set (dn_childDataEdges (g_data g d)). dn_parentDataEdge (g_data g (sa_child e)) = Some e))"

lemma graph_ok_same: "graph_ok g \<Longrightarrow> same_structure g g' \<Longrightarrow> graph_ok g'"
  by (simp add: graph_ok_def same_structure_fields)

lemma totalByteSize_pos:
  assumes "graph_ok g" "totalByteSize g d = Inr n"
  shows "0 < n"
proof -
  let ?desc = "dn_desc (g_data g d)" and ?reqs = "dn_requiredStrides (g_data g d)"
  let ?perm = "order_toPermutation (dd_dimsOrder ?desc)"
  have ok: "desc_ok ?desc" "reqs_ok ?reqs" using assms(1) by (simp_all add: graph_ok_def)
  have "dn_parentDataEdge (g_data g d) = None" using assms(2) by (simp add: totalByteSize_def)
  then obtain strides where s: "calcStrides ?desc ?reqs = Inr strides" "calcTotalByteSize ?desc strides = Inr n"
    using assms(2) by (auto simp: totalByteSize_def data_strides_def walk_fuel_def)
  have dom: "dom (dv_map strides) = set ?perm" using calcStrides_ok [OF ok] s(1) by auto
  have "0 < length ?perm" using desc_ok_perm(1) [OF ok(1)] by simp
  with calcStrides_pos [OF ok s(1), of "length ?perm - 1"] desc_ok_perm(1) [OF ok(1)]
  have "0 < stride_of strides (last ?perm)" by (simp add: last_conv_nth)
  with desc_ok_dim [OF ok(1), of "last ?perm"] desc_ok_perm(1) [OF ok(1)]
    calcTotalByteSize_eq [OF ok(1) dom] s(2) show ?thesis by simp
qed

end
