(* ===== verification/VpuModel.thy ===== *)
theory VpuModel
  imports VpuGraph "HOL-Library.List_Lexorder" "HOL-Library.Char_ord"
begin

text \<open>
  The VPU model graph and the operations that build and rewrite it (\<open>src/model/model.cpp\<close> of
  \<open>src/src/vpu/graph_transformer\<close>): data nodes, stages and the edges between them, the counts of
  edges from stage to stage that the stage order is computed from, and that order itself. A
  \<open>Handle\<close> is the number of its object; every kind of object has a store of its own, and the
  \<open>List\<close> and \<open>PtrList\<close> members say which numbers are in use. The number of a stage stands for its
  address, which \<open>StageNameCmp\<close> compares, and is chosen by the caller; data and edges are numbered
  in order of creation, since nothing depends on their addresses.
\<close>

section \<open>Nodes and edges\<close>

datatype SharedDataOrder = ParentWritesToChild | ChildWritesToParent

text \<open>
  An enumerator of \<open>StageType\<close> is its value; the special operations count up from
  \<open>__SPECIAL_START__\<close>. Named here are those the model graph tests.
\<close>

type_synonym StageType = int

definition T_Concat :: StageType where "T_Concat = -100000 + 6"
definition T_Split :: StageType where "T_Split = -100000 + 7"
definition T_Reshape :: StageType where "T_Reshape = -100000 + 8"
definition T_Expand :: StageType where "T_Expand = -100000 + 9"
definition T_Shrink :: StageType where "T_Shrink = -100000 + 10"
definition T_None :: StageType where "T_None = 5"

lemmas StageType_defs = T_Concat_def T_Split_def T_Reshape_def T_Expand_def T_Shrink_def T_None_def

record StageInputEdge =
  ed_consumer :: nat
  ed_input :: nat
  ed_inPort :: nat
  ed_inParent :: "nat option"
  ed_inChild :: "nat option"

record StageOutputEdge =
  ed_producer :: nat
  ed_output :: nat
  ed_outPort :: nat
  ed_outParent :: "nat option"
  ed_outChild :: "nat option"

record StageTempBufferEdge =
  ed_stage :: nat
  ed_tempBuffer :: nat
  ed_tempPort :: nat
  ed_tempParent :: "nat option"
  ed_tempChild :: "nat option"

record SharedAllocationEdge =
  ed_parent :: nat
  ed_child :: nat
  ed_connection :: nat
  ed_mode :: SharedDataMode
  ed_order :: SharedDataOrder
  ed_offset :: DimValues

record InjectedStageEdge =
  ed_parentStage :: nat
  ed_childStage :: nat
  ed_stagePort :: nat

record ModelData =
  md_name :: string
  md_usage :: DataUsage
  md_desc :: DataDesc
  md_requiredStrides :: StridesRequirement
  md_producerEdge :: "nat option"
  md_consumerEdges :: "nat list"
  md_tempBufferEdge :: "nat option"
  md_parentDataEdge :: "nat option"
  md_childDataEdges :: "nat list"
  md_content :: "nat option"

text \<open>
  \<open>std::map<Stage, int, StageNameCmp>\<close>, in the order of its keys. \<open>ms_model\<close> says whether the
  handle to the model is set: from the creation of the stage to its destruction.
\<close>

type_synonym StageOrderMap = "(nat \<times> int) list"

record ModelStage =
  ms_name :: string
  ms_type :: StageType
  ms_category :: StageCategory
  ms_inputEdges :: "nat list"
  ms_outputEdges :: "nat list"
  ms_tempBufferEdges :: "nat list"
  ms_parentStageEdge :: "nat option"
  ms_injectedStageEdges :: "nat list"
  ms_prevStages :: StageOrderMap
  ms_nextStages :: StageOrderMap
  ms_index :: int
  ms_model :: bool

text \<open>
  \<open>m_dataList\<close> is \<open>_dataList\<close> and \<open>_dataPtrList\<close>, which always change together; \<open>m_needAlloc\<close> and
  \<open>m_allocBatchSize\<close> are the members of the allocator that the model sets.
\<close>

record Model =
  m_batchSize :: int
  m_allocBatchSize :: int
  m_needAlloc :: bool
  m_data :: "nat \<Rightarrow> ModelData"
  m_dataList :: "nat list"
  m_contentDesc :: "nat \<Rightarrow> DataDesc"
  m_stage :: "nat \<Rightarrow> ModelStage"
  m_stageList :: "nat list"
  m_in :: "nat \<Rightarrow> StageInputEdge"
  m_inList :: "nat list"
  m_out :: "nat \<Rightarrow> StageOutputEdge"
  m_outList :: "nat list"
  m_temp :: "nat \<Rightarrow> StageTempBufferEdge"
  m_tempList :: "nat list"
  m_dataEdge :: "nat \<Rightarrow> SharedAllocationEdge"
  m_dataEdgeList :: "nat list"
  m_stageEdge :: "nat \<Rightarrow> InjectedStageEdge"
  m_stageEdgeList :: "nat list"
  m_initialStages :: "nat list"
  m_resetStageOrder :: bool
  m_orderedStageList :: "nat list"
  m_fresh :: nat

text \<open>The value of \<open>StridesRequirement::empty()\<close>, which every new data object requires.\<close>

definition no_strides :: StridesRequirement where
  "no_strides = \<lparr>sr_map = replicate MAX_DIMS_64 AnyStride, sr_fixedStrides = dv_empty\<rparr>"

lemma strides_empty_eq: "strides_empty = Inr no_strides"
  by (simp add: strides_empty_def strides_add_def strides_default_def no_strides_def index_ok_def
      MAX_DIMS_64_def eval_nat_numeral)

definition mk_ModelData :: "string \<Rightarrow> DataUsage \<Rightarrow> DataDesc \<Rightarrow> ModelData" where
  "mk_ModelData name usage desc = \<lparr>md_name = name, md_usage = usage, md_desc = desc,
     md_requiredStrides = no_strides, md_producerEdge = None, md_consumerEdges = [],
     md_tempBufferEdge = None, md_parentDataEdge = None, md_childDataEdges = [], md_content = None\<rparr>"

definition mk_ModelStage :: ModelStage where
  "mk_ModelStage = \<lparr>ms_name = [], ms_type = T_None, ms_category = SC_SHAVE, ms_inputEdges = [],
     ms_outputEdges = [], ms_tempBufferEdges = [], ms_parentStageEdge = None,
     ms_injectedStageEdges = [], ms_prevStages = [], ms_nextStages = [], ms_index = -1, ms_model = False\<rparr>"

definition default_desc :: DataDesc where
  "default_desc = \<lparr>dd_type = DT_FP16, dd_dimsOrder = DimsOrder 0, dd_dims = dv_empty\<rparr>"

definition mk_Model :: Model where
  "mk_Model = \<lparr>m_batchSize = 1, m_allocBatchSize = 1, m_needAlloc = True,
     m_data = (\<lambda>_. mk_ModelData [] DU_Fake default_desc), m_dataList = [], m_contentDesc = (\<lambda>_. default_desc),
     m_stage = (\<lambda>_. mk_ModelStage), m_stageList = [],
     m_in = (\<lambda>_. \<lparr>ed_consumer = 0, ed_input = 0, ed_inPort = 0, ed_inParent = None, ed_inChild = None\<rparr>), m_inList = [],
     m_out = (\<lambda>_. \<lparr>ed_producer = 0, ed_output = 0, ed_outPort = 0, ed_outParent = None, ed_outChild = None\<rparr>), m_outList = [],
     m_temp = (\<lambda>_. \<lparr>ed_stage = 0, ed_tempBuffer = 0, ed_tempPort = 0, ed_tempParent = None, ed_tempChild = None\<rparr>), m_tempList = [],
     m_dataEdge = (\<lambda>_. \<lparr>ed_parent = 0, ed_child = 0, ed_connection = 0, ed_mode = ROI, ed_order = ParentWritesToChild, ed_offset = dv_empty\<rparr>),
     m_dataEdgeList = [],
     m_stageEdge = (\<lambda>_. \<lparr>ed_parentStage = 0, ed_childStage = 0, ed_stagePort = 0\<rparr>), m_stageEdgeList = [],
     m_initialStages = [], m_resetStageOrder = True, m_orderedStageList = [], m_fresh = 0\<rparr>"

definition upd_md :: "nat \<Rightarrow> (ModelData \<Rightarrow> ModelData) \<Rightarrow> Model \<Rightarrow> Model" where
  "upd_md d f m = m\<lparr>m_data := (m_data m)(d := f (m_data m d))\<rparr>"

definition upd_ms :: "nat \<Rightarrow> (ModelStage \<Rightarrow> ModelStage) \<Rightarrow> Model \<Rightarrow> Model" where
  "upd_ms s f m = m\<lparr>m_stage := (m_stage m)(s := f (m_stage m s))\<rparr>"

definition upd_in :: "nat \<Rightarrow> (StageInputEdge \<Rightarrow> StageInputEdge) \<Rightarrow> Model \<Rightarrow> Model" where
  "upd_in e f m = m\<lparr>m_in := (m_in m)(e := f (m_in m e))\<rparr>"

definition upd_out :: "nat \<Rightarrow> (StageOutputEdge \<Rightarrow> StageOutputEdge) \<Rightarrow> Model \<Rightarrow> Model" where
  "upd_out e f m = m\<lparr>m_out := (m_out m)(e := f (m_out m e))\<rparr>"

definition upd_temp :: "nat \<Rightarrow> (StageTempBufferEdge \<Rightarrow> StageTempBufferEdge) \<Rightarrow> Model \<Rightarrow> Model" where
  "upd_temp e f m = m\<lparr>m_temp := (m_temp m)(e := f (m_temp m e))\<rparr>"

definition producer_of :: "Model \<Rightarrow> nat \<Rightarrow> nat option" where
  "producer_of m d = map_option (\<lambda>e. ed_producer (m_out m e)) (md_producerEdge (m_data m d))"

section \<open>Stage order helpers\<close>

definition StageNameCmp :: "Model \<Rightarrow> nat \<Rightarrow> nat \<Rightarrow> bool" where
  "StageNameCmp m left right =
     (let l = ms_name (m_stage m left); r = ms_name (m_stage m right) in
      if l > r then True else if l < r then False else left > right)"

definition som_incr :: "(nat \<Rightarrow> nat \<Rightarrow> bool) \<Rightarrow> nat \<Rightarrow> StageOrderMap \<Rightarrow> StageOrderMap" where
  "som_incr lt t xs =
     (if t \<in> fst ` set xs then map (\<lambda>(k, n). if k = t then (k, n + 1) else (k, n)) xs
      else sort_insert (\<lambda>a b. lt (fst a) (fst b)) (t, 1) xs)"

definition som_decr :: "nat \<Rightarrow> StageOrderMap \<Rightarrow> StageOrderMap result" where
  "som_decr t xs =
     (case map_of xs t of
        None \<Rightarrow> Inl AssertFailed
      | Some n \<Rightarrow> Inr (if n - 1 \<le> 0 then filter (\<lambda>(k, _). k \<noteq> t) xs
                       else map (\<lambda>(k, i). if k = t then (k, n - 1) else (k, i)) xs))"

text \<open>One more, or one fewer, edge from the stage \<open>p\<close> to the stage \<open>c\<close>.\<close>

definition add_link :: "nat \<Rightarrow> nat \<Rightarrow> Model \<Rightarrow> Model" where
  "add_link p c m =
     (let m = upd_ms p (\<lambda>s. s\<lparr>ms_nextStages := som_incr (StageNameCmp m) c (ms_nextStages s)\<rparr>) m
      in upd_ms c (\<lambda>s. s\<lparr>ms_prevStages := som_incr (StageNameCmp m) p (ms_prevStages s)\<rparr>) m)"

definition del_link :: "nat \<Rightarrow> nat \<Rightarrow> Model \<Rightarrow> Model result" where
  "del_link p c m =
     bindE (som_decr c (ms_nextStages (m_stage m p))) (\<lambda>next.
     let m = upd_ms p (\<lambda>s. s\<lparr>ms_nextStages := next\<rparr>) m in
     bindE (som_decr p (ms_prevStages (m_stage m c))) (\<lambda>prev.
     Inr (upd_ms c (\<lambda>s. s\<lparr>ms_prevStages := prev\<rparr>) m)))"

definition initial_emplace :: "nat \<Rightarrow> Model \<Rightarrow> Model" where
  "initial_emplace s m = m\<lparr>m_initialStages :=
     (if s \<in> set (m_initialStages m) then m_initialStages m
      else sort_insert (StageNameCmp m) s (m_initialStages m))\<rparr>"

definition initial_erase :: "nat \<Rightarrow> Model \<Rightarrow> Model" where
  "initial_erase s m = m\<lparr>m_initialStages := filter (\<lambda>t. t \<noteq> s) (m_initialStages m)\<rparr>"

definition update_initial :: "nat \<Rightarrow> Model \<Rightarrow> Model" where
  "update_initial s m =
     (if ms_prevStages (m_stage m s) = [] then initial_emplace s m else initial_erase s m)"

text \<open>Erasing from an intrusive list asserts that the item is in it.\<close>

definition erase_from :: "nat \<Rightarrow> nat list \<Rightarrow> nat list result" where
  "erase_from x xs = bindE (ie_assert (x \<in> set xs)) (\<lambda>_. Inr (remove1 x xs))"

definition erase_consumer :: "nat \<Rightarrow> nat \<Rightarrow> Model \<Rightarrow> Model result" where
  "erase_consumer d e m =
     bindE (erase_from e (md_consumerEdges (m_data m d))) (\<lambda>es.
     Inr (upd_md d (\<lambda>x. x\<lparr>md_consumerEdges := es\<rparr>) m))"

section \<open>Data nodes\<close>

definition setBatchSize :: "int \<Rightarrow> Model \<Rightarrow> Model result" where
  "setBatchSize batchSize m =
     bindE (if batchSize \<ge> 1 then Inr () else Inl (Thrown ''batchSize >= 1'')) (\<lambda>_.
     Inr (m\<lparr>m_batchSize := batchSize, m_allocBatchSize := batchSize\<rparr>))"

definition push_data :: "ModelData \<Rightarrow> Model \<Rightarrow> nat \<times> Model" where
  "push_data x m = (m_fresh m, m\<lparr>m_data := (m_data m)(m_fresh m := x),
     m_dataList := m_dataList m @ [m_fresh m], m_fresh := m_fresh m + 1\<rparr>)"

definition addInputData :: "string \<Rightarrow> DataDesc \<Rightarrow> Model \<Rightarrow> nat \<times> Model" where
  "addInputData name desc m =
     (let (d, m) = push_data (mk_ModelData name DU_Input desc) m in (d, m\<lparr>m_needAlloc := True\<rparr>))"

definition addOutputData :: "string \<Rightarrow> DataDesc \<Rightarrow> Model \<Rightarrow> nat \<times> Model" where
  "addOutputData name desc m =
     (let (d, m) = push_data (mk_ModelData name DU_Output desc) m in (d, m\<lparr>m_needAlloc := True\<rparr>))"

definition addConstData :: "string \<Rightarrow> DataDesc \<Rightarrow> nat option \<Rightarrow> Model \<Rightarrow> (nat \<times> Model) result" where
  "addConstData name desc content m =
     (case content of
        None \<Rightarrow> Inl AssertFailed
      | Some c \<Rightarrow>
          let m = m\<lparr>m_contentDesc := (m_contentDesc m)(c := desc)\<rparr>;
              (d, m) = push_data ((mk_ModelData name DU_Const desc)\<lparr>md_content := Some c\<rparr>) m
          in Inr (d, m\<lparr>m_needAlloc := True\<rparr>))"

definition addNewData :: "string \<Rightarrow> DataDesc \<Rightarrow> Model \<Rightarrow> nat \<times> Model" where
  "addNewData name desc m = push_data (mk_ModelData name DU_Intermediate desc) m"

definition addFakeData :: "Model \<Rightarrow> (nat \<times> Model) result" where
  "addFakeData m =
     bindE (mk_DataDesc_dims [1]) (\<lambda>desc. Inr (push_data (mk_ModelData ''<fake>'' DU_Fake desc) m))"

text \<open>The custom attributes that \<open>copyFrom\<close> copies are not modelled.\<close>

definition duplicateData :: "nat \<Rightarrow> string \<Rightarrow> DataDesc \<Rightarrow> nat option \<Rightarrow> Model \<Rightarrow> (nat \<times> Model) result" where
  "duplicateData origData postfix newDesc newContent m =
     bindE (ie_assert (origData \<in> set (m_dataList m))) (\<lambda>_.
     let orig = m_data m origData;
         newDataUsage = (if md_usage orig = DU_Input \<or> md_usage orig = DU_Output then DU_Intermediate
                         else md_usage orig);
         desc = (if desc_numDims newDesc \<noteq> 0 then newDesc else md_desc orig);
         newData = mk_ModelData (md_name orig @ postfix) newDataUsage desc;
         newData = (if newDataUsage = DU_Const
                    then newData\<lparr>md_content := (if newContent \<noteq> None then newContent else md_content orig)\<rparr>
                    else newData);
         m = (case newContent of
                Some c \<Rightarrow> if newDataUsage = DU_Const then m\<lparr>m_contentDesc := (m_contentDesc m)(c := desc)\<rparr> else m
              | None \<Rightarrow> m)
     in Inr (push_data newData m))"

section \<open>Edges between stages and data\<close>

definition new_input_edge :: "nat \<Rightarrow> nat \<Rightarrow> Model \<Rightarrow> Model" where
  "new_input_edge stage data m =
     (let edge = m_fresh m;
          m = m\<lparr>m_fresh := m_fresh m + 1, m_inList := m_inList m @ [edge],
                m_in := (m_in m)(edge := \<lparr>ed_consumer = stage, ed_input = data,
                  ed_inPort = length (ms_inputEdges (m_stage m stage)), ed_inParent = None, ed_inChild = None\<rparr>)\<rparr>;
          m = upd_md data (\<lambda>x. x\<lparr>md_consumerEdges := md_consumerEdges x @ [edge]\<rparr>) m
      in upd_ms stage (\<lambda>s. s\<lparr>ms_inputEdges := ms_inputEdges s @ [edge]\<rparr>) m)"

text \<open>The links that a new consumer of a data object adds, when the data has a producer.\<close>

definition link_input :: "nat \<Rightarrow> nat \<Rightarrow> Model \<Rightarrow> Model result" where
  "link_input stage data m =
     (case producer_of m data of
        None \<Rightarrow> Inr m
      | Some p \<Rightarrow>
          bindE (ie_assert (ms_parentStageEdge (m_stage m stage) = None)) (\<lambda>_.
          bindE (ie_assert (ms_parentStageEdge (m_stage m p) = None)) (\<lambda>_.
          Inr (add_link p stage m))))"

definition addStageInput :: "nat \<Rightarrow> nat \<Rightarrow> Model \<Rightarrow> (nat \<times> Model) result" where
  "addStageInput stage data m =
     bindE (ie_assert (ms_model (m_stage m stage))) (\<lambda>_.
     bindE (ie_assert (data \<in> set (m_dataList m))) (\<lambda>_.
     bindE (ie_assert (md_usage (m_data m data) \<noteq> DU_Temp)) (\<lambda>_.
     let edge = m_fresh m;
         m = new_input_edge stage data (m\<lparr>m_resetStageOrder := True\<rparr>)
     in bindE (link_input stage data m) (\<lambda>m. Inr (edge, update_initial stage m)))))"

definition link_consumer :: "nat \<Rightarrow> nat \<Rightarrow> Model \<Rightarrow> Model result" where
  "link_consumer producer consumerEdge m =
     (let c = ed_consumer (m_in m consumerEdge) in
      bindE (ie_assert (ms_parentStageEdge (m_stage m producer) = None)) (\<lambda>_.
      bindE (ie_assert (ms_parentStageEdge (m_stage m c) = None)) (\<lambda>_.
      Inr (initial_erase c (add_link producer c m)))))"

text \<open>The assertions that a data object may get a producer.\<close>

definition can_be_output :: "nat \<Rightarrow> Model \<Rightarrow> unit result" where
  "can_be_output d m =
     (let x = m_data m d in
      bindE (ie_assert (md_producerEdge x = None)) (\<lambda>_.
      bindE (case md_parentDataEdge x of
               None \<Rightarrow> Inr () | Some e \<Rightarrow> ie_assert (ed_order (m_dataEdge m e) \<noteq> ParentWritesToChild)) (\<lambda>_.
      bindE (ie_assert (\<forall>e \<in> set (md_childDataEdges x). ed_order (m_dataEdge m e) \<noteq> ChildWritesToParent)) (\<lambda>_.
      ie_assert (md_usage x = DU_Output \<or> md_usage x = DU_Intermediate \<or> md_usage x = DU_Fake)))))"

definition new_output_edge :: "nat \<Rightarrow> nat \<Rightarrow> Model \<Rightarrow> Model" where
  "new_output_edge stage data m =
     (let edge = m_fresh m;
          m = m\<lparr>m_fresh := m_fresh m + 1, m_outList := m_outList m @ [edge],
                m_out := (m_out m)(edge := \<lparr>ed_producer = stage, ed_output = data,
                  ed_outPort = length (ms_outputEdges (m_stage m stage)), ed_outParent = None, ed_outChild = None\<rparr>)\<rparr>;
          m = upd_ms stage (\<lambda>s. s\<lparr>ms_outputEdges := ms_outputEdges s @ [edge]\<rparr>) m
      in upd_md data (\<lambda>x. x\<lparr>md_producerEdge := Some edge\<rparr>) m)"

definition addStageOutput :: "nat \<Rightarrow> nat \<Rightarrow> Model \<Rightarrow> (nat \<times> Model) result" where
  "addStageOutput stage data m =
     bindE (ie_assert (ms_model (m_stage m stage))) (\<lambda>_.
     bindE (ie_assert (data \<in> set (m_dataList m))) (\<lambda>_.
     bindE (can_be_output data m) (\<lambda>_.
     let edge = m_fresh m;
         m = new_output_edge stage data (m\<lparr>m_resetStageOrder := True\<rparr>)
     in bindE (foldE (link_consumer stage) (md_consumerEdges (m_data m data)) m) (\<lambda>m. Inr (edge, m)))))"

definition new_temp_edge :: "nat \<Rightarrow> nat \<Rightarrow> Model \<Rightarrow> Model" where
  "new_temp_edge stage data m =
     (let edge = m_fresh m;
          m = m\<lparr>m_fresh := m_fresh m + 1, m_tempList := m_tempList m @ [edge],
                m_temp := (m_temp m)(edge := \<lparr>ed_stage = stage, ed_tempBuffer = data,
                  ed_tempPort = length (ms_tempBufferEdges (m_stage m stage)), ed_tempParent = None, ed_tempChild = None\<rparr>)\<rparr>;
          m = upd_ms stage (\<lambda>s. s\<lparr>ms_tempBufferEdges := ms_tempBufferEdges s @ [edge]\<rparr>) m
      in upd_md data (\<lambda>x. x\<lparr>md_tempBufferEdge := Some edge\<rparr>) m)"

definition addTempBuffer :: "nat \<Rightarrow> DataDesc \<Rightarrow> Model \<Rightarrow> (nat \<times> Model) result" where
  "addTempBuffer stage desc m =
     bindE (ie_assert (ms_model (m_stage m stage))) (\<lambda>_.
     let s = m_stage m stage;
         (data, m) = push_data (mk_ModelData (ms_name s @ ''@temp@'' @ nat_string (length (ms_tempBufferEdges s) + 1))
                                  DU_Temp desc) m
     in Inr (m_fresh m, new_temp_edge stage data m))"

definition redirect_input :: "nat \<Rightarrow> nat \<Rightarrow> Model \<Rightarrow> Model" where
  "redirect_input edge newInput m =
     upd_md newInput (\<lambda>x. x\<lparr>md_consumerEdges := md_consumerEdges x @ [edge]\<rparr>)
       (upd_in edge (\<lambda>x. x\<lparr>ed_input := newInput\<rparr>) m)"

definition redirect_output :: "nat \<Rightarrow> nat \<Rightarrow> Model \<Rightarrow> Model" where
  "redirect_output edge newOutput m =
     upd_md newOutput (\<lambda>x. x\<lparr>md_producerEdge := Some edge\<rparr>)
       (upd_out edge (\<lambda>x. x\<lparr>ed_output := newOutput\<rparr>) m)"

definition replaceStageInput :: "nat \<Rightarrow> nat \<Rightarrow> Model \<Rightarrow> Model result" where
  "replaceStageInput edge newInput m =
     (let c = ed_consumer (m_in m edge); old = ed_input (m_in m edge) in
      bindE (ie_assert (edge \<in> set (m_inList m))) (\<lambda>_.
      bindE (ie_assert (newInput \<in> set (m_dataList m))) (\<lambda>_.
      bindE (ie_assert (\<forall>oe \<in> set (ms_outputEdges (m_stage m c)). newInput \<noteq> ed_output (m_out m oe))) (\<lambda>_.
      bindE (ie_assert (md_usage (m_data m newInput) \<noteq> DU_Temp)) (\<lambda>_.
      bindE (ie_assert (ed_inParent (m_in m edge) = None)) (\<lambda>_.
      bindE (ie_assert (ed_inChild (m_in m edge) = None)) (\<lambda>_.
      let m = m\<lparr>m_resetStageOrder := True\<rparr> in
      bindE (erase_consumer old edge m) (\<lambda>m.
      bindE (case producer_of m old of None \<Rightarrow> Inr m | Some p \<Rightarrow> del_link p c m) (\<lambda>m.
      let m = redirect_input edge newInput m;
          linked = producer_of m newInput \<noteq> None
      in bindE (link_input c newInput m) (\<lambda>m.
      let m = (if linked then initial_erase c m else m)
      in Inr (update_initial c m)))))))))))"

definition unlink_consumer :: "nat \<Rightarrow> nat \<Rightarrow> Model \<Rightarrow> Model result" where
  "unlink_consumer producer consumerEdge m = del_link producer (ed_consumer (m_in m consumerEdge)) m"

definition replaceStageOutput :: "nat \<Rightarrow> nat \<Rightarrow> Model \<Rightarrow> Model result" where
  "replaceStageOutput edge newOutput m =
     (let p = ed_producer (m_out m edge); old = ed_output (m_out m edge) in
      bindE (ie_assert (edge \<in> set (m_outList m))) (\<lambda>_.
      bindE (ie_assert (newOutput \<in> set (m_dataList m))) (\<lambda>_.
      bindE (ie_assert (\<forall>e \<in> set (ms_inputEdges (m_stage m p)). newOutput \<noteq> ed_input (m_in m e))) (\<lambda>_.
      bindE (can_be_output newOutput m) (\<lambda>_.
      bindE (ie_assert (ed_outParent (m_out m edge) = None)) (\<lambda>_.
      bindE (ie_assert (ed_outChild (m_out m edge) = None)) (\<lambda>_.
      let m = m\<lparr>m_resetStageOrder := True\<rparr>;
          m = upd_md old (\<lambda>x. x\<lparr>md_producerEdge := None\<rparr>) m
      in bindE (foldE (\<lambda>ce m. bindE (unlink_consumer p ce m) (\<lambda>m. Inr (update_initial (ed_consumer (m_in m ce)) m)))
                  (md_consumerEdges (m_data m old)) m) (\<lambda>m.
      let m = redirect_output edge newOutput m
      in foldE (link_consumer p) (md_consumerEdges (m_data m newOutput)) m))))))))"

section \<open>Removing nodes\<close>

definition disconnect_input :: "nat \<Rightarrow> Model \<Rightarrow> Model result" where
  "disconnect_input inEdge m =
     (let d = ed_input (m_in m inEdge) in
      bindE (case producer_of m d of
               None \<Rightarrow> Inr m | Some p \<Rightarrow> del_link p (ed_consumer (m_in m inEdge)) m) (\<lambda>m.
      bindE (erase_consumer d inEdge m) (\<lambda>m.
      bindE (erase_from inEdge (m_inList m)) (\<lambda>es. Inr (m\<lparr>m_inList := es\<rparr>)))))"

definition disconnect_output :: "nat \<Rightarrow> Model \<Rightarrow> Model result" where
  "disconnect_output outEdge m =
     (let d = ed_output (m_out m outEdge) in
      bindE (foldE (unlink_consumer (ed_producer (m_out m outEdge))) (md_consumerEdges (m_data m d)) m) (\<lambda>m.
      let m = upd_md d (\<lambda>x. x\<lparr>md_producerEdge := None\<rparr>) m in
      bindE (erase_from outEdge (m_outList m)) (\<lambda>es. Inr (m\<lparr>m_outList := es\<rparr>))))"

definition disconnect_temp :: "nat \<Rightarrow> Model \<Rightarrow> Model result" where
  "disconnect_temp tempEdge m =
     (let m = upd_md (ed_tempBuffer (m_temp m tempEdge)) (\<lambda>x. x\<lparr>md_tempBufferEdge := None\<rparr>) m in
      bindE (erase_from tempEdge (m_tempList m)) (\<lambda>es. Inr (m\<lparr>m_tempList := es\<rparr>)))"

definition disconnectStage :: "nat \<Rightarrow> Model \<Rightarrow> Model result" where
  "disconnectStage stage m =
     bindE (ie_assert (ms_model (m_stage m stage))) (\<lambda>_.
     let m = m\<lparr>m_resetStageOrder := True\<rparr> in
     bindE (foldE disconnect_input (ms_inputEdges (m_stage m stage)) m) (\<lambda>m.
     let m = upd_ms stage (\<lambda>s. s\<lparr>ms_inputEdges := []\<rparr>) m in
     bindE (foldE disconnect_output (ms_outputEdges (m_stage m stage)) m) (\<lambda>m.
     let m = upd_ms stage (\<lambda>s. s\<lparr>ms_outputEdges := []\<rparr>) m in
     bindE (foldE disconnect_temp (ms_tempBufferEdges (m_stage m stage)) m) (\<lambda>m.
     let m = upd_ms stage (\<lambda>s. s\<lparr>ms_tempBufferEdges := []\<rparr>) m
     in Inr (m\<lparr>m_needAlloc := True\<rparr>)))))"

definition removeStage :: "nat \<Rightarrow> Model \<Rightarrow> Model result" where
  "removeStage stage m =
     bindE (ie_assert (ms_model (m_stage m stage))) (\<lambda>_.
     let m = m\<lparr>m_resetStageOrder := True\<rparr> in
     bindE (disconnectStage stage m) (\<lambda>m.
     let m = initial_erase stage m in
     bindE (erase_from stage (m_stageList m)) (\<lambda>ss.
     Inr (upd_ms stage (\<lambda>s. s\<lparr>ms_model := False\<rparr>) (m\<lparr>m_stageList := ss\<rparr>)))))"

definition removeUnusedData :: "nat \<Rightarrow> Model \<Rightarrow> Model result" where
  "removeUnusedData d m =
     bindE (ie_assert (md_consumerEdges (m_data m d) = [])) (\<lambda>_.
     let usage = md_usage (m_data m d);
         m = (if usage \<noteq> DU_Intermediate \<and> usage \<noteq> DU_Temp then m\<lparr>m_needAlloc := True\<rparr> else m)
     in bindE (erase_from d (m_dataList m)) (\<lambda>ds. Inr (m\<lparr>m_dataList := ds\<rparr>)))"

definition cleanUp_data :: "nat \<Rightarrow> bool \<times> Model \<Rightarrow> (bool \<times> Model) result" where
  "cleanUp_data d nm =
     (let (needAllocatorPreprocess, m) = nm; x = m_data m d in
      if md_usage x = DU_Input then
        bindE (ie_assert (md_consumerEdges x \<noteq> [])) (\<lambda>_.
        bindE (ie_assert (md_parentDataEdge x = None)) (\<lambda>_. Inr nm))
      else if md_usage x = DU_Output then
        bindE (ie_assert (md_producerEdge x \<noteq> None)) (\<lambda>_.
        bindE (ie_assert (md_parentDataEdge x = None)) (\<lambda>_. Inr nm))
      else if md_usage x = DU_Temp then
        (if md_tempBufferEdge x = None
         then bindE (erase_from d (m_dataList m)) (\<lambda>ds. Inr (needAllocatorPreprocess, m\<lparr>m_dataList := ds\<rparr>))
         else Inr nm)
      else if md_consumerEdges x = [] \<and> md_producerEdge x = None then
        bindE (erase_from d (m_dataList m)) (\<lambda>ds.
        Inr (if md_usage x \<noteq> DU_Intermediate then True else needAllocatorPreprocess, m\<lparr>m_dataList := ds\<rparr>))
      else Inr nm)"

definition cleanUp :: "Model \<Rightarrow> Model result" where
  "cleanUp m =
     bindE (foldE cleanUp_data (m_dataList m) (False, m)) (\<lambda>(needAllocatorPreprocess, m).
     Inr (if needAllocatorPreprocess then m\<lparr>m_needAlloc := True\<rparr> else m))"

section \<open>Adding stages\<close>

text \<open>\<open>stage\<close> is what \<open>creator()\<close> or \<open>cloneImpl()\<close> returns: a new object of the given category.\<close>

definition new_stage :: "nat \<Rightarrow> string \<Rightarrow> StageType \<Rightarrow> StageCategory \<Rightarrow> Model \<Rightarrow> Model" where
  "new_stage stage name ty category m =
     upd_ms stage (\<lambda>_. mk_ModelStage\<lparr>ms_name := name, ms_type := ty, ms_category := category, ms_model := True\<rparr>)
       (m\<lparr>m_resetStageOrder := True\<rparr>)"

definition add_inputs :: "nat \<Rightarrow> nat list \<Rightarrow> Model \<Rightarrow> Model result" where
  "add_inputs stage = foldE (\<lambda>d m. bindE (addStageInput stage d m) (\<lambda>(_, m). Inr m))"

definition add_outputs :: "nat \<Rightarrow> nat list \<Rightarrow> Model \<Rightarrow> Model result" where
  "add_outputs stage = foldE (\<lambda>d m. bindE (addStageOutput stage d m) (\<lambda>(_, m). Inr m))"

definition addNewStageImpl ::
  "nat \<Rightarrow> string \<Rightarrow> StageType \<Rightarrow> StageCategory \<Rightarrow> nat list \<Rightarrow> nat list \<Rightarrow> Model \<Rightarrow> Model result" where
  "addNewStageImpl stage name ty category inputs outputs m =
     bindE (ie_assert (inputs \<noteq> [])) (\<lambda>_.
     bindE (ie_assert (outputs \<noteq> [])) (\<lambda>_.
     bindE (ie_assert (set inputs \<subseteq> set (m_dataList m))) (\<lambda>_.
     bindE (ie_assert (set outputs \<subseteq> set (m_dataList m))) (\<lambda>_.
     bindE (ie_assert (set outputs \<inter> set inputs = {})) (\<lambda>_.
     bindE (add_inputs stage inputs (new_stage stage name ty category m)) (\<lambda>m.
     bindE (add_outputs stage outputs m) (\<lambda>m.
     Inr (m\<lparr>m_stageList := m_stageList m @ [stage]\<rparr>))))))))"

definition duplicateStage ::
  "nat \<Rightarrow> nat \<Rightarrow> string \<Rightarrow> nat list \<Rightarrow> nat list \<Rightarrow> Model \<Rightarrow> Model result" where
  "duplicateStage stage origStage postfix inputs outputs m =
     bindE (ie_assert (inputs \<noteq> [])) (\<lambda>_.
     bindE (ie_assert (outputs \<noteq> [])) (\<lambda>_.
     bindE (ie_assert (ms_model (m_stage m origStage))) (\<lambda>_.
     bindE (ie_assert (set inputs \<subseteq> set (m_dataList m))) (\<lambda>_.
     bindE (ie_assert (set outputs \<subseteq> set (m_dataList m))) (\<lambda>_.
     bindE (ie_assert (set outputs \<inter> set inputs = {})) (\<lambda>_.
     let orig = m_stage m origStage;
         m = initial_emplace stage
               (new_stage stage (ms_name orig @ postfix) (ms_type orig) (ms_category orig) m)
     in bindE (add_inputs stage inputs m) (\<lambda>m.
     bindE (add_outputs stage outputs m) (\<lambda>m.
     bindE (foldE (\<lambda>e m. bindE (addTempBuffer stage (md_desc (m_data m (ed_tempBuffer (m_temp m e)))) m)
                             (\<lambda>(_, m). Inr m)) (ms_tempBufferEdges orig) m) (\<lambda>m.
     Inr (m\<lparr>m_stageList := m_stageList m @ [stage]\<rparr>))))))))))"

section \<open>The stage order\<close>

text \<open>
  \<open>runDFS\<close>: the visited map and the ordered list. The recursion goes from a stage to one that is
  not in the map yet, so it is never deeper than the number of stages; the fuel counts that depth.
\<close>

type_synonym DFS = "(nat \<rightharpoonup> bool) \<times> nat list"

fun runDFS :: "nat \<Rightarrow> Model \<Rightarrow> nat \<Rightarrow> DFS \<Rightarrow> DFS result" where
  "runDFS 0 m stage vo = Inl OutOfFuel"
| "runDFS (Suc n) m stage (visitedMap, ordered) =
     bindE (ie_assert (ms_parentStageEdge (m_stage m stage) = None)) (\<lambda>_.
     bindE (foldE (\<lambda>(next, count) (visitedMap, ordered).
              bindE (ie_assert (count > 0)) (\<lambda>_.
              case visitedMap next of
                Some visited \<Rightarrow> if \<not> visited then Inl (Thrown ''Graph has cycle'') else Inr (visitedMap, ordered)
              | None \<Rightarrow> runDFS n m next (visitedMap, ordered)))
            (ms_nextStages (m_stage m stage)) (visitedMap(stage \<mapsto> False), ordered)) (\<lambda>(visitedMap, ordered).
     Inr (visitedMap(stage \<mapsto> True), stage # ordered)))"

definition number_stages :: "Model \<Rightarrow> Model" where
  "number_stages m = fold (\<lambda>(i, s). upd_ms s (\<lambda>x. x\<lparr>ms_index := int i\<rparr>))
     (enumerate 0 (m_orderedStageList m)) m"

definition buildStageOrder :: "Model \<Rightarrow> Model result" where
  "buildStageOrder m =
     (if \<not> m_resetStageOrder m then
        bindE (ie_assert (length (m_orderedStageList m) = length (m_stageList m))) (\<lambda>_. Inr m)
      else
        let m = m\<lparr>m_orderedStageList := [], m_resetStageOrder := False\<rparr> in
        if m_stageList m = [] then Inr m
        else
          bindE (ie_assert (m_initialStages m \<noteq> [])) (\<lambda>_.
          bindE (foldE (runDFS (Suc (length (m_stageList m))) m) (m_initialStages m) (Map.empty, [])) (\<lambda>(_, ordered).
          bindE (ie_assert (length ordered = length (m_stageList m))) (\<lambda>_.
          Inr (number_stages (m\<lparr>m_orderedStageList := ordered\<rparr>))))))"

definition getStages :: "Model \<Rightarrow> (nat list \<times> Model) result" where
  "getStages m = bindE (buildStageOrder m) (\<lambda>m. Inr (m_orderedStageList m, m))"

end
