(* ===== verification/VpuModelLinks.thy ===== *)
theory VpuModelLinks
  imports VpuModel
begin

text \<open>
  The counts of edges between the stages of the VPU model. Every operation on the model updates
  \<open>_prevStages\<close> and \<open>_nextStages\<close> in the same two ways, one edge more or one edge less; here these
  two ways are related to the edges of the graph. The relation \<open>links_match\<close> is between the maps and
  any assignment of a producer and a bag of consumers to the data, so that it also describes
  the states inside a loop over the consumers of a data object.
\<close>

section \<open>Maps of counts\<close>

definition som_ok :: "StageOrderMap \<Rightarrow> bool" where
  "som_ok xs \<longleftrightarrow> distinct (map fst xs) \<and> (\<forall>(_, n) \<in> set xs. n > 0)"

definition som_get :: "StageOrderMap \<Rightarrow> nat \<Rightarrow> int" where
  "som_get xs t = (case map_of xs t of None \<Rightarrow> 0 | Some n \<Rightarrow> n)"

lemma som_ok_Nil [simp]: "som_ok []" by (simp add: som_ok_def)
lemma som_get_Nil [simp]: "som_get [] t = 0" by (simp add: som_get_def)

lemma som_get_pos:
  assumes "som_ok xs"
  shows "som_get xs t \<ge> 0" "som_get xs t > 0 \<longleftrightarrow> t \<in> fst ` set xs" "som_get xs t = 0 \<longleftrightarrow> t \<notin> fst ` set xs"
proof -
  have "som_get xs t > 0 \<longleftrightarrow> t \<in> fst ` set xs" "som_get xs t \<noteq> 0 \<longrightarrow> som_get xs t > 0"
    using assms unfolding som_get_def som_ok_def
    by (auto simp: map_of_eq_None_iff dest!: map_of_SomeD split: option.split) (force simp: image_iff)+
  then show "som_get xs t \<ge> 0" "som_get xs t > 0 \<longleftrightarrow> t \<in> fst ` set xs" "som_get xs t = 0 \<longleftrightarrow> t \<notin> fst ` set xs"
    by auto
qed

lemma som_empty: "som_ok xs \<Longrightarrow> xs = [] \<longleftrightarrow> (\<forall>t. som_get xs t = 0)"
  using som_get_pos(3) [of xs] by (cases xs) (auto simp: som_get_def)

lemma mset_som_insert:
  assumes "t \<notin> fst ` set xs"
  shows "distinct (map fst (sort_insert lt (t, n) xs)) \<longleftrightarrow> distinct (map fst xs)"
    "map_of (sort_insert lt (t, n) xs) u = (if u = t then Some n else map_of xs u)"
  using assms by (induction xs) (auto simp: image_iff)

lemma map_of_adjust:
  "map_of (map (\<lambda>(k, n). if k = t then (k, f n) else (k, n)) xs) u =
     (if u = t then map_option f (map_of xs u) else map_of xs u)"
  by (induction xs) auto

lemma keys_adjust: "fst \<circ> (\<lambda>(k, n). if k = t then (k, f n) else (k, n)) = fst"
  by (auto simp: fun_eq_iff)

lemma som_incr_ok:
  assumes "som_ok xs"
  shows "som_ok (som_incr lt t xs)" "som_get (som_incr lt t xs) u = som_get xs u + (if u = t then 1 else 0)"
proof -
  have "distinct (map fst (som_incr lt t xs))"
    using assms mset_som_insert(1) [of t xs "\<lambda>a b. lt (fst a) (fst b)" 1]
    by (simp add: som_incr_def som_ok_def keys_adjust)
  moreover have "\<forall>(_, n) \<in> set (som_incr lt t xs). n > 0"
    using assms by (auto simp: som_incr_def som_ok_def split: if_splits)
  ultimately show "som_ok (som_incr lt t xs)" by (simp add: som_ok_def)
  show "som_get (som_incr lt t xs) u = som_get xs u + (if u = t then 1 else 0)"
  proof (cases "map_of xs t")
    case None
    then have "t \<notin> fst ` set xs" by (simp add: map_of_eq_None_iff)
    with None show ?thesis by (auto simp: som_incr_def som_get_def mset_som_insert)
  next
    case (Some n)
    then have "t \<in> fst ` set xs" by (metis map_of_eq_None_iff option.distinct(1))
    with Some show ?thesis by (auto simp: som_incr_def som_get_def map_of_adjust split: option.split)
  qed
qed

lemma som_incr_not_Nil [simp]: "som_incr lt t xs \<noteq> []"
  by (cases xs) (auto simp: som_incr_def)

lemma som_decr_ok:
  assumes "som_ok xs" "som_decr t xs = Inr ys"
  shows "som_ok ys" "som_get ys u = som_get xs u - (if u = t then 1 else 0)"
proof -
  from assms(2) obtain n where n: "map_of xs t = Some n"
    and ys: "ys = (if n - 1 \<le> 0 then filter (\<lambda>(k, _). k \<noteq> t) xs
                  else map (\<lambda>(k, i). if k = t then (k, n - 1) else (k, i)) xs)"
    by (auto simp: som_decr_def split: option.splits)
  have pos: "n > 0" using assms(1) map_of_SomeD [OF n] by (auto simp: som_ok_def)
  have f: "map_of (filter (\<lambda>(k, _). k \<noteq> t) xs) u = (if u = t then None else map_of xs u)" for u
    by (induction xs) auto
  have d: "distinct (map fst (filter (\<lambda>(k, _). k \<noteq> t) xs))"
    using assms(1) by (simp add: som_ok_def distinct_map_filter)
  show "som_ok ys"
  proof (cases "n - 1 \<le> 0")
    case True
    with d assms(1) ys show ?thesis by (auto simp: som_ok_def)
  next
    case False
    then have "\<forall>(_, i) \<in> set ys. i > 0" using assms(1) unfolding ys som_ok_def by (auto split: if_splits)
    with False assms(1) ys show ?thesis by (simp add: som_ok_def keys_adjust [of t "\<lambda>_. n - 1"])
  qed
  show "som_get ys u = som_get xs u - (if u = t then 1 else 0)"
    using n pos map_of_adjust [of t "\<lambda>_. n - 1" xs] f by (auto simp: som_get_def ys split: option.split)
qed

lemma som_decr_total: "som_get xs t > 0 \<Longrightarrow> \<exists>ys. som_decr t xs = Inr ys"
  by (auto simp: som_decr_def som_get_def split: option.splits)

section \<open>Counts and edges\<close>

definition link_count :: "nat set \<Rightarrow> (nat \<Rightarrow> nat option) \<Rightarrow> (nat \<Rightarrow> nat multiset) \<Rightarrow> nat \<Rightarrow> nat \<Rightarrow> int" where
  "link_count D P C s t = (\<Sum>d \<in> D. if P d = Some s then int (count (C d) t) else 0)"

definition links_match ::
  "nat set \<Rightarrow> (nat \<Rightarrow> nat option) \<Rightarrow> (nat \<Rightarrow> nat multiset) \<Rightarrow> (nat \<Rightarrow> StageOrderMap) \<Rightarrow> (nat \<Rightarrow> StageOrderMap) \<Rightarrow> bool"
where
  "links_match D P C next prev \<longleftrightarrow> (\<forall>s. som_ok (next s) \<and> som_ok (prev s)) \<and>
     (\<forall>s t. som_get (next s) t = link_count D P C s t \<and> som_get (prev t) s = link_count D P C s t)"

lemma links_matchD:
  assumes "links_match D P C next prev"
  shows "som_ok (next s)" "som_ok (prev s)" "som_get (next s) t = link_count D P C s t"
    "som_get (prev t) s = link_count D P C s t"
  using assms unfolding links_match_def by blast+

lemma link_count_upd:
  assumes "finite D" "d \<in> D" "\<And>x. x \<in> D \<Longrightarrow> x \<noteq> d \<Longrightarrow> P' x = P x \<and> C' x = C x"
  shows "link_count D P' C' s t = link_count D P C s t
     - (if P d = Some s then int (count (C d) t) else 0) + (if P' d = Some s then int (count (C' d) t) else 0)"
proof -
  have "(\<Sum>x \<in> D - {d}. if P' x = Some s then int (count (C' x) t) else 0) =
      (\<Sum>x \<in> D - {d}. if P x = Some s then int (count (C x) t) else 0)"
    using assms(3) by (intro sum.cong) auto
  with assms(1,2) show ?thesis by (simp add: link_count_def sum.remove)
qed

lemma link_count_cong:
  "(\<And>x. x \<in> D \<Longrightarrow> P' x = P x \<and> C' x = C x) \<Longrightarrow> link_count D P' C' s t = link_count D P C s t"
  unfolding link_count_def by (rule sum.cong) auto

lemma link_count_pos:
  assumes "finite D"
  shows "link_count D P C s t > 0 \<longleftrightarrow> (\<exists>d \<in> D. P d = Some s \<and> t \<in># C d)"
    "link_count D P C s t = 0 \<longleftrightarrow> (\<forall>d \<in> D. P d = Some s \<longrightarrow> t \<notin># C d)"
proof -
  have "link_count D P C s t = 0 \<longleftrightarrow> (\<forall>d \<in> D. P d = Some s \<longrightarrow> t \<notin># C d)"
    unfolding link_count_def using assms
    by (subst sum_nonneg_eq_0_iff) (auto simp: not_in_iff)
  moreover have "link_count D P C s t \<ge> 0" unfolding link_count_def by (intro sum_nonneg) auto
  ultimately show "link_count D P C s t > 0 \<longleftrightarrow> (\<exists>d \<in> D. P d = Some s \<and> t \<in># C d)"
    "link_count D P C s t = 0 \<longleftrightarrow> (\<forall>d \<in> D. P d = Some s \<longrightarrow> t \<notin># C d)" by auto
qed

lemma links_match_cong:
  assumes "links_match D P C next prev" "\<And>s t. link_count D' P' C' s t = link_count D P C s t"
  shows "links_match D' P' C' next prev"
  using assms by (simp add: links_match_def)

text \<open>The consumers of a data object without a producer, and its producer without consumers, do not count.\<close>

lemma links_match_consumers:
  assumes "links_match D P C next prev" "P d = None" "\<And>x. x \<noteq> d \<Longrightarrow> C' x = C x"
  shows "links_match D P C' next prev"
proof (rule links_match_cong [OF assms(1)])
  have "(if P x = Some s then int (count (C' x) t) else 0) = (if P x = Some s then int (count (C x) t) else 0)"
    for x s t by (cases "x = d") (use assms(2,3) in auto)
  then show "link_count D P C' s t = link_count D P C s t" for s t
    unfolding link_count_def by simp
qed

lemma links_match_producer:
  assumes "links_match D P C next prev" "P d = None \<or> C d = {#}" "P' d = None \<or> C' d = {#}"
    "\<And>x. x \<noteq> d \<Longrightarrow> P' x = P x \<and> C' x = C x"
  shows "links_match D P' C' next prev"
proof (rule links_match_cong [OF assms(1)])
  have "(if P' x = Some s then int (count (C' x) t) else 0) = (if P x = Some s then int (count (C x) t) else 0)"
    for x s t by (cases "x = d") (use assms(2-4) in auto)
  then show "link_count D P' C' s t = link_count D P C s t" for s t
    unfolding link_count_def by simp
qed

lemma links_match_add:
  assumes "links_match D P C next prev" "finite D" "d \<in> D" "P d = Some p"
    "C' = C(d := add_mset c (C d))"
  shows "links_match D P C' (next(p := som_incr lt c (next p))) (prev(c := som_incr lt' p (prev c)))"
proof -
  have "link_count D P C' s t = link_count D P C s t + (if s = p \<and> t = c then 1 else 0)" for s t
    using link_count_upd [OF assms(2,3), of P P C' C s t] assms(4,5) by auto
  with assms(1) show ?thesis by (simp add: links_match_def som_incr_ok)
qed

lemma links_match_del:
  assumes "links_match D P C next prev" "finite D" "d \<in> D" "P d = Some p"
    "C d = add_mset c X" "C' = C(d := X)" "som_decr c (next p) = Inr np" "som_decr p (prev c) = Inr pc"
  shows "links_match D P C' (next(p := np)) (prev(c := pc))"
proof -
  have "link_count D P C' s t = link_count D P C s t - (if s = p \<and> t = c then 1 else 0)" for s t
    using link_count_upd [OF assms(2,3), of P P C' C s t] assms(4,5,6) by auto
  moreover note n = links_matchD(1,2) [OF assms(1)]
  ultimately show ?thesis
    using assms(1) som_decr_ok [OF n(1) assms(7)] som_decr_ok [OF n(2) assms(8)]
    by (simp add: links_match_def)
qed

end
