(* ===== verification/VpuModelInv.thy ===== *)
theory VpuModelInv
  imports VpuModelLinks
begin

text \<open>
  The invariant of the VPU model: both ends of every edge agree, the counts of edges between
  stages are right, and the initial stages are stages without predecessors. Every operation of
  \<open>model.cpp\<close> that adds, rewires or removes nodes keeps it.
\<close>

section \<open>What link updates leave alone\<close>

abbreviation nexts :: "Model \<Rightarrow> nat \<Rightarrow> StageOrderMap" where
  "nexts m \<equiv> \<lambda>s. ms_nextStages (m_stage m s)"

abbreviation prevs :: "Model \<Rightarrow> nat \<Rightarrow> StageOrderMap" where
  "prevs m \<equiv> \<lambda>s. ms_prevStages (m_stage m s)"

text \<open>\<open>bare\<close> hides the counts and the initial stages.\<close>

definition bare :: "Model \<Rightarrow> Model" where
  "bare m = m\<lparr>m_stage := (\<lambda>s. (m_stage m s)\<lparr>ms_prevStages := [], ms_nextStages := []\<rparr>), m_initialStages := []\<rparr>"

lemma bare_fields:
  "m_data (bare m) = m_data m" "m_dataList (bare m) = m_dataList m" "m_in (bare m) = m_in m"
  "m_inList (bare m) = m_inList m" "m_out (bare m) = m_out m" "m_outList (bare m) = m_outList m"
  "m_temp (bare m) = m_temp m" "m_tempList (bare m) = m_tempList m" "m_fresh (bare m) = m_fresh m"
  "m_stageList (bare m) = m_stageList m" "m_dataEdge (bare m) = m_dataEdge m"
  "m_stageEdge (bare m) = m_stageEdge m" "m_stageEdgeList (bare m) = m_stageEdgeList m"
  "m_resetStageOrder (bare m) = m_resetStageOrder m"
  "ms_inputEdges (m_stage (bare m) s) = ms_inputEdges (m_stage m s)"
  "ms_outputEdges (m_stage (bare m) s) = ms_outputEdges (m_stage m s)"
  "ms_tempBufferEdges (m_stage (bare m) s) = ms_tempBufferEdges (m_stage m s)"
  "ms_parentStageEdge (m_stage (bare m) s) = ms_parentStageEdge (m_stage m s)"
  "ms_injectedStageEdges (m_stage (bare m) s) = ms_injectedStageEdges (m_stage m s)"
  "ms_model (m_stage (bare m) s) = ms_model (m_stage m s)"
  "ms_name (m_stage (bare m) s) = ms_name (m_stage m s)"
  by (simp_all add: bare_def)

lemma bareD:
  assumes "bare m' = bare m"
  shows "m_data m' = m_data m" "m_dataList m' = m_dataList m" "m_in m' = m_in m"
    "m_inList m' = m_inList m" "m_out m' = m_out m" "m_outList m' = m_outList m"
    "m_temp m' = m_temp m" "m_tempList m' = m_tempList m" "m_fresh m' = m_fresh m"
    "m_stageList m' = m_stageList m" "m_dataEdge m' = m_dataEdge m"
    "m_stageEdge m' = m_stageEdge m" "m_stageEdgeList m' = m_stageEdgeList m"
    "m_resetStageOrder m' = m_resetStageOrder m"
    "ms_inputEdges (m_stage m' s) = ms_inputEdges (m_stage m s)"
    "ms_outputEdges (m_stage m' s) = ms_outputEdges (m_stage m s)"
    "ms_tempBufferEdges (m_stage m' s) = ms_tempBufferEdges (m_stage m s)"
    "ms_parentStageEdge (m_stage m' s) = ms_parentStageEdge (m_stage m s)"
    "ms_injectedStageEdges (m_stage m' s) = ms_injectedStageEdges (m_stage m s)"
    "ms_model (m_stage m' s) = ms_model (m_stage m s)"
    "ms_name (m_stage m' s) = ms_name (m_stage m s)"
    "producer_of m' d = producer_of m d"
proof -
  note b = bare_fields [of m'] bare_fields [of m]
  show "m_data m' = m_data m" "m_dataList m' = m_dataList m" "m_in m' = m_in m"
    "m_inList m' = m_inList m" "m_out m' = m_out m" "m_outList m' = m_outList m"
    "m_temp m' = m_temp m" "m_tempList m' = m_tempList m" "m_fresh m' = m_fresh m"
    "m_stageList m' = m_stageList m" "m_dataEdge m' = m_dataEdge m"
    "m_stageEdge m' = m_stageEdge m" "m_stageEdgeList m' = m_stageEdgeList m"
    "m_resetStageOrder m' = m_resetStageOrder m"
    "ms_inputEdges (m_stage m' s) = ms_inputEdges (m_stage m s)"
    "ms_outputEdges (m_stage m' s) = ms_outputEdges (m_stage m s)"
    "ms_tempBufferEdges (m_stage m' s) = ms_tempBufferEdges (m_stage m s)"
    "ms_parentStageEdge (m_stage m' s) = ms_parentStageEdge (m_stage m s)"
    "ms_injectedStageEdges (m_stage m' s) = ms_injectedStageEdges (m_stage m s)"
    "ms_model (m_stage m' s) = ms_model (m_stage m s)"
    "ms_name (m_stage m' s) = ms_name (m_stage m s)"
    by (metis b assms)+
  then show "producer_of m' d = producer_of m d" by (simp add: producer_of_def)
qed

lemma bare_initial [simp]:
  "bare (initial_emplace s m) = bare m" "bare (initial_erase s m) = bare m" "bare (update_initial s m) = bare m"
  by (simp_all add: bare_def initial_emplace_def initial_erase_def update_initial_def)

lemma stage_initial [simp]:
  "m_stage (initial_emplace s m) = m_stage m" "m_stage (initial_erase s m) = m_stage m"
  "m_stage (update_initial s m) = m_stage m"
  by (simp_all add: initial_emplace_def initial_erase_def update_initial_def)

lemma bare_add_link [simp]: "bare (add_link p c m) = bare m"
  by (auto simp: bare_def add_link_def Let_def upd_ms_def fun_eq_iff)

lemma initial_add_link [simp]: "m_initialStages (add_link p c m) = m_initialStages m"
  by (simp add: add_link_def Let_def upd_ms_def)

lemma nexts_add_link: "nexts (add_link p c m) = (nexts m)(p := som_incr (StageNameCmp m) c (nexts m p))"
  by (auto simp: add_link_def Let_def upd_ms_def fun_eq_iff)

lemma prevs_add_link: "\<exists>lt. prevs (add_link p c m) = (prevs m)(c := som_incr lt p (prevs m c))"
  unfolding add_link_def Let_def upd_ms_def
  by (rule exI [of _ "StageNameCmp (upd_ms p (\<lambda>s. s\<lparr>ms_nextStages := som_incr (StageNameCmp m) c (ms_nextStages s)\<rparr>) m)"])
    (auto simp: fun_eq_iff upd_ms_def)

lemma del_link_Inr:
  assumes "del_link p c m = Inr m'"
  shows "bare m' = bare m" "m_initialStages m' = m_initialStages m"
    "\<exists>np pc. som_decr c (nexts m p) = Inr np \<and> som_decr p (prevs m c) = Inr pc \<and>
       nexts m' = (nexts m)(p := np) \<and> prevs m' = (prevs m)(c := pc)"
proof -
  obtain np pc where d: "som_decr c (nexts m p) = Inr np"
    "som_decr p (prevs (upd_ms p (\<lambda>s. s\<lparr>ms_nextStages := np\<rparr>) m) c) = Inr pc"
    and m': "m' = upd_ms c (\<lambda>s. s\<lparr>ms_prevStages := pc\<rparr>) (upd_ms p (\<lambda>s. s\<lparr>ms_nextStages := np\<rparr>) m)"
    using assms by (auto simp: del_link_def Let_def)
  have "som_decr p (prevs m c) = Inr pc" using d(2) by (auto simp: upd_ms_def split: if_splits)
  with d(1) show "\<exists>np pc. som_decr c (nexts m p) = Inr np \<and> som_decr p (prevs m c) = Inr pc \<and>
      nexts m' = (nexts m)(p := np) \<and> prevs m' = (prevs m)(c := pc)"
    by (intro exI [of _ np] exI [of _ pc]) (auto simp: m' upd_ms_def fun_eq_iff)
  show "bare m' = bare m" by (auto simp: m' bare_def upd_ms_def fun_eq_iff)
  show "m_initialStages m' = m_initialStages m" by (simp add: m' upd_ms_def)
qed

lemma links_add_link:
  assumes "links_match D P C (nexts m) (prevs m)" "finite D" "d \<in> D" "P d = Some p"
  shows "links_match D P (C(d := add_mset c (C d))) (nexts (add_link p c m)) (prevs (add_link p c m))"
proof -
  obtain lt where "prevs (add_link p c m) = (prevs m)(c := som_incr lt p (prevs m c))"
    using prevs_add_link by blast
  with links_match_add [OF assms refl] show ?thesis by (simp only: nexts_add_link)
qed

lemma links_del_link:
  assumes "links_match D P C (nexts m) (prevs m)" "finite D" "d \<in> D" "P d = Some p"
    "C d = add_mset c X" "del_link p c m = Inr m'"
  shows "links_match D P (C(d := X)) (nexts m') (prevs m')"
proof -
  obtain np pc where d: "som_decr c (nexts m p) = Inr np" "som_decr p (prevs m c) = Inr pc"
    "nexts m' = (nexts m)(p := np)" "prevs m' = (prevs m)(c := pc)"
    using del_link_Inr(3) [OF assms(6)] by blast
  show ?thesis unfolding d(3,4) by (rule links_match_del [OF assms(1-5) refl d(1,2)])
qed

lemma del_link_total:
  assumes "links_match D P C (nexts m) (prevs m)" "finite D" "d \<in> D" "P d = Some p" "c \<in># C d"
  shows "\<exists>m'. del_link p c m = Inr m'"
proof -
  have "link_count D P C p c > 0" using link_count_pos(1) [OF assms(2)] assms(3-5) by blast
  then have "som_get (nexts m p) c > 0" "som_get (prevs m c) p > 0"
    using links_matchD(3,4) [OF assms(1)] by simp_all
  then obtain np pc where d: "som_decr c (nexts m p) = Inr np" "som_decr p (prevs m c) = Inr pc"
    using som_decr_total by blast
  have "prevs (upd_ms p (\<lambda>s. s\<lparr>ms_nextStages := np\<rparr>) m) c = prevs m c" by (auto simp: upd_ms_def)
  with d show ?thesis by (simp add: del_link_def Let_def)
qed

section \<open>Loops over the consumers of a data object\<close>

text \<open>A stage is only initial while it has no predecessor.\<close>

definition initial_sound :: "Model \<Rightarrow> bool" where
  "initial_sound m \<longleftrightarrow> distinct (m_initialStages m) \<and> (\<forall>s \<in> set (m_initialStages m). prevs m s = [])"

lemma set_initial:
  "set (m_initialStages (initial_emplace s m)) = insert s (set (m_initialStages m))"
  "set (m_initialStages (initial_erase s m)) = set (m_initialStages m) - {s}"
  by (auto simp: initial_emplace_def initial_erase_def)

lemma distinct_sort_insert: "distinct (sort_insert lt x xs) \<longleftrightarrow> x \<notin> set xs \<and> distinct xs"
  by (induction xs) auto

lemma distinct_initial:
  "distinct (m_initialStages m) \<Longrightarrow> distinct (m_initialStages (initial_emplace s m))"
  "distinct (m_initialStages m) \<Longrightarrow> distinct (m_initialStages (initial_erase s m))"
  by (simp_all add: initial_emplace_def initial_erase_def distinct_sort_insert)

lemma update_initial_sound:
  "distinct (m_initialStages m) \<Longrightarrow> \<forall>t \<in> set (m_initialStages m) - {s}. prevs m t = [] \<Longrightarrow>
     initial_sound (update_initial s m)"
  by (auto simp: initial_sound_def update_initial_def set_initial distinct_initial)

lemma set_update_initial:
  "set (m_initialStages (update_initial s m)) =
     (if prevs m s = [] then insert s (set (m_initialStages m)) else set (m_initialStages m) - {s})"
  by (simp add: update_initial_def set_initial)

lemma add_link_sound:
  "initial_sound m \<Longrightarrow> initial_sound (initial_erase c (add_link p c m))"
  using prevs_add_link [of p c m]
  by (auto simp: initial_sound_def set_initial distinct_initial fun_eq_iff split: if_splits)

lemma som_decr_Nil [simp]: "som_decr t [] = Inl AssertFailed"
  by (simp add: som_decr_def)

lemma del_link_sound:
  assumes "initial_sound m" "del_link p c m = Inr m'"
  shows "initial_sound m'"
proof -
  obtain pc where pc: "som_decr p (prevs m c) = Inr pc" "prevs m' = (prevs m)(c := pc)"
    using del_link_Inr(3) [OF assms(2)] by blast
  have "c \<notin> set (m_initialStages m)" using pc(1) assms(1) by (auto simp: initial_sound_def)
  then have "prevs m' s = []" if "s \<in> set (m_initialStages m)" for s
    using that assms(1) fun_cong [OF pc(2), of s] by (auto simp: initial_sound_def)
  with assms(1) show ?thesis by (simp add: initial_sound_def del_link_Inr(2) [OF assms(2)])
qed

lemma link_consumer_Inr:
  "link_consumer p e m = Inr m' \<Longrightarrow> m' = initial_erase (ed_consumer (m_in m e)) (add_link p (ed_consumer (m_in m e)) m)"
  by (auto simp: link_consumer_def Let_def)

lemma link_loop:
  assumes "foldE (link_consumer p) es m = Inr m'" "finite D" "d \<in> D" "P d = Some p"
    "links_match D P C (nexts m) (prevs m)"
  shows "bare m' = bare m \<and>
    links_match D P (C(d := C d + image_mset (\<lambda>e. ed_consumer (m_in m e)) (mset es))) (nexts m') (prevs m') \<and>
    (initial_sound m \<longrightarrow> initial_sound m') \<and>
    set (m_initialStages m') = set (m_initialStages m) - (\<lambda>e. ed_consumer (m_in m e)) ` set es"
  using assms(1,5)
proof (induction es arbitrary: m C)
  case (Cons e es)
  let ?c = "ed_consumer (m_in m e)"
  let ?m = "initial_erase ?c (add_link p ?c m)"
  from Cons.prems(1) have r: "foldE (link_consumer p) es ?m = Inr m'"
    by (auto dest: link_consumer_Inr)
  have b: "bare ?m = bare m" by simp
  have "links_match D P (C(d := add_mset ?c (C d))) (nexts ?m) (prevs ?m)"
    using links_add_link [OF Cons.prems(2) assms(2-4)] by simp
  from Cons.IH [OF r this] have i: "bare m' = bare ?m"
    "links_match D P (C(d := add_mset ?c (C d) + image_mset (\<lambda>e. ed_consumer (m_in ?m e)) (mset es))) (nexts m') (prevs m')"
    "initial_sound ?m \<longrightarrow> initial_sound m'"
    "set (m_initialStages m') = set (m_initialStages ?m) - (\<lambda>e. ed_consumer (m_in ?m e)) ` set es"
    unfolding fun_upd_upd fun_upd_same by blast+
  have in1: "m_in ?m = m_in m" by (rule bareD(3) [OF b])
  have "initial_sound m \<longrightarrow> initial_sound m'" using i(3) add_link_sound by blast
  moreover have "set (m_initialStages m') = set (m_initialStages m) - (\<lambda>e. ed_consumer (m_in m e)) ` set (e # es)"
    using i(4) in1 by (auto simp: set_initial)
  ultimately show ?case using i(1,2) in1 b by (simp del: fun_upd_apply)
qed simp

lemma unlink_loop:
  assumes r: "foldE (\<lambda>e m. bindE (unlink_consumer p e m) (\<lambda>m. Inr (g e m))) es m = Inr m'"
    and D: "finite D" "d \<in> D" "P d = Some p"
    and l: "links_match D P C (nexts m) (prevs m)"
    and C: "C d = image_mset (\<lambda>e. ed_consumer (m_in m e)) (mset es)"
    and g: "\<And>e m. bare (g e m) = bare m" "\<And>e m. m_stage (g e m) = m_stage m"
      "\<And>e m. initial_sound m \<Longrightarrow> initial_sound (g e m)"
      "\<And>e m. set (m_initialStages (g e m)) - {ed_consumer (m_in m e)} =
         set (m_initialStages m) - {ed_consumer (m_in m e)}"
      "\<And>e m. set (m_initialStages (g e m)) \<subseteq> insert (ed_consumer (m_in m e)) (set (m_initialStages m))"
  shows "bare m' = bare m \<and> links_match D P (C(d := {#})) (nexts m') (prevs m') \<and>
    (initial_sound m \<longrightarrow> initial_sound m') \<and>
    set (m_initialStages m') - (\<lambda>e. ed_consumer (m_in m e)) ` set es =
      set (m_initialStages m) - (\<lambda>e. ed_consumer (m_in m e)) ` set es \<and>
    set (m_initialStages m') \<subseteq> set (m_initialStages m) \<union> (\<lambda>e. ed_consumer (m_in m e)) ` set es"
  using r l C
proof (induction es arbitrary: m C)
  case Nil
  then have "C(d := {#}) = C" by (auto simp: fun_eq_iff)
  with Nil show ?case by simp
next
  case (Cons e es)
  let ?c = "ed_consumer (m_in m e)"
  from Cons.prems(1) obtain m1 where m1: "del_link p ?c m = Inr m1"
    and r: "foldE (\<lambda>e m. bindE (unlink_consumer p e m) (\<lambda>m. Inr (g e m))) es (g e m1) = Inr m'"
    by (auto simp: unlink_consumer_def)
  have b: "bare (g e m1) = bare m" using del_link_Inr(1) [OF m1] g(1) by simp
  have in1: "m_in m1 = m_in m" "m_in (g e m1) = m_in m"
    using bareD(3) [OF del_link_Inr(1) [OF m1]] bareD(3) [OF b] by simp_all
  have ini: "m_initialStages m1 = m_initialStages m" by (rule del_link_Inr(2) [OF m1])
  have c: "C d = add_mset ?c (image_mset (\<lambda>e. ed_consumer (m_in m e)) (mset es))"
    using Cons.prems(3) by simp
  let ?C = "C(d := image_mset (\<lambda>e. ed_consumer (m_in m e)) (mset es))"
  have "links_match D P ?C (nexts (g e m1)) (prevs (g e m1))"
    using links_del_link [OF Cons.prems(2) D c m1] by (simp add: g(2))
  moreover have "?C d = image_mset (\<lambda>x. ed_consumer (m_in (g e m1) x)) (mset es)" by (simp add: in1)
  ultimately have i: "bare m' = bare (g e m1)" "links_match D P (C(d := {#})) (nexts m') (prevs m')"
    "initial_sound (g e m1) \<longrightarrow> initial_sound m'"
    "set (m_initialStages m') - (\<lambda>e. ed_consumer (m_in m e)) ` set es =
      set (m_initialStages (g e m1)) - (\<lambda>e. ed_consumer (m_in m e)) ` set es"
    "set (m_initialStages m') \<subseteq> set (m_initialStages (g e m1)) \<union> (\<lambda>e. ed_consumer (m_in m e)) ` set es"
    using Cons.IH [OF r, of ?C] unfolding in1 fun_upd_upd by blast+
  have "initial_sound m \<longrightarrow> initial_sound m'" using i(3) g(3) del_link_sound [OF _ m1] by blast
  moreover have "set (m_initialStages (g e m1)) - {?c} = set (m_initialStages m) - {?c}"
    "set (m_initialStages (g e m1)) \<subseteq> insert ?c (set (m_initialStages m))"
    using g(4) [of e m1] g(5) [of e m1] in1 ini by simp_all
  then have "set (m_initialStages m') - (\<lambda>e. ed_consumer (m_in m e)) ` set (e # es) =
      set (m_initialStages m) - (\<lambda>e. ed_consumer (m_in m e)) ` set (e # es)"
    "set (m_initialStages m') \<subseteq> set (m_initialStages m) \<union> (\<lambda>e. ed_consumer (m_in m e)) ` set (e # es)"
    using i(4,5) by auto
  ultimately show ?case using i(1,2) b by (simp del: fun_upd_apply)
qed

section \<open>The invariant\<close>

text \<open>A stage is live when it belongs to the model and is not injected into another stage.\<close>

definition live :: "Model \<Rightarrow> nat \<Rightarrow> bool" where
  "live m s \<longleftrightarrow> ms_model (m_stage m s) \<and> ms_parentStageEdge (m_stage m s) = None"

definition consumers_ok :: "Model \<Rightarrow> bool" where
  "consumers_ok m \<longleftrightarrow> (\<forall>d. distinct (md_consumerEdges (m_data m d)) \<and>
     (\<forall>e \<in> set (md_consumerEdges (m_data m d)). d \<in> set (m_dataList m) \<and> e \<in> set (m_inList m) \<and>
        ed_input (m_in m e) = d \<and> live m (ed_consumer (m_in m e)) \<and>
        e \<in> set (ms_inputEdges (m_stage m (ed_consumer (m_in m e)))) \<and> md_usage (m_data m d) \<noteq> DU_Temp))"

definition inputs_ok :: "Model \<Rightarrow> bool" where
  "inputs_ok m \<longleftrightarrow> (\<forall>s. live m s \<longrightarrow> distinct (ms_inputEdges (m_stage m s)) \<and>
     (\<forall>e \<in> set (ms_inputEdges (m_stage m s)). ed_consumer (m_in m e) = s \<and>
        e \<in> set (md_consumerEdges (m_data m (ed_input (m_in m e))))))"

definition can_have_producer :: "DataUsage \<Rightarrow> bool" where
  "can_have_producer u \<longleftrightarrow> u = DU_Output \<or> u = DU_Intermediate \<or> u = DU_Fake"

definition producers_ok :: "Model \<Rightarrow> bool" where
  "producers_ok m \<longleftrightarrow> (\<forall>d e. md_producerEdge (m_data m d) = Some e \<longrightarrow> d \<in> set (m_dataList m) \<and>
     e \<in> set (m_outList m) \<and> ed_output (m_out m e) = d \<and> live m (ed_producer (m_out m e)) \<and>
     e \<in> set (ms_outputEdges (m_stage m (ed_producer (m_out m e)))) \<and> can_have_producer (md_usage (m_data m d)))"

definition outputs_ok :: "Model \<Rightarrow> bool" where
  "outputs_ok m \<longleftrightarrow> (\<forall>s. live m s \<longrightarrow> distinct (ms_outputEdges (m_stage m s)) \<and>
     (\<forall>e \<in> set (ms_outputEdges (m_stage m s)). ed_producer (m_out m e) = s \<and>
        md_producerEdge (m_data m (ed_output (m_out m e))) = Some e))"

definition temps_ok :: "Model \<Rightarrow> bool" where
  "temps_ok m \<longleftrightarrow> (\<forall>s. live m s \<longrightarrow> distinct (ms_tempBufferEdges (m_stage m s)) \<and>
     (\<forall>e \<in> set (ms_tempBufferEdges (m_stage m s)). ed_stage (m_temp m e) = s \<and> e \<in> set (m_tempList m)))"

definition outList_ok :: "Model \<Rightarrow> bool" where
  "outList_ok m \<longleftrightarrow> (\<forall>e \<in> set (m_outList m). ed_outParent (m_out m e) = None \<longrightarrow>
     md_producerEdge (m_data m (ed_output (m_out m e))) = Some e)"

definition numbers_ok :: "Model \<Rightarrow> bool" where
  "numbers_ok m \<longleftrightarrow> distinct (m_dataList m) \<and> distinct (m_inList m) \<and> distinct (m_outList m) \<and>
     distinct (m_tempList m) \<and> distinct (m_stageList m) \<and>
     (\<forall>x \<in> set (m_dataList m) \<union> set (m_inList m) \<union> set (m_outList m) \<union> set (m_tempList m). x < m_fresh m)"

definition edges_ok :: "Model \<Rightarrow> bool" where
  "edges_ok m \<longleftrightarrow> consumers_ok m \<and> inputs_ok m \<and> producers_ok m \<and> outputs_ok m \<and> temps_ok m \<and>
     outList_ok m \<and> numbers_ok m"

lemmas edges_defs = consumers_ok_def inputs_ok_def producers_ok_def outputs_ok_def temps_ok_def
  outList_ok_def numbers_ok_def

lemma edges_okI:
  "consumers_ok m \<Longrightarrow> inputs_ok m \<Longrightarrow> producers_ok m \<Longrightarrow> outputs_ok m \<Longrightarrow> temps_ok m \<Longrightarrow> outList_ok m \<Longrightarrow>
     numbers_ok m \<Longrightarrow> edges_ok m"
  by (simp add: edges_ok_def)

lemma edges_okD:
  assumes "edges_ok m"
  shows "distinct (md_consumerEdges (m_data m d))"
    "e \<in> set (md_consumerEdges (m_data m d)) \<Longrightarrow> d \<in> set (m_dataList m)"
    "e \<in> set (md_consumerEdges (m_data m d)) \<Longrightarrow> e \<in> set (m_inList m)"
    "e \<in> set (md_consumerEdges (m_data m d)) \<Longrightarrow> ed_input (m_in m e) = d"
    "e \<in> set (md_consumerEdges (m_data m d)) \<Longrightarrow> live m (ed_consumer (m_in m e))"
    "e \<in> set (md_consumerEdges (m_data m d)) \<Longrightarrow> e \<in> set (ms_inputEdges (m_stage m (ed_consumer (m_in m e))))"
    "live m s \<Longrightarrow> distinct (ms_inputEdges (m_stage m s))"
    "live m s \<Longrightarrow> e \<in> set (ms_inputEdges (m_stage m s)) \<Longrightarrow> ed_consumer (m_in m e) = s"
    "live m s \<Longrightarrow> e \<in> set (ms_inputEdges (m_stage m s)) \<Longrightarrow> e \<in> set (md_consumerEdges (m_data m (ed_input (m_in m e))))"
    "md_producerEdge (m_data m d) = Some e \<Longrightarrow> d \<in> set (m_dataList m)"
    "md_producerEdge (m_data m d) = Some e \<Longrightarrow> e \<in> set (m_outList m)"
    "md_producerEdge (m_data m d) = Some e \<Longrightarrow> ed_output (m_out m e) = d"
    "md_producerEdge (m_data m d) = Some e \<Longrightarrow> live m (ed_producer (m_out m e))"
    "md_producerEdge (m_data m d) = Some e \<Longrightarrow> e \<in> set (ms_outputEdges (m_stage m (ed_producer (m_out m e))))"
    "md_producerEdge (m_data m d) = Some e \<Longrightarrow> can_have_producer (md_usage (m_data m d))"
    "live m s \<Longrightarrow> distinct (ms_outputEdges (m_stage m s))"
    "live m s \<Longrightarrow> e \<in> set (ms_outputEdges (m_stage m s)) \<Longrightarrow> ed_producer (m_out m e) = s"
    "live m s \<Longrightarrow> e \<in> set (ms_outputEdges (m_stage m s)) \<Longrightarrow> md_producerEdge (m_data m (ed_output (m_out m e))) = Some e"
    "x \<in> set (m_dataList m) \<or> x \<in> set (m_inList m) \<or> x \<in> set (m_outList m) \<or> x \<in> set (m_tempList m) \<Longrightarrow> x < m_fresh m"
    "e \<in> set (md_consumerEdges (m_data m d)) \<Longrightarrow> md_usage (m_data m d) \<noteq> DU_Temp"
  using assms unfolding edges_ok_def edges_defs by blast+

lemma live_bare: "bare m' = bare m \<Longrightarrow> live m' s = live m s"
  by (simp add: live_def bareD [of m' m])

lemma edges_ok_bare:
  assumes "bare m' = bare m"
  shows "edges_ok m' = edges_ok m"
  unfolding edges_ok_def edges_defs by (simp only: bareD [OF assms] live_bare [OF assms])

definition consumers_of :: "Model \<Rightarrow> nat \<Rightarrow> nat multiset" where
  "consumers_of m d = image_mset (\<lambda>e. ed_consumer (m_in m e)) (mset (md_consumerEdges (m_data m d)))"

definition counts_ok :: "Model \<Rightarrow> bool" where
  "counts_ok m \<longleftrightarrow> links_match (set (m_dataList m)) (producer_of m) (consumers_of m) (nexts m) (prevs m)"

text \<open>
  Initial stages are live and have no predecessor; a live stage is initial if it has inputs and
  all of them are inputs or constants of the model. (A stage that reads a data object which has
  lost its producer need not be initial.)
\<close>

definition initial_live :: "Model \<Rightarrow> bool" where
  "initial_live m \<longleftrightarrow> (\<forall>s \<in> set (m_initialStages m). live m s)"

definition is_source :: "Model \<Rightarrow> nat \<Rightarrow> bool" where
  "is_source m d \<longleftrightarrow> md_producerEdge (m_data m d) = None \<and> \<not> can_have_producer (md_usage (m_data m d))"

definition initial_complete :: "Model \<Rightarrow> bool" where
  "initial_complete m \<longleftrightarrow> (\<forall>s. live m s \<longrightarrow> ms_inputEdges (m_stage m s) \<noteq> [] \<longrightarrow>
     (\<forall>e \<in> set (ms_inputEdges (m_stage m s)). is_source m (ed_input (m_in m e))) \<longrightarrow> s \<in> set (m_initialStages m))"

definition model_inv :: "Model \<Rightarrow> bool" where
  "model_inv m \<longleftrightarrow> edges_ok m \<and> counts_ok m \<and> initial_sound m \<and> initial_live m \<and> initial_complete m"

lemma model_invI:
  "edges_ok m \<Longrightarrow> counts_ok m \<Longrightarrow> initial_sound m \<Longrightarrow> initial_live m \<Longrightarrow> initial_complete m \<Longrightarrow> model_inv m"
  by (simp add: model_inv_def)

lemma model_invD:
  assumes "model_inv m"
  shows "edges_ok m" "counts_ok m" "initial_sound m" "initial_live m" "initial_complete m"
  using assms by (simp_all add: model_inv_def)

text \<open>Predecessors in terms of edges.\<close>

lemma prevs_empty_iff:
  assumes "edges_ok m" "counts_ok m" "live m s"
  shows "prevs m s = [] \<longleftrightarrow> (\<forall>e \<in> set (ms_inputEdges (m_stage m s)). md_producerEdge (m_data m (ed_input (m_in m e))) = None)"
proof -
  note l = links_matchD [OF assms(2) [unfolded counts_ok_def]]
  have "prevs m s = [] \<longleftrightarrow> (\<forall>p. \<forall>d \<in> set (m_dataList m). producer_of m d = Some p \<longrightarrow> s \<notin># consumers_of m d)"
    using som_empty [OF l(2) [of s]] l(4) [of s] link_count_pos(2) [of "set (m_dataList m)"] by simp
  also have "\<dots> \<longleftrightarrow> (\<forall>d \<in> set (m_dataList m). md_producerEdge (m_data m d) \<noteq> None \<longrightarrow>
      (\<forall>e \<in> set (md_consumerEdges (m_data m d)). ed_consumer (m_in m e) \<noteq> s))"
    by (auto simp: producer_of_def consumers_of_def)
  also have "\<dots> \<longleftrightarrow> (\<forall>e \<in> set (ms_inputEdges (m_stage m s)). md_producerEdge (m_data m (ed_input (m_in m e))) = None)"
    using edges_okD(2,4,6) [OF assms(1)] edges_okD(8,9) [OF assms(1,3)] by (metis (no_types, lifting))
  finally show ?thesis .
qed

end
