(* ===== verification/VpuStageOrder.thy ===== *)
theory VpuStageOrder
  imports VpuModel
begin

text \<open>
  The stage order of the VPU model (\<open>Model::buildStageOrder\<close> and \<open>Model::runDFS\<close>): over a stage
  graph whose bookkeeping is consistent, the depth-first search gives a topological order of all
  stages when there is a cycle-free one, and fails when there is none.
\<close>

section \<open>The stage graph\<close>

definition stage_edges :: "Model \<Rightarrow> (nat \<times> nat) set" where
  "stage_edges m = {(s, t). t \<in> fst ` set (ms_nextStages (m_stage m s))}"

text \<open>
  Consistent bookkeeping: live stages only, with positive counts, the two directions of every
  link agreeing, and no initial stage with a predecessor. The roots are complete when every stage
  without predecessors is initial.
\<close>

definition stage_graph_ok :: "Model \<Rightarrow> bool" where
  "stage_graph_ok m \<longleftrightarrow> distinct (m_stageList m) \<and> distinct (m_initialStages m) \<and>
     set (m_initialStages m) \<subseteq> {s \<in> set (m_stageList m). ms_prevStages (m_stage m s) = []} \<and>
     (\<forall>s \<in> set (m_stageList m). ms_parentStageEdge (m_stage m s) = None) \<and>
     (\<forall>s. \<forall>(t, n) \<in> set (ms_nextStages (m_stage m s)). n > 0) \<and>
     (\<forall>s t. (s, t) \<in> stage_edges m \<longrightarrow> s \<in> set (m_stageList m) \<and> t \<in> set (m_stageList m)) \<and>
     (\<forall>s t. (s, t) \<in> stage_edges m \<longleftrightarrow> s \<in> fst ` set (ms_prevStages (m_stage m t)))"

definition roots_complete :: "Model \<Rightarrow> bool" where
  "roots_complete m \<longleftrightarrow> (\<forall>s \<in> set (m_stageList m). ms_prevStages (m_stage m s) = [] \<longrightarrow> s \<in> set (m_initialStages m))"

lemma stage_graph_okD:
  assumes "stage_graph_ok m"
  shows "distinct (m_stageList m)" "distinct (m_initialStages m)"
    "s \<in> set (m_initialStages m) \<Longrightarrow> s \<in> set (m_stageList m) \<and> ms_prevStages (m_stage m s) = []"
    "s \<in> set (m_stageList m) \<Longrightarrow> ms_parentStageEdge (m_stage m s) = None"
    "(t, n) \<in> set (ms_nextStages (m_stage m s)) \<Longrightarrow> n > 0"
    "(s, t) \<in> stage_edges m \<Longrightarrow> s \<in> set (m_stageList m)"
    "(s, t) \<in> stage_edges m \<Longrightarrow> t \<in> set (m_stageList m)"
    "(s, t) \<in> stage_edges m \<longleftrightarrow> s \<in> fst ` set (ms_prevStages (m_stage m t))"
  using assms unfolding stage_graph_ok_def by blast+

lemma stage_edgesI: "(t, n) \<in> set (ms_nextStages (m_stage m s)) \<Longrightarrow> (s, t) \<in> stage_edges m"
  by (force simp: stage_edges_def)

lemma stage_edges_finite:
  assumes "stage_graph_ok m"
  shows "finite (stage_edges m)"
proof -
  have "stage_edges m \<subseteq> set (m_stageList m) \<times> set (m_stageList m)"
    using stage_graph_okD(6,7) [OF assms] by auto
  then show ?thesis using finite_subset by blast
qed

text \<open>A list is ordered when every stage comes before its successors, which are in the list.\<close>

fun topo :: "Model \<Rightarrow> nat list \<Rightarrow> bool" where
  "topo m [] = True"
| "topo m (s # q) = (s \<notin> set q \<and> (\<forall>t. (s, t) \<in> stage_edges m \<longrightarrow> t \<in> set q) \<and> topo m q)"

lemma topo_distinct: "topo m q \<Longrightarrow> distinct q"
  by (induction q) auto

lemma topo_closed: "topo m q \<Longrightarrow> s \<in> set q \<Longrightarrow> (s, t) \<in> stage_edges m \<Longrightarrow> t \<in> set q"
  by (induction q) auto

lemma topo_before:
  assumes "topo m q" "s \<in> set q" "(s, t) \<in> stage_edges m"
  shows "\<exists>i j. i < j \<and> j < length q \<and> q ! i = s \<and> q ! j = t"
  using assms
proof (induction q)
  case (Cons a q)
  show ?case
  proof (cases "s = a")
    case True
    with Cons.prems obtain j where "j < length q" "q ! j = t" by (auto simp: in_set_conv_nth)
    with True show ?thesis by (intro exI [of _ 0] exI [of _ "Suc j"]) simp
  next
    case False
    with Cons obtain i j where "i < j" "j < length q" "q ! i = s" "q ! j = t" by auto
    then show ?thesis by (intro exI [of _ "Suc i"] exI [of _ "Suc j"]) simp
  qed
qed simp

lemma topo_acyclic:
  assumes "topo m q" "\<And>s t. (s, t) \<in> stage_edges m \<Longrightarrow> s \<in> set q"
  shows "acyclic (stage_edges m)"
proof -
  define pos where "pos s = (THE i. i < length q \<and> q ! i = s)" for s
  have d: "distinct q" using assms(1) by (rule topo_distinct)
  have pos: "pos (q ! i) = i" if "i < length q" for i
    unfolding pos_def using that d by (auto simp: nth_eq_iff_index_eq intro: the_equality)
  have "pos s < pos t" if "(s, t) \<in> stage_edges m" for s t
    using topo_before [OF assms(1) assms(2) [OF that] that] pos by fastforce
  note step = this
  have "pos s < pos t" if "(s, t) \<in> (stage_edges m)\<^sup>+" for s t
    using that by (induction rule: trancl.induct) (use step in force)+
  then show ?thesis by (auto simp: acyclic_def)
qed

section \<open>Depth-first search\<close>

text \<open>
  The search body over the successors of a stage, named so that lemmas can speak about it.
\<close>

fun visit :: "nat \<Rightarrow> Model \<Rightarrow> nat \<times> int \<Rightarrow> DFS \<Rightarrow> DFS result" where
  "visit n m (next, k) (V, q) = bindE (ie_assert (k > 0)) (\<lambda>_.
     case V next of
       Some visited \<Rightarrow> if \<not> visited then Inl (Thrown ''Graph has cycle'') else Inr (V, q)
     | None \<Rightarrow> runDFS n m next (V, q))"

lemma runDFS_Suc:
  "runDFS (Suc n) m s (V, q) =
     bindE (ie_assert (ms_parentStageEdge (m_stage m s) = None)) (\<lambda>_.
     bindE (foldE (visit n m) (ms_nextStages (m_stage m s)) (V(s \<mapsto> False), q)) (\<lambda>(V, q).
     Inr (V(s \<mapsto> True), s # q)))"
proof -
  have "visit n m = (\<lambda>(next, count) (V, q). bindE (ie_assert (count > 0)) (\<lambda>_.
      case V next of Some visited \<Rightarrow> if \<not> visited then Inl (Thrown ''Graph has cycle'') else Inr (V, q)
      | None \<Rightarrow> runDFS n m next (V, q)))"
    by (auto simp: fun_eq_iff)
  then show ?thesis by simp
qed

declare runDFS.simps(2) [simp del]

text \<open>The finished stages are those in the list, and the list is ordered.\<close>

definition dfs_inv :: "Model \<Rightarrow> DFS \<Rightarrow> bool" where
  "dfs_inv m vo \<longleftrightarrow> topo m (snd vo) \<and> (\<forall>s. fst vo s = Some True \<longleftrightarrow> s \<in> set (snd vo))"

text \<open>What a search adds: more finished stages, all reachable from \<open>R\<close>, and no open one.\<close>

definition dfs_grows :: "Model \<Rightarrow> nat set \<Rightarrow> DFS \<Rightarrow> DFS \<Rightarrow> bool" where
  "dfs_grows m R vo vo' \<longleftrightarrow> (\<forall>s. fst vo' s = Some False \<longleftrightarrow> fst vo s = Some False) \<and>
     set (snd vo) \<subseteq> set (snd vo') \<and>
     (\<forall>t \<in> set (snd vo') - set (snd vo). \<exists>r \<in> R. (r, t) \<in> (stage_edges m)\<^sup>*)"

lemma dfs_grows_refl [simp]: "dfs_grows m R vo vo"
  by (simp add: dfs_grows_def)

lemma dfs_grows_trans:
  "dfs_grows m R vo vo1 \<Longrightarrow> dfs_grows m R' vo1 vo2 \<Longrightarrow> R \<subseteq> Q \<Longrightarrow> R' \<subseteq> Q \<Longrightarrow> dfs_grows m Q vo vo2"
  unfolding dfs_grows_def by (intro conjI; blast)

lemma runDFS_inv:
  "runDFS n m s vo = Inr vo' \<Longrightarrow> dfs_inv m vo \<Longrightarrow> fst vo s = None \<Longrightarrow>
     dfs_inv m vo' \<and> dfs_grows m {s} vo vo' \<and> s \<in> set (snd vo')"
proof (induction n arbitrary: s vo vo')
  case (Suc n)
  obtain V q where vo: "vo = (V, q)" by force
  obtain V1 q1 where f: "foldE (visit n m) (ms_nextStages (m_stage m s)) (V(s \<mapsto> False), q) = Inr (V1, q1)"
    and vo': "vo' = (V1(s \<mapsto> True), s # q1)"
    using Suc.prems(1) unfolding vo runDFS_Suc by auto
  have fold: "dfs_inv m vo2 \<and> dfs_grows m (fst ` set ps) vo1 vo2 \<and> fst ` set ps \<subseteq> set (snd vo2)"
    if "foldE (visit n m) ps vo1 = Inr vo2" "dfs_inv m vo1" for ps vo1 vo2
    using that
  proof (induction ps arbitrary: vo1)
    case (Cons p ps)
    then obtain vo3 where p: "visit n m p vo1 = Inr vo3" and r: "foldE (visit n m) ps vo3 = Inr vo2" by auto
    have "dfs_inv m vo3 \<and> dfs_grows m {fst p} vo1 vo3 \<and> fst p \<in> set (snd vo3)"
    proof (cases "fst vo1 (fst p)")
      case None
      with p have "runDFS n m (fst p) vo1 = Inr vo3" by (cases p; cases vo1) simp
      from Suc.IH [OF this Cons.prems(2) None] show ?thesis by blast
    next
      case (Some b)
      with p have "b" "vo3 = vo1" by (cases p; cases vo1; auto split: if_splits)+
      with Some Cons.prems(2) show ?thesis by (simp add: dfs_inv_def)
    qed
    moreover from this have "dfs_inv m vo2 \<and> dfs_grows m (fst ` set ps) vo3 vo2 \<and> fst ` set ps \<subseteq> set (snd vo2)"
      using Cons.IH [OF r] by blast
    ultimately show ?case using dfs_grows_trans [of m "{fst p}" vo1 vo3 "fst ` set ps" vo2]
      by (auto simp: dfs_grows_def)
  qed simp
  have inv: "topo m q" "V t = Some True \<longleftrightarrow> t \<in> set q" and Vs: "V s = None" for t
    using Suc.prems(2,3) by (auto simp: vo dfs_inv_def)
  have "s \<notin> set q" using inv(2) [of s] Vs by simp
  then have "dfs_inv m (V(s \<mapsto> False), q)" using inv by (simp add: dfs_inv_def)
  note r = fold [OF f this]
  have "V1 s = Some False" using r by (simp add: dfs_grows_def)
  moreover have "V1 s = Some True \<longleftrightarrow> s \<in> set q1" using r by (simp add: dfs_inv_def)
  ultimately have s: "s \<notin> set q1" by simp
  have E: "(s, t) \<in> stage_edges m" if "t \<in> fst ` set (ms_nextStages (m_stage m s))" for t
    using that by (simp add: stage_edges_def)
  have "topo m (s # q1)" using s r by (auto simp: dfs_inv_def stage_edges_def)
  moreover have "(V1(s \<mapsto> True)) t = Some True \<longleftrightarrow> t \<in> set (s # q1)" for t
    using r by (auto simp: dfs_inv_def)
  moreover have "(V1(s \<mapsto> True)) t = Some False \<longleftrightarrow> V t = Some False" for t
    using r Suc.prems(3) vo by (auto simp: dfs_grows_def)
  moreover have "(s, t) \<in> (stage_edges m)\<^sup>*" if "t \<in> set (s # q1) - set q" for t
  proof (cases "t = s")
    case False
    have "\<forall>t \<in> set q1 - set q. \<exists>u \<in> fst ` set (ms_nextStages (m_stage m s)). (u, t) \<in> (stage_edges m)\<^sup>*"
      using r by (simp add: dfs_grows_def)
    moreover have "t \<in> set q1 - set q" using that False by simp
    ultimately obtain u where "u \<in> fst ` set (ms_nextStages (m_stage m s))" "(u, t) \<in> (stage_edges m)\<^sup>*"
      by blast
    with E show ?thesis by (blast intro: converse_rtrancl_into_rtrancl)
  qed simp
  ultimately show ?case using r vo vo' by (auto simp: dfs_inv_def dfs_grows_def)
qed simp

text \<open>
  A search from a stage that every open stage leads to does not fail in an acyclic graph, when the
  fuel exceeds the number of stages that are not in the visited map.
\<close>

definition unseen :: "Model \<Rightarrow> (nat \<rightharpoonup> bool) \<Rightarrow> nat set" where
  "unseen m V = set (m_stageList m) - dom V"

lemma finite_unseen [simp]: "finite (unseen m V)"
  by (simp add: unseen_def)

lemma dfs_inv_dom:
  assumes "dfs_inv m vo" "dfs_inv m vo'" "dfs_grows m R vo vo'"
  shows "dom (fst vo) \<subseteq> dom (fst vo')"
proof
  fix s assume "s \<in> dom (fst vo)"
  then obtain b where "fst vo s = Some b" by auto
  with assms show "s \<in> dom (fst vo')" by (cases b) (fastforce simp: dfs_inv_def dfs_grows_def)+
qed

lemma runDFS_total:
  assumes ok: "stage_graph_ok m" and acyclic: "acyclic (stage_edges m)"
  shows "s \<in> set (m_stageList m) \<Longrightarrow> fst vo s = None \<Longrightarrow> dfs_inv m vo \<Longrightarrow>
     (\<And>g. fst vo g = Some False \<Longrightarrow> (g, s) \<in> (stage_edges m)\<^sup>+) \<Longrightarrow>
     card (unseen m (fst vo)) < n \<Longrightarrow> \<exists>vo'. runDFS n m s vo = Inr vo'"
proof (induction n arbitrary: s vo)
  case (Suc n)
  obtain V q where vo: "vo = (V, q)" by force
  let ?V = "V(s \<mapsto> False)"
  have inv: "topo m q" "V t = Some True \<longleftrightarrow> t \<in> set q" and Vs: "V s = None" for t
    using Suc.prems(2,3) by (auto simp: vo dfs_inv_def)
  have "s \<notin> set q" using inv(2) [of s] Vs by simp
  then have inv0: "dfs_inv m (?V, q)" using inv by (simp add: dfs_inv_def)
  have "unseen m ?V \<subset> unseen m V" using Suc.prems(1) Vs by (auto simp: unseen_def)
  then have fuel0: "card (unseen m ?V) < n"
    using Suc.prems(5) psubset_card_mono [of "unseen m V" "unseen m ?V"] by (simp add: vo)
  let ?P = "\<lambda>vo. dfs_inv m vo \<and> card (unseen m (fst vo)) < n \<and>
    (\<forall>g. fst vo g = Some False \<longleftrightarrow> ?V g = Some False)"
  have "\<exists>vo'. foldE (visit n m) (ms_nextStages (m_stage m s)) (?V, q) = Inr vo' \<and> ?P vo'"
  proof (rule foldE_total)
    fix p vo1 assume p: "p \<in> set (ms_nextStages (m_stage m s))" and P: "?P vo1"
    obtain t k where pk: "p = (t, k)" by force
    have st: "(s, t) \<in> stage_edges m" using p stage_edgesI unfolding pk by blast
    have k: "k > 0" using p stage_graph_okD(5) [OF ok] unfolding pk by blast
    have grey: "(g, t) \<in> (stage_edges m)\<^sup>+" if "fst vo1 g = Some False" for g
    proof (cases "g = s")
      case False
      with that P have "fst vo g = Some False" by (simp add: vo)
      then have "(g, s) \<in> (stage_edges m)\<^sup>+" by (rule Suc.prems(4))
      then show ?thesis using st by (rule trancl_into_trancl)
    qed (use st in blast)
    show "\<exists>vo'. visit n m p vo1 = Inr vo' \<and> ?P vo'"
    proof (cases "fst vo1 t")
      case None
      obtain vo2 where r: "runDFS n m t vo1 = Inr vo2"
        using Suc.IH [OF _ None _ grey] P stage_graph_okD(7) [OF ok st] by blast
      note i = runDFS_inv [OF r _ None]
      have "dom (fst vo1) \<subseteq> dom (fst vo2)" using dfs_inv_dom i P by blast
      then have "unseen m (fst vo2) \<subseteq> unseen m (fst vo1)" by (auto simp: unseen_def)
      then have "card (unseen m (fst vo2)) < n"
        using card_mono [of "unseen m (fst vo1)" "unseen m (fst vo2)"] P by simp
      moreover have "\<forall>g. fst vo2 g = Some False \<longleftrightarrow> ?V g = Some False"
        using i P unfolding dfs_grows_def by blast
      moreover have "visit n m p vo1 = Inr vo2" using r None k by (cases vo1) (simp add: pk)
      ultimately show ?thesis using i P by blast
    next
      case (Some b)
      have "b" using grey [of t] Some acyclic by (cases b) (auto simp: acyclic_def)
      with Some k P show ?thesis by (intro exI [of _ vo1]) (cases vo1, simp add: pk)
    qed
  qed (use inv0 fuel0 in simp)
  then obtain V1 q1 where "foldE (visit n m) (ms_nextStages (m_stage m s)) (?V, q) = Inr (V1, q1)" by auto
  then show ?case using stage_graph_okD(4) [OF ok Suc.prems(1)] by (simp add: vo runDFS_Suc)
qed simp

section \<open>The whole order\<close>

abbreviation search_all :: "Model \<Rightarrow> DFS result" where
  "search_all m \<equiv> foldE (runDFS (Suc (length (m_stageList m))) m) (m_initialStages m) (Map.empty, [])"

text \<open>The initial stages are searched one after the other, and none of them was seen before.\<close>

lemma unseen_root:
  assumes ok: "stage_graph_ok m" and j: "j \<in> set (m_initialStages m)" "j \<notin> set is"
    and inv: "dfs_inv m vo" "\<forall>g. fst vo g \<noteq> Some False"
    and seen: "\<forall>t \<in> set (snd vo). \<exists>i \<in> set is. (i, t) \<in> (stage_edges m)\<^sup>*"
  shows "fst vo j = None"
proof (cases "fst vo j")
  case (Some b)
  with inv have "j \<in> set (snd vo)" by (cases b) (auto simp: dfs_inv_def)
  with seen j(2) obtain i where "(i, j) \<in> (stage_edges m)\<^sup>*" "i \<noteq> j" by blast
  then obtain k where "(k, j) \<in> stage_edges m" by (metis rtranclE)
  with stage_graph_okD(3,8) [OF ok] j(1) show ?thesis by fastforce
qed

lemma search_roots:
  assumes ok: "stage_graph_ok m" and roots: "set (is @ js) \<subseteq> set (m_initialStages m)" "distinct (is @ js)"
    and r: "foldE (runDFS n m) js vo = Inr vo'" and inv: "dfs_inv m vo" "\<forall>g. fst vo g \<noteq> Some False"
    and seen: "\<forall>t \<in> set (snd vo). \<exists>i \<in> set is. (i, t) \<in> (stage_edges m)\<^sup>*"
  shows "dfs_inv m vo' \<and> (\<forall>g. fst vo' g \<noteq> Some False) \<and> set (snd vo) \<union> set js \<subseteq> set (snd vo') \<and>
    (\<forall>t \<in> set (snd vo'). \<exists>i \<in> set (is @ js). (i, t) \<in> (stage_edges m)\<^sup>*)"
  using roots r inv seen
proof (induction js arbitrary: "is" vo)
  case (Cons j js)
  then obtain vo1 where j: "runDFS n m j vo = Inr vo1" and r: "foldE (runDFS n m) js vo1 = Inr vo'" by auto
  have None: "fst vo j = None" by (rule unseen_root [OF ok _ _ Cons.prems(4-6)]) (use Cons.prems in auto)
  note i = runDFS_inv [OF j Cons.prems(4) None]
  have "dfs_inv m vo' \<and> (\<forall>g. fst vo' g \<noteq> Some False) \<and> set (snd vo1) \<union> set js \<subseteq> set (snd vo') \<and>
    (\<forall>t \<in> set (snd vo'). \<exists>i \<in> set ((is @ [j]) @ js). (i, t) \<in> (stage_edges m)\<^sup>*)"
  proof (rule Cons.IH [OF _ _ r])
    show "\<forall>t \<in> set (snd vo1). \<exists>i \<in> set (is @ [j]). (i, t) \<in> (stage_edges m)\<^sup>*"
    proof
      fix t assume "t \<in> set (snd vo1)"
      then consider "t \<in> set (snd vo)" | "(j, t) \<in> (stage_edges m)\<^sup>*"
        using i unfolding dfs_grows_def by blast
      then show "\<exists>i \<in> set (is @ [j]). (i, t) \<in> (stage_edges m)\<^sup>*"
        using Cons.prems(6) by cases auto
    qed
    show "\<forall>g. fst vo1 g \<noteq> Some False" using i Cons.prems(5) by (simp add: dfs_grows_def)
  qed (use i Cons.prems(1,2) in simp_all)
  with i show ?case by (auto simp: dfs_grows_def)
qed simp

lemma reached_from_root:
  assumes ok: "stage_graph_ok m" and roots: "roots_complete m" and acyclic: "acyclic (stage_edges m)"
  shows "s \<in> set (m_stageList m) \<Longrightarrow> \<exists>i \<in> set (m_initialStages m). (i, s) \<in> (stage_edges m)\<^sup>*"
proof (induction s rule: wf_induct_rule [OF finite_acyclic_wf [OF stage_edges_finite [OF ok] acyclic]])
  case (1 s)
  show ?case
  proof (cases "ms_prevStages (m_stage m s) = []")
    case True
    with 1 roots show ?thesis unfolding roots_complete_def by blast
  next
    case False
    then obtain p where "p \<in> fst ` set (ms_prevStages (m_stage m s))" by (cases "ms_prevStages (m_stage m s)") auto
    then have e: "(p, s) \<in> stage_edges m" using stage_graph_okD(8) [OF ok] by blast
    with 1 stage_graph_okD(6) [OF ok] show ?thesis by (meson rtrancl_into_rtrancl)
  qed
qed

lemma search_total:
  assumes ok: "stage_graph_ok m" and acyclic: "acyclic (stage_edges m)"
    and roots: "set (is @ js) \<subseteq> set (m_initialStages m)" "distinct (is @ js)"
    and inv: "dfs_inv m vo" "\<forall>g. fst vo g \<noteq> Some False"
    and seen: "\<forall>t \<in> set (snd vo). \<exists>i \<in> set is. (i, t) \<in> (stage_edges m)\<^sup>*"
  shows "\<exists>vo'. foldE (runDFS (Suc (length (m_stageList m))) m) js vo = Inr vo'"
  using roots inv seen
proof (induction js arbitrary: "is" vo)
  case (Cons j js)
  let ?n = "Suc (length (m_stageList m))"
  have None: "fst vo j = None" by (rule unseen_root [OF ok _ _ Cons.prems(3-5)]) (use Cons.prems in auto)
  have "card (unseen m (fst vo)) \<le> card (set (m_stageList m))" by (rule card_mono) (auto simp: unseen_def)
  also have "\<dots> \<le> length (m_stageList m)" by (rule card_length)
  finally have fuel: "card (unseen m (fst vo)) < ?n" by simp
  have "j \<in> set (m_stageList m)" using Cons.prems(1) stage_graph_okD(3) [OF ok] by auto
  then obtain vo1 where j: "runDFS ?n m j vo = Inr vo1"
    using runDFS_total [OF ok acyclic _ None Cons.prems(3) _ fuel] Cons.prems(4) by blast
  have "foldE (runDFS ?n m) [j] vo = Inr vo1" using j by simp
  note i = search_roots [OF ok _ _ this Cons.prems(3-5)]
  have i: "dfs_inv m vo1" "\<forall>g. fst vo1 g \<noteq> Some False"
    "\<forall>t \<in> set (snd vo1). \<exists>i \<in> set (is @ [j]). (i, t) \<in> (stage_edges m)\<^sup>*"
    using i Cons.prems(1,2) by auto
  have "\<exists>vo'. foldE (runDFS ?n m) js vo1 = Inr vo'"
    by (rule Cons.IH [OF _ _ i]) (use Cons.prems in auto)
  with j show ?case by simp
qed simp

text \<open>The search over all initial stages finds every stage, in order, exactly when there is no cycle.\<close>

lemma search_all_order:
  assumes ok: "stage_graph_ok m" and r: "search_all m = Inr (V, q)"
  shows "topo m q" "set q \<subseteq> set (m_stageList m)"
    "roots_complete m \<Longrightarrow> acyclic (stage_edges m) \<Longrightarrow> set q = set (m_stageList m)"
proof -
  have "dfs_inv m (Map.empty, [])" by (simp add: dfs_inv_def)
  from search_roots [OF ok _ _ r this, of "[]"] stage_graph_okD(2) [OF ok]
  have i: "dfs_inv m (V, q)" "set (m_initialStages m) \<subseteq> set q"
    "\<forall>t \<in> set q. \<exists>i \<in> set (m_initialStages m). (i, t) \<in> (stage_edges m)\<^sup>*" by auto
  show topo: "topo m q" using i(1) by (simp add: dfs_inv_def)
  have "t \<in> set (m_stageList m)" if "(i, t) \<in> (stage_edges m)\<^sup>*" "i \<in> set (m_stageList m)" for i t
    using that by (induction rule: rtrancl_induct) (use stage_graph_okD(7) [OF ok] in auto)
  then show sub: "set q \<subseteq> set (m_stageList m)" using i(3) stage_graph_okD(3) [OF ok] by blast
  have "t \<in> set q" if "(i, t) \<in> (stage_edges m)\<^sup>*" "i \<in> set q" for i t
    using that by (induction rule: rtrancl_induct) (use topo_closed [OF topo] in auto)
  then show "set q = set (m_stageList m)" if "roots_complete m" "acyclic (stage_edges m)"
    using reached_from_root [OF ok that] i(2) sub by blast
qed

lemma buildStageOrder_search:
  assumes "m_resetStageOrder m" "m_stageList m \<noteq> []"
  shows "buildStageOrder m = Inr m' \<longleftrightarrow> m_initialStages m \<noteq> [] \<and>
    (\<exists>V q. search_all m = Inr (V, q) \<and> length q = length (m_stageList m) \<and>
       m' = number_stages (m\<lparr>m_resetStageOrder := False, m_orderedStageList := q\<rparr>))"
proof -
  let ?m = "m\<lparr>m_orderedStageList := [], m_resetStageOrder := False\<rparr>"
  have "runDFS n ?m s vo = runDFS n m s vo" for n s vo
  proof (induction n arbitrary: s vo)
    case (Suc n)
    then have "visit n ?m = visit n m" by (auto simp: fun_eq_iff split: option.split)
    then show ?case by (cases vo) (simp add: runDFS_Suc)
  qed simp
  then have "runDFS n ?m = runDFS n m" for n by (simp add: fun_eq_iff)
  with assms show ?thesis by (auto simp: buildStageOrder_def Let_def)
qed

lemma number_loop:
  "distinct xs \<Longrightarrow> i < length xs \<Longrightarrow>
     ms_index (m_stage (fold (\<lambda>(i, s). upd_ms s (\<lambda>x. x\<lparr>ms_index := int i\<rparr>)) (enumerate k xs) m) (xs ! i)) = int (k + i)"
proof (induction xs arbitrary: k m i rule: rev_induct)
  case (snoc x xs)
  then show ?case by (auto simp: enumerate_append_eq nth_append upd_ms_def less_Suc_eq)
qed simp

lemma number_stages_list [simp]: "m_orderedStageList (number_stages m) = m_orderedStageList m"
proof -
  have "m_orderedStageList (fold (\<lambda>(i, s). upd_ms s (\<lambda>x. x\<lparr>ms_index := int i\<rparr>)) xs m) = m_orderedStageList m"
    for xs :: "(nat \<times> nat) list" and m by (induction xs arbitrary: m) (auto simp: upd_ms_def)
  then show ?thesis by (simp add: number_stages_def)
qed

text \<open>A successful \<open>buildStageOrder\<close> gives a topological order of all stages.\<close>

definition in_order :: "Model \<Rightarrow> bool" where
  "in_order m \<longleftrightarrow> distinct (m_orderedStageList m) \<and> set (m_orderedStageList m) = set (m_stageList m) \<and>
     (\<forall>i < length (m_orderedStageList m). ms_index (m_stage m (m_orderedStageList m ! i)) = int i) \<and>
     (\<forall>s t. (s, t) \<in> stage_edges m \<longrightarrow> ms_index (m_stage m s) < ms_index (m_stage m t))"

lemma stage_order_topological:
  assumes "stage_graph_ok m" and "m_resetStageOrder m" and "buildStageOrder m = Inr m'"
  shows "distinct (m_orderedStageList m') \<and> set (m_orderedStageList m') = set (m_stageList m) \<and>
    (\<forall>i < length (m_orderedStageList m'). ms_index (m_stage m' (m_orderedStageList m' ! i)) = int i) \<and>
    (\<forall>s t. (s, t) \<in> stage_edges m \<longrightarrow> ms_index (m_stage m' s) < ms_index (m_stage m' t))"
proof (cases "m_stageList m = []")
  case True
  with assms(2,3) have "m' = m\<lparr>m_orderedStageList := [], m_resetStageOrder := False\<rparr>"
    by (simp add: buildStageOrder_def)
  with True stage_graph_okD(6) [OF assms(1)] show ?thesis by fastforce
next
  case False
  with assms buildStageOrder_search obtain V q where r: "search_all m = Inr (V, q)"
    and len: "length q = length (m_stageList m)"
    and m': "m' = number_stages (m\<lparr>m_resetStageOrder := False, m_orderedStageList := q\<rparr>)" by blast
  note q = search_all_order [OF assms(1) r]
  have d: "distinct q" using q(1) by (rule topo_distinct)
  then have set_q: "set q = set (m_stageList m)"
    using q(2) len stage_graph_okD(1) [OF assms(1)] by (metis card_subset_eq distinct_card List.finite_set)
  have ix: "ms_index (m_stage m' (q ! i)) = int i" if "i < length q" for i
    using number_loop [OF d that, of 0] by (simp add: m' number_stages_def)
  have "ms_index (m_stage m' s) < ms_index (m_stage m' t)" if e: "(s, t) \<in> stage_edges m" for s t
  proof -
    obtain i j where "i < j" "j < length q" "q ! i = s" "q ! j = t"
      using topo_before [OF q(1) _ e] stage_graph_okD(6) [OF assms(1) e] set_q by blast
    with ix [of i] ix [of j] show ?thesis by auto
  qed
  with d set_q ix show ?thesis by (simp add: m')
qed

text \<open>When the roots are complete, it succeeds exactly on an acyclic graph.\<close>

lemma stage_order_iff_acyclic:
  assumes "stage_graph_ok m" and "m_resetStageOrder m" and roots: "roots_complete m"
  shows "(\<exists>m'. buildStageOrder m = Inr m') \<longleftrightarrow> acyclic (stage_edges m)"
proof (cases "m_stageList m = []")
  case True
  then have "stage_edges m = {}" using stage_graph_okD(6) [OF assms(1)] by fastforce
  with True assms(2) show ?thesis by (simp add: buildStageOrder_def acyclic_def)
next
  case False
  show ?thesis
  proof
    assume "\<exists>m'. buildStageOrder m = Inr m'"
    with buildStageOrder_search [OF assms(2) False] obtain V q where r: "search_all m = Inr (V, q)"
      and len: "length q = length (m_stageList m)" by blast
    note q = search_all_order [OF assms(1) r]
    have "set q = set (m_stageList m)"
      using q(2) len topo_distinct [OF q(1)] stage_graph_okD(1) [OF assms(1)]
      by (metis card_subset_eq distinct_card List.finite_set)
    with topo_acyclic [OF q(1)] stage_graph_okD(6) [OF assms(1)] show "acyclic (stage_edges m)" by blast
  next
    assume acyclic: "acyclic (stage_edges m)"
    have "dfs_inv m (Map.empty, [])" by (simp add: dfs_inv_def)
    from search_total [OF assms(1) acyclic _ _ this, of "[]"] stage_graph_okD(2) [OF assms(1)]
    obtain V q where r: "search_all m = Inr (V, q)" by force
    note q = search_all_order [OF assms(1) r]
    have "length q = length (m_stageList m)"
      using q(3) [OF roots acyclic] topo_distinct [OF q(1)] stage_graph_okD(1) [OF assms(1)] by (metis distinct_card)
    moreover have "m_initialStages m \<noteq> []"
      using False reached_from_root [OF assms(1) roots acyclic] by (metis empty_iff list.set(1) list.set_sel(1))
    ultimately show "\<exists>m'. buildStageOrder m = Inr m'"
      using r buildStageOrder_search [OF assms(2) False] by blast
  qed
qed

end
