(* ===== verification/VpuModelOps.thy ===== *)
theory VpuModelOps
  imports VpuModelInv VpuStageOrder
begin

text \<open>
  Every operation of \<open>model.cpp\<close> on data, edges and stages keeps the invariant of the VPU model, so
  every model that can be built has consistent link counts, and its stage order can be built
  whenever it has no cycle.
\<close>

section \<open>Fields the invariant does not depend on\<close>

definition core :: "Model \<Rightarrow> Model" where
  "core m = m\<lparr>m_batchSize := 0, m_allocBatchSize := 0, m_needAlloc := False,
     m_data := (\<lambda>d. (m_data m d)\<lparr>md_name := [], md_desc := default_desc, md_requiredStrides := no_strides,
       md_tempBufferEdge := None, md_parentDataEdge := None, md_childDataEdges := [], md_content := None\<rparr>),
     m_contentDesc := (\<lambda>_. default_desc), m_stage := (\<lambda>s. (m_stage m s)\<lparr>ms_index := 0\<rparr>),
     m_dataEdge := m_dataEdge mk_Model, m_dataEdgeList := [],
     m_resetStageOrder := False, m_orderedStageList := []\<rparr>"

lemma core_fields:
  "m_dataList (core m) = m_dataList m" "m_in (core m) = m_in m" "m_inList (core m) = m_inList m"
  "m_out (core m) = m_out m" "m_outList (core m) = m_outList m" "m_temp (core m) = m_temp m"
  "m_tempList (core m) = m_tempList m" "m_fresh (core m) = m_fresh m" "m_stageList (core m) = m_stageList m"
  "m_initialStages (core m) = m_initialStages m" "m_stageEdge (core m) = m_stageEdge m"
  "m_stageEdgeList (core m) = m_stageEdgeList m"
  "md_usage (m_data (core m) d) = md_usage (m_data m d)"
  "md_producerEdge (m_data (core m) d) = md_producerEdge (m_data m d)"
  "md_consumerEdges (m_data (core m) d) = md_consumerEdges (m_data m d)"
  "(m_stage (core m) s) = (m_stage m s)\<lparr>ms_index := 0\<rparr>"
  by (simp_all add: core_def)

lemma coreD:
  assumes "core m' = core m"
  shows "m_dataList m' = m_dataList m" "m_in m' = m_in m" "m_inList m' = m_inList m"
    "m_out m' = m_out m" "m_outList m' = m_outList m" "m_temp m' = m_temp m"
    "m_tempList m' = m_tempList m" "m_fresh m' = m_fresh m" "m_stageList m' = m_stageList m"
    "m_initialStages m' = m_initialStages m" "m_stageEdge m' = m_stageEdge m" "m_stageEdgeList m' = m_stageEdgeList m"
    "md_usage (m_data m' d) = md_usage (m_data m d)"
    "md_producerEdge (m_data m' d) = md_producerEdge (m_data m d)"
    "md_consumerEdges (m_data m' d) = md_consumerEdges (m_data m d)"
    "ms_inputEdges (m_stage m' s) = ms_inputEdges (m_stage m s)"
    "ms_outputEdges (m_stage m' s) = ms_outputEdges (m_stage m s)"
    "ms_tempBufferEdges (m_stage m' s) = ms_tempBufferEdges (m_stage m s)"
    "ms_parentStageEdge (m_stage m' s) = ms_parentStageEdge (m_stage m s)"
    "ms_model (m_stage m' s) = ms_model (m_stage m s)"
    "ms_injectedStageEdges (m_stage m' s) = ms_injectedStageEdges (m_stage m s)"
    "ms_prevStages (m_stage m' s) = ms_prevStages (m_stage m s)"
    "ms_nextStages (m_stage m' s) = ms_nextStages (m_stage m s)"
    "producer_of m' d = producer_of m d" "consumers_of m' d = consumers_of m d"
proof -
  note c = core_fields [of m'] core_fields [of m]
  have stage: "(m_stage m' s)\<lparr>ms_index := 0\<rparr> = (m_stage m s)\<lparr>ms_index := 0\<rparr>" by (metis c assms)
  show all: "m_dataList m' = m_dataList m" "m_in m' = m_in m" "m_inList m' = m_inList m"
    "m_out m' = m_out m" "m_outList m' = m_outList m" "m_temp m' = m_temp m"
    "m_tempList m' = m_tempList m" "m_fresh m' = m_fresh m" "m_stageList m' = m_stageList m"
    "m_initialStages m' = m_initialStages m" "m_stageEdge m' = m_stageEdge m" "m_stageEdgeList m' = m_stageEdgeList m"
    "md_usage (m_data m' d) = md_usage (m_data m d)"
    "md_producerEdge (m_data m' d) = md_producerEdge (m_data m d)"
    "md_consumerEdges (m_data m' d) = md_consumerEdges (m_data m d)" for d
    by (metis c assms)+
  show "ms_inputEdges (m_stage m' s) = ms_inputEdges (m_stage m s)"
    "ms_outputEdges (m_stage m' s) = ms_outputEdges (m_stage m s)"
    "ms_tempBufferEdges (m_stage m' s) = ms_tempBufferEdges (m_stage m s)"
    "ms_parentStageEdge (m_stage m' s) = ms_parentStageEdge (m_stage m s)"
    "ms_model (m_stage m' s) = ms_model (m_stage m s)"
    "ms_injectedStageEdges (m_stage m' s) = ms_injectedStageEdges (m_stage m s)"
    "ms_prevStages (m_stage m' s) = ms_prevStages (m_stage m s)"
    "ms_nextStages (m_stage m' s) = ms_nextStages (m_stage m s)"
    using arg_cong [OF stage, of ms_inputEdges] arg_cong [OF stage, of ms_outputEdges]
      arg_cong [OF stage, of ms_tempBufferEdges] arg_cong [OF stage, of ms_parentStageEdge]
      arg_cong [OF stage, of ms_model] arg_cong [OF stage, of ms_injectedStageEdges]
      arg_cong [OF stage, of ms_prevStages] arg_cong [OF stage, of ms_nextStages] by simp_all
  show "producer_of m' d = producer_of m d" by (simp add: producer_of_def all(4,14))
  show "consumers_of m' d = consumers_of m d" by (simp add: consumers_of_def all(2,15))
qed

lemma live_core: "core m' = core m \<Longrightarrow> live m' = live m"
  by (simp add: live_def coreD [of m' m] fun_eq_iff)

lemma edges_ok_core:
  assumes "core m' = core m"
  shows "edges_ok m' = edges_ok m"
  unfolding edges_ok_def edges_defs by (simp only: coreD [OF assms] live_core [OF assms])

lemma counts_ok_core:
  assumes "core m' = core m"
  shows "counts_ok m' = counts_ok m"
proof -
  have "producer_of m' = producer_of m" "consumers_of m' = consumers_of m" "nexts m' = nexts m" "prevs m' = prevs m"
    "m_dataList m' = m_dataList m" using coreD [OF assms] by (simp_all add: fun_eq_iff)
  then show ?thesis by (simp add: counts_ok_def)
qed

lemma model_inv_core:
  assumes "core m' = core m"
  shows "model_inv m' = model_inv m"
  unfolding model_inv_def initial_sound_def initial_live_def initial_complete_def is_source_def
  by (simp only: coreD [OF assms] live_core [OF assms] edges_ok_core [OF assms] counts_ok_core [OF assms])

lemma core_simps [simp]:
  "core (m\<lparr>m_batchSize := b\<rparr>) = core m" "core (m\<lparr>m_allocBatchSize := b\<rparr>) = core m"
  "core (m\<lparr>m_needAlloc := n\<rparr>) = core m" "core (m\<lparr>m_contentDesc := c\<rparr>) = core m"
  "core (m\<lparr>m_resetStageOrder := n\<rparr>) = core m" "core (m\<lparr>m_orderedStageList := q\<rparr>) = core m"
  "core (m\<lparr>m_dataEdge := de\<rparr>) = core m" "core (m\<lparr>m_dataEdgeList := ds\<rparr>) = core m"
  "core (upd_md d (\<lambda>x. x\<lparr>md_tempBufferEdge := t\<rparr>) m) = core m"
  by (auto simp: core_def upd_md_def fun_eq_iff)

section \<open>Data\<close>

lemma push_data_inv:
  assumes inv: "model_inv m" and x: "md_producerEdge x = None" "md_consumerEdges x = []"
  shows "model_inv (snd (push_data x m))"
proof -
  note e = edges_okD [OF model_invD(1) [OF inv]]
  let ?d = "m_fresh m" and ?m = "snd (push_data x m)"
  have new: "?d \<notin> set (m_dataList m)" using e(19) by blast
  have live: "live ?m s = live m s" for s by (simp add: live_def push_data_def)
  have old: "md_consumerEdges (m_data m ?d) = []" "md_producerEdge (m_data m ?d) = None"
    using e(2) [of _ ?d] e(10) [of ?d] new by (fastforce simp: neq_Nil_conv)+
  have src: "ed_input (m_in m e) \<noteq> ?d" if "live m s" "e \<in> set (ms_inputEdges (m_stage m s))" for e s
    using e(2) [OF e(9) [OF that]] new by auto
  have "edges_ok ?m"
  proof (rule edges_okI)
    note eo = model_invD(1) [OF inv, unfolded edges_ok_def]
    show "consumers_ok ?m" using eo x(2) unfolding consumers_ok_def live by (simp add: push_data_def)
    show "inputs_ok ?m" using eo src unfolding inputs_ok_def live by (simp add: push_data_def)
    show "producers_ok ?m" using eo x(1) unfolding producers_ok_def live by (simp add: push_data_def)
    have "ed_output (m_out m e) \<noteq> ?d" if "md_producerEdge (m_data m (ed_output (m_out m e))) = Some e" for e
      using that old(2) by auto
    then show "outputs_ok ?m" "outList_ok ?m"
      using eo unfolding outputs_ok_def outList_ok_def live by (auto simp: push_data_def)
    show "temps_ok ?m" using eo unfolding temps_ok_def live by (simp add: push_data_def)
    show "numbers_ok ?m" using eo new by (auto simp: numbers_ok_def push_data_def less_Suc_eq)
  qed
  moreover have "counts_ok ?m"
  proof -
    have "producer_of ?m = (producer_of m)(?d := None)" "consumers_of ?m = consumers_of m"
      using x old by (auto simp: fun_eq_iff producer_of_def consumers_of_def push_data_def)
    moreover have "link_count (insert ?d (set (m_dataList m))) ((producer_of m)(?d := None)) (consumers_of m) s t =
        link_count (set (m_dataList m)) (producer_of m) (consumers_of m) s t" for s t
      using new by (simp add: link_count_def) (rule sum.cong, auto)
    moreover have "set (m_dataList ?m) = insert ?d (set (m_dataList m))" "nexts ?m = nexts m" "prevs ?m = prevs m"
      by (simp_all add: push_data_def)
    ultimately show ?thesis
      using links_match_cong [OF model_invD(2) [OF inv, unfolded counts_ok_def]] by (simp add: counts_ok_def)
  qed
  moreover have "initial_sound ?m" "initial_live ?m"
    using model_invD(3,4) [OF inv] live by (simp_all add: initial_sound_def initial_live_def push_data_def)
  moreover have "initial_complete ?m"
    using model_invD(5) [OF inv] src unfolding initial_complete_def live
    by (simp add: is_source_def push_data_def)
  ultimately show ?thesis by (rule model_invI)
qed

section \<open>Inputs of stages\<close>

text \<open>The last step of most operations: \<open>update_initial\<close> puts one stage right.\<close>

lemma update_initial_inv:
  assumes e: "edges_ok m" and c: "counts_ok m" and s: "live m s"
    and i: "distinct (m_initialStages m)" "\<And>t. t \<in> set (m_initialStages m) \<Longrightarrow> t \<noteq> s \<Longrightarrow> prevs m t = [] \<and> live m t"
    and complete: "\<And>t. t \<noteq> s \<Longrightarrow> live m t \<Longrightarrow> ms_inputEdges (m_stage m t) \<noteq> [] \<Longrightarrow>
      \<forall>e \<in> set (ms_inputEdges (m_stage m t)). is_source m (ed_input (m_in m e)) \<Longrightarrow> t \<in> set (m_initialStages m)"
  shows "model_inv (update_initial s m)"
proof (rule model_invI)
  let ?m = "update_initial s m"
  have b: "bare ?m = bare m" by simp
  note f = bareD [OF b]
  show "edges_ok ?m" using e edges_ok_bare [OF b] by blast
  have "consumers_of ?m = consumers_of m" "producer_of ?m = producer_of m"
    by (auto simp: fun_eq_iff consumers_of_def f)
  then show "counts_ok ?m" using c by (simp add: counts_ok_def f(2))
  show "initial_sound ?m" using i by (intro update_initial_sound) auto
  show "initial_live ?m" using i(2) s by (auto simp: initial_live_def set_update_initial live_bare [OF b] split: if_splits)
  show "initial_complete ?m" unfolding initial_complete_def live_bare [OF b] is_source_def f
  proof (intro allI impI)
    fix t assume t: "live m t" "ms_inputEdges (m_stage m t) \<noteq> []"
      "\<forall>e \<in> set (ms_inputEdges (m_stage m t)). md_producerEdge (m_data m (ed_input (m_in m e))) = None \<and>
         \<not> can_have_producer (md_usage (m_data m (ed_input (m_in m e))))"
    show "t \<in> set (m_initialStages ?m)"
    proof (cases "t = s")
      case True
      with t prevs_empty_iff [OF e c t(1)] show ?thesis by (simp add: set_update_initial)
    next
      case False
      with complete [OF False t(1,2)] t(3) show ?thesis by (simp add: set_update_initial is_source_def)
    qed
  qed
qed

lemma new_input_edge_fields:
  "m_dataList (new_input_edge s d m) = m_dataList m" "m_outList (new_input_edge s d m) = m_outList m"
  "m_out (new_input_edge s d m) = m_out m" "m_temp (new_input_edge s d m) = m_temp m"
  "m_tempList (new_input_edge s d m) = m_tempList m" "m_stageList (new_input_edge s d m) = m_stageList m"
  "m_initialStages (new_input_edge s d m) = m_initialStages m" "m_fresh (new_input_edge s d m) = Suc (m_fresh m)"
  "m_inList (new_input_edge s d m) = m_inList m @ [m_fresh m]"
  "ed_consumer (m_in (new_input_edge s d m) e) = (if e = m_fresh m then s else ed_consumer (m_in m e))"
  "ed_input (m_in (new_input_edge s d m) e) = (if e = m_fresh m then d else ed_input (m_in m e))"
  "md_producerEdge (m_data (new_input_edge s d m) x) = md_producerEdge (m_data m x)"
  "md_usage (m_data (new_input_edge s d m) x) = md_usage (m_data m x)"
  "md_consumerEdges (m_data (new_input_edge s d m) x) =
     (if x = d then md_consumerEdges (m_data m x) @ [m_fresh m] else md_consumerEdges (m_data m x))"
  "ms_inputEdges (m_stage (new_input_edge s d m) t) =
     (if t = s then ms_inputEdges (m_stage m t) @ [m_fresh m] else ms_inputEdges (m_stage m t))"
  "ms_outputEdges (m_stage (new_input_edge s d m) t) = ms_outputEdges (m_stage m t)"
  "ms_tempBufferEdges (m_stage (new_input_edge s d m) t) = ms_tempBufferEdges (m_stage m t)"
  "ms_prevStages (m_stage (new_input_edge s d m) t) = ms_prevStages (m_stage m t)"
  "ms_nextStages (m_stage (new_input_edge s d m) t) = ms_nextStages (m_stage m t)"
  "live (new_input_edge s d m) t = live m t" "producer_of (new_input_edge s d m) x = producer_of m x"
  by (simp_all add: new_input_edge_def Let_def upd_md_def upd_ms_def live_def producer_of_def)

lemma fresh_edge:
  assumes "edges_ok m"
  shows "m_fresh m \<notin> set (md_consumerEdges (m_data m d))" "md_producerEdge (m_data m d) \<noteq> Some (m_fresh m)"
    "live m s \<Longrightarrow> m_fresh m \<notin> set (ms_inputEdges (m_stage m s))"
    "live m s \<Longrightarrow> m_fresh m \<notin> set (ms_outputEdges (m_stage m s))"
    "m_fresh m \<notin> set (m_inList m)" "m_fresh m \<notin> set (m_outList m)" "m_fresh m \<notin> set (m_tempList m)"
    "m_fresh m \<notin> set (m_dataList m)"
proof -
  note e = edges_okD [OF assms]
  show in_out: "m_fresh m \<notin> set (m_inList m)" "m_fresh m \<notin> set (m_outList m)" "m_fresh m \<notin> set (m_tempList m)"
    "m_fresh m \<notin> set (m_dataList m)" using e(19) by blast+
  show "m_fresh m \<notin> set (md_consumerEdges (m_data m d))" for d using e(3) in_out by blast
  then show "m_fresh m \<notin> set (ms_inputEdges (m_stage m s))" if "live m s" using e(9) [OF that] by blast
  show "md_producerEdge (m_data m d) \<noteq> Some (m_fresh m)" for d using e(11) in_out by blast
  then show "m_fresh m \<notin> set (ms_outputEdges (m_stage m s))" if "live m s" using e(18) [OF that] by blast
qed

lemma new_input_edge_ok:
  assumes ok: "edges_ok m" and s: "live m s" and d: "d \<in> set (m_dataList m)" "md_usage (m_data m d) \<noteq> DU_Temp"
  shows "edges_ok (new_input_edge s d m)"
proof -
  note e = edges_okD [OF ok] and n = fresh_edge [OF ok] and f = new_input_edge_fields
  note eo = ok [unfolded edges_ok_def]
  let ?m = "new_input_edge s d m"
  have inp: "ed_input (m_in m x) = d" if "x \<in> set (md_consumerEdges (m_data m d))" for x using e(4) that .
  show ?thesis
  proof (rule edges_okI)
    show "consumers_ok ?m" unfolding consumers_ok_def f
    proof (intro allI conjI ballI)
      fix x show "distinct (if x = d then md_consumerEdges (m_data m x) @ [m_fresh m] else md_consumerEdges (m_data m x))"
        using e(1) n(1) by simp
      fix k assume k: "k \<in> set (if x = d then md_consumerEdges (m_data m x) @ [m_fresh m] else md_consumerEdges (m_data m x))"
      then consider "k = m_fresh m" "x = d" | "k \<noteq> m_fresh m" "k \<in> set (md_consumerEdges (m_data m x))"
        using n(1) by (auto split: if_splits)
      note k = this
      show "x \<in> set (m_dataList m)" using k e(2) d by cases blast+
      show "md_usage (m_data m x) \<noteq> DU_Temp" using k e(20) d by cases blast+
      show "k \<in> set (m_inList m @ [m_fresh m])" using k e(3) by cases auto
      show "(if k = m_fresh m then d else ed_input (m_in m k)) = x" using k e(4) by cases auto
      show "live m (if k = m_fresh m then s else ed_consumer (m_in m k))" using k e(5) s by cases auto
      show "k \<in> set (if (if k = m_fresh m then s else ed_consumer (m_in m k)) = s
          then ms_inputEdges (m_stage m (if k = m_fresh m then s else ed_consumer (m_in m k))) @ [m_fresh m]
          else ms_inputEdges (m_stage m (if k = m_fresh m then s else ed_consumer (m_in m k))))"
        using k e(6) by cases auto
    qed
    show "inputs_ok ?m" unfolding inputs_ok_def f using e(7-9) n(1,3) by auto
    show "producers_ok ?m" using eo unfolding producers_ok_def f by blast
    show "outputs_ok ?m" using eo unfolding outputs_ok_def f by blast
    show "temps_ok ?m" using eo unfolding temps_ok_def f by blast
    show "outList_ok ?m" using eo unfolding outList_ok_def f by blast
    show "numbers_ok ?m" using eo n unfolding numbers_ok_def f by (auto simp: less_Suc_eq)
  qed
qed

lemma counts_ok_bare:
  assumes "bare m' = bare m"
  shows "counts_ok m' \<longleftrightarrow> links_match (set (m_dataList m)) (producer_of m) (consumers_of m) (nexts m') (prevs m')"
proof -
  have "producer_of m' = producer_of m" "consumers_of m' = consumers_of m"
    using bareD [OF assms] by (auto simp: fun_eq_iff consumers_of_def)
  with bareD(2) [OF assms] show ?thesis by (simp add: counts_ok_def)
qed

lemma link_input_counts:
  assumes l: "links_match (set (m_dataList m)) (producer_of m) C (nexts m) (prevs m)"
    and c: "consumers_of m = C(d := add_mset s (C d))" and d: "d \<in> set (m_dataList m)"
    and r: "link_input s d m = Inr m'"
  shows "bare m' = bare m" "m_initialStages m' = m_initialStages m" "counts_ok m'"
    "\<And>t. t \<noteq> s \<Longrightarrow> prevs m' t = prevs m t"
    "producer_of m d = None \<Longrightarrow> m' = m" "producer_of m d \<noteq> None \<Longrightarrow> prevs m' s \<noteq> []"
proof -
  have "bare m' = bare m \<and> m_initialStages m' = m_initialStages m \<and> counts_ok m' \<and>
    (\<forall>t. t \<noteq> s \<longrightarrow> prevs m' t = prevs m t) \<and> (producer_of m d = None \<longrightarrow> m' = m) \<and>
    (producer_of m d \<noteq> None \<longrightarrow> prevs m' s \<noteq> [])"
  proof (cases "producer_of m d")
    case None
    with r have m': "m' = m" by (simp add: link_input_def)
    have "links_match (set (m_dataList m)) (producer_of m) (consumers_of m) (nexts m) (prevs m)"
      by (rule links_match_consumers [OF l None]) (simp add: c)
    with m' None show ?thesis by (simp add: counts_ok_def)
  next
    case (Some p)
    with r have m': "m' = add_link p s m" by (auto simp: link_input_def)
    have "links_match (set (m_dataList m)) (producer_of m) (consumers_of m) (nexts m') (prevs m')"
      unfolding m' c using links_add_link [OF l _ d Some] by simp
    moreover obtain lt where lt: "prevs m' = (prevs m)(s := som_incr lt p (prevs m s))"
      unfolding m' using prevs_add_link by blast
    ultimately show ?thesis using Some counts_ok_bare [of m' m] fun_cong [OF lt] by (auto simp: m')
  qed
  then show "bare m' = bare m" "m_initialStages m' = m_initialStages m" "counts_ok m'"
    "\<And>t. t \<noteq> s \<Longrightarrow> prevs m' t = prevs m t"
    "producer_of m d = None \<Longrightarrow> m' = m" "producer_of m d \<noteq> None \<Longrightarrow> prevs m' s \<noteq> []" by blast+
qed

lemma addStageInput_Inr:
  assumes "addStageInput s d m = Inr (e, m')"
  shows "d \<in> set (m_dataList m)" "e = m_fresh m" "md_usage (m_data m d) \<noteq> DU_Temp"
    "\<exists>m1. link_input s d (new_input_edge s d (m\<lparr>m_resetStageOrder := True\<rparr>)) = Inr m1 \<and> m' = update_initial s m1"
  using assms by (auto simp: addStageInput_def Let_def)

lemma addStageInput_inv:
  assumes inv: "model_inv m" and s: "live m s" and r: "addStageInput s d m = Inr (e, m')"
  shows "model_inv m'" "live m' = live m" "m_stageList m' = m_stageList m" "m_dataList m' = m_dataList m"
    "m_resetStageOrder m'"
proof -
  let ?m = "m\<lparr>m_resetStageOrder := True\<rparr>"
  let ?m1 = "new_input_edge s d ?m"
  have inv0: "model_inv ?m" using inv model_inv_core [of ?m m] by simp
  note i = model_invD [OF inv0]
  have s0: "live ?m s" using s by (simp add: live_def)
  note d = addStageInput_Inr(1) [OF r] and f = new_input_edge_fields [of s d ?m] and n = fresh_edge [OF i(1)]
  obtain m2 where m2: "link_input s d ?m1 = Inr m2" and m': "m' = update_initial s m2"
    using addStageInput_Inr(4) [OF r] by blast
  have ok: "edges_ok ?m1" by (rule new_input_edge_ok [OF i(1) s0]) (use d addStageInput_Inr(3) [OF r] in simp_all)
  have cons: "consumers_of ?m1 = (consumers_of ?m)(d := add_mset s (consumers_of ?m d))"
    using n(1) unfolding consumers_of_def f by (auto simp: fun_eq_iff intro!: image_mset_cong)
  have "producer_of ?m1 = producer_of ?m" "nexts ?m1 = nexts ?m" "prevs ?m1 = prevs ?m" "m_dataList ?m1 = m_dataList ?m"
    using f by (auto simp: fun_eq_iff)
  then have l: "links_match (set (m_dataList ?m1)) (producer_of ?m1) (consumers_of ?m) (nexts ?m1) (prevs ?m1)"
    using i(2) by (simp add: counts_ok_def)
  note k = link_input_counts [OF l cons _ m2] and b = bareD [of m2 ?m1]
  have d1: "d \<in> set (m_dataList ?m1)" using d f by simp
  note k = k [OF d1]
  note b = bareD [OF k(1)] live_bare [OF k(1)]
  show "model_inv m'" unfolding m'
  proof (rule update_initial_inv)
    show "edges_ok m2" using ok edges_ok_bare [OF k(1)] by blast
    show "counts_ok m2" by (rule k(3))
    show "live m2 s" using s0 f b by simp
    show "distinct (m_initialStages m2)" using i(3) f by (simp add: initial_sound_def k(2))
    show "prevs m2 t = [] \<and> live m2 t" if "t \<in> set (m_initialStages m2)" "t \<noteq> s" for t
      using that i(3,4) k(4) [OF that(2)] f b by (simp add: k(2) initial_sound_def initial_live_def)
    show "t \<in> set (m_initialStages m2)"
      if t: "t \<noteq> s" "live m2 t" "ms_inputEdges (m_stage m2 t) \<noteq> []"
        "\<forall>e \<in> set (ms_inputEdges (m_stage m2 t)). is_source m2 (ed_input (m_in m2 e))" for t
    proof -
      have t': "live ?m t" "ms_inputEdges (m_stage m2 t) = ms_inputEdges (m_stage ?m t)" using t(1,2) b f by simp_all
      have "is_source ?m (ed_input (m_in ?m e))" if e: "e \<in> set (ms_inputEdges (m_stage ?m t))" for e
      proof -
        have "e \<noteq> m_fresh ?m" using n(3) [OF t'(1)] e by auto
        moreover have "is_source m2 (ed_input (m_in m2 e))" using t(4) e t'(2) by simp
        ultimately show ?thesis by (simp add: is_source_def b f)
      qed
      then show ?thesis using i(5) t' t(3) f unfolding initial_complete_def k(2) by simp
    qed
  qed
  have bb: "bare m' = bare ?m1" unfolding m' using k(1) by simp
  show "live m' = live m" using live_bare [OF bb] f by (auto simp: fun_eq_iff live_def)
  show "m_stageList m' = m_stageList m" "m_dataList m' = m_dataList m" using bareD(2,10) [OF bb] f by simp_all
  have "m_resetStageOrder ?m1" by (simp add: new_input_edge_def Let_def upd_md_def upd_ms_def)
  then show "m_resetStageOrder m'" using bareD(14) [OF bb] by simp
qed

section \<open>Outputs of stages\<close>

lemma new_output_edge_fields:
  "m_dataList (new_output_edge s d m) = m_dataList m" "m_inList (new_output_edge s d m) = m_inList m"
  "m_in (new_output_edge s d m) = m_in m" "m_temp (new_output_edge s d m) = m_temp m"
  "m_tempList (new_output_edge s d m) = m_tempList m" "m_stageList (new_output_edge s d m) = m_stageList m"
  "m_initialStages (new_output_edge s d m) = m_initialStages m" "m_fresh (new_output_edge s d m) = Suc (m_fresh m)"
  "m_outList (new_output_edge s d m) = m_outList m @ [m_fresh m]"
  "m_resetStageOrder (new_output_edge s d m) = m_resetStageOrder m"
  "ed_producer (m_out (new_output_edge s d m) e) = (if e = m_fresh m then s else ed_producer (m_out m e))"
  "ed_output (m_out (new_output_edge s d m) e) = (if e = m_fresh m then d else ed_output (m_out m e))"
  "ed_outParent (m_out (new_output_edge s d m) e) = (if e = m_fresh m then None else ed_outParent (m_out m e))"
  "md_producerEdge (m_data (new_output_edge s d m) x) = (if x = d then Some (m_fresh m) else md_producerEdge (m_data m x))"
  "md_usage (m_data (new_output_edge s d m) x) = md_usage (m_data m x)"
  "md_consumerEdges (m_data (new_output_edge s d m) x) = md_consumerEdges (m_data m x)"
  "ms_outputEdges (m_stage (new_output_edge s d m) t) =
     (if t = s then ms_outputEdges (m_stage m t) @ [m_fresh m] else ms_outputEdges (m_stage m t))"
  "ms_inputEdges (m_stage (new_output_edge s d m) t) = ms_inputEdges (m_stage m t)"
  "ms_tempBufferEdges (m_stage (new_output_edge s d m) t) = ms_tempBufferEdges (m_stage m t)"
  "ms_prevStages (m_stage (new_output_edge s d m) t) = ms_prevStages (m_stage m t)"
  "ms_nextStages (m_stage (new_output_edge s d m) t) = ms_nextStages (m_stage m t)"
  "live (new_output_edge s d m) t = live m t" "consumers_of (new_output_edge s d m) = consumers_of m"
  by (simp_all add: new_output_edge_def Let_def upd_md_def upd_ms_def live_def consumers_of_def fun_eq_iff)

lemma new_output_edge_ok:
  assumes ok: "edges_ok m" and s: "live m s" and d: "d \<in> set (m_dataList m)"
    and free: "md_producerEdge (m_data m d) = None" "can_have_producer (md_usage (m_data m d))"
  shows "edges_ok (new_output_edge s d m)"
proof -
  note e = edges_okD [OF ok] and n = fresh_edge [OF ok] and f = new_output_edge_fields
  note eo = ok [unfolded edges_ok_def]
  let ?m = "new_output_edge s d m"
  show ?thesis
  proof (rule edges_okI)
    show "consumers_ok ?m" using eo unfolding consumers_ok_def f by blast
    show "inputs_ok ?m" using eo unfolding inputs_ok_def f by blast
    show "temps_ok ?m" using eo unfolding temps_ok_def f by blast
    show "numbers_ok ?m" using eo n unfolding numbers_ok_def f by (auto simp: less_Suc_eq)
    have other: "ed_output (m_out m x) \<noteq> d" if "md_producerEdge (m_data m (ed_output (m_out m x))) = Some x" for x
      using that free(1) by auto
    show "outList_ok ?m" using eo other n(6) unfolding outList_ok_def f by auto
    show "outputs_ok ?m" unfolding outputs_ok_def f using e(16-18) n(4) other by auto
    show "producers_ok ?m" unfolding producers_ok_def f
    proof (intro allI impI)
      fix x k assume k: "(if x = d then Some (m_fresh m) else md_producerEdge (m_data m x)) = Some k"
      show "x \<in> set (m_dataList m) \<and> k \<in> set (m_outList m @ [m_fresh m]) \<and>
          (if k = m_fresh m then d else ed_output (m_out m k)) = x \<and>
          live m (if k = m_fresh m then s else ed_producer (m_out m k)) \<and>
          k \<in> set (if (if k = m_fresh m then s else ed_producer (m_out m k)) = s
            then ms_outputEdges (m_stage m (if k = m_fresh m then s else ed_producer (m_out m k))) @ [m_fresh m]
            else ms_outputEdges (m_stage m (if k = m_fresh m then s else ed_producer (m_out m k)))) \<and>
          can_have_producer (md_usage (m_data m x))"
      proof (cases "x = d")
        case True
        with k d s free(2) show ?thesis by simp
      next
        case False
        with k have p: "md_producerEdge (m_data m x) = Some k" by simp
        then have "k \<noteq> m_fresh m" using n(2) by auto
        with e(10-15) [OF p] show ?thesis by auto
      qed
    qed
  qed
qed

lemma can_be_output_Inr:
  "can_be_output d m = Inr () \<Longrightarrow> md_producerEdge (m_data m d) = None \<and> can_have_producer (md_usage (m_data m d))"
  by (auto simp: can_be_output_def can_have_producer_def Let_def split: option.splits)

text \<open>A stage gets a new output, or an output of it is redirected to a data object without a producer.\<close>

lemma link_consumers_inv:
  assumes i: "edges_ok m" "initial_sound m" "initial_live m"
    and d: "producer_of m d = Some p" "d \<in> set (m_dataList m)"
    and l: "links_match (set (m_dataList m)) (producer_of m) ((consumers_of m)(d := {#})) (nexts m) (prevs m)"
    and complete: "\<And>t. live m t \<Longrightarrow> ms_inputEdges (m_stage m t) \<noteq> [] \<Longrightarrow>
      \<forall>e \<in> set (ms_inputEdges (m_stage m t)). is_source m (ed_input (m_in m e)) \<Longrightarrow> t \<in> set (m_initialStages m)"
    and r: "foldE (link_consumer p) (md_consumerEdges (m_data m d)) m = Inr m'"
  shows "model_inv m'" "bare m' = bare m"
proof -
  note k = link_loop [OF r _ d(2,1) l]
  have "((consumers_of m)(d := {#}))(d := ((consumers_of m)(d := {#})) d +
      image_mset (\<lambda>e. ed_consumer (m_in m e)) (mset (md_consumerEdges (m_data m d)))) = consumers_of m"
    by (auto simp: fun_eq_iff consumers_of_def)
  with k have k: "bare m' = bare m" "links_match (set (m_dataList m)) (producer_of m) (consumers_of m) (nexts m') (prevs m')"
    "initial_sound m'"
    "set (m_initialStages m') = set (m_initialStages m) - (\<lambda>e. ed_consumer (m_in m e)) ` set (md_consumerEdges (m_data m d))"
    using i(2) by auto
  note b = bareD [OF k(1)] live_bare [OF k(1)]
  show "bare m' = bare m" by (rule k(1))
  show "model_inv m'"
  proof (rule model_invI)
    show "edges_ok m'" using i(1) edges_ok_bare [OF k(1)] by blast
    show "counts_ok m'" using k(2) counts_ok_bare [OF k(1)] by blast
    show "initial_sound m'" by (rule k(3))
    show "initial_live m'" using i(3) k(4) b by (auto simp: initial_live_def)
    show "initial_complete m'" unfolding initial_complete_def is_source_def b
    proof (intro allI impI)
      fix t assume t: "live m t" "ms_inputEdges (m_stage m t) \<noteq> []"
        "\<forall>e \<in> set (ms_inputEdges (m_stage m t)). md_producerEdge (m_data m (ed_input (m_in m e))) = None \<and>
           \<not> can_have_producer (md_usage (m_data m (ed_input (m_in m e))))"
      have "t \<noteq> ed_consumer (m_in m e)" if "e \<in> set (md_consumerEdges (m_data m d))" for e
        using t(3) edges_okD(4,6) [OF i(1) that] d(1) by (auto simp: producer_of_def)
      with complete [OF t(1,2)] t(3) show "t \<in> set (m_initialStages m')"
        unfolding k(4) is_source_def by blast
    qed
  qed
qed

lemma addStageOutput_inv:
  assumes inv: "model_inv m" and s: "live m s" and r: "addStageOutput s d m = Inr (e, m')"
  shows "model_inv m'" "live m' = live m" "m_stageList m' = m_stageList m" "m_dataList m' = m_dataList m"
    "m_resetStageOrder m'"
proof -
  let ?m = "m\<lparr>m_resetStageOrder := True\<rparr>"
  let ?m1 = "new_output_edge s d ?m"
  have inv0: "model_inv ?m" using inv model_inv_core [of ?m m] by simp
  note i = model_invD [OF inv0]
  have s0: "live ?m s" using s by (simp add: live_def)
  note f = new_output_edge_fields [of s d ?m]
  have d: "d \<in> set (m_dataList ?m)" "can_be_output d m = Inr ()"
    and m': "foldE (link_consumer s) (md_consumerEdges (m_data ?m1 d)) ?m1 = Inr m'"
    using r by (auto simp: addStageOutput_def Let_def)
  have free: "md_producerEdge (m_data ?m d) = None" "can_have_producer (md_usage (m_data ?m d))"
    using can_be_output_Inr [OF d(2)] by simp_all
  have "producer_of ?m1 x = (if x = d then Some s else producer_of ?m x)" for x
    using fresh_edge(2) [OF i(1), of x] by (cases "md_producerEdge (m_data m x)") (auto simp: producer_of_def f)
  then have P: "producer_of ?m1 = (producer_of ?m)(d := Some s)" "producer_of ?m d = None"
    using free(1) by (auto simp: fun_eq_iff producer_of_def)
  have l: "links_match (set (m_dataList ?m1)) (producer_of ?m1) ((consumers_of ?m1)(d := {#})) (nexts ?m1) (prevs ?m1)"
    using links_match_producer [OF i(2) [unfolded counts_ok_def], of d "producer_of ?m1" "(consumers_of ?m1)(d := {#})"] P
    by (simp add: f)
  have complete: "t \<in> set (m_initialStages ?m1)" if t: "live ?m1 t" "ms_inputEdges (m_stage ?m1 t) \<noteq> []"
      "\<forall>e \<in> set (ms_inputEdges (m_stage ?m1 t)). is_source ?m1 (ed_input (m_in ?m1 e))" for t
  proof -
    have "\<forall>e \<in> set (ms_inputEdges (m_stage ?m t)). is_source ?m (ed_input (m_in ?m e))"
      using t(3) unfolding is_source_def f by (metis option.distinct(1))
    with i(5) t(1,2) show ?thesis by (simp add: initial_complete_def f)
  qed
  have "initial_sound ?m1" "initial_live ?m1" using i(3,4) by (simp_all add: initial_sound_def initial_live_def f)
  moreover have "producer_of ?m1 d = Some s" "d \<in> set (m_dataList ?m1)" using P d f by simp_all
  ultimately have "model_inv m' \<and> bare m' = bare ?m1"
    using link_consumers_inv [OF new_output_edge_ok [OF i(1) s0 d(1) free] _ _ _ _ l complete m'] by blast
  then have b: "bare m' = bare ?m1" and "model_inv m'" by simp_all
  then show "model_inv m'" by simp
  show "live m' = live m" using live_bare [OF b] f by (auto simp: fun_eq_iff live_def)
  show "m_stageList m' = m_stageList m" "m_dataList m' = m_dataList m" using bareD(2,10) [OF b] f by simp_all
  show "m_resetStageOrder m'" using bareD(14) [OF b] f by simp
qed

section \<open>Temporary buffers\<close>

lemma new_temp_edge_fields:
  "m_dataList (new_temp_edge s d m) = m_dataList m" "m_inList (new_temp_edge s d m) = m_inList m"
  "m_in (new_temp_edge s d m) = m_in m" "m_outList (new_temp_edge s d m) = m_outList m"
  "m_out (new_temp_edge s d m) = m_out m" "m_stageList (new_temp_edge s d m) = m_stageList m"
  "m_initialStages (new_temp_edge s d m) = m_initialStages m" "m_fresh (new_temp_edge s d m) = Suc (m_fresh m)"
  "m_tempList (new_temp_edge s d m) = m_tempList m @ [m_fresh m]"
  "m_resetStageOrder (new_temp_edge s d m) = m_resetStageOrder m"
  "ed_stage (m_temp (new_temp_edge s d m) e) = (if e = m_fresh m then s else ed_stage (m_temp m e))"
  "md_producerEdge (m_data (new_temp_edge s d m) x) = md_producerEdge (m_data m x)"
  "md_usage (m_data (new_temp_edge s d m) x) = md_usage (m_data m x)"
  "md_consumerEdges (m_data (new_temp_edge s d m) x) = md_consumerEdges (m_data m x)"
  "ms_outputEdges (m_stage (new_temp_edge s d m) t) = ms_outputEdges (m_stage m t)"
  "ms_inputEdges (m_stage (new_temp_edge s d m) t) = ms_inputEdges (m_stage m t)"
  "ms_tempBufferEdges (m_stage (new_temp_edge s d m) t) =
     (if t = s then ms_tempBufferEdges (m_stage m t) @ [m_fresh m] else ms_tempBufferEdges (m_stage m t))"
  "nexts (new_temp_edge s d m) = nexts m" "prevs (new_temp_edge s d m) = prevs m"
  "live (new_temp_edge s d m) = live m" "consumers_of (new_temp_edge s d m) = consumers_of m"
  "producer_of (new_temp_edge s d m) = producer_of m"
  by (auto simp: new_temp_edge_def Let_def upd_md_def upd_ms_def live_def consumers_of_def producer_of_def fun_eq_iff)

lemma new_temp_edge_inv:
  assumes inv: "model_inv m"
  shows "model_inv (new_temp_edge s d m)"
proof (rule model_invI)
  note f = new_temp_edge_fields [of s d m] and i = model_invD [OF inv] and n = fresh_edge [OF model_invD(1) [OF inv]]
  note eo = i(1) [unfolded edges_ok_def]
  let ?m = "new_temp_edge s d m"
  show "edges_ok ?m"
  proof (rule edges_okI)
    show "consumers_ok ?m" using eo unfolding consumers_ok_def f by blast
    show "inputs_ok ?m" using eo unfolding inputs_ok_def f by blast
    show "producers_ok ?m" using eo unfolding producers_ok_def f by blast
    show "outputs_ok ?m" using eo unfolding outputs_ok_def f by blast
    show "outList_ok ?m" using eo unfolding outList_ok_def f by blast
    show "numbers_ok ?m" using eo n unfolding numbers_ok_def f by (auto simp: less_Suc_eq)
    have "m_fresh m \<notin> set (ms_tempBufferEdges (m_stage m t))" if "live m t" for t
      using eo n(7) that unfolding temps_ok_def by blast
    with eo show "temps_ok ?m" unfolding temps_ok_def f by auto
  qed
  show "counts_ok ?m" using i(2) unfolding counts_ok_def f .
  show "initial_sound ?m" using i(3) unfolding initial_sound_def f(7) using f(19) by metis
  show "initial_live ?m" using i(4) unfolding initial_live_def f .
  show "initial_complete ?m" using i(5) unfolding initial_complete_def is_source_def f .
qed

lemma addTempBuffer_inv:
  assumes inv: "model_inv m" and r: "addTempBuffer s desc m = Inr (e, m')"
  shows "model_inv m'" "live m' = live m" "m_stageList m' = m_stageList m"
    "set (m_dataList m) \<subseteq> set (m_dataList m')" "m_resetStageOrder m' = m_resetStageOrder m"
proof -
  let ?x = "mk_ModelData (ms_name (m_stage m s) @ ''@temp@'' @ nat_string (length (ms_tempBufferEdges (m_stage m s)) + 1)) DU_Temp desc"
  have x: "md_producerEdge ?x = None" "md_consumerEdges ?x = []" by (simp_all add: mk_ModelData_def)
  have m': "m' = new_temp_edge s (m_fresh m) (snd (push_data ?x m))"
    using r by (auto simp: addTempBuffer_def Let_def push_data_def)
  show "model_inv m'" unfolding m' by (intro new_temp_edge_inv push_data_inv inv x)
  show "live m' = live m" "m_stageList m' = m_stageList m" "set (m_dataList m) \<subseteq> set (m_dataList m')"
    "m_resetStageOrder m' = m_resetStageOrder m"
    unfolding m' new_temp_edge_fields by (auto simp: push_data_def live_def fun_eq_iff)
qed

section \<open>Redirecting edges\<close>

lemma erase_consumer_Inr:
  assumes "erase_consumer d e m = Inr m'"
  shows "e \<in> set (md_consumerEdges (m_data m d))"
    "m' = upd_md d (\<lambda>x. x\<lparr>md_consumerEdges := remove1 e (md_consumerEdges x)\<rparr>) m"
  using assms by (auto simp: erase_consumer_def erase_from_def upd_md_def)

lemma consumers_of_remove:
  "k \<in> set (md_consumerEdges (m_data m d)) \<Longrightarrow> consumers_of m d =
     add_mset (ed_consumer (m_in m k)) (image_mset (\<lambda>e. ed_consumer (m_in m e)) (mset (remove1 k (md_consumerEdges (m_data m d)))))"
  unfolding consumers_of_def by (simp add: image_mset_Diff [of "{#k#}", simplified])

text \<open>An edge leaves a data object: the counts follow when the link goes too.\<close>

lemma unlink_input_counts:
  assumes l: "links_match D (producer_of m) C (nexts m) (prevs m)" and D: "finite D" "d \<in> D"
    and X: "C d = add_mset c X"
    and r: "(case producer_of m d of None \<Rightarrow> Inr m | Some p \<Rightarrow> del_link p c m) = Inr m'"
  shows "bare m' = bare m \<and> m_initialStages m' = m_initialStages m \<and>
    links_match D (producer_of m) (C(d := X)) (nexts m') (prevs m') \<and>
    (\<forall>t. t \<noteq> c \<longrightarrow> prevs m' t = prevs m t) \<and> (initial_sound m \<longrightarrow> initial_sound m')"
proof (cases "producer_of m d")
  case None
  with r have m': "m' = m" by simp
  have "links_match D (producer_of m) (C(d := X)) (nexts m) (prevs m)"
    by (rule links_match_consumers [OF l None]) simp
  with m' show ?thesis by simp
next
  case (Some p)
  with r have m': "del_link p c m = Inr m'" by simp
  obtain pc where "prevs m' = (prevs m)(c := pc)" using del_link_Inr(3) [OF m'] by blast
  then have "\<forall>t. t \<noteq> c \<longrightarrow> prevs m' t = prevs m t" by (auto simp: fun_eq_iff)
  with links_del_link [OF l D Some X m'] del_link_Inr(1,2) [OF m'] del_link_sound [OF _ m'] show ?thesis by blast
qed

lemma redirect_input_fields:
  "m_dataList (redirect_input k d m) = m_dataList m" "m_inList (redirect_input k d m) = m_inList m"
  "m_out (redirect_input k d m) = m_out m" "m_temp (redirect_input k d m) = m_temp m"
  "m_outList (redirect_input k d m) = m_outList m" "m_tempList (redirect_input k d m) = m_tempList m"
  "m_stageList (redirect_input k d m) = m_stageList m"
  "m_initialStages (redirect_input k d m) = m_initialStages m" "m_fresh (redirect_input k d m) = m_fresh m"
  "m_resetStageOrder (redirect_input k d m) = m_resetStageOrder m" "m_stage (redirect_input k d m) = m_stage m"
  "ed_consumer (m_in (redirect_input k d m) e) = ed_consumer (m_in m e)"
  "ed_input (m_in (redirect_input k d m) e) = (if e = k then d else ed_input (m_in m e))"
  "md_producerEdge (m_data (redirect_input k d m) x) = md_producerEdge (m_data m x)"
  "md_usage (m_data (redirect_input k d m) x) = md_usage (m_data m x)"
  "md_consumerEdges (m_data (redirect_input k d m) x) =
     (if x = d then md_consumerEdges (m_data m x) @ [k] else md_consumerEdges (m_data m x))"
  "live (redirect_input k d m) = live m" "producer_of (redirect_input k d m) = producer_of m"
  by (auto simp: redirect_input_def upd_md_def upd_in_def live_def producer_of_def fun_eq_iff)

lemma redirect_input_ok:
  assumes ok: "edges_ok m" and old: "k \<in> set (md_consumerEdges (m_data m old))"
    and d: "d \<in> set (m_dataList m)" "md_usage (m_data m d) \<noteq> DU_Temp"
    and m1: "bare m1 = bare (upd_md old (\<lambda>x. x\<lparr>md_consumerEdges := remove1 k (md_consumerEdges x)\<rparr>) m)"
  shows "edges_ok (redirect_input k d m1)"
proof -
  let ?m1 = "upd_md old (\<lambda>x. x\<lparr>md_consumerEdges := remove1 k (md_consumerEdges x)\<rparr>) m"
  let ?m = "redirect_input k d m1"
  note e = edges_okD [OF ok] and eo = ok [unfolded edges_ok_def]
  have up: "md_consumerEdges (m_data ?m1 x) = (if x = old then remove1 k (md_consumerEdges (m_data m x)) else md_consumerEdges (m_data m x))"
    "md_producerEdge (m_data ?m1 x) = md_producerEdge (m_data m x)" "md_usage (m_data ?m1 x) = md_usage (m_data m x)"
    "m_dataList ?m1 = m_dataList m" "m_inList ?m1 = m_inList m" "m_outList ?m1 = m_outList m" "m_tempList ?m1 = m_tempList m"
    "m_in ?m1 = m_in m" "m_out ?m1 = m_out m" "m_temp ?m1 = m_temp m" "m_stage ?m1 = m_stage m" "m_fresh ?m1 = m_fresh m"
    "m_stageList ?m1 = m_stageList m" "live ?m1 = live m" for x
    by (auto simp: upd_md_def live_def fun_eq_iff)
  have lv: "live m1 = live m" using live_bare [OF m1] by (simp add: fun_eq_iff up)
  note f = redirect_input_fields [of k d m1] bareD [OF m1] lv up
  have k_only: "k \<in> set (md_consumerEdges (m_data m x)) \<Longrightarrow> x = old" for x using e(4) old by metis
  have base: "set (if x = old then remove1 k (md_consumerEdges (m_data m x)) else md_consumerEdges (m_data m x)) =
      set (md_consumerEdges (m_data m x)) - {k}" for x
    using e(1) k_only by (auto simp: set_remove1_eq)
  let ?base = "\<lambda>x. if x = old then remove1 k (md_consumerEdges (m_data m x)) else md_consumerEdges (m_data m x)"
  show ?thesis
  proof (rule edges_okI)
    show "consumers_ok ?m" unfolding consumers_ok_def f
    proof (intro allI conjI ballI)
      fix x
      have "k \<notin> set (?base x)" "distinct (?base x)" using base e(1) by simp_all
      then show "distinct (if x = d then ?base x @ [k] else ?base x)" by (cases "x = d"; cases "x = old") simp_all
      fix j assume "j \<in> set (if x = d then ?base x @ [k] else ?base x)"
      then have "j = k \<and> x = d \<or> j \<in> set (?base x)" by (cases "x = d") simp_all
      then consider "j = k" "x = d" | "j \<noteq> k" "j \<in> set (md_consumerEdges (m_data m x))"
        unfolding base by blast
      note j = this
      show "x \<in> set (m_dataList m)" using j e(2) d by cases blast+
      show "md_usage (m_data m x) \<noteq> DU_Temp" using j e(20) d by cases blast+
      show "j \<in> set (m_inList m)" using j e(3) old by cases blast+
      show "(if j = k then d else ed_input (m_in m j)) = x" using j e(4) by cases auto
      show "live m (ed_consumer (m_in m j))" using j e(5) old by cases blast+
      show "j \<in> set (ms_inputEdges (m_stage m (ed_consumer (m_in m j))))" using j e(6) old by cases blast+
    qed
    show "inputs_ok ?m" unfolding inputs_ok_def f
    proof (intro allI impI conjI ballI)
      fix t assume t: "live m t"
      show "distinct (ms_inputEdges (m_stage m t))" using e(7) t by blast
      fix j assume j: "j \<in> set (ms_inputEdges (m_stage m t))"
      show "ed_consumer (m_in m j) = t" using e(8) t j by blast
      show "j \<in> set (if (if j = k then d else ed_input (m_in m j)) = d
          then ?base (if j = k then d else ed_input (m_in m j)) @ [k]
          else ?base (if j = k then d else ed_input (m_in m j)))"
        using e(9) [OF t j] base by auto
    qed
    show "producers_ok ?m" using eo unfolding producers_ok_def f by blast
    show "outputs_ok ?m" using eo unfolding outputs_ok_def f by blast
    show "temps_ok ?m" using eo unfolding temps_ok_def f by blast
    show "outList_ok ?m" using eo unfolding outList_ok_def f by blast
    show "numbers_ok ?m" using eo unfolding numbers_ok_def f by blast
  qed
qed

lemma replaceStageInput_inv:
  assumes inv: "model_inv m" and r: "replaceStageInput k d m = Inr m'"
  shows "model_inv m'" "live m' = live m" "m_stageList m' = m_stageList m" "m_dataList m' = m_dataList m"
    "m_resetStageOrder m'"
proof -
  let ?c = "ed_consumer (m_in m k)" and ?old = "ed_input (m_in m k)"
  let ?m = "m\<lparr>m_resetStageOrder := True\<rparr>"
  let ?m1 = "upd_md ?old (\<lambda>x. x\<lparr>md_consumerEdges := remove1 k (md_consumerEdges x)\<rparr>) ?m"
  have inv0: "model_inv ?m" using inv model_inv_core [of ?m m] by simp
  note i = model_invD [OF inv0]
  obtain m1 m2 m3 where e: "erase_consumer ?old k ?m = Inr m1"
    and m2: "(case producer_of m1 ?old of None \<Rightarrow> Inr m1 | Some p \<Rightarrow> del_link p ?c m1) = Inr m2"
    and m3: "link_input ?c d (redirect_input k d m2) = Inr m3"
    and m': "m' = update_initial ?c (if producer_of (redirect_input k d m2) d \<noteq> None then initial_erase ?c m3 else m3)"
    and d: "d \<in> set (m_dataList m)" "md_usage (m_data m d) \<noteq> DU_Temp"
    using r by (auto simp: replaceStageInput_def Let_def)
  have k: "k \<in> set (md_consumerEdges (m_data ?m ?old))" and m1: "m1 = ?m1" using erase_consumer_Inr [OF e] by simp_all
  have old: "?old \<in> set (m_dataList ?m)" using edges_okD(2) [OF i(1) k] .
  let ?D = "set (m_dataList ?m)" and ?C = "consumers_of ?m" and ?mr = "redirect_input k d m2"
  define X where "X = image_mset (\<lambda>e. ed_consumer (m_in ?m e)) (mset (remove1 k (md_consumerEdges (m_data ?m ?old))))"
  have X: "?C ?old = add_mset ?c X" using consumers_of_remove [OF k] by (simp add: X_def)
  have P1: "producer_of m1 = producer_of ?m" "nexts m1 = nexts ?m" "prevs m1 = prevs ?m"
    "m_initialStages m1 = m_initialStages ?m" "live m1 = live ?m"
    by (auto simp: m1 upd_md_def producer_of_def live_def fun_eq_iff)
  have l1: "links_match ?D (producer_of m1) ?C (nexts m1) (prevs m1)" using i(2) unfolding counts_ok_def P1 .
  note u = unlink_input_counts [OF l1 _ old X m2]
  have u: "bare m2 = bare m1" "m_initialStages m2 = m_initialStages ?m"
    "links_match ?D (producer_of ?m) (?C(?old := X)) (nexts m2) (prevs m2)"
    "\<And>t. t \<noteq> ?c \<Longrightarrow> prevs m2 t = prevs ?m t" "initial_sound m2"
    using u i(3) fun_cong [OF P1(3)] unfolding P1(1,4) initial_sound_def by simp_all
  note f = redirect_input_fields [of k d m2]
  have ok: "edges_ok ?mr"
    by (rule redirect_input_ok [OF i(1) k _ _ u(1) [unfolded m1]]) (use d in simp_all)
  have Pr: "producer_of ?mr = producer_of ?m" using f(18) bareD(22) [OF u(1)] P1(1) by (auto simp: fun_eq_iff)
  have in2: "m_in m2 = m_in m" "m_dataList m2 = m_dataList m" "live m2 = live m"
    using bareD(2,3) [OF u(1)] live_bare [OF u(1)] P1(5) by (auto simp: m1 upd_md_def live_def fun_eq_iff)
  have data2: "m_data m2 = m_data m1" using bareD(1) [OF u(1)] .
  have cons: "consumers_of ?mr = (?C(?old := X))(d := add_mset ?c ((?C(?old := X)) d))"
    unfolding consumers_of_def f by (auto simp: fun_eq_iff data2 m1 upd_md_def in2 X_def)
  have lr: "links_match (set (m_dataList ?mr)) (producer_of ?mr) (?C(?old := X)) (nexts ?mr) (prevs ?mr)"
    using u(3) unfolding Pr f(1,11) in2(2) by simp
  have dr: "d \<in> set (m_dataList ?mr)" using d f(1) in2(2) by simp
  note q = link_input_counts [OF lr cons dr m3]
  define m4 where "m4 = (if producer_of ?mr d \<noteq> None then initial_erase ?c m3 else m3)"
  have m': "m' = update_initial ?c m4" using m' by (simp add: m4_def)
  have b4: "bare m4 = bare ?mr" and s4: "m_stage m4 = m_stage m3" using q(1) by (simp_all add: m4_def)
  note b = bareD [OF b4]
  have lm: "live ?m = live m" by (simp add: live_def fun_eq_iff)
  have lv4: "live m4 t = live ?m t" for t by (simp only: live_bare [OF b4] f(17) in2(3) lm)
  have sub: "set (m_initialStages m4) \<subseteq> set (m_initialStages ?m)"
    "set (m_initialStages ?m) \<subseteq> insert ?c (set (m_initialStages m4))"
    using q(2) f(8) u(2) by (auto simp: m4_def set_initial)
  have bare': "bare m' = bare ?mr" unfolding m' using b4 by simp
  show "model_inv m'" unfolding m'
  proof (rule update_initial_inv)
    show "edges_ok m4" using ok edges_ok_bare [OF b4] by blast
    show "counts_ok m4" using q(3) counts_ok_bare [OF q(1)] counts_ok_bare [OF b4] by (simp add: s4)
    show "live m4 ?c" unfolding lv4 using edges_okD(5) [OF i(1) k] by simp
    show "distinct (m_initialStages m4)" using u(5) q(2) f(8) by (simp add: m4_def initial_sound_def distinct_initial)
    show "prevs m4 t = [] \<and> live m4 t" if t: "t \<in> set (m_initialStages m4)" "t \<noteq> ?c" for t
    proof -
      have "t \<in> set (m_initialStages ?m)" using t sub by blast
      moreover have "prevs m4 t = prevs ?m t" using q(4) [OF t(2)] u(4) [OF t(2)] f(11) s4 by simp
      ultimately show ?thesis unfolding lv4 using i(3,4) unfolding initial_sound_def initial_live_def by simp
    qed
    show "t \<in> set (m_initialStages m4)"
      if t: "t \<noteq> ?c" "live m4 t" "ms_inputEdges (m_stage m4 t) \<noteq> []"
        "\<forall>e \<in> set (ms_inputEdges (m_stage m4 t)). is_source m4 (ed_input (m_in m4 e))" for t
    proof -
      have t': "live ?m t" "ms_inputEdges (m_stage m4 t) = ms_inputEdges (m_stage ?m t)"
        using t(2) lv4 by (simp_all only: b f bareD(15) [OF u(1)]) (simp_all add: m1 upd_md_def)
      have "is_source ?m (ed_input (m_in ?m e))" if e: "e \<in> set (ms_inputEdges (m_stage ?m t))" for e
      proof -
        have "e \<noteq> k" using edges_okD(8) [OF i(1) t'(1) e] t(1) by auto
        moreover have "is_source m4 (ed_input (m_in m4 e))" using t(4) e t'(2) by simp
        ultimately show ?thesis by (simp add: is_source_def b f in2 data2) (simp add: m1 upd_md_def split: if_splits)
      qed
      with i(5) t' t(3) have "t \<in> set (m_initialStages ?m)" unfolding initial_complete_def by simp
      with sub(2) t(1) show ?thesis by blast
    qed
  qed
  show "live m' = live m" using live_bare [OF bare'] f in2 by (auto simp: fun_eq_iff)
  show "m_stageList m' = m_stageList m" "m_dataList m' = m_dataList m"
    using bareD(2,10) [OF bare'] bareD(2,10) [OF u(1)] f by (simp_all add: m1 upd_md_def)
  show "m_resetStageOrder m'" using bareD(14) [OF bare'] bareD(14) [OF u(1)] f by (simp add: m1 upd_md_def)
qed

lemma redirect_output_fields:
  "m_dataList (redirect_output k d m) = m_dataList m" "m_inList (redirect_output k d m) = m_inList m"
  "m_in (redirect_output k d m) = m_in m" "m_temp (redirect_output k d m) = m_temp m"
  "m_outList (redirect_output k d m) = m_outList m" "m_tempList (redirect_output k d m) = m_tempList m"
  "m_stageList (redirect_output k d m) = m_stageList m"
  "m_initialStages (redirect_output k d m) = m_initialStages m" "m_fresh (redirect_output k d m) = m_fresh m"
  "m_resetStageOrder (redirect_output k d m) = m_resetStageOrder m" "m_stage (redirect_output k d m) = m_stage m"
  "ed_producer (m_out (redirect_output k d m) e) = ed_producer (m_out m e)"
  "ed_outParent (m_out (redirect_output k d m) e) = ed_outParent (m_out m e)"
  "ed_output (m_out (redirect_output k d m) e) = (if e = k then d else ed_output (m_out m e))"
  "md_producerEdge (m_data (redirect_output k d m) x) = (if x = d then Some k else md_producerEdge (m_data m x))"
  "md_usage (m_data (redirect_output k d m) x) = md_usage (m_data m x)"
  "md_consumerEdges (m_data (redirect_output k d m) x) = md_consumerEdges (m_data m x)"
  "live (redirect_output k d m) = live m" "consumers_of (redirect_output k d m) = consumers_of m"
  by (auto simp: redirect_output_def upd_md_def upd_out_def live_def consumers_of_def fun_eq_iff)

lemma redirect_output_ok:
  assumes ok: "edges_ok m" and old: "md_producerEdge (m_data m old) = Some k" and d: "d \<in> set (m_dataList m)"
    and free: "md_producerEdge (m_data m d) = None" "can_have_producer (md_usage (m_data m d))"
    and m1: "bare m1 = bare (upd_md old (\<lambda>x. x\<lparr>md_producerEdge := None\<rparr>) m)"
  shows "edges_ok (redirect_output k d m1)"
proof -
  let ?m1 = "upd_md old (\<lambda>x. x\<lparr>md_producerEdge := None\<rparr>) m" and ?m = "redirect_output k d m1"
  note e = edges_okD [OF ok] and eo = ok [unfolded edges_ok_def]
  have up: "md_producerEdge (m_data ?m1 x) = (if x = old then None else md_producerEdge (m_data m x))"
    "md_consumerEdges (m_data ?m1 x) = md_consumerEdges (m_data m x)" "md_usage (m_data ?m1 x) = md_usage (m_data m x)"
    "m_dataList ?m1 = m_dataList m" "m_inList ?m1 = m_inList m" "m_outList ?m1 = m_outList m" "m_tempList ?m1 = m_tempList m"
    "m_in ?m1 = m_in m" "m_out ?m1 = m_out m" "m_temp ?m1 = m_temp m" "m_stage ?m1 = m_stage m" "m_fresh ?m1 = m_fresh m"
    "m_stageList ?m1 = m_stageList m" "live ?m1 = live m" for x
    by (auto simp: upd_md_def live_def fun_eq_iff)
  have lv: "live m1 = live m" using live_bare [OF m1] by (simp add: fun_eq_iff up)
  note f = redirect_output_fields [of k d m1] bareD [OF m1] lv up
  have k: "ed_output (m_out m k) = old" using e(12) [OF old] .
  have ne: "d \<noteq> old" using free(1) old by auto
  have out: "ed_output (m_out m j) \<noteq> old" "ed_output (m_out m j) \<noteq> d"
    if "md_producerEdge (m_data m (ed_output (m_out m j))) = Some j" "j \<noteq> k" for j
    using that old free(1) by auto
  show ?thesis
  proof (rule edges_okI)
    show "consumers_ok ?m" using eo unfolding consumers_ok_def f by blast
    show "inputs_ok ?m" using eo unfolding inputs_ok_def f by blast
    show "temps_ok ?m" using eo unfolding temps_ok_def f by blast
    show "numbers_ok ?m" using eo unfolding numbers_ok_def f by blast
    show "outList_ok ?m" using eo out unfolding outList_ok_def f by auto
    show "outputs_ok ?m" using e(16-18) out unfolding outputs_ok_def f by auto
    show "producers_ok ?m" unfolding producers_ok_def f
    proof (intro allI impI)
      fix x j assume j: "(if x = d then Some k else if x = old then None else md_producerEdge (m_data m x)) = Some j"
      show "x \<in> set (m_dataList m) \<and> j \<in> set (m_outList m) \<and> (if j = k then d else ed_output (m_out m j)) = x \<and>
        live m (ed_producer (m_out m j)) \<and> j \<in> set (ms_outputEdges (m_stage m (ed_producer (m_out m j)))) \<and>
        can_have_producer (md_usage (m_data m x))"
      proof (cases "x = d")
        case True
        with j d free(2) e(11,13,14) [OF old] show ?thesis by simp
      next
        case False
        with j have x: "x \<noteq> old" "md_producerEdge (m_data m x) = Some j" by (auto split: if_splits)
        then have "j \<noteq> k" using e(12) [OF x(2)] k by auto
        with e(10-15) [OF x(2)] show ?thesis by simp
      qed
    qed
  qed
qed

lemma bindE_Inr [simp]: "bindE r Inr = r"
  by (cases r) auto

lemma replaceStageOutput_inv:
  assumes inv: "model_inv m" and r: "replaceStageOutput k d m = Inr m'"
  shows "model_inv m'" "live m' = live m" "m_stageList m' = m_stageList m" "m_dataList m' = m_dataList m"
    "m_resetStageOrder m'"
proof -
  let ?p = "ed_producer (m_out m k)" and ?old = "ed_output (m_out m k)"
  let ?m = "m\<lparr>m_resetStageOrder := True\<rparr>"
  let ?m1 = "upd_md ?old (\<lambda>x. x\<lparr>md_producerEdge := None\<rparr>) ?m"
  let ?es = "md_consumerEdges (m_data m ?old)"
  have inv0: "model_inv ?m" using inv model_inv_core [of ?m m] by simp
  note i = model_invD [OF inv0]
  have d: "d \<in> set (m_dataList ?m)" "can_be_output d m = Inr ()" "k \<in> set (m_outList m)" "ed_outParent (m_out m k) = None"
    using r by (auto simp: replaceStageOutput_def Let_def)
  have "md_consumerEdges (m_data ?m1 ?old) = ?es" by (simp add: upd_md_def)
  then obtain m2 where m2: "foldE (\<lambda>ce m. bindE (unlink_consumer ?p ce m) (\<lambda>m. Inr (update_initial (ed_consumer (m_in m ce)) m))) ?es ?m1 = Inr m2"
    and m': "foldE (link_consumer ?p) (md_consumerEdges (m_data (redirect_output k d m2) d)) (redirect_output k d m2) = Inr m'"
    using r by (auto simp: replaceStageOutput_def Let_def)
  let ?m3 = "redirect_output k d m2"
  have free: "md_producerEdge (m_data ?m d) = None" "can_have_producer (md_usage (m_data ?m d))"
    using can_be_output_Inr [OF d(2)] by simp_all
  have old: "md_producerEdge (m_data ?m ?old) = Some k"
    using model_invD(1) [OF inv] d(3,4) by (simp add: edges_ok_def outList_ok_def)
  note o = edges_okD(10-15) [OF i(1) old]
  let ?D = "set (m_dataList ?m)" and ?P = "producer_of ?m" and ?C = "consumers_of ?m"
  have P: "?P ?old = Some ?p" "?P d = None" using old free(1) by (auto simp: producer_of_def)
  have ne: "d \<noteq> ?old" using old free(1) by auto
  have m1: "m_in ?m1 = m_in m" "m_initialStages ?m1 = m_initialStages m" "m_stage ?m1 = m_stage m" by (simp_all add: upd_md_def)
  have l1: "links_match ?D ?P ?C (nexts ?m1) (prevs ?m1)" using i(2) unfolding counts_ok_def m1 by simp
  have C1: "?C ?old = image_mset (\<lambda>e. ed_consumer (m_in ?m1 e)) (mset ?es)" by (simp add: consumers_of_def m1)
  let ?c = "\<lambda>e. ed_consumer (m_in m e)"
  have "bare m2 = bare ?m1 \<and> links_match ?D ?P (?C(?old := {#})) (nexts m2) (prevs m2) \<and>
    (initial_sound ?m1 \<longrightarrow> initial_sound m2) \<and>
    set (m_initialStages m2) - (\<lambda>e. ed_consumer (m_in ?m1 e)) ` set ?es =
      set (m_initialStages ?m1) - (\<lambda>e. ed_consumer (m_in ?m1 e)) ` set ?es \<and>
    set (m_initialStages m2) \<subseteq> set (m_initialStages ?m1) \<union> (\<lambda>e. ed_consumer (m_in ?m1 e)) ` set ?es"
    by (rule unlink_loop [OF m2 _ _ P(1) l1 C1])
      (use o(1) in \<open>auto simp: set_update_initial initial_sound_def update_initial_def distinct_initial set_initial\<close>)
  then have u: "bare m2 = bare ?m1" "links_match ?D ?P (?C(?old := {#})) (nexts m2) (prevs m2)"
    "initial_sound m2" "set (m_initialStages m2) - ?c ` set ?es = set (m_initialStages m) - ?c ` set ?es"
    "set (m_initialStages m2) \<subseteq> set (m_initialStages m) \<union> ?c ` set ?es"
    using i(3) by (simp_all add: initial_sound_def m1)
  note f = redirect_output_fields [of k d m2]
  have ok: "edges_ok ?m3"
    by (rule redirect_output_ok [OF i(1) old d(1) free u(1)])
  have in2: "m_in m2 = m_in m" "m_dataList m2 = m_dataList m" "m_out m2 = m_out m" "m_data m2 = m_data ?m1"
    "live m2 = live ?m" "m_resetStageOrder m2" "m_stageList m2 = m_stageList m"
    "\<And>t. ms_inputEdges (m_stage m2 t) = ms_inputEdges (m_stage m t)"
    using bareD [OF u(1)] live_bare [OF u(1)] by (auto simp: upd_md_def live_def fun_eq_iff)
  have data3: "md_producerEdge (m_data ?m3 x) = (if x = d then Some k else if x = ?old then None else md_producerEdge (m_data ?m x))"
    "md_usage (m_data ?m3 x) = md_usage (m_data ?m x)" for x by (simp_all add: f in2(4)) (simp_all add: upd_md_def)
  have "producer_of ?m3 x = (?P(?old := None, d := Some ?p)) x" for x
    using data3 ne by (simp add: producer_of_def f in2(3))
  then have P3: "producer_of ?m3 = ?P(?old := None, d := Some ?p)" by blast
  have C3: "consumers_of ?m3 = ?C" unfolding f(19) by (auto simp: consumers_of_def in2 upd_md_def fun_eq_iff)
  have "links_match ?D (?P(?old := None)) ?C (nexts m2) (prevs m2)"
    by (rule links_match_producer [OF u(2), of ?old]) auto
  then have "links_match ?D (producer_of ?m3) (?C(d := {#})) (nexts m2) (prevs m2)"
    unfolding P3 by (rule links_match_producer [of _ _ _ _ _ d]) (use P(2) ne in auto)
  then have l3: "links_match (set (m_dataList ?m3)) (producer_of ?m3) ((consumers_of ?m3)(d := {#})) (nexts ?m3) (prevs ?m3)"
    unfolding C3 f(1,11) in2(2) by simp
  have complete: "t \<in> set (m_initialStages ?m3)" if t: "live ?m3 t" "ms_inputEdges (m_stage ?m3 t) \<noteq> []"
      "\<forall>e \<in> set (ms_inputEdges (m_stage ?m3 t)). is_source ?m3 (ed_input (m_in ?m3 e))" for t
  proof -
    have lt: "live ?m t" using t(1) f(18) in2(5) by simp
    have src: "is_source ?m x \<and> x \<noteq> ?old" if "is_source ?m3 x" for x
      using that o(6) free(2) unfolding is_source_def data3 by (auto split: if_splits)
    then have "\<forall>e \<in> set (ms_inputEdges (m_stage ?m t)). is_source ?m (ed_input (m_in ?m e)) \<and> ed_input (m_in ?m e) \<noteq> ?old"
      using t(3) by (simp add: f in2)
    note all = this
    have "t \<in> set (m_initialStages m)"
      using i(5) lt t(2) all unfolding initial_complete_def by (simp add: f in2)
    moreover have "t \<notin> ?c ` set ?es" using all edges_okD(4,6) [OF i(1), of _ ?old] by fastforce
    ultimately have "t \<in> set (m_initialStages m) - ?c ` set ?es" by blast
    then show ?thesis unfolding f(8) u(4) [symmetric] by blast
  qed
  have "initial_sound ?m3" using u(3) by (simp add: initial_sound_def f)
  moreover have "live ?m (?c e)" if "e \<in> set ?es" for e using edges_okD(5) [OF i(1), of e ?old] that by simp
  then have "initial_live ?m3" using i(4) u(5) unfolding initial_live_def f in2 by auto
  moreover have "producer_of ?m3 d = Some ?p" "d \<in> set (m_dataList ?m3)" using P3 d(1) f in2 by simp_all
  ultimately have "model_inv m' \<and> bare m' = bare ?m3"
    using link_consumers_inv [OF ok _ _ _ _ l3 complete m'] by blast
  then have b: "bare m' = bare ?m3" and "model_inv m'" by simp_all
  then show "model_inv m'" by simp
  show "live m' = live m" using live_bare [OF b] f in2 by (auto simp: fun_eq_iff live_def)
  show "m_stageList m' = m_stageList m" "m_dataList m' = m_dataList m" "m_resetStageOrder m'"
    using bareD(2,10,14) [OF b] f in2 by simp_all
qed

end
