(* ===== verification/VpuModelRemove.thy ===== *)
theory VpuModelRemove
  imports VpuModelOps
begin

text \<open>
  Taking stages and data out of the VPU model (\<open>disconnectStage\<close>, \<open>removeStage\<close>,
  \<open>removeUnusedData\<close>, \<open>cleanUp\<close> of \<open>model.cpp\<close>): the invariant is kept and no internal assertion of
  the removal fails. The edges of a stage are removed one after the other while the stage still
  lists them, so the loops are described by the state in which the stage lists only the rest.
\<close>

section \<open>One edge less\<close>

definition with_inputs :: "nat \<Rightarrow> nat list \<Rightarrow> Model \<Rightarrow> Model" where
  "with_inputs s es = upd_ms s (\<lambda>x. x\<lparr>ms_inputEdges := es\<rparr>)"

definition with_outputs :: "nat \<Rightarrow> nat list \<Rightarrow> Model \<Rightarrow> Model" where
  "with_outputs s es = upd_ms s (\<lambda>x. x\<lparr>ms_outputEdges := es\<rparr>)"

definition with_temps :: "nat \<Rightarrow> nat list \<Rightarrow> Model \<Rightarrow> Model" where
  "with_temps s es = upd_ms s (\<lambda>x. x\<lparr>ms_tempBufferEdges := es\<rparr>)"

text \<open>What removing an edge of a stage leaves alone: data at most lose their producer.\<close>

definition removal_frame :: "Model \<Rightarrow> Model \<Rightarrow> bool" where
  "removal_frame m m' \<longleftrightarrow> m_initialStages m' = m_initialStages m \<and> live m' = live m \<and> m_in m' = m_in m \<and>
     m_out m' = m_out m \<and> m_temp m' = m_temp m \<and>
     (\<forall>x. md_usage (m_data m' x) = md_usage (m_data m x) \<and>
        (md_producerEdge (m_data m' x) = md_producerEdge (m_data m x) \<or>
         md_producerEdge (m_data m' x) = None \<and> can_have_producer (md_usage (m_data m x)))) \<and>
     (\<forall>t. ms_inputEdges (m_stage m' t) = ms_inputEdges (m_stage m t) \<and>
        ms_outputEdges (m_stage m' t) = ms_outputEdges (m_stage m t) \<and>
        ms_tempBufferEdges (m_stage m' t) = ms_tempBufferEdges (m_stage m t)) \<and>
     m_stageList m' = m_stageList m \<and> m_dataList m' = m_dataList m \<and> m_resetStageOrder m' = m_resetStageOrder m"

lemma removal_frameD:
  assumes "removal_frame m m'"
  shows "m_initialStages m' = m_initialStages m" "live m' = live m" "m_in m' = m_in m"
    "m_out m' = m_out m" "m_temp m' = m_temp m" "md_usage (m_data m' x) = md_usage (m_data m x)"
    "is_source m' x \<Longrightarrow> is_source m x"
    "ms_inputEdges (m_stage m' t) = ms_inputEdges (m_stage m t)"
    "ms_outputEdges (m_stage m' t) = ms_outputEdges (m_stage m t)"
    "ms_tempBufferEdges (m_stage m' t) = ms_tempBufferEdges (m_stage m t)"
    "m_stageList m' = m_stageList m" "m_dataList m' = m_dataList m" "m_resetStageOrder m' = m_resetStageOrder m"
  using assms unfolding removal_frame_def is_source_def by metis+

lemma removal_frame_producer:
  assumes "removal_frame m m'" "producer_of m' x = Some p"
  shows "producer_of m x = Some p"
proof -
  have "m_out m' = m_out m" "md_producerEdge (m_data m' x) = md_producerEdge (m_data m x) \<or>
    md_producerEdge (m_data m' x) = None"
    using assms(1) by (simp_all add: removal_frame_def) metis
  with assms(2) show ?thesis by (auto simp: producer_of_def)
qed

lemma removal_frame_refl [simp]: "removal_frame m m"
  by (simp add: removal_frame_def)

lemma removal_frame_trans: "removal_frame m m1 \<Longrightarrow> removal_frame m1 m2 \<Longrightarrow> removal_frame m m2"
  unfolding removal_frame_def by metis

lemma with_fields:
  "m_data (with_inputs s es m) = m_data m" "m_dataList (with_inputs s es m) = m_dataList m"
  "m_in (with_inputs s es m) = m_in m" "m_inList (with_inputs s es m) = m_inList m"
  "m_out (with_inputs s es m) = m_out m" "m_outList (with_inputs s es m) = m_outList m"
  "m_temp (with_inputs s es m) = m_temp m" "m_tempList (with_inputs s es m) = m_tempList m"
  "m_stageList (with_inputs s es m) = m_stageList m" "m_fresh (with_inputs s es m) = m_fresh m"
  "ms_inputEdges (m_stage (with_inputs s es m) t) = (if t = s then es else ms_inputEdges (m_stage m t))"
  "ms_outputEdges (m_stage (with_inputs s es m) t) = ms_outputEdges (m_stage m t)"
  "ms_tempBufferEdges (m_stage (with_inputs s es m) t) = ms_tempBufferEdges (m_stage m t)"
  "live (with_inputs s es m) = live m"
  "m_data (with_outputs s es m) = m_data m" "m_dataList (with_outputs s es m) = m_dataList m"
  "m_in (with_outputs s es m) = m_in m" "m_inList (with_outputs s es m) = m_inList m"
  "m_out (with_outputs s es m) = m_out m" "m_outList (with_outputs s es m) = m_outList m"
  "m_temp (with_outputs s es m) = m_temp m" "m_tempList (with_outputs s es m) = m_tempList m"
  "m_stageList (with_outputs s es m) = m_stageList m" "m_fresh (with_outputs s es m) = m_fresh m"
  "ms_outputEdges (m_stage (with_outputs s es m) t) = (if t = s then es else ms_outputEdges (m_stage m t))"
  "ms_inputEdges (m_stage (with_outputs s es m) t) = ms_inputEdges (m_stage m t)"
  "ms_tempBufferEdges (m_stage (with_outputs s es m) t) = ms_tempBufferEdges (m_stage m t)"
  "live (with_outputs s es m) = live m"
  "m_data (with_temps s es m) = m_data m" "m_dataList (with_temps s es m) = m_dataList m"
  "m_in (with_temps s es m) = m_in m" "m_inList (with_temps s es m) = m_inList m"
  "m_out (with_temps s es m) = m_out m" "m_outList (with_temps s es m) = m_outList m"
  "m_temp (with_temps s es m) = m_temp m" "m_tempList (with_temps s es m) = m_tempList m"
  "m_stageList (with_temps s es m) = m_stageList m" "m_fresh (with_temps s es m) = m_fresh m"
  "ms_tempBufferEdges (m_stage (with_temps s es m) t) = (if t = s then es else ms_tempBufferEdges (m_stage m t))"
  "ms_inputEdges (m_stage (with_temps s es m) t) = ms_inputEdges (m_stage m t)"
  "ms_outputEdges (m_stage (with_temps s es m) t) = ms_outputEdges (m_stage m t)"
  "live (with_temps s es m) = live m"
  by (auto simp: with_inputs_def with_outputs_def with_temps_def upd_ms_def live_def fun_eq_iff)

lemma disconnect_input_Inr:
  assumes r: "disconnect_input k m = Inr m'"
  obtains m1 where "(case producer_of m (ed_input (m_in m k)) of
      None \<Rightarrow> Inr m | Some p \<Rightarrow> del_link p (ed_consumer (m_in m k)) m) = Inr m1"
    "m' = (upd_md (ed_input (m_in m k)) (\<lambda>x. x\<lparr>md_consumerEdges := remove1 k (md_consumerEdges x)\<rparr>) m1)
       \<lparr>m_inList := remove1 k (m_inList m1)\<rparr>"
  using r by (auto simp: disconnect_input_def Let_def erase_consumer_def erase_from_def upd_md_def)

lemma set_remove1_distinct: "distinct xs \<Longrightarrow> set (remove1 x xs) = set xs - {x}"
  by (rule set_remove1_eq)

lemma disconnect_input_step:
  assumes ok: "edges_ok (with_inputs s (k # es) m)" and s: "live m s" and c: "counts_ok m"
    and i: "initial_sound m"
  shows "\<exists>m'. disconnect_input k m = Inr m'"
    and "disconnect_input k m = Inr m' \<Longrightarrow> edges_ok (with_inputs s es m') \<and> counts_ok m' \<and> initial_sound m' \<and> removal_frame m m'"
proof -
  let ?M = "with_inputs s (k # es) m" and ?d = "ed_input (m_in m k)"
  note e = edges_okD [OF ok, unfolded with_fields] and eo = ok [unfolded edges_ok_def]
  have k: "ed_consumer (m_in m k) = s" "k \<in> set (md_consumerEdges (m_data m ?d))" "k \<in> set (m_inList m)" "?d \<in> set (m_dataList m)"
    using e(8,9) [OF s, of k] e(2,3) [of k ?d] by simp_all
  define X where "X = image_mset (\<lambda>e. ed_consumer (m_in m e)) (mset (remove1 k (md_consumerEdges (m_data m ?d))))"
  have X: "consumers_of m ?d = add_mset s X"
    using consumers_of_remove [OF k(2)] by (simp add: X_def k(1))
  note l = c [unfolded counts_ok_def]
  have "\<exists>m1. (case producer_of m ?d of None \<Rightarrow> Inr m | Some p \<Rightarrow> del_link p s m) = Inr m1"
    using del_link_total [OF l _ k(4), of _ s] X by (cases "producer_of m ?d") auto
  then obtain m1 where m1: "(case producer_of m ?d of None \<Rightarrow> Inr m | Some p \<Rightarrow> del_link p s m) = Inr m1" by blast
  have u: "bare m1 = bare m" "m_initialStages m1 = m_initialStages m"
    "links_match (set (m_dataList m)) (producer_of m) ((consumers_of m)(?d := X)) (nexts m1) (prevs m1)" "initial_sound m1"
    using unlink_input_counts [OF l _ k(4) X m1] i by auto
  note b = bareD [OF u(1)] live_bare [OF u(1)]
  let ?m2 = "(upd_md ?d (\<lambda>x. x\<lparr>md_consumerEdges := remove1 k (md_consumerEdges x)\<rparr>) m1)\<lparr>m_inList := remove1 k (m_inList m1)\<rparr>"
  have "disconnect_input k m = Inr ?m2"
    using m1 [folded k(1)] k(2,3) by (simp add: disconnect_input_def Let_def erase_consumer_def erase_from_def b upd_md_def)
  then show "\<exists>m'. disconnect_input k m = Inr m'" by blast
  assume r: "disconnect_input k m = Inr m'"
  with \<open>disconnect_input k m = Inr ?m2\<close> have m': "m' = ?m2" by simp
  have f: "md_consumerEdges (m_data m' x) = (if x = ?d then remove1 k (md_consumerEdges (m_data m x)) else md_consumerEdges (m_data m x))"
    "md_producerEdge (m_data m' x) = md_producerEdge (m_data m x)" "md_usage (m_data m' x) = md_usage (m_data m x)"
    "m_dataList m' = m_dataList m" "m_inList m' = remove1 k (m_inList m)" "m_outList m' = m_outList m" "m_tempList m' = m_tempList m"
    "m_in m' = m_in m" "m_out m' = m_out m" "m_temp m' = m_temp m" "m_stageList m' = m_stageList m" "m_fresh m' = m_fresh m"
    "live m' = live m" "ms_inputEdges (m_stage m' t) = ms_inputEdges (m_stage m t)"
    "ms_outputEdges (m_stage m' t) = ms_outputEdges (m_stage m t)"
    "ms_tempBufferEdges (m_stage m' t) = ms_tempBufferEdges (m_stage m t)"
    "nexts m' = nexts m1" "prevs m' = prevs m1" "m_initialStages m' = m_initialStages m1"
    "m_resetStageOrder m' = m_resetStageOrder m" "producer_of m' = producer_of m" for x t
    using b by (auto simp: m' upd_md_def live_def fun_eq_iff producer_of_def)
  note f = this
  have base: "set (if x = ?d then remove1 k (md_consumerEdges (m_data m x)) else md_consumerEdges (m_data m x)) =
      set (md_consumerEdges (m_data m x)) - {k}" for x
  proof (cases "x = ?d")
    case True
    then show ?thesis using set_remove1_distinct [OF e(1) [of ?d], of k] by simp
  next
    case False
    then have "k \<notin> set (md_consumerEdges (m_data m x))" using e(4) [of k x] by metis
    with False show ?thesis by simp
  qed
  have inl: "set (remove1 k (m_inList m)) = set (m_inList m) - {k}"
    using eo unfolding numbers_ok_def with_fields by (simp add: set_remove1_distinct)
  have "edges_ok (with_inputs s es m')"
  proof (rule edges_okI)
    show "consumers_ok (with_inputs s es m')" unfolding consumers_ok_def with_fields f base inl
    proof (intro allI conjI ballI)
      fix x show "distinct (if x = ?d then remove1 k (md_consumerEdges (m_data m x)) else md_consumerEdges (m_data m x))"
        using e(1) by simp
      fix j assume "j \<in> set (md_consumerEdges (m_data m x)) - {k}"
      then have j: "j \<in> set (md_consumerEdges (m_data m x))" "j \<noteq> k" by simp_all
      show "x \<in> set (m_dataList m)" "j \<in> set (m_inList m) - {k}" "ed_input (m_in m j) = x"
        "live m (ed_consumer (m_in m j))" "md_usage (m_data m x) \<noteq> DU_Temp"
        using e(2-5) [OF j(1)] e(20) [OF j(1)] j(2) by simp_all
      show "j \<in> set (if ed_consumer (m_in m j) = s then es else ms_inputEdges (m_stage m (ed_consumer (m_in m j))))"
        using e(6) [OF j(1)] j(2) by (cases "ed_consumer (m_in m j) = s") simp_all
    qed
    have ks: "k \<notin> set es" "distinct es" using e(7) [OF s] by simp_all
    have kt: "j \<noteq> k" if "live m t" "t \<noteq> s" "j \<in> set (ms_inputEdges (m_stage m t))" for j t
      using e(8) [OF that(1), of j] that k(1) by auto
    show "inputs_ok (with_inputs s es m')" unfolding inputs_ok_def with_fields f base
    proof (intro allI impI)
      fix t assume t: "live m t"
      show "distinct (if t = s then es else ms_inputEdges (m_stage m t)) \<and>
        (\<forall>j \<in> set (if t = s then es else ms_inputEdges (m_stage m t)).
           ed_consumer (m_in m j) = t \<and> j \<in> set (md_consumerEdges (m_data m (ed_input (m_in m j)))) - {k})"
      proof (cases "t = s")
        case True
        with e(7) [OF t] e(8,9) [OF t] ks show ?thesis by auto
      next
        case False
        with e(7) [OF t] e(8,9) [OF t] kt [OF t] show ?thesis by auto
      qed
    qed
    show "producers_ok (with_inputs s es m')" using eo unfolding producers_ok_def with_fields f by blast
    show "outputs_ok (with_inputs s es m')" using eo unfolding outputs_ok_def with_fields f by blast
    show "temps_ok (with_inputs s es m')" using eo unfolding temps_ok_def with_fields f by blast
    show "outList_ok (with_inputs s es m')" using eo unfolding outList_ok_def with_fields f by blast
    show "numbers_ok (with_inputs s es m')" using eo inl unfolding numbers_ok_def with_fields f by auto
  qed
  moreover have "counts_ok m'"
  proof -
    have "consumers_of m' = (consumers_of m)(?d := X)"
      by (auto simp: fun_eq_iff consumers_of_def f X_def)
    with u(3) show ?thesis by (simp add: counts_ok_def f(4,21)) (simp add: f)
  qed
  moreover have "initial_sound m'" using u(4) fun_cong [OF f(18)] by (simp add: initial_sound_def f)
  ultimately show "edges_ok (with_inputs s es m') \<and> counts_ok m' \<and> initial_sound m' \<and> removal_frame m m'"
    using u(2) f by (simp add: removal_frame_def)
qed

lemma unlink_loop_total:
  assumes D: "finite D" "d \<in> D" "P d = Some p"
    and l: "links_match D P C (nexts m) (prevs m)"
    and C: "C d = image_mset (\<lambda>e. ed_consumer (m_in m e)) (mset es)"
  shows "\<exists>m'. foldE (unlink_consumer p) es m = Inr m'"
  using l C
proof (induction es arbitrary: m C)
  case (Cons e es)
  let ?c = "ed_consumer (m_in m e)"
  have "?c \<in># C d" using Cons.prems(2) by simp
  then obtain m1 where m1: "del_link p ?c m = Inr m1" using del_link_total [OF Cons.prems(1) D] by blast
  let ?C = "C(d := image_mset (\<lambda>e. ed_consumer (m_in m e)) (mset es))"
  have "links_match D P ?C (nexts m1) (prevs m1)"
    by (rule links_del_link [OF Cons.prems(1) D _ m1]) (use Cons.prems(2) in simp)
  moreover have "?C d = image_mset (\<lambda>e. ed_consumer (m_in m1 e)) (mset es)"
    using bareD(3) [OF del_link_Inr(1) [OF m1]] by simp
  ultimately have "\<exists>m'. foldE (unlink_consumer p) es m1 = Inr m'" by (rule Cons.IH)
  moreover have "unlink_consumer p e m = Inr m1" using m1 by (simp add: unlink_consumer_def)
  ultimately show ?case by simp
qed simp

lemma disconnect_output_step:
  assumes ok: "edges_ok (with_outputs s (k # es) m)" and s: "live m s" and c: "counts_ok m"
    and i: "initial_sound m"
  shows "\<exists>m'. disconnect_output k m = Inr m'"
    and "disconnect_output k m = Inr m' \<Longrightarrow>
      edges_ok (with_outputs s es m') \<and> counts_ok m' \<and> initial_sound m' \<and> removal_frame m m'"
proof -
  let ?M = "with_outputs s (k # es) m" and ?d = "ed_output (m_out m k)"
  note e = edges_okD [OF ok, unfolded with_fields] and eo = ok [unfolded edges_ok_def]
  have k: "ed_producer (m_out m k) = s" "md_producerEdge (m_data m ?d) = Some k" using e(17,18) [OF s, of k] by simp_all
  have k2: "k \<in> set (m_outList m)" "?d \<in> set (m_dataList m)" "can_have_producer (md_usage (m_data m ?d))"
    using e(10,11,15) [OF k(2)] by simp_all
  have P: "producer_of m ?d = Some s" using k by (simp add: producer_of_def)
  note l = c [unfolded counts_ok_def]
  have C: "consumers_of m ?d = image_mset (\<lambda>e. ed_consumer (m_in m e)) (mset (md_consumerEdges (m_data m ?d)))"
    by (simp add: consumers_of_def)
  obtain m1 where m1: "foldE (unlink_consumer s) (md_consumerEdges (m_data m ?d)) m = Inr m1"
    using unlink_loop_total [OF _ k2(2) P l C] by blast
  have "foldE (\<lambda>e m. bindE (unlink_consumer s e m) (\<lambda>m. Inr m)) (md_consumerEdges (m_data m ?d)) m = Inr m1"
    using m1 by simp
  from unlink_loop [OF this _ k2(2) P l C] i
  have u: "bare m1 = bare m" "links_match (set (m_dataList m)) (producer_of m) ((consumers_of m)(?d := {#})) (nexts m1) (prevs m1)"
    "initial_sound m1" by auto
  have ini: "m_initialStages m1 = m_initialStages m"
    using m1 by (rule foldE_inv [where P = "\<lambda>x. m_initialStages x = m_initialStages m"])
      (auto simp: unlink_consumer_def dest: del_link_Inr(2))
  note b = bareD [OF u(1)] live_bare [OF u(1)]
  let ?m2 = "(upd_md ?d (\<lambda>x. x\<lparr>md_producerEdge := None\<rparr>) m1)\<lparr>m_outList := remove1 k (m_outList m1)\<rparr>"
  have r2: "disconnect_output k m = Inr ?m2"
    using m1 k2(1) by (simp add: disconnect_output_def Let_def erase_from_def b upd_md_def k(1))
  then show "\<exists>m'. disconnect_output k m = Inr m'" by blast
  assume "disconnect_output k m = Inr m'"
  with r2 have m': "m' = ?m2" by simp
  have f: "md_producerEdge (m_data m' x) = (if x = ?d then None else md_producerEdge (m_data m x))"
    "md_consumerEdges (m_data m' x) = md_consumerEdges (m_data m x)" "md_usage (m_data m' x) = md_usage (m_data m x)"
    "m_dataList m' = m_dataList m" "m_inList m' = m_inList m" "m_outList m' = remove1 k (m_outList m)" "m_tempList m' = m_tempList m"
    "m_in m' = m_in m" "m_out m' = m_out m" "m_temp m' = m_temp m" "m_stageList m' = m_stageList m" "m_fresh m' = m_fresh m"
    "live m' = live m" "ms_inputEdges (m_stage m' t) = ms_inputEdges (m_stage m t)"
    "ms_outputEdges (m_stage m' t) = ms_outputEdges (m_stage m t)"
    "ms_tempBufferEdges (m_stage m' t) = ms_tempBufferEdges (m_stage m t)"
    "nexts m' = nexts m1" "prevs m' = prevs m1" "m_initialStages m' = m_initialStages m1"
    "m_resetStageOrder m' = m_resetStageOrder m" "consumers_of m' = consumers_of m" for x t
    using b by (auto simp: m' upd_md_def live_def fun_eq_iff consumers_of_def)
  note f = this
  have outl: "set (remove1 k (m_outList m)) = set (m_outList m) - {k}"
    using eo unfolding numbers_ok_def with_fields by (simp add: set_remove1_distinct)
  have other: "j \<noteq> k" if "md_producerEdge (m_data m x) = Some j" "x \<noteq> ?d" for x j
    using e(12) [OF that(1)] that(2) by auto
  have same: "ed_output (m_out m j) \<noteq> ?d" if "md_producerEdge (m_data m (ed_output (m_out m j))) = Some j" "j \<noteq> k" for j
    using that k(2) by auto
  have "edges_ok (with_outputs s es m')"
  proof (rule edges_okI)
    show "consumers_ok (with_outputs s es m')" using eo unfolding consumers_ok_def with_fields f by blast
    show "inputs_ok (with_outputs s es m')" using eo unfolding inputs_ok_def with_fields f by blast
    show "temps_ok (with_outputs s es m')" using eo unfolding temps_ok_def with_fields f by blast
    show "numbers_ok (with_outputs s es m')" using eo outl unfolding numbers_ok_def with_fields f by auto
    show "outList_ok (with_outputs s es m')" using eo same unfolding outList_ok_def with_fields f outl by simp
    have ks: "k \<notin> set es" "distinct es" using e(16) [OF s] by simp_all
    show "outputs_ok (with_outputs s es m')" unfolding outputs_ok_def with_fields f
    proof (intro allI impI)
      fix t assume t: "live m t"
      show "distinct (if t = s then es else ms_outputEdges (m_stage m t)) \<and>
        (\<forall>j \<in> set (if t = s then es else ms_outputEdges (m_stage m t)). ed_producer (m_out m j) = t \<and>
           (if ed_output (m_out m j) = ?d then None else md_producerEdge (m_data m (ed_output (m_out m j)))) = Some j)"
      proof (cases "t = s")
        case True
        with e(16) [OF t] e(17,18) [OF t] ks same show ?thesis by auto
      next
        case False
        then have "j \<noteq> k" if "j \<in> set (ms_outputEdges (m_stage m t))" for j using e(17) [OF t, of j] that k(1) by auto
        with False e(16) [OF t] e(17,18) [OF t] same show ?thesis by auto
      qed
    qed
    show "producers_ok (with_outputs s es m')" unfolding producers_ok_def with_fields f outl
    proof (intro allI impI)
      fix x j assume "(if x = ?d then None else md_producerEdge (m_data m x)) = Some j"
      then have x: "x \<noteq> ?d" "md_producerEdge (m_data m x) = Some j" by (auto split: if_splits)
      from e(10-15) [OF x(2)] other [OF x(2,1)]
      show "x \<in> set (m_dataList m) \<and> j \<in> set (m_outList m) - {k} \<and> ed_output (m_out m j) = x \<and>
        live m (ed_producer (m_out m j)) \<and>
        j \<in> set (if ed_producer (m_out m j) = s then es else ms_outputEdges (m_stage m (ed_producer (m_out m j)))) \<and>
        can_have_producer (md_usage (m_data m x))" by (auto split: if_splits)
    qed
  qed
  moreover have "counts_ok m'"
  proof -
    have "producer_of m' = (producer_of m)(?d := None)" by (auto simp: fun_eq_iff producer_of_def f)
    moreover have "links_match (set (m_dataList m)) ((producer_of m)(?d := None)) (consumers_of m) (nexts m1) (prevs m1)"
      by (rule links_match_producer [OF u(2), of ?d]) auto
    ultimately show ?thesis by (simp add: counts_ok_def f(4,21)) (simp add: f)
  qed
  moreover have "initial_sound m'" using u(3) fun_cong [OF f(18)] by (simp add: initial_sound_def f)
  moreover have "removal_frame m m'" using k2(3) f ini by (simp add: removal_frame_def)
  ultimately show "edges_ok (with_outputs s es m') \<and> counts_ok m' \<and> initial_sound m' \<and> removal_frame m m'" by simp
qed

lemma disconnect_temp_step:
  assumes ok: "edges_ok (with_temps s (k # es) m)" and s: "live m s" and c: "counts_ok m"
    and i: "initial_sound m"
  shows "\<exists>m'. disconnect_temp k m = Inr m'"
    and "disconnect_temp k m = Inr m' \<Longrightarrow>
      edges_ok (with_temps s es m') \<and> counts_ok m' \<and> initial_sound m' \<and> removal_frame m m'"
proof -
  note eo = ok [unfolded edges_ok_def]
  have k: "k \<in> set (m_tempList m)" "k \<notin> set es" "distinct es" "ed_stage (m_temp m k) = s"
    using eo s unfolding temps_ok_def with_fields by auto
  let ?d = "ed_tempBuffer (m_temp m k)"
  let ?m2 = "(upd_md ?d (\<lambda>x. x\<lparr>md_tempBufferEdge := None\<rparr>) m)\<lparr>m_tempList := remove1 k (m_tempList m)\<rparr>"
  have r2: "disconnect_temp k m = Inr ?m2"
    using k(1) by (simp add: disconnect_temp_def Let_def erase_from_def upd_md_def)
  then show "\<exists>m'. disconnect_temp k m = Inr m'" by blast
  assume "disconnect_temp k m = Inr m'"
  with r2 have m': "m' = ?m2" by simp
  have f: "md_producerEdge (m_data m' x) = md_producerEdge (m_data m x)"
    "md_consumerEdges (m_data m' x) = md_consumerEdges (m_data m x)" "md_usage (m_data m' x) = md_usage (m_data m x)"
    "m_dataList m' = m_dataList m" "m_inList m' = m_inList m" "m_outList m' = m_outList m" "m_tempList m' = remove1 k (m_tempList m)"
    "m_in m' = m_in m" "m_out m' = m_out m" "m_temp m' = m_temp m" "m_stageList m' = m_stageList m" "m_fresh m' = m_fresh m"
    "live m' = live m" "m_stage m' = m_stage m" "m_initialStages m' = m_initialStages m"
    "m_resetStageOrder m' = m_resetStageOrder m" "consumers_of m' = consumers_of m" "producer_of m' = producer_of m" for x
    by (auto simp: m' upd_md_def live_def fun_eq_iff consumers_of_def producer_of_def)
  have templ: "set (remove1 k (m_tempList m)) = set (m_tempList m) - {k}"
    using eo unfolding numbers_ok_def with_fields by (simp add: set_remove1_distinct)
  have "edges_ok (with_temps s es m')"
  proof (rule edges_okI)
    show "consumers_ok (with_temps s es m')" using eo unfolding consumers_ok_def with_fields f by blast
    show "inputs_ok (with_temps s es m')" using eo unfolding inputs_ok_def with_fields f by blast
    show "producers_ok (with_temps s es m')" using eo unfolding producers_ok_def with_fields f by blast
    show "outputs_ok (with_temps s es m')" using eo unfolding outputs_ok_def with_fields f by blast
    show "outList_ok (with_temps s es m')" using eo unfolding outList_ok_def with_fields f by blast
    show "numbers_ok (with_temps s es m')" using eo templ unfolding numbers_ok_def with_fields f by auto
    show "temps_ok (with_temps s es m')" unfolding temps_ok_def with_fields f templ
    proof (intro allI impI)
      fix t assume t: "live m t"
      with eo have "distinct (if t = s then k # es else ms_tempBufferEdges (m_stage m t)) \<and>
        (\<forall>e \<in> set (if t = s then k # es else ms_tempBufferEdges (m_stage m t)). ed_stage (m_temp m e) = t \<and> e \<in> set (m_tempList m))"
        unfolding temps_ok_def with_fields by blast
      with k show "distinct (if t = s then es else ms_tempBufferEdges (m_stage m t)) \<and>
        (\<forall>e \<in> set (if t = s then es else ms_tempBufferEdges (m_stage m t)). ed_stage (m_temp m e) = t \<and> e \<in> set (m_tempList m) - {k})"
        by (cases "t = s") auto
    qed
  qed
  moreover have "counts_ok m'" using c by (simp add: counts_ok_def f)
  moreover have "initial_sound m'" using i by (simp add: initial_sound_def f)
  moreover have "removal_frame m m'" using f by (simp add: removal_frame_def)
  ultimately show "edges_ok (with_temps s es m') \<and> counts_ok m' \<and> initial_sound m' \<and> removal_frame m m'" by simp
qed

section \<open>Disconnecting and removing a stage\<close>

lemma edge_loop:
  assumes total: "\<And>k es m. I (k # es) m \<Longrightarrow> \<exists>m'. f k m = Inr m'"
    and step: "\<And>k es m m'. I (k # es) m \<Longrightarrow> f k m = Inr m' \<Longrightarrow> I es m' \<and> removal_frame m m'"
  shows "I es m \<Longrightarrow> \<exists>m'. foldE f es m = Inr m' \<and> I [] m' \<and> removal_frame m m'"
proof (induction es arbitrary: m)
  case (Cons k es)
  then obtain m1 where m1: "f k m = Inr m1" using total by blast
  with step [OF Cons.prems] have "I es m1" "removal_frame m m1" by simp_all
  with Cons.IH [of m1] m1 removal_frame_trans show ?case by fastforce
qed simp

abbreviation removing :: "(nat list \<Rightarrow> Model \<Rightarrow> Model) \<Rightarrow> nat \<Rightarrow> nat list \<Rightarrow> Model \<Rightarrow> bool" where
  "removing W s es m \<equiv> edges_ok (W es m) \<and> live m s \<and> counts_ok m \<and> initial_sound m"

lemma disconnect_loops:
  "removing (with_inputs s) s es m \<Longrightarrow>
     \<exists>m'. foldE disconnect_input es m = Inr m' \<and> removing (with_inputs s) s [] m' \<and> removal_frame m m'"
  "removing (with_outputs s) s es m \<Longrightarrow>
     \<exists>m'. foldE disconnect_output es m = Inr m' \<and> removing (with_outputs s) s [] m' \<and> removal_frame m m'"
  "removing (with_temps s) s es m \<Longrightarrow>
     \<exists>m'. foldE disconnect_temp es m = Inr m' \<and> removing (with_temps s) s [] m' \<and> removal_frame m m'"
proof -
  show "removing (with_inputs s) s es m \<Longrightarrow>
     \<exists>m'. foldE disconnect_input es m = Inr m' \<and> removing (with_inputs s) s [] m' \<and> removal_frame m m'"
  proof (rule edge_loop [where I = "removing (with_inputs s) s" and f = disconnect_input])
    fix k es m assume I: "removing (with_inputs s) s (k # es) m"
    show "\<exists>m'. disconnect_input k m = Inr m'" using disconnect_input_step(1) I by blast
    fix m' assume "disconnect_input k m = Inr m'"
    with disconnect_input_step(2) [of s k es m m'] I removal_frameD(2)
    show "removing (with_inputs s) s es m' \<and> removal_frame m m'" by metis
  qed
  show "removing (with_outputs s) s es m \<Longrightarrow>
     \<exists>m'. foldE disconnect_output es m = Inr m' \<and> removing (with_outputs s) s [] m' \<and> removal_frame m m'"
  proof (rule edge_loop [where I = "removing (with_outputs s) s" and f = disconnect_output])
    fix k es m assume I: "removing (with_outputs s) s (k # es) m"
    show "\<exists>m'. disconnect_output k m = Inr m'" using disconnect_output_step(1) I by blast
    fix m' assume "disconnect_output k m = Inr m'"
    with disconnect_output_step(2) [of s k es m m'] I removal_frameD(2)
    show "removing (with_outputs s) s es m' \<and> removal_frame m m'" by metis
  qed
  show "removing (with_temps s) s es m \<Longrightarrow>
     \<exists>m'. foldE disconnect_temp es m = Inr m' \<and> removing (with_temps s) s [] m' \<and> removal_frame m m'"
  proof (rule edge_loop [where I = "removing (with_temps s) s" and f = disconnect_temp])
    fix k es m assume I: "removing (with_temps s) s (k # es) m"
    show "\<exists>m'. disconnect_temp k m = Inr m'" using disconnect_temp_step(1) I by blast
    fix m' assume "disconnect_temp k m = Inr m'"
    with disconnect_temp_step(2) [of s k es m m'] I removal_frameD(2)
    show "removing (with_temps s) s es m' \<and> removal_frame m m'" by metis
  qed
qed

lemma with_self [simp]:
  "with_inputs s (ms_inputEdges (m_stage m s)) m = m" "with_outputs s (ms_outputEdges (m_stage m s)) m = m"
  "with_temps s (ms_tempBufferEdges (m_stage m s)) m = m"
  by (simp_all add: with_inputs_def with_outputs_def with_temps_def upd_ms_def)

lemma with_counts [simp]:
  "counts_ok (with_inputs s es m) = counts_ok m" "counts_ok (with_outputs s es m) = counts_ok m"
  "counts_ok (with_temps s es m) = counts_ok m" "initial_sound (with_inputs s es m) = initial_sound m"
  "initial_sound (with_outputs s es m) = initial_sound m" "initial_sound (with_temps s es m) = initial_sound m"
proof -
  have n: "nexts (with_inputs s es m) = nexts m" "nexts (with_outputs s es m) = nexts m" "nexts (with_temps s es m) = nexts m"
    "prevs (with_inputs s es m) = prevs m" "prevs (with_outputs s es m) = prevs m" "prevs (with_temps s es m) = prevs m"
    by (auto simp: with_inputs_def with_outputs_def with_temps_def upd_ms_def)
  have o: "producer_of (with_inputs s es m) = producer_of m" "producer_of (with_outputs s es m) = producer_of m"
    "producer_of (with_temps s es m) = producer_of m" "consumers_of (with_inputs s es m) = consumers_of m"
    "consumers_of (with_outputs s es m) = consumers_of m" "consumers_of (with_temps s es m) = consumers_of m"
    "m_initialStages (with_inputs s es m) = m_initialStages m" "m_initialStages (with_outputs s es m) = m_initialStages m"
    "m_initialStages (with_temps s es m) = m_initialStages m"
    by (auto simp: with_inputs_def with_outputs_def with_temps_def upd_ms_def producer_of_def consumers_of_def fun_eq_iff)
  show "counts_ok (with_inputs s es m) = counts_ok m" "counts_ok (with_outputs s es m) = counts_ok m"
    "counts_ok (with_temps s es m) = counts_ok m" unfolding counts_ok_def n o with_fields by simp_all
  show "initial_sound (with_inputs s es m) = initial_sound m"
    "initial_sound (with_outputs s es m) = initial_sound m" "initial_sound (with_temps s es m) = initial_sound m"
    unfolding initial_sound_def o using n by metis+
qed

lemma with_more:
  "m_initialStages (with_inputs s es m) = m_initialStages m" "m_initialStages (with_outputs s es m) = m_initialStages m"
  "m_initialStages (with_temps s es m) = m_initialStages m"
  "m_resetStageOrder (with_inputs s es m) = m_resetStageOrder m" "m_resetStageOrder (with_outputs s es m) = m_resetStageOrder m"
  "m_resetStageOrder (with_temps s es m) = m_resetStageOrder m"
  by (simp_all add: with_inputs_def with_outputs_def with_temps_def upd_ms_def)

text \<open>Disconnecting a live stage always succeeds, and leaves a consistent model.\<close>

text \<open>What cutting a stage off keeps: the other stages' edges, and the producers of data but for it.\<close>

definition cut_off :: "nat \<Rightarrow> Model \<Rightarrow> Model \<Rightarrow> bool" where
  "cut_off s m m' \<longleftrightarrow> m_in m' = m_in m \<and> m_dataList m' = m_dataList m \<and>
     set (m_initialStages m') \<subseteq> set (m_initialStages m) \<and>
     (\<forall>t. t \<noteq> s \<longrightarrow> ms_inputEdges (m_stage m' t) = ms_inputEdges (m_stage m t)) \<and>
     (\<forall>x p. producer_of m' x = Some p \<longrightarrow> producer_of m x = Some p)"

lemma disconnectStage_ok:
  assumes inv: "model_inv m" and s: "live m s"
  shows "\<exists>m'. disconnectStage s m = Inr m' \<and> model_inv m' \<and> live m' = live m \<and>
    m_stageList m' = m_stageList m \<and> m_dataList m' = m_dataList m \<and> m_resetStageOrder m' \<and>
    ms_inputEdges (m_stage m' s) = [] \<and> ms_outputEdges (m_stage m' s) = [] \<and> cut_off s m m'"
proof -
  let ?m = "m\<lparr>m_resetStageOrder := True\<rparr>"
  have inv0: "model_inv ?m" using inv model_inv_core [of ?m m] by simp
  note i = model_invD [OF inv0]
  have s0: "live ?m s" using s by (simp add: live_def)
  obtain m1 where m1: "foldE disconnect_input (ms_inputEdges (m_stage ?m s)) ?m = Inr m1"
    "removing (with_inputs s) s [] m1" "removal_frame ?m m1"
    using disconnect_loops(1) [of s "ms_inputEdges (m_stage ?m s)" ?m] i(1-3) s0 unfolding with_self by blast
  let ?m1 = "with_inputs s [] m1"
  obtain m2 where m2: "foldE disconnect_output (ms_outputEdges (m_stage ?m1 s)) ?m1 = Inr m2"
    "removing (with_outputs s) s [] m2" "removal_frame ?m1 m2"
    using disconnect_loops(2) [of s "ms_outputEdges (m_stage ?m1 s)" ?m1] m1(2) unfolding with_self with_counts
    by (simp only: with_fields) blast
  let ?m2 = "with_outputs s [] m2"
  obtain m3 where m3: "foldE disconnect_temp (ms_tempBufferEdges (m_stage ?m2 s)) ?m2 = Inr m3"
    "removing (with_temps s) s [] m3" "removal_frame ?m2 m3"
    using disconnect_loops(3) [of s "ms_tempBufferEdges (m_stage ?m2 s)" ?m2] m2(2) unfolding with_self with_counts
    by (simp only: with_fields) blast
  let ?m3 = "with_temps s [] m3" and ?m' = "(with_temps s [] m3)\<lparr>m_needAlloc := True\<rparr>"
  have r: "disconnectStage s m = Inr ?m'"
    using s m1(1) m2(1) m3(1)
    by (simp add: disconnectStage_def live_def Let_def with_inputs_def with_outputs_def with_temps_def)
  note g = removal_frameD [OF m1(3)] removal_frameD [OF m2(3)] removal_frameD [OF m3(3)] with_fields with_more
  have frame: "m_initialStages ?m3 = m_initialStages m" "live ?m3 = live ?m" "m_in ?m3 = m_in m"
    "m_stageList ?m3 = m_stageList m" "m_dataList ?m3 = m_dataList m" "m_resetStageOrder ?m3"
    "ms_inputEdges (m_stage ?m3 s) = []" "ms_outputEdges (m_stage ?m3 s) = []"
    using g by simp_all
  have inputs: "ms_inputEdges (m_stage ?m3 t) = (if t = s then [] else ms_inputEdges (m_stage m t))" for t
    using g by simp
  have src: "is_source ?m3 x \<Longrightarrow> is_source ?m x" for x
    using removal_frameD(7) [OF m1(3), of x] removal_frameD(7) [OF m2(3), of x] removal_frameD(7) [OF m3(3), of x]
    by (simp add: is_source_def with_fields)
  have "model_inv ?m3"
  proof (rule model_invI)
    show "edges_ok ?m3" "counts_ok ?m3" "initial_sound ?m3" using m3(2) by simp_all
    show "initial_live ?m3" using i(4) by (simp add: initial_live_def frame)
    show "initial_complete ?m3" unfolding initial_complete_def frame(1-3) inputs
      using i(5) src unfolding initial_complete_def by (auto split: if_splits)
  qed
  then have "model_inv ?m'" using model_inv_core [of ?m' ?m3] by simp
  moreover have "producer_of ?m' x = Some p \<Longrightarrow> producer_of m x = Some p" for x p
    using removal_frame_producer [OF m1(3), of x p] removal_frame_producer [OF m2(3), of x p]
      removal_frame_producer [OF m3(3), of x p]
    by (simp add: producer_of_def with_fields)
  then have "cut_off s m ?m'" using frame inputs by (simp add: cut_off_def)
  ultimately show ?thesis using r frame by (simp add: live_def fun_eq_iff)
qed

text \<open>A stage without edges can be destroyed.\<close>

definition kill_stage :: "nat \<Rightarrow> Model \<Rightarrow> Model" where
  "kill_stage s m = upd_ms s (\<lambda>x. x\<lparr>ms_model := False\<rparr>)
     ((initial_erase s m)\<lparr>m_stageList := remove1 s (m_stageList m)\<rparr>)"

lemma kill_stage_fields:
  "m_data (kill_stage s m) = m_data m" "m_dataList (kill_stage s m) = m_dataList m" "m_in (kill_stage s m) = m_in m"
  "m_inList (kill_stage s m) = m_inList m" "m_out (kill_stage s m) = m_out m" "m_outList (kill_stage s m) = m_outList m"
  "m_temp (kill_stage s m) = m_temp m" "m_tempList (kill_stage s m) = m_tempList m" "m_fresh (kill_stage s m) = m_fresh m"
  "m_stageList (kill_stage s m) = remove1 s (m_stageList m)"
  "m_resetStageOrder (kill_stage s m) = m_resetStageOrder m"
  "ms_inputEdges (m_stage (kill_stage s m) t) = ms_inputEdges (m_stage m t)"
  "ms_outputEdges (m_stage (kill_stage s m) t) = ms_outputEdges (m_stage m t)"
  "ms_tempBufferEdges (m_stage (kill_stage s m) t) = ms_tempBufferEdges (m_stage m t)"
  "live (kill_stage s m) t \<longleftrightarrow> live m t \<and> t \<noteq> s"
  "set (m_initialStages (kill_stage s m)) = set (m_initialStages m) - {s}"
  by (auto simp: kill_stage_def upd_ms_def initial_erase_def live_def)

lemma kill_stage_inv:
  assumes inv: "model_inv m" and free: "ms_inputEdges (m_stage m s) = []" "ms_outputEdges (m_stage m s) = []"
  shows "model_inv (kill_stage s m)"
proof -
  note i = model_invD [OF inv] and f = kill_stage_fields [of s m]
  note e = edges_okD [OF i(1)] and eo = i(1) [unfolded edges_ok_def]
  let ?m = "kill_stage s m"
  have c: "ed_consumer (m_in m k) \<noteq> s" if "k \<in> set (md_consumerEdges (m_data m d))" for k d
    using e(6) [OF that] free(1) by auto
  have p: "ed_producer (m_out m k) \<noteq> s" if "md_producerEdge (m_data m d) = Some k" for k d
    using e(14) [OF that] free(2) by auto
  have "edges_ok ?m"
  proof (rule edges_okI)
    show "consumers_ok ?m" using eo c unfolding consumers_ok_def f by blast
    show "inputs_ok ?m" using eo unfolding inputs_ok_def f by blast
    show "producers_ok ?m" using eo p unfolding producers_ok_def f by blast
    show "outputs_ok ?m" using eo unfolding outputs_ok_def f by blast
    show "temps_ok ?m" using eo unfolding temps_ok_def f by blast
    show "outList_ok ?m" using eo unfolding outList_ok_def f by blast
    show "numbers_ok ?m" using eo unfolding numbers_ok_def f by simp
  qed
  moreover have pn: "producer_of ?m = producer_of m" "consumers_of ?m = consumers_of m" "nexts ?m = nexts m" "prevs ?m = prevs m"
    by (auto simp: producer_of_def consumers_of_def fun_eq_iff kill_stage_def upd_ms_def initial_erase_def)
  then have "counts_ok ?m" using i(2) by (simp add: counts_ok_def f)
  moreover have "initial_sound ?m" using i(3) fun_cong [OF pn(4)] unfolding initial_sound_def f(16)
    by (simp add: kill_stage_def upd_ms_def initial_erase_def)
  moreover have "initial_live ?m" using i(4) by (auto simp: initial_live_def f)
  moreover have "initial_complete ?m" using i(5) by (auto simp: initial_complete_def is_source_def f)
  ultimately show ?thesis by (rule model_invI)
qed

lemma removeStage_ok:
  assumes inv: "model_inv m" and s: "live m s" "s \<in> set (m_stageList m)"
  shows "\<exists>m'. removeStage s m = Inr m' \<and> model_inv m' \<and> m_resetStageOrder m' \<and>
    (\<forall>t. live m' t \<longleftrightarrow> live m t \<and> t \<noteq> s) \<and> m_stageList m' = remove1 s (m_stageList m) \<and> cut_off s m m'"
proof -
  let ?m = "m\<lparr>m_resetStageOrder := True\<rparr>"
  have inv0: "model_inv ?m" using inv model_inv_core [of ?m m] by simp
  have s0: "live ?m s" and lm: "live ?m = live m" using s(1) by (auto simp: live_def)
  obtain m1 where m1: "disconnectStage s ?m = Inr m1" "model_inv m1" "live m1 = live ?m" "m_resetStageOrder m1"
    "m_stageList m1 = m_stageList m" "m_dataList m1 = m_dataList m"
    "ms_inputEdges (m_stage m1 s) = []" "ms_outputEdges (m_stage m1 s) = []" "cut_off s ?m m1"
    using disconnectStage_ok [OF inv0 s0] by auto
  have "removeStage s m = Inr (kill_stage s m1)"
    using s m1(1,5) by (simp add: removeStage_def live_def erase_from_def kill_stage_def initial_erase_def)
  moreover have "cut_off s m (kill_stage s m1)"
    using m1(9) by (auto simp: cut_off_def kill_stage_fields producer_of_def)
  ultimately show ?thesis using kill_stage_inv [OF m1(2,7,8)] m1(3-6) lm by (simp add: kill_stage_fields)
qed

section \<open>Removing data\<close>

definition drop_data :: "nat \<Rightarrow> Model \<Rightarrow> Model" where
  "drop_data d m = m\<lparr>m_dataList := remove1 d (m_dataList m)\<rparr>"

lemma drop_data_inv:
  assumes inv: "model_inv m" and d: "md_consumerEdges (m_data m d) = []" "md_producerEdge (m_data m d) = None"
  shows "model_inv (drop_data d m)"
proof (cases "d \<in> set (m_dataList m)")
  case False
  then show ?thesis using inv by (simp add: drop_data_def remove1_idem)
next
  case True
  note i = model_invD [OF inv]
  note e = edges_okD [OF i(1)] and eo = i(1) [unfolded edges_ok_def]
  let ?m = "drop_data d m"
  have dl: "set (m_dataList ?m) = set (m_dataList m) - {d}"
    using eo by (simp add: drop_data_def numbers_ok_def set_remove1_distinct)
  have live: "live ?m = live m" by (simp add: drop_data_def live_def fun_eq_iff)
  have f: "m_data ?m = m_data m" "m_in ?m = m_in m" "m_inList ?m = m_inList m" "m_out ?m = m_out m" "m_outList ?m = m_outList m"
    "m_temp ?m = m_temp m" "m_tempList ?m = m_tempList m" "m_stage ?m = m_stage m" "m_stageList ?m = m_stageList m"
    "m_fresh ?m = m_fresh m" "m_initialStages ?m = m_initialStages m" by (simp_all add: drop_data_def)
  have "edges_ok ?m"
  proof (rule edges_okI)
    have "x \<noteq> d" if "k \<in> set (md_consumerEdges (m_data m x))" for x k using that d(1) by auto
    then show "consumers_ok ?m" using eo unfolding consumers_ok_def f live dl by blast
    have "x \<noteq> d" if "md_producerEdge (m_data m x) = Some k" for x k using that d(2) by auto
    then show "producers_ok ?m" using eo unfolding producers_ok_def f live dl by blast
    show "inputs_ok ?m" using eo unfolding inputs_ok_def f live by blast
    show "outputs_ok ?m" using eo unfolding outputs_ok_def f live by blast
    show "temps_ok ?m" using eo unfolding temps_ok_def f live by blast
    show "outList_ok ?m" using eo unfolding outList_ok_def f by blast
    show "numbers_ok ?m" using eo dl unfolding numbers_ok_def f by (auto simp: drop_data_def)
  qed
  moreover have "counts_ok ?m"
  proof -
    have P: "producer_of m d = None" using d(2) by (simp add: producer_of_def)
    have "link_count (set (m_dataList m) - {d}) (producer_of m) (consumers_of m) s t =
        link_count (set (m_dataList m)) (producer_of m) (consumers_of m) s t" for s t
      using True P by (simp add: link_count_def sum.remove [of "set (m_dataList m)" d])
    then have "links_match (set (m_dataList m) - {d}) (producer_of m) (consumers_of m) (nexts m) (prevs m)"
      using links_match_cong [OF i(2) [unfolded counts_ok_def]] by blast
    moreover have "producer_of ?m = producer_of m" "consumers_of ?m = consumers_of m"
      by (auto simp: producer_of_def consumers_of_def f fun_eq_iff)
    ultimately show ?thesis by (simp add: counts_ok_def dl f)
  qed
  moreover have "initial_sound ?m" "initial_live ?m" "initial_complete ?m"
    using i(3-5) by (simp_all add: initial_sound_def initial_live_def initial_complete_def is_source_def f live)
  ultimately show ?thesis by (rule model_invI)
qed

lemma removeUnusedData_inv:
  assumes inv: "model_inv m" and d: "md_producerEdge (m_data m d) = None" and r: "removeUnusedData d m = Inr m'"
  shows "model_inv m'" "live m' = live m" "m_stageList m' = m_stageList m"
proof -
  have m': "core m' = core (drop_data d m)" "live m' = live m" "m_stageList m' = m_stageList m"
    and c: "md_consumerEdges (m_data m d) = []"
    using r by (auto simp: removeUnusedData_def Let_def erase_from_def drop_data_def core_def live_def fun_eq_iff split: if_splits)
  show "model_inv m'" using drop_data_inv [OF inv c d] model_inv_core [OF m'(1)] by simp
  show "live m' = live m" "m_stageList m' = m_stageList m" by (fact m')+
qed

lemma cleanUp_inv:
  assumes inv: "model_inv m" and r: "cleanUp m = Inr m'"
  shows "model_inv m'" "live m' = live m" "m_stageList m' = m_stageList m"
proof -
  let ?P = "\<lambda>nm. model_inv (snd nm) \<and> live (snd nm) = live m \<and> m_stageList (snd nm) = m_stageList m"
  obtain nm where f: "foldE cleanUp_data (m_dataList m) (False, m) = Inr nm"
    and m': "m' = (if fst nm then snd nm\<lparr>m_needAlloc := True\<rparr> else snd nm)"
    using r by (auto simp: cleanUp_def split: prod.splits)
  have "?P nm"
  proof (rule foldE_inv [OF f])
    fix d nm nm' assume P: "?P nm" and s: "cleanUp_data d nm = Inr nm'"
    note i = edges_okD [OF model_invD(1) [OF conjunct1 [OF P]]]
    let ?x = "m_data (snd nm) d"
    have temp: "md_consumerEdges ?x = []" "md_producerEdge ?x = None" if "md_usage ?x = DU_Temp"
    proof -
      show "md_consumerEdges ?x = []" using i(20) [of _ d] that by (cases "md_consumerEdges ?x") auto
      show "md_producerEdge ?x = None" using i(15) [of d] that by (cases "md_producerEdge ?x") (auto simp: can_have_producer_def)
    qed
    have "snd nm' = snd nm \<or> snd nm' = drop_data d (snd nm) \<and> md_consumerEdges ?x = [] \<and> md_producerEdge ?x = None"
    proof -
      obtain b x where nm: "nm = (b, x)" by force
      have "snd nm' = x \<or> snd nm' = drop_data d x \<and> (md_usage (m_data x d) = DU_Temp \<or>
          md_consumerEdges (m_data x d) = [] \<and> md_producerEdge (m_data x d) = None)"
        using s unfolding nm cleanUp_data_def by (auto simp: Let_def erase_from_def drop_data_def split: if_splits)
      with temp [unfolded nm snd_conv] show ?thesis unfolding nm snd_conv by blast
    qed
    moreover have "live (drop_data d x) = live x" "m_stageList (drop_data d x) = m_stageList x" for x
      by (auto simp: drop_data_def live_def)
    ultimately show "?P nm'" using P drop_data_inv [of "snd nm" d] by metis
  qed (use inv in simp)
  moreover have "core m' = core (snd nm)" "live m' = live (snd nm)" "m_stageList m' = m_stageList (snd nm)"
    by (auto simp: m' live_def)
  ultimately show "model_inv m'" "live m' = live m" "m_stageList m' = m_stageList m"
    using model_inv_core [of m' "snd nm"] by simp_all
qed

end
