(* ===== verification/VpuAllocator.thy ===== *)
theory VpuAllocator
  imports VpuGraph
begin

text \<open>
  The VPU allocator (\<open>src/src/vpu/graph_transformer/src/allocator.cpp\<close> and
  \<open>allocator_shaves.cpp\<close>): placing data nodes into the DDR and CMX pools, releasing or moving
  them, locking SHAVE processors, whose CMX slices the pool may not use. \<open>DataSet\<close> is an
  unordered set; the model keeps it as a list and visits it in insertion order, one of the
  orders the code may see.
\<close>

section \<open>State\<close>

record Allocator =
  al_modelBatchSize :: int
  al_maxCmxSize :: int
  al_pools :: Pools
  al_lockedSHAVEs :: int
  al_allocatedData :: "nat list"
  al_allocatedIntermData :: "nat list"
  al_memChunksPerData :: "nat \<rightharpoonup> nat"
  al_blobMemOffset :: int
  al_inputMemOffset :: int
  al_outputMemOffset :: int
  al_needToAllocNonIntermData :: bool
  al_candidatesForCMX :: "nat list"

record UsedMemory =
  um_BSS :: int
  um_CMX :: int
  um_blob :: int
  um_input :: int
  um_output :: int

datatype AllocationStatus = OK | SHAVES_FAILED | DATA_FAILED
datatype DeallocationMode = JustFree | MoveFromCMX

record AllocationResult =
  ar_status :: AllocationStatus
  ar_failedStage :: "nat option"

definition resultOK :: AllocationResult where
  "resultOK = \<lparr>ar_status = OK, ar_failedStage = None\<rparr>"

text \<open>A new allocator, with the resources of the compile environment.\<close>

definition mk_Allocator :: "int \<Rightarrow> Allocator" where
  "mk_Allocator numCMXSlices =
     \<lparr>al_modelBatchSize = 1, al_maxCmxSize = numCMXSlices * CMX_SLICE_SIZE, al_pools = initialPools,
      al_lockedSHAVEs = 0, al_allocatedData = [], al_allocatedIntermData = [],
      al_memChunksPerData = Map.empty, al_blobMemOffset = 0, al_inputMemOffset = 0,
      al_outputMemOffset = 0, al_needToAllocNonIntermData = True, al_candidatesForCMX = []\<rparr>"

type_synonym World = "Allocator \<times> Graph"

definition set_insert :: "nat \<Rightarrow> nat list \<Rightarrow> nat list" where
  "set_insert d ds = (if d \<in> set ds then ds else ds @ [d])"

section \<open>SHAVEs\<close>

definition SHAVES_LIMITATION_FOR_HW :: int where "SHAVES_LIMITATION_FOR_HW = 2"

definition needToLimit :: "Graph \<Rightarrow> nat \<Rightarrow> bool" where
  "needToLimit g s \<longleftrightarrow> sg_category (g_stage g s) = SC_HW \<or>
     list_ex (\<lambda>p. sg_category (g_stage g p) = SC_HW) (sg_prev (g_stage g s)) \<or>
     list_ex (\<lambda>n. sg_category (g_stage g n) = SC_HW) (sg_next (g_stage g s))"

definition allocateSHAVEs :: "nat \<Rightarrow> StageSHAVEsRequirements \<Rightarrow> World \<Rightarrow> (bool \<times> World) result" where
  "allocateSHAVEs s reqs w =
     (let (a, g) = w in
      if al_lockedSHAVEs a \<noteq> 0 then Inl (Thrown ''Can't allocate SHAVEs : was already allocated'')
      else if reqs = NotNeeded then Inr (True, w)
      else
        let usedCMXslices = cpp_div (curMemOffset (cmxPool (al_pools a)) + CMX_SLICE_SIZE - 1) CMX_SLICE_SIZE in
        bindE (ie_assert (usedCMXslices \<le> g_numCMXSlices g)) (\<lambda>_.
        let numAvailableSHAVEs = min (g_numCMXSlices g - usedCMXslices) (g_numSHAVEs g) in
        if numAvailableSHAVEs = 0 then Inr (False, w)
        else if reqs = NeedMax \<and> numAvailableSHAVEs < g_numSHAVEs g then Inr (False, w)
        else
          let necessarySHAVEsNum =
            (if reqs = NeedMax then numAvailableSHAVEs
             else if reqs = OnlyOne then 1
             else if reqs = TwoOrOne then min numAvailableSHAVEs 2
             else if reqs = CanBeLimited \<and> needToLimit g s then min numAvailableSHAVEs SHAVES_LIMITATION_FOR_HW
             else numAvailableSHAVEs) in
          bindE (setNumSHAVEs s necessarySHAVEsNum g) (\<lambda>g.
          Inr (True, (a\<lparr>al_lockedSHAVEs := necessarySHAVEsNum\<rparr>, g)))))"

definition freeSHAVEs :: "Allocator \<Rightarrow> Allocator" where
  "freeSHAVEs a = a\<lparr>al_lockedSHAVEs := 0\<rparr>"

definition shaves_reset :: "Allocator \<Rightarrow> Allocator" where
  "shaves_reset a = a\<lparr>al_lockedSHAVEs := 0\<rparr>"

definition shaves_selfCheck :: "Allocator \<Rightarrow> unit result" where
  "shaves_selfCheck a = (if al_lockedSHAVEs a > 0 then Inl (Thrown ''Internal error in SHAVEs allocation'') else Inr ())"

section \<open>Placing data\<close>

definition calcAllocationSize :: "Graph \<Rightarrow> nat \<Rightarrow> int result" where
  "calcAllocationSize g d = bindE (totalByteSize g d) (\<lambda>n. alignVal n DATA_ALIGNMENT)"

text \<open>\<open>for (p : offset) byteOffset += p.second * parentStrides[p.first]\<close>\<close>

fun byte_offset :: "DimValues \<Rightarrow> (Dim \<times> int) list \<Rightarrow> int \<Rightarrow> int result" where
  "byte_offset strides [] acc = Inr acc"
| "byte_offset strides ((d, x) # ps) acc = bindE (dv_at strides d) (\<lambda>s. byte_offset strides ps (acc + x * s))"

definition child_offset :: "SharedAllocation \<Rightarrow> int \<Rightarrow> Graph \<Rightarrow> int result" where
  "child_offset e offsetLimitation g =
     (let parent = sa_parent e; child = sa_child e; memoryOffset = dn_memoryOffset (g_data g parent) in
      case sa_mode e of
        ROI \<Rightarrow>
          bindE (data_strides g parent) (\<lambda>parentStrides.
          bindE (dv_iterate (sa_offset e)) (\<lambda>ps.
          bindE (byte_offset parentStrides ps 0) (\<lambda>byteOffset.
          bindE (lastElemOffset g child) (\<lambda>last.
          bindE (ie_assert (memoryOffset + byteOffset + last \<le> offsetLimitation)) (\<lambda>_.
          Inr (memoryOffset + byteOffset))))))
      | Reshape \<Rightarrow>
          bindE strides_compact (\<lambda>compact.
          bindE (data_checkStrides g parent compact) (\<lambda>b.
          bindE (ie_assert b) (\<lambda>_.
          bindE (data_checkStrides g child compact) (\<lambda>b.
          bindE (ie_assert b) (\<lambda>_. Inr memoryOffset))))))"

fun update_children :: "nat \<Rightarrow> int \<Rightarrow> SharedAllocation list \<Rightarrow> Graph \<Rightarrow> Graph result" where
  "update_children n lim [] g = Inr g"
| "update_children 0 lim (e # es) g = Inl OutOfFuel"
| "update_children (Suc n) lim (e # es) g =
     bindE (child_offset e lim g) (\<lambda>memoryOffset.
     bindE (setAllocationInfo (sa_child e) (dn_location (g_data g (sa_parent e))) memoryOffset g) (\<lambda>g.
     bindE (update_children n lim (dn_childDataEdges (g_data g (sa_child e))) g) (\<lambda>g.
     update_children (Suc n) lim es g)))"

definition updateChildDataAllocation :: "nat \<Rightarrow> int \<Rightarrow> Graph \<Rightarrow> Graph result" where
  "updateChildDataAllocation d offsetLimitation g =
     update_children (walk_fuel g) offsetLimitation (dn_childDataEdges (g_data g d)) g"

text \<open>The branches of \<open>allocateData\<close> for data with memory of its own kind.\<close>

definition allocateFake :: "nat \<Rightarrow> World \<Rightarrow> (bool \<times> World) result" where
  "allocateFake d w =
     (let (a, g) = w in
      if d \<in> set (al_allocatedData a) then Inr (True, w)
      else bindE (ie_assert (dn_parentDataEdge (g_data g d) = None)) (\<lambda>_.
           bindE (updateChildDataAllocation d 0 g) (\<lambda>g.
           Inr (True, (a\<lparr>al_allocatedData := set_insert d (al_allocatedData a)\<rparr>, g)))))"

definition allocateInput :: "nat \<Rightarrow> World \<Rightarrow> (bool \<times> World) result" where
  "allocateInput d w =
     (let (a, g) = w; memoryType = dn_memReqs (g_data g d) in
      if d \<in> set (al_allocatedData a) then Inr (memoryType = DDR, w)
      else bindE (ie_assert (dn_parentDataEdge (g_data g d) = None)) (\<lambda>_.
           bindE (totalByteSize g d) (\<lambda>n.
           bindE (alignVal (n * al_modelBatchSize a) DATA_ALIGNMENT) (\<lambda>finalByteSize.
           bindE (setIOInfo d Loc_Input (al_inputMemOffset a) g) (\<lambda>g.
           let a = a\<lparr>al_inputMemOffset := al_inputMemOffset a + finalByteSize\<rparr> in
           bindE (updateChildDataAllocation d DDR_MAX_SIZE g) (\<lambda>g.
           Inr (memoryType = DDR, (a\<lparr>al_allocatedData := set_insert d (al_allocatedData a)\<rparr>, g))))))))"

definition allocateOutput :: "nat \<Rightarrow> World \<Rightarrow> (bool \<times> World) result" where
  "allocateOutput d w =
     (let (a, g) = w; memoryType = dn_memReqs (g_data g d) in
      if d \<in> set (al_allocatedData a) then Inr (memoryType = DDR, w)
      else bindE (ie_assert (dn_parentDataEdge (g_data g d) = None)) (\<lambda>_.
           bindE (totalByteSize g d) (\<lambda>n.
           bindE (alignVal (if dn_unbatched (g_data g d) then n else n * al_modelBatchSize a) DATA_ALIGNMENT) (\<lambda>finalByteSize.
           bindE (setIOInfo d Loc_Output (al_outputMemOffset a) g) (\<lambda>g.
           let a = a\<lparr>al_outputMemOffset := al_outputMemOffset a + finalByteSize\<rparr> in
           bindE (updateChildDataAllocation d DDR_MAX_SIZE g) (\<lambda>g.
           Inr (memoryType = DDR, (a\<lparr>al_allocatedData := set_insert d (al_allocatedData a)\<rparr>, g))))))))"

definition allocateConst :: "nat \<Rightarrow> World \<Rightarrow> (bool \<times> World) result" where
  "allocateConst d w =
     (let (a, g) = w; memoryType = dn_memReqs (g_data g d) in
      if d \<in> set (al_allocatedData a) then Inr (memoryType = DDR, w)
      else bindE (ie_assert (dn_parentDataEdge (g_data g d) = None)) (\<lambda>_.
           bindE strides_compact (\<lambda>compact.
           bindE (data_checkStrides g d compact) (\<lambda>b.
           bindE (ie_assert b) (\<lambda>_.
           bindE (ie_assert (dn_hasContent (g_data g d))) (\<lambda>_.
           bindE (calcAllocationSize g d) (\<lambda>finalByteSize.
           bindE (setAllocationInfo d Loc_Blob (al_blobMemOffset a) g) (\<lambda>g.
           let a = a\<lparr>al_blobMemOffset := al_blobMemOffset a + finalByteSize\<rparr> in
           bindE (updateChildDataAllocation d DDR_MAX_SIZE g) (\<lambda>g.
           Inr (memoryType = DDR, (a\<lparr>al_allocatedData := set_insert d (al_allocatedData a)\<rparr>, g)))))))))))"

text \<open>A node with no parent and usage Intermediate or Temp.\<close>

definition count_uses :: "Graph \<Rightarrow> nat \<Rightarrow> int result" where
  "count_uses g d =
     (if dn_usage (g_data g d) = DU_Temp then Inr 1
      else loopOverData g d (\<lambda>sub inUse. Inr (inUse + dn_numConsumers (g_data g sub))) 0)"

definition allocateOwn :: "nat \<Rightarrow> World \<Rightarrow> (bool \<times> World) result" where
  "allocateOwn d w =
     (let (a, g) = w; memoryType = dn_memReqs (g_data g d) in
      if d \<in> set (al_allocatedIntermData a) then
        (case al_memChunksPerData a d of
           None \<Rightarrow> Inl AssertFailed
         | Some cid \<Rightarrow> (case find_chunk (al_pools a) cid of
             None \<Rightarrow> Inl AssertFailed
           | Some c \<Rightarrow> Inr (mc_memType c = memoryType, w)))
      else
        bindE (calcAllocationSize g d) (\<lambda>finalByteSize.
        bindE (count_uses g d) (\<lambda>inUse.
        bindE (ie_assert (inUse \<ge> 1)) (\<lambda>_.
        bindE (allocateMem (al_maxCmxSize a) (al_lockedSHAVEs a) memoryType finalByteSize inUse (al_pools a)) (\<lambda>(r, ps).
        case r of
          None \<Rightarrow> Inr (False, (a\<lparr>al_pools := ps\<rparr>, g))
        | Some cid \<Rightarrow>
            let c = the (find_chunk ps cid) in
            bindE (setAllocationInfo d (if mc_memType c = CMX then Loc_CMX else Loc_BSS) (mc_pointer c) g) (\<lambda>g.
            let offsetLimitation = (if dn_location (g_data g d) = Loc_CMX then al_maxCmxSize a else DDR_MAX_SIZE) in
            bindE (updateChildDataAllocation d offsetLimitation g) (\<lambda>g.
            Inr (mc_memType c = memoryType,
              (a\<lparr>al_pools := ps,
                al_memChunksPerData := (case al_memChunksPerData a d of
                   None \<Rightarrow> (al_memChunksPerData a)(d \<mapsto> cid) | Some _ \<Rightarrow> al_memChunksPerData a),
                al_allocatedIntermData := set_insert d (al_allocatedIntermData a)\<rparr>, g)))))))))"

fun allocate_data :: "nat \<Rightarrow> nat \<Rightarrow> World \<Rightarrow> (bool \<times> World) result" where
  "allocate_data 0 d w = Inl OutOfFuel"
| "allocate_data (Suc n) d w =
     (let node = g_data (snd w) d in
      case dn_usage node of
        DU_Fake \<Rightarrow> allocateFake d w
      | DU_Input \<Rightarrow> allocateInput d w
      | DU_Output \<Rightarrow> allocateOutput d w
      | DU_Const \<Rightarrow> allocateConst d w
      | _ \<Rightarrow>
          bindE (if dn_usage node = DU_Intermediate
                 then bindE (ie_assert (dn_producerEdge node \<noteq> None)) (\<lambda>_. ie_assert (dn_numConsumers node > 0))
                 else Inr ()) (\<lambda>_.
          case dn_parentDataEdge node of
            Some e \<Rightarrow>
              bindE (ie_assert (dn_memReqs (g_data (snd w) (sa_parent e)) = dn_memReqs node)) (\<lambda>_.
              allocate_data n (sa_parent e) w)
          | None \<Rightarrow> allocateOwn d w))"

definition allocateData :: "nat \<Rightarrow> World \<Rightarrow> (bool \<times> World) result" where
  "allocateData d w = allocate_data (walk_fuel (snd w)) d w"

section \<open>Releasing and moving data\<close>

text \<open>The part of \<open>freeData\<close> for a top parent of usage Intermediate or Temp.\<close>

definition freeJust :: "nat \<Rightarrow> nat \<Rightarrow> MemChunk \<Rightarrow> World \<Rightarrow> World result" where
  "freeJust topParent cid c w =
     (let (a, g) = w; n = mc_inUse c - 1; ps = update_inUse cid n (al_pools a) in
      if n = 0 then
        bindE (freeMem cid ps) (\<lambda>ps.
        Inr (a\<lparr>al_pools := ps, al_memChunksPerData := (al_memChunksPerData a)(topParent := None),
               al_allocatedIntermData := filter (\<lambda>x. x \<noteq> topParent) (al_allocatedIntermData a)\<rparr>, g))
      else Inr (a\<lparr>al_pools := ps\<rparr>, g))"

definition freeMove :: "nat \<Rightarrow> nat \<Rightarrow> MemChunk \<Rightarrow> World \<Rightarrow> World result" where
  "freeMove d cid c w =
     (let (a, g) = w in
      bindE (ie_assert (mc_memType c = CMX)) (\<lambda>_.
      bindE (freeMem cid (al_pools a)) (\<lambda>ps.
      bindE (allocateMem (al_maxCmxSize a) (al_lockedSHAVEs a) DDR (mc_size c) (mc_inUse c) ps) (\<lambda>(r, ps).
      case r of
        None \<Rightarrow> Inl AssertFailed
      | Some ddr \<Rightarrow>
          let a = a\<lparr>al_pools := ps, al_memChunksPerData := (al_memChunksPerData a)(d \<mapsto> ddr)\<rparr> in
          bindE (setAllocationInfo d Loc_BSS (mc_pointer (the (find_chunk ps ddr))) g) (\<lambda>g.
          bindE (updateChildDataAllocation d DDR_MAX_SIZE g) (\<lambda>g. Inr (a, g)))))))"

definition freeData :: "nat \<Rightarrow> DeallocationMode \<Rightarrow> World \<Rightarrow> World result" where
  "freeData d mode w =
     bindE (getTopParentData (snd w) d) (\<lambda>topParent.
     let (a, g) = w; usage = dn_usage (g_data g topParent) in
     if usage = DU_Intermediate \<or> usage = DU_Temp then
       bindE (ie_assert (topParent \<in> set (al_allocatedIntermData a))) (\<lambda>_.
       case al_memChunksPerData a topParent of
         None \<Rightarrow> Inl AssertFailed
       | Some cid \<Rightarrow> (case find_chunk (al_pools a) cid of
           None \<Rightarrow> Inl AssertFailed
         | Some c \<Rightarrow>
             bindE (ie_assert (mc_inUse c > 0)) (\<lambda>_.
             case mode of JustFree \<Rightarrow> freeJust topParent cid c w | MoveFromCMX \<Rightarrow> freeMove d cid c w)))
     else Inr w)"

section \<open>Queries\<close>

definition selfCheck :: "Allocator \<Rightarrow> unit result" where
  "selfCheck a =
     bindE (shaves_selfCheck a) (\<lambda>_.
     if \<not> pool_clean (ddrPool (al_pools a)) then Inl (Thrown ''Internal error in DDR allocation'')
     else if \<not> pool_clean (cmxPool (al_pools a)) then Inl (Thrown ''Internal error in CMX allocation'')
     else Inr ())"

definition usedMemory :: "Allocator \<Rightarrow> UsedMemory" where
  "usedMemory a = \<lparr>um_BSS = memUsed (ddrPool (al_pools a)), um_CMX = memUsed (cmxPool (al_pools a)),
     um_blob = al_blobMemOffset a, um_input = al_inputMemOffset a, um_output = al_outputMemOffset a\<rparr>"

fun extractDatas :: "Allocator \<Rightarrow> Graph \<Rightarrow> MemoryType \<Rightarrow> nat list \<Rightarrow> nat list \<Rightarrow> nat list result" where
  "extractDatas a g memType [] out = Inr out"
| "extractDatas a g memType (d # from) out =
     (if dn_usage (g_data g d) \<noteq> DU_Intermediate then extractDatas a g memType from out
      else case al_memChunksPerData a d of
        None \<Rightarrow> Inl AssertFailed
      | Some cid \<Rightarrow> (case find_chunk (al_pools a) cid of
          None \<Rightarrow> Inl AssertFailed
        | Some c \<Rightarrow>
            bindE (ie_assert (mc_inUse c > 0)) (\<lambda>_.
            extractDatas a g memType from (if mc_memType c = memType then out @ [d] else out))))"

definition getAllocatedDatas :: "Allocator \<Rightarrow> Graph \<Rightarrow> MemoryType \<Rightarrow> nat list result" where
  "getAllocatedDatas a g memType =
     (if memType = CMX then extractDatas a g memType (al_allocatedIntermData a) []
      else bindE (extractDatas a g memType (al_allocatedData a) [])
             (extractDatas a g memType (al_allocatedIntermData a)))"

section \<open>Whole-model operations\<close>

definition reset :: "Graph \<Rightarrow> Allocator \<Rightarrow> Allocator" where
  "reset g a = (shaves_reset (a\<lparr>al_maxCmxSize := g_numCMXSlices g * CMX_SLICE_SIZE\<rparr>))
     \<lparr>al_pools := \<lparr>ddrPool = pool_clear, cmxPool = pool_clear, nextChunk = nextChunk (al_pools a)\<rparr>,
      al_allocatedIntermData := [], al_memChunksPerData := Map.empty\<rparr>"

fun preprocess_loop :: "nat list \<Rightarrow> World \<Rightarrow> (AllocationResult \<times> World) result" where
  "preprocess_loop [] w = Inr (resultOK, w)"
| "preprocess_loop (d # ds) w =
     (let usage = dn_usage (g_data (snd w) d) in
      if usage \<noteq> DU_Intermediate \<and> usage \<noteq> DU_Temp then
        bindE (allocateData d w) (\<lambda>(b, w).
          if \<not> b then Inr (\<lparr>ar_status = DATA_FAILED,
             ar_failedStage = map_option fst (dn_producerEdge (g_data (snd w) d))\<rparr>, w)
          else preprocess_loop ds w)
      else preprocess_loop ds w)"

definition preprocess :: "World \<Rightarrow> (AllocationResult \<times> World) result" where
  "preprocess w =
     (let (a, g) = w; a = reset g a in
      bindE (if al_needToAllocNonIntermData a then
               let a = a\<lparr>al_allocatedData := [], al_blobMemOffset := 0, al_inputMemOffset := 0, al_outputMemOffset := 0\<rparr>;
                   g = fold clearAllocation (g_datas g) g
               in preprocess_loop (g_datas g) (a, g)
             else Inr (resultOK, (a, g))) (\<lambda>(r, w).
      if ar_status r \<noteq> OK then Inr (r, w)
      else Inr (resultOK, ((fst w)\<lparr>al_needToAllocNonIntermData := False\<rparr>, snd w))))"

definition move_to_DDR :: "nat \<Rightarrow> World \<Rightarrow> World result" where
  "move_to_DDR d w = bindE (loopOverData (snd w) d (\<lambda>sub. setMemReqs sub DDR) (snd w)) (\<lambda>g. Inr (fst w, g))"

definition erase_candidate :: "nat \<Rightarrow> World \<Rightarrow> World" where
  "erase_candidate d w = ((fst w)\<lparr>al_candidatesForCMX := filter (\<lambda>x. x \<noteq> d) (al_candidatesForCMX (fst w))\<rparr>, snd w)"

fun remove_first_candidate :: "nat list \<Rightarrow> World \<Rightarrow> (bool \<times> World) result" where
  "remove_first_candidate [] w = Inr (False, w)"
| "remove_first_candidate (d # ds) w =
     bindE (ie_assert (dn_parentDataEdge (g_data (snd w) d) = None)) (\<lambda>_.
     if d \<in> set (al_candidatesForCMX (fst w)) then
       bindE (freeData d MoveFromCMX w) (\<lambda>w.
       bindE (move_to_DDR d w) (\<lambda>w. Inr (True, erase_candidate d w)))
     else remove_first_candidate ds w)"

definition removeCMXCandidates :: "nat \<Rightarrow> World \<Rightarrow> (bool \<times> World) result" where
  "removeCMXCandidates d w =
     (let (a, g) = w in
      if d \<in> set (al_candidatesForCMX a) then
        bindE (ie_assert (dn_parentDataEdge (g_data g d) = None)) (\<lambda>_.
        let allocated = d \<in> set (al_allocatedIntermData a);
            fromHW = (case dn_producerEdge (g_data g d) of
                        None \<Rightarrow> False | Some (st, portInd) \<Rightarrow> portInd = 0 \<and> sg_category (g_stage g st) = SC_HW)
        in if allocated \<and> fromHW then Inr (True, w)
           else bindE (if allocated then freeData d MoveFromCMX w else Inr w) (\<lambda>w.
                bindE (move_to_DDR d w) (\<lambda>w. Inr (True, erase_candidate d w))))
      else bindE (getAllocatedDatas a g CMX) (\<lambda>cmxDatas. remove_first_candidate cmxDatas w))"

end
