(* ===== verification/VpuShare.thy ===== *)
theory VpuShare
  imports VpuModel VpuAllocator
begin

text \<open>
  Shared memory in the VPU model (\<open>Model::connectDatasImpl\<close> and \<open>Model::DataEdgeHelper\<close> of
  \<open>src/model/model.cpp\<close>): a child data object that lives inside the buffer of its parent. What the
  checks of the connection give the allocator: the child's elements stay inside the parent's bytes,
  and children at separate offsets do not touch.
\<close>

section \<open>The model as the allocator sees it\<close>

text \<open>
  The nodes of \<open>VpuGraph\<close>, read off the model; what only the allocator keeps is at its initial value.
\<close>

definition share_edge :: "Model \<Rightarrow> nat \<Rightarrow> SharedAllocation" where
  "share_edge m e = \<lparr>sa_parent = ed_parent (m_dataEdge m e), sa_child = ed_child (m_dataEdge m e),
     sa_mode = ed_mode (m_dataEdge m e), sa_offset = ed_offset (m_dataEdge m e)\<rparr>"

definition data_node :: "Model \<Rightarrow> nat \<Rightarrow> DataNode" where
  "data_node m d = (let x = m_data m d in
     \<lparr>dn_usage = md_usage x, dn_desc = md_desc x, dn_requiredStrides = md_requiredStrides x,
      dn_producerEdge = map_option (\<lambda>e. (ed_producer (m_out m e), int (ed_outPort (m_out m e)))) (md_producerEdge x),
      dn_numConsumers = int (length (md_consumerEdges x)),
      dn_parentDataEdge = map_option (share_edge m) (md_parentDataEdge x),
      dn_childDataEdges = map (share_edge m) (md_childDataEdges x), dn_hasContent = (md_content x \<noteq> None),
      dn_unbatched = False, dn_memReqs = DDR, dn_location = Loc_None, dn_memoryOffset = 0, dn_ioBufferOffset = None\<rparr>)"

definition stage_node :: "Model \<Rightarrow> nat \<Rightarrow> Stage" where
  "stage_node m s = (let x = m_stage m s in
     \<lparr>sg_category = ms_category x, sg_reqs = NotNeeded, sg_prev = map fst (ms_prevStages x),
      sg_next = map fst (ms_nextStages x), sg_inputs = map (\<lambda>e. ed_input (m_in m e)) (ms_inputEdges x),
      sg_outputs = map (\<lambda>e. ed_output (m_out m e)) (ms_outputEdges x),
      sg_tempBuffers = map (\<lambda>e. ed_tempBuffer (m_temp m e)) (ms_tempBufferEdges x),
      sg_parentStage = map_option (\<lambda>e. ed_parentStage (m_stageEdge m e)) (ms_parentStageEdge x),
      sg_injected = map (\<lambda>e. ed_childStage (m_stageEdge m e)) (ms_injectedStageEdges x), sg_numSHAVEs = 0\<rparr>)"

definition graph_of :: "Model \<Rightarrow> Graph" where
  "graph_of m = \<lparr>g_data = data_node m, g_stage = stage_node m, g_datas = m_dataList m,
     g_stages = m_orderedStageList m, g_numCMXSlices = 0, g_numSHAVEs = 0\<rparr>"

section \<open>Connecting two data objects\<close>

definition find_connection :: "nat \<Rightarrow> nat \<Rightarrow> Model \<Rightarrow> nat result" where
  "find_connection producer consumer m =
     (case find (\<lambda>s. \<exists>e \<in> set (ms_outputEdges (m_stage m s)). ed_output (m_out m e) = consumer)
             (map (\<lambda>e. ed_consumer (m_in m e)) (md_consumerEdges (m_data m producer))) of
        None \<Rightarrow> Inl AssertFailed | Some s \<Rightarrow> Inr s)"

definition check_roi_type :: "StageType \<Rightarrow> SharedDataOrder \<Rightarrow> unit result" where
  "check_roi_type ty order =
     (if ty = T_Concat \<or> ty = T_Expand then ie_assert (order = ChildWritesToParent)
      else if ty = T_Split \<or> ty = T_Shrink then ie_assert (order = ParentWritesToChild)
      else Inl (Thrown ''Stage type can't be used for ROI data connection''))"

definition check_roi_dim :: "DataDesc \<Rightarrow> DataDesc \<Rightarrow> Dim \<times> int \<Rightarrow> unit \<Rightarrow> unit result" where
  "check_roi_dim parentDesc childDesc p _ =
     bindE (ie_assert (order_hasDim (dd_dimsOrder parentDesc) (fst p))) (\<lambda>_.
     bindE (desc_dim childDesc (fst p)) (\<lambda>c.
     bindE (desc_dim parentDesc (fst p)) (\<lambda>n. ie_assert (c + snd p \<le> n))))"

definition throw_unless :: "bool \<Rightarrow> string \<Rightarrow> unit result" where
  "throw_unless b what = (if b then Inr () else Inl (Thrown what))"

definition check_roi :: "nat \<Rightarrow> nat \<Rightarrow> StageType \<Rightarrow> SharedDataOrder \<Rightarrow> DimValues \<Rightarrow> Model \<Rightarrow> Model result" where
  "check_roi parent child ty order offset m =
     (let p = m_data m parent; c = m_data m child in
      bindE (check_roi_type ty order) (\<lambda>_.
      bindE (throw_unless (dd_dimsOrder (md_desc p) = dd_dimsOrder (md_desc c))
        ''parent->desc().dimsOrder() == child->desc().dimsOrder()'') (\<lambda>_.
      bindE (dv_iterate offset) (\<lambda>ps.
      bindE (foldE (check_roi_dim (md_desc p) (md_desc c)) ps ()) (\<lambda>_.
      bindE (data_strides (graph_of m) parent) (\<lambda>strides.
      bindE (checkStrides (md_desc c) strides (md_requiredStrides c)) (\<lambda>b.
      bindE (ie_assert b) (\<lambda>_.
      Inr (upd_md child (\<lambda>x. x\<lparr>md_requiredStrides := no_strides\<rparr>) m)))))))))"

definition check_reshape :: "nat \<Rightarrow> nat \<Rightarrow> StageType \<Rightarrow> Model \<Rightarrow> unit result" where
  "check_reshape parent child ty m =
     (let p = md_desc (m_data m parent); c = md_desc (m_data m child) in
      bindE (ie_assert (ty = T_Reshape)) (\<lambda>_.
      bindE (ie_assert (dd_type p = dd_type c)) (\<lambda>_.
      bindE (totalDimSize p) (\<lambda>np. bindE (totalDimSize c) (\<lambda>nc. bindE (ie_assert (np = nc)) (\<lambda>_.
      bindE strides_compact (\<lambda>compact.
      bindE (data_checkStrides (graph_of m) parent compact) (\<lambda>b. bindE (ie_assert b) (\<lambda>_.
      bindE (data_checkStrides (graph_of m) child compact) (\<lambda>b. ie_assert b))))))))))"

text \<open>The new edge takes the place of the one the child may have had.\<close>

definition drop_parent_edge :: "nat \<Rightarrow> Model \<Rightarrow> Model result" where
  "drop_parent_edge child m =
     (case md_parentDataEdge (m_data m child) of
        None \<Rightarrow> Inr m
      | Some prevEdge \<Rightarrow>
          let prevParent = ed_parent (m_dataEdge m prevEdge) in
          bindE (erase_from prevEdge (md_childDataEdges (m_data m prevParent))) (\<lambda>es.
          Inr (upd_md prevParent (\<lambda>x. x\<lparr>md_childDataEdges := es\<rparr>) m)))"

definition new_data_edge ::
  "nat \<Rightarrow> nat \<Rightarrow> nat \<Rightarrow> SharedDataMode \<Rightarrow> SharedDataOrder \<Rightarrow> DimValues \<Rightarrow> Model \<Rightarrow> Model" where
  "new_data_edge parent child connection mode order offset m =
     (let edge = m_fresh m;
          m = m\<lparr>m_fresh := m_fresh m + 1, m_dataEdgeList := m_dataEdgeList m @ [edge],
                m_dataEdge := (m_dataEdge m)(edge := \<lparr>ed_parent = parent, ed_child = child, ed_connection = connection,
                  ed_mode = mode, ed_order = order, ed_offset = (if mode = ROI then offset else dv_empty)\<rparr>)\<rparr>;
          m = upd_md parent (\<lambda>x. x\<lparr>md_childDataEdges := md_childDataEdges x @ [edge]\<rparr>) m
      in upd_md child (\<lambda>x. x\<lparr>md_parentDataEdge := Some edge\<rparr>) m)"

definition connectDatasImpl ::
  "nat \<Rightarrow> nat \<Rightarrow> SharedDataMode \<Rightarrow> SharedDataOrder \<Rightarrow> DimValues \<Rightarrow> Model \<Rightarrow> (nat \<times> Model) result" where
  "connectDatasImpl parent child mode order offset m =
     (let producer = (if order = ChildWritesToParent then child else parent);
          consumer = (if order = ChildWritesToParent then parent else child) in
      bindE (throw_unless (md_usage (m_data m child) = DU_Intermediate) ''child->_usage == DataUsage::Intermediate'') (\<lambda>_.
      bindE (throw_unless (md_usage (m_data m parent) \<noteq> DU_Temp \<and> md_usage (m_data m parent) \<noteq> DU_Fake)
        ''parent->_usage != DataUsage::Temp && parent->_usage != DataUsage::Fake'') (\<lambda>_.
      bindE (find_connection producer consumer m) (\<lambda>s.
      bindE (throw_unless (ms_category (m_stage m s) = SC_Special)
        ''connectionStage->category() == StageCategory::Special'') (\<lambda>_.
      bindE (case mode of
               ROI \<Rightarrow> check_roi parent child (ms_type (m_stage m s)) order offset m
             | Reshape \<Rightarrow> bindE (check_reshape parent child (ms_type (m_stage m s)) m) (\<lambda>_. Inr m)) (\<lambda>m.
      let prevEdge = md_parentDataEdge (m_data m child); edge = m_fresh m in
      bindE (drop_parent_edge child m) (\<lambda>m.
      let m = new_data_edge parent child s mode order offset m in
      bindE (case prevEdge of
               None \<Rightarrow> Inr m
             | Some e \<Rightarrow> bindE (erase_from e (m_dataEdgeList m)) (\<lambda>es. Inr (m\<lparr>m_dataEdgeList := es\<rparr>))) (\<lambda>m.
      Inr (edge, m\<lparr>m_needAlloc := True\<rparr>)))))))))"

section \<open>The helper object\<close>

text \<open>
  \<open>DataEdgeHelper\<close> collects the arguments; its destructor ends the process when the handle to the
  model is still set, which only \<open>done\<close> resets, by an \<open>AutoScope\<close> also when it throws. What becomes
  of a chain of calls is a completion, an exception or the end of the process.
\<close>

datatype 'a completion = Completed 'a | Raised ie_exception | Terminated

record DataEdgeHelper =
  dh_model :: bool
  dh_parent :: "nat option"
  dh_child :: "nat option"
  dh_mode :: SharedDataMode
  dh_modeSet :: bool
  dh_order :: SharedDataOrder
  dh_orderSet :: bool
  dh_offset :: DimValues
  dh_offsetSet :: bool

definition mk_DataEdgeHelper :: DataEdgeHelper where
  "mk_DataEdgeHelper = \<lparr>dh_model = True, dh_parent = None, dh_child = None, dh_mode = ROI, dh_modeSet = False,
     dh_order = ParentWritesToChild, dh_orderSet = False, dh_offset = dv_empty, dh_offsetSet = False\<rparr>"

datatype DataEdgeCall = SetParent nat | SetChild nat | SetMode SharedDataMode | SetOrder SharedDataOrder | SetOffset DimValues

fun data_edge_call :: "Model \<Rightarrow> DataEdgeCall \<Rightarrow> DataEdgeHelper \<Rightarrow> DataEdgeHelper result" where
  "data_edge_call m (SetParent d) h =
     bindE (ie_assert (dh_model h)) (\<lambda>_. bindE (ie_assert (dh_parent h = None)) (\<lambda>_.
     bindE (ie_assert (d \<in> set (m_dataList m))) (\<lambda>_. Inr (h\<lparr>dh_parent := Some d\<rparr>))))"
| "data_edge_call m (SetChild d) h =
     bindE (ie_assert (dh_model h)) (\<lambda>_. bindE (ie_assert (dh_child h = None)) (\<lambda>_.
     bindE (ie_assert (d \<in> set (m_dataList m))) (\<lambda>_. Inr (h\<lparr>dh_child := Some d\<rparr>))))"
| "data_edge_call m (SetMode mode) h =
     bindE (ie_assert (dh_model h)) (\<lambda>_. bindE (ie_assert (\<not> dh_modeSet h)) (\<lambda>_.
     Inr (h\<lparr>dh_mode := mode, dh_modeSet := True\<rparr>)))"
| "data_edge_call m (SetOrder order) h =
     bindE (ie_assert (dh_model h)) (\<lambda>_. bindE (ie_assert (\<not> dh_orderSet h)) (\<lambda>_.
     Inr (h\<lparr>dh_order := order, dh_orderSet := True\<rparr>)))"
| "data_edge_call m (SetOffset offset) h =
     bindE (ie_assert (dh_model h)) (\<lambda>_. bindE (ie_assert (\<not> dh_offsetSet h)) (\<lambda>_.
     Inr (h\<lparr>dh_offset := offset, dh_offsetSet := True\<rparr>)))"

definition data_edge_done :: "DataEdgeHelper \<Rightarrow> Model \<Rightarrow> (nat \<times> Model) result \<times> DataEdgeHelper" where
  "data_edge_done h m =
     (case (dh_parent h, dh_child h) of
        (Some p, Some c) \<Rightarrow>
          if dh_model h \<and> dh_modeSet h \<and> dh_orderSet h
          then (connectDatasImpl p c (dh_mode h) (dh_order h) (dh_offset h) m, h\<lparr>dh_model := False\<rparr>)
          else (Inl AssertFailed, h)
      | _ \<Rightarrow> (Inl AssertFailed, h))"

definition connectDatas :: "DataEdgeCall list \<Rightarrow> Model \<Rightarrow> (nat \<times> Model) completion" where
  "connectDatas calls m =
     (case foldE (data_edge_call m) calls mk_DataEdgeHelper of
        Inl e \<Rightarrow> Terminated
      | Inr h \<Rightarrow>
          let (r, h) = data_edge_done h m in
          if dh_model h then Terminated else case r of Inl e \<Rightarrow> Raised e | Inr x \<Rightarrow> Completed x)"

section \<open>What a region of interest gives\<close>

text \<open>The offset of a region in each dimension; a dimension that is not mentioned has offset 0.\<close>

definition offset_in :: "DimValues \<Rightarrow> Dim \<Rightarrow> int" where
  "offset_in offset d = (case dv_map offset d of None \<Rightarrow> 0 | Some x \<Rightarrow> x)"

lemma byte_offset_sum:
  assumes "\<forall>(d, x) \<in> set es. dv_map strides d \<noteq> None"
  shows "byte_offset strides es acc = Inr (acc + (\<Sum>(d, x) \<leftarrow> es. x * stride_of strides d))"
  using assms by (induction strides es acc rule: byte_offset.induct) (auto simp: dv_at_eq stride_of_def add.assoc)

lemma sum_entries:
  assumes "distinct (map fst es)" "set (map fst es) \<subseteq> set perm" "distinct perm"
  shows "(\<Sum>(d, x) \<leftarrow> es. x * S d) = (\<Sum>d \<leftarrow> perm. (case map_of es d of None \<Rightarrow> 0 | Some x \<Rightarrow> x) * (S d :: int))"
proof -
  let ?f = "\<lambda>d. (case map_of es d of None \<Rightarrow> 0 | Some x \<Rightarrow> x) * S d"
  have "(\<Sum>(d, x) \<leftarrow> es. x * S d) = (\<Sum>p \<leftarrow> es. ?f (fst p))"
    using assms(1) by (intro arg_cong [where f = sum_list] map_cong) (auto simp: map_of_is_SomeI)
  also have "\<dots> = (\<Sum>d \<leftarrow> map fst es. ?f d)" by (simp add: comp_def)
  also have "\<dots> = (\<Sum>d \<in> set (map fst es). ?f d)" using assms(1) by (subst sum_list_distinct_conv_sum_set) simp_all
  also have "\<dots> = (\<Sum>d \<in> set perm. ?f d)"
  proof (rule sum.mono_neutral_left)
    show "\<forall>d \<in> set perm - set (map fst es). ?f d = 0" by (auto simp: map_of_eq_None_iff [THEN iffD2])
  qed (use assms(2) in simp_all)
  also have "\<dots> = (\<Sum>d \<leftarrow> perm. ?f d)" using assms(3) by (subst sum_list_distinct_conv_sum_set) simp_all
  finally show ?thesis .
qed

lemma byte_offset_address:
  assumes "distinct (map fst es)" "map_of es = dv_map offset" "dom (dv_map offset) \<subseteq> set perm"
    "dom (dv_map strides) = set perm" "distinct perm"
  shows "byte_offset strides es 0 = Inr (address (stride_of strides) (offset_in offset) perm)"
proof -
  have keys: "set (map fst es) = dom (dv_map offset)" by (simp add: assms(2) [symmetric] dom_map_of_conv_image_fst)
  have "dv_map strides (fst e) \<noteq> None" if "e \<in> set es" for e
    using that keys assms(3,4) by force
  then have "\<forall>(d, x) \<in> set es. dv_map strides d \<noteq> None" by force
  from byte_offset_sum [OF this] sum_entries [OF assms(1) _ assms(5), of "stride_of strides"] keys assms(2,3)
  show ?thesis by (simp add: address_def offset_in_def)
qed

lemma address_add:
  "address S c perm + address S c' perm = address S (\<lambda>d. c d + c' d) perm"
  by (simp add: address_def sum_list_addf [symmetric] ring_distribs)

text \<open>The calls that make a data object a region of another one, and what their success says.\<close>

abbreviation connect_roi :: "nat \<Rightarrow> nat \<Rightarrow> SharedDataOrder \<Rightarrow> DimValues \<Rightarrow> Model \<Rightarrow> (nat \<times> Model) completion" where
  "connect_roi p c order offset \<equiv>
     connectDatas [SetParent p, SetChild c, SetMode ROI, SetOrder order, SetOffset offset]"

lemma connect_roi_impl:
  "connect_roi p c order offset m = Completed (e, m') \<longleftrightarrow>
     p \<in> set (m_dataList m) \<and> c \<in> set (m_dataList m) \<and> connectDatasImpl p c ROI order offset m = Inr (e, m')"
  by (auto simp: connectDatas_def data_edge_done_def mk_DataEdgeHelper_def bindE_def ie_assert_def split: sum.splits)

lemma foldE_check:
  "foldE f es () = Inr () \<longleftrightarrow> (\<forall>x \<in> set es. f x () = Inr ())"
  by (induction es) (auto simp: bindE_def split: sum.splits)

lemma check_roi_Inr:
  assumes "check_roi p c ty order offset m = Inr m1"
  shows "dd_dimsOrder (md_desc (m_data m p)) = dd_dimsOrder (md_desc (m_data m c))"
    "\<exists>es. dv_iterate offset = Inr es \<and> (\<forall>x \<in> set es. check_roi_dim (md_desc (m_data m p)) (md_desc (m_data m c)) x () = Inr ())"
    "m1 = upd_md c (\<lambda>x. x\<lparr>md_requiredStrides := no_strides\<rparr>) m"
  using assms by (auto simp: check_roi_def Let_def throw_unless_def foldE_check split: if_splits)

lemma new_data_edge_fields:
  "m_dataList (new_data_edge p c s mode order offset m) = m_dataList m"
  "md_desc (m_data (new_data_edge p c s mode order offset m) d) = md_desc (m_data m d)"
  "md_requiredStrides (m_data (new_data_edge p c s mode order offset m) d) = md_requiredStrides (m_data m d)"
  "md_parentDataEdge (m_data (new_data_edge p c s mode order offset m) d) =
     (if d = c then Some (m_fresh m) else md_parentDataEdge (m_data m d))"
  "m_dataEdge (new_data_edge p c s mode order offset m) = (m_dataEdge m)(m_fresh m := \<lparr>ed_parent = p, ed_child = c,
     ed_connection = s, ed_mode = mode, ed_order = order, ed_offset = (if mode = ROI then offset else dv_empty)\<rparr>)"
  by (simp_all add: new_data_edge_def upd_md_def Let_def)

lemma drop_parent_edge_fields:
  assumes "drop_parent_edge c m = Inr m'"
  shows "m_dataList m' = m_dataList m" "md_desc (m_data m' d) = md_desc (m_data m d)" "m_dataEdge m' = m_dataEdge m"
    "md_requiredStrides (m_data m' d) = md_requiredStrides (m_data m d)" "m_fresh m' = m_fresh m"
    "md_parentDataEdge (m_data m' d) = md_parentDataEdge (m_data m d)"
  using assms by (auto simp: drop_parent_edge_def upd_md_def Let_def split: option.splits)

lemma connect_roi_result:
  assumes "connect_roi p c order offset m = Completed (e, m')"
  shows "p \<in> set (m_dataList m)" "c \<in> set (m_dataList m)" "m_dataList m' = m_dataList m"
    "md_desc (m_data m' d) = md_desc (m_data m d)"
    "md_requiredStrides (m_data m' d) = (if d = c then no_strides else md_requiredStrides (m_data m d))"
    "md_parentDataEdge (m_data m' d) = (if d = c then Some e else md_parentDataEdge (m_data m d))"
    "ed_parent (m_dataEdge m' e) = p \<and> ed_child (m_dataEdge m' e) = c \<and> ed_mode (m_dataEdge m' e) = ROI \<and>
       ed_offset (m_dataEdge m' e) = offset" "e = m_fresh m"
    "\<exists>m1 ty. check_roi p c ty order offset m = Inr m1"
proof -
  have i: "p \<in> set (m_dataList m)" "c \<in> set (m_dataList m)" and r: "connectDatasImpl p c ROI order offset m = Inr (e, m')"
    using assms connect_roi_impl by blast+
  obtain ty s m1 m2 m3 where m1: "check_roi p c ty order offset m = Inr m1" and m2: "drop_parent_edge c m1 = Inr m2"
    and e: "e = m_fresh m1" and m3: "\<exists>es. m' = new_data_edge p c s ROI order offset m2\<lparr>m_needAlloc := True\<rparr> \<or>
      m' = (new_data_edge p c s ROI order offset m2)\<lparr>m_dataEdgeList := es, m_needAlloc := True\<rparr>"
    using r by (auto simp: connectDatasImpl_def Let_def split: option.splits) blast+
  note x1 = check_roi_Inr(3) [OF m1] and x2 = drop_parent_edge_fields [OF m2]
  note f = new_data_edge_fields [of p c s ROI order offset m2]
  have k: "m_fresh m2 = e" "e = m_fresh m" using x1 x2(5) e by (simp_all add: upd_md_def)
  then show "e = m_fresh m" by simp
  show "m_dataList m' = m_dataList m" using m3 f x1 x2 by (auto simp: upd_md_def)
  show "md_desc (m_data m' d) = md_desc (m_data m d)" using m3 f x1 x2 by (auto simp: upd_md_def)
  show "md_requiredStrides (m_data m' d) = (if d = c then no_strides else md_requiredStrides (m_data m d))"
    using m3 f x1 x2 by (auto simp: upd_md_def)
  show "md_parentDataEdge (m_data m' d) = (if d = c then Some e else md_parentDataEdge (m_data m d))"
    using m3 f x1 x2 k by (auto simp: upd_md_def)
  show "ed_parent (m_dataEdge m' e) = p \<and> ed_child (m_dataEdge m' e) = c \<and> ed_mode (m_dataEdge m' e) = ROI \<and>
       ed_offset (m_dataEdge m' e) = offset"
    using m3 f x1 x2 k by (auto simp: upd_md_def)
  show "\<exists>m1 ty. check_roi p c ty order offset m = Inr m1" using m1 by blast
qed (use assms connect_roi_impl in blast)+

lemma graph_of_fields:
  "dn_desc (g_data (graph_of m) d) = md_desc (m_data m d)"
  "dn_requiredStrides (g_data (graph_of m) d) = md_requiredStrides (m_data m d)"
  "dn_parentDataEdge (g_data (graph_of m) d) = map_option (share_edge m) (md_parentDataEdge (m_data m d))"
  "walk_fuel (graph_of m) = Suc (length (m_dataList m))"
  by (simp_all add: graph_of_def data_node_def walk_fuel_def Let_def)

lemma top_strides:
  "md_parentDataEdge (m_data m d) = None \<Longrightarrow>
     data_strides (graph_of m) d = calcStrides (md_desc (m_data m d)) (md_requiredStrides (m_data m d))"
  by (simp add: data_strides_def graph_of_fields)

lemma roi_strides:
  assumes "md_parentDataEdge (m_data m c) = Some e" "ed_mode (m_dataEdge m e) = ROI" "ed_parent (m_dataEdge m e) = p"
    "md_parentDataEdge (m_data m p) = None" "m_dataList m \<noteq> []"
  shows "data_strides (graph_of m) c = calcStrides (md_desc (m_data m p)) (md_requiredStrides (m_data m p))"
proof -
  obtain n where "length (m_dataList m) = Suc n" using assms(5) by (cases "m_dataList m") auto
  with assms show ?thesis by (simp add: data_strides_def graph_of_fields share_edge_def)
qed

lemma connect_roi_fits:
  assumes r: "connect_roi p c order offset m = Completed (e, m')" and off: "dv_ok offset"
    and p: "desc_ok (md_desc (m_data m p))" and c: "desc_ok (md_desc (m_data m c))"
  defines "perm \<equiv> order_toPermutation (dd_dimsOrder (md_desc (m_data m p)))"
  shows "order_toPermutation (dd_dimsOrder (md_desc (m_data m c))) = perm" "dom (dv_map offset) \<subseteq> set perm"
    "dv_map offset d = Some x \<Longrightarrow> dim_size (md_desc (m_data m c)) d + x \<le> dim_size (md_desc (m_data m p)) d"
proof -
  obtain m1 ty where "check_roi p c ty order offset m = Inr m1" using connect_roi_result(9) [OF r] by blast
  note k = check_roi_Inr [OF this]
  show same: "order_toPermutation (dd_dimsOrder (md_desc (m_data m c))) = perm" using k(1) by (simp add: perm_def)
  obtain es where es: "dv_iterate offset = Inr es" and chk: "\<And>x. x \<in> set es \<Longrightarrow>
    check_roi_dim (md_desc (m_data m p)) (md_desc (m_data m c)) x () = Inr ()" using k(2) by blast
  have es': "sorted_wrt (<) (map fst es)" "map_of es = dv_map offset" using dims.iterate_law [OF off] es by auto
  have fits: "d \<in> set perm \<and> dim_size (md_desc (m_data m c)) d + x \<le> dim_size (md_desc (m_data m p)) d"
    if "dv_map offset d = Some x" for d x
  proof -
    have d: "dim_ok d" using that by (cases "dim_ok d") (simp_all add: dv_map_def)
    have "(d, x) \<in> set es" using that es'(2) by (metis map_of_SomeD)
    from chk [OF this] obtain nc np where q: "order_hasDim (dd_dimsOrder (md_desc (m_data m p))) d"
      "desc_dim (md_desc (m_data m c)) d = Inr nc" "desc_dim (md_desc (m_data m p)) d = Inr np" "nc + x \<le> np"
      by (auto simp: check_roi_dim_def)
    then have "d \<in> set perm" using order_hasDim_perm [OF d] by (simp add: perm_def)
    with q desc_ok_dim [OF p, of d] desc_ok_dim [OF c, of d] same show ?thesis by (simp add: perm_def)
  qed
  then show "dom (dv_map offset) \<subseteq> set perm" by auto
  show "dv_map offset d = Some x \<Longrightarrow> dim_size (md_desc (m_data m c)) d + x \<le> dim_size (md_desc (m_data m p)) d"
    using fits by blast
qed

text \<open>
  A region fits when its offsets are not negative and it is no larger than the parent in the
  dimensions that the offset does not mention, which the connection does not check.
\<close>

definition roi_fits :: "DataDesc \<Rightarrow> DataDesc \<Rightarrow> DimValues \<Rightarrow> bool" where
  "roi_fits parentDesc childDesc offset \<longleftrightarrow> dv_ok offset \<and> (\<forall>d x. dv_map offset d = Some x \<longrightarrow> 0 \<le> x) \<and>
     (\<forall>d. dv_map offset d = None \<longrightarrow> dim_size childDesc d \<le> dim_size parentDesc d)"

lemma roi_in_bounds:
  assumes "connect_roi p c order offset m = Completed (e, m')"
    and "desc_ok (md_desc (m_data m p))" "desc_ok (md_desc (m_data m c))"
    and "roi_fits (md_desc (m_data m p)) (md_desc (m_data m c)) offset"
    and "in_bounds (dim_size (md_desc (m_data m c))) idx perm"
  shows "in_bounds (dim_size (md_desc (m_data m p))) (\<lambda>d. offset_in offset d + idx d) perm"
  unfolding in_bounds_def
proof
  fix d assume d: "d \<in> set perm"
  with assms(5) have i: "0 \<le> idx d" "idx d < dim_size (md_desc (m_data m c)) d" by (auto simp: in_bounds_def)
  have off: "dv_ok offset" using assms(4) by (simp add: roi_fits_def)
  show "0 \<le> offset_in offset d + idx d \<and> offset_in offset d + idx d < dim_size (md_desc (m_data m p)) d"
  proof (cases "dv_map offset d")
    case None
    then have "dim_size (md_desc (m_data m c)) d \<le> dim_size (md_desc (m_data m p)) d" "offset_in offset d = 0"
      using assms(4) by (simp_all add: roi_fits_def offset_in_def)
    with i show ?thesis by linarith
  next
    case (Some x)
    then have "0 \<le> x" "offset_in offset d = x" using assms(4) by (auto simp: roi_fits_def offset_in_def)
    with connect_roi_fits(3) [OF assms(1) off assms(2,3) Some] i show ?thesis by linarith
  qed
qed

lemma roi_strides_result:
  assumes r: "connect_roi p c order offset m = Completed (e, m')" and own: "md_parentDataEdge (m_data m' p) = None"
    and d: "desc_ok (md_desc (m_data m p))" and q: "reqs_ok (md_requiredStrides (m_data m p))"
  obtains strides where "calcStrides (md_desc (m_data m p)) (md_requiredStrides (m_data m p)) = Inr strides"
    "data_strides (graph_of m') p = Inr strides" "data_strides (graph_of m') c = Inr strides"
    "dom (dv_map strides) = set (order_toPermutation (dd_dimsOrder (md_desc (m_data m p))))"
proof -
  note f = connect_roi_result [OF r]
  have pc: "p \<noteq> c" using own f(6) [of p] by auto
  obtain strides where s: "calcStrides (md_desc (m_data m p)) (md_requiredStrides (m_data m p)) = Inr strides"
    "dom (dv_map strides) = set (order_toPermutation (dd_dimsOrder (md_desc (m_data m p))))"
    using calcStrides_ok [OF d q] by blast
  have "m_dataList m' \<noteq> []" using f(1,3) by auto
  then have "data_strides (graph_of m') c = calcStrides (md_desc (m_data m' p)) (md_requiredStrides (m_data m' p))"
    using roi_strides [of m' c e p] own f(6) [of c] f(7) by simp
  then show thesis using that s top_strides [OF own] f(4) [of p] f(5) [of p] pc by simp
qed

section \<open>An example\<close>

text \<open>When a connection of a child without a parent succeeds, and to what.\<close>

lemma connect_roi_intro:
  assumes "p \<in> set (m_dataList m)" "c \<in> set (m_dataList m)" "md_usage (m_data m c) = DU_Intermediate"
    "md_usage (m_data m p) \<noteq> DU_Temp" "md_usage (m_data m p) \<noteq> DU_Fake" "md_parentDataEdge (m_data m c) = None"
    "find_connection (if order = ChildWritesToParent then c else p) (if order = ChildWritesToParent then p else c) m = Inr s"
    "ms_category (m_stage m s) = SC_Special" "check_roi p c (ms_type (m_stage m s)) order offset m = Inr m1"
  shows "connect_roi p c order offset m =
    Completed (m_fresh m, (new_data_edge p c s ROI order offset m1)\<lparr>m_needAlloc := True\<rparr>)"
proof -
  have "m1 = upd_md c (\<lambda>x. x\<lparr>md_requiredStrides := no_strides\<rparr>) m" by (rule check_roi_Inr(3) [OF assms(9)])
  then have "md_parentDataEdge (m_data m1 c) = None" "m_fresh m1 = m_fresh m" using assms(6) by (simp_all add: upd_md_def)
  then have "connectDatasImpl p c ROI order offset m =
      Inr (m_fresh m, (new_data_edge p c s ROI order offset m1)\<lparr>m_needAlloc := True\<rparr>)"
    using assms(3-9) by (simp add: connectDatasImpl_def Let_def throw_unless_def drop_parent_edge_def)
  with assms(1,2) connect_roi_impl show ?thesis by blast
qed

text \<open>A concatenation of one and three channels into four.\<close>

definition channels :: "int \<Rightarrow> DataDesc" where
  "channels n = (case mk_DataDesc DT_FP16 order_C [n] of Inr d \<Rightarrow> d | Inl _ \<Rightarrow> default_desc)"

definition at_channel :: "int \<Rightarrow> DimValues" where
  "at_channel n = (case dv_set Dim_C n dv_empty of Inr v \<Rightarrow> v | Inl _ \<Rightarrow> dv_empty)"

definition ex_concat :: Model where
  "ex_concat = mk_Model\<lparr>m_dataList := [0, 1, 2], m_fresh := 6,
     m_data := (m_data mk_Model)
       (0 := (mk_ModelData ''a'' DU_Intermediate (channels 1))\<lparr>md_consumerEdges := [3]\<rparr>,
        1 := (mk_ModelData ''b'' DU_Intermediate (channels 3))\<lparr>md_consumerEdges := [4]\<rparr>,
        2 := (mk_ModelData ''ab'' DU_Output (channels 4))\<lparr>md_producerEdge := Some 5\<rparr>),
     m_stage := (m_stage mk_Model)(9 := mk_ModelStage\<lparr>ms_type := T_Concat, ms_category := SC_Special,
        ms_inputEdges := [3, 4], ms_outputEdges := [5], ms_model := True\<rparr>), m_stageList := [9],
     m_in := (\<lambda>e. \<lparr>ed_consumer = 9, ed_input = e - 3, ed_inPort = e - 3, ed_inParent = None, ed_inChild = None\<rparr>),
     m_out := (\<lambda>e. \<lparr>ed_producer = 9, ed_output = 2, ed_outPort = 0, ed_outParent = None, ed_outChild = None\<rparr>)\<rparr>"

lemma channels_ok:
  assumes "0 < n"
  shows "desc_ok (channels n)" "dd_type (channels n) = DT_FP16" "dd_dimsOrder (channels n) = order_C"
    "dim_size (channels n) Dim_C = n" "order_toPermutation order_C = [Dim_C]"
proof -
  show p: "order_toPermutation order_C = [Dim_C]" by code_simp
  have "order_ok order_C"
    unfolding order_ok_def by (rule exI [of _ "[Dim_C]"]) (simp add: MAX_DIMS_64_def dim_ok_def order_C_def Dim_C_def)
  from mk_DataDesc_ok [OF this, of "[n]" DT_FP16] p assms obtain desc where
    "mk_DataDesc DT_FP16 order_C [n] = Inr desc" "desc_ok desc" "dd_type desc = DT_FP16" "dd_dimsOrder desc = order_C"
    "dim_size desc Dim_C = n" by auto
  then show "desc_ok (channels n)" "dd_type (channels n) = DT_FP16" "dd_dimsOrder (channels n) = order_C"
    "dim_size (channels n) Dim_C = n" by (simp_all add: channels_def)
qed

lemma at_channel_ok: "dv_ok (at_channel n)" "dv_map (at_channel n) = [Dim_C \<mapsto> n]"
proof -
  have "dim_ok Dim_C" by (simp add: dim_ok_def Dim_C_def MAX_DIMS_64_def)
  with dims.put_law [OF dv_empty_ok(1), of Dim_C n] dv_empty_ok show "dv_ok (at_channel n)" "dv_map (at_channel n) = [Dim_C \<mapsto> n]"
    by (auto simp: at_channel_def)
qed

lemma no_strides_ok: "reqs_ok no_strides"
  by (simp add: reqs_ok_def no_strides_def dv_empty_ok MAX_DIMS_64_def)

lemma dim_size_other: "desc_ok desc \<Longrightarrow> d \<notin> set (order_toPermutation (dd_dimsOrder desc)) \<Longrightarrow> dim_size desc d = 0"
  by (auto simp: desc_ok_def dim_size_def split: option.split)

lemma channels_fit: "0 < n \<Longrightarrow> 0 < k \<Longrightarrow> 0 \<le> x \<Longrightarrow> roi_fits (channels n) (channels k) (at_channel x)"
  using channels_ok [of n] channels_ok [of k] at_channel_ok [of x]
  by (auto simp: roi_fits_def dim_size_other split: if_splits)

lemma channels_check:
  assumes kx: "(k, x) = (1, at_channel 0) \<or> (k, x) = (3, at_channel 1) \<or> (k, x) = (5, dv_empty)"
    and m: "md_desc (m_data m p) = channels 4" "md_desc (m_data m c) = channels k" "md_parentDataEdge (m_data m p) = None"
      "md_requiredStrides (m_data m p) = no_strides" "md_requiredStrides (m_data m c) = no_strides"
  shows "check_roi p c T_Concat ChildWritesToParent x m = Inr (upd_md c (\<lambda>x. x\<lparr>md_requiredStrides := no_strides\<rparr>) m)"
proof -
  let ?ok = "\<lambda>k x. (case calcStrides (channels 4) no_strides of Inl _ \<Rightarrow> False
      | Inr s \<Rightarrow> checkStrides (channels k) s no_strides = Inr True) \<and> (case dv_iterate x of Inl _ \<Rightarrow> False
      | Inr es \<Rightarrow> foldE (check_roi_dim (channels 4) (channels k)) es () = Inr ())"
  have "?ok 1 (at_channel 0)" "?ok 3 (at_channel 1)" "?ok 5 dv_empty" by code_simp+
  with kx have "?ok k x" by auto
  then obtain s es where "calcStrides (channels 4) no_strides = Inr s" "checkStrides (channels k) s no_strides = Inr True"
    "dv_iterate x = Inr es" "foldE (check_roi_dim (channels 4) (channels k)) es () = Inr ()"
    by (auto split: sum.splits)
  moreover have "0 < k" using kx by auto
  ultimately show ?thesis using m channels_ok(3) [of 4] channels_ok(3) [of k] top_strides [OF m(3)]
    by (simp add: check_roi_def check_roi_type_def throw_unless_def StageType_defs Let_def)
qed

lemma ex_concat_facts:
  "m_dataList ex_concat = [0, 1, 2]" "m_fresh ex_concat = 6" "md_usage (m_data ex_concat 0) = DU_Intermediate"
  "md_usage (m_data ex_concat (Suc 0)) = DU_Intermediate" "md_usage (m_data ex_concat 2) = DU_Output"
  "md_desc (m_data ex_concat 0) = channels 1" "md_desc (m_data ex_concat (Suc 0)) = channels 3" "md_desc (m_data ex_concat 2) = channels 4"
  "md_parentDataEdge (m_data ex_concat d) = None" "md_requiredStrides (m_data ex_concat d) = no_strides"
  "ms_category (m_stage ex_concat 9) = SC_Special" "ms_type (m_stage ex_concat 9) = T_Concat"
  "find_connection 0 2 ex_concat = Inr 9" "find_connection 1 2 ex_concat = Inr 9"
  by (simp_all add: ex_concat_def mk_ModelData_def mk_Model_def mk_ModelStage_def find_connection_def)

text \<open>The model after the first connection.\<close>

definition ex_half :: Model where
  "ex_half = (new_data_edge 2 0 9 ROI ChildWritesToParent (at_channel 0)
     (upd_md 0 (\<lambda>x. x\<lparr>md_requiredStrides := no_strides\<rparr>) ex_concat))\<lparr>m_needAlloc := True\<rparr>"

lemma ex_connect_first: "connect_roi 2 0 ChildWritesToParent (at_channel 0) ex_concat = Completed (6, ex_half)"
  using connect_roi_intro [of 2 ex_concat 0 ChildWritesToParent 9 "at_channel 0"] channels_check [of 1 "at_channel 0" ex_concat 2 0]
  by (simp add: ex_concat_facts ex_half_def)

lemma ex_half_facts:
  "m_dataList ex_half = [0, 1, 2]" "m_fresh ex_half = 7" "md_usage (m_data ex_half d) = md_usage (m_data ex_concat d)"
  "md_desc (m_data ex_half d) = md_desc (m_data ex_concat d)" "md_parentDataEdge (m_data ex_half (Suc 0)) = None"
  "md_parentDataEdge (m_data ex_half 2) = None"
  "md_requiredStrides (m_data ex_half d) = no_strides" "ms_category (m_stage ex_half 9) = SC_Special"
  "ms_type (m_stage ex_half 9) = T_Concat" "find_connection (Suc 0) 2 ex_half = Inr 9"
  by (simp_all add: ex_half_def new_data_edge_def upd_md_def Let_def ex_concat_facts)
    (simp_all add: find_connection_def ex_concat_def mk_ModelData_def mk_Model_def mk_ModelStage_def)

lemma ex_connect_second:
  "\<exists>m2. connect_roi 2 1 ChildWritesToParent (at_channel 1) ex_half = Completed (7, m2) \<and> md_parentDataEdge (m_data m2 2) = None"
proof -
  let ?m1 = "upd_md 1 (\<lambda>x. x\<lparr>md_requiredStrides := no_strides\<rparr>) ex_half"
  let ?m2 = "(new_data_edge 2 1 9 ROI ChildWritesToParent (at_channel 1) ?m1)\<lparr>m_needAlloc := True\<rparr>"
  have "connect_roi 2 1 ChildWritesToParent (at_channel 1) ex_half = Completed (7, ?m2)"
    using connect_roi_intro [of 2 ex_half 1 ChildWritesToParent 9 "at_channel 1" ?m1] channels_check [of 3 "at_channel 1" ex_half 2 1]
    by (simp add: ex_concat_facts ex_half_facts)
  moreover have "md_parentDataEdge (m_data ?m2 2) = None"
    by (simp add: new_data_edge_def upd_md_def Let_def ex_half_facts)
  ultimately show ?thesis by blast
qed

text \<open>
  The check does not look at dimensions without an offset: five channels are accepted as a region
  of four when the offset is empty.
\<close>

lemma unmentioned_dimension_unchecked:
  "\<exists>m m1. md_desc (m_data m 2) = channels 4 \<and> md_desc (m_data m 0) = channels 5 \<and>
     check_roi 2 0 T_Concat ChildWritesToParent dv_empty m = Inr m1"
proof -
  let ?m = "upd_md 0 (\<lambda>x. x\<lparr>md_desc := channels 5\<rparr>) ex_concat"
  have "md_desc (m_data ?m 2) = channels 4" "md_desc (m_data ?m 0) = channels 5"
    by (simp_all add: upd_md_def ex_concat_facts)
  with channels_check [of 5 dv_empty ?m 2 0] show ?thesis
    by (fastforce simp: upd_md_def ex_concat_facts)
qed

section \<open>Properties\<close>

text \<open>
  A region of interest stays inside its parent: once \<open>connectDatas\<close> has made a child a region
  of a parent that owns its buffer, both have the parent's strides, and every element of the child,
  placed where \<open>updateChildDataAllocation\<close> puts the child, lies within the \<open>totalByteSize\<close> bytes of
  the parent, provided the region fits in the dimensions its offset does not mention.
\<close>

theorem roi_stays_in_parent:
  assumes "connect_roi p c order offset m = Completed (e, m')" and "md_parentDataEdge (m_data m' p) = None"
    and "desc_ok (md_desc (m_data m p))" and "desc_ok (md_desc (m_data m c))"
    and "reqs_ok (md_requiredStrides (m_data m p))" and "dd_type (md_desc (m_data m c)) = dd_type (md_desc (m_data m p))"
    and "roi_fits (md_desc (m_data m p)) (md_desc (m_data m c)) offset"
    and "perm = order_toPermutation (dd_dimsOrder (md_desc (m_data m c)))"
    and "in_bounds (dim_size (md_desc (m_data m c))) idx perm"
  shows "\<exists>strides es start bytes. data_strides (graph_of m') p = Inr strides \<and> data_strides (graph_of m') c = Inr strides \<and>
    dv_iterate offset = Inr es \<and> byte_offset strides es 0 = Inr start \<and> totalByteSize (graph_of m') p = Inr bytes \<and>
    0 \<le> start + address (stride_of strides) idx perm \<and>
    start + address (stride_of strides) idx perm + elemSize (md_desc (m_data m c)) \<le> bytes"
proof -
  let ?P = "md_desc (m_data m p)"
  note f = connect_roi_result [OF assms(1)]
  have off: "dv_ok offset" using assms(7) by (simp add: roi_fits_def)
  note fits = connect_roi_fits [OF assms(1) off assms(3,4)]
  have perm: "order_toPermutation (dd_dimsOrder ?P) = perm" using fits(1) assms(8) by simp
  obtain strides where s: "calcStrides ?P (md_requiredStrides (m_data m p)) = Inr strides"
    "data_strides (graph_of m') p = Inr strides" "data_strides (graph_of m') c = Inr strides"
    "dom (dv_map strides) = set perm"
    using roi_strides_result [OF assms(1,2,3,5)] perm by metis
  obtain es where es: "dv_iterate offset = Inr es" "sorted_wrt (<) (map fst es)" "map_of es = dv_map offset"
    using dims.iterate_law [OF off] by blast
  have "distinct (map fst es)" using es(2) by (simp add: strict_sorted_iff)
  from byte_offset_address [OF this es(3) _ s(4)] fits(2) desc_ok_perm(2) [OF assms(3)] perm
  have start: "byte_offset strides es 0 = Inr (address (stride_of strides) (offset_in offset) perm)" by simp
  have el: "elemSize (md_desc (m_data m c)) = elemSize ?P" using assms(6) by (simp add: elemSize_def)
  have bytes: "totalByteSize (graph_of m') p = Inr (stride_of strides (last perm) * dim_size ?P (last perm))"
    using assms(2) s(2) calcTotalByteSize_eq [OF assms(3)] s(4) perm f(4) [of p]
    by (simp add: totalByteSize_def graph_of_fields)
  have "0 \<le> 0 + address (stride_of strides) (\<lambda>d. offset_in offset d + idx d) perm \<and>
    0 + address (stride_of strides) (\<lambda>d. offset_in offset d + idx d) perm + elemSize ?P \<le>
      stride_of strides (last perm) * dim_size ?P (last perm)"
  proof (rule address_bounds)
    show "strides_grow (stride_of strides) (dim_size ?P) (elemSize ?P) perm"
      using calcStrides_grow [OF assms(3,5) s(1)] perm by simp
    show "perm \<noteq> []" using desc_ok_perm(1) [OF assms(3)] perm by simp
    show "in_bounds (dim_size ?P) (\<lambda>d. offset_in offset d + idx d) perm"
      by (rule roi_in_bounds [OF assms(1,3,4,7,9)])
  qed (use elemSize_pos [of ?P] in simp_all)
  then show ?thesis using s(2,3) es(1) start bytes el
    by (simp add: address_add [symmetric])
qed

theorem roi_stays_in_parent_witness:
  "\<exists>strides es start bytes. data_strides (graph_of ex_half) 0 = Inr strides \<and> dv_iterate (at_channel 0) = Inr es \<and>
    byte_offset strides es 0 = Inr start \<and> totalByteSize (graph_of ex_half) 2 = Inr bytes \<and>
    start + address (stride_of strides) (\<lambda>_. 0) [Dim_C] + 2 \<le> bytes"
proof -
  have "in_bounds (dim_size (channels 1)) (\<lambda>_. 0) [Dim_C]" using channels_ok(4) [of 1] by (simp add: in_bounds_def)
  with roi_stays_in_parent [OF ex_connect_first, of "[Dim_C]" "\<lambda>_. 0"] channels_ok [of 1] channels_ok [of 4]
    channels_fit [of 4 1 0] no_strides_ok
  show ?thesis by (auto simp: ex_concat_facts ex_half_facts elemSize_def)
qed

text \<open>
  C37. Regions at separate offsets do not touch: when two children become regions of the same parent
  (the inputs of a concatenation, the outputs of a split) and in some dimension the second region
  begins where the first one ends, or later, then any element of the one and any element of the
  other are at least an element of the parent apart in the parent's buffer.

  The conditions: the parent has a buffer of its own (it is not itself a region of another data object) and requires no fixed
  strides, the three descriptors are well-formed (every dimension of the layout has a positive size), the offsets are
  not negative, and each child is no larger than the parent in the dimensions its offset does not mention. The last
  one is not checked by the connection, which compares sizes only where there is an offset: a larger child is accepted, and then
  the regions need not be apart.
\<close>

theorem separate_regions_disjoint:
  assumes "connect_roi p c1 order1 offset1 m = Completed (e1, m1)"
    and "connect_roi p c2 order2 offset2 m1 = Completed (e2, m2)" and "md_parentDataEdge (m_data m2 p) = None"
    and "desc_ok (md_desc (m_data m p))" and "desc_ok (md_desc (m_data m c1))" and "desc_ok (md_desc (m_data m c2))"
    and "reqs_ok (md_requiredStrides (m_data m p))"
    and "roi_fits (md_desc (m_data m p)) (md_desc (m_data m c1)) offset1"
    and "roi_fits (md_desc (m_data m p)) (md_desc (m_data m c2)) offset2"
    and "perm = order_toPermutation (dd_dimsOrder (md_desc (m_data m p)))"
    and "in_bounds (dim_size (md_desc (m_data m c1))) idx1 perm" and "in_bounds (dim_size (md_desc (m_data m c2))) idx2 perm"
    and "d \<in> set perm" and "offset_in offset1 d + dim_size (md_desc (m_data m c1)) d \<le> offset_in offset2 d"
  shows "\<exists>strides es1 es2 start1 start2. data_strides (graph_of m2) p = Inr strides \<and>
    dv_iterate offset1 = Inr es1 \<and> byte_offset strides es1 0 = Inr start1 \<and>
    dv_iterate offset2 = Inr es2 \<and> byte_offset strides es2 0 = Inr start2 \<and>
    elemSize (md_desc (m_data m p)) \<le>
      \<bar>(start1 + address (stride_of strides) idx1 perm) - (start2 + address (stride_of strides) idx2 perm)\<bar>"
proof -
  let ?P = "md_desc (m_data m p)"
  note f1 = connect_roi_result [OF assms(1)] and f2 = connect_roi_result [OF assms(2)]
  have own: "md_parentDataEdge (m_data m1 p) = None" using assms(3) f2(6) [of p] by (auto split: if_splits)
  have pc: "p \<noteq> c1" using own f1(6) [of p] by auto
  have same: "md_desc (m_data m1 x) = md_desc (m_data m x)" "md_requiredStrides (m_data m1 p) = md_requiredStrides (m_data m p)"
    for x using f1(4) [of x] f1(5) [of p] pc by simp_all
  have off: "dv_ok offset1" "dv_ok offset2" using assms(8,9) by (simp_all add: roi_fits_def)
  note fits1 = connect_roi_fits [OF assms(1) off(1) assms(4,5)]
  note fits2 = connect_roi_fits [OF assms(2) off(2), unfolded same, OF assms(4,6)]
  obtain strides where s: "calcStrides ?P (md_requiredStrides (m_data m p)) = Inr strides"
    "data_strides (graph_of m2) p = Inr strides" "dom (dv_map strides) = set perm"
    using roi_strides_result [OF assms(2,3), unfolded same, OF assms(4,7)] assms(10) by metis
  obtain es1 es2 where es: "dv_iterate offset1 = Inr es1" "sorted_wrt (<) (map fst es1)" "map_of es1 = dv_map offset1"
    "dv_iterate offset2 = Inr es2" "sorted_wrt (<) (map fst es2)" "map_of es2 = dv_map offset2"
    using dims.iterate_law [OF off(1)] dims.iterate_law [OF off(2)] by blast
  have dist: "distinct (map fst es1)" "distinct (map fst es2)" using es(2,5) by (simp_all add: strict_sorted_iff)
  note perm = desc_ok_perm(2) [OF assms(4), folded assms(10)]
  have start: "byte_offset strides es1 0 = Inr (address (stride_of strides) (offset_in offset1) perm)"
    "byte_offset strides es2 0 = Inr (address (stride_of strides) (offset_in offset2) perm)"
    using byte_offset_address [OF dist(1) es(3) _ s(3) perm] byte_offset_address [OF dist(2) es(6) _ s(3) perm]
      fits1(2) fits2(2) assms(10) by simp_all
  have b: "in_bounds (dim_size ?P) (\<lambda>d. offset_in offset1 d + idx1 d) perm"
    "in_bounds (dim_size ?P) (\<lambda>d. offset_in offset2 d + idx2 d) perm"
    using roi_in_bounds [OF assms(1,4,5,8,11)] roi_in_bounds [OF assms(2), unfolded same, OF assms(4,6,9,12)] by auto
  have "elemSize ?P \<le> \<bar>(0 + address (stride_of strides) (\<lambda>d. offset_in offset1 d + idx1 d) perm) -
      (0 + address (stride_of strides) (\<lambda>d. offset_in offset2 d + idx2 d) perm)\<bar>"
  proof (rule address_apart [OF _ b])
    show "strides_grow (stride_of strides) (dim_size ?P) (elemSize ?P) perm"
      using calcStrides_grow [OF assms(4,7) s(1)] assms(10) by simp
    have "idx1 d < dim_size (md_desc (m_data m c1)) d" "0 \<le> idx2 d" using assms(11-13) by (auto simp: in_bounds_def)
    with assms(14) have "offset_in offset1 d + idx1 d \<noteq> offset_in offset2 d + idx2 d" by linarith
    with assms(13) show "elemSize ?P \<le> \<bar>0 - 0\<bar> \<or>
      (0 :: int) = 0 \<and> (\<exists>d \<in> set perm. offset_in offset1 d + idx1 d \<noteq> offset_in offset2 d + idx2 d)" by blast
  qed (use elemSize_pos [of ?P] in simp_all)
  then show ?thesis using s(2) es(1,4) start by (simp add: address_add [symmetric])
qed

theorem separate_regions_disjoint_witness:
  "\<exists>m2 strides es1 es2 start1 start2. connect_roi 2 1 ChildWritesToParent (at_channel 1) ex_half = Completed (7, m2) \<and>
    data_strides (graph_of m2) 2 = Inr strides \<and> dv_iterate (at_channel 0) = Inr es1 \<and>
    byte_offset strides es1 0 = Inr start1 \<and> dv_iterate (at_channel 1) = Inr es2 \<and> byte_offset strides es2 0 = Inr start2 \<and>
    2 \<le> \<bar>(start1 + address (stride_of strides) (\<lambda>_. 0) [Dim_C]) - (start2 + address (stride_of strides) (\<lambda>_. 2) [Dim_C])\<bar>"
proof -
  obtain m2 where m2: "connect_roi 2 1 ChildWritesToParent (at_channel 1) ex_half = Completed (7, m2)"
    "md_parentDataEdge (m_data m2 2) = None" using ex_connect_second by blast
  have "in_bounds (dim_size (channels 1)) (\<lambda>_. 0) [Dim_C]" "in_bounds (dim_size (channels 3)) (\<lambda>_. 2) [Dim_C]"
    using channels_ok(4) [of 1] channels_ok(4) [of 3] by (simp_all add: in_bounds_def)
  moreover have "offset_in (at_channel 0) Dim_C + 1 \<le> offset_in (at_channel 1) Dim_C"
    by (simp add: offset_in_def at_channel_ok)
  ultimately show ?thesis
    using separate_regions_disjoint [OF ex_connect_first m2, of "[Dim_C]" "\<lambda>_. 0" "\<lambda>_. 2" Dim_C] m2(1)
      channels_ok [of 1] channels_ok [of 3] channels_ok [of 4] channels_fit [of 4 1 0] channels_fit [of 4 3 1] no_strides_ok
    by (auto simp: ex_concat_facts elemSize_def)
qed

end
