(* ===== verification/VpuModelReach.thy ===== *)
theory VpuModelReach
  imports VpuModelRemove VpuShare
begin

text \<open>
  Adding stages, and the models that the operations of \<open>model.cpp\<close> can build from an empty one. In
  all of them the link counts are exact, and a model all of whose stages are wired up has a stage
  order unless it has a cycle.
\<close>

section \<open>Adding stages\<close>

lemma dead_stage:
  assumes inv: "model_inv m" and s: "\<not> live m s"
  shows "prevs m s = []" "nexts m s = []" "s \<notin> set (m_initialStages m)"
proof -
  note i = model_invD [OF inv] and e = edges_okD [OF model_invD(1) [OF inv]]
  note l = links_matchD [OF i(2) [unfolded counts_ok_def]]
  have c: "s \<notin># consumers_of m d" for d using e(5) s by (auto simp: consumers_of_def)
  have p: "producer_of m d \<noteq> Some s" for d using e(13) s by (auto simp: producer_of_def)
  have "link_count (set (m_dataList m)) (producer_of m) (consumers_of m) p s = 0"
    "link_count (set (m_dataList m)) (producer_of m) (consumers_of m) s p = 0" for p
    using c p link_count_pos(2) [of "set (m_dataList m)"] by auto
  then show "prevs m s = []" "nexts m s = []" using som_empty [OF l(2) [of s]] som_empty [OF l(1) [of s]] l(3,4) by auto
  show "s \<notin> set (m_initialStages m)" using i(4) s by (auto simp: initial_live_def)
qed

lemma new_stage_inv:
  assumes inv: "model_inv m" and s: "\<not> ms_model (m_stage m s)"
  shows "model_inv (new_stage s name ty cat m)" "live (new_stage s name ty cat m) = (live m)(s := True)"
    "m_stageList (new_stage s name ty cat m) = m_stageList m" "m_dataList (new_stage s name ty cat m) = m_dataList m"
    "ms_inputEdges (m_stage (new_stage s name ty cat m) s) = []" "m_resetStageOrder (new_stage s name ty cat m)"
proof -
  let ?m = "new_stage s name ty cat m"
  have dead: "\<not> live m s" using s by (simp add: live_def)
  note i = model_invD [OF inv] and d = dead_stage [OF inv dead]
  have lv: "live ?m = (live m)(s := True)"
    by (auto simp: new_stage_def upd_ms_def live_def mk_ModelStage_def fun_eq_iff)
  have f: "m_data ?m = m_data m" "m_dataList ?m = m_dataList m" "m_in ?m = m_in m" "m_inList ?m = m_inList m"
    "m_out ?m = m_out m" "m_outList ?m = m_outList m" "m_temp ?m = m_temp m" "m_tempList ?m = m_tempList m"
    "m_stageList ?m = m_stageList m" "m_fresh ?m = m_fresh m" "m_initialStages ?m = m_initialStages m"
    "ms_inputEdges (m_stage ?m t) = (if t = s then [] else ms_inputEdges (m_stage m t))"
    "ms_outputEdges (m_stage ?m t) = (if t = s then [] else ms_outputEdges (m_stage m t))"
    "ms_tempBufferEdges (m_stage ?m t) = (if t = s then [] else ms_tempBufferEdges (m_stage m t))"
    "m_resetStageOrder ?m" for t
    by (simp_all add: new_stage_def upd_ms_def mk_ModelStage_def)
  have n: "nexts ?m = nexts m" "prevs ?m = prevs m"
    using d(1,2) by (auto simp: new_stage_def upd_ms_def mk_ModelStage_def fun_eq_iff)
  note eo = i(1) [unfolded edges_ok_def] and e = edges_okD [OF i(1)]
  have cp: "k \<in> set (md_consumerEdges (m_data m x)) \<Longrightarrow> ed_consumer (m_in m k) \<noteq> s"
    "md_producerEdge (m_data m x) = Some k \<Longrightarrow> ed_producer (m_out m k) \<noteq> s" for k x
    using e(5,13) dead by auto
  have "edges_ok ?m"
  proof (rule edges_okI)
    show "consumers_ok ?m" using eo cp(1) unfolding consumers_ok_def f lv by auto
    show "inputs_ok ?m" using eo unfolding inputs_ok_def f lv by auto
    show "producers_ok ?m" using eo cp(2) unfolding producers_ok_def f lv by auto
    show "outputs_ok ?m" using eo unfolding outputs_ok_def f lv by auto
    show "temps_ok ?m" using eo unfolding temps_ok_def f lv by auto
    show "outList_ok ?m" using eo unfolding outList_ok_def f by blast
    show "numbers_ok ?m" using eo unfolding numbers_ok_def f by blast
  qed
  moreover have "producer_of ?m = producer_of m" "consumers_of ?m = consumers_of m"
    by (auto simp: producer_of_def consumers_of_def f fun_eq_iff)
  then have "counts_ok ?m" using i(2) n by (simp add: counts_ok_def f)
  moreover have "initial_sound ?m" using i(3) fun_cong [OF n(2)] by (simp add: initial_sound_def f)
  moreover have "initial_live ?m" using i(4) by (auto simp: initial_live_def f lv)
  moreover have "initial_complete ?m" using i(5) unfolding initial_complete_def is_source_def f lv by auto
  ultimately show "model_inv ?m" by (rule model_invI)
  show "live ?m = (live m)(s := True)" by (rule lv)
  show "m_stageList ?m = m_stageList m" "m_dataList ?m = m_dataList m" "ms_inputEdges (m_stage ?m s) = []" "m_resetStageOrder ?m"
    by (simp_all add: f)
qed

lemma initial_emplace_inv:
  assumes inv: "model_inv m" and s: "live m s" "prevs m s = []"
  shows "model_inv (initial_emplace s m)"
proof (rule model_invI)
  let ?m = "initial_emplace s m"
  note i = model_invD [OF inv]
  have b: "bare ?m = bare m" by simp
  note f = bareD [OF b]
  show "edges_ok ?m" using i(1) edges_ok_bare [OF b] by blast
  have "consumers_of ?m = consumers_of m" "producer_of ?m = producer_of m" by (auto simp: fun_eq_iff consumers_of_def f)
  then show "counts_ok ?m" using i(2) by (simp add: counts_ok_def f(2))
  show "initial_sound ?m" using i(3) s(2) by (auto simp: initial_sound_def set_initial distinct_initial)
  show "initial_live ?m" using i(4) s(1) by (auto simp: initial_live_def set_initial live_bare [OF b])
  show "initial_complete ?m" using i(5) by (auto simp: initial_complete_def is_source_def set_initial live_bare [OF b] f)
qed

text \<open>What the loops of \<open>addNewStageImpl\<close> and \<open>duplicateStage\<close> keep.\<close>

abbreviation keeps :: "Model \<Rightarrow> Model \<Rightarrow> bool" where
  "keeps m x \<equiv> model_inv x \<and> live x = live m \<and> m_stageList x = m_stageList m \<and> m_resetStageOrder x"

lemma add_inputs_inv:
  assumes r: "add_inputs s ds m = Inr m'" and inv: "keeps m m" and s: "live m s"
  shows "keeps m m'"
proof (rule foldE_inv [OF r [unfolded add_inputs_def]])
  fix d x x' assume k: "keeps m x" and r: "bindE (addStageInput s d x) (\<lambda>(_, m). Inr m) = Inr x'"
  from r obtain e where "addStageInput s d x = Inr (e, x')" by auto
  with addStageInput_inv [of x s d e x'] k s show "keeps m x'" by auto
qed (rule inv)

lemma add_outputs_inv:
  assumes r: "add_outputs s ds m = Inr m'" and inv: "keeps m m" and s: "live m s"
  shows "keeps m m'"
proof (rule foldE_inv [OF r [unfolded add_outputs_def]])
  fix d x x' assume k: "keeps m x" and r: "bindE (addStageOutput s d x) (\<lambda>(_, m). Inr m) = Inr x'"
  from r obtain e where "addStageOutput s d x = Inr (e, x')" by auto
  with addStageOutput_inv [of x s d e x'] k s show "keeps m x'" by auto
qed (rule inv)

lemma add_temps_inv:
  assumes r: "foldE (\<lambda>e m. bindE (addTempBuffer s (desc e m) m) (\<lambda>(_, m). Inr m)) es m = Inr m'" and inv: "keeps m m"
  shows "keeps m m'"
proof (rule foldE_inv [OF r])
  fix d x x' assume k: "keeps m x" and r: "bindE (addTempBuffer s (desc d x) x) (\<lambda>(_, m). Inr m) = Inr x'"
  from r obtain e where "addTempBuffer s (desc d x) x = Inr (e, x')" by auto
  with addTempBuffer_inv [of x s "desc d x" e x'] k show "keeps m x'" by auto
qed (rule inv)

definition full_inv :: "Model \<Rightarrow> bool" where
  "full_inv m \<longleftrightarrow> model_inv m \<and> (\<forall>s. live m s \<longleftrightarrow> s \<in> set (m_stageList m))"

lemma push_stage_inv:
  assumes k: "model_inv m" and l: "\<And>t. live m t \<longleftrightarrow> t \<in> set ss \<or> t = s" and ss: "m_stageList m = ss" "s \<notin> set ss"
  shows "full_inv (m\<lparr>m_stageList := ss @ [s]\<rparr>)"
proof -
  let ?m = "m\<lparr>m_stageList := ss @ [s]\<rparr>"
  have live: "live ?m = live m" by (simp add: live_def fun_eq_iff)
  note i = model_invD [OF k] note eo = i(1) [unfolded edges_ok_def]
  have "edges_ok ?m"
  proof (rule edges_okI)
    show "consumers_ok ?m" using eo by (simp add: consumers_ok_def live)
    show "inputs_ok ?m" using eo by (simp add: inputs_ok_def live)
    show "producers_ok ?m" using eo by (simp add: producers_ok_def live)
    show "outputs_ok ?m" using eo by (simp add: outputs_ok_def live)
    show "temps_ok ?m" using eo by (simp add: temps_ok_def live)
    show "outList_ok ?m" using eo by (simp add: outList_ok_def)
    show "numbers_ok ?m" using eo ss by (simp add: numbers_ok_def)
  qed
  moreover have "producer_of ?m = producer_of m" "consumers_of ?m = consumers_of m"
    by (auto simp: producer_of_def consumers_of_def fun_eq_iff)
  ultimately have "model_inv ?m" using i(2-5)
    by (simp add: model_inv_def counts_ok_def initial_sound_def initial_live_def initial_complete_def is_source_def live)
  then show ?thesis using l by (auto simp: full_inv_def live)
qed

text \<open>A stage number is free when no object of the model has it.\<close>

definition free_stage :: "Model \<Rightarrow> nat \<Rightarrow> bool" where
  "free_stage m s \<longleftrightarrow> \<not> ms_model (m_stage m s)"

lemma addNewStageImpl_inv:
  assumes inv: "full_inv m" and s: "free_stage m s" and r: "addNewStageImpl s name ty cat ins outs m = Inr m'"
  shows "full_inv m'" "m_resetStageOrder m'"
proof -
  let ?m = "new_stage s name ty cat m"
  have s: "\<not> ms_model (m_stage m s)" and i: "model_inv m" and l: "live m t \<longleftrightarrow> t \<in> set (m_stageList m)" for t
    using s inv by (simp_all add: free_stage_def full_inv_def)
  note n = new_stage_inv [OF i s]
  obtain m1 m2 where m1: "add_inputs s ins ?m = Inr m1" and m2: "add_outputs s outs m1 = Inr m2"
    and m': "m' = m2\<lparr>m_stageList := m_stageList m2 @ [s]\<rparr>"
    using r by (auto simp: addNewStageImpl_def)
  have k0: "keeps ?m ?m" and s0: "live ?m s" using n by simp_all
  note k1 = add_inputs_inv [OF m1 k0 s0]
  have k2: "keeps m1 m2" by (rule add_outputs_inv [OF m2]) (use k1 s0 in simp_all)
  with k1 n have "model_inv m2" "live m2 = (live m)(s := True)" "m_stageList m2 = m_stageList m" by simp_all
  moreover have "s \<notin> set (m_stageList m)" using s l [of s] by (simp add: live_def)
  ultimately show "full_inv m'" unfolding m' using push_stage_inv [of m2 "m_stageList m" s] l by auto
  show "m_resetStageOrder m'" unfolding m' using k2 by simp
qed

lemma duplicateStage_inv:
  assumes inv: "full_inv m" and s: "free_stage m s" and r: "duplicateStage s orig postfix ins outs m = Inr m'"
  shows "full_inv m'" "m_resetStageOrder m'"
proof -
  let ?m = "new_stage s (ms_name (m_stage m orig) @ postfix) (ms_type (m_stage m orig)) (ms_category (m_stage m orig)) m"
  let ?k = "initial_emplace s ?m"
  have s: "\<not> ms_model (m_stage m s)" and i: "model_inv m" and l: "live m t \<longleftrightarrow> t \<in> set (m_stageList m)" for t
    using s inv by (simp_all add: free_stage_def full_inv_def)
  note n = new_stage_inv [OF i s, of "ms_name (m_stage m orig) @ postfix" "ms_type (m_stage m orig)" "ms_category (m_stage m orig)"]
  have s0: "live ?m s" unfolding n(2) by simp
  have p0: "prevs ?m s = []" by (simp add: new_stage_def upd_ms_def mk_ModelStage_def)
  have b: "bare ?k = bare ?m" by simp
  note f = bareD [OF b]
  have l0: "live ?k = live ?m" using live_bare [OF b] by blast
  have k0: "keeps ?k ?k" using initial_emplace_inv [OF n(1) s0 p0] n(6) f by simp
  have l0s: "live ?k s" using s0 l0 by simp
  obtain m1 m2 m3 where m1: "add_inputs s ins ?k = Inr m1" and m2: "add_outputs s outs m1 = Inr m2"
    and m3: "foldE (\<lambda>e m. bindE (addTempBuffer s (md_desc (m_data m (ed_tempBuffer (m_temp m e)))) m) (\<lambda>(_, m). Inr m))
               (ms_tempBufferEdges (m_stage m orig)) m2 = Inr m3"
    and m': "m' = m3\<lparr>m_stageList := m_stageList m3 @ [s]\<rparr>"
    using r by (auto simp: duplicateStage_def Let_def)
  note k1 = add_inputs_inv [OF m1 k0 l0s]
  have k2: "keeps m1 m2" by (rule add_outputs_inv [OF m2]) (use k1 l0s in simp_all)
  have k3: "keeps m2 m3" by (rule add_temps_inv [OF m3]) (use k2 in simp)
  have "live ?k = (live m)(s := True)" "m_stageList ?k = m_stageList m" using n(2,3) l0 f by simp_all
  with k1 k2 k3 have "model_inv m3" "live m3 = (live m)(s := True)" "m_stageList m3 = m_stageList m" by simp_all
  moreover have "s \<notin> set (m_stageList m)" using s l [of s] by (simp add: live_def)
  ultimately show "full_inv m'" unfolding m' using push_stage_inv [of m3 "m_stageList m" s] l by auto
  show "m_resetStageOrder m'" unfolding m' using k3 by simp
qed

section \<open>The computed order\<close>

text \<open>What the stage order depends on, and when a computed order is right.\<close>

definition order_view :: "Model \<Rightarrow> bool \<times> nat list \<times> nat list \<times> (nat \<Rightarrow> int) \<times> (nat \<times> nat) set" where
  "order_view m = (m_resetStageOrder m, m_orderedStageList m, m_stageList m, (\<lambda>s. ms_index (m_stage m s)), stage_edges m)"

text \<open>A stage can be reached when it has inputs, each of which some stage or the user provides.\<close>

definition wired :: "Model \<Rightarrow> bool" where
  "wired m \<longleftrightarrow> (\<forall>s \<in> set (m_stageList m). ms_inputEdges (m_stage m s) \<noteq> [] \<and>
     (\<forall>e \<in> set (ms_inputEdges (m_stage m s)). md_producerEdge (m_data m (ed_input (m_in m e))) \<noteq> None \<or>
        \<not> can_have_producer (md_usage (m_data m (ed_input (m_in m e))))))"

lemma som_get_pos_key: "som_ok xs \<Longrightarrow> t \<in> fst ` set xs \<longleftrightarrow> som_get xs t > 0"
  by (force simp: som_get_def som_ok_def map_of_eq_None_iff split: option.split dest: map_of_SomeD)

lemma full_inv_graph:
  assumes inv: "full_inv m"
  shows "(t, n) \<in> set (nexts m s) \<Longrightarrow> n > 0"
    "(s, t) \<in> stage_edges m \<longleftrightarrow> s \<in> fst ` set (prevs m t)"
    "(s, t) \<in> stage_edges m \<longleftrightarrow> (\<exists>d \<in> set (m_dataList m). producer_of m d = Some s \<and> t \<in># consumers_of m d)"
    "(s, t) \<in> stage_edges m \<Longrightarrow> s \<in> set (m_stageList m) \<and> t \<in> set (m_stageList m)"
proof -
  have i: "model_inv m" and l: "\<And>t. live m t \<longleftrightarrow> t \<in> set (m_stageList m)"
    using inv by (simp_all add: full_inv_def)
  note e = edges_okD [OF model_invD(1) [OF i]] and k = links_matchD [OF model_invD(2) [OF i, unfolded counts_ok_def]]
  show "(t, n) \<in> set (nexts m s) \<Longrightarrow> n > 0" using k(1) [of s] by (auto simp: som_ok_def)
  show p: "(s, t) \<in> stage_edges m \<longleftrightarrow> s \<in> fst ` set (prevs m t)"
    using som_get_pos_key [OF k(1) [of s], of t] som_get_pos_key [OF k(2) [of t], of s] k(3) [of s t] k(4) [of t s]
    by (simp add: stage_edges_def)
  show c: "(s, t) \<in> stage_edges m \<longleftrightarrow> (\<exists>d \<in> set (m_dataList m). producer_of m d = Some s \<and> t \<in># consumers_of m d)"
    using som_get_pos_key [OF k(1) [of s], of t] k(3) [of s t] link_count_pos(1) [of "set (m_dataList m)"]
    by (simp add: stage_edges_def)
  show "s \<in> set (m_stageList m) \<and> t \<in> set (m_stageList m)" if st: "(s, t) \<in> stage_edges m"
  proof -
    obtain d where "producer_of m d = Some s" "t \<in># consumers_of m d" using st c by blast
    then have "live m s" "live m t" using e(5,13) by (auto simp: producer_of_def consumers_of_def)
    then show ?thesis using l by blast
  qed
qed

text \<open>The bookkeeping is consistent; in a wired model, every stage without predecessors is initial.\<close>

lemma full_inv_graph_ok:
  assumes inv: "full_inv m"
  shows "stage_graph_ok m"
proof -
  have i: "model_inv m" and l: "\<And>t. live m t \<longleftrightarrow> t \<in> set (m_stageList m)"
    using inv by (simp_all add: full_inv_def)
  note j = model_invD [OF i]
  have "set (m_initialStages m) \<subseteq> {s \<in> set (m_stageList m). prevs m s = []}"
    "distinct (m_stageList m)" "distinct (m_initialStages m)"
    using j(1,3,4) l by (auto simp: initial_sound_def initial_live_def edges_ok_def numbers_ok_def)
  moreover have "\<forall>s \<in> set (m_stageList m). ms_parentStageEdge (m_stage m s) = None"
    using l by (auto simp: live_def)
  ultimately show ?thesis using full_inv_graph [OF inv] unfolding stage_graph_ok_def by blast
qed

lemma wired_roots_complete:
  assumes inv: "full_inv m" and w: "wired m"
  shows "roots_complete m"
  unfolding roots_complete_def
proof (intro ballI impI)
  have i: "model_inv m" and l: "\<And>t. live m t \<longleftrightarrow> t \<in> set (m_stageList m)"
    using inv by (simp_all add: full_inv_def)
  note j = model_invD [OF i]
  fix s assume s: "s \<in> set (m_stageList m)" "prevs m s = []"
  with l have s': "live m s" by blast
  with s prevs_empty_iff [OF j(1,2)] have n: "\<forall>e \<in> set (ms_inputEdges (m_stage m s)).
    md_producerEdge (m_data m (ed_input (m_in m e))) = None" by blast
  with w s(1) have "\<forall>e \<in> set (ms_inputEdges (m_stage m s)). is_source m (ed_input (m_in m e))"
    "ms_inputEdges (m_stage m s) \<noteq> []" unfolding wired_def is_source_def by blast+
  with s' j(5) show "s \<in> set (m_initialStages m)" unfolding initial_complete_def by blast
qed

lemma number_loop_frame:
  "let m' = fold (\<lambda>(i, s). upd_ms s (\<lambda>x. x\<lparr>ms_index := int i\<rparr>)) xs m in
     core m' = core m \<and> m_resetStageOrder m' = m_resetStageOrder m"
proof (induction xs arbitrary: m)
  case (Cons p xs)
  have "core (upd_ms s (\<lambda>x. x\<lparr>ms_index := int i\<rparr>) m) = core m" for i s
    by (auto simp: core_def upd_ms_def fun_eq_iff)
  moreover have "m_resetStageOrder (upd_ms s (\<lambda>x. x\<lparr>ms_index := int i\<rparr>) m) = m_resetStageOrder m" for i s
    by (simp add: upd_ms_def)
  ultimately show ?case using Cons.IH by (cases p) (simp add: Let_def)
qed (simp add: Let_def)

lemma buildStageOrder_frame:
  assumes "buildStageOrder m = Inr m'"
  shows "core m' = core m" "\<not> m_resetStageOrder m'"
proof -
  have n: "core (number_stages x) = core x" "m_resetStageOrder (number_stages x) = m_resetStageOrder x" for x
    using number_loop_frame unfolding number_stages_def Let_def by blast+
  show "core m' = core m" "\<not> m_resetStageOrder m'"
    using assms n by (auto simp: buildStageOrder_def Let_def split: if_splits)
qed

lemma full_inv_core:
  assumes "core m' = core m"
  shows "full_inv m' = full_inv m" "stage_edges m' = stage_edges m"
  unfolding full_inv_def stage_edges_def model_inv_core [OF assms] live_core [OF assms] coreD(9) [OF assms] coreD(23) [OF assms]
  by (rule refl)+

text \<open>The whole invariant: exact bookkeeping, and an order that is right unless it has to be rebuilt.\<close>

definition graph_inv :: "Model \<Rightarrow> bool" where
  "graph_inv m \<longleftrightarrow> full_inv m \<and> (m_resetStageOrder m \<or> in_order m)"

lemma buildStageOrder_inv:
  assumes inv: "graph_inv m" and r: "buildStageOrder m = Inr m'"
  shows "graph_inv m'" "in_order m'" "m_stageList m' = m_stageList m" "stage_edges m' = stage_edges m"
proof -
  note f = buildStageOrder_frame [OF r] and c = full_inv_core [OF buildStageOrder_frame(1) [OF r]]
  have i: "full_inv m" using inv by (simp add: graph_inv_def)
  show l: "m_stageList m' = m_stageList m" and e: "stage_edges m' = stage_edges m" by (fact coreD(9) [OF f(1)] c(2))+
  show o: "in_order m'"
  proof (cases "m_resetStageOrder m")
    case True
    from stage_order_topological [OF full_inv_graph_ok [OF i] this r] show ?thesis by (simp add: in_order_def l e)
  next
    case False
    with r have "m' = m" by (auto simp: buildStageOrder_def split: if_splits)
    with False inv show ?thesis by (simp add: graph_inv_def)
  qed
  with i c(1) show "graph_inv m'" by (simp add: graph_inv_def)
qed

section \<open>The models that can be built\<close>

text \<open>
  The operations of the model, with their arguments: those on data, stages and their edges, connections of data, and the
  order. The injection of a stage into another (\<open>injectStage\<close>) and its reversal are not among them: an injected stage keeps
  edges that no data object knows, so what is shown here of every stage would be false of it.

  A new stage comes with its number, which must be free; handles that an operation does not check are those of stages in the
  model. \<open>removeUnusedData\<close>, which checks for consumers only, is called for data without a producer, as the frontend
  calls it for constants.
\<close>

datatype ModelOp =
    SetBatchSize int
  | AddInput string DataDesc
  | AddOutput string DataDesc
  | AddConst string DataDesc "nat option"
  | AddNew string DataDesc
  | AddFake
  | DuplicateData nat string DataDesc "nat option"
  | AddStage nat string StageType StageCategory "nat list" "nat list"
  | DuplicateStage nat nat string "nat list" "nat list"
  | AddStageInput nat nat
  | AddStageOutput nat nat
  | AddTempBuffer nat DataDesc
  | ReplaceInput nat nat
  | ReplaceOutput nat nat
  | DisconnectStage nat
  | RemoveStage nat
  | RemoveUnusedData nat
  | ConnectDatas nat nat SharedDataMode SharedDataOrder DimValues
  | CleanUp
  | GetStages

fun apply_op :: "ModelOp \<Rightarrow> Model \<Rightarrow> Model result" where
  "apply_op (SetBatchSize n) m = setBatchSize n m"
| "apply_op (AddInput name desc) m = Inr (snd (addInputData name desc m))"
| "apply_op (AddOutput name desc) m = Inr (snd (addOutputData name desc m))"
| "apply_op (AddConst name desc c) m = bindE (addConstData name desc c m) (\<lambda>(_, m). Inr m)"
| "apply_op (AddNew name desc) m = Inr (snd (addNewData name desc m))"
| "apply_op AddFake m = bindE (addFakeData m) (\<lambda>(_, m). Inr m)"
| "apply_op (DuplicateData d postfix desc c) m = bindE (duplicateData d postfix desc c m) (\<lambda>(_, m). Inr m)"
| "apply_op (AddStage s name ty cat ins outs) m = addNewStageImpl s name ty cat ins outs m"
| "apply_op (DuplicateStage s orig postfix ins outs) m = duplicateStage s orig postfix ins outs m"
| "apply_op (AddStageInput s d) m = bindE (addStageInput s d m) (\<lambda>(_, m). Inr m)"
| "apply_op (AddStageOutput s d) m = bindE (addStageOutput s d m) (\<lambda>(_, m). Inr m)"
| "apply_op (AddTempBuffer s desc) m = bindE (addTempBuffer s desc m) (\<lambda>(_, m). Inr m)"
| "apply_op (ReplaceInput e d) m = replaceStageInput e d m"
| "apply_op (ReplaceOutput e d) m = replaceStageOutput e d m"
| "apply_op (DisconnectStage s) m = disconnectStage s m"
| "apply_op (RemoveStage s) m = removeStage s m"
| "apply_op (RemoveUnusedData d) m = removeUnusedData d m"
| "apply_op (ConnectDatas p c mode order offset) m = bindE (connectDatasImpl p c mode order offset m) (\<lambda>(_, m). Inr m)"
| "apply_op CleanUp m = cleanUp m"
| "apply_op GetStages m = bindE (getStages m) (\<lambda>(_, m). Inr m)"

fun op_ok :: "Model \<Rightarrow> ModelOp \<Rightarrow> bool" where
  "op_ok m (AddStage s _ _ _ _ _) = free_stage m s"
| "op_ok m (DuplicateStage s _ _ _ _) = free_stage m s"
| "op_ok m (AddStageInput s _) = (s \<in> set (m_stageList m))"
| "op_ok m (AddStageOutput s _) = (s \<in> set (m_stageList m))"
| "op_ok m (DisconnectStage s) = (s \<in> set (m_stageList m))"
| "op_ok m (RemoveStage s) = (s \<in> set (m_stageList m))"
| "op_ok m (RemoveUnusedData d) = (md_producerEdge (m_data m d) = None)"
| "op_ok m _ = True"

inductive built :: "Model \<Rightarrow> bool" where
  built_empty: "built mk_Model"
| built_op: "built m \<Longrightarrow> op_ok m op \<Longrightarrow> apply_op op m = Inr m' \<Longrightarrow> built m'"

lemma mk_Model_inv: "graph_inv mk_Model"
proof -
  have "edges_ok mk_Model"
    by (rule edges_okI) (simp_all add: edges_defs mk_Model_def mk_ModelData_def mk_ModelStage_def live_def)
  moreover have "counts_ok mk_Model"
    by (simp add: counts_ok_def links_match_def link_count_def mk_Model_def mk_ModelStage_def)
  moreover have "initial_sound mk_Model" "initial_live mk_Model" "initial_complete mk_Model"
    "\<forall>s. live mk_Model s \<longleftrightarrow> s \<in> set (m_stageList mk_Model)" "m_resetStageOrder mk_Model"
    by (simp_all add: initial_sound_def initial_live_def initial_complete_def mk_Model_def mk_ModelStage_def live_def)
  ultimately show ?thesis by (simp add: graph_inv_def full_inv_def model_inv_def)
qed

text \<open>An operation keeps the invariant if it keeps that of the edges and forgets or keeps the order.\<close>

lemma graph_invI:
  assumes "graph_inv m" "model_inv m'" "live m' = live m" "m_stageList m' = m_stageList m"
    "m_resetStageOrder m' \<or> order_view m' = order_view m"
  shows "graph_inv m'"
  using assms by (auto simp: graph_inv_def full_inv_def order_view_def in_order_def fun_eq_iff)

lemma push_data_frame:
  "live (snd (push_data x m)) = live m" "m_stageList (snd (push_data x m)) = m_stageList m"
  "order_view (snd (push_data x m)) = order_view m"
  by (simp_all add: push_data_def live_def fun_eq_iff order_view_def stage_edges_def)

lemma push_data_graph_inv:
  assumes "graph_inv m" "md_producerEdge x = None" "md_consumerEdges x = []"
  shows "graph_inv (snd (push_data x m))"
  by (rule graph_invI [OF assms(1) push_data_inv [OF _ assms(2,3)]])
    (use assms(1) push_data_frame in \<open>simp_all add: graph_inv_def full_inv_def\<close>)

lemma graph_inv_misc [simp]:
  "graph_inv (m\<lparr>m_needAlloc := n\<rparr>) = graph_inv m" "graph_inv (m\<lparr>m_contentDesc := c\<rparr>) = graph_inv m"
  "graph_inv (m\<lparr>m_batchSize := b\<rparr>) = graph_inv m" "graph_inv (m\<lparr>m_allocBatchSize := b\<rparr>) = graph_inv m"
  using full_inv_core [of "m\<lparr>m_needAlloc := n\<rparr>" m] full_inv_core [of "m\<lparr>m_contentDesc := c\<rparr>" m]
    full_inv_core [of "m\<lparr>m_batchSize := b\<rparr>" m] full_inv_core [of "m\<lparr>m_allocBatchSize := b\<rparr>" m]
  by (simp_all add: graph_inv_def in_order_def)

lemma mk_ModelData_fields:
  "md_producerEdge (mk_ModelData name u desc) = None" "md_consumerEdges (mk_ModelData name u desc) = []"
  by (simp_all add: mk_ModelData_def)

lemma drop_data_frame: "order_view (drop_data d m) = order_view m"
  by (simp add: drop_data_def order_view_def stage_edges_def)

lemma cleanUp_frame:
  assumes "cleanUp m = Inr m'"
  shows "order_view m' = order_view m"
proof -
  obtain nm where f: "foldE cleanUp_data (m_dataList m) (False, m) = Inr nm"
    and m': "m' = (if fst nm then snd nm\<lparr>m_needAlloc := True\<rparr> else snd nm)"
    using assms by (auto simp: cleanUp_def split: prod.splits)
  have "order_view (snd nm) = order_view m"
  proof (rule foldE_inv [OF f])
    fix d nm nm' assume o: "order_view (snd nm) = order_view m" and r: "cleanUp_data d nm = Inr nm'"
    have "snd nm' = snd nm \<or> snd nm' = drop_data d (snd nm)"
      using r by (cases nm) (auto simp: cleanUp_data_def Let_def erase_from_def drop_data_def split: if_splits)
    then show "order_view (snd nm') = order_view m" using o drop_data_frame by metis
  qed simp
  then show ?thesis by (simp add: m' order_view_def stage_edges_def)
qed

lemma addTempBuffer_frame:
  assumes "addTempBuffer s desc m = Inr (e, m')"
  shows "order_view m' = order_view m"
  using assms by (auto simp: addTempBuffer_def Let_def push_data_def new_temp_edge_def upd_ms_def upd_md_def
      order_view_def stage_edges_def fun_eq_iff split: if_splits)

lemma removeUnusedData_frame:
  assumes "removeUnusedData d m = Inr m'"
  shows "order_view m' = order_view m"
  using assms by (auto simp: removeUnusedData_def Let_def erase_from_def order_view_def stage_edges_def split: if_splits)

text \<open>A connection of data takes one more number; it changes nothing that stages and their links depend on.\<close>

lemma fresh_graph_inv:
  assumes "graph_inv m" "m_fresh m \<le> n"
  shows "graph_inv (m\<lparr>m_fresh := n\<rparr>)"
proof -
  let ?m = "m\<lparr>m_fresh := n\<rparr>"
  have i: "model_inv m" using assms by (simp add: graph_inv_def full_inv_def)
  have live: "live ?m = live m" by (simp add: live_def fun_eq_iff)
  note j = model_invD [OF i] note eo = j(1) [unfolded edges_ok_def]
  have "edges_ok ?m"
  proof (rule edges_okI)
    show "consumers_ok ?m" using eo by (simp add: consumers_ok_def live)
    show "inputs_ok ?m" using eo by (simp add: inputs_ok_def live)
    show "producers_ok ?m" using eo by (simp add: producers_ok_def live)
    show "outputs_ok ?m" using eo by (simp add: outputs_ok_def live)
    show "temps_ok ?m" using eo by (simp add: temps_ok_def live)
    show "outList_ok ?m" using eo by (simp add: outList_ok_def)
    show "numbers_ok ?m" using eo assms(2) by (auto simp: numbers_ok_def dest: less_le_trans)
  qed
  moreover have "producer_of ?m = producer_of m" "consumers_of ?m = consumers_of m"
    by (auto simp: producer_of_def consumers_of_def fun_eq_iff)
  ultimately have "model_inv ?m" using j(2-5)
    by (simp add: model_inv_def counts_ok_def initial_sound_def initial_live_def initial_complete_def is_source_def live)
  from graph_invI [OF assms(1) this live] show ?thesis by (simp add: order_view_def stage_edges_def)
qed

lemma share_frame:
  "core (upd_md d (\<lambda>x. x\<lparr>md_requiredStrides := st\<rparr>) m) = core m"
  "core (upd_md d (\<lambda>x. x\<lparr>md_childDataEdges := f x\<rparr>) m) = core m"
  "core (upd_md d (\<lambda>x. x\<lparr>md_parentDataEdge := pe\<rparr>) m) = core m"
  "order_view (upd_md d g m) = order_view m"
  "core (m\<lparr>m_fresh := n\<rparr>) = (core m)\<lparr>m_fresh := n\<rparr>"
  by (auto simp: core_def upd_md_def fun_eq_iff order_view_def stage_edges_def)

lemma new_data_edge_frame:
  "core (new_data_edge p c s mode order offset m) = (core m)\<lparr>m_fresh := m_fresh m + 1\<rparr>"
  "order_view (new_data_edge p c s mode order offset m) = order_view m"
proof -
  show "core (new_data_edge p c s mode order offset m) = (core m)\<lparr>m_fresh := m_fresh m + 1\<rparr>"
    unfolding new_data_edge_def Let_def share_frame by (simp add: core_def)
  show "order_view (new_data_edge p c s mode order offset m) = order_view m"
    unfolding new_data_edge_def Let_def share_frame by (simp add: order_view_def stage_edges_def)
qed

lemma check_roi_frame:
  assumes "check_roi p c ty order offset m = Inr m'"
  shows "core m' = core m" "order_view m' = order_view m"
  using assms by (auto simp: check_roi_def Let_def share_frame)

lemma drop_parent_edge_frame:
  assumes "drop_parent_edge c m = Inr m'"
  shows "core m' = core m" "order_view m' = order_view m"
  using assms by (auto simp: drop_parent_edge_def Let_def share_frame split: option.splits)

lemma connectDatas_frame:
  assumes "connectDatasImpl p c mode order offset m = Inr (e, m')"
  shows "core m' = (core m)\<lparr>m_fresh := m_fresh m + 1\<rparr>" "order_view m' = order_view m"
proof -
  obtain s m1 m2 m3 where
    m1: "(case mode of ROI \<Rightarrow> check_roi p c (ms_type (m_stage m s)) order offset m
           | Reshape \<Rightarrow> bindE (check_reshape p c (ms_type (m_stage m s)) m) (\<lambda>_. Inr m)) = Inr m1"
    and m2: "drop_parent_edge c m1 = Inr m2"
    and m3: "(case md_parentDataEdge (m_data m1 c) of None \<Rightarrow> Inr (new_data_edge p c s mode order offset m2)
           | Some e \<Rightarrow> bindE (erase_from e (m_dataEdgeList (new_data_edge p c s mode order offset m2)))
               (\<lambda>es. Inr (new_data_edge p c s mode order offset m2\<lparr>m_dataEdgeList := es\<rparr>))) = Inr m3"
    and m': "m' = m3\<lparr>m_needAlloc := True\<rparr>"
    using assms unfolding connectDatasImpl_def Let_def by (simp only: bindE_eq_Inr prod.inject sum.inject) blast
  have a: "core m1 = core m" "order_view m1 = order_view m"
    using m1 by (auto dest: check_roi_frame split: SharedDataMode.splits)
  have b: "core m2 = core m" "order_view m2 = order_view m" using drop_parent_edge_frame [OF m2] a by simp_all
  have "core m3 = core (new_data_edge p c s mode order offset m2)"
    "order_view m3 = order_view (new_data_edge p c s mode order offset m2)"
    using m3 by (auto simp: order_view_def stage_edges_def split: option.splits)
  moreover have "m_fresh m2 = m_fresh m" using coreD(8) [OF b(1)] .
  ultimately show "core m' = (core m)\<lparr>m_fresh := m_fresh m + 1\<rparr>" "order_view m' = order_view m"
    using b unfolding m' new_data_edge_frame by (simp_all add: order_view_def stage_edges_def)
qed

lemma connectDatas_graph_inv:
  assumes inv: "graph_inv m" and r: "connectDatasImpl p c mode order offset m = Inr (e, m')"
  shows "graph_inv m'"
proof -
  let ?m = "m\<lparr>m_fresh := m_fresh m + 1\<rparr>"
  note f = connectDatas_frame [OF r]
  have c: "core m' = core ?m" using f(1) unfolding share_frame .
  have i: "graph_inv ?m" using fresh_graph_inv [OF inv] by simp
  have "order_view ?m = order_view m" by (simp add: order_view_def stage_edges_def)
  with i f(2) model_inv_core [OF c] live_core [OF c] coreD(9) [OF c] show ?thesis
    by (intro graph_invI [OF i]) (simp_all add: graph_inv_def full_inv_def)
qed

lemma apply_op_inv:
  assumes inv: "graph_inv m" and ok: "op_ok m op" and r: "apply_op op m = Inr m'"
  shows "graph_inv m'"
proof -
  have i: "model_inv m" and f: "full_inv m" and l: "\<And>s. live m s \<longleftrightarrow> s \<in> set (m_stageList m)"
    using inv by (simp_all add: graph_inv_def full_inv_def)
  note push = push_data_graph_inv [OF inv, OF mk_ModelData_fields]
  note keep = graph_invI [OF inv]
  show ?thesis
  proof (cases op)
    case (SetBatchSize n)
    with r inv show ?thesis by (auto simp: setBatchSize_def split: if_splits)
  next
    case (AddInput name desc)
    with r push [of name DU_Input desc] show ?thesis by (auto simp: addInputData_def split: prod.splits)
  next
    case (AddOutput name desc)
    with r push [of name DU_Output desc] show ?thesis by (auto simp: addOutputData_def split: prod.splits)
  next
    case (AddConst name desc c)
    then obtain k where c: "c = Some k" using r by (cases c) (auto simp: addConstData_def)
    have "graph_inv (m\<lparr>m_contentDesc := (m_contentDesc m)(k := desc)\<rparr>)" using inv by simp
    from push_data_graph_inv [OF this, of "(mk_ModelData name DU_Const desc)\<lparr>md_content := Some k\<rparr>"]
    show ?thesis using r AddConst c mk_ModelData_fields [of name DU_Const desc]
      by (auto simp: addConstData_def Let_def split: prod.splits)
  next
    case (AddNew name desc)
    with r push [of name DU_Intermediate desc] show ?thesis by (simp add: addNewData_def)
  next
    case AddFake
    with r obtain desc where "m' = snd (push_data (mk_ModelData ''<fake>'' DU_Fake desc) m)"
      by (auto simp: addFakeData_def split: prod.splits) (metis snd_conv)
    with push show ?thesis by simp
  next
    case (DuplicateData d postfix desc c)
    have "graph_inv m'" if "(case push_data x y of (_, n) \<Rightarrow> Inr n) = (Inr m' :: Model result)" "graph_inv y"
      "md_producerEdge x = None" "md_consumerEdges x = []" for x y
      using push_data_graph_inv [OF that(2-4)] that(1) by (simp split: prod.splits)
    with DuplicateData r inv show ?thesis
      by (auto simp: duplicateData_def Let_def mk_ModelData_fields split: option.splits if_splits)
  next
    case (AddStage s name ty cat ins outs)
    with addNewStageImpl_inv [OF f] ok r show ?thesis by (auto simp: graph_inv_def)
  next
    case (DuplicateStage s orig postfix ins outs)
    with duplicateStage_inv [OF f] ok r show ?thesis by (auto simp: graph_inv_def)
  next
    case (AddStageInput s d)
    with r obtain e where "addStageInput s d m = Inr (e, m')" by auto
    from addStageInput_inv [OF i _ this] show ?thesis using keep ok l AddStageInput by simp
  next
    case (AddStageOutput s d)
    with r obtain e where "addStageOutput s d m = Inr (e, m')" by auto
    from addStageOutput_inv [OF i _ this] show ?thesis using keep ok l AddStageOutput by simp
  next
    case (AddTempBuffer s desc)
    with r obtain e where e: "addTempBuffer s desc m = Inr (e, m')" by auto
    from addTempBuffer_inv [OF i e] addTempBuffer_frame [OF e] show ?thesis using keep by simp
  next
    case (ReplaceInput e d)
    with replaceStageInput_inv [OF i] r show ?thesis using keep by simp
  next
    case (ReplaceOutput e d)
    with replaceStageOutput_inv [OF i] r show ?thesis using keep by simp
  next
    case (DisconnectStage s)
    with disconnectStage_ok [OF i, of s] ok l r show ?thesis using keep by auto
  next
    case (RemoveStage s)
    have n: "distinct (m_stageList m)" using model_invD(1) [OF i] by (simp add: edges_ok_def numbers_ok_def)
    from RemoveStage removeStage_ok [OF i, of s] ok l r have "model_inv m'" "m_resetStageOrder m'"
      "\<forall>t. live m' t \<longleftrightarrow> live m t \<and> t \<noteq> s" "m_stageList m' = remove1 s (m_stageList m)" by auto
    with l n show ?thesis by (auto simp: graph_inv_def full_inv_def)
  next
    case (RemoveUnusedData d)
    with ok r have "removeUnusedData d m = Inr m'" "md_producerEdge (m_data m d) = None" by simp_all
    with removeUnusedData_inv [OF i this(2,1)] removeUnusedData_frame show ?thesis using keep by simp
  next
    case (ConnectDatas p c mode order offset)
    with connectDatas_graph_inv [OF inv] r show ?thesis by auto
  next
    case CleanUp
    with r have "cleanUp m = Inr m'" by simp
    with cleanUp_inv [OF i this] cleanUp_frame show ?thesis using keep by simp
  next
    case GetStages
    with r have "buildStageOrder m = Inr m'" by (auto simp: getStages_def)
    with buildStageOrder_inv [OF inv] show ?thesis by simp
  qed
qed

lemma built_inv: "built m \<Longrightarrow> graph_inv m"
  by (induction rule: built.induct) (use mk_Model_inv apply_op_inv in blast)+

end
