(* ===== verification/VpuModelProps.thy ===== *)
theory VpuModelProps
  imports VpuModelReach
begin

text \<open>
  What holds of every VPU model that the operations of \<open>model.cpp\<close> on data, edges and stages can build from the empty one,
  the injection of stages apart (\<open>built\<close> of \<open>VpuModelReach\<close>): exact link counts,
  stages that can always be removed, and a stage order that exists exactly when there is no cycle.
\<close>

section \<open>Link counts are numbers of edges\<close>

lemma built_cases:
  assumes "built m"
  shows "model_inv m" "full_inv m" "graph_inv m" "live m s \<longleftrightarrow> s \<in> set (m_stageList m)"
  using built_inv [OF assms] by (simp_all add: graph_inv_def full_inv_def)

lemma count_image_distinct:
  assumes "distinct es"
  shows "count (image_mset f (mset es)) c = card {e \<in> set es. f e = c}"
  using assms
proof (induction es)
  case (Cons e es)
  have "{x \<in> set (e # es). f x = c} = (if f e = c then insert e {x \<in> set es. f x = c} else {x \<in> set es. f x = c})" by auto
  with Cons show ?case by simp
qed simp

lemma link_count_card:
  assumes inv: "model_inv m" and c: "live m c"
  shows "link_count (set (m_dataList m)) (producer_of m) (consumers_of m) p c =
    int (card {e \<in> set (ms_inputEdges (m_stage m c)). producer_of m (ed_input (m_in m e)) = Some p})"
proof -
  note e = edges_okD [OF model_invD(1) [OF inv]]
  define E where "E d = {k \<in> set (md_consumerEdges (m_data m d)). ed_consumer (m_in m k) = c}" for d
  let ?D = "{d \<in> set (m_dataList m). producer_of m d = Some p}"
  have "link_count (set (m_dataList m)) (producer_of m) (consumers_of m) p c = (\<Sum>d \<in> ?D. int (card (E d)))"
    unfolding link_count_def consumers_of_def count_image_distinct [OF e(1)] E_def
    by (subst sum.inter_filter) simp_all
  also have "\<dots> = int (card (\<Union>d \<in> ?D. E d))"
  proof -
    have "E d \<inter> E d' = {}" if "d \<noteq> d'" for d d' using that e(4) by (auto simp: E_def)
    then have "card (\<Union>d \<in> ?D. E d) = (\<Sum>d \<in> ?D. card (E d))"
      by (intro card_UN_disjoint) (auto simp: E_def)
    then show ?thesis by simp
  qed
  also have "(\<Union>d \<in> ?D. E d) = {e \<in> set (ms_inputEdges (m_stage m c)). producer_of m (ed_input (m_in m e)) = Some p}"
  proof (intro set_eqI iffI)
    fix k assume "k \<in> (\<Union>d \<in> ?D. E d)"
    then show "k \<in> {e \<in> set (ms_inputEdges (m_stage m c)). producer_of m (ed_input (m_in m e)) = Some p}"
      using e(4,6) by (auto simp: E_def)
  next
    fix k assume k: "k \<in> {e \<in> set (ms_inputEdges (m_stage m c)). producer_of m (ed_input (m_in m e)) = Some p}"
    then have "k \<in> E (ed_input (m_in m k))" "ed_input (m_in m k) \<in> ?D"
      using e(2) [OF e(9) [OF c]] e(8,9) [OF c] by (auto simp: E_def)
    then show "k \<in> (\<Union>d \<in> ?D. E d)" by blast
  qed
  finally show ?thesis .
qed

text \<open>A small model: an input, one stage reading it twice and one reading what the first writes.\<close>

definition run_ops :: "ModelOp list \<Rightarrow> Model \<Rightarrow> Model result" where
  "run_ops = foldE (\<lambda>op m. bindE (ie_assert (op_ok m op)) (\<lambda>_. apply_op op m))"

lemma built_run: "run_ops ops m = Inr m' \<Longrightarrow> built m \<Longrightarrow> built m'"
  unfolding run_ops_def by (erule foldE_inv) (auto intro: built_op)

definition sample_ops :: "ModelOp list" where
  "sample_ops =
     [AddInput ''in'' default_desc, AddNew ''mid'' default_desc, AddOutput ''out'' default_desc,
      AddStage 7 ''a'' T_None SC_SHAVE [0] [1], AddStage 4 ''b'' T_None SC_SHAVE [1, 1] [2]]"

definition sample :: Model where
  "sample = (case run_ops sample_ops mk_Model of Inl e \<Rightarrow> mk_Model | Inr m \<Rightarrow> m)"

lemma built_sample: "built sample"
  using built_run [of sample_ops mk_Model] built_empty by (simp add: sample_def split: sum.split)

lemmas model_eval = addInputData_def push_data_def mk_Model_def addNewData_def addOutputData_def addNewStageImpl_def
  new_stage_def add_inputs_def add_outputs_def addStageInput_def addStageOutput_def upd_ms_def upd_md_def upd_in_def
  upd_out_def mk_ModelData_def mk_ModelStage_def new_input_edge_def link_input_def add_link_def som_incr_def
  new_output_edge_def can_be_output_def link_consumer_def producer_of_def Let_def update_initial_def
  initial_emplace_def initial_erase_def StageNameCmp_def free_stage_def

lemma sample_facts:
  "m_stageList sample = [7, 4]" "m_initialStages sample = [7]" "nexts sample 7 = [(4, 2)]"
  "ms_inputEdges (m_stage sample 4) = [5, 6]" "ms_inputEdges (m_stage sample 7) = [3]" "m_resetStageOrder sample"
  "ed_input (m_in sample 3) = 0" "ed_input (m_in sample 5) = 1" "ed_input (m_in sample 6) = 1"
  "producer_of sample (Suc 0) = Some 7" "producer_of sample 0 = None" "md_usage (m_data sample 0) = DU_Input"
  "md_producerEdge (m_data sample (Suc 0)) = Some 4"
  by (simp_all add: sample_def sample_ops_def run_ops_def model_eval)

section \<open>Properties\<close>

text \<open>
  C19. The bookkeeping of links is exact in every model that is built from the empty one by the operations of \<open>Model\<close> on data,
  stages and edges, in any order (\<open>built\<close>): for any stage of the model and any other, the entry of the consumer among the next
  stages of the producer, and that of the producer among the previous stages of the consumer, are the number of input edges
  over which the consumer reads an output of the producer (no entry standing for none). No initial stage has a predecessor, and
  a stage that has inputs and reads only inputs and constants of the network is initial.

  The scope: \<open>setBatchSize\<close>, the five ways to add data and \<open>duplicateData\<close>, \<open>addNewStage\<close> and \<open>duplicateStage\<close> with a new stage,
  \<open>addStageInput\<close>, \<open>addStageOutput\<close>, \<open>addTempBuffer\<close>, the two replacements, \<open>disconnectStage\<close> and \<open>removeStage\<close> for stages of
  the model, \<open>removeUnusedData\<close> for data without a producer, \<open>connectDatas\<close>, \<open>cleanUp\<close> and \<open>getStages\<close>. Models with stages
  injected into others (\<open>injectStage\<close>, \<open>revertInjection\<close>) are outside it.
\<close>

theorem links_count_edges:
  assumes "built m" and "c \<in> set (m_stageList m)"
  shows "som_get (ms_nextStages (m_stage m p)) c =
      int (card {e \<in> set (ms_inputEdges (m_stage m c)). producer_of m (ed_input (m_in m e)) = Some p}) \<and>
    som_get (ms_prevStages (m_stage m c)) p = som_get (ms_nextStages (m_stage m p)) c \<and>
    (c \<in> set (m_initialStages m) \<longrightarrow> ms_prevStages (m_stage m c) = []) \<and>
    (ms_inputEdges (m_stage m c) \<noteq> [] \<longrightarrow> (\<forall>e \<in> set (ms_inputEdges (m_stage m c)). is_source m (ed_input (m_in m e))) \<longrightarrow>
       c \<in> set (m_initialStages m))"
proof -
  note b = built_cases [OF assms(1)]
  have c: "live m c" using b(4) assms(2) by blast
  note i = model_invD [OF b(1)] note l = links_matchD [OF i(2) [unfolded counts_ok_def]]
  have "som_get (nexts m p) c = int (card {e \<in> set (ms_inputEdges (m_stage m c)). producer_of m (ed_input (m_in m e)) = Some p})"
    unfolding l(3) by (rule link_count_card [OF b(1) c])
  moreover have "som_get (prevs m c) p = som_get (nexts m p) c" unfolding l(3,4) by (rule refl)
  moreover have "c \<in> set (m_initialStages m) \<longrightarrow> prevs m c = []" using i(3) by (simp add: initial_sound_def)
  moreover have "ms_inputEdges (m_stage m c) \<noteq> [] \<longrightarrow>
    (\<forall>e \<in> set (ms_inputEdges (m_stage m c)). is_source m (ed_input (m_in m e))) \<longrightarrow> c \<in> set (m_initialStages m)"
    using i(5) c unfolding initial_complete_def by blast
  ultimately show ?thesis by blast
qed

theorem links_count_edges_witness:
  "som_get (ms_nextStages (m_stage sample 7)) 4 = 2 \<and> som_get (ms_prevStages (m_stage sample 4)) 7 = 2 \<and>
   card {e \<in> {5, 6}. producer_of sample (ed_input (m_in sample e)) = Some 7} = 2"
  using links_count_edges [OF built_sample, of 4 7] by (simp add: sample_facts som_get_def)

text \<open>
  C20. Any stage of a model built by these operations can be removed: \<open>removeStage\<close> meets none of its assertions, takes
  exactly that stage off the list, and leaves no trace of it: no link leads to or from it, it is
  not initial, and no data object has it as a producer or a consumer.
\<close>

theorem removeStage_succeeds:
  assumes "built m" and "s \<in> set (m_stageList m)"
  shows "\<exists>m'. removeStage s m = Inr m' \<and> m_stageList m' = remove1 s (m_stageList m) \<and>
    (\<forall>t. (s, t) \<notin> stage_edges m' \<and> (t, s) \<notin> stage_edges m') \<and> s \<notin> set (m_initialStages m') \<and>
    (\<forall>d. producer_of m' d \<noteq> Some s \<and> (\<forall>e \<in> set (md_consumerEdges (m_data m' d)). ed_consumer (m_in m' e) \<noteq> s))"
proof -
  note b = built_cases [OF assms(1)]
  obtain m' where r: "removeStage s m = Inr m'" and i: "model_inv m'" and l: "m_stageList m' = remove1 s (m_stageList m)"
    and dead: "\<not> live m' s"
    using removeStage_ok [OF b(1), of s] b(4) assms(2) by blast
  have "built m'" using built_op [OF assms(1), of "RemoveStage s"] assms(2) r by simp
  then have "(s, t) \<in> stage_edges m' \<longleftrightarrow> s \<in> fst ` set (prevs m' t)" "(t, s) \<in> stage_edges m' \<longleftrightarrow> t \<in> fst ` set (prevs m' s)" for t
    using full_inv_graph(2) built_cases(2) by blast+
  moreover note d = dead_stage [OF i dead]
  have "(s, t) \<notin> stage_edges m'" for t using d(2) by (simp add: stage_edges_def)
  ultimately have "(s, t) \<notin> stage_edges m' \<and> (t, s) \<notin> stage_edges m'" for t using d(1) by auto
  moreover have "producer_of m' d \<noteq> Some s" for d
    using edges_okD(13) [OF model_invD(1) [OF i]] dead by (auto simp: producer_of_def)
  moreover have "ed_consumer (m_in m' e) \<noteq> s" if "e \<in> set (md_consumerEdges (m_data m' d))" for d e
    using edges_okD(5) [OF model_invD(1) [OF i] that] dead by blast
  ultimately show ?thesis using r l d(3) by blast
qed

theorem removeStage_succeeds_witness:
  "\<exists>m'. removeStage 7 sample = Inr m' \<and> m_stageList m' = [4] \<and> producer_of m' 1 \<noteq> Some 7"
  using removeStage_succeeds [OF built_sample, of 7] by (auto simp: sample_facts)

text \<open>
  C21. The stages of a model built by these operations come in execution order: when \<open>getStages\<close> succeeds, its list holds every stage of
  the model once, the index of a stage is its position, and a stage stands before every stage that
  reads one of its outputs.
\<close>

theorem getStages_topological:
  assumes "built m" and "getStages m = Inr (q, m')"
  shows "distinct q \<and> set q = set (m_stageList m) \<and> m_stageList m' = m_stageList m \<and>
    (\<forall>i < length q. ms_index (m_stage m' (q ! i)) = int i) \<and>
    (\<forall>s t. s \<in> set q \<longrightarrow> t \<in> set q \<longrightarrow>
       (\<exists>e \<in> set (ms_inputEdges (m_stage m t)). producer_of m (ed_input (m_in m e)) = Some s) \<longrightarrow>
       ms_index (m_stage m' s) < ms_index (m_stage m' t))"
proof -
  have r: "buildStageOrder m = Inr m'" and q: "q = m_orderedStageList m'" using assms(2) by (auto simp: getStages_def)
  note b = built_cases [OF assms(1)] and o = buildStageOrder_inv [OF built_cases(3) [OF assms(1)] r]
  have "ms_index (m_stage m' s) < ms_index (m_stage m' t)"
    if "t \<in> set (m_stageList m)" and e: "e \<in> set (ms_inputEdges (m_stage m t))" "producer_of m (ed_input (m_in m e)) = Some s" for s t e
  proof -
    have t: "live m t" using that(1) b(4) by blast
    note k = edges_okD [OF model_invD(1) [OF b(1)]]
    have "ed_input (m_in m e) \<in> set (m_dataList m)" "t \<in># consumers_of m (ed_input (m_in m e))"
      using k(2) [OF k(9) [OF t e(1)]] k(8) [OF t e(1)] k(9) [OF t e(1)] by (auto simp: consumers_of_def)
    with e(2) have "(s, t) \<in> stage_edges m'" unfolding o(4) full_inv_graph(3) [OF b(2)] by blast
    with o(2) show ?thesis unfolding in_order_def by blast
  qed
  moreover have "distinct q" "set q = set (m_stageList m)" "\<forall>i < length q. ms_index (m_stage m' (q ! i)) = int i"
    using o(2,3) by (auto simp: in_order_def q)
  ultimately show ?thesis using o(3) by auto
qed

lemma sample_order: "\<exists>m'. getStages sample = Inr ([7, 4], m')"
  by (simp add: sample_def sample_ops_def run_ops_def model_eval getStages_def buildStageOrder_def runDFS.simps
      number_stages_def)

theorem getStages_topological_witness:
  "\<exists>m'. getStages sample = Inr ([7, 4], m') \<and> ms_index (m_stage m' 7) < ms_index (m_stage m' 4)"
proof -
  obtain m' where r: "getStages sample = Inr ([7, 4], m')" using sample_order by blast
  have "5 \<in> set (ms_inputEdges (m_stage sample 4))" "producer_of sample (ed_input (m_in sample 5)) = Some 7"
    by (simp_all add: sample_facts)
  moreover have "7 \<in> set [7, 4 :: nat]" "4 \<in> set [7, 4 :: nat]" by simp_all
  ultimately have "ms_index (m_stage m' 7) < ms_index (m_stage m' 4)"
    using getStages_topological [OF built_sample r] by blast
  with r show ?thesis by blast
qed

lemma in_order_acyclic:
  assumes inv: "full_inv m" and o: "in_order m"
  shows "acyclic (stage_edges m)"
proof -
  have "ms_index (m_stage m s) < ms_index (m_stage m t)" if "(s, t) \<in> (stage_edges m)\<^sup>+" for s t
    using that by (induction rule: trancl.induct) (use o in \<open>force simp: in_order_def\<close>)+
  then show ?thesis by (auto simp: acyclic_def)
qed

text \<open>
  C22. The order exists exactly for acyclic models: if every stage of a model built by these operations has inputs, and each
  is an output of a stage or an input or constant of the network, then \<open>getStages\<close> succeeds exactly
  when the stages do not form a cycle.
\<close>

theorem getStages_iff_acyclic:
  assumes "built m" and "wired m"
  shows "(\<exists>q m'. getStages m = Inr (q, m')) \<longleftrightarrow> acyclic (stage_edges m)"
proof (cases "m_resetStageOrder m")
  case True
  note b = built_cases [OF assms(1)]
  from stage_order_iff_acyclic [OF full_inv_graph_ok [OF b(2)] True wired_roots_complete [OF b(2) assms(2)]]
  show ?thesis by (auto simp: getStages_def)
next
  case False
  note b = built_cases [OF assms(1)]
  have o: "in_order m" using b(3) False by (simp add: graph_inv_def)
  have "distinct (m_stageList m)" using model_invD(1) [OF b(1)] by (simp add: edges_ok_def numbers_ok_def)
  with o have "length (m_orderedStageList m) = length (m_stageList m)"
    unfolding in_order_def by (metis distinct_card)
  with False have "getStages m = Inr (m_orderedStageList m, m)" by (simp add: getStages_def buildStageOrder_def)
  with in_order_acyclic [OF b(2) o] show ?thesis by blast
qed

theorem getStages_iff_acyclic_witness:
  "(\<exists>q m'. getStages sample = Inr (q, m')) \<and> acyclic (stage_edges sample)"
proof -
  have "wired sample" by (simp add: wired_def sample_facts can_have_producer_def)
  with getStages_iff_acyclic [OF built_sample] sample_order show ?thesis by blast
qed

text \<open>
  A stage that loses its producers is stranded: when all produced inputs of a stage come from
  one other stage (and there is one) and that stage is removed, the model has no stage order until
  it is rewired. \<open>disconnectStage\<close> takes the links away without making the stage initial, so
  that \<open>getStages\<close> does not find it and fails.
\<close>

theorem orphan_blocks_order:
  assumes "built m" and "p \<in> set (m_stageList m)" and "c \<in> set (m_stageList m)" and "p \<noteq> c"
    and "\<exists>e \<in> set (ms_inputEdges (m_stage m c)). producer_of m (ed_input (m_in m e)) = Some p"
    and "\<forall>e \<in> set (ms_inputEdges (m_stage m c)). producer_of m (ed_input (m_in m e)) \<in> {None, Some p}"
    and "removeStage p m = Inr m'"
  shows "\<exists>err. getStages m' = Inl err"
proof (rule ccontr)
  assume "\<nexists>err. getStages m' = Inl err"
  then obtain q n where r: "getStages m' = Inr (q, n)" by (cases "getStages m'") auto
  note b = built_cases [OF assms(1)]
  have built: "built m'" using built_op [OF assms(1), of "RemoveStage p"] assms(2,7) by simp
  note b' = built_cases [OF built]
  have rm: "m_resetStageOrder m'" "m_stageList m' = remove1 p (m_stageList m)" "cut_off p m m'" "\<not> live m' p"
    using removeStage_ok [OF b(1), of p] b(4) assms(2,7) by auto
  note cut = rm(3) [unfolded cut_off_def]
  have c': "c \<in> set (m_stageList m')" "live m' c" "live m c" using assms(3,4) rm(2) b(4) b'(4) by auto
  have "prevs m c \<noteq> []"
    using prevs_empty_iff [OF model_invD(1,2) [OF b(1)] c'(3)] assms(5) by (auto simp: producer_of_def)
  then have "c \<notin> set (m_initialStages m)" using model_invD(3) [OF b(1)] by (auto simp: initial_sound_def)
  then have ini: "c \<notin> set (m_initialStages m')" using cut by blast
  have "md_producerEdge (m_data m' (ed_input (m_in m' e))) = None" if e: "e \<in> set (ms_inputEdges (m_stage m' c))" for e
  proof (rule ccontr)
    assume "md_producerEdge (m_data m' (ed_input (m_in m' e))) \<noteq> None"
    then obtain x where x: "producer_of m' (ed_input (m_in m' e)) = Some x" by (auto simp: producer_of_def)
    then have "producer_of m (ed_input (m_in m e)) = Some x" using cut by simp
    with assms(4,6) e cut have "x = p" by force
    moreover have "live m' x" using x edges_okD(13) [OF model_invD(1) [OF b'(1)]] by (auto simp: producer_of_def)
    ultimately show False using rm(4) by blast
  qed
  then have none: "prevs m' c = []" using prevs_empty_iff [OF model_invD(1,2) [OF b'(1)] c'(2)] by blast
  have ok: "stage_graph_ok m'" by (rule full_inv_graph_ok [OF b'(2)])
  obtain V l where s: "search_all m' = Inr (V, l)" and len: "length l = length (m_stageList m')"
  proof -
    have "buildStageOrder m' = Inr n" "m_stageList m' \<noteq> []" using r c'(1) by (auto simp: getStages_def)
    with buildStageOrder_search [OF rm(1)] show thesis using that by blast
  qed
  have "dfs_inv m' (Map.empty, [])" by (simp add: dfs_inv_def)
  from search_roots [OF ok _ _ s this, of "[]"] stage_graph_okD(2) [OF ok]
  have reach: "\<forall>t \<in> set l. \<exists>i \<in> set (m_initialStages m'). (i, t) \<in> (stage_edges m')\<^sup>*" by auto
  note o = search_all_order [OF ok s]
  have "set l = set (m_stageList m')"
    using o(2) len topo_distinct [OF o(1)] stage_graph_okD(1) [OF ok] by (metis card_subset_eq distinct_card List.finite_set)
  with reach c'(1) ini obtain i where "(i, c) \<in> (stage_edges m')\<^sup>*" "i \<noteq> c" by blast
  then obtain k where "(k, c) \<in> stage_edges m'" by (metis rtranclE)
  with stage_graph_okD(8) [OF ok] none show False by auto
qed

theorem orphan_blocks_order_witness:
  "\<exists>m' err. removeStage 7 sample = Inr m' \<and> getStages m' = Inl err"
proof -
  have "\<exists>m'. removeStage 7 sample = Inr m'"
    using removeStage_ok [of sample 7] built_cases [OF built_sample] by (auto simp: sample_facts)
  then obtain m' where r: "removeStage 7 sample = Inr m'" by blast
  from orphan_blocks_order [OF built_sample _ _ _ _ _ r, of 4] r show ?thesis by (auto simp: sample_facts)
qed

end
