(* ===== verification/VpuInject.thy ===== *)
theory VpuInject
  imports VpuShare
begin

text \<open>
  Injected stages of the VPU model (\<open>Model::injectStageImpl\<close>, \<open>Model::revertInjection\<close> and
  \<open>Model::InjectStageHelper\<close> of \<open>src/model/model.cpp\<close>): a software stage that runs inside a hardware
  stage. Its edges stay with it, and every one of them gets a parent edge at the hardware stage.
\<close>

section \<open>Injecting a stage\<close>

definition inject_input :: "nat \<Rightarrow> nat \<Rightarrow> Model \<Rightarrow> Model result" where
  "inject_input parent childInEdge m =
     (let d = ed_input (m_in m childInEdge) in
      bindE (case producer_of m d of
               None \<Rightarrow> Inr m | Some p \<Rightarrow> del_link p (ed_consumer (m_in m childInEdge)) m) (\<lambda>m.
      bindE (erase_consumer d childInEdge m) (\<lambda>m.
      bindE (addStageInput parent d m) (\<lambda>(parentInEdge, m).
      let m = upd_in childInEdge (\<lambda>e. e\<lparr>ed_inParent := Some parentInEdge\<rparr>) m
      in Inr (upd_in parentInEdge (\<lambda>e. e\<lparr>ed_inChild := Some childInEdge\<rparr>) m)))))"

definition inject_output :: "nat \<Rightarrow> nat \<Rightarrow> Model \<Rightarrow> Model result" where
  "inject_output parent childOutEdge m =
     (let d = ed_output (m_out m childOutEdge) in
      bindE (foldE (unlink_consumer (ed_producer (m_out m childOutEdge))) (md_consumerEdges (m_data m d)) m) (\<lambda>m.
      let m = upd_md d (\<lambda>x. x\<lparr>md_producerEdge := None\<rparr>) m in
      bindE (addStageOutput parent d m) (\<lambda>(parentOutEdge, m).
      let m = upd_out childOutEdge (\<lambda>e. e\<lparr>ed_outParent := Some parentOutEdge\<rparr>) m
      in Inr (upd_out parentOutEdge (\<lambda>e. e\<lparr>ed_outChild := Some childOutEdge\<rparr>) m))))"

definition inject_temp :: "nat \<Rightarrow> nat \<Rightarrow> Model \<Rightarrow> Model" where
  "inject_temp parent childEdge m =
     (let d = ed_tempBuffer (m_temp m childEdge); parentEdge = m_fresh m;
          m = new_temp_edge parent d (upd_md d (\<lambda>x. x\<lparr>md_tempBufferEdge := None\<rparr>) m);
          m = upd_temp childEdge (\<lambda>e. e\<lparr>ed_tempParent := Some parentEdge\<rparr>) m
      in upd_temp parentEdge (\<lambda>e. e\<lparr>ed_tempChild := Some childEdge\<rparr>) m)"

definition new_stage_edge :: "nat \<Rightarrow> nat \<Rightarrow> Model \<Rightarrow> Model" where
  "new_stage_edge parent child m =
     (let edge = m_fresh m;
          m = m\<lparr>m_fresh := m_fresh m + 1, m_stageEdgeList := m_stageEdgeList m @ [edge],
                m_stageEdge := (m_stageEdge m)(edge := \<lparr>ed_parentStage = parent, ed_childStage = child,
                  ed_stagePort = length (ms_injectedStageEdges (m_stage m parent))\<rparr>)\<rparr>;
          m = upd_ms parent (\<lambda>s. s\<lparr>ms_injectedStageEdges := ms_injectedStageEdges s @ [edge]\<rparr>) m
      in upd_ms child (\<lambda>s. s\<lparr>ms_parentStageEdge := Some edge\<rparr>) m)"

definition injectStageImpl :: "nat \<Rightarrow> nat \<Rightarrow> Model \<Rightarrow> (nat \<times> Model) result" where
  "injectStageImpl parent child m =
     bindE (ie_assert (ms_parentStageEdge (m_stage m parent) = None)) (\<lambda>_.
     bindE (ie_assert (ms_parentStageEdge (m_stage m child) = None)) (\<lambda>_.
     bindE (ie_assert (ms_injectedStageEdges (m_stage m child) = [])) (\<lambda>_.
     let edge = m_fresh m; m = new_stage_edge parent child (m\<lparr>m_resetStageOrder := True\<rparr>) in
     bindE (foldE (inject_input parent) (ms_inputEdges (m_stage m child)) m) (\<lambda>m.
     bindE (foldE (inject_output parent) (ms_outputEdges (m_stage m child)) m) (\<lambda>m.
     let m = fold (inject_temp parent) (ms_tempBufferEdges (m_stage m child)) m in
     bindE (erase_from child (m_stageList m)) (\<lambda>ss.
     let m = initial_erase child (m\<lparr>m_stageList := ss\<rparr>)
     in Inr (edge, update_initial parent m)))))))"

section \<open>Taking it out again\<close>

text \<open>
  The three loops of \<open>revertInjection\<close> scan the edges of the parent for those whose child edge
  belongs to the child stage, which must stand together and behind the parent's own edges.
  \<open>child_of\<close> is the child edge, \<open>owner\<close> the stage of an edge, \<open>port\<close> its port and \<open>body\<close> what is done
  to the edges that go.
\<close>

definition revert_scan ::
  "(Model \<Rightarrow> nat \<Rightarrow> nat option) \<Rightarrow> (Model \<Rightarrow> nat \<Rightarrow> nat) \<Rightarrow> (Model \<Rightarrow> nat \<Rightarrow> nat) \<Rightarrow> nat \<Rightarrow> nat \<Rightarrow>
     (nat \<Rightarrow> nat \<Rightarrow> Model \<Rightarrow> Model result) \<Rightarrow> nat \<Rightarrow> int \<times> int \<times> Model \<Rightarrow> (int \<times> int \<times> Model) result" where
  "revert_scan child_of owner port childStage len body edge st =
     (let (startInd, endInd, m) = st in
      case child_of m edge of
        None \<Rightarrow> bindE (ie_assert (startInd < 0)) (\<lambda>_. Inr st)
      | Some c \<Rightarrow>
          bindE (ie_assert (\<not> (startInd \<ge> 0 \<and> endInd \<ge> 0 \<and> owner m c = childStage))) (\<lambda>_.
          if owner m c \<noteq> childStage then
            Inr (startInd, if startInd \<ge> 0 \<and> endInd < 0 then int (port m edge) else endInd, m)
          else
            let startInd = (if startInd < 0 then int (port m edge) else startInd);
                endInd = (if int (port m edge) = int len - 1 then int (port m edge) + 1 else endInd)
            in bindE (body edge c m) (\<lambda>m. Inr (startInd, endInd, m))))"

definition revert_input :: "nat \<Rightarrow> nat \<Rightarrow> Model \<Rightarrow> Model result" where
  "revert_input inEdge childEdge m =
     (let d = ed_input (m_in m inEdge); d' = ed_input (m_in m childEdge); c = ed_consumer (m_in m childEdge) in
      bindE (case producer_of m d of None \<Rightarrow> Inr m | Some p \<Rightarrow> del_link p (ed_consumer (m_in m inEdge)) m) (\<lambda>m.
      bindE (link_input c d' m) (\<lambda>m.
      let m = upd_in childEdge (\<lambda>e. e\<lparr>ed_inParent := None\<rparr>) m in
      bindE (erase_consumer d inEdge m) (\<lambda>m.
      let m = upd_md d (\<lambda>x. x\<lparr>md_consumerEdges := md_consumerEdges x @ [childEdge]\<rparr>) m in
      bindE (erase_from inEdge (m_inList m)) (\<lambda>es. Inr (m\<lparr>m_inList := es\<rparr>))))))"

definition relink_consumer :: "nat \<Rightarrow> nat \<Rightarrow> Model \<Rightarrow> Model result" where
  "relink_consumer producer consumerEdge m =
     bindE (ie_assert (ms_parentStageEdge (m_stage m producer) = None)) (\<lambda>_.
     bindE (ie_assert (ms_parentStageEdge (m_stage m (ed_consumer (m_in m consumerEdge))) = None)) (\<lambda>_.
     Inr (add_link producer (ed_consumer (m_in m consumerEdge)) m)))"

definition revert_output :: "nat \<Rightarrow> nat \<Rightarrow> Model \<Rightarrow> Model result" where
  "revert_output outEdge childEdge m =
     (let d = ed_output (m_out m outEdge); d' = ed_output (m_out m childEdge) in
      bindE (foldE (unlink_consumer (ed_producer (m_out m outEdge))) (md_consumerEdges (m_data m d)) m) (\<lambda>m.
      bindE (foldE (relink_consumer (ed_producer (m_out m childEdge))) (md_consumerEdges (m_data m d')) m) (\<lambda>m.
      let m = upd_out childEdge (\<lambda>e. e\<lparr>ed_outParent := None\<rparr>) m;
          m = upd_md d (\<lambda>x. x\<lparr>md_producerEdge := Some childEdge\<rparr>) m in
      bindE (erase_from outEdge (m_outList m)) (\<lambda>es. Inr (m\<lparr>m_outList := es\<rparr>)))))"

definition revert_temp :: "nat \<Rightarrow> nat \<Rightarrow> Model \<Rightarrow> Model result" where
  "revert_temp tempEdge childEdge m =
     (let d = ed_tempBuffer (m_temp m tempEdge);
          m = upd_temp childEdge (\<lambda>e. e\<lparr>ed_tempParent := None\<rparr>) m;
          m = upd_md d (\<lambda>x. x\<lparr>md_tempBufferEdge := Some childEdge\<rparr>) m
      in bindE (erase_from tempEdge (m_tempList m)) (\<lambda>es. Inr (m\<lparr>m_tempList := es\<rparr>)))"

definition erase_range :: "int \<Rightarrow> int \<Rightarrow> nat list \<Rightarrow> nat list" where
  "erase_range startInd endInd es = take (nat startInd) es @ drop (nat endInd) es"

definition renumber_inputs :: "nat list \<Rightarrow> Model \<Rightarrow> Model" where
  "renumber_inputs es = fold (\<lambda>(i, e). upd_in e (\<lambda>x. x\<lparr>ed_inPort := i\<rparr>)) (enumerate 0 es)"

definition renumber_outputs :: "nat list \<Rightarrow> Model \<Rightarrow> Model" where
  "renumber_outputs es = fold (\<lambda>(i, e). upd_out e (\<lambda>x. x\<lparr>ed_outPort := i\<rparr>)) (enumerate 0 es)"

definition renumber_temps :: "nat list \<Rightarrow> Model \<Rightarrow> Model" where
  "renumber_temps es = fold (\<lambda>(i, e). upd_temp e (\<lambda>x. x\<lparr>ed_tempPort := i\<rparr>)) (enumerate 0 es)"

definition revert_inputs :: "nat \<Rightarrow> nat \<Rightarrow> Model \<Rightarrow> Model result" where
  "revert_inputs parent child m =
     (let es = ms_inputEdges (m_stage m parent) in
      bindE (foldE (revert_scan (\<lambda>m e. ed_inChild (m_in m e)) (\<lambda>m e. ed_consumer (m_in m e)) (\<lambda>m e. ed_inPort (m_in m e))
               child (length es) revert_input) es (-1, -1, m)) (\<lambda>(startInd, endInd, m).
      bindE (ie_assert (startInd \<ge> 0 \<and> endInd > startInd \<and> startInd \<le> int (length es))) (\<lambda>_.
      let es = erase_range startInd endInd es
      in Inr (renumber_inputs es (upd_ms parent (\<lambda>s. s\<lparr>ms_inputEdges := es\<rparr>) m)))))"

definition revert_outputs :: "nat \<Rightarrow> nat \<Rightarrow> Model \<Rightarrow> Model result" where
  "revert_outputs parent child m =
     (let es = ms_outputEdges (m_stage m parent) in
      bindE (foldE (revert_scan (\<lambda>m e. ed_outChild (m_out m e)) (\<lambda>m e. ed_producer (m_out m e)) (\<lambda>m e. ed_outPort (m_out m e))
               child (length es) revert_output) es (-1, -1, m)) (\<lambda>(startInd, endInd, m).
      bindE (ie_assert (startInd \<ge> 0 \<and> endInd > startInd \<and> startInd \<le> int (length es))) (\<lambda>_.
      let es = erase_range startInd endInd es
      in Inr (renumber_outputs es (upd_ms parent (\<lambda>s. s\<lparr>ms_outputEdges := es\<rparr>) m)))))"

definition revert_temps :: "nat \<Rightarrow> nat \<Rightarrow> Model \<Rightarrow> Model result" where
  "revert_temps parent child m =
     (let es = ms_tempBufferEdges (m_stage m parent) in
      bindE (foldE (revert_scan (\<lambda>m e. ed_tempChild (m_temp m e)) (\<lambda>m e. ed_stage (m_temp m e)) (\<lambda>m e. ed_tempPort (m_temp m e))
               child (length es) revert_temp) es (-1, -1, m)) (\<lambda>(startInd, endInd, m).
      if startInd \<ge> 0 then
        bindE (ie_assert (endInd > startInd \<and> startInd \<le> int (length es))) (\<lambda>_.
        let es = erase_range startInd endInd es
        in Inr (renumber_temps es (upd_ms parent (\<lambda>s. s\<lparr>ms_tempBufferEdges := es\<rparr>) m)))
      else Inr m))"

definition revertInjection :: "nat \<Rightarrow> Model \<Rightarrow> Model result" where
  "revertInjection edge m =
     (let parentStage = ed_parentStage (m_stageEdge m edge); childStage = ed_childStage (m_stageEdge m edge) in
      bindE (ie_assert (edge \<in> set (m_stageEdgeList m))) (\<lambda>_.
      bindE (ie_assert (ms_model (m_stage m parentStage))) (\<lambda>_.
      bindE (ie_assert (ms_model (m_stage m childStage))) (\<lambda>_.
      bindE (ie_assert (ms_parentStageEdge (m_stage m childStage) = Some edge)) (\<lambda>_.
      let m = m\<lparr>m_resetStageOrder := True, m_stageList := m_stageList m @ [childStage]\<rparr> in
      bindE (erase_from edge (ms_injectedStageEdges (m_stage m parentStage))) (\<lambda>es.
      let m = upd_ms parentStage (\<lambda>s. s\<lparr>ms_injectedStageEdges := es\<rparr>) m;
          m = upd_ms childStage (\<lambda>s. s\<lparr>ms_parentStageEdge := None\<rparr>) m in
      bindE (revert_inputs parentStage childStage m) (\<lambda>m.
      bindE (revert_outputs parentStage childStage m) (\<lambda>m.
      bindE (revert_temps parentStage childStage m) (\<lambda>m.
      let m = update_initial childStage (update_initial parentStage m) in
      bindE (erase_from edge (m_stageEdgeList m)) (\<lambda>es. Inr (m\<lparr>m_stageEdgeList := es\<rparr>)))))))))))"

section \<open>The helper object\<close>

text \<open>
  \<open>InjectStageHelper\<close> resets its handle to the model only after the injection succeeded, so an
  exception of \<open>injectStageImpl\<close> ends in the destructor.
\<close>

record InjectStageHelper =
  ih_model :: bool
  ih_parent :: "nat option"
  ih_child :: "nat option"

definition mk_InjectStageHelper :: InjectStageHelper where
  "mk_InjectStageHelper = \<lparr>ih_model = True, ih_parent = None, ih_child = None\<rparr>"

definition parentHW :: "Model \<Rightarrow> nat \<Rightarrow> InjectStageHelper \<Rightarrow> InjectStageHelper result" where
  "parentHW m parent h =
     bindE (ie_assert (ih_model h)) (\<lambda>_. bindE (ie_assert (ih_parent h = None)) (\<lambda>_.
     bindE (ie_assert (ms_model (m_stage m parent))) (\<lambda>_.
     bindE (ie_assert (ms_category (m_stage m parent) = SC_HW)) (\<lambda>_. Inr (h\<lparr>ih_parent := Some parent\<rparr>)))))"

definition childSW :: "Model \<Rightarrow> nat \<Rightarrow> InjectStageHelper \<Rightarrow> InjectStageHelper result" where
  "childSW m child h =
     bindE (ie_assert (ih_model h)) (\<lambda>_. bindE (ie_assert (ih_child h = None)) (\<lambda>_.
     bindE (ie_assert (ms_model (m_stage m child))) (\<lambda>_.
     bindE (ie_assert (ms_category (m_stage m child) = SC_DMA \<or> ms_category (m_stage m child) = SC_SHAVE)) (\<lambda>_.
     Inr (h\<lparr>ih_child := Some child\<rparr>)))))"

definition inject_done :: "InjectStageHelper \<Rightarrow> Model \<Rightarrow> (nat \<times> Model) result \<times> InjectStageHelper" where
  "inject_done h m =
     (case (ih_parent h, ih_child h) of
        (Some p, Some c) \<Rightarrow>
          if ih_model h then
            (case injectStageImpl p c m of Inl e \<Rightarrow> (Inl e, h) | Inr r \<Rightarrow> (Inr r, h\<lparr>ih_model := False\<rparr>))
          else (Inl AssertFailed, h)
      | _ \<Rightarrow> (Inl AssertFailed, h))"

definition injectStage :: "nat \<Rightarrow> nat \<Rightarrow> Model \<Rightarrow> (nat \<times> Model) completion" where
  "injectStage parent child m =
     (case bindE (parentHW m parent mk_InjectStageHelper) (childSW m child) of
        Inl e \<Rightarrow> Terminated
      | Inr h \<Rightarrow>
          let (r, h) = inject_done h m in
          if ih_model h then Terminated else case r of Inl e \<Rightarrow> Raised e | Inr x \<Rightarrow> Completed x)"

section \<open>Properties\<close>

text \<open>
  How the two helper objects fail: a chain of \<open>connectDatas\<close> calls on data of the model passes
  an error of \<open>connectDatasImpl\<close> on as an exception, which a caller may catch, but a chain of
  \<open>injectStage\<close> calls never throws: every error of it, a failed check of \<open>injectStageImpl\<close> included,
  ends the process in the destructor.
\<close>

theorem helpers_on_error:
  assumes "p \<in> set (m_dataList m)" and "c \<in> set (m_dataList m)"
  shows "connectDatas [SetParent p, SetChild c, SetMode mode, SetOrder order, SetOffset offset] m =
      (case connectDatasImpl p c mode order offset m of Inl e \<Rightarrow> Raised e | Inr r \<Rightarrow> Completed r) \<and>
    injectStage parent child m =
      (if ms_model (m_stage m parent) \<and> ms_category (m_stage m parent) = SC_HW \<and> ms_model (m_stage m child) \<and>
          (ms_category (m_stage m child) = SC_DMA \<or> ms_category (m_stage m child) = SC_SHAVE)
       then case injectStageImpl parent child m of Inl e \<Rightarrow> Terminated | Inr r \<Rightarrow> Completed r
       else Terminated)"
proof
  show "connectDatas [SetParent p, SetChild c, SetMode mode, SetOrder order, SetOffset offset] m =
      (case connectDatasImpl p c mode order offset m of Inl e \<Rightarrow> Raised e | Inr r \<Rightarrow> Completed r)"
    using assms by (simp add: connectDatas_def mk_DataEdgeHelper_def data_edge_done_def)
  show "injectStage parent child m =
      (if ms_model (m_stage m parent) \<and> ms_category (m_stage m parent) = SC_HW \<and> ms_model (m_stage m child) \<and>
          (ms_category (m_stage m child) = SC_DMA \<or> ms_category (m_stage m child) = SC_SHAVE)
       then case injectStageImpl parent child m of Inl e \<Rightarrow> Terminated | Inr r \<Rightarrow> Completed r
       else Terminated)"
    by (auto simp: injectStage_def parentHW_def childSW_def mk_InjectStageHelper_def inject_done_def bindE_def
        ie_assert_def split: sum.split)
qed

theorem helpers_on_error_witness:
  "connectDatas [SetParent 0, SetChild 1, SetMode ROI, SetOrder ChildWritesToParent, SetOffset dv_empty] ex_concat =
     Raised AssertFailed \<and> injectStage 9 9 ex_concat = Terminated"
proof -
  have "find_connection 1 0 ex_concat = Inl AssertFailed"
    by (simp add: ex_concat_def mk_ModelData_def mk_Model_def mk_ModelStage_def find_connection_def)
  then have "connectDatasImpl 0 1 ROI ChildWritesToParent dv_empty ex_concat = Inl AssertFailed"
    by (simp add: connectDatasImpl_def throw_unless_def ex_concat_facts)
  with helpers_on_error [of 0 ex_concat 1 ROI ChildWritesToParent dv_empty 9 9] show ?thesis
    by (simp add: ex_concat_facts)
qed

end
