(* ===== verification/VpuAllocInv.thy ===== *)
theory VpuAllocInv
  imports VpuAllocator
begin

text \<open>
  The allocator's invariant: every placed data node owns one live chunk of its pool, at the
  node's location and offset and large enough for it, and no chunk is left without an owner.
  Every operation of the allocator keeps it.
\<close>

section \<open>Invariant\<close>

definition placed :: "Graph \<Rightarrow> nat \<Rightarrow> MemChunk \<Rightarrow> bool" where
  "placed g d c \<longleftrightarrow> dn_parentDataEdge (g_data g d) = None \<and>
     dn_usage (g_data g d) \<in> {DU_Intermediate, DU_Temp} \<and>
     dn_location (g_data g d) = (if mc_memType c = CMX then Loc_CMX else Loc_BSS) \<and>
     dn_memoryOffset (g_data g d) = mc_pointer c \<and> 0 < mc_inUse c \<and>
     (\<exists>n. totalByteSize g d = Inr n \<and> n \<le> mc_size c)"

definition alloc_core :: "int \<Rightarrow> int \<Rightarrow> Pools \<Rightarrow> nat list \<Rightarrow> (nat \<rightharpoonup> nat) \<Rightarrow> Graph \<Rightarrow> bool" where
  "alloc_core L k ps interm chunks g \<longleftrightarrow> graph_ok g \<and> pools_ok L k ps \<and> dom chunks = set interm \<and>
     inj_on chunks (dom chunks) \<and>
     (\<forall>d cid. chunks d = Some cid \<longrightarrow> (\<exists>c. find_chunk ps cid = Some c \<and> placed g d c)) \<and>
     dom (find_chunk ps) \<subseteq> ran chunks"

definition alloc_inv :: "World \<Rightarrow> bool" where
  "alloc_inv w \<longleftrightarrow> alloc_core (al_maxCmxSize (fst w)) (al_lockedSHAVEs (fst w)) (al_pools (fst w))
     (al_allocatedIntermData (fst w)) (al_memChunksPerData (fst w)) (snd w)"

lemma placed_same:
  "placed g d c \<Longrightarrow> same_structure g g' \<Longrightarrow> dn_location (g_data g' d) = dn_location (g_data g d) \<Longrightarrow>
    dn_memoryOffset (g_data g' d) = dn_memoryOffset (g_data g d) \<Longrightarrow> placed g' d c"
  by (simp add: placed_def same_structure_fields same_structure_size)

definition same_place :: "Graph \<Rightarrow> Graph \<Rightarrow> nat \<Rightarrow> bool" where
  "same_place g g' d \<longleftrightarrow> dn_location (g_data g' d) = dn_location (g_data g d) \<and>
     dn_memoryOffset (g_data g' d) = dn_memoryOffset (g_data g d)"

lemma same_place_refl [simp]: "same_place g g d"
  by (simp add: same_place_def)

lemma same_place_trans: "same_place g g' d \<Longrightarrow> same_place g' g'' d \<Longrightarrow> same_place g g'' d"
  by (simp add: same_place_def)

lemma alloc_core_graph:
  "alloc_core L k ps interm chunks g \<Longrightarrow> same_structure g g' \<Longrightarrow> \<forall>d \<in> set interm. same_place g g' d \<Longrightarrow>
    alloc_core L k ps interm chunks g'"
  unfolding alloc_core_def same_place_def by (blast intro: graph_ok_same placed_same)

lemma alloc_core_D:
  assumes "alloc_core L k ps interm chunks g" "d \<in> set interm"
  obtains cid c where "chunks d = Some cid" "find_chunk ps cid = Some c" "placed g d c"
  using assms unfolding alloc_core_def by (metis domD)

section \<open>Children\<close>

text \<open>Placing the children of a node changes only nodes that have a parent.\<close>

lemma update_children_Inr:
  "update_children n lim es g = Inr g' \<Longrightarrow> graph_ok g \<Longrightarrow>
    \<forall>e \<in> set es. dn_parentDataEdge (g_data g (sa_child e)) = Some e \<Longrightarrow>
    same_structure g g' \<and> (\<forall>d. dn_parentDataEdge (g_data g d) = None \<longrightarrow> same_place g g' d)"
proof (induction n lim es g arbitrary: g' rule: update_children.induct)
  case (3 n lim e es g)
  from "3.prems"(1) obtain off g1 g2 where
    off: "child_offset e lim g = Inr off" and
    g1: "setAllocationInfo (sa_child e) (dn_location (g_data g (sa_parent e))) off g = Inr g1" and
    g2: "update_children n lim (dn_childDataEdges (g_data g1 (sa_child e))) g1 = Inr g2" and
    g': "update_children (Suc n) lim es g2 = Inr g'" by auto
  note s1 = setAllocationInfo_Inr [OF g1]
  then have ok1: "graph_ok g1" using "3.prems"(2) graph_ok_same by blast
  then have "\<forall>e' \<in> set (dn_childDataEdges (g_data g1 (sa_child e))). dn_parentDataEdge (g_data g1 (sa_child e')) = Some e'"
    by (simp add: graph_ok_def)
  note s2 = "3.IH"(1) [OF g2 ok1 this]
  then have ok2: "graph_ok g2" using ok1 graph_ok_same by blast
  have ss: "same_structure g g2" using s1 s2 same_structure_trans by blast
  then have "\<forall>e \<in> set es. dn_parentDataEdge (g_data g2 (sa_child e)) = Some e"
    using "3.prems"(3) by (simp add: same_structure_fields)
  note s3 = "3.IH"(2) [OF g' ok2 this]
  have "same_place g g' d" if d: "dn_parentDataEdge (g_data g d) = None" for d
  proof -
    have "d \<noteq> sa_child e" using d "3.prems"(3) by auto
    then have "same_place g g1 d" using s1 by (simp add: same_place_def)
    moreover have "same_place g1 g2 d" using s2 s1 d same_structure_fields(4) by metis
    moreover have "same_place g2 g' d" using s3 ss d same_structure_fields(4) by metis
    ultimately show ?thesis by (meson same_place_trans)
  qed
  with ss s3 show ?case by (meson same_structure_trans)
qed auto

lemma updateChild_Inr:
  assumes "updateChildDataAllocation d lim g = Inr g'" "graph_ok g"
  shows "same_structure g g' \<and> (\<forall>d. dn_parentDataEdge (g_data g d) = None \<longrightarrow> same_place g g' d)"
  using update_children_Inr [OF assms(1) [unfolded updateChildDataAllocation_def] assms(2)] assms(2)
  by (auto simp: graph_ok_def)

lemma core_updateChild:
  assumes "alloc_core L k ps interm chunks g" "updateChildDataAllocation d lim g = Inr g'"
  shows "alloc_core L k ps interm chunks g'"
proof (rule alloc_core_graph [OF assms(1)])
  have ok: "graph_ok g" using assms(1) by (simp add: alloc_core_def)
  show "same_structure g g'" using updateChild_Inr [OF assms(2) ok] by blast
  show "\<forall>d \<in> set interm. same_place g g' d"
    using updateChild_Inr [OF assms(2) ok] alloc_core_D [OF assms(1)] by (metis placed_def)
qed

text \<open>Giving a place to a node the pools do not hold.\<close>

lemma core_other_node:
  assumes "alloc_core L k ps interm chunks g" "d \<notin> set interm"
    and "setAllocationInfo d loc off g = Inr g' \<or> setIOInfo d loc off g = Inr g'"
  shows "alloc_core L k ps interm chunks g'"
proof (rule alloc_core_graph [OF assms(1)])
  have *: "same_structure g g' \<and> (\<forall>d'. d' \<noteq> d \<longrightarrow> g_data g' d' = g_data g d')"
    using assms(3) setAllocationInfo_Inr setIOInfo_Inr by blast
  then show "same_structure g g'" by blast
  show "\<forall>d \<in> set interm. same_place g g' d" using * assms(2) by (metis same_place_def)
qed

lemma core_not_interm:
  "alloc_core L k ps interm chunks g \<Longrightarrow> dn_usage (g_data g d) \<notin> {DU_Intermediate, DU_Temp} \<Longrightarrow> d \<notin> set interm"
  using alloc_core_D [of L k ps interm chunks g d] by (metis placed_def)

section \<open>Allocation\<close>

lemma allocateFake_inv:
  assumes "alloc_inv w" "allocateFake d w = Inr (b, w')"
  shows "alloc_inv w' \<and> same_structure (snd w) (snd w')"
proof -
  obtain a g where w: "w = (a, g)" by force
  have "graph_ok g" using assms(1) by (simp add: w alloc_inv_def alloc_core_def)
  then show ?thesis
    using assms updateChild_Inr unfolding w allocateFake_def alloc_inv_def
    by (auto split: if_splits intro: core_updateChild)
qed

lemma io_core:
  assumes "alloc_core L k ps interm chunks g" "dn_usage (g_data g d) \<in> {DU_Input, DU_Output, DU_Const}"
    and "setAllocationInfo d loc off g = Inr g1 \<or> setIOInfo d loc off g = Inr g1"
    and "updateChildDataAllocation d lim g1 = Inr g2"
  shows "alloc_core L k ps interm chunks g2 \<and> same_structure g g2"
proof -
  have "same_structure g g1" using assms(3) setAllocationInfo_Inr setIOInfo_Inr by blast
  moreover from this assms(1) have "graph_ok g1" using graph_ok_same by (auto simp: alloc_core_def)
  ultimately have "same_structure g g2" using updateChild_Inr [OF assms(4)] same_structure_trans by blast
  moreover have "d \<notin> set interm" by (rule core_not_interm [OF assms(1)]) (use assms(2) in auto)
  from core_updateChild [OF core_other_node [OF assms(1) this assms(3)] assms(4)]
  have "alloc_core L k ps interm chunks g2" .
  ultimately show ?thesis by blast
qed

lemma allocateInput_inv:
  assumes "alloc_inv w" "allocateInput d w = Inr (b, w')" "dn_usage (g_data (snd w) d) = DU_Input"
  shows "alloc_inv w' \<and> same_structure (snd w) (snd w')"
proof -
  obtain a g where w: "w = (a, g)" by force
  show ?thesis
  proof (cases "d \<in> set (al_allocatedData a)")
    case True
    with assms show ?thesis by (auto simp: w allocateInput_def Let_def)
  next
    case False
    with assms(2) obtain off g1 g2 where "setIOInfo d Loc_Input off g = Inr g1"
        "updateChildDataAllocation d DDR_MAX_SIZE g1 = Inr g2" "snd w' = g2"
        "al_maxCmxSize (fst w') = al_maxCmxSize a" "al_lockedSHAVEs (fst w') = al_lockedSHAVEs a"
        "al_pools (fst w') = al_pools a" "al_allocatedIntermData (fst w') = al_allocatedIntermData a"
        "al_memChunksPerData (fst w') = al_memChunksPerData a"
      by (auto simp: w allocateInput_def Let_def)
    with assms(1,3) show ?thesis by (auto simp: w alloc_inv_def dest: io_core)
  qed
qed

lemma allocateOutput_inv:
  assumes "alloc_inv w" "allocateOutput d w = Inr (b, w')" "dn_usage (g_data (snd w) d) = DU_Output"
  shows "alloc_inv w' \<and> same_structure (snd w) (snd w')"
proof -
  obtain a g where w: "w = (a, g)" by force
  show ?thesis
  proof (cases "d \<in> set (al_allocatedData a)")
    case True
    with assms show ?thesis by (auto simp: w allocateOutput_def Let_def)
  next
    case False
    with assms(2) obtain off g1 g2 where "setIOInfo d Loc_Output off g = Inr g1"
        "updateChildDataAllocation d DDR_MAX_SIZE g1 = Inr g2" "snd w' = g2"
        "al_maxCmxSize (fst w') = al_maxCmxSize a" "al_lockedSHAVEs (fst w') = al_lockedSHAVEs a"
        "al_pools (fst w') = al_pools a" "al_allocatedIntermData (fst w') = al_allocatedIntermData a"
        "al_memChunksPerData (fst w') = al_memChunksPerData a"
      by (auto simp: w allocateOutput_def Let_def)
    with assms(1,3) show ?thesis by (auto simp: w alloc_inv_def dest: io_core)
  qed
qed

lemma allocateConst_inv:
  assumes "alloc_inv w" "allocateConst d w = Inr (b, w')" "dn_usage (g_data (snd w) d) = DU_Const"
  shows "alloc_inv w' \<and> same_structure (snd w) (snd w')"
proof -
  obtain a g where w: "w = (a, g)" by force
  show ?thesis
  proof (cases "d \<in> set (al_allocatedData a)")
    case True
    with assms show ?thesis by (auto simp: w allocateConst_def Let_def)
  next
    case False
    with assms(2) obtain off g1 g2 where "setAllocationInfo d Loc_Blob off g = Inr g1"
        "updateChildDataAllocation d DDR_MAX_SIZE g1 = Inr g2" "snd w' = g2"
        "al_maxCmxSize (fst w') = al_maxCmxSize a" "al_lockedSHAVEs (fst w') = al_lockedSHAVEs a"
        "al_pools (fst w') = al_pools a" "al_allocatedIntermData (fst w') = al_allocatedIntermData a"
        "al_memChunksPerData (fst w') = al_memChunksPerData a"
      by (auto simp: w allocateConst_def Let_def)
    with assms(1,3) show ?thesis by (auto simp: w alloc_inv_def dest: io_core)
  qed
qed

lemma calcAllocationSize_Inr:
  assumes "graph_ok g" "calcAllocationSize g d = Inr m"
  shows "0 < m \<and> (\<exists>n. totalByteSize g d = Inr n \<and> n \<le> m)"
proof -
  obtain n where n: "totalByteSize g d = Inr n" "alignVal n (2 ^ 6) = Inr m"
    using assms(2) by (auto simp: calcAllocationSize_def DATA_ALIGNMENT_def)
  then show ?thesis
    using alignVal_up [OF n(2)] totalByteSize_pos [OF assms(1) n(1)] by (auto simp: is_aligned_up_def)
qed

text \<open>A new chunk and its owner join the pools.\<close>

lemma core_new_chunk:
  assumes core: "alloc_core L k ps interm chunks g" and d: "d \<notin> set interm"
    and ps': "pools_ok L k ps'" "find_chunk ps cid = None" "find_chunk ps' = (find_chunk ps)(cid \<mapsto> c)"
    and g': "same_structure g g'" "\<forall>d' \<in> set interm. same_place g g' d'" "placed g' d c"
    and ds: "set interm' = insert d (set interm)"
  shows "alloc_core L k ps' interm' (chunks(d \<mapsto> cid)) g'"
proof -
  have c: "dom chunks = set interm" "inj_on chunks (dom chunks)" "dom (find_chunk ps) \<subseteq> ran chunks"
    "\<And>d' i. chunks d' = Some i \<Longrightarrow> \<exists>c. find_chunk ps i = Some c \<and> placed g d' c"
    using core by (auto simp: alloc_core_def)
  have fresh: "chunks d' \<noteq> Some cid" for d' using c(4) [of d' cid] ps'(2) by auto
  have none: "chunks d = None" using c(1) d by auto
  have "inj_on (chunks(d \<mapsto> cid)) (insert d (dom chunks))"
    using c(2) fresh none unfolding inj_on_def by (metis domIff fun_upd_apply insert_iff option.sel option.collapse)
  moreover have "\<exists>c'. find_chunk ps' i = Some c' \<and> placed g' d' c'" if "(chunks(d \<mapsto> cid)) d' = Some i" for d' i
  proof (cases "d' = d")
    case True
    with that ps'(3) g'(3) show ?thesis by auto
  next
    case False
    with that have i: "chunks d' = Some i" by simp
    then obtain c' where "find_chunk ps i = Some c'" "placed g d' c'" using c(4) by blast
    moreover have "d' \<in> set interm" using i c(1) by auto
    ultimately show ?thesis
      using g'(1,2) i fresh [of d'] ps'(3) placed_same by (auto simp: same_place_def)
  qed
  moreover have "dom (find_chunk ps') \<subseteq> ran (chunks(d \<mapsto> cid))"
    using c(3) none ps'(3) by (auto simp: ran_map_upd)
  ultimately show ?thesis
    using core ps'(1) g'(1) ds c(1) by (auto simp: alloc_core_def graph_ok_same)
qed

lemma mem_type_location: "(if t = CMX then Loc_CMX else Loc_BSS) = Loc_CMX \<longleftrightarrow> t = CMX"
  by simp

text \<open>
  \<open>allocateMem\<close> seen through the pools interface: nothing changes, or one fresh chunk of the
  requested size appears.
\<close>

lemma allocateMem_result:
  assumes "pools_ok L k ps" "0 < sz" "allocateMem L k mt sz n ps = Inr (r, ps')"
  shows "(r = None \<and> ps' = ps) \<or> (\<exists>cid c. r = Some cid \<and> pools_ok L k ps' \<and> find_chunk ps cid = None \<and>
    find_chunk ps' = (find_chunk ps)(cid \<mapsto> c) \<and> mc_memType c = mt \<and> mc_size c = sz \<and> mc_inUse c = n)"
  using pools.alloc_law [OF assms(1,2), of mt n] assms(3) by auto

lemma setAllocationInfo_place:
  assumes "setAllocationInfo d (if mt = CMX then Loc_CMX else Loc_BSS) off g = Inr g1"
    and "updateChildDataAllocation d lim g1 = Inr g2" "graph_ok g" "dn_parentDataEdge (g_data g d) = None"
  shows "same_structure g g2 \<and> (\<forall>d'. d' \<noteq> d \<and> dn_parentDataEdge (g_data g d') = None \<longrightarrow> same_place g g2 d') \<and>
    dn_location (g_data g2 d) = (if mt = CMX then Loc_CMX else Loc_BSS) \<and> dn_memoryOffset (g_data g2 d) = off \<and>
    dn_usage (g_data g d) \<in> {DU_Const, DU_Intermediate, DU_Temp}"
proof -
  note s1 = setAllocationInfo_Inr [OF assms(1)]
  then have ok1: "graph_ok g1" using assms(3) graph_ok_same by blast
  note s2 = updateChild_Inr [OF assms(2) ok1]
  have par: "dn_parentDataEdge (g_data g1 d') = dn_parentDataEdge (g_data g d')" for d'
    using s1 same_structure_fields(4) by blast
  have "same_place g1 g2 d" using s2 par assms(4) by simp
  moreover have "same_place g g2 d'" if "d' \<noteq> d" "dn_parentDataEdge (g_data g d') = None" for d'
  proof -
    have "same_place g g1 d'" using s1 that by (simp add: same_place_def)
    moreover have "same_place g1 g2 d'" using s2 par that by simp
    ultimately show ?thesis by (rule same_place_trans)
  qed
  moreover have "dn_usage (g_data g d) \<in> {DU_Const, DU_Intermediate, DU_Temp}"
    using assms(1) by (auto simp: setAllocationInfo_def Let_def)
  ultimately show ?thesis
    using s1 s2 by (auto simp: same_place_def intro: same_structure_trans)
qed

lemma alloc_core_parent: "alloc_core L k ps interm chunks g \<Longrightarrow> d \<in> set interm \<Longrightarrow> dn_parentDataEdge (g_data g d) = None"
  using alloc_core_D by (metis placed_def)

lemma allocateOwn_inv:
  assumes inv: "alloc_inv w" and r: "allocateOwn d w = Inr (b, w')"
    and d: "dn_parentDataEdge (g_data (snd w) d) = None" "dn_usage (g_data (snd w) d) \<in> {DU_Intermediate, DU_Temp}"
  shows "alloc_inv w' \<and> (b \<longrightarrow> d \<in> set (al_allocatedIntermData (fst w'))) \<and> same_structure (snd w) (snd w')"
proof -
  obtain a g where w: "w = (a, g)" by force
  let ?L = "al_maxCmxSize a" and ?k = "al_lockedSHAVEs a" and ?ps = "al_pools a" and ?mt = "dn_memReqs (g_data g d)"
  have core: "alloc_core ?L ?k ?ps (al_allocatedIntermData a) (al_memChunksPerData a) g"
    using inv by (simp add: w alloc_inv_def)
  then have ok: "graph_ok g" "pools_ok ?L ?k ?ps" by (auto simp: alloc_core_def)
  show ?thesis
  proof (cases "d \<in> set (al_allocatedIntermData a)")
    case True
    with r inv show ?thesis by (auto simp: w allocateOwn_def Let_def split: option.splits)
  next
    case False
    from r False obtain sz n res ps' where
      sz: "calcAllocationSize g d = Inr sz" and n: "n \<ge> 1" and
      m: "allocateMem ?L ?k ?mt sz n ?ps = Inr (res, ps')" and
      cont: "(case res of
          None \<Rightarrow> Inr (False, (a\<lparr>al_pools := ps'\<rparr>, g))
        | Some cid \<Rightarrow>
            let c = the (find_chunk ps' cid) in
            bindE (setAllocationInfo d (if mc_memType c = CMX then Loc_CMX else Loc_BSS) (mc_pointer c) g) (\<lambda>g.
            let offsetLimitation = (if dn_location (g_data g d) = Loc_CMX then al_maxCmxSize a else DDR_MAX_SIZE) in
            bindE (updateChildDataAllocation d offsetLimitation g) (\<lambda>g.
            Inr (mc_memType c = ?mt,
              (a\<lparr>al_pools := ps',
                al_memChunksPerData := (case al_memChunksPerData a d of
                   None \<Rightarrow> (al_memChunksPerData a)(d \<mapsto> cid) | Some _ \<Rightarrow> al_memChunksPerData a),
                al_allocatedIntermData := set_insert d (al_allocatedIntermData a)\<rparr>, g))))) = Inr (b, w')"
      by (auto simp: w allocateOwn_def Let_def)
    note s = calcAllocationSize_Inr [OF ok(1) sz]
    from allocateMem_result [OF ok(2) _ m] s
    consider "res = None" "ps' = ?ps"
      | cid c where "res = Some cid" "pools_ok ?L ?k ps'" "find_chunk ?ps cid = None"
        "find_chunk ps' = (find_chunk ?ps)(cid \<mapsto> c)" "mc_memType c = ?mt" "mc_size c = sz" "mc_inUse c = n" by blast
    then show ?thesis
    proof cases
      case 1
      with cont inv show ?thesis by (auto simp: w alloc_inv_def)
    next
      case (2 cid c)
      have none: "al_memChunksPerData a d = None" using core False by (auto simp: alloc_core_def)
      from cont 2 none obtain lim g1 g2 where
        g1: "setAllocationInfo d (if mc_memType c = CMX then Loc_CMX else Loc_BSS) (mc_pointer c) g = Inr g1" and
        g2: "updateChildDataAllocation d lim g1 = Inr g2" and
        w': "w' = (a\<lparr>al_pools := ps', al_memChunksPerData := (al_memChunksPerData a)(d \<mapsto> cid),
            al_allocatedIntermData := set_insert d (al_allocatedIntermData a)\<rparr>, g2)"
        by (auto simp: Let_def)
      have par: "dn_parentDataEdge (g_data g d) = None" using d by (simp add: w)
      note p = setAllocationInfo_place [OF g1 g2 ok(1) par]
      have "placed g2 d c"
        using p 2 d s n unfolding placed_def w
        by (auto simp: same_structure_fields same_structure_size)
      moreover have "\<forall>d' \<in> set (al_allocatedIntermData a). same_place g g2 d'"
        using p False alloc_core_parent [OF core] by metis
      ultimately have "alloc_core ?L ?k ps' (set_insert d (al_allocatedIntermData a))
          ((al_memChunksPerData a)(d \<mapsto> cid)) g2"
        using p by (intro core_new_chunk [OF core False 2(2,3,4)]) (auto simp: set_insert_def)
      with p show ?thesis by (auto simp: w w' alloc_inv_def set_insert_def)
    qed
  qed
qed

lemma allocate_data_inv:
  "alloc_inv w \<Longrightarrow> allocate_data n d w = Inr (b, w') \<Longrightarrow> alloc_inv w' \<and> same_structure (snd w) (snd w')"
proof (induction n arbitrary: d)
  case (Suc n)
  let ?node = "g_data (snd w) d"
  show ?case
  proof (cases "dn_usage ?node")
    case DU_Fake
    with Suc.prems allocateFake_inv show ?thesis by (auto simp: Let_def)
  next
    case DU_Input
    with Suc.prems allocateInput_inv show ?thesis by (auto simp: Let_def)
  next
    case DU_Output
    with Suc.prems allocateOutput_inv show ?thesis by (auto simp: Let_def)
  next
    case DU_Const
    with Suc.prems allocateConst_inv show ?thesis by (auto simp: Let_def)
  next
    case DU_Intermediate
    then show ?thesis
      using Suc allocateOwn_inv [OF Suc.prems(1), of d b w']
      by (cases "dn_parentDataEdge ?node") (auto simp: Let_def)
  next
    case DU_Temp
    then show ?thesis
      using Suc allocateOwn_inv [OF Suc.prems(1), of d b w']
      by (cases "dn_parentDataEdge ?node") (auto simp: Let_def)
  qed
qed simp

lemma allocateData_inv:
  "alloc_inv w \<Longrightarrow> allocateData d w = Inr (b, w') \<Longrightarrow> alloc_inv w' \<and> same_structure (snd w) (snd w')"
  unfolding allocateData_def by (rule allocate_data_inv)

section \<open>Release\<close>

text \<open>A released chunk and its owner leave the pools.\<close>

lemma core_drop_chunk:
  assumes core: "alloc_core L k ps interm chunks g" and d: "chunks d = Some cid"
    and ps': "pools_ok L k ps'" "find_chunk ps' = (find_chunk ps)(cid := None)"
    and ds: "set interm' = set interm - {d}"
  shows "alloc_core L k ps' interm' (chunks(d := None)) g"
proof -
  have c: "dom chunks = set interm" "inj_on chunks (dom chunks)" "dom (find_chunk ps) \<subseteq> ran chunks"
    "\<And>d' i. chunks d' = Some i \<Longrightarrow> \<exists>c. find_chunk ps i = Some c \<and> placed g d' c"
    using core by (auto simp: alloc_core_def)
  have other: "d' \<noteq> d \<Longrightarrow> chunks d' \<noteq> Some cid" for d'
    using c(2) d by (metis domI inj_onD)
  have "dom (find_chunk ps') \<subseteq> ran (chunks(d := None))"
  proof
    fix i assume "i \<in> dom (find_chunk ps')"
    then have i: "i \<noteq> cid" "i \<in> dom (find_chunk ps)" using ps'(2) by (auto split: if_splits)
    then obtain d' where "chunks d' = Some i" using c(3) by (auto simp: ran_def)
    moreover from this have "d' \<noteq> d" using i(1) d by auto
    ultimately show "i \<in> ran (chunks(d := None))" by (auto simp: ran_def)
  qed
  moreover have "\<exists>c. find_chunk ps' i = Some c \<and> placed g d' c" if "(chunks(d := None)) d' = Some i" for d' i
    using that c(4) [of d' i] other [of d'] ps'(2) by (auto split: if_splits)
  moreover have "inj_on (chunks(d := None)) (dom (chunks(d := None)))"
    using c(2) by (auto simp: inj_on_def)
  ultimately show ?thesis using core ps'(1) ds c(1) by (auto simp: alloc_core_def)
qed

lemma core_inUse:
  assumes core: "alloc_core L k ps interm chunks g" and c: "find_chunk ps cid = Some c" and n: "0 < n"
  shows "alloc_core L k (update_inUse cid n ps) interm chunks g"
proof -
  have ok: "pools_ok L k ps" using core by (simp add: alloc_core_def)
  note u = update_inUse_ok [OF ok c, of n]
  have p: "placed g d (e\<lparr>mc_inUse := n\<rparr>)" if "placed g d e" for d e
    using that n by (simp add: placed_def)
  have "\<exists>e. find_chunk (update_inUse cid n ps) i = Some e \<and> placed g d e" if "chunks d = Some i" for d i
  proof -
    have "\<exists>e. find_chunk ps i = Some e \<and> placed g d e" using that core by (auto simp: alloc_core_def)
    then show ?thesis using u c p by (cases "i = cid") auto
  qed
  moreover have "dom (find_chunk (update_inUse cid n ps)) = dom (find_chunk ps)" using u c by auto
  ultimately show ?thesis using core u by (auto simp: alloc_core_def)
qed

lemma freeJust_inv:
  assumes inv: "alloc_inv w" and d: "al_memChunksPerData (fst w) d = Some cid" "find_chunk (al_pools (fst w)) cid = Some c"
    and use: "0 < mc_inUse c"
  shows "\<exists>w'. freeJust d cid c w = Inr w' \<and> alloc_inv w' \<and> snd w' = snd w"
proof -
  obtain a g where w: "w = (a, g)" by force
  let ?L = "al_maxCmxSize a" and ?k = "al_lockedSHAVEs a" and ?ps = "al_pools a"
  have core: "alloc_core ?L ?k ?ps (al_allocatedIntermData a) (al_memChunksPerData a) g"
    using inv by (simp add: w alloc_inv_def)
  then have ok: "pools_ok ?L ?k ?ps" by (simp add: alloc_core_def)
  have c: "find_chunk ?ps cid = Some c" using d by (simp add: w)
  show ?thesis
  proof (cases "mc_inUse c = 1")
    case True
    note u = update_inUse_ok [OF ok c, of 0]
    then obtain ps' where ps': "freeMem cid (update_inUse cid 0 ?ps) = Inr ps'" "pools_ok ?L ?k ps'"
        "find_chunk ps' = (find_chunk (update_inUse cid 0 ?ps))(cid := None)"
      using pools.release_law [of ?L ?k "update_inUse cid 0 ?ps" cid] by auto
    have "find_chunk ps' = (find_chunk ?ps)(cid := None)" using ps'(3) u by auto
    from core_drop_chunk [OF core d(1) [unfolded w fst_conv] ps'(2) this,
        of "filter (\<lambda>x. x \<noteq> d) (al_allocatedIntermData a)"]
    have "alloc_core ?L ?k ps' (filter (\<lambda>x. x \<noteq> d) (al_allocatedIntermData a)) ((al_memChunksPerData a)(d := None)) g"
      by auto
    with True ps'(1) show ?thesis by (simp add: w freeJust_def alloc_inv_def)
  next
    case False
    with use core_inUse [OF core c, of "mc_inUse c - 1"] show ?thesis
      by (auto simp: w freeJust_def Let_def alloc_inv_def)
  qed
qed

lemma freeMove_inv:
  assumes inv: "alloc_inv w" and d: "al_memChunksPerData (fst w) d = Some cid" "find_chunk (al_pools (fst w)) cid = Some c"
    and r: "freeMove d cid c w = Inr w'"
  shows "alloc_inv w' \<and> same_structure (snd w) (snd w') \<and> dn_location (g_data (snd w') d) = Loc_BSS"
proof -
  obtain a g where w: "w = (a, g)" by force
  let ?L = "al_maxCmxSize a" and ?k = "al_lockedSHAVEs a" and ?ps = "al_pools a" and ?in = "al_allocatedIntermData a"
  have core: "alloc_core ?L ?k ?ps ?in (al_memChunksPerData a) g"
    using inv by (simp add: w alloc_inv_def)
  then have ok: "pools_ok ?L ?k ?ps" "graph_ok g" by (simp_all add: alloc_core_def)
  have d': "al_memChunksPerData a d = Some cid" "find_chunk ?ps cid = Some c" using d by (simp_all add: w)
  from pools.move_ok [OF ok(1) d'(2), of DDR]
  obtain ps1 res ps2 where f: "freeMem cid ?ps = Inr ps1" and
    m: "allocateMem ?L ?k DDR (mc_size c) (mc_inUse c) ps1 = Inr (res, ps2)" by blast
  obtain ps1' where "freeMem cid ?ps = Inr ps1'" "pools_ok ?L ?k ps1'" "find_chunk ps1' = (find_chunk ?ps)(cid := None)"
    using pools.release_law [OF ok(1) d'(2)] by blast
  with f have ps1: "pools_ok ?L ?k ps1" "find_chunk ps1 = (find_chunk ?ps)(cid := None)" by simp_all
  have pos: "0 < mc_size c" by (rule pools.size_law [OF ok(1) d'(2)])
  from r f m obtain ddr lim g1 g2 where res: "res = Some ddr" and
    g1: "setAllocationInfo d Loc_BSS (mc_pointer (the (find_chunk ps2 ddr))) g = Inr g1" and
    g2: "updateChildDataAllocation d lim g1 = Inr g2" and
    w': "w' = (a\<lparr>al_pools := ps2, al_memChunksPerData := (al_memChunksPerData a)(d \<mapsto> ddr)\<rparr>, g2)"
    by (auto simp: w freeMove_def Let_def split: option.splits)
  from allocateMem_result [OF ps1(1) pos m] res
  obtain e where e: "pools_ok ?L ?k ps2" "find_chunk ps1 ddr = None" "find_chunk ps2 = (find_chunk ps1)(ddr \<mapsto> e)"
      "mc_memType e = DDR" "mc_size e = mc_size c" "mc_inUse e = mc_inUse c" by auto
  let ?in' = "filter (\<lambda>x. x \<noteq> d) ?in"
  have drop: "alloc_core ?L ?k ps1 ?in' ((al_memChunksPerData a)(d := None)) g"
    by (rule core_drop_chunk [OF core d'(1) ps1]) auto
  have "\<exists>c. find_chunk ?ps cid = Some c \<and> placed g d c" using core d'(1) unfolding alloc_core_def by blast
  then have "placed g d c" using d'(2) by simp
  then have pc: "dn_parentDataEdge (g_data g d) = None" "dn_usage (g_data g d) \<in> {DU_Intermediate, DU_Temp}"
    "0 < mc_inUse c" "\<exists>n. totalByteSize g d = Inr n \<and> n \<le> mc_size c" by (simp_all add: placed_def)
  have g1': "setAllocationInfo d (if mc_memType e = CMX then Loc_CMX else Loc_BSS) (mc_pointer e) g = Inr g1"
    using g1 e by simp
  note p = setAllocationInfo_place [OF g1' g2 ok(2) pc(1)]
  have ss: "same_structure g g2" using p by blast
  have pe: "placed g2 d e"
    using p pc e unfolding placed_def by (auto simp: same_structure_fields same_structure_size)
  have others: "\<forall>d' \<in> set ?in'. same_place g g2 d'"
    using p alloc_core_parent [OF core] by auto
  have "d \<in> set ?in" using core d'(1) by (auto simp: alloc_core_def)
  then have ins: "set ?in = insert d (set ?in')" by auto
  have "d \<notin> set ?in'" by simp
  from core_new_chunk [OF drop this e(1,2,3) ss others pe ins]
  have "alloc_core ?L ?k ps2 ?in ((al_memChunksPerData a)(d \<mapsto> ddr)) g2" by simp
  moreover have "dn_location (g_data g2 d) = Loc_BSS" using p e(4) by simp
  ultimately show ?thesis using ss by (simp add: w w' alloc_inv_def)
qed

lemma top_parent_self: "dn_parentDataEdge (g_data g d) = None \<Longrightarrow> getTopParentData g d = Inr d"
  by (simp add: getTopParentData_def walk_fuel_def)

lemma freeData_just_inv:
  assumes "alloc_inv w" "freeData d JustFree w = Inr w'"
  shows "alloc_inv w' \<and> snd w' = snd w"
proof -
  obtain a g where w: "w = (a, g)" by force
  from assms(2) consider "w' = w" | top cid c where "al_memChunksPerData a top = Some cid"
      "find_chunk (al_pools a) cid = Some c" "0 < mc_inUse c" "freeJust top cid c w = Inr w'"
    by (auto simp: w freeData_def Let_def split: if_splits option.splits)
  then show ?thesis
  proof cases
    case 2
    with freeJust_inv [OF assms(1), of top cid c] show ?thesis by (auto simp: w)
  qed (use assms in simp)
qed

lemma freeData_move_inv:
  assumes "alloc_inv w" "freeData d MoveFromCMX w = Inr w'" "dn_parentDataEdge (g_data (snd w) d) = None"
  shows "alloc_inv w' \<and> same_structure (snd w) (snd w')"
proof -
  obtain a g where w: "w = (a, g)" by force
  have top: "getTopParentData g d = Inr d" using assms(3) by (simp add: w top_parent_self)
  from assms(2) top consider "w' = w" | cid c where "al_memChunksPerData a d = Some cid"
      "find_chunk (al_pools a) cid = Some c" "freeMove d cid c w = Inr w'"
    by (auto simp: w freeData_def Let_def split: if_splits option.splits)
  then show ?thesis
  proof cases
    case 2
    with freeMove_inv [OF assms(1), of d cid c w'] show ?thesis by (auto simp: w)
  qed (use assms in simp)
qed

section \<open>SHAVEs\<close>

text \<open>The invariant with the resources the allocator was reset to.\<close>

definition world_inv :: "World \<Rightarrow> bool" where
  "world_inv w \<longleftrightarrow> alloc_inv w \<and> al_maxCmxSize (fst w) = g_numCMXSlices (snd w) * CMX_SLICE_SIZE \<and>
     0 \<le> g_numSHAVEs (snd w)"

lemma setNumSHAVEs_Inr:
  assumes "setNumSHAVEs s n g = Inr g'"
  shows "g_data g' = g_data g \<and> same_structure g g'"
proof -
  have fold: "g_data (fold (\<lambda>c. upd_stage c f) cs h) = g_data h \<and> g_datas (fold (\<lambda>c. upd_stage c f) cs h) = g_datas h \<and>
      g_numCMXSlices (fold (\<lambda>c. upd_stage c f) cs h) = g_numCMXSlices h \<and>
      g_numSHAVEs (fold (\<lambda>c. upd_stage c f) cs h) = g_numSHAVEs h" for f cs h
    by (induction cs arbitrary: h) (simp_all add: upd_stage_def)
  show ?thesis
    using assms by (auto simp: setNumSHAVEs_def same_structure_def fold upd_stage_def)
qed

lemma used_slices_cover: "0 \<le> cur \<Longrightarrow> cur \<le> cpp_div (cur + CMX_SLICE_SIZE - 1) CMX_SLICE_SIZE * CMX_SLICE_SIZE"
  using round_up_bounds [of CMX_SLICE_SIZE cur] by (simp add: cpp_div_nonneg CMX_SLICE_SIZE_def)

lemma alloc_core_locked:
  "alloc_core L k ps interm chunks g \<Longrightarrow> 0 \<le> k' \<Longrightarrow> curMemOffset (cmxPool ps) + k' * CMX_SLICE_SIZE \<le> L \<Longrightarrow>
    alloc_core L k' ps interm chunks g"
  by (auto simp: alloc_core_def pools_ok_locked)

lemma allocateSHAVEs_inv:
  assumes inv: "world_inv w" and r: "allocateSHAVEs s reqs w = Inr (b, w')"
  shows "world_inv w' \<and> same_structure (snd w) (snd w') \<and> g_data (snd w') = g_data (snd w) \<and>
    (\<not> b \<longrightarrow> w' = w) \<and> (b \<and> reqs \<noteq> NotNeeded \<longrightarrow> 0 < al_lockedSHAVEs (fst w') \<and> al_lockedSHAVEs (fst w') \<le> g_numSHAVEs (snd w')) \<and>
    (b \<and> reqs = NeedMax \<longrightarrow> al_lockedSHAVEs (fst w') = g_numSHAVEs (snd w'))"
proof -
  obtain a g where w: "w = (a, g)" by force
  let ?cur = "curMemOffset (cmxPool (al_pools a))"
  let ?used = "cpp_div (?cur + CMX_SLICE_SIZE - 1) CMX_SLICE_SIZE"
  let ?avail = "min (g_numCMXSlices g - ?used) (g_numSHAVEs g)"
  have core: "alloc_core (al_maxCmxSize a) (al_lockedSHAVEs a) (al_pools a) (al_allocatedIntermData a) (al_memChunksPerData a) g"
    and L: "al_maxCmxSize a = g_numCMXSlices g * CMX_SLICE_SIZE" and n: "0 \<le> g_numSHAVEs g"
    using inv unfolding w world_inv_def alloc_inv_def fst_conv snd_conv by blast+
  have "pool_inv CMX (al_maxCmxSize a) (cmxPool (al_pools a))"
    using core by (auto simp: alloc_core_def pools_ok_def pool_limit_def dest: spec [of _ CMX])
  then have cur: "0 \<le> ?cur" by (simp add: pool_inv_def)
  from r consider "w' = w" "reqs = NotNeeded \<or> \<not> b"
    | k g1 where "b" "?used \<le> g_numCMXSlices g" "?avail \<noteq> 0" "reqs \<noteq> NotNeeded" "setNumSHAVEs s k g = Inr g1"
      "w' = (a\<lparr>al_lockedSHAVEs := k\<rparr>, g1)" "k = ?avail \<or> (k = 1 \<and> reqs \<noteq> NeedMax) \<or> (k = min ?avail 2 \<and> reqs \<noteq> NeedMax)"
      "reqs = NeedMax \<longrightarrow> \<not> ?avail < g_numSHAVEs g"
    by (auto simp: w allocateSHAVEs_def Let_def SHAVES_LIMITATION_FOR_HW_def split: if_splits)
  then show ?thesis
  proof cases
    case (2 k g1)
    then have avail: "0 < ?avail" using n by linarith
    then have k: "0 < k" "k \<le> ?avail" using 2(7) by auto
    then have "?used * CMX_SLICE_SIZE + k * CMX_SLICE_SIZE \<le> al_maxCmxSize a"
      unfolding L by (simp add: CMX_SLICE_SIZE_def)
    with used_slices_cover [OF cur] have "?cur + k * CMX_SLICE_SIZE \<le> al_maxCmxSize a" by linarith
    with alloc_core_locked [OF core _ this] k(1)
    have "alloc_core (al_maxCmxSize a) k (al_pools a) (al_allocatedIntermData a) (al_memChunksPerData a) g" by simp
    note s = setNumSHAVEs_Inr [OF 2(5)]
    moreover have "alloc_core (al_maxCmxSize a) k (al_pools a) (al_allocatedIntermData a) (al_memChunksPerData a) g1"
      using s by (intro alloc_core_graph [OF \<open>alloc_core (al_maxCmxSize a) k (al_pools a) (al_allocatedIntermData a) (al_memChunksPerData a) g\<close>])
        (auto simp: same_place_def)
    ultimately show ?thesis
      using 2 L n k same_structure_fields(8,9) [of g g1] by (auto simp: w world_inv_def alloc_inv_def)
  qed (use inv in auto)
qed

lemma freeSHAVEs_inv: "world_inv (a, g) \<Longrightarrow> world_inv (freeSHAVEs a, g)"
proof -
  assume inv: "world_inv (a, g)"
  then have core: "alloc_core (al_maxCmxSize a) (al_lockedSHAVEs a) (al_pools a) (al_allocatedIntermData a) (al_memChunksPerData a) g"
    unfolding world_inv_def alloc_inv_def fst_conv snd_conv by blast
  then have "pools_ok (al_maxCmxSize a) (al_lockedSHAVEs a) (al_pools a)" by (simp add: alloc_core_def)
  then have "curMemOffset (cmxPool (al_pools a)) \<le> al_maxCmxSize a"
    by (simp add: pools_ok_def CMX_SLICE_SIZE_def)
  with alloc_core_locked [OF core, of 0] inv show ?thesis
    by (simp add: world_inv_def alloc_inv_def freeSHAVEs_def)
qed

end
