(* ===== verification/VpuResources.thy ===== *)
theory VpuResources
  imports VpuAllocInv
begin

text \<open>
  The resource allocation pass (\<open>src/src/vpu/graph_transformer/src/passes/allocate_resources.cpp\<close>):
  \<open>runAllocator\<close> over the stages of a model and the pass around it, with the properties of the
  allocator as a whole: whatever sequence of operations is run, live data never overlap, and
  the self check finds exactly the leaks.
\<close>

section \<open>The pass\<close>

text \<open>The loops over the outputs and the temporary buffers of a stage; status \<open>OK\<close> means go on.\<close>

definition data_failed :: "nat \<Rightarrow> AllocationResult" where
  "data_failed s = \<lparr>ar_status = DATA_FAILED, ar_failedStage = Some s\<rparr>"

definition shaves_failed :: "nat \<Rightarrow> AllocationResult" where
  "shaves_failed s = \<lparr>ar_status = SHAVES_FAILED, ar_failedStage = Some s\<rparr>"

definition setNeedToAllocNonIntermData :: "World \<Rightarrow> World" where
  "setNeedToAllocNonIntermData w = ((fst w)\<lparr>al_needToAllocNonIntermData := True\<rparr>, snd w)"

fun alloc_outputs :: "bool \<Rightarrow> nat \<Rightarrow> nat list \<Rightarrow> World \<Rightarrow> (AllocationResult \<times> World) result" where
  "alloc_outputs onlyCheckCMX s [] w = Inr (resultOK, w)"
| "alloc_outputs onlyCheckCMX s (d # ds) w =
     (if onlyCheckCMX \<and> dn_memReqs (g_data (snd w) d) \<noteq> CMX then alloc_outputs onlyCheckCMX s ds w
      else bindE (allocateData d w) (\<lambda>(b, w).
        if b then alloc_outputs onlyCheckCMX s ds w
        else if dn_memReqs (g_data (snd w) d) = CMX \<and> \<not> onlyCheckCMX then
          bindE (removeCMXCandidates d w) (\<lambda>(removed, w).
            if removed then
              bindE (allocateData d w) (\<lambda>(b, w).
                if b then alloc_outputs onlyCheckCMX s ds w
                else Inr (data_failed s, setNeedToAllocNonIntermData w))
            else Inr (data_failed s, setNeedToAllocNonIntermData w))
        else Inr (data_failed s, w)))"

fun alloc_temps :: "nat \<Rightarrow> nat list \<Rightarrow> World \<Rightarrow> (AllocationResult \<times> World) result" where
  "alloc_temps s [] w = Inr (resultOK, w)"
| "alloc_temps s (d # ds) w =
     bindE (allocateData d w) (\<lambda>(b, w).
       if b then alloc_temps s ds w else Inr (data_failed s, setNeedToAllocNonIntermData w))"

fun free_inputs :: "bool \<Rightarrow> nat list \<Rightarrow> World \<Rightarrow> World result" where
  "free_inputs onlyCheckCMX [] w = Inr w"
| "free_inputs onlyCheckCMX (d # ds) w =
     (if onlyCheckCMX \<and> dn_memReqs (g_data (snd w) d) \<noteq> CMX then free_inputs onlyCheckCMX ds w
      else bindE (freeData d JustFree w) (free_inputs onlyCheckCMX ds))"

fun free_temps :: "nat list \<Rightarrow> World \<Rightarrow> World result" where
  "free_temps [] w = Inr w"
| "free_temps (d # ds) w = bindE (freeData d JustFree w) (free_temps ds)"

text \<open>SHAVEs are locked before the data for \<open>NeedMax\<close>, after them otherwise.\<close>

definition lock_shaves :: "bool \<Rightarrow> nat \<Rightarrow> StageSHAVEsRequirements \<Rightarrow> World \<Rightarrow> (AllocationResult \<times> World) result" where
  "lock_shaves now s reqs w =
     (if now then bindE (allocateSHAVEs s reqs w) (\<lambda>(b, w).
        if b then Inr (resultOK, w) else Inr (shaves_failed s, setNeedToAllocNonIntermData w))
      else Inr (resultOK, w))"

text \<open>The next step if the last one ended with status \<open>OK\<close>, the early \<open>return res\<close> otherwise.\<close>

definition then_step :: "(AllocationResult \<times> World) result \<Rightarrow> (World \<Rightarrow> (AllocationResult \<times> World) result) \<Rightarrow>
    (AllocationResult \<times> World) result" where
  "then_step r f = bindE r (\<lambda>(res, w). if ar_status res = OK then f w else Inr (res, w))"

definition stage_body :: "bool \<Rightarrow> nat \<Rightarrow> World \<Rightarrow> (AllocationResult \<times> World) result" where
  "stage_body onlyCheckCMX s w =
     (let reqs = sg_reqs (g_stage (snd w) s); st = g_stage (snd w) s in
      then_step (lock_shaves (reqs = NeedMax) s reqs w) (\<lambda>w.
      then_step (alloc_outputs onlyCheckCMX s (sg_outputs st) w) (\<lambda>w.
      then_step (if \<not> onlyCheckCMX then alloc_temps s (sg_tempBuffers st) w else Inr (resultOK, w)) (\<lambda>w.
      then_step (lock_shaves (reqs \<noteq> NeedMax) s reqs w) (\<lambda>w.
      bindE (free_inputs onlyCheckCMX (sg_inputs st) w) (\<lambda>w.
      bindE (if \<not> onlyCheckCMX then free_temps (sg_tempBuffers st) w else Inr w) (\<lambda>w.
      Inr (resultOK, w))))))))"

text \<open>One iteration; the scope guard frees the SHAVEs on every way out of the body.\<close>

definition run_stage :: "bool \<Rightarrow> nat \<Rightarrow> World \<Rightarrow> (AllocationResult \<times> World) result" where
  "run_stage onlyCheckCMX s w =
     bindE (setNumSHAVEs s 0 (snd w)) (\<lambda>g.
     bindE (stage_body onlyCheckCMX s (fst w, g)) (\<lambda>(r, w). Inr (r, (freeSHAVEs (fst w), snd w))))"

fun run_stages :: "bool \<Rightarrow> nat list \<Rightarrow> World \<Rightarrow> (AllocationResult \<times> World) result" where
  "run_stages onlyCheckCMX [] w = Inr (resultOK, w)"
| "run_stages onlyCheckCMX (s # ss) w =
     then_step (run_stage onlyCheckCMX s w) (run_stages onlyCheckCMX ss)"

definition runAllocator :: "bool \<Rightarrow> World \<Rightarrow> (AllocationResult \<times> World) result" where
  "runAllocator onlyCheckCMX w =
     (let w = (reset (snd w) (fst w), snd w) in
      then_step (if \<not> onlyCheckCMX then preprocess w else Inr (resultOK, w)) (\<lambda>w.
      run_stages onlyCheckCMX (g_stages (snd w)) w))"

definition allocateResources :: "World \<Rightarrow> (UsedMemory \<times> World) result" where
  "allocateResources w =
     bindE (runAllocator False w) (\<lambda>(allocRes, w).
     bindE (ie_assert (ar_status allocRes = OK)) (\<lambda>_.
     bindE (selfCheck (fst w)) (\<lambda>_. Inr (usedMemory (fst w), w))))"

section \<open>The invariant of the whole allocator\<close>

lemma world_inv_alloc:
  assumes "world_inv w" "alloc_inv w'" "same_structure (snd w) (snd w')"
    and "al_maxCmxSize (fst w') = al_maxCmxSize (fst w)"
  shows "world_inv w'"
  using assms same_structure_fields(8,9) [OF assms(3)] by (simp add: world_inv_def)

text \<open>Only \<open>reset\<close> changes the size of CMX.\<close>

lemma allocate_branches_max:
  "allocateFake d w = Inr (b, w') \<Longrightarrow> al_maxCmxSize (fst w') = al_maxCmxSize (fst w)"
  "allocateInput d w = Inr (b, w') \<Longrightarrow> al_maxCmxSize (fst w') = al_maxCmxSize (fst w)"
  "allocateConst d w = Inr (b, w') \<Longrightarrow> al_maxCmxSize (fst w') = al_maxCmxSize (fst w)"
  by (cases w; auto simp: allocateFake_def allocateInput_def allocateConst_def Let_def split: if_splits)+

lemma allocateOutput_max: "allocateOutput d w = Inr (b, w') \<Longrightarrow> al_maxCmxSize (fst w') = al_maxCmxSize (fst w)"
  by (cases w; cases "d \<in> set (al_allocatedData (fst w))") (auto simp: allocateOutput_def Let_def)

lemma allocateOwn_max: "allocateOwn d w = Inr (b, w') \<Longrightarrow> al_maxCmxSize (fst w') = al_maxCmxSize (fst w)"
  by (cases w; cases "d \<in> set (al_allocatedIntermData (fst w))")
    (auto simp: allocateOwn_def Let_def split: option.splits)

lemma allocate_data_max: "allocate_data n d w = Inr (b, w') \<Longrightarrow> al_maxCmxSize (fst w') = al_maxCmxSize (fst w)"
proof (induction n arbitrary: d)
  case (Suc n)
  then show ?case
    by (cases "dn_usage (g_data (snd w) d)"; cases "dn_parentDataEdge (g_data (snd w) d)")
      (auto simp: Let_def dest: allocate_branches_max allocateOutput_max allocateOwn_max)
qed simp

lemma freeData_max: "freeData d mode w = Inr w' \<Longrightarrow> al_maxCmxSize (fst w') = al_maxCmxSize (fst w)"
  by (cases w; cases mode)
    (auto simp: freeData_def freeJust_def freeMove_def Let_def split: if_splits option.splits)

lemma allocate_branches_locked:
  "allocateFake d w = Inr (b, w') \<Longrightarrow> al_lockedSHAVEs (fst w') = al_lockedSHAVEs (fst w)"
  "allocateInput d w = Inr (b, w') \<Longrightarrow> al_lockedSHAVEs (fst w') = al_lockedSHAVEs (fst w)"
  "allocateConst d w = Inr (b, w') \<Longrightarrow> al_lockedSHAVEs (fst w') = al_lockedSHAVEs (fst w)"
  "allocateOutput d w = Inr (b, w') \<Longrightarrow> al_lockedSHAVEs (fst w') = al_lockedSHAVEs (fst w)"
  "allocateOwn d w = Inr (b, w') \<Longrightarrow> al_lockedSHAVEs (fst w') = al_lockedSHAVEs (fst w)"
      apply (cases w; auto simp: allocateFake_def split: if_splits)
     apply (cases w; cases "d \<in> set (al_allocatedData (fst w))"; auto simp: allocateInput_def Let_def)
    apply (cases w; cases "d \<in> set (al_allocatedData (fst w))"; auto simp: allocateConst_def Let_def)
   apply (cases w; cases "d \<in> set (al_allocatedData (fst w))"; auto simp: allocateOutput_def Let_def)
  by (cases w; cases "d \<in> set (al_allocatedIntermData (fst w))") (auto simp: allocateOwn_def Let_def split: option.splits)

text \<open>One lemma per operation.\<close>

lemma allocateData_world:
  assumes "world_inv w" "allocateData d w = Inr (b, w')"
  shows "world_inv w'"
proof -
  have "alloc_inv w" using assms(1) by (simp add: world_inv_def)
  from allocateData_inv [OF this assms(2)] allocate_data_max [OF assms(2) [unfolded allocateData_def]]
  show ?thesis using world_inv_alloc [OF assms(1)] by blast
qed

lemma freeData_just_world:
  assumes "world_inv w" "freeData d JustFree w = Inr w'"
  shows "world_inv w'"
proof -
  have "alloc_inv w" using assms(1) by (simp add: world_inv_def)
  from freeData_just_inv [OF this assms(2)] freeData_max [OF assms(2)]
  show ?thesis using world_inv_alloc [OF assms(1)] by simp
qed

lemma freeData_move_world:
  assumes "world_inv w" "dn_parentDataEdge (g_data (snd w) d) = None" "freeData d MoveFromCMX w = Inr w'"
  shows "world_inv w'"
proof -
  have "alloc_inv w" using assms(1) by (simp add: world_inv_def)
  from freeData_move_inv [OF this assms(3,2)] freeData_max [OF assms(3)]
  show ?thesis using world_inv_alloc [OF assms(1)] by blast
qed

lemma loop_edges_keeps:
  assumes step: "\<And>d s s'. P s \<Longrightarrow> f d s = Inr s' \<Longrightarrow> P s'"
  shows "P s \<Longrightarrow> loop_edges n f g es s = Inr s' \<Longrightarrow> P s'"
  using step
proof (induction n f g es s arbitrary: s' rule: loop_edges.induct)
  case (3 n f g e es s)
  from "3.prems"(2) obtain s1 s2 where s1: "f (sa_child e) s = Inr s1"
    and s2: "loop_edges n f g (dn_childDataEdges (g_data g (sa_child e))) s1 = Inr s2"
    and s3: "loop_edges (Suc n) f g es s2 = Inr s'" by auto
  have "P s1" by (rule "3.prems"(3) [OF "3.prems"(1) s1])
  then have "P s2" by (rule "3.IH"(1) [OF _ s2 "3.prems"(3)])
  then show ?case by (rule "3.IH"(2) [OF _ s3 "3.prems"(3)])
qed auto

lemma loopOverData_keeps:
  assumes "\<And>d s s'. P s \<Longrightarrow> f d s = Inr s' \<Longrightarrow> P s'" "P s" "loopOverData g d f s = Inr s'"
  shows "P s'"
proof -
  obtain s1 where s1: "f d s = Inr s1" "loop_edges (walk_fuel g) f g (dn_childDataEdges (g_data g d)) s1 = Inr s'"
    using assms(3) by (auto simp: loopOverData_def)
  have "P s1" by (rule assms(1) [OF assms(2) s1(1)])
  show ?thesis 
    by (rule loop_edges_keeps [where P = P, OF _ \<open>P s1\<close> s1(2)]) (rule assms(1))
qed

lemma move_to_DDR_world:
  assumes inv: "world_inv w" and r: "move_to_DDR d w = Inr w'"
  shows "world_inv w'"
proof -
  let ?P = "\<lambda>g. same_structure (snd w) g \<and> (\<forall>d. same_place (snd w) g d)"
  have step: "?P g'" if "?P g" "setMemReqs e DDR g = Inr g'" for e g g'
  proof -
    have g': "g' = upd_data e (\<lambda>n. n\<lparr>dn_memReqs := DDR\<rparr>) g" using that(2) by (simp add: setMemReqs_def)
    have "same_structure g g'"
      unfolding g' by (rule same_structure_upd) (simp add: shape_def)
    then have "same_structure (snd w) g'" by (rule same_structure_trans [OF conjunct1 [OF that(1)]])
    moreover have "same_place g g' d" for d by (simp add: g' same_place_def upd_data_def)
    then have "same_place (snd w) g' d" for d by (rule same_place_trans [OF spec [OF conjunct2 [OF that(1)]]])
    ultimately show ?thesis by (intro conjI allI)
  qed
  obtain g' where g': "loopOverData (snd w) d (\<lambda>sub. setMemReqs sub DDR) (snd w) = Inr g'" "w' = (fst w, g')"
    using r by (auto simp: move_to_DDR_def)
  have start: "?P (snd w)" by simp
  have p: "?P g'" by (rule loopOverData_keeps [where P = ?P, OF _ start g'(1)]) (rule step)
  then have "alloc_inv w'"
    using inv alloc_core_graph by (auto simp: world_inv_def alloc_inv_def g'(2))
  with inv p show ?thesis by (intro world_inv_alloc [OF inv]) (simp_all add: g'(2))
qed

lemma erase_candidate_world [simp]: "world_inv (erase_candidate d w) = world_inv w"
  by (simp add: world_inv_def alloc_inv_def erase_candidate_def)

lemma setNeed_world [simp]: "world_inv (setNeedToAllocNonIntermData w) = world_inv w"
  by (simp add: world_inv_def alloc_inv_def setNeedToAllocNonIntermData_def)

lemma remove_first_world: "world_inv w \<Longrightarrow> remove_first_candidate ds w = Inr (b, w') \<Longrightarrow> world_inv w'"
proof (induction ds)
  case (Cons d ds)
  show ?case
  proof (cases "d \<in> set (al_candidatesForCMX (fst w))")
    case True
    with Cons.prems(2) obtain w1 w2 where par: "dn_parentDataEdge (g_data (snd w) d) = None"
      and w1: "freeData d MoveFromCMX w = Inr w1" and w2: "move_to_DDR d w1 = Inr w2"
      and w': "w' = erase_candidate d w2" by auto
    from move_to_DDR_world [OF freeData_move_world [OF Cons.prems(1) par w1] w2] w' show ?thesis by simp
  next
    case False
    with Cons show ?thesis by auto
  qed
qed simp

lemma removeCMX_world:
  assumes inv: "world_inv w" and r: "removeCMXCandidates d w = Inr (b, w')"
  shows "world_inv w'"
proof (cases "d \<in> set (al_candidatesForCMX (fst w))")
  case True
  from r True consider "w' = w"
    | w1 w2 where "dn_parentDataEdge (g_data (snd w) d) = None" "freeData d MoveFromCMX w = Inr w1 \<or> w1 = w"
        "move_to_DDR d w1 = Inr w2" "w' = erase_candidate d w2"
    by (cases w) (auto simp: removeCMXCandidates_def Let_def split: if_splits)
  then show ?thesis
  proof cases
    case 2
    then have "world_inv w1" using inv freeData_move_world by blast
    with 2 move_to_DDR_world show ?thesis by auto
  qed (use inv in simp)
next
  case False
  with r obtain ds where "remove_first_candidate ds w = Inr (b, w')"
    by (cases w) (auto simp: removeCMXCandidates_def)
  with remove_first_world [OF inv] show ?thesis by blast
qed

text \<open>\<open>reset\<close> establishes the invariant whatever was allocated before.\<close>

definition resources_ok :: "Graph \<Rightarrow> bool" where
  "resources_ok g \<longleftrightarrow> graph_ok g \<and> 0 \<le> g_numSHAVEs g \<and> 0 \<le> g_numCMXSlices g \<and>
     g_numCMXSlices g * CMX_SLICE_SIZE < 2 ^ 31"

lemma reset_world: "resources_ok g \<Longrightarrow> world_inv (reset g a, g)"
  using pools_ok_clear [of "g_numCMXSlices g * CMX_SLICE_SIZE" "nextChunk (al_pools a)"]
  by (simp add: resources_ok_def world_inv_def alloc_inv_def reset_def shaves_reset_def alloc_core_def CMX_SLICE_SIZE_def)

lemma then_step_keeps:
  assumes "then_step r f = Inr (res, w')" "\<And>res w. r = Inr (res, w) \<Longrightarrow> P w" "\<And>w. P w \<Longrightarrow> f w = Inr (res, w') \<Longrightarrow> P w'"
  shows "P w'"
  using assms by (auto simp: then_step_def split: if_splits)

lemma alloc_outputs_world: "world_inv w \<Longrightarrow> alloc_outputs oc s ds w = Inr (r, w') \<Longrightarrow> world_inv w'"
proof (induction ds arbitrary: w)
  case (Cons d ds)
  show ?case
  proof (cases "oc \<and> dn_memReqs (g_data (snd w) d) \<noteq> CMX")
    case True
    with Cons show ?thesis by auto
  next
    case False
    with Cons.prems(2) obtain b w1 where w1: "allocateData d w = Inr (b, w1)"
      and rest: "(if b then alloc_outputs oc s ds w1
        else if dn_memReqs (g_data (snd w1) d) = CMX \<and> \<not> oc then
          bindE (removeCMXCandidates d w1) (\<lambda>(removed, w).
            if removed then bindE (allocateData d w) (\<lambda>(b, w).
                if b then alloc_outputs oc s ds w else Inr (data_failed s, setNeedToAllocNonIntermData w))
            else Inr (data_failed s, setNeedToAllocNonIntermData w))
        else Inr (data_failed s, w1)) = Inr (r, w')" by auto
    note i1 = allocateData_world [OF Cons.prems(1) w1]
    show ?thesis
    proof (cases b)
      case True
      with rest Cons.IH [OF i1] show ?thesis by simp
    next
      case nb: False
      show ?thesis
      proof (cases "dn_memReqs (g_data (snd w1) d) = CMX \<and> \<not> oc")
        case True
        with rest nb obtain removed w2 where w2: "removeCMXCandidates d w1 = Inr (removed, w2)"
          and rest: "(if removed then bindE (allocateData d w2) (\<lambda>(b, w).
                if b then alloc_outputs oc s ds w else Inr (data_failed s, setNeedToAllocNonIntermData w))
            else Inr (data_failed s, setNeedToAllocNonIntermData w2)) = Inr (r, w')" by auto
        note i2 = removeCMX_world [OF i1 w2]
        show ?thesis
        proof (cases removed)
          case True
          with rest obtain b w3 where w3: "allocateData d w2 = Inr (b, w3)"
            and rest: "(if b then alloc_outputs oc s ds w3 else Inr (data_failed s, setNeedToAllocNonIntermData w3)) = Inr (r, w')"
            by auto
          from rest Cons.IH [OF allocateData_world [OF i2 w3]] allocateData_world [OF i2 w3] show ?thesis
            by (auto split: if_splits)
        qed (use rest i2 in auto)
      qed (use rest nb i1 in auto)
    qed
  qed
qed simp

lemma alloc_temps_world: "world_inv w \<Longrightarrow> alloc_temps s ds w = Inr (r, w') \<Longrightarrow> world_inv w'"
proof (induction ds arbitrary: w)
  case (Cons d ds)
  then obtain b w1 where "allocateData d w = Inr (b, w1)"
    "(if b then alloc_temps s ds w1 else Inr (data_failed s, setNeedToAllocNonIntermData w1)) = Inr (r, w')" by auto
  moreover from this(1) have "world_inv w1" by (rule allocateData_world [OF Cons.prems(1)])
  ultimately show ?case using Cons.IH [of w1] by (cases b) auto
qed simp

lemma free_inputs_world: "world_inv w \<Longrightarrow> free_inputs oc ds w = Inr w' \<Longrightarrow> world_inv w'"
proof (induction ds arbitrary: w)
  case (Cons d ds)
  show ?case
  proof (cases "oc \<and> dn_memReqs (g_data (snd w) d) \<noteq> CMX")
    case False
    with Cons.prems obtain w1 where "freeData d JustFree w = Inr w1" "free_inputs oc ds w1 = Inr w'" by auto
    with Cons.IH freeData_just_world [OF Cons.prems(1)] show ?thesis by blast
  qed (use Cons in auto)
qed simp

lemma free_temps_world: "world_inv w \<Longrightarrow> free_temps ds w = Inr w' \<Longrightarrow> world_inv w'"
proof (induction ds arbitrary: w)
  case (Cons d ds)
  then obtain w1 where "freeData d JustFree w = Inr w1" "free_temps ds w1 = Inr w'" by auto
  with Cons.IH freeData_just_world [OF Cons.prems(1)] show ?case by blast
qed simp

lemma lock_shaves_world: "world_inv w \<Longrightarrow> lock_shaves now s reqs w = Inr (r, w') \<Longrightarrow> world_inv w'"
  using allocateSHAVEs_inv [of w s reqs] by (fastforce simp: lock_shaves_def split: if_splits)

lemma stage_body_world:
  assumes "world_inv w" "stage_body oc s w = Inr (r, w')"
  shows "world_inv w'"
  using assms(2) unfolding stage_body_def Let_def
proof (rule then_step_keeps [where P = world_inv], goal_cases)
  case (1 res w1)
  then show ?case by (rule lock_shaves_world [OF assms(1)])
next
  case (2 w1)
  from this(2) show ?case
  proof (rule then_step_keeps [where P = world_inv], goal_cases)
    case (1 res w2)
    then show ?case by (rule alloc_outputs_world [OF \<open>world_inv w1\<close>])
  next
    case (2 w2)
    from this(2) show ?case
    proof (rule then_step_keeps [where P = world_inv], goal_cases)
      case (1 res w3)
      then show ?case using alloc_temps_world [OF \<open>world_inv w2\<close>] \<open>world_inv w2\<close> by (auto split: if_splits)
    next
      case (2 w3)
      from this(2) show ?case
      proof (rule then_step_keeps [where P = world_inv], goal_cases)
        case (1 res w4)
        then show ?case by (rule lock_shaves_world [OF \<open>world_inv w3\<close>])
      next
        case (2 w4)
        from this(2) obtain w5 where w5: "free_inputs oc (sg_inputs (g_stage (snd w) s)) w4 = Inr w5"
          and w': "(if \<not> oc then free_temps (sg_tempBuffers (g_stage (snd w) s)) w5 else Inr w5) = Inr w'" by auto
        have "world_inv w5" by (rule free_inputs_world [OF \<open>world_inv w4\<close> w5])
        with w' free_temps_world show ?case by (auto split: if_splits)
      qed
    qed
  qed
qed

lemma run_stage_world:
  assumes "world_inv w" "run_stage oc s w = Inr (r, w')"
  shows "world_inv w' \<and> al_lockedSHAVEs (fst w') = 0"
proof -
  obtain g r1 w1 where g: "setNumSHAVEs s 0 (snd w) = Inr g" and b: "stage_body oc s (fst w, g) = Inr (r1, w1)"
    and w': "w' = (freeSHAVEs (fst w1), snd w1)"
    using assms(2) by (auto simp: run_stage_def)
  note s = setNumSHAVEs_Inr [OF g]
  then have "alloc_inv (fst w, g)"
    using assms(1) alloc_core_graph [of _ _ _ _ _ "snd w" g] by (auto simp: world_inv_def alloc_inv_def same_place_def)
  then have "world_inv (fst w, g)" using s by (intro world_inv_alloc [OF assms(1)]) auto
  from stage_body_world [OF this b] have "world_inv w1" .
  with freeSHAVEs_inv [of "fst w1" "snd w1"] show ?thesis by (simp add: w' freeSHAVEs_def)
qed

lemma run_stages_world:
  "world_inv w \<Longrightarrow> al_lockedSHAVEs (fst w) = 0 \<Longrightarrow> run_stages oc ss w = Inr (r, w') \<Longrightarrow>
    world_inv w' \<and> al_lockedSHAVEs (fst w') = 0"
proof (induction ss arbitrary: w)
  case (Cons s ss)
  from Cons.prems(3) obtain r1 w1 where w1: "run_stage oc s w = Inr (r1, w1)"
    "(if ar_status r1 = OK then run_stages oc ss w1 else Inr (r1, w1)) = Inr (r, w')"
    by (auto simp: then_step_def)
  with run_stage_world [OF Cons.prems(1) w1(1)] Cons.IH [of w1] show ?case by (auto split: if_splits)
qed simp

lemma preprocess_loop_world: "world_inv w \<Longrightarrow> preprocess_loop ds w = Inr (r, w') \<Longrightarrow> world_inv w'"
proof (induction ds arbitrary: w)
  case (Cons d ds)
  show ?case
  proof (cases "dn_usage (g_data (snd w) d) \<noteq> DU_Intermediate \<and> dn_usage (g_data (snd w) d) \<noteq> DU_Temp")
    case True
    with Cons.prems(2) obtain b w1 where w1: "allocateData d w = Inr (b, w1)"
      and r: "b \<Longrightarrow> preprocess_loop ds w1 = Inr (r, w')" "\<not> b \<Longrightarrow> w' = w1"
      by (cases "allocateData d w") (auto simp: Let_def split: if_splits)
    note i1 = allocateData_world [OF Cons.prems(1) w1]
    from r i1 Cons.IH [OF i1] show ?thesis by (cases b) auto
  next
    case False
    with Cons.prems(2) have "preprocess_loop ds w = Inr (r, w')" by (auto simp: Let_def)
    then show ?thesis by (rule Cons.IH [OF Cons.prems(1)])
  qed
qed simp

lemma clearAllocation_same: "same_structure g (clearAllocation d g)"
  unfolding clearAllocation_def by (rule same_structure_upd) (simp add: shape_def)

lemma fold_clear_same: "same_structure g (fold clearAllocation ds g)"
  by (induction ds arbitrary: g) (auto intro: same_structure_trans clearAllocation_same)

lemma resources_ok_same: "resources_ok g \<Longrightarrow> same_structure g g' \<Longrightarrow> resources_ok g'"
  using graph_ok_same [of g g'] by (simp add: resources_ok_def same_structure_fields(8,9))

lemma preprocess_world:
  assumes "resources_ok g" "preprocess (a, g) = Inr (r, w')"
  shows "world_inv w'"
proof -
  let ?a = "reset g a"
  have inv: "world_inv (?a, g)" by (rule reset_world [OF assms(1)])
  obtain r1 w1 where "(if al_needToAllocNonIntermData ?a then
               let a = ?a\<lparr>al_allocatedData := [], al_blobMemOffset := 0, al_inputMemOffset := 0, al_outputMemOffset := 0\<rparr>;
                   g = fold clearAllocation (g_datas g) g
               in preprocess_loop (g_datas g) (a, g)
             else Inr (resultOK, (?a, g))) = Inr (r1, w1)"
      and w': "w' = w1 \<or> w' = ((fst w1)\<lparr>al_needToAllocNonIntermData := False\<rparr>, snd w1)"
    using assms(2) by (cases "if al_needToAllocNonIntermData ?a then
               let a = ?a\<lparr>al_allocatedData := [], al_blobMemOffset := 0, al_inputMemOffset := 0, al_outputMemOffset := 0\<rparr>;
                   g = fold clearAllocation (g_datas g) g
               in preprocess_loop (g_datas g) (a, g)
             else Inr (resultOK, (?a, g))") (auto simp: preprocess_def Let_def split: if_splits)
  moreover have "world_inv (?a\<lparr>al_allocatedData := [], al_blobMemOffset := 0, al_inputMemOffset := 0, al_outputMemOffset := 0\<rparr>,
      fold clearAllocation (g_datas g) g)"
    using reset_world [where a = a, OF resources_ok_same [OF assms(1) fold_clear_same, of "g_datas g"]]
      same_structure_fields(8,9) [OF fold_clear_same, of "g_datas g" g]
    by (simp add: world_inv_def alloc_inv_def reset_def shaves_reset_def)
  ultimately have "world_inv w1" using inv preprocess_loop_world by (auto simp: Let_def split: if_splits)
  with w' show ?thesis by (auto simp: world_inv_def alloc_inv_def)
qed

lemma allocate_data_locked: "allocate_data n d w = Inr (b, w') \<Longrightarrow> al_lockedSHAVEs (fst w') = al_lockedSHAVEs (fst w)"
proof (induction n arbitrary: d)
  case (Suc n)
  then show ?case
    by (cases "dn_usage (g_data (snd w) d)"; cases "dn_parentDataEdge (g_data (snd w) d)")
      (auto simp: Let_def dest: allocate_branches_locked)
qed simp

lemma preprocess_loop_locked: "preprocess_loop ds w = Inr (r, w') \<Longrightarrow> al_lockedSHAVEs (fst w') = al_lockedSHAVEs (fst w)"
proof (induction ds arbitrary: w)
  case (Cons d ds)
  show ?case
  proof (cases "dn_usage (g_data (snd w) d) \<noteq> DU_Intermediate \<and> dn_usage (g_data (snd w) d) \<noteq> DU_Temp")
    case True
    with Cons.prems obtain b w1 where w1: "allocate_data (walk_fuel (snd w)) d w = Inr (b, w1)"
      and r: "b \<Longrightarrow> preprocess_loop ds w1 = Inr (r, w')" "\<not> b \<Longrightarrow> w' = w1"
      by (cases "allocateData d w") (auto simp: Let_def allocateData_def split: if_splits)
    from r allocate_data_locked [OF w1] Cons.IH [of w1] show ?thesis by (cases b) auto
  next
    case False
    with Cons.prems have "preprocess_loop ds w = Inr (r, w')" by (auto simp: Let_def)
    then show ?thesis by (rule Cons.IH)
  qed
qed simp

lemma preprocess_locked:
  assumes "preprocess (reset g a, g) = Inr (r, w')"
  shows "al_lockedSHAVEs (fst w') = 0"
proof -
  have "al_lockedSHAVEs (reset g b) = 0" for b by (simp add: reset_def shaves_reset_def)
  with assms show ?thesis
    by (auto simp: preprocess_def Let_def split: if_splits dest!: preprocess_loop_locked)
qed

section \<open>Any sequence of operations\<close>

text \<open>
  What a client may do with the allocator: \<open>MoveFromCMX\<close> only on a node that owns its memory,
  as its callers in the code check.
\<close>

inductive alloc_step :: "World \<Rightarrow> World \<Rightarrow> bool" where
  allocate: "allocateData d w = Inr (b, w') \<Longrightarrow> alloc_step w w'"
| free: "freeData d JustFree w = Inr w' \<Longrightarrow> alloc_step w w'"
| move: "dn_parentDataEdge (g_data (snd w) d) = None \<Longrightarrow> freeData d MoveFromCMX w = Inr w' \<Longrightarrow> alloc_step w w'"
| remove_candidates: "removeCMXCandidates d w = Inr (b, w') \<Longrightarrow> alloc_step w w'"
| lock: "allocateSHAVEs s reqs w = Inr (b, w') \<Longrightarrow> alloc_step w w'"
| unlock: "alloc_step (a, g) (freeSHAVEs a, g)"

inductive_cases alloc_stepE: "alloc_step w w'"

lemma alloc_step_world: "alloc_step w w' \<Longrightarrow> world_inv w \<Longrightarrow> world_inv w'"
proof (induction rule: alloc_step.induct)
  case (lock s reqs w b w')
  with allocateSHAVEs_inv show ?case by blast
qed (auto intro: allocateData_world freeData_just_world freeData_move_world removeCMX_world freeSHAVEs_inv)

lemma alloc_steps_world: "alloc_step\<^sup>*\<^sup>* w w' \<Longrightarrow> world_inv w \<Longrightarrow> world_inv w'"
  by (induction rule: rtranclp_induct) (auto intro: alloc_step_world)

lemma world_inv_no_overlap:
  assumes inv: "world_inv (a, g)" and d: "d \<in> set (al_allocatedIntermData a)"
  shows "\<exists>n. totalByteSize g d = Inr n \<and> 0 < n \<and> 0 \<le> dn_memoryOffset (g_data g d) \<and>
    (dn_location (g_data g d) = Loc_BSS \<and> dn_memoryOffset (g_data g d) + n \<le> DDR_MAX_SIZE \<or>
     dn_location (g_data g d) = Loc_CMX \<and> al_lockedSHAVEs a * CMX_SLICE_SIZE \<le> dn_memoryOffset (g_data g d) \<and>
       dn_memoryOffset (g_data g d) + n \<le> g_numCMXSlices g * CMX_SLICE_SIZE) \<and>
    (\<forall>d' \<in> set (al_allocatedIntermData a). \<forall>m. d' \<noteq> d \<and> totalByteSize g d' = Inr m \<and>
       dn_location (g_data g d') = dn_location (g_data g d) \<longrightarrow>
       disjoint_ivl (dn_memoryOffset (g_data g d)) n (dn_memoryOffset (g_data g d')) m)"
proof -
  let ?L = "al_maxCmxSize a" and ?k = "al_lockedSHAVEs a"
  have core: "alloc_core ?L ?k (al_pools a) (al_allocatedIntermData a) (al_memChunksPerData a) g"
    and L: "?L = g_numCMXSlices g * CMX_SLICE_SIZE"
    using inv unfolding world_inv_def alloc_inv_def fst_conv snd_conv by blast+
  have ok: "pools_ok ?L ?k (al_pools a)" "graph_ok g" using core by (simp_all add: alloc_core_def)
  then have k: "0 \<le> ?k * CMX_SLICE_SIZE" by (simp add: pools_ok_def CMX_SLICE_SIZE_def)
  obtain cid c where c: "al_memChunksPerData a d = Some cid" "find_chunk (al_pools a) cid = Some c" "placed g d c"
    by (rule alloc_core_D [OF core d])
  then obtain n where n: "totalByteSize g d = Inr n" "n \<le> mc_size c" by (auto simp: placed_def)
  note b = find_chunk_bounds [OF ok(1) c(2)]
  have place: "dn_location (g_data g d) = (if mc_memType c = CMX then Loc_CMX else Loc_BSS)"
    "dn_memoryOffset (g_data g d) = mc_pointer c" using c(3) by (simp_all add: placed_def)
  have "disjoint_ivl (dn_memoryOffset (g_data g d)) n (dn_memoryOffset (g_data g d')) m"
    if d': "d' \<in> set (al_allocatedIntermData a)" "d' \<noteq> d" "totalByteSize g d' = Inr m"
      "dn_location (g_data g d') = dn_location (g_data g d)" for d' m
  proof -
    obtain cid' c' where c': "al_memChunksPerData a d' = Some cid'" "find_chunk (al_pools a) cid' = Some c'" "placed g d' c'"
      by (rule alloc_core_D [OF core d'(1)])
    have "cid \<noteq> cid'"
      using core c(1) c'(1) d'(2) unfolding alloc_core_def by (metis domI inj_onD)
    moreover have t: "mc_memType c = mc_memType c'"
      using d'(4) c(3) c'(3) by (cases "mc_memType c"; cases "mc_memType c'") (simp_all add: placed_def)
    ultimately have "disjoint_ivl (mc_offset c) (mc_size c) (mc_offset c') (mc_size c')"
      by (rule pools.apart_law [OF ok(1) c(2) c'(2)])
    moreover have "m \<le> mc_size c'" "dn_memoryOffset (g_data g d') = mc_pointer c'"
      using c'(3) d'(3) by (auto simp: placed_def)
    ultimately show ?thesis
      using b find_chunk_bounds [OF ok(1) c'(2)] n(2) t place(2)
      by (cases "mc_memType c") (auto simp: disjoint_ivl_def)
  qed
  moreover have "0 < n" by (rule totalByteSize_pos [OF ok(2) n(1)])
  ultimately show ?thesis
    using n b place k L by (cases "mc_memType c") auto
qed

section \<open>An example model\<close>

text \<open>Two stages: the first writes data 0 and 1 (100 bytes each, wanted in CMX), the second reads them.\<close>

definition ex_desc :: DataDesc where "ex_desc = projr (mk_DataDesc DT_U8 order_C [100])"

definition ex_node :: DataNode where
  "ex_node = \<lparr>dn_usage = DU_Intermediate, dn_desc = ex_desc, dn_requiredStrides = projr strides_empty,
     dn_producerEdge = Some (0, 0), dn_numConsumers = 1, dn_parentDataEdge = None, dn_childDataEdges = [],
     dn_hasContent = False, dn_unbatched = False, dn_memReqs = CMX, dn_location = Loc_None,
     dn_memoryOffset = 0, dn_ioBufferOffset = None\<rparr>"

definition ex_stage :: Stage where
  "ex_stage = \<lparr>sg_category = SC_SHAVE, sg_reqs = OnlyOne, sg_prev = [], sg_next = [], sg_inputs = [],
     sg_outputs = [], sg_tempBuffers = [], sg_parentStage = None, sg_injected = [], sg_numSHAVEs = 0\<rparr>"

definition ex_graph :: Graph where
  "ex_graph = \<lparr>g_data = (\<lambda>_. ex_node),
     g_stage = (\<lambda>s. if s = 0 then ex_stage\<lparr>sg_outputs := [0, 1]\<rparr> else ex_stage\<lparr>sg_inputs := [0, 1]\<rparr>),
     g_datas = [0, 1], g_stages = [0, 1], g_numCMXSlices = 2, g_numSHAVEs = 2\<rparr>"

lemma ex_resources_ok: "resources_ok ex_graph"
proof -
  have p: "order_toPermutation order_C = [2]" by code_simp
  have "order_ok order_C"
    unfolding order_ok_def by (rule exI [of _ "[2]"]) (simp add: MAX_DIMS_64_def dim_ok_def order_C_def)
  from mk_DataDesc_ok [OF this, of "[100]" DT_U8] p have "desc_ok ex_desc" by (auto simp: ex_desc_def)
  moreover have "reqs_ok (projr strides_empty)"
    by (simp add: strides_empty_def strides_add_def strides_default_def index_ok_def MAX_DIMS_64_def reqs_ok_def eval_nat_numeral)
  ultimately show ?thesis
    by (simp add: resources_ok_def graph_ok_def ex_graph_def ex_node_def CMX_SLICE_SIZE_def)
qed

section \<open>Properties\<close>

text \<open>
  C3. After \<open>reset\<close> and any sequence of allocator operations (allocating, freeing and moving
  data, removing CMX candidates, locking and freeing SHAVEs), every live intermediate or
  temporary data node has memory of at least its byte size inside DDR or inside CMX above the
  slices the locked SHAVEs use, and no two live nodes in the same memory overlap.
\<close>

theorem allocated_data_never_overlap:
  assumes "resources_ok g0" "alloc_step\<^sup>*\<^sup>* (reset g0 a0, g0) (a, g)" "d \<in> set (al_allocatedIntermData a)"
  shows "\<exists>n. totalByteSize g d = Inr n \<and> 0 < n \<and> 0 \<le> dn_memoryOffset (g_data g d) \<and>
    (dn_location (g_data g d) = Loc_BSS \<and> dn_memoryOffset (g_data g d) + n \<le> DDR_MAX_SIZE \<or>
     dn_location (g_data g d) = Loc_CMX \<and> al_lockedSHAVEs a * CMX_SLICE_SIZE \<le> dn_memoryOffset (g_data g d) \<and>
       dn_memoryOffset (g_data g d) + n \<le> g_numCMXSlices g * CMX_SLICE_SIZE) \<and>
    (\<forall>d' \<in> set (al_allocatedIntermData a). \<forall>m. d' \<noteq> d \<and> totalByteSize g d' = Inr m \<and>
       dn_location (g_data g d') = dn_location (g_data g d) \<longrightarrow>
       disjoint_ivl (dn_memoryOffset (g_data g d)) n (dn_memoryOffset (g_data g d')) m)"
  by (rule world_inv_no_overlap [OF alloc_steps_world [OF assms(2) reset_world [OF assms(1)]] assms(3)])

theorem allocated_data_never_overlap_witness:
  "\<exists>b1 w1 b2 w2 n. allocateData 0 (reset ex_graph (mk_Allocator 2), ex_graph) = Inr (b1, w1) \<and>
    allocateData 1 w1 = Inr (b2, w2) \<and> al_allocatedIntermData (fst w2) = [0, 1] \<and>
    totalByteSize (snd w2) 0 = Inr n \<and> 0 < n \<and> 0 \<le> dn_memoryOffset (g_data (snd w2) 0)"
proof -
  let ?w0 = "(reset ex_graph (mk_Allocator 2), ex_graph)"
  let ?done = "\<lambda>y. al_allocatedIntermData (fst (snd y)) = [0, 1]"
  have "case allocateData 0 ?w0 of Inl _ \<Rightarrow> False | Inr y1 \<Rightarrow>
      (case allocateData 1 (snd y1) of Inl _ \<Rightarrow> False | Inr y2 \<Rightarrow> ?done y2)"
    by code_simp
  then obtain y1 where y1: "allocateData 0 ?w0 = Inr y1"
      "case allocateData 1 (snd y1) of Inl _ \<Rightarrow> False | Inr y2 \<Rightarrow> ?done y2" by (rule case_InrE)
  from y1(2) obtain y2 where y2: "allocateData 1 (snd y1) = Inr y2" "?done y2" by (rule case_InrE)
  obtain b1 w1 b2 a g where eq: "y1 = (b1, w1)" "y2 = (b2, (a, g))" by (metis prod.exhaust)
  note w = y1(1) [unfolded eq] y2 [unfolded eq snd_conv fst_conv]
  have "alloc_step\<^sup>*\<^sup>* ?w0 (a, g)"
    using alloc_step.allocate [OF w(1)] alloc_step.allocate [OF w(2)] by (meson rtranclp.simps)
  moreover have "0 \<in> set (al_allocatedIntermData a)" by (simp add: w(3))
  ultimately obtain n where n: "totalByteSize g 0 = Inr n" "0 < n" "0 \<le> dn_memoryOffset (g_data g 0)"
    using allocated_data_never_overlap [OF ex_resources_ok] by blast
  show ?thesis
    by (intro exI [of _ b1] exI [of _ w1] exI [of _ b2] exI [of _ "(a, g)"] exI [of _ n] conjI)
      (simp_all only: w n fst_conv snd_conv)
qed

text \<open>
  C4. \<open>runAllocator\<close>, whatever was allocated before and however it ends (short of an
  exception), leaves a consistent allocator and no SHAVE locked: the scope guard frees them on
  the early returns too.
\<close>

theorem runAllocator_consistent:
  assumes "resources_ok (snd w)" "runAllocator onlyCheckCMX w = Inr (r, w')"
  shows "world_inv w' \<and> al_lockedSHAVEs (fst w') = 0"
proof -
  obtain a g where w: "w = (a, g)" by force
  have g: "resources_ok g" using assms(1) by (simp add: w)
  obtain r1 w1 where r1: "(if \<not> onlyCheckCMX then preprocess (reset g a, g) else Inr (resultOK, (reset g a, g))) = Inr (r1, w1)"
    and rest: "(if ar_status r1 = OK then run_stages onlyCheckCMX (g_stages (snd w1)) w1 else Inr (r1, w1)) = Inr (r, w')"
  proof -
    have "then_step (if \<not> onlyCheckCMX then preprocess (reset g a, g) else Inr (resultOK, (reset g a, g)))
        (\<lambda>w. run_stages onlyCheckCMX (g_stages (snd w)) w) = Inr (r, w')"
      using assms(2) by (simp only: w runAllocator_def Let_def fst_conv snd_conv)
    then obtain x where x: "(if \<not> onlyCheckCMX then preprocess (reset g a, g) else Inr (resultOK, (reset g a, g))) = Inr x"
      "(case x of (res, w) \<Rightarrow> if ar_status res = OK then run_stages onlyCheckCMX (g_stages (snd w)) w else Inr (res, w)) = Inr (r, w')"
      unfolding then_step_def bindE_eq_Inr by blast
    show ?thesis by (rule that [of "fst x" "snd x"]) (use x in \<open>simp_all add: case_prod_beta\<close>)
  qed
  have "al_lockedSHAVEs (fst w1) = 0 \<and> world_inv w1"
  proof (cases onlyCheckCMX)
    case True
    with r1 reset_world [OF g] show ?thesis by (auto simp: reset_def shaves_reset_def)
  next
    case False
    with r1 have p: "preprocess (reset g a, g) = Inr (r1, w1)" by simp
    with preprocess_world [OF g] preprocess_locked [OF p] show ?thesis by simp
  qed
  with rest run_stages_world [of w1] show ?thesis by (auto split: if_splits)
qed

theorem runAllocator_consistent_witness:
  "\<exists>r w'. runAllocator False (mk_Allocator 2, ex_graph) = Inr (r, w') \<and> ar_status r = OK \<and>
    world_inv w' \<and> al_lockedSHAVEs (fst w') = 0"
proof -
  have "case runAllocator False (mk_Allocator 2, ex_graph) of Inl _ \<Rightarrow> False | Inr y \<Rightarrow> ar_status (fst y) = OK"
    by code_simp
  then obtain y where y: "runAllocator False (mk_Allocator 2, ex_graph) = Inr y" "ar_status (fst y) = OK"
    by (rule case_InrE)
  obtain r w' where eq: "y = (r, w')" by (metis prod.exhaust)
  have "resources_ok (snd (mk_Allocator 2, ex_graph))" using ex_resources_ok by simp
  from runAllocator_consistent [OF this y(1) [unfolded eq]] y [unfolded eq fst_conv] show ?thesis by blast
qed

text \<open>
  The self check is exact: with no SHAVE locked it passes if and only if no intermediate
  or temporary data is still allocated.
\<close>

theorem selfCheck_finds_leaks:
  assumes "world_inv (a, g)" "al_lockedSHAVEs a = 0"
  shows "selfCheck a = Inr () \<longleftrightarrow> al_allocatedIntermData a = []"
proof -
  let ?L = "al_maxCmxSize a" and ?ps = "al_pools a"
  have core: "alloc_core ?L 0 ?ps (al_allocatedIntermData a) (al_memChunksPerData a) g"
    using assms(1) unfolding world_inv_def alloc_inv_def fst_conv snd_conv assms(2) by blast
  then have ok: "pools_ok ?L 0 ?ps" by (simp add: alloc_core_def)
  have check: "selfCheck a = Inr () \<longleftrightarrow> (\<forall>mt. pool_clean (get_pool mt ?ps))"
  proof -
    have "(\<forall>mt. pool_clean (get_pool mt ?ps)) \<longleftrightarrow> pool_clean (ddrPool ?ps) \<and> pool_clean (cmxPool ?ps)"
      by (metis MemoryType.exhaust get_pool.simps)
    then show ?thesis using assms(2) by (auto simp: selfCheck_def shaves_selfCheck_def)
  qed
  show ?thesis
  proof
    assume "al_allocatedIntermData a = []"
    with core have "find_chunk ?ps = Map.empty" by (auto simp: alloc_core_def)
    with check no_chunks_clean [OF ok] show "selfCheck a = Inr ()" by blast
  next
    assume clean: "selfCheck a = Inr ()"
    show "al_allocatedIntermData a = []"
    proof (rule ccontr)
      assume "al_allocatedIntermData a \<noteq> []"
      then obtain d where "d \<in> set (al_allocatedIntermData a)" by (metis last_in_set)
      then obtain cid c where c: "find_chunk ?ps cid = Some c" using alloc_core_D [OF core] by metis
      then have "(cid, c) \<in> set (allocatedChunks (get_pool (mc_memType c) ?ps))" using find_chunk_iff [OF ok] by simp
      moreover have "pool_inv (mc_memType c) (pool_limit ?L (mc_memType c)) (get_pool (mc_memType c) ?ps)"
        using ok by (simp add: pools_ok_def)
      ultimately have "0 < curMemOffset (get_pool (mc_memType c) ?ps)" using pool_inv_chunk by fastforce
      with clean check show False by (auto simp: pool_clean_def)
    qed
  qed
qed

theorem selfCheck_finds_leaks_witness:
  "\<exists>r a g. runAllocator False (mk_Allocator 2, ex_graph) = Inr (r, (a, g)) \<and> selfCheck a = Inr ()"
proof -
  have "case runAllocator False (mk_Allocator 2, ex_graph) of Inl _ \<Rightarrow> False
      | Inr y \<Rightarrow> al_allocatedIntermData (fst (snd y)) = [] \<and> al_lockedSHAVEs (fst (snd y)) = 0"
    by code_simp
  then obtain y where y: "runAllocator False (mk_Allocator 2, ex_graph) = Inr y"
      "al_allocatedIntermData (fst (snd y)) = [] \<and> al_lockedSHAVEs (fst (snd y)) = 0" by (rule case_InrE)
  obtain r a g where eq: "y = (r, (a, g))" by (metis prod.exhaust)
  note r = y(1) [unfolded eq] y(2) [unfolded eq fst_conv snd_conv, THEN conjunct1] y(2) [unfolded eq fst_conv snd_conv, THEN conjunct2]
  have "world_inv (reset ex_graph (mk_Allocator 2), ex_graph)" by (rule reset_world [OF ex_resources_ok])
  obtain w1 r1 where p: "preprocess (reset ex_graph (mk_Allocator 2), ex_graph) = Inr (r1, w1)"
      "(if ar_status r1 = OK then run_stages False (g_stages (snd w1)) w1 else Inr (r1, w1)) = Inr (r, (a, g))"
    using r(1) by (auto simp: runAllocator_def then_step_def)
  have "world_inv (a, g)"
    using preprocess_world [OF ex_resources_ok p(1)] preprocess_locked [OF p(1)] p(2) run_stages_world [of w1]
    by (auto split: if_splits)
  from selfCheck_finds_leaks [OF this r(3)] r show ?thesis by auto
qed

end
