(* ===== verification/Tasks.thy ===== *)
theory Tasks
  imports Prelude "HOL-Library.Word"
begin

text \<open>
  Tasks of the Inference Engine (\<open>src/src/inference_engine/cpp_interfaces\<close>): \<open>Task\<close>
  (\<open>ie_task.cpp\<close>), \<open>StagedTask\<close> (\<open>ie_task_with_stages.cpp\<close>) and \<open>TaskSynchronizer\<close>
  (\<open>ie_task_synchronizer.hpp\<close>), a ticket lock that lets tasks of several requests run one at a
  time. A section under a mutex is one function here; the interleaving of threads is the step
  relation \<open>sync_step\<close>. The function a task wraps belongs to the client: it is an argument,
  which returns the exception it threw, if any.
\<close>

section \<open>Task\<close>

datatype Status = TS_ERROR | TS_INITIAL | TS_BUSY | TS_DONE | TS_POSTPONED

datatype StatusCode = ST_OK | ST_GENERAL_ERROR | ST_NOT_IMPLEMENTED | ST_NETWORK_NOT_LOADED
  | ST_PARAMETER_MISMATCH | ST_NOT_FOUND | ST_OUT_OF_BOUNDS | ST_UNEXPECTED | ST_REQUEST_BUSY
  | ST_RESULT_NOT_READY | ST_NOT_ALLOCATED | ST_INFER_NOT_STARTED | ST_NETWORK_NOT_READ

record Task =
  tk_status :: Status
  tk_exceptionPtr :: "ie_exception option"
  tk_isOnWait :: bool

definition mk_Task :: Task where
  "mk_Task = \<lparr>tk_status = TS_INITIAL, tk_exceptionPtr = None, tk_isOnWait = False\<rparr>"

definition occupy :: "'a Task_scheme \<Rightarrow> bool \<times> 'a Task_scheme" where
  "occupy t = (if tk_status t = TS_BUSY then (False, t) else (True, t\<lparr>tk_status := TS_BUSY\<rparr>))"

definition task_finish :: "ie_exception option \<Rightarrow> 'a Task_scheme \<Rightarrow> 'a Task_scheme" where
  "task_finish outcome t =
     (case outcome of
        None \<Rightarrow> t\<lparr>tk_status := TS_DONE\<rparr>
      | Some e \<Rightarrow> t\<lparr>tk_exceptionPtr := Some e, tk_status := TS_ERROR\<rparr>)"

definition runNoThrowNoBusyCheck ::
  "('a Task_scheme \<Rightarrow> ie_exception option \<times> 'a Task_scheme) \<Rightarrow> 'a Task_scheme \<Rightarrow> Status \<times> 'a Task_scheme"
where
  "runNoThrowNoBusyCheck function t =
     (let (outcome, t) = function (t\<lparr>tk_exceptionPtr := None\<rparr>); t = task_finish outcome t
      in (tk_status t, t))"

text \<open>The predicate \<open>wait\<close> sleeps for; a task that was never started is not waited for.\<close>

definition wait_over :: "'a Task_scheme \<Rightarrow> bool" where
  "wait_over t \<longleftrightarrow> tk_status t = TS_INITIAL \<or> tk_status t = TS_DONE \<or> tk_status t = TS_ERROR"

definition checkException :: "'a Task_scheme \<Rightarrow> unit result" where
  "checkException t = (case tk_exceptionPtr t of Some e \<Rightarrow> Inl e | None \<Rightarrow> Inr ())"

fun TaskStatus2StatusCode :: "Status \<Rightarrow> StatusCode" where
  "TaskStatus2StatusCode TS_DONE = ST_OK"
| "TaskStatus2StatusCode TS_ERROR = ST_GENERAL_ERROR"
| "TaskStatus2StatusCode TS_BUSY = ST_RESULT_NOT_READY"
| "TaskStatus2StatusCode TS_POSTPONED = ST_RESULT_NOT_READY"
| "TaskStatus2StatusCode TS_INITIAL = ST_INFER_NOT_STARTED"

section \<open>StagedTask\<close>

record StagedTask = Task +
  st_stages :: nat
  st_stage :: nat

definition mk_StagedTask :: "nat \<Rightarrow> StagedTask" where
  "mk_StagedTask stages = \<lparr>tk_status = TS_INITIAL, tk_exceptionPtr = None, tk_isOnWait = False,
     st_stages = stages, st_stage = stages\<rparr>"

definition resetStages :: "StagedTask \<Rightarrow> StagedTask" where
  "resetStages t = t\<lparr>st_stage := st_stages t\<rparr>"

definition stageDone :: "StagedTask \<Rightarrow> StagedTask result" where
  "stageDone t =
     (if st_stage t \<le> 0 then Inl (Thrown ''Failed to make stage done, because it's been already done'')
      else Inr (t\<lparr>st_stage := st_stage t - 1\<rparr>))"

text \<open>
  A run of a staged task splits at the call of its function, which may itself give the task to
  another executor.
\<close>

definition staged_begin :: "StagedTask \<Rightarrow> StagedTask" where
  "staged_begin t =
     (let t = t\<lparr>tk_exceptionPtr := None\<rparr> in if st_stage t \<noteq> 0 then t\<lparr>tk_status := TS_POSTPONED\<rparr> else t)"

definition staged_finish :: "ie_exception option \<Rightarrow> StagedTask \<Rightarrow> StagedTask" where
  "staged_finish outcome t =
     (case outcome of
        None \<Rightarrow> if st_stage t = 0 then t\<lparr>tk_status := TS_DONE\<rparr> else t
      | Some e \<Rightarrow> t\<lparr>tk_exceptionPtr := Some e, tk_status := TS_ERROR\<rparr>)"

section \<open>TaskSynchronizer\<close>

definition MAX_NUMBER_OF_TASKS_IN_QUEUE :: nat where "MAX_NUMBER_OF_TASKS_IN_QUEUE = 10"

record TaskSynchronizer =
  ts_taskCount :: "32 word"
  ts_taskQueue :: "32 word list"

definition mk_TaskSynchronizer :: TaskSynchronizer where
  "mk_TaskSynchronizer = \<lparr>ts_taskCount = 0, ts_taskQueue = []\<rparr>"

text \<open>The ticket is drawn before the length of the queue is looked at, also when that throws.\<close>

definition addTaskToQueue :: "TaskSynchronizer \<Rightarrow> 32 word result \<times> TaskSynchronizer" where
  "addTaskToQueue s =
     (let taskID = ts_taskCount s; s = s\<lparr>ts_taskCount := ts_taskCount s + 1\<rparr> in
      if ts_taskQueue s \<noteq> [] \<and> length (ts_taskQueue s) \<ge> MAX_NUMBER_OF_TASKS_IN_QUEUE
      then (Inl (Thrown ''Failed to add more than 10 tasks to queue''), s)
      else (Inr taskID, s\<lparr>ts_taskQueue := ts_taskQueue s @ [taskID]\<rparr>))"

definition waitInQueue_over :: "TaskSynchronizer \<Rightarrow> 32 word \<Rightarrow> bool" where
  "waitInQueue_over s taskID \<longleftrightarrow> ts_taskQueue s \<noteq> [] \<and> taskID = hd (ts_taskQueue s)"

definition sync_unlock :: "TaskSynchronizer \<Rightarrow> TaskSynchronizer" where
  "sync_unlock s = (if ts_taskQueue s \<noteq> [] then s\<lparr>ts_taskQueue := tl (ts_taskQueue s)\<rparr> else s)"

text \<open>
  \<open>runWithSynchronizer\<close> seen from the calling thread: it returns the status, throws, or sleeps
  in \<open>lock\<close> until another thread unlocks.
\<close>

datatype 'a outcome = Returned 'a | Raised ie_exception | Blocked "32 word"

definition runWithSynchronizer ::
  "(Task \<Rightarrow> ie_exception option \<times> Task) \<Rightarrow> Task \<times> TaskSynchronizer \<Rightarrow> Status outcome \<times> Task \<times> TaskSynchronizer"
where
  "runWithSynchronizer function st =
     (let (t, s) = st; (occupied, t) = occupy t in
      if occupied then
        (case addTaskToQueue s of
           (Inl e, s) \<Rightarrow> (Raised e, t, s)
         | (Inr taskID, s) \<Rightarrow>
             if waitInQueue_over s taskID
             then let (_, t) = runNoThrowNoBusyCheck function t in (Returned (tk_status t), t, sync_unlock s)
             else (Blocked taskID, t, s))
      else (Returned (tk_status t), t, s))"

section \<open>Threads at the lock\<close>

text \<open>
  A thread in \<open>lock\<close> that has its ticket is about to evaluate the predicate of
  \<open>_taskCondVar.wait\<close> (\<open>Waiting\<close>) or sleeps (\<open>Asleep\<close>). It falls asleep when the predicate is
  false; only \<open>notify_all\<close> and spurious wake-ups make a sleeping thread evaluate it again.
  \<open>_taskMutex\<close> makes the evaluation one step with the decision to sleep, and the pop of
  \<open>unlock\<close> one step with the notification. \<open>sy_calls\<close> counts the tickets drawn so far; it is no
  state of the code, which keeps the number only modulo \<open>2^32\<close>.
\<close>

datatype LockPc = Idle | Waiting "32 word" | Asleep "32 word" | Holding "32 word"

record SyncSystem =
  sy_sync :: TaskSynchronizer
  sy_thread :: "nat \<Rightarrow> LockPc"
  sy_calls :: nat

definition sync_init :: SyncSystem where
  "sync_init = \<lparr>sy_sync = mk_TaskSynchronizer, sy_thread = (\<lambda>_. Idle), sy_calls = 0\<rparr>"

fun wake :: "LockPc \<Rightarrow> LockPc" where
  "wake (Asleep taskID) = Waiting taskID"
| "wake p = p"

text \<open>\<open>unlock\<close> called by thread \<open>i\<close>: the pop and \<open>notify_all\<close> of a non-empty queue.\<close>

definition thread_unlock :: "nat \<Rightarrow> SyncSystem \<Rightarrow> SyncSystem" where
  "thread_unlock i y =
     (let y' = y\<lparr>sy_sync := sync_unlock (sy_sync y), sy_thread := (sy_thread y)(i := Idle)\<rparr>
      in if ts_taskQueue (sy_sync y) \<noteq> [] then y'\<lparr>sy_thread := wake \<circ> sy_thread y'\<rparr> else y')"

text \<open>Steps of the threads inside the lock; then those of new callers and spurious wake-ups.\<close>

inductive lock_step :: "SyncSystem \<Rightarrow> SyncSystem \<Rightarrow> bool" where
  lock_taken: "sy_thread y i = Waiting taskID \<Longrightarrow> waitInQueue_over (sy_sync y) taskID \<Longrightarrow>
    lock_step y (y\<lparr>sy_thread := (sy_thread y)(i := Holding taskID)\<rparr>)"
| lock_sleep: "sy_thread y i = Waiting taskID \<Longrightarrow> \<not> waitInQueue_over (sy_sync y) taskID \<Longrightarrow>
    lock_step y (y\<lparr>sy_thread := (sy_thread y)(i := Asleep taskID)\<rparr>)"
| unlock: "sy_thread y i = Holding taskID \<Longrightarrow> lock_step y (thread_unlock i y)"

inductive sync_step :: "SyncSystem \<Rightarrow> SyncSystem \<Rightarrow> bool" where
  lock_queued: "sy_thread y i = Idle \<Longrightarrow> addTaskToQueue (sy_sync y) = (Inr taskID, s) \<Longrightarrow>
    sync_step y \<lparr>sy_sync = s, sy_thread = (sy_thread y)(i := Waiting taskID), sy_calls = Suc (sy_calls y)\<rparr>"
| lock_refused: "sy_thread y i = Idle \<Longrightarrow> addTaskToQueue (sy_sync y) = (Inl e, s) \<Longrightarrow>
    sync_step y \<lparr>sy_sync = s, sy_thread = sy_thread y, sy_calls = Suc (sy_calls y)\<rparr>"
| spurious: "sy_thread y i = Asleep taskID \<Longrightarrow>
    sync_step y (y\<lparr>sy_thread := (sy_thread y)(i := Waiting taskID)\<rparr>)"
| inside: "lock_step y y' \<Longrightarrow> sync_step y y'"

abbreviation sync_reachable :: "SyncSystem \<Rightarrow> bool" where
  "sync_reachable \<equiv> sync_step\<^sup>*\<^sup>* sync_init"

fun ticket :: "LockPc \<Rightarrow> 32 word option" where
  "ticket Idle = None"
| "ticket (Waiting taskID) = Some taskID"
| "ticket (Asleep taskID) = Some taskID"
| "ticket (Holding taskID) = Some taskID"

section \<open>The lock excludes\<close>

text \<open>
  The queue holds tickets in the order they were drawn. As long as fewer than \<open>2^32\<close> were
  drawn, no two of them are equal; every waiting or holding thread owns one of them, and the
  holder owns the first.
\<close>

definition tickets_ok :: "SyncSystem \<Rightarrow> bool" where
  "tickets_ok y \<longleftrightarrow> ts_taskCount (sy_sync y) = of_nat (sy_calls y) \<and>
     length (ts_taskQueue (sy_sync y)) \<le> MAX_NUMBER_OF_TASKS_IN_QUEUE \<and>
     (\<exists>ks. sorted_wrt (<) ks \<and> (\<forall>k \<in> set ks. k < sy_calls y) \<and> ts_taskQueue (sy_sync y) = map of_nat ks)"

definition owners_ok :: "SyncSystem \<Rightarrow> bool" where
  "owners_ok y \<longleftrightarrow> (\<forall>i t. ticket (sy_thread y i) = Some t \<longrightarrow> t \<in> set (ts_taskQueue (sy_sync y))) \<and>
     (\<forall>i j t. ticket (sy_thread y i) = Some t \<longrightarrow> ticket (sy_thread y j) = Some t \<longrightarrow> i = j) \<and>
     (\<forall>t \<in> set (ts_taskQueue (sy_sync y)). \<exists>i. ticket (sy_thread y i) = Some t) \<and>
     (\<forall>i t. sy_thread y i = Holding t \<longrightarrow> waitInQueue_over (sy_sync y) t) \<and>
     (\<forall>i t. sy_thread y i = Asleep t \<longrightarrow> \<not> waitInQueue_over (sy_sync y) t)"

lemma ticket_wake [simp]: "ticket (wake p) = ticket p"
  by (cases p) auto

lemma wake_simps [simp]:
  "(wake p = Holding t) = (p = Holding t)" "(wake p = Idle) = (p = Idle)" "wake p \<noteq> Asleep t"
  by (cases p; simp)+

lemma thread_unlock_select [simp]:
  "sy_sync (thread_unlock i y) = sync_unlock (sy_sync y)" "sy_calls (thread_unlock i y) = sy_calls y"
  "ts_taskQueue (sy_sync y) \<noteq> [] \<Longrightarrow> sy_thread (thread_unlock i y) = wake \<circ> (sy_thread y)(i := Idle)"
  by (simp_all add: thread_unlock_def Let_def)

lemma of_nat_word32_inj: "inj_on (of_nat :: nat \<Rightarrow> 32 word) {..<2 ^ 32}"
  by (rule inj_on_inverseI [of _ unat]) (simp add: unsigned_of_nat take_bit_nat_eq_self)

lemma tickets_distinct:
  assumes "tickets_ok y" and "sy_calls y \<le> 2 ^ 32"
  shows "distinct (ts_taskQueue (sy_sync y))"
proof -
  obtain ks where ks: "sorted_wrt (<) ks" "\<forall>k \<in> set ks. k < sy_calls y"
    "ts_taskQueue (sy_sync y) = map of_nat ks"
    using assms(1) by (auto simp: tickets_ok_def)
  have "set ks \<subseteq> {..<2 ^ 32}" using ks(2) assms(2) by auto
  moreover have "distinct ks" using ks(1) by (simp add: strict_sorted_iff)
  ultimately show ?thesis
    by (metis distinct_map inj_on_subset ks(3) of_nat_word32_inj)
qed

lemma lock_step_calls: "lock_step y y' \<Longrightarrow> sy_calls y' = sy_calls y"
  by (induction rule: lock_step.induct) auto

lemma sync_step_calls: "sync_step y y' \<Longrightarrow> sy_calls y \<le> sy_calls y'"
  by (induction rule: sync_step.induct) (auto simp: lock_step_calls)

lemma fresh_ticket:
  assumes "tickets_ok y" and "sy_calls y < 2 ^ 32"
  shows "(of_nat (sy_calls y) :: 32 word) \<notin> set (ts_taskQueue (sy_sync y))"
proof
  assume "of_nat (sy_calls y) \<in> set (ts_taskQueue (sy_sync y))"
  then obtain k where "k < sy_calls y" "(of_nat (sy_calls y) :: 32 word) = of_nat k"
    using assms(1) unfolding tickets_ok_def by (metis imageE list.set_map)
  with assms(2) have "sy_calls y = k"
    by (intro inj_onD [OF of_nat_word32_inj]) auto
  with \<open>k < sy_calls y\<close> show False by simp
qed

lemma lock_step_tickets: "lock_step y y' \<Longrightarrow> tickets_ok y \<Longrightarrow> tickets_ok y'"
proof (induction rule: lock_step.induct)
  case (unlock y i taskID)
  then obtain ks where ks: "sorted_wrt (<) ks" "\<forall>k \<in> set ks. k < sy_calls y"
    "ts_taskQueue (sy_sync y) = map of_nat ks"
    by (auto simp: tickets_ok_def)
  then have "sorted_wrt (<) (tl ks)" "\<forall>k \<in> set (tl ks). k < sy_calls y"
    "ts_taskQueue (sync_unlock (sy_sync y)) = map of_nat (tl ks)"
    by (cases ks; simp add: sync_unlock_def)+
  moreover have "ts_taskCount (sync_unlock (sy_sync y)) = of_nat (sy_calls y)"
    "length (ts_taskQueue (sync_unlock (sy_sync y))) \<le> MAX_NUMBER_OF_TASKS_IN_QUEUE"
    using unlock by (auto simp: tickets_ok_def sync_unlock_def)
  ultimately show ?case by (auto simp: tickets_ok_def simp del: length_map)
qed (auto simp: tickets_ok_def)

lemma sync_step_tickets: "sync_step y y' \<Longrightarrow> tickets_ok y \<Longrightarrow> tickets_ok y'"
proof (induction rule: sync_step.induct)
  case (lock_queued y i taskID s)
  then obtain ks where ks: "sorted_wrt (<) ks" "\<forall>k \<in> set ks. k < sy_calls y"
    "ts_taskQueue (sy_sync y) = map of_nat ks"
    by (auto simp: tickets_ok_def)
  let ?ks = "ks @ [sy_calls y]"
  have "sorted_wrt (<) ?ks" "\<forall>k \<in> set ?ks. k < Suc (sy_calls y)"
    using ks by (auto simp: sorted_wrt_append less_Suc_eq)
  moreover have "ts_taskQueue s = map of_nat ?ks" "ts_taskCount s = of_nat (Suc (sy_calls y))"
    "length (ts_taskQueue s) \<le> MAX_NUMBER_OF_TASKS_IN_QUEUE"
    using lock_queued ks(3) [symmetric]
    by (auto simp: addTaskToQueue_def tickets_ok_def Let_def MAX_NUMBER_OF_TASKS_IN_QUEUE_def split: if_splits)
  ultimately show ?case unfolding tickets_ok_def by (metis SyncSystem.select_convs(1,3))
next
  case (lock_refused y i e s)
  then have "ts_taskQueue s = ts_taskQueue (sy_sync y)" "ts_taskCount s = of_nat (Suc (sy_calls y))"
    by (auto simp: addTaskToQueue_def tickets_ok_def Let_def split: if_splits)
  with lock_refused show ?case by (auto simp: tickets_ok_def intro: less_SucI)
next
  case (inside y y')
  then show ?case by (simp add: lock_step_tickets)
qed (auto simp: tickets_ok_def)

lemma lock_step_owners:
  assumes "lock_step y y'" "tickets_ok y" "owners_ok y" "sy_calls y \<le> 2 ^ 32"
  shows "owners_ok y'"
  using assms
proof (induction rule: lock_step.induct)
  case (lock_taken y i taskID)
  then have "ticket (((sy_thread y)(i := Holding taskID)) j) = ticket (sy_thread y j)" for j by simp
  with lock_taken show ?case by (simp add: owners_ok_def del: fun_upd_apply) (simp split: if_splits)
next
  case (lock_sleep y i taskID)
  then have "ticket (((sy_thread y)(i := Asleep taskID)) j) = ticket (sy_thread y j)" for j by simp
  with lock_sleep show ?case by (simp add: owners_ok_def del: fun_upd_apply) (simp split: if_splits)
next
  case (unlock y i taskID)
  then have q: "ts_taskQueue (sy_sync y) \<noteq> []" "hd (ts_taskQueue (sy_sync y)) = taskID"
    by (auto simp: owners_ok_def waitInQueue_over_def)
  then obtain rest where rest: "ts_taskQueue (sy_sync y) = taskID # rest"
    by (metis list.collapse)
  have "distinct (taskID # rest)"
    using tickets_distinct [of y] unlock rest by simp
  moreover have "sy_thread y j \<noteq> Holding t" if "j \<noteq> i" for j t
  proof
    assume "sy_thread y j = Holding t"
    with unlock.prems(2) have "waitInQueue_over (sy_sync y) t" by (simp add: owners_ok_def)
    with rest have "t = taskID" by (simp add: waitInQueue_over_def)
    with \<open>sy_thread y j = Holding t\<close> unlock that show False
      by (metis owners_ok_def ticket.simps(4))
  qed
  moreover have i: "ticket (sy_thread y i) = Some taskID" using unlock by simp
  have "t \<in> set rest" if "ticket (sy_thread y j) = Some t" "j \<noteq> i" for j t
    using that i rest unlock.prems(2) unfolding owners_ok_def by (metis set_ConsD)
  moreover have "\<exists>j. j \<noteq> i \<and> ticket (sy_thread y j) = Some t" if "t \<in> set rest" for t
    using that i rest unlock.prems(2) \<open>distinct (taskID # rest)\<close> unfolding owners_ok_def
    by (metis distinct.simps(2) list.set_intros(2) option.inject)
  moreover have "j = k" if "ticket (sy_thread y j) = Some t" "ticket (sy_thread y k) = Some t" for j k t
    using that unlock.prems(2) unfolding owners_ok_def by blast
  ultimately show ?case
    unfolding owners_ok_def by (simp add: sync_unlock_def rest) blast
qed

lemma sync_step_owners:
  assumes "sync_step y y'" "tickets_ok y" "owners_ok y" "sy_calls y' \<le> 2 ^ 32"
  shows "owners_ok y'"
  using assms
proof (induction rule: sync_step.induct)
  case (lock_queued y i taskID s)
  then have s: "taskID = of_nat (sy_calls y)" "ts_taskQueue s = ts_taskQueue (sy_sync y) @ [taskID]"
    by (auto simp: addTaskToQueue_def tickets_ok_def Let_def split: if_splits)
  have fresh: "taskID \<notin> set (ts_taskQueue (sy_sync y))"
    using fresh_ticket [of y] lock_queued s(1) by simp
  note own = lock_queued.prems(2) [unfolded owners_ok_def]
  let ?th = "(sy_thread y)(i := Waiting taskID)"
  have queued: "t \<in> set (ts_taskQueue (sy_sync y))" if "ticket (sy_thread y j) = Some t" for j t
    using that own by blast
  have over: "waitInQueue_over s t = waitInQueue_over (sy_sync y) t" if "ticket (sy_thread y j) = Some t" for j t
    using queued [OF that] s(2) by (cases "ts_taskQueue (sy_sync y)") (auto simp: waitInQueue_over_def)
  have "\<exists>j. ticket (?th j) = Some t" if "t \<in> set (ts_taskQueue s)" for t
  proof (cases "t = taskID")
    case False
    then have "t \<in> set (ts_taskQueue (sy_sync y))" using that s(2) by simp
    then obtain j where j: "ticket (sy_thread y j) = Some t" using own by blast
    then have "j \<noteq> i" using lock_queued(1) by auto
    with j show ?thesis by (intro exI [of _ j]) simp
  qed (auto intro: exI [of _ i])
  moreover have "j = k" if "ticket (?th j) = Some t" "ticket (?th k) = Some t" for j k t
    using that queued [of j t] queued [of k t] fresh own by (auto split: if_splits)
  moreover have "t \<in> set (ts_taskQueue s)" if "ticket (?th j) = Some t" for j t
    using that queued s(2) by (auto split: if_splits)
  moreover have "waitInQueue_over s t" if "?th j = Holding t" for j t
    using that over [of j t] own by (auto split: if_splits)
  moreover have "\<not> waitInQueue_over s t" if "?th j = Asleep t" for j t
    using that over [of j t] own by (auto split: if_splits)
  ultimately show ?case unfolding owners_ok_def SyncSystem.select_convs by blast
next
  case (lock_refused y i e s)
  then have "ts_taskQueue s = ts_taskQueue (sy_sync y)"
    by (auto simp: addTaskToQueue_def Let_def split: if_splits)
  with lock_refused show ?case by (simp add: owners_ok_def waitInQueue_over_def)
next
  case (spurious y i taskID)
  then have "ticket (((sy_thread y)(i := Waiting taskID)) j) = ticket (sy_thread y j)" for j by simp
  with spurious show ?case by (simp add: owners_ok_def del: fun_upd_apply) (simp split: if_splits)
next
  case (inside y y')
  then show ?case by (auto simp: lock_step_calls intro: lock_step_owners)
qed

lemma sync_reachable_inv:
  "sync_reachable y \<Longrightarrow> sy_calls y \<le> 2 ^ 32 \<Longrightarrow> tickets_ok y \<and> owners_ok y"
proof (induction rule: rtranclp_induct)
  case base
  show ?case
    by (auto simp: tickets_ok_def owners_ok_def sync_init_def mk_TaskSynchronizer_def
        waitInQueue_over_def intro!: exI [of _ "[]"])
next
  case (step y z)
  from sync_step_calls [OF step.hyps(2)] step have "tickets_ok y \<and> owners_ok y" by simp
  with step show ?case by (blast intro: sync_step_tickets sync_step_owners)
qed

section \<open>The lock is passed on\<close>

definition waiters :: "SyncSystem \<Rightarrow> nat set" where
  "waiters y = {i. \<exists>t. sy_thread y i = Waiting t}"

definition lock_work :: "SyncSystem \<Rightarrow> nat" where
  "lock_work y = Suc MAX_NUMBER_OF_TASKS_IN_QUEUE * length (ts_taskQueue (sy_sync y)) + card (waiters y)"

lemma waiters_bound:
  assumes "owners_ok y" shows "finite (waiters y)" "card (waiters y) \<le> length (ts_taskQueue (sy_sync y))"
proof -
  let ?f = "\<lambda>i. the (ticket (sy_thread y i))"
  have f: "inj_on ?f (waiters y)" "?f ` waiters y \<subseteq> set (ts_taskQueue (sy_sync y))"
    using assms by (auto simp: owners_ok_def waiters_def intro!: inj_onI) (metis ticket.simps(2))+
  show "finite (waiters y)" using inj_on_finite [OF f] by simp
  have "card (waiters y) \<le> card (set (ts_taskQueue (sy_sync y)))" by (rule card_inj_on_le [OF f]) simp
  then show "card (waiters y) \<le> length (ts_taskQueue (sy_sync y))" by (meson card_length le_trans)
qed

lemma lock_step_inv:
  "lock_step y z \<Longrightarrow> sy_calls y \<le> 2 ^ 32 \<Longrightarrow> tickets_ok y \<and> owners_ok y \<Longrightarrow>
    sy_calls z \<le> 2 ^ 32 \<and> tickets_ok z \<and> owners_ok z"
  by (simp add: lock_step_calls lock_step_tickets lock_step_owners)

lemma lock_step_work:
  assumes "lock_step y z" "tickets_ok y" "owners_ok y" "sy_calls y \<le> 2 ^ 32"
  shows "lock_work z < lock_work y"
proof -
  have z: "owners_ok z" using lock_step_owners assms by blast
  note fin = waiters_bound [OF assms(3)]
  have fewer: "card (waiters y - {i}) < card (waiters y)" if "i \<in> waiters y" for i
    using card_Diff1_less [OF fin(1) that] .
  from assms(1) show ?thesis
  proof cases
    case (lock_taken i taskID)
    then have "waiters z = waiters y - {i}" "i \<in> waiters y" by (auto simp: waiters_def)
    with lock_taken(1) fewer show ?thesis by (simp add: lock_work_def)
  next
    case (lock_sleep i taskID)
    then have "waiters z = waiters y - {i}" "i \<in> waiters y" by (auto simp: waiters_def)
    with lock_sleep(1) fewer show ?thesis by (simp add: lock_work_def)
  next
    case (unlock i taskID)
    then have "ts_taskQueue (sy_sync y) \<noteq> []" using assms(3) by (auto simp: owners_ok_def waitInQueue_over_def)
    then have "Suc (length (ts_taskQueue (sy_sync z))) = length (ts_taskQueue (sy_sync y))"
      using unlock(1) by (simp add: sync_unlock_def)
    moreover have "length (ts_taskQueue (sy_sync y)) \<le> 10"
      using assms(2) by (simp add: tickets_ok_def MAX_NUMBER_OF_TASKS_IN_QUEUE_def)
    ultimately show ?thesis
      using waiters_bound(2) [OF z] unfolding lock_work_def MAX_NUMBER_OF_TASKS_IN_QUEUE_def by simp
  qed
qed

lemma lock_steps_bound:
  "(lock_step ^^ n) y z \<Longrightarrow> sy_calls y \<le> 2 ^ 32 \<Longrightarrow> tickets_ok y \<and> owners_ok y \<Longrightarrow>
    sy_calls z \<le> 2 ^ 32 \<and> tickets_ok z \<and> owners_ok z \<and> n + lock_work z \<le> lock_work y"
proof (induction n arbitrary: z)
  case (Suc n)
  then obtain x where x: "(lock_step ^^ n) y x" "lock_step x z" by auto
  with Suc have "sy_calls x \<le> 2 ^ 32 \<and> tickets_ok x \<and> owners_ok x \<and> n + lock_work x \<le> lock_work y" by blast
  with lock_step_inv [OF x(2)] lock_step_work [OF x(2)] show ?case by fastforce
qed simp

text \<open>The owner of the first ticket is never asleep, so that it or the holder can go on.\<close>

lemma lock_not_stuck:
  assumes "owners_ok y" "\<nexists>z. lock_step y z"
  shows "ts_taskQueue (sy_sync y) = []" "sy_thread y i = Idle"
proof -
  show "ts_taskQueue (sy_sync y) = []"
  proof (rule ccontr)
    assume q: "ts_taskQueue (sy_sync y) \<noteq> []"
    then obtain j where j: "ticket (sy_thread y j) = Some (hd (ts_taskQueue (sy_sync y)))"
      using assms(1) unfolding owners_ok_def by (meson hd_in_set)
    have over: "waitInQueue_over (sy_sync y) (hd (ts_taskQueue (sy_sync y)))"
      using q by (simp add: waitInQueue_over_def)
    from j over assms(1) have "sy_thread y j = Waiting (hd (ts_taskQueue (sy_sync y))) \<or>
        sy_thread y j = Holding (hd (ts_taskQueue (sy_sync y)))"
      unfolding owners_ok_def by (cases "sy_thread y j") auto
    with assms(2) over show False by (blast intro: lock_step.intros)
  qed
  with assms(1) show "sy_thread y i = Idle"
    unfolding owners_ok_def by (cases "sy_thread y i") (metis empty_iff empty_set ticket.simps)+
qed

section \<open>Properties\<close>

text \<open>
  C12. Mutual exclusion of the ticket lock: under every interleaving of threads that lock and
  unlock a \<open>TaskSynchronizer\<close>, at most one thread is past \<open>lock\<close>, although the ticket numbers
  are 32 bits wide, the queue is bounded and drawing a ticket may throw, as long as no more than
  \<open>2^32\<close> tickets were drawn.
\<close>

theorem synchronizer_mutual_exclusion:
  assumes "sync_step\<^sup>*\<^sup>* sync_init y" and "sy_calls y \<le> 2 ^ 32"
    and "sy_thread y i = Holding t" and "sy_thread y j = Holding u"
  shows "i = j \<and> t = u \<and> waitInQueue_over (sy_sync y) t"
proof -
  have "owners_ok y" using sync_reachable_inv assms(1,2) by blast
  then have "waitInQueue_over (sy_sync y) t" "waitInQueue_over (sy_sync y) u"
    using assms(3,4) by (auto simp: owners_ok_def)
  then have "t = u" by (simp add: waitInQueue_over_def)
  with \<open>owners_ok y\<close> assms(3,4) have "i = j" by (metis owners_ok_def ticket.simps(4))
  with \<open>t = u\<close> \<open>waitInQueue_over (sy_sync y) t\<close> show ?thesis by simp
qed

text \<open>
  C13. The lock is never stuck and no wake-up is lost: from every reachable state, when no new
  thread calls \<open>lock\<close>, every holder unlocks and no wake-up is spurious, the threads inside take a
  bounded number of steps, and when none of them can go on, all of them have left: nobody sleeps on
  \<open>_taskCondVar\<close> any more and the queue is empty. At any time fewer than ten threads are before
  a waiting one. At most \<open>2^32\<close> tickets were drawn.
\<close>

theorem synchronizer_progress:
  assumes "sync_step\<^sup>*\<^sup>* sync_init y" and "sy_calls y \<le> 2 ^ 32"
  shows "(\<forall>n z. (lock_step ^^ n) y z \<longrightarrow> n \<le> lock_work y) \<and>
    (\<forall>z. lock_step\<^sup>*\<^sup>* y z \<longrightarrow> (\<nexists>z'. lock_step z z') \<longrightarrow>
      (\<forall>i. sy_thread z i = Idle) \<and> ts_taskQueue (sy_sync z) = []) \<and>
    (\<forall>i t. ticket (sy_thread y i) = Some t \<longrightarrow>
      length (takeWhile (\<lambda>u. u \<noteq> t) (ts_taskQueue (sy_sync y))) < MAX_NUMBER_OF_TASKS_IN_QUEUE)"
proof (intro conjI allI impI)
  have inv: "tickets_ok y \<and> owners_ok y" using sync_reachable_inv assms by blast
  note bound = lock_steps_bound [OF _ assms(2) inv]
  show "n \<le> lock_work y" if "(lock_step ^^ n) y z" for n z using bound [OF that] by simp
  fix z assume z: "lock_step\<^sup>*\<^sup>* y z" "\<nexists>z'. lock_step z z'"
  then have "owners_ok z" using bound by (auto simp: rtranclp_power)
  from lock_not_stuck [OF this z(2)] show "sy_thread z i = Idle" "ts_taskQueue (sy_sync z) = []" for i
    by simp_all
next
  fix i t assume t: "ticket (sy_thread y i) = Some t"
  have inv: "tickets_ok y" "owners_ok y" using sync_reachable_inv assms by blast+
  then have "t \<in> set (ts_taskQueue (sy_sync y))" using t unfolding owners_ok_def by blast
  from takeWhile_before [OF this] inv(1)
  show "length (takeWhile (\<lambda>u. u \<noteq> t) (ts_taskQueue (sy_sync y))) < MAX_NUMBER_OF_TASKS_IN_QUEUE"
    by (simp add: tickets_ok_def)
qed

text \<open>Two threads, of which the first has the lock.\<close>

definition ex_sync :: SyncSystem where
  "ex_sync = \<lparr>sy_sync = \<lparr>ts_taskCount = 2, ts_taskQueue = [0, 1]\<rparr>,
     sy_thread = ((\<lambda>_. Idle)(0 := Waiting 0, 1 := Waiting 1))(0 := Holding 0), sy_calls = 2\<rparr>"

lemma ex_sync_reachable: "sync_step\<^sup>*\<^sup>* sync_init ex_sync"
proof -
  let ?q = "\<lambda>n q. \<lparr>ts_taskCount = n, ts_taskQueue = q\<rparr>"
  let ?y1 = "\<lparr>sy_sync = ?q 1 [0], sy_thread = (\<lambda>_. Idle)(0 := Waiting 0), sy_calls = 1\<rparr>"
  let ?y2 = "\<lparr>sy_sync = ?q 2 [0, 1], sy_thread = (\<lambda>_. Idle)(0 := Waiting 0, 1 := Waiting 1), sy_calls = 2\<rparr>"
  have "sync_step sync_init ?y1"
    using sync_step.lock_queued [of sync_init 0 0 "?q 1 [0]"]
    by (simp add: sync_init_def mk_TaskSynchronizer_def addTaskToQueue_def Let_def)
  moreover have "sync_step ?y1 ?y2"
    using sync_step.lock_queued [of ?y1 1 1 "?q 2 [0, 1]"]
    by (simp add: addTaskToQueue_def Let_def MAX_NUMBER_OF_TASKS_IN_QUEUE_def numeral_2_eq_2)
  moreover have "sync_step ?y2 ex_sync"
    using sync_step.inside [OF lock_step.lock_taken [of ?y2 0 0]] by (simp add: waitInQueue_over_def ex_sync_def)
  ultimately show ?thesis by (meson converse_rtranclp_into_rtranclp rtranclp.rtrancl_refl)
qed

theorem synchronizer_mutual_exclusion_witness:
  "waitInQueue_over (sy_sync ex_sync) 0 \<and> sy_thread ex_sync 1 = Waiting 1"
  using synchronizer_mutual_exclusion [OF ex_sync_reachable, of 0 0 0 0] by (simp add: ex_sync_def)

text \<open>From there the second thread falls asleep, is woken by the unlock of the first, and leaves.\<close>

theorem synchronizer_progress_witness:
  "\<exists>z. (lock_step ^^ 4) ex_sync z \<and> 4 \<le> lock_work ex_sync \<and> sy_thread z 1 = Idle"
proof -
  let ?s = "ex_sync\<lparr>sy_thread := (sy_thread ex_sync)(1 := Asleep 1)\<rparr>"
  let ?u = "thread_unlock 0 ?s"
  let ?h = "?u\<lparr>sy_thread := (sy_thread ?u)(1 := Holding 1)\<rparr>"
  let ?z = "thread_unlock 1 ?h"
  have "lock_step ex_sync ?s" by (rule lock_step.lock_sleep) (simp_all add: ex_sync_def waitInQueue_over_def)
  moreover have "lock_step ?s ?u" by (rule lock_step.unlock) (simp add: ex_sync_def)
  moreover have "lock_step ?u ?h"
    by (rule lock_step.lock_taken) (simp_all add: ex_sync_def waitInQueue_over_def sync_unlock_def)
  moreover have "lock_step ?h ?z" by (rule lock_step.unlock) simp
  ultimately have run: "(lock_step ^^ 4) ex_sync ?z" by (auto simp: numeral_eq_Suc)
  moreover have "sy_thread ?z j = Idle" for j by (simp add: ex_sync_def thread_unlock_def Let_def sync_unlock_def)
  then have "\<nexists>z'. lock_step ?z z'" by (auto elim: lock_step.cases)
  moreover have "lock_step\<^sup>*\<^sup>* ex_sync ?z" using run by (auto simp: rtranclp_power)
  moreover have "sy_calls ex_sync \<le> 2 ^ 32" by (simp add: ex_sync_def)
  note synchronizer_progress [OF ex_sync_reachable this]
  ultimately show ?thesis by blast
qed

text \<open>
  C14. A task whose turn at the lock is refused stays occupied: when ten tasks are queued,
  \<open>runWithSynchronizer\<close> throws after it has marked the task busy, and every later call on that
  task returns \<open>TS_BUSY\<close> without running its function, whatever the state of the lock.
\<close>

theorem refused_task_stays_busy:
  assumes "length (ts_taskQueue s) = MAX_NUMBER_OF_TASKS_IN_QUEUE" and "tk_status t \<noteq> TS_BUSY"
  shows "\<exists>e t' s'. runWithSynchronizer f (t, s) = (Raised e, t', s') \<and> tk_status t' = TS_BUSY \<and>
    ts_taskQueue s' = ts_taskQueue s \<and>
    runWithSynchronizer g (t', s2) = (Returned TS_BUSY, t', s2)"
proof -
  have "ts_taskQueue s \<noteq> []" using assms(1) by (auto simp: MAX_NUMBER_OF_TASKS_IN_QUEUE_def)
  with assms show ?thesis
    by (auto simp: runWithSynchronizer_def occupy_def addTaskToQueue_def Let_def)
qed

theorem refused_task_stays_busy_witness:
  "\<exists>t' s'. runWithSynchronizer (\<lambda>t. (None, t)) (t', s') = (Returned TS_BUSY, t', s') \<and>
    tk_status t' = TS_BUSY"
  using refused_task_stays_busy [of "\<lparr>ts_taskCount = 10, ts_taskQueue = [0, 1, 2, 3, 4, 5, 6, 7, 8, 9]\<rparr>"
      mk_Task "\<lambda>t. (None, t)" "\<lambda>t. (None, t)"]
  by (force simp: MAX_NUMBER_OF_TASKS_IN_QUEUE_def mk_Task_def)

end
