(* ===== verification/TaskExecutor.thy ===== *)
theory TaskExecutor
  imports Tasks
begin

text \<open>
  \<open>TaskExecutor\<close> (\<open>src/src/inference_engine/cpp_interfaces/ie_task_executor.cpp\<close>): a worker
  thread that runs queued tasks one at a time, \<open>startTask\<close> called by any number of client
  threads, \<open>Task::wait\<close>, and the destructor. A step is one section under a mutex or one
  unprotected access; a thread in \<open>condition_variable::wait\<close> checks its predicate, sleeps, and
  checks again only after a notification (or spuriously), so that a lost notification would
  show. \<open>xq_accepted\<close> and \<open>xq_executed\<close> record the history of pushed and of run tasks. By the
  rules of the language no call of \<open>startTask\<close> is in progress when the destructor starts, and
  none starts later.
\<close>

section \<open>State\<close>

datatype WorkerPc = W_Test | W_Check | W_Sleep | W_Run nat | W_Notify nat | W_Pop | W_Exit
datatype DtorPc = D_None | D_Check | D_Sleep | D_Join | D_Done
datatype WaiterPc = A_Idle | A_Check nat bool | A_Sleep nat bool | A_Return nat

record TaskExecutor =
  xq_task :: "nat \<Rightarrow> Task"
  xq_taskQueue :: "nat list"
  xq_isStopped :: bool
  xq_worker :: WorkerPc
  xq_dtor :: DtorPc
  xq_starting :: "nat list"
  xq_waiter :: "nat \<Rightarrow> WaiterPc"
  xq_accepted :: "nat list"
  xq_executed :: "nat list"

definition mk_TaskExecutor :: TaskExecutor where
  "mk_TaskExecutor = \<lparr>xq_task = (\<lambda>_. mk_Task), xq_taskQueue = [], xq_isStopped = False,
     xq_worker = W_Test, xq_dtor = D_None, xq_starting = [], xq_waiter = (\<lambda>_. A_Idle),
     xq_accepted = [], xq_executed = []\<rparr>"

section \<open>Notifications\<close>

fun wake_worker :: "WorkerPc \<Rightarrow> WorkerPc" where
  "wake_worker W_Sleep = W_Check"
| "wake_worker w = w"

fun wake_dtor :: "DtorPc \<Rightarrow> DtorPc" where
  "wake_dtor D_Sleep = D_Check"
| "wake_dtor d = d"

fun wake_waiter :: "nat \<Rightarrow> WaiterPc \<Rightarrow> WaiterPc" where
  "wake_waiter t (A_Sleep u timed) = (if u = t then A_Check u timed else A_Sleep u timed)"
| "wake_waiter t a = a"

text \<open>\<open>_queueCondVar.notify_all()\<close> and \<open>_isTaskDoneCondVar.notify_all()\<close> of one task.\<close>

definition notify_queue :: "TaskExecutor \<Rightarrow> TaskExecutor" where
  "notify_queue x = x\<lparr>xq_worker := wake_worker (xq_worker x), xq_dtor := wake_dtor (xq_dtor x)\<rparr>"

definition notify_task :: "nat \<Rightarrow> TaskExecutor \<Rightarrow> TaskExecutor" where
  "notify_task t x = x\<lparr>xq_waiter := wake_waiter t \<circ> xq_waiter x\<rparr>"

section \<open>The worker thread\<close>

definition worker_test :: "TaskExecutor \<Rightarrow> TaskExecutor" where
  "worker_test x = x\<lparr>xq_worker := (if xq_isStopped x then W_Exit else W_Check)\<rparr>"

definition worker_check :: "TaskExecutor \<Rightarrow> TaskExecutor" where
  "worker_check x = x\<lparr>xq_worker :=
     (if xq_taskQueue x = [] \<and> \<not> xq_isStopped x then W_Sleep
      else if xq_isStopped x \<and> xq_taskQueue x = [] then W_Exit
      else W_Run (hd (xq_taskQueue x)))\<rparr>"

definition worker_run :: "nat \<Rightarrow> ie_exception option \<Rightarrow> TaskExecutor \<Rightarrow> TaskExecutor" where
  "worker_run t outcome x = x\<lparr>
     xq_task := (xq_task x)(t := snd (runNoThrowNoBusyCheck (\<lambda>t. (outcome, t)) (xq_task x t))),
     xq_worker := W_Notify t, xq_executed := xq_executed x @ [t]\<rparr>"

definition worker_notify :: "nat \<Rightarrow> TaskExecutor \<Rightarrow> TaskExecutor" where
  "worker_notify t x = notify_task t (x\<lparr>xq_worker := W_Pop\<rparr>)"

definition worker_pop :: "TaskExecutor \<Rightarrow> TaskExecutor" where
  "worker_pop x =
     (let x = x\<lparr>xq_taskQueue := tl (xq_taskQueue x), xq_worker := W_Test\<rparr>
      in if xq_taskQueue x = [] then notify_queue x else x)"

section \<open>The destructor\<close>

definition dtor_check :: "TaskExecutor \<Rightarrow> TaskExecutor" where
  "dtor_check x =
     (if xq_taskQueue x \<noteq> [] then x\<lparr>xq_dtor := D_Sleep\<rparr>
      else notify_queue (x\<lparr>xq_isStopped := True, xq_dtor := D_Join\<rparr>))"

section \<open>Clients\<close>

definition start_occupy :: "nat \<Rightarrow> TaskExecutor \<Rightarrow> bool \<times> TaskExecutor" where
  "start_occupy t x =
     (let (ok, task) = occupy (xq_task x t) in
      if \<not> ok then (False, x)
      else (True, x\<lparr>xq_task := (xq_task x)(t := task), xq_starting := t # xq_starting x\<rparr>))"

definition start_push :: "nat \<Rightarrow> TaskExecutor \<Rightarrow> TaskExecutor" where
  "start_push t x = notify_queue (x\<lparr>xq_taskQueue := xq_taskQueue x @ [t],
     xq_starting := remove1 t (xq_starting x), xq_accepted := xq_accepted x @ [t]\<rparr>)"

definition wait_begin :: "nat \<Rightarrow> nat \<Rightarrow> bool \<Rightarrow> TaskExecutor \<Rightarrow> TaskExecutor" where
  "wait_begin a t timed x = x\<lparr>xq_task := (xq_task x)(t := (xq_task x t)\<lparr>tk_isOnWait := True\<rparr>),
     xq_waiter := (xq_waiter x)(a := A_Check t timed)\<rparr>"

definition wait_check :: "nat \<Rightarrow> nat \<Rightarrow> bool \<Rightarrow> TaskExecutor \<Rightarrow> TaskExecutor" where
  "wait_check a t timed x = x\<lparr>xq_waiter := (xq_waiter x)(a :=
     (if wait_over (xq_task x t) then A_Return t else A_Sleep t timed))\<rparr>"

definition wait_return :: "nat \<Rightarrow> nat \<Rightarrow> TaskExecutor \<Rightarrow> Status \<times> TaskExecutor" where
  "wait_return a t x =
     (let x = x\<lparr>xq_task := (xq_task x)(t := (xq_task x t)\<lparr>tk_isOnWait := False\<rparr>),
               xq_waiter := (xq_waiter x)(a := A_Idle)\<rparr>
      in (tk_status (xq_task x t), x))"

section \<open>Steps\<close>

text \<open>Steps of the worker and of a running destructor; steps of clients; spurious wake-ups.\<close>

inductive internal_step :: "TaskExecutor \<Rightarrow> TaskExecutor \<Rightarrow> bool" where
  test: "xq_worker x = W_Test \<Longrightarrow> internal_step x (worker_test x)"
| check: "xq_worker x = W_Check \<Longrightarrow> internal_step x (worker_check x)"
| run: "xq_worker x = W_Run t \<Longrightarrow> internal_step x (worker_run t outcome x)"
| notify: "xq_worker x = W_Notify t \<Longrightarrow> internal_step x (worker_notify t x)"
| pop: "xq_worker x = W_Pop \<Longrightarrow> internal_step x (worker_pop x)"
| dtor_check: "xq_dtor x = D_Check \<Longrightarrow> internal_step x (dtor_check x)"
| dtor_join: "xq_dtor x = D_Join \<Longrightarrow> xq_worker x = W_Exit \<Longrightarrow> internal_step x (x\<lparr>xq_dtor := D_Done\<rparr>)"

inductive client_step :: "TaskExecutor \<Rightarrow> TaskExecutor \<Rightarrow> bool" where
  occupied: "xq_dtor x = D_None \<Longrightarrow> start_occupy t x = (True, y) \<Longrightarrow> client_step x y"
| push: "t \<in> set (xq_starting x) \<Longrightarrow> client_step x (start_push t x)"
| dtor_begin: "xq_dtor x = D_None \<Longrightarrow> xq_starting x = [] \<Longrightarrow> client_step x (x\<lparr>xq_dtor := D_Check\<rparr>)"
| wait_begin: "xq_waiter x a = A_Idle \<Longrightarrow> client_step x (wait_begin a t timed x)"
| wait_check: "xq_waiter x a = A_Check t timed \<Longrightarrow> client_step x (wait_check a t timed x)"
| wait_timeout: "xq_waiter x a = A_Sleep t True \<Longrightarrow>
    client_step x (x\<lparr>xq_waiter := (xq_waiter x)(a := A_Return t)\<rparr>)"
| wait_return: "xq_waiter x a = A_Return t \<Longrightarrow> client_step x (snd (wait_return a t x))"

inductive spurious_step :: "TaskExecutor \<Rightarrow> TaskExecutor \<Rightarrow> bool" where
  worker: "xq_worker x = W_Sleep \<Longrightarrow> spurious_step x (x\<lparr>xq_worker := W_Check\<rparr>)"
| dtor: "xq_dtor x = D_Sleep \<Longrightarrow> spurious_step x (x\<lparr>xq_dtor := D_Check\<rparr>)"
| waiter: "xq_waiter x a = A_Sleep t timed \<Longrightarrow>
    spurious_step x (x\<lparr>xq_waiter := (xq_waiter x)(a := A_Check t timed)\<rparr>)"

definition any_step :: "TaskExecutor \<Rightarrow> TaskExecutor \<Rightarrow> bool" where
  "any_step x y \<longleftrightarrow> internal_step x y \<or> client_step x y \<or> spurious_step x y"

abbreviation exec_reachable :: "TaskExecutor \<Rightarrow> bool" where
  "exec_reachable \<equiv> any_step\<^sup>*\<^sup>* mk_TaskExecutor"

section \<open>Invariant\<close>

text \<open>The tasks pushed and not yet run; the head of the queue is run before it is popped.\<close>

fun after_run :: "WorkerPc \<Rightarrow> bool" where
  "after_run (W_Notify t) = True"
| "after_run W_Pop = True"
| "after_run w = False"

definition pending :: "TaskExecutor \<Rightarrow> nat list" where
  "pending x = (if after_run (xq_worker x) then tl (xq_taskQueue x) else xq_taskQueue x)"

definition worker_ok :: "TaskExecutor \<Rightarrow> bool" where
  "worker_ok x \<longleftrightarrow>
     (\<forall>t. xq_worker x = W_Run t \<or> xq_worker x = W_Notify t \<longrightarrow>
        xq_taskQueue x \<noteq> [] \<and> hd (xq_taskQueue x) = t) \<and>
     (xq_worker x = W_Pop \<longrightarrow> xq_taskQueue x \<noteq> []) \<and>
     (xq_worker x = W_Sleep \<longrightarrow> xq_taskQueue x = [] \<and> \<not> xq_isStopped x) \<and>
     (xq_worker x = W_Exit \<longrightarrow> xq_isStopped x)"

definition dtor_ok :: "TaskExecutor \<Rightarrow> bool" where
  "dtor_ok x \<longleftrightarrow> (xq_dtor x \<noteq> D_None \<longrightarrow> xq_starting x = []) \<and>
     (xq_dtor x = D_Sleep \<longrightarrow> xq_taskQueue x \<noteq> []) \<and>
     (xq_isStopped x \<longleftrightarrow> xq_dtor x = D_Join \<or> xq_dtor x = D_Done) \<and>
     (xq_isStopped x \<longrightarrow> xq_taskQueue x = []) \<and>
     (xq_dtor x = D_Done \<longrightarrow> xq_worker x = W_Exit)"

definition flight_ok :: "TaskExecutor \<Rightarrow> bool" where
  "flight_ok x \<longleftrightarrow> distinct (xq_starting x @ pending x) \<and>
     (\<forall>t \<in> set (xq_starting x @ pending x). tk_status (xq_task x t) = TS_BUSY)"

definition history_ok :: "TaskExecutor \<Rightarrow> bool" where
  "history_ok x \<longleftrightarrow> xq_accepted x = xq_executed x @ pending x"

definition waiters_ok :: "TaskExecutor \<Rightarrow> bool" where
  "waiters_ok x \<longleftrightarrow> (\<forall>a t timed. xq_waiter x a = A_Sleep t timed \<longrightarrow>
     \<not> wait_over (xq_task x t) \<or> xq_worker x = W_Notify t)"

definition exec_inv :: "TaskExecutor \<Rightarrow> bool" where
  "exec_inv x \<longleftrightarrow> worker_ok x \<and> dtor_ok x \<and> flight_ok x \<and> history_ok x \<and> waiters_ok x"

text \<open>A step that leaves the queue, the histories and the tasks alone keeps these parts.\<close>

lemma exec_invI: "worker_ok x \<Longrightarrow> dtor_ok x \<Longrightarrow> flight_ok x \<Longrightarrow> history_ok x \<Longrightarrow> waiters_ok x \<Longrightarrow> exec_inv x"
  by (simp add: exec_inv_def)

lemma exec_invD:
  assumes "exec_inv x"
  shows "worker_ok x" "dtor_ok x" "flight_ok x" "history_ok x" "waiters_ok x"
  using assms by (simp_all add: exec_inv_def)

lemma flight_ok_same:
  "flight_ok x \<Longrightarrow> xq_starting y = xq_starting x \<Longrightarrow> pending y = pending x \<Longrightarrow>
     (\<And>t. tk_status (xq_task y t) = tk_status (xq_task x t)) \<Longrightarrow> flight_ok y"
  by (simp add: flight_ok_def)

lemma history_ok_same:
  "history_ok x \<Longrightarrow> xq_accepted y = xq_accepted x \<Longrightarrow> xq_executed y = xq_executed x \<Longrightarrow>
     pending y = pending x \<Longrightarrow> history_ok y"
  by (simp add: history_ok_def)

lemmas keep_inv = flight_ok_same history_ok_same exec_invI

lemma wake_worker_simps [simp]:
  "(wake_worker w = W_Run t) = (w = W_Run t)" "(wake_worker w = W_Notify t) = (w = W_Notify t)"
  "(wake_worker w = W_Pop) = (w = W_Pop)" "(wake_worker w = W_Exit) = (w = W_Exit)"
  "(wake_worker w = W_Test) = (w = W_Test)" "wake_worker w \<noteq> W_Sleep"
  by (cases w; simp)+

lemma wake_dtor_simps [simp]:
  "(wake_dtor d = D_None) = (d = D_None)" "(wake_dtor d = D_Join) = (d = D_Join)"
  "(wake_dtor d = D_Done) = (d = D_Done)" "wake_dtor d \<noteq> D_Sleep"
  by (cases d; simp)+

lemma wake_waiter_sleep [simp]:
  "(wake_waiter t a = A_Sleep u timed) = (a = A_Sleep u timed \<and> u \<noteq> t)"
  by (cases a) auto

lemma after_run_wake [simp]: "after_run (wake_worker w) = after_run w"
  by (cases w) auto

lemma run_status: "snd (runNoThrowNoBusyCheck (\<lambda>t. (outcome, t)) t) = task_finish outcome (t\<lparr>tk_exceptionPtr := None\<rparr>)"
  by (simp add: runNoThrowNoBusyCheck_def Let_def)

text \<open>A notification keeps the invariant, and repairs a sleeper whose reason to sleep is gone.\<close>

lemma notify_queue_inv:
  assumes "dtor_ok (x\<lparr>xq_dtor := wake_dtor (xq_dtor x)\<rparr>)" "flight_ok x" "history_ok x" "waiters_ok x"
    and "worker_ok (x\<lparr>xq_worker := wake_worker (xq_worker x)\<rparr>)"
  shows "exec_inv (notify_queue x)"
proof -
  have "pending (notify_queue x) = pending x" by (simp add: pending_def notify_queue_def)
  with assms(2,3) have "flight_ok (notify_queue x)" "history_ok (notify_queue x)"
    by (auto simp: flight_ok_def history_ok_def notify_queue_def)
  moreover have "waiters_ok (notify_queue x)" using assms(4) by (simp add: waiters_ok_def notify_queue_def)
  moreover have "dtor_ok (notify_queue x)" using assms(1) by (simp add: dtor_ok_def notify_queue_def)
  moreover have "worker_ok (notify_queue x)" using assms(5) by (simp add: worker_ok_def notify_queue_def)
  ultimately show ?thesis by (simp add: exec_inv_def)
qed

lemma worker_pc_inv:
  assumes "exec_inv x" and "\<not> after_run (xq_worker x)" and "\<not> after_run w" and "xq_worker x \<noteq> W_Exit"
    and "worker_ok (x\<lparr>xq_worker := w\<rparr>)"
  shows "exec_inv (x\<lparr>xq_worker := w\<rparr>)"
proof -
  note inv = exec_invD [OF assms(1)]
  have p: "pending (x\<lparr>xq_worker := w\<rparr>) = pending x" using assms(2,3) by (simp add: pending_def)
  have "waiters_ok (x\<lparr>xq_worker := w\<rparr>)"
    using inv(5) assms(2) by (fastforce simp: waiters_ok_def)
  moreover have "dtor_ok (x\<lparr>xq_worker := w\<rparr>)" using inv(2) assms(4) by (auto simp: dtor_ok_def)
  moreover have "flight_ok (x\<lparr>xq_worker := w\<rparr>)" "history_ok (x\<lparr>xq_worker := w\<rparr>)"
    using inv(3,4) p by (auto intro: keep_inv)
  ultimately show ?thesis using assms(5) by (intro exec_invI)
qed

lemma worker_test_inv: "exec_inv x \<Longrightarrow> xq_worker x = W_Test \<Longrightarrow> exec_inv (worker_test x)"
  unfolding worker_test_def by (rule worker_pc_inv) (auto simp: worker_ok_def)

lemma worker_check_inv: "exec_inv x \<Longrightarrow> xq_worker x = W_Check \<Longrightarrow> exec_inv (worker_check x)"
  unfolding worker_check_def by (rule worker_pc_inv) (auto simp: worker_ok_def)

lemma worker_run_inv:
  assumes inv: "exec_inv x" and w: "xq_worker x = W_Run t"
  shows "exec_inv (worker_run t outcome x)"
proof -
  note inv = exec_invD [OF inv]
  obtain q where q: "xq_taskQueue x = t # q"
    using inv(1) w by (cases "xq_taskQueue x") (auto simp: worker_ok_def)
  have p: "pending x = t # q" "pending (worker_run t outcome x) = q"
    using w q by (simp_all add: pending_def worker_run_def)
  have "flight_ok (worker_run t outcome x)"
    using inv(3) p by (auto simp: flight_ok_def worker_run_def)
  moreover have "history_ok (worker_run t outcome x)"
    using inv(4) p by (simp add: history_ok_def worker_run_def)
  moreover have "waiters_ok (worker_run t outcome x)"
    using inv(5) w by (auto simp: waiters_ok_def worker_run_def)
  moreover have "worker_ok (worker_run t outcome x)" using q by (simp add: worker_ok_def worker_run_def)
  moreover have "dtor_ok (worker_run t outcome x)" using inv(2) w by (auto simp: dtor_ok_def worker_run_def)
  ultimately show ?thesis by (intro exec_invI)
qed

lemma worker_notify_inv:
  assumes inv: "exec_inv x" and w: "xq_worker x = W_Notify t"
  shows "exec_inv (worker_notify t x)"
proof -
  note inv = exec_invD [OF inv]
  have p: "pending (worker_notify t x) = pending x"
    using w by (simp add: pending_def worker_notify_def notify_task_def)
  have "flight_ok (worker_notify t x)" "history_ok (worker_notify t x)"
    using inv(3,4) p by (auto intro: keep_inv simp: worker_notify_def notify_task_def)
  moreover have "waiters_ok (worker_notify t x)"
    using inv(5) w by (auto simp: waiters_ok_def worker_notify_def notify_task_def)
  moreover have "worker_ok (worker_notify t x)"
    using inv(1) w by (simp add: worker_ok_def worker_notify_def notify_task_def)
  moreover have "dtor_ok (worker_notify t x)"
    using inv(2) w by (auto simp: dtor_ok_def worker_notify_def notify_task_def)
  ultimately show ?thesis by (intro exec_invI)
qed

lemma worker_pop_inv:
  assumes inv: "exec_inv x" and w: "xq_worker x = W_Pop"
  shows "exec_inv (worker_pop x)"
proof -
  note inv = exec_invD [OF inv]
  let ?x = "x\<lparr>xq_taskQueue := tl (xq_taskQueue x), xq_worker := W_Test\<rparr>"
  have p: "pending ?x = pending x" using w by (simp add: pending_def)
  have "flight_ok ?x" "history_ok ?x" using inv(3,4) p by (auto intro: keep_inv)
  moreover have "waiters_ok ?x" using inv(5) w by (simp add: waiters_ok_def)
  moreover have "worker_ok ?x" by (simp add: worker_ok_def)
  moreover have "worker_ok (?x\<lparr>xq_worker := wake_worker (xq_worker ?x)\<rparr>)" by (simp add: worker_ok_def)
  moreover have "dtor_ok (?x\<lparr>xq_dtor := wake_dtor (xq_dtor ?x)\<rparr>)"
    using inv(2) w by (auto simp: dtor_ok_def)
  moreover have "dtor_ok ?x" if "tl (xq_taskQueue x) \<noteq> []"
    using inv(2) w that by (auto simp: dtor_ok_def)
  ultimately show ?thesis
    by (auto simp: worker_pop_def Let_def intro: exec_invI notify_queue_inv)
qed

lemma dtor_check_inv:
  assumes inv: "exec_inv x" and d: "xq_dtor x = D_Check"
  shows "exec_inv (dtor_check x)"
proof (cases "xq_taskQueue x = []")
  case True
  note inv = exec_invD [OF inv]
  let ?x = "x\<lparr>xq_isStopped := True, xq_dtor := D_Join\<rparr>"
  have p: "pending ?x = pending x" by (simp add: pending_def)
  have "exec_inv (notify_queue ?x)"
  proof (rule notify_queue_inv)
    show "dtor_ok (?x\<lparr>xq_dtor := wake_dtor (xq_dtor ?x)\<rparr>)"
      using inv(2) d True by (auto simp: dtor_ok_def)
    show "worker_ok (?x\<lparr>xq_worker := wake_worker (xq_worker ?x)\<rparr>)"
      using inv(1) by (simp add: worker_ok_def)
    show "flight_ok ?x" "history_ok ?x" using inv(3,4) p by (auto intro: keep_inv)
    show "waiters_ok ?x" using inv(5) by (simp add: waiters_ok_def)
  qed
  with True show ?thesis by (simp add: dtor_check_def)
next
  case False
  note inv = exec_invD [OF inv]
  let ?x = "x\<lparr>xq_dtor := D_Sleep\<rparr>"
  have p: "pending ?x = pending x" by (simp add: pending_def)
  have "exec_inv ?x"
  proof (rule exec_invI)
    show "dtor_ok ?x" using inv(2) d False by (auto simp: dtor_ok_def)
    show "worker_ok ?x" using inv(1) by (simp add: worker_ok_def)
    show "flight_ok ?x" "history_ok ?x" using inv(3,4) p by (auto intro: keep_inv)
    show "waiters_ok ?x" using inv(5) by (simp add: waiters_ok_def)
  qed
  with False show ?thesis by (simp add: dtor_check_def)
qed

lemma dtor_join_inv:
  assumes inv: "exec_inv x" and d: "xq_dtor x = D_Join" "xq_worker x = W_Exit"
  shows "exec_inv (x\<lparr>xq_dtor := D_Done\<rparr>)"
proof -
  note inv = exec_invD [OF inv]
  have "pending (x\<lparr>xq_dtor := D_Done\<rparr>) = pending x" by (simp add: pending_def)
  with inv d show ?thesis
    by (intro exec_invI) (auto simp: dtor_ok_def worker_ok_def waiters_ok_def intro: keep_inv)
qed

lemma internal_step_inv: "internal_step x y \<Longrightarrow> exec_inv x \<Longrightarrow> exec_inv y"
  by (induction rule: internal_step.induct)
    (auto intro: worker_test_inv worker_check_inv worker_run_inv worker_notify_inv worker_pop_inv
      dtor_check_inv dtor_join_inv)

lemma waiter_step_inv:
  assumes inv: "exec_inv x" and same: "\<And>t. tk_status (ts t) = tk_status (xq_task x t)"
    and w: "waiters_ok (x\<lparr>xq_task := ts, xq_waiter := ws\<rparr>)"
  shows "exec_inv (x\<lparr>xq_task := ts, xq_waiter := ws\<rparr>)"
proof -
  note inv = exec_invD [OF inv]
  have "pending (x\<lparr>xq_task := ts, xq_waiter := ws\<rparr>) = pending x" by (simp add: pending_def)
  with inv w same show ?thesis
    by (intro exec_invI) (auto simp: dtor_ok_def worker_ok_def intro: keep_inv)
qed

lemma wait_over_status: "tk_status t = tk_status u \<Longrightarrow> wait_over t = wait_over u"
  by (simp add: wait_over_def)

lemma start_occupy_inv:
  assumes inv: "exec_inv x" and d: "xq_dtor x = D_None" and s: "start_occupy t x = (True, y)"
  shows "exec_inv y"
proof -
  note inv = exec_invD [OF inv]
  have nb: "tk_status (xq_task x t) \<noteq> TS_BUSY"
    and y: "y = x\<lparr>xq_task := (xq_task x)(t := (xq_task x t)\<lparr>tk_status := TS_BUSY\<rparr>),
      xq_starting := t # xq_starting x\<rparr>"
    using s by (auto simp: start_occupy_def occupy_def split: if_splits)
  have p: "pending y = pending x" using y by (simp add: pending_def)
  have "t \<notin> set (xq_starting x @ pending x)" using inv(3) nb unfolding flight_ok_def by blast
  then have "flight_ok y" using inv(3) y p by (auto simp: flight_ok_def)
  moreover have "history_ok y" using inv(4) y p by (simp add: history_ok_def)
  moreover have "waiters_ok y" using inv(5) y by (auto simp: waiters_ok_def wait_over_def)
  moreover have "worker_ok y" "dtor_ok y" using inv(1,2) y d by (auto simp: worker_ok_def dtor_ok_def)
  ultimately show ?thesis by (intro exec_invI)
qed

lemma start_push_inv:
  assumes inv: "exec_inv x" and t: "t \<in> set (xq_starting x)"
  shows "exec_inv (start_push t x)"
proof -
  note inv = exec_invD [OF inv]
  let ?x = "x\<lparr>xq_taskQueue := xq_taskQueue x @ [t], xq_starting := remove1 t (xq_starting x),
    xq_accepted := xq_accepted x @ [t]\<rparr>"
  have d: "xq_dtor x = D_None" using inv(2) t by (auto simp: dtor_ok_def)
  have q: "after_run (xq_worker x) \<Longrightarrow> xq_taskQueue x \<noteq> []"
    using inv(1) by (cases "xq_worker x") (auto simp: worker_ok_def)
  have p: "pending ?x = pending x @ [t]" using q by (simp add: pending_def)
  show ?thesis unfolding start_push_def
  proof (rule notify_queue_inv)
    show "dtor_ok (?x\<lparr>xq_dtor := wake_dtor (xq_dtor ?x)\<rparr>)" using inv(2) d by (auto simp: dtor_ok_def)
    show "worker_ok (?x\<lparr>xq_worker := wake_worker (xq_worker ?x)\<rparr>)"
      using inv(1) by (auto simp: worker_ok_def)
    show "flight_ok ?x" using inv(3) t p by (auto simp: flight_ok_def)
    show "history_ok ?x" using inv(4) p by (simp add: history_ok_def)
    show "waiters_ok ?x" using inv(5) by (simp add: waiters_ok_def)
  qed
qed

lemma dtor_pc_inv:
  assumes inv: "exec_inv x" and d: "xq_dtor x = D_None \<and> xq_starting x = [] \<or> xq_dtor x = D_Sleep"
  shows "exec_inv (x\<lparr>xq_dtor := D_Check\<rparr>)"
proof -
  note inv = exec_invD [OF inv]
  have "pending (x\<lparr>xq_dtor := D_Check\<rparr>) = pending x" by (simp add: pending_def)
  with inv d show ?thesis
    by (intro exec_invI) (auto simp: dtor_ok_def worker_ok_def waiters_ok_def intro: keep_inv)
qed

lemma waiter_pc_inv:
  assumes inv: "exec_inv x" and a: "\<And>t timed. p = A_Sleep t timed \<Longrightarrow> \<not> wait_over (xq_task x t)"
  shows "exec_inv (x\<lparr>xq_waiter := (xq_waiter x)(a := p)\<rparr>)"
proof -
  have "waiters_ok (x\<lparr>xq_task := xq_task x, xq_waiter := (xq_waiter x)(a := p)\<rparr>)"
    using exec_invD(5) [OF inv] a by (auto simp: waiters_ok_def split: if_splits)
  from waiter_step_inv [OF inv refl this] show ?thesis by simp
qed

lemma client_step_inv: "client_step x y \<Longrightarrow> exec_inv x \<Longrightarrow> exec_inv y"
proof (induction rule: client_step.induct)
  case (wait_begin x a t timed)
  then show ?case unfolding wait_begin_def
    by (intro waiter_step_inv) (use exec_invD(5) in \<open>auto simp: waiters_ok_def wait_over_def\<close>)
next
  case (wait_return x a t)
  from exec_invD(5) [OF wait_return.prems] have "waiters_ok x" .
  with wait_return show ?case unfolding wait_return_def Let_def snd_conv
    by (intro waiter_step_inv) (auto simp: waiters_ok_def wait_over_def)
qed (auto intro: start_occupy_inv start_push_inv dtor_pc_inv waiter_pc_inv simp: wait_check_def)

lemma spurious_step_inv: "spurious_step x y \<Longrightarrow> exec_inv x \<Longrightarrow> exec_inv y"
  by (induction rule: spurious_step.induct)
    (auto intro: waiter_pc_inv dtor_pc_inv worker_pc_inv simp: worker_ok_def)

lemma any_step_inv: "any_step x y \<Longrightarrow> exec_inv x \<Longrightarrow> exec_inv y"
  unfolding any_step_def using internal_step_inv client_step_inv spurious_step_inv by blast

lemma exec_reachable_inv: "exec_reachable x \<Longrightarrow> exec_inv x"
proof (induction rule: rtranclp_induct)
  case base
  show ?case
    by (intro exec_invI) (simp_all add: worker_ok_def dtor_ok_def flight_ok_def history_ok_def
        waiters_ok_def pending_def mk_TaskExecutor_def)
qed (rule any_step_inv)

section \<open>The executor as a queue\<close>

text \<open>
  The abstract executor: tasks to run in order, and the tasks already run. A client adds at the
  end, the worker moves the first.
\<close>

type_synonym fifo = "nat list \<times> nat list"

inductive fifo_step :: "fifo \<Rightarrow> fifo \<Rightarrow> bool" where
  fifo_add: "t \<notin> set todo \<Longrightarrow> fifo_step (todo, done) (todo @ [t], done)"
| fifo_run: "fifo_step (t # todo, done) (todo, done @ [t])"

inductive_cases fifo_stepE: "fifo_step f g"

definition abs_fifo :: "TaskExecutor \<Rightarrow> fifo" where
  "abs_fifo x = (pending x, xq_executed x)"

lemma abs_fifo_notify [simp]: "abs_fifo (notify_queue x) = abs_fifo x"
  by (simp add: abs_fifo_def notify_queue_def pending_def)

lemma internal_step_fifo:
  "internal_step x y \<Longrightarrow> exec_inv x \<Longrightarrow> abs_fifo y = abs_fifo x \<or> fifo_step (abs_fifo x) (abs_fifo y)"
proof (induction rule: internal_step.induct)
  case (run x t outcome)
  then obtain q where "xq_taskQueue x = t # q"
    by (cases "xq_taskQueue x") (auto simp: exec_inv_def worker_ok_def)
  with run show ?case by (simp add: abs_fifo_def pending_def worker_run_def fifo_run)
next
  case (pop x)
  then have "abs_fifo (worker_pop x) = abs_fifo x"
    by (simp add: worker_pop_def Let_def) (simp add: abs_fifo_def pending_def)
  then show ?case ..
next
  case (dtor_check x)
  then have "abs_fifo (dtor_check x) = abs_fifo x"
    by (simp add: dtor_check_def) (simp add: abs_fifo_def pending_def)
  then show ?case ..
qed (simp_all add: abs_fifo_def pending_def worker_test_def worker_check_def worker_notify_def notify_task_def)

lemma client_step_fifo:
  "client_step x y \<Longrightarrow> exec_inv x \<Longrightarrow> abs_fifo y = abs_fifo x \<or> fifo_step (abs_fifo x) (abs_fifo y)"
proof (induction rule: client_step.induct)
  case (push t x)
  then have "after_run (xq_worker x) \<Longrightarrow> xq_taskQueue x \<noteq> []"
    by (cases "xq_worker x") (auto simp: exec_inv_def worker_ok_def)
  then have "abs_fifo (start_push t x) = (pending x @ [t], xq_executed x)"
    by (simp add: start_push_def) (simp add: abs_fifo_def pending_def)
  moreover have "t \<notin> set (pending x)" using push by (auto simp: exec_inv_def flight_ok_def)
  ultimately show ?case by (simp add: abs_fifo_def fifo_add)
qed (auto simp: abs_fifo_def pending_def wait_begin_def wait_check_def wait_return_def start_occupy_def
    split: prod.splits if_splits)

lemma spurious_step_fifo: "spurious_step x y \<Longrightarrow> abs_fifo y = abs_fifo x"
  by (induction rule: spurious_step.induct) (simp_all add: abs_fifo_def pending_def)

text \<open>
  C15. The concurrent executor refines a FIFO queue: every step of the worker, of a client, of
  the destructor or of a spurious wake-up either leaves the abstract queue alone, or adds a task
  that is not in it, or runs its first task.
\<close>

theorem executor_refines_fifo:
  assumes "any_step\<^sup>*\<^sup>* mk_TaskExecutor x" and "any_step x y"
  shows "abs_fifo y = abs_fifo x \<or> fifo_step (abs_fifo x) (abs_fifo y)"
  using assms exec_reachable_inv [OF assms(1)] internal_step_fifo client_step_fifo spurious_step_fifo
  unfolding any_step_def by blast

text \<open>
  Under every interleaving the tasks run so far are the first tasks that \<open>startTask\<close>
  accepted, in the order of their push, each once per accepted start; the rest is pending. A task
  is in flight at most once, and then busy, so a second \<open>startTask\<close> of it is refused.
\<close>

theorem executor_runs_in_order:
  assumes "any_step\<^sup>*\<^sup>* mk_TaskExecutor x"
  shows "xq_accepted x = xq_executed x @ pending x \<and> distinct (xq_starting x @ pending x) \<and>
    (\<forall>t \<in> set (xq_starting x @ pending x). start_occupy t x = (False, x))"
  using exec_reachable_inv [OF assms]
  by (auto simp: exec_inv_def history_ok_def flight_ok_def start_occupy_def occupy_def)

section \<open>Termination\<close>

text \<open>The work left: every task in the queue costs a bounded number of worker steps.\<close>

fun worker_work :: "WorkerPc \<Rightarrow> nat" where
  "worker_work W_Test = 6"
| "worker_work W_Check = 5"
| "worker_work (W_Run t) = 4"
| "worker_work (W_Notify t) = 3"
| "worker_work W_Pop = 2"
| "worker_work W_Sleep = 0"
| "worker_work W_Exit = 0"

fun dtor_work :: "DtorPc \<Rightarrow> nat" where
  "dtor_work D_None = 0"
| "dtor_work D_Check = 10"
| "dtor_work D_Sleep = 1"
| "dtor_work D_Join = 2"
| "dtor_work D_Done = 0"

definition work_left :: "TaskExecutor \<Rightarrow> nat" where
  "work_left x = 20 * length (xq_taskQueue x) + worker_work (xq_worker x) + dtor_work (xq_dtor x)"

lemma worker_work_wake: "worker_work (wake_worker w) \<le> worker_work w + 5"
  by (cases w) auto

lemma dtor_work_wake: "dtor_work (wake_dtor d) \<le> dtor_work d + 9"
  by (cases d) auto

lemma worker_pop_eq:
  "worker_pop x = (if tl (xq_taskQueue x) = []
     then notify_queue (x\<lparr>xq_taskQueue := tl (xq_taskQueue x), xq_worker := W_Test\<rparr>)
     else x\<lparr>xq_taskQueue := tl (xq_taskQueue x), xq_worker := W_Test\<rparr>)"
  by (simp add: worker_pop_def Let_def)

lemma internal_step_work: "internal_step x y \<Longrightarrow> exec_inv x \<Longrightarrow> work_left y < work_left x"
proof (induction rule: internal_step.induct)
  case (pop x)
  then have "length (xq_taskQueue x) = Suc (length (tl (xq_taskQueue x)))"
    by (auto simp: exec_inv_def worker_ok_def)
  with pop dtor_work_wake [of "xq_dtor x"] show ?case
    by (auto simp: worker_pop_eq work_left_def notify_queue_def)
next
  case (dtor_check x)
  with worker_work_wake [of "xq_worker x"] show ?case
    by (auto simp: dtor_check_def work_left_def notify_queue_def)
qed (auto simp: work_left_def worker_test_def worker_check_def worker_run_def worker_notify_def notify_task_def)

lemma internal_steps_inv: "internal_step\<^sup>*\<^sup>* x y \<Longrightarrow> exec_inv x \<Longrightarrow> exec_inv y"
  by (induction rule: rtranclp_induct) (auto intro: internal_step_inv)

lemma internal_steps_bound: "(internal_step ^^ n) x y \<Longrightarrow> exec_inv x \<Longrightarrow> n + work_left y \<le> work_left x"
proof (induction n arbitrary: y)
  case (Suc n)
  then obtain z where z: "(internal_step ^^ n) x z" "internal_step z y" by auto
  with Suc have "n + work_left z \<le> work_left x" by blast
  moreover have "exec_inv z" using internal_steps_inv z(1) Suc.prems(2) by (metis relpowp_imp_rtranclp)
  with z(2) have "work_left y < work_left z" by (rule internal_step_work)
  ultimately show ?case by simp
qed auto

lemma internal_steps_same:
  "internal_step\<^sup>*\<^sup>* x y \<Longrightarrow> xq_accepted y = xq_accepted x \<and> (xq_dtor x \<noteq> D_None \<longrightarrow> xq_dtor y \<noteq> D_None)"
proof (induction rule: rtranclp_induct)
  case (step y z)
  from step.hyps(2) have "xq_accepted z = xq_accepted y \<and> (xq_dtor y \<noteq> D_None \<longrightarrow> xq_dtor z \<noteq> D_None)"
    by (induction rule: internal_step.induct)
      (auto simp: worker_test_def worker_check_def worker_run_def worker_notify_def notify_task_def
        worker_pop_eq dtor_check_def notify_queue_def)
  with step.IH show ?case by auto
qed simp

lemma worker_moves:
  "xq_worker x \<noteq> W_Sleep \<Longrightarrow> xq_worker x \<noteq> W_Exit \<Longrightarrow> \<exists>y. internal_step x y"
  by (cases "xq_worker x") (blast intro: internal_step.intros)+

lemma executor_progress:
  assumes "exec_inv x" and "xq_dtor x \<noteq> D_None" and "xq_dtor x \<noteq> D_Done"
  shows "\<exists>y. internal_step x y"
proof (cases "xq_dtor x")
  case D_Sleep
  with assms have "xq_worker x \<noteq> W_Sleep" "xq_worker x \<noteq> W_Exit"
    by (auto simp: exec_inv_def dtor_ok_def worker_ok_def)
  then show ?thesis by (rule worker_moves)
next
  case D_Join
  with assms have "xq_worker x \<noteq> W_Sleep" by (auto simp: exec_inv_def dtor_ok_def worker_ok_def)
  with D_Join show ?thesis using worker_moves internal_step.dtor_join by blast
qed (use assms internal_step.dtor_check in blast)+

text \<open>
  C16. The destructor returns and loses no task: from every reachable state in which it has
  started, worker and destructor take a bounded number of steps, they are never stuck before the
  destructor is done, and when they stop, the worker has exited and every accepted task was run,
  provided that the functions of the tasks return.
\<close>

theorem destructor_drains_queue:
  assumes "any_step\<^sup>*\<^sup>* mk_TaskExecutor x" and "xq_dtor x \<noteq> D_None"
  shows "(\<forall>n y. (internal_step ^^ n) x y \<longrightarrow> n \<le> work_left x) \<and>
    (\<forall>y. internal_step\<^sup>*\<^sup>* x y \<longrightarrow> (\<nexists>z. internal_step y z) \<longrightarrow>
       xq_dtor y = D_Done \<and> xq_worker y = W_Exit \<and> xq_executed y = xq_accepted x)"
proof (intro conjI allI impI)
  have inv: "exec_inv x" using assms(1) by (rule exec_reachable_inv)
  show "n \<le> work_left x" if "(internal_step ^^ n) x y" for n y
    using internal_steps_bound [OF that inv] by simp
  fix y assume y: "internal_step\<^sup>*\<^sup>* x y" "\<nexists>z. internal_step y z"
  have inv_y: "exec_inv y" using internal_steps_inv [OF y(1) inv] .
  show "xq_dtor y = D_Done"
    using executor_progress [OF inv_y] internal_steps_same [OF y(1)] assms(2) y(2) by blast
  then show "xq_worker y = W_Exit" "xq_executed y = xq_accepted x"
    using inv_y internal_steps_same [OF y(1)]
    by (auto simp: exec_inv_def dtor_ok_def history_ok_def pending_def)
qed

text \<open>
  No wake-up is lost: when a thread sleeps in \<open>Task::wait\<close> although its task is finished,
  the worker is just about to notify, and the notification wakes the thread.
\<close>

theorem waiter_is_woken:
  assumes "any_step\<^sup>*\<^sup>* mk_TaskExecutor x" and "xq_waiter x a = A_Sleep t timed"
    and "wait_over (xq_task x t)"
  shows "internal_step x (worker_notify t x) \<and> xq_waiter (worker_notify t x) a = A_Check t timed \<and>
    xq_waiter (wait_check a t timed (worker_notify t x)) a = A_Return t"
proof -
  have "xq_worker x = W_Notify t"
    using exec_reachable_inv [OF assms(1)] assms(2,3) by (auto simp: exec_inv_def waiters_ok_def)
  with internal_step.notify [OF this] assms(2,3) show ?thesis
    by (simp add: worker_notify_def notify_task_def wait_check_def)
qed

section \<open>A run\<close>

text \<open>Task 7 is started, a thread waits for it, the worker runs it and is about to notify.\<close>

definition ex_started :: TaskExecutor where
  "ex_started = start_push 7 (snd (start_occupy 7 mk_TaskExecutor))"

definition ex_waiting :: TaskExecutor where
  "ex_waiting = wait_check 0 7 False (wait_begin 0 7 False ex_started)"

definition ex_ran :: TaskExecutor where
  "ex_ran = worker_run 7 None (worker_check (worker_test ex_waiting))"

lemmas ex_run_defs = ex_started_def ex_waiting_def ex_ran_def mk_TaskExecutor_def start_occupy_def
  start_push_def wait_begin_def wait_check_def worker_test_def worker_check_def worker_run_def
  occupy_def mk_Task_def notify_queue_def wait_over_def run_status task_finish_def

lemma ex_ran_reachable: "any_step\<^sup>*\<^sup>* mk_TaskExecutor ex_ran" "any_step\<^sup>*\<^sup>* mk_TaskExecutor ex_started"
proof -
  let ?o = "snd (start_occupy 7 mk_TaskExecutor)"
  have "client_step mk_TaskExecutor ?o"
    by (rule client_step.occupied [where t = 7]) (simp_all add: ex_run_defs)
  moreover have "client_step ?o ex_started"
    unfolding ex_started_def by (rule client_step.push) (simp add: ex_run_defs)
  ultimately have 1: "any_step mk_TaskExecutor ?o" "any_step ?o ex_started"
    by (simp_all add: any_step_def)
  have 2: "any_step ex_started (wait_begin 0 7 False ex_started)"
    "any_step (wait_begin 0 7 False ex_started) ex_waiting"
    unfolding any_step_def ex_waiting_def
    by (rule disjI2, rule disjI1, rule client_step.intros, simp add: ex_run_defs)+
  have 3: "any_step ex_waiting (worker_test ex_waiting)"
    "any_step (worker_test ex_waiting) (worker_check (worker_test ex_waiting))"
    "any_step (worker_check (worker_test ex_waiting)) ex_ran"
    unfolding any_step_def ex_ran_def
    by (rule disjI1, rule internal_step.intros, simp add: ex_run_defs)+
  from 1 show "any_step\<^sup>*\<^sup>* mk_TaskExecutor ex_started"
    by (meson rtranclp.intros)
  with 2 3 show "any_step\<^sup>*\<^sup>* mk_TaskExecutor ex_ran"
    by (meson rtranclp.rtrancl_into_rtrancl)
qed

theorem executor_refines_fifo_witness:
  "\<exists>y. any_step ex_ran y \<and> (abs_fifo y = abs_fifo ex_ran \<or> fifo_step (abs_fifo ex_ran) (abs_fifo y))"
proof -
  have "any_step ex_ran (worker_notify 7 ex_ran)"
    unfolding any_step_def by (rule disjI1, rule internal_step.notify) (simp add: ex_run_defs)
  with executor_refines_fifo [OF ex_ran_reachable(1) this] show ?thesis by blast
qed

theorem executor_runs_in_order_witness: "xq_accepted ex_ran = xq_executed ex_ran @ pending ex_ran"
  using executor_runs_in_order [OF ex_ran_reachable(1)] by blast

theorem destructor_drains_queue_witness:
  "\<nexists>y. (internal_step ^^ Suc (work_left (ex_started\<lparr>xq_dtor := D_Check\<rparr>)))
     (ex_started\<lparr>xq_dtor := D_Check\<rparr>) y"
proof -
  have "client_step ex_started (ex_started\<lparr>xq_dtor := D_Check\<rparr>)"
    by (rule client_step.dtor_begin) (simp_all add: ex_run_defs)
  then have "any_step ex_started (ex_started\<lparr>xq_dtor := D_Check\<rparr>)" by (simp add: any_step_def)
  with ex_ran_reachable(2) have "any_step\<^sup>*\<^sup>* mk_TaskExecutor (ex_started\<lparr>xq_dtor := D_Check\<rparr>)"
    by (rule rtranclp.rtrancl_into_rtrancl)
  from destructor_drains_queue [OF this] show ?thesis by (fastforce simp del: relpowp.simps)
qed

theorem waiter_is_woken_witness:
  "xq_waiter (wait_check 0 7 False (worker_notify 7 ex_ran)) 0 = A_Return 7"
proof -
  have "xq_waiter ex_ran 0 = A_Sleep 7 False" "wait_over (xq_task ex_ran 7)"
    by (simp_all add: ex_run_defs)
  from waiter_is_woken [OF ex_ran_reachable(1) this] show ?thesis by simp
qed

end
