(* ===== verification/AsyncRequest.thy ===== *)
theory AsyncRequest
  imports Tasks
begin

text \<open>
  Asynchronous inference requests (\<open>cpp_interfaces/impl\<close> of \<open>src/src/inference_engine\<close>): the busy
  flag of \<open>AsyncInferRequestThreadSafeInternal\<close> and the staged task of
  \<open>AsyncInferRequestThreadSafeDefault\<close>, which infers on one executor and then calls the user's
  callback on another. The inference itself, the check of the blobs and the user's callback are
  arguments: the exception they throw, if any, and for the callback what it does to the request,
  since it may start the request again.
\<close>

section \<open>State\<close>

datatype TaskRef = SyncTask | AsyncTask nat

text \<open>
  \<open>rq_asyncTasks\<close> is \<open>_listAsyncTasks\<close>, a task being named by its position. The queues hold
  what was pushed to the executor of the request and to the one of the callback; \<open>rq_called\<close>
  records the calls of the user's callback.
\<close>

record Request =
  rq_isRequestBusy :: bool
  rq_syncTask :: Task
  rq_asyncTasks :: "StagedTask list"
  rq_asyncTask :: nat
  rq_currentTask :: TaskRef
  rq_enabled :: bool
  rq_callback :: bool
  rq_publicInterface :: bool
  rq_requestStatus :: StatusCode
  rq_requestException :: "ie_exception option"
  rq_requestQueue :: "nat list"
  rq_callbackQueue :: "nat list"
  rq_called :: "StatusCode list"

definition mk_Request :: Request where
  "mk_Request = \<lparr>rq_isRequestBusy = False, rq_syncTask = mk_Task, rq_asyncTasks = [], rq_asyncTask = 0,
     rq_currentTask = SyncTask, rq_enabled = False, rq_callback = False, rq_publicInterface = False,
     rq_requestStatus = ST_OK, rq_requestException = None, rq_requestQueue = [], rq_callbackQueue = [], rq_called = []\<rparr>"

definition upd_async :: "nat \<Rightarrow> (StagedTask \<Rightarrow> StagedTask) \<Rightarrow> Request \<Rightarrow> Request" where
  "upd_async i f r = r\<lparr>rq_asyncTasks := (rq_asyncTasks r)[i := f (rq_asyncTasks r ! i)]\<rparr>"

definition setIsRequestBusy :: "bool \<Rightarrow> Request \<Rightarrow> bool \<times> Request" where
  "setIsRequestBusy isBusy r = (rq_isRequestBusy r, r\<lparr>rq_isRequestBusy := isBusy\<rparr>)"

definition REQUEST_BUSY_str :: ie_exception where
  "REQUEST_BUSY_str = Thrown ''[REQUEST_BUSY] ''"

section \<open>The callback manager\<close>

definition isCallbackEnabled :: "Request \<Rightarrow> bool" where
  "isCallbackEnabled r \<longleftrightarrow> rq_enabled r \<and> rq_callback r"

definition set_callback :: "bool \<Rightarrow> Request \<Rightarrow> Request" where
  "set_callback callback r = r\<lparr>rq_enabled := True, rq_callback := callback\<rparr>"

definition callback_reset :: "Request \<Rightarrow> Request" where
  "callback_reset r = r\<lparr>rq_requestException := None, rq_requestStatus := ST_OK\<rparr>"

definition callback_startTask :: "nat \<Rightarrow> Request \<Rightarrow> Request" where
  "callback_startTask i r =
     (let (ok, t) = occupy (rq_asyncTasks r ! i) in
      if ok then (upd_async i (\<lambda>_. t) r)\<lparr>rq_callbackQueue := rq_callbackQueue r @ [i]\<rparr> else r)"

type_synonym callback = "StatusCode \<Rightarrow> Request \<Rightarrow> ie_exception option \<times> Request"

definition runCallback :: "callback \<Rightarrow> Request \<Rightarrow> ie_exception option \<times> Request" where
  "runCallback cb r =
     (if isCallbackEnabled r then
        if \<not> rq_publicInterface r
        then (Some (Thrown ''Failed to run callback: can't get pointer to request''), r)
        else let (e, r) = cb (rq_requestStatus r) (r\<lparr>rq_called := rq_called r @ [rq_requestStatus r]\<rparr>) in
             (case e of Some e \<Rightarrow> (Some e, r) | None \<Rightarrow> (rq_requestException r, r))
      else (None, r))"

section \<open>The staged task\<close>

definition stage_of :: "nat \<Rightarrow> Request \<Rightarrow> nat" where
  "stage_of i r = st_stage (rq_asyncTasks r ! i)"

definition task_stageDone :: "nat \<Rightarrow> Request \<Rightarrow> ie_exception option \<times> Request" where
  "task_stageDone i r =
     (case stageDone (rq_asyncTasks r ! i) of Inl e \<Rightarrow> (Some e, r) | Inr t \<Rightarrow> (None, upd_async i (\<lambda>_. t) r))"

text \<open>\<open>while (asyncTask->getStage() != 1) asyncTask->stageDone();\<close> from a stage of at least one.\<close>

function skip_to_callback :: "nat \<Rightarrow> Request \<Rightarrow> Request" where
  "skip_to_callback i r =
     (if stage_of i r > 1 \<and> i < length (rq_asyncTasks r)
      then skip_to_callback i (snd (task_stageDone i r)) else r)"
  by pat_completeness auto
termination
  by (relation "measure (\<lambda>(i, r). stage_of i r)")
    (auto simp: stage_of_def task_stageDone_def stageDone_def upd_async_def)

declare skip_to_callback.simps [simp del]

definition processAsyncTaskFailure :: "nat \<Rightarrow> ie_exception \<Rightarrow> Request \<Rightarrow> ie_exception option \<times> Request" where
  "processAsyncTaskFailure i requestException r =
     (let r = snd (setIsRequestBusy False r) in
      if isCallbackEnabled r \<and> stage_of i r \<ge> 1 then
        let r = skip_to_callback i r;
            r = r\<lparr>rq_requestStatus := ST_GENERAL_ERROR, rq_requestException := Some requestException\<rparr>
        in (None, callback_startTask i r)
      else (Some requestException, r))"

definition async_stages :: "ie_exception option \<Rightarrow> callback \<Rightarrow> nat \<Rightarrow> Request \<Rightarrow> ie_exception option \<times> Request" where
  "async_stages infer cb i r =
     (if stage_of i r = 2 then
        (case infer of
           Some e \<Rightarrow> (Some e, r)
         | None \<Rightarrow>
             let (e, r) = task_stageDone i r in
             (case e of Some e \<Rightarrow> (Some e, r)
              | None \<Rightarrow> if isCallbackEnabled r then (None, callback_startTask i r) else task_stageDone i r))
      else if stage_of i r = 1 then
        let r = snd (setIsRequestBusy False r); (e, r) = task_stageDone i r in
        (case e of Some e \<Rightarrow> (Some e, r) | None \<Rightarrow> runCallback cb r)
      else (None, r))"

definition asyncRequestTask :: "ie_exception option \<Rightarrow> callback \<Rightarrow> Request \<Rightarrow> ie_exception option \<times> Request" where
  "asyncRequestTask infer cb r =
     (let asyncTaskCopy = rq_asyncTask r; (e, r) = async_stages infer cb asyncTaskCopy r in
      case e of Some e \<Rightarrow> processAsyncTaskFailure asyncTaskCopy e r | None \<Rightarrow> (None, r))"

text \<open>An executor runs the staged task; runs of one task exclude each other by \<open>_runMutex\<close>.\<close>

definition run_async :: "ie_exception option \<Rightarrow> callback \<Rightarrow> nat \<Rightarrow> Request \<Rightarrow> Request" where
  "run_async infer cb i r =
     (let r = upd_async i staged_begin r; (e, r) = asyncRequestTask infer cb r
      in upd_async i (staged_finish e) r)"

text \<open>The two executors take their first task.\<close>

definition run_request_executor :: "ie_exception option \<Rightarrow> callback \<Rightarrow> Request \<Rightarrow> Request" where
  "run_request_executor infer cb r =
     (case rq_requestQueue r of [] \<Rightarrow> r | i # q \<Rightarrow> run_async infer cb i (r\<lparr>rq_requestQueue := q\<rparr>))"

definition run_callback_executor :: "ie_exception option \<Rightarrow> callback \<Rightarrow> Request \<Rightarrow> Request" where
  "run_callback_executor infer cb r =
     (case rq_callbackQueue r of [] \<Rightarrow> r | i # q \<Rightarrow> run_async infer cb i (r\<lparr>rq_callbackQueue := q\<rparr>))"

section \<open>Starting a request\<close>

definition current_status :: "Request \<Rightarrow> Status" where
  "current_status r = (case rq_currentTask r of
     SyncTask \<Rightarrow> tk_status (rq_syncTask r) | AsyncTask i \<Rightarrow> tk_status (rq_asyncTasks r ! i))"

definition reusable :: "Request \<Rightarrow> nat \<Rightarrow> bool" where
  "reusable r i \<longleftrightarrow> \<not> tk_isOnWait (rq_asyncTasks r ! i) \<and> AsyncTask i \<noteq> rq_currentTask r \<and>
     (tk_status (rq_asyncTasks r ! i) = TS_DONE \<or> tk_status (rq_asyncTasks r ! i) = TS_ERROR)"

definition initNextAsyncTask :: "Request \<Rightarrow> Request" where
  "initNextAsyncTask r =
     (let r = (if current_status r = TS_POSTPONED \<or> rq_currentTask r = SyncTask then
                (case find (reusable r) [0..<length (rq_asyncTasks r)] of
                   None \<Rightarrow> r\<lparr>rq_asyncTask := length (rq_asyncTasks r),
                             rq_asyncTasks := rq_asyncTasks r @ [mk_StagedTask 2]\<rparr>
                 | Some i \<Rightarrow> r\<lparr>rq_asyncTask := i\<rparr>)
              else r);
          r = upd_async (rq_asyncTask r) resetStages r
      in r\<lparr>rq_currentTask := AsyncTask (rq_asyncTask r)\<rparr>)"

text \<open>\<open>initNextAsyncTask\<close> has made an asynchronous task the current one; the other case never occurs.\<close>

definition startAsyncTask :: "Request \<Rightarrow> ie_exception option \<times> Request" where
  "startAsyncTask r =
     (case rq_currentTask r of
        SyncTask \<Rightarrow> (Some REQUEST_BUSY_str, r)
      | AsyncTask i \<Rightarrow>
          let (ok, t) = occupy (rq_asyncTasks r ! i) in
          if \<not> ok then (Some REQUEST_BUSY_str, r)
          else (None, (upd_async i (\<lambda>_. t) r)\<lparr>rq_requestQueue := rq_requestQueue r @ [i]\<rparr>))"

definition StartAsync_ThreadUnsafe :: "ie_exception option \<Rightarrow> Request \<Rightarrow> ie_exception option \<times> Request" where
  "StartAsync_ThreadUnsafe checkBlobs r =
     (case checkBlobs of
        Some e \<Rightarrow> (Some e, r)
      | None \<Rightarrow> startAsyncTask (initNextAsyncTask (callback_reset r)))"

definition StartAsync :: "ie_exception option \<Rightarrow> Request \<Rightarrow> ie_exception option \<times> Request" where
  "StartAsync checkBlobs r =
     (let (wasBusy, r) = setIsRequestBusy True r in
      if wasBusy then (Some REQUEST_BUSY_str, r)
      else let (e, r) = StartAsync_ThreadUnsafe checkBlobs r in
           (case e of None \<Rightarrow> (None, r) | Some e \<Rightarrow> (Some e, snd (setIsRequestBusy False r))))"

section \<open>Waiting, synchronous inference and the guarded operations\<close>

definition current_over :: "Request \<Rightarrow> bool" where
  "current_over r = (case rq_currentTask r of
     SyncTask \<Rightarrow> wait_over (rq_syncTask r) | AsyncTask i \<Rightarrow> wait_over (rq_asyncTasks r ! i))"

definition current_exception :: "Request \<Rightarrow> ie_exception option" where
  "current_exception r = (case rq_currentTask r of
     SyncTask \<Rightarrow> tk_exceptionPtr (rq_syncTask r) | AsyncTask i \<Rightarrow> tk_exceptionPtr (rq_asyncTasks r ! i))"

text \<open>
  \<open>Wait\<close> as seen when it returns: \<open>None\<close> while it still blocks. \<open>timed_out\<close> says whether the
  time ran out, which only a non-negative timeout can.
\<close>

definition Wait :: "int \<Rightarrow> bool \<Rightarrow> Request \<Rightarrow> (StatusCode result \<times> Request) option" where
  "Wait millis_timeout timed_out r =
     (if millis_timeout < -1 then Some (Inl (Thrown ''[PARAMETER_MISMATCH] ''), r)
      else if millis_timeout = 0 then
        Some (case current_exception r of Some e \<Rightarrow> Inl e
              | None \<Rightarrow> Inr (TaskStatus2StatusCode (current_status r)), r)
      else if current_over r \<or> (millis_timeout \<ge> 0 \<and> timed_out) then
        let r = snd (setIsRequestBusy False r) in
        Some (case current_exception r of Some e \<Rightarrow> Inl e
              | None \<Rightarrow> Inr (TaskStatus2StatusCode (current_status r)), r)
      else None)"

text \<open>\<open>Infer\<close>; it sleeps when the synchronizer does, which gives \<open>None\<close>.\<close>

definition Infer ::
  "ie_exception option \<Rightarrow> Request \<times> TaskSynchronizer \<Rightarrow> (ie_exception option \<times> Request \<times> TaskSynchronizer) option"
where
  "Infer infer rs =
     (let (r, s) = rs; (wasBusy, r) = setIsRequestBusy True r in
      if wasBusy then Some (Some REQUEST_BUSY_str, r, s)
      else
        let r = r\<lparr>rq_currentTask := SyncTask\<rparr>;
            (out, t, s) = runWithSynchronizer (\<lambda>t. (infer, t)) (rq_syncTask r, s);
            r = r\<lparr>rq_syncTask := t\<rparr>
        in (case out of
              Blocked _ \<Rightarrow> None
            | Raised e \<Rightarrow> Some (Some e, snd (setIsRequestBusy False r), s)
            | Returned status \<Rightarrow>
                if status = TS_BUSY
                then Some (Some (Thrown ''Internal error: AsyncInferRequestThreadSafeDefault failed to start sync task''),
                           snd (setIsRequestBusy False r), s)
                else Some (tk_exceptionPtr t, snd (setIsRequestBusy False r), s)))"

text \<open>
  \<open>GetUserData\<close>, \<open>SetUserData\<close>, \<open>SetCompletionCallback\<close>, \<open>GetPerformanceCounts\<close>, \<open>SetBlob\<close>,
  \<open>GetBlob\<close> and \<open>SetBatch\<close> all refuse a busy request before they do anything.
\<close>

definition guarded :: "(Request \<Rightarrow> 'a result \<times> Request) \<Rightarrow> Request \<Rightarrow> 'a result \<times> Request" where
  "guarded f r = (if rq_isRequestBusy r then (Inl REQUEST_BUSY_str, r) else f r)"

definition SetCompletionCallback :: "bool \<Rightarrow> Request \<Rightarrow> unit result \<times> Request" where
  "SetCompletionCallback callback = guarded (\<lambda>r. (Inr (), set_callback callback r))"

definition SetBlob :: "unit result \<Rightarrow> Request \<Rightarrow> unit result \<times> Request" where
  "SetBlob sync_result = guarded (\<lambda>r. (sync_result, r))"

section \<open>The life cycle of a request\<close>

text \<open>A request between two inferences, and one whose task \<open>i\<close> is at a stage.\<close>

definition request_idle :: "Request \<Rightarrow> bool" where
  "request_idle r \<longleftrightarrow> \<not> rq_isRequestBusy r \<and> rq_requestQueue r = [] \<and> rq_callbackQueue r = [] \<and>
     (\<forall>t \<in> set (rq_asyncTasks r). st_stages t = 2) \<and>
     (rq_currentTask r = SyncTask \<or>
      (rq_currentTask r = AsyncTask (rq_asyncTask r) \<and> rq_asyncTask r < length (rq_asyncTasks r) \<and>
       (tk_status (rq_asyncTasks r ! rq_asyncTask r) = TS_DONE \<or>
        tk_status (rq_asyncTasks r ! rq_asyncTask r) = TS_ERROR)))"

definition at_stage :: "nat \<Rightarrow> nat \<Rightarrow> Request \<Rightarrow> bool" where
  "at_stage n i r \<longleftrightarrow> rq_currentTask r = AsyncTask i \<and> rq_asyncTask r = i \<and> i < length (rq_asyncTasks r) \<and>
     st_stage (rq_asyncTasks r ! i) = n \<and> (\<forall>t \<in> set (rq_asyncTasks r). st_stages t = 2)"

lemma upd_async_simps [simp]:
  "rq_isRequestBusy (upd_async i f r) = rq_isRequestBusy r"
  "rq_asyncTask (upd_async i f r) = rq_asyncTask r"
  "rq_currentTask (upd_async i f r) = rq_currentTask r"
  "rq_enabled (upd_async i f r) = rq_enabled r" "rq_callback (upd_async i f r) = rq_callback r"
  "rq_publicInterface (upd_async i f r) = rq_publicInterface r"
  "rq_requestStatus (upd_async i f r) = rq_requestStatus r"
  "rq_requestException (upd_async i f r) = rq_requestException r"
  "rq_requestQueue (upd_async i f r) = rq_requestQueue r"
  "rq_callbackQueue (upd_async i f r) = rq_callbackQueue r"
  "rq_called (upd_async i f r) = rq_called r" "rq_syncTask (upd_async i f r) = rq_syncTask r"
  "length (rq_asyncTasks (upd_async i f r)) = length (rq_asyncTasks r)"
  "i < length (rq_asyncTasks r) \<Longrightarrow> rq_asyncTasks (upd_async i f r) ! i = f (rq_asyncTasks r ! i)"
  by (simp_all add: upd_async_def)

lemma upd_async_stages:
  "(\<forall>t \<in> set (rq_asyncTasks r). st_stages t = 2) \<Longrightarrow> i < length (rq_asyncTasks r) \<Longrightarrow>
     st_stages (f (rq_asyncTasks r ! i)) = 2 \<Longrightarrow> \<forall>t \<in> set (rq_asyncTasks (upd_async i f r)). st_stages t = 2"
  by (auto simp: upd_async_def dest: subsetD [OF set_update_subset_insert])

lemma initNext_same [simp]:
  "rq_isRequestBusy (initNextAsyncTask r) = rq_isRequestBusy r"
  "rq_enabled (initNextAsyncTask r) = rq_enabled r" "rq_callback (initNextAsyncTask r) = rq_callback r"
  "rq_publicInterface (initNextAsyncTask r) = rq_publicInterface r"
  "rq_requestStatus (initNextAsyncTask r) = rq_requestStatus r"
  "rq_requestException (initNextAsyncTask r) = rq_requestException r"
  "rq_requestQueue (initNextAsyncTask r) = rq_requestQueue r"
  "rq_callbackQueue (initNextAsyncTask r) = rq_callbackQueue r"
  "rq_called (initNextAsyncTask r) = rq_called r"
  by (simp_all add: initNextAsyncTask_def Let_def split: option.split)

text \<open>The task chosen for the next run: a finished one, the current one, or a new one.\<close>

definition next_task :: "Request \<Rightarrow> nat" where
  "next_task r = (if current_status r = TS_POSTPONED \<or> rq_currentTask r = SyncTask
     then (case find (reusable r) [0..<length (rq_asyncTasks r)] of
             None \<Rightarrow> length (rq_asyncTasks r) | Some i \<Rightarrow> i)
     else rq_asyncTask r)"

lemma initNext_task:
  assumes stages: "\<forall>t \<in> set (rq_asyncTasks r). st_stages t = 2"
    and cur: "rq_currentTask r = SyncTask \<or> current_status r = TS_POSTPONED \<or>
      (rq_asyncTask r < length (rq_asyncTasks r) \<and> tk_status (rq_asyncTasks r ! rq_asyncTask r) \<noteq> TS_BUSY)"
  shows "at_stage 2 (next_task r) (initNextAsyncTask r) \<and>
    tk_status (rq_asyncTasks (initNextAsyncTask r) ! next_task r) \<noteq> TS_BUSY"
proof (cases "current_status r = TS_POSTPONED \<or> rq_currentTask r = SyncTask")
  case True
  show ?thesis
  proof (cases "find (reusable r) [0..<length (rq_asyncTasks r)]")
    case None
    let ?r = "r\<lparr>rq_asyncTask := length (rq_asyncTasks r), rq_asyncTasks := rq_asyncTasks r @ [mk_StagedTask 2]\<rparr>"
    have "\<forall>t \<in> set (rq_asyncTasks (upd_async (length (rq_asyncTasks r)) resetStages ?r)). st_stages t = 2"
      by (rule upd_async_stages) (use stages in \<open>auto simp: mk_StagedTask_def resetStages_def\<close>)
    with True None show ?thesis
      by (auto simp: initNextAsyncTask_def next_task_def Let_def at_stage_def resetStages_def mk_StagedTask_def)
  next
    case (Some i)
    then have i: "i < length (rq_asyncTasks r)" "reusable r i" by (auto simp: find_Some_iff)
    have "\<forall>t \<in> set (rq_asyncTasks (upd_async i resetStages (r\<lparr>rq_asyncTask := i\<rparr>))). st_stages t = 2"
      by (rule upd_async_stages) (use stages i in \<open>auto simp: resetStages_def\<close>)
    with True Some i stages show ?thesis
      by (auto simp: initNextAsyncTask_def next_task_def Let_def at_stage_def resetStages_def reusable_def)
  qed
next
  case False
  with cur have i: "rq_asyncTask r < length (rq_asyncTasks r)"
    "tk_status (rq_asyncTasks r ! rq_asyncTask r) \<noteq> TS_BUSY" by auto
  have "\<forall>t \<in> set (rq_asyncTasks (upd_async (rq_asyncTask r) resetStages r)). st_stages t = 2"
    by (rule upd_async_stages) (use stages i in \<open>auto simp: resetStages_def\<close>)
  with False i stages show ?thesis
    by (auto simp: initNextAsyncTask_def next_task_def Let_def at_stage_def resetStages_def)
qed

lemma start_idle:
  assumes "request_idle r"
  obtains i r1 where "StartAsync None r = (None, r1)" "at_stage 2 i r1"
    "tk_status (rq_asyncTasks r1 ! i) = TS_BUSY" "rq_isRequestBusy r1" "rq_requestQueue r1 = [i]"
    "rq_callbackQueue r1 = []" "rq_requestStatus r1 = ST_OK" "rq_requestException r1 = None"
    "isCallbackEnabled r1 = isCallbackEnabled r" "rq_publicInterface r1 = rq_publicInterface r"
    "rq_called r1 = rq_called r"
proof -
  let ?r0 = "callback_reset (r\<lparr>rq_isRequestBusy := True\<rparr>)"
  let ?i = "next_task ?r0" and ?r = "initNextAsyncTask ?r0"
  have "at_stage 2 ?i ?r \<and> tk_status (rq_asyncTasks ?r ! ?i) \<noteq> TS_BUSY"
    by (rule initNext_task) (use assms in \<open>auto simp: request_idle_def callback_reset_def current_status_def\<close>)
  moreover define r1 where "r1 = (upd_async ?i (\<lambda>t. t\<lparr>tk_status := TS_BUSY\<rparr>) ?r)\<lparr>rq_requestQueue := [?i]\<rparr>"
  ultimately have "StartAsync None r = (None, r1)" "at_stage 2 ?i r1" "tk_status (rq_asyncTasks r1 ! ?i) = TS_BUSY"
    using assms
    by (auto simp: StartAsync_def StartAsync_ThreadUnsafe_def startAsyncTask_def setIsRequestBusy_def
        request_idle_def at_stage_def occupy_def callback_reset_def upd_async_def
        dest!: subsetD [OF set_update_subset_insert])
  moreover have "rq_isRequestBusy r1" "rq_requestQueue r1 = [?i]" "rq_callbackQueue r1 = []"
    "rq_requestStatus r1 = ST_OK" "rq_requestException r1 = None"
    "isCallbackEnabled r1 = isCallbackEnabled r" "rq_publicInterface r1 = rq_publicInterface r"
    "rq_called r1 = rq_called r"
    using assms by (auto simp: r1_def callback_reset_def isCallbackEnabled_def request_idle_def)
  ultimately show thesis using that by blast
qed

lemma skip_done: "stage_of i r \<le> 1 \<Longrightarrow> skip_to_callback i r = r"
  by (subst skip_to_callback.simps) simp

lemma skip_two:
  assumes "stage_of i r = 2" and "i < length (rq_asyncTasks r)"
  shows "skip_to_callback i r = upd_async i (\<lambda>t. t\<lparr>st_stage := 1\<rparr>) r"
  using assms
  by (subst skip_to_callback.simps, subst skip_done)
    (simp_all add: stage_of_def task_stageDone_def stageDone_def upd_async_def)

lemmas run_defs = run_async_def asyncRequestTask_def async_stages_def task_stageDone_def stageDone_def
  callback_startTask_def occupy_def processAsyncTaskFailure_def setIsRequestBusy_def staged_begin_def
  staged_finish_def stage_of_def

lemma upd_async_upd [simp]:
  "i < length (rq_asyncTasks r) \<Longrightarrow> upd_async i f (upd_async i g r) = upd_async i (f \<circ> g) r"
  by (simp add: upd_async_def)

lemma upd_async_fields [simp]:
  "upd_async i f (r\<lparr>rq_isRequestBusy := b\<rparr>) = (upd_async i f r)\<lparr>rq_isRequestBusy := b\<rparr>"
  "upd_async i f (r\<lparr>rq_requestQueue := q\<rparr>) = (upd_async i f r)\<lparr>rq_requestQueue := q\<rparr>"
  "upd_async i f (r\<lparr>rq_callbackQueue := q\<rparr>) = (upd_async i f r)\<lparr>rq_callbackQueue := q\<rparr>"
  "upd_async i f (r\<lparr>rq_requestStatus := s\<rparr>) = (upd_async i f r)\<lparr>rq_requestStatus := s\<rparr>"
  "upd_async i f (r\<lparr>rq_requestException := e\<rparr>) = (upd_async i f r)\<lparr>rq_requestException := e\<rparr>"
  "upd_async i f (r\<lparr>rq_called := c\<rparr>) = (upd_async i f r)\<lparr>rq_called := c\<rparr>"
  by (simp_all add: upd_async_def)

lemma staged_commute:
  "t\<lparr>st_stage := n, tk_exceptionPtr := e\<rparr> = (t :: StagedTask)\<lparr>tk_exceptionPtr := e, st_stage := n\<rparr>"
  by (cases t) simp

text \<open>The first stage, with a callback to come and without.\<close>

lemma infer_stage_enabled:
  assumes "at_stage 2 i r" "rq_requestQueue r = [i]" "rq_callbackQueue r = []" "isCallbackEnabled r"
  shows "run_request_executor infer cb r =
    (upd_async i (\<lambda>t. t\<lparr>tk_exceptionPtr := None, st_stage := 1, tk_status := TS_BUSY\<rparr>) r)
      \<lparr>rq_requestQueue := [], rq_callbackQueue := [i],
       rq_isRequestBusy := (rq_isRequestBusy r \<and> infer = None),
       rq_requestStatus := (if infer = None then rq_requestStatus r else ST_GENERAL_ERROR),
       rq_requestException := (if infer = None then rq_requestException r else infer)\<rparr>"
proof (cases infer)
  case None
  with assms show ?thesis
    by (cases r) (simp add: run_request_executor_def run_defs at_stage_def isCallbackEnabled_def upd_async_def)
next
  case (Some e)
  let ?r = "(upd_async i staged_begin (r\<lparr>rq_requestQueue := []\<rparr>))\<lparr>rq_isRequestBusy := False\<rparr>"
  have "stage_of i ?r = 2" "i < length (rq_asyncTasks ?r)"
    using assms by (simp_all add: stage_of_def at_stage_def staged_begin_def)
  from skip_two [OF this] Some assms show ?thesis
    by (cases r) (simp add: run_request_executor_def run_defs at_stage_def isCallbackEnabled_def upd_async_def)
qed

lemma infer_stage_disabled:
  assumes "at_stage 2 i r" "rq_requestQueue r = [i]" "rq_callbackQueue r = []" "\<not> isCallbackEnabled r"
  shows "run_request_executor infer cb r =
    (upd_async i (\<lambda>t. if infer = None
        then t\<lparr>tk_exceptionPtr := None, st_stage := 0, tk_status := TS_DONE\<rparr>
        else t\<lparr>tk_exceptionPtr := infer, tk_status := TS_ERROR\<rparr>) r)
      \<lparr>rq_requestQueue := [], rq_isRequestBusy := (rq_isRequestBusy r \<and> infer = None)\<rparr>"
  using assms
  by (cases infer; cases "rq_enabled r"; cases r)
    (simp_all add: run_request_executor_def run_defs at_stage_def isCallbackEnabled_def upd_async_def Let_def)

text \<open>The second stage, for a callback that leaves the request alone.\<close>

lemma callback_stage:
  assumes "at_stage 1 i r" "rq_callbackQueue r = [i]" "isCallbackEnabled r" "rq_publicInterface r"
    and cb: "\<And>st r'. cb st r' = (thrown st, r')"
  defines "e \<equiv> (case thrown (rq_requestStatus r) of Some e \<Rightarrow> Some e | None \<Rightarrow> rq_requestException r)"
  shows "run_callback_executor infer cb r =
    (upd_async i (\<lambda>t. t\<lparr>tk_exceptionPtr := e, st_stage := 0,
        tk_status := (if e = None then TS_DONE else TS_ERROR)\<rparr>) r)
      \<lparr>rq_callbackQueue := [], rq_isRequestBusy := False,
       rq_called := rq_called r @ [rq_requestStatus r]\<rparr>"
proof (cases "thrown (rq_requestStatus r) = None \<and> rq_requestException r = None")
  case True
  then have "e = None" by (simp add: e_def)
  with True assms(1-4) show ?thesis
    by (cases r) (simp add: run_callback_executor_def run_defs at_stage_def isCallbackEnabled_def
        upd_async_def runCallback_def cb)
next
  case False
  then obtain x where x: "e = Some x"
    "(case thrown (rq_requestStatus r) of Some e \<Rightarrow> Some e | None \<Rightarrow> rq_requestException r) = Some x"
    by (cases "thrown (rq_requestStatus r)") (auto simp: e_def)
  with assms(1-4) show ?thesis
    by (cases "thrown (rq_requestStatus r)"; cases r) (simp_all add: run_callback_executor_def run_defs
        at_stage_def isCallbackEnabled_def upd_async_def runCallback_def cb staged_commute)
qed

lemma wait_finished:
  assumes "rq_currentTask r = AsyncTask i" and "tk_exceptionPtr (rq_asyncTasks r ! i) = e"
    and "tk_status (rq_asyncTasks r ! i) = (if e = None then TS_DONE else TS_ERROR)"
  shows "Wait (-1) False r =
    Some (case e of Some e \<Rightarrow> Inl e | None \<Rightarrow> Inr ST_OK, r\<lparr>rq_isRequestBusy := False\<rparr>)"
  using assms
  by (cases e) (simp_all add: Wait_def current_over_def wait_over_def current_exception_def
      current_status_def setIsRequestBusy_def Let_def)

lemma at_stage_idle:
  assumes "at_stage n i r" and "tk_status (rq_asyncTasks r ! i) = TS_DONE \<or> tk_status (rq_asyncTasks r ! i) = TS_ERROR"
    and "\<not> rq_isRequestBusy r" "rq_requestQueue r = []" "rq_callbackQueue r = []"
  shows "request_idle r"
  using assms by (simp add: at_stage_def request_idle_def)

lemma at_stage_upd:
  "at_stage n i r \<Longrightarrow> st_stages (f (rq_asyncTasks r ! i)) = 2 \<Longrightarrow> st_stage (f (rq_asyncTasks r ! i)) = m \<Longrightarrow>
     at_stage m i (upd_async i f r)"
  using upd_async_stages [of r i f] by (simp add: at_stage_def)

lemma at_stage_fields [simp]:
  "at_stage n i (r\<lparr>rq_isRequestBusy := b\<rparr>) = at_stage n i r"
  "at_stage n i (r\<lparr>rq_requestQueue := q\<rparr>) = at_stage n i r"
  "at_stage n i (r\<lparr>rq_callbackQueue := q\<rparr>) = at_stage n i r"
  "at_stage n i (r\<lparr>rq_requestStatus := s\<rparr>) = at_stage n i r"
  "at_stage n i (r\<lparr>rq_requestException := e\<rparr>) = at_stage n i r"
  "at_stage n i (r\<lparr>rq_called := c\<rparr>) = at_stage n i r"
  by (simp_all add: at_stage_def)

lemma at_stage_stages: "at_stage n i r \<Longrightarrow> st_stages (rq_asyncTasks r ! i) = 2"
  by (simp add: at_stage_def)

text \<open>
  C17. The life cycle of an asynchronous request with a callback that leaves the request alone (it
  may throw, depending on the status it is called with): an idle request whose check of the blobs
  passes starts, and once its two executors have run what they were given, the callback was called
  exactly once, with \<open>OK\<close> if the inference succeeded and with \<open>GENERAL_ERROR\<close> otherwise; \<open>Wait\<close>
  then returns \<open>OK\<close>, or rethrows what the callback threw or else what the inference threw; and the
  request is idle, so it can be started again. When the check of the blobs fails, \<open>StartAsync\<close>
  rethrows its exception and leaves the request as it was. (A callback that starts the request
  again is not covered; \<open>restart_from_callback\<close> says what its \<open>StartAsync\<close> does.)
\<close>

theorem callback_called_once:
  assumes idle: "request_idle r" and enabled: "isCallbackEnabled r" "rq_publicInterface r"
    and cb: "\<And>st r'. cb st r' = (thrown st, r')"
  shows "StartAsync (Some e) r = (Some e, r) \<and>
    (\<exists>r1. StartAsync None r = (None, r1) \<and>
    (let r3 = run_callback_executor infer cb (run_request_executor infer cb r1);
         status = if infer = None then ST_OK else ST_GENERAL_ERROR in
     rq_called r3 = rq_called r @ [status] \<and>
     request_idle r3 \<and>
     (\<exists>r4. Wait (-1) False r3 = Some (case (case thrown status of Some e \<Rightarrow> Some e | None \<Rightarrow> infer) of
        Some e \<Rightarrow> Inl e | None \<Rightarrow> Inr ST_OK, r4))))"
proof -
  from start_idle [OF idle] obtain i r1 where r1: "StartAsync None r = (None, r1)" "at_stage 2 i r1"
    "rq_requestQueue r1 = [i]" "rq_callbackQueue r1 = []" "rq_requestStatus r1 = ST_OK"
    "rq_requestException r1 = None" "isCallbackEnabled r1 = isCallbackEnabled r"
    "rq_publicInterface r1 = rq_publicInterface r" "rq_called r1 = rq_called r"
    by metis
  define r2 where "r2 = run_request_executor infer cb r1"
  have refused: "StartAsync (Some e) r = (Some e, r)"
    using idle by (simp add: StartAsync_def StartAsync_ThreadUnsafe_def setIsRequestBusy_def request_idle_def)
  define status where "status = (if infer = None then ST_OK else ST_GENERAL_ERROR)"
  have r2: "r2 = (upd_async i (\<lambda>t. t\<lparr>tk_exceptionPtr := None, st_stage := 1, tk_status := TS_BUSY\<rparr>) r1)
      \<lparr>rq_requestQueue := [], rq_callbackQueue := [i],
       rq_isRequestBusy := (rq_isRequestBusy r1 \<and> infer = None),
       rq_requestStatus := (if infer = None then rq_requestStatus r1 else ST_GENERAL_ERROR),
       rq_requestException := (if infer = None then rq_requestException r1 else infer)\<rparr>"
    using infer_stage_enabled [of i r1 infer cb] r1 enabled by (simp add: r2_def)
  have s1: "at_stage 1 i r2" using at_stage_upd [OF r1(2)] at_stage_stages [OF r1(2)] by (simp add: r2)
  have status: "rq_requestStatus r2 = status" using r1 by (simp add: r2 status_def)
  define e where "e = (case thrown status of Some e \<Rightarrow> Some e | None \<Rightarrow> infer)"
  have e: "(case thrown status of Some e \<Rightarrow> Some e | None \<Rightarrow> rq_requestException r2) = e"
    using r1 by (auto simp: r2 e_def split: option.splits)
  define r3 where "r3 = run_callback_executor infer cb r2"
  have r3: "r3 = (upd_async i (\<lambda>t. t\<lparr>tk_exceptionPtr := e, st_stage := 0,
        tk_status := (if e = None then TS_DONE else TS_ERROR)\<rparr>) r2)
      \<lparr>rq_callbackQueue := [], rq_isRequestBusy := False, rq_called := rq_called r2 @ [rq_requestStatus r2]\<rparr>"
    using callback_stage [OF s1, of cb thrown infer, unfolded status] r1 enabled cb
    by (simp add: r3_def e status) (simp add: r2 isCallbackEnabled_def)
  have i: "i < length (rq_asyncTasks r2)" using s1 by (simp add: at_stage_def)
  have s0: "at_stage 0 i r3" using at_stage_upd [OF s1] at_stage_stages [OF s1] by (simp add: r3)
  have "request_idle r3" using at_stage_idle [OF s0] i r1 by (simp add: r3 r2)
  moreover have "rq_called r3 = rq_called r @ [status]"
    using r1 by (simp add: r3 r2 status_def)
  moreover have "\<exists>r4. Wait (-1) False r3 = Some (case e of Some e \<Rightarrow> Inl e | None \<Rightarrow> Inr ST_OK, r4)"
    using wait_finished [of r3 i e] s0 i by (simp add: at_stage_def r3)
  ultimately show ?thesis
    using r1(1) refused unfolding r3_def r2_def e_def Let_def status_def [symmetric] by blast
qed

text \<open>
  Without a callback the task is finished after its first run; an inference that failed
  frees the request at once, one that succeeded leaves it busy until \<open>Wait\<close> is called.
\<close>

theorem busy_until_wait:
  assumes idle: "request_idle r" and "\<not> isCallbackEnabled r"
  shows "\<exists>r1. StartAsync None r = (None, r1) \<and>
    (let r2 = run_request_executor infer cb r1 in
     rq_isRequestBusy r2 = (infer = None) \<and> rq_called r2 = rq_called r \<and>
     (\<exists>r3. Wait (-1) False r2 = Some (case infer of Some e \<Rightarrow> Inl e | None \<Rightarrow> Inr ST_OK, r3) \<and>
        request_idle r3))"
proof -
  from start_idle [OF idle] obtain i r1 where r1: "StartAsync None r = (None, r1)" "at_stage 2 i r1"
    "rq_isRequestBusy r1" "rq_requestQueue r1 = [i]" "rq_callbackQueue r1 = []"
    "isCallbackEnabled r1 = isCallbackEnabled r" "rq_called r1 = rq_called r"
    by metis
  define f where "f = (\<lambda>t :: StagedTask. if infer = None
      then t\<lparr>tk_exceptionPtr := None, st_stage := 0, tk_status := TS_DONE\<rparr>
      else t\<lparr>tk_exceptionPtr := infer, tk_status := TS_ERROR\<rparr>)"
  define r2 where "r2 = run_request_executor infer cb r1"
  have r2: "r2 = (upd_async i f r1)\<lparr>rq_requestQueue := [], rq_isRequestBusy := (infer = None)\<rparr>"
    using infer_stage_disabled [of i r1 infer cb] r1 assms(2) by (simp add: r2_def f_def)
  have i: "i < length (rq_asyncTasks r1)" using r1(2) by (simp add: at_stage_def)
  have s: "at_stage (if infer = None then 0 else 2) i r2"
  proof -
    have "st_stages (f (rq_asyncTasks r1 ! i)) = 2"
      "st_stage (f (rq_asyncTasks r1 ! i)) = (if infer = None then 0 else 2)"
      using at_stage_stages [OF r1(2)] r1(2) by (simp_all add: f_def at_stage_def)
    from at_stage_upd [where f = f, OF r1(2) this] show ?thesis by (simp add: r2)
  qed
  have st: "tk_status (rq_asyncTasks r2 ! i) = (if infer = None then TS_DONE else TS_ERROR)"
    "tk_exceptionPtr (rq_asyncTasks r2 ! i) = infer"
    using i by (simp_all add: r2 f_def)
  let ?r3 = "r2\<lparr>rq_isRequestBusy := False\<rparr>"
  have "Wait (-1) False r2 = Some (case infer of Some e \<Rightarrow> Inl e | None \<Rightarrow> Inr ST_OK, ?r3)"
    using wait_finished [of r2 i infer] s st by (simp add: at_stage_def)
  moreover have "request_idle ?r3"
    using s st r1 by (intro at_stage_idle [of "if infer = None then 0 else 2" i]) (simp_all add: r2)
  moreover have "rq_isRequestBusy r2 = (infer = None)" "rq_called r2 = rq_called r"
    using r1 by (simp_all add: r2)
  ultimately show ?thesis using r1(1) unfolding Let_def r2_def by blast
qed

text \<open>
  \<open>StartAsync\<close> on a free request whose task \<open>i\<close> is postponed, that is being run: it succeeds,
  gives the executor another task at its first stage, and leaves task \<open>i\<close> as it is.
\<close>

lemma start_while_postponed:
  assumes "at_stage n i r" and "tk_status (rq_asyncTasks r ! i) = TS_POSTPONED"
    and "\<not> rq_isRequestBusy r"
  shows "\<exists>j r1. StartAsync None r = (None, r1) \<and> j \<noteq> i \<and> rq_requestQueue r1 = rq_requestQueue r @ [j] \<and>
    stage_of j r1 = 2 \<and> rq_asyncTasks r1 ! i = rq_asyncTasks r ! i"
proof -
  let ?base = "callback_reset (r\<lparr>rq_isRequestBusy := True\<rparr>)"
  let ?j = "next_task ?base" and ?r = "initNextAsyncTask ?base"
  have i: "i < length (rq_asyncTasks r)" "rq_currentTask r = AsyncTask i"
    using assms(1) by (simp_all add: at_stage_def)
  have post: "current_status ?base = TS_POSTPONED"
    using assms(2) i by (simp add: current_status_def callback_reset_def)
  have j: "at_stage 2 ?j ?r \<and> tk_status (rq_asyncTasks ?r ! ?j) \<noteq> TS_BUSY"
    by (rule initNext_task) (use assms post in \<open>auto simp: at_stage_def callback_reset_def\<close>)
  have ne: "?j \<noteq> i"
    using post i by (auto simp: next_task_def callback_reset_def reusable_def find_Some_iff split: option.split)
  have same: "rq_asyncTasks ?r ! i = rq_asyncTasks r ! i"
    using post ne i
    by (auto simp: initNextAsyncTask_def next_task_def Let_def upd_async_def callback_reset_def nth_append
        split: option.split)
  define r1 where "r1 = (upd_async ?j (\<lambda>t. t\<lparr>tk_status := TS_BUSY\<rparr>) ?r)\<lparr>rq_requestQueue := rq_requestQueue r @ [?j]\<rparr>"
  have "StartAsync None r = (None, r1)"
    using assms(3) j
    by (simp add: StartAsync_def StartAsync_ThreadUnsafe_def startAsyncTask_def setIsRequestBusy_def
        at_stage_def occupy_def r1_def upd_async_def)
      (simp add: callback_reset_def)
  moreover have "stage_of ?j r1 = 2" using j by (simp add: r1_def stage_of_def at_stage_def)
  moreover have "rq_asyncTasks r1 ! i = rq_asyncTasks r ! i" using same ne by (simp add: r1_def upd_async_def)
  moreover have "rq_requestQueue r1 = rq_requestQueue r @ [?j]" by (simp add: r1_def)
  ultimately show ?thesis using ne by blast
qed

text \<open>
  C18. A \<open>Wait\<close> that runs out of time frees the request although its task is still in flight (no
  exception of an earlier run being recorded in it): it returns \<open>RESULT_NOT_READY\<close> and clears the
  busy flag, so that \<open>SetBlob\<close> is let through. If the task is queued at that time, for its
  inference or for its callback (\<open>TS_BUSY\<close>), a following \<open>StartAsync\<close> is refused by the task, but
  has already reset the stage of the task in flight to its first one; if the task is running
  (\<open>TS_POSTPONED\<close>, at any stage), \<open>StartAsync\<close> is accepted and gives the executor a second task.
\<close>

theorem timed_out_wait_frees_request:
  assumes "at_stage n i r" and "tk_status (rq_asyncTasks r ! i) = st"
    and "tk_exceptionPtr (rq_asyncTasks r ! i) = None" and "0 < millis_timeout"
    and "st = TS_BUSY \<or> st = TS_POSTPONED"
  shows "\<exists>r1. Wait millis_timeout True r = Some (Inr ST_RESULT_NOT_READY, r1) \<and>
    SetBlob (Inr ()) r1 = (Inr (), r1) \<and>
    (\<exists>r2. if st = TS_BUSY
          then StartAsync None r1 = (Some REQUEST_BUSY_str, r2) \<and> stage_of i r2 = 2
          else StartAsync None r1 = (None, r2) \<and> rq_asyncTasks r2 ! i = rq_asyncTasks r ! i \<and>
            (\<exists>j. j \<noteq> i \<and> rq_requestQueue r2 = rq_requestQueue r @ [j] \<and> stage_of j r2 = 2))"
proof -
  let ?r1 = "r\<lparr>rq_isRequestBusy := False\<rparr>"
  have "Wait millis_timeout True r = Some (Inr ST_RESULT_NOT_READY, ?r1)"
    using assms by (auto simp: Wait_def current_exception_def current_status_def at_stage_def
        setIsRequestBusy_def Let_def)
  moreover have "SetBlob (Inr ()) ?r1 = (Inr (), ?r1)" by (simp add: SetBlob_def guarded_def)
  moreover have "\<exists>r2. StartAsync None ?r1 = (Some REQUEST_BUSY_str, r2) \<and> stage_of i r2 = 2" if "st = TS_BUSY"
    using assms that by (simp add: StartAsync_def StartAsync_ThreadUnsafe_def startAsyncTask_def
        initNextAsyncTask_def callback_reset_def current_status_def at_stage_def setIsRequestBusy_def
        resetStages_def occupy_def stage_of_def Let_def upd_async_def)
  moreover have "\<exists>j r2. StartAsync None ?r1 = (None, r2) \<and> j \<noteq> i \<and> rq_requestQueue r2 = rq_requestQueue r @ [j] \<and>
      stage_of j r2 = 2 \<and> rq_asyncTasks r2 ! i = rq_asyncTasks r ! i" if "st = TS_POSTPONED"
    using start_while_postponed [of n i ?r1] assms that by simp
  ultimately show ?thesis using assms(5) by (cases "st = TS_BUSY") (simp; blast)+
qed

text \<open>
  A request can be started again from inside its own callback, when the task is at stage 0 and
  postponed and the request is free.
\<close>

theorem restart_from_callback:
  assumes "at_stage 0 i r" and "tk_status (rq_asyncTasks r ! i) = TS_POSTPONED"
    and "\<not> rq_isRequestBusy r"
  shows "\<exists>j r1. StartAsync None r = (None, r1) \<and> j \<noteq> i \<and> rq_requestQueue r1 = rq_requestQueue r @ [j] \<and>
    stage_of j r1 = 2 \<and> rq_asyncTasks r1 ! i = rq_asyncTasks r ! i"
  using assms by (rule start_while_postponed)

section \<open>A request\<close>

definition ex_request :: Request where
  "ex_request = (set_callback True mk_Request)\<lparr>rq_publicInterface := True\<rparr>"

definition ex_task :: "Status \<Rightarrow> nat \<Rightarrow> Request" where
  "ex_task status stage = ex_request\<lparr>rq_currentTask := AsyncTask 0,
     rq_asyncTasks := [(mk_StagedTask 2)\<lparr>tk_status := status, st_stage := stage\<rparr>]\<rparr>"

lemma ex_task_stage: "at_stage n 0 (ex_task status n)"
  by (simp add: at_stage_def ex_task_def mk_StagedTask_def ex_request_def set_callback_def mk_Request_def)

lemma ex_request_idle: "request_idle ex_request" "request_idle mk_Request" "isCallbackEnabled ex_request"
  "rq_publicInterface ex_request" "\<not> isCallbackEnabled mk_Request"
  by (simp_all add: ex_request_def set_callback_def mk_Request_def request_idle_def isCallbackEnabled_def)

theorem callback_called_once_witness:
  "\<exists>r1. StartAsync None ex_request = (None, r1) \<and>
    rq_called (run_callback_executor (Some OutOfRange) (\<lambda>st r. (None, r))
      (run_request_executor (Some OutOfRange) (\<lambda>st r. (None, r)) r1)) = [ST_GENERAL_ERROR]"
proof -
  have "rq_called ex_request = []" by (simp add: ex_request_def set_callback_def mk_Request_def)
  with callback_called_once [OF ex_request_idle(1,3,4), where cb = "\<lambda>st r. (None, r)" and thrown = "\<lambda>_. None" and infer = "Some OutOfRange"]
  show ?thesis by (auto simp: Let_def)
qed

theorem busy_until_wait_witness:
  "\<exists>r1. StartAsync None mk_Request = (None, r1) \<and>
    rq_isRequestBusy (run_request_executor None (\<lambda>st r. (None, r)) r1)"
  using busy_until_wait [OF ex_request_idle(2,5), of None "\<lambda>st r. (None, r)"] by (auto simp: Let_def)

theorem timed_out_wait_frees_request_witness:
  "(\<exists>r1. Wait 5 True (ex_task TS_BUSY 1) = Some (Inr ST_RESULT_NOT_READY, r1)) \<and>
   (\<exists>r1 r2. Wait 5 True (ex_task TS_POSTPONED 2) = Some (Inr ST_RESULT_NOT_READY, r1) \<and>
      StartAsync None r1 = (None, r2))"
  using timed_out_wait_frees_request [of 1 0 "ex_task TS_BUSY 1" TS_BUSY 5]
    timed_out_wait_frees_request [of 2 0 "ex_task TS_POSTPONED 2" TS_POSTPONED 5] ex_task_stage
  by (auto simp: ex_task_def mk_StagedTask_def)

theorem restart_from_callback_witness:
  "\<exists>j r1. StartAsync None (ex_task TS_POSTPONED 0) = (None, r1) \<and> j \<noteq> 0 \<and> stage_of j r1 = 2"
proof -
  have "tk_status (rq_asyncTasks (ex_task TS_POSTPONED 0) ! 0) = TS_POSTPONED"
    "\<not> rq_isRequestBusy (ex_task TS_POSTPONED 0)"
    by (simp_all add: ex_task_def mk_StagedTask_def ex_request_def set_callback_def mk_Request_def)
  from restart_from_callback [OF ex_task_stage this] show ?thesis by blast
qed

end
