(* ===== verification/HalfFloat.thy ===== *)
theory HalfFloat
  imports Prelude "HOL-Library.Word"
begin

unbundle bit_operations_syntax

text \<open>
  Conversion between single and half precision (\<open>src/src/inference_engine/precision_utils.cpp\<close>).
  A float is its 32 bits, an \<open>ie_fp16\<close> its 16. The few float operations that \<open>f32tof16\<close> performs act
  on non-negative numbers; they are IEEE 754 addition, multiplication and comparison with rounding
  to nearest even.
\<close>

type_synonym f32 = "32 word"
type_synonym ie_fp16 = "16 word"

section \<open>Float operations on non-negative numbers\<close>

text \<open>The value of a number without its sign, in units of \<open>2\<^sup>-\<^sup>1\<^sup>4\<^sup>9\<close>, the least subnormal; infinity is \<open>2\<^sup>2\<^sup>7\<^sup>7\<close>.\<close>

definition mag_bits :: "nat \<Rightarrow> nat" where
  "mag_bits u = (let e = u div 2 ^ 23; m = u mod 2 ^ 23 in if e = 0 then m else (2 ^ 23 + m) * 2 ^ (e - 1))"

definition mag :: "f32 \<Rightarrow> nat" where
  "mag u = mag_bits (unat u)"

fun bit_length :: "nat \<Rightarrow> nat" where
  "bit_length k = (if k = 0 then 0 else Suc (bit_length (k div 2)))"

declare bit_length.simps [simp del]

definition round_even :: "nat \<Rightarrow> nat \<Rightarrow> nat" where
  "round_even k j =
     (let q = k div 2 ^ j; r = k mod 2 ^ j in if 2 * r > 2 ^ j \<or> 2 * r = 2 ^ j \<and> odd q then q + 1 else q)"

definition encode_bits :: "nat \<Rightarrow> nat" where
  "encode_bits r =
     (if r < 2 ^ 23 then r else let e = bit_length r - 23 in e * 2 ^ 23 + (r div 2 ^ (e - 1) - 2 ^ 23))"

text \<open>The float next to \<open>k / 2\<^sup>j\<close> units, of 24 significant bits.\<close>

definition round_bits :: "nat \<Rightarrow> nat \<Rightarrow> nat" where
  "round_bits k j =
     (let g = max j (bit_length k - 24); r = round_even k g * 2 ^ (g - j) in
      if r \<ge> 2 ^ 277 then 0x7F800000 else encode_bits r)"

definition f32_add :: "f32 \<Rightarrow> f32 \<Rightarrow> f32" where
  "f32_add u v = of_nat (round_bits (mag u + mag v) 0)"

definition f32_mul :: "f32 \<Rightarrow> f32 \<Rightarrow> f32" where
  "f32_mul u v = of_nat (round_bits (mag u * mag v) 149)"

definition f32_less :: "f32 \<Rightarrow> f32 \<Rightarrow> bool" where
  "f32_less u v = (mag u < mag v)"

section \<open>The conversions\<close>

definition EXP_MASK_F32 :: f32 where "EXP_MASK_F32 = 0x7F800000"
definition EXP_MASK_F16 :: f32 where "EXP_MASK_F16 = 0x7C00"

text \<open>The loop that shifts a subnormal number until its leading bit is the hidden one.\<close>

partial_function (option) normalise :: "16 word \<Rightarrow> 16 word \<Rightarrow> (16 word \<times> 16 word) option" where
  "normalise h_sig h_exp =
     (if h_sig AND 0x0400 = 0 then normalise (push_bit 1 h_sig) (h_exp + 1) else Some (h_sig, h_exp))"

definition f16tof32 :: "ie_fp16 \<Rightarrow> f32 option" where
  "f16tof32 x =
     (let u = (scast x :: f32); s = push_bit 16 (u AND 0x8000) in
      if u AND EXP_MASK_F16 = EXP_MASK_F16 then
        let u = u AND 0x03FF;
            u = (if u \<noteq> 0 then u OR 0x0200 else u);
            u = push_bit (23 - 10) u OR EXP_MASK_F32
        in Some (u OR s)
      else if u AND EXP_MASK_F16 = 0 then
        let h_sig = (ucast (u AND 0x03FF) :: 16 word) in
        if h_sig = 0 then Some s
        else
          let h_exp = (ucast (u AND EXP_MASK_F16) :: 16 word) in
          (case normalise (push_bit 1 h_sig) h_exp of
             None \<Rightarrow> None
           | Some (h_sig, h_exp) \<Rightarrow>
               let f_exp = push_bit 23 (127 - 15 - ucast h_exp :: f32);
                   f_sig = push_bit 13 (ucast (h_sig AND 0x03FF) :: f32)
               in Some (s + f_exp + f_sig))
      else
        let u = push_bit (23 - 10) (u AND 0x7FFF) + push_bit 23 (127 - 15) in Some (u OR s))"

definition min16 :: f32 where "min16 = push_bit 23 (127 - 14)"
definition max16 :: f32 where "max16 = push_bit 23 (127 + 15) OR 0x007FE000"
definition max16f16 :: f32 where "max16f16 = push_bit 10 (15 + 15) OR 0x3FF"

definition f32tof16 :: "f32 \<Rightarrow> ie_fp16" where
  "f32tof16 x =
     (let s = drop_bit 16 x AND 0x8000; v = x AND 0x7FFFFFFF in
      if v AND EXP_MASK_F32 = EXP_MASK_F32 then
        if v AND 0x007FFFFF \<noteq> 0 then ucast (s OR drop_bit (23 - 10) v OR 0x0200)
        else ucast (s OR drop_bit (23 - 10) v)
      else
        let halfULP = f32_mul (v AND EXP_MASK_F32) (push_bit 23 (127 - 11)); v = f32_add v halfULP in
        if f32_less v (f32_mul min16 0x3F000000) then ucast s
        else if f32_less v min16 then ucast (s OR push_bit 10 1)
        else if \<not> f32_less v max16 then ucast (max16f16 OR s)
        else ucast (drop_bit (23 - 10) (v - push_bit 23 (127 - 15)) OR s))"

section \<open>Rounding\<close>

lemma bit_length_eq: "2 ^ n \<le> k \<Longrightarrow> k < 2 ^ Suc n \<Longrightarrow> bit_length k = Suc n"
proof (induction n arbitrary: k)
  case 0
  then have "k = 1" by simp
  then show ?case by (simp add: bit_length.simps)
next
  case (Suc n)
  then have "bit_length (k div 2) = Suc n" by (intro Suc.IH) auto
  with Suc.prems show ?case by (subst bit_length.simps) auto
qed

lemma bit_length_le: "k < 2 ^ n \<Longrightarrow> bit_length k \<le> n"
proof (induction n arbitrary: k)
  case 0
  then show ?case by (simp add: bit_length.simps)
next
  case (Suc n)
  then have "bit_length (k div 2) \<le> n" by (intro Suc.IH) auto
  then show ?case by (subst bit_length.simps) simp
qed

lemma bit_length_scaled: "2 ^ 23 \<le> S \<Longrightarrow> S < 2 ^ 24 \<Longrightarrow> bit_length (S * 2 ^ t) = t + 24"
proof -
  assume S: "2 ^ 23 \<le> S" "S < 2 ^ 24"
  have "2 ^ (t + 23) \<le> S * 2 ^ t" using S(1) by (simp add: power_add)
  moreover have "S * 2 ^ t < 2 ^ Suc (t + 23)" using S(2) by (simp add: power_add)
  ultimately show ?thesis using bit_length_eq [of "t + 23"] by simp
qed

text \<open>A significand of 24 bits is represented exactly.\<close>

lemma encode_scaled:
  assumes "2 ^ 23 \<le> S" "S < 2 ^ 24"
  shows "encode_bits (S * 2 ^ t) = Suc t * 2 ^ 23 + (S - 2 ^ 23)"
proof -
  have "2 ^ 23 * 1 \<le> S * 2 ^ t" using assms(1) by (intro mult_le_mono) auto
  then have "\<not> S * 2 ^ t < 2 ^ 23" by simp
  then show ?thesis using bit_length_scaled [OF assms, of t] by (simp add: encode_bits_def Let_def)
qed

lemma round_even_exact: "2 ^ j dvd k \<Longrightarrow> round_even k j = k div 2 ^ j"
  by (auto simp: round_even_def Let_def)

section \<open>Bits as numbers\<close>

lemma and_mask_31: "(v :: f32) AND 0x7FFFFFFF = take_bit 31 v"
  by (simp add: take_bit_eq_mask mask_eq_exp_minus_1)

lemma and_high_bits: "(v :: 'a::len word) AND NOT (mask n) = push_bit n (drop_bit n v)"
  by (rule bit_eqI) (auto simp: bit_simps)

lemma and_exp_f32: "unat v < 2 ^ 31 \<Longrightarrow> (v :: f32) AND EXP_MASK_F32 = push_bit 23 (drop_bit 23 v)"
proof -
  assume "unat v < 2 ^ 31"
  then have v: "take_bit 31 v = v"
    by (simp add: word_unat_eq_iff unsigned_take_bit_eq take_bit_nat_eq_self)
  have "EXP_MASK_F32 = mask 31 AND NOT (mask 23)" by (simp add: EXP_MASK_F32_def mask_eq_exp_minus_1)
  then have "v AND EXP_MASK_F32 = (v AND mask 31) AND NOT (mask 23)" by (simp add: ac_simps)
  then show ?thesis using v by (simp add: and_high_bits flip: take_bit_eq_mask)
qed

lemma unat_high_bits: "unat (push_bit n (drop_bit n v)) = unat v div 2 ^ n * 2 ^ n" for v :: "'a::len word"
proof -
  have "unat v div 2 ^ n * 2 ^ n \<le> unat v" by simp
  also have "\<dots> < 2 ^ LENGTH('a)" by simp
  finally show ?thesis
    by (subst unsigned_push_bit_eq, subst unsigned_drop_bit_eq)
      (simp add: push_bit_eq_mult drop_bit_eq_div take_bit_nat_eq_self)
qed

lemma unat_of_nat_half: "k < 2 ^ 16 \<Longrightarrow> unat (of_nat k :: ie_fp16) = k"
  by (simp add: unsigned_of_nat take_bit_nat_eq_self)

lemma unat_of_nat_f32: "k < 2 ^ 32 \<Longrightarrow> unat (of_nat k :: f32) = k"
  by (simp add: unsigned_of_nat take_bit_nat_eq_self)

lemma unat_ucast_f32: "unat (ucast h :: f32) = unat h" for h :: ie_fp16
  using unsigned_less [where 'a = nat, of h] by (simp add: unsigned_ucast_eq take_bit_nat_eq_self)

section \<open>The magnitude of a number\<close>

lemma mag_bits_scaled: "mag_bits (Suc t * 2 ^ 23 + m) = (2 ^ 23 + m) * 2 ^ t" if "m < 2 ^ 23"
proof -
  have "(Suc t * 2 ^ 23 + m) div 2 ^ 23 = Suc t" "(Suc t * 2 ^ 23 + m) mod 2 ^ 23 = m"
    using that by (simp_all del: mult_Suc)
  then show ?thesis unfolding mag_bits_def Let_def by (simp del: mult_Suc)
qed

lemma mag_bits_small: "m < 2 ^ 23 \<Longrightarrow> mag_bits m = m"
  by (simp add: mag_bits_def)

lemma mag_bits_upper: "mag_bits a < 2 ^ (23 + a div 2 ^ 23)"
proof (cases "a div 2 ^ 23")
  case 0
  then show ?thesis by (simp add: mag_bits_def Let_def)
next
  case (Suc t)
  have "(2 ^ 23 + a mod 2 ^ 23) * 2 ^ t < 2 ^ 24 * (2 ^ t :: nat)" by (intro mult_strict_right_mono) auto
  also have "\<dots> = 2 ^ (23 + Suc t)" by (simp add: power_add)
  finally show ?thesis using Suc unfolding mag_bits_def Let_def by simp
qed

lemma mag_bits_lower: "0 < a div 2 ^ 23 \<Longrightarrow> 2 ^ (22 + a div 2 ^ 23) \<le> mag_bits a"
proof (cases "a div 2 ^ 23")
  case (Suc t)
  have "2 ^ (22 + Suc t) = 2 ^ 23 * (2 ^ t :: nat)" by (simp add: power_add)
  also have "\<dots> \<le> (2 ^ 23 + a mod 2 ^ 23) * 2 ^ t" by (intro mult_right_mono) auto
  finally show ?thesis using Suc unfolding mag_bits_def Let_def by simp
qed simp

lemma mag_bits_strict: "a < b \<Longrightarrow> mag_bits a < mag_bits b"
proof (cases "a div 2 ^ 23 = b div 2 ^ 23")
  case True
  moreover assume "a < b"
  ultimately have "a mod 2 ^ 23 < b mod 2 ^ 23"
    by (metis div_mult_mod_eq nat_add_left_cancel_less)
  then show ?thesis using True unfolding mag_bits_def Let_def by (auto simp del: power_numeral)
next
  case False
  moreover assume "a < b"
  ultimately have lt: "a div 2 ^ 23 < b div 2 ^ 23" by (meson div_le_mono le_neq_implies_less less_imp_le)
  note mag_bits_upper [of a]
  also have "2 ^ (23 + a div 2 ^ 23) \<le> (2 :: nat) ^ (22 + b div 2 ^ 23)" using lt by (intro power_increasing) auto
  also have "\<dots> \<le> mag_bits b" using lt by (intro mag_bits_lower) simp
  finally show ?thesis .
qed

lemma mag_bits_less_iff: "mag_bits a < mag_bits b \<longleftrightarrow> a < b"
  using mag_bits_strict [of a b] mag_bits_strict [of b a] by (metis less_asym less_irrefl linorder_neqE_nat)

lemma f32_less_iff: "f32_less u v \<longleftrightarrow> unat u < unat v"
  by (simp add: f32_less_def mag_def mag_bits_less_iff)


section \<open>Representable numbers\<close>

lemma mag_encode: "mag_bits (encode_bits (S * 2 ^ t)) = S * 2 ^ t" if "2 ^ 23 \<le> S" "S < 2 ^ 24"
proof -
  have "S - 2 ^ 23 < 2 ^ 23" using that(2) by simp
  then show ?thesis using that by (simp only: encode_scaled mag_bits_scaled) simp
qed

lemma encode_power:
  "mag_bits (encode_bits (2 ^ n)) = 2 ^ n \<and> encode_bits (2 ^ n) \<le> Suc n * 2 ^ 23"
proof (cases "n < 23")
  case True
  then have "(2 :: nat) ^ n < 2 ^ 23" by (intro power_strict_increasing) auto
  then show ?thesis by (auto simp: encode_bits_def mag_bits_small)
next
  case False
  then obtain t where n: "n = t + 23" by (metis add.commute le_Suc_ex not_less)
  then have "(2 :: nat) ^ n = 2 ^ 23 * 2 ^ t" by (simp add: power_add)
  then show ?thesis using encode_scaled [of "2 ^ 23" t] mag_encode [of "2 ^ 23" t] n by simp
qed

lemma bit_length_power: "bit_length (2 ^ n) = Suc n"
  by (rule bit_length_eq) simp_all

lemma round_bits_exact:
  assumes k: "bit_length k \<le> j + 24" and dvd: "2 ^ j dvd k" and lt: "k div 2 ^ j < 2 ^ 277"
  shows "round_bits k j = encode_bits (k div 2 ^ j)"
proof -
  have "max j (bit_length k - 24) = j" using k by simp
  then show ?thesis using lt round_even_exact [OF dvd] by (simp add: round_bits_def Let_def)
qed

lemma round_bits_power:
  assumes "j \<le> n" "n < j + 277"
  shows "round_bits (2 ^ n) j = encode_bits (2 ^ (n - j))"
proof -
  let ?g = "max j (Suc n - 24)"
  have g: "?g \<le> n" "j \<le> ?g" using assms(1) by auto
  then have "round_even (2 ^ n) ?g = 2 ^ (n - ?g)" by (simp add: round_even_exact le_imp_power_dvd power_diff)
  then have "round_even (2 ^ n) ?g * 2 ^ (?g - j) = 2 ^ (n - j)" using g by (simp flip: power_add)
  moreover have "(2 :: nat) ^ (n - j) < 2 ^ 277" using assms by (intro power_strict_increasing) auto
  then have "\<not> 2 ^ 277 \<le> (2 :: nat) ^ (n - j)" by (simp only: linorder_not_le)
  ultimately show ?thesis unfolding round_bits_def Let_def bit_length_power by (simp only: if_False)
qed


section \<open>Adding half a unit in the last place\<close>

text \<open>The magnitude bits of \<open>halfULP\<close>, for an exponent field \<open>e\<close>.\<close>

lemma half_ulp_mag:
  fixes v :: f32
  assumes v: "unat v div 2 ^ 23 = e" and e: "e < 255"
  shows "mag (f32_mul (v AND EXP_MASK_F32) (push_bit 23 (127 - 11))) = (if e = 0 then 0 else 2 ^ (e + 11))"
proof -
  have "unat v < 2 ^ 31"
  proof -
    have "unat v div 2 ^ 23 < 2 ^ 8" using v e by simp
    then have "unat v < 2 ^ 8 * 2 ^ 23" by (subst (asm) div_less_iff_less_mult) auto
    then show ?thesis by simp
  qed
  then have exp: "mag (v AND EXP_MASK_F32) = mag_bits (e * 2 ^ 23)"
    by (simp only: mag_def and_exp_f32 unat_high_bits v)
  have scale: "mag (push_bit 23 (127 - 11)) = 2 ^ 138" by (simp add: mag_def mag_bits_def)
  show ?thesis
  proof (cases e)
    case 0
    then show ?thesis using exp
      by (simp add: f32_mul_def mag_bits_def round_bits_def round_even_def encode_bits_def mag_def)
  next
    case (Suc t)
    have "mag_bits (e * 2 ^ 23) = 2 ^ 23 * 2 ^ t" using mag_bits_scaled [of 0 t] Suc by (simp only: add_0_right) simp
    then have "mag (v AND EXP_MASK_F32) * mag (push_bit 23 (127 - 11)) = 2 ^ (e + 160)"
      unfolding exp scale using Suc by (simp add: power_add)
    then have "f32_mul (v AND EXP_MASK_F32) (push_bit 23 (127 - 11)) = of_nat (encode_bits (2 ^ (e + 11)))"
      unfolding f32_mul_def using e by (simp only: round_bits_power) (simp add: add.commute)
    moreover have "encode_bits (2 ^ (e + 11)) < 2 ^ 32" using encode_power [of "e + 11"] e by simp
    ultimately show ?thesis using encode_power [of "e + 11"] Suc
      by (simp add: mag_def unat_of_nat_f32)
  qed
qed


text \<open>The sum with \<open>halfULP\<close>: its upper bits are those of the rounded argument.\<close>

lemma round_bits_scaled:
  assumes S: "2 ^ 23 \<le> S" "S < 2 ^ 24" and t: "t < 254"
  shows "round_bits (S * 2 ^ t) 0 = Suc t * 2 ^ 23 + (S - 2 ^ 23)"
proof -
  have g: "max 0 (bit_length (S * 2 ^ t) - 24) = t" by (simp add: bit_length_scaled [OF S])
  have "S * 2 ^ t < 2 ^ 24 * 2 ^ t" using S by simp
  also have "\<dots> = 2 ^ (24 + t)" by (simp add: power_add)
  also have "\<dots> \<le> (2 :: nat) ^ 277" using t by (intro power_increasing) auto
  finally have "\<not> 2 ^ 277 \<le> S * 2 ^ t" by (simp only: linorder_not_le)
  moreover have "round_even (S * 2 ^ t) t = S" by (simp add: round_even_exact)
  ultimately show ?thesis unfolding round_bits_def Let_def g
    by (simp only: diff_zero if_False encode_scaled [OF S])
qed

lemma round_bits_carry:
  assumes S: "2 ^ 24 \<le> S" "S < 2 ^ 24 + 2 ^ 12" and t: "t < 254"
  obtains d where "d \<le> 2 ^ 11" "round_bits (S * 2 ^ t) 0 = Suc (Suc t) * 2 ^ 23 + d"
proof -
  have "2 ^ (t + 24) \<le> S * 2 ^ t" "S * 2 ^ t < 2 ^ Suc (t + 24)"
    using S by (simp_all add: power_add)
  then have g: "max 0 (bit_length (S * 2 ^ t) - 24) = Suc t" by (simp add: bit_length_eq)
  have "S * 2 ^ t div 2 ^ Suc t = S div 2" by (simp add: mult.commute)
  then have "round_even (S * 2 ^ t) (Suc t) \<in> {S div 2, S div 2 + 1}" unfolding round_even_def Let_def by auto
  moreover have "2 ^ 23 \<le> S div 2" "S div 2 + 1 \<le> 2 ^ 23 + 2 ^ 11" using S by auto
  ultimately have "2 ^ 23 \<le> round_even (S * 2 ^ t) (Suc t)"
    and le: "round_even (S * 2 ^ t) (Suc t) \<le> 2 ^ 23 + 2 ^ 11" by auto
  then obtain d where eq: "round_even (S * 2 ^ t) (Suc t) = 2 ^ 23 + d" by (auto simp only: le_iff_add)
  then have d: "d \<le> 2 ^ 11" "round_even (S * 2 ^ t) (Suc t) = 2 ^ 23 + d" using le by simp_all
  show thesis
  proof (cases "t = 253")
    case True
    then have "(2 :: nat) ^ 277 \<le> 2 ^ 23 * 2 ^ (Suc t - 0)" by simp
    also have "\<dots> \<le> (2 ^ 23 + d) * 2 ^ (Suc t - 0)" by (intro mult_le_mono1) simp
    finally have "round_bits (S * 2 ^ t) 0 = 0x7F800000" unfolding round_bits_def Let_def g d(2) by (simp only: if_True)
    then show thesis using True by (intro that [of 0]) simp_all
  next
    case False
    have S': "2 ^ 23 \<le> 2 ^ 23 + d" "2 ^ 23 + d < 2 ^ 24" using d(1) by auto
    have "(2 ^ 23 + d) * 2 ^ Suc t < 2 ^ 24 * 2 ^ Suc t" using S'(2) by (rule mult_strict_right_mono) simp
    also have "\<dots> = 2 ^ (25 + t)" by (simp add: power_add)
    also have "\<dots> \<le> (2 :: nat) ^ 277" using t False by (intro power_increasing) auto
    finally have "\<not> 2 ^ 277 \<le> (2 ^ 23 + d) * 2 ^ Suc t" by (simp only: linorder_not_le)
    then have "round_bits (S * 2 ^ t) 0 = Suc (Suc t) * 2 ^ 23 + d"
      unfolding round_bits_def Let_def g d(2) by (simp only: diff_zero if_False encode_scaled [OF S'])
    then show thesis using d(1) that by blast
  qed
qed

lemma add_half_bits:
  fixes v :: f32
  assumes v: "unat v = Suc t * 2 ^ 23 + m" and m: "m < 2 ^ 23" and t: "t < 254"
    and h: "mag h = 2 ^ (t + 12)"
  shows "unat (f32_add v h) div 2 ^ 13 = (unat v + 2 ^ 12) div 2 ^ 13 \<and> unat (f32_add v h) < 2 ^ 31"
proof -
  let ?S = "2 ^ 23 + m + 2 ^ 12"
  have "mag v = (2 ^ 23 + m) * 2 ^ t" unfolding mag_def v by (rule mag_bits_scaled [OF m])
  moreover have "(2 :: nat) ^ (t + 12) = 2 ^ 12 * 2 ^ t" by (simp add: power_add)
  ultimately have sum: "mag v + mag h = ?S * 2 ^ t" using h by (simp add: algebra_simps)
  show ?thesis
  proof (cases "?S < 2 ^ 24")
    case True
    then have "round_bits (?S * 2 ^ t) 0 = Suc t * 2 ^ 23 + (m + 2 ^ 12)"
      using round_bits_scaled [of ?S t] t by simp
    then have eq: "f32_add v h = of_nat (unat v + 2 ^ 12)" unfolding f32_add_def sum v by (simp only: add.assoc)
    have lt: "unat v + 2 ^ 12 < 2 ^ 31" using v t True by simp
    then have "unat (f32_add v h) = unat v + 2 ^ 12" unfolding eq by (intro unat_of_nat_f32) simp
    then show ?thesis using lt by simp
  next
    case False
    then obtain d where d: "d \<le> 2 ^ 11" "round_bits (?S * 2 ^ t) 0 = Suc (Suc t) * 2 ^ 23 + d"
      using round_bits_carry [of ?S t] m t by auto
    then have "Suc (Suc t) * 2 ^ 23 + d < 2 ^ 31" using t by simp
    moreover from this have "unat (f32_add v h) = Suc (Suc t) * 2 ^ 23 + d"
      unfolding f32_add_def sum d(2) by (intro unat_of_nat_f32) simp
    moreover have "(Suc (Suc t) * 2 ^ 23 + d) div 2 ^ 13 = Suc (Suc t) * 2 ^ 10"
      using d(1) by simp
    moreover have "(unat v + 2 ^ 12) div 2 ^ 13 = Suc (Suc t) * 2 ^ 10"
    proof -
      have "2 ^ 23 \<le> m + 2 ^ 12" using False by simp
      then obtain r where "m + 2 ^ 12 = 2 ^ 23 + r" by (auto simp only: le_iff_add)
      then have "unat v + 2 ^ 12 = Suc (Suc t) * 2 ^ 23 + r" "r < 2 ^ 12" using v m by simp_all
      then show ?thesis by simp
    qed
    ultimately show ?thesis by simp
  qed
qed


section \<open>Rounding to half precision\<close>

text \<open>The sign bit of the result, and the bits of its magnitude as a function of the argument's.\<close>

definition half_sign :: "f32 \<Rightarrow> ie_fp16" where
  "half_sign x = ucast (drop_bit 16 x AND 0x8000)"

definition half_bits :: "nat \<Rightarrow> nat" where
  "half_bits u =
     (let q = (u + 2 ^ 12) div 2 ^ 13 in
      if q < 112 * 2 ^ 10 then 0
      else if q < 113 * 2 ^ 10 then 2 ^ 10
      else if 142 * 2 ^ 10 + 0x3FF \<le> q then 0x7BFF
      else q - 112 * 2 ^ 10)"

lemma min16_half: "f32_mul min16 0x3F000000 = push_bit 23 112"
proof -
  have "mag min16 * mag 0x3F000000 = 2 ^ 283" by (simp add: min16_def mag_def mag_bits_def)
  moreover have "encode_bits (2 ^ 134) = 112 * 2 ^ 23" using encode_scaled [of "2 ^ 23" 111] by simp
  ultimately show ?thesis unfolding f32_mul_def using round_bits_power [of 149 283] by simp
qed

lemma rounded_bits:
  fixes v :: f32
  assumes v: "unat v < 255 * 2 ^ 23"
  defines "w \<equiv> f32_add v (f32_mul (v AND EXP_MASK_F32) (push_bit 23 (127 - 11)))"
  defines "q \<equiv> (unat v + 2 ^ 12) div 2 ^ 13"
  shows "unat w < 2 ^ 31 \<and> (if unat v < 2 ^ 23 then unat w < 2 ^ 23 \<and> q \<le> 2 ^ 10 else unat w div 2 ^ 13 = q)"
proof -
  have lt: "unat v div 2 ^ 23 < 255" using v by (subst div_less_iff_less_mult) auto
  note half = half_ulp_mag [OF refl lt]
  show ?thesis
  proof (cases "unat v div 2 ^ 23")
    case 0
    then have "unat v < 2 ^ 23" by (simp add: div_eq_0_iff)
    moreover from this have "w = v"
      using half unfolding w_def
      by (simp add: f32_add_def mag_def mag_bits_small round_bits_def bit_length_le round_even_def encode_bits_def)
    ultimately show ?thesis by (simp add: q_def)
  next
    case (Suc t)
    have "unat v = Suc t * 2 ^ 23 + unat v mod 2 ^ 23" using Suc by (metis div_mult_mod_eq)
    moreover have "t < 254" using lt Suc by simp
    moreover have "mag (f32_mul (v AND EXP_MASK_F32) (push_bit 23 (127 - 11))) = 2 ^ (t + 12)"
      using half Suc by simp
    ultimately have "unat w div 2 ^ 13 = q" "unat w < 2 ^ 31"
      using add_half_bits [of v t "unat v mod 2 ^ 23"] unfolding w_def q_def by auto
    then show ?thesis using Suc by auto
  qed
qed


lemma unat_scaled_less: "n < c * 2 ^ 13 \<longleftrightarrow> n div 2 ^ 13 < c" for n c :: nat
  by (simp add: div_less_iff_less_mult)

lemma rebias_bits:
  fixes w :: f32
  assumes "unat w div 2 ^ 13 = q" "112 * 2 ^ 10 \<le> q"
  shows "(ucast (drop_bit (23 - 10) (w - push_bit 23 (127 - 15))) :: ie_fp16) = of_nat (q - 112 * 2 ^ 10)"
proof -
  have le: "112 * 2 ^ 23 \<le> unat w" using assms by simp
  have "unat (w - push_bit 23 (127 - 15)) = unat w - 112 * 2 ^ 23"
    using le by (subst unat_sub) (simp_all add: word_le_nat_alt)
  then have "unat (drop_bit (23 - 10) (w - push_bit 23 (127 - 15))) = q - 112 * 2 ^ 10"
    using assms le by (simp only: unat_drop_bit_eq drop_bit_eq_div [where 'a = nat]) simp
  then show ?thesis by (metis of_nat_unat)
qed

lemma f32tof16_finite:
  assumes "unat (x AND 0x7FFFFFFF) < 255 * 2 ^ 23"
  shows "f32tof16 x = half_sign x OR of_nat (half_bits (unat (x AND 0x7FFFFFFF)))"
proof -
  let ?v = "x AND 0x7FFFFFFF"
  define w where "w = f32_add ?v (f32_mul (?v AND EXP_MASK_F32) (push_bit 23 (127 - 11)))"
  define q where "q = (unat ?v + 2 ^ 12) div 2 ^ 13"
  note w = rounded_bits [OF assms, folded w_def q_def]
  have cmp: "unat w < c * 2 ^ 13 \<longleftrightarrow> q < c" if "112 * 2 ^ 10 \<le> c" for c
  proof (cases "unat ?v < 2 ^ 23")
    case True
    then have "unat w < 2 ^ 23" "q \<le> 2 ^ 10" using w by auto
    then show ?thesis using that by simp
  next
    case False
    then show ?thesis using w by (simp only: unat_scaled_less if_False)
  qed
  have fin: "?v AND EXP_MASK_F32 \<noteq> EXP_MASK_F32"
  proof
    assume "?v AND EXP_MASK_F32 = EXP_MASK_F32"
    moreover have "unat (?v AND EXP_MASK_F32) = unat ?v div 2 ^ 23 * 2 ^ 23"
      using assms by (subst and_exp_f32) (simp_all only: unat_high_bits, simp)
    moreover have "unat ?v div 2 ^ 23 * 2 ^ 23 \<le> unat ?v" by simp
    ultimately show False using assms by (simp add: EXP_MASK_F32_def)
  qed
  have less_half: "f32_less w (f32_mul min16 0x3F000000) \<longleftrightarrow> q < 112 * 2 ^ 10"
    using cmp [of "112 * 2 ^ 10"] by (simp add: f32_less_iff min16_half)
  have less_min: "f32_less w min16 \<longleftrightarrow> q < 113 * 2 ^ 10"
    using cmp [of "113 * 2 ^ 10"] by (simp add: f32_less_iff min16_def)
  have less_max: "f32_less w max16 \<longleftrightarrow> q < 142 * 2 ^ 10 + 0x3FF"
    using cmp [of "142 * 2 ^ 10 + 0x3FF"] by (simp add: f32_less_iff max16_def)
  have q: "unat w div 2 ^ 13 = q" if "112 * 2 ^ 10 \<le> q" using w that by (auto split: if_splits)
  show ?thesis
    unfolding f32tof16_def Let_def half_bits_def w_def [symmetric] q_def [symmetric]
    using fin less_half less_min less_max rebias_bits [OF q]
    by (simp add: half_sign_def max16f16_def unsigned_or_eq or.commute)
qed


section \<open>From half precision\<close>

definition f32_sign :: "ie_fp16 \<Rightarrow> f32" where
  "f32_sign h = push_bit 16 (ucast (h AND 0x8000))"

lemma and_power: "w AND 2 ^ n = (if bit w n then 2 ^ n else 0)" for w :: "'a::len word"
  by (rule bit_eqI) (auto simp: bit_simps)

lemma half_sign_cases: "h AND 0x8000 = 0 \<or> h AND 0x8000 = 0x8000" for h :: ie_fp16
  using and_power [of h 15] by (auto split: if_splits)

lemma scast_and: "(scast h :: f32) AND ucast c = ucast (h AND c)" for h c :: ie_fp16
proof (rule bit_eqI)
  fix n :: nat
  consider "n < 15" | "n = 15" | "\<not> bit c n" using bit_imp_le_length [of c n] by fastforce
  then show "bit (scast h AND ucast c :: f32) n \<longleftrightarrow> bit (ucast (h AND c) :: f32) n"
    by cases (auto simp: bit_simps min_def)
qed

lemma scast_and_numerals:
  "(scast h :: f32) AND 0x8000 = ucast (h AND 0x8000)"
  "(scast h :: f32) AND EXP_MASK_F16 = ucast (h AND 0x7C00)"
  "(scast h :: f32) AND 0x03FF = ucast (h AND 0x3FF)"
  "(scast h :: f32) AND 0x7FFF = ucast (h AND 0x7FFF)"
  for h :: ie_fp16
  using scast_and [where h = h and c = "0x8000"] scast_and [where h = h and c = "0x7C00"]
    scast_and [where h = h and c = "0x3FF"] scast_and [where h = h and c = "0x7FFF"]
  by (simp_all add: EXP_MASK_F16_def)

lemma take_bit_31: "n < 2 ^ 31 \<Longrightarrow> take_bit 31 (of_nat n :: f32) = of_nat n"
  by (simp add: word_unat_eq_iff unsigned_take_bit_eq unat_of_nat_f32 take_bit_nat_eq_self)

lemma sign_parts:
  assumes "n < 2 ^ 31"
  shows "(f32_sign h OR of_nat n) AND 0x7FFFFFFF = of_nat n"
    and "half_sign (f32_sign h OR of_nat n) = h AND 0x8000"
    and "f32_sign h + of_nat n = f32_sign h OR of_nat n"
proof -
  let ?w = "of_nat n :: f32"
  have w: "take_bit 31 ?w = ?w" using assms by (rule take_bit_31)
  have s: "f32_sign h = 0 \<and> h AND 0x8000 = 0 \<or> f32_sign h = 0x80000000 \<and> h AND 0x8000 = 0x8000"
    using half_sign_cases [of h] by (auto simp: f32_sign_def)
  show "(f32_sign h OR ?w) AND 0x7FFFFFFF = ?w"
    unfolding and_mask_31 using s w by (auto simp: take_bit_or)
  have "\<not> bit ?w 31" by (subst w [symmetric]) (simp add: bit_take_bit_iff)
  then have "drop_bit 16 ?w AND 0x8000 = 0"
    using and_power [of "drop_bit 16 ?w" 15] by (simp add: bit_drop_bit_eq)
  then show "half_sign (f32_sign h OR ?w) = h AND 0x8000"
    using s by (auto simp: half_sign_def drop_bit_or and.commute bit.conj_disj_distrib)
  show "f32_sign h + ?w = f32_sign h OR ?w"
  proof (rule disjunctive_add_eq_or)
    have "0x80000000 AND ?w = 0" using \<open>\<not> bit ?w 31\<close> and_power [of ?w 31] by (simp add: and.commute)
    then show "f32_sign h AND ?w = 0" using s by auto
  qed
qed


text \<open>The fields of a half: \<open>h AND 0x7FFF\<close> as a number.\<close>

lemma and_masks:
  "(h :: ie_fp16) AND 0x7FFF = take_bit 15 h"
  "(h :: ie_fp16) AND 0x3FF = take_bit 10 h"
  "(h :: ie_fp16) AND 0x7C00 = push_bit 10 (drop_bit 10 (take_bit 15 h))"
proof -
  show "h AND 0x7FFF = take_bit 15 h" "h AND 0x3FF = take_bit 10 h"
    by (simp_all add: take_bit_eq_mask mask_eq_exp_minus_1)
  have "(0x7C00 :: ie_fp16) = mask 15 AND NOT (mask 10)" by (simp add: mask_eq_exp_minus_1)
  then have "h AND 0x7C00 = (h AND mask 15) AND NOT (mask 10)" by (simp add: ac_simps)
  then show "h AND 0x7C00 = push_bit 10 (drop_bit 10 (take_bit 15 h))"
    by (simp add: and_high_bits flip: take_bit_eq_mask)
qed

lemma half_fields:
  fixes h :: ie_fp16
  defines "b \<equiv> unat (h AND 0x7FFF)"
  shows "b < 2 ^ 15" "unat (h AND 0x3FF) = b mod 2 ^ 10" "unat (h AND 0x7C00) = b div 2 ^ 10 * 2 ^ 10"
proof -
  have b: "b = unat h mod 2 ^ 15"
    unfolding b_def and_masks by (simp only: unsigned_take_bit_eq take_bit_eq_mod [where 'a = nat])
  then show "b < 2 ^ 15" by simp
  have "unat h mod 2 ^ 15 mod 2 ^ 10 = unat h mod 2 ^ 10" by (rule mod_mod_cancel) (simp add: le_imp_power_dvd)
  then show "unat (h AND 0x3FF) = b mod 2 ^ 10"
    unfolding and_masks b by (simp only: unsigned_take_bit_eq take_bit_eq_mod [where 'a = nat])
  show "unat (h AND 0x7C00) = b div 2 ^ 10 * 2 ^ 10"
    unfolding and_masks(3) unat_high_bits b_def and_masks(1) by (rule refl)
qed

lemma f16tof32_normal:
  assumes "2 ^ 10 \<le> unat (h AND 0x7FFF)" "unat (h AND 0x7FFF) < 31 * 2 ^ 10"
  shows "f16tof32 h = Some (f32_sign h OR of_nat (unat (h AND 0x7FFF) * 2 ^ 13 + 112 * 2 ^ 23))"
proof -
  have "unat (h AND 0x7C00) \<noteq> 31 * 2 ^ 10" "unat (h AND 0x7C00) \<noteq> 0"
    unfolding half_fields using assms by (auto simp: div_eq_0_iff)
  then have e: "(ucast (h AND 0x7C00) :: f32) \<noteq> EXP_MASK_F16" "(ucast (h AND 0x7C00) :: f32) \<noteq> 0"
    by (auto simp: EXP_MASK_F16_def word_unat_eq_iff unat_ucast_f32)
  have "push_bit (23 - 10) (ucast (h AND 0x7FFF)) + push_bit 23 (127 - 15) =
      (of_nat (unat (h AND 0x7FFF) * 2 ^ 13 + 112 * 2 ^ 23) :: f32)"
    by (simp add: push_bit_eq_mult)
  then show ?thesis
    unfolding f16tof32_def Let_def scast_and_numerals f32_sign_def using e by (simp add: or.commute)
qed

lemma f16tof32_zero: "unat (h AND 0x7FFF) = 0 \<Longrightarrow> f16tof32 h = Some (f32_sign h OR of_nat 0)"
proof -
  assume "unat (h AND 0x7FFF) = 0"
  then have "unat (h AND 0x7C00) = 0" "unat (h AND 0x3FF) = 0" unfolding half_fields by simp_all
  then have "h AND 0x7C00 = 0" "h AND 0x3FF = 0" by (simp_all add: word_unat_eq_iff)
  then show ?thesis unfolding f16tof32_def Let_def scast_and_numerals f32_sign_def by (simp add: EXP_MASK_F16_def)
qed


lemma bit_10: "2 ^ k \<le> S \<Longrightarrow> S < 2 ^ Suc k \<Longrightarrow> k \<le> 10 \<Longrightarrow>
  (of_nat S :: 16 word) AND 0x400 = (if k = 10 then 0x400 else 0)"
proof -
  assume S: "2 ^ k \<le> S" "S < 2 ^ Suc k" "k \<le> 10"
  have "S div 2 ^ 10 = (if k = 10 then 1 else 0)"
  proof (cases "k = 10")
    case True
    then show ?thesis using S by auto
  next
    case False
    then have "(2 :: nat) ^ Suc k \<le> 2 ^ 10" using S(3) by (intro power_increasing) auto
    then have "S < 2 ^ 10" using S(2) by (rule order.strict_trans2 [rotated])
    then show ?thesis using False by simp
  qed
  moreover have "unat (of_nat S :: 16 word) = S"
  proof (rule unat_of_nat_half)
    have "(2 :: nat) ^ Suc k \<le> 2 ^ 16" using S(3) by (intro power_increasing) auto
    then show "S < 2 ^ 16" using S(2) by simp
  qed
  ultimately have "bit (of_nat S :: 16 word) 10 \<longleftrightarrow> k = 10"
    using bit_unsigned_iff [of "of_nat S :: 16 word" 10, where 'a = nat] by (auto simp: bit_iff_odd [where 'a = nat] split: if_splits)
  then show ?thesis using and_power [of "of_nat S :: 16 word" 10] by simp
qed

lemma normalise_shifts:
  "2 ^ k \<le> S \<Longrightarrow> S < 2 ^ Suc k \<Longrightarrow> k \<le> 10 \<Longrightarrow>
    normalise (of_nat S) e = Some (of_nat (S * 2 ^ (10 - k)), e + of_nat (10 - k))"
proof (induction "10 - k" arbitrary: k S e)
  case 0
  then show ?case using bit_10 [OF "0.prems"] by (subst normalise.simps) simp
next
  case (Suc n)
  then have "normalise (of_nat (2 * S)) (e + 1) = Some (of_nat (2 * S * 2 ^ (10 - Suc k)), e + 1 + of_nat (10 - Suc k))"
    by (intro Suc.hyps(1)) auto
  moreover have "push_bit 1 (of_nat S :: 16 word) = of_nat (2 * S)" by simp
  moreover have "2 * S * 2 ^ (10 - Suc k) = S * 2 ^ (10 - k)" "Suc (10 - Suc k) = 10 - k"
    using Suc.hyps(2) Suc.prems(3) by (simp_all flip: Suc_diff_Suc)
  moreover have "(of_nat S :: 16 word) AND 0x400 = 0"
    using bit_10 [OF Suc.prems] Suc.hyps(2) by (auto split: if_splits)
  ultimately show ?case
    by (subst normalise.simps) (metis (no_types, lifting) add.assoc of_nat_Suc)
qed

lemma subnormal_significand:
  fixes b :: nat
  assumes b: "2 ^ k \<le> b" "b < 2 ^ Suc k" "k < 10"
  shows "2 ^ 10 \<le> b * 2 ^ (10 - k) \<and> b * 2 ^ (10 - k) < 2 ^ 11"
proof -
  have p: "(2 :: nat) ^ k * 2 ^ (10 - k) = 2 ^ 10" "(2 :: nat) ^ Suc k * 2 ^ (10 - k) = 2 ^ 11"
    using b(3) by (simp_all flip: power_add)
  have "2 ^ 10 \<le> b * 2 ^ (10 - k)" using mult_le_mono1 [OF b(1), of "2 ^ (10 - k)"] unfolding p .
  moreover have "b * 2 ^ (10 - k) < 2 ^ 11"
    using mult_strict_right_mono [OF b(2), of "2 ^ (10 - k)"] unfolding p by simp
  ultimately show ?thesis ..
qed

lemma f16tof32_subnormal:
  fixes h :: ie_fp16
  defines "b \<equiv> unat (h AND 0x7FFF)"
  assumes b: "2 ^ k \<le> b" "b < 2 ^ Suc k" "k < 10"
  shows "f16tof32 h = Some (f32_sign h OR of_nat ((103 + k) * 2 ^ 23 + (b * 2 ^ (10 - k) - 2 ^ 10) * 2 ^ 13))"
proof -
  let ?S = "b * 2 ^ (10 - k)"
  have S: "2 ^ 10 \<le> ?S" "?S < 2 ^ 11" using subnormal_significand [OF b] by auto
  have "(2 :: nat) ^ Suc k \<le> 2 ^ 10" using b(3) by (intro power_increasing) auto
  then have lt: "b < 2 ^ 10" "0 < b" using b by auto
  have "unat (h AND 0x7C00) = 0" "unat (h AND 0x3FF) = b"
    unfolding half_fields b_def [symmetric] using lt by simp_all
  moreover have "of_nat (unat (h AND 0x3FF)) = h AND 0x3FF" by simp
  ultimately have e: "h AND 0x7C00 = 0" and m: "h AND 0x3FF = of_nat b"
    by (simp_all only: word_unat_eq_iff unat_0)
  have m0: "(of_nat b :: ie_fp16) \<noteq> 0" using lt by (simp add: word_unat_eq_iff unsigned_of_nat take_bit_nat_eq_self)
  have norm: "normalise (push_bit 1 (of_nat b)) 0 = Some (of_nat ?S, of_nat (9 - k))"
  proof -
    have "2 * b * 2 ^ (10 - Suc k) = ?S" using b(3) by (simp flip: Suc_diff_Suc)
    moreover have "push_bit 1 (of_nat b :: ie_fp16) = of_nat (2 * b)" by simp
    moreover have "10 - Suc k = 9 - k" by simp
    ultimately show ?thesis using normalise_shifts [of "Suc k" "2 * b" 0] b by (simp only: add_0_left) simp
  qed
  have unat_S: "unat (of_nat ?S :: ie_fp16) = ?S" using S by (intro unat_of_nat_half) simp
  have "?S mod 2 ^ 10 = ?S - 2 ^ 10" using S by (simp add: le_mod_geq)
  then have "unat ((of_nat ?S :: ie_fp16) AND 0x3FF) = ?S - 2 ^ 10"
    unfolding and_masks unsigned_take_bit_eq unat_S take_bit_eq_mod [where 'a = nat] .
  then have sig: "push_bit 13 (ucast ((of_nat ?S :: ie_fp16) AND 0x3FF)) = (of_nat ((?S - 2 ^ 10) * 2 ^ 13) :: f32)"
    by (metis of_nat_unat unat_ucast_f32 push_bit_of_nat push_bit_eq_mult)
  have "9 - k < 2 ^ 16" by simp
  then have "unat (of_nat (9 - k) :: ie_fp16) = 9 - k" by (rule unat_of_nat_half)
  then have "(ucast (of_nat (9 - k) :: ie_fp16) :: f32) = of_nat (9 - k)" by (metis of_nat_unat unat_ucast_f32)
  moreover have "(103 + k) + (9 - k) = 112" using b(3) by simp
  then have "(112 :: f32) = of_nat (103 + k) + of_nat (9 - k)" by (metis of_nat_add of_nat_numeral)
  moreover have "127 - 15 = (112 :: f32)" by simp
  ultimately have "127 - 15 - ucast (of_nat (9 - k) :: ie_fp16) = (of_nat (103 + k) :: f32)"
    by (metis add_diff_cancel_right')
  then have exp: "push_bit 23 (127 - 15 - ucast (of_nat (9 - k) :: ie_fp16)) = (of_nat ((103 + k) * 2 ^ 23) :: f32)"
    by (simp only: push_bit_of_nat push_bit_eq_mult [where 'a = nat])
  have "(103 + k) * 2 ^ 23 + (?S - 2 ^ 10) * 2 ^ 13 < 2 ^ 31" using b(3) S by simp
  then have sum: "f32_sign h + of_nat ((103 + k) * 2 ^ 23) + of_nat ((?S - 2 ^ 10) * 2 ^ 13) =
      f32_sign h OR of_nat ((103 + k) * 2 ^ 23 + (?S - 2 ^ 10) * 2 ^ 13)"
    unfolding add.assoc of_nat_add [symmetric] by (rule sign_parts(3))
  have uu: "(ucast (ucast (of_nat b :: ie_fp16) :: f32) :: ie_fp16) = of_nat b"
    by (rule bit_eqI) (simp add: bit_simps)
  have nz: "(ucast (0 :: ie_fp16) :: f32) \<noteq> EXP_MASK_F16" by (simp add: EXP_MASK_F16_def)
  show ?thesis
    unfolding f16tof32_def Let_def scast_and_numerals e m uu f32_sign_def [symmetric]
    using nz m0 by (simp only: if_False if_True unsigned_0 norm option.case prod.case exp sig sum refl)
qed


text \<open>Infinity and NaN: the quiet bit is set on a NaN, and the conversion back keeps a bit of the
  exponent in the place of the sign.\<close>

lemma or_half_add: "n < 2 ^ 10 \<Longrightarrow> 0xFC00 + of_nat n = (0xFC00 OR of_nat n :: ie_fp16)"
proof (rule disjunctive_add_eq_or)
  assume n: "n < 2 ^ 10"
  have "(0xFC00 :: ie_fp16) = NOT (mask 10)" by (simp add: mask_eq_exp_minus_1)
  then have "0xFC00 AND of_nat n = push_bit 10 (drop_bit 10 (of_nat n :: ie_fp16))"
    by (metis and.commute and_high_bits)
  moreover have "unat (push_bit 10 (drop_bit 10 (of_nat n :: ie_fp16))) = 0"
    using n unat_of_nat_half [of n] by (simp only: unat_high_bits) simp
  ultimately show "0xFC00 AND of_nat n = (0 :: ie_fp16)" by (simp add: word_unat_eq_iff)
qed

lemma or_quiet: "(a OR 0x7C00 OR c) OR 0x8200 = a OR (0xFE00 OR c)" for a c :: ie_fp16
proof -
  have eq: "0xFE00 = (0x7C00 OR 0x8200 :: ie_fp16)" by simp
  show ?thesis unfolding eq by (simp only: ac_simps)
qed

lemma or_quiet_nan: "a OR 0xFC00 OR (c OR 0x200) OR 0x200 = a OR (0xFE00 OR c)" for a c :: ie_fp16
proof -
  have eq: "0xFE00 = (0xFC00 OR 0x200 :: ie_fp16)" by simp
  have idem: "x OR 0x200 OR 0x200 = x OR 0x200" for x :: ie_fp16 by (rule bit_eqI) (auto simp: bit_simps)
  have "a OR 0xFC00 OR (c OR 0x200) OR 0x200 = (a OR 0xFC00 OR c) OR 0x200 OR 0x200" by (simp only: ac_simps)
  then show ?thesis unfolding eq idem by (simp only: ac_simps)
qed

lemma f32tof16_special:
  assumes x: "x = f32_sign h OR of_nat (255 * 2 ^ 23 + n * 2 ^ 13)" and n: "n < 2 ^ 10"
  shows "f32tof16 x = (h AND 0x8000) OR 0xFC00 OR of_nat n OR (if n = 0 then 0 else 0x200)"
proof -
  let ?N = "255 * 2 ^ 23 + n * 2 ^ 13"
  have lt: "?N < 2 ^ 31" using n by simp
  note parts = sign_parts [OF lt, of h, folded x]
  have unat: "unat (of_nat ?N :: f32) = ?N" using lt by (intro unat_of_nat_f32) simp
  have "?N mod 2 ^ 23 = n * 2 ^ 13" using n by (simp only: mod_mult_self3) simp
  moreover have "?N div 2 ^ 23 = 255" "?N div 2 ^ 13 = 255 * 2 ^ 10 + n" using n by simp_all
  ultimately have div: "?N div 2 ^ 23 = 255" "?N mod 2 ^ 23 = n * 2 ^ 13" "?N div 2 ^ 13 = 255 * 2 ^ 10 + n"
    by blast+
  have "(of_nat ?N :: f32) AND EXP_MASK_F32 = EXP_MASK_F32"
    using lt by (subst and_exp_f32) (simp_all only: unat word_unat_eq_iff unat_high_bits div, simp add: EXP_MASK_F32_def)
  moreover have "(of_nat ?N :: f32) AND 0x007FFFFF \<noteq> 0 \<longleftrightarrow> n \<noteq> 0"
  proof -
    have "(of_nat ?N :: f32) AND 0x007FFFFF = take_bit 23 (of_nat ?N)" by (simp add: take_bit_eq_mask mask_eq_exp_minus_1)
    moreover have "unat (take_bit 23 (of_nat ?N :: f32)) = n * 2 ^ 13"
      unfolding unsigned_take_bit_eq unat take_bit_eq_mod [where 'a = nat] by (rule div(2))
    ultimately show ?thesis by (simp add: word_unat_eq_iff)
  qed
  moreover have "(ucast (drop_bit (23 - 10) (of_nat ?N :: f32)) :: ie_fp16) = 0xFC00 OR of_nat n"
  proof -
    have "unat (drop_bit (23 - 10) (of_nat ?N :: f32)) = 255 * 2 ^ 10 + n"
      using div(3) by (simp only: unat_drop_bit_eq unat drop_bit_eq_div [where 'a = nat]) simp
    then have "(ucast (drop_bit (23 - 10) (of_nat ?N :: f32)) :: ie_fp16) = of_nat (255 * 2 ^ 10 + n)"
      by (metis of_nat_unat)
    also have "\<dots> = 0xFC00 + of_nat n" by simp
    finally show ?thesis unfolding or_half_add [OF n] .
  qed
  ultimately show ?thesis
    unfolding f32tof16_def Let_def parts(1)
    using parts(2) by (simp only: unsigned_or_eq half_sign_def) (auto simp: or.assoc)
qed


lemma f16tof32_special:
  fixes h :: ie_fp16
  defines "b \<equiv> unat (h AND 0x7FFF)"
  assumes "31 * 2 ^ 10 \<le> b"
  obtains n where "n < 2 ^ 10" "n = 0 \<longleftrightarrow> b = 31 * 2 ^ 10" "h AND 0x7C00 = 0x7C00"
    "of_nat n = (if n = 0 then 0 else (h AND 0x3FF) OR 0x200)"
    "f16tof32 h = Some (f32_sign h OR of_nat (255 * 2 ^ 23 + n * 2 ^ 13))"
proof -
  let ?f = "h AND 0x3FF"
  let ?g = "if ?f = 0 then 0 else ?f OR 0x200"
  let ?n = "unat ?g"
  have lt: "b < 2 ^ 15" unfolding b_def by (rule half_fields(1))
  have "b div 2 ^ 10 = 31"
  proof (rule antisym)
    have "b div 2 ^ 10 < 32" using lt by (simp add: div_less_iff_less_mult)
    then show "b div 2 ^ 10 \<le> 31" by simp
    show "31 \<le> b div 2 ^ 10" using assms(2) by (simp add: less_eq_div_iff_mult_less_eq)
  qed
  then have "unat (h AND 0x7C00) = 31 * 2 ^ 10" "unat ?f = b - 31 * 2 ^ 10"
    unfolding half_fields b_def [symmetric] by (simp_all add: minus_div_mult_eq_mod [symmetric])
  then have e: "h AND 0x7C00 = 0x7C00" and f: "?f = 0 \<longleftrightarrow> b = 31 * 2 ^ 10"
    using assms(2) by (auto simp: word_unat_eq_iff)
  have g: "?f OR 0x200 = take_bit 10 (?f OR 0x200)" by (simp add: and_masks take_bit_or)
  have n: "?n < 2 ^ 10"
  proof (cases "?f = 0")
    case False
    have "unat (take_bit 10 (?f OR 0x200)) < 2 ^ 10"
      unfolding unsigned_take_bit_eq take_bit_eq_mod [where 'a = nat] by simp
    then show ?thesis using False g by simp
  qed simp
  have n0: "?n = 0 \<longleftrightarrow> ?f = 0" by (simp only: unat_eq_zero) (simp add: or_eq_0_iff)
  have 1: "f16tof32 h = Some (f32_sign h OR of_nat (255 * 2 ^ 23 + ?n * 2 ^ 13))"
  proof -
    let ?u = "push_bit (23 - 10) (ucast ?g) :: f32"
    have "(ucast ?g :: f32) = of_nat ?n" by (rule of_nat_unat [symmetric])
    moreover have "23 - 10 = (13 :: nat)" by simp
    ultimately have u: "?u = of_nat (?n * 2 ^ 13)"
      by (simp only: push_bit_of_nat push_bit_eq_mult [where 'a = nat])
    have lt: "?n * 2 ^ 13 < 2 ^ 23" using n by simp
    then have unat: "unat ?u = ?n * 2 ^ 13" unfolding u by (intro unat_of_nat_f32) simp
    then have "unat (?u AND EXP_MASK_F32) = 0"
      using lt by (subst and_exp_f32) (simp_all only: unat_high_bits div_less mult_0, simp)
    then have "?u AND EXP_MASK_F32 = 0" by (simp only: unat_eq_zero)
    then have "?u OR EXP_MASK_F32 = ?u + EXP_MASK_F32" by (rule disjunctive_add_eq_or [symmetric])
    also have "\<dots> = of_nat (255 * 2 ^ 23 + ?n * 2 ^ 13)" unfolding u by (simp add: EXP_MASK_F32_def)
    finally have "?u OR EXP_MASK_F32 = of_nat (255 * 2 ^ 23 + ?n * 2 ^ 13)" .
    moreover have "(if (ucast ?f :: f32) \<noteq> 0 then ucast ?f OR 0x0200 else ucast ?f) = (ucast ?g :: f32)"
      by (simp add: unsigned_or_eq word_unat_eq_iff unat_ucast_f32)
    moreover have "(ucast (0x7C00 :: ie_fp16) :: f32) = EXP_MASK_F16" by (simp add: EXP_MASK_F16_def)
    ultimately show ?thesis
      unfolding f16tof32_def Let_def scast_and_numerals e f32_sign_def [symmetric]
      by (simp only: if_True or.commute refl)
  qed
  show thesis
  proof (rule that [OF n _ e _ 1])
    show "?n = 0 \<longleftrightarrow> b = 31 * 2 ^ 10" using n0 f by simp
    show "of_nat ?n = (if ?n = 0 then 0 else ?f OR 0x200)" using n0 by simp
  qed
qed


section \<open>Round trip and rounding error\<close>

lemma half_bits_scaled: "half_bits (k * 2 ^ 13) =
  (if k < 112 * 2 ^ 10 then 0 else if k < 113 * 2 ^ 10 then 2 ^ 10
   else if 142 * 2 ^ 10 + 0x3FF \<le> k then 0x7BFF else k - 112 * 2 ^ 10)"
proof -
  have "(k * 2 ^ 13 + 2 ^ 12) div 2 ^ 13 = k" by simp
  then show ?thesis unfolding half_bits_def Let_def by (simp only:)
qed

lemma f32tof16_signed:
  assumes "k < 255 * 2 ^ 10"
  shows "f32tof16 (f32_sign h OR of_nat (k * 2 ^ 13)) = (h AND 0x8000) OR of_nat (half_bits (k * 2 ^ 13))"
proof -
  have lt: "k * 2 ^ 13 < 2 ^ 31" "k * 2 ^ 13 < 2 ^ 32" "k * 2 ^ 13 < 255 * 2 ^ 23" using assms by simp_all
  note parts = sign_parts [OF lt(1), of h] and unat = unat_of_nat_f32 [OF lt(2)]
  show ?thesis using f32tof16_finite [of "f32_sign h OR of_nat (k * 2 ^ 13)"] lt(3)
    unfolding parts(1) parts(2) unat .
qed

lemma half_split: "h = (h AND 0x8000) OR (h AND 0x7FFF)" for h :: ie_fp16
proof -
  have "(0x8000 :: ie_fp16) OR 0x7FFF = - 1" by simp
  then show ?thesis by (metis word_and_max bit.conj_disj_distrib)
qed

text \<open>What converting forth and back gives.\<close>

definition f16_back :: "ie_fp16 \<Rightarrow> bool" where
  "f16_back h \<longleftrightarrow> (\<exists>u. f16tof32 h = Some u \<and>
     f32tof16 u =
       (let b = unat (h AND 0x7FFF) in
        if b < 2 ^ 9 then h AND 0x8000
        else if b < 2 ^ 10 then (h AND 0x8000) OR 0x400
        else if b < 31 * 2 ^ 10 then h
        else if b = 31 * 2 ^ 10 then 0xFC00
        else h OR 0x8200))"

lemma subnormal_roundtrip:
  assumes b: "0 < unat (h AND 0x7FFF)" "unat (h AND 0x7FFF) < 2 ^ 10"
  shows "f16_back h"
proof -
  let ?b = "unat (h AND 0x7FFF)"
  from b obtain k where k: "2 ^ k \<le> ?b" "?b < 2 ^ Suc k" using ex_power_ivl1 [of 2 ?b] by auto
  have "k < 10"
  proof (rule ccontr)
    assume "\<not> k < 10"
    then have "(2 :: nat) ^ 10 \<le> 2 ^ k" by (intro power_increasing) auto
    then show False using k(1) b(2) by simp
  qed
  let ?S = "?b * 2 ^ (10 - k)"
  let ?K = "(103 + k) * 2 ^ 10 + (?S - 2 ^ 10)"
  have S: "2 ^ 10 \<le> ?S" "?S < 2 ^ 11" using subnormal_significand [OF k \<open>k < 10\<close>] by auto
  have eq: "(103 + k) * 2 ^ 23 + (?S - 2 ^ 10) * 2 ^ 13 = ?K * 2 ^ 13" by simp
  have K: "?K < 255 * 2 ^ 10" using S \<open>k < 10\<close> by simp
  have bits: "half_bits (?K * 2 ^ 13) = (if ?b < 2 ^ 9 then 0 else 2 ^ 10)"
  proof (cases "k = 9")
    case True
    then have "\<not> ?K < 112 * 2 ^ 10" "?K < 113 * 2 ^ 10" "\<not> ?b < 2 ^ 9" using S k by auto
    then show ?thesis unfolding half_bits_scaled by (simp only: if_True if_False)
  next
    case False
    then have "?K < 112 * 2 ^ 10" using S \<open>k < 10\<close> by simp
    moreover have "(2 :: nat) ^ Suc k \<le> 2 ^ 9" using False \<open>k < 10\<close> by (intro power_increasing) auto
    then have "?b < 2 ^ 9" using k(2) by simp
    ultimately show ?thesis unfolding half_bits_scaled by (simp only: if_True)
  qed
  have u: "f16tof32 h = Some (f32_sign h OR of_nat (?K * 2 ^ 13))"
    using f16tof32_subnormal [OF k \<open>k < 10\<close>] unfolding eq .
  show ?thesis
    unfolding f16_back_def
  proof (intro exI conjI, rule u)
    show "f32tof16 (f32_sign h OR of_nat (?K * 2 ^ 13)) = (let b = ?b in if b < 2 ^ 9 then h AND 0x8000
        else if b < 2 ^ 10 then (h AND 0x8000) OR 0x400 else if b < 31 * 2 ^ 10 then h
        else if b = 31 * 2 ^ 10 then 0xFC00 else h OR 0x8200)"
      unfolding f32tof16_signed [OF K] bits Let_def using b(2) by simp
  qed
qed

lemma special_roundtrip:
  assumes b: "31 * 2 ^ 10 \<le> unat (h AND 0x7FFF)"
  shows "f16_back h"
proof -
  let ?b = "unat (h AND 0x7FFF)"
  from b obtain n where n: "n < 2 ^ 10" "n = 0 \<longleftrightarrow> ?b = 31 * 2 ^ 10" "h AND 0x7C00 = 0x7C00"
    "of_nat n = (if n = 0 then 0 else (h AND 0x3FF) OR 0x200)"
    and u: "f16tof32 h = Some (f32_sign h OR of_nat (255 * 2 ^ 23 + n * 2 ^ 13))"
    by (rule f16tof32_special)
  have "h = (h AND 0x8000) OR (h AND 0x7C00) OR (h AND 0x3FF)"
    using half_split [of h] by (simp flip: bit.conj_disj_distrib)
  then have "h OR 0x8200 = ((h AND 0x8000) OR 0x7C00 OR (h AND 0x3FF)) OR 0x8200" unfolding n(3) by simp
  also have "\<dots> = (h AND 0x8000) OR (0xFE00 OR (h AND 0x3FF))" by (rule or_quiet)
  finally have h: "h OR 0x8200 = 0xFE00 OR (h AND 0x3FF)" using half_sign_cases [of h] by (auto simp flip: or.assoc)
  show ?thesis
    unfolding f16_back_def
  proof (intro exI conjI, rule u)
    show "f32tof16 (f32_sign h OR of_nat (255 * 2 ^ 23 + n * 2 ^ 13)) = (let b = ?b in if b < 2 ^ 9 then h AND 0x8000
        else if b < 2 ^ 10 then (h AND 0x8000) OR 0x400 else if b < 31 * 2 ^ 10 then h
        else if b = 31 * 2 ^ 10 then 0xFC00 else h OR 0x8200)"
    proof (cases "n = 0")
      case True
      then show ?thesis unfolding f32tof16_special [OF refl n(1)] n(4) Let_def
        using n(2) half_sign_cases [of h] by auto
    next
      case False
      then have "f32tof16 (f32_sign h OR of_nat (255 * 2 ^ 23 + n * 2 ^ 13)) =
          (h AND 0x8000) OR 0xFC00 OR ((h AND 0x3FF) OR 0x200) OR 0x200"
        unfolding f32tof16_special [OF refl n(1)] n(4) by simp
      also have "\<dots> = h OR 0x8200" unfolding or_quiet_nan h using half_sign_cases [of h] by (auto simp flip: or.assoc)
      finally show ?thesis using False b n(2) by (simp add: Let_def)
    qed
  qed
qed

text \<open>C38. A half number converted to single precision and back is the same number, unless it is
  subnormal or has the exponent of infinity. A subnormal number is rounded to zero below \<open>0x0200\<close>, but to
  the least normal number \<open>0x0400\<close> from there on, although the comments of \<open>f32tof16\<close> say that
  denormal values are converted to zero. With the exponent of infinity the sign is lost and the result is
  negative.\<close>

theorem half_roundtrip:
  "\<exists>u. f16tof32 h = Some u \<and>
     f32tof16 u =
       (let b = unat (h AND 0x7FFF) in
        if b < 2 ^ 9 then h AND 0x8000
        else if b < 2 ^ 10 then (h AND 0x8000) OR 0x400
        else if b < 31 * 2 ^ 10 then h
        else if b = 31 * 2 ^ 10 then 0xFC00
        else h OR 0x8200)"
proof -
  let ?b = "unat (h AND 0x7FFF)"
  consider "?b = 0" | "0 < ?b" "?b < 2 ^ 10" | "2 ^ 10 \<le> ?b" "?b < 31 * 2 ^ 10" | "31 * 2 ^ 10 \<le> ?b"
    by linarith
  then have "f16_back h"
  proof cases
    case 1
    then show ?thesis unfolding f16_back_def using f16tof32_zero [OF 1] f32tof16_signed [of 0 h] half_bits_scaled [of 0] by simp
  next
    case 2
    then show ?thesis by (rule subnormal_roundtrip)
  next
    case 3
    have "?b * 2 ^ 13 + 112 * 2 ^ 23 = (?b + 112 * 2 ^ 10) * 2 ^ 13" by simp
    moreover have "half_bits ((?b + 112 * 2 ^ 10) * 2 ^ 13) = ?b" unfolding half_bits_scaled using 3 by auto
    moreover have "?b + 112 * 2 ^ 10 < 255 * 2 ^ 10" using 3 by simp
    ultimately have "f32tof16 (f32_sign h OR of_nat (?b * 2 ^ 13 + 112 * 2 ^ 23)) = h"
      using f32tof16_signed [of "?b + 112 * 2 ^ 10" h] half_split [of h] by simp
    then show ?thesis unfolding f16_back_def using f16tof32_normal [OF 3] 3 by simp
  next
    case 4
    then show ?thesis by (rule special_roundtrip)
  qed
  then show ?thesis unfolding f16_back_def .
qed

lemma mag_bits_round:
  fixes u :: nat
  assumes u: "2 ^ 23 \<le> u"
  shows "2 ^ 11 * \<bar>int (mag_bits ((u + 2 ^ 12) div 2 ^ 13 * 2 ^ 13)) - int (mag_bits u)\<bar> \<le> int (mag_bits u)"
proof -
  obtain t where t: "u div 2 ^ 23 = Suc t" using u by (metis div_greater_zero_iff gr0_implies_Suc zero_less_numeral zero_less_power)
  define m where "m = u mod 2 ^ 23"
  define r where "r = (m + 2 ^ 12) div 2 ^ 13"
  have m: "m < 2 ^ 23" and ueq: "u = Suc t * 2 ^ 23 + m"
    unfolding m_def t [symmetric] by (simp_all add: div_mult_mod_eq)
  have mag_u: "mag_bits u = (2 ^ 23 + m) * 2 ^ t" unfolding ueq by (rule mag_bits_scaled [OF m])
  have "r * 2 ^ 13 \<le> m + 2 ^ 12" "m + 2 ^ 12 < 2 ^ 13 + r * 2 ^ 13"
    unfolding r_def by (simp, rule dividend_less_div_times) simp
  then have r: "r \<le> 2 ^ 10" "\<bar>int (r * 2 ^ 13) - int m\<bar> \<le> 2 ^ 12" using m by simp_all
  have "(u + 2 ^ 12) div 2 ^ 13 = Suc t * 2 ^ 10 + r" unfolding r_def ueq by simp
  then have eq: "(u + 2 ^ 12) div 2 ^ 13 * 2 ^ 13 = Suc t * 2 ^ 23 + r * 2 ^ 13" by simp
  have mag_r: "mag_bits (Suc t * 2 ^ 23 + r * 2 ^ 13) = (2 ^ 23 + r * 2 ^ 13) * 2 ^ t"
  proof (cases "r = 2 ^ 10")
    case True
    then have "Suc t * 2 ^ 23 + r * 2 ^ 13 = Suc (Suc t) * 2 ^ 23 + 0" by simp
    then show ?thesis using mag_bits_scaled [of 0 "Suc t"] True by simp
  next
    case False
    then have "r * 2 ^ 13 < 2 ^ 23" using r(1) by simp
    then show ?thesis by (rule mag_bits_scaled)
  qed
  have "int ((2 ^ 23 + r * 2 ^ 13) * 2 ^ t) - int ((2 ^ 23 + m) * 2 ^ t) = (int (r * 2 ^ 13) - int m) * 2 ^ t"
    by (simp add: algebra_simps)
  then have "2 ^ 11 * \<bar>int ((2 ^ 23 + r * 2 ^ 13) * 2 ^ t) - int ((2 ^ 23 + m) * 2 ^ t)\<bar> =
      (2 ^ 11 * \<bar>int (r * 2 ^ 13) - int m\<bar>) * 2 ^ t"
    by (simp only: abs_mult) simp
  also have "\<dots> \<le> 2 ^ 23 * 2 ^ t" using r(2) by (intro mult_right_mono) auto
  also have "\<dots> \<le> int ((2 ^ 23 + m) * 2 ^ t)" by (simp add: algebra_simps)
  finally show ?thesis unfolding eq mag_r mag_u .
qed

lemma half_sign_fields:
  assumes "n < 2 ^ 15"
  shows "(half_sign x OR of_nat n) AND 0x7FFF = of_nat n" "(half_sign x OR of_nat n) AND 0x8000 = half_sign x"
proof -
  let ?w = "of_nat n :: ie_fp16"
  have s: "half_sign x = 0 \<or> half_sign x = 0x8000"
    using and_power [of "drop_bit 16 x" 15] by (auto simp: half_sign_def split: if_splits)
  have w: "take_bit 15 ?w = ?w"
    using assms unat_of_nat_half [of n] by (simp add: word_unat_eq_iff unsigned_take_bit_eq take_bit_nat_eq_self)
  then show "(half_sign x OR ?w) AND 0x7FFF = ?w"
    unfolding and_masks using s by (auto simp: take_bit_or)
  have "\<not> bit ?w 15" by (subst w [symmetric]) (simp add: bit_take_bit_iff)
  then have "?w AND 0x8000 = 0" using and_power [of ?w 15] by simp
  then show "(half_sign x OR ?w) AND 0x8000 = half_sign x"
    using s by (auto simp: and.commute bit.conj_disj_distrib)
qed

text \<open>C39. A single precision number within the range of normal half numbers is converted to a half of the
  same sign whose value is within half a unit in the last place: the relative error is at most
  \<open>2\<^sup>-\<^sup>1\<^sup>1\<close>.\<close>

theorem half_rounding_error:
  assumes "\<not> f32_less (x AND 0x7FFFFFFF) min16" "\<not> f32_less max16 (x AND 0x7FFFFFFF)"
  shows "\<exists>u. f16tof32 (f32tof16 x) = Some u \<and> half_sign u = half_sign x \<and>
    2 ^ 11 * \<bar>int (mag (u AND 0x7FFFFFFF)) - int (mag (x AND 0x7FFFFFFF))\<bar> \<le> int (mag (x AND 0x7FFFFFFF))"
proof -
  define U where "U = unat (x AND 0x7FFFFFFF)"
  define q where "q = (U + 2 ^ 12) div 2 ^ 13"
  define b where "b = q - 112 * 2 ^ 10"
  have U: "113 * 2 ^ 23 \<le> U" "U \<le> 142 * 2 ^ 23 + 0x3FF * 2 ^ 13"
    using assms by (simp_all add: f32_less_iff min16_def max16_def U_def)
  then have q: "113 * 2 ^ 10 \<le> q" "q \<le> 142 * 2 ^ 10 + 0x3FF" unfolding q_def by simp_all
  then have b: "2 ^ 10 \<le> b" "b < 31 * 2 ^ 10" "b < 2 ^ 15" "b + 112 * 2 ^ 10 = q" unfolding b_def by simp_all
  have "half_bits U = b" unfolding half_bits_def Let_def q_def [symmetric] b_def using q by simp
  moreover have "U < 255 * 2 ^ 23" using U by simp
  ultimately have h: "f32tof16 x = half_sign x OR of_nat b" using f32tof16_finite [of x] by (simp add: U_def)
  note fields = half_sign_fields [OF b(3), of x, folded h]
  have unat: "unat (f32tof16 x AND 0x7FFF) = b" unfolding fields using b(3) by (intro unat_of_nat_half) simp
  have K: "b * 2 ^ 13 + 112 * 2 ^ 23 = q * 2 ^ 13" using b(4) by simp
  have lt: "q * 2 ^ 13 < 2 ^ 31" using q by simp
  have "f16tof32 (f32tof16 x) = Some (f32_sign (f32tof16 x) OR of_nat (q * 2 ^ 13))"
    using f16tof32_normal [of "f32tof16 x"] b(1,2) unfolding unat K by simp
  moreover have "half_sign (f32_sign (f32tof16 x) OR of_nat (q * 2 ^ 13)) = half_sign x"
    unfolding sign_parts(2) [OF lt] by (rule fields(2))
  moreover have "mag ((f32_sign (f32tof16 x) OR of_nat (q * 2 ^ 13)) AND 0x7FFFFFFF) = mag_bits (q * 2 ^ 13)"
    unfolding sign_parts(1) [OF lt] mag_def using lt by (subst unat_of_nat_f32) auto
  moreover have "2 ^ 11 * \<bar>int (mag_bits (q * 2 ^ 13)) - int (mag_bits U)\<bar> \<le> int (mag_bits U)"
    unfolding q_def using U by (intro mag_bits_round) simp
  ultimately show ?thesis unfolding mag_def U_def by metis
qed


theorem half_rounding_error_witness:
  "\<exists>u. f16tof32 (f32tof16 0x3F9E0419) = Some u \<and> half_sign u = half_sign 0x3F9E0419 \<and>
    2 ^ 11 * \<bar>int (mag (u AND 0x7FFFFFFF)) - int (mag 0x3F9E0419)\<bar> \<le> int (mag 0x3F9E0419)"
  using half_rounding_error [of "0x3F9E0419"] by (simp add: f32_less_iff min16_def max16_def)

text \<open>
  C40. What a finite single precision number becomes, given by its bits without the sign: zero below
  \<open>0x37FFF000\<close> (half the least normal half number, less half a unit in the last place), the least
  normal number \<open>0x0400\<close> from there to \<open>0x387FF000\<close>, the largest number \<open>0x7BFF\<close> from \<open>0x477FD000\<close> on, and
  in between the number with the exponent rebiased and the mantissa rounded to ten bits, ties away from
  zero. The sign is kept; the result is never a subnormal number, an infinity or a NaN.
\<close>

theorem finite_becomes_normal:
  assumes "unat (x AND 0x7FFFFFFF) < 255 * 2 ^ 23"
  shows "unat (f32tof16 x AND 0x7FFF) =
      (let u = unat (x AND 0x7FFFFFFF) in
       if u < 0x37FFF000 then 0 else if u < 0x387FF000 then 0x400 else if u \<ge> 0x477FD000 then 0x7BFF
       else (u + 2 ^ 12) div 2 ^ 13 - 112 * 2 ^ 10) \<and>
    (unat (f32tof16 x AND 0x7FFF) = 0 \<or> unat (f32tof16 x AND 0x7FFF) \<in> {0x400..0x7BFF}) \<and>
    f32tof16 x AND 0x8000 = half_sign x"
proof -
  let ?u = "unat (x AND 0x7FFFFFFF)"
  let ?b = "half_bits ?u"
  have b: "?b = 0 \<or> ?b \<in> {0x400..0x7BFF}" unfolding half_bits_def Let_def by auto
  then have lt: "?b < 2 ^ 15" by auto
  note fields = half_sign_fields [OF lt, of x, folded f32tof16_finite [OF assms]]
  have "unat (f32tof16 x AND 0x7FFF) = ?b" unfolding fields using lt by (intro unat_of_nat_half) simp
  moreover have "?b = (if ?u < 0x37FFF000 then 0 else if ?u < 0x387FF000 then 0x400 else if ?u \<ge> 0x477FD000 then 0x7BFF
      else (?u + 2 ^ 12) div 2 ^ 13 - 112 * 2 ^ 10)"
    unfolding half_bits_def Let_def by (simp add: div_less_iff_less_mult less_eq_div_iff_mult_less_eq)
  ultimately show ?thesis using b fields(2) by (simp only: Let_def)
qed

theorem finite_becomes_normal_witness:
  "unat (f32tof16 0xFF7FFFFF AND 0x7FFF) = 0x7BFF \<and> unat (f32tof16 0x3F9E0419 AND 0x7FFF) = 0x3CF0"
  using finite_becomes_normal [of "0xFF7FFFFF"] finite_becomes_normal [of "0x3F9E0419"] by (simp add: Let_def)

end
