(* ===== verification/GnaMemory.thy ===== *)
theory GnaMemory
  imports Prelude "HOL-Library.Word"
begin

unbundle bit_operations_syntax

text \<open>
  Memory requests of the GNA plugin (\<open>src/src/gna_plugin/gna_mem_requests.hpp\<close> and
  \<open>gna_memory.hpp\<close>). Layers queue requests for memory: a block to reserve or to fill, or a pointer that
  shall point into the block of another request. \<open>commit\<close> enlarges the blocks for what is bound to
  them, makes one allocation and sets every pointer. Addresses are numbers, \<open>0\<close> is the null
  pointer; memory maps addresses to bytes and the pointer variables of the plugin, named by their
  addresses, to addresses. Sizes are unbounded numbers but for the cast to \<open>int\<close> in \<open>ALIGN\<close>.
  A padding below zero, possible only after that cast has wrapped, is cut off at zero.
\<close>

type_synonym byte = "8 word"
type_synonym Memory = "nat \<Rightarrow> byte"
type_synonym Vars = "nat \<Rightarrow> nat"

section \<open>Requests\<close>

definition REQUEST_STORE :: byte where "REQUEST_STORE = 0x1"
definition REQUEST_ALLOCATE :: byte where "REQUEST_ALLOCATE = 0x2"
definition REQUEST_BIND :: byte where "REQUEST_BIND = 0x4"
definition REQUEST_INITIALIZER :: byte where "REQUEST_INITIALIZER = 0x8"

datatype rRegion = REGION_RO | REGION_RW | REGION_AUTO

record MemRequest =
  mr_region :: rRegion
  mr_type :: byte
  mr_ptr_out :: nat
  mr_ptr_in :: nat
  mr_initializer :: "nat \<Rightarrow> nat \<Rightarrow> Memory \<Rightarrow> Memory"
  mr_data :: "byte list"
  mr_element_size :: nat
  mr_num_elements :: nat
  mr_alignment :: nat
  mr_offset :: nat
  mr_padding :: nat

text \<open>The three constructors: a plain request, a value to store, an initialiser to run.\<close>

definition mk_MemRequest ::
  "rRegion \<Rightarrow> byte \<Rightarrow> nat \<Rightarrow> nat \<Rightarrow> nat \<Rightarrow> nat \<Rightarrow> nat \<Rightarrow> nat \<Rightarrow> MemRequest" where
  "mk_MemRequest region req ptr_out ptr_in element_size num_elements alignment offset =
     \<lparr>mr_region = region, mr_type = req, mr_ptr_out = ptr_out, mr_ptr_in = ptr_in,
      mr_initializer = (\<lambda>_ _ mem. mem), mr_data = [], mr_element_size = element_size,
      mr_num_elements = num_elements, mr_alignment = alignment, mr_offset = offset, mr_padding = 0\<rparr>"

definition mk_MemRequest_value :: "rRegion \<Rightarrow> nat \<Rightarrow> byte list \<Rightarrow> nat \<Rightarrow> nat \<Rightarrow> MemRequest" where
  "mk_MemRequest_value region ptr_out element num_elements alignment =
     (mk_MemRequest region REQUEST_STORE ptr_out 0 (length element) num_elements alignment 0)\<lparr>mr_data := element\<rparr>"

definition mk_MemRequest_init ::
  "rRegion \<Rightarrow> nat \<Rightarrow> nat \<Rightarrow> (nat \<Rightarrow> nat \<Rightarrow> Memory \<Rightarrow> Memory) \<Rightarrow> byte \<Rightarrow> nat \<Rightarrow> MemRequest" where
  "mk_MemRequest_init region ptr_out regionSize initializer req alignment =
     (mk_MemRequest region (REQUEST_INITIALIZER OR req) ptr_out ptr_out 1 regionSize alignment 0)
       \<lparr>mr_initializer := initializer\<rparr>"

section \<open>The queue\<close>

record GNAMemory =
  gm_future_heap :: "MemRequest list"
  gm_local_storage :: "(nat \<times> nat) list"
  gm_total :: nat
  gm_rw_section_size :: nat
  gm_ro_section_size :: nat
  gm_heap :: nat
  gm_page_alignment :: nat

definition mk_GNAMemory :: "nat \<Rightarrow> GNAMemory" where
  "mk_GNAMemory pageAlignment =
     \<lparr>gm_future_heap = [], gm_local_storage = [], gm_total = 0, gm_rw_section_size = 0, gm_ro_section_size = 0,
      gm_heap = 0, gm_page_alignment = pageAlignment\<rparr>"

definition push_back :: "MemRequest \<Rightarrow> GNAMemory \<Rightarrow> GNAMemory" where
  "push_back r g = g\<lparr>gm_future_heap := gm_future_heap g @ [r]\<rparr>"

text \<open>
  The operations take the region of the front end they are called on: \<open>REGION_RW\<close> for the memory
  itself, \<open>REGION_RO\<close> for \<open>readonly()\<close>.
\<close>

definition push_initializer ::
  "rRegion \<Rightarrow> nat \<Rightarrow> nat \<Rightarrow> (nat \<Rightarrow> nat \<Rightarrow> Memory \<Rightarrow> Memory) \<Rightarrow> nat \<Rightarrow> GNAMemory \<Rightarrow> GNAMemory" where
  "push_initializer region ptr_out num_bytes initializer alignment =
     push_back (mk_MemRequest_init region ptr_out num_bytes initializer REQUEST_INITIALIZER alignment)"

definition push_ptr :: "rRegion \<Rightarrow> nat \<Rightarrow> nat \<Rightarrow> nat \<Rightarrow> nat \<Rightarrow> GNAMemory \<Rightarrow> GNAMemory" where
  "push_ptr region ptr_out ptr_in num_bytes alignment =
     push_back (mk_MemRequest region REQUEST_STORE ptr_out ptr_in 1 num_bytes alignment 0)"

definition copy_bytes :: "nat \<Rightarrow> nat \<Rightarrow> nat \<Rightarrow> Memory \<Rightarrow> Memory" where
  "copy_bytes dest src n mem = (\<lambda>a. if dest \<le> a \<and> a < dest + n then mem (src + (a - dest)) else mem a)"

text \<open>The bytes are copied to a vector of the local storage, which is at address \<open>storage\<close>.\<close>

definition push_local_ptr ::
  "nat \<Rightarrow> rRegion \<Rightarrow> nat \<Rightarrow> nat \<Rightarrow> nat \<Rightarrow> nat \<Rightarrow> GNAMemory \<times> Memory \<Rightarrow> GNAMemory \<times> Memory" where
  "push_local_ptr storage region ptr_out ptr_in num_bytes alignment st =
     (let (g, mem) = st; g = g\<lparr>gm_local_storage := gm_local_storage g @ [(storage, num_bytes)]\<rparr> in
      (push_back (mk_MemRequest region REQUEST_STORE ptr_out storage 1 num_bytes alignment 0) g,
       copy_bytes storage ptr_in num_bytes mem))"

definition reserve_ptr :: "rRegion \<Rightarrow> nat \<Rightarrow> nat \<Rightarrow> nat \<Rightarrow> GNAMemory \<Rightarrow> GNAMemory" where
  "reserve_ptr region ptr_out num_bytes alignment =
     push_back (mk_MemRequest region REQUEST_ALLOCATE ptr_out 0 1 num_bytes alignment 0)"

definition bind_ptr :: "rRegion \<Rightarrow> nat \<Rightarrow> nat \<Rightarrow> nat \<Rightarrow> nat \<Rightarrow> GNAMemory \<Rightarrow> GNAMemory" where
  "bind_ptr region source dest offset num_bytes =
     push_back (mk_MemRequest region REQUEST_BIND source dest 1 num_bytes 1 offset)"

definition bind_initializer ::
  "rRegion \<Rightarrow> nat \<Rightarrow> (nat \<Rightarrow> nat \<Rightarrow> Memory \<Rightarrow> Memory) \<Rightarrow> GNAMemory \<Rightarrow> GNAMemory" where
  "bind_initializer region ptr_out initializer =
     push_back (mk_MemRequest_init region ptr_out 0 initializer REQUEST_BIND 1)"

definition push_value :: "rRegion \<Rightarrow> nat \<Rightarrow> byte list \<Rightarrow> nat \<Rightarrow> nat \<Rightarrow> GNAMemory \<Rightarrow> GNAMemory" where
  "push_value region ptr_out value num_elements alignment =
     push_back (mk_MemRequest_value region ptr_out value num_elements alignment)"

section \<open>Committing the requests\<close>

text \<open>
  The macro rounds up to a multiple of \<open>pad\<close>; the quotient goes through a 32-bit \<open>int\<close>, whose product with
  \<open>pad\<close> is a 64-bit \<open>size_t\<close>.
\<close>

definition ALIGN :: "nat \<Rightarrow> nat \<Rightarrow> nat" where
  "ALIGN memSize pad = nat (signed_take_bit 31 (int ((memSize + pad - 1) div pad)) * int pad mod 2 ^ 64)"

definition is_bind :: "MemRequest \<Rightarrow> bool" where
  "is_bind r = (mr_type r AND REQUEST_BIND \<noteq> 0)"

definition binds_to :: "MemRequest list \<Rightarrow> nat \<Rightarrow> nat \<Rightarrow> bool" where
  "binds_to heap reference i = (is_bind (heap ! i) \<and> mr_ptr_in (heap ! i) = mr_ptr_out (heap ! reference))"

text \<open>
  The visitor is called with the positions of a request and of one bound to it, and goes on with what
  is bound to that. The requests that bind each other in a circle would be followed for ever; then the
  recursion is deeper than the queue is long.
\<close>

fun iterate_binded ::
  "nat \<Rightarrow> MemRequest list \<Rightarrow> (nat \<Rightarrow> nat \<Rightarrow> 's \<Rightarrow> 's) \<Rightarrow> nat \<Rightarrow> 's \<Rightarrow> 's result" where
  "iterate_binded 0 heap visitor reference s = Inl OutOfFuel"
| "iterate_binded (Suc n) heap visitor reference s =
     foldE (\<lambda>i s.
       if binds_to heap reference i then
         let s = visitor reference i s in
         if mr_ptr_in (heap ! i) = mr_ptr_out (heap ! i) then Inr s else iterate_binded n heap visitor i s
       else Inr s) [0..<length heap] s"

definition bind_fuel :: "MemRequest list \<Rightarrow> nat" where
  "bind_fuel heap = Suc (length heap)"

text \<open>A request grows when something bound to it needs more room.\<close>

definition expand_visitor :: "MemRequest list \<Rightarrow> nat \<Rightarrow> nat \<Rightarrow> nat \<Rightarrow> nat \<times> nat \<Rightarrow> nat \<times> nat" where
  "expand_visitor heap originated reference binded st =
     (let (offset, padding) = st; r = heap ! originated; b = heap ! binded;
          offset = (if originated = reference then 0 else offset);
          offset = offset + mr_offset b;
          current = offset + ALIGN (mr_num_elements b * mr_element_size b) (mr_alignment b);
          original_no_pad = ALIGN (mr_num_elements r * mr_element_size r) (mr_alignment r);
          original_with_pad = ALIGN (mr_num_elements r * mr_element_size r + padding) (mr_alignment r)
      in (offset, ALIGN (max original_with_pad current) (mr_alignment r) - original_no_pad))"

definition expand_request :: "nat \<Rightarrow> MemRequest list \<Rightarrow> MemRequest list result" where
  "expand_request i heap =
     (if is_bind (heap ! i) then Inr heap
      else bindE (iterate_binded (bind_fuel heap) heap (expand_visitor heap i) i (0, mr_padding (heap ! i)))
        (\<lambda>(_, padding). Inr (heap[i := (heap ! i)\<lparr>mr_padding := padding\<rparr>])))"

definition expand_all :: "MemRequest list \<Rightarrow> MemRequest list result" where
  "expand_all heap = foldE expand_request [0..<length heap] heap"

definition request_size :: "MemRequest \<Rightarrow> nat" where
  "request_size re = ALIGN (mr_num_elements re * mr_element_size re + mr_padding re) (mr_alignment re)"

definition add_section :: "MemRequest \<Rightarrow> nat \<times> nat \<Rightarrow> nat \<times> nat" where
  "add_section re sizes =
     (let (rw, ro) = sizes; current = request_size re in
      if mr_type re = REQUEST_BIND then (rw, ro)
      else if mr_region re = REGION_RW then (rw + current, ro)
      else (rw, ro + current))"

definition updateSectionsSizes :: "GNAMemory \<Rightarrow> GNAMemory" where
  "updateSectionsSizes g =
     (let (rw, ro) = fold add_section (gm_future_heap g) (0, 0) in
      g\<lparr>gm_rw_section_size := ALIGN rw (gm_page_alignment g), gm_ro_section_size := ALIGN ro (gm_page_alignment g)\<rparr>)"

definition getRWBytes :: "GNAMemory \<Rightarrow> nat \<times> GNAMemory" where
  "getRWBytes g = (let g = updateSectionsSizes g in (gm_rw_section_size g, g))"

definition getTotalBytes :: "GNAMemory \<Rightarrow> nat \<times> GNAMemory" where
  "getTotalBytes g = (let g = updateSectionsSizes g in (gm_total g, g))"

text \<open>What the second stage changes: the requests, the pointers, the memory, the place of the next block.\<close>

record Setup =
  su_heap :: "MemRequest list"
  su_vars :: Vars
  su_mem :: Memory
  su_offset :: nat

definition set_binded :: "nat \<Rightarrow> nat \<Rightarrow> MemRequest list \<times> Vars \<Rightarrow> MemRequest list \<times> Vars" where
  "set_binded reference binded st =
     (let (heap, vars) = st; r = heap ! reference; b = heap ! binded in
      (heap[binded := b\<lparr>mr_num_elements := mr_num_elements r, mr_element_size := mr_element_size r\<rparr>],
       vars(mr_ptr_out b := mr_offset b + vars (mr_ptr_out r))))"

definition zero_bytes :: "nat \<Rightarrow> nat \<Rightarrow> Memory \<Rightarrow> Memory" where
  "zero_bytes dest n mem = (\<lambda>a. if dest \<le> a \<and> a < dest + n then 0 else mem a)"

definition ie_memcpy :: "nat \<Rightarrow> nat \<Rightarrow> nat \<Rightarrow> nat \<Rightarrow> Memory \<Rightarrow> Memory" where
  "ie_memcpy dest destsz src n mem =
     (if src = 0 \<or> n > destsz \<or> n > (if dest > src then dest - src else src - dest)
      then zero_bytes dest destsz mem
      else copy_bytes dest src n mem)"

definition write_bytes :: "nat \<Rightarrow> byte list \<Rightarrow> Memory \<Rightarrow> Memory" where
  "write_bytes dest bs mem = (\<lambda>a. if dest \<le> a \<and> a < dest + length bs then bs ! (a - dest) else mem a)"

definition store_content :: "MemRequest \<Rightarrow> nat \<Rightarrow> nat \<Rightarrow> nat \<Rightarrow> Memory \<Rightarrow> Memory" where
  "store_content re cptr cptr_avail_size sz mem =
     (let ty = mr_type re AND NOT REQUEST_BIND in
      if ty = REQUEST_STORE then
        if mr_ptr_in re \<noteq> 0 then ie_memcpy cptr cptr_avail_size (mr_ptr_in re) sz mem
        else fold (\<lambda>i. write_bytes (cptr + i * mr_element_size re) (mr_data re)) [0..<mr_num_elements re] mem
      else if ty = REQUEST_INITIALIZER then mr_initializer re cptr sz mem
      else mem)"

definition setup_request ::
  "nat \<Rightarrow> nat \<Rightarrow> (MemRequest \<Rightarrow> bool) \<Rightarrow> nat \<Rightarrow> Setup \<Rightarrow> Setup result" where
  "setup_request base bytes skip i st =
     (let re = su_heap st ! i; sz = mr_element_size re * mr_num_elements re in
      if mr_type re = REQUEST_BIND then Inr st
      else if skip re then Inr st
      else
        bindE
          (if mr_ptr_out re \<noteq> 0 then
             let cptr = (if is_bind re then su_vars st (mr_ptr_out re) else base + su_offset st);
                 cptr_avail_size = (if is_bind re then sz else bytes - su_offset st);
                 vars = (if is_bind re then su_vars st else (su_vars st)(mr_ptr_out re := cptr))
             in bindE (iterate_binded (bind_fuel (su_heap st)) (su_heap st) set_binded i (su_heap st, vars)) (\<lambda>(heap, vars).
                Inr (st\<lparr>su_heap := heap, su_vars := vars, su_mem := store_content re cptr cptr_avail_size sz (su_mem st)\<rparr>))
           else Inr st)
          (\<lambda>st. Inr (if is_bind re then st else st\<lparr>su_offset := su_offset st + ALIGN (sz + mr_padding re) (mr_alignment re)\<rparr>)))"

definition setupOffsets :: "nat \<Rightarrow> nat \<Rightarrow> (MemRequest \<Rightarrow> bool) \<Rightarrow> nat \<Rightarrow> Setup \<Rightarrow> Setup result" where
  "setupOffsets base bytes skip offset st =
     foldE (setup_request base bytes skip) [0..<length (su_heap st)] (st\<lparr>su_offset := offset\<rparr>)"

text \<open>
  The whole of \<open>commit\<close>. \<open>base\<close> is the address the allocator returns.
\<close>

definition commit :: "nat \<Rightarrow> GNAMemory \<Rightarrow> Vars \<Rightarrow> Memory \<Rightarrow> (GNAMemory \<times> Vars \<times> Memory) result" where
  "commit base g vars mem =
     bindE (expand_all (gm_future_heap g)) (\<lambda>heap.
     let g = updateSectionsSizes (g\<lparr>gm_future_heap := heap\<rparr>);
         g = g\<lparr>gm_total := gm_rw_section_size g + gm_ro_section_size g, gm_heap := base\<rparr>;
         st = \<lparr>su_heap = heap, su_vars = vars, su_mem = zero_bytes base (gm_total g) mem, su_offset = 0\<rparr> in
     bindE (setupOffsets base (gm_total g) (\<lambda>re. \<not> is_bind re \<and> mr_region re \<noteq> REGION_RW) 0 st) (\<lambda>st.
     bindE (setupOffsets base (gm_total g) (\<lambda>re. is_bind re \<or> mr_region re \<noteq> REGION_RO) (gm_rw_section_size g) st) (\<lambda>st.
     Inr (g\<lparr>gm_future_heap := su_heap st\<rparr>, su_vars st, su_mem st))))"

section \<open>Rounding up\<close>

definition round_up :: "nat \<Rightarrow> nat \<Rightarrow> nat" where
  "round_up m pad = (m + pad - 1) div pad * pad"

lemma ALIGN_round_up:
  assumes "0 < pad" "m + pad \<le> 2 ^ 31"
  shows "ALIGN m pad = round_up m pad"
proof -
  let ?q = "(m + pad - 1) div pad"
  have "?q \<le> m + pad - 1" by (rule div_le_dividend)
  then have q: "?q < 2 ^ 31" using assms by linarith
  have "?q * pad \<le> m + pad - 1" by (rule div_times_less_eq_dividend)
  also have "\<dots> < 2 ^ 64" using assms by simp
  finally have "?q * pad < 2 ^ 64" .
  moreover have "signed_take_bit 31 (int ?q) = int ?q"
    using q by (intro signed_take_bit_int_eq_self) auto
  ultimately show ?thesis by (simp add: ALIGN_def round_up_def nat_mod_distrib flip: of_nat_mult)
qed

lemma round_up_ge: "0 < pad \<Longrightarrow> m \<le> round_up m pad"
proof -
  assume "0 < pad"
  then have "m + pad - 1 < (m + pad - 1) div pad * pad + pad" by (simp add: dividend_less_div_times add.commute)
  then show ?thesis using \<open>0 < pad\<close> by (simp add: round_up_def)
qed

lemma round_up_dvd: "pad dvd round_up m pad"
  by (simp add: round_up_def)

lemma round_up_less: "0 < pad \<Longrightarrow> round_up m pad < m + pad"
proof -
  assume "0 < pad"
  have "(m + pad - 1) div pad * pad \<le> m + pad - 1" by (rule div_times_less_eq_dividend)
  also have "\<dots> < m + pad" using \<open>0 < pad\<close> by simp
  finally show ?thesis unfolding round_up_def .
qed

lemma round_up_mono: "m \<le> n \<Longrightarrow> round_up m pad \<le> round_up n pad"
  unfolding round_up_def by (intro mult_le_mono1 div_le_mono) simp

lemma round_up_add: "0 < pad \<Longrightarrow> pad dvd k \<Longrightarrow> round_up (m + k) pad = round_up m pad + k"
proof -
  assume "0 < pad" "pad dvd k"
  then obtain c where k: "k = c * pad" by (metis dvdE mult.commute)
  have "m + k + pad - 1 = m + pad - 1 + c * pad" using \<open>0 < pad\<close> k by simp
  then show ?thesis using \<open>0 < pad\<close> unfolding round_up_def by (simp only: div_mult_self1) (simp add: k algebra_simps)
qed

lemma round_up_same: "0 < pad \<Longrightarrow> pad dvd m \<Longrightarrow> round_up m pad = m"
  using round_up_add [of pad m 0] by (simp add: round_up_def)

section \<open>Following the bindings\<close>

text \<open>What a traversal visits, in order; every visitor works along this list.\<close>

fun trace :: "nat \<Rightarrow> MemRequest list \<Rightarrow> nat \<Rightarrow> (nat \<times> nat) list result" where
  "trace 0 heap reference = Inl OutOfFuel"
| "trace (Suc n) heap reference =
     foldE (\<lambda>i ps.
       if binds_to heap reference i then
         if mr_ptr_in (heap ! i) = mr_ptr_out (heap ! i) then Inr (ps @ [(reference, i)])
         else bindE (trace n heap i) (\<lambda>qs. Inr (ps @ (reference, i) # qs))
       else Inr ps) [0..<length heap] []"

definition map_result :: "('a \<Rightarrow> 'b) \<Rightarrow> 'a result \<Rightarrow> 'b result" where
  "map_result f r = bindE r (\<lambda>x. Inr (f x))"

lemma map_result_simps [simp]: "map_result f (Inl e) = Inl e" "map_result f (Inr x) = Inr (f x)"
  by (simp_all add: map_result_def)

lemma iterate_trace:
  "iterate_binded n heap v reference s = map_result (\<lambda>ps. fold (\<lambda>(r, b). v r b) ps s) (trace n heap reference)"
proof (induction n arbitrary: reference s)
  case (Suc n)
  let ?F = "\<lambda>i s. if binds_to heap reference i then
         let s = v reference i s in
         if mr_ptr_in (heap ! i) = mr_ptr_out (heap ! i) then Inr s else iterate_binded n heap v i s
       else Inr s"
  let ?G = "\<lambda>i ps. if binds_to heap reference i then
         if mr_ptr_in (heap ! i) = mr_ptr_out (heap ! i) then Inr (ps @ [(reference, i)])
         else bindE (trace n heap i) (\<lambda>qs. Inr (ps @ (reference, i) # qs))
       else Inr ps"
  let ?f = "\<lambda>ps. fold (\<lambda>(r, b). v r b) ps s"
  have "foldE ?F is (?f ps) = map_result ?f (foldE ?G is ps)" for "is" ps
  proof (induction "is" arbitrary: ps)
    case (Cons i "is")
    have "?F i (?f ps) = map_result ?f (?G i ps)"
      by (cases "trace n heap i") (auto simp: Suc.IH Let_def)
    with Cons.IH show ?case by (cases "?G i ps") auto
  qed simp
  from this [of "[0..<length heap]" "[]"] show ?case by simp
qed simp

text \<open>The list of a traversal: what hangs at a request, each after the request it is bound to.\<close>

lemma trace_Suc:
  assumes "trace (Suc n) heap r = Inr ps"
  shows "set ps = (\<Union>i \<in> {i. i < length heap \<and> binds_to heap r i}. insert (r, i)
      (if mr_ptr_in (heap ! i) = mr_ptr_out (heap ! i) then {} else \<Union>{set qs | qs. trace n heap i = Inr qs}))"
    and "\<And>i. i < length heap \<Longrightarrow> binds_to heap r i \<Longrightarrow> mr_ptr_in (heap ! i) \<noteq> mr_ptr_out (heap ! i) \<Longrightarrow>
      \<exists>qs. trace n heap i = Inr qs"
proof -
  let ?G = "\<lambda>i ps. if binds_to heap r i then
         if mr_ptr_in (heap ! i) = mr_ptr_out (heap ! i) then Inr (ps @ [(r, i)])
         else bindE (trace n heap i) (\<lambda>qs. Inr (ps @ (r, i) # qs))
       else Inr ps"
  let ?B = "\<lambda>i. insert (r, i) (if mr_ptr_in (heap ! i) = mr_ptr_out (heap ! i) then {} else \<Union>{set qs | qs. trace n heap i = Inr qs})"
  have *: "set ps = set ps0 \<union> (\<Union>i \<in> {i \<in> set is. binds_to heap r i}. ?B i) \<and>
      (\<forall>i \<in> set is. binds_to heap r i \<longrightarrow> mr_ptr_in (heap ! i) \<noteq> mr_ptr_out (heap ! i) \<longrightarrow> (\<exists>qs. trace n heap i = Inr qs))"
    if "foldE ?G is ps0 = Inr ps" for "is" ps0 ps
    using that
  proof (induction "is" arbitrary: ps0)
    case (Cons i "is")
    then obtain ps1 where ps1: "?G i ps0 = Inr ps1" and rest: "foldE ?G is ps1 = Inr ps" by (auto simp del: bindE_eq_Inr simp: bindE_def split: sum.splits)
    have "set ps1 = set ps0 \<union> (if binds_to heap r i then ?B i else {})" using ps1 by (auto split: if_splits)
    moreover have "binds_to heap r i \<longrightarrow> mr_ptr_in (heap ! i) \<noteq> mr_ptr_out (heap ! i) \<longrightarrow> (\<exists>qs. trace n heap i = Inr qs)"
      using ps1 by (auto split: if_splits)
    ultimately show ?case using Cons.IH [OF rest] by auto
  qed simp
  from assms have f: "foldE ?G [0..<length heap] [] = Inr ps" by simp
  show "set ps = (\<Union>i \<in> {i. i < length heap \<and> binds_to heap r i}. ?B i)" using * [OF f] by simp
  show "\<exists>qs. trace n heap i = Inr qs"
    if "i < length heap" "binds_to heap r i" "mr_ptr_in (heap ! i) \<noteq> mr_ptr_out (heap ! i)" for i
    using * [OF f] that by simp
qed

end
