(* ===== verification/GnaPlacement.thy ===== *)
theory GnaPlacement
  imports GnaMemory
begin

text \<open>
  What \<open>commit\<close> of the GNA memory gives: the recursion over the bindings ends, every block is large enough
  for what is bound to it, the blocks are separate and lie in their sections, and every pointer is
  where its bindings say.
\<close>

section \<open>Chains of bindings\<close>

text \<open>Every visited request is bound to the first one or to one visited before.\<close>

fun chain :: "MemRequest list \<Rightarrow> nat set \<Rightarrow> (nat \<times> nat) list \<Rightarrow> bool" where
  "chain heap S [] = True"
| "chain heap S ((r, b) # ps) = (r \<in> S \<and> b < length heap \<and> binds_to heap r b \<and> chain heap (insert b S) ps)"

lemma chain_mono: "chain heap S ps \<Longrightarrow> S \<subseteq> T \<Longrightarrow> chain heap T ps"
proof (induction ps arbitrary: S T)
  case (Cons p ps)
  have "insert (snd p) S \<subseteq> insert (snd p) T" using Cons.prems(2) by blast
  with Cons show ?case by (cases p) auto
qed simp

lemma chain_append: "chain heap S (ps @ qs) \<longleftrightarrow> chain heap S ps \<and> chain heap (S \<union> snd ` set ps) qs"
proof (induction ps arbitrary: S)
  case (Cons p ps)
  then show ?case by (cases p) (auto simp: insert_commute)
qed simp

lemma trace_chain: "trace n heap r = Inr ps \<Longrightarrow> chain heap {r} ps"
proof (induction n arbitrary: r ps)
  case (Suc n)
  let ?G = "\<lambda>i ps. if binds_to heap r i then
         if mr_ptr_in (heap ! i) = mr_ptr_out (heap ! i) then Inr (ps @ [(r, i)])
         else bindE (trace n heap i) (\<lambda>qs. Inr (ps @ (r, i) # qs))
       else Inr ps"
  from Suc.prems have "foldE ?G [0..<length heap] [] = Inr ps" by simp
  then show ?case
  proof (rule foldE_inv)
    fix i ps ps'
    assume i: "i \<in> set [0..<length heap]" and ps: "chain heap {r} ps" and step: "?G i ps = Inr ps'"
    show "chain heap {r} ps'"
    proof (cases "binds_to heap r i \<and> mr_ptr_in (heap ! i) \<noteq> mr_ptr_out (heap ! i)")
      case True
      then obtain qs where qs: "trace n heap i = Inr qs" "ps' = ps @ (r, i) # qs" using step by auto
      have "chain heap (insert i ({r} \<union> snd ` set ps)) qs" using Suc.IH [OF qs(1)] by (rule chain_mono) simp
      then show ?thesis using ps qs(2) True i by (simp add: chain_append)
    next
      case False
      then show ?thesis using step ps i by (auto simp: chain_append split: if_splits)
    qed
  qed simp
qed simp

lemma chain_mem: "chain heap S ps \<Longrightarrow> (r, b) \<in> set ps \<Longrightarrow>
  b < length heap \<and> binds_to heap r b \<and> (r \<in> S \<or> r \<in> snd ` set ps)"
proof (induction ps arbitrary: S)
  case (Cons p ps)
  then show ?case by (cases p) fastforce
qed simp

text \<open>The pointers that hang at a pointer.\<close>

inductive reach :: "MemRequest list \<Rightarrow> nat \<Rightarrow> nat \<Rightarrow> bool" for heap p where
  here: "reach heap p p"
| bound: "reach heap p (mr_ptr_in b) \<Longrightarrow> b \<in> set heap \<Longrightarrow> is_bind b \<Longrightarrow> reach heap p (mr_ptr_out b)"

definition outs :: "MemRequest list \<Rightarrow> (nat \<times> nat) list \<Rightarrow> nat set" where
  "outs heap ps = (\<lambda>(r, b). mr_ptr_out (heap ! b)) ` set ps"

lemma trace_closed:
  assumes "trace n heap r = Inr ps" "b < length heap" "is_bind (heap ! b)"
    "mr_ptr_in (heap ! b) \<in> insert (mr_ptr_out (heap ! r)) (outs heap ps)"
  shows "\<exists>r'. (r', b) \<in> set ps"
  using assms
proof (induction n arbitrary: r ps)
  case (Suc n)
  note set = trace_Suc [OF Suc.prems(1)]
  show ?case
  proof (cases "mr_ptr_in (heap ! b) = mr_ptr_out (heap ! r)")
    case True
    then have "(r, b) \<in> set ps" unfolding set(1) using Suc.prems(2,3) by (intro UN_I [of b]) (auto simp: binds_to_def)
    then show ?thesis ..
  next
    case False
    then obtain r' c where c: "(r', c) \<in> set ps" "mr_ptr_in (heap ! b) = mr_ptr_out (heap ! c)"
      using Suc.prems(4) by (auto simp: outs_def)
    then obtain i where i: "i < length heap" "binds_to heap r i"
      and mem: "(r', c) = (r, i) \<or> mr_ptr_in (heap ! i) \<noteq> mr_ptr_out (heap ! i) \<and> (\<exists>qs. trace n heap i = Inr qs \<and> (r', c) \<in> set qs)"
      using set(1) by (auto split: if_splits)
    have ne: "mr_ptr_in (heap ! i) \<noteq> mr_ptr_out (heap ! i)"
      using mem c(2) False i(2) by (auto simp: binds_to_def)
    then obtain qs where qs: "trace n heap i = Inr qs" using set(2) i by blast
    have "mr_ptr_in (heap ! b) \<in> insert (mr_ptr_out (heap ! i)) (outs heap qs)"
      using mem qs c(2) by (force simp: outs_def)
    from Suc.IH [OF qs Suc.prems(2,3) this] obtain r'' where "(r'', b) \<in> set qs" ..
    then have "(r'', b) \<in> set ps" unfolding set(1) using i ne qs by fastforce
    then show ?thesis ..
  qed
qed simp

lemma reach_outs:
  assumes "reach heap (mr_ptr_out (heap ! r)) q" "trace n heap r = Inr ps"
  shows "q \<in> insert (mr_ptr_out (heap ! r)) (outs heap ps)"
  using assms(1)
proof (induction q rule: reach.induct)
  case (bound x)
  then obtain i where "i < length heap" "heap ! i = x" by (metis in_set_conv_nth)
  then show ?case using trace_closed [OF assms(2), of i] bound by (force simp: outs_def)
qed simp

lemma outs_reach:
  assumes "chain heap S ps" "\<forall>r \<in> S. reach heap p (mr_ptr_out (heap ! r))" "q \<in> outs heap ps"
  shows "reach heap p q"
  using assms
proof (induction ps arbitrary: S)
  case (Cons x ps)
  obtain r b where x: "x = (r, b)" by (cases x)
  have b: "r \<in> S" "b < length heap" "binds_to heap r b" "chain heap (insert b S) ps" using Cons.prems(1) x by auto
  then have "reach heap p (mr_ptr_out (heap ! b))"
    using Cons.prems(2) reach.bound [of heap p "heap ! b"] by (auto simp: binds_to_def)
  then have "\<forall>r \<in> insert b S. reach heap p (mr_ptr_out (heap ! r))" using Cons.prems(2) by simp
  note IH = Cons.IH [OF b(4) this]
  have "q = mr_ptr_out (heap ! b) \<or> q \<in> outs heap ps" using Cons.prems(3) x by (auto simp: outs_def)
  then show ?case using IH \<open>reach heap p (mr_ptr_out (heap ! b))\<close> by blast
qed (simp add: outs_def)

section \<open>Consistent bindings\<close>

text \<open>
  A queue is wired when no binding closes a circle (\<open>rank\<close> grows along bindings) and every pointer has
  one root, the pointer of a block, and one displacement from it.
\<close>

definition wired :: "MemRequest list \<Rightarrow> (nat \<Rightarrow> nat) \<Rightarrow> (nat \<Rightarrow> nat) \<Rightarrow> (nat \<Rightarrow> nat) \<Rightarrow> bool" where
  "wired heap rank root disp \<longleftrightarrow> (\<forall>r \<in> set heap.
     if is_bind r then
       mr_ptr_in r \<noteq> 0 \<and> mr_ptr_out r \<noteq> 0 \<and> (mr_ptr_in r \<noteq> mr_ptr_out r \<longrightarrow> rank (mr_ptr_in r) < rank (mr_ptr_out r)) \<and>
       root (mr_ptr_out r) = root (mr_ptr_in r) \<and> disp (mr_ptr_out r) = disp (mr_ptr_in r) + mr_offset r \<and>
       reach heap (root (mr_ptr_in r)) (mr_ptr_in r) \<and> root (mr_ptr_in r) \<in> mr_ptr_out ` {a \<in> set heap. \<not> is_bind a}
     else mr_ptr_out r \<noteq> 0 \<longrightarrow> root (mr_ptr_out r) = mr_ptr_out r \<and> disp (mr_ptr_out r) = 0)"

lemma wired_bind:
  assumes "wired heap rank root disp" "b < length heap" "binds_to heap r b"
  shows "mr_ptr_in (heap ! b) = mr_ptr_out (heap ! r)" "is_bind (heap ! b)" "mr_ptr_out (heap ! b) \<noteq> 0"
    "mr_ptr_in (heap ! b) \<noteq> mr_ptr_out (heap ! b) \<Longrightarrow> rank (mr_ptr_out (heap ! r)) < rank (mr_ptr_out (heap ! b))"
    "root (mr_ptr_out (heap ! b)) = root (mr_ptr_out (heap ! r))"
    "disp (mr_ptr_out (heap ! b)) = disp (mr_ptr_out (heap ! r)) + mr_offset (heap ! b)"
  using assms nth_mem [OF assms(2)] unfolding wired_def binds_to_def by fastforce+

lemma trace_total:
  assumes "wired heap rank root disp"
    "card {i. i < length heap \<and> is_bind (heap ! i) \<and> rank (mr_ptr_out (heap ! r)) < rank (mr_ptr_out (heap ! i))} < n"
  shows "\<exists>ps. trace n heap r = Inr ps"
  using assms(2)
proof (induction n arbitrary: r)
  case (Suc n)
  have sub: "\<exists>qs. trace n heap i = Inr qs"
    if i: "i < length heap" "binds_to heap r i" "mr_ptr_in (heap ! i) \<noteq> mr_ptr_out (heap ! i)" for i
  proof (rule Suc.IH)
    let ?A = "\<lambda>r. {i. i < length heap \<and> is_bind (heap ! i) \<and> rank (mr_ptr_out (heap ! r)) < rank (mr_ptr_out (heap ! i))}"
    note w = wired_bind [OF assms(1) i(1,2)]
    have "?A i \<subset> ?A r" using w(2,4) i by force
    then have "card (?A i) < card (?A r)" by (intro psubset_card_mono) auto
    then show "card (?A i) < n" using Suc.prems by simp
  qed
  show ?case
    unfolding trace.simps
    by (rule foldE_total [where P = "\<lambda>_. True", simplified]) (use sub in \<open>auto; fastforce\<close>)
qed simp

lemma trace_ends:
  assumes "wired heap rank root disp"
  shows "\<exists>ps. trace (bind_fuel heap) heap r = Inr ps"
proof (rule trace_total [OF assms])
  have "card {i. i < length heap \<and> is_bind (heap ! i) \<and> rank (mr_ptr_out (heap ! r)) < rank (mr_ptr_out (heap ! i))}
      \<le> card {..<length heap}" by (intro card_mono) auto
  then show "card {i. i < length heap \<and> is_bind (heap ! i) \<and> rank (mr_ptr_out (heap ! r)) < rank (mr_ptr_out (heap ! i))}
      < bind_fuel heap" by (simp add: bind_fuel_def)
qed

lemma reach_root: "reach heap p q \<Longrightarrow> wired heap rank root disp \<Longrightarrow> root q = root p \<and> disp p \<le> disp q"
proof (induction q rule: reach.induct)
  case (bound b)
  then have "root (mr_ptr_out b) = root (mr_ptr_in b)" "disp (mr_ptr_in b) \<le> disp (mr_ptr_out b)"
    unfolding wired_def by (auto split: if_splits)
  then show ?case using bound by simp
qed simp

section \<open>Room for what is bound\<close>

abbreviation data_size :: "MemRequest \<Rightarrow> nat" where
  "data_size r \<equiv> mr_num_elements r * mr_element_size r"

text \<open>
  The sizes are small when no sum that \<open>commit\<close> forms for one block leaves the range of \<open>int\<close>: the offsets
  of all that is bound to the block, the sizes with their alignments.
\<close>

definition span :: "MemRequest list \<Rightarrow> (nat \<times> nat) list \<Rightarrow> nat" where
  "span heap ps = (\<Sum>(r, b) \<leftarrow> ps. mr_offset (heap ! b))"

definition small_at :: "MemRequest list \<Rightarrow> nat \<Rightarrow> bool" where
  "small_at heap a \<longleftrightarrow> 0 < mr_alignment (heap ! a) \<and>
     data_size (heap ! a) + mr_padding (heap ! a) + 2 * mr_alignment (heap ! a) \<le> 2 ^ 30 \<and>
     (\<forall>ps. trace (bind_fuel heap) heap a = Inr ps \<longrightarrow>
        (\<forall>(r, b) \<in> set ps. span heap ps + data_size (heap ! b) + mr_alignment (heap ! b) \<le> 2 ^ 30 \<and> 0 < mr_alignment (heap ! b)))"

definition pad_ok :: "MemRequest \<Rightarrow> nat \<Rightarrow> bool" where
  "pad_ok r pad \<longleftrightarrow> 0 < mr_alignment r \<and> 2 * mr_alignment r \<le> 2 ^ 30 \<and> data_size r \<le> 2 ^ 30 \<and>
     round_up (data_size r + pad) (mr_alignment r) \<le> 2 ^ 30 + mr_alignment r"

lemma pad_ok_ALIGN:
  assumes "pad_ok r pad"
  shows "ALIGN (data_size r + pad) (mr_alignment r) = round_up (data_size r + pad) (mr_alignment r)"
    "ALIGN (data_size r) (mr_alignment r) = round_up (data_size r) (mr_alignment r)"
proof -
  have "data_size r + pad \<le> round_up (data_size r + pad) (mr_alignment r)"
    using assms by (intro round_up_ge) (simp add: pad_ok_def)
  then show "ALIGN (data_size r + pad) (mr_alignment r) = round_up (data_size r + pad) (mr_alignment r)"
    using assms by (intro ALIGN_round_up) (simp_all add: pad_ok_def)
  show "ALIGN (data_size r) (mr_alignment r) = round_up (data_size r) (mr_alignment r)"
    using assms by (intro ALIGN_round_up) (simp_all add: pad_ok_def)
qed

lemma expand_step:
  assumes ok: "pad_ok r pad" and c: "current \<le> 2 ^ 30"
  defines "t \<equiv> round_up (data_size r + pad) (mr_alignment r)"
  defines "pad' \<equiv> ALIGN (max (ALIGN (data_size r + pad) (mr_alignment r)) current) (mr_alignment r)
    - ALIGN (data_size r) (mr_alignment r)"
  shows "pad_ok r pad' \<and> t \<le> round_up (data_size r + pad') (mr_alignment r) \<and>
    current \<le> round_up (data_size r + pad') (mr_alignment r)"
proof -
  let ?al = "mr_alignment r" and ?z = "round_up (data_size r) (mr_alignment r)"
  let ?t' = "round_up (max t current) ?al"
  have al: "0 < ?al" "2 * ?al \<le> 2 ^ 30" and t: "t \<le> 2 ^ 30 + ?al" and z: "?z \<le> t"
    using ok round_up_mono [of "data_size r" "data_size r + pad" ?al] by (auto simp: pad_ok_def t_def)
  have "ALIGN (max t current) ?al = ?t'" using al t c by (intro ALIGN_round_up) auto
  then have pad': "pad' = ?t' - ?z" unfolding pad'_def t_def using pad_ok_ALIGN [OF ok] by simp
  have ge: "max t current \<le> ?t'" using al(1) by (rule round_up_ge)
  have dvd: "?al dvd ?t' - ?z" by (intro dvd_diff_nat round_up_dvd)
  have "?z \<le> ?t'" using ge z by simp
  then have eq: "round_up (data_size r + pad') ?al = ?t'"
    unfolding pad' round_up_add [OF al(1) dvd] by simp
  have "?t' \<le> 2 ^ 30 + ?al"
  proof (cases "t \<le> current")
    case True
    then show ?thesis using round_up_less [OF al(1), of current] c by (simp add: max_def)
  next
    case False
    then have "?t' = t" using round_up_same [OF al(1)] by (simp add: t_def round_up_dvd)
    then show ?thesis using t by simp
  qed
  then show ?thesis using ok ge eq by (simp add: pad_ok_def)
qed

lemma expand_chain:
  assumes "wired heap rank root disp" "chain heap S ps" "\<forall>r \<in> S. is_bind (heap ! r) \<and> disp (mr_ptr_out (heap ! r)) \<le> off"
    "\<not> is_bind (heap ! a)" "pad_ok (heap ! a) pad" "off + span heap ps \<le> m"
    "\<forall>(r, b) \<in> set ps. m + data_size (heap ! b) + mr_alignment (heap ! b) \<le> 2 ^ 30 \<and> 0 < mr_alignment (heap ! b)"
  shows "\<exists>off' pad'. fold (\<lambda>(r, b). expand_visitor heap a r b) ps (off, pad) = (off', pad') \<and> pad_ok (heap ! a) pad' \<and>
    round_up (data_size (heap ! a) + pad) (mr_alignment (heap ! a)) \<le> round_up (data_size (heap ! a) + pad') (mr_alignment (heap ! a)) \<and>
    (\<forall>(r, b) \<in> set ps. disp (mr_ptr_out (heap ! b)) + ALIGN (data_size (heap ! b)) (mr_alignment (heap ! b))
       \<le> round_up (data_size (heap ! a) + pad') (mr_alignment (heap ! a)))"
  using assms(2,3,5,6,7)
proof (induction ps arbitrary: S off pad)
  case (Cons x ps)
  obtain r b where x: "x = (r, b)" by (cases x)
  let ?r = "heap ! a" and ?b = "heap ! b"
  have b: "r \<in> S" "b < length heap" "binds_to heap r b" "chain heap (insert b S) ps" using Cons.prems(1) x by auto
  note w = wired_bind [OF assms(1) b(2,3)]
  have ne: "a \<noteq> r" using Cons.prems(2) b(1) assms(4) by blast
  define current where "current = off + mr_offset ?b + ALIGN (data_size ?b) (mr_alignment ?b)"
  define pad1 where "pad1 = ALIGN (max (ALIGN (data_size ?r + pad) (mr_alignment ?r)) current) (mr_alignment ?r)
    - ALIGN (data_size ?r) (mr_alignment ?r)"
  have small: "m + data_size ?b + mr_alignment ?b \<le> 2 ^ 30" "0 < mr_alignment ?b" using Cons.prems(5) x by auto
  have m: "off + mr_offset ?b + span heap ps \<le> m" using Cons.prems(4) x by (simp add: span_def)
  have "ALIGN (data_size ?b) (mr_alignment ?b) = round_up (data_size ?b) (mr_alignment ?b)"
    using small by (intro ALIGN_round_up) auto
  then have "current \<le> 2 ^ 30"
    using round_up_less [OF small(2), of "data_size ?b"] small m by (simp add: current_def)
  note step = expand_step [OF Cons.prems(3) this, folded pad1_def]
  have "expand_visitor heap a r b (off, pad) = (off + mr_offset ?b, pad1)"
    using ne by (simp add: expand_visitor_def Let_def pad1_def current_def)
  moreover have S: "\<forall>r \<in> insert b S. is_bind (heap ! r) \<and> disp (mr_ptr_out (heap ! r)) \<le> off + mr_offset ?b"
    using Cons.prems(2) w(2,6) b(1) by (fastforce intro: trans_le_add1)
  moreover note Cons.IH [OF b(4) S step [THEN conjunct1] m]
  moreover have "disp (mr_ptr_out ?b) + ALIGN (data_size ?b) (mr_alignment ?b) \<le> current"
    using S by (simp add: current_def)
  ultimately show ?case using step Cons.prems(5) x by fastforce
qed auto

lemma trace_blocks:
  assumes "trace n heap r = Inr ps"
  shows "\<exists>bs. ps = concat bs \<and> (\<forall>b \<in> set bs. \<exists>i qs. b = (r, i) # qs \<and> i < length heap \<and> binds_to heap r i \<and> chain heap {i} qs)"
proof (cases n)
  case 0
  then show ?thesis using assms by simp
next
  case (Suc n)
  let ?G = "\<lambda>i ps. if binds_to heap r i then
         if mr_ptr_in (heap ! i) = mr_ptr_out (heap ! i) then Inr (ps @ [(r, i)])
         else bindE (trace n heap i) (\<lambda>qs. Inr (ps @ (r, i) # qs))
       else Inr ps"
  let ?P = "\<lambda>ps. \<exists>bs. ps = concat bs \<and>
      (\<forall>b \<in> set bs. \<exists>i qs. b = (r, i) # qs \<and> i < length heap \<and> binds_to heap r i \<and> chain heap {i} qs)"
  from assms Suc have "foldE ?G [0..<length heap] [] = Inr ps" by simp
  then show ?thesis
  proof (rule foldE_inv [where P = ?P])
    show "?P []" by (intro exI [of _ "[]"]) simp
    fix i ps ps'
    assume i: "i \<in> set [0..<length heap]" and "?P ps" and step: "?G i ps = Inr ps'"
    then obtain bs where bs: "ps = concat bs"
      "\<forall>b \<in> set bs. \<exists>i qs. b = (r, i) # qs \<and> i < length heap \<and> binds_to heap r i \<and> chain heap {i} qs" by blast
    show "?P ps'"
    proof (cases "binds_to heap r i")
      case True
      then obtain qs where "ps' = ps @ (r, i) # qs" "chain heap {i} qs"
        using step trace_chain by (auto split: if_splits)
      then show ?thesis using bs True i by (intro exI [of _ "bs @ [(r, i) # qs]"]) auto
    next
      case False
      then show ?thesis using step bs by auto
    qed
  qed
qed

lemma span_append: "span heap (ps @ qs) = span heap ps + span heap qs"
  by (simp add: span_def)

lemma expand_blocks:
  assumes "wired heap rank root disp" "\<not> is_bind (heap ! a)"
    "\<forall>ps \<in> set bs. \<exists>i qs. ps = (a, i) # qs \<and> i < length heap \<and> binds_to heap a i \<and> chain heap {i} qs"
    "pad_ok (heap ! a) pad" "span heap (concat bs) \<le> m" "a < length heap"
    "\<forall>(r, b) \<in> set (concat bs). m + data_size (heap ! b) + mr_alignment (heap ! b) \<le> 2 ^ 30 \<and> 0 < mr_alignment (heap ! b)"
  shows "\<exists>off' pad'. fold (\<lambda>(r, b). expand_visitor heap a r b) (concat bs) (off, pad) = (off', pad') \<and> pad_ok (heap ! a) pad' \<and>
    round_up (data_size (heap ! a) + pad) (mr_alignment (heap ! a)) \<le> round_up (data_size (heap ! a) + pad') (mr_alignment (heap ! a)) \<and>
    (\<forall>(r, b) \<in> set (concat bs). disp (mr_ptr_out (heap ! b)) + ALIGN (data_size (heap ! b)) (mr_alignment (heap ! b))
       \<le> round_up (data_size (heap ! a) + pad') (mr_alignment (heap ! a)))"
  using assms(3,4,5,7)
proof (induction bs arbitrary: off pad)
  case (Cons x bs)
  obtain i qs where x: "x = (a, i) # qs" and i: "i < length heap" "binds_to heap a i" "chain heap {i} qs"
    using Cons.prems(1) by auto
  let ?r = "heap ! a" and ?i = "heap ! i"
  note w = wired_bind [OF assms(1) i(1,2)]
  have "mr_ptr_out ?r \<noteq> 0" using w(1) assms(1) nth_mem [OF i(1)] w(2) by (auto simp: wired_def)
  then have a0: "disp (mr_ptr_out ?r) = 0" using assms(1,2) nth_mem [OF assms(6)] by (auto simp: wired_def)
  define current where "current = mr_offset ?i + ALIGN (data_size ?i) (mr_alignment ?i)"
  define pad1 where "pad1 = ALIGN (max (ALIGN (data_size ?r + pad) (mr_alignment ?r)) current) (mr_alignment ?r)
    - ALIGN (data_size ?r) (mr_alignment ?r)"
  have small: "m + data_size ?i + mr_alignment ?i \<le> 2 ^ 30" "0 < mr_alignment ?i" using Cons.prems(4) x by auto
  have m: "mr_offset ?i + span heap qs \<le> m" "span heap (concat bs) \<le> m"
    using Cons.prems(3) x by (simp_all add: span_def)
  have "ALIGN (data_size ?i) (mr_alignment ?i) = round_up (data_size ?i) (mr_alignment ?i)"
    using small by (intro ALIGN_round_up) auto
  then have "current \<le> 2 ^ 30"
    using round_up_less [OF small(2), of "data_size ?i"] small m by (simp add: current_def)
  note step = expand_step [OF Cons.prems(2) this, folded pad1_def]
  have visit: "expand_visitor heap a a i (off, pad) = (mr_offset ?i, pad1)"
    by (simp add: expand_visitor_def Let_def pad1_def current_def)
  have "\<forall>r \<in> {i}. is_bind (heap ! r) \<and> disp (mr_ptr_out (heap ! r)) \<le> mr_offset ?i" using w(2,6) a0 by simp
  moreover have "\<forall>(r, b) \<in> set qs. m + data_size (heap ! b) + mr_alignment (heap ! b) \<le> 2 ^ 30 \<and> 0 < mr_alignment (heap ! b)"
    using Cons.prems(4) x by auto
  ultimately obtain off2 pad2 where
    f2: "fold (\<lambda>(r, b). expand_visitor heap a r b) qs (mr_offset ?i, pad1) = (off2, pad2)" and ok2: "pad_ok ?r pad2"
    and le2: "round_up (data_size ?r + pad1) (mr_alignment ?r) \<le> round_up (data_size ?r + pad2) (mr_alignment ?r)"
    and all2: "\<forall>(r, b) \<in> set qs. disp (mr_ptr_out (heap ! b)) + ALIGN (data_size (heap ! b)) (mr_alignment (heap ! b))
       \<le> round_up (data_size ?r + pad2) (mr_alignment ?r)"
    using expand_chain [OF assms(1) i(3) _ assms(2) step [THEN conjunct1] m(1)] by blast
  have "\<exists>off' pad'. fold (\<lambda>(r, b). expand_visitor heap a r b) (concat bs) (off2, pad2) = (off', pad') \<and> pad_ok ?r pad' \<and>
    round_up (data_size ?r + pad2) (mr_alignment ?r) \<le> round_up (data_size ?r + pad') (mr_alignment ?r) \<and>
    (\<forall>(r, b) \<in> set (concat bs). disp (mr_ptr_out (heap ! b)) + ALIGN (data_size (heap ! b)) (mr_alignment (heap ! b))
       \<le> round_up (data_size ?r + pad') (mr_alignment ?r))"
    using Cons.prems(1,4) ok2 m(2) by (intro Cons.IH) auto
  then obtain off3 pad3 where
    f3: "fold (\<lambda>(r, b). expand_visitor heap a r b) (concat bs) (off2, pad2) = (off3, pad3)" and ok3: "pad_ok ?r pad3"
    and le3: "round_up (data_size ?r + pad2) (mr_alignment ?r) \<le> round_up (data_size ?r + pad3) (mr_alignment ?r)"
    and all3: "\<forall>(r, b) \<in> set (concat bs). disp (mr_ptr_out (heap ! b)) + ALIGN (data_size (heap ! b)) (mr_alignment (heap ! b))
       \<le> round_up (data_size ?r + pad3) (mr_alignment ?r)" by blast
  have "disp (mr_ptr_out ?i) + ALIGN (data_size ?i) (mr_alignment ?i) \<le> current" using w(6) a0 by (simp add: current_def)
  then show ?case using visit f2 f3 ok3 le2 le3 all2 all3 step x by (intro exI [of _ off3] exI [of _ pad3]) fastforce
qed auto

lemma expand_request_room:
  assumes "wired heap rank root disp" "small_at heap a" "a < length heap" "\<not> is_bind (heap ! a)"
  obtains pad where "expand_request a heap = Inr (heap[a := (heap ! a)\<lparr>mr_padding := pad\<rparr>])" "pad_ok (heap ! a) pad"
    "\<forall>r b ps. trace (bind_fuel heap) heap a = Inr ps \<longrightarrow> (r, b) \<in> set ps \<longrightarrow>
       disp (mr_ptr_out (heap ! b)) + ALIGN (data_size (heap ! b)) (mr_alignment (heap ! b))
         \<le> round_up (data_size (heap ! a) + pad) (mr_alignment (heap ! a))"
proof -
  obtain ps where ps: "trace (bind_fuel heap) heap a = Inr ps" using trace_ends [OF assms(1)] by blast
  obtain bs where bs: "ps = concat bs"
    "\<forall>b \<in> set bs. \<exists>i qs. b = (a, i) # qs \<and> i < length heap \<and> binds_to heap a i \<and> chain heap {i} qs"
    using trace_blocks [OF ps] by blast
  have sm: "0 < mr_alignment (heap ! a)" "data_size (heap ! a) + mr_padding (heap ! a) + 2 * mr_alignment (heap ! a) \<le> 2 ^ 30"
    "\<forall>(r, b) \<in> set ps. span heap ps + data_size (heap ! b) + mr_alignment (heap ! b) \<le> 2 ^ 30 \<and> 0 < mr_alignment (heap ! b)"
    using assms(2) ps by (auto simp: small_at_def)
  have ok: "pad_ok (heap ! a) (mr_padding (heap ! a))"
    using sm round_up_less [OF sm(1), of "data_size (heap ! a) + mr_padding (heap ! a)"] by (simp add: pad_ok_def)
  from sm(3) expand_blocks [OF assms(1,4) bs(2) ok _ assms(3), of "span heap ps" 0] obtain off' pad' where
    "fold (\<lambda>(r, b). expand_visitor heap a r b) ps (0, mr_padding (heap ! a)) = (off', pad')" "pad_ok (heap ! a) pad'"
    "\<forall>(r, b) \<in> set ps. disp (mr_ptr_out (heap ! b)) + ALIGN (data_size (heap ! b)) (mr_alignment (heap ! b))
       \<le> round_up (data_size (heap ! a) + pad') (mr_alignment (heap ! a))"
    unfolding bs(1) by auto
  then show thesis using ps assms(4) by (intro that [of pad']) (auto simp: expand_request_def iterate_trace)
qed

section \<open>Queues with the same bindings\<close>

definition like :: "MemRequest list \<Rightarrow> MemRequest list \<Rightarrow> bool" where
  "like heap heap' \<longleftrightarrow> length heap' = length heap \<and> (\<forall>i < length heap.
     is_bind (heap' ! i) = is_bind (heap ! i) \<and> mr_ptr_in (heap' ! i) = mr_ptr_in (heap ! i) \<and>
     mr_ptr_out (heap' ! i) = mr_ptr_out (heap ! i) \<and> mr_offset (heap' ! i) = mr_offset (heap ! i))"

lemma like_fields:
  assumes "like heap heap'"
  shows "length heap' = length heap"
    "i < length heap \<Longrightarrow> is_bind (heap' ! i) = is_bind (heap ! i)"
    "i < length heap \<Longrightarrow> mr_ptr_in (heap' ! i) = mr_ptr_in (heap ! i)"
    "i < length heap \<Longrightarrow> mr_ptr_out (heap' ! i) = mr_ptr_out (heap ! i)"
    "i < length heap \<Longrightarrow> mr_offset (heap' ! i) = mr_offset (heap ! i)"
  using assms by (auto simp: like_def)

lemma foldE_cong: "(\<And>x s. x \<in> set xs \<Longrightarrow> f x s = g x s) \<Longrightarrow> foldE f xs s = foldE g xs s"
  by (induction xs arbitrary: s) (auto simp: bindE_def split: sum.splits)

lemma like_trace: "like heap heap' \<Longrightarrow> r < length heap \<Longrightarrow> trace n heap' r = trace n heap r"
proof (induction n arbitrary: r)
  case (Suc n)
  have "binds_to heap' r i = binds_to heap r i" if "i < length heap" for i
    using that Suc.prems like_fields [OF Suc.prems(1)] by (simp add: binds_to_def)
  then show ?case
    unfolding trace.simps like_fields(1) [OF Suc.prems(1)]
    using Suc by (intro foldE_cong) (simp add: like_fields)
qed simp

lemma like_sym: "like heap heap' \<Longrightarrow> like heap' heap"
  by (simp add: like_def)

lemma like_reach: "like heap heap' \<Longrightarrow> reach heap p q \<Longrightarrow> reach heap' p q"
proof (rotate_tac, induction q rule: reach.induct)
  case (bound b)
  then obtain i where i: "i < length heap" "heap ! i = b" by (metis in_set_conv_nth)
  then have "heap' ! i \<in> set heap'" using like_fields(1) [OF bound.prems] by simp
  then show ?case using bound i like_fields [OF bound.prems] reach.bound [of heap' p "heap' ! i"] by simp
qed (rule reach.here)

lemma like_reach_iff: "like heap heap' \<Longrightarrow> reach heap' p q = reach heap p q"
  using like_reach like_sym by blast

lemma wired_nth: "wired heap rank root disp \<longleftrightarrow> (\<forall>i < length heap.
     if is_bind (heap ! i) then
       mr_ptr_in (heap ! i) \<noteq> 0 \<and> mr_ptr_out (heap ! i) \<noteq> 0 \<and>
       (mr_ptr_in (heap ! i) \<noteq> mr_ptr_out (heap ! i) \<longrightarrow> rank (mr_ptr_in (heap ! i)) < rank (mr_ptr_out (heap ! i))) \<and>
       root (mr_ptr_out (heap ! i)) = root (mr_ptr_in (heap ! i)) \<and>
       disp (mr_ptr_out (heap ! i)) = disp (mr_ptr_in (heap ! i)) + mr_offset (heap ! i) \<and>
       reach heap (root (mr_ptr_in (heap ! i))) (mr_ptr_in (heap ! i)) \<and>
       (\<exists>a < length heap. \<not> is_bind (heap ! a) \<and> mr_ptr_out (heap ! a) = root (mr_ptr_in (heap ! i)))
     else mr_ptr_out (heap ! i) \<noteq> 0 \<longrightarrow> root (mr_ptr_out (heap ! i)) = mr_ptr_out (heap ! i) \<and> disp (mr_ptr_out (heap ! i)) = 0)"
proof -
  have "(x \<in> mr_ptr_out ` {a \<in> set heap. \<not> is_bind a}) = (\<exists>a < length heap. \<not> is_bind (heap ! a) \<and> mr_ptr_out (heap ! a) = x)" for x
    by (force simp: in_set_conv_nth)
  then show ?thesis by (simp add: wired_def all_set_conv_all_nth)
qed

lemma like_wired:
  assumes "like heap heap'" "wired heap rank root disp"
  shows "wired heap' rank root disp"
  unfolding wired_nth like_fields(1) [OF assms(1)]
proof (intro allI impI)
  fix i assume i: "i < length heap"
  have ex: "(\<exists>a < length heap. \<not> is_bind (heap' ! a) \<and> mr_ptr_out (heap' ! a) = x) =
      (\<exists>a < length heap. \<not> is_bind (heap ! a) \<and> mr_ptr_out (heap ! a) = x)" for x
    using like_fields [OF assms(1)] by auto
  show "if is_bind (heap' ! i) then
       mr_ptr_in (heap' ! i) \<noteq> 0 \<and> mr_ptr_out (heap' ! i) \<noteq> 0 \<and>
       (mr_ptr_in (heap' ! i) \<noteq> mr_ptr_out (heap' ! i) \<longrightarrow> rank (mr_ptr_in (heap' ! i)) < rank (mr_ptr_out (heap' ! i))) \<and>
       root (mr_ptr_out (heap' ! i)) = root (mr_ptr_in (heap' ! i)) \<and>
       disp (mr_ptr_out (heap' ! i)) = disp (mr_ptr_in (heap' ! i)) + mr_offset (heap' ! i) \<and>
       reach heap' (root (mr_ptr_in (heap' ! i))) (mr_ptr_in (heap' ! i)) \<and>
       (\<exists>a < length heap. \<not> is_bind (heap' ! a) \<and> mr_ptr_out (heap' ! a) = root (mr_ptr_in (heap' ! i)))
     else mr_ptr_out (heap' ! i) \<noteq> 0 \<longrightarrow> root (mr_ptr_out (heap' ! i)) = mr_ptr_out (heap' ! i) \<and> disp (mr_ptr_out (heap' ! i)) = 0"
    using assms(2) [unfolded wired_nth, rule_format, OF i]
    unfolding like_fields(2-5) [OF assms(1) i] like_reach_iff [OF assms(1)] ex .
qed

section \<open>The first stage\<close>

definition padded :: "MemRequest list \<Rightarrow> (nat \<Rightarrow> nat) \<Rightarrow> MemRequest list" where
  "padded heap pad = map (\<lambda>i. (heap ! i)\<lparr>mr_padding := pad i\<rparr>) [0..<length heap]"

lemma padded_nth [simp]: "i < length heap \<Longrightarrow> padded heap pad ! i = (heap ! i)\<lparr>mr_padding := pad i\<rparr>"
  by (simp add: padded_def)

lemma padded_length [simp]: "length (padded heap pad) = length heap"
  by (simp add: padded_def)

lemma padded_like: "like heap (padded heap pad)"
  by (simp add: like_def is_bind_def)

lemma padded_update:
  "k < length heap \<Longrightarrow> (padded heap pad)[k := (padded heap pad ! k)\<lparr>mr_padding := x\<rparr>] = padded heap (pad(k := x))"
  by (rule nth_equalityI) (auto simp: nth_list_update)

text \<open>The block of a request with the padding \<open>pad\<close>, and that it holds all that is bound to the request.\<close>

definition block :: "MemRequest \<Rightarrow> nat \<Rightarrow> nat" where
  "block r pad = round_up (data_size r + pad) (mr_alignment r)"

definition roomy :: "MemRequest list \<Rightarrow> (nat \<Rightarrow> nat) \<Rightarrow> nat \<Rightarrow> nat \<Rightarrow> bool" where
  "roomy heap disp a pad \<longleftrightarrow> pad_ok (heap ! a) pad \<and>
     (\<forall>r b ps. trace (bind_fuel heap) heap a = Inr ps \<longrightarrow> (r, b) \<in> set ps \<longrightarrow>
        disp (mr_ptr_out (heap ! b)) + ALIGN (data_size (heap ! b)) (mr_alignment (heap ! b)) \<le> block (heap ! a) pad)"

lemma padded_trace: "r < length heap \<Longrightarrow>
  trace (bind_fuel (padded heap pad)) (padded heap pad) r = trace (bind_fuel heap) heap r"
  unfolding bind_fuel_def padded_length by (rule like_trace [OF padded_like])

lemma padded_span: "trace n heap r = Inr ps \<Longrightarrow> span (padded heap pad) ps = span heap ps"
  unfolding span_def using chain_mem [OF trace_chain]
  by (intro arg_cong [where f = sum_list] map_cong) (auto split: prod.split)

lemma padded_small:
  assumes "k < length heap" "pad k = mr_padding (heap ! k)" "small_at heap k"
  shows "small_at (padded heap pad) k"
proof -
  have "span (padded heap pad) ps + data_size (padded heap pad ! b) + mr_alignment (padded heap pad ! b) \<le> 2 ^ 30 \<and>
      0 < mr_alignment (padded heap pad ! b)"
    if "trace (bind_fuel heap) heap k = Inr ps" "(r, b) \<in> set ps" for r b ps
    using assms(3) that chain_mem [OF trace_chain [OF that(1)] that(2)] by (fastforce simp: small_at_def padded_span [OF that(1)])
  then show ?thesis using assms by (auto simp: small_at_def padded_trace)
qed

lemma expand_all_room:
  assumes "wired heap rank root disp" "\<forall>a < length heap. small_at heap a"
  obtains pad where "expand_all heap = Inr (padded heap pad)"
    "\<And>a. a < length heap \<Longrightarrow> \<not> is_bind (heap ! a) \<Longrightarrow> roomy heap disp a (pad a)"
    "\<And>b. b < length heap \<Longrightarrow> is_bind (heap ! b) \<Longrightarrow> pad b = mr_padding (heap ! b)"
proof -
  have "\<exists>pad. foldE expand_request [0..<k] heap = Inr (padded heap pad) \<and>
      (\<forall>i. k \<le> i \<or> is_bind (heap ! i) \<longrightarrow> pad i = mr_padding (heap ! i)) \<and>
      (\<forall>a < k. \<not> is_bind (heap ! a) \<longrightarrow> roomy heap disp a (pad a))" if "k \<le> length heap" for k
    using that
  proof (induction k)
    case 0
    have "padded heap (\<lambda>i. mr_padding (heap ! i)) = heap" by (rule nth_equalityI) simp_all
    then show ?case by (intro exI [of _ "\<lambda>i. mr_padding (heap ! i)"]) simp
  next
    case (Suc k)
    then obtain pad where IH: "foldE expand_request [0..<k] heap = Inr (padded heap pad)"
      "\<forall>i. k \<le> i \<or> is_bind (heap ! i) \<longrightarrow> pad i = mr_padding (heap ! i)"
      "\<forall>a < k. \<not> is_bind (heap ! a) \<longrightarrow> roomy heap disp a (pad a)" by auto
    have k: "k < length heap" using Suc.prems by simp
    show ?case
    proof (cases "is_bind (heap ! k)")
      case True
      then have "expand_request k (padded heap pad) = Inr (padded heap pad)"
        using k by (simp add: expand_request_def is_bind_def)
      then show ?thesis using IH True by (intro exI [of _ pad]) (auto simp: less_Suc_eq)
    next
      case False
      let ?h = "padded heap pad"
      have w: "wired ?h rank root disp" using padded_like assms(1) by (rule like_wired)
      have nb: "\<not> is_bind (?h ! k)" "k < length ?h" using False k by (simp_all add: is_bind_def)
      have sm: "small_at ?h k" using IH(2) assms(2) k by (intro padded_small) auto
      obtain x where x: "expand_request k ?h = Inr (?h[k := (?h ! k)\<lparr>mr_padding := x\<rparr>])" "pad_ok (?h ! k) x"
        "\<forall>r b ps. trace (bind_fuel ?h) ?h k = Inr ps \<longrightarrow> (r, b) \<in> set ps \<longrightarrow>
           disp (mr_ptr_out (?h ! b)) + ALIGN (data_size (?h ! b)) (mr_alignment (?h ! b))
             \<le> round_up (data_size (?h ! k) + x) (mr_alignment (?h ! k))"
        using expand_request_room [OF w sm nb(2,1)] by blast
      have "roomy heap disp k x"
        unfolding roomy_def block_def
      proof (intro conjI allI impI)
        show "pad_ok (heap ! k) x" using x(2) k by (simp add: pad_ok_def)
        fix r b ps assume t: "trace (bind_fuel heap) heap k = Inr ps" "(r, b) \<in> set ps"
        then have "b < length heap" using chain_mem [OF trace_chain] by blast
        then show "disp (mr_ptr_out (heap ! b)) + ALIGN (data_size (heap ! b)) (mr_alignment (heap ! b))
            \<le> round_up (data_size (heap ! k) + x) (mr_alignment (heap ! k))"
          using x(3) [unfolded padded_trace [OF k], rule_format, OF t] k by simp
      qed
      then show ?thesis using IH x(1) [unfolded padded_update [OF k]] False
        by (intro exI [of _ "pad(k := x)"]) (auto simp: less_Suc_eq fun_upd_def)
    qed
  qed
  from this [of "length heap"] show thesis using that unfolding expand_all_def by auto
qed

section \<open>Setting the pointers\<close>

text \<open>Bound requests take over the size of what they are bound to; nothing else of the queue changes.\<close>

definition rebound :: "MemRequest list \<Rightarrow> MemRequest list \<Rightarrow> bool" where
  "rebound heap heap' \<longleftrightarrow> length heap' = length heap \<and> (\<forall>i < length heap.
     (\<exists>n e. heap' ! i = (heap ! i)\<lparr>mr_num_elements := n, mr_element_size := e\<rparr>) \<and>
     (\<not> is_bind (heap ! i) \<longrightarrow> heap' ! i = heap ! i))"

lemma rebound_refl: "rebound heap heap"
  unfolding rebound_def
proof (intro conjI allI impI refl)
  fix i assume "i < length heap"
  show "\<exists>n e. heap ! i = (heap ! i)\<lparr>mr_num_elements := n, mr_element_size := e\<rparr>"
    by (intro exI [of _ "mr_num_elements (heap ! i)"] exI [of _ "mr_element_size (heap ! i)"]) simp
qed

lemma rebound_fields:
  assumes "rebound heap heap'" "i < length heap"
  shows "mr_type (heap' ! i) = mr_type (heap ! i)" "mr_region (heap' ! i) = mr_region (heap ! i)"
    "mr_ptr_out (heap' ! i) = mr_ptr_out (heap ! i)" "mr_ptr_in (heap' ! i) = mr_ptr_in (heap ! i)"
    "mr_offset (heap' ! i) = mr_offset (heap ! i)" "is_bind (heap' ! i) = is_bind (heap ! i)"
    "\<not> is_bind (heap ! i) \<Longrightarrow> heap' ! i = heap ! i"
proof -
  obtain n e where "heap' ! i = (heap ! i)\<lparr>mr_num_elements := n, mr_element_size := e\<rparr>"
    using assms unfolding rebound_def by blast
  then show "mr_type (heap' ! i) = mr_type (heap ! i)" "mr_region (heap' ! i) = mr_region (heap ! i)"
    "mr_ptr_out (heap' ! i) = mr_ptr_out (heap ! i)" "mr_ptr_in (heap' ! i) = mr_ptr_in (heap ! i)"
    "mr_offset (heap' ! i) = mr_offset (heap ! i)" "is_bind (heap' ! i) = is_bind (heap ! i)"
    by (simp_all add: is_bind_def)
  show "heap' ! i = heap ! i" if "\<not> is_bind (heap ! i)" using assms that unfolding rebound_def by blast
qed

lemma rebound_like: "rebound heap heap' \<Longrightarrow> like heap heap'"
  unfolding like_def using rebound_fields(3-6) [of heap heap'] unfolding rebound_def by blast

lemma rebound_update:
  assumes "rebound heap heap'" "b < length heap" "is_bind (heap ! b)"
  shows "rebound heap (heap'[b := (heap' ! b)\<lparr>mr_num_elements := n, mr_element_size := e\<rparr>])"
  unfolding rebound_def
proof (intro conjI allI impI)
  let ?h = "heap'[b := (heap' ! b)\<lparr>mr_num_elements := n, mr_element_size := e\<rparr>]"
  show "length ?h = length heap" using assms(1) by (simp add: rebound_def)
  fix i assume i: "i < length heap"
  then obtain n' e' where old: "heap' ! i = (heap ! i)\<lparr>mr_num_elements := n', mr_element_size := e'\<rparr>"
    using assms(1) unfolding rebound_def by blast
  have len: "length heap' = length heap" using assms(1) by (simp add: rebound_def)
  show "\<exists>n e. ?h ! i = (heap ! i)\<lparr>mr_num_elements := n, mr_element_size := e\<rparr>"
  proof (cases "i = b")
    case True
    then show ?thesis using old assms(2) len by (intro exI [of _ n] exI [of _ e]) simp
  next
    case False
    then show ?thesis using old by (intro exI [of _ n'] exI [of _ e']) simp
  qed
  show "?h ! i = heap ! i" if "\<not> is_bind (heap ! i)"
  proof -
    have "i \<noteq> b" using that assms(3) by auto
    then show ?thesis using that assms(1) i unfolding rebound_def by simp
  qed
qed

definition set_pointer :: "MemRequest list \<Rightarrow> nat \<times> nat \<Rightarrow> Vars \<Rightarrow> Vars" where
  "set_pointer heap p vars =
     vars(mr_ptr_out (heap ! snd p) := mr_offset (heap ! snd p) + vars (mr_ptr_out (heap ! fst p)))"

lemma set_pointer_at: "set_pointer heap p vars q =
    (if q = mr_ptr_out (heap ! snd p) then mr_offset (heap ! snd p) + vars (mr_ptr_out (heap ! fst p)) else vars q)"
  by (simp add: set_pointer_def)

lemma fold_set_binded:
  assumes "chain heap S ps" "\<forall>r \<in> S. r < length heap" "rebound heap heap'"
  shows "\<exists>heap''. fold (\<lambda>(r, b). set_binded r b) ps (heap', vars) = (heap'', fold (set_pointer heap) ps vars) \<and> rebound heap heap''"
  using assms
proof (induction ps arbitrary: S heap' vars)
  case (Cons x ps)
  obtain r b where x: "x = (r, b)" by (cases x)
  have b: "r < length heap" "b < length heap" "is_bind (heap ! b)" "chain heap (insert b S) ps"
    using Cons.prems x by (auto simp: binds_to_def)
  let ?h = "heap'[b := (heap' ! b)\<lparr>mr_num_elements := mr_num_elements (heap' ! r), mr_element_size := mr_element_size (heap' ! r)\<rparr>]"
  have "set_binded r b (heap', vars) = (?h, set_pointer heap (r, b) vars)"
    using rebound_fields [OF Cons.prems(3) b(1)] rebound_fields [OF Cons.prems(3) b(2)] by (simp add: set_binded_def set_pointer_def Let_def)
  moreover have "rebound heap ?h" by (rule rebound_update [OF Cons.prems(3) b(2,3)])
  ultimately show ?case using Cons.IH [OF b(4)] Cons.prems(2) b(2) x by simp
qed simp

lemma pointers_set:
  assumes "wired heap rank root disp" "chain heap S ps" "\<forall>r \<in> S. vars (mr_ptr_out (heap ! r)) = c + disp (mr_ptr_out (heap ! r))"
  shows "fold (set_pointer heap) ps vars q = (if q \<in> outs heap ps then c + disp q else vars q)"
  using assms(2,3)
proof (induction ps arbitrary: S vars)
  case (Cons x ps)
  obtain r b where x: "x = (r, b)" by (cases x)
  have b: "r \<in> S" "b < length heap" "binds_to heap r b" "chain heap (insert b S) ps" using Cons.prems x by auto
  note w = wired_bind [OF assms(1) b(2,3)]
  have "\<forall>r \<in> insert b S. set_pointer heap x vars (mr_ptr_out (heap ! r)) = c + disp (mr_ptr_out (heap ! r))"
    using Cons.prems(2) b(1) w(6) x by (auto simp: set_pointer_at)
  from Cons.IH [OF b(4) this] show ?case using Cons.prems(2) b(1) w(6) x by (auto simp: outs_def set_pointer_at)
qed (simp add: outs_def)

lemma pointers_kept: "q \<notin> outs heap ps \<Longrightarrow> fold (set_pointer heap) ps vars q = vars q"
  by (induction ps arbitrary: vars) (auto simp: outs_def set_pointer_at)

text \<open>The blocks whose pointers, and all that hangs at them, have their final values.\<close>

definition settled :: "MemRequest list \<Rightarrow> (nat \<Rightarrow> nat) \<Rightarrow> (nat \<Rightarrow> nat) \<Rightarrow> nat set \<Rightarrow> Vars \<Rightarrow> bool" where
  "settled heap disp addr J vars \<longleftrightarrow>
     (\<forall>j \<in> J. \<forall>q. reach heap (mr_ptr_out (heap ! j)) q \<longrightarrow> vars q = addr j + disp q)"

definition blocks :: "MemRequest list \<Rightarrow> nat set" where
  "blocks heap = {j. j < length heap \<and> \<not> is_bind (heap ! j) \<and> mr_ptr_out (heap ! j) \<noteq> 0}"

definition distinct_blocks :: "MemRequest list \<Rightarrow> bool" where
  "distinct_blocks heap \<longleftrightarrow> inj_on (\<lambda>j. mr_ptr_out (heap ! j)) (blocks heap)"

lemma block_root: "wired heap rank root disp \<Longrightarrow> j \<in> blocks heap \<Longrightarrow>
  root (mr_ptr_out (heap ! j)) = mr_ptr_out (heap ! j) \<and> disp (mr_ptr_out (heap ! j)) = 0"
  unfolding wired_nth blocks_def by auto

lemma settle_block:
  assumes w: "wired heap rank root disp" and d: "distinct_blocks heap" and J: "J \<subseteq> blocks heap"
    and i: "i \<in> blocks heap" "i \<notin> J" and s: "settled heap disp addr J vars" and ps: "trace n heap i = Inr ps"
  shows "settled heap disp addr (insert i J) (fold (set_pointer heap) ps (vars(mr_ptr_out (heap ! i) := addr i)))"
  unfolding settled_def
proof (intro ballI allI impI)
  fix j q assume j: "j \<in> insert i J" and q: "reach heap (mr_ptr_out (heap ! j)) q"
  let ?v = "vars(mr_ptr_out (heap ! i) := addr i)"
  have ri: "root (mr_ptr_out (heap ! i)) = mr_ptr_out (heap ! i)" "disp (mr_ptr_out (heap ! i)) = 0"
    using block_root [OF w i(1)] by auto
  have fold: "fold (set_pointer heap) ps ?v q = (if q \<in> outs heap ps then addr i + disp q else ?v q)" for q
    using ri by (intro pointers_set [OF w trace_chain [OF ps]]) simp
  show "fold (set_pointer heap) ps ?v q = addr j + disp q"
  proof (cases "j = i")
    case True
    then show ?thesis using reach_outs [OF _ ps] q ri fold by auto
  next
    case False
    then have "j \<in> blocks heap" "j \<in> J" using j J by auto
    then have ne: "mr_ptr_out (heap ! j) \<noteq> mr_ptr_out (heap ! i)" "root q = mr_ptr_out (heap ! j)"
      using False d i(1) reach_root [OF q w] block_root [OF w] by (auto simp: distinct_blocks_def inj_on_def)
    have "root q' = mr_ptr_out (heap ! i)" if "q' \<in> outs heap ps" for q'
    proof -
      have "reach heap (mr_ptr_out (heap ! i)) q'"
        by (rule outs_reach [OF trace_chain [OF ps] _ that]) (simp add: reach.here)
      then show ?thesis using reach_root [OF _ w] ri by metis
    qed
    then have "q \<notin> outs heap ps" "q \<noteq> mr_ptr_out (heap ! i)" using ne ri by auto
    then show ?thesis using fold s \<open>j \<in> J\<close> q by (simp add: settled_def)
  qed
qed

lemma settle_bind:
  assumes w: "wired heap rank root disp" and d: "distinct_blocks heap" and J: "J \<subseteq> blocks heap"
    and i: "i < length heap" "is_bind (heap ! i)" and s: "settled heap disp addr J vars" and ps: "trace n heap i = Inr ps"
  shows "settled heap disp addr J (fold (set_pointer heap) ps vars)"
  unfolding settled_def
proof (intro ballI allI impI)
  fix j q assume j: "j \<in> J" and q: "reach heap (mr_ptr_out (heap ! j)) q"
  let ?p = "mr_ptr_out (heap ! i)"
  have vq: "vars q = addr j + disp q" using s j q by (simp add: settled_def)
  show "fold (set_pointer heap) ps vars q = addr j + disp q"
  proof (cases "q \<in> outs heap ps")
    case True
    have rq: "root q = mr_ptr_out (heap ! j)" using reach_root [OF q w] block_root [OF w] j J by auto
    have "reach heap ?p q" using outs_reach [OF trace_chain [OF ps] _ True, of ?p] by (auto intro: reach.here)
    then have "root ?p = mr_ptr_out (heap ! j)" using reach_root [OF _ w] rq by metis
    moreover have "reach heap (root (mr_ptr_in (heap ! i))) (mr_ptr_in (heap ! i))" "root ?p = root (mr_ptr_in (heap ! i))"
      using w i by (auto simp: wired_nth)
    ultimately have "reach heap (mr_ptr_out (heap ! j)) ?p" using reach.bound [of heap _ "heap ! i"] i by simp
    then have "vars ?p = addr j + disp ?p" using s j by (simp add: settled_def)
    then show ?thesis using pointers_set [OF w trace_chain [OF ps], of vars "addr j" q] True by simp
  qed (simp add: pointers_kept vq)
qed

section \<open>The second stage\<close>

lemma bind_type: "mr_type r = REQUEST_BIND \<Longrightarrow> is_bind r"
  by (simp add: is_bind_def REQUEST_BIND_def)

lemma rebound_trace:
  "rebound heap heap' \<Longrightarrow> i < length heap \<Longrightarrow> trace (bind_fuel heap') heap' i = trace (bind_fuel heap) heap i"
  using like_trace [OF rebound_like, of heap heap' i] by (simp add: bind_fuel_def rebound_def)

lemma setup_block:
  assumes "wired heap rank root disp" "rebound heap (su_heap st)" "i < length heap" "\<not> is_bind (heap ! i)" "\<not> skip (heap ! i)"
  obtains ps heap' where "trace (bind_fuel heap) heap i = Inr ps" "rebound heap heap'"
    "setup_request base bytes skip i st = Inr
       \<lparr>su_heap = heap',
        su_vars = (if mr_ptr_out (heap ! i) = 0 then su_vars st
          else fold (set_pointer heap) ps ((su_vars st)(mr_ptr_out (heap ! i) := base + su_offset st))),
        su_mem = (if mr_ptr_out (heap ! i) = 0 then su_mem st
          else store_content (heap ! i) (base + su_offset st) (bytes - su_offset st) (data_size (heap ! i)) (su_mem st)),
        su_offset = su_offset st + request_size (heap ! i)\<rparr>"
proof -
  let ?r = "heap ! i"
  obtain ps where ps: "trace (bind_fuel heap) heap i = Inr ps" using trace_ends [OF assms(1)] by blast
  have re: "su_heap st ! i = ?r" using rebound_fields(7) [OF assms(2,3)] assms(4) by simp
  have ty: "mr_type ?r \<noteq> REQUEST_BIND" using bind_type assms(4) by blast
  have size: "ALIGN (mr_element_size ?r * mr_num_elements ?r + mr_padding ?r) (mr_alignment ?r) = request_size ?r"
    by (simp add: request_size_def mult.commute)
  show thesis
  proof (cases "mr_ptr_out ?r = 0")
    case True
    then show thesis using re ty assms(4,5) size
      by (intro that [OF ps assms(2)]) (simp add: setup_request_def Let_def)
  next
    case False
    obtain heap' where h: "fold (\<lambda>(r, b). set_binded r b) ps (su_heap st, (su_vars st)(mr_ptr_out ?r := base + su_offset st)) =
        (heap', fold (set_pointer heap) ps ((su_vars st)(mr_ptr_out ?r := base + su_offset st)))" "rebound heap heap'"
      using fold_set_binded [OF trace_chain [OF ps] _ assms(2)] assms(3) by blast
    show thesis
      using re ty assms(4,5) size False h(1) rebound_trace [OF assms(2,3)] ps
      by (intro that [OF ps h(2)]) (simp add: setup_request_def Let_def iterate_trace mult.commute)
  qed
qed

lemma setup_bind:
  assumes "wired heap rank root disp" "rebound heap (su_heap st)" "i < length heap" "is_bind (heap ! i)"
    "mr_type (heap ! i) \<noteq> REQUEST_BIND" "\<not> skip (su_heap st ! i)"
  obtains ps st' where "trace (bind_fuel heap) heap i = Inr ps" "rebound heap (su_heap st')"
    "setup_request base bytes skip i st = Inr st'" "su_vars st' = fold (set_pointer heap) ps (su_vars st)"
    "su_offset st' = su_offset st"
proof -
  obtain ps where ps: "trace (bind_fuel heap) heap i = Inr ps" using trace_ends [OF assms(1)] by blast
  note f = rebound_fields [OF assms(2,3)]
  have out: "mr_ptr_out (heap ! i) \<noteq> 0" using assms(1,3,4) by (auto simp: wired_nth)
  obtain heap' where h: "fold (\<lambda>(r, b). set_binded r b) ps (su_heap st, su_vars st) =
      (heap', fold (set_pointer heap) ps (su_vars st))" "rebound heap heap'"
    using fold_set_binded [OF trace_chain [OF ps] _ assms(2)] assms(3) by blast
  let ?re = "su_heap st ! i"
  have "setup_request base bytes skip i st =
      Inr (st\<lparr>su_heap := heap', su_vars := fold (set_pointer heap) ps (su_vars st),
        su_mem := store_content ?re (su_vars st (mr_ptr_out ?re)) (mr_element_size ?re * mr_num_elements ?re)
          (mr_element_size ?re * mr_num_elements ?re) (su_mem st)\<rparr>)"
    using assms(4-6) f out h(1) rebound_trace [OF assms(2,3)] ps
    by (simp add: setup_request_def Let_def iterate_trace)
  then show thesis using that [OF ps] h(2) by force
qed

lemma setup_skip:
  "mr_type (su_heap st ! i) = REQUEST_BIND \<or> skip (su_heap st ! i) \<Longrightarrow> setup_request base bytes skip i st = Inr st"
  by (auto simp: setup_request_def Let_def)

text \<open>The place of the block of a request: after the blocks of its section that are queued before it.\<close>

definition place :: "MemRequest list \<Rightarrow> (MemRequest \<Rightarrow> bool) \<Rightarrow> nat \<Rightarrow> nat \<Rightarrow> nat" where
  "place heap skip start k = start + (\<Sum>r \<leftarrow> filter (\<lambda>r. \<not> is_bind r \<and> \<not> skip r) (take k heap). request_size r)"

lemma place_Suc: "k < length heap \<Longrightarrow> place heap skip start (Suc k) =
    place heap skip start k + (if \<not> is_bind (heap ! k) \<and> \<not> skip (heap ! k) then request_size (heap ! k) else 0)"
  by (simp add: place_def take_Suc_conv_app_nth)

definition placed :: "MemRequest list \<Rightarrow> (MemRequest \<Rightarrow> bool) \<Rightarrow> nat set" where
  "placed heap skip = {j \<in> blocks heap. \<not> skip (heap ! j)}"

lemma setup_pass:
  assumes w: "wired heap rank root disp" and d: "distinct_blocks heap" and h: "rebound heap (su_heap st)"
    and J: "J \<subseteq> blocks heap" "J \<inter> placed heap skip = {}" and s: "settled heap disp addr J (su_vars st)"
    and addr: "\<And>j. j \<in> placed heap skip \<Longrightarrow> addr j = base + place heap skip start j"
    and P: "P J (su_mem st)" "(\<forall>b < length heap. is_bind (heap ! b) \<longrightarrow> mr_type (heap ! b) = REQUEST_BIND) \<or> P = (\<lambda>_ _. True)"
    and step: "\<And>k K m. k \<in> placed heap skip \<Longrightarrow> K = J \<union> {j \<in> placed heap skip. j < k} \<Longrightarrow> P K m \<Longrightarrow>
      P (insert k K) (store_content (heap ! k) (addr k) (base + bytes - addr k) (data_size (heap ! k)) m)"
  shows "\<exists>st'. setupOffsets base bytes skip start st = Inr st' \<and> rebound heap (su_heap st') \<and>
    settled heap disp addr (J \<union> placed heap skip) (su_vars st') \<and> P (J \<union> placed heap skip) (su_mem st')"
proof -
  let ?J = "\<lambda>k. J \<union> {j \<in> placed heap skip. j < k}"
  let ?st = "st\<lparr>su_offset := start\<rparr>"
  have "\<exists>st'. foldE (setup_request base bytes skip) [0..<k] ?st = Inr st' \<and> rebound heap (su_heap st') \<and>
      su_offset st' = place heap skip start k \<and> settled heap disp addr (?J k) (su_vars st') \<and> P (?J k) (su_mem st')"
    if "k \<le> length heap" for k
    using that
  proof (induction k)
    case 0
    then show ?case using h s P(1) by (simp add: place_def)
  next
    case (Suc k)
    then obtain st1 where st1: "foldE (setup_request base bytes skip) [0..<k] ?st = Inr st1" "rebound heap (su_heap st1)"
      "su_offset st1 = place heap skip start k" "settled heap disp addr (?J k) (su_vars st1)" "P (?J k) (su_mem st1)" by auto
    have k: "k < length heap" using Suc.prems by simp
    note f = rebound_fields [OF st1(2) k]
    have sub: "?J k \<subseteq> blocks heap" using J by (auto simp: placed_def)
    have same: "?J (Suc k) = (if k \<in> placed heap skip then insert k (?J k) else ?J k)" by (auto simp: less_Suc_eq)
    show ?case
    proof (cases "is_bind (heap ! k)")
      case bind: True
      then have np: "k \<notin> placed heap skip" by (simp add: placed_def blocks_def)
      show ?thesis
      proof (cases "mr_type (heap ! k) = REQUEST_BIND \<or> skip (su_heap st1 ! k)")
        case True
        then have "setup_request base bytes skip k st1 = Inr st1" using f(1) by (intro setup_skip) simp
        then show ?thesis using st1 np bind k by (simp add: same place_Suc)
      next
        case False
        then obtain ps st2 where step: "trace (bind_fuel heap) heap k = Inr ps" "rebound heap (su_heap st2)"
          "setup_request base bytes skip k st1 = Inr st2" "su_vars st2 = fold (set_pointer heap) ps (su_vars st1)"
          "su_offset st2 = su_offset st1"
          using setup_bind [where skip = skip and base = base and bytes = bytes, OF w st1(2) k bind] by blast
        have "settled heap disp addr (?J k) (fold (set_pointer heap) ps (su_vars st1))"
          using settle_bind [OF w d sub k bind st1(4) step(1)] .
        moreover have "P (?J k) (su_mem st2)" using P(2) False k bind by auto
        ultimately show ?thesis using st1 step np bind k by (simp add: same place_Suc)
      qed
    next
      case nb: False
      have re: "su_heap st1 ! k = heap ! k" using f(7) nb by simp
      show ?thesis
      proof (cases "skip (heap ! k)")
        case True
        then have "setup_request base bytes skip k st1 = Inr st1" using re by (intro setup_skip) simp
        moreover have "k \<notin> placed heap skip" using True by (simp add: placed_def)
        ultimately show ?thesis using st1 True k by (simp add: same place_Suc)
      next
        case False
        obtain ps heap' where step: "trace (bind_fuel heap) heap k = Inr ps" "rebound heap heap'"
          "setup_request base bytes skip k st1 = Inr
            \<lparr>su_heap = heap',
             su_vars = (if mr_ptr_out (heap ! k) = 0 then su_vars st1
               else fold (set_pointer heap) ps ((su_vars st1)(mr_ptr_out (heap ! k) := base + su_offset st1))),
             su_mem = (if mr_ptr_out (heap ! k) = 0 then su_mem st1
               else store_content (heap ! k) (base + su_offset st1) (bytes - su_offset st1) (data_size (heap ! k)) (su_mem st1)),
             su_offset = su_offset st1 + request_size (heap ! k)\<rparr>"
          using setup_block [where skip = skip and base = base and bytes = bytes, OF w st1(2) k nb False] by metis
        show ?thesis
        proof (cases "mr_ptr_out (heap ! k) = 0")
          case True
          then have "k \<notin> placed heap skip" by (simp add: placed_def blocks_def)
          then show ?thesis using st1 step True nb False k by (simp add: same place_Suc)
        next
          case nz: False
          then have kp: "k \<in> placed heap skip" "k \<in> blocks heap" using nb False k by (simp_all add: placed_def blocks_def)
          have "k \<notin> ?J k" using J kp by auto
          moreover have "base + su_offset st1 = addr k" using addr [OF kp(1)] st1(3) by simp
          ultimately have "settled heap disp addr (insert k (?J k))
              (fold (set_pointer heap) ps ((su_vars st1)(mr_ptr_out (heap ! k) := base + su_offset st1)))"
            using settle_block [OF w d sub kp(2) _ st1(4) step(1)] by simp
          moreover have "addr k = base + su_offset st1" using addr [OF kp(1)] st1(3) by simp
          then have "P (insert k (?J k)) (store_content (heap ! k) (base + su_offset st1) (bytes - su_offset st1) (data_size (heap ! k)) (su_mem st1))"
            using assms(10) [OF kp(1) refl st1(5)] by simp
          ultimately show ?thesis using st1 step nz nb False k kp by (simp add: same place_Suc)
        qed
      qed
    qed
  qed
  from this [of "length heap"] obtain st' where "foldE (setup_request base bytes skip) [0..<length heap] ?st = Inr st'"
    "rebound heap (su_heap st')" "settled heap disp addr (?J (length heap)) (su_vars st')"
    "P (?J (length heap)) (su_mem st')" by auto
  moreover have "?J (length heap) = J \<union> placed heap skip" by (auto simp: placed_def blocks_def)
  moreover have "length (su_heap st) = length heap" using h by (simp add: rebound_def)
  ultimately show ?thesis by (auto simp: setupOffsets_def)
qed

section \<open>Sections\<close>

abbreviation skip_rw :: "MemRequest \<Rightarrow> bool" where
  "skip_rw \<equiv> \<lambda>re. \<not> is_bind re \<and> mr_region re \<noteq> REGION_RW"

abbreviation skip_ro :: "MemRequest \<Rightarrow> bool" where
  "skip_ro \<equiv> \<lambda>re. is_bind re \<or> mr_region re \<noteq> REGION_RO"

lemma section_sizes:
  "fold add_section heap (rw0, ro0) =
     (rw0 + (\<Sum>r \<leftarrow> filter (\<lambda>r. mr_type r \<noteq> REQUEST_BIND \<and> mr_region r = REGION_RW) heap. request_size r),
      ro0 + (\<Sum>r \<leftarrow> filter (\<lambda>r. mr_type r \<noteq> REQUEST_BIND \<and> mr_region r \<noteq> REGION_RW) heap. request_size r))"
  by (induction heap arbitrary: rw0 ro0) (auto simp: add_section_def Let_def)

lemma sum_filter_mono: "(\<And>x. P x \<Longrightarrow> Q x) \<Longrightarrow> (\<Sum>x \<leftarrow> filter P xs. f x :: nat) \<le> (\<Sum>x \<leftarrow> filter Q xs. f x)"
  by (induction xs) (auto intro: trans_le_add2 add_le_mono)

lemma place_mono: "i \<le> j \<Longrightarrow> place heap skip start i \<le> place heap skip start j"
proof -
  assume "i \<le> j"
  then have "take j heap = take i heap @ take (j - i) (drop i heap)" by (metis le_add_diff_inverse take_add)
  then show ?thesis by (simp add: place_def)
qed

lemma place_next: "i \<in> placed heap skip \<Longrightarrow> i < j \<Longrightarrow>
  place heap skip start i + request_size (heap ! i) \<le> place heap skip start j"
  using place_Suc [of i heap skip start] place_mono [of "Suc i" j heap skip start]
  by (simp add: placed_def blocks_def)

lemma place_rw: "place heap skip_rw 0 k \<le> fst (fold add_section heap (0, 0))"
proof -
  have "place heap skip_rw 0 k \<le> place heap skip_rw 0 (max k (length heap))" by (rule place_mono) simp
  also have "\<dots> \<le> fst (fold add_section heap (0, 0))"
    unfolding section_sizes place_def using bind_type by (auto intro!: sum_filter_mono)
  finally show ?thesis .
qed

lemma place_ro: "place heap skip_ro start k \<le> start + snd (fold add_section heap (0, 0))"
proof -
  have "place heap skip_ro start k \<le> place heap skip_ro start (max k (length heap))" by (rule place_mono) simp
  also have "\<dots> \<le> start + snd (fold add_section heap (0, 0))"
    unfolding section_sizes place_def using bind_type by (auto intro!: sum_filter_mono)
  finally show ?thesis .
qed

text \<open>The address of every block, and both passes together.\<close>

definition address_of :: "nat \<Rightarrow> MemRequest list \<Rightarrow> nat \<Rightarrow> nat \<Rightarrow> nat" where
  "address_of base heap rw i = base +
     (if mr_region (heap ! i) = REGION_RW then place heap skip_rw 0 i else place heap skip_ro rw i)"

lemma section_blocks:
  "placed heap skip_rw = {i \<in> blocks heap. mr_region (heap ! i) = REGION_RW}"
  "placed heap skip_ro = {i \<in> blocks heap. mr_region (heap ! i) = REGION_RO}"
  "placed heap skip_rw \<union> placed heap skip_ro = {i \<in> blocks heap. mr_region (heap ! i) \<noteq> REGION_AUTO}"
proof -
  show rw: "placed heap skip_rw = {i \<in> blocks heap. mr_region (heap ! i) = REGION_RW}"
    by (auto simp: placed_def blocks_def)
  show ro: "placed heap skip_ro = {i \<in> blocks heap. mr_region (heap ! i) = REGION_RO}"
    by (auto simp: placed_def blocks_def)
  show "placed heap skip_rw \<union> placed heap skip_ro = {i \<in> blocks heap. mr_region (heap ! i) \<noteq> REGION_AUTO}"
  proof (rule set_eqI)
    fix i show "i \<in> placed heap skip_rw \<union> placed heap skip_ro \<longleftrightarrow> i \<in> {i \<in> blocks heap. mr_region (heap ! i) \<noteq> REGION_AUTO}"
      unfolding rw ro by (cases "mr_region (heap ! i)") auto
  qed
qed

lemma both_passes:
  assumes w: "wired heap rank root disp" and d: "distinct_blocks heap" and h: "su_heap st = heap"
    and P: "P {} (su_mem st)" "(\<forall>b < length heap. is_bind (heap ! b) \<longrightarrow> mr_type (heap ! b) = REQUEST_BIND) \<or> P = (\<lambda>_ _. True)"
    and step: "\<And>k K m. k \<in> blocks heap \<Longrightarrow> mr_region (heap ! k) \<noteq> REGION_AUTO \<Longrightarrow>
      K \<subseteq> {j \<in> blocks heap. mr_region (heap ! j) \<noteq> REGION_AUTO} - {k} \<Longrightarrow> P K m \<Longrightarrow>
      P (insert k K) (store_content (heap ! k) (address_of base heap rw k) (base + bytes - address_of base heap rw k)
        (data_size (heap ! k)) m)"
  shows "\<exists>st1 st2. setupOffsets base bytes skip_rw 0 st = Inr st1 \<and> setupOffsets base bytes skip_ro rw st1 = Inr st2 \<and>
    settled heap disp (address_of base heap rw) {i \<in> blocks heap. mr_region (heap ! i) \<noteq> REGION_AUTO} (su_vars st2) \<and>
    P {i \<in> blocks heap. mr_region (heap ! i) \<noteq> REGION_AUTO} (su_mem st2)"
proof -
  let ?addr = "address_of base heap rw"
  note sec = section_blocks [of heap]
  have r0: "rebound heap (su_heap st)" unfolding h by (rule rebound_refl)
  have disj: "placed heap skip_rw \<inter> placed heap skip_ro = {}" unfolding sec by auto
  have "\<exists>st1. setupOffsets base bytes skip_rw 0 st = Inr st1 \<and> rebound heap (su_heap st1) \<and>
      settled heap disp ?addr ({} \<union> placed heap skip_rw) (su_vars st1) \<and> P ({} \<union> placed heap skip_rw) (su_mem st1)"
  proof (rule setup_pass [OF w d r0 _ _ _ _ P])
    fix k K m assume k: "k \<in> placed heap skip_rw" "K = {} \<union> {j \<in> placed heap skip_rw. j < k}" "P K m"
    have "k \<in> blocks heap" "mr_region (heap ! k) \<noteq> REGION_AUTO" "K \<subseteq> {j \<in> blocks heap. mr_region (heap ! j) \<noteq> REGION_AUTO} - {k}"
      using k(1,2) unfolding sec by auto
    from step [OF this k(3)] show "P (insert k K) (store_content (heap ! k) (?addr k) (base + bytes - ?addr k) (data_size (heap ! k)) m)" .
  qed (auto simp: settled_def sec(1) address_of_def)
  then obtain st1 where st1: "setupOffsets base bytes skip_rw 0 st = Inr st1" "rebound heap (su_heap st1)"
    "settled heap disp ?addr (placed heap skip_rw) (su_vars st1)" "P (placed heap skip_rw) (su_mem st1)" by auto
  have "\<exists>st2. setupOffsets base bytes skip_ro rw st1 = Inr st2 \<and> rebound heap (su_heap st2) \<and>
      settled heap disp ?addr (placed heap skip_rw \<union> placed heap skip_ro) (su_vars st2) \<and>
      P (placed heap skip_rw \<union> placed heap skip_ro) (su_mem st2)"
  proof (rule setup_pass [OF w d st1(2) _ disj st1(3) _ st1(4) P(2)])
    fix k K m assume k: "k \<in> placed heap skip_ro" "K = placed heap skip_rw \<union> {j \<in> placed heap skip_ro. j < k}" "P K m"
    have "k \<in> blocks heap" "mr_region (heap ! k) \<noteq> REGION_AUTO" "K \<subseteq> {j \<in> blocks heap. mr_region (heap ! j) \<noteq> REGION_AUTO} - {k}"
      using k(1,2) unfolding sec by auto
    from step [OF this k(3)] show "P (insert k K) (store_content (heap ! k) (?addr k) (base + bytes - ?addr k) (data_size (heap ! k)) m)" .
  qed (auto simp: sec address_of_def)
  then show ?thesis using st1(1) unfolding sec(3) by blast
qed

section \<open>The layout of a commit\<close>

lemma padded_blocks: "blocks (padded heap pad) = blocks heap"
  by (auto simp: blocks_def is_bind_def)

lemma padded_distinct: "distinct_blocks heap \<Longrightarrow> distinct_blocks (padded heap pad)"
  unfolding distinct_blocks_def padded_blocks by (auto simp: inj_on_def blocks_def)

lemma roomy_size:
  assumes "roomy heap disp a (pad a)" "a < length heap"
  shows "request_size (padded heap pad ! a) = block (heap ! a) (pad a)"
  using pad_ok_ALIGN(1) assms by (simp add: roomy_def request_size_def block_def)

lemma address_layout:
  assumes "fst (fold add_section heap (0, 0)) \<le> rw" "snd (fold add_section heap (0, 0)) \<le> ro"
    "i \<in> blocks heap" "mr_region (heap ! i) \<noteq> REGION_AUTO"
  shows "if mr_region (heap ! i) = REGION_RW then address_of base heap rw i + request_size (heap ! i) \<le> base + rw
      else base + rw \<le> address_of base heap rw i \<and> address_of base heap rw i + request_size (heap ! i) \<le> base + rw + ro"
    and "\<And>j. j \<in> blocks heap \<Longrightarrow> mr_region (heap ! j) = mr_region (heap ! i) \<Longrightarrow> i < j \<Longrightarrow>
      address_of base heap rw i + request_size (heap ! i) \<le> address_of base heap rw j"
proof -
  have i: "if mr_region (heap ! i) = REGION_RW then i \<in> placed heap skip_rw else i \<in> placed heap skip_ro"
    unfolding section_blocks using assms(3,4) by (cases "mr_region (heap ! i)") auto
  show "if mr_region (heap ! i) = REGION_RW then address_of base heap rw i + request_size (heap ! i) \<le> base + rw
      else base + rw \<le> address_of base heap rw i \<and> address_of base heap rw i + request_size (heap ! i) \<le> base + rw + ro"
  proof (cases "mr_region (heap ! i) = REGION_RW")
    case True
    with i have "i \<in> placed heap skip_rw" by simp
    from place_next [OF this lessI, of 0] place_rw [of heap "Suc i"] show ?thesis
      using True assms(1) by (simp add: address_of_def)
  next
    case False
    with i have "i \<in> placed heap skip_ro" by simp
    from place_next [OF this lessI, of rw] place_ro [of heap rw "Suc i"]
    have "place heap skip_ro rw i + request_size (heap ! i) \<le> rw + ro" using assms(2) by linarith
    moreover have "rw \<le> place heap skip_ro rw i" by (simp add: place_def)
    ultimately show ?thesis using False by (simp add: address_of_def)
  qed
  show "address_of base heap rw i + request_size (heap ! i) \<le> address_of base heap rw j"
    if j: "j \<in> blocks heap" "mr_region (heap ! j) = mr_region (heap ! i)" "i < j" for j
    using i j place_next [where i = i and j = j and heap = heap] by (auto simp: address_of_def split: if_splits)
qed

lemma bound_visited:
  assumes "wired heap rank root disp" "a < length heap" "b < length heap" "is_bind (heap ! b)"
    "reach heap (mr_ptr_out (heap ! a)) (mr_ptr_in (heap ! b))"
  obtains r ps where "trace (bind_fuel heap) heap a = Inr ps" "(r, b) \<in> set ps"
proof -
  obtain ps where ps: "trace (bind_fuel heap) heap a = Inr ps" using trace_ends [OF assms(1)] by blast
  then show thesis using trace_closed [OF ps assms(3,4) reach_outs [OF assms(5) ps]] that by blast
qed

text \<open>What the properties of \<open>commit\<close> have in common: the padded blocks, and what the passes leave.\<close>

lemma padded_fits:
  assumes "\<And>a. a < length heap \<Longrightarrow> \<not> is_bind (heap ! a) \<Longrightarrow> roomy heap disp a (pad a)" "i \<in> blocks heap"
  shows "data_size (heap ! i) \<le> request_size (padded heap pad ! i)"
proof -
  have i: "i < length heap" "\<not> is_bind (heap ! i)" using assms(2) by (auto simp: blocks_def)
  show ?thesis
    using assms(1) [OF i] round_up_ge [of "mr_alignment (heap ! i)" "data_size (heap ! i) + pad i"]
    unfolding roomy_size [where heap = heap and pad = pad and a = i, OF assms(1) [OF i] i(1)]
    by (simp add: block_def roomy_def pad_ok_def)
qed

lemma bound_fits:
  assumes "wired heap rank root disp"
    and "\<And>a. a < length heap \<Longrightarrow> \<not> is_bind (heap ! a) \<Longrightarrow> roomy heap disp a (pad a)" "i \<in> blocks heap"
    and b: "b < length heap" "is_bind (heap ! b)" "reach heap (mr_ptr_out (heap ! i)) (mr_ptr_in (heap ! b))"
  shows "disp (mr_ptr_out (heap ! b)) + ALIGN (data_size (heap ! b)) (mr_alignment (heap ! b)) \<le> request_size (padded heap pad ! i)"
proof -
  have i: "i < length heap" "\<not> is_bind (heap ! i)" using assms(3) by (auto simp: blocks_def)
  obtain r ps where "trace (bind_fuel heap) heap i = Inr ps" "(r, b) \<in> set ps"
    using bound_visited [OF assms(1) i(1) b] .
  then show ?thesis
    using assms(2) [OF i] unfolding roomy_size [where heap = heap and pad = pad and a = i, OF assms(2) [OF i] i(1)]
    by (auto simp: roomy_def)
qed

lemma settled_padded:
  assumes "settled (padded heap pad) disp addr {i \<in> blocks (padded heap pad). mr_region (padded heap pad ! i) \<noteq> REGION_AUTO} vars"
    and i: "i \<in> blocks heap" "mr_region (heap ! i) \<noteq> REGION_AUTO" and q: "reach heap (mr_ptr_out (heap ! i)) q"
  shows "vars q = addr i + disp q"
proof -
  have f: "i \<in> blocks (padded heap pad)" "mr_region (padded heap pad ! i) = mr_region (heap ! i)"
    "mr_ptr_out (padded heap pad ! i) = mr_ptr_out (heap ! i)"
    using i by (simp_all add: padded_blocks) (simp_all add: blocks_def)
  have "reach (padded heap pad) (mr_ptr_out (padded heap pad ! i)) q"
    unfolding f(3) using q like_reach_iff [OF padded_like] by simp
  then show ?thesis using assms(1) f(1,2) i(2) unfolding settled_def by simp
qed

lemma commit_result:
  fixes g rank root disp
  defines "heap \<equiv> gm_future_heap g"
  defines "rws rw \<equiv> ALIGN rw (gm_page_alignment g)"
  assumes "wired heap rank root disp" "distinct_blocks heap" "\<forall>a < length heap. small_at heap a"
    and "expand_all heap = Inr heap'" "fold add_section heap' (0, 0) = (rw, ro)"
    and "0 < gm_page_alignment g" "rw + gm_page_alignment g \<le> 2 ^ 31" "ro + gm_page_alignment g \<le> 2 ^ 31"
  obtains pad where "heap' = padded heap pad" "wired heap' rank root disp" "distinct_blocks heap'"
    "\<And>a. a < length heap \<Longrightarrow> \<not> is_bind (heap ! a) \<Longrightarrow> roomy heap disp a (pad a)"
    "fst (fold add_section heap' (0, 0)) \<le> rws rw" "snd (fold add_section heap' (0, 0)) \<le> rws ro"
    "\<And>st1 st2. setupOffsets base (rws rw + rws ro) skip_rw 0
        \<lparr>su_heap = heap', su_vars = vars, su_mem = zero_bytes base (rws rw + rws ro) mem, su_offset = 0\<rparr> = Inr st1 \<Longrightarrow>
      setupOffsets base (rws rw + rws ro) skip_ro (rws rw) st1 = Inr st2 \<Longrightarrow>
      \<exists>g'. commit base g vars mem = Inr (g', su_vars st2, su_mem st2) \<and> gm_rw_section_size g' = rws rw \<and> gm_total g' = rws rw + rws ro"
proof -
  obtain pad where pad: "heap' = padded heap pad"
    and room: "\<And>a. a < length heap \<Longrightarrow> \<not> is_bind (heap ! a) \<Longrightarrow> roomy heap disp a (pad a)"
    using expand_all_room [OF assms(3,5)] assms(6) by (metis Inr_inject)
  show thesis
  proof (rule that [OF pad])
    show "wired heap' rank root disp" unfolding pad using padded_like assms(3) by (rule like_wired)
    show "distinct_blocks heap'" unfolding pad using assms(4) by (rule padded_distinct)
    show "roomy heap disp a (pad a)" if "a < length heap" "\<not> is_bind (heap ! a)" for a using that by (rule room)
    show "fst (fold add_section heap' (0, 0)) \<le> rws rw" "snd (fold add_section heap' (0, 0)) \<le> rws ro"
      using assms(7) ALIGN_round_up [OF assms(8)] round_up_ge [OF assms(8)] assms(9,10) by (simp_all add: rws_def)
    show "\<exists>g'. commit base g vars mem = Inr (g', su_vars st2, su_mem st2) \<and> gm_rw_section_size g' = rws rw \<and> gm_total g' = rws rw + rws ro"
      if "setupOffsets base (rws rw + rws ro) skip_rw 0
        \<lparr>su_heap = heap', su_vars = vars, su_mem = zero_bytes base (rws rw + rws ro) mem, su_offset = 0\<rparr> = Inr st1"
        "setupOffsets base (rws rw + rws ro) skip_ro (rws rw) st1 = Inr st2" for st1 st2
      using assms(6,7) that by (simp add: commit_def updateSectionsSizes_def Let_def rws_def heap_def)
  qed
qed

text \<open>
  C23. A commit lays the requests out: the blocks of the read-write section come first and those of the
  read-only section after them, no two blocks overlap, and a pointer bound to a block, directly or
  through other pointers, gets its offset inside it, with room for all the bytes the binding asked
  for. (The bindings must be consistent and not circular, and the sizes below the range of \<open>int\<close>.)
\<close>

theorem commit_layout:
  fixes g rank root disp
  defines "heap \<equiv> gm_future_heap g"
  assumes "wired heap rank root disp" "distinct_blocks heap" "\<forall>a < length heap. small_at heap a"
    and "expand_all heap = Inr heap'" "fold add_section heap' (0, 0) = (rw, ro)"
    and "0 < gm_page_alignment g" "rw + gm_page_alignment g \<le> 2 ^ 31" "ro + gm_page_alignment g \<le> 2 ^ 31"
  shows "\<exists>g' vars' mem' at. commit base g vars mem = Inr (g', vars', mem') \<and>
    (\<forall>i \<in> blocks heap. mr_region (heap ! i) \<noteq> REGION_AUTO \<longrightarrow>
       vars' (mr_ptr_out (heap ! i)) = base + at i \<and> data_size (heap ! i) \<le> request_size (heap' ! i) \<and>
       (if mr_region (heap ! i) = REGION_RW then at i + request_size (heap' ! i) \<le> gm_rw_section_size g'
        else gm_rw_section_size g' \<le> at i \<and> at i + request_size (heap' ! i) \<le> gm_total g') \<and>
       (\<forall>j \<in> blocks heap. mr_region (heap ! j) = mr_region (heap ! i) \<longrightarrow> i < j \<longrightarrow> at i + request_size (heap' ! i) \<le> at j) \<and>
       (\<forall>b < length heap. is_bind (heap ! b) \<longrightarrow> reach heap (mr_ptr_out (heap ! i)) (mr_ptr_in (heap ! b)) \<longrightarrow>
          vars' (mr_ptr_out (heap ! b)) = base + at i + disp (mr_ptr_out (heap ! b)) \<and>
          disp (mr_ptr_out (heap ! b)) + ALIGN (data_size (heap ! b)) (mr_alignment (heap ! b)) \<le> request_size (heap' ! i)))"
proof -
  define rws where "rws = ALIGN rw (gm_page_alignment g)"
  define ros where "ros = ALIGN ro (gm_page_alignment g)"
  obtain pad where pad: "heap' = padded heap pad" and w: "wired heap' rank root disp" and d: "distinct_blocks heap'"
    and room: "\<And>a. a < length heap \<Longrightarrow> \<not> is_bind (heap ! a) \<Longrightarrow> roomy heap disp a (pad a)"
    and sums: "fst (fold add_section heap' (0, 0)) \<le> rws" "snd (fold add_section heap' (0, 0)) \<le> ros"
    and result: "\<And>st1 st2. setupOffsets base (rws + ros) skip_rw 0
        \<lparr>su_heap = heap', su_vars = vars, su_mem = zero_bytes base (rws + ros) mem, su_offset = 0\<rparr> = Inr st1 \<Longrightarrow>
      setupOffsets base (rws + ros) skip_ro rws st1 = Inr st2 \<Longrightarrow>
      \<exists>g'. commit base g vars mem = Inr (g', su_vars st2, su_mem st2) \<and> gm_rw_section_size g' = rws \<and> gm_total g' = rws + ros"
    using commit_result [OF assms(2-9) [unfolded heap_def], where base = base and vars = vars and mem = mem, folded heap_def rws_def ros_def] by blast
  let ?st = "\<lparr>su_heap = heap', su_vars = vars, su_mem = zero_bytes base (rws + ros) mem, su_offset = 0\<rparr>"
  let ?addr = "address_of base heap' rws"
  obtain st1 st2 where st: "setupOffsets base (rws + ros) skip_rw 0 ?st = Inr st1" "setupOffsets base (rws + ros) skip_ro rws st1 = Inr st2"
    and s: "settled heap' disp ?addr {i \<in> blocks heap'. mr_region (heap' ! i) \<noteq> REGION_AUTO} (su_vars st2)"
    using both_passes [where P = "\<lambda>_ _. True" and base = base and bytes = "rws + ros" and rw = rws, OF w d, of ?st] by auto
  define at where "at i = ?addr i - base" for i
  have at: "?addr i = base + at i" for i by (simp add: at_def address_of_def)
  have all: "su_vars st2 (mr_ptr_out (heap ! i)) = base + at i \<and> data_size (heap ! i) \<le> request_size (heap' ! i) \<and>
       (if mr_region (heap ! i) = REGION_RW then at i + request_size (heap' ! i) \<le> rws
        else rws \<le> at i \<and> at i + request_size (heap' ! i) \<le> rws + ros) \<and>
       (\<forall>j \<in> blocks heap. mr_region (heap ! j) = mr_region (heap ! i) \<longrightarrow> i < j \<longrightarrow> at i + request_size (heap' ! i) \<le> at j) \<and>
       (\<forall>b < length heap. is_bind (heap ! b) \<longrightarrow> reach heap (mr_ptr_out (heap ! i)) (mr_ptr_in (heap ! b)) \<longrightarrow>
          su_vars st2 (mr_ptr_out (heap ! b)) = base + at i + disp (mr_ptr_out (heap ! b)) \<and>
          disp (mr_ptr_out (heap ! b)) + ALIGN (data_size (heap ! b)) (mr_alignment (heap ! b)) \<le> request_size (heap' ! i))"
    if i: "i \<in> blocks heap" "mr_region (heap ! i) \<noteq> REGION_AUTO" for i
  proof (intro conjI)
    note val = settled_padded [OF s [unfolded pad] i, folded pad, unfolded at]
    have same: "j \<in> blocks heap' \<and> mr_region (heap' ! j) = mr_region (heap ! j)" if "j \<in> blocks heap" for j
      using that by (simp add: pad padded_blocks) (simp add: blocks_def)
    show "su_vars st2 (mr_ptr_out (heap ! i)) = base + at i"
      using val [OF reach.here] block_root [OF assms(2) i(1)] by simp
    show "data_size (heap ! i) \<le> request_size (heap' ! i)" unfolding pad using room i(1) by (rule padded_fits)
    note lay = address_layout [where base = base and i = i, OF sums]
    show "if mr_region (heap ! i) = REGION_RW then at i + request_size (heap' ! i) \<le> rws
        else rws \<le> at i \<and> at i + request_size (heap' ! i) \<le> rws + ros"
      using lay(1) same [OF i(1)] i(2) unfolding at by (auto split: if_splits)
    show "\<forall>j \<in> blocks heap. mr_region (heap ! j) = mr_region (heap ! i) \<longrightarrow> i < j \<longrightarrow> at i + request_size (heap' ! i) \<le> at j"
      using lay(2) same i unfolding at by simp
    show "\<forall>b < length heap. is_bind (heap ! b) \<longrightarrow> reach heap (mr_ptr_out (heap ! i)) (mr_ptr_in (heap ! b)) \<longrightarrow>
          su_vars st2 (mr_ptr_out (heap ! b)) = base + at i + disp (mr_ptr_out (heap ! b)) \<and>
          disp (mr_ptr_out (heap ! b)) + ALIGN (data_size (heap ! b)) (mr_alignment (heap ! b)) \<le> request_size (heap' ! i)"
      using val [OF reach.bound] bound_fits [OF assms(2) room i(1)] by (simp add: pad)
  qed
  obtain g' where g': "commit base g vars mem = Inr (g', su_vars st2, su_mem st2)" "gm_rw_section_size g' = rws" "gm_total g' = rws + ros"
    using result [OF st] by blast
  show ?thesis
    by (intro exI [of _ g'] exI [of _ "su_vars st2"] exI [of _ "su_mem st2"] exI [where x = at])
      (use all g' in \<open>simp only: simp_thms, simp\<close>)
qed

section \<open>The bytes of a commit\<close>

text \<open>What a block holds after the commit: the stored bytes, zeros where nothing is stored.\<close>

definition stored :: "MemRequest \<Rightarrow> Memory \<Rightarrow> nat \<Rightarrow> byte" where
  "stored r mem k =
     (if mr_type r = REQUEST_STORE then
        if mr_ptr_in r \<noteq> 0 then mem (mr_ptr_in r + k) else mr_data r ! (k mod mr_element_size r)
      else 0)"

text \<open>What \<open>commit\<close> relies on: sources outside the allocation, values of their size, initialisers that stay
  inside what they are given; no initialiser of a bound pointer.\<close>

definition contents_ok :: "nat \<Rightarrow> nat \<Rightarrow> MemRequest \<Rightarrow> bool" where
  "contents_ok base bytes r \<longleftrightarrow>
     (if is_bind r then mr_type r = REQUEST_BIND
      else mr_type r = REQUEST_ALLOCATE \<or>
        mr_type r = REQUEST_STORE \<and>
          (if mr_ptr_in r = 0 then length (mr_data r) = mr_element_size r
           else mr_ptr_in r + data_size r \<le> base \<or> base + bytes \<le> mr_ptr_in r) \<or>
        mr_type r = REQUEST_INITIALIZER \<and>
          (\<forall>d n m a. a < d \<or> d + n \<le> a \<longrightarrow> mr_initializer r d n m a = m a))"

lemma fill_bytes:
  assumes "length data = e"
  shows "fold (\<lambda>i. write_bytes (c + i * e) data) [0..<n] m a =
    (if c \<le> a \<and> a < c + n * e then data ! ((a - c) mod e) else m a)"
proof (induction n)
  case (Suc n)
  show ?case
  proof (cases "c + n * e \<le> a \<and> a < c + Suc n * e")
    case True
    then have "a - c = (a - (c + n * e)) + n * e" "a - (c + n * e) < e" by auto
    then have "(a - c) mod e = a - (c + n * e)" by simp
    then show ?thesis using True assms by (simp add: write_bytes_def)
  next
    case False
    then show ?thesis using Suc assms by (auto simp: write_bytes_def)
  qed
qed auto

lemma request_types:
  "REQUEST_STORE AND NOT REQUEST_BIND = REQUEST_STORE" "REQUEST_ALLOCATE AND NOT REQUEST_BIND = REQUEST_ALLOCATE"
  "REQUEST_INITIALIZER AND NOT REQUEST_BIND = REQUEST_INITIALIZER" "REQUEST_STORE \<noteq> REQUEST_INITIALIZER"
  "REQUEST_ALLOCATE \<noteq> REQUEST_STORE" "REQUEST_ALLOCATE \<noteq> REQUEST_INITIALIZER" "REQUEST_INITIALIZER \<noteq> REQUEST_STORE"
  "REQUEST_STORE \<noteq> REQUEST_ALLOCATE"
  by (simp_all add: REQUEST_STORE_def REQUEST_ALLOCATE_def REQUEST_INITIALIZER_def REQUEST_BIND_def)

lemma store_content_bytes:
  assumes ok: "contents_ok base bytes r" "\<not> is_bind r" and c: "base \<le> c" "c + data_size r \<le> base + bytes"
  shows "a < c \<or> c + data_size r \<le> a \<Longrightarrow> store_content r c (base + bytes - c) (data_size r) m a = m a"
    and "mr_type r = REQUEST_STORE \<Longrightarrow> c \<le> a \<Longrightarrow> a < c + data_size r \<Longrightarrow>
      store_content r c (base + bytes - c) (data_size r) m a = stored r m (a - c)"
    and "mr_type r = REQUEST_ALLOCATE \<Longrightarrow> store_content r c (base + bytes - c) (data_size r) m = m"
proof -
  consider "mr_type r = REQUEST_ALLOCATE" | "mr_type r = REQUEST_STORE" "mr_ptr_in r = 0" "length (mr_data r) = mr_element_size r"
    | "mr_type r = REQUEST_STORE" "mr_ptr_in r \<noteq> 0" "mr_ptr_in r + data_size r \<le> base \<or> base + bytes \<le> mr_ptr_in r"
    | "mr_type r = REQUEST_INITIALIZER" "\<forall>d n m a. a < d \<or> d + n \<le> a \<longrightarrow> mr_initializer r d n m a = m a"
    using ok by (auto simp: contents_ok_def split: if_splits)
  note cases = this
  have memcpy: "ie_memcpy c (base + bytes - c) (mr_ptr_in r) (data_size r) m = copy_bytes c (mr_ptr_in r) (data_size r) m"
    if "mr_ptr_in r \<noteq> 0" "mr_ptr_in r + data_size r \<le> base \<or> base + bytes \<le> mr_ptr_in r"
    using that c by (auto simp: ie_memcpy_def)
  show "store_content r c (base + bytes - c) (data_size r) m a = m a" if "a < c \<or> c + data_size r \<le> a"
    using cases
    by cases (use that in \<open>auto simp: store_content_def request_types Let_def fill_bytes memcpy copy_bytes_def\<close>)
  show "store_content r c (base + bytes - c) (data_size r) m a = stored r m (a - c)"
    if "mr_type r = REQUEST_STORE" "c \<le> a" "a < c + data_size r"
    using cases
    by cases (use that in \<open>auto simp: store_content_def request_types Let_def fill_bytes memcpy copy_bytes_def stored_def\<close>)
  show "store_content r c (base + bytes - c) (data_size r) m = m" if "mr_type r = REQUEST_ALLOCATE"
    using that by (simp add: store_content_def request_types Let_def)
qed

text \<open>The invariant of the memory while the blocks in \<open>K\<close> have been written, at addresses \<open>at\<close>.\<close>

definition written :: "MemRequest list \<Rightarrow> nat \<Rightarrow> nat \<Rightarrow> (nat \<Rightarrow> nat) \<Rightarrow> Memory \<Rightarrow> nat set \<Rightarrow> Memory \<Rightarrow> bool" where
  "written heap base bytes at mem K m \<longleftrightarrow>
     (\<forall>a. a < base \<or> base + bytes \<le> a \<longrightarrow> m a = mem a) \<and>
     (\<forall>i \<in> K. mr_type (heap ! i) \<in> {REQUEST_STORE, REQUEST_ALLOCATE} \<longrightarrow>
        (\<forall>k < data_size (heap ! i). m (at i + k) = stored (heap ! i) mem k)) \<and>
     (\<forall>a. base \<le> a \<longrightarrow> a < base + bytes \<longrightarrow> (\<forall>i \<in> K. a < at i \<or> at i + data_size (heap ! i) \<le> a) \<longrightarrow> m a = 0)"

lemma written_step:
  assumes P: "written heap base bytes at mem K m" and ok: "contents_ok base bytes (heap ! k)" "\<not> is_bind (heap ! k)"
    and c: "base \<le> at k" "at k + data_size (heap ! k) \<le> base + bytes"
    and apart: "\<And>i. i \<in> K \<Longrightarrow> at i + data_size (heap ! i) \<le> at k \<or> at k + data_size (heap ! k) \<le> at i"
    and inside: "\<And>i. i \<in> K \<Longrightarrow> base \<le> at i \<and> at i + data_size (heap ! i) \<le> base + bytes"
  shows "written heap base bytes at mem (insert k K)
    (store_content (heap ! k) (at k) (base + bytes - at k) (data_size (heap ! k)) m)"
proof -
  let ?r = "heap ! k"
  let ?m = "store_content ?r (at k) (base + bytes - at k) (data_size ?r) m"
  note bytes = store_content_bytes [OF ok c, where m = m]
  have keep: "?m a = m a" if "a < at k \<or> at k + data_size ?r \<le> a" for a using bytes(1) that .
  have "?m (at k + j) = stored ?r mem j"
    if j: "j < data_size ?r" and ty: "mr_type ?r \<in> {REQUEST_STORE, REQUEST_ALLOCATE}" for j
  proof (cases "mr_type ?r = REQUEST_STORE")
    case True
    have "?m (at k + j) = stored ?r m (at k + j - at k)" using bytes(2) [OF True] j by simp
    also have "\<dots> = stored ?r mem j"
    proof (cases "mr_ptr_in ?r = 0")
      case False
      then have "mr_ptr_in ?r + data_size ?r \<le> base \<or> base + bytes \<le> mr_ptr_in ?r"
        using ok True request_types by (auto simp: contents_ok_def split: if_splits)
      then have "mr_ptr_in ?r + j < base \<or> base + bytes \<le> mr_ptr_in ?r + j" using j by linarith
      then have "m (mr_ptr_in ?r + j) = mem (mr_ptr_in ?r + j)" using P unfolding written_def by blast
      then show ?thesis by (simp add: stored_def)
    qed (simp add: stored_def)
    finally show ?thesis .
  next
    case False
    then have al: "mr_type ?r = REQUEST_ALLOCATE" using ty by simp
    have "\<forall>i \<in> K. at k + j < at i \<or> at i + data_size (heap ! i) \<le> at k + j" using apart j by fastforce
    moreover have "at k + j < base + bytes" "base \<le> at k + j" using c j by simp_all
    ultimately have "m (at k + j) = 0" using P unfolding written_def by blast
    then show ?thesis using bytes(3) [OF al] al False by (simp add: stored_def)
  qed
  moreover have "?m (at i + j) = stored (heap ! i) mem j"
    if "i \<in> K" "j < data_size (heap ! i)" "mr_type (heap ! i) \<in> {REQUEST_STORE, REQUEST_ALLOCATE}" for i j
  proof -
    have "at i + j < at k \<or> at k + data_size ?r \<le> at i + j" using apart [OF that(1)] that(2) by linarith
    then have "?m (at i + j) = m (at i + j)" by (rule keep)
    moreover have "m (at i + j) = stored (heap ! i) mem j" using P that unfolding written_def by blast
    ultimately show ?thesis by simp
  qed
  moreover have "?m a = mem a" if "a < base \<or> base + bytes \<le> a" for a
    using that c keep [of a] P by (auto simp: written_def)
  moreover have "?m a = 0" if "base \<le> a" "a < base + bytes" "\<forall>i \<in> insert k K. a < at i \<or> at i + data_size (heap ! i) \<le> a" for a
    using that keep [of a] P by (auto simp: written_def)
  ultimately show ?thesis unfolding written_def by auto
qed

lemma written_zero: "written heap base bytes at mem {} (zero_bytes base bytes mem)"
  by (auto simp: written_def zero_bytes_def)

text \<open>Whatever order the blocks are written in, they do not touch each other.\<close>

lemma blocks_apart:
  assumes "fst (fold add_section heap (0, 0)) \<le> rw" "snd (fold add_section heap (0, 0)) \<le> ro"
    and i: "i \<in> blocks heap" "mr_region (heap ! i) \<noteq> REGION_AUTO"
    and j: "j \<in> blocks heap" "mr_region (heap ! j) \<noteq> REGION_AUTO" and ne: "i \<noteq> j"
  shows "address_of base heap rw i + request_size (heap ! i) \<le> address_of base heap rw j \<or>
    address_of base heap rw j + request_size (heap ! j) \<le> address_of base heap rw i"
proof (cases "mr_region (heap ! i) = mr_region (heap ! j)")
  case True
  then show ?thesis
    using address_layout(2) [OF assms(1,2) i, of j base] address_layout(2) [OF assms(1,2) j, of i base] i j ne
    by (metis linorder_neqE_nat)
next
  case False
  then show ?thesis
    using address_layout(1) [OF assms(1,2) i, of base] address_layout(1) [OF assms(1,2) j, of base] i(2) j(2)
    by (cases "mr_region (heap ! i)"; cases "mr_region (heap ! j)") auto
qed

lemma passes_write:
  fixes base rws ros pad heap
  defines "addr \<equiv> address_of base (padded heap pad) rws"
  assumes w: "wired (padded heap pad) rank root disp" and d: "distinct_blocks (padded heap pad)"
    and room: "\<And>a. a < length heap \<Longrightarrow> \<not> is_bind (heap ! a) \<Longrightarrow> roomy heap disp a (pad a)"
    and sums: "fst (fold add_section (padded heap pad) (0, 0)) \<le> rws" "snd (fold add_section (padded heap pad) (0, 0)) \<le> ros"
    and ok: "\<And>i. i < length heap \<Longrightarrow> contents_ok base (rws + ros) (heap ! i)"
    and st: "su_heap st = padded heap pad" "su_mem st = zero_bytes base (rws + ros) mem"
  defines "all \<equiv> {i \<in> blocks (padded heap pad). mr_region (padded heap pad ! i) \<noteq> REGION_AUTO}"
  shows "\<exists>st1 st2. setupOffsets base (rws + ros) skip_rw 0 st = Inr st1 \<and> setupOffsets base (rws + ros) skip_ro rws st1 = Inr st2 \<and>
    settled (padded heap pad) disp addr all (su_vars st2) \<and> written (padded heap pad) base (rws + ros) addr mem all (su_mem st2)"
proof -
  let ?heap = "padded heap pad"
  have okp: "contents_ok base (rws + ros) (?heap ! i)" if "i < length heap" for i
    using ok [OF that] that by (auto simp: contents_ok_def is_bind_def)
  have fits: "base \<le> addr i \<and> addr i + data_size (?heap ! i) \<le> base + (rws + ros) \<and> data_size (?heap ! i) \<le> request_size (?heap ! i)"
    if i: "i \<in> all" for i
  proof -
    have b: "i \<in> blocks heap" using i by (simp add: all_def padded_blocks)
    then have "data_size (?heap ! i) = data_size (heap ! i)" by (simp add: blocks_def)
    then have "data_size (?heap ! i) \<le> request_size (?heap ! i)" using padded_fits [OF room b] by simp
    then show ?thesis using address_layout(1) [where base = base, OF sums, of i] i
      by (auto simp: all_def addr_def address_of_def split: if_splits)
  qed
  show ?thesis
    unfolding all_def addr_def
  proof (rule both_passes [OF w d st(1)], fold addr_def all_def)
    show "written ?heap base (rws + ros) addr mem {} (su_mem st)" using written_zero st(2) by simp
    show "(\<forall>b < length ?heap. is_bind (?heap ! b) \<longrightarrow> mr_type (?heap ! b) = REQUEST_BIND) \<or> written ?heap base (rws + ros) addr mem = (\<lambda>_ _. True)"
      using okp by (auto simp: contents_ok_def)
    fix k K m
    assume k: "k \<in> blocks ?heap" "mr_region (?heap ! k) \<noteq> REGION_AUTO" and K: "K \<subseteq> all - {k}"
      and P: "written ?heap base (rws + ros) addr mem K m"
    show "written ?heap base (rws + ros) addr mem (insert k K)
      (store_content (?heap ! k) (addr k) (base + (rws + ros) - addr k) (data_size (?heap ! k)) m)"
    proof (rule written_step [OF P])
      show "contents_ok base (rws + ros) (?heap ! k)" "\<not> is_bind (?heap ! k)" using okp [of k] k(1) by (auto simp: blocks_def)
      have ka: "k \<in> all" using k by (simp add: all_def)
      then show "base \<le> addr k" "addr k + data_size (?heap ! k) \<le> base + (rws + ros)" using fits by simp_all
      fix i assume "i \<in> K"
      then have i: "i \<in> all" "i \<noteq> k" using K by auto
      show "base \<le> addr i \<and> addr i + data_size (?heap ! i) \<le> base + (rws + ros)" using fits [OF i(1)] by simp
      show "addr i + data_size (?heap ! i) \<le> addr k \<or> addr k + data_size (?heap ! k) \<le> addr i"
        using blocks_apart [where base = base, OF sums, of i k] i k fits [OF i(1)] fits [OF ka]
        unfolding all_def addr_def by fastforce
    qed
  qed
qed

text \<open>
  C24. A commit fills the blocks of the requests that have a section: what was pushed by pointer or by value stands in its
  block, reserved memory is zero, and no byte outside the new allocation changes.

  The conditions: those of the layout (the bindings are consistent and not circular, no two blocks are for the same pointer,
  the extension for the bindings succeeds, alignments are positive and sizes below the range of \<open>int\<close>), and of the contents: a
  bound request is a plain binding (a bound initialiser, \<open>bind_initializer\<close>, writes into the block it is bound to, which is
  then neither zero nor what was pushed), a value pushed has the size of an element, a source pushed by pointer lies
  outside the allocation, and an initialiser of a block of its own keeps to the bytes it is given.
\<close>

theorem commit_contents:
  fixes g rank root disp
  defines "heap \<equiv> gm_future_heap g"
  assumes "wired heap rank root disp" "distinct_blocks heap" "\<forall>a < length heap. small_at heap a"
    and "expand_all heap = Inr heap'" "fold add_section heap' (0, 0) = (rw, ro)"
    and "0 < gm_page_alignment g" "rw + gm_page_alignment g \<le> 2 ^ 31" "ro + gm_page_alignment g \<le> 2 ^ 31"
    and "\<forall>r \<in> set heap. contents_ok base (ALIGN rw (gm_page_alignment g) + ALIGN ro (gm_page_alignment g)) r"
  shows "\<exists>g' vars' mem'. commit base g vars mem = Inr (g', vars', mem') \<and>
    (\<forall>a. a < base \<or> base + gm_total g' \<le> a \<longrightarrow> mem' a = mem a) \<and>
    (\<forall>i \<in> blocks heap. mr_region (heap ! i) \<noteq> REGION_AUTO \<longrightarrow> mr_type (heap ! i) \<in> {REQUEST_STORE, REQUEST_ALLOCATE} \<longrightarrow>
       (\<forall>k < data_size (heap ! i). mem' (vars' (mr_ptr_out (heap ! i)) + k) = stored (heap ! i) mem k))"
proof -
  define rws where "rws = ALIGN rw (gm_page_alignment g)"
  define ros where "ros = ALIGN ro (gm_page_alignment g)"
  obtain pad where pad: "heap' = padded heap pad" and w: "wired heap' rank root disp" and d: "distinct_blocks heap'"
    and room: "\<And>a. a < length heap \<Longrightarrow> \<not> is_bind (heap ! a) \<Longrightarrow> roomy heap disp a (pad a)"
    and sums: "fst (fold add_section heap' (0, 0)) \<le> rws" "snd (fold add_section heap' (0, 0)) \<le> ros"
    and result: "\<And>st1 st2. setupOffsets base (rws + ros) skip_rw 0
        \<lparr>su_heap = heap', su_vars = vars, su_mem = zero_bytes base (rws + ros) mem, su_offset = 0\<rparr> = Inr st1 \<Longrightarrow>
      setupOffsets base (rws + ros) skip_ro rws st1 = Inr st2 \<Longrightarrow>
      \<exists>g'. commit base g vars mem = Inr (g', su_vars st2, su_mem st2) \<and> gm_rw_section_size g' = rws \<and> gm_total g' = rws + ros"
    using commit_result [OF assms(2-9) [unfolded heap_def], where base = base and vars = vars and mem = mem, folded heap_def rws_def ros_def] by blast
  have ok: "contents_ok base (rws + ros) (heap ! i)" if "i < length heap" for i
    using assms(10) nth_mem [OF that] by (simp add: rws_def ros_def)
  let ?addr = "address_of base heap' rws"
  let ?all = "{i \<in> blocks heap'. mr_region (heap' ! i) \<noteq> REGION_AUTO}"
  obtain st1 st2 where st: "setupOffsets base (rws + ros) skip_rw 0
        \<lparr>su_heap = heap', su_vars = vars, su_mem = zero_bytes base (rws + ros) mem, su_offset = 0\<rparr> = Inr st1"
      "setupOffsets base (rws + ros) skip_ro rws st1 = Inr st2"
    and s: "settled heap' disp ?addr ?all (su_vars st2)" and P: "written heap' base (rws + ros) ?addr mem ?all (su_mem st2)"
    using passes_write [OF w [unfolded pad] d [unfolded pad] room sums [unfolded pad] ok, folded pad, simplified] by force
  obtain g' where g': "commit base g vars mem = Inr (g', su_vars st2, su_mem st2)" "gm_total g' = rws + ros"
    using result [OF st] by blast
  have block: "su_mem st2 (su_vars st2 (mr_ptr_out (heap ! i)) + k) = stored (heap ! i) mem k"
    if i: "i \<in> blocks heap" "mr_region (heap ! i) \<noteq> REGION_AUTO"
      and ty: "mr_type (heap ! i) \<in> {REQUEST_STORE, REQUEST_ALLOCATE}" and k: "k < data_size (heap ! i)" for i k
  proof -
    have f: "heap' ! i = (heap ! i)\<lparr>mr_padding := pad i\<rparr>" using i(1) by (simp add: pad blocks_def)
    have a: "i \<in> ?all" using i f by (simp add: pad padded_blocks)
    have "su_vars st2 (mr_ptr_out (heap ! i)) = ?addr i"
      using settled_padded [OF s [unfolded pad] i reach.here, folded pad] block_root [OF assms(2) i(1)] by simp
    moreover have "mr_type (heap' ! i) \<in> {REQUEST_STORE, REQUEST_ALLOCATE}" "k < data_size (heap' ! i)" using ty k by (simp_all add: f)
    then have "su_mem st2 (?addr i + k) = stored (heap' ! i) mem k" using P a unfolding written_def by blast
    moreover have "stored (heap' ! i) mem k = stored (heap ! i) mem k" by (simp add: f stored_def)
    ultimately show ?thesis by simp
  qed
  moreover have "su_mem st2 a = mem a" if "a < base \<or> base + (rws + ros) \<le> a" for a using P that unfolding written_def by blast
  ultimately show ?thesis using g'
    by (intro exI [of _ g'] exI [of _ "su_vars st2"] exI [of _ "su_mem st2"]) simp
qed

section \<open>An example\<close>

text \<open>
  Twelve bytes pushed for pointer 100, pointer 200 bound behind them with twelve more, and a read-only
  value for pointer 300.
\<close>

definition ex_gna :: GNAMemory where
  "ex_gna = push_value REGION_RO 300 [7, 9] 2 1 (bind_ptr REGION_RW 200 100 12 12
     (push_ptr REGION_RW 100 5000 12 8 (mk_GNAMemory 16)))"

definition ex_requests :: "MemRequest list" where
  "ex_requests = [mk_MemRequest REGION_RW REQUEST_STORE 100 5000 1 12 8 0, mk_MemRequest REGION_RW REQUEST_BIND 200 100 1 12 1 12,
     mk_MemRequest_value REGION_RO 300 [7, 9] 2 1]"

lemma ex_gna_fields: "gm_future_heap ex_gna = ex_requests" "gm_page_alignment ex_gna = 16" "length ex_requests = 3"
  by (simp_all add: ex_gna_def ex_requests_def push_value_def bind_ptr_def push_ptr_def push_back_def mk_GNAMemory_def)

lemma upt_3: "[0..<3] = [0, 1, 2]" "[0..<Suc (Suc (Suc 0))] = [0, 1, 2]"
  by (simp_all add: upt_rec)

lemma ex_nth:
  "ex_requests ! 0 = mk_MemRequest REGION_RW REQUEST_STORE 100 5000 1 12 8 0"
  "ex_requests ! Suc 0 = mk_MemRequest REGION_RW REQUEST_BIND 200 100 1 12 1 12"
  "ex_requests ! 2 = mk_MemRequest_value REGION_RO 300 [7, 9] 2 1"
  "ex_requests ! Suc (Suc 0) = mk_MemRequest_value REGION_RO 300 [7, 9] 2 1"
  by (simp_all add: ex_requests_def)

lemma ex_fuel: "bind_fuel ex_requests = Suc (Suc (Suc (Suc 0)))"
  by (simp add: ex_requests_def bind_fuel_def)

lemma mk_MemRequest_fields:
  "is_bind (mk_MemRequest region ty po pi es n al off) \<longleftrightarrow> ty AND REQUEST_BIND \<noteq> 0"
  "mr_ptr_out (mk_MemRequest region ty po pi es n al off) = po" "mr_ptr_in (mk_MemRequest region ty po pi es n al off) = pi"
  "mr_offset (mk_MemRequest region ty po pi es n al off) = off" "mr_type (mk_MemRequest region ty po pi es n al off) = ty"
  "mr_num_elements (mk_MemRequest region ty po pi es n al off) = n" "mr_region (mk_MemRequest region ty po pi es n al off) = region"
  "mr_element_size (mk_MemRequest region ty po pi es n al off) = es" "mr_padding (mk_MemRequest region ty po pi es n al off) = 0"
  "mr_alignment (mk_MemRequest region ty po pi es n al off) = al"
  "is_bind (mk_MemRequest_value region po v n al) \<longleftrightarrow> False"
  "mr_ptr_out (mk_MemRequest_value region po v n al) = po" "mr_ptr_in (mk_MemRequest_value region po v n al) = 0"
  "mr_type (mk_MemRequest_value region po v n al) = REQUEST_STORE" "mr_data (mk_MemRequest_value region po v n al) = v"
  "mr_num_elements (mk_MemRequest_value region po v n al) = n" "mr_region (mk_MemRequest_value region po v n al) = region"
  "mr_element_size (mk_MemRequest_value region po v n al) = length v" "mr_padding (mk_MemRequest_value region po v n al) = 0"
  "mr_alignment (mk_MemRequest_value region po v n al) = al"
  by (simp_all add: mk_MemRequest_def mk_MemRequest_value_def is_bind_def REQUEST_STORE_def REQUEST_BIND_def)

lemma request_bits: "REQUEST_STORE AND REQUEST_BIND = 0" "REQUEST_BIND AND REQUEST_BIND \<noteq> 0"
  "REQUEST_BIND \<noteq> 0" "REQUEST_STORE \<noteq> REQUEST_BIND" "REQUEST_BIND \<noteq> REQUEST_STORE"
  by (simp_all add: REQUEST_STORE_def REQUEST_BIND_def)

lemmas ex_facts = ex_gna_fields ex_nth mk_MemRequest_fields request_bits

lemma ex_trace: "trace (bind_fuel ex_requests) ex_requests 0 = Inr [(0, 1)]"
  "trace (bind_fuel ex_requests) ex_requests 2 = Inr []"
  by (simp_all add: ex_fuel ex_facts upt_3 binds_to_def)

lemma ex_wired: "wired ex_requests id (\<lambda>p. if p = 200 then 100 else p) (\<lambda>p. if p = 200 then 12 else 0)"
  unfolding wired_nth ex_gna_fields(3)
  by (auto simp: less_Suc_eq numeral_3_eq_3 ex_facts reach.here intro!: exI [of _ 0])

lemma ex_trace_1: "trace (bind_fuel ex_requests) ex_requests (Suc 0) = Inr []"
  by (simp add: ex_fuel ex_facts upt_3 binds_to_def)

lemma ex_align: "ALIGN 12 8 = 16" "ALIGN 12 1 = 12" "ALIGN 12 (Suc 0) = 12" "ALIGN 4 1 = 4" "ALIGN 4 (Suc 0) = 4" "ALIGN 24 8 = 24"
  "ALIGN 20 8 = 24" "ALIGN 24 16 = 32" "ALIGN 4 16 = 16"
  by (simp_all add: ALIGN_round_up round_up_def)

lemma ex_small: "\<forall>a < length ex_requests. small_at ex_requests a"
proof -
  have "small_at ex_requests 0" "small_at ex_requests (Suc 0)" "small_at ex_requests 2"
    unfolding small_at_def ex_trace ex_trace_1 by (simp_all add: span_def ex_facts)
  moreover have "a = 0 \<or> a = Suc 0 \<or> a = 2" if "a < length ex_requests" for a
    using that by (auto simp: ex_gna_fields)
  ultimately show ?thesis by blast
qed

definition ex_heap :: "MemRequest list" where
  "ex_heap = [(ex_requests ! 0)\<lparr>mr_padding := 8\<rparr>, ex_requests ! 1, ex_requests ! 2]"

lemma ex_heap_nth: "length ex_heap = 3" "bind_fuel ex_heap = Suc (Suc (Suc (Suc 0)))"
  "ex_heap ! 0 = (ex_requests ! 0)\<lparr>mr_padding := 8\<rparr>" "ex_heap ! Suc 0 = ex_requests ! Suc 0"
  "ex_heap ! 2 = ex_requests ! 2" "ex_heap ! Suc (Suc 0) = ex_requests ! Suc (Suc 0)"
  by (simp_all add: ex_heap_def bind_fuel_def numeral_2_eq_2)

lemma ex_expand: "expand_all ex_requests = Inr ex_heap"
proof -
  have "expand_request 0 ex_requests = Inr (ex_requests[0 := (ex_requests ! 0)\<lparr>mr_padding := 8\<rparr>])"
    using ex_trace(1)
    by (simp add: expand_request_def iterate_trace expand_visitor_def ex_facts ex_align)
  also have "ex_requests[0 := (ex_requests ! 0)\<lparr>mr_padding := 8\<rparr>] = ex_heap"
    by (simp add: ex_heap_def) (simp add: ex_requests_def)
  finally have 0: "expand_request 0 ex_requests = Inr ex_heap" .
  have "trace (bind_fuel ex_heap) ex_heap 2 = Inr []"
    by (simp add: ex_heap_nth ex_facts upt_3 binds_to_def is_bind_def)
  then have 2: "expand_request 2 ex_heap = Inr ex_heap"
    by (simp add: expand_request_def iterate_trace ex_heap_nth ex_facts) (simp add: ex_heap_def ex_facts mk_MemRequest_value_def mk_MemRequest_def)
  have 1: "expand_request (Suc 0) ex_heap = Inr ex_heap"
    by (simp add: expand_request_def ex_heap_nth ex_facts)
  show ?thesis using 0 1 2 by (simp add: expand_all_def ex_gna_fields upt_3)
qed

lemma ex_sections: "fold add_section ex_heap (0, 0) = (24, 4)"
  using ex_align
  by (simp add: ex_heap_def add_section_def request_size_def ex_facts Let_def)

lemma ex_blocks: "blocks ex_requests = {0, 2}"
  by (auto simp: blocks_def less_Suc_eq numeral_3_eq_3 numeral_2_eq_2 ex_facts)

lemma ex_distinct: "distinct_blocks ex_requests"
  by (simp add: distinct_blocks_def ex_blocks ex_facts)

lemma ex_contents: "\<forall>r \<in> set ex_requests. contents_ok 1000 48 r"
  by (simp add: ex_requests_def contents_ok_def mk_MemRequest_fields request_bits)

lemma all_3: "(\<forall>b < 3. P b) \<longleftrightarrow> P 0 \<and> P (Suc 0) \<and> P (2 :: nat)"
  by (auto simp: less_Suc_eq numeral_3_eq_3 numeral_2_eq_2)

lemma ex_reach: "reach ex_requests 100 100"
  by (rule reach.here)

text \<open>Pointer 200 stands twelve bytes behind pointer 100.\<close>

theorem commit_layout_witness:
  "\<exists>g' vars' mem'. commit 1000 ex_gna (\<lambda>_. 0) (\<lambda>_. 3) = Inr (g', vars', mem') \<and> vars' 200 = vars' 100 + 12 \<and>
     vars' 100 + 24 \<le> 1000 + gm_rw_section_size g' \<and> 1000 + gm_rw_section_size g' \<le> vars' 300"
proof -
  have 0: "0 \<in> blocks ex_requests" and 2: "2 \<in> blocks ex_requests" by (simp_all add: ex_blocks)
  have size: "request_size (ex_heap ! 0) = 24" by (simp add: request_size_def ex_heap_nth ex_facts ex_align)
  have page: "0 < (16 :: nat)" "24 + 16 \<le> (2 :: nat) ^ 31" "4 + 16 \<le> (2 :: nat) ^ 31" by simp_all
  show ?thesis
    using commit_layout [where g = ex_gna, unfolded ex_gna_fields, OF ex_wired ex_distinct ex_small [unfolded ex_gna_fields]
      ex_expand ex_sections page, where base = 1000 and vars = "\<lambda>_. 0" and mem = "\<lambda>_. 3"]
  proof (elim exE conjE, goal_cases)
    case (1 g' vars' mem' "at")
    have "vars' 100 = 1000 + at 0" "vars' 200 = 1000 + at 0 + 12" "at 0 + 24 \<le> gm_rw_section_size g'"
      using bspec [OF 1(2) 0] ex_reach size by (simp_all add: ex_facts all_3)
    moreover have "vars' 300 = 1000 + at 2" "gm_rw_section_size g' \<le> at 2"
      using bspec [OF 1(2) 2] by (simp_all add: ex_facts)
    ultimately show ?case using 1(1) by auto
  qed
qed

text \<open>The bytes at pointer 300 are the value, twice.\<close>

theorem commit_contents_witness:
  "\<exists>g' vars' mem'. commit 1000 ex_gna (\<lambda>_. 0) (\<lambda>_. 3) = Inr (g', vars', mem') \<and> mem' (vars' 100 + 11) = 3 \<and>
     mem' (vars' 300 + 3) = 9 \<and> mem' 999 = 3"
proof -
  have "\<forall>r \<in> set ex_requests. contents_ok 1000 (ALIGN 24 16 + ALIGN 4 16) r"
    using ex_contents by (simp add: ex_align)
  note * = commit_contents [where g = ex_gna, unfolded ex_gna_fields, OF ex_wired ex_distinct ex_small [unfolded ex_gna_fields]
    ex_expand ex_sections, where base = 1000 and vars = "\<lambda>_. 0" and mem = "\<lambda>_. 3", simplified, OF this]
  from * obtain g' vars' mem' where c: "commit 1000 ex_gna (\<lambda>_. 0) (\<lambda>_. 3) = Inr (g', vars', mem')"
    and out: "\<And>a. a < 1000 \<or> 1000 + gm_total g' \<le> a \<Longrightarrow> mem' a = 3"
    and all: "\<And>i k. i \<in> blocks ex_requests \<Longrightarrow> mr_region (ex_requests ! i) \<noteq> REGION_AUTO \<Longrightarrow>
       mr_type (ex_requests ! i) = REQUEST_STORE \<Longrightarrow> k < data_size (ex_requests ! i) \<Longrightarrow>
       mem' (vars' (mr_ptr_out (ex_requests ! i)) + k) = stored (ex_requests ! i) (\<lambda>_. 3) k"
    by fastforce
  have "mem' (vars' 100 + 11) = 3" "mem' (vars' 300 + 3) = 9" "mem' 999 = 3"
    using all [of 0 11] all [of 2 3] out [of 999] by (simp_all add: ex_blocks ex_facts stored_def flip: numeral_2_eq_2)
  then show ?thesis using c by blast
qed

end
