(* ===== verification/CpuGraph.thy ===== *)
theory CpuGraph
  imports Layouts
begin

text \<open>
  The graph of the CPU plugin: nodes and edges (\<open>src/src/mkldnn_plugin/mkldnn_node.cpp\<close>,
  \<open>mkldnn_edge.cpp\<close>) and the operations of \<open>mkldnn_graph.cpp\<close> that sort it and drop nodes.
  Nodes and edges are objects in a store, named by numbers. A node holds weak pointers to its edges,
  which are owned by the list \<open>graphEdges\<close>: a pointer can be locked when it is not empty (\<open>None\<close>) and its
  edge is in that list. Names, sockets, kernels and performance counters are left out.
\<close>

section \<open>Data\<close>

datatype NodeType = NT_Unknown | NT_Generic | NT_Reorder | NT_Input | NT_Output | NT_Convolution
  | NT_Deconvolution | NT_Activation | NT_Depthwise | NT_Lrn | NT_Pooling | NT_FullyConnected | NT_SoftMax
  | NT_Split | NT_Concatenation | NT_Power | NT_Eltwise | NT_Gemm | NT_Crop | NT_Reshape | NT_Tile
  | NT_SimplerNMS | NT_ROIPooling | NT_BatchNormalization | NT_Flatten | NT_Permute | NT_Copy
  | NT_MemoryOutput | NT_MemoryInput | NT_RNNCell | NT_RNNSeq | NT_Quantize | NT_BinaryConvolution
  | NT_DeformableConvolution | NT_TensorIterator

datatype ConstantType = CT_Unknown | CT_Const | CT_NoConst

datatype EdgeStatus = ES_Uninitialized | ES_NeedAllocation | ES_NotAllocated | ES_Allocated | ES_Validated

record MKLDNNNode =
  mn_type :: NodeType
  mn_inDims :: "SizeVector list"
  mn_outDims :: "SizeVector list"
  mn_parentEdges :: "nat option list"
  mn_childEdges :: "nat option list"
  mn_permanent :: bool
  mn_temporary :: bool
  mn_constant :: ConstantType
  mn_execIndex :: int

text \<open>
  \<open>me_inputDesc\<close> and \<open>me_outputDesc\<close> are what \<open>getInputDesc\<close> and \<open>getOutputDesc\<close> return: the
  descriptors of the selected primitives at the two ends. \<open>me_memory\<close> is the address of the data of
  \<open>memoryPtr\<close>, \<open>me_dims\<close> what \<open>getDims\<close> has remembered.
\<close>

record MKLDNNEdge =
  me_parent :: nat
  me_child :: nat
  me_parent_port :: int
  me_child_port :: int
  me_dims :: SizeVector
  me_memoryFromEdge :: "nat option"
  me_memory :: "int option"
  me_status :: EdgeStatus
  me_inputDesc :: TensorDesc
  me_outputDesc :: TensorDesc

record MKLDNNGraph =
  mg_node :: "nat \<Rightarrow> MKLDNNNode"
  mg_edge :: "nat \<Rightarrow> MKLDNNEdge"
  mg_graphNodes :: "nat list"
  mg_graphEdges :: "nat list"
  mg_next_edge :: nat
  mg_reuse_io_tensors :: bool
  mg_memWorkspace :: "(int \<times> int) option"

definition mk_MKLDNNEdge :: "nat \<Rightarrow> nat \<Rightarrow> int \<Rightarrow> int \<Rightarrow> MKLDNNEdge" where [examples]:
  "mk_MKLDNNEdge parent child pr_port ch_port =
     \<lparr>me_parent = parent, me_child = child, me_parent_port = pr_port, me_child_port = ch_port, me_dims = [],
      me_memoryFromEdge = None, me_memory = None, me_status = ES_Uninitialized,
      me_inputDesc = TensorDesc_default, me_outputDesc = TensorDesc_default\<rparr>"

definition upd_node :: "nat \<Rightarrow> (MKLDNNNode \<Rightarrow> MKLDNNNode) \<Rightarrow> MKLDNNGraph \<Rightarrow> MKLDNNGraph" where
  "upd_node x f g = g\<lparr>mg_node := (mg_node g)(x := f (mg_node g x))\<rparr>"

definition upd_edge :: "nat \<Rightarrow> (MKLDNNEdge \<Rightarrow> MKLDNNEdge) \<Rightarrow> MKLDNNGraph \<Rightarrow> MKLDNNGraph" where
  "upd_edge e f g = g\<lparr>mg_edge := (mg_edge g)(e := f (mg_edge g e))\<rparr>"

section \<open>Access to edges\<close>

definition lock :: "MKLDNNGraph \<Rightarrow> nat option \<Rightarrow> nat option" where
  "lock g w = (case w of None \<Rightarrow> None | Some e \<Rightarrow> if e \<in> set (mg_graphEdges g) then Some e else None)"

definition edge_at :: "MKLDNNGraph \<Rightarrow> nat option list \<Rightarrow> nat \<Rightarrow> nat result" where
  "edge_at g es idx =
     (if idx \<ge> length es then Inl (Thrown ''Node contains less edges'')
      else case lock g (es ! idx) of None \<Rightarrow> Inl (Thrown ''Node contains empty edge'') | Some e \<Rightarrow> Inr e)"

definition getParentEdgeAt :: "MKLDNNGraph \<Rightarrow> nat \<Rightarrow> nat \<Rightarrow> nat result" where
  "getParentEdgeAt g x idx = edge_at g (mn_parentEdges (mg_node g x)) idx"

definition getChildEdgeAt :: "MKLDNNGraph \<Rightarrow> nat \<Rightarrow> nat \<Rightarrow> nat result" where
  "getChildEdgeAt g x idx = edge_at g (mn_childEdges (mg_node g x)) idx"

definition addEdge :: "nat \<Rightarrow> MKLDNNGraph \<Rightarrow> MKLDNNGraph" where
  "addEdge e g =
     upd_node (me_child (mg_edge g e)) (\<lambda>n. n\<lparr>mn_parentEdges := mn_parentEdges n @ [Some e]\<rparr>)
       (upd_node (me_parent (mg_edge g e)) (\<lambda>n. n\<lparr>mn_childEdges := mn_childEdges n @ [Some e]\<rparr>) g)"

definition isEdgesEmpty :: "MKLDNNGraph \<Rightarrow> nat option list \<Rightarrow> bool" where
  "isEdgesEmpty g es = list_all (\<lambda>w. lock g w = None) es"

definition node_isDropped :: "MKLDNNGraph \<Rightarrow> nat \<Rightarrow> bool" where
  "node_isDropped g x = (isEdgesEmpty g (mn_childEdges (mg_node g x)) \<and> isEdgesEmpty g (mn_parentEdges (mg_node g x)))"

definition edge_isDropped :: "MKLDNNGraph \<Rightarrow> nat \<Rightarrow> bool" where
  "edge_isDropped g e =
     (Some e \<notin> set (mn_childEdges (mg_node g (me_parent (mg_edge g e)))) \<and>
      Some e \<notin> set (mn_parentEdges (mg_node g (me_child (mg_edge g e)))))"

text \<open>\<open>drop\<close> erases the first entry for the edge at each end.\<close>

definition edge_drop :: "nat \<Rightarrow> MKLDNNGraph \<Rightarrow> MKLDNNGraph" where
  "edge_drop e g =
     upd_node (me_child (mg_edge g e)) (\<lambda>n. n\<lparr>mn_parentEdges := remove1 (Some e) (mn_parentEdges n)\<rparr>)
       (upd_node (me_parent (mg_edge g e)) (\<lambda>n. n\<lparr>mn_childEdges := remove1 (Some e) (mn_childEdges n)\<rparr>) g)"

text \<open>\<open>removeEdge\<close> of a node erases the first edge between the same two nodes.\<close>

fun erase_first :: "('a \<Rightarrow> bool) \<Rightarrow> 'a list \<Rightarrow> 'a list" where
  "erase_first P [] = []"
| "erase_first P (x # xs) = (if P x then xs else x # erase_first P xs)"

definition same_ends :: "MKLDNNGraph \<Rightarrow> nat \<Rightarrow> nat option \<Rightarrow> bool" where
  "same_ends g e e' =
     (case lock g e' of None \<Rightarrow> False
      | Some e' \<Rightarrow> me_child (mg_edge g e') = me_child (mg_edge g e) \<and> me_parent (mg_edge g e') = me_parent (mg_edge g e))"

definition removeEdge :: "nat \<Rightarrow> MKLDNNGraph \<Rightarrow> MKLDNNGraph" where
  "removeEdge e g =
     upd_node (me_parent (mg_edge g e)) (\<lambda>n. n\<lparr>mn_childEdges := erase_first (same_ends g e) (mn_childEdges n)\<rparr>)
       (upd_node (me_child (mg_edge g e)) (\<lambda>n. n\<lparr>mn_parentEdges := erase_first (same_ends g e) (mn_parentEdges n)\<rparr>) g)"

definition remove_each :: "nat option list \<Rightarrow> MKLDNNGraph \<Rightarrow> MKLDNNGraph" where
  "remove_each es = fold (\<lambda>w g. case lock g w of None \<Rightarrow> g | Some e \<Rightarrow> removeEdge e g) es"

definition node_remove :: "nat \<Rightarrow> MKLDNNGraph \<Rightarrow> MKLDNNGraph" where
  "node_remove x g =
     (let g = remove_each (mn_parentEdges (mg_node g x)) g in remove_each (mn_childEdges (mg_node g x)) g)"

section \<open>Topological order\<close>

text \<open>
  Depth-first search with two marks. The marks keep the recursion from entering a node twice at a time,
  so it is never deeper than there are nodes.
\<close>

fun VisitNode :: "nat \<Rightarrow> nat \<Rightarrow> MKLDNNGraph \<times> nat list \<Rightarrow> (MKLDNNGraph \<times> nat list) result" where
  "VisitNode 0 node st = Inl OutOfFuel"
| "VisitNode (Suc n) node (g, sortedNodes) =
     (if mn_temporary (mg_node g node) then Inr (g, sortedNodes)
      else if mn_permanent (mg_node g node) then Inr (g, sortedNodes)
      else
        bindE (foldE (\<lambda>i st. bindE (getChildEdgeAt (fst st) node i) (\<lambda>e. VisitNode n (me_child (mg_edge (fst st) e)) st))
          [0..<length (mn_childEdges (mg_node g node))] (upd_node node (\<lambda>n. n\<lparr>mn_temporary := True\<rparr>) g, sortedNodes))
        (\<lambda>(g, sortedNodes). Inr (upd_node node (\<lambda>n. n\<lparr>mn_permanent := True, mn_temporary := False\<rparr>) g, node # sortedNodes)))"

definition reset_marks :: "nat list \<Rightarrow> MKLDNNGraph \<Rightarrow> MKLDNNGraph" where
  "reset_marks = fold (\<lambda>x. upd_node x (\<lambda>n. n\<lparr>mn_permanent := False, mn_temporary := False\<rparr>))"

definition set_execIndex :: "nat list \<Rightarrow> MKLDNNGraph \<Rightarrow> MKLDNNGraph" where
  "set_execIndex nodes g = fold (\<lambda>i. upd_node (nodes ! i) (\<lambda>n. n\<lparr>mn_execIndex := int i\<rparr>)) [0..<length nodes] g"

text \<open>
  The edges of a node are put at the index of their port, a second edge of a port behind all others. A
  port outside the vector is undefined behaviour, here an exception.
\<close>

definition put_at_port :: "int \<Rightarrow> nat \<Rightarrow> nat option list \<Rightarrow> nat option list result" where
  "put_at_port port e res =
     (if port < 0 \<or> nat port \<ge> length res then Inl OutOfRange
      else if res ! nat port = None then Inr (res[nat port := Some e])
      else Inr (res @ [Some e]))"

definition order_ports :: "MKLDNNGraph \<Rightarrow> (nat \<Rightarrow> int) \<Rightarrow> nat \<Rightarrow> nat option list \<Rightarrow> nat option list result" where
  "order_ports g port port_num es =
     foldE (\<lambda>i res. bindE (edge_at g es i) (\<lambda>e. put_at_port (port e) e res)) [0..<length es] (replicate port_num None)"

definition order_edges :: "nat \<Rightarrow> MKLDNNGraph \<Rightarrow> MKLDNNGraph result" where
  "order_edges x g =
     bindE (order_ports g (\<lambda>e. me_child_port (mg_edge g e)) (length (mn_inDims (mg_node g x))) (mn_parentEdges (mg_node g x))) (\<lambda>ps.
     bindE (order_ports g (\<lambda>e. me_parent_port (mg_edge g e)) (length (mn_outDims (mg_node g x))) (mn_childEdges (mg_node g x))) (\<lambda>cs.
     Inr (upd_node x (\<lambda>n. n\<lparr>mn_parentEdges := ps, mn_childEdges := cs\<rparr>) g)))"

definition SortTopologically :: "MKLDNNGraph \<Rightarrow> MKLDNNGraph result" where
  "SortTopologically g =
     (let unsorted = mg_graphNodes g in
      bindE (foldE (VisitNode (Suc (length unsorted))) unsorted (reset_marks unsorted g, [])) (\<lambda>(g, nodes).
      foldE order_edges nodes ((set_execIndex nodes g)\<lparr>mg_graphNodes := nodes\<rparr>)))"

section \<open>Dropping nodes\<close>

text \<open>
  The two nested loops over copies of the edges. \<open>remEdge\<close> is a reference to \<open>p_edge\<close>, so what the
  first child sets it to is still there for the next; and while \<open>p_edge\<close> holds an edge it lives on
  outside the graph.
\<close>

definition remove_from_graph :: "nat \<Rightarrow> MKLDNNGraph \<Rightarrow> MKLDNNGraph" where
  "remove_from_graph e g = g\<lparr>mg_graphEdges := remove1 e (mg_graphEdges g)\<rparr>"

definition new_edge :: "nat \<Rightarrow> nat \<Rightarrow> int \<Rightarrow> int \<Rightarrow> MKLDNNGraph \<Rightarrow> MKLDNNGraph" where
  "new_edge parent child pr_port ch_port g =
     (let e = mg_next_edge g;
          g = upd_edge e (\<lambda>_. mk_MKLDNNEdge parent child pr_port ch_port) g
      in addEdge e (g\<lparr>mg_next_edge := Suc e, mg_graphEdges := mg_graphEdges g @ [e]\<rparr>))"

definition drop_child :: "nat \<Rightarrow> nat option \<Rightarrow> nat \<times> MKLDNNGraph \<Rightarrow> nat \<times> MKLDNNGraph" where
  "drop_child parent w st =
     (let (p_edge, g) = st in
      case (if w = Some p_edge then w else lock g w) of None \<Rightarrow> st
      | Some c \<Rightarrow>
         let child = me_child (mg_edge g c);
             inNum = me_parent_port (mg_edge g p_edge);
             g = remove_from_graph p_edge (edge_drop p_edge g);
             p_edge = c;
             outNum = me_child_port (mg_edge g p_edge);
             g = remove_from_graph p_edge (edge_drop p_edge g)
         in (p_edge, new_edge parent child inNum outNum g))"

definition drop_parent :: "nat option list \<Rightarrow> nat option \<Rightarrow> MKLDNNGraph \<Rightarrow> MKLDNNGraph" where
  "drop_parent childs w g =
     (case lock g w of None \<Rightarrow> g
      | Some p_edge \<Rightarrow> snd (fold (drop_child (me_parent (mg_edge g p_edge))) childs (p_edge, g)))"

definition DropNode :: "nat \<Rightarrow> MKLDNNGraph \<Rightarrow> MKLDNNGraph" where
  "DropNode x g = fold (drop_parent (mn_childEdges (mg_node g x))) (mn_parentEdges (mg_node g x)) g"

definition RemoveDroppedNodes :: "MKLDNNGraph \<Rightarrow> MKLDNNGraph" where
  "RemoveDroppedNodes g = g\<lparr>mg_graphNodes := filter (\<lambda>x. \<not> node_isDropped g x) (mg_graphNodes g)\<rparr>"

definition RemoveDroppedEdges :: "MKLDNNGraph \<Rightarrow> MKLDNNGraph" where
  "RemoveDroppedEdges g = g\<lparr>mg_graphEdges := filter (\<lambda>e. \<not> edge_isDropped g e) (mg_graphEdges g)\<rparr>"

section \<open>Constant nodes\<close>

datatype LOOK = LOOK_UP | LOOK_DOWN

text \<open>\<open>checkConstant\<close> returns the mark of the node and queues its neighbours when it has none.\<close>

definition look_next :: "LOOK \<Rightarrow> MKLDNNGraph \<Rightarrow> nat \<Rightarrow> nat \<Rightarrow> nat result" where
  "look_next look g x i =
     (case look of
        LOOK_DOWN \<Rightarrow> bindE (getChildEdgeAt g x i) (\<lambda>e. Inr (me_child (mg_edge g e)))
      | LOOK_UP \<Rightarrow> bindE (getParentEdgeAt g x i) (\<lambda>e. Inr (me_parent (mg_edge g e))))"

definition look_count :: "LOOK \<Rightarrow> MKLDNNGraph \<Rightarrow> nat \<Rightarrow> nat" where
  "look_count look g x =
     (case look of LOOK_DOWN \<Rightarrow> length (mn_childEdges (mg_node g x)) | LOOK_UP \<Rightarrow> length (mn_parentEdges (mg_node g x)))"

definition checkConstant :: "LOOK \<Rightarrow> MKLDNNGraph \<Rightarrow> nat \<Rightarrow> nat list \<Rightarrow> (ConstantType \<times> nat list) result" where
  "checkConstant look g x checkNodes =
     bindE
       (if mn_constant (mg_node g x) = CT_Unknown then
          foldE (\<lambda>i checkNodes. bindE (look_next look g x i) (\<lambda>y.
            Inr (if y \<in> set checkNodes then checkNodes else checkNodes @ [y]))) [0..<look_count look g x] checkNodes
        else Inr checkNodes)
       (\<lambda>checkNodes. Inr (mn_constant (mg_node g x), checkNodes))"

text \<open>The loops of \<open>isConstant\<close>; on a graph with a circle they may run for ever, then the value is \<open>None\<close>.\<close>

partial_function (option) constant_loop :: "LOOK \<Rightarrow> nat \<Rightarrow> nat list \<Rightarrow> MKLDNNGraph \<Rightarrow> MKLDNNGraph result option" where
  "constant_loop look x checkNodes g =
     (if mn_constant (mg_node g x) = CT_NoConst \<or> checkNodes = [] then Some (Inr g)
      else case checkConstant look g (hd checkNodes) checkNodes of
        Inl err \<Rightarrow> Some (Inl err)
      | Inr (c, checkNodes) \<Rightarrow> constant_loop look x (tl checkNodes) (upd_node x (\<lambda>n. n\<lparr>mn_constant := c\<rparr>) g))"

definition returned :: "'a result option \<Rightarrow> 'a result" where
  "returned r = (case r of None \<Rightarrow> Inl OutOfFuel | Some r \<Rightarrow> r)"

definition look_around :: "LOOK \<Rightarrow> nat \<Rightarrow> MKLDNNGraph \<Rightarrow> MKLDNNGraph result" where
  "look_around look x g =
     bindE (foldE (\<lambda>i checkNodes. bindE (look_next look g x i) (\<lambda>y. Inr (checkNodes @ [y]))) [0..<look_count look g x] [])
       (\<lambda>checkNodes. returned (constant_loop look x checkNodes g))"

definition isConstant :: "nat \<Rightarrow> MKLDNNGraph \<Rightarrow> (bool \<times> MKLDNNGraph) result" where
  "isConstant x g =
     bindE
       (if mn_constant (mg_node g x) = CT_Unknown then
          bindE (look_around LOOK_DOWN x g) (\<lambda>g.
          bindE (if mn_constant (mg_node g x) \<noteq> CT_Const
                 then look_around LOOK_UP x (upd_node x (\<lambda>n. n\<lparr>mn_constant := CT_Unknown\<rparr>) g) else Inr g) (\<lambda>g.
          Inr (if mn_constant (mg_node g x) = CT_Unknown then upd_node x (\<lambda>n. n\<lparr>mn_constant := CT_NoConst\<rparr>) g else g)))
        else Inr g)
       (\<lambda>g. Inr (mn_constant (mg_node g x) = CT_Const, g))"

definition isConstOutput :: "nat \<Rightarrow> MKLDNNGraph \<Rightarrow> (bool \<times> MKLDNNGraph) result" where
  "isConstOutput e g =
     bindE (isConstant (me_parent (mg_edge g e)) g) (\<lambda>(c, g).
     if c then bindE (isConstant (me_child (mg_edge g e)) g) (\<lambda>(c, g). Inr (\<not> c, g)) else Inr (False, g))"

end
