(* ===== verification/CpuDrop.thy ===== *)
theory CpuDrop
  imports CpuGraph
begin

text \<open>What dropping a node of the CPU graph does to the edges around it.\<close>

definition drop_state :: "MKLDNNGraph \<Rightarrow> nat \<Rightarrow> nat \<Rightarrow> nat list \<Rightarrow> nat \<Rightarrow> nat \<times> MKLDNNGraph \<Rightarrow> bool" where
  "drop_state g x p cs j st \<longleftrightarrow> fst st = (p # cs) ! j \<and>
     mg_graphEdges (snd st) = filter (\<lambda>e. j = 0 \<or> e \<notin> set (take (Suc j) (p # cs))) (mg_graphEdges g) @ map (\<lambda>i. mg_next_edge g + i) [0..<j] \<and>
     mg_next_edge (snd st) = mg_next_edge g + j \<and>
     (\<forall>e < mg_next_edge g. mg_edge (snd st) e = mg_edge g e) \<and>
     (\<forall>i < j. mg_edge (snd st) (mg_next_edge g + i) = mk_MKLDNNEdge (me_parent (mg_edge g p)) (me_child (mg_edge g (cs ! i)))
        (me_parent_port (mg_edge g ((p # cs) ! i))) (me_child_port (mg_edge g (cs ! i)))) \<and>
     mn_childEdges (mg_node (snd st) x) = map Some (drop j cs) \<and>
     mn_parentEdges (mg_node (snd st) x) = (if j = 0 then [Some p] else [])"

lemma filter_remove1: "distinct xs \<Longrightarrow> remove1 a (filter P xs) = filter (\<lambda>x. P x \<and> x \<noteq> a) xs"
  by (induction xs) (auto simp: filter_id_conv intro: filter_cong)

lemma edge_drop_lists:
  "mn_childEdges (mg_node (remove_from_graph e (edge_drop e g)) x) =
     (if me_parent (mg_edge g e) = x then remove1 (Some e) (mn_childEdges (mg_node g x)) else mn_childEdges (mg_node g x))"
  "mn_parentEdges (mg_node (remove_from_graph e (edge_drop e g)) x) =
     (if me_child (mg_edge g e) = x then remove1 (Some e) (mn_parentEdges (mg_node g x)) else mn_parentEdges (mg_node g x))"
  "mg_edge (remove_from_graph e (edge_drop e g)) = mg_edge g"
  by (simp_all add: remove_from_graph_def edge_drop_def upd_node_def)

lemma new_edge_fields:
  "mg_graphEdges (new_edge par ch a b g) = mg_graphEdges g @ [mg_next_edge g]"
  "mg_next_edge (new_edge par ch a b g) = Suc (mg_next_edge g)"
  "mg_edge (new_edge par ch a b g) = (mg_edge g)(mg_next_edge g := mk_MKLDNNEdge par ch a b)"
  "par \<noteq> x \<Longrightarrow> ch \<noteq> x \<Longrightarrow> mg_node (new_edge par ch a b g) x = mg_node g x"
  by (simp_all add: new_edge_def addEdge_def upd_node_def upd_edge_def Let_def mk_MKLDNNEdge_def)

lemma drop_step:
  assumes st: "drop_state g x p cs j st" and j: "j < length cs"
    and d: "distinct (mg_graphEdges g)" "distinct (p # cs)" and sub: "set (p # cs) \<subseteq> set (mg_graphEdges g)"
    and fresh: "\<forall>e \<in> set (mg_graphEdges g). e < mg_next_edge g"
    and p: "me_child (mg_edge g p) = x" "me_parent (mg_edge g p) \<noteq> x"
    and cs: "\<forall>c \<in> set cs. me_parent (mg_edge g c) = x \<and> me_child (mg_edge g c) \<noteq> x"
  shows "drop_state g x p cs (Suc j) (drop_child (me_parent (mg_edge g p)) (Some (cs ! j)) st)"
proof -
  obtain q h where st_eq: "st = (q, h)" by (cases st)
  let ?c = "cs ! j" and ?n = "mg_next_edge g"
  have h: "q = (p # cs) ! j" "mg_graphEdges h = filter (\<lambda>e. j = 0 \<or> e \<notin> set (take (Suc j) (p # cs))) (mg_graphEdges g) @ map (\<lambda>i. ?n + i) [0..<j]"
    "mg_next_edge h = ?n + j" "\<And>e. e < ?n \<Longrightarrow> mg_edge h e = mg_edge g e"
    "\<And>i. i < j \<Longrightarrow> mg_edge h (?n + i) = mk_MKLDNNEdge (me_parent (mg_edge g p)) (me_child (mg_edge g (cs ! i)))
        (me_parent_port (mg_edge g ((p # cs) ! i))) (me_child_port (mg_edge g (cs ! i)))"
    "mn_childEdges (mg_node h x) = map Some (drop j cs)" "mn_parentEdges (mg_node h x) = (if j = 0 then [Some p] else [])"
    using st by (auto simp: drop_state_def st_eq)
  have c: "?c \<in> set (mg_graphEdges g)" "?c < ?n" "me_parent (mg_edge g ?c) = x" "me_child (mg_edge g ?c) \<noteq> x"
    using j sub fresh cs by (auto simp: subset_iff)
  have q: "q \<in> set (mg_graphEdges g)" "q < ?n" "q \<noteq> ?c"
    using h(1) j sub fresh d(2) by (auto simp: nth_Cons' nth_eq_iff_index_eq subset_iff split: if_splits)
  have app: "take (Suc (Suc j)) (p # cs) = take (Suc j) (p # cs) @ [?c]" "take (Suc j) (p # cs) = take j (p # cs) @ [q]"
    using j h(1) take_Suc_conv_app_nth [of "Suc j" "p # cs"] take_Suc_conv_app_nth [of j "p # cs"] by (simp_all del: take_Suc_Cons)
  have take: "set (take (Suc (Suc j)) (p # cs)) = insert ?c (set (take (Suc j) (p # cs)))" "q \<in> set (take (Suc j) (p # cs))"
    "?c \<notin> set (take (Suc j) (p # cs))" "j = 0 \<Longrightarrow> take (Suc j) (p # cs) = [q]"
    using app distinct_take [OF d(2), of "Suc (Suc j)"] by (simp_all del: take_Suc_Cons add: insert_commute)
  have alive: "?c \<in> set (mg_graphEdges h)" using c(1) take(3) by (simp add: h(2))
  let ?h1 = "remove_from_graph ?c (edge_drop ?c (remove_from_graph q (edge_drop q h)))"
  have edge: "mg_edge ?h1 = mg_edge h" "mg_next_edge ?h1 = mg_next_edge h"
    by (simp_all add: remove_from_graph_def edge_drop_def upd_node_def)
  have "mg_graphEdges ?h1 = remove1 ?c (remove1 q (mg_graphEdges h))"
    by (simp add: remove_from_graph_def edge_drop_def upd_node_def)
  also have "\<dots> = filter (\<lambda>e. e \<notin> set (take (Suc (Suc j)) (p # cs))) (mg_graphEdges g) @ map (\<lambda>i. ?n + i) [0..<j]"
  proof -
    have gone: "remove1 e (map (\<lambda>i. ?n + i) [0..<j]) = map (\<lambda>i. ?n + i) [0..<j]" if "e < ?n" for e
      using that by (intro remove1_idem) auto
    have "remove1 e (filter P (mg_graphEdges g) @ map (\<lambda>i. ?n + i) [0..<j]) =
        filter (\<lambda>x. P x \<and> x \<noteq> e) (mg_graphEdges g) @ map (\<lambda>i. ?n + i) [0..<j]" if "e < ?n" for e P
      using gone [OF that] filter_remove1 [OF d(1), of e P] by (auto simp: remove1_append filter_id_conv intro!: filter_cong)
    then show ?thesis using q(2) c(2) take by (auto simp: h(2) intro!: filter_cong)
  qed
  finally have ge: "mg_graphEdges ?h1 = filter (\<lambda>e. e \<notin> set (take (Suc (Suc j)) (p # cs))) (mg_graphEdges g) @ map (\<lambda>i. ?n + i) [0..<j]" .
  have drop: "drop j cs = ?c # drop (Suc j) cs" using j by (simp add: Cons_nth_drop_Suc)
  have nd: "?c \<notin> set (drop (Suc j) cs)" using d(2) j drop distinct_drop [of cs j] by simp
  have qs: "Some q \<notin> set (map Some (drop j cs))"
    using d(2) h(1) j by (auto simp: nth_Cons' in_set_conv_nth nth_eq_iff_index_eq split: if_splits)
  have ends: "if j = 0 then q = p \<and> me_child (mg_edge g q) = x \<and> me_parent (mg_edge g q) \<noteq> x
      else me_parent (mg_edge g q) = x \<and> me_child (mg_edge g q) \<noteq> x"
    using h(1) p cs j by (auto simp: nth_Cons')
  have node: "mn_childEdges (mg_node ?h1 x) = map Some (drop (Suc j) cs)" "mn_parentEdges (mg_node ?h1 x) = []"
    using ends c(3,4) nd h(6,7) remove1_idem [OF qs] drop
    unfolding edge_drop_lists h(4) [OF q(2)] h(4) [OF c(2)] by (auto split: if_splits)
  have "drop_child (me_parent (mg_edge g p)) (Some ?c) st = (?c, new_edge (me_parent (mg_edge g p)) (me_child (mg_edge g ?c))
      (me_parent_port (mg_edge g q)) (me_child_port (mg_edge g ?c)) ?h1)"
    using q(3) alive h(4) [OF q(2)] h(4) [OF c(2)]
    by (simp add: drop_child_def st_eq lock_def Let_def) (simp add: remove_from_graph_def edge_drop_def upd_node_def)
  moreover have "drop_state g x p cs (Suc j) (?c, new_edge (me_parent (mg_edge g p)) (me_child (mg_edge g ?c))
      (me_parent_port (mg_edge g q)) (me_child_port (mg_edge g ?c)) ?h1)"
    unfolding drop_state_def snd_conv fst_conv new_edge_fields(1-3) edge
      new_edge_fields(4) [where x = x, OF p(2) c(4)]
  proof (intro conjI allI impI)
    show "?c = (p # cs) ! Suc j" by simp
    show "mg_graphEdges ?h1 @ [mg_next_edge h] = filter (\<lambda>e. Suc j = 0 \<or> e \<notin> set (take (Suc (Suc j)) (p # cs))) (mg_graphEdges g) @
        map ((+) ?n) [0..<Suc j]" unfolding ge h(3) by simp
    fix i assume i: "i < Suc j"
    show "((mg_edge h)(mg_next_edge h := mk_MKLDNNEdge (me_parent (mg_edge g p)) (me_child (mg_edge g ?c)) (me_parent_port (mg_edge g q))
        (me_child_port (mg_edge g ?c)))) (?n + i) = mk_MKLDNNEdge (me_parent (mg_edge g p)) (me_child (mg_edge g (cs ! i)))
        (me_parent_port (mg_edge g ((p # cs) ! i))) (me_child_port (mg_edge g (cs ! i)))"
      using i h(5) by (cases "i = j") (simp_all add: h(3) flip: h(1))
  qed (use node h(3,4) in simp_all)
  ultimately show ?thesis by simp
qed

text \<open>
  C27. Dropping a node with one incoming edge and at least one outgoing edge takes the edge and all outgoing ones out of the graph and
  puts one new edge per outgoing edge in, from the parent to the child, with the port of the child; the
  port of the parent is right for the first new edge only, the others get the port of the outgoing edge
  before. The node is left without edges.
\<close>

theorem drop_rewires:
  assumes "mn_parentEdges (mg_node g x) = [Some p]" "mn_childEdges (mg_node g x) = map Some cs" "cs \<noteq> []"
    and "distinct (mg_graphEdges g)" "distinct (p # cs)" "set (p # cs) \<subseteq> set (mg_graphEdges g)"
    and "\<forall>e \<in> set (mg_graphEdges g). e < mg_next_edge g"
    and "me_child (mg_edge g p) = x" "me_parent (mg_edge g p) \<noteq> x"
    and "\<forall>c \<in> set cs. me_parent (mg_edge g c) = x \<and> me_child (mg_edge g c) \<noteq> x"
  shows "mg_graphEdges (DropNode x g) = filter (\<lambda>e. e \<notin> set (p # cs)) (mg_graphEdges g) @ map (\<lambda>i. mg_next_edge g + i) [0..<length cs] \<and>
    (\<forall>i < length cs. mg_edge (DropNode x g) (mg_next_edge g + i) =
       mk_MKLDNNEdge (me_parent (mg_edge g p)) (me_child (mg_edge g (cs ! i)))
         (me_parent_port (mg_edge g ((p # cs) ! i))) (me_child_port (mg_edge g (cs ! i)))) \<and>
    node_isDropped (DropNode x g) x"
proof -
  let ?f = "drop_child (me_parent (mg_edge g p))"
  have "drop_state g x p cs j (fold ?f (map Some (take j cs)) (p, g))" if "j \<le> length cs" for j
    using that
  proof (induction j)
    case 0
    then show ?case using assms(1,2) by (simp add: drop_state_def)
  next
    case (Suc j)
    then show ?case
      using drop_step [OF _ _ assms(4-10), of j] by (simp add: take_Suc_conv_app_nth)
  qed
  from this [of "length cs"] have "drop_state g x p cs (length cs) (fold ?f (map Some cs) (p, g))" by simp
  moreover have "DropNode x g = snd (fold ?f (map Some cs) (p, g))"
    using assms(1,2,6) by (simp add: DropNode_def drop_parent_def lock_def)
  ultimately show ?thesis
    using assms(3) by (auto simp: drop_state_def node_isDropped_def isEdgesEmpty_def)
qed

text \<open>
  A node with two outputs, both to a third node over an identity: the edge that replaces the
  second path comes out of port 0 instead of port 1.
\<close>

definition ex_drop :: MKLDNNGraph where [examples]:
  "ex_drop = \<lparr>mg_node = (\<lambda>x. \<lparr>mn_type = NT_Power, mn_inDims = [], mn_outDims = [],
       mn_parentEdges = (if x = 1 then [Some 0] else if x = 2 then [Some 1] else if x = 3 then [Some 2] else []),
       mn_childEdges = (if x = 0 then [Some 0] else if x = 1 then [Some 1, Some 2] else []), mn_permanent = False,
       mn_temporary = False, mn_constant = CT_Unknown, mn_execIndex = -1\<rparr>),
     mg_edge = (\<lambda>e. if e = 0 then mk_MKLDNNEdge 0 1 1 0 else if e = 1 then mk_MKLDNNEdge 1 2 0 0 else mk_MKLDNNEdge 1 3 0 0),
     mg_graphNodes = [0, 1, 2, 3], mg_graphEdges = [0, 1, 2], mg_next_edge = 3, mg_reuse_io_tensors = True, mg_memWorkspace = None\<rparr>"

theorem drop_rewires_witness:
  "me_parent_port (mg_edge (DropNode 1 ex_drop) 3) = 1 \<and> me_parent_port (mg_edge (DropNode 1 ex_drop) 4) = 0 \<and>
     me_parent (mg_edge (DropNode 1 ex_drop) 4) = 0"
proof -
  have "mg_next_edge ex_drop = 3" "mg_edge ex_drop 0 = mk_MKLDNNEdge 0 1 1 0" "mg_edge ex_drop 1 = mk_MKLDNNEdge 1 2 0 0"
    "mg_edge ex_drop 2 = mk_MKLDNNEdge 1 3 0 0"
    by (simp_all add: examples)
  moreover have "(\<forall>i < length [1 :: nat, 2]. P i) \<longleftrightarrow> P 0 \<and> P 1" for P
    by (auto simp: less_Suc_eq)
  ultimately show ?thesis
    using drop_rewires [of ex_drop 1 0 "[1, 2]"] by (simp add: mk_MKLDNNEdge_def) (simp add: examples)
qed

end
