(* ===== verification/CpuMemory.thy ===== *)
theory CpuMemory
  imports CpuGraph MemorySolver
begin

text \<open>
  Memory of the edges of the CPU graph: \<open>AllocateWithReuse\<close> of
  \<open>src/src/mkldnn_plugin/mkldnn_graph.cpp\<close> and the states of an edge in \<open>mkldnn_edge.cpp\<close>. Edges
  that are views on one memory are collected in clusters, a cluster becomes a box of the memory solver,
  and the one edge of a cluster that needs memory gets it where the solver put the box. Sizes are
  unbounded integers; what the memory holds (\<open>FillZero\<close>) is left out.
\<close>

section \<open>Descriptors\<close>

text \<open>Bits of an element; a custom precision carries its own size, which is not modelled.\<close>

definition precision_bits :: "Precision \<Rightarrow> nat" where
  "precision_bits p =
     (case p of P_FP32 \<Rightarrow> 32 | P_FP16 \<Rightarrow> 16 | P_I16 \<Rightarrow> 16 | P_U16 \<Rightarrow> 16 | P_I32 \<Rightarrow> 32 | P_I64 \<Rightarrow> 64 | P_U8 \<Rightarrow> 8 | P_I8 \<Rightarrow> 8
      | P_Q78 \<Rightarrow> 16 | P_BIN \<Rightarrow> 1 | _ \<Rightarrow> 0)"

definition precision_size :: "Precision \<Rightarrow> nat result" where
  "precision_size p =
     (if precision_bits p = 0 then Inl (Thrown '' cannot estimate element if precision is '') else Inr (precision_bits p div 8))"

definition uninitNum :: nat where "uninitNum = 2 ^ 64 - 1"

definition init_differ :: "nat \<Rightarrow> nat \<Rightarrow> bool" where
  "init_differ a b = (a \<noteq> b \<and> a \<noteq> uninitNum \<and> b \<noteq> uninitNum)"

definition initTensorsAreEqual :: "TensorDesc \<Rightarrow> TensorDesc \<Rightarrow> bool" where
  "initTensorsAreEqual desc1 desc2 =
     (if td_dims desc1 \<noteq> td_dims desc2 \<or> td_precision desc1 \<noteq> td_precision desc2 then False
      else if td_layout desc1 = L_SCALAR \<and> td_layout desc2 = L_SCALAR then True
      else if td_layout desc1 = L_ANY \<or> td_layout desc2 = L_ANY then True
      else
        let batch1 = (if td_dims desc1 ! 0 = 1 then 1 else 0);
            b1 = td_blockingDesc desc1; b2 = td_blockingDesc desc2
        in if length (bd_blockedDims b1) \<noteq> length (bd_blockedDims b2) then False
        else if list_ex (\<lambda>i.
            init_differ (bd_blockedDims b1 ! i) (bd_blockedDims b2 ! i) \<or>
            init_differ (bd_offsetPaddingToData b1 ! i) (bd_offsetPaddingToData b2 ! i) \<or>
            (i \<ge> batch1 \<and> init_differ (bd_strides b1 ! i) (bd_strides b2 ! i)) \<or>
            init_differ (bd_order b1 ! i) (bd_order b2 ! i)) [0..<length (bd_blockedDims b1)] then False
        else \<not> init_differ (bd_offsetPadding b1) (bd_offsetPadding b2))"

definition getDesc :: "MKLDNNGraph \<Rightarrow> nat \<Rightarrow> TensorDesc result" where
  "getDesc g e =
     (if \<not> initTensorsAreEqual (me_inputDesc (mg_edge g e)) (me_outputDesc (mg_edge g e))
      then Inl (Thrown ''Cannot get descriptor for edge: '') else Inr (me_inputDesc (mg_edge g e)))"

section \<open>States of an edge\<close>

definition changeStatus :: "EdgeStatus \<Rightarrow> nat \<Rightarrow> MKLDNNGraph \<Rightarrow> MKLDNNGraph result" where
  "changeStatus state e g =
     (if state = ES_NotAllocated then Inl (Thrown ''Incorrect behaviour! Use method sharedMemFrom()'')
      else if state = ES_Validated then Inl (Thrown ''Incorrect behaviour! Use method validate()'')
      else if me_status (mg_edge g e) \<noteq> ES_Uninitialized \<and> state = ES_NeedAllocation then Inr g
      else Inr (upd_edge e (\<lambda>d. (if me_status d = ES_NotAllocated then d\<lparr>me_memoryFromEdge := None\<rparr> else d)\<lparr>me_status := state\<rparr>) g))"

definition sharedMemFrom :: "nat \<Rightarrow> nat \<Rightarrow> MKLDNNGraph \<Rightarrow> MKLDNNGraph" where
  "sharedMemFrom edge e = upd_edge e (\<lambda>d. d\<lparr>me_memoryFromEdge := Some edge, me_status := ES_NotAllocated\<rparr>)"

definition getSharedEdge :: "MKLDNNGraph \<Rightarrow> nat \<Rightarrow> nat result" where
  "getSharedEdge g e =
     (case lock g (me_memoryFromEdge (mg_edge g e)) of
        None \<Rightarrow> Inl (Thrown ''The pointer on the edge with memory is empty!'') | Some s \<Rightarrow> Inr s)"

definition edge_allocate :: "int \<Rightarrow> nat \<Rightarrow> MKLDNNGraph \<Rightarrow> MKLDNNGraph result" where
  "edge_allocate mem_ptr e g =
     (let d = mg_edge g e; inputDesc = me_inputDesc d; outputDesc = me_outputDesc d in
      if me_status d \<noteq> ES_NeedAllocation then Inr g
      else if me_memory d \<noteq> None then Inl (Thrown ''status == NeedAllocation but memory is already allocated.'')
      else if \<not> initTensorsAreEqual outputDesc inputDesc \<or>
          (length (td_dims inputDesc) > 0 \<and> td_dims inputDesc ! 0 \<noteq> 1 \<and> \<not> td_eq inputDesc outputDesc)
        then Inl (Thrown ''Cannot allocate memory. Nodes have primitive descriptors with different formats.'')
      else if td_layout inputDesc = L_ANY then Inl (Thrown ''Cannot get input descriptor!'')
      else Inr (upd_edge e (\<lambda>d. d\<lparr>me_memory := Some mem_ptr, me_status := ES_Allocated\<rparr>) g))"

text \<open>
  A view takes the address from the edge it shares memory with, which may be a view itself. The chain
  may be circular; then the recursion is deeper than there are edges. (A shared edge without memory
  is a null pointer here, undefined behaviour; the model throws.)
\<close>

fun getMemoryPtr :: "nat \<Rightarrow> nat \<Rightarrow> MKLDNNGraph \<Rightarrow> (int option \<times> MKLDNNGraph) result" where
  "getMemoryPtr 0 e g = Inl OutOfFuel"
| "getMemoryPtr (Suc n) e g =
     (if me_status (mg_edge g e) = ES_NotAllocated then
        bindE (getDesc g e) (\<lambda>_.
        bindE (getSharedEdge g e) (\<lambda>shared.
        bindE (getMemoryPtr n shared g) (\<lambda>(ptr, g).
        bindE (case ptr of None \<Rightarrow> Inl OutOfRange | Some data \<Rightarrow> Inr data) (\<lambda>data.
        bindE (changeStatus ES_Allocated e (upd_edge e (\<lambda>d. d\<lparr>me_memory := Some data, me_memoryFromEdge := None\<rparr>) g)) (\<lambda>g.
        Inr (me_memory (mg_edge g e), g))))))
      else Inr (me_memory (mg_edge g e), g))"

definition memory_fuel :: "MKLDNNGraph \<Rightarrow> nat" where
  "memory_fuel g = Suc (length (mg_graphEdges g))"

text \<open>
  The dimensions of an edge, from the input port of the child or else the output port of the parent. A
  node lives while it is in the list of the graph. Products are unbounded.
\<close>

definition node_alive :: "MKLDNNGraph \<Rightarrow> nat \<Rightarrow> unit result" where
  "node_alive g x = (if x \<in> set (mg_graphNodes g) then Inr () else Inl (Thrown ''Edge contains empty node''))"

definition find_dims :: "MKLDNNGraph \<Rightarrow> nat \<Rightarrow> SizeVector result" where
  "find_dims g e =
     (let child = mg_node g (me_child (mg_edge g e)); parent = mg_node g (me_parent (mg_edge g e));
          inNum = me_child_port (mg_edge g e); outNum = me_parent_port (mg_edge g e) in
      bindE (node_alive g (me_child (mg_edge g e))) (\<lambda>_.
      bindE (node_alive g (me_parent (mg_edge g e))) (\<lambda>_.
      if inNum < 0 then Inl (Thrown ''Error cannot find input data for '')
      else if outNum < 0 then Inl (Thrown ''Error cannot find output data for '')
      else
        let outDims = (if nat inNum < length (mn_inDims child) then mn_inDims child ! nat inNum else []);
            outNum = (if nat outNum \<ge> length (mn_outDims parent) then 0 else nat outNum);
            inDims = (if outNum < length (mn_outDims parent) then mn_outDims parent ! outNum else [])
        in if inDims \<noteq> [] \<and> outDims \<noteq> [] \<and> length inDims \<noteq> length outDims \<and> prod_list inDims \<noteq> prod_list outDims
           then Inl (Thrown '' have incompatible dimensions!'')
           else Inr (if outDims \<noteq> [] then outDims else inDims))))"

definition getDims :: "nat \<Rightarrow> MKLDNNGraph \<Rightarrow> (SizeVector \<times> MKLDNNGraph) result" where
  "getDims e g =
     (if me_dims (mg_edge g e) \<noteq> [] then Inr (me_dims (mg_edge g e), g)
      else bindE (find_dims g e) (\<lambda>dims. Inr (dims, upd_edge e (\<lambda>d. d\<lparr>me_dims := dims\<rparr>) g)))"

definition edge_validate :: "nat \<Rightarrow> MKLDNNGraph \<Rightarrow> MKLDNNGraph result" where
  "edge_validate e g =
     (if me_status (mg_edge g e) = ES_Validated then Inr g
      else bindE (getMemoryPtr (memory_fuel g) e g) (\<lambda>(_, g).
        bindE (node_alive g (me_parent (mg_edge g e))) (\<lambda>_.
        bindE (node_alive g (me_child (mg_edge g e))) (\<lambda>_.
        bindE (getDims e g) (\<lambda>(_, g).
        if me_status (mg_edge g e) \<noteq> ES_Allocated then Inl (Thrown ''Error memory is not allocated!'')
        else Inr (upd_edge e (\<lambda>d. d\<lparr>me_status := ES_Validated\<rparr>) g))))))"

definition validate_edges :: "MKLDNNGraph \<Rightarrow> MKLDNNGraph result" where
  "validate_edges g = foldE edge_validate (mg_graphEdges g) g"

section \<open>Clusters\<close>

type_synonym clusters = "nat list list"

definition add_view :: "nat \<Rightarrow> nat \<Rightarrow> clusters \<Rightarrow> clusters" where
  "add_view par edge cls =
     (if list_ex (\<lambda>cl. par \<in> set cl) cls
      then map (\<lambda>cl. if par \<in> set cl \<and> edge \<notin> set cl then cl @ [edge] else cl) cls
      else cls @ [[par, edge]])"

definition add_edge :: "nat \<Rightarrow> clusters \<Rightarrow> clusters" where
  "add_edge edge cls = (if list_ex (\<lambda>cl. edge \<in> set cl) cls then cls else cls @ [[edge]])"

definition detect_cluster :: "MKLDNNGraph \<Rightarrow> nat \<Rightarrow> clusters \<Rightarrow> clusters result" where
  "detect_cluster g edge cls =
     (if me_status (mg_edge g edge) = ES_NotAllocated
      then bindE (getSharedEdge g edge) (\<lambda>par. Inr (add_view par edge cls))
      else Inr (add_edge edge cls))"

text \<open>The first cluster with the edge takes in the others, which are emptied and removed.\<close>

fun merge_into_first :: "(nat list \<Rightarrow> bool) \<Rightarrow> nat list \<Rightarrow> clusters \<Rightarrow> clusters" where
  "merge_into_first P merged [] = []"
| "merge_into_first P merged (cl # cls) =
     (if P cl then merged # map (\<lambda>cl. if P cl then [] else cl) cls else cl # merge_into_first P merged cls)"

definition merge_clusters :: "nat \<Rightarrow> clusters \<Rightarrow> clusters" where
  "merge_clusters edge cls =
     (let to_merge = filter (\<lambda>cl. edge \<in> set cl) cls in
      if length to_merge > 1
      then filter (\<lambda>cl. cl \<noteq> [])
        (merge_into_first (\<lambda>cl. edge \<in> set cl) (remdups_adj (std_sort (<) (concat to_merge))) cls)
      else cls)"

definition edge_clusters :: "MKLDNNGraph \<Rightarrow> clusters result" where
  "edge_clusters g =
     bindE (foldE (detect_cluster g) (mg_graphEdges g) []) (\<lambda>cls.
     Inr (fold merge_clusters (mg_graphEdges g) cls))"

section \<open>Boxes\<close>

definition edge_size :: "TensorDesc \<Rightarrow> int result" where
  "edge_size desc =
     (let b = td_blockingDesc desc;
          e_size = int (bd_offsetPadding b) + 1 +
            (\<Sum>j \<leftarrow> [0..<length (bd_blockedDims b)]. (int (bd_blockedDims b ! j) - 1) * int (bd_strides b ! j))
      in bindE (if td_precision desc = P_BIN then Inr 1 else precision_size (td_precision desc)) (\<lambda>sz. Inr (e_size * int sz)))"

definition box_edge :: "MKLDNNGraph \<Rightarrow> nat \<Rightarrow> Box \<Rightarrow> Box result" where
  "box_edge g e box =
     (let e_start = mn_execIndex (mg_node g (me_parent (mg_edge g e)));
          e_finish = mn_execIndex (mg_node g (me_child (mg_edge g e)))
      in bindE (getDesc g e) (\<lambda>desc. bindE (edge_size desc) (\<lambda>e_size.
         Inr (box\<lparr>box_start := min e_start (box_start box), box_finish := max e_finish (box_finish box),
           box_size := max e_size (box_size box)\<rparr>))))"

record BoxFlags =
  bf_isConst :: bool
  bf_isOutput :: bool
  bf_isInput :: bool

definition flag_edge :: "nat \<Rightarrow> BoxFlags \<times> MKLDNNGraph \<Rightarrow> (BoxFlags \<times> MKLDNNGraph) result" where
  "flag_edge e st =
     (let (f, g) = st in
      bindE (isConstOutput e g) (\<lambda>(c, g).
      let parent = mn_type (mg_node g (me_parent (mg_edge g e))); child = mn_type (mg_node g (me_child (mg_edge g e))) in
      Inr (\<lparr>bf_isConst = (bf_isConst f \<or> c \<or> parent = NT_MemoryInput),
            bf_isOutput = (bf_isOutput f \<or> child = NT_Output),
            bf_isInput = (bf_isInput f \<or> parent = NT_Input)\<rparr>, g)))"

definition box_flags :: "bool \<Rightarrow> BoxFlags \<Rightarrow> Box \<Rightarrow> Box" where
  "box_flags reuse_io f box =
     (if reuse_io then
        let box = (if bf_isInput f \<or> bf_isConst f then box\<lparr>box_start := 0\<rparr> else box) in
        (if bf_isOutput f \<or> bf_isConst f then box\<lparr>box_finish := -1\<rparr> else box)
      else if bf_isInput f \<or> bf_isOutput f \<or> bf_isConst f then box\<lparr>box_start := 0, box_finish := -1\<rparr> else box)"

definition alignment :: int where "alignment = 32"

definition cluster_box :: "nat \<Rightarrow> nat list \<Rightarrow> MKLDNNGraph \<Rightarrow> (Box \<times> MKLDNNGraph) result" where
  "cluster_box i cl g =
     bindE (foldE (box_edge g) cl \<lparr>box_start = 2147483647, box_finish = 0, box_size = 0, box_id = int i\<rparr>) (\<lambda>box.
     bindE (foldE flag_edge cl (\<lparr>bf_isConst = False, bf_isOutput = False, bf_isInput = False\<rparr>, g)) (\<lambda>(f, g).
     let box = box_flags (mg_reuse_io_tensors g) f box in
     Inr (box\<lparr>box_size := (box_size box + alignment - 1) div alignment\<rparr>, g)))"

definition add_box :: "clusters \<Rightarrow> nat \<Rightarrow> Box list \<times> MKLDNNGraph \<Rightarrow> (Box list \<times> MKLDNNGraph) result" where
  "add_box cls i st =
     (let (boxes, g) = st in bindE (cluster_box i (cls ! i) g) (\<lambda>(box, g). Inr (boxes @ [box], g)))"

section \<open>Allocation\<close>

definition allocate_edge :: "MemorySolver \<Rightarrow> int \<Rightarrow> nat \<Rightarrow> nat \<Rightarrow> nat \<times> MKLDNNGraph \<Rightarrow> (nat \<times> MKLDNNGraph) result" where
  "allocate_edge s ws i e st =
     (let (n, g) = st in
      if me_status (mg_edge g e) = ES_NeedAllocation then
        bindE (getOffset s (int i)) (\<lambda>offset.
        bindE (edge_allocate (ws + offset * alignment) e g) (\<lambda>g. Inr (n + 1, g)))
      else Inr (n, g))"

definition allocate_cluster :: "MemorySolver \<Rightarrow> int \<Rightarrow> clusters \<Rightarrow> nat \<Rightarrow> MKLDNNGraph \<Rightarrow> MKLDNNGraph result" where
  "allocate_cluster s ws cls i g =
     bindE (foldE (allocate_edge s ws i) (cls ! i) (0, g)) (\<lambda>(n, g). bindE (ie_assert (n = 1)) (\<lambda>_. Inr g))"

text \<open>\<open>ws\<close> is the address of the data of the workspace.\<close>

definition AllocateWithReuse :: "int \<Rightarrow> MKLDNNGraph \<Rightarrow> MKLDNNGraph result" where
  "AllocateWithReuse ws g =
     bindE (edge_clusters g) (\<lambda>cls.
     bindE (foldE (add_box cls) [0..<length cls] ([], g)) (\<lambda>(boxes, g).
     bindE (solve (mk_MemorySolver boxes)) (\<lambda>(depth, s).
     let g = g\<lparr>mg_memWorkspace := Some (ws, depth * alignment)\<rparr> in
     foldE (allocate_cluster s ws cls) [0..<length cls] g)))"

section \<open>Views\<close>

text \<open>
  \<open>cfg\<close> gives the in-place entries of the inputs and outputs of the selected primitive of a node, if
  it has one. The new memory object of a view keeps the address.
\<close>

type_synonym in_place = "nat \<rightharpoonup> int list \<times> int list"

definition resolve_edge :: "int \<Rightarrow> nat \<Rightarrow> MKLDNNGraph \<Rightarrow> MKLDNNGraph result" where
  "resolve_edge inPlace e g =
     (if me_status (mg_edge g e) \<noteq> ES_NotAllocated \<or> inPlace < 0 then Inr g
      else bindE (getMemoryPtr (memory_fuel g) e g) (\<lambda>(ptr, g).
        case ptr of None \<Rightarrow> Inl OutOfRange | Some _ \<Rightarrow> changeStatus ES_Allocated e g))"

definition resolveNotAllocatedEdges :: "in_place \<Rightarrow> nat \<Rightarrow> MKLDNNGraph \<Rightarrow> MKLDNNGraph result" where
  "resolveNotAllocatedEdges cfg x g =
     (case cfg x of
        None \<Rightarrow> Inl (Thrown ''Cannot find selected primitive descriptor for node: '')
      | Some (inConfs, outConfs) \<Rightarrow>
          bindE (foldE (\<lambda>i g. bindE (getParentEdgeAt g x i) (\<lambda>e. resolve_edge (inConfs ! i) e g))
            [0..<min (length (mn_parentEdges (mg_node g x))) (length inConfs)] g) (\<lambda>g.
          foldE (\<lambda>i g. bindE (getChildEdgeAt g x i) (\<lambda>e. resolve_edge (outConfs ! i) e g))
            [0..<min (length (mn_childEdges (mg_node g x))) (length outConfs)] g))"

text \<open>\<open>Allocate\<close> after its first loop, which has set the statuses of the edges (\<open>init\<close>).\<close>

definition Allocate :: "in_place \<Rightarrow> int \<Rightarrow> MKLDNNGraph \<Rightarrow> MKLDNNGraph result" where
  "Allocate cfg ws g =
     bindE (AllocateWithReuse ws g) (\<lambda>g.
     bindE (foldE (resolveNotAllocatedEdges cfg) (mg_graphNodes g) g) validate_edges)"

end
