(* ===== verification/CpuOrder.thy ===== *)
theory CpuOrder
  imports CpuGraph
begin

text \<open>
  What sorting the graph of the CPU plugin gives: on a graph without circles the nodes are numbered so
  that every edge goes up, and the edges of a node stand at the indices of their ports.
\<close>

section \<open>Sound links\<close>

definition child_ok :: "MKLDNNGraph \<Rightarrow> nat \<Rightarrow> nat option \<Rightarrow> bool" where
  "child_ok g x w \<longleftrightarrow> (\<exists>e. w = Some e \<and> e \<in> set (mg_graphEdges g) \<and> me_parent (mg_edge g e) = x \<and>
     me_child (mg_edge g e) \<in> set (mg_graphNodes g) \<and>
     0 \<le> me_parent_port (mg_edge g e) \<and> me_parent_port (mg_edge g e) < int (length (mn_outDims (mg_node g x))))"

definition parent_ok :: "MKLDNNGraph \<Rightarrow> nat \<Rightarrow> nat option \<Rightarrow> bool" where
  "parent_ok g x w \<longleftrightarrow> (\<exists>e. w = Some e \<and> e \<in> set (mg_graphEdges g) \<and> me_child (mg_edge g e) = x \<and>
     0 \<le> me_child_port (mg_edge g e) \<and> me_child_port (mg_edge g e) < int (length (mn_inDims (mg_node g x))))"

definition links_ok :: "MKLDNNGraph \<Rightarrow> bool" where
  "links_ok g \<longleftrightarrow> distinct (mg_graphNodes g) \<and>
     (\<forall>x \<in> set (mg_graphNodes g). (\<forall>w \<in> set (mn_childEdges (mg_node g x)). child_ok g x w) \<and>
       (\<forall>w \<in> set (mn_parentEdges (mg_node g x)). parent_ok g x w))"

lemma edge_at_ok: "i < length es \<Longrightarrow> es ! i = Some e \<Longrightarrow> e \<in> set (mg_graphEdges g) \<Longrightarrow> edge_at g es i = Inr e"
  by (simp add: edge_at_def lock_def)

lemma edge_at_Inr: "edge_at g es i = Inr e \<longleftrightarrow> i < length es \<and> es ! i = Some e \<and> e \<in> set (mg_graphEdges g)"
  by (auto simp: edge_at_def lock_def split: option.splits if_splits)

definition children :: "MKLDNNGraph \<Rightarrow> nat \<Rightarrow> nat set" where
  "children g x = {me_child (mg_edge g e) | e. Some e \<in> set (mn_childEdges (mg_node g x))}"

lemma nth_child:
  assumes "links_ok g" "x \<in> set (mg_graphNodes g)" "i < length (mn_childEdges (mg_node g x))"
  obtains e where "getChildEdgeAt g x i = Inr e" "Some e \<in> set (mn_childEdges (mg_node g x))"
    "me_child (mg_edge g e) \<in> set (mg_graphNodes g)" "me_child (mg_edge g e) \<in> children g x"
proof -
  have w: "mn_childEdges (mg_node g x) ! i \<in> set (mn_childEdges (mg_node g x))" using assms(3) by simp
  then have "child_ok g x (mn_childEdges (mg_node g x) ! i)" using assms(1,2) unfolding links_ok_def by blast
  then obtain e where "mn_childEdges (mg_node g x) ! i = Some e" "e \<in> set (mg_graphEdges g)"
    "me_child (mg_edge g e) \<in> set (mg_graphNodes g)" by (auto simp: child_ok_def)
  with w assms(3) show thesis by (intro that [of e]) (auto simp: getChildEdgeAt_def edge_at_def lock_def children_def)
qed

section \<open>The search\<close>

definition marked :: "nat set \<Rightarrow> nat set \<Rightarrow> MKLDNNGraph \<Rightarrow> MKLDNNGraph" where
  "marked T P g = g\<lparr>mg_node := \<lambda>x. (mg_node g x)\<lparr>mn_temporary := x \<in> T, mn_permanent := x \<in> P\<rparr>\<rparr>"

lemma marked_fields [simp]:
  "mn_temporary (mg_node (marked T P g) x) = (x \<in> T)" "mn_permanent (mg_node (marked T P g) x) = (x \<in> P)"
  "mn_childEdges (mg_node (marked T P g) x) = mn_childEdges (mg_node g x)" "mg_edge (marked T P g) = mg_edge g"
  "mn_parentEdges (mg_node (marked T P g) x) = mn_parentEdges (mg_node g x)"
  "mn_inDims (mg_node (marked T P g) x) = mn_inDims (mg_node g x)"
  "mn_outDims (mg_node (marked T P g) x) = mn_outDims (mg_node g x)"
  "mg_graphEdges (marked T P g) = mg_graphEdges g" "mg_graphNodes (marked T P g) = mg_graphNodes g"
  by (simp_all add: marked_def)

lemma marked_child [simp]: "getChildEdgeAt (marked T P g) x i = getChildEdgeAt g x i"
  by (simp add: getChildEdgeAt_def edge_at_def lock_def split: option.split)

lemma marked_enter: "upd_node x (\<lambda>n. n\<lparr>mn_temporary := True\<rparr>) (marked T P g) = marked (insert x T) P g"
  by (rule MKLDNNGraph.equality) (auto simp: upd_node_def marked_def)

lemma marked_leave: "x \<notin> T \<Longrightarrow>
  upd_node x (\<lambda>n. n\<lparr>mn_permanent := True, mn_temporary := False\<rparr>) (marked (insert x T) P g) = marked T (insert x P) g"
  by (rule MKLDNNGraph.equality) (auto simp: upd_node_def marked_def)

text \<open>In a sorted list every child of a node stands behind it.\<close>

fun topo_sorted :: "MKLDNNGraph \<Rightarrow> nat list \<Rightarrow> bool" where
  "topo_sorted g [] = True"
| "topo_sorted g (x # xs) = (children g x \<subseteq> set xs \<and> topo_sorted g xs)"

definition visit_ok :: "MKLDNNGraph \<Rightarrow> nat set \<Rightarrow> nat set \<Rightarrow> nat list \<Rightarrow> bool" where
  "visit_ok g T P S \<longleftrightarrow> distinct S \<and> set S = P \<inter> set (mg_graphNodes g) \<and> T \<inter> P \<inter> set (mg_graphNodes g) = {} \<and> topo_sorted g S"

definition visited :: "MKLDNNGraph \<Rightarrow> nat set \<Rightarrow> nat set \<Rightarrow> nat list \<Rightarrow> (MKLDNNGraph \<times> nat list) result \<Rightarrow> nat set \<Rightarrow> bool" where
  "visited g T P S r done \<longleftrightarrow> (\<exists>P' S'. r = Inr (marked T P' g, S') \<and> P \<subseteq> P' \<and> done \<subseteq> P' \<and> visit_ok g T P' S')"

lemma visit_all:
  assumes step: "\<And>x P S. x \<in> set xs \<Longrightarrow> visit_ok g T P S \<Longrightarrow> visited g T P S (f x (marked T P g, S)) {h x}"
    and "visit_ok g T P S"
  shows "visited g T P S (foldE f xs (marked T P g, S)) (h ` set xs)"
  using assms
proof (induction xs arbitrary: P S)
  case (Cons x xs)
  from Cons.prems(1) [OF _ Cons.prems(2), of x] obtain P1 S1 where
    1: "f x (marked T P g, S) = Inr (marked T P1 g, S1)" "P \<subseteq> P1" "h x \<in> P1" "visit_ok g T P1 S1"
    unfolding visited_def by auto
  have "visited g T P1 S1 (foldE f xs (marked T P1 g, S1)) (h ` set xs)"
    by (rule Cons.IH [OF _ 1(4)]) (use Cons.prems(1) in auto)
  then show ?case using 1 unfolding visited_def by auto
qed (auto simp: visited_def)

lemma VisitNode_ok:
  assumes g: "links_ok g" and rank: "\<And>x y. x \<in> set (mg_graphNodes g) \<Longrightarrow> y \<in> children g x \<Longrightarrow> rank x < (rank y :: nat)"
  shows "x \<in> set (mg_graphNodes g) \<Longrightarrow> visit_ok g T P S \<Longrightarrow> \<forall>t \<in> T \<inter> set (mg_graphNodes g). rank t < rank x \<Longrightarrow>
    card (set (mg_graphNodes g) - T) < n \<Longrightarrow> visited g T P S (VisitNode n x (marked T P g, S)) {x}"
proof (induction n arbitrary: x T P S)
  case (Suc n)
  let ?N = "set (mg_graphNodes g)"
  have xT: "x \<notin> T" using Suc.prems(1,3) by auto
  show ?case
  proof (cases "x \<in> P")
    case True
    then show ?thesis using xT Suc.prems(2) by (auto simp: visited_def)
  next
    case False
    let ?is = "[0..<length (mn_childEdges (mg_node g x))]"
    let ?f = "\<lambda>i st. bindE (getChildEdgeAt (fst st) x i) (\<lambda>e. VisitNode n (me_child (mg_edge (fst st) e)) st)"
    define h where "h i = (case getChildEdgeAt g x i of Inl _ \<Rightarrow> x | Inr e \<Rightarrow> me_child (mg_edge g e))" for i
    have ok: "visit_ok g (insert x T) P S" using Suc.prems(1,2) False by (auto simp: visit_ok_def)
    have "visited g (insert x T) P S (foldE ?f ?is (marked (insert x T) P g, S)) (h ` set ?is)"
    proof (rule visit_all [OF _ ok])
      fix i P S assume i: "i \<in> set ?is" and ok: "visit_ok g (insert x T) P S"
      from i have "i < length (mn_childEdges (mg_node g x))" by simp
      from nth_child [OF g Suc.prems(1) this] obtain e where e: "getChildEdgeAt g x i = Inr e"
        "me_child (mg_edge g e) \<in> ?N" "me_child (mg_edge g e) \<in> children g x" by metis
      let ?y = "me_child (mg_edge g e)"
      have xy: "rank x < rank ?y" using rank [OF Suc.prems(1) e(3)] .
      have "?N - insert x T \<subset> ?N - T" using Suc.prems(1) xT by blast
      then have "card (?N - insert x T) < card (?N - T)" by (intro psubset_card_mono) auto
      then have "visited g (insert x T) P S (VisitNode n ?y (marked (insert x T) P g, S)) {?y}"
        using Suc.prems(3,4) xy by (intro Suc.IH [OF e(2) ok]) (auto intro: less_trans)
      then show "visited g (insert x T) P S (?f i (marked (insert x T) P g, S)) {h i}"
        by (simp add: e(1) h_def)
    qed
    then obtain P' S' where r: "foldE ?f ?is (marked (insert x T) P g, S) = Inr (marked (insert x T) P' g, S')"
      and P': "P \<subseteq> P'" "h ` set ?is \<subseteq> P'" "visit_ok g (insert x T) P' S'" unfolding visited_def by blast
    have "y \<in> h ` set ?is \<inter> ?N" if y: "y \<in> children g x" for y
    proof -
      from y obtain e where e: "Some e \<in> set (mn_childEdges (mg_node g x))" "y = me_child (mg_edge g e)" by (auto simp: children_def)
      then obtain i where i: "i < length (mn_childEdges (mg_node g x))" "mn_childEdges (mg_node g x) ! i = Some e"
        by (metis in_set_conv_nth)
      from nth_child [OF g Suc.prems(1) i(1)] obtain e' where "getChildEdgeAt g x i = Inr e'" "me_child (mg_edge g e') \<in> ?N" by metis
      moreover then have "e' = e" using i(2) by (simp add: getChildEdgeAt_def edge_at_Inr)
      ultimately show ?thesis using e(2) i(1) by (intro IntI image_eqI [of _ _ i]) (simp_all add: h_def)
    qed
    then have ch: "children g x \<subseteq> set S'" using P' by (auto simp: visit_ok_def)
    have "x \<notin> P'" using P'(3) Suc.prems(1) by (auto simp: visit_ok_def)
    then have "visit_ok g T (insert x P') (x # S')" using P'(3) Suc.prems(1) xT ch by (auto simp: visit_ok_def)
    moreover have "VisitNode (Suc n) x (marked T P g, S) = Inr (marked T (insert x P') g, x # S')"
      using xT False r by (simp add: marked_enter marked_leave [OF xT])
    ultimately show ?thesis using P'(1) by (auto simp: visited_def)
  qed
qed simp

lemma reset_marked: "\<exists>T P. reset_marks xs g = marked T P g \<and> T \<inter> set xs = {} \<and> P \<inter> set xs = {}"
proof -
  have "\<exists>T P. fold (\<lambda>x. upd_node x (\<lambda>n. n\<lparr>mn_permanent := False, mn_temporary := False\<rparr>)) xs (marked T0 P0 g) = marked T P g \<and>
      T \<inter> set xs = {} \<and> P \<inter> set xs = {} \<and> T \<subseteq> T0 \<and> P \<subseteq> P0" for T0 P0
  proof (induction xs arbitrary: T0 P0)
    case (Cons x xs)
    have "upd_node x (\<lambda>n. n\<lparr>mn_permanent := False, mn_temporary := False\<rparr>) (marked T0 P0 g) = marked (T0 - {x}) (P0 - {x}) g"
      by (rule MKLDNNGraph.equality) (auto simp: upd_node_def marked_def)
    with Cons.IH [of "T0 - {x}" "P0 - {x}"] show ?case by fastforce
  qed auto
  moreover have "g = marked {x. mn_temporary (mg_node g x)} {x. mn_permanent (mg_node g x)} g"
    by (rule MKLDNNGraph.equality) (simp_all add: marked_def)
  ultimately show ?thesis unfolding reset_marks_def by metis
qed

lemma search_all:
  assumes g: "links_ok g" and rank: "\<And>x y. x \<in> set (mg_graphNodes g) \<Longrightarrow> y \<in> children g x \<Longrightarrow> rank x < (rank y :: nat)"
  shows "\<exists>T P S. foldE (VisitNode (Suc (length (mg_graphNodes g)))) (mg_graphNodes g) (reset_marks (mg_graphNodes g) g, []) =
      Inr (marked T P g, S) \<and> distinct S \<and> set S = set (mg_graphNodes g) \<and> topo_sorted g S"
proof -
  let ?N = "mg_graphNodes g"
  obtain T P where r: "reset_marks ?N g = marked T P g" and TP: "T \<inter> set ?N = {}" "P \<inter> set ?N = {}"
    using reset_marked by blast
  have ok: "visit_ok g T P []" using TP by (auto simp: visit_ok_def)
  have "visited g T P [] (foldE (VisitNode (Suc (length ?N))) ?N (marked T P g, [])) ((\<lambda>x. x) ` set ?N)"
  proof (rule visit_all [OF _ ok])
    fix x P S assume x: "x \<in> set ?N" and ok: "visit_ok g T P S"
    have "card (set ?N - T) \<le> card (set ?N)" by (rule card_mono) auto
    then have "card (set ?N - T) < Suc (length ?N)" using card_length [of ?N] by linarith
    then show "visited g T P S (VisitNode (Suc (length ?N)) x (marked T P g, S)) {x}"
      using TP(1) by (intro VisitNode_ok [OF g rank x ok]) auto
  qed
  then obtain P' S' where "foldE (VisitNode (Suc (length ?N))) ?N (marked T P g, []) = Inr (marked T P' g, S')"
    "set ?N \<subseteq> P'" "visit_ok g T P' S'" unfolding visited_def by auto
  then show ?thesis unfolding r visit_ok_def by blast
qed

section \<open>Numbers and ports\<close>

lemma topo_later:
  "topo_sorted g S \<Longrightarrow> i < length S \<Longrightarrow> y \<in> children g (S ! i) \<Longrightarrow> \<exists>j. i < j \<and> j < length S \<and> S ! j = y"
proof (induction S arbitrary: i)
  case (Cons x S)
  show ?case
  proof (cases i)
    case 0
    then have "y \<in> set S" using Cons.prems by auto
    then obtain j where "j < length S" "S ! j = y" by (metis in_set_conv_nth)
    then show ?thesis using 0 by (intro exI [of _ "Suc j"]) simp
  next
    case (Suc k)
    then obtain j where "k < j" "j < length S" "S ! j = y" using Cons.IH [of k] Cons.prems by auto
    then show ?thesis using Suc by (intro exI [of _ "Suc j"]) simp
  qed
qed simp

text \<open>What numbering and ordering keep: everything of the graph but the numbers and the order of the edges.\<close>

lemma set_execIndex_node:
  assumes "distinct S"
  shows "mg_node (set_execIndex S g) x =
      (if x \<in> set S then (mg_node g x)\<lparr>mn_execIndex := int (THE i. i < length S \<and> S ! i = x)\<rparr> else mg_node g x)"
    "mg_edge (set_execIndex S g) = mg_edge g" "mg_graphEdges (set_execIndex S g) = mg_graphEdges g"
    "mg_graphNodes (set_execIndex S g) = mg_graphNodes g"
proof -
  let ?f = "\<lambda>i. upd_node (S ! i) (\<lambda>n. n\<lparr>mn_execIndex := int i\<rparr>)"
  have "mg_node (fold ?f [0..<k] g) x =
      (if \<exists>i < k. S ! i = x then (mg_node g x)\<lparr>mn_execIndex := int (THE i. i < length S \<and> S ! i = x)\<rparr> else mg_node g x) \<and>
      mg_edge (fold ?f [0..<k] g) = mg_edge g \<and> mg_graphEdges (fold ?f [0..<k] g) = mg_graphEdges g \<and>
      mg_graphNodes (fold ?f [0..<k] g) = mg_graphNodes g" if "k \<le> length S" for k
    using that
  proof (induction k)
    case (Suc k)
    have the: "(THE i. i < length S \<and> S ! i = S ! k) = k"
      using assms Suc.prems by (intro the_equality) (auto simp: nth_eq_iff_index_eq)
    show ?case using Suc the by (auto simp: upd_node_def less_Suc_eq)
  qed simp
  from this [of "length S"] show "mg_node (set_execIndex S g) x =
      (if x \<in> set S then (mg_node g x)\<lparr>mn_execIndex := int (THE i. i < length S \<and> S ! i = x)\<rparr> else mg_node g x)"
    "mg_edge (set_execIndex S g) = mg_edge g" "mg_graphEdges (set_execIndex S g) = mg_graphEdges g"
    "mg_graphNodes (set_execIndex S g) = mg_graphNodes g"
    by (auto simp: set_execIndex_def in_set_conv_nth)
qed

text \<open>The edges stand at their ports: the same edges as before, and at the index of a port one of its edges.\<close>

definition at_ports :: "(nat \<Rightarrow> int) \<Rightarrow> nat \<Rightarrow> nat option list \<Rightarrow> nat option list \<Rightarrow> bool" where
  "at_ports port n es res \<longleftrightarrow> n \<le> length res \<and> mset (filter (\<lambda>w. w \<noteq> None) res) = mset es \<and>
     (\<forall>p < n. case res ! p of None \<Rightarrow> \<forall>e. Some e \<in> set es \<longrightarrow> port e \<noteq> int p | Some e \<Rightarrow> port e = int p)"

lemma filter_update_None:
  "p < length res \<Longrightarrow> res ! p = None \<Longrightarrow>
     mset (filter (\<lambda>w. w \<noteq> None) (res[p := Some e])) = add_mset (Some e) (mset (filter (\<lambda>w. w \<noteq> None) res))"
proof (induction res arbitrary: p)
  case (Cons w res)
  then show ?case by (cases p) auto
qed simp

lemma put_at_port_ok:
  assumes "at_ports port n es res" "port e = int p" "p < n"
  shows "\<exists>res'. put_at_port (port e) e res = Inr res' \<and> at_ports port n (es @ [Some e]) res'"
proof (cases "res ! p = None")
  case True
  have p: "p < length res" using assms by (simp add: at_ports_def)
  have "at_ports port n (es @ [Some e]) (res[p := Some e])"
    unfolding at_ports_def
  proof (intro conjI allI impI)
    show "mset (filter (\<lambda>w. w \<noteq> None) (res[p := Some e])) = mset (es @ [Some e])"
      unfolding filter_update_None [OF p True] using assms(1) by (simp add: at_ports_def)
    fix q assume q: "q < n"
    have "case res ! q of None \<Rightarrow> \<forall>e. Some e \<in> set es \<longrightarrow> port e \<noteq> int q | Some e \<Rightarrow> port e = int q"
      using assms(1) q unfolding at_ports_def by blast
    then show "case res[p := Some e] ! q of None \<Rightarrow> \<forall>e'. Some e' \<in> set (es @ [Some e]) \<longrightarrow> port e' \<noteq> int q | Some e \<Rightarrow> port e = int q"
      using assms(2) p by (cases "q = p") (auto split: option.splits)
  qed (use assms(1) in \<open>simp add: at_ports_def\<close>)
  then show ?thesis using assms(2) p True by (simp add: put_at_port_def)
next
  case False
  have p: "p < length res" "n \<le> length res" using assms by (simp_all add: at_ports_def)
  have "at_ports port n (es @ [Some e]) (res @ [Some e])"
    unfolding at_ports_def
  proof (intro conjI allI impI)
    fix q assume q: "q < n"
    have "case res ! q of None \<Rightarrow> \<forall>e. Some e \<in> set es \<longrightarrow> port e \<noteq> int q | Some e \<Rightarrow> port e = int q"
      using assms(1) q unfolding at_ports_def by blast
    then show "case (res @ [Some e]) ! q of None \<Rightarrow> \<forall>e'. Some e' \<in> set (es @ [Some e]) \<longrightarrow> port e' \<noteq> int q | Some e \<Rightarrow> port e = int q"
      using assms(2) p q False by (cases "q = p") (auto simp: nth_append split: option.splits)
  qed (use assms(1) in \<open>simp_all add: at_ports_def\<close>)
  then show ?thesis using assms(2) p False by (auto simp: put_at_port_def)
qed

lemma order_ports_ok:
  assumes "\<And>w. w \<in> set es \<Longrightarrow> \<exists>e. w = Some e \<and> e \<in> set (mg_graphEdges g) \<and> 0 \<le> port e \<and> port e < int n"
  shows "\<exists>res. order_ports g port n es = Inr res \<and> at_ports port n es res"
proof -
  have "\<exists>res. foldE (\<lambda>i res. bindE (edge_at g es i) (\<lambda>e. put_at_port (port e) e res)) [0..<k] (replicate n None) = Inr res \<and>
      at_ports port n (take k es) res" if "k \<le> length es" for k
    using that
  proof (induction k)
    case 0
    then show ?case by (simp add: at_ports_def)
  next
    case (Suc k)
    then have k: "k < length es" by simp
    then obtain e where e: "es ! k = Some e" "e \<in> set (mg_graphEdges g)" "0 \<le> port e" "port e < int n"
      using assms [of "es ! k"] by auto
    from Suc obtain res where "foldE (\<lambda>i res. bindE (edge_at g es i) (\<lambda>e. put_at_port (port e) e res)) [0..<k] (replicate n None) = Inr res"
      and res: "at_ports port n (take k es) res" by auto
    moreover have "port e = int (nat (port e))" "nat (port e) < n" using e by auto
    from put_at_port_ok [OF res this] obtain res' where "put_at_port (port e) e res = Inr res'" "at_ports port n (take k es @ [Some e]) res'" by blast
    ultimately show ?case using k e by (simp add: take_Suc_conv_app_nth edge_at_ok [OF k e(1,2)])
  qed
  from this [of "length es"] show ?thesis by (simp add: order_ports_def)
qed

text \<open>Ordering the edges of one node, then of all.\<close>

definition ordered :: "MKLDNNGraph \<Rightarrow> MKLDNNGraph \<Rightarrow> nat \<Rightarrow> bool" where
  "ordered g g' x \<longleftrightarrow>
     at_ports (\<lambda>e. me_child_port (mg_edge g e)) (length (mn_inDims (mg_node g x))) (mn_parentEdges (mg_node g x)) (mn_parentEdges (mg_node g' x)) \<and>
     at_ports (\<lambda>e. me_parent_port (mg_edge g e)) (length (mn_outDims (mg_node g x))) (mn_childEdges (mg_node g x)) (mn_childEdges (mg_node g' x))"

definition same_but_order :: "MKLDNNGraph \<Rightarrow> MKLDNNGraph \<Rightarrow> nat set \<Rightarrow> bool" where
  "same_but_order g g' xs \<longleftrightarrow> (\<exists>ps cs. g' = g\<lparr>mg_node := \<lambda>x. if x \<in> xs then (mg_node g x)\<lparr>mn_parentEdges := ps x, mn_childEdges := cs x\<rparr> else mg_node g x\<rparr>)"

lemma order_edges_all:
  assumes g: "links_ok g" and "distinct S" "set S \<subseteq> set (mg_graphNodes g)"
  shows "\<exists>g'. foldE order_edges S g = Inr g' \<and> same_but_order g g' (set S) \<and> (\<forall>x \<in> set S. ordered g g' x)"
  using assms(2,3)
proof (induction S rule: rev_induct)
  case Nil
  have "same_but_order g g {}" by (auto simp: same_but_order_def)
  then show ?case by simp
next
  case (snoc x S)
  then obtain g1 where g1: "foldE order_edges S g = Inr g1" "same_but_order g g1 (set S)" "\<forall>x \<in> set S. ordered g g1 x" by auto
  then obtain ps cs where f: "g1 = g\<lparr>mg_node := \<lambda>x. if x \<in> set S then (mg_node g x)\<lparr>mn_parentEdges := ps x, mn_childEdges := cs x\<rparr> else mg_node g x\<rparr>"
    by (auto simp: same_but_order_def)
  have x: "x \<notin> set S" "x \<in> set (mg_graphNodes g)" using snoc.prems by auto
  then have n: "mg_node g1 x = mg_node g x" "mg_edge g1 = mg_edge g" "mg_graphEdges g1 = mg_graphEdges g" by (simp_all add: f)
  have "\<exists>res. order_ports g1 (\<lambda>e. me_child_port (mg_edge g e)) (length (mn_inDims (mg_node g x))) (mn_parentEdges (mg_node g x)) = Inr res \<and>
      at_ports (\<lambda>e. me_child_port (mg_edge g e)) (length (mn_inDims (mg_node g x))) (mn_parentEdges (mg_node g x)) res"
    using g x(2) unfolding links_ok_def parent_ok_def by (intro order_ports_ok) (fastforce simp: n(3))
  then obtain p where p: "order_ports g1 (\<lambda>e. me_child_port (mg_edge g e)) (length (mn_inDims (mg_node g x))) (mn_parentEdges (mg_node g x)) = Inr p"
      "at_ports (\<lambda>e. me_child_port (mg_edge g e)) (length (mn_inDims (mg_node g x))) (mn_parentEdges (mg_node g x)) p" by blast
  have "\<exists>res. order_ports g1 (\<lambda>e. me_parent_port (mg_edge g e)) (length (mn_outDims (mg_node g x))) (mn_childEdges (mg_node g x)) = Inr res \<and>
      at_ports (\<lambda>e. me_parent_port (mg_edge g e)) (length (mn_outDims (mg_node g x))) (mn_childEdges (mg_node g x)) res"
    using g x(2) unfolding links_ok_def child_ok_def by (intro order_ports_ok) (fastforce simp: n(3))
  then obtain c where c: "order_ports g1 (\<lambda>e. me_parent_port (mg_edge g e)) (length (mn_outDims (mg_node g x))) (mn_childEdges (mg_node g x)) = Inr c"
      "at_ports (\<lambda>e. me_parent_port (mg_edge g e)) (length (mn_outDims (mg_node g x))) (mn_childEdges (mg_node g x)) c" by blast
  let ?g2 = "upd_node x (\<lambda>n. n\<lparr>mn_parentEdges := p, mn_childEdges := c\<rparr>) g1"
  have "order_edges x g1 = Inr ?g2" using p(1) c(1) by (simp add: order_edges_def n)
  moreover have "same_but_order g ?g2 (set (S @ [x]))"
    unfolding same_but_order_def
    by (intro exI [of _ "ps(x := p)"] exI [of _ "cs(x := c)"] MKLDNNGraph.equality) (auto simp: f upd_node_def x(1))
  moreover have "ordered g ?g2 y" if "y \<in> set (S @ [x])" for y
    using that g1(3) p(2) c(2) x(1) by (cases "y = x") (auto simp: ordered_def upd_node_def)
  ultimately show ?case using g1(1) by auto
qed

text \<open>The nodes keep what no step of the sorting writes.\<close>

lemma links_ok_same:
  assumes "links_ok g" "mg_edge h = mg_edge g" "mg_graphEdges h = mg_graphEdges g" "set (mg_graphNodes h) = set (mg_graphNodes g)"
    "distinct (mg_graphNodes h)"
    "\<And>x. mn_childEdges (mg_node h x) = mn_childEdges (mg_node g x) \<and> mn_parentEdges (mg_node h x) = mn_parentEdges (mg_node g x) \<and>
      mn_inDims (mg_node h x) = mn_inDims (mg_node g x) \<and> mn_outDims (mg_node h x) = mn_outDims (mg_node g x)"
  shows "links_ok h"
  using assms(1,5) unfolding links_ok_def child_ok_def parent_ok_def assms(2-4) by (simp add: assms(6))

lemma SortTopologically_result:
  assumes g: "links_ok g" and rank: "\<And>x y. x \<in> set (mg_graphNodes g) \<Longrightarrow> y \<in> children g x \<Longrightarrow> rank x < (rank y :: nat)"
  obtains S g' where "SortTopologically g = Inr g'" "mg_graphNodes g' = S" "distinct S" "set S = set (mg_graphNodes g)"
    "topo_sorted g S" "mg_edge g' = mg_edge g" "mg_graphEdges g' = mg_graphEdges g"
    "\<And>i. i < length S \<Longrightarrow> mn_execIndex (mg_node g' (S ! i)) = int i"
    "\<And>x. x \<in> set S \<Longrightarrow> ordered g g' x"
proof -
  obtain T P S where search: "foldE (VisitNode (Suc (length (mg_graphNodes g)))) (mg_graphNodes g) (reset_marks (mg_graphNodes g) g, []) =
      Inr (marked T P g, S)" and S: "distinct S" "set S = set (mg_graphNodes g)" "topo_sorted g S"
    using search_all [OF g, of rank] rank by blast
  let ?h = "(set_execIndex S (marked T P g))\<lparr>mg_graphNodes := S\<rparr>"
  note idx = set_execIndex_node [OF S(1), of "marked T P g"]
  have same: "mn_childEdges (mg_node ?h x) = mn_childEdges (mg_node g x) \<and> mn_parentEdges (mg_node ?h x) = mn_parentEdges (mg_node g x) \<and>
      mn_inDims (mg_node ?h x) = mn_inDims (mg_node g x) \<and> mn_outDims (mg_node ?h x) = mn_outDims (mg_node g x)" for x
    by (simp add: idx)
  have h: "links_ok ?h" by (rule links_ok_same [OF g _ _ _ _ same]) (simp_all add: idx S)
  obtain g' where g': "foldE order_edges S ?h = Inr g'" "same_but_order ?h g' (set S)" "\<forall>x \<in> set S. ordered ?h g' x"
    using order_edges_all [OF h S(1)] by auto
  from g'(2) obtain ps cs where f: "g' = ?h\<lparr>mg_node := \<lambda>x. if x \<in> set S then (mg_node ?h x)\<lparr>mn_parentEdges := ps x, mn_childEdges := cs x\<rparr> else mg_node ?h x\<rparr>"
    unfolding same_but_order_def by blast
  show thesis
  proof (rule that)
    show "SortTopologically g = Inr g'" using search g'(1) by (simp add: SortTopologically_def Let_def)
    show "mg_graphNodes g' = S" "mg_edge g' = mg_edge g" "mg_graphEdges g' = mg_graphEdges g" by (simp_all add: f idx)
    fix i assume i: "i < length S"
    have "(THE j. j < length S \<and> S ! j = S ! i) = i" using S(1) i by (intro the_equality) (auto simp: nth_eq_iff_index_eq)
    then show "mn_execIndex (mg_node g' (S ! i)) = int i" using i by (simp add: f idx)
  next
    fix x assume "x \<in> set S"
    then show "ordered g g' x" using g'(3) same [of x] by (simp add: ordered_def idx)
  qed (rule S)+
qed

text \<open>
  C25. On a graph without circles whose links are sound, \<open>SortTopologically\<close> returns: it permutes the
  nodes, numbers them by their place, every edge leads from a lower to a higher number, the edges are
  kept, and at the index of a port stands an edge of that port (or an empty pointer when it has none).
\<close>

theorem sort_orders_execution:
  assumes "links_ok g" and "\<forall>x \<in> set (mg_graphNodes g). \<forall>y \<in> children g x. rank x < (rank y :: nat)"
  shows "\<exists>g'. SortTopologically g = Inr g' \<and> distinct (mg_graphNodes g') \<and> set (mg_graphNodes g') = set (mg_graphNodes g) \<and>
    (\<forall>i < length (mg_graphNodes g'). mn_execIndex (mg_node g' (mg_graphNodes g' ! i)) = int i) \<and>
    (\<forall>x \<in> set (mg_graphNodes g). \<forall>y \<in> children g x. mn_execIndex (mg_node g' x) < mn_execIndex (mg_node g' y)) \<and>
    mg_edge g' = mg_edge g \<and> mg_graphEdges g' = mg_graphEdges g \<and>
    (\<forall>x \<in> set (mg_graphNodes g).
       at_ports (\<lambda>e. me_child_port (mg_edge g e)) (length (mn_inDims (mg_node g x))) (mn_parentEdges (mg_node g x)) (mn_parentEdges (mg_node g' x)) \<and>
       at_ports (\<lambda>e. me_parent_port (mg_edge g e)) (length (mn_outDims (mg_node g x))) (mn_childEdges (mg_node g x)) (mn_childEdges (mg_node g' x)))"
proof -
  obtain S g' where r: "SortTopologically g = Inr g'" "mg_graphNodes g' = S" "distinct S" "set S = set (mg_graphNodes g)"
    "topo_sorted g S" "mg_edge g' = mg_edge g" "mg_graphEdges g' = mg_graphEdges g"
    "\<And>i. i < length S \<Longrightarrow> mn_execIndex (mg_node g' (S ! i)) = int i"
    "\<And>x. x \<in> set S \<Longrightarrow> ordered g g' x"
    using SortTopologically_result [OF assms(1)] assms(2) by metis
  have "mn_execIndex (mg_node g' x) < mn_execIndex (mg_node g' y)" if "x \<in> set (mg_graphNodes g)" "y \<in> children g x" for x y
  proof -
    from that(1) r(4) obtain i where i: "i < length S" "S ! i = x" by (metis in_set_conv_nth)
    with topo_later [OF r(5)] that(2) obtain j where "i < j" "j < length S" "S ! j = y" by blast
    then show ?thesis using r(8) i by force
  qed
  then show ?thesis using r unfolding ordered_def by (intro exI [of _ g']) auto
qed

section \<open>An example\<close>

text \<open>An input, a node with two inputs and an output, listed from the end: the input feeds both ports of the node.\<close>

definition ex_node3 :: "NodeType \<Rightarrow> nat \<Rightarrow> nat \<Rightarrow> nat list \<Rightarrow> nat list \<Rightarrow> MKLDNNNode" where [examples]:
  "ex_node3 ty ins outs ps cs = \<lparr>mn_type = ty, mn_inDims = replicate ins [1, 8], mn_outDims = replicate outs [1, 8],
     mn_parentEdges = map Some ps, mn_childEdges = map Some cs, mn_permanent = False, mn_temporary = False,
     mn_constant = CT_NoConst, mn_execIndex = -1\<rparr>"

definition ex_cpu :: MKLDNNGraph where [examples]:
  "ex_cpu = \<lparr>mg_node = (\<lambda>x. if x = 2 then ex_node3 NT_Input 0 1 [] [0, 1]
       else if x = 1 then ex_node3 NT_Eltwise 2 1 [1, 0] [2] else ex_node3 NT_Output 1 0 [2] []),
     mg_edge = (\<lambda>e. if e = 0 then mk_MKLDNNEdge 2 1 0 0 else if e = 1 then mk_MKLDNNEdge 2 1 0 1 else mk_MKLDNNEdge 1 0 0 0),
     mg_graphNodes = [0, 1, 2], mg_graphEdges = [0, 1, 2], mg_next_edge = 3, mg_reuse_io_tensors = True,
     mg_memWorkspace = None\<rparr>"

lemma ex_cpu_links: "links_ok ex_cpu"
  by (simp add: links_ok_def child_ok_def parent_ok_def examples)

lemma ex_cpu_children: "children ex_cpu 2 = {1}" "children ex_cpu 1 = {0}" "children ex_cpu 0 = {}"
  by (auto simp: children_def examples)

theorem sort_orders_execution_witness:
  "\<exists>g'. SortTopologically ex_cpu = Inr g' \<and> mn_execIndex (mg_node g' 2) < mn_execIndex (mg_node g' 1) \<and>
     mn_execIndex (mg_node g' 1) < mn_execIndex (mg_node g' 0)"
proof -
  have "mg_graphNodes ex_cpu = [0, 1, 2]" by (simp add: ex_cpu_def)
  then have rank: "\<forall>x \<in> set (mg_graphNodes ex_cpu). \<forall>y \<in> children ex_cpu x. 2 - x < 2 - y" and nodes: "{0, 1, 2} \<subseteq> set (mg_graphNodes ex_cpu)"
    using ex_cpu_children by (simp_all flip: One_nat_def)
  have "1 \<in> children ex_cpu 2" "0 \<in> children ex_cpu 1" by (simp_all only: ex_cpu_children insertI1)
  then show ?thesis using sort_orders_execution [OF ex_cpu_links rank] nodes by fastforce
qed

end
