(* ===== verification/CpuConstant.thy ===== *)
theory CpuConstant
  imports CpuOrder
begin

text \<open>
  The search for constant neighbours ends on a sorted graph, and changes nothing but the marks of the
  nodes that had none.
\<close>

definition exec_ok :: "MKLDNNGraph \<Rightarrow> bool" where
  "exec_ok g \<longleftrightarrow> links_ok g \<and> (\<forall>e \<in> set (mg_graphEdges g).
     me_parent (mg_edge g e) \<in> set (mg_graphNodes g) \<and> me_child (mg_edge g e) \<in> set (mg_graphNodes g) \<and>
     0 \<le> mn_execIndex (mg_node g (me_parent (mg_edge g e))) \<and>
     mn_execIndex (mg_node g (me_parent (mg_edge g e))) < mn_execIndex (mg_node g (me_child (mg_edge g e))))"

definition recon :: "(nat \<Rightarrow> ConstantType) \<Rightarrow> MKLDNNGraph \<Rightarrow> MKLDNNGraph" where
  "recon c g = g\<lparr>mg_node := \<lambda>x. (mg_node g x)\<lparr>mn_constant := c x\<rparr>\<rparr>"

lemma recon_fields [simp]:
  "mn_constant (mg_node (recon c g) x) = c x" "mg_edge (recon c g) = mg_edge g" "mg_graphEdges (recon c g) = mg_graphEdges g"
  "mn_childEdges (mg_node (recon c g) x) = mn_childEdges (mg_node g x)" "mn_type (mg_node (recon c g) x) = mn_type (mg_node g x)"
  "mn_parentEdges (mg_node (recon c g) x) = mn_parentEdges (mg_node g x)" "mg_graphNodes (recon c g) = mg_graphNodes g"
  "mn_execIndex (mg_node (recon c g) x) = mn_execIndex (mg_node g x)" "mg_reuse_io_tensors (recon c g) = mg_reuse_io_tensors g"
  by (simp_all add: recon_def)

lemma recon_inj [simp]: "recon c g = recon c' g \<longleftrightarrow> c = c'"
  by (metis ext recon_fields(1))

lemma recon_upd [simp]: "upd_node x (\<lambda>n. n\<lparr>mn_constant := d\<rparr>) (recon c g) = recon (c(x := d)) g"
  by (rule MKLDNNGraph.equality) (auto simp: upd_node_def recon_def)

lemma recon_self: "recon (\<lambda>x. mn_constant (mg_node g x)) g = g"
  by (rule MKLDNNGraph.equality) (simp_all add: recon_def)

lemma recon_look [simp]: "look_next look (recon c g) x i = look_next look g x i" "look_count look (recon c g) x = look_count look g x"
  by (simp_all add: look_next_def look_count_def getChildEdgeAt_def getParentEdgeAt_def edge_at_def lock_def split: LOOK.split option.split)

text \<open>How far a search can still go from a node.\<close>

definition reach_left :: "LOOK \<Rightarrow> MKLDNNGraph \<Rightarrow> nat \<Rightarrow> nat" where
  "reach_left look g x =
     (case look of LOOK_UP \<Rightarrow> nat (mn_execIndex (mg_node g x))
      | LOOK_DOWN \<Rightarrow> nat (Max ((\<lambda>x. mn_execIndex (mg_node g x)) ` set (mg_graphNodes g)) - mn_execIndex (mg_node g x)))"

lemma look_next_ok:
  assumes g: "exec_ok g" and x: "x \<in> set (mg_graphNodes g)" "i < look_count look g x"
  obtains y where "look_next look g x i = Inr y" "y \<in> set (mg_graphNodes g)" "reach_left look g y < reach_left look g x"
proof (cases look)
  case LOOK_UP
  with x(2) have i: "i < length (mn_parentEdges (mg_node g x))" by (simp add: look_count_def)
  then have "parent_ok g x (mn_parentEdges (mg_node g x) ! i)" using g x(1) unfolding exec_ok_def links_ok_def by simp
  then obtain e where e: "mn_parentEdges (mg_node g x) ! i = Some e" "e \<in> set (mg_graphEdges g)" "me_child (mg_edge g e) = x"
    unfolding parent_ok_def by blast
  then have "me_parent (mg_edge g e) \<in> set (mg_graphNodes g)" "0 \<le> mn_execIndex (mg_node g (me_parent (mg_edge g e)))"
    "mn_execIndex (mg_node g (me_parent (mg_edge g e))) < mn_execIndex (mg_node g x)"
    using g unfolding exec_ok_def by blast+
  then show thesis using LOOK_UP e edge_at_ok [OF i e(1,2)]
    by (intro that [of "me_parent (mg_edge g e)"]) (simp_all add: look_next_def getParentEdgeAt_def reach_left_def)
next
  case LOOK_DOWN
  with x(2) have i: "i < length (mn_childEdges (mg_node g x))" by (simp add: look_count_def)
  then have "child_ok g x (mn_childEdges (mg_node g x) ! i)" using g x(1) unfolding exec_ok_def links_ok_def by simp
  then obtain e where e: "mn_childEdges (mg_node g x) ! i = Some e" "e \<in> set (mg_graphEdges g)" "me_parent (mg_edge g e) = x"
    unfolding child_ok_def by blast
  then have y: "me_child (mg_edge g e) \<in> set (mg_graphNodes g)"
    "mn_execIndex (mg_node g x) < mn_execIndex (mg_node g (me_child (mg_edge g e)))"
    using g unfolding exec_ok_def by blast+
  have m: "mn_execIndex (mg_node g (me_child (mg_edge g e))) \<le> Max ((\<lambda>x. mn_execIndex (mg_node g x)) ` set (mg_graphNodes g))"
    using y(1) by (intro Max_ge) auto
  have "mn_execIndex (mg_node g x) < Max ((\<lambda>x. mn_execIndex (mg_node g x)) ` set (mg_graphNodes g))"
    using y(2) m by (rule less_le_trans)
  then show thesis using LOOK_DOWN e y edge_at_ok [OF i e(1,2)]
    by (intro that [of "me_child (mg_edge g e)"]) (simp_all add: look_next_def getChildEdgeAt_def reach_left_def)
qed

lemma checkConstant_ok:
  assumes g: "exec_ok g" and x: "x \<in> set (mg_graphNodes g)"
  shows "\<exists>ys. checkConstant look (recon c g) x q = Inr (c x, q @ ys) \<and> set ys \<subseteq> set (mg_graphNodes g) \<and>
    (\<forall>y \<in> set ys. reach_left look g y < reach_left look g x)"
proof -
  let ?f = "\<lambda>i checkNodes. bindE (look_next look g x i) (\<lambda>y. Inr (if y \<in> set checkNodes then checkNodes else checkNodes @ [y]))"
  have "\<exists>ys. foldE ?f is q = Inr (q @ ys) \<and> set ys \<subseteq> set (mg_graphNodes g) \<and> (\<forall>y \<in> set ys. reach_left look g y < reach_left look g x)"
    if "set is \<subseteq> {0..<look_count look g x}" for "is" q
    using that
  proof (induction "is" arbitrary: q)
    case (Cons i "is")
    then obtain y where y: "look_next look g x i = Inr y" "y \<in> set (mg_graphNodes g)" "reach_left look g y < reach_left look g x"
      using look_next_ok [OF g x] by (metis atLeastLessThan_iff insert_subset list.simps(15))
    show ?case
    proof (cases "y \<in> set q")
      case True
      then show ?thesis using Cons y by simp
    next
      case False
      from Cons obtain ys where "foldE ?f is (q @ [y]) = Inr ((q @ [y]) @ ys)" "set ys \<subseteq> set (mg_graphNodes g)"
        "\<forall>y \<in> set ys. reach_left look g y < reach_left look g x" by fastforce
      then show ?thesis using y False by (intro exI [of _ "y # ys"]) simp
    qed
  qed simp
  from this [of "[0..<look_count look g x]" q] show ?thesis
    by (cases "c x = CT_Unknown") (auto simp: checkConstant_def)
qed

lemma constant_loop_ok:
  assumes g: "exec_ok g"
  shows "set q \<subseteq> set (mg_graphNodes g) \<Longrightarrow>
    \<exists>c'. constant_loop look x q (recon c g) = Some (Inr (recon c' g)) \<and> (\<forall>y. y \<noteq> x \<longrightarrow> c' y = c y)"
proof (induction q arbitrary: c rule: wf_induct_rule [OF wf_inv_image [OF wf_mult [OF wf_less_than], of "\<lambda>q. mset (map (reach_left look g) q)"]])
  case (1 q)
  show ?case
  proof (cases "c x = CT_NoConst \<or> q = []")
    case True
    then show ?thesis by (subst constant_loop.simps) auto
  next
    case False
    then obtain z q' where q: "q = z # q'" by (cases q) auto
    then obtain ys where ys: "checkConstant look (recon c g) z q = Inr (c z, q @ ys)" "set ys \<subseteq> set (mg_graphNodes g)"
      "\<forall>y \<in> set ys. reach_left look g y < reach_left look g z"
      using checkConstant_ok [OF g, of z look c q] 1(2) by auto
    have "(mset (map (reach_left look g) q') + mset (map (reach_left look g) ys), mset (map (reach_left look g) q') + {#reach_left look g z#}) \<in> mult less_than"
      by (rule one_step_implies_mult) (use ys(3) in auto)
    then have "(q' @ ys, q) \<in> inv_image (mult less_than) (\<lambda>q. mset (map (reach_left look g) q))"
      by (simp add: q)
    then have "\<exists>c'. constant_loop look x (q' @ ys) (recon (c(x := c z)) g) = Some (Inr (recon c' g)) \<and>
        (\<forall>y. y \<noteq> x \<longrightarrow> c' y = (c(x := c z)) y)"
      by (rule 1(1)) (use 1(2) ys(2) q in auto)
    then show ?thesis using False ys(1) q by (subst constant_loop.simps) auto
  qed
qed

lemma look_around_ok:
  assumes g: "exec_ok g" and x: "x \<in> set (mg_graphNodes g)"
  shows "\<exists>c'. look_around look x (recon c g) = Inr (recon c' g) \<and> (\<forall>y. y \<noteq> x \<longrightarrow> c' y = c y)"
proof -
  let ?f = "\<lambda>i checkNodes. bindE (look_next look g x i) (\<lambda>y. Inr (checkNodes @ [y]))"
  have "\<exists>q'. foldE ?f [0..<look_count look g x] [] = Inr q' \<and> set q' \<subseteq> set (mg_graphNodes g)"
  proof (rule foldE_total [where P = "\<lambda>q. set q \<subseteq> set (mg_graphNodes g)"])
    fix i q assume "i \<in> set [0..<look_count look g x]" "set q \<subseteq> set (mg_graphNodes g)"
    moreover then obtain y where "look_next look g x i = Inr y" "y \<in> set (mg_graphNodes g)" using look_next_ok [OF g x] by (metis atLeastLessThan_iff set_upt)
    ultimately show "\<exists>q'. ?f i q = Inr q' \<and> set q' \<subseteq> set (mg_graphNodes g)" by simp
  qed simp
  then obtain q where q: "foldE ?f [0..<look_count look g x] [] = Inr q" "set q \<subseteq> set (mg_graphNodes g)" by blast
  from constant_loop_ok [OF g q(2), of look x c] show ?thesis using q(1) by (auto simp: look_around_def returned_def)
qed

lemma isConstant_ok:
  assumes g: "exec_ok g" and x: "x \<in> set (mg_graphNodes g)"
  shows "\<exists>c'. isConstant x (recon c g) = Inr (c' x = CT_Const, recon c' g) \<and> c' x \<noteq> CT_Unknown \<and>
    (\<forall>y. y \<noteq> x \<or> c y \<noteq> CT_Unknown \<longrightarrow> c' y = c y)"
proof (cases "c x = CT_Unknown")
  case True
  obtain c1 where c1: "look_around LOOK_DOWN x (recon c g) = Inr (recon c1 g)" "\<And>y. y \<noteq> x \<Longrightarrow> c1 y = c y"
    using look_around_ok [OF g x] by blast
  obtain c2 where c2: "(if c1 x \<noteq> CT_Const then look_around LOOK_UP x (recon (c1(x := CT_Unknown)) g) else Inr (recon c1 g)) = Inr (recon c2 g)"
    "\<And>y. y \<noteq> x \<Longrightarrow> c2 y = c y"
  proof (cases "c1 x = CT_Const")
    case False
    obtain c2 where "look_around LOOK_UP x (recon (c1(x := CT_Unknown)) g) = Inr (recon c2 g)"
      "\<And>y. y \<noteq> x \<Longrightarrow> c2 y = (c1(x := CT_Unknown)) y"
      using look_around_ok [OF g x] by blast
    then show thesis using that [of c2] False c1(2) by auto
  qed (use that [of c1] c1(2) in simp)
  let ?c = "if c2 x = CT_Unknown then c2(x := CT_NoConst) else c2"
  have "isConstant x (recon c g) = Inr (?c x = CT_Const, recon ?c g)"
    using True c1(1) c2(1) by (auto simp: isConstant_def)
  moreover have "?c x \<noteq> CT_Unknown" by simp
  moreover have "\<forall>y. y \<noteq> x \<or> c y \<noteq> CT_Unknown \<longrightarrow> ?c y = c y" using c2(2) True by auto
  ultimately show ?thesis by blast
next
  case False
  then show ?thesis by (intro exI [of _ c]) (simp add: isConstant_def)
qed

definition keeps_marks :: "(nat \<Rightarrow> ConstantType) \<Rightarrow> (nat \<Rightarrow> ConstantType) \<Rightarrow> bool" where
  "keeps_marks c c' \<longleftrightarrow> (\<forall>y. c y \<noteq> CT_Unknown \<longrightarrow> c' y = c y)"

text \<open>The marks that decide about an edge are there.\<close>

abbreviation marks :: "MKLDNNGraph \<Rightarrow> nat \<Rightarrow> ConstantType" where
  "marks g \<equiv> \<lambda>x. mn_constant (mg_node g x)"

definition settled :: "MKLDNNGraph \<Rightarrow> (nat \<Rightarrow> ConstantType) \<Rightarrow> nat \<Rightarrow> bool" where
  "settled g c e \<longleftrightarrow> c (me_parent (mg_edge g e)) \<noteq> CT_Unknown \<and>
     (c (me_parent (mg_edge g e)) = CT_Const \<longrightarrow> c (me_child (mg_edge g e)) \<noteq> CT_Unknown)"

lemma keeps_marks_trans: "keeps_marks c c' \<Longrightarrow> keeps_marks c' c'' \<Longrightarrow> keeps_marks c c''"
  by (simp add: keeps_marks_def)

lemma isConstOutput_ok:
  assumes g: "exec_ok g" and e: "e \<in> set (mg_graphEdges g)"
  shows "\<exists>b c'. isConstOutput e (recon c g) = Inr (b, recon c' g) \<and> keeps_marks c c' \<and> settled g c' e \<and>
    (c' (me_parent (mg_edge g e)) = CT_Const \<and> c' (me_child (mg_edge g e)) = CT_NoConst \<longrightarrow> b)"
proof -
  let ?p = "me_parent (mg_edge g e)" and ?c = "me_child (mg_edge g e)"
  have N: "?p \<in> set (mg_graphNodes g)" "?c \<in> set (mg_graphNodes g)" using g e by (auto simp: exec_ok_def)
  obtain c1 where c1: "isConstant ?p (recon c g) = Inr (c1 ?p = CT_Const, recon c1 g)" "keeps_marks c c1" "c1 ?p \<noteq> CT_Unknown"
    using isConstant_ok [OF g N(1)] unfolding keeps_marks_def by metis
  obtain c2 where c2: "isConstant ?c (recon c1 g) = Inr (c2 ?c = CT_Const, recon c2 g)" "keeps_marks c1 c2" "c2 ?c \<noteq> CT_Unknown"
    using isConstant_ok [OF g N(2)] unfolding keeps_marks_def by metis
  show ?thesis
  proof (cases "c1 ?p = CT_Const")
    case True
    then show ?thesis using c1 c2
      by (intro exI [of _ "c2 ?c \<noteq> CT_Const"] exI [of _ c2]) (auto simp: isConstOutput_def keeps_marks_def settled_def)
  next
    case False
    then show ?thesis using c1
      by (intro exI [of _ False] exI [of _ c1]) (auto simp: isConstOutput_def keeps_marks_def settled_def)
  qed
qed

end
