(* ===== verification/CpuReuse.thy ===== *)
theory CpuReuse
  imports CpuMemory CpuConstant
begin

text \<open>
  Reuse of memory in the CPU graph is safe: the clusters are the classes of edges that view the same
  memory, their boxes cover the lifetimes of their edges, and so edges whose lifetimes meet stay apart.
\<close>

section \<open>Clusters are the classes of views\<close>

text \<open>
  Sharing is sound when every view leads, in finitely many links, to an edge that needs memory: its
  root.
\<close>

definition sharing_ok :: "MKLDNNGraph \<Rightarrow> (nat \<Rightarrow> nat) \<Rightarrow> (nat \<Rightarrow> nat) \<Rightarrow> bool" where
  "sharing_ok g root depth \<longleftrightarrow> (\<forall>e \<in> set (mg_graphEdges g).
     me_status (mg_edge g e) = ES_NeedAllocation \<and> root e = e \<or>
     me_status (mg_edge g e) = ES_NotAllocated \<and> (\<exists>p \<in> set (mg_graphEdges g).
       me_memoryFromEdge (mg_edge g e) = Some p \<and> root e = root p \<and> depth p < depth e))"

lemma sharing_view:
  assumes "sharing_ok g root depth" "e \<in> set (mg_graphEdges g)" "me_status (mg_edge g e) = ES_NotAllocated"
  obtains p where "p \<in> set (mg_graphEdges g)" "getSharedEdge g e = Inr p" "root e = root p" "depth p < depth e"
  using assms unfolding sharing_ok_def getSharedEdge_def lock_def by fastforce

lemma sharing_need:
  assumes "sharing_ok g root depth" "e \<in> set (mg_graphEdges g)" "me_status (mg_edge g e) \<noteq> ES_NotAllocated"
  shows "me_status (mg_edge g e) = ES_NeedAllocation" "root e = e"
  using assms unfolding sharing_ok_def by fastforce+

definition clusters_ok :: "MKLDNNGraph \<Rightarrow> (nat \<Rightarrow> nat) \<Rightarrow> nat set \<Rightarrow> clusters \<Rightarrow> bool" where
  "clusters_ok g root D cls \<longleftrightarrow>
     (\<forall>cl \<in> set cls. cl \<noteq> [] \<and> set cl \<subseteq> set (mg_graphEdges g) \<and> (\<exists>r. \<forall>x \<in> set cl. root x = r)) \<and>
     (\<forall>e \<in> D. \<exists>cl \<in> set cls. e \<in> set cl \<and>
       (me_status (mg_edge g e) = ES_NotAllocated \<longrightarrow> (\<forall>p. getSharedEdge g e = Inr p \<longrightarrow> p \<in> set cl)))"

lemma clusters_grow:
  assumes "clusters_ok g root D cls" "\<And>cl. cl \<in> set cls \<Longrightarrow> \<exists>cl' \<in> set cls'. set cl \<subseteq> set cl'"
    and "\<And>cl. cl \<in> set cls' \<Longrightarrow> cl \<noteq> [] \<and> set cl \<subseteq> set (mg_graphEdges g) \<and> (\<exists>r. \<forall>x \<in> set cl. root x = r)"
  shows "clusters_ok g root D cls'"
  using assms unfolding clusters_ok_def by (meson subsetD)

lemma detect_cluster_ok:
  assumes s: "sharing_ok g root depth" and e: "e \<in> set (mg_graphEdges g)" and ok: "clusters_ok g root D cls"
  shows "\<exists>cls'. detect_cluster g e cls = Inr cls' \<and> clusters_ok g root (insert e D) cls'"
proof (cases "me_status (mg_edge g e) = ES_NotAllocated")
  case True
  obtain p where p: "p \<in> set (mg_graphEdges g)" "getSharedEdge g e = Inr p" "root e = root p"
    using sharing_view [OF s e True] by blast
  let ?cls = "add_view p e cls"
  have each: "cl \<noteq> [] \<and> set cl \<subseteq> set (mg_graphEdges g) \<and> (\<exists>r. \<forall>x \<in> set cl. root x = r)" if "cl \<in> set ?cls" for cl
  proof -
    have old: "cl \<noteq> [] \<and> set cl \<subseteq> set (mg_graphEdges g) \<and> (\<exists>r. \<forall>x \<in> set cl. root x = r)" if "cl \<in> set cls" for cl
      using ok that unfolding clusters_ok_def by blast
    from that consider "cl = [p, e]" | "cl \<in> set cls" | cl0 where "cl0 \<in> set cls" "p \<in> set cl0" "cl = cl0 @ [e]"
      unfolding add_view_def by (auto split: if_splits)
    then show ?thesis
    proof cases
      case 3
      then show ?thesis using old [OF 3(1)] e p(3) by fastforce
    qed (use old e p in auto)
  qed
  have "\<exists>cl' \<in> set ?cls. set cl \<subseteq> set cl'" if "cl \<in> set cls" for cl
  proof (cases "list_ex (\<lambda>cl. p \<in> set cl) cls")
    case True
    let ?f = "\<lambda>cl. if p \<in> set cl \<and> e \<notin> set cl then cl @ [e] else cl"
    have "?f cl \<in> set ?cls" "set cl \<subseteq> set (?f cl)" using that True by (simp add: add_view_def) auto
    then show ?thesis by blast
  qed (use that in \<open>auto simp: add_view_def\<close>)
  then have "clusters_ok g root D ?cls" using clusters_grow [OF ok _ each] by blast
  moreover have "\<exists>cl \<in> set ?cls. e \<in> set cl \<and> p \<in> set cl"
  proof (cases "list_ex (\<lambda>cl. p \<in> set cl) cls")
    case True
    then obtain cl where cl: "cl \<in> set cls" "p \<in> set cl" by (auto simp: list_ex_iff)
    let ?cl = "if p \<in> set cl \<and> e \<notin> set cl then cl @ [e] else cl"
    have "?cl \<in> set ?cls" using cl True by (auto simp: add_view_def)
    moreover have "e \<in> set ?cl" "p \<in> set ?cl" using cl(2) by auto
    ultimately show ?thesis by blast
  qed (simp add: add_view_def)
  ultimately have "clusters_ok g root (insert e D) ?cls" using p(2) unfolding clusters_ok_def by auto
  then show ?thesis using True p(2) by (simp add: detect_cluster_def)
next
  case False
  let ?cls = "add_edge e cls"
  have each: "cl \<noteq> [] \<and> set cl \<subseteq> set (mg_graphEdges g) \<and> (\<exists>r. \<forall>x \<in> set cl. root x = r)" if "cl \<in> set ?cls" for cl
    using that ok e unfolding clusters_ok_def add_edge_def by (auto split: if_splits)
  have "\<exists>cl' \<in> set ?cls. set cl \<subseteq> set cl'" if "cl \<in> set cls" for cl
    using that unfolding add_edge_def by auto
  then have "clusters_ok g root D ?cls" using clusters_grow [OF ok _ each] by blast
  moreover have "\<exists>cl \<in> set ?cls. e \<in> set cl" unfolding add_edge_def by (auto simp: list_ex_iff)
  ultimately have "clusters_ok g root (insert e D) ?cls" using False unfolding clusters_ok_def by auto
  then show ?thesis using False by (simp add: detect_cluster_def)
qed

lemma detect_all:
  assumes "sharing_ok g root depth"
  shows "\<exists>cls. foldE (detect_cluster g) (mg_graphEdges g) [] = Inr cls \<and> clusters_ok g root (set (mg_graphEdges g)) cls"
proof -
  have "\<exists>cls. foldE (detect_cluster g) es cls0 = Inr cls \<and> clusters_ok g root (D \<union> set es) cls"
    if "set es \<subseteq> set (mg_graphEdges g)" "clusters_ok g root D cls0" for es D cls0
    using that
  proof (induction es arbitrary: D cls0)
    case (Cons e es)
    obtain cls1 where "detect_cluster g e cls0 = Inr cls1" "clusters_ok g root (insert e D) cls1"
      using detect_cluster_ok [OF assms, of e D cls0] Cons.prems by auto
    with Cons.IH [of "insert e D" cls1] Cons.prems(1) show ?case by auto
  qed simp
  from this [of "mg_graphEdges g" "{}" "[]"] show ?thesis by (simp add: clusters_ok_def)
qed

section \<open>Merging\<close>

lemma filter_emptied:
  "\<forall>cl \<in> set cls. cl \<noteq> [] \<Longrightarrow> filter (\<lambda>cl. cl \<noteq> []) (map (\<lambda>cl. if P cl then [] else cl) cls) = filter (\<lambda>cl. \<not> P cl) cls"
  by (induction cls) auto

lemma merge_into_first_mset:
  assumes "merged \<noteq> []" "\<forall>cl \<in> set cls. cl \<noteq> []" "list_ex P cls"
  shows "mset (filter (\<lambda>cl. cl \<noteq> []) (merge_into_first P merged cls)) = add_mset merged (mset (filter (\<lambda>cl. \<not> P cl) cls))"
  using assms
proof (induction cls)
  case (Cons cl cls)
  show ?case
  proof (cases "P cl")
    case True
    have "filter (\<lambda>cl. cl \<noteq> []) (map (\<lambda>cl. if P cl then [] else cl) cls) = filter (\<lambda>cl. \<not> P cl) cls"
      using Cons.prems(2) by (intro filter_emptied) simp
    then show ?thesis using True Cons.prems(1) by (simp del: mset_filter)
  next
    case False
    then show ?thesis using Cons by simp
  qed
qed simp

definition holders :: "nat \<Rightarrow> clusters \<Rightarrow> nat" where
  "holders e cls = length (filter (\<lambda>cl. e \<in> set cl) cls)"

lemma merge_clusters_ok:
  assumes ok: "clusters_ok g root D cls" "e \<in> D"
  shows "clusters_ok g root D (merge_clusters e cls) \<and> holders e (merge_clusters e cls) \<le> 1 \<and>
    (\<forall>e'. holders e' cls \<le> 1 \<longrightarrow> holders e' (merge_clusters e cls) \<le> 1)"
proof (cases "holders e cls > 1")
  case False
  then show ?thesis using ok by (simp add: merge_clusters_def holders_def)
next
  case True
  let ?P = "\<lambda>cl. e \<in> set cl"
  let ?ms = "filter ?P cls"
  let ?m = "remdups_adj (std_sort (<) (concat ?ms))"
  have m: "set ?m = \<Union>(set ` set ?ms)" by simp
  have ex: "\<exists>cl \<in> set cls. e \<in> set cl" 
  proof (rule ccontr)
    assume "\<not> ?thesis"
    then have "filter ?P cls = []" by (simp add: filter_empty_conv)
    with True show False by (simp add: holders_def)
  qed
  then have "e \<in> set ?m" unfolding m by auto
  then have ne: "?m \<noteq> []" by (metis empty_iff list.set(1))
  have all: "\<forall>cl \<in> set cls. cl \<noteq> []" using ok(1) by (simp add: clusters_ok_def)
  have eq: "merge_clusters e cls = filter (\<lambda>cl. cl \<noteq> []) (merge_into_first ?P ?m cls)"
    using True by (simp add: merge_clusters_def holders_def)
  have ms: "mset (merge_clusters e cls) = add_mset ?m (mset (filter (\<lambda>cl. \<not> ?P cl) cls))"
    unfolding eq using merge_into_first_mset [OF ne all, of ?P] ex by (simp add: list_ex_iff)
  have set: "set (merge_clusters e cls) = insert ?m {cl \<in> set cls. \<not> ?P cl}"
    using arg_cong [OF ms, of set_mset] by (simp only: set_mset_mset set_mset_add_mset_insert set_filter)
  have count: "holders e' (merge_clusters e cls) = (if e' \<in> set ?m then 1 else 0) + length (filter (\<lambda>cl. e' \<in> set cl \<and> \<not> ?P cl) cls)" for e'
  proof -
    have "holders e' (merge_clusters e cls) = size (filter_mset (\<lambda>cl. e' \<in> set cl) (mset (merge_clusters e cls)))"
      unfolding holders_def by (metis mset_filter size_mset)
    also have "\<dots> = (if e' \<in> set ?m then 1 else 0) + length (filter (\<lambda>cl. e' \<in> set cl \<and> \<not> ?P cl) cls)"
      unfolding ms by (simp flip: size_mset add: filter_filter_mset conj_commute) blast
    finally show ?thesis .
  qed
  have "\<exists>cl' \<in> set (merge_clusters e cls). set cl \<subseteq> set cl'" if "cl \<in> set cls" for cl
    using that m unfolding set by (cases "?P cl") auto
  moreover have "cl \<noteq> [] \<and> set cl \<subseteq> set (mg_graphEdges g) \<and> (\<exists>r. \<forall>x \<in> set cl. root x = r)"
    if cl: "cl \<in> set (merge_clusters e cls)" for cl
  proof (cases "cl = ?m")
    case True
    have "root x = root e" if "x \<in> set ?m" for x
    proof -
      from that obtain cl where cl: "cl \<in> set cls" "e \<in> set cl" "x \<in> set cl" unfolding m by auto
      then obtain r where "\<forall>x \<in> set cl. root x = r" using ok(1) unfolding clusters_ok_def by blast
      then show ?thesis using cl by simp
    qed
    moreover have "set ?m \<subseteq> set (mg_graphEdges g)" using ok(1) unfolding m clusters_ok_def by auto
    ultimately show ?thesis using True ne by simp
  next
    case False
    then show ?thesis using cl ok(1) unfolding set clusters_ok_def by auto
  qed
  ultimately have "clusters_ok g root D (merge_clusters e cls)" using clusters_grow [OF ok(1)] by blast
  moreover have "holders e (merge_clusters e cls) \<le> 1" unfolding count by simp
  moreover have "holders e' (merge_clusters e cls) \<le> 1" if e': "holders e' cls \<le> 1" for e'
  proof -
    have split: "holders e' cls = length (filter (\<lambda>cl. e' \<in> set cl \<and> ?P cl) cls) + length (filter (\<lambda>cl. e' \<in> set cl \<and> \<not> ?P cl) cls)"
      unfolding holders_def by (induction cls) auto
    have "length (filter (\<lambda>cl. e' \<in> set cl \<and> ?P cl) cls) \<ge> 1" if "e' \<in> set ?m"
    proof -
      from that obtain cl where "cl \<in> set (filter (\<lambda>cl. e' \<in> set cl \<and> ?P cl) cls)" unfolding m by auto
      then show ?thesis by (metis One_nat_def Suc_leI length_pos_if_in_set)
    qed
    moreover have "(if b then 1 else 0) + k \<le> (1 :: nat)" if "b \<Longrightarrow> 1 \<le> h" "h + k \<le> 1" for b h k
      using that by (cases b) simp_all
    ultimately show ?thesis unfolding count using split e' by metis
  qed
  ultimately show ?thesis by blast
qed

text \<open>In the end every edge is in one cluster, with all that share its root.\<close>

lemma edge_clusters_ok:
  assumes s: "sharing_ok g root depth"
  obtains cls where "edge_clusters g = Inr cls" "\<And>i. i < length cls \<Longrightarrow> cls ! i \<noteq> [] \<and> set (cls ! i) \<subseteq> set (mg_graphEdges g)"
    "\<And>e. e \<in> set (mg_graphEdges g) \<Longrightarrow> \<exists>i < length cls. e \<in> set (cls ! i)"
    "\<And>i j e e'. i < length cls \<Longrightarrow> j < length cls \<Longrightarrow> e \<in> set (cls ! i) \<Longrightarrow> e' \<in> set (cls ! j) \<Longrightarrow> root e = root e' \<longleftrightarrow> i = j"
    "\<And>i e. i < length cls \<Longrightarrow> e \<in> set (cls ! i) \<Longrightarrow> root e \<in> set (cls ! i)"
proof -
  let ?E = "set (mg_graphEdges g)"
  obtain cls0 where cls0: "foldE (detect_cluster g) (mg_graphEdges g) [] = Inr cls0" "clusters_ok g root ?E cls0"
    using detect_all [OF s] by blast
  define cls where "cls = fold merge_clusters (mg_graphEdges g) cls0"
  have "clusters_ok g root ?E (fold merge_clusters es cs) \<and> (\<forall>e. e \<in> set es \<or> holders e cs \<le> 1 \<longrightarrow> holders e (fold merge_clusters es cs) \<le> 1)"
    if "clusters_ok g root ?E cs" "set es \<subseteq> ?E" for es cs
    using that
  proof (induction es arbitrary: cs)
    case (Cons e es)
    note * = merge_clusters_ok [OF Cons.prems(1), of e]
    from Cons.IH [of "merge_clusters e cs"] * Cons.prems(2) show ?case by auto
  qed auto
  from this [OF cls0(2), of "mg_graphEdges g"] have ok: "clusters_ok g root ?E cls" and one: "\<And>e. e \<in> ?E \<Longrightarrow> holders e cls \<le> 1"
    unfolding cls_def by auto
  have uniq: "i = j" if ij: "i < length cls" "j < length cls" "e \<in> set (cls ! i)" "e \<in> set (cls ! j)" for i j e
  proof (rule ccontr)
    assume "i \<noteq> j"
    have "e \<in> ?E" using ok ij(1,3) nth_mem [OF ij(1)] unfolding clusters_ok_def by blast
    have "{i, j} \<subseteq> {k. k < length cls \<and> e \<in> set (cls ! k)}" using ij by auto
    then have "card {i, j} \<le> holders e cls" unfolding holders_def length_filter_conv_card by (intro card_mono) auto
    with \<open>i \<noteq> j\<close> one [OF \<open>e \<in> ?E\<close>] show False by simp
  qed
  have sub: "cls ! i \<noteq> [] \<and> set (cls ! i) \<subseteq> ?E" if "i < length cls" for i
    using ok nth_mem [OF that] unfolding clusters_ok_def by blast
  have root: "root e \<in> set (cls ! i)" if i: "i < length cls" "e \<in> set (cls ! i)" for i e
    using i(2)
  proof (induction "depth e" arbitrary: e rule: less_induct)
    case less
    have e: "e \<in> ?E" using sub [OF i(1)] less.prems by blast
    show ?case
    proof (cases "me_status (mg_edge g e) = ES_NotAllocated")
      case True
      obtain p where p: "getSharedEdge g e = Inr p" "root e = root p" "depth p < depth e" using sharing_view [OF s e True] by blast
      obtain cl where cl: "cl \<in> set cls" "e \<in> set cl" "p \<in> set cl" using ok e True p(1) unfolding clusters_ok_def by blast
      then obtain j where "j < length cls" "cls ! j = cl" by (metis in_set_conv_nth)
      then have "p \<in> set (cls ! i)" using uniq [of j i e] cl i(1) less.prems by auto
      then show ?thesis using less.hyps [OF p(3)] p(2) by simp
    next
      case False
      then show ?thesis using sharing_need(2) [OF s e False] less.prems by simp
    qed
  qed
  show thesis
  proof (rule that)
    show "edge_clusters g = Inr cls" using cls0(1) by (simp add: edge_clusters_def cls_def)
    show "\<exists>i < length cls. e \<in> set (cls ! i)" if "e \<in> ?E" for e
      using ok that unfolding clusters_ok_def by (metis in_set_conv_nth)
    show "root e = root e' \<longleftrightarrow> i = j" if ij: "i < length cls" "j < length cls" "e \<in> set (cls ! i)" "e' \<in> set (cls ! j)" for i j e e'
    proof
      assume "root e = root e'"
      then show "i = j" using root [OF ij(1,3)] root [OF ij(2,4)] uniq [OF ij(1,2)] by simp
    next
      assume "i = j"
      obtain r where "\<forall>x \<in> set (cls ! i). root x = r" using ok nth_mem [OF ij(1)] unfolding clusters_ok_def by blast
      then show "root e = root e'" using ij \<open>i = j\<close> by simp
    qed
  qed (use sub root in blast)+
qed

section \<open>Boxes cover their clusters\<close>

definition edge_bytes :: "MKLDNNGraph \<Rightarrow> nat \<Rightarrow> int result" where
  "edge_bytes g e = bindE (getDesc g e) edge_size"

abbreviation written_at :: "MKLDNNGraph \<Rightarrow> nat \<Rightarrow> int" where
  "written_at g e \<equiv> mn_execIndex (mg_node g (me_parent (mg_edge g e)))"

abbreviation read_at :: "MKLDNNGraph \<Rightarrow> nat \<Rightarrow> int" where
  "read_at g e \<equiv> mn_execIndex (mg_node g (me_child (mg_edge g e)))"

text \<open>Edges whose data must last through the whole execution, \<open>c\<close> being the marks of the nodes.\<close>

definition pinned :: "MKLDNNGraph \<Rightarrow> (nat \<Rightarrow> ConstantType) \<Rightarrow> nat \<Rightarrow> bool" where
  "pinned g c e \<longleftrightarrow>
     (let parent = me_parent (mg_edge g e); child = me_child (mg_edge g e) in
      mn_type (mg_node g parent) = NT_MemoryInput \<or>
      c parent = CT_Const \<and> c child = CT_NoConst \<or>
      \<not> mg_reuse_io_tensors g \<and> (mn_type (mg_node g parent) = NT_Input \<or> mn_type (mg_node g child) = NT_Output))"

lemma box_edges_ok:
  assumes "\<forall>e \<in> set cl. \<exists>s. edge_bytes g e = Inr s"
  shows "\<exists>box'. foldE (box_edge (recon c g)) cl box = Inr box' \<and> box_id box' = box_id box \<and>
    box_start box' \<le> box_start box \<and> box_finish box \<le> box_finish box' \<and> box_size box \<le> box_size box' \<and>
    (\<forall>e \<in> set cl. box_start box' \<le> written_at g e \<and> read_at g e \<le> box_finish box' \<and> (\<forall>s. edge_bytes g e = Inr s \<longrightarrow> s \<le> box_size box')) \<and>
    (0 \<le> box_start box \<longrightarrow> (\<forall>e \<in> set cl. 0 \<le> written_at g e) \<longrightarrow> 0 \<le> box_start box')"
  using assms
proof (induction cl arbitrary: box)
  case (Cons e cl)
  from Cons.prems obtain s where s: "edge_bytes g e = Inr s" by auto
  then obtain d where d: "getDesc g e = Inr d" "edge_size d = Inr s" by (auto simp: edge_bytes_def)
  let ?box = "box\<lparr>box_start := min (written_at g e) (box_start box), box_finish := max (read_at g e) (box_finish box),
           box_size := max s (box_size box)\<rparr>"
  have "getDesc (recon c g) e = getDesc g e" by (simp add: getDesc_def)
  then have "box_edge (recon c g) e box = Inr ?box" using d by (simp add: box_edge_def)
  moreover have "\<forall>e \<in> set cl. \<exists>s. edge_bytes g e = Inr s" using Cons.prems by simp
  from Cons.IH [OF this, of ?box] obtain box' where "foldE (box_edge (recon c g)) cl ?box = Inr box'"
    "box_id box' = box_id box" "box_start box' \<le> min (written_at g e) (box_start box)"
    "max (read_at g e) (box_finish box) \<le> box_finish box'" "max s (box_size box) \<le> box_size box'"
    "\<forall>e \<in> set cl. box_start box' \<le> written_at g e \<and> read_at g e \<le> box_finish box' \<and> (\<forall>s. edge_bytes g e = Inr s \<longrightarrow> s \<le> box_size box')"
    "0 \<le> min (written_at g e) (box_start box) \<longrightarrow> (\<forall>e \<in> set cl. 0 \<le> written_at g e) \<longrightarrow> 0 \<le> box_start box'" by auto
  ultimately show ?case using s by (intro exI [of _ box']) auto
qed simp

definition flags_below :: "BoxFlags \<Rightarrow> BoxFlags \<Rightarrow> bool" where
  "flags_below f f' \<longleftrightarrow> (bf_isConst f \<longrightarrow> bf_isConst f') \<and> (bf_isOutput f \<longrightarrow> bf_isOutput f') \<and> (bf_isInput f \<longrightarrow> bf_isInput f')"

definition edge_flags :: "MKLDNNGraph \<Rightarrow> (nat \<Rightarrow> ConstantType) \<Rightarrow> nat \<Rightarrow> BoxFlags" where
  "edge_flags g c e =
     (let parent = me_parent (mg_edge g e); child = me_child (mg_edge g e) in
      \<lparr>bf_isConst = (mn_type (mg_node g parent) = NT_MemoryInput \<or> c parent = CT_Const \<and> c child = CT_NoConst),
       bf_isOutput = (mn_type (mg_node g child) = NT_Output), bf_isInput = (mn_type (mg_node g parent) = NT_Input)\<rparr>)"

text \<open>Marks that are there stay, and with them what they decide.\<close>

lemma settled_keeps:
  assumes "settled g c e" "keeps_marks c c'"
  shows "settled g c' e" "edge_flags g c' e = edge_flags g c e" "pinned g c' e = pinned g c e"
proof -
  have p: "c' (me_parent (mg_edge g e)) = c (me_parent (mg_edge g e))"
    and ch: "c (me_parent (mg_edge g e)) = CT_Const \<Longrightarrow> c' (me_child (mg_edge g e)) = c (me_child (mg_edge g e))"
    using assms by (simp_all add: settled_def keeps_marks_def)
  show "settled g c' e" "edge_flags g c' e = edge_flags g c e" "pinned g c' e = pinned g c e"
    using assms(1) p ch by (auto simp: settled_def edge_flags_def pinned_def Let_def)
qed

lemma flag_edges_ok:
  assumes g: "exec_ok g" and "set cl \<subseteq> set (mg_graphEdges g)"
  shows "\<exists>f' c'. foldE flag_edge cl (f, recon c g) = Inr (f', recon c' g) \<and> keeps_marks c c' \<and>
    flags_below f f' \<and> (\<forall>e \<in> set cl. settled g c' e \<and> flags_below (edge_flags g c' e) f')"
  using assms(2)
proof (induction cl arbitrary: f c)
  case (Cons e cl)
  obtain b c1 where b: "isConstOutput e (recon c g) = Inr (b, recon c1 g)" "keeps_marks c c1" "settled g c1 e"
    "c1 (me_parent (mg_edge g e)) = CT_Const \<and> c1 (me_child (mg_edge g e)) = CT_NoConst \<longrightarrow> b"
    using isConstOutput_ok [OF g, of e c] Cons.prems(1) by auto
  let ?parent = "mn_type (mg_node g (me_parent (mg_edge g e)))" and ?child = "mn_type (mg_node g (me_child (mg_edge g e)))"
  let ?f = "\<lparr>bf_isConst = (bf_isConst f \<or> b \<or> ?parent = NT_MemoryInput), bf_isOutput = (bf_isOutput f \<or> ?child = NT_Output),
            bf_isInput = (bf_isInput f \<or> ?parent = NT_Input)\<rparr>"
  have "flag_edge e (f, recon c g) = Inr (?f, recon c1 g)" using b(1) by (simp add: flag_edge_def Let_def)
  moreover obtain f' c' where f': "foldE flag_edge cl (?f, recon c1 g) = Inr (f', recon c' g)"
    "keeps_marks c1 c'" "flags_below ?f f'" "\<forall>e \<in> set cl. settled g c' e \<and> flags_below (edge_flags g c' e) f'"
    using Cons.IH [of ?f c1] Cons.prems by auto
  moreover have "flags_below f ?f" by (simp add: flags_below_def)
  moreover have "flags_below (edge_flags g c' e) ?f"
    unfolding settled_keeps(2) [OF b(3) f'(2)] using b(4) by (auto simp: flags_below_def edge_flags_def Let_def)
  moreover note settled_keeps(1) [OF b(3) f'(2)] keeps_marks_trans [OF b(2) f'(2)]
  ultimately show ?case by (intro exI [of _ f'] exI [of _ c']) (auto simp: flags_below_def)
qed (auto simp: flags_below_def keeps_marks_def)

definition box_ok :: "MKLDNNGraph \<Rightarrow> (nat \<Rightarrow> ConstantType) \<Rightarrow> nat list \<Rightarrow> nat \<Rightarrow> Box \<Rightarrow> bool" where
  "box_ok g c cl i box \<longleftrightarrow> box_id box = int i \<and> 0 \<le> box_start box \<and> (box_finish box = -1 \<or> box_start box \<le> box_finish box) \<and>
     (\<forall>e \<in> set cl. box_start box \<le> written_at g e \<and> (box_finish box = -1 \<or> read_at g e \<le> box_finish box) \<and>
       (\<forall>s. edge_bytes g e = Inr s \<longrightarrow> s \<le> alignment * box_size box) \<and> settled g c e \<and>
       (pinned g c e \<longrightarrow> box_start box = 0 \<and> box_finish box = -1))"

lemma box_ok_keeps: "box_ok g c cl i box \<Longrightarrow> keeps_marks c c' \<Longrightarrow> box_ok g c' cl i box"
  using settled_keeps [of g c _ c'] unfolding box_ok_def by metis

lemma cluster_box_ok:
  assumes g: "exec_ok g" and cl: "cl \<noteq> []" "set cl \<subseteq> set (mg_graphEdges g)"
    and bytes: "\<forall>e \<in> set cl. \<exists>s. edge_bytes g e = Inr s"
  shows "\<exists>box c'. cluster_box i cl (recon c g) = Inr (box, recon c' g) \<and> keeps_marks c c' \<and> box_ok g c' cl i box"
proof -
  let ?init = "\<lparr>box_start = 2147483647, box_finish = 0, box_size = 0, box_id = int i\<rparr>"
  have pos: "0 \<le> written_at g e" "written_at g e < read_at g e" if "e \<in> set cl" for e
    using g cl(2) that unfolding exec_ok_def by auto
  obtain box where box: "foldE (box_edge (recon c g)) cl ?init = Inr box" "box_id box = int i" "0 \<le> box_size box"
    "\<forall>e \<in> set cl. box_start box \<le> written_at g e \<and> read_at g e \<le> box_finish box \<and> (\<forall>s. edge_bytes g e = Inr s \<longrightarrow> s \<le> box_size box)"
    "0 \<le> box_start box"
    using box_edges_ok [OF bytes, of c ?init] pos(1) by auto
  obtain f c' where f: "foldE flag_edge cl (\<lparr>bf_isConst = False, bf_isOutput = False, bf_isInput = False\<rparr>, recon c g) = Inr (f, recon c' g)"
    "keeps_marks c c'" "\<forall>e \<in> set cl. settled g c' e \<and> flags_below (edge_flags g c' e) f"
    using flag_edges_ok [OF g cl(2)] by blast
  let ?box = "box_flags (mg_reuse_io_tensors g) f box"
  let ?box' = "?box\<lparr>box_size := (box_size ?box + alignment - 1) div alignment\<rparr>"
  obtain e0 where "e0 \<in> set cl" using cl(1) by (metis list.set_sel(1))
  then have se: "box_start box \<le> box_finish box" using box(4) pos(2) [of e0] by force
  have size: "box_size ?box = box_size box" "box_id ?box = box_id box" by (auto simp: box_flags_def Let_def)
  have up: "box_size box \<le> alignment * ((box_size box + alignment - 1) div alignment)"
    unfolding alignment_def by presburger
  have life: "0 \<le> box_start ?box \<and> box_start ?box \<le> box_start box \<and> (box_finish ?box = -1 \<or> box_finish ?box = box_finish box)"
    using box(5) by (auto simp: box_flags_def Let_def)
  have pin: "box_start ?box = 0 \<and> box_finish ?box = -1" if "e \<in> set cl" "pinned g c' e" for e
    using f(3) that unfolding pinned_def edge_flags_def flags_below_def box_flags_def by (auto simp: Let_def)
  have "box_ok g c' cl i ?box'"
    unfolding box_ok_def using box(2,4) se size up life pin f(3) by (auto intro: order_trans)
  moreover have "cluster_box i cl (recon c g) = Inr (?box', recon c' g)"
    using box(1) f(1) by (simp add: cluster_box_def Let_def)
  ultimately show ?thesis using f(2) by blast
qed

lemma boxes_ok:
  assumes g: "exec_ok g" and cls: "\<And>i. i < length cls \<Longrightarrow> cls ! i \<noteq> [] \<and> set (cls ! i) \<subseteq> set (mg_graphEdges g)"
    and bytes: "\<forall>e \<in> set (mg_graphEdges g). \<exists>s. edge_bytes g e = Inr s"
  shows "\<exists>boxes c. foldE (add_box cls) [0..<length cls] ([], g) = Inr (boxes, recon c g) \<and>
    keeps_marks (\<lambda>x. mn_constant (mg_node g x)) c \<and> length boxes = length cls \<and>
    (\<forall>i < length cls. box_ok g c (cls ! i) i (boxes ! i))"
proof -
  let ?m = "\<lambda>x. mn_constant (mg_node g x)"
  have "\<exists>boxes c. foldE (add_box cls) [0..<k] ([], recon ?m g) = Inr (boxes, recon c g) \<and> keeps_marks ?m c \<and> length boxes = k \<and>
    (\<forall>i < k. box_ok g c (cls ! i) i (boxes ! i))" if "k \<le> length cls" for k
    using that
  proof (induction k)
    case 0
    then show ?case by (auto simp: keeps_marks_def)
  next
    case (Suc k)
    then obtain boxes c where IH: "foldE (add_box cls) [0..<k] ([], recon ?m g) = Inr (boxes, recon c g)" "keeps_marks ?m c" "length boxes = k"
      "\<forall>i < k. box_ok g c (cls ! i) i (boxes ! i)" by auto
    have "cls ! k \<noteq> []" "set (cls ! k) \<subseteq> set (mg_graphEdges g)" using cls [of k] Suc.prems by auto
    with cluster_box_ok [OF g this, of k c] bytes obtain box c' where
      box: "cluster_box k (cls ! k) (recon c g) = Inr (box, recon c' g)" "keeps_marks c c'" "box_ok g c' (cls ! k) k box" by blast
    moreover from this have "add_box cls k (boxes, recon c g) = Inr (boxes @ [box], recon c' g)" by (simp add: add_box_def)
    moreover have "\<forall>i < k. box_ok g c' (cls ! i) i (boxes ! i)" using IH(4) box_ok_keeps [OF _ box(2)] by blast
    ultimately show ?case using IH keeps_marks_trans [OF IH(2) box(2)]
      by (intro exI [of _ "boxes @ [box]"] exI [of _ c']) (auto simp: nth_append less_Suc_eq)
  qed
  from this [of "length cls"] show ?thesis unfolding recon_self by auto
qed

end
