(* ===== verification/CpuViews.thy ===== *)
theory CpuViews
  imports CpuMemory CpuOrder
begin

text \<open>
  Views in the CPU graph: when every view leads to an edge that has memory, the last two steps of
  \<open>Allocate\<close> return and give each edge the address of its root.
\<close>

text \<open>The graph on the way from \<open>g0\<close>: an edge has the address of its root or is a view still.\<close>

definition has_memory :: "MKLDNNGraph \<Rightarrow> nat \<Rightarrow> bool" where
  "has_memory g e \<longleftrightarrow> me_status (mg_edge g e) = ES_Allocated \<or> me_status (mg_edge g e) = ES_Validated"

text \<open>Both ends of an edge are there, and \<open>getDims\<close> finds its dimensions.\<close>

definition dims_ok :: "MKLDNNGraph \<Rightarrow> nat \<Rightarrow> bool" where
  "dims_ok g e \<longleftrightarrow> node_alive g (me_parent (mg_edge g e)) = Inr () \<and> node_alive g (me_child (mg_edge g e)) = Inr () \<and>
     (me_dims (mg_edge g e) \<noteq> [] \<or> (\<exists>ds. find_dims g e = Inr ds))"

definition same_ends_dims :: "MKLDNNEdge \<Rightarrow> MKLDNNEdge \<Rightarrow> bool" where
  "same_ends_dims d d' \<longleftrightarrow> me_parent d' = me_parent d \<and> me_child d' = me_child d \<and>
     me_parent_port d' = me_parent_port d \<and> me_child_port d' = me_child_port d \<and>
     (me_dims d \<noteq> [] \<longrightarrow> me_dims d' = me_dims d)"

lemma same_ends_dims_simps [simp]:
  "same_ends_dims d d" "same_ends_dims d (d'\<lparr>me_memory := a\<rparr>) = same_ends_dims d d'"
  "same_ends_dims d (d'\<lparr>me_memoryFromEdge := p\<rparr>) = same_ends_dims d d'"
  "same_ends_dims d (d'\<lparr>me_status := s\<rparr>) = same_ends_dims d d'"
  by (simp_all add: same_ends_dims_def)

lemma dims_ok_same:
  assumes "dims_ok g e" "mg_graphNodes g' = mg_graphNodes g" "same_ends_dims (mg_edge g e) (mg_edge g' e)"
    and "\<And>x. mn_inDims (mg_node g' x) = mn_inDims (mg_node g x) \<and> mn_outDims (mg_node g' x) = mn_outDims (mg_node g x)"
  shows "dims_ok g' e"
proof -
  have "find_dims g' e = find_dims g e"
    using assms(2-4) by (simp add: find_dims_def same_ends_dims_def node_alive_def Let_def)
  then show ?thesis using assms by (auto simp: dims_ok_def same_ends_dims_def node_alive_def)
qed

definition view_ok :: "(nat \<Rightarrow> nat) \<Rightarrow> (nat \<Rightarrow> nat) \<Rightarrow> (nat \<Rightarrow> int) \<Rightarrow> MKLDNNGraph \<Rightarrow> nat \<Rightarrow> bool" where
  "view_ok root depth addr g e \<longleftrightarrow> (\<exists>d. getDesc g e = Inr d) \<and> dims_ok g e \<and>
     (has_memory g e \<and> me_memory (mg_edge g e) = Some (addr (root e)) \<or>
      me_status (mg_edge g e) = ES_NotAllocated \<and> (\<exists>p \<in> set (mg_graphEdges g).
        me_memoryFromEdge (mg_edge g e) = Some p \<and> root e = root p \<and> depth p < depth e))"

definition views_ok :: "MKLDNNGraph \<Rightarrow> (nat \<Rightarrow> nat) \<Rightarrow> (nat \<Rightarrow> nat) \<Rightarrow> (nat \<Rightarrow> int) \<Rightarrow> MKLDNNGraph \<Rightarrow> bool" where
  "views_ok g0 root depth addr g \<longleftrightarrow>
     mg_graphEdges g = mg_graphEdges g0 \<and> mg_graphNodes g = mg_graphNodes g0 \<and> mg_node g = mg_node g0 \<and>
     mg_memWorkspace g = mg_memWorkspace g0 \<and> (\<forall>e \<in> set (mg_graphEdges g0). view_ok root depth addr g e)"

lemma upd_edge_fields [simp]:
  "mg_edge (upd_edge e f g) x = (if x = e then f (mg_edge g e) else mg_edge g x)"
  "mg_graphEdges (upd_edge e f g) = mg_graphEdges g" "mg_graphNodes (upd_edge e f g) = mg_graphNodes g"
  "mg_node (upd_edge e f g) = mg_node g" "mg_memWorkspace (upd_edge e f g) = mg_memWorkspace g"
  by (simp_all add: upd_edge_def)

lemma getDims_ok:
  assumes "dims_ok g e"
  shows "\<exists>ds. getDims e g = Inr (ds, upd_edge e (\<lambda>d. d\<lparr>me_dims := ds\<rparr>) g) \<and>
    same_ends_dims (mg_edge g e) ((mg_edge g e)\<lparr>me_dims := ds\<rparr>)"
proof (cases "me_dims (mg_edge g e) = []")
  case True
  then show ?thesis using assms by (auto simp: dims_ok_def getDims_def same_ends_dims_def)
next
  case False
  have "upd_edge e (\<lambda>d. d\<lparr>me_dims := me_dims (mg_edge g e)\<rparr>) g = g" by (simp add: upd_edge_def)
  then show ?thesis using False by (auto simp: getDims_def)
qed

text \<open>An edge that gets the address of its root keeps the others as they are.\<close>

lemma views_ok_update:
  assumes v: "views_ok g0 root depth addr g" and s: "s = ES_Allocated \<or> s = ES_Validated"
    and d: "me_inputDesc d = me_inputDesc (mg_edge g e)" "me_outputDesc d = me_outputDesc (mg_edge g e)"
    and ends: "same_ends_dims (mg_edge g e) d"
    and m: "me_status d = s" "me_memory d = Some (addr (root e))"
  shows "views_ok g0 root depth addr (upd_edge e (\<lambda>_. d) g)"
proof -
  have "view_ok root depth addr (upd_edge e (\<lambda>_. d) g) x" if "x \<in> set (mg_graphEdges g0)" for x
  proof -
    have old: "view_ok root depth addr g x" using v that by (simp add: views_ok_def)
    have desc: "getDesc (upd_edge e (\<lambda>_. d) g) x = getDesc g x" using d by (simp add: getDesc_def)
    have "dims_ok g x" using old by (simp add: view_ok_def)
    then have dims: "dims_ok (upd_edge e (\<lambda>_. d) g) x"
      by (rule dims_ok_same) (use ends in \<open>simp_all add: same_ends_dims_def\<close>)
    show ?thesis
      unfolding view_ok_def desc using old s m dims by (cases "x = e") (auto simp: view_ok_def has_memory_def)
  qed
  then show ?thesis using v by (simp add: views_ok_def)
qed

definition keeps_validated :: "MKLDNNGraph \<Rightarrow> MKLDNNGraph \<Rightarrow> bool" where
  "keeps_validated g g' \<longleftrightarrow> (\<forall>x. me_status (mg_edge g x) = ES_Validated \<longrightarrow> me_status (mg_edge g' x) = ES_Validated)"

lemma allocated_view:
  "changeStatus ES_Allocated e (upd_edge e (\<lambda>d. d\<lparr>me_memory := m, me_memoryFromEdge := None\<rparr>) g) =
     Inr (upd_edge e (\<lambda>_. (mg_edge g e)\<lparr>me_memory := m, me_memoryFromEdge := None, me_status := ES_Allocated\<rparr>) g)"
  by (simp add: changeStatus_def) (auto simp: upd_edge_def)

lemma getMemoryPtr_ok:
  assumes v: "views_ok g0 root depth addr g" and e: "e \<in> set (mg_graphEdges g0)"
    and n: "card {x \<in> set (mg_graphEdges g0). depth x < depth e} < n"
  shows "\<exists>g'. getMemoryPtr n e g = Inr (Some (addr (root e)), g') \<and> views_ok g0 root depth addr g' \<and>
    me_status (mg_edge g' e) = (if me_status (mg_edge g e) = ES_Validated then ES_Validated else ES_Allocated) \<and>
    keeps_validated g g' \<and> me_memory (mg_edge g' e) = Some (addr (root e))"
  using e n
proof (induction n arbitrary: e)
  case (Suc n)
  have E: "mg_graphEdges g = mg_graphEdges g0" using v by (simp add: views_ok_def)
  have vo: "view_ok root depth addr g e" using v Suc.prems(1) by (simp add: views_ok_def)
  show ?case
  proof (cases "me_status (mg_edge g e) = ES_NotAllocated")
    case True
    then obtain p d where p: "p \<in> set (mg_graphEdges g0)" "me_memoryFromEdge (mg_edge g e) = Some p" "root e = root p" "depth p < depth e"
      and d: "getDesc g e = Inr d"
      using vo E by (auto simp: view_ok_def has_memory_def)
    have "card {x \<in> set (mg_graphEdges g0). depth x < depth p} < card {x \<in> set (mg_graphEdges g0). depth x < depth e}"
      by (rule psubset_card_mono) (use p in auto)
    then obtain g1 where g1: "getMemoryPtr n p g = Inr (Some (addr (root p)), g1)" "views_ok g0 root depth addr g1" "keeps_validated g g1"
      using Suc.IH [OF p(1)] Suc.prems(2) by auto
    let ?d = "(mg_edge g1 e)\<lparr>me_memory := Some (addr (root e)), me_memoryFromEdge := None, me_status := ES_Allocated\<rparr>"
    let ?g = "upd_edge e (\<lambda>_. ?d) g1"
    have ch: "changeStatus ES_Allocated e (upd_edge e (\<lambda>d. d\<lparr>me_memory := Some (addr (root p)), me_memoryFromEdge := None\<rparr>) g1) = Inr ?g"
      unfolding p(3) by (rule allocated_view)
    have "getSharedEdge g e = Inr p" using p(1,2) E by (simp add: getSharedEdge_def lock_def)
    then have "getMemoryPtr (Suc n) e g = Inr (Some (addr (root e)), ?g)"
      using True d g1(1) ch by simp
    moreover have "views_ok g0 root depth addr ?g" by (rule views_ok_update [OF g1(2)]) auto
    moreover have "keeps_validated g ?g" using g1(3) True by (simp add: keeps_validated_def)
    ultimately show ?thesis using True by (intro exI [of _ ?g]) simp
  next
    case False
    then show ?thesis using vo v by (intro exI [of _ g]) (auto simp: view_ok_def keeps_validated_def has_memory_def)
  qed
qed simp

lemma memory_fuel_enough:
  assumes "views_ok g0 root depth addr g" "e \<in> set (mg_graphEdges g0)"
  shows "card {x \<in> set (mg_graphEdges g0). depth x < depth e} < memory_fuel g"
proof -
  have "card {x \<in> set (mg_graphEdges g0). depth x < depth e} \<le> card (set (mg_graphEdges g0))"
    by (intro card_mono) auto
  also have "\<dots> \<le> length (mg_graphEdges g0)" by (rule card_length)
  finally show ?thesis using assms(1) by (simp add: memory_fuel_def views_ok_def)
qed

lemma getMemoryPtr_views:
  assumes "views_ok g0 root depth addr g" "e \<in> set (mg_graphEdges g0)"
  obtains g' where "getMemoryPtr (memory_fuel g) e g = Inr (Some (addr (root e)), g')" "views_ok g0 root depth addr g'"
    "me_status (mg_edge g' e) = (if me_status (mg_edge g e) = ES_Validated then ES_Validated else ES_Allocated)"
    "keeps_validated g g'" "me_memory (mg_edge g' e) = Some (addr (root e))"
  using getMemoryPtr_ok [OF assms memory_fuel_enough [OF assms]] by blast

lemma resolve_edge_ok:
  assumes v: "views_ok g0 root depth addr g" and e: "e \<in> set (mg_graphEdges g0)"
  shows "\<exists>g'. resolve_edge i e g = Inr g' \<and> views_ok g0 root depth addr g'"
proof (cases "me_status (mg_edge g e) \<noteq> ES_NotAllocated \<or> i < 0")
  case False
  obtain g1 where g1: "getMemoryPtr (memory_fuel g) e g = Inr (Some (addr (root e)), g1)" "views_ok g0 root depth addr g1"
    "me_status (mg_edge g1 e) = ES_Allocated" "me_memory (mg_edge g1 e) = Some (addr (root e))"
    by (rule getMemoryPtr_views [OF v e]) (use False in auto)
  let ?d = "(mg_edge g1 e)\<lparr>me_status := ES_Allocated\<rparr>"
  have "changeStatus ES_Allocated e g1 = Inr (upd_edge e (\<lambda>_. ?d) g1)"
    using g1(3) by (simp add: changeStatus_def upd_edge_def)
  moreover have "views_ok g0 root depth addr (upd_edge e (\<lambda>_. ?d) g1)" by (rule views_ok_update [OF g1(2)]) (use g1(4) in auto)
  ultimately show ?thesis using False g1(1) by (simp add: resolve_edge_def)
qed (use v in \<open>auto simp: resolve_edge_def\<close>)

lemma edges_at_ok:
  assumes "links_ok g0" "views_ok g0 root depth addr g" "x \<in> set (mg_graphNodes g0)"
  shows "i < length (mn_parentEdges (mg_node g x)) \<Longrightarrow> \<exists>e \<in> set (mg_graphEdges g0). getParentEdgeAt g x i = Inr e"
    and "i < length (mn_childEdges (mg_node g x)) \<Longrightarrow> \<exists>e \<in> set (mg_graphEdges g0). getChildEdgeAt g x i = Inr e"
proof -
  have eq: "mg_node g = mg_node g0" "mg_graphEdges g = mg_graphEdges g0" using assms(2) by (simp_all add: views_ok_def)
  note l = assms(1,3)[unfolded links_ok_def]
  show "\<exists>e \<in> set (mg_graphEdges g0). getParentEdgeAt g x i = Inr e" if "i < length (mn_parentEdges (mg_node g x))"
  proof -
    have "parent_ok g0 x (mn_parentEdges (mg_node g0 x) ! i)" using l that eq by simp
    then show ?thesis using that eq by (auto simp: parent_ok_def getParentEdgeAt_def edge_at_Inr)
  qed
  show "\<exists>e \<in> set (mg_graphEdges g0). getChildEdgeAt g x i = Inr e" if "i < length (mn_childEdges (mg_node g x))"
  proof -
    have "child_ok g0 x (mn_childEdges (mg_node g0 x) ! i)" using l that eq by simp
    then show ?thesis using that eq by (auto simp: child_ok_def getChildEdgeAt_def edge_at_Inr)
  qed
qed

lemma resolve_node_ok:
  assumes l: "links_ok g0" and v: "views_ok g0 root depth addr g" and x: "x \<in> set (mg_graphNodes g0)" and c: "cfg x \<noteq> None"
  shows "\<exists>g'. resolveNotAllocatedEdges cfg x g = Inr g' \<and> views_ok g0 root depth addr g'"
proof -
  obtain ins outs where io: "cfg x = Some (ins, outs)" using c by auto
  have node: "mg_node h = mg_node g" if "views_ok g0 root depth addr h" for h using that v by (simp add: views_ok_def)
  have "\<exists>g1. foldE (\<lambda>i g. bindE (getParentEdgeAt g x i) (\<lambda>e. resolve_edge (ins ! i) e g))
      [0..<min (length (mn_parentEdges (mg_node g x))) (length ins)] g = Inr g1 \<and> views_ok g0 root depth addr g1"
  proof (rule foldE_total [where P = "views_ok g0 root depth addr", OF v])
    fix i h assume "i \<in> set [0..<min (length (mn_parentEdges (mg_node g x))) (length ins)]" and h: "views_ok g0 root depth addr h"
    then have "i < length (mn_parentEdges (mg_node h x))" using node by simp
    from edges_at_ok(1) [OF l h x this] resolve_edge_ok [OF h]
    show "\<exists>h'. bindE (getParentEdgeAt h x i) (\<lambda>e. resolve_edge (ins ! i) e h) = Inr h' \<and> views_ok g0 root depth addr h'" by fastforce
  qed
  then obtain g1 where g1: "foldE (\<lambda>i g. bindE (getParentEdgeAt g x i) (\<lambda>e. resolve_edge (ins ! i) e g))
      [0..<min (length (mn_parentEdges (mg_node g x))) (length ins)] g = Inr g1" "views_ok g0 root depth addr g1" by blast
  have "\<exists>g2. foldE (\<lambda>i g. bindE (getChildEdgeAt g x i) (\<lambda>e. resolve_edge (outs ! i) e g))
      [0..<min (length (mn_childEdges (mg_node g1 x))) (length outs)] g1 = Inr g2 \<and> views_ok g0 root depth addr g2"
  proof (rule foldE_total [where P = "views_ok g0 root depth addr", OF g1(2)])
    fix i h assume "i \<in> set [0..<min (length (mn_childEdges (mg_node g1 x))) (length outs)]" and h: "views_ok g0 root depth addr h"
    then have "i < length (mn_childEdges (mg_node h x))" using node [OF g1(2)] node [OF h] by simp
    from edges_at_ok(2) [OF l h x this] resolve_edge_ok [OF h]
    show "\<exists>h'. bindE (getChildEdgeAt h x i) (\<lambda>e. resolve_edge (outs ! i) e h) = Inr h' \<and> views_ok g0 root depth addr h'" by fastforce
  qed
  then show ?thesis using io g1 by (simp add: resolveNotAllocatedEdges_def)
qed

lemma validate_edge_ok:
  assumes v: "views_ok g0 root depth addr g" and e: "e \<in> set (mg_graphEdges g0)"
  shows "\<exists>g'. edge_validate e g = Inr g' \<and> views_ok g0 root depth addr g' \<and> keeps_validated g g' \<and> me_status (mg_edge g' e) = ES_Validated"
proof (cases "me_status (mg_edge g e) = ES_Validated")
  case True
  then show ?thesis using v by (auto simp: edge_validate_def keeps_validated_def)
next
  case False
  obtain g1 where g1: "getMemoryPtr (memory_fuel g) e g = Inr (Some (addr (root e)), g1)" "views_ok g0 root depth addr g1"
    "me_status (mg_edge g1 e) = ES_Allocated" "keeps_validated g g1" "me_memory (mg_edge g1 e) = Some (addr (root e))"
    using getMemoryPtr_views [OF v e] False by metis
  have dims: "dims_ok g1 e" using g1(2) e by (simp add: views_ok_def view_ok_def)
  from getDims_ok [OF this] obtain ds where ds: "getDims e g1 = Inr (ds, upd_edge e (\<lambda>d. d\<lparr>me_dims := ds\<rparr>) g1)"
    "same_ends_dims (mg_edge g1 e) ((mg_edge g1 e)\<lparr>me_dims := ds\<rparr>)" by blast
  let ?d = "(mg_edge g1 e)\<lparr>me_dims := ds, me_status := ES_Validated\<rparr>"
  let ?g = "upd_edge e (\<lambda>_. ?d) g1"
  have "edge_validate e g = Inr (upd_edge e (\<lambda>d. d\<lparr>me_status := ES_Validated\<rparr>) (upd_edge e (\<lambda>d. d\<lparr>me_dims := ds\<rparr>) g1))"
    using False g1(1,3) ds(1) dims by (simp add: edge_validate_def dims_ok_def)
  then have "edge_validate e g = Inr ?g" by (simp add: upd_edge_def)
  moreover have "views_ok g0 root depth addr ?g"
    by (rule views_ok_update [OF g1(2)]) (use g1(5) ds(2) in auto)
  moreover have "keeps_validated g ?g" using g1(4) by (simp add: keeps_validated_def)
  ultimately show ?thesis by (intro exI [of _ ?g]) simp
qed

lemma validate_edges_ok:
  assumes "views_ok g0 root depth addr g"
  shows "\<exists>g'. validate_edges g = Inr g' \<and> views_ok g0 root depth addr g' \<and>
    (\<forall>e \<in> set (mg_graphEdges g0). me_status (mg_edge g' e) = ES_Validated)"
proof -
  have edges: "mg_graphEdges g = mg_graphEdges g0" using assms by (simp add: views_ok_def)
  have "\<exists>g'. foldE edge_validate es g = Inr g' \<and> views_ok g0 root depth addr g' \<and> keeps_validated g g' \<and>
      (\<forall>e \<in> set es. me_status (mg_edge g' e) = ES_Validated)"
    if "views_ok g0 root depth addr g" "set es \<subseteq> set (mg_graphEdges g0)" for es g
    using that
  proof (induction es arbitrary: g)
    case (Cons e es)
    obtain g1 where g1: "edge_validate e g = Inr g1" "views_ok g0 root depth addr g1" "keeps_validated g g1"
      "me_status (mg_edge g1 e) = ES_Validated"
      using validate_edge_ok [OF Cons.prems(1), of e] Cons.prems(2) by auto
    obtain g2 where "foldE edge_validate es g1 = Inr g2" "views_ok g0 root depth addr g2" "keeps_validated g1 g2"
      "\<forall>e \<in> set es. me_status (mg_edge g2 e) = ES_Validated"
      using Cons.IH [OF g1(2)] Cons.prems(2) by auto
    then show ?case using g1 by (auto simp: keeps_validated_def)
  qed (simp add: keeps_validated_def)
  from this [OF assms, of "mg_graphEdges g0"] show ?thesis unfolding validate_edges_def edges by blast
qed

text \<open>The steps after the roots have memory.\<close>

lemma views_resolved:
  assumes l: "links_ok g" and v: "views_ok g root depth addr g" and c: "\<forall>x \<in> set (mg_graphNodes g). cfg x \<noteq> None"
  shows "\<exists>g'. bindE (foldE (resolveNotAllocatedEdges cfg) (mg_graphNodes g) g) validate_edges = Inr g' \<and>
    mg_memWorkspace g' = mg_memWorkspace g \<and> mg_node g' = mg_node g \<and>
    (\<forall>e \<in> set (mg_graphEdges g). me_status (mg_edge g' e) = ES_Validated \<and> me_memory (mg_edge g' e) = Some (addr (root e)))"
proof -
  have "\<exists>g1. foldE (resolveNotAllocatedEdges cfg) (mg_graphNodes g) g = Inr g1 \<and> views_ok g root depth addr g1"
  proof (rule foldE_total [where P = "views_ok g root depth addr", OF v])
    fix x h assume x: "x \<in> set (mg_graphNodes g)" and h: "views_ok g root depth addr h"
    then have "cfg x \<noteq> None" using c by blast
    then show "\<exists>h'. resolveNotAllocatedEdges cfg x h = Inr h' \<and> views_ok g root depth addr h'" by (rule resolve_node_ok [OF l h x])
  qed
  then obtain g1 where g1: "foldE (resolveNotAllocatedEdges cfg) (mg_graphNodes g) g = Inr g1" "views_ok g root depth addr g1" by blast
  from validate_edges_ok [OF g1(2)] obtain g2 where g2: "validate_edges g1 = Inr g2" "views_ok g root depth addr g2"
    "\<forall>e \<in> set (mg_graphEdges g). me_status (mg_edge g2 e) = ES_Validated" by blast
  then have "\<forall>e \<in> set (mg_graphEdges g). me_memory (mg_edge g2 e) = Some (addr (root e))"
    by (auto simp: views_ok_def view_ok_def)
  then show ?thesis using g1(1) g2 by (auto simp: views_ok_def)
qed

end
