(* ===== verification/CpuAllocate.thy ===== *)
theory CpuAllocate
  imports CpuReuse CpuViews
begin

text \<open>
  The memory that \<open>Allocate\<close> gives to the edges of the CPU graph: the boxes of the clusters are
  solved, each root gets its place in the workspace, each view the place of its root, and edges whose
  lifetimes meet do not overlap.
\<close>

section \<open>Places of the clusters\<close>

definition live_with :: "MKLDNNGraph \<Rightarrow> nat \<Rightarrow> nat \<Rightarrow> bool" where
  "live_with g e e' \<longleftrightarrow> written_at g e \<le> read_at g e' \<and> written_at g e' \<le> read_at g e"

lemma boxes_valid:
  assumes "\<forall>i < length boxes. box_ok g c (cls ! i) i (boxes ! i)"
  shows "valid_boxes boxes" "map box_id boxes = map int [0..<length boxes]"
proof -
  show ids: "map box_id boxes = map int [0..<length boxes]"
    using assms by (intro nth_equalityI) (auto simp: box_ok_def)
  have "distinct (map int [0..<length boxes])" by (simp add: distinct_map)
  then show "valid_boxes boxes"
    using assms unfolding valid_boxes_def ids by (auto simp: in_set_conv_nth box_ok_def)
qed

lemma resolved_nth:
  assumes "i < length boxes"
  shows "resolve_finish boxes ! i =
    (if box_finish (boxes ! i) = -1 then (boxes ! i)\<lparr>box_finish := max_ts boxes\<rparr> else boxes ! i)"
  using assms by (simp add: resolve_finish_def)

lemma boxes_live_together:
  assumes ok: "\<forall>i < length boxes. box_ok g c (cls ! i) i (boxes ! i)" and i: "i < length boxes" "e \<in> set (cls ! i)"
    and j: "j < length boxes" "e' \<in> set (cls ! j)" and live: "live_with g e e' \<or> pinned g c e"
  shows "live_together (resolve_finish boxes ! i) (resolve_finish boxes ! j)"
proof -
  let ?b = "\<lambda>i. boxes ! i"
  have bi: "box_ok g c (cls ! i) i (?b i)" and bj: "box_ok g c (cls ! j) j (?b j)" using ok i j by auto
  have m: "box_start (?b i) \<le> max_ts boxes" "box_start (?b j) \<le> max_ts boxes" using max_ts_ge i(1) j(1) by simp_all
  have c: "box_start (?b i) \<le> written_at g e" "box_finish (?b i) = -1 \<or> read_at g e \<le> box_finish (?b i)"
    "box_start (?b j) \<le> written_at g e'" "box_finish (?b j) = -1 \<or> read_at g e' \<le> box_finish (?b j)"
    "0 \<le> box_start (?b j)" "box_finish (?b j) = -1 \<or> box_start (?b j) \<le> box_finish (?b j)"
    "pinned g c e \<longrightarrow> box_start (?b i) = 0 \<and> box_finish (?b i) = -1"
    using bi bj i(2) j(2) unfolding box_ok_def by blast+
  show ?thesis
    unfolding live_together_def resolved_nth [OF i(1)] resolved_nth [OF j(1)]
    using live m c unfolding live_with_def by auto
qed

lemma boxes_solved:
  assumes ok: "\<forall>i < length boxes. box_ok g c (cls ! i) i (boxes ! i)"
  obtains m s off where "solve (mk_MemorySolver boxes) = Inr (m, s)"
    "\<And>i. i < length boxes \<Longrightarrow> getOffset s (int i) = Inr (off i) \<and> 0 \<le> off i \<and> off i + box_size (boxes ! i) \<le> m"
    "\<And>i j e e'. i < length boxes \<Longrightarrow> j < length boxes \<Longrightarrow> i \<noteq> j \<Longrightarrow> e \<in> set (cls ! i) \<Longrightarrow> e' \<in> set (cls ! j) \<Longrightarrow>
      live_with g e e' \<or> pinned g c e \<Longrightarrow> disjoint_ivl (off i) (box_size (boxes ! i)) (off j) (box_size (boxes ! j))"
proof -
  obtain m s off where "solve (mk_MemorySolver boxes) = Inr (m, s)"
    "\<And>i. i < length boxes \<Longrightarrow> getOffset s (int i) = Inr (off i) \<and> 0 \<le> off i \<and> off i + box_size (boxes ! i) \<le> m"
    and apart: "\<And>i j. i < length boxes \<Longrightarrow> j < length boxes \<Longrightarrow> i \<noteq> j \<Longrightarrow>
      live_together (resolve_finish boxes ! i) (resolve_finish boxes ! j) \<Longrightarrow>
      disjoint_ivl (off i) (box_size (boxes ! i)) (off j) (box_size (boxes ! j))"
    by (rule mem_solver.numbered_boxes [OF boxes_valid [OF ok]]) (rule that; assumption)
  then show thesis using boxes_live_together [OF ok] by (intro that [of m s off]) blast+
qed

section \<open>Allocation of the roots\<close>

definition alloc_ready :: "MKLDNNGraph \<Rightarrow> nat \<Rightarrow> bool" where
  "alloc_ready g e \<longleftrightarrow>
     (let inputDesc = me_inputDesc (mg_edge g e); outputDesc = me_outputDesc (mg_edge g e) in
      me_memory (mg_edge g e) = None \<and> initTensorsAreEqual outputDesc inputDesc \<and>
      (td_dims inputDesc = [] \<or> td_dims inputDesc ! 0 = 1 \<or> td_eq inputDesc outputDesc) \<and> td_layout inputDesc \<noteq> L_ANY)"

abbreviation allocated :: "int \<Rightarrow> nat \<Rightarrow> MKLDNNGraph \<Rightarrow> MKLDNNGraph" where
  "allocated a e \<equiv> upd_edge e (\<lambda>d. d\<lparr>me_memory := Some a, me_status := ES_Allocated\<rparr>)"

lemma allocate_edge_skip:
  "\<forall>e \<in> set es. me_status (mg_edge g e) \<noteq> ES_NeedAllocation \<Longrightarrow> foldE (allocate_edge s ws i) es (n, g) = Inr (n, g)"
  by (induction es) (auto simp: allocate_edge_def)

lemma allocate_cluster_ok:
  assumes r: "r \<in> set (cls ! i)" "me_status (mg_edge g r) = ES_NeedAllocation" "alloc_ready g r"
    and others: "\<And>e. e \<in> set (cls ! i) \<Longrightarrow> e \<noteq> r \<Longrightarrow> me_status (mg_edge g e) \<noteq> ES_NeedAllocation"
    and off: "getOffset s (int i) = Inr off"
  shows "allocate_cluster s ws cls i g = Inr (allocated (ws + off * alignment) r g)"
proof -
  obtain xs ys where split: "cls ! i = xs @ r # ys" "r \<notin> set xs" using split_list_first [OF r(1)] by blast
  let ?g = "allocated (ws + off * alignment) r g"
  have "edge_allocate (ws + off * alignment) r g = Inr ?g"
    using r(2,3) by (auto simp: edge_allocate_def alloc_ready_def Let_def)
  then have "allocate_edge s ws i r (0, g) = Inr (1, ?g)" using r(2) off by (simp add: allocate_edge_def)
  moreover have "\<forall>e \<in> set xs. me_status (mg_edge g e) \<noteq> ES_NeedAllocation" using others split by auto
  moreover have "\<forall>e \<in> set ys. me_status (mg_edge ?g e) \<noteq> ES_NeedAllocation" using others split by auto
  ultimately show ?thesis using split(1) by (simp add: allocate_cluster_def allocate_edge_skip)
qed

text \<open>After the first \<open>k\<close> clusters their roots have memory, and no other edge has changed.\<close>

lemma allocate_clusters_ok:
  assumes r: "\<And>i. i < length cls \<Longrightarrow> r i \<in> set (cls ! i) \<and> me_status (mg_edge g (r i)) = ES_NeedAllocation \<and> alloc_ready g (r i)"
    and others: "\<And>i e. i < length cls \<Longrightarrow> e \<in> set (cls ! i) \<Longrightarrow> e \<noteq> r i \<Longrightarrow> me_status (mg_edge g e) \<noteq> ES_NeedAllocation"
    and apart: "\<And>i j. i < length cls \<Longrightarrow> j < length cls \<Longrightarrow> r i \<in> set (cls ! j) \<Longrightarrow> i = j"
    and off: "\<And>i. i < length cls \<Longrightarrow> getOffset s (int i) = Inr (off i)"
  shows "k \<le> length cls \<Longrightarrow> \<exists>g'. foldE (allocate_cluster s ws cls) [0..<k] g = Inr g' \<and>
    mg_graphEdges g' = mg_graphEdges g \<and> mg_graphNodes g' = mg_graphNodes g \<and> mg_node g' = mg_node g \<and>
    mg_memWorkspace g' = mg_memWorkspace g \<and>
    (\<forall>i < k. mg_edge g' (r i) = (mg_edge g (r i))\<lparr>me_memory := Some (ws + off i * alignment), me_status := ES_Allocated\<rparr>) \<and>
    (\<forall>e. e \<notin> r ` {..<k} \<longrightarrow> mg_edge g' e = mg_edge g e)"
proof (induction k)
  case (Suc k)
  then obtain h where h: "foldE (allocate_cluster s ws cls) [0..<k] g = Inr h" "mg_graphEdges h = mg_graphEdges g"
    "mg_graphNodes h = mg_graphNodes g" "mg_node h = mg_node g" "mg_memWorkspace h = mg_memWorkspace g"
    "\<forall>i < k. mg_edge h (r i) = (mg_edge g (r i))\<lparr>me_memory := Some (ws + off i * alignment), me_status := ES_Allocated\<rparr>"
    "\<forall>e. e \<notin> r ` {..<k} \<longrightarrow> mg_edge h e = mg_edge g e" by auto
  have k: "k < length cls" using Suc.prems by simp
  have fresh: "e \<notin> r ` {..<k}" if "e \<in> set (cls ! k)" for e
  proof
    assume "e \<in> r ` {..<k}"
    then obtain i where "i < k" "e = r i" by auto
    then show False using apart [of i k] that k by simp
  qed
  have same: "mg_edge h e = mg_edge g e" if "e \<in> set (cls ! k)" for e using h(7) fresh [OF that] by blast
  have "allocate_cluster s ws cls k h = Inr (allocated (ws + off k * alignment) (r k) h)"
  proof (rule allocate_cluster_ok)
    show "r k \<in> set (cls ! k)" using r [OF k] by simp
    then show "me_status (mg_edge h (r k)) = ES_NeedAllocation" "alloc_ready h (r k)"
      using r [OF k] same by (simp_all add: alloc_ready_def)
    show "me_status (mg_edge h e) \<noteq> ES_NeedAllocation" if "e \<in> set (cls ! k)" "e \<noteq> r k" for e
      using others [OF k that] same [OF that(1)] by simp
  qed (rule off [OF k])
  moreover have "r i \<noteq> r k" if "i < k" for i using fresh [of "r k"] r [OF k] that by (metis image_eqI lessThan_iff)
  ultimately show ?case using h k same r [OF k]
    by (intro exI [of _ "allocated (ws + off k * alignment) (r k) h"]) (auto simp: less_Suc_eq lessThan_Suc)
qed simp

section \<open>The whole allocation\<close>

lemma root_needs:
  assumes s: "sharing_ok g root depth"
  shows "e \<in> set (mg_graphEdges g) \<Longrightarrow>
    root e \<in> set (mg_graphEdges g) \<and> me_status (mg_edge g (root e)) = ES_NeedAllocation \<and> root (root e) = root e"
proof (induction "depth e" arbitrary: e rule: less_induct)
  case less
  show ?case
  proof (cases "me_status (mg_edge g e) = ES_NotAllocated")
    case True
    then obtain p where "p \<in> set (mg_graphEdges g)" "root e = root p" "depth p < depth e"
      using sharing_view [OF s less.prems] by blast
    then show ?thesis using less.hyps by simp
  next
    case False
    then show ?thesis using sharing_need [OF s less.prems] less.prems by simp
  qed
qed

definition descs_ok :: "MKLDNNGraph \<Rightarrow> bool" where
  "descs_ok g \<longleftrightarrow> (\<forall>e \<in> set (mg_graphEdges g). (\<exists>s. edge_bytes g e = Inr s) \<and>
     (me_dims (mg_edge g e) \<noteq> [] \<or> (\<exists>ds. find_dims g e = Inr ds)) \<and>
     (me_status (mg_edge g e) = ES_NeedAllocation \<longrightarrow> alloc_ready g e))"

text \<open>The cluster of an edge has an index, and its root is the one edge that needs memory.\<close>

lemma edge_clusters_indexed:
  assumes s: "sharing_ok g root depth"
  obtains cls idx r where "edge_clusters g = Inr cls" "\<And>i. i < length cls \<Longrightarrow> cls ! i \<noteq> [] \<and> set (cls ! i) \<subseteq> set (mg_graphEdges g)"
    "\<And>e. e \<in> set (mg_graphEdges g) \<Longrightarrow> idx e < length cls \<and> e \<in> set (cls ! idx e) \<and> idx (root e) = idx e \<and> root e = r (idx e)"
    "\<And>i. i < length cls \<Longrightarrow> r i \<in> set (cls ! i) \<and> me_status (mg_edge g (r i)) = ES_NeedAllocation"
    "\<And>i e. i < length cls \<Longrightarrow> e \<in> set (cls ! i) \<Longrightarrow> e \<noteq> r i \<Longrightarrow> me_status (mg_edge g e) \<noteq> ES_NeedAllocation"
    "\<And>i j. i < length cls \<Longrightarrow> j < length cls \<Longrightarrow> r i \<in> set (cls ! j) \<Longrightarrow> i = j"
proof -
  let ?E = "set (mg_graphEdges g)"
  obtain cls where cls: "edge_clusters g = Inr cls" "\<And>i. i < length cls \<Longrightarrow> cls ! i \<noteq> [] \<and> set (cls ! i) \<subseteq> ?E"
    "\<And>e. e \<in> ?E \<Longrightarrow> \<exists>i < length cls. e \<in> set (cls ! i)"
    "\<And>i j e e'. i < length cls \<Longrightarrow> j < length cls \<Longrightarrow> e \<in> set (cls ! i) \<Longrightarrow> e' \<in> set (cls ! j) \<Longrightarrow> root e = root e' \<longleftrightarrow> i = j"
    "\<And>i e. i < length cls \<Longrightarrow> e \<in> set (cls ! i) \<Longrightarrow> root e \<in> set (cls ! i)"
    using edge_clusters_ok [OF s] by blast
  define idx where "idx e = (SOME i. i < length cls \<and> e \<in> set (cls ! i))" for e
  have idx: "idx e < length cls" "e \<in> set (cls ! idx e)" if "e \<in> ?E" for e
    using someI_ex [OF cls(3) [OF that]] unfolding idx_def by auto
  define r where "r i = root (hd (cls ! i))" for i
  have r: "root e = r i" if "i < length cls" "e \<in> set (cls ! i)" for i e
    using cls(4) [OF that(1,1,2), of "hd (cls ! i)"] cls(2) [OF that(1)] by (simp add: r_def)
  have r_in: "r i \<in> set (cls ! i)" "me_status (mg_edge g (r i)) = ES_NeedAllocation" if "i < length cls" for i
    using cls(2) [OF that] cls(5) [OF that] root_needs [OF s, of "hd (cls ! i)"] unfolding r_def by (auto simp: subset_iff)
  have idx_root: "idx (root e) = idx e" if "e \<in> ?E" for e
  proof -
    note R = root_needs [OF s that]
    from cls(4) [OF idx(1) [of "root e"] idx(1) [OF that] idx(2) [of "root e"] idx(2) [OF that]] R show ?thesis by simp
  qed
  show thesis
  proof (rule that [OF cls(1,2), of idx r])
    show "me_status (mg_edge g e) \<noteq> ES_NeedAllocation" if "i < length cls" "e \<in> set (cls ! i)" "e \<noteq> r i" for i e
      using r [OF that(1,2)] that(3) sharing_need(2) [OF s, of e] cls(2) [OF that(1)] that(2) by auto
    show "i = j" if "i < length cls" "j < length cls" "r i \<in> set (cls ! j)" for i j
      using cls(4) [OF that(1,2) r_in(1) [OF that(1)] that(3)] by simp
    show "idx e < length cls \<and> e \<in> set (cls ! idx e) \<and> idx (root e) = idx e \<and> root e = r (idx e)" if "e \<in> ?E" for e
      using idx [OF that] idx_root [OF that] r [OF idx [OF that]] by simp
  qed (use r_in in auto)
qed

text \<open>\<open>AllocateWithReuse\<close> gives each root its place and leaves the views alone.\<close>

definition roots_allocated :: "MKLDNNGraph \<Rightarrow> (nat \<Rightarrow> int) \<Rightarrow> MKLDNNGraph \<Rightarrow> bool" where
  "roots_allocated g addr g' \<longleftrightarrow> (\<forall>e. mg_edge g' e =
     (if e \<in> set (mg_graphEdges g) \<and> me_status (mg_edge g e) = ES_NeedAllocation
      then (mg_edge g e)\<lparr>me_memory := Some (addr e), me_status := ES_Allocated\<rparr> else mg_edge g e))"

lemma AllocateWithReuse_ok:
  assumes g: "exec_ok g" and s: "sharing_ok g root depth" and d: "descs_ok g"
  obtains g' c total addr size where "AllocateWithReuse ws g = Inr g'" "mg_memWorkspace g' = Some (ws, total)"
    "keeps_marks (marks g) c" "\<forall>e \<in> set (mg_graphEdges g). settled g c e"
    "mg_graphEdges g' = mg_graphEdges g" "mg_graphNodes g' = mg_graphNodes g" "mg_node g' = mg_node (recon c g)" "roots_allocated g addr g'"
    "\<And>e t. e \<in> set (mg_graphEdges g) \<Longrightarrow> edge_bytes g e = Inr t \<Longrightarrow> t \<le> size (root e) \<and> ws \<le> addr (root e) \<and> addr (root e) + size (root e) \<le> ws + total"
    "\<And>e e'. e \<in> set (mg_graphEdges g) \<Longrightarrow> e' \<in> set (mg_graphEdges g) \<Longrightarrow> root e \<noteq> root e' \<Longrightarrow> live_with g e e' \<or> pinned g c e \<Longrightarrow>
      disjoint_ivl (addr (root e)) (size (root e)) (addr (root e')) (size (root e'))"
proof -
  let ?E = "set (mg_graphEdges g)"
  obtain cls idx r where cls: "edge_clusters g = Inr cls" "\<And>i. i < length cls \<Longrightarrow> cls ! i \<noteq> [] \<and> set (cls ! i) \<subseteq> ?E"
    and idx: "\<And>e. e \<in> ?E \<Longrightarrow> idx e < length cls \<and> e \<in> set (cls ! idx e) \<and> idx (root e) = idx e \<and> root e = r (idx e)"
    and r: "\<And>i. i < length cls \<Longrightarrow> r i \<in> set (cls ! i) \<and> me_status (mg_edge g (r i)) = ES_NeedAllocation"
    and others: "\<And>i e. i < length cls \<Longrightarrow> e \<in> set (cls ! i) \<Longrightarrow> e \<noteq> r i \<Longrightarrow> me_status (mg_edge g e) \<noteq> ES_NeedAllocation"
    and apart: "\<And>i j. i < length cls \<Longrightarrow> j < length cls \<Longrightarrow> r i \<in> set (cls ! j) \<Longrightarrow> i = j"
    by (rule edge_clusters_indexed [OF s]) (rule that; assumption)
  obtain boxes c where boxes: "foldE (add_box cls) [0..<length cls] ([], g) = Inr (boxes, recon c g)" "length boxes = length cls"
    "keeps_marks (marks g) c"
    "\<forall>i < length cls. box_ok g c (cls ! i) i (boxes ! i)"
    using boxes_ok [OF g cls(2)] d unfolding descs_ok_def by blast
  obtain m sv off where sv: "solve (mk_MemorySolver boxes) = Inr (m, sv)"
    "\<And>i. i < length cls \<Longrightarrow> getOffset sv (int i) = Inr (off i) \<and> 0 \<le> off i \<and> off i + box_size (boxes ! i) \<le> m"
    "\<And>i j e e'. i < length cls \<Longrightarrow> j < length cls \<Longrightarrow> i \<noteq> j \<Longrightarrow> e \<in> set (cls ! i) \<Longrightarrow> e' \<in> set (cls ! j) \<Longrightarrow>
      live_with g e e' \<or> pinned g c e \<Longrightarrow> disjoint_ivl (off i) (box_size (boxes ! i)) (off j) (box_size (boxes ! j))"
    using boxes_solved [of boxes g c cls] boxes(2,4) by metis
  let ?g0 = "(recon c g)\<lparr>mg_memWorkspace := Some (ws, m * alignment)\<rparr>"
  have "r i \<in> set (cls ! i) \<and> me_status (mg_edge ?g0 (r i)) = ES_NeedAllocation \<and> alloc_ready ?g0 (r i)" if "i < length cls" for i
    using r [OF that] d cls(2) [OF that] unfolding descs_ok_def by (auto simp: alloc_ready_def subset_iff)
  from allocate_clusters_ok [of cls r ?g0 sv off "length cls" ws, OF this _ apart] others sv(2)
  obtain g' where g': "foldE (allocate_cluster sv ws cls) [0..<length cls] ?g0 = Inr g'"
    "mg_graphEdges g' = mg_graphEdges g" "mg_graphNodes g' = mg_graphNodes g" "mg_node g' = mg_node (recon c g)"
    "mg_memWorkspace g' = Some (ws, m * alignment)"
    "\<forall>i < length cls. mg_edge g' (r i) = (mg_edge g (r i))\<lparr>me_memory := Some (ws + off i * alignment), me_status := ES_Allocated\<rparr>"
    "\<forall>e. e \<notin> r ` {..<length cls} \<longrightarrow> mg_edge g' e = mg_edge g e" by auto
  have "roots_allocated g (\<lambda>e. ws + off (idx e) * alignment) g'"
  proof -
    have R: "r (idx e) = e \<and> idx e < length cls" if "e \<in> ?E" "me_status (mg_edge g e) = ES_NeedAllocation" for e
      using idx [OF that(1)] sharing_need(2) [OF s that(1)] that(2) by simp
    then have "e \<in> r ` {..<length cls} \<longleftrightarrow> e \<in> ?E \<and> me_status (mg_edge g e) = ES_NeedAllocation" for e
      using r cls(2) by (metis (no_types, lifting) imageE image_eqI lessThan_iff subsetD)
    then show ?thesis unfolding roots_allocated_def using g'(6,7) R by metis
  qed
  have settled: "\<forall>e \<in> ?E. settled g c e" using idx boxes(4) unfolding box_ok_def by blast
  show thesis
  proof (rule that [of g' "m * alignment" c "\<lambda>e. ws + off (idx e) * alignment" "\<lambda>e. alignment * box_size (boxes ! idx e)"])
    show "AllocateWithReuse ws g = Inr g'" using cls(1) boxes(1) sv(1) g'(1) by (simp add: AllocateWithReuse_def)
    show "t \<le> alignment * box_size (boxes ! idx (root e)) \<and> ws \<le> ws + off (idx (root e)) * alignment \<and>
        ws + off (idx (root e)) * alignment + alignment * box_size (boxes ! idx (root e)) \<le> ws + m * alignment"
      if e: "e \<in> ?E" "edge_bytes g e = Inr t" for e t
      using boxes(4) idx [OF e(1)] sv(2) [of "idx e"] e(2) unfolding box_ok_def by (auto simp: alignment_def)
    show "disjoint_ivl (ws + off (idx (root e)) * alignment) (alignment * box_size (boxes ! idx (root e)))
        (ws + off (idx (root e')) * alignment) (alignment * box_size (boxes ! idx (root e')))"
      if e: "e \<in> ?E" "e' \<in> ?E" "root e \<noteq> root e'" "live_with g e e' \<or> pinned g c e" for e e'
    proof -
      have "idx e \<noteq> idx e'" using e(3) idx [OF e(1)] idx [OF e(2)] by auto
      then have "disjoint_ivl (off (idx e)) (box_size (boxes ! idx e)) (off (idx e')) (box_size (boxes ! idx e'))"
        using sv(3) idx e by blast
      then show ?thesis using idx [OF e(1)] idx [OF e(2)] unfolding disjoint_ivl_def alignment_def by auto
    qed
    show "keeps_marks (marks g) c" by (rule boxes(3))
  qed (fact settled | fact)+
qed

lemma links_ok_cong:
  assumes "mg_graphEdges g' = mg_graphEdges g" "mg_graphNodes g' = mg_graphNodes g"
    and "\<And>x. mn_childEdges (mg_node g' x) = mn_childEdges (mg_node g x) \<and> mn_parentEdges (mg_node g' x) = mn_parentEdges (mg_node g x) \<and>
      mn_inDims (mg_node g' x) = mn_inDims (mg_node g x) \<and> mn_outDims (mg_node g' x) = mn_outDims (mg_node g x)"
    and "\<And>e. me_parent (mg_edge g' e) = me_parent (mg_edge g e) \<and> me_child (mg_edge g' e) = me_child (mg_edge g e) \<and>
      me_parent_port (mg_edge g' e) = me_parent_port (mg_edge g e) \<and> me_child_port (mg_edge g' e) = me_child_port (mg_edge g e)"
  shows "links_ok g' \<longleftrightarrow> links_ok g"
  by (simp add: links_ok_def child_ok_def parent_ok_def assms)

text \<open>Then the links are as before, and every edge leads to memory.\<close>

lemma after_reuse:
  assumes g: "exec_ok g" and s: "sharing_ok g root depth" and d: "descs_ok g" and a: "roots_allocated g addr g'"
    and eq: "mg_graphEdges g' = mg_graphEdges g" "mg_graphNodes g' = mg_graphNodes g" "mg_node g' = mg_node (recon c g)"
  shows "links_ok g'" "views_ok g' root depth addr g'"
proof -
  let ?E = "set (mg_graphEdges g)"
  have ends: "me_parent (mg_edge g' e) = me_parent (mg_edge g e) \<and> me_child (mg_edge g' e) = me_child (mg_edge g e) \<and>
      me_parent_port (mg_edge g' e) = me_parent_port (mg_edge g e) \<and> me_child_port (mg_edge g' e) = me_child_port (mg_edge g e) \<and>
      getDesc g' e = getDesc g e" for e
    using a by (simp add: roots_allocated_def getDesc_def)
  have "links_ok g" using g by (simp add: exec_ok_def)
  then show "links_ok g'" using links_ok_cong [of g' g] eq ends by (simp add: recon_def)
  have "view_ok root depth addr g' e" if e: "e \<in> ?E" for e
  proof -
    have "\<exists>d. getDesc g' e = Inr d"
      using d e ends [of e] by (cases "getDesc g e") (auto simp: descs_ok_def edge_bytes_def)
    moreover have "me_status (mg_edge g' e) = ES_NotAllocated \<and> (\<exists>p \<in> ?E. me_memoryFromEdge (mg_edge g' e) = Some p \<and> root e = root p \<and> depth p < depth e)
        \<or> me_status (mg_edge g' e) = ES_Allocated \<and> me_memory (mg_edge g' e) = Some (addr (root e))"
      using s e a unfolding sharing_ok_def roots_allocated_def by auto
    moreover have "dims_ok g e" using g d e by (simp add: dims_ok_def node_alive_def exec_ok_def descs_ok_def)
    then have "dims_ok g' e"
      by (rule dims_ok_same) (use eq a in \<open>auto simp: roots_allocated_def recon_def\<close>)
    ultimately show ?thesis using eq(1) by (auto simp: view_ok_def has_memory_def)
  qed
  then show "views_ok g' root depth addr g'" by (simp add: views_ok_def eq(1))
qed

section \<open>Properties\<close>

text \<open>
  C26. The links of the graph are sound and it is in execution order; the first loop of \<open>Allocate\<close>, which is not modelled, has
  left every edge in need of memory or as a view that leads to one; the dimensions of every edge can be told from its
  ends; its ends have descriptors of it that agree, in every part where the edge needs memory and has a batch of more than one, and
  whose size is known; the edges that need memory have a layout and no memory yet; and every node has a selected primitive (otherwise \<open>Allocate\<close> throws). Then the rest of
  \<open>Allocate\<close> returns: every edge is validated and has an address in the workspace with room for its
  tensor, a view has the address of its root, and an edge shares no byte with an edge of another root
  whose lifetime meets its own, or with any other root's edges when its data is kept through the
  execution (constants, the memory layers, and, without reuse of them, the inputs and outputs). An
  edge carries a constant when its parent is constant and its child is not, by the marks that stand
  after the call; the call keeps the marks it found and has set those that decide about an edge.
\<close>

theorem allocated_memory_is_safe:
  assumes g: "exec_ok g" and s: "sharing_ok g root depth" and d: "descs_ok g" and c: "\<forall>x \<in> set (mg_graphNodes g). cfg x \<noteq> None"
  shows "\<exists>g' total. Allocate cfg ws g = Inr g' \<and> mg_memWorkspace g' = Some (ws, total) \<and> keeps_marks (marks g) (marks g') \<and>
    (\<forall>e \<in> set (mg_graphEdges g). me_status (mg_edge g' e) = ES_Validated \<and> settled g (marks g') e \<and>
      (\<exists>a n. me_memory (mg_edge g' e) = Some a \<and> edge_bytes g e = Inr n \<and> ws \<le> a \<and> a + n \<le> ws + total \<and>
        (\<forall>e' \<in> set (mg_graphEdges g). \<exists>a' n'. me_memory (mg_edge g' e') = Some a' \<and> edge_bytes g e' = Inr n' \<and>
          (if root e' = root e then a' = a else live_with g e e' \<or> pinned g (marks g') e \<longrightarrow> disjoint_ivl a n a' n'))))"
proof -
  let ?E = "set (mg_graphEdges g)"
  obtain g1 k total addr size where g1: "AllocateWithReuse ws g = Inr g1" "mg_memWorkspace g1 = Some (ws, total)"
    "mg_graphEdges g1 = mg_graphEdges g" "mg_graphNodes g1 = mg_graphNodes g" "mg_node g1 = mg_node (recon k g)" "roots_allocated g addr g1"
    and marks: "keeps_marks (marks g) k" "\<forall>e \<in> ?E. settled g k e"
    and room: "\<And>e t. e \<in> ?E \<Longrightarrow> edge_bytes g e = Inr t \<Longrightarrow> t \<le> size (root e) \<and> ws \<le> addr (root e) \<and> addr (root e) + size (root e) \<le> ws + total"
    and apart: "\<And>e e'. e \<in> ?E \<Longrightarrow> e' \<in> ?E \<Longrightarrow> root e \<noteq> root e' \<Longrightarrow> live_with g e e' \<or> pinned g k e \<Longrightarrow>
      disjoint_ivl (addr (root e)) (size (root e)) (addr (root e')) (size (root e'))"
    using AllocateWithReuse_ok [OF g s d, of ws] by metis
  note after = after_reuse [OF g s d g1(6) g1(3-5)]
  have "\<forall>x \<in> set (mg_graphNodes g1). cfg x \<noteq> None" using c g1(4) by simp
  from views_resolved [OF after this] obtain g2 where
    g2: "bindE (foldE (resolveNotAllocatedEdges cfg) (mg_graphNodes g1) g1) validate_edges = Inr g2" "mg_memWorkspace g2 = Some (ws, total)" "mg_node g2 = mg_node g1"
    "\<And>e. e \<in> ?E \<Longrightarrow> me_status (mg_edge g2 e) = ES_Validated \<and> me_memory (mg_edge g2 e) = Some (addr (root e))"
    using g1(2,3) by auto
  define bytes where "bytes e = projr (edge_bytes g e)" for e
  have bytes: "edge_bytes g e = Inr (bytes e)" if "e \<in> ?E" for e using d that by (auto simp: descs_ok_def bytes_def)
  have "\<exists>a n. me_memory (mg_edge g2 e) = Some a \<and> edge_bytes g e = Inr n \<and> ws \<le> a \<and> a + n \<le> ws + total \<and>
      (\<forall>e' \<in> ?E. \<exists>a' n'. me_memory (mg_edge g2 e') = Some a' \<and> edge_bytes g e' = Inr n' \<and>
        (if root e' = root e then a' = a else live_with g e e' \<or> pinned g k e \<longrightarrow> disjoint_ivl a n a' n'))" if e: "e \<in> ?E" for e
  proof (intro exI conjI ballI)
    fix e' assume e': "e' \<in> ?E"
    show "if root e' = root e then addr (root e') = addr (root e)
      else live_with g e e' \<or> pinned g k e \<longrightarrow> disjoint_ivl (addr (root e)) (bytes e) (addr (root e')) (bytes e')"
      using apart [OF e e'] room [OF e bytes [OF e]] room [OF e' bytes [OF e']] by (auto simp: disjoint_ivl_def)
  qed (use g2(4) bytes e room [OF e bytes [OF e]] in auto)
  then have "\<forall>e \<in> ?E. me_status (mg_edge g2 e) = ES_Validated \<and>
      (\<exists>a n. me_memory (mg_edge g2 e) = Some a \<and> edge_bytes g e = Inr n \<and> ws \<le> a \<and> a + n \<le> ws + total \<and>
        (\<forall>e' \<in> ?E. \<exists>a' n'. me_memory (mg_edge g2 e') = Some a' \<and> edge_bytes g e' = Inr n' \<and>
          (if root e' = root e then a' = a else live_with g e e' \<or> pinned g k e \<longrightarrow> disjoint_ivl a n a' n')))"
    using g2(4) by blast
  moreover have "Allocate cfg ws g = Inr g2" using g1(1) g2(1) by (simp add: Allocate_def)
  moreover have "marks g2 = k" using g2(3) g1(5) by simp
  ultimately show ?thesis using g2(2) marks by (intro exI [of _ g2] exI [of _ total]) blast
qed

text \<open>An input that feeds both ports of a node, by one edge with memory and one view, and an output.\<close>

definition ex_desc :: TensorDesc where [examples]:
  "ex_desc = \<lparr>td_layout = L_NC, td_dims = [1, 8], td_precision = P_FP32, td_blockingDesc =
     \<lparr>bd_blockedDims = [1, 8], bd_strides = [8, 1], bd_order = [0, 1], bd_offsetPaddingToData = [0, 0], bd_offsetPadding = 0\<rparr>\<rparr>"

definition ex_mem :: MKLDNNGraph where [examples]:
  "ex_mem = ex_cpu\<lparr>mg_node := (\<lambda>x. (mg_node ex_cpu x)\<lparr>mn_execIndex := if x = 2 then 0 else if x = 1 then 1 else 2\<rparr>),
     mg_edge := (\<lambda>e. (mg_edge ex_cpu e)\<lparr>me_memoryFromEdge := if e = 1 then Some 0 else None,
       me_status := if e = 1 then ES_NotAllocated else ES_NeedAllocation, me_inputDesc := ex_desc, me_outputDesc := ex_desc\<rparr>)\<rparr>"

lemma ex_mem_bytes: "edge_bytes ex_mem e = Inr 32"
  by (simp add: edge_bytes_def getDesc_def ex_mem_def ex_desc_def initTensorsAreEqual_def init_differ_def Let_def upt_rec
      edge_size_def precision_size_def precision_bits_def)

lemma ex_mem_ok:
  "exec_ok ex_mem" "sharing_ok ex_mem (\<lambda>e. if e = 1 then 0 else e) (\<lambda>e. e)" "descs_ok ex_mem"
  "set (mg_graphEdges ex_mem) = {0, 1, 2}"
proof -
  have "links_ok ex_mem" using ex_cpu_links links_ok_cong [of ex_mem ex_cpu] by (simp add: ex_mem_def)
  then show "exec_ok ex_mem"
    by (simp add: exec_ok_def) (simp add: examples)
  show "sharing_ok ex_mem (\<lambda>e. if e = 1 then 0 else e) (\<lambda>e. e)"
    by (simp add: sharing_ok_def) (simp add: examples)
  have "alloc_ready ex_mem e" for e
    by (simp add: alloc_ready_def examples initTensorsAreEqual_def init_differ_def Let_def upt_rec)
  moreover have "\<forall>e \<in> set (mg_graphEdges ex_mem). \<exists>ds. find_dims ex_mem e = Inr ds"
    by (simp add: examples find_dims_def node_alive_def)
  ultimately show "descs_ok ex_mem" by (simp add: descs_ok_def ex_mem_bytes)
qed (auto simp: examples)

theorem allocated_memory_is_safe_witness:
  "\<exists>g' total a a'. Allocate (\<lambda>_. Some ([], [])) 4096 ex_mem = Inr g' \<and> mg_memWorkspace g' = Some (4096, total) \<and>
     me_memory (mg_edge g' 0) = Some a \<and> me_memory (mg_edge g' 1) = Some a \<and> me_memory (mg_edge g' 2) = Some a' \<and>
     disjoint_ivl a 32 a' 32"
proof -
  have c: "\<forall>x \<in> set (mg_graphNodes ex_mem). Some ([], []) \<noteq> None" by simp
  have "live_with ex_mem 0 2" by (simp add: live_with_def examples)
  then show ?thesis
    using allocated_memory_is_safe [OF ex_mem_ok(1-3) c, of 4096] by (auto simp: ex_mem_ok(4) ex_mem_bytes)
qed

end
