(* ===== verification/Spec2Isabelle.thy ===== *)
theory Spec2Isabelle
  imports BlobCopy ShapeAxesProps HeteroSplit MemorySolver VpuModelProps VpuInject VpuResources Layouts TaskExecutor AsyncRequest HalfFloat GnaPlacement CpuDrop CpuAllocate
begin
text \<open>
  A verification library for the OpenVINO toolkit, release 2019 R3: the parts of its C++ code
  that plan memory, order graphs, infer shapes and coordinate requests. Paths are those of the repository's \<open>src/\<close>
  tree; \<open>IE\<close> stands for \<open>src/src/inference_engine\<close>, \<open>VPU\<close> for \<open>src/src/vpu/graph_transformer\<close> and
  \<open>CPU\<close> for \<open>src/src/mkldnn_plugin\<close>.

  \<^bold>\<open>The program.\<close> The inference engine loads a network and hands it to the plugin of a device. Each
  plugin turns the network into a graph of its own, rewrites it, puts it in an order of execution and
  gives every tensor a place in memory; requests then run on the compiled network from several threads.
  The parts meet in few data: tensor layouts (\<open>Layouts\<close> and \<open>VpuDesc\<close>) say how many bytes a tensor
  takes, an order of execution says when it lives, and a planner (\<open>MemorySolver\<close>, \<open>VpuPool\<close> with
  \<open>VpuAllocator\<close>, \<open>GnaMemory\<close>) keeps what lives at the same time apart.

  \<^bold>\<open>Conventions.\<close> An operation that throws (\<open>IE_ASSERT\<close>, \<open>THROW_IE_EXCEPTION\<close>,
  \<open>VPU_THROW_EXCEPTION\<close>, \<open>std::map::at\<close>) returns a sum with the exception on the left and is sequenced
  by \<open>bindE\<close>; a loop whose body throws is \<open>foldE\<close> (\<open>Prelude\<close>). Objects behind pointers are numbers into a
  store held by the record of the state. A \<open>std::vector\<close> is a list, a \<open>std::map\<close> a partial map, an
  unordered set a list in the order of insertion, and \<open>std::sort\<close> a stable insertion sort by the comparison of the
  code. Integers are unbounded where the code overflows only past \<open>2^63\<close> (which each theory says), and words or \<open>mod 2 ^ w\<close>
  where it masks, shifts or casts them. Messages of exceptions are cut to their fixed part.

  \<^bold>\<open>Theories and code.\<close>

  \<^item> \<open>Prelude\<close>: results, loops that may throw, sorting, intervals.
  \<^item> \<open>MemorySolver\<close> (\<open>CPU/mkldnn_memory_solver.cpp\<close>): boxes of a lifetime and a size are packed into one
    buffer. Boxes that live together are apart, the solution lies between the peak of the live sizes and
    their sum, \<open>maxDepth\<close> is that peak. The locale \<open>box_solver\<close> is what the graph below relies on.
  \<^item> \<open>CpuGraph\<close>, \<open>CpuOrder\<close>, \<open>CpuDrop\<close>, \<open>CpuConstant\<close> (\<open>CPU/mkldnn_graph.cpp\<close>, \<open>mkldnn_node.cpp\<close>,
    \<open>mkldnn_edge.cpp\<close>): the graph of the CPU plugin. Sorting numbers the nodes along the edges and puts the
    edges of a node at their ports, dropping a node connects its neighbours, the search for constant
    neighbours ends.
  \<^item> \<open>CpuMemory\<close>, \<open>CpuReuse\<close>, \<open>CpuViews\<close>, \<open>CpuAllocate\<close> (\<open>AllocateWithReuse\<close> and \<open>Allocate\<close> of the same
    graph, with the validation of the edges and their sizes): edges that view one memory form a cluster, a cluster is a box of
    the solver. Every edge gets an address inside the workspace, views that of their root, and edges that live together do
    not overlap; memory that is filled once (constants, by the marks the run leaves) is not used by anything else.
  \<^item> \<open>VpuNumeric\<close>, \<open>VpuPool\<close>, \<open>VpuGraph\<close>, \<open>VpuAllocator\<close>, \<open>VpuAllocInv\<close>, \<open>VpuResources\<close>
    (\<open>VPU/src/allocator.cpp\<close>, \<open>allocator_shaves.cpp\<close>, \<open>passes/allocate_resources.cpp\<close> and the nodes of
    \<open>model/\<close>): best-fit pools with coalescing (locale \<open>mem_pools\<close>), the allocator over data nodes and its
    invariant that each placed node owns one live chunk, the pass that runs it along the stages, its self check.
  \<^item> \<open>VpuDims\<close>, \<open>VpuOrder\<close>, \<open>VpuDesc\<close> (\<open>VPU/src/model/data_desc.cpp\<close>): dimension containers (locale
    \<open>dim_container\<close>), layouts as order codes of 64 bits (locale \<open>dims_order\<close>), strides and their requirements. Codes
    and permutations are inverse, computed strides meet the requirements and keep elements apart.
  \<^item> \<open>VpuModel\<close>, \<open>VpuModelLinks\<close>, \<open>VpuModelInv\<close>, \<open>VpuModelOps\<close>, \<open>VpuModelRemove\<close>, \<open>VpuModelReach\<close>,
    \<open>VpuModelProps\<close>, \<open>VpuStageOrder\<close>, \<open>VpuShare\<close>, \<open>VpuInject\<close> (\<open>VPU/src/model/model.cpp\<close>): the model graph
    with every operation that rewires it. Both ends of an edge agree and links are counted exactly in every model that the
    operations build, injection apart (\<open>built\<close>), the stage order is topological and exists just for acyclic models, data that share memory stay in
    their parent's region, injected stages.
  \<^item> \<open>Layouts\<close> (\<open>IE/ie_layouts.cpp\<close>): blocking descriptors, offsets of elements, detection of layouts.
  \<^item> \<open>BlobCopy\<close> (\<open>IE/blob_transform.cpp\<close>, as compiled without the vector kernels): the copy of a dense blob into another layout
    moves the element at every position to the offset the other descriptor computes for it.
  \<^item> \<open>Tasks\<close>, \<open>TaskExecutor\<close>, \<open>AsyncRequest\<close> (\<open>IE/cpp_interfaces\<close>): tasks, their synchronizer, the worker
    thread and asynchronous requests, as step relations over the states between two uses of a mutex or condition
    variable. Threads sleep on the condition variable and are woken by a notification or for no reason. Tasks exclude each other
    and the synchronizer comes to an end whatever the schedule, the executor refines a queue, runs tasks in order and drains
    before it ends; a callback that leaves its request alone is called once.
  \<^item> \<open>HalfFloat\<close> (\<open>IE/precision_utils.cpp\<close>): conversion to and from half precision on the bits, exact up to half a unit in
    the last place in the range of normal halves; denormal halves become zero or the least normal number.
  \<^item> \<open>GnaMemory\<close>, \<open>GnaPlacement\<close> (\<open>src/src/gna_plugin/gna_mem_requests*.hpp\<close>, \<open>gna_memory.hpp\<close>): the queue of
    memory requests and \<open>commit\<close>, which places them and fills the block.
  \<^item> \<open>LayerParams\<close>, \<open>ShapeInfer\<close>, \<open>ShapeProps\<close>, \<open>ShapeAxes\<close>, \<open>ShapeAxesProps\<close> (\<open>src/include/ie_layers.h\<close>, \<open>IE/ie_layer_validators.cpp\<close>,
    \<open>IE/shape_infer/built-in\<close>): the text parameters of layers with the accessors that read numbers from them, and the
    inference of output shapes with the validators it calls. Splitting and concatenating, squeezing and unsqueezing, padding
    and cropping, blocks of space and depth undo each other, a reshape and a flattening keep the number of elements, a
    reduction goes by way of squeezing, the shapes of matrix products, lookups and element-wise layers.
  \<^item> \<open>HeteroSplit\<close> (\<open>src/src/hetero_plugin/hetero_graph_splitter.cpp\<close>): the split of a network by devices is a
    partition and ends, the parts are put in an order that follows the data. The ADE library, which selects the connected
    groups, is a parameter that is assumed to return non-empty sets grown from the nodes it was given; that it finds a group
    is not assumed, and where it finds none the split reads past the devices.
  \<^bold>\<open>Fuel and termination.\<close> A loop of the code is structural recursion or has a measure, except for
  walks over pointers that may be circular. Those take fuel and return \<open>OutOfFuel\<close> where the code would not
  return: \<open>walk_fuel\<close>, \<open>bind_fuel\<close> and \<open>memory_fuel\<close> are one more than the number of objects, which every chain
  without a circle stays below, and the theorems show for such inputs that the result is not \<open>OutOfFuel\<close>.
  Waiting for other threads is part of the step relations; that a wait ends is a theorem with a decreasing measure.

  \<^bold>\<open>Not modelled.\<close> Parsing of the IR and the network builders (pugixml, nGraph), numeric kernels and
  preprocessing (SIMD, floating point), the clDNN and HDDL/Myriad device code, quantisation and statistics, the
  passes of the VPU and GNA plugins that rewrite layers, fusion in the CPU graph and the selection of its primitives
  (their in-place entries are a parameter of \<open>Allocate\<close>), the shape inference
  of the other layer types, the statistics and printing of all parts. Operating-system services
  (threads, allocation) appear as steps or parameters.
\<close>
end
